(* ===== verification/Prelude.thy ===== *)
theory Prelude
  imports Main "HOL-Library.Word" "HOL-Library.AList" "HOL-Library.Multiset"
begin

text \<open>
  Shared vocabulary of the development: the key type and the machine words of the code, the
  exceptions it throws (and the assertion failures and undefined behaviours it can run into) as
  values, and \<open>std::unordered_map\<close> as an association list.

  The iteration order of an \<open>std::unordered_map\<close> is unspecified. The model is the list of its
  entries in the order in which a range-for visits them; since every theorem of the development
  quantifies over all such lists, it holds for every iteration order. What the components rely on
  is stated once, as the locale \<open>dict\<close>, and interpreted on the association-list operations.
\<close>

section \<open>Automation collections\<close>

named_theorems dict_simps \<open>lookup after an update of an association list\<close>
named_theorems inv_intros \<open>preservation of the components' invariants\<close>
named_theorems result_simps \<open>evaluation of results that may be exceptions\<close>

section \<open>Basic types\<close>

text \<open>\<open>using key_type = int\<close> of headerdef.hpp: keys are copied, compared and counted up from 0.\<close>

type_synonym key_type = int

type_synonym u8 = "8 word"
type_synonym u64 = "64 word"

text \<open>The limits of a 32-bit \<open>int\<close>, as \<open>std::numeric_limits\<close> gives them.\<close>

definition int_min :: int where "int_min = - 2147483648"

definition int_max :: int where "int_max = 2147483647"

section \<open>Exceptions as values\<close>

text \<open>
  \<open>DTC_THROW\<close> raises a \<open>std::runtime_error\<close>; \<open>unordered_map::at\<close> raises
  \<open>std::out_of_range\<close>; \<open>std::get\<close> on a variant raises \<open>std::bad_variant_access\<close>;
  \<open>std::stoi\<close> raises \<open>std::invalid_argument\<close> or \<open>std::out_of_range\<close>; failing system
  calls raise \<open>std::system_error\<close>. \<open>Assert_failed\<close> is a failing \<open>assert\<close>,
  \<open>Undefined\<close> an operation whose behaviour the language leaves undefined, such as
  dereferencing a disengaged \<open>std::optional\<close>; \<open>Exit\<close> is a call of \<open>std::exit\<close>.
\<close>

datatype exn =
    Runtime_error string
  | Out_of_range
  | Invalid_argument
  | Bad_variant_access
  | System_error int
  | Assert_failed
  | Undefined string
  | Exit int

type_synonym 'a result = "exn + 'a"

definition bind_r :: "'a result \<Rightarrow> ('a \<Rightarrow> 'b result) \<Rightarrow> 'b result" where
  "bind_r r f = (case r of Inl e \<Rightarrow> Inl e | Inr a \<Rightarrow> f a)"

lemma bind_r_simps [simp, result_simps]:
  "bind_r (Inl e) f = Inl e"
  "bind_r (Inr a) f = f a"
  by (simp_all add: bind_r_def)

lemma bind_r_eq_Inr [simp]: "bind_r r f = Inr b \<longleftrightarrow> (\<exists>a. r = Inr a \<and> f a = Inr b)"
  by (cases r) auto

lemma bind_r_eq_Inl: "bind_r r f = Inl e \<longleftrightarrow> r = Inl e \<or> (\<exists>a. r = Inr a \<and> f a = Inl e)"
  by (cases r) auto

lemma bind_r_cong [fundef_cong]:
  "r = r' \<Longrightarrow> (\<And>a. r' = Inr a \<Longrightarrow> f a = g a) \<Longrightarrow> bind_r r f = bind_r r' g"
  by (cases r') auto

text \<open>A loop over a container whose body may throw: it stops at the first exception.\<close>

fun fold_r :: "('a \<Rightarrow> 's \<Rightarrow> 's result) \<Rightarrow> 'a list \<Rightarrow> 's \<Rightarrow> 's result" where
  "fold_r f [] s = Inr s"
| "fold_r f (x # xs) s = bind_r (f x s) (fold_r f xs)"

lemma fold_r_append: "fold_r f (xs @ ys) s = bind_r (fold_r f xs s) (fold_r f ys)"
proof (induction xs arbitrary: s)
  case Nil
  show ?case by simp
next
  case (Cons x xs)
  then show ?case by (cases "f x s") simp_all
qed

lemma fold_r_invariant:
  assumes "fold_r f xs s = Inr t" "P s"
    and "\<And>x s t. x \<in> set xs \<Longrightarrow> P s \<Longrightarrow> f x s = Inr t \<Longrightarrow> P t"
  shows "P t"
  using assms
proof (induction xs arbitrary: s)
  case Nil
  then show ?case by simp
next
  case (Cons x xs)
  then obtain u where u: "f x s = Inr u" "fold_r f xs u = Inr t" by auto
  have "P u" using Cons.prems(2,3) u(1) by auto
  with Cons.IH[OF u(2)] Cons.prems(3) show ?case by auto
qed

lemma fold_r_total:
  assumes "P s"
    and "\<And>x s. x \<in> set xs \<Longrightarrow> P s \<Longrightarrow> \<exists>t. f x s = Inr t \<and> P t"
  shows "\<exists>t. fold_r f xs s = Inr t \<and> P t"
  using assms
proof (induction xs arbitrary: s)
  case Nil
  then show ?case by simp
next
  case (Cons x xs)
  then obtain t where "f x s = Inr t" "P t" by (meson list.set_intros(1))
  with Cons show ?case by auto
qed

section \<open>Outcomes\<close>

text \<open>A state and the exception that interrupted the operation, if any; the state holds what was
  done before it was thrown.\<close>

type_synonym 's outcome = "'s \<times> exn option"

definition then_o :: "'s outcome \<Rightarrow> ('s \<Rightarrow> 's outcome) \<Rightarrow> 's outcome" where
  "then_o r f = (case snd r of None \<Rightarrow> f (fst r) | Some e \<Rightarrow> r)"

lemma then_o_simps [simp]:
  "then_o (s, None) f = f s"
  "then_o (s, Some e) f = (s, Some e)"
  by (simp_all add: then_o_def)

fun fold_o :: "('a \<Rightarrow> 's \<Rightarrow> 's outcome) \<Rightarrow> 'a list \<Rightarrow> 's \<Rightarrow> 's outcome" where
  "fold_o f [] s = (s, None)"
| "fold_o f (x # xs) s = then_o (f x s) (fold_o f xs)"

section \<open>Bytes\<close>

text \<open>The object representation of an unsigned integer of \<open>w\<close> bytes on the little-endian machines
  the code runs on, and the integer a sequence of bytes represents.\<close>

fun le_bytes :: "nat \<Rightarrow> nat \<Rightarrow> u8 list" where
  "le_bytes 0 v = []"
| "le_bytes (Suc w) v = of_nat v # le_bytes w (v div 256)"

fun of_le :: "u8 list \<Rightarrow> nat" where
  "of_le [] = 0"
| "of_le (b # bs) = unat b + 256 * of_le bs"

lemma length_le_bytes [simp]: "length (le_bytes w v) = w"
  by (induction w arbitrary: v) auto

lemma unat_of_nat_u8: "unat (of_nat v :: u8) = v mod 256"
  by (simp add: unat_of_nat)

lemma of_le_le_bytes: "of_le (le_bytes w v) = v mod 256 ^ w"
proof (induction w arbitrary: v)
  case 0
  then show ?case by simp
next
  case (Suc w)
  then show ?case by (simp add: unat_of_nat_u8 mod_mult2_eq)
qed

lemma of_le_le_bytes_small [simp]: "v < 256 ^ w \<Longrightarrow> of_le (le_bytes w v) = v"
  by (simp add: of_le_le_bytes)

lemma unat_u8_less: "unat (b :: u8) < 256"
  using unsigned_less[of b, where 'a = nat] by simp

lemma of_le_less: "of_le bs < 256 ^ length bs"
proof (induction bs)
  case Nil
  then show ?case by simp
next
  case (Cons b bs)
  have "unat b < 256" by (rule unat_u8_less)
  with Cons show ?case by simp
qed

lemma le_bytes_of_le [simp]: "le_bytes (length bs) (of_le bs) = bs"
proof (induction bs)
  case Nil
  then show ?case by simp
next
  case (Cons b bs)
  have b: "unat b < 256" by (rule unat_u8_less)
  have "(of_nat (unat b + 256 * of_le bs) :: u8) = b"
  proof (rule word_unat_eq_iff[THEN iffD2])
    show "unat (of_nat (unat b + 256 * of_le bs) :: u8) = unat b"
      using b by (simp only: unat_of_nat_u8) simp
  qed
  moreover have "(unat b + 256 * of_le bs) div 256 = of_le bs" using b by simp
  ultimately show ?case using Cons by simp
qed

section \<open>unordered_map as an association list\<close>

text \<open>\<open>find\<close>, \<open>at\<close>, \<open>try_emplace\<close>, \<open>insert_or_assign\<close> (and assignment through
  \<open>operator[]\<close>), \<open>erase\<close>, and a modification of the mapped value in place.\<close>

definition um_find :: "'k \<Rightarrow> ('k \<times> 'v) list \<Rightarrow> 'v option" where
  "um_find k m = map_of m k"

definition um_at :: "'k \<Rightarrow> ('k \<times> 'v) list \<Rightarrow> 'v result" where
  "um_at k m = (case map_of m k of None \<Rightarrow> Inl Out_of_range | Some v \<Rightarrow> Inr v)"

definition um_try_emplace :: "'k \<Rightarrow> 'v \<Rightarrow> ('k \<times> 'v) list \<Rightarrow> ('k \<times> 'v) list" where
  "um_try_emplace k v m = (if map_of m k = None then m @ [(k, v)] else m)"

definition um_assign :: "'k \<Rightarrow> 'v \<Rightarrow> ('k \<times> 'v) list \<Rightarrow> ('k \<times> 'v) list" where
  "um_assign k v m = AList.update k v m"

definition um_erase :: "'k \<Rightarrow> ('k \<times> 'v) list \<Rightarrow> ('k \<times> 'v) list" where
  "um_erase k m = filter (\<lambda>e. fst e \<noteq> k) m"

text \<open>\<open>m.at(k)\<close> followed by an assignment to the value it refers to.\<close>

definition um_update_at :: "'k \<Rightarrow> ('v \<Rightarrow> 'v) \<Rightarrow> ('k \<times> 'v) list \<Rightarrow> ('k \<times> 'v) list result" where
  "um_update_at k f m = bind_r (um_at k m) (\<lambda>v. Inr (um_assign k (f v) m))"

definition um_keys :: "('k \<times> 'v) list \<Rightarrow> 'k list" where
  "um_keys m = map fst m"

definition um_wf :: "('k \<times> 'v) list \<Rightarrow> bool" where
  "um_wf m \<longleftrightarrow> distinct (um_keys m)"

lemma um_find_erase [dict_simps]: "um_find j (um_erase k m) = (if j = k then None else um_find j m)"
  by (induction m) (auto simp: um_find_def um_erase_def)

lemma um_find_assign [dict_simps]: "um_find j (um_assign k v m) = (if j = k then Some v else um_find j m)"
  by (simp add: um_find_def um_assign_def update_conv)

lemma um_find_try_emplace [dict_simps]:
  "um_find j (um_try_emplace k v m) =
     (if j = k then Some (case um_find k m of None \<Rightarrow> v | Some w \<Rightarrow> w) else um_find j m)"
  by (auto simp: um_find_def um_try_emplace_def map_add_def split: option.splits)

lemma um_find_Nil [simp]: "um_find k [] = None"
  by (simp add: um_find_def)

lemma um_find_Cons [simp]: "um_find k ((j, v) # m) = (if k = j then Some v else um_find k m)"
  by (simp add: um_find_def)

lemma um_at_eq: "um_at k m = (case um_find k m of None \<Rightarrow> Inl Out_of_range | Some v \<Rightarrow> Inr v)"
  by (simp add: um_at_def um_find_def)

lemma um_at_Inr [simp]: "um_at k m = Inr v \<longleftrightarrow> um_find k m = Some v"
  by (simp add: um_at_eq split: option.splits)

lemma um_update_at_eq:
  "um_update_at k f m = (case um_find k m of None \<Rightarrow> Inl Out_of_range | Some v \<Rightarrow> Inr (um_assign k (f v) m))"
  by (simp add: um_update_at_def um_at_eq split: option.splits)

lemma um_find_Some_set: "um_find k m = Some v \<Longrightarrow> (k, v) \<in> set m"
  by (simp add: um_find_def map_of_SomeD)

lemma um_find_set: "um_wf m \<Longrightarrow> (k, v) \<in> set m \<longleftrightarrow> um_find k m = Some v"
  by (simp add: um_wf_def um_keys_def um_find_def)

lemma um_find_None_keys: "um_find k m = None \<longleftrightarrow> k \<notin> set (um_keys m)"
  by (simp add: um_find_def um_keys_def map_of_eq_None_iff)

lemma um_find_Some_keys: "(\<exists>v. um_find k m = Some v) \<longleftrightarrow> k \<in> set (um_keys m)"
  using um_find_None_keys [of k m] by auto

lemma um_keys_simps [simp]:
  "um_keys [] = []"
  "um_keys (e # m) = fst e # um_keys m"
  "um_keys (m @ m') = um_keys m @ um_keys m'"
  by (simp_all add: um_keys_def)

lemma length_um_keys [simp]: "length (um_keys m) = length m"
  by (simp add: um_keys_def)

lemma set_um_keys_erase [simp]: "set (um_keys (um_erase k m)) = set (um_keys m) - {k}"
  by (auto simp: um_keys_def um_erase_def)

lemma set_um_keys_assign [simp]: "set (um_keys (um_assign k v m)) = insert k (set (um_keys m))"
  by (simp add: um_keys_def um_assign_def dom_update)

lemma set_um_keys_try_emplace [simp]:
  "set (um_keys (um_try_emplace k v m)) = insert k (set (um_keys m))"
  by (auto simp: um_try_emplace_def um_keys_def map_of_eq_None_iff)

lemma um_wf_Nil [simp]: "um_wf []"
  by (simp add: um_wf_def)

lemma um_wf_erase [simp, intro]: "um_wf m \<Longrightarrow> um_wf (um_erase k m)"
  by (simp add: um_wf_def um_keys_def um_erase_def distinct_map_filter)

lemma um_wf_assign [simp, intro]: "um_wf m \<Longrightarrow> um_wf (um_assign k v m)"
  by (simp add: um_wf_def um_keys_def um_assign_def distinct_update)

lemma um_wf_try_emplace [simp, intro]: "um_wf m \<Longrightarrow> um_wf (um_try_emplace k v m)"
  by (auto simp: um_wf_def um_try_emplace_def um_keys_def map_of_eq_None_iff)

lemma um_erase_fresh: "um_find k m = None \<Longrightarrow> um_erase k m = m"
  unfolding um_find_None_keys um_erase_def um_keys_def
  by (metis (mono_tags, lifting) filter_id_conv image_eqI list.set_map)

lemma um_assign_fresh: "um_find k m = None \<Longrightarrow> um_assign k v m = m @ [(k, v)]"
  by (induction m) (auto simp: um_find_def um_assign_def split: if_splits)

lemma um_keys_assign_present: "um_find k m = Some w \<Longrightarrow> um_keys (um_assign k v m) = um_keys m"
  by (induction m) (auto simp: um_find_def um_keys_def um_assign_def split: if_splits)

lemma set_um_erase: "set (um_erase k m) = {e \<in> set m. fst e \<noteq> k}"
  by (simp add: um_erase_def)

lemma set_um_assign:
  assumes "um_wf m" shows "set (um_assign k v m) = insert (k, v) {e \<in> set m. fst e \<noteq> k}"
proof (rule set_eqI)
  fix e :: "'a \<times> 'b"
  obtain j w where e: "e = (j, w)" by (cases e)
  have "um_wf (um_assign k v m)" using assms by auto
  then show "e \<in> set (um_assign k v m) \<longleftrightarrow> e \<in> insert (k, v) {e \<in> set m. fst e \<noteq> k}"
    using assms by (auto simp: e um_find_set dict_simps split: if_splits)
qed

section \<open>The dictionary interface\<close>

text \<open>
  What the master, the agent, the topology and the run-time environment rely on of their
  \<open>unordered_map\<close>s: lookup after each operation, and that keys stay distinct.
\<close>

locale dict =
  fixes empty :: 'm
    and find :: "'k \<Rightarrow> 'm \<Rightarrow> 'v option"
    and assign :: "'k \<Rightarrow> 'v \<Rightarrow> 'm \<Rightarrow> 'm"
    and try_emplace :: "'k \<Rightarrow> 'v \<Rightarrow> 'm \<Rightarrow> 'm"
    and erase :: "'k \<Rightarrow> 'm \<Rightarrow> 'm"
    and wf :: "'m \<Rightarrow> bool"
  assumes find_empty: "find k empty = None"
    and find_assign: "wf m \<Longrightarrow> find j (assign k v m) = (if j = k then Some v else find j m)"
    and find_try_emplace: "wf m \<Longrightarrow> find j (try_emplace k v m) =
          (if j = k \<and> find k m = None then Some v else find j m)"
    and find_erase: "wf m \<Longrightarrow> find j (erase k m) = (if j = k then None else find j m)"
    and wf_empty: "wf empty"
    and wf_assign: "wf m \<Longrightarrow> wf (assign k v m)"
    and wf_try_emplace: "wf m \<Longrightarrow> wf (try_emplace k v m)"
    and wf_erase: "wf m \<Longrightarrow> wf (erase k m)"
begin

text \<open>A dictionary filled by \<open>try_emplace\<close> in a loop keeps the first value of each key.\<close>

definition emplace_all :: "('k \<times> 'v) list \<Rightarrow> 'm \<Rightarrow> 'm" where
  "emplace_all es m = fold (\<lambda>e. try_emplace (fst e) (snd e)) es m"

lemma wf_emplace_all: "wf m \<Longrightarrow> wf (emplace_all es m)"
  unfolding emplace_all_def by (induction es arbitrary: m) (auto simp: wf_try_emplace)

lemma find_emplace_all:
  "wf m \<Longrightarrow> find k (emplace_all es m) =
     (case find k m of Some v \<Rightarrow> Some v | None \<Rightarrow> map_of es k)"
  unfolding emplace_all_def
proof (induction es arbitrary: m)
  case Nil
  then show ?case by (simp split: option.splits)
next
  case (Cons e es)
  then show ?case
    by (cases e) (auto simp: find_try_emplace wf_try_emplace split: option.splits)
qed

lemma find_emplace_all_empty: "find k (emplace_all es empty) = map_of es k"
  by (simp add: find_emplace_all wf_empty find_empty)

lemma erase_after_emplace:
  "wf m \<Longrightarrow> find k m = None \<Longrightarrow> find j (erase k (try_emplace k v m)) = find j m"
  by (simp add: find_erase find_try_emplace wf_try_emplace)

lemma assign_try_emplace:
  "wf m \<Longrightarrow> find j (assign k w (try_emplace k v m)) = find j (assign k w m)"
  by (simp add: find_assign find_try_emplace wf_try_emplace)

end

interpretation um: dict "[]" um_find um_assign um_try_emplace um_erase um_wf
  by unfold_locales (auto simp: dict_simps split: option.splits)

section \<open>Arrays\<close>

text \<open>Indexed reads and writes of the code's arrays.\<close>

definition slot :: "'a list \<Rightarrow> int \<Rightarrow> 'a result" where
  "slot xs i = (if 0 \<le> i \<and> i < int (length xs) then Inr (xs ! nat i)
     else Inl (Undefined ''index''))"

definition put_slot :: "'a list \<Rightarrow> int \<Rightarrow> 'a \<Rightarrow> 'a list result" where
  "put_slot xs i x = (if 0 \<le> i \<and> i < int (length xs) then Inr (xs[nat i := x])
     else Inl (Undefined ''index''))"

lemma slot_ok [simp]: "0 \<le> i \<Longrightarrow> i < int (length xs) \<Longrightarrow> slot xs i = Inr (xs ! nat i)"
  by (simp add: slot_def)

lemma put_slot_ok [simp]: "0 \<le> i \<Longrightarrow> i < int (length xs) \<Longrightarrow> put_slot xs i x = Inr (xs[nat i := x])"
  by (simp add: put_slot_def)

section \<open>Growing buffers\<close>

text \<open>
  The loop by which the code finds the capacity of a buffer, \<open>while(n < t) n *= 2\<close>; it is only ever
  entered with a positive capacity, with which it ends.
\<close>

function double_until :: "nat \<Rightarrow> nat \<Rightarrow> nat" where
  "double_until n t = (if 0 < n \<and> n < t then double_until (n * 2) t else n)"
  by pat_completeness auto
termination by (relation "measure (\<lambda>(n, t). t - n)") auto

declare double_until.simps [simp del]

lemma double_until_ge: "0 < n \<Longrightarrow> t \<le> double_until n t \<and> n \<le> double_until n t"
proof (induction n t rule: double_until.induct)
  case (1 n t)
  then show ?case by (cases "n < t") (auto simp: double_until.simps[of n t])
qed

end
