(* ===== verification/Strings.thy ===== *)
theory Strings
  imports Prelude
begin

text \<open>
  The text routines of the C++ standard library the code builds on: \<open>std::to_string\<close> and
  \<open>std::stoi\<close> with its exceptions, \<open>isspace\<close> in the C locale, and the two ways the code
  walks a string with \<open>std::sregex_token_iterator\<close>: the pieces between white space
  (submatch \<open>-1\<close> of the expression for white space) and the maximal runs of characters that are
  neither white space nor a colon (the matches of \<open>[^\s:]+\<close>).
\<close>

section \<open>Characters\<close>

definition isspace :: "char \<Rightarrow> bool" where
  "isspace c \<longleftrightarrow> of_char c = (32 :: nat) \<or> (9 \<le> (of_char c :: nat) \<and> of_char c \<le> (13 :: nat))"

definition isdigit :: "char \<Rightarrow> bool" where
  "isdigit c \<longleftrightarrow> 48 \<le> (of_char c :: nat) \<and> of_char c \<le> (57 :: nat)"

definition digit_val :: "char \<Rightarrow> nat" where
  "digit_val c = of_char c - 48"

definition digit :: "nat \<Rightarrow> char" where
  "digit n = char_of (48 + n)"

lemma of_char_digit: "n < 10 \<Longrightarrow> of_char (digit n) = 48 + n"
  by (simp add: digit_def)

lemma isdigit_digit [simp]: "n < 10 \<Longrightarrow> isdigit (digit n)"
  by (simp add: isdigit_def of_char_digit)

lemma digit_val_digit [simp]: "n < 10 \<Longrightarrow> digit_val (digit n) = n"
  by (simp add: digit_val_def of_char_digit)

lemma isdigit_not_isspace: "isdigit c \<Longrightarrow> \<not> isspace c"
  by (auto simp: isdigit_def isspace_def)

lemma isdigit_not_sign: "isdigit c \<Longrightarrow> c \<noteq> CHR ''-'' \<and> c \<noteq> CHR ''+'' \<and> c \<noteq> CHR '':''"
  by (auto simp: isdigit_def)

section \<open>Decimal output\<close>

fun nat_str :: "nat \<Rightarrow> string" where
  "nat_str n = (if n < 10 then [digit n] else nat_str (n div 10) @ [digit (n mod 10)])"

declare nat_str.simps [simp del]

definition int_str :: "int \<Rightarrow> string" where
  "int_str i = (if i < 0 then CHR ''-'' # nat_str (nat (- i)) else nat_str (nat i))"

definition u64_str :: "u64 \<Rightarrow> string" where
  "u64_str w = nat_str (unat w)"

lemma nat_str_digits: "c \<in> set (nat_str n) \<Longrightarrow> isdigit c"
proof (induction n rule: nat_str.induct)
  case (1 n)
  show ?case
  proof (cases "n < 10")
    case True
    then show ?thesis using "1.prems" by (simp add: nat_str.simps [of n])
  next
    case False
    then have "c \<in> set (nat_str (n div 10)) \<or> c = digit (n mod 10)"
      using "1.prems" by (auto simp: nat_str.simps [of n])
    then show ?thesis using "1.IH" False by auto
  qed
qed

lemma nat_str_nonempty [simp]: "nat_str n \<noteq> []"
  by (subst nat_str.simps) simp

definition digits_val :: "string \<Rightarrow> nat" where
  "digits_val ds = foldl (\<lambda>a c. a * 10 + digit_val c) 0 ds"

lemma digits_val_snoc [simp]: "digits_val (ds @ [c]) = digits_val ds * 10 + digit_val c"
  by (simp add: digits_val_def)

lemma digits_val_nat_str [simp]: "digits_val (nat_str n) = n"
proof (induction n rule: nat_str.induct)
  case (1 n)
  show ?case
  proof (cases "n < 10")
    case True
    then show ?thesis by (simp add: nat_str.simps [of n] digits_val_def)
  next
    case False
    then have "digits_val (nat_str n) = n div 10 * 10 + n mod 10"
      using "1.IH" by (simp add: nat_str.simps [of n])
    then show ?thesis by simp
  qed
qed

lemma nat_str_inj: "nat_str m = nat_str n \<longleftrightarrow> m = n"
  by (metis digits_val_nat_str)

section \<open>std::stoi\<close>

text \<open>Skips leading white space, takes an optional sign and the longest run of digits, and ignores
  what follows; no digit is \<open>std::invalid_argument\<close>, a value outside \<open>int\<close> is
  \<open>std::out_of_range\<close>.\<close>

definition stoi_sign :: "string \<Rightarrow> bool \<times> string" where
  "stoi_sign s = (case s of
       [] \<Rightarrow> (False, [])
     | c # t \<Rightarrow> if c = CHR ''-'' then (True, t) else if c = CHR ''+'' then (False, t) else (False, s))"

definition stoi :: "string \<Rightarrow> int result" where
  "stoi s =
     (let (neg, t) = stoi_sign (dropWhile isspace s); ds = takeWhile isdigit t;
          v = (if neg then - int (digits_val ds) else int (digits_val ds))
      in if ds = [] then Inl Invalid_argument
         else if v < int_min \<or> int_max < v then Inl Out_of_range
         else Inr v)"

lemma takeWhile_digits:
  "(\<And>c. c \<in> set ds \<Longrightarrow> P c) \<Longrightarrow> (rest = [] \<or> \<not> P (hd rest)) \<Longrightarrow> takeWhile P (ds @ rest) = ds"
  by (induction ds) (cases rest; auto)+

lemma stoi_int_str:
  assumes "int_min \<le> i" "i \<le> int_max"
  shows "stoi (int_str i) = Inr i"
proof -
  have ds: "takeWhile isdigit (nat_str n) = nat_str n" for n
    using takeWhile_digits [of "nat_str n" isdigit "[]"] nat_str_digits by auto
  obtain c t where ct: "nat_str (nat i) = c # t"
    using nat_str_nonempty by (cases "nat_str (nat i)") auto
  then have c: "isdigit c" using nat_str_digits [of c "nat i"] by simp
  show ?thesis
  proof (cases "i < 0")
    case True
    then have "dropWhile isspace (int_str i) = CHR ''-'' # nat_str (nat (- i))"
      by (simp add: int_str_def isspace_def)
    then show ?thesis using True assms
      by (simp add: stoi_def stoi_sign_def ds)
  next
    case False
    have "stoi_sign (dropWhile isspace (int_str i)) = (False, nat_str (nat i))"
      using False c ct isdigit_not_isspace [OF c] isdigit_not_sign [OF c]
      by (simp add: int_str_def stoi_sign_def)
    then show ?thesis using False assms by (simp add: stoi_def ds)
  qed
qed

section \<open>Splitting at white space\<close>

text \<open>\<open>sregex_token_iterator\<close> with submatch \<open>-1\<close>: the text before the first separator (possibly
  empty, and the whole string if there is no separator), the texts between separators, and the
  text after the last one unless it is empty.\<close>

function ws_split :: "string \<Rightarrow> string list" where
  "ws_split s =
     (let a = takeWhile (\<lambda>c. \<not> isspace c) s;
          r = dropWhile isspace (dropWhile (\<lambda>c. \<not> isspace c) s)
      in if r = [] then [a] else a # ws_split r)"
  by pat_completeness auto

lemma ws_rest_shorter:
  assumes "dropWhile isspace (dropWhile (\<lambda>c. \<not> isspace c) s) \<noteq> []"
  shows "length (dropWhile isspace (dropWhile (\<lambda>c. \<not> isspace c) s)) < length s"
proof -
  let ?d = "dropWhile (\<lambda>c. \<not> isspace c) s"
  have "?d \<noteq> []" using assms by (metis dropWhile.simps(1))
  then have "isspace (hd ?d)" using hd_dropWhile [of "\<lambda>c. \<not> isspace c" s] by metis
  then have "length (dropWhile isspace ?d) < length ?d"
    using \<open>?d \<noteq> []\<close> by (cases ?d) (auto simp: le_imp_less_Suc length_dropWhile_le)
  then show ?thesis using length_dropWhile_le [of "\<lambda>c. \<not> isspace c" s] by linarith
qed

termination ws_split
  by (relation "measure length") (use ws_rest_shorter in auto)

declare ws_split.simps [simp del]

lemma ws_split_token:
  assumes "\<And>c. c \<in> set a \<Longrightarrow> \<not> isspace c"
  shows "ws_split a = [a]"
proof -
  have "takeWhile (\<lambda>c. \<not> isspace c) a = a" "dropWhile (\<lambda>c. \<not> isspace c) a = []"
    using assms by (auto simp: takeWhile_eq_all_conv)
  then show ?thesis by (subst ws_split.simps) (simp only: Let_def dropWhile.simps simp_thms if_True)
qed

lemma ws_split_Cons:
  assumes "\<And>c. c \<in> set a \<Longrightarrow> \<not> isspace c" "b \<noteq> []" "\<not> isspace (hd b)"
  shows "ws_split (a @ CHR '' '' # b) = a # ws_split b"
proof -
  have sp: "isspace CHR '' ''" by (simp add: isspace_def)
  have "takeWhile (\<lambda>c. \<not> isspace c) (a @ CHR '' '' # b) = a"
    "dropWhile (\<lambda>c. \<not> isspace c) (a @ CHR '' '' # b) = CHR '' '' # b"
    using assms(1) sp by (induction a) auto
  moreover have "dropWhile isspace b = b" using assms(2,3) by (cases b) auto
  ultimately show ?thesis using assms(2) sp by (subst ws_split.simps) simp
qed

lemma ws_split_trailing:
  assumes "\<And>c. c \<in> set a \<Longrightarrow> \<not> isspace c"
  shows "ws_split (a @ [CHR '' '']) = [a]"
proof -
  have sp: "isspace CHR '' ''" by (simp add: isspace_def)
  have "takeWhile (\<lambda>c. \<not> isspace c) (a @ [CHR '' '']) = a"
    "dropWhile (\<lambda>c. \<not> isspace c) (a @ [CHR '' '']) = [CHR '' '']"
    using assms sp by (induction a) auto
  then show ?thesis using sp by (subst ws_split.simps) simp
qed

text \<open>A list of non-empty words, each followed by a space, is split into exactly those words.\<close>

definition is_word :: "string \<Rightarrow> bool" where
  "is_word w \<longleftrightarrow> w \<noteq> [] \<and> (\<forall>c \<in> set w. \<not> isspace c)"

lemma ws_split_words:
  assumes "ws \<noteq> []" "\<And>w. w \<in> set ws \<Longrightarrow> is_word w"
  shows "ws_split (concat (map (\<lambda>w. w @ '' '') ws)) = ws"
  using assms
proof (induction ws)
  case Nil
  then show ?case by simp
next
  case (Cons w ws)
  show ?case
  proof (cases ws)
    case Nil
    then show ?thesis using Cons.prems ws_split_trailing [of w] by (simp add: is_word_def)
  next
    case (Cons v vs)
    let ?b = "concat (map (\<lambda>w. w @ '' '') ws)"
    have v: "v \<noteq> []" "\<not> isspace (hd v)"
      using Cons.prems(2) [of v] Cons list.set_sel(1) [of v] by (auto simp: is_word_def)
    then have "?b \<noteq> []" "\<not> isspace (hd ?b)" using Cons by auto
    then have "ws_split (w @ CHR '' '' # ?b) = w # ws_split ?b"
      using Cons.prems(2) by (intro ws_split_Cons) (auto simp: is_word_def)
    then show ?thesis using Cons.IH Cons.prems(2) Cons by simp
  qed
qed

section \<open>Fields between white space and colons\<close>

definition field_char :: "char \<Rightarrow> bool" where
  "field_char c \<longleftrightarrow> \<not> isspace c \<and> c \<noteq> CHR '':''"

function fields :: "string \<Rightarrow> string list" where
  "fields s =
     (let t = dropWhile (\<lambda>c. \<not> field_char c) s
      in if t = [] then [] else takeWhile field_char t # fields (dropWhile field_char t))"
  by pat_completeness auto

lemma fields_rest_shorter:
  assumes "dropWhile (\<lambda>c. \<not> field_char c) s \<noteq> []"
  shows "length (dropWhile field_char (dropWhile (\<lambda>c. \<not> field_char c) s)) < length s"
proof -
  let ?d = "dropWhile (\<lambda>c. \<not> field_char c) s"
  have "field_char (hd ?d)" using assms hd_dropWhile [OF assms] by simp
  then have "length (dropWhile field_char ?d) < length ?d"
    using assms by (cases ?d) (auto simp: le_imp_less_Suc length_dropWhile_le)
  then show ?thesis using length_dropWhile_le [of "\<lambda>c. \<not> field_char c" s] by linarith
qed

termination fields
  by (relation "measure length") (use fields_rest_shorter in auto)

declare fields.simps [simp del]

definition is_field :: "string \<Rightarrow> bool" where
  "is_field w \<longleftrightarrow> w \<noteq> [] \<and> (\<forall>c \<in> set w. field_char c)"

lemma fields_Nil [simp]: "fields [] = []"
  by (subst fields.simps) simp

lemma fields_sep: "\<not> field_char c \<Longrightarrow> fields (c # s) = fields s"
  by (subst (1 2) fields.simps) simp

lemma fields_field:
  assumes "is_field w" "r = [] \<or> \<not> field_char (hd r)"
  shows "fields (w @ r) = w # fields r"
proof -
  have "dropWhile (\<lambda>c. \<not> field_char c) (w @ r) = w @ r"
    using assms(1) by (cases w) (auto simp: is_field_def)
  moreover have "takeWhile field_char (w @ r) = w"
    using assms by (intro takeWhile_digits) (auto simp: is_field_def)
  moreover have "dropWhile field_char (w @ r) = r"
    using assms by (cases r) (auto simp: is_field_def dropWhile_append2)
  ultimately show ?thesis using assms(1) by (subst fields.simps) (simp add: is_field_def)
qed

text \<open>The text \<open>k:v k:v ...\<close> the code writes for a list of pairs, and its fields.\<close>

definition kv_text :: "(string \<times> string) list \<Rightarrow> string" where
  "kv_text kvs = concat (map (\<lambda>(k, v). k @ '':'' @ v @ '' '') kvs)"

lemma fields_kv_text:
  assumes "\<And>k v. (k, v) \<in> set kvs \<Longrightarrow> is_field k \<and> is_field v"
  shows "fields (kv_text kvs) = concat (map (\<lambda>(k, v). [k, v]) kvs)"
  using assms
proof (induction kvs)
  case Nil
  then show ?case by (simp add: kv_text_def)
next
  case (Cons kv kvs)
  obtain k v where kv: "kv = (k, v)" by (cases kv)
  have seps: "\<not> field_char CHR '':''" "\<not> field_char CHR '' ''"
    by (simp_all add: field_char_def isspace_def)
  have "kv_text (kv # kvs) = k @ (CHR '':'' # (v @ (CHR '' '' # kv_text kvs)))"
    by (simp add: kv_text_def kv)
  moreover have "is_field k" "is_field v" using Cons.prems kv by auto
  moreover have "fields (kv_text kvs) = concat (map (\<lambda>(k, v). [k, v]) kvs)"
    using Cons by auto
  ultimately show ?case
    using seps by (simp add: kv fields_field fields_sep)
qed

lemma field_char_digit: "isdigit c \<Longrightarrow> field_char c"
  by (auto simp: field_char_def isdigit_def isspace_def)

lemma is_field_int_str: "is_field (int_str i)"
  using nat_str_digits
  by (fastforce simp: is_field_def int_str_def field_char_def isspace_def intro: dest: field_char_digit)

end
