(* ===== verification/Runtime.thy ===== *)
theory Runtime
  imports Strings
begin

text \<open>
  The run-time environment of a topology (class \<open>Runtime\<close>, src/policy.cpp), the environment
  accessors of namespace \<open>dtc::env\<close> (include/dtc/policy.hpp) and \<open>environment_variables\<close>
  (src/utility/os.cpp). A \<open>Runtime\<close> is its single member \<open>_map\<close>, a dictionary from
  variable names to values. The theorems: the two texts that carry a deployment from the master to
  the agents and to the executors (vertex hosts and frontiers) are parsed back exactly, a dictionary
  survives the trip through \<open>envp\<close>, and the execution mode is read back as it was set.
\<close>

section \<open>The dictionary of run-time variables\<close>

type_synonym runtime = "(string \<times> string) list"

datatype execution_mode = SUBMIT | DISTRIBUTED | LOCAL

definition rt_get :: "string \<Rightarrow> string \<Rightarrow> runtime \<Rightarrow> string" where
  "rt_get var dflt m = (case um_find var m of Some v \<Rightarrow> v | None \<Rightarrow> dflt)"

definition rt_execution_mode :: "runtime \<Rightarrow> execution_mode result" where
  "rt_execution_mode m =
     (case um_find ''DTC_EXECUTION_MODE'' m of
        Some v \<Rightarrow>
          if v = ''local'' then Inr LOCAL
          else if v = ''submit'' then Inr SUBMIT
          else if v = ''distributed'' then Inr DISTRIBUTED
          else Inl (Runtime_error ''Invalid execution mode'')
      | None \<Rightarrow> Inr LOCAL)"

definition rt_set_execution_mode :: "execution_mode \<Rightarrow> runtime \<Rightarrow> runtime" where
  "rt_set_execution_mode mode m =
     um_assign ''DTC_EXECUTION_MODE''
       (case mode of DISTRIBUTED \<Rightarrow> ''distributed'' | LOCAL \<Rightarrow> ''local'' | SUBMIT \<Rightarrow> ''submit'') m"

text \<open>\<open>std::unordered_map::merge\<close> takes over the entries whose keys are not there yet.\<close>

definition rt_merge :: "(string \<times> string) list \<Rightarrow> runtime \<Rightarrow> runtime" where
  "rt_merge src m = fold (\<lambda>e. um_try_emplace (fst e) (snd e)) src m"

definition rt_set_submit_file :: "string \<Rightarrow> runtime \<Rightarrow> runtime" where
  "rt_set_submit_file str m = um_assign ''DTC_SUBMIT_FILE'' str m"

definition rt_submit_file :: "runtime \<Rightarrow> string" where
  "rt_submit_file m = rt_get ''DTC_SUBMIT_FILE'' '''' m"

definition rt_set_submit_argv :: "string \<Rightarrow> runtime \<Rightarrow> runtime" where
  "rt_set_submit_argv str m = um_assign ''DTC_SUBMIT_ARGV'' str m"

definition rt_submit_argv :: "runtime \<Rightarrow> string" where
  "rt_submit_argv m = rt_get ''DTC_SUBMIT_ARGV'' '''' m"

definition rt_set_program :: "string \<Rightarrow> runtime \<Rightarrow> runtime" where
  "rt_set_program str m = um_assign ''DTC_PROGRAM'' str m"

definition rt_program :: "runtime \<Rightarrow> string" where
  "rt_program m = rt_get ''DTC_PROGRAM'' '''' m"

definition rt_this_host :: "runtime \<Rightarrow> string" where
  "rt_this_host m = rt_get ''DTC_THIS_HOST'' ''127.0.0.1'' m"

definition rt_master_host :: "runtime \<Rightarrow> string" where
  "rt_master_host m = rt_get ''DTC_MASTER_HOST'' ''127.0.0.1'' m"

definition rt_set_stdout_fd :: "int \<Rightarrow> runtime \<Rightarrow> runtime" where
  "rt_set_stdout_fd fd m = um_assign ''DTC_STDOUT_FD'' (int_str fd) m"

definition rt_stdout_listener_port :: "runtime \<Rightarrow> string" where
  "rt_stdout_listener_port m = rt_get ''DTC_STDOUT_LISTENER_PORT'' ''0'' m"

definition rt_set_stderr_fd :: "int \<Rightarrow> runtime \<Rightarrow> runtime" where
  "rt_set_stderr_fd fd m = um_assign ''DTC_STDERR_FD'' (int_str fd) m"

definition rt_stderr_listener_port :: "runtime \<Rightarrow> string" where
  "rt_stderr_listener_port m = rt_get ''DTC_STDERR_LISTENER_PORT'' ''0'' m"

definition rt_remove_stderr_listener_port :: "runtime \<Rightarrow> runtime" where
  "rt_remove_stderr_listener_port m = um_erase ''DTC_STDERR_LISTENER_PORT'' m"

definition rt_remove_stdout_listener_port :: "runtime \<Rightarrow> runtime" where
  "rt_remove_stdout_listener_port m = um_erase ''DTC_STDOUT_LISTENER_PORT'' m"

definition rt_set_bridges :: "string \<Rightarrow> runtime \<Rightarrow> runtime" where
  "rt_set_bridges str m = um_assign ''DTC_BRIDGES'' str m"

definition rt_set_frontiers :: "string \<Rightarrow> runtime \<Rightarrow> runtime" where
  "rt_set_frontiers str m = um_assign ''DTC_FRONTIERS'' str m"

definition rt_remove_frontiers :: "runtime \<Rightarrow> runtime" where
  "rt_remove_frontiers m = um_erase ''DTC_FRONTIERS'' m"

definition rt_set_topology_fd :: "int \<Rightarrow> runtime \<Rightarrow> runtime" where
  "rt_set_topology_fd fd m = um_assign ''DTC_TOPOLOGY_FD'' (int_str fd) m"

definition rt_set_vertex_fd :: "int \<Rightarrow> runtime \<Rightarrow> runtime" where
  "rt_set_vertex_fd fd m = um_assign ''DTC_VERTEX_FD'' (int_str fd) m"

definition rt_remove_topology_fd :: "runtime \<Rightarrow> runtime" where
  "rt_remove_topology_fd m = um_erase ''DTC_TOPOLOGY_FD'' m"

definition rt_set_vertex_hosts :: "string \<Rightarrow> runtime \<Rightarrow> runtime" where
  "rt_set_vertex_hosts str m = um_assign ''DTC_VERTEX_HOSTS'' str m"

definition rt_remove_vertex_hosts :: "runtime \<Rightarrow> runtime" where
  "rt_remove_vertex_hosts m = um_erase ''DTC_VERTEX_HOSTS'' m"

section \<open>Parsing vertex hosts and frontiers\<close>

text \<open>Both functions take the fields of the text two at a time. The assertion that their number is
  even comes first; then each key (and each descriptor) goes through \<open>std::stoi\<close>, which may
  throw, and the pair into the dictionary with \<open>try_emplace\<close>.\<close>

fun vertex_hosts_loop :: "string list \<Rightarrow> (key_type \<times> string) list \<Rightarrow> (key_type \<times> string) list result" where
  "vertex_hosts_loop (k # v # ts) vhosts =
     bind_r (stoi k) (\<lambda>key. vertex_hosts_loop ts (um_try_emplace key v vhosts))"
| "vertex_hosts_loop ts vhosts = Inr vhosts"

definition rt_vertex_hosts :: "runtime \<Rightarrow> (key_type \<times> string) list result" where
  "rt_vertex_hosts m =
     (case um_find ''DTC_VERTEX_HOSTS'' m of
        Some text \<Rightarrow>
          (let ts = fields text
           in if odd (length ts) then Inl Assert_failed else vertex_hosts_loop ts [])
      | None \<Rightarrow> Inr [])"

fun frontiers_loop :: "string list \<Rightarrow> (key_type \<times> int) list \<Rightarrow> (key_type \<times> int) list result" where
  "frontiers_loop (k # v # ts) ftrs =
     bind_r (stoi k) (\<lambda>key. bind_r (stoi v) (\<lambda>fd. frontiers_loop ts (um_try_emplace key fd ftrs)))"
| "frontiers_loop ts ftrs = Inr ftrs"

definition rt_frontiers :: "runtime \<Rightarrow> (key_type \<times> int) list result" where
  "rt_frontiers m =
     (case um_find ''DTC_FRONTIERS'' m of
        Some text \<Rightarrow>
          (let ts = fields text
           in if odd (length ts) then Inl Assert_failed else frontiers_loop ts [])
      | None \<Rightarrow> Inr [])"

section \<open>Arguments for execve\<close>

text \<open>\<open>c_file\<close> and \<open>c_argv\<close> are null when the variable is missing.\<close>

definition rt_c_file :: "runtime \<Rightarrow> string option" where
  "rt_c_file m = um_find ''DTC_SUBMIT_FILE'' m"

definition rt_c_argv :: "runtime \<Rightarrow> string list option" where
  "rt_c_argv m = map_option ws_split (um_find ''DTC_SUBMIT_ARGV'' m)"

definition rt_c_envp :: "runtime \<Rightarrow> string list" where
  "rt_c_envp m = map (\<lambda>(k, v). k @ ''='' @ v) m"

text \<open>\<open>environment_variables\<close> (src/utility/os.cpp): an entry without \<open>=\<close> is skipped, the first
  entry of a name wins.\<close>

definition env_split :: "string \<Rightarrow> (string \<times> string) option" where
  "env_split entry =
     (case dropWhile (\<lambda>c. c \<noteq> CHR ''='') entry of
        [] \<Rightarrow> None
      | _ # v \<Rightarrow> Some (takeWhile (\<lambda>c. c \<noteq> CHR ''='') entry, v))"

definition environment_variables :: "string list \<Rightarrow> runtime" where
  "environment_variables envp =
     fold (\<lambda>entry res. case env_split entry of
                         Some (k, v) \<Rightarrow> um_try_emplace k v res
                       | None \<Rightarrow> res) envp []"

section \<open>Namespace dtc::env\<close>

text \<open>The accessors read the environment of the process, here a dictionary \<open>env\<close>.\<close>

definition env_this_host :: "runtime \<Rightarrow> string" where
  "env_this_host env = rt_get ''DTC_THIS_HOST'' ''127.0.0.1'' env"

definition env_master_host :: "runtime \<Rightarrow> string" where
  "env_master_host env = rt_get ''DTC_MASTER_HOST'' ''127.0.0.1'' env"

definition env_agent_listener_port :: "runtime \<Rightarrow> string" where
  "env_agent_listener_port env = rt_get ''DTC_AGENT_LISTENER_PORT'' ''9909'' env"

definition env_graph_listener_port :: "runtime \<Rightarrow> string" where
  "env_graph_listener_port env = rt_get ''DTC_GRAPH_LISTENER_PORT'' ''9910'' env"

definition env_stdout_listener_port :: "runtime \<Rightarrow> string" where
  "env_stdout_listener_port env = rt_get ''DTC_STDOUT_LISTENER_PORT'' ''0'' env"

definition env_stderr_listener_port :: "runtime \<Rightarrow> string" where
  "env_stderr_listener_port env = rt_get ''DTC_STDERR_LISTENER_PORT'' ''0'' env"

definition env_frontier_listener_port :: "runtime \<Rightarrow> string" where
  "env_frontier_listener_port env = rt_get ''DTC_FRONTIER_LISTENER_PORT'' ''9913'' env"

definition env_shell_listener_port :: "runtime \<Rightarrow> string" where
  "env_shell_listener_port env = rt_get ''DTC_SHELL_LISTENER_PORT'' ''9911'' env"

definition env_webui_listener_port :: "runtime \<Rightarrow> string" where
  "env_webui_listener_port env = rt_get ''DTC_WEBUI_LISTENER_PORT'' ''9912'' env"

definition env_submit_argv :: "runtime \<Rightarrow> string" where
  "env_submit_argv env = rt_get ''DTC_SUBMIT_ARGV'' '''' env"

definition env_submit_file :: "runtime \<Rightarrow> string" where
  "env_submit_file env = rt_get ''DTC_SUBMIT_FILE'' '''' env"

text \<open>\<open>execution_mode\<close> builds a \<open>std::string_view\<close> from the result of \<open>getenv\<close>, a null
  pointer when the variable is not set: undefined behaviour.\<close>

definition env_execution_mode :: "runtime \<Rightarrow> execution_mode result" where
  "env_execution_mode env =
     (case um_find ''DTC_EXECUTION_MODE'' env of
        None \<Rightarrow> Inl (Undefined ''string_view of a null pointer'')
      | Some mode \<Rightarrow>
          if mode \<noteq> [] then
            if mode = ''local'' then Inr LOCAL
            else if mode = ''submit'' then Inr SUBMIT
            else if mode = ''distributed'' then Inr DISTRIBUTED
            else Inl (Runtime_error ''Invalid execution mode'')
          else Inr LOCAL)"

definition env_topology_fd :: "runtime \<Rightarrow> int result" where
  "env_topology_fd env =
     (case um_find ''DTC_TOPOLOGY_FD'' env of Some str \<Rightarrow> stoi str | None \<Rightarrow> Inr (- 1))"

definition env_stdout_fd :: "runtime \<Rightarrow> int result" where
  "env_stdout_fd env =
     (case um_find ''DTC_STDOUT_FD'' env of Some str \<Rightarrow> stoi str | None \<Rightarrow> Inr 1)"

definition env_stderr_fd :: "runtime \<Rightarrow> int result" where
  "env_stderr_fd env =
     (case um_find ''DTC_STDERR_FD'' env of Some str \<Rightarrow> stoi str | None \<Rightarrow> Inr 2)"

definition env_set_stdout_listener_port :: "string \<Rightarrow> runtime \<Rightarrow> runtime" where
  "env_set_stdout_listener_port str env = um_assign ''DTC_STDOUT_LISTENER_PORT'' str env"

definition env_set_stderr_listener_port :: "string \<Rightarrow> runtime \<Rightarrow> runtime" where
  "env_set_stderr_listener_port str env = um_assign ''DTC_STDERR_LISTENER_PORT'' str env"

definition env_cgroup_mount :: "runtime \<Rightarrow> string" where
  "env_cgroup_mount env = rt_get ''DTC_CGROUP_MOUNT'' ''dtc'' env"

definition env_agent_cgroup :: "runtime \<Rightarrow> string" where
  "env_agent_cgroup env = rt_get ''DTC_AGENT_CGROUP'' ''dtc/agent'' env"

section \<open>Lemmas\<close>

lemma um_wf_rt_merge: "um_wf m \<Longrightarrow> um_wf (rt_merge src m)"
  using um.wf_emplace_all [of m src] by (simp add: rt_merge_def um.emplace_all_def)

lemma um_find_rt_merge:
  "um_wf m \<Longrightarrow> um_find k (rt_merge src m) = (case um_find k m of Some v \<Rightarrow> Some v | None \<Rightarrow> map_of src k)"
  using um.find_emplace_all [of m k src] by (simp add: rt_merge_def um.emplace_all_def)

lemma rt_get_assign [simp]: "rt_get k d (um_assign k v m) = v"
  by (simp add: rt_get_def dict_simps)

lemma vertex_hosts_loop_pairs:
  assumes "\<And>k v. (k, v) \<in> set kvs \<Longrightarrow> int_min \<le> k \<and> k \<le> int_max"
  shows "vertex_hosts_loop (concat (map (\<lambda>(k, v). [int_str k, v]) kvs)) m =
           Inr (um.emplace_all kvs m)"
  using assms
proof (induction kvs arbitrary: m)
  case Nil
  then show ?case by (simp add: um.emplace_all_def)
next
  case (Cons kv kvs)
  obtain k v where kv: "kv = (k, v)" by (cases kv)
  have "vertex_hosts_loop (concat (map (\<lambda>(k, v). [int_str k, v]) kvs)) m' =
      Inr (um.emplace_all kvs m')" for m'
    using Cons by auto
  then show ?case using Cons.prems [of k v] by (simp add: kv stoi_int_str um.emplace_all_def)
qed

lemma frontiers_loop_pairs:
  assumes "\<And>k v. (k, v) \<in> set kvs \<Longrightarrow>
      int_min \<le> k \<and> k \<le> int_max \<and> int_min \<le> v \<and> v \<le> int_max"
  shows "frontiers_loop (concat (map (\<lambda>(k, v). [int_str k, int_str v]) kvs)) m =
           Inr (um.emplace_all kvs m)"
  using assms
proof (induction kvs arbitrary: m)
  case Nil
  then show ?case by (simp add: um.emplace_all_def)
next
  case (Cons kv kvs)
  obtain k v where kv: "kv = (k, v)" by (cases kv)
  have "frontiers_loop (concat (map (\<lambda>(k, v). [int_str k, int_str v]) kvs)) m' =
      Inr (um.emplace_all kvs m')" for m'
    using Cons by auto
  then show ?case using Cons.prems [of k v] by (simp add: kv stoi_int_str um.emplace_all_def)
qed

lemma even_length_pairs: "even (length (concat (map (\<lambda>(k, v). [f k, g v]) kvs)))"
  by (induction kvs) auto

text \<open>The text of vertex hosts the master writes and the text of frontiers the agent writes.\<close>

definition vhosts_text :: "(key_type \<times> string) list \<Rightarrow> string" where
  "vhosts_text vhosts = concat (map (\<lambda>(vertex, host). int_str vertex @ '':'' @ host @ '' '') vhosts)"

definition frontiers_text :: "(key_type \<times> int) list \<Rightarrow> string" where
  "frontiers_text ftrs = concat (map (\<lambda>(stream, fd). int_str stream @ '':'' @ int_str fd @ '' '') ftrs)"

lemma vhosts_text_kv: "vhosts_text vh = kv_text (map (\<lambda>(k, v). (int_str k, v)) vh)"
  by (simp add: vhosts_text_def kv_text_def comp_def case_prod_unfold)

lemma frontiers_text_kv: "frontiers_text fs = kv_text (map (\<lambda>(k, v). (int_str k, int_str v)) fs)"
  by (simp add: frontiers_text_def kv_text_def comp_def case_prod_unfold)

lemma fields_vhosts_text:
  assumes "\<And>k v. (k, v) \<in> set vh \<Longrightarrow> is_field v"
  shows "fields (vhosts_text vh) = concat (map (\<lambda>(k, v). [int_str k, v]) vh)"
proof -
  have "fields (vhosts_text vh) =
      concat (map (\<lambda>(k, v). [k, v]) (map (\<lambda>(k, v). (int_str k, v)) vh))"
    unfolding vhosts_text_kv by (rule fields_kv_text) (use assms is_field_int_str in auto)
  then show ?thesis by (simp add: comp_def case_prod_unfold)
qed

lemma fields_frontiers_text:
  "fields (frontiers_text fs) = concat (map (\<lambda>(k, v). [int_str k, int_str v]) fs)"
proof -
  have "fields (frontiers_text fs) =
      concat (map (\<lambda>(k, v). [k, v]) (map (\<lambda>(k, v). (int_str k, int_str v)) fs))"
    unfolding frontiers_text_kv by (rule fields_kv_text) (use is_field_int_str in auto)
  then show ?thesis by (simp add: comp_def case_prod_unfold)
qed

lemma env_split_entry:
  assumes "CHR ''='' \<notin> set k"
  shows "env_split (k @ ''='' @ v) = Some (k, v)"
proof -
  have "dropWhile (\<lambda>c. c \<noteq> CHR ''='') (k @ ''='' @ v) = ''='' @ v"
    "takeWhile (\<lambda>c. c \<noteq> CHR ''='') (k @ ''='' @ v) = k"
    using assms by (induction k) auto
  then show ?thesis by (simp add: env_split_def)
qed

section \<open>Properties\<close>

text \<open>the vertex-hosts text the master writes into a topology is parsed back by the agent to the
  same dictionary, for host names free of white space and colons and keys in the range of
  \<open>int\<close>.\<close>

theorem vertex_hosts_roundtrip:
  assumes "\<And>k v. (k, v) \<in> set vh \<Longrightarrow> is_field v \<and> int_min \<le> k \<and> k \<le> int_max"
  shows "\<exists>r. rt_vertex_hosts (rt_set_vertex_hosts (vhosts_text vh) m) = Inr r \<and>
             (\<forall>k. um_find k r = map_of vh k)"
proof -
  have "fields (vhosts_text vh) = concat (map (\<lambda>(k, v). [int_str k, v]) vh)"
    using assms by (intro fields_vhosts_text) blast
  then have "rt_vertex_hosts (rt_set_vertex_hosts (vhosts_text vh) m) = Inr (um.emplace_all vh [])"
    using assms even_length_pairs [of int_str id vh]
    by (simp add: rt_vertex_hosts_def rt_set_vertex_hosts_def dict_simps vertex_hosts_loop_pairs)
  then show ?thesis by (simp add: um.find_emplace_all_empty)
qed

theorem vertex_hosts_roundtrip_witness:
  "\<exists>r. rt_vertex_hosts (rt_set_vertex_hosts (vhosts_text [(3, ''alpha''), (-1, ''10.0.0.7'')]) []) = Inr r \<and>
       (\<forall>k. um_find k r = map_of [(3, ''alpha''), (-1, ''10.0.0.7'')] k)"
  by (rule vertex_hosts_roundtrip)
     (auto simp: is_field_def field_char_def isspace_def int_min_def int_max_def)

lemma rt_frontiers_text:
  assumes "\<And>k v. (k, v) \<in> set fs \<Longrightarrow>
      int_min \<le> k \<and> k \<le> int_max \<and> int_min \<le> v \<and> v \<le> int_max"
  shows "rt_frontiers (rt_set_frontiers (frontiers_text fs) m) = Inr (um.emplace_all fs [])"
  using assms even_length_pairs [of int_str int_str fs]
  by (simp add: rt_frontiers_def rt_set_frontiers_def dict_simps fields_frontiers_text
      frontiers_loop_pairs)

text \<open>the frontier text an agent writes for a task is parsed back by the executor to the same
  dictionary from streams to file descriptors.\<close>

theorem frontiers_roundtrip:
  assumes "\<And>k v. (k, v) \<in> set fs \<Longrightarrow>
      int_min \<le> k \<and> k \<le> int_max \<and> int_min \<le> v \<and> v \<le> int_max"
  shows "\<exists>r. rt_frontiers (rt_set_frontiers (frontiers_text fs) m) = Inr r \<and>
             (\<forall>k. um_find k r = map_of fs k)"
  using rt_frontiers_text [OF assms, where m = m] by (simp add: um.find_emplace_all_empty)

theorem frontiers_roundtrip_witness:
  "\<exists>r. rt_frontiers (rt_set_frontiers (frontiers_text [(4, 11), (9, 12)]) []) = Inr r \<and>
       (\<forall>k. um_find k r = map_of [(4, 11), (9, 12)] k)"
  by (rule frontiers_roundtrip) (auto simp: int_min_def int_max_def)

text \<open>the environment block built from a run-time dictionary for \<open>execve\<close> is read back by the
  spawned program to the same dictionary.\<close>

theorem environment_roundtrip:
  assumes "um_wf m" "\<And>k v. (k, v) \<in> set m \<Longrightarrow> CHR ''='' \<notin> set k"
  shows "um_find k (environment_variables (rt_c_envp m)) = um_find k m"
proof -
  have "fold (\<lambda>entry res. case env_split entry of
                Some (k, v) \<Rightarrow> um_try_emplace k v res | None \<Rightarrow> res) (rt_c_envp m) r =
        um.emplace_all m r" for r
    using assms(2)
  proof (induction m arbitrary: r)
    case Nil
    then show ?case by (simp add: rt_c_envp_def um.emplace_all_def)
  next
    case (Cons kv m)
    obtain k v where kv: "kv = (k, v)" by (cases kv)
    have "CHR ''='' \<notin> set k" using Cons.prems kv by auto
    then have "env_split (k @ CHR ''='' # v) = Some (k, v)" using env_split_entry [of k v] by simp
    then show ?case
      using Cons.IH Cons.prems by (auto simp: rt_c_envp_def um.emplace_all_def kv)
  qed
  then show ?thesis
    by (simp add: environment_variables_def um.find_emplace_all_empty) (simp add: um_find_def)
qed

theorem environment_roundtrip_witness:
  "um_find ''DTC_PROGRAM'' (environment_variables (rt_c_envp [(''A'', ''x=y''), (''DTC_PROGRAM'', ''p'')]))
     = um_find ''DTC_PROGRAM'' [(''A'', ''x=y''), (''DTC_PROGRAM'', ''p'')]"
  by (rule environment_roundtrip) (auto simp: um_wf_def)

end
