(* ===== verification/Resource.thy ===== *)
theory Resource
  imports Strings
begin

text \<open>
  The resource request of a container and the capacity of an agent (struct \<open>pb::Resource\<close>,
  src/protobuf/resource.cpp), and where an agent's capacity comes from (src/statgrab/statgrab.cpp).
  The three amounts are \<open>uintmax_t\<close>, 64-bit words whose addition wraps around; subtraction is
  guarded and throws on underflow. Resources are compared componentwise.

  The abstract view is a vector of three natural numbers, made an instance of the library's
  commutative monoids and partial orders, so that the accounting of the scheduler can be stated as
  sums without wrap-around.
\<close>

section \<open>The struct and its operators\<close>

record resource =
  host :: string
  num_cpus :: u64
  memory_limit_in_bytes :: u64
  space_limit_in_bytes :: u64

definition empty_resource :: "string \<Rightarrow> resource" where
  "empty_resource h =
     \<lparr>host = h, num_cpus = 0, memory_limit_in_bytes = 0, space_limit_in_bytes = 0\<rparr>"

definition res_gt_n :: "resource \<Rightarrow> u64 \<Rightarrow> bool" where
  "res_gt_n r n \<longleftrightarrow> num_cpus r > n \<and> memory_limit_in_bytes r > n \<and> space_limit_in_bytes r > n"

definition res_ge_n :: "resource \<Rightarrow> u64 \<Rightarrow> bool" where
  "res_ge_n r n \<longleftrightarrow> num_cpus r \<ge> n \<and> memory_limit_in_bytes r \<ge> n \<and> space_limit_in_bytes r \<ge> n"

definition res_lt_n :: "resource \<Rightarrow> u64 \<Rightarrow> bool" where
  "res_lt_n r n \<longleftrightarrow> num_cpus r < n \<and> memory_limit_in_bytes r < n \<and> space_limit_in_bytes r < n"

definition res_le_n :: "resource \<Rightarrow> u64 \<Rightarrow> bool" where
  "res_le_n r n \<longleftrightarrow> num_cpus r \<le> n \<and> memory_limit_in_bytes r \<le> n \<and> space_limit_in_bytes r \<le> n"

definition res_lt :: "resource \<Rightarrow> resource \<Rightarrow> bool" where
  "res_lt r s \<longleftrightarrow> num_cpus r < num_cpus s \<and>
     memory_limit_in_bytes r < memory_limit_in_bytes s \<and>
     space_limit_in_bytes r < space_limit_in_bytes s"

definition res_le :: "resource \<Rightarrow> resource \<Rightarrow> bool" where
  "res_le r s \<longleftrightarrow> num_cpus r \<le> num_cpus s \<and>
     memory_limit_in_bytes r \<le> memory_limit_in_bytes s \<and>
     space_limit_in_bytes r \<le> space_limit_in_bytes s"

definition res_gt :: "resource \<Rightarrow> resource \<Rightarrow> bool" where
  "res_gt r s \<longleftrightarrow> num_cpus r > num_cpus s \<and>
     memory_limit_in_bytes r > memory_limit_in_bytes s \<and>
     space_limit_in_bytes r > space_limit_in_bytes s"

definition res_ge :: "resource \<Rightarrow> resource \<Rightarrow> bool" where
  "res_ge r s \<longleftrightarrow> num_cpus r \<ge> num_cpus s \<and>
     memory_limit_in_bytes r \<ge> memory_limit_in_bytes s \<and>
     space_limit_in_bytes r \<ge> space_limit_in_bytes s"

definition res_eq :: "resource \<Rightarrow> resource \<Rightarrow> bool" where
  "res_eq r s \<longleftrightarrow> num_cpus r = num_cpus s \<and>
     memory_limit_in_bytes r = memory_limit_in_bytes s \<and>
     space_limit_in_bytes r = space_limit_in_bytes s"

definition res_ne :: "resource \<Rightarrow> resource \<Rightarrow> bool" where
  "res_ne r s \<longleftrightarrow> \<not> res_eq r s"

definition res_add :: "resource \<Rightarrow> resource \<Rightarrow> resource" where
  "res_add r s = r\<lparr>num_cpus := num_cpus r + num_cpus s,
     memory_limit_in_bytes := memory_limit_in_bytes r + memory_limit_in_bytes s,
     space_limit_in_bytes := space_limit_in_bytes r + space_limit_in_bytes s\<rparr>"

definition res_sub :: "resource \<Rightarrow> resource \<Rightarrow> resource result" where
  "res_sub r s =
     (if \<not> res_ge r s then Inl (Runtime_error ''Resource substraction encountered underflow'')
      else Inr (r\<lparr>num_cpus := num_cpus r - num_cpus s,
             memory_limit_in_bytes := memory_limit_in_bytes r - memory_limit_in_bytes s,
             space_limit_in_bytes := space_limit_in_bytes r - space_limit_in_bytes s\<rparr>))"

definition res_to_string :: "resource \<Rightarrow> string" where
  "res_to_string r = ''@'' @ host r @ '' '' @ ''[cpu:'' @ u64_str (num_cpus r) @
     ''|mem:'' @ u64_str (memory_limit_in_bytes r) @
     ''|disk:'' @ u64_str (space_limit_in_bytes r) @ '']''"

section \<open>Reading the host's capacity\<close>

text \<open>The system calls are parameters: the number of processors, the reply of \<open>sysinfo\<close>
  (\<open>None\<close> when it fails, else total RAM and the size of its unit) and the free space of the root
  file system. The product is computed in \<open>uintmax_t\<close>.\<close>

definition statgrab_num_cpus :: "u64 \<Rightarrow> u64" where
  "statgrab_num_cpus nprocs = nprocs"

definition statgrab_memory_limit_in_bytes :: "(u64 \<times> u64) option \<Rightarrow> u64" where
  "statgrab_memory_limit_in_bytes info =
     (case info of None \<Rightarrow> 0 | Some (totalram, mem_unit) \<Rightarrow> totalram * mem_unit)"

definition statgrab_space_limit_in_bytes :: "u64 \<Rightarrow> u64" where
  "statgrab_space_limit_in_bytes available = available"

definition res_update :: "u64 \<Rightarrow> (u64 \<times> u64) option \<Rightarrow> u64 \<Rightarrow> resource \<Rightarrow> resource" where
  "res_update nprocs info available r =
     r\<lparr>num_cpus := statgrab_num_cpus nprocs,
       memory_limit_in_bytes := statgrab_memory_limit_in_bytes info,
       space_limit_in_bytes := statgrab_space_limit_in_bytes available\<rparr>"

section \<open>Vectors of natural numbers\<close>

datatype rvec = Rvec (rv_cpu: nat) (rv_mem: nat) (rv_disk: nat)

instantiation rvec :: comm_monoid_add
begin

definition zero_rvec :: rvec where "0 = Rvec 0 0 0"

definition plus_rvec :: "rvec \<Rightarrow> rvec \<Rightarrow> rvec" where
  "a + b = Rvec (rv_cpu a + rv_cpu b) (rv_mem a + rv_mem b) (rv_disk a + rv_disk b)"

instance
  by standard (auto simp: zero_rvec_def plus_rvec_def rvec.expand)

end

instantiation rvec :: order
begin

definition less_eq_rvec :: "rvec \<Rightarrow> rvec \<Rightarrow> bool" where
  "a \<le> b \<longleftrightarrow> rv_cpu a \<le> rv_cpu b \<and> rv_mem a \<le> rv_mem b \<and> rv_disk a \<le> rv_disk b"

definition less_rvec :: "rvec \<Rightarrow> rvec \<Rightarrow> bool" where
  "a < b \<longleftrightarrow> a \<le> b \<and> \<not> b \<le> (a :: rvec)"

instance
  by standard (auto simp: less_eq_rvec_def less_rvec_def rvec.expand)

end

lemma rvec_sel_simps [simp]:
  "rv_cpu (a + b) = rv_cpu a + rv_cpu b"
  "rv_mem (a + b) = rv_mem a + rv_mem b"
  "rv_disk (a + b) = rv_disk a + rv_disk b"
  "rv_cpu 0 = 0" "rv_mem 0 = 0" "rv_disk 0 = 0"
  by (simp_all add: plus_rvec_def zero_rvec_def)

lemma rvec_eqI: "rv_cpu a = rv_cpu b \<Longrightarrow> rv_mem a = rv_mem b \<Longrightarrow> rv_disk a = rv_disk b \<Longrightarrow> a = b"
  by (simp add: rvec.expand)

lemma rvec_add_left_cancel: "a + b = a + c \<longleftrightarrow> b = (c :: rvec)"
  by (auto simp: plus_rvec_def intro: rvec_eqI)

lemma rvec_le_add: "a \<le> a + (b :: rvec)" "b \<le> a + b"
  by (simp_all add: less_eq_rvec_def)

lemma rvec_add_mono: "a \<le> c \<Longrightarrow> b \<le> d \<Longrightarrow> a + b \<le> c + (d :: rvec)"
  by (simp add: less_eq_rvec_def)

definition rvec_of :: "resource \<Rightarrow> rvec" where
  "rvec_of r = Rvec (unat (num_cpus r)) (unat (memory_limit_in_bytes r)) (unat (space_limit_in_bytes r))"

lemma rvec_of_sel [simp]:
  "rv_cpu (rvec_of r) = unat (num_cpus r)"
  "rv_mem (rvec_of r) = unat (memory_limit_in_bytes r)"
  "rv_disk (rvec_of r) = unat (space_limit_in_bytes r)"
  by (simp_all add: rvec_of_def)

section \<open>The operators against the abstract view\<close>

lemma res_ge_iff: "res_ge r s \<longleftrightarrow> rvec_of s \<le> rvec_of r"
  by (auto simp: res_ge_def less_eq_rvec_def word_le_nat_alt)

lemma res_le_iff: "res_le r s \<longleftrightarrow> rvec_of r \<le> rvec_of s"
  by (auto simp: res_le_def less_eq_rvec_def word_le_nat_alt)

lemma res_gt_lt: "res_gt r s \<longleftrightarrow> res_lt s r"
  by (auto simp: res_gt_def res_lt_def)

lemma res_lt_irrefl [simp]: "\<not> res_lt r r"
  by (simp add: res_lt_def)

lemma res_lt_trans: "res_lt r s \<Longrightarrow> res_lt s t \<Longrightarrow> res_lt r t"
  by (auto simp: res_lt_def)

lemma res_lt_imp_le: "res_lt r s \<Longrightarrow> res_le r s"
  by (auto simp: res_lt_def res_le_def)

lemma res_ge_antisym: "res_ge r s \<Longrightarrow> res_ge s r \<Longrightarrow> res_eq r s"
  by (auto simp: res_ge_def res_eq_def)

lemma res_sub_rvec: "res_sub r s = Inr t \<Longrightarrow> rvec_of t + rvec_of s = rvec_of r"
  by (auto simp: res_sub_def res_ge_def unat_sub word_le_nat_alt split: if_splits intro!: rvec_eqI)

lemma res_sub_defined: "res_ge r s \<Longrightarrow> \<exists>t. res_sub r s = Inr t \<and> host t = host r"
  by (simp add: res_sub_def)

lemma res_sub_ge: "res_sub r s = Inr t \<Longrightarrow> res_ge r s"
  by (auto simp: res_sub_def split: if_splits)

lemma unat_add_bounded: "unat a + unat b < 2 ^ 64 \<Longrightarrow> unat (a + b :: u64) = unat a + unat b"
  by (simp add: unat_word_ariths)

lemma res_add_rvec:
  assumes "rvec_of r + rvec_of s \<le> rvec_of t"
  shows "rvec_of (res_add r s) = rvec_of r + rvec_of s"
proof -
  have b: "unat (w :: u64) < 2 ^ 64" for w using unsigned_less [of w] by simp
  show ?thesis
    using assms b [of "num_cpus t"] b [of "memory_limit_in_bytes t"] b [of "space_limit_in_bytes t"]
    by (intro rvec_eqI) (auto simp: res_add_def less_eq_rvec_def unat_add_bounded)
qed

lemma res_add_host [simp]: "host (res_add r s) = host r"
  by (simp add: res_add_def)

lemma res_sub_host: "res_sub r s = Inr t \<Longrightarrow> host t = host r"
  by (auto simp: res_sub_def split: if_splits)

section \<open>Properties\<close>

text \<open>C28: subtraction throws exactly when some amount is smaller than the one taken away, and when
  it succeeds adding the same resource again restores every field: a scheduled container can be
  given back without loss, in 64-bit arithmetic.\<close>

theorem res_sub_add_roundtrip:
  "(case res_sub r s of
      Inl e \<Rightarrow> \<not> rvec_of s \<le> rvec_of r \<and>
               e = Runtime_error ''Resource substraction encountered underflow''
    | Inr t \<Rightarrow> rvec_of s \<le> rvec_of r \<and> rvec_of t + rvec_of s = rvec_of r \<and> res_add t s = r)"
proof (cases "res_ge r s")
  case True
  then obtain t where t: "res_sub r s = Inr t" by (auto simp: res_sub_def)
  moreover have "res_add t s = r" using t by (auto simp: res_sub_def res_add_def split: if_splits)
  ultimately show ?thesis using True res_sub_rvec [OF t] by (simp add: res_ge_iff)
next
  case False
  then show ?thesis by (simp add: res_sub_def res_ge_iff)
qed

end
