(* ===== verification/Topology.thy ===== *)
theory Topology
  imports Runtime Resource
begin

text \<open>
  The topology message (struct \<open>pb::Topology\<close>, src/protobuf/topology.cpp): the containers,
  vertices and streams of a graph as the master, the agents and the executors exchange them. The
  master holds the whole topology; \<open>extract\<close> cuts out the part of one container, and relative to
  such a part a stream is \<^emph>\<open>intra\<close> (both ends here) or \<^emph>\<open>inter\<close>, incoming
  (\<open>std::ios_base::in\<close>: the head is here) or outgoing (\<open>out\<close>: the tail is here). The
  theorems say that the extracts of a well-formed topology cover every vertex and every stream with
  exactly one owner per end, which is what makes the frontier matching of the agents meet.
\<close>

section \<open>The message\<close>

record container =
  c_key :: key_type
  c_resource :: resource
  c_configs :: "(string \<times> string) list"

record vertex =
  v_key :: key_type
  v_container :: key_type

record stream =
  s_key :: key_type
  s_tail :: key_type
  s_head :: key_type

record topology =
  t_graph :: key_type
  t_topology :: key_type
  t_runtime :: runtime
  t_vertices :: "(key_type \<times> vertex) list"
  t_streams :: "(key_type \<times> stream) list"
  t_containers :: "(key_type \<times> container) list"

text \<open>The constructors. A default resource has no amounts and the host of the process that
  constructs it (\<open>host {env::this_host()}\<close>), the argument \<open>h\<close> here.\<close>

definition mk_container :: "string \<Rightarrow> key_type \<Rightarrow> container" where
  "mk_container h k = \<lparr>c_key = k, c_resource = empty_resource h, c_configs = []\<rparr>"

definition mk_vertex :: "key_type \<Rightarrow> vertex" where
  "mk_vertex k = \<lparr>v_key = k, v_container = - 1\<rparr>"

definition mk_stream :: "key_type \<Rightarrow> key_type \<Rightarrow> key_type \<Rightarrow> stream" where
  "mk_stream k t h = \<lparr>s_key = k, s_tail = t, s_head = h\<rparr>"

definition mk_topology :: "key_type \<Rightarrow> key_type \<Rightarrow> topology" where
  "mk_topology g t = \<lparr>t_graph = g, t_topology = t, t_runtime = [], t_vertices = [],
     t_streams = [], t_containers = []\<rparr>"

section \<open>Hosts of a container\<close>

definition container_host :: "string \<Rightarrow> container \<Rightarrow> container" where
  "container_host h c = c\<lparr>c_configs := um_assign ''host'' h (c_configs c)\<rparr>"

text \<open>\<open>configs["preferred_hosts"] += h + ' '\<close>: a missing entry starts as the empty string.\<close>

definition container_preferred_host :: "string \<Rightarrow> container \<Rightarrow> container" where
  "container_preferred_host h c =
     c\<lparr>c_configs := um_assign ''preferred_hosts''
         (rt_get ''preferred_hosts'' '''' (c_configs c) @ h @ '' '') (c_configs c)\<rparr>"

definition container_hosts :: "container \<Rightarrow> string list" where
  "container_hosts c = (case um_find ''hosts'' (c_configs c) of Some t \<Rightarrow> ws_split t | None \<Rightarrow> [])"

definition container_preferred_hosts :: "container \<Rightarrow> string list" where
  "container_preferred_hosts c =
     (case um_find ''preferred_hosts'' (c_configs c) of Some t \<Rightarrow> ws_split t | None \<Rightarrow> [])"

text \<open>The variadic \<open>hosts(...)\<close> and \<open>preferred_hosts(...)\<close> fold over their arguments.\<close>

definition container_set_hosts :: "string list \<Rightarrow> container \<Rightarrow> container" where
  "container_set_hosts hs c = fold container_host hs c"

definition container_add_preferred_hosts :: "string list \<Rightarrow> container \<Rightarrow> container" where
  "container_add_preferred_hosts hs c = fold container_preferred_host hs c"

section \<open>Queries\<close>

definition tpg_resource :: "string \<Rightarrow> topology \<Rightarrow> resource" where
  "tpg_resource h t =
     fold (\<lambda>kvp ret. res_add ret (c_resource (snd kvp))) (t_containers t) (empty_resource h)"

definition has_vertex :: "topology \<Rightarrow> key_type \<Rightarrow> bool" where
  "has_vertex t k \<longleftrightarrow> um_find k (t_vertices t) \<noteq> None"

definition has_stream :: "topology \<Rightarrow> key_type \<Rightarrow> bool" where
  "has_stream t k \<longleftrightarrow> um_find k (t_streams t) \<noteq> None"

definition has_container :: "topology \<Rightarrow> key_type \<Rightarrow> bool" where
  "has_container t k \<longleftrightarrow> um_find k (t_containers t) \<noteq> None"

definition has_intra_stream :: "topology \<Rightarrow> key_type \<Rightarrow> bool" where
  "has_intra_stream t k =
     (case um_find k (t_streams t) of
        Some s \<Rightarrow> has_vertex t (s_tail s) \<and> has_vertex t (s_head s)
      | None \<Rightarrow> False)"

text \<open>The \<open>std::ios_base::openmode\<close> argument: any combination but the two single flags is
  \<open>Other_mode\<close>.\<close>

datatype openmode = Mode_in | Mode_out | Other_mode

definition has_inter_stream_mode :: "topology \<Rightarrow> key_type \<Rightarrow> openmode \<Rightarrow> bool" where
  "has_inter_stream_mode t k m =
     (case um_find k (t_streams t) of
        Some s \<Rightarrow>
          (case m of
             Mode_in \<Rightarrow> has_vertex t (s_head s) \<and> \<not> has_vertex t (s_tail s)
           | Mode_out \<Rightarrow> has_vertex t (s_tail s) \<and> \<not> has_vertex t (s_head s)
           | Other_mode \<Rightarrow> False)
      | None \<Rightarrow> False)"

definition has_inter_stream :: "topology \<Rightarrow> key_type \<Rightarrow> bool" where
  "has_inter_stream t k \<longleftrightarrow> has_inter_stream_mode t k Mode_in \<or> has_inter_stream_mode t k Mode_out"

definition num_inter_streams :: "topology \<Rightarrow> nat" where
  "num_inter_streams t = length (filter (\<lambda>kvp. has_inter_stream t (fst kvp)) (t_streams t))"

definition num_intra_streams :: "topology \<Rightarrow> nat" where
  "num_intra_streams t = length (filter (\<lambda>kvp. has_intra_stream t (fst kvp)) (t_streams t))"

definition max_container_key :: "topology \<Rightarrow> key_type" where
  "max_container_key t = fold (\<lambda>kvp mkey. max mkey (fst kvp)) (t_containers t) int_min"

definition min_container_key :: "topology \<Rightarrow> key_type" where
  "min_container_key t = fold (\<lambda>kvp mkey. min mkey (fst kvp)) (t_containers t) int_max"

section \<open>Extraction\<close>

text \<open>Copying streams: \<open>vertices.at\<close> throws for an end that is not a vertex of the whole
  topology, whichever container is extracted.\<close>

definition extract_stream ::
  "topology \<Rightarrow> key_type \<Rightarrow> key_type \<times> stream \<Rightarrow> topology \<Rightarrow> topology result" where
  "extract_stream t k kvp tpg =
     bind_r (um_at (s_tail (snd kvp)) (t_vertices t)) (\<lambda>tv.
     bind_r (um_at (s_head (snd kvp)) (t_vertices t)) (\<lambda>hv.
       if v_container tv = k \<or> v_container hv = k
       then Inr (tpg\<lparr>t_streams := um_assign (fst kvp) (snd kvp) (t_streams tpg)\<rparr>)
       else Inr tpg))"

definition extract_vertices :: "topology \<Rightarrow> key_type \<Rightarrow> topology \<Rightarrow> topology" where
  "extract_vertices t k tpg =
     fold (\<lambda>kvp tpg. if v_container (snd kvp) = k
              then tpg\<lparr>t_vertices := um_try_emplace (fst kvp) (snd kvp) (t_vertices tpg)\<rparr> else tpg)
       (t_vertices t) tpg"

definition tpg_extract :: "topology \<Rightarrow> key_type \<Rightarrow> topology result" where
  "tpg_extract t k =
     (let tpg = (mk_topology (t_graph t) k)\<lparr>t_runtime := t_runtime t\<rparr>
      in bind_r (um_at k (t_containers t)) (\<lambda>c.
         let tpg = tpg\<lparr>t_containers := um_assign k c (t_containers tpg)\<rparr>;
             tpg = extract_vertices t k tpg
         in fold_r (extract_stream t k) (t_streams t) tpg))"

section \<open>Printing\<close>

definition tpg_to_string :: "topology \<Rightarrow> string" where
  "tpg_to_string t = ''@'' @ rt_this_host (t_runtime t) @ '' '' @
     ''[vertex:'' @ nat_str (length (t_vertices t)) @
     ''|stream:'' @ nat_str (length (t_streams t)) @
     ''|container:'' @ nat_str (length (t_containers t)) @ '']''"

definition tpg_print :: "topology \<Rightarrow> string" where
  "tpg_print t =
     ''[Topology '' @ int_str (t_topology t) @ '']'' @ [CHR 0x0A] @
     ''UUID = '' @ int_str (t_graph t) @ [CHR 0x0A] @
     ''# vertices = '' @ nat_str (length (t_vertices t)) @ [CHR 0x0A] @
     concat (map (\<lambda>v. ''vertex '' @ int_str (v_key (snd v)) @ '' [container='' @
       int_str (v_container (snd v)) @ '']'' @ [CHR 0x0A]) (t_vertices t)) @
     ''# streams = '' @ nat_str (length (t_streams t)) @ [CHR 0x0A] @
     ''# containers = '' @ nat_str (length (t_containers t)) @ [CHR 0x0A] @
     concat (map (\<lambda>c. ''container '' @ int_str (fst c) @ [CHR 0x0A]) (t_containers t))"

section \<open>Well-formed topologies\<close>

text \<open>Keys are distinct, both ends of a stream are vertices, and every vertex lives in a
  container.\<close>

definition tpg_wf :: "topology \<Rightarrow> bool" where
  "tpg_wf t \<longleftrightarrow>
     um_wf (t_vertices t) \<and> um_wf (t_streams t) \<and> um_wf (t_containers t) \<and>
     (\<forall>(k, s) \<in> set (t_streams t). has_vertex t (s_tail s) \<and> has_vertex t (s_head s)) \<and>
     (\<forall>(k, v) \<in> set (t_vertices t). has_container t (v_container v))"

definition container_of :: "topology \<Rightarrow> key_type \<Rightarrow> key_type option" where
  "container_of t v = map_option v_container (um_find v (t_vertices t))"

section \<open>Lemmas\<close>

lemma um_find_filter:
  "um_wf m \<Longrightarrow> um_find k (filter (\<lambda>kvp. P (snd kvp)) m) =
     (case um_find k m of Some v \<Rightarrow> if P v then Some v else None | None \<Rightarrow> None)"
proof (induction m)
  case Nil
  then show ?case by simp
next
  case (Cons e m)
  obtain j v where e: "e = (j, v)" by (cases e)
  have "um_find j m = None" "um_wf m"
    using Cons.prems by (auto simp: um_wf_def e um_find_None_keys)
  then show ?case using Cons.IH by (auto simp: e split: option.splits)
qed

lemma um_try_emplace_fresh: "um_find k m = None \<Longrightarrow> um_try_emplace k v m = m @ [(k, v)]"
  by (simp add: um_try_emplace_def um_find_def)

lemma um_wf_Cons [simp]: "um_wf ((k, v) # m) \<longleftrightarrow> um_find k m = None \<and> um_wf m"
  by (auto simp: um_wf_def um_find_None_keys)

lemma um_find_append: "um_find k (m @ m') = (case um_find k m of None \<Rightarrow> um_find k m' | Some v \<Rightarrow> Some v)"
  by (induction m) auto

lemma extract_vertices_fold:
  assumes "um_wf xs" "\<And>k v. (k, v) \<in> set xs \<Longrightarrow> um_find k (t_vertices tpg) = None"
  shows "fold (\<lambda>kvp tpg. if v_container (snd kvp) = c
              then tpg\<lparr>t_vertices := um_try_emplace (fst kvp) (snd kvp) (t_vertices tpg)\<rparr> else tpg)
           xs tpg =
         tpg\<lparr>t_vertices := t_vertices tpg @ filter (\<lambda>kvp. v_container (snd kvp) = c) xs\<rparr>"
  using assms
proof (induction xs arbitrary: tpg)
  case Nil
  then show ?case by simp
next
  case (Cons e xs)
  obtain k v where e: "e = (k, v)" by (cases e)
  have wf: "um_wf xs" "um_find k xs = None" using Cons.prems(1) by (auto simp: e)
  have ne: "j \<noteq> k" if "(j, w) \<in> set xs" for j w
    using that wf by (auto simp: um_find_set [OF wf(1)])
  have fr: "um_find k (t_vertices tpg) = None" using Cons.prems(2) e by auto
  have n1: "um_find j (t_vertices tpg) = None" if "(j, w) \<in> set xs" for j w
    using Cons.prems(2) [of j w] that by simp
  then have n2: "um_find j (t_vertices (tpg\<lparr>t_vertices := t_vertices tpg @ [(k, v)]\<rparr>)) = None"
    if "(j, w) \<in> set xs" for j w
    using that ne by (auto simp: um_find_append)
  show ?case
    using Cons.IH [OF wf(1) n1] Cons.IH [OF wf(1) n2]
    by (auto simp: e um_try_emplace_fresh [OF fr])
qed

lemma extract_vertices_eq:
  assumes "um_wf (t_vertices t)" "t_vertices tpg = []"
  shows "extract_vertices t c tpg =
     tpg\<lparr>t_vertices := filter (\<lambda>kvp. v_container (snd kvp) = c) (t_vertices t)\<rparr>"
  using extract_vertices_fold [of "t_vertices t" tpg c] assms by (simp add: extract_vertices_def)

definition stream_ends :: "topology \<Rightarrow> stream \<Rightarrow> bool" where
  "stream_ends t s \<longleftrightarrow> has_vertex t (s_tail s) \<and> has_vertex t (s_head s)"

definition touches :: "topology \<Rightarrow> key_type \<Rightarrow> stream \<Rightarrow> bool" where
  "touches t c s \<longleftrightarrow> container_of t (s_tail s) = Some c \<or> container_of t (s_head s) = Some c"

lemma extract_stream_eq:
  "extract_stream t c (k, s) tpg =
     (if stream_ends t s
      then Inr (if touches t c s then tpg\<lparr>t_streams := um_assign k s (t_streams tpg)\<rparr> else tpg)
      else Inl Out_of_range)"
  by (auto simp: extract_stream_def stream_ends_def touches_def has_vertex_def container_of_def
      um_at_eq split: option.splits)

lemma extract_streams_fold:
  assumes "um_wf xs" "\<And>k s. (k, s) \<in> set xs \<Longrightarrow> um_find k (t_streams tpg) = None"
  shows "fold_r (extract_stream t c) xs tpg =
     (if \<forall>kvp \<in> set xs. stream_ends t (snd kvp)
      then Inr (tpg\<lparr>t_streams := t_streams tpg @ filter (\<lambda>kvp. touches t c (snd kvp)) xs\<rparr>)
      else Inl Out_of_range)"
  using assms
proof (induction xs arbitrary: tpg)
  case Nil
  then show ?case by simp
next
  case (Cons e xs)
  obtain k s where e: "e = (k, s)" by (cases e)
  have wf: "um_wf xs" "um_find k xs = None" using Cons.prems(1) by (auto simp: e)
  have ne: "j \<noteq> k" if "(j, w) \<in> set xs" for j w
    using that wf by (auto simp: um_find_set [OF wf(1)])
  have fr: "um_find k (t_streams tpg) = None" using Cons.prems(2) e by auto
  have n1: "um_find j (t_streams tpg) = None" if "(j, w) \<in> set xs" for j w
    using Cons.prems(2) [of j w] that by simp
  then have n2: "um_find j (t_streams (tpg\<lparr>t_streams := t_streams tpg @ [(k, s)]\<rparr>)) = None"
    if "(j, w) \<in> set xs" for j w
    using that ne by (auto simp: um_find_append)
  show ?case
    using Cons.IH [OF wf(1) n1] Cons.IH [OF wf(1) n2]
    by (auto simp: e extract_stream_eq um_assign_fresh [OF fr])
qed

text \<open>\<open>extract\<close> in closed form.\<close>

lemma tpg_extract_eq:
  assumes "um_wf (t_vertices t)" "um_wf (t_streams t)"
  shows "tpg_extract t c =
     (case um_find c (t_containers t) of
        None \<Rightarrow> Inl Out_of_range
      | Some con \<Rightarrow>
          if \<forall>kvp \<in> set (t_streams t). stream_ends t (snd kvp)
          then Inr \<lparr>t_graph = t_graph t, t_topology = c, t_runtime = t_runtime t,
                 t_vertices = filter (\<lambda>kvp. v_container (snd kvp) = c) (t_vertices t),
                 t_streams = filter (\<lambda>kvp. touches t c (snd kvp)) (t_streams t),
                 t_containers = [(c, con)]\<rparr>
          else Inl Out_of_range)"
  using assms
  by (auto simp: tpg_extract_def Let_def um_at_eq extract_vertices_eq extract_streams_fold
      mk_topology_def um_assign_def split: option.splits)

lemma tpg_extract_wf:
  assumes "tpg_wf t" "has_container t c"
  obtains con where "um_find c (t_containers t) = Some con"
    "tpg_extract t c = Inr \<lparr>t_graph = t_graph t, t_topology = c, t_runtime = t_runtime t,
                 t_vertices = filter (\<lambda>kvp. v_container (snd kvp) = c) (t_vertices t),
                 t_streams = filter (\<lambda>kvp. touches t c (snd kvp)) (t_streams t),
                 t_containers = [(c, con)]\<rparr>"
proof -
  obtain con where con: "um_find c (t_containers t) = Some con"
    using assms(2) by (auto simp: has_container_def)
  moreover have "\<forall>kvp \<in> set (t_streams t). stream_ends t (snd kvp)"
    using assms(1) by (auto simp: tpg_wf_def stream_ends_def)
  ultimately show ?thesis
    using that [OF con] tpg_extract_eq [of t c] assms(1) by (simp add: tpg_wf_def)
qed

text \<open>A vertex is in the extract of exactly its own container.\<close>

lemma extract_has_vertex:
  assumes "tpg_wf t" "tpg_extract t c = Inr e"
  shows "has_vertex e v \<longleftrightarrow> container_of t v = Some c"
proof -
  have wf: "um_wf (t_vertices t)" "um_wf (t_streams t)" using assms(1) by (auto simp: tpg_wf_def)
  then have "t_vertices e = filter (\<lambda>kvp. v_container (snd kvp) = c) (t_vertices t)"
    using assms(2) tpg_extract_eq [OF wf, of c] by (auto split: option.splits if_splits)
  then show ?thesis
    using um_find_filter [OF wf(1), of v "\<lambda>w. v_container w = c"]
    by (auto simp: has_vertex_def container_of_def split: option.splits if_splits)
qed

lemma extract_find_stream:
  assumes "tpg_wf t" "tpg_extract t c = Inr e"
  shows "um_find k (t_streams e) =
     (case um_find k (t_streams t) of Some s \<Rightarrow> if touches t c s then Some s else None | None \<Rightarrow> None)"
proof -
  have wf: "um_wf (t_vertices t)" "um_wf (t_streams t)" using assms(1) by (auto simp: tpg_wf_def)
  then have "t_streams e = filter (\<lambda>kvp. touches t c (snd kvp)) (t_streams t)"
    using assms(2) tpg_extract_eq [OF wf, of c] by (auto split: option.splits if_splits)
  then show ?thesis by (simp add: um_find_filter [OF wf(2)])
qed

lemma tpg_wf_stream:
  assumes "tpg_wf t" "um_find k (t_streams t) = Some s"
  obtains a b where "container_of t (s_tail s) = Some a" "container_of t (s_head s) = Some b"
    "has_container t a" "has_container t b"
proof -
  have "(k, s) \<in> set (t_streams t)" using assms(2) by (rule um_find_Some_set)
  then obtain v w where v: "um_find (s_tail s) (t_vertices t) = Some v"
    and w: "um_find (s_head s) (t_vertices t) = Some w"
    using assms(1) by (auto simp: tpg_wf_def has_vertex_def)
  then have "has_container t (v_container v)" "has_container t (v_container w)"
    using assms(1) by (auto simp: tpg_wf_def dest!: um_find_Some_set)
  with that v w show ?thesis by (simp add: container_of_def)
qed

lemmas stream_queries = has_intra_stream_def has_inter_stream_mode_def has_inter_stream_def

lemma extract_stream_modes:
  assumes "tpg_wf t" "tpg_extract t c = Inr e" "um_find k (t_streams t) = Some s"
    and "container_of t (s_tail s) = Some a" "container_of t (s_head s) = Some b"
  shows "has_intra_stream e k \<longleftrightarrow> a = c \<and> b = c"
    and "has_inter_stream_mode e k Mode_out \<longleftrightarrow> a = c \<and> b \<noteq> c"
    and "has_inter_stream_mode e k Mode_in \<longleftrightarrow> b = c \<and> a \<noteq> c"
    and "has_stream e k \<longleftrightarrow> a = c \<or> b = c"
  using assms(3-5)
  by (auto simp: stream_queries has_stream_def extract_find_stream [OF assms(1,2)] touches_def
      extract_has_vertex [OF assms(1,2)])

lemma filter_length_xor:
  "(\<And>x. x \<in> set xs \<Longrightarrow> P x \<longleftrightarrow> \<not> Q x) \<Longrightarrow> length (filter P xs) + length (filter Q xs) = length xs"
  by (induction xs) auto

lemma extract_wf_streams:
  assumes "tpg_wf t" "tpg_extract t c = Inr e"
  shows "um_wf (t_streams e)"
proof -
  have wf: "um_wf (t_vertices t)" "um_wf (t_streams t)" using assms(1) by (auto simp: tpg_wf_def)
  then have "t_streams e = filter (\<lambda>kvp. touches t c (snd kvp)) (t_streams t)"
    using assms(2) tpg_extract_eq [OF wf, of c] by (auto split: option.splits if_splits)
  then show ?thesis using wf(2) by (simp add: um_wf_def um_keys_def distinct_map_filter)
qed

text \<open>In an extract every stream is either intra or inter, so the two counters add up.\<close>

lemma extract_num_streams:
  assumes "tpg_wf t" "tpg_extract t c = Inr e"
  shows "num_inter_streams e + num_intra_streams e = length (t_streams e)"
  unfolding num_inter_streams_def num_intra_streams_def
proof (rule filter_length_xor)
  fix kvp assume "kvp \<in> set (t_streams e)"
  then obtain k s where k: "kvp = (k, s)" "um_find k (t_streams e) = Some s"
    using um_find_set [OF extract_wf_streams [OF assms]] by (metis surj_pair)
  then have s: "um_find k (t_streams t) = Some s" "touches t c s"
    by (auto simp: extract_find_stream [OF assms] split: option.splits if_splits)
  obtain a b where ab: "container_of t (s_tail s) = Some a" "container_of t (s_head s) = Some b"
    using tpg_wf_stream [OF assms(1) s(1)] by metis
  show "has_inter_stream e (fst kvp) \<longleftrightarrow> \<not> has_intra_stream e (fst kvp)"
    using s(2) ab extract_stream_modes [OF assms s(1) ab]
    by (auto simp: k has_inter_stream_def touches_def)
qed

lemma tpg_resource_single:
  "t_containers t = [(k, c)] \<Longrightarrow> rvec_of (tpg_resource h t) = rvec_of (c_resource c)"
  by (rule rvec_eqI) (simp_all add: tpg_resource_def res_add_def empty_resource_def)

section \<open>Properties\<close>

text \<open>C24: in a well-formed topology (distinct keys, every vertex in an existing container, every stream
  between existing vertices, which is what \<open>topologize\<close> builds), extracting a container succeeds
  exactly when the container exists and throws \<open>std::out_of_range\<close> otherwise; the extract is labelled
  with the graph and the container, carries the run-time environment, holds exactly the vertices
  placed in the container, asks for exactly the container's resource, and each of its streams is
  counted once, as intra or as inter.\<close>

theorem extract_spec:
  assumes "tpg_wf t"
  shows "case um_find c (t_containers t) of
           None \<Rightarrow> tpg_extract t c = Inl Out_of_range
         | Some con \<Rightarrow> \<exists>e. tpg_extract t c = Inr e \<and> t_graph e = t_graph t \<and> t_topology e = c \<and>
             t_runtime e = t_runtime t \<and>
             (\<forall>v. has_vertex e v \<longleftrightarrow> container_of t v = Some c) \<and>
             rvec_of (tpg_resource h e) = rvec_of (c_resource con) \<and>
             num_inter_streams e + num_intra_streams e = length (t_streams e)"
proof (cases "um_find c (t_containers t)")
  case None
  then show ?thesis using assms by (simp add: tpg_extract_eq tpg_wf_def)
next
  case (Some con)
  then have "has_container t c" by (simp add: has_container_def)
  then obtain e where e: "tpg_extract t c = Inr e" "t_graph e = t_graph t" "t_topology e = c"
      "t_runtime e = t_runtime t" "t_containers e = [(c, con)]"
    by (rule tpg_extract_wf [OF assms]) (simp add: Some)
  then show ?thesis
    using Some extract_has_vertex [OF assms e(1)] extract_num_streams [OF assms e(1)]
      tpg_resource_single [OF e(5)] by auto
qed

definition demo_topology :: topology where
  "demo_topology = (mk_topology 7 (- 1))\<lparr>
     t_vertices := [(0, \<lparr>v_key = 0, v_container = 0\<rparr>), (1, \<lparr>v_key = 1, v_container = 1\<rparr>),
                    (2, \<lparr>v_key = 2, v_container = 1\<rparr>)],
     t_streams := [(0, mk_stream 0 0 1), (1, mk_stream 1 1 2), (2, mk_stream 2 2 0)],
     t_containers := [(0, mk_container '''' 0), (1, mk_container '''' 1)]\<rparr>"

lemma demo_topology_wf: "tpg_wf demo_topology"
  by (simp add: tpg_wf_def demo_topology_def has_vertex_def has_container_def mk_topology_def mk_stream_def)

theorem extract_spec_witness:
  "case um_find 1 (t_containers demo_topology) of
     None \<Rightarrow> tpg_extract demo_topology 1 = Inl Out_of_range
   | Some con \<Rightarrow> \<exists>e. tpg_extract demo_topology 1 = Inr e \<and> t_graph e = t_graph demo_topology \<and>
       t_topology e = 1 \<and> t_runtime e = t_runtime demo_topology \<and>
       (\<forall>v. has_vertex e v \<longleftrightarrow> container_of demo_topology v = Some 1) \<and>
       rvec_of (tpg_resource ''node'' e) = rvec_of (c_resource con) \<and>
       num_inter_streams e + num_intra_streams e = length (t_streams e)"
  by (rule extract_spec [OF demo_topology_wf])

text \<open>C25: every stream of a well-formed topology has one producing and one consuming container: its
  tail's and its head's. If they are the same, the stream is intra in that extract and appears in no
  other; otherwise it is outgoing in exactly the tail's extract, incoming in exactly the head's
  extract, and appears in no third one. So each frontier an agent opens has one partner.\<close>

theorem extract_streams_meet:
  assumes "tpg_wf t" "um_find k (t_streams t) = Some s"
  shows "\<exists>a b ea eb. container_of t (s_tail s) = Some a \<and> container_of t (s_head s) = Some b \<and>
     tpg_extract t a = Inr ea \<and> tpg_extract t b = Inr eb \<and>
     (\<forall>c e. tpg_extract t c = Inr e \<longrightarrow>
        (has_intra_stream e k \<longleftrightarrow> a = c \<and> b = c) \<and>
        (has_inter_stream_mode e k Mode_out \<longleftrightarrow> a = c \<and> b \<noteq> c) \<and>
        (has_inter_stream_mode e k Mode_in \<longleftrightarrow> b = c \<and> a \<noteq> c) \<and>
        (has_stream e k \<longleftrightarrow> a = c \<or> b = c))"
proof -
  obtain a b where ab: "container_of t (s_tail s) = Some a" "container_of t (s_head s) = Some b"
    and con: "has_container t a" "has_container t b"
    using tpg_wf_stream [OF assms] by metis
  obtain ea eb where "tpg_extract t a = Inr ea" "tpg_extract t b = Inr eb"
    using tpg_extract_wf [OF assms(1) con(1)] tpg_extract_wf [OF assms(1) con(2)] by metis
  then show ?thesis
    using extract_stream_modes [OF assms(1) _ assms(2) ab] ab
    by (intro exI [of _ a] exI [of _ b] exI [of _ ea] exI [of _ eb]) simp
qed

theorem extract_streams_meet_witness:
  "\<exists>ea eb. tpg_extract demo_topology 1 = Inr ea \<and> tpg_extract demo_topology 0 = Inr eb \<and>
     (\<forall>c e. tpg_extract demo_topology c = Inr e \<longrightarrow>
        (has_intra_stream e 2 \<longleftrightarrow> 1 = c \<and> 0 = c) \<and>
        (has_inter_stream_mode e 2 Mode_out \<longleftrightarrow> 1 = c \<and> 0 \<noteq> c) \<and>
        (has_inter_stream_mode e 2 Mode_in \<longleftrightarrow> 0 = c \<and> 1 \<noteq> c) \<and>
        (has_stream e 2 \<longleftrightarrow> 1 = c \<or> 0 = c))"
proof -
  have "um_find 2 (t_streams demo_topology) = Some (mk_stream 2 2 0)"
    by (simp add: demo_topology_def mk_topology_def)
  from extract_streams_meet [OF demo_topology_wf this] obtain a b ea eb where
    ab: "container_of demo_topology 2 = Some a" "container_of demo_topology 0 = Some b"
    and e: "tpg_extract demo_topology a = Inr ea \<and> tpg_extract demo_topology b = Inr eb \<and>
     (\<forall>c e. tpg_extract demo_topology c = Inr e \<longrightarrow>
        (has_intra_stream e 2 \<longleftrightarrow> a = c \<and> b = c) \<and>
        (has_inter_stream_mode e 2 Mode_out \<longleftrightarrow> a = c \<and> b \<noteq> c) \<and>
        (has_inter_stream_mode e 2 Mode_in \<longleftrightarrow> b = c \<and> a \<noteq> c) \<and>
        (has_stream e 2 \<longleftrightarrow> a = c \<or> b = c))" by (simp add: mk_stream_def) blast
  have "a = 1" "b = 0" using ab by (simp_all add: container_of_def demo_topology_def mk_topology_def)
  with e show ?thesis by blast
qed

text \<open>the preferred hosts collected one by one in a container, as space-terminated words of one
  string, are read back as the list that was put in.\<close>

theorem preferred_hosts_roundtrip:
  assumes "hs \<noteq> []" "\<And>h. h \<in> set hs \<Longrightarrow> is_word h"
  shows "container_preferred_hosts (container_add_preferred_hosts hs (mk_container h k)) = hs"
proof -
  have step: "um_find ''preferred_hosts'' (c_configs (fold container_preferred_host hs c)) =
      (if hs = [] then um_find ''preferred_hosts'' (c_configs c)
       else Some (rt_get ''preferred_hosts'' '''' (c_configs c) @ concat (map (\<lambda>w. w @ '' '') hs)))" for c
  proof (induction hs arbitrary: c)
    case Nil
    then show ?case by simp
  next
    case (Cons h hs)
    then show ?case by (simp add: container_preferred_host_def dict_simps)
  qed
  show ?thesis
    using step [of "mk_container h k"] assms ws_split_words [OF assms]
    by (simp add: container_preferred_hosts_def container_add_preferred_hosts_def
        mk_container_def rt_get_def)
qed

theorem preferred_hosts_roundtrip_witness:
  "container_preferred_hosts (container_add_preferred_hosts [''alpha'', ''10.0.0.7''] (mk_container ''master'' 3))
     = [''alpha'', ''10.0.0.7'']"
  by (rule preferred_hosts_roundtrip) (auto simp: is_word_def isspace_def)

end
