(* ===== verification/StreamGraph.thy ===== *)
theory StreamGraph
  imports Topology
begin

text \<open>
  Stream graphs (src/kernel/graph.cpp, include/dtc/kernel/graph.hpp, src/kernel/stream.cpp,
  src/kernel/vertex.cpp). A user program builds a graph by calls that only queue closures;
  \<open>_make\<close> runs the queue later, in one of three ways that depend on the topology it is given:
  none (local mode: build everything), one with identifier \<open>-1\<close> (submit mode: fill the
  topology), or an extracted one (distributed mode: build the part of one container). The closures
  are the datatype \<open>task\<close>, so the three modes are three interpretations of one list.

  The theorems: submitting a well-formed program gives a well-formed topology in which every vertex
  has a container with resources, and rebuilding the graph from an extract of that topology gives
  exactly the vertices of the container, with streams that are intra or inter as in the extract.
\<close>

section \<open>Vertices and streams at run time\<close>

text \<open>A callback is identified by a number. A writer or reader of a stream is a weak pointer to the
  event of an i/o stream (\<open>None\<close> when it expired or was never set) or a device given to a vertex
  program (\<open>None\<close> after it was moved out), identified by its file descriptor.\<close>

type_synonym callback = nat

datatype endpoint = Weak_event "nat option" | Bridge "int option"

record gvertex =
  gv_key :: key_type
  gv_tag :: string
  gv_once :: bool
  gv_on :: "callback option"
  gv_istreams :: "(key_type \<times> key_type) list"
  gv_ostreams :: "(key_type \<times> key_type) list"
  gv_runtime :: runtime

text \<open>The pointers \<open>_tail\<close> and \<open>_head\<close> are null or point to a vertex of the graph, given by
  its key; \<open>_istreams\<close> and \<open>_ostreams\<close> map a key to a pointer to the stream of that key.\<close>

record gstream =
  gs_key :: key_type
  gs_tag :: string
  gs_writer :: endpoint
  gs_reader :: endpoint
  gs_tail :: "key_type option"
  gs_head :: "key_type option"
  gs_critical :: bool
  gs_on_ostream :: "callback option"
  gs_on_istream :: "callback option"

definition mk_gvertex :: "key_type \<Rightarrow> gvertex" where
  "mk_gvertex k = \<lparr>gv_key = k, gv_tag = [], gv_once = False, gv_on = None, gv_istreams = [],
     gv_ostreams = [], gv_runtime = []\<rparr>"

definition mk_gstream :: "key_type \<Rightarrow> key_type option \<Rightarrow> key_type option \<Rightarrow> gstream" where
  "mk_gstream k t h = \<lparr>gs_key = k, gs_tag = [], gs_writer = Weak_event None, gs_reader = Weak_event None,
     gs_tail = t, gs_head = h, gs_critical = False, gs_on_ostream = None, gs_on_istream = None\<rparr>"

definition is_intra_stream :: "gstream \<Rightarrow> bool" where
  "is_intra_stream s \<longleftrightarrow> gs_tail s \<noteq> None \<and> gs_head s \<noteq> None"

definition is_inter_stream :: "gstream \<Rightarrow> bool" where
  "is_inter_stream s \<longleftrightarrow> (gs_tail s \<noteq> None \<and> gs_head s = None) \<or> (gs_tail s = None \<and> gs_head s \<noteq> None)"

definition is_inter_stream_mode :: "gstream \<Rightarrow> openmode \<Rightarrow> bool" where
  "is_inter_stream_mode s m =
     (case m of
        Mode_out \<Rightarrow> gs_tail s \<noteq> None \<and> gs_head s = None
      | Mode_in \<Rightarrow> gs_tail s = None \<and> gs_head s \<noteq> None
      | Other_mode \<Rightarrow> False)"

definition stream_ostream :: "gstream \<Rightarrow> nat option" where
  "stream_ostream s = (case gs_writer s of Weak_event p \<Rightarrow> p | Bridge _ \<Rightarrow> None)"

definition stream_istream :: "gstream \<Rightarrow> nat option" where
  "stream_istream s = (case gs_reader s of Weak_event p \<Rightarrow> p | Bridge _ \<Rightarrow> None)"

definition obridge :: "gstream \<Rightarrow> int option" where
  "obridge s = (case gs_writer s of Bridge d \<Rightarrow> d | Weak_event _ \<Rightarrow> None)"

definition ibridge :: "gstream \<Rightarrow> int option" where
  "ibridge s = (case gs_reader s of Bridge d \<Rightarrow> d | Weak_event _ \<Rightarrow> None)"

definition extract_obridge :: "gstream \<Rightarrow> int option \<times> gstream" where
  "extract_obridge s = (case gs_writer s of
       Bridge d \<Rightarrow> (d, s\<lparr>gs_writer := Bridge None\<rparr>) | Weak_event _ \<Rightarrow> (None, s))"

definition extract_ibridge :: "gstream \<Rightarrow> int option \<times> gstream" where
  "extract_ibridge s = (case gs_reader s of
       Bridge d \<Rightarrow> (d, s\<lparr>gs_reader := Bridge None\<rparr>) | Weak_event _ \<Rightarrow> (None, s))"

text \<open>\<open>Vertex::operator()\<close> runs \<open>_on\<close> at most once; the callbacks that run are returned.\<close>

definition vertex_invoke :: "gvertex \<Rightarrow> gvertex \<times> callback list" where
  "vertex_invoke v =
     (case gv_on v of
        None \<Rightarrow> (v, [])
      | Some f \<Rightarrow> if gv_once v then (v, []) else (v\<lparr>gv_once := True\<rparr>, [f]))"

section \<open>The graph and its queue of tasks\<close>

datatype stream_side = On_istream | On_ostream

datatype task =
    Vertex_new key_type
  | Vertex_on key_type callback
  | Vertex_tag key_type string
  | Vertex_program key_type string
  | Stream_new key_type key_type key_type
  | Stream_on key_type stream_side callback
  | Stream_critical key_type bool
  | Stream_tag key_type string
  | Container_new key_type
  | Container_add key_type key_type
  | Container_memory key_type u64
  | Container_space key_type u64
  | Container_cpu key_type u64
  | Container_hosts key_type "string list"
  | Container_preferred_hosts key_type "string list"

record graph =
  g_task_id :: "key_type \<times> key_type"
  g_vertices :: "(key_type \<times> gvertex) list"
  g_streams :: "(key_type \<times> gstream) list"
  g_tasks :: "task list"

definition empty_graph :: graph where
  "empty_graph = \<lparr>g_task_id = (- 1, - 1), g_vertices = [], g_streams = [], g_tasks = []\<rparr>"

definition graph_vertex_ptr :: "graph \<Rightarrow> key_type \<Rightarrow> key_type option" where
  "graph_vertex_ptr g k = (case um_find k (g_vertices g) of Some _ \<Rightarrow> Some k | None \<Rightarrow> None)"

definition graph_stream_ptr :: "graph \<Rightarrow> key_type \<Rightarrow> key_type option" where
  "graph_stream_ptr g k = (case um_find k (g_streams g) of Some _ \<Rightarrow> Some k | None \<Rightarrow> None)"

section \<open>The building calls\<close>

text \<open>The static counter of \<open>_generate_key\<close> is threaded through the calls that use it.\<close>

definition generate_key :: "key_type \<Rightarrow> key_type \<times> key_type" where
  "generate_key ctr = (ctr, ctr + 1)"

definition push_task :: "task \<Rightarrow> graph \<Rightarrow> graph" where
  "push_task t g = g\<lparr>g_tasks := g_tasks g @ [t]\<rparr>"

definition graph_vertex :: "key_type \<times> graph \<Rightarrow> key_type \<times> (key_type \<times> graph)" where
  "graph_vertex cg = (let (k, ctr) = generate_key (fst cg)
                      in (k, (ctr, push_task (Vertex_new k) (snd cg))))"

definition graph_container :: "key_type \<times> graph \<Rightarrow> key_type \<times> (key_type \<times> graph)" where
  "graph_container cg = (let (k, ctr) = generate_key (fst cg)
                         in (k, (ctr, push_task (Container_new k) (snd cg))))"

definition graph_stream :: "key_type \<Rightarrow> key_type \<Rightarrow> key_type \<times> graph \<Rightarrow> key_type \<times> (key_type \<times> graph)" where
  "graph_stream tail head cg = (let (k, ctr) = generate_key (fst cg)
                                in (k, (ctr, push_task (Stream_new k tail head) (snd cg))))"

text \<open>A \<open>PlaceHolder\<close> stands for the missing end of a stream: it must have a tail and no head to be
  the source of a stream, a head and no tail to be the target.\<close>

record placeholder =
  ph_tail :: "key_type option"
  ph_head :: "key_type option"
  ph_keys :: "key_type list"

definition mk_placeholder :: "key_type option \<Rightarrow> key_type option \<Rightarrow> placeholder" where
  "mk_placeholder t h = \<lparr>ph_tail = t, ph_head = h, ph_keys = []\<rparr>"

definition graph_stream_from ::
  "placeholder \<Rightarrow> key_type \<Rightarrow> key_type \<times> graph \<Rightarrow> (key_type \<times> placeholder \<times> (key_type \<times> graph)) result" where
  "graph_stream_from ph head cg =
     (case (ph_tail ph, ph_head ph) of
        (Some tail, None) \<Rightarrow>
          (let (k, cg) = graph_stream tail head cg in Inr (k, ph\<lparr>ph_keys := ph_keys ph @ [k]\<rparr>, cg))
      | _ \<Rightarrow> Inl (Runtime_error ''Failed to create stream through placeholder''))"

definition graph_stream_to ::
  "key_type \<Rightarrow> placeholder \<Rightarrow> key_type \<times> graph \<Rightarrow> (key_type \<times> placeholder \<times> (key_type \<times> graph)) result" where
  "graph_stream_to tail ph cg =
     (case (ph_tail ph, ph_head ph) of
        (None, Some head) \<Rightarrow>
          (let (k, cg) = graph_stream tail head cg in Inr (k, ph\<lparr>ph_keys := ph_keys ph @ [k]\<rparr>, cg))
      | _ \<Rightarrow> Inl (Runtime_error ''Failed to create stream through placeholder''))"

text \<open>The calls on the builders queue one task each.\<close>

definition vb_on :: "key_type \<Rightarrow> callback \<Rightarrow> graph \<Rightarrow> graph" where
  "vb_on k c g = push_task (Vertex_on k c) g"

definition vb_tag :: "key_type \<Rightarrow> string \<Rightarrow> graph \<Rightarrow> graph" where
  "vb_tag k s g = push_task (Vertex_tag k s) g"

definition vb_program :: "key_type \<Rightarrow> string \<Rightarrow> graph \<Rightarrow> graph" where
  "vb_program k cmd g = push_task (Vertex_program k cmd) g"

definition sb_on :: "key_type \<Rightarrow> stream_side \<Rightarrow> callback \<Rightarrow> graph \<Rightarrow> graph" where
  "sb_on k side c g = push_task (Stream_on k side c) g"

definition sb_critical :: "key_type \<Rightarrow> bool \<Rightarrow> graph \<Rightarrow> graph" where
  "sb_critical k flag g = push_task (Stream_critical k flag) g"

definition sb_tag :: "key_type \<Rightarrow> string \<Rightarrow> graph \<Rightarrow> graph" where
  "sb_tag k s g = push_task (Stream_tag k s) g"

definition cb_add :: "key_type \<Rightarrow> key_type \<Rightarrow> graph \<Rightarrow> graph" where
  "cb_add c v g = push_task (Container_add c v) g"

definition cb_memory_limit_in_bytes :: "key_type \<Rightarrow> u64 \<Rightarrow> graph \<Rightarrow> graph" where
  "cb_memory_limit_in_bytes c l g = push_task (Container_memory c l) g"

definition cb_memory :: "key_type \<Rightarrow> u64 \<Rightarrow> graph \<Rightarrow> graph" where
  "cb_memory c l g = cb_memory_limit_in_bytes c l g"

definition cb_space :: "key_type \<Rightarrow> u64 \<Rightarrow> graph \<Rightarrow> graph" where
  "cb_space c l g = push_task (Container_space c l) g"

definition cb_cpu :: "key_type \<Rightarrow> u64 \<Rightarrow> graph \<Rightarrow> graph" where
  "cb_cpu c n g = push_task (Container_cpu c n) g"

definition cb_hosts :: "key_type \<Rightarrow> string list \<Rightarrow> graph \<Rightarrow> graph" where
  "cb_hosts c hs g = push_task (Container_hosts c hs) g"

definition cb_preferred_hosts :: "key_type \<Rightarrow> string list \<Rightarrow> graph \<Rightarrow> graph" where
  "cb_preferred_hosts c hs g = push_task (Container_preferred_hosts c hs) g"

section \<open>Running a task\<close>

text \<open>The guard of the closures that build (parts of) the graph: local mode, or distributed mode and
  the element belongs to this topology.\<close>

definition builds :: "topology option \<Rightarrow> (topology \<Rightarrow> bool) \<Rightarrow> bool" where
  "builds tpg mine = (case tpg of None \<Rightarrow> True | Some t \<Rightarrow> t_topology t \<noteq> - 1 \<and> mine t)"

text \<open>The guard \<open>tpg && tpg->topology == -1\<close> and an update of the topology under it.\<close>

definition submits :: "topology option \<Rightarrow> (topology \<Rightarrow> topology result) \<Rightarrow> topology option result" where
  "submits tpg f =
     (case tpg of
        None \<Rightarrow> Inr None
      | Some t \<Rightarrow> if t_topology t = - 1 then bind_r (f t) (\<lambda>t. Inr (Some t)) else Inr (Some t))"

definition on_vertex :: "key_type \<Rightarrow> (gvertex \<Rightarrow> gvertex) \<Rightarrow> graph \<Rightarrow> graph result" where
  "on_vertex k f g = bind_r (um_update_at k f (g_vertices g)) (\<lambda>vs. Inr (g\<lparr>g_vertices := vs\<rparr>))"

definition on_stream :: "key_type \<Rightarrow> (gstream \<Rightarrow> gstream) \<Rightarrow> graph \<Rightarrow> graph result" where
  "on_stream k f g = bind_r (um_update_at k f (g_streams g)) (\<lambda>ss. Inr (g\<lparr>g_streams := ss\<rparr>))"

definition on_container :: "key_type \<Rightarrow> (container \<Rightarrow> container) \<Rightarrow> topology \<Rightarrow> topology result" where
  "on_container c f t = bind_r (um_update_at c f (t_containers t)) (\<lambda>cs. Inr (t\<lparr>t_containers := cs\<rparr>))"

text \<open>The closure of \<open>_emplace_stream\<close> when it builds: the stream keeps pointers to the ends that
  exist, and those ends learn about the stream.\<close>

definition link_stream :: "key_type \<Rightarrow> key_type \<Rightarrow> key_type \<Rightarrow> graph \<Rightarrow> graph" where
  "link_stream k t h g =
     (let tptr = graph_vertex_ptr g t;
          hptr = graph_vertex_ptr g h;
          g = g\<lparr>g_streams := um_try_emplace k (mk_gstream k tptr hptr) (g_streams g)\<rparr>;
          g = (case um_find t (g_vertices g) of
                 Some v \<Rightarrow> g\<lparr>g_vertices := um_assign t (v\<lparr>gv_ostreams := um_assign k k (gv_ostreams v)\<rparr>) (g_vertices g)\<rparr>
               | None \<Rightarrow> g)
      in case um_find h (g_vertices g) of
           Some v \<Rightarrow> g\<lparr>g_vertices := um_assign h (v\<lparr>gv_istreams := um_assign k k (gv_istreams v)\<rparr>) (g_vertices g)\<rparr>
         | None \<Rightarrow> g)"

definition build_task :: "task \<Rightarrow> graph \<Rightarrow> graph result" where
  "build_task x g =
     (case x of
        Vertex_new k \<Rightarrow> Inr (g\<lparr>g_vertices := um_try_emplace k (mk_gvertex k) (g_vertices g)\<rparr>)
      | Vertex_on k c \<Rightarrow> on_vertex k (\<lambda>v. v\<lparr>gv_on := Some c\<rparr>) g
      | Vertex_tag k s \<Rightarrow> on_vertex k (\<lambda>v. v\<lparr>gv_tag := s\<rparr>) g
      | Vertex_program k cmd \<Rightarrow> on_vertex k (\<lambda>v. v\<lparr>gv_runtime := rt_set_program cmd (gv_runtime v)\<rparr>) g
      | Stream_new k t h \<Rightarrow> Inr (link_stream k t h g)
      | Stream_on k side c \<Rightarrow>
          on_stream k (\<lambda>s. case side of On_istream \<Rightarrow> s\<lparr>gs_on_istream := Some c\<rparr>
                                      | On_ostream \<Rightarrow> s\<lparr>gs_on_ostream := Some c\<rparr>) g
      | Stream_critical k b \<Rightarrow> on_stream k (\<lambda>s. s\<lparr>gs_critical := b\<rparr>) g
      | Stream_tag k s \<Rightarrow> on_stream k (\<lambda>st. st\<lparr>gs_tag := s\<rparr>) g
      | _ \<Rightarrow> Inr g)"

definition submit_task :: "string \<Rightarrow> task \<Rightarrow> topology \<Rightarrow> topology result" where
  "submit_task h x t =
     (case x of
        Vertex_new k \<Rightarrow> Inr (t\<lparr>t_vertices := um_try_emplace k (mk_vertex k) (t_vertices t)\<rparr>)
      | Stream_new k a b \<Rightarrow> Inr (t\<lparr>t_streams := um_try_emplace k (mk_stream k a b) (t_streams t)\<rparr>)
      | Container_new k \<Rightarrow> Inr (t\<lparr>t_containers := um_try_emplace k (mk_container h k) (t_containers t)\<rparr>)
      | Container_add c v \<Rightarrow>
          bind_r (um_update_at v (\<lambda>x. x\<lparr>v_container := c\<rparr>) (t_vertices t)) (\<lambda>vs. Inr (t\<lparr>t_vertices := vs\<rparr>))
      | Container_memory c l \<Rightarrow>
          on_container c (\<lambda>x. x\<lparr>c_resource := (c_resource x)\<lparr>memory_limit_in_bytes := l\<rparr>\<rparr>) t
      | Container_space c l \<Rightarrow>
          on_container c (\<lambda>x. x\<lparr>c_resource := (c_resource x)\<lparr>space_limit_in_bytes := l\<rparr>\<rparr>) t
      | Container_cpu c n \<Rightarrow>
          on_container c (\<lambda>x. x\<lparr>c_resource := (c_resource x)\<lparr>num_cpus := n\<rparr>\<rparr>) t
      | Container_hosts c hs \<Rightarrow> on_container c (container_set_hosts hs) t
      | Container_preferred_hosts c hs \<Rightarrow> on_container c (container_add_preferred_hosts hs) t
      | _ \<Rightarrow> Inr t)"

text \<open>Which element of a topology a task concerns, for the guard of distributed mode.\<close>

definition task_mine :: "task \<Rightarrow> topology \<Rightarrow> bool" where
  "task_mine x t =
     (case x of
        Vertex_new k \<Rightarrow> has_vertex t k
      | Vertex_on k _ \<Rightarrow> has_vertex t k
      | Vertex_tag k _ \<Rightarrow> has_vertex t k
      | Vertex_program k _ \<Rightarrow> has_vertex t k
      | Stream_new k _ _ \<Rightarrow> has_stream t k
      | Stream_on k _ _ \<Rightarrow> has_stream t k
      | Stream_critical k _ \<Rightarrow> has_stream t k
      | Stream_tag k _ \<Rightarrow> has_stream t k
      | _ \<Rightarrow> False)"

definition run_task :: "string \<Rightarrow> task \<Rightarrow> graph \<times> topology option \<Rightarrow> (graph \<times> topology option) result" where
  "run_task h x gt =
     (if builds (snd gt) (task_mine x) then bind_r (build_task x (fst gt)) (\<lambda>g. Inr (g, snd gt))
      else bind_r (submits (snd gt) (submit_task h x)) (\<lambda>tpg. Inr (fst gt, tpg)))"

section \<open>Making and topologizing a graph\<close>

definition graph_make :: "string \<Rightarrow> graph \<Rightarrow> topology option \<Rightarrow> (graph \<times> topology option) result" where
  "graph_make h g tpg =
     (let g = (case tpg of Some t \<Rightarrow> g\<lparr>g_task_id := (t_graph t, t_topology t)\<rparr> | None \<Rightarrow> g)
      in bind_r (fold_r (run_task h) (g_tasks g) (g, tpg)) (\<lambda>(g, tpg). Inr (g\<lparr>g_tasks := []\<rparr>, tpg)))"

definition GB :: "u64 \<Rightarrow> u64" where
  "GB v = v * 1024 * 1024 * 1024"

definition default_resource :: "resource \<Rightarrow> resource" where
  "default_resource r =
     (let r = (if num_cpus r = 0 then r\<lparr>num_cpus := 1\<rparr> else r);
          r = (if memory_limit_in_bytes r = 0 then r\<lparr>memory_limit_in_bytes := GB 1\<rparr> else r)
      in if space_limit_in_bytes r = 0 then r\<lparr>space_limit_in_bytes := GB 1\<rparr> else r)"

text \<open>The default container for vertices that were given none; it takes a fresh key.\<close>

definition place_orphans :: "string \<Rightarrow> key_type \<times> topology \<Rightarrow> key_type \<times> topology" where
  "place_orphans h ct =
     (let (ctr, t) = ct
      in if \<exists>kv \<in> set (t_vertices t). v_container (snd kv) = - 1
         then (let (ckey, ctr) = generate_key ctr
               in (ctr, t\<lparr>t_containers := um_try_emplace ckey (mk_container h ckey) (t_containers t),
                         t_vertices := map (\<lambda>(k, v). (k, if v_container v = - 1 then v\<lparr>v_container := ckey\<rparr> else v))
                                        (t_vertices t)\<rparr>))
         else ct)"

definition topologize ::
  "string list \<Rightarrow> key_type \<times> graph \<Rightarrow> (topology \<times> (key_type \<times> graph)) result" where
  "topologize envp cg =
     (let h = env_this_host (environment_variables envp);
          t = (mk_topology (- 1) (- 1))\<lparr>t_runtime := environment_variables envp\<rparr>
      in bind_r (graph_make h (snd cg) (Some t)) (\<lambda>(g, tpg).
         let (ctr, t) = place_orphans h (fst cg, the tpg);
             t = t\<lparr>t_containers := map (\<lambda>(k, c). (k, c\<lparr>c_resource := default_resource (c_resource c)\<rparr>)) (t_containers t)\<rparr>
         in Inr (t, (ctr, g))))"

section \<open>Operations of a vertex\<close>

text \<open>A dangling pointer cannot occur: the maps of a vertex only name streams of the graph.\<close>

definition deref_stream :: "graph \<Rightarrow> key_type \<Rightarrow> gstream result" where
  "deref_stream g k = (case um_find k (g_streams g) of
       Some s \<Rightarrow> Inr s | None \<Rightarrow> Inl (Undefined ''dangling stream pointer''))"

definition vertex_ostream :: "graph \<Rightarrow> gvertex \<Rightarrow> key_type \<Rightarrow> nat option result" where
  "vertex_ostream g v k =
     (case um_find k (gv_ostreams v) of
        None \<Rightarrow> Inl (Runtime_error ''Failed to get ostream from vertex (invalid key)'')
      | Some p \<Rightarrow> bind_r (deref_stream g p) (\<lambda>s. Inr (stream_ostream s)))"

definition vertex_istream :: "graph \<Rightarrow> gvertex \<Rightarrow> key_type \<Rightarrow> nat option result" where
  "vertex_istream g v k =
     (case um_find k (gv_istreams v) of
        None \<Rightarrow> Inl (Runtime_error ''Failed to get istream from vertex (invalid key)'')
      | Some p \<Rightarrow> bind_r (deref_stream g p) (\<lambda>s. Inr (stream_istream s)))"

text \<open>\<open>broadcast\<close> writes to every output stream that is still alive, \<open>broadcast_to\<close> to the
  given ones; the events written to are returned in order.\<close>

definition broadcast :: "graph \<Rightarrow> gvertex \<Rightarrow> nat list result" where
  "broadcast g v =
     fold_r (\<lambda>kp es. bind_r (deref_stream g (snd kp)) (\<lambda>s.
       Inr (case stream_ostream s of Some e \<Rightarrow> es @ [e] | None \<Rightarrow> es))) (gv_ostreams v) []"

definition broadcast_to :: "graph \<Rightarrow> gvertex \<Rightarrow> key_type list \<Rightarrow> nat list result" where
  "broadcast_to g v keys =
     fold_r (\<lambda>k es. bind_r (vertex_ostream g v k) (\<lambda>p.
       Inr (case p of Some e \<Rightarrow> es @ [e] | None \<Rightarrow> es))) keys []"

definition vertex_has_program :: "gvertex \<Rightarrow> bool" where
  "vertex_has_program v \<longleftrightarrow> rt_program (gv_runtime v) \<noteq> []"

text \<open>\<open>_prespawn\<close> hands the devices of all bridges to the program and tells it their descriptors
  under the key or the tag of the stream; a missing device is a null pointer that is dereferenced.\<close>

record program =
  pg_vertex :: key_type
  pg_c_file :: "string option"
  pg_c_argv :: "string list option"
  pg_c_envp :: "string list"
  pg_bridges :: "int list"

definition bridge_text :: "key_type \<Rightarrow> gstream \<Rightarrow> int \<Rightarrow> string" where
  "bridge_text k s fd = (if gs_tag s = [] then int_str k else gs_tag s) @ '':'' @ int_str fd @ '' ''"

definition take_bridge ::
  "(gstream \<Rightarrow> int option \<times> gstream) \<Rightarrow> key_type \<times> key_type \<Rightarrow>
   graph \<times> int list \<times> string \<Rightarrow> (graph \<times> int list \<times> string) result" where
  "take_bridge ex kp st =
     (let (g, B, oss) = st
      in bind_r (deref_stream g (snd kp)) (\<lambda>s.
           case ex s of
             (None, _) \<Rightarrow> Inl (Undefined ''fd of a null device'')
           | (Some fd, s') \<Rightarrow>
               Inr (g\<lparr>g_streams := um_assign (snd kp) s' (g_streams g)\<rparr>, B @ [fd],
                    oss @ bridge_text (fst kp) s fd)))"

definition prespawn :: "string list \<Rightarrow> key_type \<Rightarrow> graph \<Rightarrow> (program \<times> graph) result" where
  "prespawn envp k g =
     bind_r (um_at k (g_vertices g)) (\<lambda>v.
       let cmd = rt_program (gv_runtime v)
       in if cmd = [] then Inl Assert_failed
          else bind_r (fold_r (take_bridge extract_ibridge) (gv_istreams v) (g, [], [])) (\<lambda>st.
               bind_r (fold_r (take_bridge extract_obridge) (gv_ostreams v) st) (\<lambda>(g, B, oss).
                 let r = rt_remove_stdout_listener_port (rt_remove_stderr_listener_port
                           (rt_remove_topology_fd (rt_remove_frontiers (rt_remove_vertex_hosts
                             (rt_set_bridges oss (rt_set_submit_argv cmd
                               (rt_set_submit_file (takeWhile (\<lambda>c. c \<noteq> CHR '' '') cmd)
                                 (rt_merge (environment_variables envp) (gv_runtime v)))))))))
                 in Inr (\<lparr>pg_vertex = gv_key v, pg_c_file = rt_c_file r, pg_c_argv = rt_c_argv r,
                          pg_c_envp = rt_c_envp r, pg_bridges = B\<rparr>,
                         g\<lparr>g_vertices := um_assign k (v\<lparr>gv_runtime := r\<rparr>) (g_vertices g)\<rparr>))))"

section \<open>Well-formed programs\<close>

text \<open>What a user program queues: keys are new when an element is created, and every other call
  names elements created before. The three lists are the vertices, streams and containers so far.
  The keys of containers are not \<open>-1\<close>, the mark of a vertex that was given none.\<close>

fun program_ok :: "key_type list \<Rightarrow> key_type list \<Rightarrow> key_type list \<Rightarrow> task list \<Rightarrow> bool" where
  "program_ok vs ss cs [] = True"
| "program_ok vs ss cs (x # xs) =
     (case x of
        Vertex_new k \<Rightarrow> k \<notin> set vs \<and> program_ok (k # vs) ss cs xs
      | Vertex_on k _ \<Rightarrow> k \<in> set vs \<and> program_ok vs ss cs xs
      | Vertex_tag k _ \<Rightarrow> k \<in> set vs \<and> program_ok vs ss cs xs
      | Vertex_program k _ \<Rightarrow> k \<in> set vs \<and> program_ok vs ss cs xs
      | Stream_new k t h \<Rightarrow> k \<notin> set ss \<and> t \<in> set vs \<and> h \<in> set vs \<and> program_ok vs (k # ss) cs xs
      | Stream_on k _ _ \<Rightarrow> k \<in> set ss \<and> program_ok vs ss cs xs
      | Stream_critical k _ \<Rightarrow> k \<in> set ss \<and> program_ok vs ss cs xs
      | Stream_tag k _ \<Rightarrow> k \<in> set ss \<and> program_ok vs ss cs xs
      | Container_new k \<Rightarrow> k \<notin> set cs \<and> k \<noteq> - 1 \<and> program_ok vs ss (k # cs) xs
      | Container_add c v \<Rightarrow> c \<in> set cs \<and> v \<in> set vs \<and> program_ok vs ss cs xs
      | Container_memory c _ \<Rightarrow> c \<in> set cs \<and> program_ok vs ss cs xs
      | Container_space c _ \<Rightarrow> c \<in> set cs \<and> program_ok vs ss cs xs
      | Container_cpu c _ \<Rightarrow> c \<in> set cs \<and> program_ok vs ss cs xs
      | Container_hosts c _ \<Rightarrow> c \<in> set cs \<and> program_ok vs ss cs xs
      | Container_preferred_hosts c _ \<Rightarrow> c \<in> set cs \<and> program_ok vs ss cs xs)"

text \<open>What each task creates, and the ends of the streams a program creates.\<close>

definition next_vs :: "task \<Rightarrow> key_type list \<Rightarrow> key_type list" where
  "next_vs x vs = (case x of Vertex_new k \<Rightarrow> k # vs | _ \<Rightarrow> vs)"

definition next_ss :: "task \<Rightarrow> key_type list \<Rightarrow> key_type list" where
  "next_ss x ss = (case x of Stream_new k _ _ \<Rightarrow> k # ss | _ \<Rightarrow> ss)"

definition next_cs :: "task \<Rightarrow> key_type list \<Rightarrow> key_type list" where
  "next_cs x cs = (case x of Container_new k \<Rightarrow> k # cs | _ \<Rightarrow> cs)"

lemmas next_defs = next_vs_def next_ss_def next_cs_def

lemma program_ok_next:
  "program_ok vs ss cs (x # xs) \<Longrightarrow> program_ok (next_vs x vs) (next_ss x ss) (next_cs x cs) xs"
  by (cases x) (auto simp: next_defs)

definition streams_of :: "(key_type \<Rightarrow> (key_type \<times> key_type)) \<Rightarrow> task list \<Rightarrow> bool" where
  "streams_of ends xs \<longleftrightarrow> (\<forall>k t h. Stream_new k t h \<in> set xs \<longrightarrow> ends k = (t, h))"

text \<open>The state of submission after a prefix of a program.\<close>

definition submitted ::
  "(key_type \<Rightarrow> (key_type \<times> key_type)) \<Rightarrow> key_type list \<Rightarrow> key_type list \<Rightarrow> key_type list \<Rightarrow>
   topology \<Rightarrow> bool" where
  "submitted ends vs ss cs t \<longleftrightarrow>
     t_topology t = - 1 \<and> um_wf (t_vertices t) \<and> um_wf (t_streams t) \<and> um_wf (t_containers t) \<and>
     set (um_keys (t_vertices t)) = set vs \<and> set (um_keys (t_streams t)) = set ss \<and>
     set (um_keys (t_containers t)) = set cs \<and>
     (\<forall>k s. um_find k (t_streams t) = Some s \<longrightarrow> 
        s_tail s \<in> set vs \<and> s_head s \<in> set vs \<and> ends k = (s_tail s, s_head s)) \<and>
     (\<forall>k v. um_find k (t_vertices t) = Some v \<longrightarrow> v_container v = - 1 \<or> v_container v \<in> set cs)"

lemma in_keys_find: "k \<in> set (um_keys m) \<Longrightarrow> \<exists>v. um_find k m = Some v"
  by (simp add: um_find_Some_keys)

lemma on_container_ok:
  assumes "c \<in> set (um_keys (t_containers t))" "submitted ends vs ss cs t"
  shows "\<exists>t'. on_container c f t = Inr t' \<and> submitted ends vs ss cs t'"
proof -
  obtain x where x: "um_find c (t_containers t) = Some x" using assms(1) in_keys_find by metis
  have "set (um_keys (um_assign c (f x) (t_containers t))) = set (um_keys (t_containers t))"
    using assms(1) by auto
  then show ?thesis
    using assms(2) x by (auto simp: on_container_def um_update_at_eq submitted_def)
qed

lemma submitted_step:
  assumes "program_ok vs ss cs (x # xs)" "submitted ends vs ss cs t" "streams_of ends (x # xs)"
  shows "\<exists>t'. submit_task h x t = Inr t' \<and> submitted ends (next_vs x vs) (next_ss x ss) (next_cs x cs) t'"
proof -
  have keys: "set (um_keys (t_vertices t)) = set vs" "set (um_keys (t_streams t)) = set ss"
    "set (um_keys (t_containers t)) = set cs"
    using assms(2) by (auto simp: submitted_def)
  show ?thesis
  proof (cases x)
    case (Vertex_new k)
    then have "submitted ends (k # vs) ss cs (t\<lparr>t_vertices := um_try_emplace k (mk_vertex k) (t_vertices t)\<rparr>)"
      using assms(2) by (auto simp: submitted_def dict_simps mk_vertex_def split: option.splits if_splits)
    then show ?thesis using assms(1) Vertex_new by (fastforce simp: submit_task_def next_defs)
  next
    case (Stream_new k a b)
    then have "submitted ends vs (k # ss) cs (t\<lparr>t_streams := um_try_emplace k (mk_stream k a b) (t_streams t)\<rparr>)"
      using assms by (auto simp: submitted_def dict_simps mk_stream_def streams_of_def split: option.splits if_splits)
    then show ?thesis using assms(1) Stream_new by (fastforce simp: submit_task_def next_defs)
  next
    case (Container_new k)
    then have "submitted ends vs ss (k # cs) (t\<lparr>t_containers := um_try_emplace k (mk_container h k) (t_containers t)\<rparr>)"
      using assms(2) by (auto simp: submitted_def)
    then show ?thesis using assms(1) Container_new by (fastforce simp: submit_task_def next_defs)
  next
    case (Container_add c v)
    then obtain w where w: "um_find v (t_vertices t) = Some w"
      using assms(1) keys in_keys_find [of v "t_vertices t"] by auto
    have "submitted ends vs ss cs (t\<lparr>t_vertices := um_assign v (w\<lparr>v_container := c\<rparr>) (t_vertices t)\<rparr>)"
      using assms Container_add
      by (auto simp: submitted_def dict_simps split: if_splits)
    then show ?thesis using assms(1) Container_add w by (fastforce simp: submit_task_def next_defs um_update_at_eq)
  next
    case (Container_memory c l)
    then show ?thesis using assms on_container_ok keys by (fastforce simp: submit_task_def next_defs)
  next
    case (Container_space c l)
    then show ?thesis using assms on_container_ok keys by (fastforce simp: submit_task_def next_defs)
  next
    case (Container_cpu c l)
    then show ?thesis using assms on_container_ok keys by (fastforce simp: submit_task_def next_defs)
  next
    case (Container_hosts c l)
    then show ?thesis using assms on_container_ok keys by (fastforce simp: submit_task_def next_defs)
  next
    case (Container_preferred_hosts c l)
    then show ?thesis using assms on_container_ok keys by (fastforce simp: submit_task_def next_defs)
  qed (use assms in \<open>fastforce simp: submit_task_def next_defs\<close>)+
qed

lemma run_task_submit:
  "t_topology t = - 1 \<Longrightarrow> run_task h x (g, Some t) =
     bind_r (submit_task h x t) (\<lambda>t. Inr (g, Some t))"
  by (cases "submit_task h x t") (simp_all add: run_task_def builds_def submits_def)

lemma streams_of_tail: "streams_of ends (x # xs) \<Longrightarrow> streams_of ends xs"
  by (simp add: streams_of_def)

lemma submit_all:
  assumes "program_ok vs ss cs xs" "submitted ends vs ss cs t" "streams_of ends xs"
  shows "\<exists>t'. fold_r (run_task h) xs (g, Some t) = Inr (g, Some t') \<and>
     submitted ends (fold next_vs xs vs) (fold next_ss xs ss) (fold next_cs xs cs) t'"
  using assms
proof (induction xs arbitrary: vs ss cs t)
  case Nil
  then show ?case by auto
next
  case (Cons x xs)
  obtain t' where t': "submit_task h x t = Inr t'" "submitted ends (next_vs x vs) (next_ss x ss) (next_cs x cs) t'"
    using submitted_step [OF Cons.prems] by blast
  then show ?case
    using Cons.IH [OF program_ok_next [OF Cons.prems(1)] t'(2) streams_of_tail [OF Cons.prems(3)]] Cons.prems(2)
    by (simp add: run_task_submit submitted_def)
qed

section \<open>Submission\<close>

lemma um_find_map_val:
  "um_find k (map (\<lambda>(j, v). (j, f v)) m) = map_option f (um_find k m)"
  by (induction m) auto

lemma um_keys_map_val [simp]: "um_keys (map (\<lambda>(j, v). (j, f v)) m) = um_keys m"
  by (induction m) auto

lemma um_wf_map_val [simp]: "um_wf (map (\<lambda>(j, v). (j, f v)) m) = um_wf m"
  by (simp add: um_wf_def)

lemma make_submitted:
  assumes "program_ok [] [] [] (g_tasks g)" "streams_of ends (g_tasks g)"
  shows "\<exists>t. graph_make h g (Some ((mk_topology (- 1) (- 1))\<lparr>t_runtime := r\<rparr>)) =
           Inr (g\<lparr>g_task_id := (- 1, - 1), g_tasks := []\<rparr>, Some t) \<and>
         submitted ends (fold next_vs (g_tasks g) []) (fold next_ss (g_tasks g) [])
           (fold next_cs (g_tasks g) []) t"
proof -
  let ?t = "(mk_topology (- 1) (- 1))\<lparr>t_runtime := r\<rparr>"
  let ?g = "g\<lparr>g_task_id := (- 1, - 1)\<rparr>"
  have "submitted ends [] [] [] ?t" by (simp add: submitted_def mk_topology_def)
  from submit_all [OF assms(1) this assms(2), where g = ?g and h = h] show ?thesis
    by (auto simp: graph_make_def mk_topology_def)
qed

lemma place_orphans_wf:
  assumes "submitted ends vs ss cs t"
  shows "tpg_wf (snd (place_orphans h (ctr, t)))"
proof (cases "\<exists>kv \<in> set (t_vertices t). v_container (snd kv) = - 1")
  case False
  then have "snd (place_orphans h (ctr, t)) = t" by (auto simp: place_orphans_def)
  moreover have "v_container v \<noteq> - 1" if "um_find k (t_vertices t) = Some v" for k v
    using um_find_Some_set [OF that] False by auto
  ultimately show ?thesis
    using assms
    by (auto simp: tpg_wf_def submitted_def has_vertex_def has_container_def um_find_set
        um_find_None_keys)
next
  case True
  define cs' where "cs' = um_try_emplace ctr (mk_container h ctr) (t_containers t)"
  define vs' where "vs' = map (\<lambda>(k, v). (k, if v_container v = - 1 then v\<lparr>v_container := ctr\<rparr> else v)) (t_vertices t)"
  have e: "snd (place_orphans h (ctr, t)) = t\<lparr>t_containers := cs', t_vertices := vs'\<rparr>"
    using True by (simp add: place_orphans_def generate_key_def cs'_def vs'_def)
  have wf: "um_wf vs'" "um_wf cs'" "um_wf (t_streams t)" "um_keys vs' = um_keys (t_vertices t)"
    "set (um_keys cs') = insert ctr (set cs)"
    using assms by (auto simp: vs'_def cs'_def submitted_def)
  have "v_container v = ctr \<or> v_container v \<in> set cs" if v: "(k, v) \<in> set vs'" for k v
    using v wf(1) assms
    by (fastforce simp: um_find_set vs'_def um_find_map_val submitted_def split: if_splits)
  then show ?thesis
    using wf assms
    by (auto simp: e tpg_wf_def has_vertex_def has_container_def um_find_None_keys submitted_def um_find_set)
       blast
qed

lemma tpg_wf_map_containers:
  "tpg_wf (t\<lparr>t_containers := map (\<lambda>(k, c). (k, f c)) (t_containers t)\<rparr>) = tpg_wf t"
  by (auto simp: tpg_wf_def has_vertex_def has_container_def um_find_map_val)

lemma default_resource_pos: "res_gt_n (default_resource r) 0"
  by (auto simp: default_resource_def res_gt_n_def GB_def Let_def word_gt_0)

lemma topologize_result:
  assumes "program_ok [] [] [] (g_tasks g)" "streams_of ends (g_tasks g)"
  obtains t ctr' where
    "topologize envp (ctr, g) = Inr (t, (ctr', g\<lparr>g_task_id := (- 1, - 1), g_tasks := []\<rparr>))"
    "tpg_wf t" "t_topology t = - 1"
    "\<forall>k c. um_find k (t_containers t) = Some c \<longrightarrow> res_gt_n (c_resource c) 0"
    "set (um_keys (t_vertices t)) = set (fold next_vs (g_tasks g) [])"
    "set (um_keys (t_streams t)) = set (fold next_ss (g_tasks g) [])"
    "\<forall>k s. um_find k (t_streams t) = Some s \<longrightarrow> ends k = (s_tail s, s_head s)"
proof -
  let ?h = "env_this_host (environment_variables envp)"
  obtain t0 where t0:
    "graph_make ?h g (Some ((mk_topology (- 1) (- 1))\<lparr>t_runtime := environment_variables envp\<rparr>)) =
       Inr (g\<lparr>g_task_id := (- 1, - 1), g_tasks := []\<rparr>, Some t0)"
    "submitted ends (fold next_vs (g_tasks g) []) (fold next_ss (g_tasks g) []) (fold next_cs (g_tasks g) []) t0"
    using make_submitted [OF assms] by blast
  obtain ctr' t1 where t1: "place_orphans ?h (ctr, t0) = (ctr', t1)" by (cases "place_orphans ?h (ctr, t0)")
  define t where "t = t1\<lparr>t_containers := map (\<lambda>(k, c). (k, c\<lparr>c_resource := default_resource (c_resource c)\<rparr>)) (t_containers t1)\<rparr>"
  have "tpg_wf t" using place_orphans_wf [OF t0(2), where ctr = ctr and h = ?h] t1 by (simp add: t_def tpg_wf_map_containers)
  moreover have "topologize envp (ctr, g) = Inr (t, (ctr', g\<lparr>g_task_id := (- 1, - 1), g_tasks := []\<rparr>))"
    using t0(1) t1 by (simp add: topologize_def t_def Let_def)
  moreover have same: "t_topology t1 = t_topology t0" "um_keys (t_vertices t1) = um_keys (t_vertices t0)"
    "t_streams t1 = t_streams t0"
    using t1 by (auto simp: place_orphans_def generate_key_def Let_def split: if_splits)
  moreover have "\<forall>k c. um_find k (t_containers t) = Some c \<longrightarrow> res_gt_n (c_resource c) 0"
    by (auto simp: t_def um_find_map_val default_resource_pos)
  ultimately show ?thesis using that t0(2) by (simp add: t_def submitted_def)
qed

section \<open>Building\<close>

definition mode_v :: "topology option \<Rightarrow> key_type \<Rightarrow> bool" where
  "mode_v tpg k = (case tpg of None \<Rightarrow> True | Some t \<Rightarrow> has_vertex t k)"

definition mode_s :: "topology option \<Rightarrow> key_type \<Rightarrow> bool" where
  "mode_s tpg k = (case tpg of None \<Rightarrow> True | Some t \<Rightarrow> has_stream t k)"

definition not_submitting :: "topology option \<Rightarrow> bool" where
  "not_submitting tpg = (case tpg of None \<Rightarrow> True | Some t \<Rightarrow> t_topology t \<noteq> - 1)"

definition local_end :: "topology option \<Rightarrow> key_type \<Rightarrow> key_type option" where
  "local_end tpg v = (if mode_v tpg v then Some v else None)"

text \<open>The links of a graph: a vertex lists exactly the streams that point to it.\<close>

definition linked :: "graph \<Rightarrow> bool" where
  "linked g \<longleftrightarrow> (\<forall>k v j. um_find k (g_vertices g) = Some v \<longrightarrow>
     um_find j (gv_ostreams v) = (if \<exists>s. um_find j (g_streams g) = Some s \<and> gs_tail s = Some k then Some j else None) \<and>
     um_find j (gv_istreams v) = (if \<exists>s. um_find j (g_streams g) = Some s \<and> gs_head s = Some k then Some j else None))"

text \<open>What is built after a prefix of a program, given the ends of all its streams.\<close>

definition built ::
  "topology option \<Rightarrow> (key_type \<Rightarrow> (key_type \<times> key_type)) \<Rightarrow> key_type list \<Rightarrow> key_type list \<Rightarrow> graph \<Rightarrow> bool" where
  "built tpg ends vs ss g \<longleftrightarrow>
     um_wf (g_vertices g) \<and> um_wf (g_streams g) \<and>
     set (um_keys (g_vertices g)) = {k \<in> set vs. mode_v tpg k} \<and>
     set (um_keys (g_streams g)) = {k \<in> set ss. mode_s tpg k} \<and>
     (\<forall>k s. um_find k (g_streams g) = Some s \<longrightarrow>
        gs_tail s = local_end tpg (fst (ends k)) \<and> gs_head s = local_end tpg (snd (ends k))) \<and>
     linked g"

lemma link_stream_vertices:
  "um_find j (g_vertices (link_stream k t h g)) =
     map_option (\<lambda>v. v\<lparr>gv_ostreams := (if j = t then um_assign k k (gv_ostreams v) else gv_ostreams v),
                      gv_istreams := (if j = h then um_assign k k (gv_istreams v) else gv_istreams v)\<rparr>)
       (um_find j (g_vertices g))"
  by (cases "um_find j (g_vertices g)")
     (auto simp: link_stream_def Let_def dict_simps split: option.splits)

lemma link_stream_streams:
  "g_streams (link_stream k t h g) =
     um_try_emplace k (mk_gstream k (graph_vertex_ptr g t) (graph_vertex_ptr g h)) (g_streams g)"
  by (auto simp: link_stream_def Let_def split: option.splits)

lemma link_stream_keys: "um_keys (g_vertices (link_stream k t h g)) = um_keys (g_vertices g)"
  by (auto simp: link_stream_def Let_def um_keys_assign_present split: option.splits)

lemma built_link:
  assumes b: "built tpg ends vs ss g" and k: "k \<notin> set ss" "t \<in> set vs" "h \<in> set vs"
    and e: "ends k = (t, h)" "mode_s tpg k"
  shows "built tpg ends vs (k # ss) (link_stream k t h g)"
proof -
  have ptr: "graph_vertex_ptr g v = local_end tpg v" if "v \<in> set vs" for v
    using b that
    by (auto simp: graph_vertex_ptr_def local_end_def built_def um_find_None_keys um_find_Some_keys
        split: option.splits simp flip: um_find_Some_keys)
  have fresh: "um_find k (g_streams g) = None"
    using b k(1) by (auto simp: um_find_None_keys built_def)
  let ?g = "link_stream k t h g"
  have s: "um_find j (g_streams ?g) = (if j = k then Some (mk_gstream k (local_end tpg t) (local_end tpg h))
      else um_find j (g_streams g))" for j
    using k fresh by (simp add: link_stream_streams dict_simps ptr)
  have "linked ?g"
  proof -
    have mv: "mode_v tpg j" if "um_find j (g_vertices g) = Some v" for j v
      using that b um_find_Some_keys [of j "g_vertices g"] by (auto simp: built_def)
    have lg: "um_find i (gv_ostreams w) = (if \<exists>s. um_find i (g_streams g) = Some s \<and> gs_tail s = Some j then Some i else None)"
      "um_find i (gv_istreams w) = (if \<exists>s. um_find i (g_streams g) = Some s \<and> gs_head s = Some j then Some i else None)"
      if "um_find j (g_vertices g) = Some w" for i j w
      using b that by (simp_all add: built_def linked_def)
    show ?thesis
      unfolding linked_def
    proof (intro allI impI)
      fix j v i assume "um_find j (g_vertices ?g) = Some v"
      then obtain w where w: "um_find j (g_vertices g) = Some w"
        and v: "gv_ostreams v = (if j = t then um_assign k k (gv_ostreams w) else gv_ostreams w)"
               "gv_istreams v = (if j = h then um_assign k k (gv_istreams w) else gv_istreams w)"
        by (auto simp: link_stream_vertices)
      show "um_find i (gv_ostreams v) = (if \<exists>s. um_find i (g_streams ?g) = Some s \<and> gs_tail s = Some j then Some i else None) \<and>
            um_find i (gv_istreams v) = (if \<exists>s. um_find i (g_streams ?g) = Some s \<and> gs_head s = Some j then Some i else None)"
      proof (cases "i = k")
        case True
        then show ?thesis
          using lg [OF w, of k] fresh mv [OF w]
          unfolding v s by (cases "j = t"; cases "j = h") (simp_all add: dict_simps mk_gstream_def local_end_def)
      next
        case False
        then show ?thesis using lg [OF w, of i] by (simp add: v s dict_simps)
      qed
    qed
  qed
  moreover have "um_wf (g_vertices ?g)" using b by (simp add: um_wf_def link_stream_keys built_def)
  moreover have "um_wf (g_streams ?g)" using b by (auto simp: link_stream_streams built_def)
  moreover have "set (um_keys (g_streams ?g)) = {j \<in> set (k # ss). mode_s tpg j}"
    using b e(2) by (auto simp: link_stream_streams built_def)
  ultimately show ?thesis
    using b e(1) s by (simp add: built_def link_stream_keys mk_gstream_def)
qed

lemma built_on_vertex:
  assumes b: "built tpg ends vs ss g" and k: "k \<in> set vs" "mode_v tpg k"
    and f: "\<And>v. gv_istreams (f v) = gv_istreams v \<and> gv_ostreams (f v) = gv_ostreams v"
  shows "\<exists>g'. on_vertex k f g = Inr g' \<and> built tpg ends vs ss g'"
proof -
  have "k \<in> set (um_keys (g_vertices g))" using b k by (simp add: built_def)
  then obtain v where v: "um_find k (g_vertices g) = Some v" using in_keys_find by metis
  let ?g = "g\<lparr>g_vertices := um_assign k (f v) (g_vertices g)\<rparr>"
  have "linked ?g"
    using b v f by (auto simp: linked_def built_def dict_simps split: if_splits)
  moreover have "um_wf (g_vertices ?g)" using b by (auto simp: built_def)
  ultimately have "built tpg ends vs ss ?g"
    using b by (simp add: built_def um_keys_assign_present [OF v])
  then show ?thesis using v by (simp add: on_vertex_def um_update_at_eq)
qed

lemma built_on_stream:
  assumes b: "built tpg ends vs ss g" and k: "k \<in> set ss" "mode_s tpg k"
    and f: "\<And>s. gs_tail (f s) = gs_tail s \<and> gs_head (f s) = gs_head s"
  shows "\<exists>g'. on_stream k f g = Inr g' \<and> built tpg ends vs ss g'"
proof -
  have "k \<in> set (um_keys (g_streams g))" using b k by (simp add: built_def)
  then obtain s where s: "um_find k (g_streams g) = Some s" using in_keys_find by metis
  let ?g = "g\<lparr>g_streams := um_assign k (f s) (g_streams g)\<rparr>"
  have e: "(\<exists>u. um_find j (g_streams ?g) = Some u \<and> gs_tail u = p) \<longleftrightarrow> (\<exists>u. um_find j (g_streams g) = Some u \<and> gs_tail u = p)"
    "(\<exists>u. um_find j (g_streams ?g) = Some u \<and> gs_head u = p) \<longleftrightarrow> (\<exists>u. um_find j (g_streams g) = Some u \<and> gs_head u = p)"
    for j p
    using s f by (auto simp: dict_simps)
  have "linked ?g" using b unfolding linked_def built_def e by simp
  moreover have "um_wf (g_streams ?g)" using b by (auto simp: built_def)
  moreover have "gs_tail u = local_end tpg (fst (ends j)) \<and> gs_head u = local_end tpg (snd (ends j))"
    if "um_find j (g_streams ?g) = Some u" for j u
    using b s f that by (auto simp: dict_simps built_def split: if_splits)
  ultimately have "built tpg ends vs ss ?g"
    using b by (simp add: built_def um_keys_assign_present [OF s])
  then show ?thesis using s by (simp add: on_stream_def um_update_at_eq)
qed

definition mine_in :: "topology option \<Rightarrow> task \<Rightarrow> bool" where
  "mine_in tpg x =
     (case x of
        Vertex_new k \<Rightarrow> mode_v tpg k
      | Vertex_on k _ \<Rightarrow> mode_v tpg k
      | Vertex_tag k _ \<Rightarrow> mode_v tpg k
      | Vertex_program k _ \<Rightarrow> mode_v tpg k
      | Stream_new k _ _ \<Rightarrow> mode_s tpg k
      | Stream_on k _ _ \<Rightarrow> mode_s tpg k
      | Stream_critical k _ \<Rightarrow> mode_s tpg k
      | Stream_tag k _ \<Rightarrow> mode_s tpg k
      | _ \<Rightarrow> tpg = None)"

lemma run_task_not_submitting:
  assumes "not_submitting tpg"
  shows "run_task h x (g, tpg) =
     (if mine_in tpg x then bind_r (build_task x g) (\<lambda>g. Inr (g, tpg)) else Inr (g, tpg))"
  using assms
  by (cases tpg; cases x)
     (simp_all add: run_task_def builds_def submits_def not_submitting_def mine_in_def task_mine_def
        mode_v_def mode_s_def)

lemma built_vertex_new:
  assumes b: "built tpg ends vs ss g" and k: "k \<notin> set vs" and e: "\<And>j. j \<in> set ss \<Longrightarrow> fst (ends j) \<noteq> k \<and> snd (ends j) \<noteq> k"
  shows "built tpg ends (k # vs) ss
     (if mode_v tpg k then g\<lparr>g_vertices := um_try_emplace k (mk_gvertex k) (g_vertices g)\<rparr> else g)"
proof (cases "mode_v tpg k")
  case False
  then show ?thesis using b by (auto simp: built_def)
next
  case True
  have fresh: "um_find k (g_vertices g) = None" using b k by (auto simp: um_find_None_keys built_def)
  let ?g = "g\<lparr>g_vertices := um_try_emplace k (mk_gvertex k) (g_vertices g)\<rparr>"
  have ends: "gs_tail s \<noteq> Some k \<and> gs_head s \<noteq> Some k" if s: "um_find j (g_streams g) = Some s" for j s
  proof -
    have "j \<in> set ss" using b s um_find_Some_keys [of j "g_streams g"] by (auto simp: built_def)
    then show ?thesis using b e s by (auto simp: built_def local_end_def)
  qed
  have "linked ?g"
    using b fresh ends by (auto simp: linked_def built_def dict_simps mk_gvertex_def split: if_splits)
  moreover have "um_wf (g_vertices ?g)" using b by (auto simp: built_def)
  moreover have "set (um_keys (g_vertices ?g)) = {j \<in> set (k # vs). mode_v tpg j}"
    using b True by (auto simp: built_def)
  ultimately show ?thesis using b True by (simp add: built_def)
qed

lemma built_step:
  assumes p: "program_ok vs ss cs (x # xs)" and n: "not_submitting tpg"
    and e: "streams_of ends (x # xs)" "\<And>j. j \<in> set ss \<Longrightarrow> fst (ends j) \<in> set vs \<and> snd (ends j) \<in> set vs"
    and b: "built tpg ends vs ss g"
  shows "\<exists>g'. run_task h x (g, tpg) = Inr (g', tpg) \<and> built tpg ends (next_vs x vs) (next_ss x ss) g'"
proof -
  note run = run_task_not_submitting [OF n]
  show ?thesis
  proof (cases x)
    case (Vertex_new k)
    then have "k \<notin> set vs" using p by simp
    moreover from this e(2) have "fst (ends j) \<noteq> k \<and> snd (ends j) \<noteq> k" if "j \<in> set ss" for j
      using that by blast
    ultimately show ?thesis
      using built_vertex_new [OF b, of k] Vertex_new
      by (cases "mode_v tpg k") (simp_all add: run mine_in_def build_task_def next_defs)
  next
    case (Stream_new k t h)
    then have st: "k \<notin> set ss" "t \<in> set vs" "h \<in> set vs" "ends k = (t, h)"
      using p e(1) by (auto simp: streams_of_def)
    show ?thesis
    proof (cases "mode_s tpg k")
      case True
      then show ?thesis
        using built_link [OF b st(1-4)] Stream_new by (simp add: run mine_in_def build_task_def next_defs)
    next
      case False
      then have "built tpg ends vs (k # ss) g" using b by (auto simp: built_def)
      then show ?thesis using False Stream_new by (simp add: run mine_in_def next_defs)
    qed
  next
    case (Vertex_on k c)
    then show ?thesis
      using built_on_vertex [OF b, of k "\<lambda>v. v\<lparr>gv_on := Some c\<rparr>"] p b
      by (auto simp: run mine_in_def build_task_def next_defs)
  next
    case (Vertex_tag k s)
    then show ?thesis
      using built_on_vertex [OF b, of k "\<lambda>v. v\<lparr>gv_tag := s\<rparr>"] p b
      by (auto simp: run mine_in_def build_task_def next_defs)
  next
    case (Vertex_program k s)
    then show ?thesis
      using built_on_vertex [OF b, of k "\<lambda>v. v\<lparr>gv_runtime := rt_set_program s (gv_runtime v)\<rparr>"] p b
      by (auto simp: run mine_in_def build_task_def next_defs)
  next
    case (Stream_on k side c)
    then show ?thesis
      using built_on_stream [OF b, of k "\<lambda>s. case side of On_istream \<Rightarrow> s\<lparr>gs_on_istream := Some c\<rparr>
                                      | On_ostream \<Rightarrow> s\<lparr>gs_on_ostream := Some c\<rparr>"] p b
      by (auto simp: run mine_in_def build_task_def next_defs split: stream_side.splits)
  next
    case (Stream_critical k c)
    then show ?thesis
      using built_on_stream [OF b, of k "\<lambda>s. s\<lparr>gs_critical := c\<rparr>"] p b
      by (auto simp: run mine_in_def build_task_def next_defs)
  next
    case (Stream_tag k c)
    then show ?thesis
      using built_on_stream [OF b, of k "\<lambda>s. s\<lparr>gs_tag := c\<rparr>"] p b
      by (auto simp: run mine_in_def build_task_def next_defs)
  qed (use b in \<open>auto simp: run mine_in_def build_task_def next_defs split: option.splits\<close>)
qed

lemma next_ends:
  assumes "program_ok vs ss cs (x # xs)" "streams_of ends (x # xs)"
    and "\<And>j. j \<in> set ss \<Longrightarrow> fst (ends j) \<in> set vs \<and> snd (ends j) \<in> set vs"
    and "j \<in> set (next_ss x ss)"
  shows "fst (ends j) \<in> set (next_vs x vs) \<and> snd (ends j) \<in> set (next_vs x vs)"
  using assms by (cases x) (auto simp: next_defs streams_of_def)

lemma build_all:
  assumes "program_ok vs ss cs xs" "not_submitting tpg" "streams_of ends xs"
    and "\<And>j. j \<in> set ss \<Longrightarrow> fst (ends j) \<in> set vs \<and> snd (ends j) \<in> set vs"
    and "built tpg ends vs ss g"
  shows "\<exists>g'. fold_r (run_task h) xs (g, tpg) = Inr (g', tpg) \<and>
              built tpg ends (fold next_vs xs vs) (fold next_ss xs ss) g'"
  using assms
proof (induction xs arbitrary: vs ss cs g)
  case Nil
  then show ?case by auto
next
  case (Cons x xs)
  obtain g' where g': "run_task h x (g, tpg) = Inr (g', tpg)" "built tpg ends (next_vs x vs) (next_ss x ss) g'"
    using built_step [OF Cons.prems] by blast
  have "\<exists>g''. fold_r (run_task h) xs (g', tpg) = Inr (g'', tpg) \<and>
      built tpg ends (fold next_vs xs (next_vs x vs)) (fold next_ss xs (next_ss x ss)) g''"
    using Cons.IH [OF program_ok_next [OF Cons.prems(1)] Cons.prems(2) streams_of_tail [OF Cons.prems(3)] _ g'(2)]
      next_ends [OF Cons.prems(1,3,4)] by blast
  then show ?case using g'(1) by simp
qed

lemma graph_make_built:
  assumes "program_ok [] [] [] (g_tasks g)" "not_submitting tpg" "streams_of ends (g_tasks g)"
    and "g_vertices g = []" "g_streams g = []"
  shows "\<exists>g'. graph_make h g tpg = Inr (g', tpg) \<and>
              built tpg ends (fold next_vs (g_tasks g) []) (fold next_ss (g_tasks g) []) g'"
proof -
  let ?g = "case tpg of Some t \<Rightarrow> g\<lparr>g_task_id := (t_graph t, t_topology t)\<rparr> | None \<Rightarrow> g"
  have b: "built tpg ends [] [] ?g" and t: "g_tasks ?g = g_tasks g"
    using assms(4,5) by (auto simp: built_def linked_def split: option.splits)
  obtain g' where g': "fold_r (run_task h) (g_tasks g) (?g, tpg) = Inr (g', tpg)"
      "built tpg ends (fold next_vs (g_tasks g) []) (fold next_ss (g_tasks g) []) g'"
    using build_all [OF assms(1-3) _ b] by auto
  then have "built tpg ends (fold next_vs (g_tasks g) []) (fold next_ss (g_tasks g) []) (g'\<lparr>g_tasks := []\<rparr>)"
    by (simp add: built_def linked_def)
  then show ?thesis using g'(1) t by (simp add: graph_make_def)
qed

text \<open>The ends of the streams of a program.\<close>

fun ends_of :: "task list \<Rightarrow> key_type \<Rightarrow> key_type \<times> key_type" where
  "ends_of [] k = (- 1, - 1)"
| "ends_of (x # xs) k = (case x of Stream_new j t h \<Rightarrow> if j = k then (t, h) else ends_of xs k
                                 | _ \<Rightarrow> ends_of xs k)"

lemma program_ok_fresh: "program_ok vs ss cs xs \<Longrightarrow> Stream_new k t h \<in> set xs \<Longrightarrow> k \<notin> set ss"
proof (induction xs arbitrary: vs ss cs)
  case Nil
  then show ?case by simp
next
  case (Cons x xs)
  show ?case
  proof (cases "x = Stream_new k t h")
    case True
    then show ?thesis using Cons.prems(1) by simp
  next
    case False
    then have "k \<notin> set (next_ss x ss)"
      using Cons.IH [OF program_ok_next [OF Cons.prems(1)]] Cons.prems(2) by simp
    then show ?thesis by (auto simp: next_defs split: task.splits)
  qed
qed

lemma streams_of_ends_of: "program_ok vs ss cs xs \<Longrightarrow> streams_of (ends_of xs) xs"
proof (induction xs arbitrary: vs ss cs)
  case Nil
  then show ?case by (simp add: streams_of_def)
next
  case (Cons x xs)
  have IH: "streams_of (ends_of xs) xs" using Cons.IH [OF program_ok_next [OF Cons.prems]] .
  show ?case
  proof (cases x)
    case (Stream_new j t h)
    then have "k \<noteq> j" if "Stream_new k t' h' \<in> set xs" for k t' h'
      using program_ok_fresh [OF program_ok_next [OF Cons.prems] that] by (auto simp: next_defs)
    then show ?thesis using IH Stream_new by (auto simp: streams_of_def)
  qed (use IH in \<open>auto simp: streams_of_def\<close>)
qed

text \<open>The vertices a program creates.\<close>

definition created :: "task list \<Rightarrow> key_type set" where
  "created xs = {k. Vertex_new k \<in> set xs}"

lemma set_next_vs: "set (fold next_vs xs vs) = set vs \<union> created xs"
proof (induction xs arbitrary: vs)
  case Nil
  then show ?case by (simp add: created_def)
next
  case (Cons x xs)
  then show ?case by (cases x) (auto simp: created_def next_defs)
qed

section \<open>Properties\<close>

text \<open>C23: submitting a well-formed program succeeds and yields a well-formed topology, with exactly
  the vertices of the program, each placed in a container, and with a positive amount of every
  resource in every container, defaults filled in.\<close>

theorem topologize_wf:
  assumes "program_ok [] [] [] (g_tasks g)"
  shows "\<exists>t cg. topologize envp (ctr, g) = Inr (t, cg) \<and> tpg_wf t \<and>
           set (um_keys (t_vertices t)) = created (g_tasks g) \<and>
           (\<forall>k c. um_find k (t_containers t) = Some c \<longrightarrow> res_gt_n (c_resource c) 0)"
  by (rule topologize_result [OF assms streams_of_ends_of [OF assms], of envp ctr])
     (auto simp: set_next_vs)

definition demo_program :: "task list" where
  "demo_program = [Vertex_new 0, Vertex_new 1, Stream_new 2 0 1, Stream_on 2 On_istream 7,
     Container_new 3, Container_add 3 0, Container_cpu 3 2]"

lemma demo_program_ok: "program_ok [] [] [] demo_program"
  by (simp add: demo_program_def)

theorem topologize_wf_witness:
  "\<exists>t cg. topologize [''A=b''] (4, empty_graph\<lparr>g_tasks := demo_program\<rparr>) = Inr (t, cg) \<and> tpg_wf t \<and>
     set (um_keys (t_vertices t)) = created (g_tasks (empty_graph\<lparr>g_tasks := demo_program\<rparr>)) \<and>
     (\<forall>k c. um_find k (t_containers t) = Some c \<longrightarrow> res_gt_n (c_resource c) 0)"
  by (rule topologize_wf) (simp add: demo_program_ok)

text \<open>The graph built from an extract, or from one with another run-time environment: what an executor
  works with.\<close>

definition graph_ready :: "graph \<Rightarrow> bool" where
  "graph_ready g \<longleftrightarrow> um_wf (g_streams g) \<and> um_wf (g_vertices g) \<and>
     (\<forall>k s. um_find k (g_streams g) = Some s \<longrightarrow>
        (gs_head s \<noteq> None \<or> gs_tail s \<noteq> None) \<and>
        (\<forall>v. gs_head s = Some v \<or> gs_tail s = Some v \<longrightarrow> um_find v (g_vertices g) \<noteq> None))"

definition built_from :: "topology \<Rightarrow> graph \<Rightarrow> bool" where
  "built_from e g \<longleftrightarrow> linked g \<and> graph_ready g \<and>
     (\<forall>k. um_find k (g_vertices g) \<noteq> None \<longleftrightarrow> has_vertex e k) \<and>
     (\<forall>k. case um_find k (g_streams g) of
            None \<Rightarrow> \<not> has_stream e k
          | Some s \<Rightarrow> has_stream e k \<and> is_intra_stream s = has_intra_stream e k \<and>
                      is_inter_stream_mode s Mode_out = has_inter_stream_mode e k Mode_out \<and>
                      is_inter_stream_mode s Mode_in = has_inter_stream_mode e k Mode_in)"

text \<open>The maps of the vertices have distinct keys, and a vertex knows its key.\<close>

definition graph_tidy :: "graph \<Rightarrow> bool" where
  "graph_tidy g \<longleftrightarrow> (\<forall>k v. um_find k (g_vertices g) = Some v \<longrightarrow>
     gv_key v = k \<and> um_wf (gv_istreams v) \<and> um_wf (gv_ostreams v))"

lemma on_vertex_tidy:
  assumes "on_vertex k f g = Inr g'" "graph_tidy g"
    and "\<And>v. gv_key (f v) = gv_key v \<and> gv_istreams (f v) = gv_istreams v \<and> gv_ostreams (f v) = gv_ostreams v"
  shows "graph_tidy g'"
  using assms by (auto simp: on_vertex_def um_update_at_eq graph_tidy_def dict_simps split: option.splits if_splits)

lemma build_task_tidy:
  assumes "build_task x g = Inr g'" "graph_tidy g"
  shows "graph_tidy g'"
proof (cases x)
  case (Vertex_new k)
  then show ?thesis using assms
    by (auto simp: build_task_def graph_tidy_def dict_simps mk_gvertex_def split: option.splits if_splits)
next
  case (Stream_new k t h)
  then have "g' = link_stream k t h g" using assms(1) by (simp add: build_task_def)
  then show ?thesis
    using assms(2) unfolding graph_tidy_def
    by (fastforce simp: link_stream_vertices simp del: not_None_eq not_Some_eq split: if_splits)
next
  case (Vertex_on k c)
  then show ?thesis using assms by (auto simp: build_task_def elim: on_vertex_tidy)
next
  case (Vertex_tag k c)
  then show ?thesis using assms by (auto simp: build_task_def elim: on_vertex_tidy)
next
  case (Vertex_program k c)
  then show ?thesis using assms by (auto simp: build_task_def elim: on_vertex_tidy)
qed (use assms in \<open>auto simp: build_task_def on_stream_def graph_tidy_def\<close>)

lemma graph_make_tidy:
  assumes "graph_make h g tpg = Inr (g', tpg')" "graph_tidy g"
  shows "graph_tidy g'"
proof -
  define g0 where "g0 = (case tpg of Some t \<Rightarrow> g\<lparr>g_task_id := (t_graph t, t_topology t)\<rparr> | None \<Rightarrow> g)"
  obtain g1 where g1: "fold_r (run_task h) (g_tasks g0) (g0, tpg) = Inr (g1, tpg')" "g' = g1\<lparr>g_tasks := []\<rparr>"
    using assms(1) by (auto simp: graph_make_def g0_def[symmetric])
  have "graph_tidy (fst (g0, tpg))" using assms(2) by (simp add: g0_def graph_tidy_def split: option.splits)
  then have "graph_tidy (fst (g1, tpg'))"
    by (rule fold_r_invariant[OF g1(1)])
      (auto simp: run_task_def split: if_splits elim: build_task_tidy)
  then show ?thesis by (simp add: g1(2) graph_tidy_def)
qed

lemma extract_stream_has_end:
  assumes "tpg_wf t" "tpg_extract t c = Inr e" "um_find k (t_streams e) = Some u"
  shows "has_vertex e (s_tail u) \<or> has_vertex e (s_head u)"
proof -
  have u: "um_find k (t_streams t) = Some u" "touches t c u"
    using assms(3) extract_find_stream [OF assms(1,2), of k] by (auto split: option.splits if_splits)
  obtain a b where "container_of t (s_tail u) = Some a" "container_of t (s_head u) = Some b"
    using tpg_wf_stream [OF assms(1) u(1)] by metis
  then show ?thesis
    using u(2) by (auto simp: touches_def extract_has_vertex [OF assms(1,2)])
qed

lemma distributed_graph:
  assumes "program_ok [] [] [] (g_tasks g)" "g_vertices g = []" "g_streams g = []"
    and "topologize envp (ctr, g) = Inr (t, cg)" "tpg_extract t c = Inr e" "c \<noteq> - 1"
    and e': "t_topology e' = t_topology e" "t_vertices e' = t_vertices e" "t_streams e' = t_streams e"
  shows "\<exists>g'. graph_make h g (Some e') = Inr (g', Some e') \<and> built_from e g'"
proof -
  let ?xs = "g_tasks g" and ?ends = "ends_of (g_tasks g)"
  note so = streams_of_ends_of [OF assms(1)]
  have t: "tpg_wf t" "set (um_keys (t_vertices t)) = set (fold next_vs ?xs [])"
    "set (um_keys (t_streams t)) = set (fold next_ss ?xs [])"
    and ends: "\<And>k s. um_find k (t_streams t) = Some s \<Longrightarrow> ?ends k = (s_tail s, s_head s)"
    by (rule topologize_result [OF assms(1) so, of envp ctr]; use assms(4) in force)+
  have "t_topology e = c"
    using assms(5) tpg_extract_eq [of t c] t(1) by (auto simp: tpg_wf_def split: option.splits if_splits)
  then have "not_submitting (Some e')" using assms(6) e'(1) by (simp add: not_submitting_def)
  from graph_make_built [OF assms(1) this so assms(2,3)] obtain g' where
    g': "graph_make h g (Some e') = Inr (g', Some e')"
      "built (Some e') ?ends (fold next_vs ?xs []) (fold next_ss ?xs []) g'" by blast
  have same: "has_vertex e' k = has_vertex e k" "has_stream e' k = has_stream e k" for k
    using e' by (simp_all add: has_vertex_def has_stream_def)
  note q = built_def mode_v_def mode_s_def same
  have hv: "has_vertex e k \<Longrightarrow> k \<in> set (um_keys (t_vertices t))" for k
    using extract_has_vertex [OF t(1) assms(5), of k]
    by (auto simp: container_of_def split: option.splits simp flip: um_find_Some_keys)
  have v: "um_find k (g_vertices g') \<noteq> None \<longleftrightarrow> has_vertex e k" for k
    using g'(2) t(2) hv [of k] by (auto simp: um_find_None_keys q)
  have s: "has_stream e k \<and> (\<exists>u. um_find k (t_streams e) = Some u \<and>
      gs_tail s = local_end (Some e') (s_tail u) \<and> gs_head s = local_end (Some e') (s_head u))"
    if f: "um_find k (g_streams g') = Some s" for k s
  proof -
    have "k \<in> set (um_keys (g_streams g'))" using f um_find_Some_keys by metis
    then have k: "has_stream e k" using g'(2) by (simp add: q)
    then obtain u where u: "um_find k (t_streams t) = Some u" "um_find k (t_streams e) = Some u"
      using extract_find_stream [OF t(1) assms(5), of k]
      by (auto simp: has_stream_def split: option.splits if_splits)
    then show ?thesis using g'(2) f ends [OF u(1)] k by (auto simp: built_def)
  qed
  have "graph_ready g'"
    unfolding graph_ready_def
  proof (intro conjI allI impI)
    show "um_wf (g_streams g')" "um_wf (g_vertices g')" using g'(2) by (simp_all add: built_def)
  next
    fix k s assume "um_find k (g_streams g') = Some s"
    with s obtain u where u: "um_find k (t_streams e) = Some u" "gs_tail s = local_end (Some e') (s_tail u)"
      "gs_head s = local_end (Some e') (s_head u)" by blast
    show "gs_head s \<noteq> None \<or> gs_tail s \<noteq> None"
      using extract_stream_has_end [OF t(1) assms(5) u(1)] u by (auto simp: local_end_def q)
    show "um_find v (g_vertices g') \<noteq> None" if "gs_head s = Some v \<or> gs_tail s = Some v" for v
      using that u v [of v] by (auto simp: local_end_def q split: if_splits)
  qed
  moreover have "case um_find k (g_streams g') of
            None \<Rightarrow> \<not> has_stream e k
          | Some s \<Rightarrow> has_stream e k \<and> is_intra_stream s = has_intra_stream e k \<and>
                      is_inter_stream_mode s Mode_out = has_inter_stream_mode e k Mode_out \<and>
                      is_inter_stream_mode s Mode_in = has_inter_stream_mode e k Mode_in" for k
  proof (cases "um_find k (g_streams g')")
    case None
    then have "\<not> (k \<in> set (um_keys (t_streams t)) \<and> has_stream e k)"
      using g'(2) t(3) by (auto simp: um_find_None_keys q)
    moreover have "has_stream e k \<Longrightarrow> k \<in> set (um_keys (t_streams t))"
      using extract_find_stream [OF t(1) assms(5), of k]
      by (auto simp: has_stream_def split: option.splits simp flip: um_find_Some_keys)
    ultimately show ?thesis using None by auto
  next
    case (Some s)
    obtain u where "has_stream e k" "um_find k (t_streams e) = Some u"
      "gs_tail s = local_end (Some e') (s_tail u)" "gs_head s = local_end (Some e') (s_head u)"
      using s [OF Some] by blast
    then show ?thesis
      using Some
      by (simp add: is_intra_stream_def is_inter_stream_mode_def stream_queries local_end_def mode_v_def same)
  qed
  ultimately show ?thesis using g' v by (auto simp: built_from_def built_def)
qed

text \<open>C22: an executor that rebuilds the user's graph from the extract of one container gets exactly
  the vertices placed in that container and the streams of the extract; a stream has both end
  pointers, only the tail or only the head exactly when the extract calls it intra, outgoing or
  incoming, and every vertex knows exactly the streams that point to it.\<close>

theorem distributed_build:
  assumes "program_ok [] [] [] (g_tasks g)" "g_vertices g = []" "g_streams g = []"
    and "topologize envp (ctr, g) = Inr (t, cg)" "tpg_extract t c = Inr e" "c \<noteq> - 1"
  shows "\<exists>g'. graph_make h g (Some e) = Inr (g', Some e) \<and> linked g' \<and>
     (\<forall>k. um_find k (g_vertices g') \<noteq> None \<longleftrightarrow> container_of t k = Some c) \<and>
     (\<forall>k. case um_find k (g_streams g') of
            None \<Rightarrow> \<not> has_stream e k
          | Some s \<Rightarrow> has_stream e k \<and> is_intra_stream s = has_intra_stream e k \<and>
                      is_inter_stream_mode s Mode_out = has_inter_stream_mode e k Mode_out \<and>
                      is_inter_stream_mode s Mode_in = has_inter_stream_mode e k Mode_in)"
proof -
  obtain g' where g': "graph_make h g (Some e) = Inr (g', Some e)" "built_from e g'"
    using distributed_graph [OF assms refl refl refl] by blast
  have "tpg_wf t"
    using topologize_result [OF assms(1) streams_of_ends_of [OF assms(1)], of envp ctr] assms(4) by force
  then have "has_vertex e k \<longleftrightarrow> container_of t k = Some c" for k
    by (rule extract_has_vertex [OF _ assms(5)])
  with g' show ?thesis by (auto simp: built_from_def)
qed

definition demo_submitted :: "topology result" where
  "demo_submitted = bind_r (topologize [] (4, empty_graph\<lparr>g_tasks := demo_program\<rparr>)) (\<lambda>(t, _). Inr t)"

definition demo_extract :: "topology result" where
  "demo_extract = bind_r demo_submitted (\<lambda>t. tpg_extract t 3)"

lemma demo_extract_ok: "isl demo_extract = False"
  by code_simp

theorem distributed_build_witness:
  "\<exists>t e. demo_submitted = Inr t \<and> tpg_extract t 3 = Inr e \<and>
     (\<exists>g'. graph_make ''node'' (empty_graph\<lparr>g_tasks := demo_program\<rparr>) (Some e) = Inr (g', Some e) \<and> linked g' \<and>
       (\<forall>k. um_find k (g_vertices g') \<noteq> None \<longleftrightarrow> container_of t k = Some 3) \<and>
       (\<forall>k. case um_find k (g_streams g') of
              None \<Rightarrow> \<not> has_stream e k
            | Some s \<Rightarrow> has_stream e k \<and> is_intra_stream s = has_intra_stream e k \<and>
                        is_inter_stream_mode s Mode_out = has_inter_stream_mode e k Mode_out \<and>
                        is_inter_stream_mode s Mode_in = has_inter_stream_mode e k Mode_in))"
proof -
  obtain e where "demo_extract = Inr e" using demo_extract_ok by (metis sum.collapse(2))
  then obtain t cg where t: "topologize [] (4, empty_graph\<lparr>g_tasks := demo_program\<rparr>) = Inr (t, cg)"
      "demo_submitted = Inr t" "tpg_extract t 3 = Inr e"
    by (auto simp: demo_extract_def demo_submitted_def)
  let ?g = "empty_graph\<lparr>g_tasks := demo_program\<rparr>"
  have g: "program_ok [] [] [] (g_tasks ?g)" "g_vertices ?g = []" "g_streams ?g = []"
    by (simp_all add: demo_program_ok empty_graph_def)
  note built = distributed_build [OF g t(1,3)]
  show ?thesis
    by (intro exI [of _ t] exI [of _ e] conjI t(2) t(3)) (rule built, simp)
qed



end
