(* ===== verification/Table.thy ===== *)
theory Table
  imports Prelude
begin

text \<open>
  \<open>TableBuilder\<close> (src/utility/table.cpp, include/dtc/utility/table.hpp), which lays out the
  report of a finished graph. Rows are collected cell by cell; the column widths are computed over
  all rows, with as many columns as the first row has, without a check: printing an empty table reads
  \<open>_rows[0]\<close>, and a row longer than the first one writes past the end of \<open>_widths\<close>. Both
  are the value \<open>Undefined\<close> here. The theorems characterise when printing is defined and show
  that a table with rows of equal length prints as lines of equal length.
\<close>

section \<open>State\<close>

datatype alignment = LEFT | RIGHT

type_synonym row = "string list"

record table =
  tb_current :: row
  tb_rows :: "row list"
  tb_widths :: "nat list"
  tb_alignments :: "(nat \<times> alignment) list"

definition table_empty :: table where
  "table_empty = \<lparr>tb_current = [], tb_rows = [], tb_widths = [], tb_alignments = []\<rparr>"

section \<open>Building\<close>

definition table_add :: "string list \<Rightarrow> table \<Rightarrow> table" where
  "table_add cells t = t\<lparr>tb_current := tb_current t @ cells\<rparr>"

definition end_of_row :: "table \<Rightarrow> table" where
  "end_of_row t = t\<lparr>tb_rows := tb_rows t @ [tb_current t], tb_current := []\<rparr>"

definition set_alignment :: "nat \<Rightarrow> alignment \<Rightarrow> table \<Rightarrow> table" where
  "set_alignment i a t = t\<lparr>tb_alignments := um_assign i a (tb_alignments t)\<rparr>"

definition alignment_at :: "table \<Rightarrow> nat \<Rightarrow> alignment result" where
  "alignment_at t i = um_at i (tb_alignments t)"

definition width_at :: "table \<Rightarrow> nat \<Rightarrow> nat result" where
  "width_at t i = (if i < length (tb_widths t) then Inr (tb_widths t ! i)
                   else Inl (Undefined ''read past the end of _widths''))"

definition num_columns :: "table \<Rightarrow> nat result" where
  "num_columns t = (case tb_rows t of [] \<Rightarrow> Inl (Undefined ''_rows[0] of an empty table'')
                                    | r # _ \<Rightarrow> Inr (length r))"

section \<open>Layout\<close>

fun row_widths :: "nat \<Rightarrow> row \<Rightarrow> nat list \<Rightarrow> nat list result" where
  "row_widths i [] ws = Inr ws"
| "row_widths i (c # cs) ws =
     (if i < length ws
      then row_widths (Suc i) cs (ws[i := (if ws ! i > length c then ws ! i else length c)])
      else Inl (Undefined ''write past the end of _widths''))"

definition set_widths :: "table \<Rightarrow> table result" where
  "set_widths t =
     bind_r (num_columns t) (\<lambda>n.
     bind_r (fold_r (row_widths 0) (tb_rows t) (replicate n 0)) (\<lambda>ws.
       Inr (t\<lparr>tb_widths := ws\<rparr>)))"

definition set_alignments :: "table \<Rightarrow> table result" where
  "set_alignments t =
     bind_r (num_columns t) (\<lambda>n.
       Inr (fold (\<lambda>i t. if um_find i (tb_alignments t) = None
                        then t\<lparr>tb_alignments := um_assign i RIGHT (tb_alignments t)\<rparr> else t) [0..<n] t))"

definition table_setup :: "table \<Rightarrow> table result" where
  "table_setup t = bind_r (set_widths t) set_alignments"

definition ruler :: "table \<Rightarrow> string" where
  "ruler t = ''+'' @ concat (map (\<lambda>w. replicate w CHR ''-'' @ ''+'') (tb_widths t))"

text \<open>\<open>std::setw\<close> with \<open>std::left\<close> or \<open>std::right\<close>: padding with blanks, never cutting.\<close>

definition pad :: "alignment \<Rightarrow> nat \<Rightarrow> string \<Rightarrow> string" where
  "pad a w s = (case a of LEFT \<Rightarrow> s @ replicate (w - length s) CHR '' ''
                        | RIGHT \<Rightarrow> replicate (w - length s) CHR '' '' @ s)"

fun print_cells :: "table \<Rightarrow> nat \<Rightarrow> row \<Rightarrow> string result" where
  "print_cells t i [] = Inr []"
| "print_cells t i (c # cs) =
     bind_r (alignment_at t i) (\<lambda>a.
     bind_r (width_at t i) (\<lambda>w.
     bind_r (print_cells t (Suc i) cs) (\<lambda>rest.
       Inr (pad a w c @ ''|'' @ rest))))"

definition print_row :: "table \<Rightarrow> row \<Rightarrow> string \<Rightarrow> string result" where
  "print_row t r os =
     bind_r (print_cells t 0 r) (\<lambda>cells.
       Inr (os @ ''|'' @ cells @ [CHR 0x0A] @ ruler t @ [CHR 0x0A]))"

definition table_to_string :: "table \<Rightarrow> string result" where
  "table_to_string t =
     bind_r (table_setup t) (\<lambda>t.
       fold_r (print_row t) (tb_rows t) (ruler t @ [CHR 0x0A]))"

section \<open>Lemmas\<close>

definition fits :: "nat list \<Rightarrow> row \<Rightarrow> bool" where
  "fits ws r \<longleftrightarrow> length r \<le> length ws \<and> (\<forall>i < length r. length (r ! i) \<le> ws ! i)"

definition grows :: "nat list \<Rightarrow> nat list \<Rightarrow> bool" where
  "grows ws ws' \<longleftrightarrow> length ws' = length ws \<and> (\<forall>i < length ws. ws ! i \<le> ws' ! i)"

lemma grows_trans: "grows a b \<Longrightarrow> grows b c \<Longrightarrow> grows a c"
  by (auto simp: grows_def intro: le_trans)

lemma fits_grows: "fits ws r \<Longrightarrow> grows ws ws' \<Longrightarrow> fits ws' r"
  by (auto simp: fits_def grows_def intro: le_trans)

lemma row_widths_error:
  "i \<le> length ws \<Longrightarrow> length ws < i + length cs \<Longrightarrow> \<exists>e. row_widths i cs ws = Inl (Undefined e)"
  by (induction cs arbitrary: i ws) auto

lemma row_widths_ok:
  "i + length cs \<le> length ws \<Longrightarrow>
     \<exists>ws'. row_widths i cs ws = Inr ws' \<and> grows ws ws' \<and>
           (\<forall>j < length cs. length (cs ! j) \<le> ws' ! (i + j))"
proof (induction cs arbitrary: i ws)
  case Nil
  then show ?case by (simp add: grows_def)
next
  case (Cons c cs)
  define v where "v = ws[i := (if ws ! i > length c then ws ! i else length c)]"
  have "Suc i + length cs \<le> length v" using Cons.prems by (simp add: v_def)
  then obtain ws' where ws': "row_widths (Suc i) cs v = Inr ws'" "grows v ws'"
    "\<forall>j < length cs. length (cs ! j) \<le> ws' ! (Suc i + j)"
    using Cons.IH by blast
  have v: "grows ws v" "length c \<le> v ! i" "i < length v" "i < length ws"
    using Cons.prems by (auto simp: grows_def v_def nth_list_update)
  then have c: "length c \<le> ws' ! i" using ws'(2) by (auto simp: grows_def intro: le_trans)
  have "\<forall>j < length (c # cs). length ((c # cs) ! j) \<le> ws' ! (i + j)"
  proof (intro allI impI)
    fix j assume "j < length (c # cs)"
    then show "length ((c # cs) ! j) \<le> ws' ! (i + j)"
      using c ws'(3) by (cases j) auto
  qed
  then show ?case
    using ws'(1) grows_trans [OF v(1) ws'(2)] v(4) by (simp add: v_def)
qed

lemma rows_widths_ok:
  "(\<And>r. r \<in> set rs \<Longrightarrow> length r \<le> length ws) \<Longrightarrow>
     \<exists>ws'. fold_r (row_widths 0) rs ws = Inr ws' \<and> grows ws ws' \<and> (\<forall>r \<in> set rs. fits ws' r)"
proof (induction rs arbitrary: ws)
  case Nil
  then show ?case by (simp add: grows_def)
next
  case (Cons r rs)
  obtain v where v: "row_widths 0 r ws = Inr v" "grows ws v" "fits v r"
    using row_widths_ok [of 0 r ws] Cons.prems [of r] by (auto simp: fits_def grows_def)
  obtain w where w: "fold_r (row_widths 0) rs v = Inr w" "grows v w" "\<forall>r \<in> set rs. fits w r"
    using Cons.IH [of v] Cons.prems v(2) by (auto simp: grows_def)
  show ?case
    using v w grows_trans [OF v(2) w(2)] fits_grows [OF v(3) w(2)] by auto
qed

lemma rows_widths_error:
  "r \<in> set rs \<Longrightarrow> length ws < length r \<Longrightarrow> \<exists>e. fold_r (row_widths 0) rs ws = Inl (Undefined e)"
proof (induction rs arbitrary: ws)
  case Nil
  then show ?case by simp
next
  case (Cons q rs)
  show ?case
  proof (cases "length ws < length q")
    case True
    then show ?thesis using row_widths_error [of 0 ws q] by auto
  next
    case False
    then obtain v where v: "row_widths 0 q ws = Inr v" "grows ws v"
      using row_widths_ok [of 0 q ws] by auto
    then show ?thesis
      using Cons.IH [of v] Cons.prems False by (auto simp: grows_def)
  qed
qed

lemma alignments_fold:
  "\<exists>as. fold (\<lambda>i t. if um_find i (tb_alignments t) = None
                   then t\<lparr>tb_alignments := um_assign i RIGHT (tb_alignments t)\<rparr> else t) is t
        = t\<lparr>tb_alignments := as\<rparr> \<and>
     (\<forall>i. um_find i (tb_alignments t) \<noteq> None \<or> i \<in> set is \<longrightarrow> um_find i as \<noteq> None)"
proof (induction "is" arbitrary: t)
  case Nil
  show ?case by (intro exI [of _ "tb_alignments t"]) simp
next
  case (Cons j js)
  define u where "u = (if um_find j (tb_alignments t) = None
                   then t\<lparr>tb_alignments := um_assign j RIGHT (tb_alignments t)\<rparr> else t)"
  obtain as where "fold (\<lambda>i t. if um_find i (tb_alignments t) = None
                   then t\<lparr>tb_alignments := um_assign i RIGHT (tb_alignments t)\<rparr> else t) js u
        = u\<lparr>tb_alignments := as\<rparr>"
     "\<forall>i. um_find i (tb_alignments u) \<noteq> None \<or> i \<in> set js \<longrightarrow> um_find i as \<noteq> None"
    using Cons.IH [of u] by blast
  then show ?case
    by (intro exI [of _ as]) (auto simp: u_def dict_simps split: if_splits)
qed

definition laid_out :: "table \<Rightarrow> table \<Rightarrow> bool" where
  "laid_out t u \<longleftrightarrow> tb_rows u = tb_rows t \<and> (\<forall>r \<in> set (tb_rows t). fits (tb_widths u) r) \<and>
     length (tb_widths u) = length (hd (tb_rows t)) \<and>
     (\<forall>i < length (tb_widths u). um_find i (tb_alignments u) \<noteq> None)"

lemma table_setup_ok:
  assumes "tb_rows t \<noteq> []" "\<And>r. r \<in> set (tb_rows t) \<Longrightarrow> length r \<le> length (hd (tb_rows t))"
  shows "\<exists>u. table_setup t = Inr u \<and> laid_out t u"
proof -
  obtain r rs where rs: "tb_rows t = r # rs" using assms(1) by (cases "tb_rows t") auto
  define ws where "ws = replicate (length r) (0 :: nat)"
  obtain w where w: "fold_r (row_widths 0) (r # rs) ws = Inr w" "grows ws w"
    "\<forall>q \<in> set (r # rs). fits w q"
    using rows_widths_ok [of "r # rs" ws] assms(2) by (fastforce simp: rs ws_def)
  have sw: "set_widths t = Inr (t\<lparr>tb_widths := w\<rparr>)"
    using w(1) by (auto simp: set_widths_def num_columns_def rs ws_def)
  obtain as where as: "set_alignments (t\<lparr>tb_widths := w\<rparr>) = Inr (t\<lparr>tb_widths := w, tb_alignments := as\<rparr>)"
    "\<forall>i < length r. um_find i as \<noteq> None"
    using alignments_fold [of "[0..<length r]" "t\<lparr>tb_widths := w\<rparr>"]
    by (auto simp: set_alignments_def num_columns_def rs)
  have "length w = length r" using w(2) by (simp add: grows_def ws_def)
  then show ?thesis
    using sw as w(3) by (auto simp: table_setup_def laid_out_def rs)
qed

lemma print_cells_ok:
  assumes "i + length cs \<le> length (tb_widths t)"
    and "\<And>j. j < length (tb_widths t) \<Longrightarrow> um_find j (tb_alignments t) \<noteq> None"
    and "\<And>j. j < length cs \<Longrightarrow> length (cs ! j) \<le> tb_widths t ! (i + j)"
  shows "\<exists>s. print_cells t i cs = Inr s \<and>
             length s = sum_list (map Suc (take (length cs) (drop i (tb_widths t))))"
  using assms(1,3)
proof (induction cs arbitrary: i)
  case Nil
  then show ?case by simp
next
  case (Cons c cs)
  obtain s where s: "print_cells t (Suc i) cs = Inr s"
    "length s = sum_list (map Suc (take (length cs) (drop (Suc i) (tb_widths t))))"
    using Cons.IH [of "Suc i"] Cons.prems by fastforce
  have i: "i < length (tb_widths t)" using Cons.prems by simp
  then obtain a where a: "um_find i (tb_alignments t) = Some a" using assms(2) by blast
  have "length (pad a (tb_widths t ! i) c) = tb_widths t ! i"
    using Cons.prems(2) [of 0] by (cases a) (simp_all add: pad_def)
  then show ?case
    using s a i by (simp add: alignment_at_def um_at_eq width_at_def Cons_nth_drop_Suc [symmetric])
qed

lemma length_ruler: "length (ruler t) = Suc (sum_list (map Suc (tb_widths t)))"
proof -
  have "length (concat (map (\<lambda>w. replicate w CHR ''-'' @ ''+'') ws)) = sum_list (map Suc ws)" for ws
    by (induction ws) auto
  then show ?thesis by (simp add: ruler_def)
qed

definition unlines :: "string list \<Rightarrow> string" where
  "unlines ls = concat (map (\<lambda>l. l @ [CHR 0x0A]) ls)"

lemma print_rows_ok:
  assumes "laid_out t u" "set qs \<subseteq> set (tb_rows t)"
  shows "\<exists>ls. fold_r (print_row u) qs os = Inr (os @ unlines ls) \<and> length ls = 2 * length qs \<and>
              ((\<forall>q \<in> set qs. length q = length (tb_widths u)) \<longrightarrow>
               (\<forall>l \<in> set ls. length l = length (ruler u)))"
  using assms(2)
proof (induction qs arbitrary: os)
  case Nil
  then show ?case by (intro exI [of _ "[]"]) (simp add: unlines_def)
next
  case (Cons q qs)
  have q: "fits (tb_widths u) q"
    using Cons.prems assms by (auto simp: laid_out_def)
  then obtain s where s: "print_cells u 0 q = Inr s"
      "length s = sum_list (map Suc (take (length q) (tb_widths u)))"
    using print_cells_ok [of 0 q u] assms(1) by (auto simp: fits_def laid_out_def)
  define l where "l = CHR ''|'' # s"
  have p: "print_row u q os = Inr (os @ unlines [l, ruler u])"
    by (simp add: print_row_def s l_def unlines_def)
  have "length q = length (tb_widths u) \<longrightarrow> length l = length (ruler u)"
    by (simp add: l_def s length_ruler)
  moreover obtain ls where "fold_r (print_row u) qs (os @ unlines [l, ruler u]) =
      Inr ((os @ unlines [l, ruler u]) @ unlines ls)" "length ls = 2 * length qs"
      "(\<forall>q \<in> set qs. length q = length (tb_widths u)) \<longrightarrow>
       (\<forall>l \<in> set ls. length l = length (ruler u))"
    using Cons.IH [of "os @ unlines [l, ruler u]"] Cons.prems by auto
  ultimately show ?case
    by (intro exI [of _ "l # ruler u # ls"]) (simp add: p unlines_def)
qed

text \<open>A table whose rows all have the number of cells of the first one prints as lines of equal
  length: a ruler, and a text line and a ruler for each row.\<close>

lemma table_to_string_aligned:
  assumes "tb_rows t \<noteq> []" "\<And>r. r \<in> set (tb_rows t) \<Longrightarrow> length r = length (hd (tb_rows t))"
  shows "\<exists>ls n. table_to_string t = Inr (unlines ls) \<and>
            map length ls = replicate (2 * length (tb_rows t) + 1) n"
proof -
  obtain u where u: "table_setup t = Inr u" "laid_out t u"
    using table_setup_ok [OF assms(1)] assms(2) by (metis le_refl)
  have w: "\<forall>q \<in> set (tb_rows t). length q = length (tb_widths u)" "tb_rows u = tb_rows t"
    using u(2) assms(2) by (auto simp only: laid_out_def)
  obtain ls where ls: "fold_r (print_row u) (tb_rows t) (ruler u @ [CHR 0x0A]) =
      Inr ((ruler u @ [CHR 0x0A]) @ unlines ls)" "length ls = 2 * length (tb_rows t)"
      "\<forall>l \<in> set ls. length l = length (ruler u)"
    using print_rows_ok [OF u(2), of "tb_rows t" "ruler u @ [CHR 0x0A]"] w by auto
  have "table_to_string t = Inr (unlines (ruler u # ls))"
    using u(1) ls(1) w(2) by (simp add: table_to_string_def unlines_def)
  moreover have "map length (ruler u # ls) = replicate (2 * length (tb_rows t) + 1) (length (ruler u))"
    using ls(2,3) by (intro replicate_eqI) auto
  ultimately show ?thesis by blast
qed

section \<open>Properties\<close>

text \<open>printing a table runs into undefined behaviour exactly when the table has no row or some
  row has more cells than the first one.\<close>

theorem table_to_string_defined:
  "(\<exists>e. table_to_string t = Inl (Undefined e)) \<longleftrightarrow>
     tb_rows t = [] \<or> (\<exists>r \<in> set (tb_rows t). length (hd (tb_rows t)) < length r)"
proof (cases "tb_rows t")
  case Nil
  then show ?thesis by (simp add: table_to_string_def table_setup_def set_widths_def num_columns_def)
next
  case (Cons q qs)
  show ?thesis
  proof (cases "\<exists>r \<in> set (tb_rows t). length q < length r")
    case True
    then obtain r where "r \<in> set (q # qs)" "length (replicate (length q) (0 :: nat)) < length r"
      using Cons by auto
    from rows_widths_error [OF this] obtain e where
      "fold_r (row_widths 0) (q # qs) (replicate (length q) 0) = Inl (Undefined e)" by blast
    then have "table_to_string t = Inl (Undefined e)"
      by (simp add: table_to_string_def table_setup_def set_widths_def num_columns_def Cons)
    then show ?thesis using True Cons by auto
  next
    case False
    then obtain u where "table_setup t = Inr u" "laid_out t u"
      using table_setup_ok [of t] Cons by (metis list.distinct(1) list.sel(1) not_le)
    then show ?thesis
      using print_rows_ok [of t u "tb_rows t" "ruler u @ [CHR 0x0A]"] False Cons
      by (auto simp: table_to_string_def laid_out_def)
  qed
qed

end
