(* ===== verification/TaskInfo.thy ===== *)
theory TaskInfo
  imports Table Strings
begin

text \<open>
  The messages that report on tasks: \<open>TaskID\<close> (src/protobuf/common.cpp), \<open>TaskInfo\<close>
  (src/protobuf/taskinfo.cpp) and \<open>Solution\<close> (src/protobuf/solution.cpp), and the text of an
  exit status (src/exit.cpp). A status is the 32-bit word \<open>waitpid\<close> fills in, or \<open>-1\<close>
  when the task could not be run; it is decoded with the C library's \<open>WIFEXITED\<close>,
  \<open>WEXITSTATUS\<close>, \<open>WIFSIGNALED\<close> and \<open>WTERMSIG\<close>.
\<close>

unbundle bit_operations_syntax

section \<open>Task identifiers\<close>

record task_id =
  tid_graph :: key_type
  tid_topology :: key_type

definition mk_tid :: "key_type \<Rightarrow> key_type \<Rightarrow> task_id" where
  "mk_tid g t = \<lparr>tid_graph = g, tid_topology = t\<rparr>"

definition tid_eq :: "task_id \<Rightarrow> task_id \<Rightarrow> bool" where
  "tid_eq a b \<longleftrightarrow> tid_graph a = tid_graph b \<and> tid_topology a = tid_topology b"

definition tid_lt :: "task_id \<Rightarrow> task_id \<Rightarrow> bool" where
  "tid_lt a b \<longleftrightarrow> tid_graph a < tid_graph b \<and> tid_topology a < tid_topology b"

definition tid_gt :: "task_id \<Rightarrow> task_id \<Rightarrow> bool" where
  "tid_gt a b \<longleftrightarrow> tid_graph a > tid_graph b \<and> tid_topology a > tid_topology b"

definition tid_to_string :: "task_id \<Rightarrow> string" where
  "tid_to_string t = int_str (tid_graph t) @ ''-'' @ int_str (tid_topology t)"

text \<open>\<open>std::hash<int>\<close> is a parameter; \<open>hash_combine\<close> (include/dtc/utility/hash.hpp) mixes a
  hash into a seed with 64-bit arithmetic.\<close>

definition hash_combine :: "('a \<Rightarrow> u64) \<Rightarrow> u64 \<Rightarrow> 'a \<Rightarrow> u64" where
  "hash_combine h seed key = seed XOR (h key + 0x9e3779b9 + push_bit 6 seed + drop_bit 2 seed)"

definition tid_hash :: "(key_type \<Rightarrow> u64) \<Rightarrow> task_id \<Rightarrow> u64" where
  "tid_hash h t = hash_combine h (hash_combine h 0 (tid_graph t)) (tid_topology t)"

section \<open>Wait statuses\<close>

type_synonym wstatus = "32 word"

definition WTERMSIG :: "wstatus \<Rightarrow> wstatus" where
  "WTERMSIG s = s AND 0x7f"

definition WEXITSTATUS :: "wstatus \<Rightarrow> wstatus" where
  "WEXITSTATUS s = drop_bit 8 (s AND 0xff00)"

definition WIFEXITED :: "wstatus \<Rightarrow> bool" where
  "WIFEXITED s \<longleftrightarrow> WTERMSIG s = 0"

text \<open>The C library computes \<open>((signed char) ((status & 0x7f) + 1) >> 1) > 0\<close>, true for the
  termination signals 1 to 126.\<close>

definition WIFSIGNALED :: "wstatus \<Rightarrow> bool" where
  "WIFSIGNALED s \<longleftrightarrow> WTERMSIG s \<noteq> 0 \<and> WTERMSIG s \<noteq> 0x7f"

text \<open>The exit codes of include/dtc/exit.hpp.\<close>

definition EXIT_MASTER_FAILED :: wstatus where "EXIT_MASTER_FAILED = 100"
definition EXIT_AGENT_FAILED :: wstatus where "EXIT_AGENT_FAILED = 101"
definition EXIT_EXECUTOR_FAILED :: wstatus where "EXIT_EXECUTOR_FAILED = 102"
definition EXIT_BROKEN_CONNECTION :: wstatus where "EXIT_BROKEN_CONNECTION = 110"
definition EXIT_CRITICAL_STREAM :: wstatus where "EXIT_CRITICAL_STREAM = 111"
definition EXIT_CONTAINER_SPAWN_FAILED :: wstatus where "EXIT_CONTAINER_SPAWN_FAILED = 112"
definition EXIT_VERTEX_PROGRAM_FAILED :: wstatus where "EXIT_VERTEX_PROGRAM_FAILED = 113"

lemmas exit_codes = EXIT_MASTER_FAILED_def EXIT_AGENT_FAILED_def EXIT_EXECUTOR_FAILED_def
  EXIT_BROKEN_CONNECTION_def EXIT_CRITICAL_STREAM_def EXIT_CONTAINER_SPAWN_FAILED_def
  EXIT_VERTEX_PROGRAM_FAILED_def

text \<open>The names of signals come from the C library's \<open>strsignal\<close>, a parameter.\<close>

definition status_to_string :: "(wstatus \<Rightarrow> string) \<Rightarrow> wstatus \<Rightarrow> string" where
  "status_to_string strsignal status =
     (if WIFEXITED status then
        (let code = WEXITSTATUS status
         in if code = 0 then ''exited ok''
            else if code = EXIT_MASTER_FAILED then ''failed to launch the master''
            else if code = EXIT_AGENT_FAILED then ''failed to launch the agent''
            else if code = EXIT_EXECUTOR_FAILED then ''failed to launch the executor''
            else if code = EXIT_BROKEN_CONNECTION then ''borken connection''
            else if code = EXIT_CRITICAL_STREAM then ''critical stream reached''
            else if code = EXIT_CONTAINER_SPAWN_FAILED then ''container failed''
            else if code = EXIT_VERTEX_PROGRAM_FAILED then ''vertex program failed''
            else if code = 1 then ''exited with failure''
            else ''exited with unknown code: '' @ nat_str (unat code))
      else if WIFSIGNALED status then strsignal (WTERMSIG status)
      else ''error'')"

section \<open>Task reports and solutions\<close>

record task_info =
  ti_task_id :: task_id
  ti_agent :: string
  ti_status :: wstatus
  ti_elapsed_time :: u64
  ti_memory_limit_in_bytes :: u64
  ti_memory_max_usage_in_bytes :: u64

definition mk_task_info :: "task_id \<Rightarrow> string \<Rightarrow> wstatus \<Rightarrow> task_info" where
  "mk_task_info k h s = \<lparr>ti_task_id = k, ti_agent = h, ti_status = s, ti_elapsed_time = 0,
     ti_memory_limit_in_bytes = 0, ti_memory_max_usage_in_bytes = 0\<rparr>"

definition has_error :: "task_info \<Rightarrow> bool" where
  "has_error t \<longleftrightarrow> ti_status t = - 1 \<or>
     (WIFEXITED (ti_status t) \<and> WEXITSTATUS (ti_status t) \<noteq> 0) \<or> WIFSIGNALED (ti_status t)"

definition ti_to_string :: "(wstatus \<Rightarrow> string) \<Rightarrow> task_info \<Rightarrow> string" where
  "ti_to_string strsignal t =
     ''Task '' @ tid_to_string (ti_task_id t) @ '' '' @ status_to_string strsignal (ti_status t) @
     '' @'' @ ti_agent t"

record solution =
  sol_graph :: key_type
  sol_what :: string
  sol_taskinfos :: "task_info list"

definition mk_solution :: "key_type \<Rightarrow> solution" where
  "mk_solution k = \<lparr>sol_graph = k, sol_what = [], sol_taskinfos = []\<rparr>"

definition num_errors :: "solution \<Rightarrow> nat" where
  "num_errors s = (if sol_what s = [] then 0 else 1) + length (filter has_error (sol_taskinfos s))"

text \<open>The report of a graph. The seconds, a \<open>float\<close> division printed with \<open>std::to_string\<close>,
  are a parameter.\<close>

definition sol_row :: "(wstatus \<Rightarrow> string) \<Rightarrow> (u64 \<Rightarrow> string) \<Rightarrow> task_info \<Rightarrow> table \<Rightarrow> table" where
  "sol_row strsignal seconds t table =
     end_of_row (table_add [u64_str (ti_memory_max_usage_in_bytes t) @ ''/'' @
                            u64_str (ti_memory_limit_in_bytes t)]
       (table_add [seconds (ti_elapsed_time t)]
         (table_add [status_to_string strsignal (ti_status t)]
           (table_add [ti_agent t]
             (table_add [tid_to_string (ti_task_id t)] table)))))"

definition sol_table :: "(wstatus \<Rightarrow> string) \<Rightarrow> (u64 \<Rightarrow> string) \<Rightarrow> solution \<Rightarrow> table" where
  "sol_table strsignal seconds s =
     fold (sol_row strsignal seconds) (sol_taskinfos s)
       (end_of_row (table_add [''Task'', ''Agent'', ''Status'', ''Elapsed (s)'', ''Memory (peak/limit)'']
          table_empty))"

definition sol_to_string :: "(wstatus \<Rightarrow> string) \<Rightarrow> (u64 \<Rightarrow> string) \<Rightarrow> solution \<Rightarrow> string result" where
  "sol_to_string strsignal seconds s =
     bind_r (table_to_string (sol_table strsignal seconds s)) (\<lambda>tab.
       Inr (''[Graph '' @ int_str (sol_graph s) @ '']'' @ [CHR 0x0A] @ tab @
            ''Graph finished with '' @ nat_str (num_errors s) @ '' error(s)'' @
            (if sol_what s \<noteq> [] then '': '' @ sol_what s else [])))"

section \<open>Lemmas\<close>

lemma tid_eq_iff: "tid_eq a b \<longleftrightarrow> a = b"
  by (auto simp: tid_eq_def)

lemma tid_gt_lt: "tid_gt a b \<longleftrightarrow> tid_lt b a"
  by (auto simp: tid_gt_def tid_lt_def)

lemma tid_lt_irrefl: "\<not> tid_lt a a"
  by (simp add: tid_lt_def)

lemma tid_lt_trans: "tid_lt a b \<Longrightarrow> tid_lt b c \<Longrightarrow> tid_lt a c"
  by (auto simp: tid_lt_def)

text \<open>Incomparability under \<open>tid_lt\<close> is not transitive: it is not a strict weak order.\<close>

lemma tid_lt_not_weak_order:
  "\<not> tid_lt (mk_tid 0 0) (mk_tid 1 0) \<and> \<not> tid_lt (mk_tid 1 0) (mk_tid 0 0) \<and>
   \<not> tid_lt (mk_tid 1 0) (mk_tid 0 5) \<and> \<not> tid_lt (mk_tid 0 5) (mk_tid 1 0) \<and>
   \<not> tid_lt (mk_tid 1 0) (mk_tid 2 0) \<and> \<not> tid_lt (mk_tid 2 0) (mk_tid 1 0) \<and>
   \<not> tid_lt (mk_tid 0 0) (mk_tid 0 5) \<and> tid_lt (mk_tid 0 0) (mk_tid 1 5)"
  by (simp add: tid_lt_def mk_tid_def)

text \<open>The two statuses \<open>waitpid\<close> reports for a finished child: the exit code in the second byte,
  or the signal in the low seven bits, with the core-dump flag in the eighth.\<close>

definition exited_with :: "u8 \<Rightarrow> wstatus" where
  "exited_with code = push_bit 8 (ucast code)"

definition killed_by :: "7 word \<Rightarrow> bool \<Rightarrow> wstatus" where
  "killed_by sig core = ucast sig OR (if core then 0x80 else 0)"

lemma status_masks:
  "(0x7f :: wstatus) = mask 7" "(0xff00 :: wstatus) = push_bit 8 (mask 8)"
  by (simp_all add: mask_eq_exp_minus_1 push_bit_eq_mult)

lemma bit_core_flag: "bit (0x80 :: wstatus) n \<longleftrightarrow> n = 7" "bit (0x80 :: int) n \<longleftrightarrow> n = 7"
  using bit_exp_iff [of 7 n, where ?'a = wstatus] bit_exp_iff [of 7 n, where ?'a = int] by auto

lemma WTERMSIG_exited: "WTERMSIG (exited_with c) = 0"
  unfolding WTERMSIG_def exited_with_def status_masks
  by (rule bit_word_eqI) (auto simp: bit_simps)

lemma WEXITSTATUS_exited: "WEXITSTATUS (exited_with c) = ucast c"
  unfolding WEXITSTATUS_def exited_with_def status_masks
  by (rule bit_word_eqI) (auto simp: bit_simps dest: bit_imp_le_length)

lemma WTERMSIG_killed: "WTERMSIG (killed_by s core) = ucast s"
  unfolding WTERMSIG_def killed_by_def status_masks
  by (rule bit_word_eqI) (auto simp: bit_simps bit_core_flag dest: bit_imp_le_length)

lemma WEXITSTATUS_killed: "WEXITSTATUS (killed_by s core) = 0"
  unfolding WEXITSTATUS_def killed_by_def status_masks
  by (rule bit_word_eqI) (auto simp: bit_simps bit_core_flag dest: bit_imp_le_length)

lemma ucast_eq_0: "(ucast (s :: 7 word) :: wstatus) = 0 \<longleftrightarrow> s = 0"
  by transfer (simp add: take_bit_take_bit)

lemma ucast_eq_mask: "(ucast (s :: 7 word) :: wstatus) = 0x7f \<longleftrightarrow> s = - 1"
  unfolding status_masks
  by (auto simp: bit_eq_iff bit_simps dest: bit_imp_le_length)

lemma ucast8_eq_0: "(ucast (c :: u8) :: wstatus) = 0 \<longleftrightarrow> c = 0"
  by transfer (simp add: take_bit_take_bit)

lemma status_ne_minus_1: "exited_with c \<noteq> - 1" "killed_by s core \<noteq> - 1"
proof -
  have "WTERMSIG (- 1) \<noteq> 0" "WEXITSTATUS (- 1) \<noteq> 0" by (simp_all add: WTERMSIG_def WEXITSTATUS_def)
  then show "exited_with c \<noteq> - 1" "killed_by s core \<noteq> - 1"
    by (metis WTERMSIG_exited, metis WEXITSTATUS_killed)
qed

section \<open>Properties\<close>

text \<open>for the statuses \<open>waitpid\<close> reports, a task has an error exactly when it exited with a
  code other than 0 or was killed by a signal; the decoded code and signal are the ones reported, and
  the failure code \<open>-1\<close> counts as an error although it decodes as neither.\<close>

theorem task_status_decoded:
  "has_error (mk_task_info k h (exited_with c)) = (c \<noteq> 0) \<and>
   WEXITSTATUS (exited_with c) = ucast c \<and>
   (status_to_string f (exited_with c) = ''exited ok'') = (c = 0) \<and>
   has_error (mk_task_info k h (killed_by s core)) = (s \<noteq> 0 \<and> s \<noteq> - 1) \<and>
   (status_to_string f (killed_by s core) =
      (if s = 0 then ''exited ok'' else if s = - 1 then ''error'' else f (ucast s))) \<and>
   has_error (mk_task_info k h (- 1)) \<and> status_to_string f (- 1) = ''error''"
proof -
  have neg: "WTERMSIG (- 1) = 0x7f" by (simp add: WTERMSIG_def)
  have n0: "''exited with unknown code: '' @ u \<noteq> ''exited ok''" for u by simp
  show ?thesis
    using n0
    by (auto simp: status_ne_minus_1 has_error_def mk_task_info_def status_to_string_def WIFEXITED_def WIFSIGNALED_def
        WTERMSIG_exited WEXITSTATUS_exited WTERMSIG_killed WEXITSTATUS_killed neg
        ucast_eq_0 ucast_eq_mask ucast8_eq_0 Let_def split: if_splits)
qed

text \<open>the report of a solution always prints, as a heading, a table whose lines have equal length
  and that has one row per task, and a closing sentence with the number of errors; that number is 0
  exactly when there is no message and no task in error.\<close>

theorem solution_report:
  "\<exists>ls n. sol_to_string f g s =
       Inr (''[Graph '' @ int_str (sol_graph s) @ '']'' @ [CHR 0x0A] @ unlines ls @
            ''Graph finished with '' @ nat_str (num_errors s) @ '' error(s)'' @
            (if sol_what s \<noteq> [] then '': '' @ sol_what s else [])) \<and>
     map length ls = replicate (2 * length (sol_taskinfos s) + 3) n \<and>
     (num_errors s = 0) = (sol_what s = [] \<and> filter has_error (sol_taskinfos s) = [])"
proof -
  define t0 where "t0 = end_of_row (table_add [''Task'', ''Agent'', ''Status'', ''Elapsed (s)'',
      ''Memory (peak/limit)''] table_empty)"
  have t0: "tb_current t0 = []" "length (tb_rows t0) = 1" "\<forall>r \<in> set (tb_rows t0). length r = 5"
    "tb_rows t0 \<noteq> []"
    by (simp_all add: t0_def end_of_row_def table_add_def table_empty_def)
  have rows: "tb_current (fold (sol_row f g) ts t) = [] \<and>
      length (tb_rows (fold (sol_row f g) ts t)) = length (tb_rows t) + length ts \<and>
      (\<forall>r \<in> set (tb_rows (fold (sol_row f g) ts t)). length r = 5)"
    if "tb_current t = []" "\<forall>r \<in> set (tb_rows t). length r = 5" for ts t
    using that
  proof (induction ts arbitrary: t)
    case Nil
    then show ?case by simp
  next
    case (Cons a ts)
    let ?u = "sol_row f g a t"
    have "tb_current ?u = []" "\<forall>r \<in> set (tb_rows ?u). length r = 5"
      "length (tb_rows ?u) = Suc (length (tb_rows t))"
      using Cons.prems by (auto simp: sol_row_def end_of_row_def table_add_def)
    then show ?case using Cons.IH [of ?u] by simp
  qed
  define tb where "tb = sol_table f g s"
  have tb: "length (tb_rows tb) = 1 + length (sol_taskinfos s)" "\<forall>r \<in> set (tb_rows tb). length r = 5"
    using rows [OF t0(1,3), of "sol_taskinfos s"] t0(2) by (simp_all add: tb_def sol_table_def t0_def)
  then have ne: "tb_rows tb \<noteq> []" by auto
  obtain ls n where "table_to_string tb = Inr (unlines ls)"
    "map length ls = replicate (2 * length (tb_rows tb) + 1) n"
    using table_to_string_aligned [OF ne] tb(2) ne by (metis hd_in_set)
  then show ?thesis
    using tb(1) by (intro exI [of _ ls] exI [of _ n]) (simp add: sol_to_string_def tb_def num_errors_def numeral_3_eq_3)
qed

end
