(* ===== verification/Executor.thy ===== *)
theory Executor
  imports StreamGraph TaskInfo
begin

text \<open>
  The executor (class \<open>Executor\<close>, src/kernel/executor.cpp): the process that runs a stream graph, on
  its own (local mode), or as one of the containers of a deployment (distributed mode), or that only
  sends the topology of the graph to the master (submit mode). It is a reactor: \<open>_make_graph\<close>
  builds the graph and inserts one event per vertex and the events of the streams; the loop ends when
  the number of events has fallen to the threshold.

  The model has the graph, the events of the reactor with what they are for, the queue of closures
  for the owner with the event whose handler put them there, and the output streams that are being
  removed (\<open>remove_on_flush\<close>; the theory of the output streams has the details). A handler is a step,
  and so is a closure. Closures of one handler are run in their order, others in any order.

  This theory has the definitions and the wiring: inserting the streams joins every end of every
  stream to the right device. The theorems are in the theory ExecutorRun.
\<close>

section \<open>State\<close>

text \<open>What an event is for: reading a stream, writing to a stream, watching the other end of an
  outgoing stream, starting a vertex (a timeout that has not or that has expired), the pipe to a
  program of a vertex (before and after its end), and the channels to the agent or master and the
  listeners.\<close>

datatype ex_kind =
    Ev_reader key_type int
  | Ev_writer key_type int
  | Ev_watch key_type int
  | Ev_start key_type
  | Ev_started key_type
  | Ev_program key_type int
  | Ev_ended key_type
  | Ev_agent_in
  | Ev_agent_out
  | Ev_master_in
  | Ev_master_out
  | Ev_stdout_listener
  | Ev_stderr_listener

datatype ex_closure =
    Do_remove_istream key_type
  | Do_remove_ostream key_type
  | Do_spawn program
  | Do_remove nat

record exec =
  ex_mode :: execution_mode
  ex_graph :: graph
  ex_events :: "(nat \<times> ex_kind) list"
  ex_next :: nat
  ex_queue :: "(nat \<times> ex_closure) list"
  ex_closing :: "nat list"
  ex_threshold :: nat
  ex_break :: bool
  ex_sent :: "topology list"
  ex_dead :: "exn option"

definition mk_exec :: "execution_mode \<Rightarrow> graph \<Rightarrow> exec" where
  "mk_exec m g = \<lparr>ex_mode = m, ex_graph = g, ex_events = [], ex_next = 0, ex_queue = [], ex_closing = [],
     ex_threshold = 0, ex_break = False, ex_sent = [], ex_dead = None\<rparr>"

definition num_streams :: "exec \<Rightarrow> nat" where
  "num_streams x = length (g_streams (ex_graph x))"

definition num_vertices :: "exec \<Rightarrow> nat" where
  "num_vertices x = length (g_vertices (ex_graph x))"

definition graph_size :: "exec \<Rightarrow> nat" where
  "graph_size x = num_streams x + num_vertices x"

section \<open>Events\<close>

definition ex_insert :: "ex_kind \<Rightarrow> exec \<Rightarrow> nat \<times> exec" where
  "ex_insert k x = (ex_next x, x\<lparr>ex_events := ex_events x @ [(ex_next x, k)], ex_next := Suc (ex_next x)\<rparr>)"

text \<open>Removal through a weak pointer: nothing happens when it has expired or the event is gone.\<close>

definition ex_remove :: "nat option \<Rightarrow> exec \<Rightarrow> exec" where
  "ex_remove p x = (case p of
       None \<Rightarrow> x
     | Some i \<Rightarrow> x\<lparr>ex_events := um_erase i (ex_events x), ex_closing := removeAll i (ex_closing x)\<rparr>)"

definition ex_remove_on_flush :: "nat option \<Rightarrow> exec \<Rightarrow> exec" where
  "ex_remove_on_flush p x = (case p of
       None \<Rightarrow> x
     | Some i \<Rightarrow>
         if um_find i (ex_events x) = None \<or> i \<in> set (ex_closing x) then x
         else x\<lparr>ex_closing := ex_closing x @ [i]\<rparr>)"

definition ex_promise :: "nat \<Rightarrow> ex_closure \<Rightarrow> exec \<Rightarrow> exec" where
  "ex_promise p c x = x\<lparr>ex_queue := ex_queue x @ [(p, c)]\<rparr>"

section \<open>Removing streams\<close>

text \<open>\<open>std::exit\<close> is an exception of the model.\<close>

definition ex_exit :: "wstatus \<Rightarrow> exn" where
  "ex_exit s = Exit (sint s)"

definition ex_remove_istream :: "key_type \<Rightarrow> exec \<Rightarrow> exec result" where
  "ex_remove_istream k x = (case um_find k (g_streams (ex_graph x)) of
       None \<Rightarrow> Inr x
     | Some s \<Rightarrow>
         if gs_critical s then Inl (ex_exit EXIT_CRITICAL_STREAM)
         else if is_intra_stream s
         then Inr (ex_remove (stream_ostream s) (ex_remove (stream_istream s) x))
         else Inr (ex_remove (stream_istream s) x))"

definition ex_remove_ostream :: "key_type \<Rightarrow> exec \<Rightarrow> exec result" where
  "ex_remove_ostream k x = (case um_find k (g_streams (ex_graph x)) of
       None \<Rightarrow> Inr x
     | Some s \<Rightarrow>
         if gs_critical s then Inl (ex_exit EXIT_CRITICAL_STREAM)
         else if is_intra_stream s
         then Inr (ex_remove_on_flush (stream_ostream s) x)
         else Inr (ex_remove_on_flush (stream_ostream s) (ex_remove (stream_istream s) x)))"

section \<open>Making the graph\<close>

definition ex_on_stream :: "key_type \<Rightarrow> (gstream \<Rightarrow> gstream) \<Rightarrow> exec \<Rightarrow> exec result" where
  "ex_on_stream k f x = bind_r (on_stream k f (ex_graph x)) (\<lambda>g. Inr (x\<lparr>ex_graph := g\<rparr>))"

text \<open>An end of a stream: the vertex behind the pointer, which must not be null.\<close>

definition ex_end :: "key_type option \<Rightarrow> exec \<Rightarrow> gvertex result" where
  "ex_end p x = (case p of
       None \<Rightarrow> Inl (Undefined ''null vertex'')
     | Some v \<Rightarrow> um_at v (g_vertices (ex_graph x)))"

definition ex_insert_istream :: "key_type \<Rightarrow> int \<Rightarrow> exec \<Rightarrow> exec result" where
  "ex_insert_istream k fd x =
     bind_r (um_at k (g_streams (ex_graph x))) (\<lambda>s.
     bind_r (ex_end (gs_head s) x) (\<lambda>v.
       if vertex_has_program v then ex_on_stream k (\<lambda>s. s\<lparr>gs_reader := Bridge (Some fd)\<rparr>) x
       else let (i, x) = ex_insert (Ev_reader k fd) x
            in ex_on_stream k (\<lambda>s. s\<lparr>gs_reader := Weak_event (Some i)\<rparr>) x))"

definition ex_insert_ostream :: "key_type \<Rightarrow> int \<Rightarrow> exec \<Rightarrow> exec result" where
  "ex_insert_ostream k fd x =
     bind_r (um_at k (g_streams (ex_graph x))) (\<lambda>s.
     bind_r (ex_end (gs_tail s) x) (\<lambda>v.
       if vertex_has_program v then ex_on_stream k (\<lambda>s. s\<lparr>gs_writer := Bridge (Some fd)\<rparr>) x
       else bind_r
              (if is_inter_stream_mode s Mode_out
               then let (i, x) = ex_insert (Ev_watch k fd) x
                    in ex_on_stream k (\<lambda>s. s\<lparr>gs_reader := Weak_event (Some i)\<rparr>) x
               else Inr x)
              (\<lambda>x. let (i, x) = ex_insert (Ev_writer k fd) x
                   in ex_on_stream k (\<lambda>s. s\<lparr>gs_writer := Weak_event (Some i)\<rparr>) x)))"

text \<open>The kernel: for every stream the pair of sockets or the error, for every descriptor the error
  of making it close on exec.\<close>

definition ex_insert_stream ::
  "(key_type \<times> int) list \<Rightarrow> (key_type \<Rightarrow> (int \<times> int) result) \<Rightarrow> (int \<Rightarrow> exn option) \<Rightarrow>
   key_type \<Rightarrow> exec \<Rightarrow> exec result" where
  "ex_insert_stream fr pair cloexec k x =
     bind_r (um_at k (g_streams (ex_graph x))) (\<lambda>s.
       case um_find k fr of
         None \<Rightarrow>
           if is_inter_stream s then Inl Assert_failed
           else bind_r (pair k) (\<lambda>(r, w). bind_r (ex_insert_istream k r x) (ex_insert_ostream k w))
       | Some fd \<Rightarrow>
           if \<not> is_inter_stream s then Inl Assert_failed
           else case cloexec fd of
                  Some e \<Rightarrow> Inl e
                | None \<Rightarrow>
                    if is_inter_stream_mode s Mode_in then ex_insert_istream k fd x
                    else if is_inter_stream_mode s Mode_out then ex_insert_ostream k fd x
                    else Inl Assert_failed)"

definition ex_insert_streams ::
  "(key_type \<Rightarrow> (int \<times> int) result) \<Rightarrow> (int \<Rightarrow> exn option) \<Rightarrow> topology option \<Rightarrow> exec \<Rightarrow> exec result" where
  "ex_insert_streams pair cloexec tpg x =
     bind_r (case tpg of Some t \<Rightarrow> rt_frontiers (t_runtime t) | None \<Rightarrow> Inr []) (\<lambda>fr.
       fold_r (ex_insert_stream fr pair cloexec) (um_keys (g_streams (ex_graph x))) x)"

definition ex_insert_vertices :: "exec \<Rightarrow> exec" where
  "ex_insert_vertices x = fold (\<lambda>k x. snd (ex_insert (Ev_start k) x)) (um_keys (g_vertices (ex_graph x))) x"

definition ex_make_graph ::
  "string \<Rightarrow> (key_type \<Rightarrow> (int \<times> int) result) \<Rightarrow> (int \<Rightarrow> exn option) \<Rightarrow> topology option \<Rightarrow> exec \<Rightarrow>
   exec result" where
  "ex_make_graph h pair cloexec tpg x =
     bind_r (graph_make h (ex_graph x) tpg) (\<lambda>(g, tpg).
     bind_r (ex_insert_streams pair cloexec tpg (x\<lparr>ex_graph := g\<rparr>)) (\<lambda>x.
       let x = ex_insert_vertices x
       in if ex_mode x = DISTRIBUTED
          then if tpg = None then Inl Assert_failed else Inr (x\<lparr>ex_threshold := 2\<rparr>)
          else Inr x))"

section \<open>Setup and teardown\<close>

definition ex_setup_local ::
  "string \<Rightarrow> (key_type \<Rightarrow> (int \<times> int) result) \<Rightarrow> (int \<Rightarrow> exn option) \<Rightarrow> exec \<Rightarrow> exec result" where
  "ex_setup_local h pair cloexec x = ex_make_graph h pair cloexec None x"

definition ex_setup_submit :: "string list \<Rightarrow> key_type \<Rightarrow> exec \<Rightarrow> (key_type \<times> exec) result" where
  "ex_setup_submit envp ctr x =
     (let x = snd (ex_insert Ev_stdout_listener x);
          x = snd (ex_insert Ev_stderr_listener x);
          x = snd (ex_insert Ev_master_in x);
          x = snd (ex_insert Ev_master_out x)
      in bind_r (topologize envp (ctr, ex_graph x)) (\<lambda>(t, ctr, g).
           Inr (ctr, x\<lparr>ex_graph := g, ex_sent := ex_sent x @ [t]\<rparr>)))"

text \<open>The channel to the master and the two listeners, in this order.\<close>

definition ex_teardown_submit :: "nat option list \<Rightarrow> exec \<Rightarrow> exec" where
  "ex_teardown_submit ps x = fold ex_remove ps x"

text \<open>The table of descriptors, for the redirection of the standard streams.\<close>

definition redirect_fd :: "int \<Rightarrow> int \<Rightarrow> (int \<Rightarrow> nat option) \<Rightarrow> (int \<Rightarrow> nat option) result" where
  "redirect_fd src to fds =
     (if fds to = None then Inl (System_error 9) else Inr ((fds(src := fds to))(to := None)))"

text \<open>\<open>dup\<close> takes the given free descriptor.\<close>

definition duplicate_fd :: "int \<Rightarrow> int \<Rightarrow> (int \<Rightarrow> nat option) \<Rightarrow> (int \<Rightarrow> nat option) result" where
  "duplicate_fd new fd fds = (if fds fd = None then Inl (System_error 9) else Inr (fds(new := fds fd)))"

record ex_agent =
  ea_stdout_fd :: int
  ea_stderr_fd :: int

definition ex_setup_distributed ::
  "runtime \<Rightarrow> (int \<Rightarrow> exn option) \<Rightarrow> int \<times> int \<Rightarrow> (int \<Rightarrow> nat option) \<Rightarrow> exec \<Rightarrow>
   ((int \<Rightarrow> nat option) \<times> ex_agent \<times> exec) result" where
  "ex_setup_distributed env cloexec new fds x =
     bind_r (env_topology_fd env) (\<lambda>fd.
       case cloexec fd of
         Some e \<Rightarrow> Inl e
       | None \<Rightarrow>
           let x = snd (ex_insert Ev_agent_in x);
               x = snd (ex_insert Ev_agent_out x)
           in bind_r (duplicate_fd (fst new) 1 fds) (\<lambda>fds.
              bind_r (duplicate_fd (snd new) 2 fds) (\<lambda>fds.
              bind_r (env_stdout_fd env) (\<lambda>out.
              bind_r (env_stderr_fd env) (\<lambda>err.
                if fds out = None \<or> fds err = None then Inl Assert_failed
                else bind_r (redirect_fd 1 out fds) (\<lambda>fds.
                     bind_r (redirect_fd 2 err fds) (\<lambda>fds.
                       Inr (fds, \<lparr>ea_stdout_fd = fst new, ea_stderr_fd = snd new\<rparr>, x))))))))"

definition ex_teardown_distributed ::
  "nat option \<times> nat option \<Rightarrow> (int \<Rightarrow> nat option) \<times> ex_agent \<times> exec \<Rightarrow>
   ((int \<Rightarrow> nat option) \<times> ex_agent \<times> exec) result" where
  "ex_teardown_distributed ends s =
     (let (fds, a, x) = s
      in bind_r (redirect_fd 1 (ea_stdout_fd a) fds) (\<lambda>fds.
         bind_r (redirect_fd 2 (ea_stderr_fd a) fds) (\<lambda>fds.
           Inr (fds, \<lparr>ea_stdout_fd = 1, ea_stderr_fd = 2\<rparr>,
                ex_remove (fst ends) (ex_remove (snd ends) x)))))"

section \<open>Handlers\<close>

text \<open>\<open>std::call_once\<close> of the vertex behind the end of a stream.\<close>

definition ex_invoke :: "key_type option \<Rightarrow> exec \<Rightarrow> exec result" where
  "ex_invoke p x = (case p of
       None \<Rightarrow> Inl (Undefined ''null vertex'')
     | Some v \<Rightarrow> bind_r (on_vertex v (\<lambda>w. fst (vertex_invoke w)) (ex_graph x)) (\<lambda>g. Inr (x\<lparr>ex_graph := g\<rparr>)))"

text \<open>The handler of the timeout of a vertex. A program is prepared at once and spawned by the owner,
  before the timeout is removed.\<close>

definition ex_start :: "string list \<Rightarrow> nat \<Rightarrow> key_type \<Rightarrow> exec \<Rightarrow> exec result" where
  "ex_start envp i v x =
     bind_r (ex_invoke (Some v) (x\<lparr>ex_events := um_assign i (Ev_started v) (ex_events x)\<rparr>)) (\<lambda>x.
     bind_r (um_at v (g_vertices (ex_graph x))) (\<lambda>w.
     bind_r (if vertex_has_program w
             then bind_r (prespawn envp v (ex_graph x)) (\<lambda>(p, g).
                    Inr (ex_promise i (Do_spawn p) (x\<lparr>ex_graph := g\<rparr>)))
             else Inr x) (\<lambda>x.
       Inr (ex_promise i (Do_remove i) x))))"

text \<open>The callbacks of streams; the flag says whether the user's function returned \<open>REMOVE\<close>.\<close>

definition ex_read :: "bool \<Rightarrow> nat \<Rightarrow> key_type \<Rightarrow> exec \<Rightarrow> exec result" where
  "ex_read sig i k x =
     bind_r (um_at k (g_streams (ex_graph x))) (\<lambda>s.
       if gs_head s = None then Inl Assert_failed
       else case gs_on_istream s of
              None \<Rightarrow> Inr x
            | Some _ \<Rightarrow> bind_r (ex_invoke (gs_head s) x) (\<lambda>x.
                Inr (if sig then ex_promise i (Do_remove_istream k) x else x)))"

definition ex_written :: "bool \<Rightarrow> nat \<Rightarrow> key_type \<Rightarrow> exec \<Rightarrow> exec result" where
  "ex_written sig i k x =
     bind_r (um_at k (g_streams (ex_graph x))) (\<lambda>s.
       case gs_on_ostream s of
         None \<Rightarrow> Inr x
       | Some _ \<Rightarrow> bind_r (ex_invoke (gs_tail s) x) (\<lambda>x.
           Inr (if sig then ex_promise i (Do_remove_ostream k) x else x)))"

text \<open>The pipe of a program is closed: \<open>rd\<close> is what \<open>read\<close> returns, \<open>wp\<close> and \<open>st\<close> what \<open>waitpid\<close>
  returns and stores. Both calls are inside an assertion.\<close>

definition ex_program_end :: "int \<Rightarrow> int \<Rightarrow> wstatus \<Rightarrow> nat \<Rightarrow> key_type \<Rightarrow> int \<Rightarrow> exec \<Rightarrow> exec result" where
  "ex_program_end rd wp st i v pid x =
     (if rd \<noteq> 0 then Inl Assert_failed
      else if wp \<noteq> pid then Inl Assert_failed
      else if WIFEXITED st \<and> WEXITSTATUS st \<noteq> 0 \<or> WIFSIGNALED st then Inl (ex_exit st)
      else Inr (ex_promise i (Do_remove i) (x\<lparr>ex_events := um_assign i (Ev_ended v) (ex_events x)\<rparr>)))"

text \<open>Spawning, with the pid or the exception of the pipe, of the flags or of \<open>spawn\<close>.\<close>

definition ex_spawn :: "int result \<Rightarrow> program \<Rightarrow> exec \<Rightarrow> exec result" where
  "ex_spawn r p x =
     (case bind_r (um_at (pg_vertex p) (g_vertices (ex_graph x))) (\<lambda>_. r) of
        Inl _ \<Rightarrow> Inl (ex_exit EXIT_VERTEX_PROGRAM_FAILED)
      | Inr pid \<Rightarrow> Inr (snd (ex_insert (Ev_program (pg_vertex p) pid) x)))"

definition ex_run :: "int result \<Rightarrow> ex_closure \<Rightarrow> exec \<Rightarrow> exec result" where
  "ex_run r c x = (case c of
       Do_remove_istream k \<Rightarrow> ex_remove_istream k x
     | Do_remove_ostream k \<Rightarrow> ex_remove_ostream k x
     | Do_spawn p \<Rightarrow> ex_spawn r p x
     | Do_remove i \<Rightarrow> Inr (ex_remove (Some i) x))"

section \<open>Steps\<close>

definition ex_apply :: "exec result \<Rightarrow> exec \<Rightarrow> exec" where
  "ex_apply r x = (case r of Inl e \<Rightarrow> x\<lparr>ex_dead := Some e\<rparr> | Inr x' \<Rightarrow> x')"

text \<open>The loop ends behind a \<open>break_loop\<close> or when few enough events are left.\<close>

definition ex_over :: "exec \<Rightarrow> bool" where
  "ex_over x \<longleftrightarrow> ex_dead x = None \<and> (ex_break x \<or> length (ex_events x) \<le> ex_threshold x)"

inductive ex_step :: "exec \<Rightarrow> exec \<Rightarrow> bool" where
  ex_step_start: "ex_dead x = None \<Longrightarrow> (i, Ev_start v) \<in> set (ex_events x) \<Longrightarrow>
    ex_step x (ex_apply (ex_start envp i v x) x)"
| ex_step_read: "ex_dead x = None \<Longrightarrow> (i, Ev_reader k fd) \<in> set (ex_events x) \<Longrightarrow>
    ex_step x (ex_apply (ex_read sig i k x) x)"
| ex_step_read_broken: "ex_dead x = None \<Longrightarrow> (i, Ev_reader k fd) \<in> set (ex_events x) \<Longrightarrow>
    ex_step x (ex_promise i (Do_remove_istream k) x)"
| ex_step_write: "ex_dead x = None \<Longrightarrow> (i, Ev_writer k fd) \<in> set (ex_events x) \<Longrightarrow>
    ex_step x (ex_apply (ex_written sig i k x) x)"
| ex_step_write_broken: "ex_dead x = None \<Longrightarrow> (i, Ev_writer k fd) \<in> set (ex_events x) \<Longrightarrow>
    ex_step x (ex_promise i (Do_remove_ostream k) x)"
| ex_step_watch_broken: "ex_dead x = None \<Longrightarrow> (i, Ev_watch k fd) \<in> set (ex_events x) \<Longrightarrow>
    ex_step x (ex_promise i (Do_remove_ostream k) x)"
| ex_step_user_istream: "ex_dead x = None \<Longrightarrow> um_find v (g_vertices (ex_graph x)) = Some w \<Longrightarrow>
    um_find k (gv_istreams w) \<noteq> None \<Longrightarrow> ex_step x (ex_promise p (Do_remove_istream k) x)"
| ex_step_user_ostream: "ex_dead x = None \<Longrightarrow> um_find v (g_vertices (ex_graph x)) = Some w \<Longrightarrow>
    um_find k (gv_ostreams w) \<noteq> None \<Longrightarrow> ex_step x (ex_promise p (Do_remove_ostream k) x)"
| ex_step_closure: "ex_dead x = None \<Longrightarrow> ex_queue x = qs @ (p, c) # rs \<Longrightarrow> p \<notin> fst ` set qs \<Longrightarrow>
    ex_step x (ex_apply (ex_run r c (x\<lparr>ex_queue := qs @ rs\<rparr>)) x)"
| ex_step_flushed: "ex_dead x = None \<Longrightarrow> i \<in> set (ex_closing x) \<Longrightarrow> ex_step x (ex_remove (Some i) x)"
| ex_step_program: "ex_dead x = None \<Longrightarrow> (i, Ev_program v pid) \<in> set (ex_events x) \<Longrightarrow>
    ex_step x (ex_apply (ex_program_end rd wp st i v pid x) x)"
| ex_step_lost: "ex_dead x = None \<Longrightarrow> (i, c) \<in> set (ex_events x) \<Longrightarrow>
    c \<in> {Ev_agent_in, Ev_agent_out, Ev_master_in, Ev_master_out} \<Longrightarrow>
    ex_step x (x\<lparr>ex_dead := Some (ex_exit EXIT_BROKEN_CONNECTION)\<rparr>)"
| ex_step_solution: "ex_dead x = None \<Longrightarrow> (i, Ev_master_in) \<in> set (ex_events x) \<Longrightarrow>
    ex_step x (x\<lparr>ex_break := True\<rparr>)"

section \<open>The wiring of the streams\<close>

abbreviation ex_streams :: "exec \<Rightarrow> (key_type \<times> gstream) list" where
  "ex_streams x \<equiv> g_streams (ex_graph x)"

abbreviation ex_vertices :: "exec \<Rightarrow> (key_type \<times> gvertex) list" where
  "ex_vertices x \<equiv> g_vertices (ex_graph x)"

definition ex_ids :: "exec \<Rightarrow> bool" where
  "ex_ids x \<longleftrightarrow> um_wf (ex_events x) \<and> (\<forall>i \<in> set (um_keys (ex_events x)). i < ex_next x)"

text \<open>The events that read a stream (or watch its other end) and that write to it.\<close>

definition ev_reads :: "exec \<Rightarrow> nat \<Rightarrow> key_type \<Rightarrow> ex_kind \<Rightarrow> bool" where
  "ev_reads x i k c \<longleftrightarrow> (\<exists>fd s. um_find k (ex_streams x) = Some s \<and> gs_reader s = Weak_event (Some i) \<and>
     (c = Ev_reader k fd \<and> gs_head s \<noteq> None \<or> c = Ev_watch k fd \<and> gs_head s = None \<and> gs_tail s \<noteq> None))"

definition ev_writes :: "exec \<Rightarrow> nat \<Rightarrow> key_type \<Rightarrow> ex_kind \<Rightarrow> bool" where
  "ev_writes x i k c \<longleftrightarrow> (\<exists>fd s. um_find k (ex_streams x) = Some s \<and> gs_writer s = Weak_event (Some i) \<and>
     c = Ev_writer k fd \<and> gs_tail s \<noteq> None)"

text \<open>How the insertion of streams changes the executor: readers change only in the first, writers
  only in the second set, and the new events belong to them.\<close>

definition ex_grow :: "key_type set \<Rightarrow> key_type set \<Rightarrow> exec \<Rightarrow> exec \<Rightarrow> bool" where
  "ex_grow R W x y \<longleftrightarrow>
     y\<lparr>ex_graph := ex_graph x, ex_events := ex_events x, ex_next := ex_next x\<rparr> = x \<and>
     (ex_graph y)\<lparr>g_streams := ex_streams x\<rparr> = ex_graph x \<and>
     um_keys (ex_streams y) = um_keys (ex_streams x) \<and>
     (\<forall>k s. um_find k (ex_streams x) = Some s \<longrightarrow>
        (\<exists>r w. um_find k (ex_streams y) = Some (s\<lparr>gs_reader := r, gs_writer := w\<rparr>) \<and>
           (k \<notin> R \<longrightarrow> r = gs_reader s) \<and> (k \<notin> W \<longrightarrow> w = gs_writer s))) \<and>
     (\<forall>i c. um_find i (ex_events x) = Some c \<longrightarrow> um_find i (ex_events y) = Some c) \<and>
     (\<forall>i c. um_find i (ex_events y) = Some c \<longrightarrow> um_find i (ex_events x) = Some c \<or>
        (\<exists>k \<in> R. ev_reads y i k c) \<or> (\<exists>k \<in> W. ev_writes y i k c)) \<and>
     ex_ids y"

lemma ex_growD:
  assumes "ex_grow R W x y"
  shows "y\<lparr>ex_graph := ex_graph x, ex_events := ex_events x, ex_next := ex_next x\<rparr> = x"
    "(ex_graph y)\<lparr>g_streams := ex_streams x\<rparr> = ex_graph x"
    "um_keys (ex_streams y) = um_keys (ex_streams x)"
    "um_find k (ex_streams x) = Some s \<Longrightarrow>
        \<exists>r w. um_find k (ex_streams y) = Some (s\<lparr>gs_reader := r, gs_writer := w\<rparr>) \<and>
           (k \<notin> R \<longrightarrow> r = gs_reader s) \<and> (k \<notin> W \<longrightarrow> w = gs_writer s)"
    "um_find i (ex_events x) = Some c \<Longrightarrow> um_find i (ex_events y) = Some c"
    "um_find i (ex_events y) = Some c \<Longrightarrow> um_find i (ex_events x) = Some c \<or>
        (\<exists>k \<in> R. ev_reads y i k c) \<or> (\<exists>k \<in> W. ev_writes y i k c)"
    "ex_ids y"
  using assms unfolding ex_grow_def by blast+

lemma ex_grow_refl: "ex_ids x \<Longrightarrow> ex_grow {} {} x x"
  by (auto simp: ex_grow_def)

lemma ex_grow_vertices: "ex_grow R W x y \<Longrightarrow> ex_vertices y = ex_vertices x"
  using ex_growD(2)[of R W x y] by (cases "ex_graph x"; cases "ex_graph y") simp

lemma ex_grow_mono: "ex_grow R W x y \<Longrightarrow> R \<subseteq> R' \<Longrightarrow> W \<subseteq> W' \<Longrightarrow> ex_grow R' W' x y"
  unfolding ex_grow_def by blast

text \<open>A stream outside of the set keeps its reader, or its writer.\<close>

lemma ex_grow_reader:
  assumes "ex_grow R W x y" "k \<notin> R"
  shows "map_option (\<lambda>s. (gs_reader s, gs_head s, gs_tail s)) (um_find k (ex_streams y)) =
    map_option (\<lambda>s. (gs_reader s, gs_head s, gs_tail s)) (um_find k (ex_streams x))"
proof (cases "um_find k (ex_streams x)")
  case None
  then have "um_find k (ex_streams y) = None"
    using ex_growD(3)[OF assms(1)] by (simp add: um_find_None_keys)
  with None show ?thesis by simp
next
  case (Some s)
  with ex_growD(4)[OF assms(1) Some] assms(2) show ?thesis by auto
qed

lemma ex_grow_writer:
  assumes "ex_grow R W x y" "k \<notin> W"
  shows "map_option (\<lambda>s. (gs_writer s, gs_head s, gs_tail s)) (um_find k (ex_streams y)) =
    map_option (\<lambda>s. (gs_writer s, gs_head s, gs_tail s)) (um_find k (ex_streams x))"
proof (cases "um_find k (ex_streams x)")
  case None
  then have "um_find k (ex_streams y) = None"
    using ex_growD(3)[OF assms(1)] by (simp add: um_find_None_keys)
  with None show ?thesis by simp
next
  case (Some s)
  with ex_growD(4)[OF assms(1) Some] assms(2) show ?thesis by auto
qed

lemma ev_reads_alt: "ev_reads x i k c \<longleftrightarrow> (\<exists>fd h t.
    map_option (\<lambda>s. (gs_reader s, gs_head s, gs_tail s)) (um_find k (ex_streams x)) = Some (Weak_event (Some i), h, t) \<and>
    (c = Ev_reader k fd \<and> h \<noteq> None \<or> c = Ev_watch k fd \<and> h = None \<and> t \<noteq> None))"
  by (auto simp: ev_reads_def)

lemma ev_writes_alt: "ev_writes x i k c \<longleftrightarrow> (\<exists>fd h t.
    map_option (\<lambda>s. (gs_writer s, gs_head s, gs_tail s)) (um_find k (ex_streams x)) = Some (Weak_event (Some i), h, t) \<and>
    c = Ev_writer k fd \<and> t \<noteq> None)"
  by (auto simp: ev_writes_def)

lemma ex_grow_trans:
  assumes a: "ex_grow R W x y" and b: "ex_grow R' W' y z" and d: "R \<inter> R' = {}" "W \<inter> W' = {}"
  shows "ex_grow (R \<union> R') (W \<union> W') x z"
  unfolding ex_grow_def
proof (intro conjI allI impI)
  show "z\<lparr>ex_graph := ex_graph x, ex_events := ex_events x, ex_next := ex_next x\<rparr> = x"
    using ex_growD(1)[OF a] ex_growD(1)[OF b] by (cases x; cases y; cases z) simp
  show "(ex_graph z)\<lparr>g_streams := ex_streams x\<rparr> = ex_graph x"
    using ex_growD(2)[OF a] ex_growD(2)[OF b]
    by (cases "ex_graph x"; cases "ex_graph y"; cases "ex_graph z") simp
  show "um_keys (ex_streams z) = um_keys (ex_streams x)" using ex_growD(3)[OF a] ex_growD(3)[OF b] by simp
  show "ex_ids z" by (rule ex_growD(7)[OF b])
next
  fix k s assume "um_find k (ex_streams x) = Some s"
  from ex_growD(4)[OF a this] obtain r w where y: "um_find k (ex_streams y) = Some (s\<lparr>gs_reader := r, gs_writer := w\<rparr>)"
    "k \<notin> R \<longrightarrow> r = gs_reader s" "k \<notin> W \<longrightarrow> w = gs_writer s" by blast
  from ex_growD(4)[OF b y(1)] y(2,3)
  show "\<exists>r w. um_find k (ex_streams z) = Some (s\<lparr>gs_reader := r, gs_writer := w\<rparr>) \<and>
      (k \<notin> R \<union> R' \<longrightarrow> r = gs_reader s) \<and> (k \<notin> W \<union> W' \<longrightarrow> w = gs_writer s)" by auto
next
  fix i c assume "um_find i (ex_events x) = Some c"
  then show "um_find i (ex_events z) = Some c" using ex_growD(5)[OF a] ex_growD(5)[OF b] by blast
next
  fix i c assume "um_find i (ex_events z) = Some c"
  then consider "um_find i (ex_events y) = Some c" | k where "k \<in> R'" "ev_reads z i k c"
    | k where "k \<in> W'" "ev_writes z i k c"
    using ex_growD(6)[OF b] by blast
  then show "um_find i (ex_events x) = Some c \<or> (\<exists>k \<in> R \<union> R'. ev_reads z i k c) \<or> (\<exists>k \<in> W \<union> W'. ev_writes z i k c)"
  proof cases
    case 1
    have "ev_reads z i k c" if "ev_reads y i k c" "k \<in> R" for k
    proof -
      have k: "k \<notin> R'" using that(2) d(1) by blast
      from that(1) show ?thesis unfolding ev_reads_alt ex_grow_reader[OF b k] .
    qed
    moreover have "ev_writes z i k c" if "ev_writes y i k c" "k \<in> W" for k
    proof -
      have k: "k \<notin> W'" using that(2) d(2) by blast
      from that(1) show ?thesis unfolding ev_writes_alt ex_grow_writer[OF b k] .
    qed
    ultimately show ?thesis using ex_growD(6)[OF a 1] by blast
  qed blast+
qed

lemma ex_insertD:
  assumes "ex_ids x" "ex_insert c x = (i, y)"
  shows "ex_ids y" "um_find i (ex_events y) = Some c" "i = ex_next x"
    "um_find j (ex_events x) = Some d \<Longrightarrow> um_find j (ex_events y) = Some d"
    "um_find j (ex_events y) = Some d \<Longrightarrow> um_find j (ex_events x) = Some d \<or> j = i \<and> d = c"
    "y\<lparr>ex_events := ex_events x, ex_next := ex_next x\<rparr> = x" "ex_graph y = ex_graph x"
proof -
  have y: "i = ex_next x" "y = x\<lparr>ex_events := ex_events x @ [(ex_next x, c)], ex_next := Suc (ex_next x)\<rparr>"
    using assms(2) by (auto simp: ex_insert_def)
  have fresh: "ex_next x \<notin> set (um_keys (ex_events x))" using assms(1) by (auto simp: ex_ids_def)
  then have none: "map_of (ex_events x) (ex_next x) = None" by (simp add: um_find_def flip: um_find_None_keys)
  show "ex_ids y"
    using assms(1) fresh unfolding y(2) ex_ids_def um_wf_def by (auto simp: less_Suc_eq)
  show "um_find i (ex_events y) = Some c" using none by (simp add: y um_find_def map_add_def)
  show "um_find j (ex_events x) = Some d \<Longrightarrow> um_find j (ex_events y) = Some d"
    using none by (auto simp: y um_find_def map_add_def)
  show "um_find j (ex_events y) = Some d \<Longrightarrow> um_find j (ex_events x) = Some d \<or> j = i \<and> d = c"
    by (auto simp: y um_find_def map_add_def split: if_splits option.splits)
  show "i = ex_next x" by (rule y(1))
  show "y\<lparr>ex_events := ex_events x, ex_next := ex_next x\<rparr> = x" "ex_graph y = ex_graph x" by (simp_all add: y(2))
qed

definition ex_set_stream :: "key_type \<Rightarrow> gstream \<Rightarrow> exec \<Rightarrow> exec" where
  "ex_set_stream k s x = x\<lparr>ex_graph := (ex_graph x)\<lparr>g_streams := um_assign k s (ex_streams x)\<rparr>\<rparr>"

lemma ex_on_stream_eq:
  "um_find k (ex_streams x) = Some s \<Longrightarrow> ex_on_stream k f x = Inr (ex_set_stream k (f s) x)"
  by (simp add: ex_on_stream_def on_stream_def um_update_at_eq ex_set_stream_def)

text \<open>A new reader or a new writer, with or without an event.\<close>

lemma ex_grow_bridge_in:
  assumes "ex_ids x" "um_find k (ex_streams x) = Some s"
  shows "ex_grow {k} {} x (ex_set_stream k (s\<lparr>gs_reader := Bridge (Some fd)\<rparr>) x)"
  using assms by (auto simp: ex_grow_def ex_set_stream_def um_keys_assign_present dict_simps ex_ids_def)

lemma ex_grow_bridge_out:
  assumes "ex_ids x" "um_find k (ex_streams x) = Some s"
  shows "ex_grow {} {k} x (ex_set_stream k (s\<lparr>gs_writer := Bridge (Some fd)\<rparr>) x)"
  using assms by (auto simp: ex_grow_def ex_set_stream_def um_keys_assign_present dict_simps ex_ids_def)

lemma ex_grow_event_in:
  assumes "ex_ids x" "um_find k (ex_streams x) = Some s" "ex_insert c x = (i, y)"
    and "c = Ev_reader k fd \<and> gs_head s \<noteq> None \<or> c = Ev_watch k fd \<and> gs_head s = None \<and> gs_tail s \<noteq> None"
  shows "ex_grow {k} {} x (ex_set_stream k (s\<lparr>gs_reader := Weak_event (Some i)\<rparr>) y)"
proof -
  note y = ex_insertD[OF assms(1,3)]
  define z where "z = ex_set_stream k (s\<lparr>gs_reader := Weak_event (Some i)\<rparr>) y"
  have z: "ex_graph z = (ex_graph x)\<lparr>g_streams := um_assign k (s\<lparr>gs_reader := Weak_event (Some i)\<rparr>) (ex_streams x)\<rparr>"
      "ex_events z = ex_events y" "ex_next z = ex_next y"
    by (simp_all add: z_def ex_set_stream_def y(7))
  have "ev_reads z i k c" using assms(4) by (auto simp: ev_reads_def z dict_simps)
  moreover have "z\<lparr>ex_graph := ex_graph x, ex_events := ex_events x, ex_next := ex_next x\<rparr> = x"
    using y(6,7) by (cases x; cases y) (simp add: z_def ex_set_stream_def)
  moreover have "ex_ids z" using y(1) z by (simp add: ex_ids_def)
  ultimately show ?thesis
    unfolding ex_grow_def z_def[symmetric] using assms(2) y(4,5)
    by (simp add: z um_keys_assign_present dict_simps) blast
qed

lemma ex_grow_event_out:
  assumes "ex_ids x" "um_find k (ex_streams x) = Some s" "ex_insert (Ev_writer k fd) x = (i, y)" "gs_tail s \<noteq> None"
  shows "ex_grow {} {k} x (ex_set_stream k (s\<lparr>gs_writer := Weak_event (Some i)\<rparr>) y)"
proof -
  note y = ex_insertD[OF assms(1,3)]
  define z where "z = ex_set_stream k (s\<lparr>gs_writer := Weak_event (Some i)\<rparr>) y"
  have z: "ex_graph z = (ex_graph x)\<lparr>g_streams := um_assign k (s\<lparr>gs_writer := Weak_event (Some i)\<rparr>) (ex_streams x)\<rparr>"
      "ex_events z = ex_events y" "ex_next z = ex_next y"
    by (simp_all add: z_def ex_set_stream_def y(7))
  have "ev_writes z i k (Ev_writer k fd)" using assms(4) by (auto simp: ev_writes_def z dict_simps)
  moreover have "z\<lparr>ex_graph := ex_graph x, ex_events := ex_events x, ex_next := ex_next x\<rparr> = x"
    using y(6,7) by (cases x; cases y) (simp add: z_def ex_set_stream_def)
  moreover have "ex_ids z" using y(1) z by (simp add: ex_ids_def)
  ultimately show ?thesis
    unfolding ex_grow_def z_def[symmetric] using assms(2) y(4,5)
    by (simp add: z um_keys_assign_present dict_simps) blast
qed

text \<open>Which device each end of a stream is joined to.\<close>

definition ex_reads :: "key_type \<Rightarrow> int \<Rightarrow> exec \<Rightarrow> bool" where
  "ex_reads k fd x \<longleftrightarrow> (case um_find k (ex_streams x) of
       None \<Rightarrow> False
     | Some s \<Rightarrow>
         (case ex_end (gs_head s) x of
            Inl _ \<Rightarrow> False
          | Inr v \<Rightarrow>
              if vertex_has_program v then gs_reader s = Bridge (Some fd)
              else (case gs_reader s of
                      Weak_event (Some i) \<Rightarrow> um_find i (ex_events x) = Some (Ev_reader k fd)
                    | _ \<Rightarrow> False)))"

definition ex_writes :: "key_type \<Rightarrow> int \<Rightarrow> exec \<Rightarrow> bool" where
  "ex_writes k fd x \<longleftrightarrow> (case um_find k (ex_streams x) of
       None \<Rightarrow> False
     | Some s \<Rightarrow>
         (case ex_end (gs_tail s) x of
            Inl _ \<Rightarrow> False
          | Inr v \<Rightarrow>
              if vertex_has_program v then gs_writer s = Bridge (Some fd)
              else (case gs_writer s of
                      Weak_event (Some i) \<Rightarrow> um_find i (ex_events x) = Some (Ev_writer k fd)
                    | _ \<Rightarrow> False) \<and>
                   (gs_head s = None \<longrightarrow>
                     (case gs_reader s of
                        Weak_event (Some i) \<Rightarrow> um_find i (ex_events x) = Some (Ev_watch k fd)
                      | _ \<Rightarrow> False))))"

lemma ex_end_frame: "ex_vertices y = ex_vertices x \<Longrightarrow> ex_end p y = ex_end p x"
  by (simp add: ex_end_def split: option.splits)

lemma ex_set_stream_simps [simp]:
  "ex_streams (ex_set_stream k s x) = um_assign k s (ex_streams x)"
  "ex_vertices (ex_set_stream k s x) = ex_vertices x"
  "ex_end p (ex_set_stream k s x) = ex_end p x"
  "ex_events (ex_set_stream k s x) = ex_events x"
  by (simp_all add: ex_set_stream_def ex_end_def split: option.splits)

lemma ex_insert_istream_ok:
  assumes "ex_ids x" "um_find k (ex_streams x) = Some s" "gs_head s \<noteq> None" "ex_end (gs_head s) x = Inr v"
  shows "\<exists>y. ex_insert_istream k fd x = Inr y \<and> ex_grow {k} {} x y \<and> ex_reads k fd y"
proof (cases "vertex_has_program v")
  case True
  then have "ex_insert_istream k fd x = Inr (ex_set_stream k (s\<lparr>gs_reader := Bridge (Some fd)\<rparr>) x)"
    using assms by (simp add: ex_insert_istream_def ex_on_stream_eq um_at_eq)
  moreover have "ex_reads k fd (ex_set_stream k (s\<lparr>gs_reader := Bridge (Some fd)\<rparr>) x)"
    using assms True by (simp add: ex_reads_def dict_simps)
  ultimately show ?thesis using ex_grow_bridge_in[OF assms(1,2)] by blast
next
  case False
  obtain i y where y: "ex_insert (Ev_reader k fd) x = (i, y)" by fastforce
  note yd = ex_insertD[OF assms(1) y]
  define z where "z = ex_set_stream k (s\<lparr>gs_reader := Weak_event (Some i)\<rparr>) y"
  have "ex_insert_istream k fd x = Inr z"
    using assms False y yd(7) by (simp add: ex_insert_istream_def ex_on_stream_eq z_def um_at_eq)
  moreover have "ex_reads k fd z"
    using assms False yd(2,7) by (simp add: z_def ex_reads_def dict_simps ex_end_frame[of y x])
  moreover have "ex_grow {k} {} x z" unfolding z_def by (rule ex_grow_event_in[OF assms(1,2) y]) (use assms(3) in simp)
  ultimately show ?thesis by blast
qed

lemma ex_insert_ostream_intra:
  assumes "ex_ids x" "um_find k (ex_streams x) = Some s" "gs_tail s \<noteq> None" "gs_head s \<noteq> None"
    and "ex_end (gs_tail s) x = Inr v"
  shows "\<exists>y. ex_insert_ostream k fd x = Inr y \<and> ex_grow {} {k} x y \<and> ex_writes k fd y"
proof (cases "vertex_has_program v")
  case True
  then have "ex_insert_ostream k fd x = Inr (ex_set_stream k (s\<lparr>gs_writer := Bridge (Some fd)\<rparr>) x)"
    using assms by (simp add: ex_insert_ostream_def ex_on_stream_eq um_at_eq)
  moreover have "ex_writes k fd (ex_set_stream k (s\<lparr>gs_writer := Bridge (Some fd)\<rparr>) x)"
    using assms True by (simp add: ex_writes_def dict_simps)
  ultimately show ?thesis using ex_grow_bridge_out[OF assms(1,2)] by blast
next
  case False
  obtain i y where y: "ex_insert (Ev_writer k fd) x = (i, y)" by fastforce
  note yd = ex_insertD[OF assms(1) y]
  define z where "z = ex_set_stream k (s\<lparr>gs_writer := Weak_event (Some i)\<rparr>) y"
  have "ex_insert_ostream k fd x = Inr z"
    using assms False y yd(7)
    by (auto simp: ex_insert_ostream_def ex_on_stream_eq z_def um_at_eq is_inter_stream_mode_def)
  moreover have "ex_writes k fd z"
    using assms False yd(2,7) by (auto simp: z_def ex_writes_def dict_simps ex_end_frame[of y x])
  moreover have "ex_grow {} {k} x z" unfolding z_def by (rule ex_grow_event_out[OF assms(1,2) y assms(3)])
  ultimately show ?thesis by blast
qed

lemma ex_insert_ostream_inter:
  assumes "ex_ids x" "um_find k (ex_streams x) = Some s" "gs_tail s \<noteq> None" "gs_head s = None"
    and "ex_end (gs_tail s) x = Inr v"
  shows "\<exists>y. ex_insert_ostream k fd x = Inr y \<and> ex_grow {k} {k} x y \<and> ex_writes k fd y"
proof (cases "vertex_has_program v")
  case True
  then have "ex_insert_ostream k fd x = Inr (ex_set_stream k (s\<lparr>gs_writer := Bridge (Some fd)\<rparr>) x)"
    using assms by (simp add: ex_insert_ostream_def ex_on_stream_eq um_at_eq)
  moreover have "ex_writes k fd (ex_set_stream k (s\<lparr>gs_writer := Bridge (Some fd)\<rparr>) x)"
    using assms True by (simp add: ex_writes_def dict_simps)
  ultimately show ?thesis using ex_grow_bridge_out[OF assms(1,2)] ex_grow_mono by blast
next
  case False
  obtain i y where y: "ex_insert (Ev_watch k fd) x = (i, y)" by fastforce
  note yd = ex_insertD[OF assms(1) y]
  define s' where "s' = s\<lparr>gs_reader := Weak_event (Some i)\<rparr>"
  define u where "u = ex_set_stream k s' y"
  have u: "ex_grow {k} {} x u" unfolding u_def s'_def
    by (rule ex_grow_event_in[OF assms(1,2) y]) (use assms(3,4) in simp)
  have s': "um_find k (ex_streams u) = Some s'" "gs_tail s' \<noteq> None" "gs_head s' = None" "ex_end (gs_tail s') u = Inr v"
    using assms yd(7) by (simp_all add: u_def s'_def dict_simps ex_end_frame[of y x])
  obtain j w where w: "ex_insert (Ev_writer k fd) u = (j, w)" by fastforce
  note wd = ex_insertD[OF ex_growD(7)[OF u] w]
  define z where "z = ex_set_stream k (s'\<lparr>gs_writer := Weak_event (Some j)\<rparr>) w"
  have f: "um_find k (ex_streams y) = Some s" "um_find k (ex_streams w) = Some s'"
    using assms(2) yd(7) wd(7) s'(1) by simp_all
  have "ex_on_stream k (\<lambda>s. s\<lparr>gs_reader := Weak_event (Some i)\<rparr>) y = Inr u"
      "ex_on_stream k (\<lambda>s. s\<lparr>gs_writer := Weak_event (Some j)\<rparr>) w = Inr z"
    unfolding ex_on_stream_eq[OF f(1)] ex_on_stream_eq[OF f(2)] by (simp_all add: u_def s'_def z_def)
  then have "ex_insert_ostream k fd x = Inr z"
    using assms False y w by (simp add: ex_insert_ostream_def um_at_eq is_inter_stream_mode_def)
  moreover have "ex_writes k fd z"
    using s'(2-4) False wd(2,7) wd(4)[of i "Ev_watch k fd"] yd(2)
    by (simp add: z_def ex_writes_def dict_simps ex_end_frame[of w u]) (simp add: s'_def u_def)
  moreover have "ex_grow {} {k} u z" unfolding z_def
    by (rule ex_grow_event_out[OF ex_growD(7)[OF u] s'(1) w s'(2)])
  then have "ex_grow {k} {k} x z" using ex_grow_trans[OF u] by fastforce
  ultimately show ?thesis by blast
qed

text \<open>Frames.\<close>

lemma ex_grow_reads:
  assumes g: "ex_grow R W x y" and k: "k \<notin> R" and r: "ex_reads k fd x"
  shows "ex_reads k fd y"
proof -
  obtain s v where s: "um_find k (ex_streams x) = Some s" "ex_end (gs_head s) x = Inr v"
      "if vertex_has_program v then gs_reader s = Bridge (Some fd)
       else \<exists>i. gs_reader s = Weak_event (Some i) \<and> um_find i (ex_events x) = Some (Ev_reader k fd)"
    using r by (auto simp: ex_reads_def split: option.splits sum.splits endpoint.splits if_splits)
  obtain w where w: "um_find k (ex_streams y) = Some (s\<lparr>gs_reader := gs_reader s, gs_writer := w\<rparr>)"
    using ex_growD(4)[OF g s(1)] k by auto
  show ?thesis
    using s(2,3) ex_growD(5)[OF g] by (auto simp: ex_reads_def w ex_end_frame[OF ex_grow_vertices[OF g]])
qed

lemma ex_grow_writes:
  assumes g: "ex_grow R W x y" and k: "k \<notin> R" "k \<notin> W" and r: "ex_writes k fd x"
  shows "ex_writes k fd y"
proof -
  obtain s v where s: "um_find k (ex_streams x) = Some s" "ex_end (gs_tail s) x = Inr v"
      "if vertex_has_program v then gs_writer s = Bridge (Some fd)
       else (\<exists>i. gs_writer s = Weak_event (Some i) \<and> um_find i (ex_events x) = Some (Ev_writer k fd)) \<and>
         (gs_head s = None \<longrightarrow>
           (\<exists>i. gs_reader s = Weak_event (Some i) \<and> um_find i (ex_events x) = Some (Ev_watch k fd)))"
    using r by (auto simp: ex_writes_def split: option.splits sum.splits endpoint.splits if_splits)
  have w: "um_find k (ex_streams y) = Some (s\<lparr>gs_reader := gs_reader s, gs_writer := gs_writer s\<rparr>)"
    using ex_growD(4)[OF g s(1)] k by auto
  show ?thesis
    using s(2,3) ex_growD(5)[OF g] by (auto simp: ex_writes_def w ex_end_frame[OF ex_grow_vertices[OF g]])
qed

text \<open>The devices a stream is to be joined to: the two ends of a fresh pair, or its frontier.\<close>

definition stream_devices ::
  "(key_type \<times> int) list \<Rightarrow> (key_type \<Rightarrow> (int \<times> int) result) \<Rightarrow> key_type \<Rightarrow> gstream \<Rightarrow> int option \<times> int option" where
  "stream_devices fr pair k s =
     (if is_intra_stream s then (case pair k of Inr (r, w) \<Rightarrow> (Some r, Some w) | Inl _ \<Rightarrow> (None, None))
      else (um_find k fr, um_find k fr))"

definition ex_wired ::
  "(key_type \<times> int) list \<Rightarrow> (key_type \<Rightarrow> (int \<times> int) result) \<Rightarrow> key_type \<Rightarrow> exec \<Rightarrow> bool" where
  "ex_wired fr pair k x \<longleftrightarrow> (case um_find k (ex_streams x) of
       None \<Rightarrow> False
     | Some s \<Rightarrow>
         (gs_head s \<noteq> None \<longrightarrow> (case fst (stream_devices fr pair k s) of Some fd \<Rightarrow> ex_reads k fd x | None \<Rightarrow> False)) \<and>
         (gs_tail s \<noteq> None \<longrightarrow> (case snd (stream_devices fr pair k s) of Some fd \<Rightarrow> ex_writes k fd x | None \<Rightarrow> False)))"

lemma stream_devices_frame [simp]:
  "stream_devices fr pair k (s\<lparr>gs_reader := r, gs_writer := w\<rparr>) = stream_devices fr pair k s"
  by (simp add: stream_devices_def is_intra_stream_def)

lemma ex_grow_wired:
  assumes g: "ex_grow R W x y" and k: "k \<notin> R" "k \<notin> W" and r: "ex_wired fr pair k x"
  shows "ex_wired fr pair k y"
proof -
  obtain s where s: "um_find k (ex_streams x) = Some s" using r by (auto simp: ex_wired_def split: option.splits)
  have y: "um_find k (ex_streams y) = Some (s\<lparr>gs_reader := gs_reader s, gs_writer := gs_writer s\<rparr>)"
    using ex_growD(4)[OF g s] k by auto
  show ?thesis
    using r s ex_grow_reads[OF g k(1)] ex_grow_writes[OF g k]
    by (auto simp: ex_wired_def y split: option.splits)
qed

text \<open>Pointers of a ready graph go to vertices.\<close>

lemma graph_ready_end:
  assumes "graph_ready (ex_graph x)" "um_find k (ex_streams x) = Some s" "p = gs_head s \<or> p = gs_tail s" "p \<noteq> None"
  shows "\<exists>v. ex_end p x = Inr v"
proof -
  obtain v where v: "p = Some v" using assms(4) by auto
  then have "um_find v (ex_vertices x) \<noteq> None" using assms(1-3) unfolding graph_ready_def by metis
  then show ?thesis by (auto simp: ex_end_def um_at_eq v)
qed

lemma ex_grow_find:
  assumes "ex_grow R W x y" "um_find k (ex_streams y) = Some s'"
  obtains s r w where "um_find k (ex_streams x) = Some s" "s' = s\<lparr>gs_reader := r, gs_writer := w\<rparr>"
    "k \<notin> R \<Longrightarrow> r = gs_reader s" "k \<notin> W \<Longrightarrow> w = gs_writer s"
proof (cases "um_find k (ex_streams x)")
  case None
  then have "um_find k (ex_streams y) = None"
    using ex_growD(3)[OF assms(1)] by (simp add: um_find_None_keys)
  with assms(2) show ?thesis by simp
next
  case (Some s)
  with ex_growD(4)[OF assms(1) Some] assms(2) that[OF Some] show ?thesis by auto
qed

lemma ex_grow_ready:
  assumes g: "ex_grow R W x y" and r: "graph_ready (ex_graph x)"
  shows "graph_ready (ex_graph y)"
proof -
  have "um_wf (ex_streams y)" using r ex_growD(3)[OF g] by (simp add: graph_ready_def um_wf_def)
  moreover have "(gs_head s \<noteq> None \<or> gs_tail s \<noteq> None) \<and>
      (\<forall>v. gs_head s = Some v \<or> gs_tail s = Some v \<longrightarrow> um_find v (ex_vertices x) \<noteq> None)"
    if f: "um_find k (ex_streams y) = Some s" for k s
  proof -
    obtain t r' w where t: "um_find k (ex_streams x) = Some t" "s = t\<lparr>gs_reader := r', gs_writer := w\<rparr>"
      by (rule ex_grow_find[OF g f])
    from r t(1) show ?thesis unfolding graph_ready_def t(2) by simp
  qed
  ultimately show ?thesis using r unfolding graph_ready_def ex_grow_vertices[OF g] by blast
qed

text \<open>What the kernel and the agent have to provide.\<close>

definition provided ::
  "(key_type \<times> int) list \<Rightarrow> (key_type \<Rightarrow> (int \<times> int) result) \<Rightarrow> (int \<Rightarrow> exn option) \<Rightarrow> key_type \<Rightarrow> gstream \<Rightarrow> bool" where
  "provided fr pair cloexec k s \<longleftrightarrow>
     (case um_find k fr of
        None \<Rightarrow> is_intra_stream s \<and> (case pair k of Inr _ \<Rightarrow> True | Inl _ \<Rightarrow> False)
      | Some fd \<Rightarrow> is_inter_stream s \<and> cloexec fd = None)"

lemma ex_insert_stream_ok:
  assumes x: "ex_ids x" "graph_ready (ex_graph x)" and s: "um_find k (ex_streams x) = Some s"
    and p: "provided fr pair cloexec k s"
  shows "\<exists>y. ex_insert_stream fr pair cloexec k x = Inr y \<and> ex_grow {k} {k} x y \<and> ex_wired fr pair k y"
proof (cases "um_find k fr")
  case None
  with p obtain r w where intra: "gs_head s \<noteq> None" "gs_tail s \<noteq> None" and pr: "pair k = Inr (r, w)"
    by (auto simp: provided_def is_intra_stream_def split: sum.splits)
  obtain v where v: "ex_end (gs_head s) x = Inr v" using graph_ready_end[OF x(2) s] intra by blast
  obtain y where y: "ex_insert_istream k r x = Inr y" "ex_grow {k} {} x y" "ex_reads k r y"
    using ex_insert_istream_ok[OF x(1) s intra(1) v] by blast
  obtain q where q: "um_find k (ex_streams y) = Some (s\<lparr>gs_reader := q, gs_writer := gs_writer s\<rparr>)"
    using ex_growD(4)[OF y(2) s] by auto
  obtain u where u: "ex_end (gs_tail s) y = Inr u"
    using graph_ready_end[OF x(2) s] intra ex_end_frame[OF ex_grow_vertices[OF y(2)]] by metis
  obtain z where z: "ex_insert_ostream k w y = Inr z" "ex_grow {} {k} y z" "ex_writes k w z"
    using ex_insert_ostream_intra[OF ex_growD(7)[OF y(2)] q] intra u by auto
  have "ex_grow {k} {k} x z" using ex_grow_trans[OF y(2) z(2)] by simp
  moreover have "ex_reads k r z" using ex_grow_reads[OF z(2) _ y(3)] by simp
  moreover obtain q' w' where "um_find k (ex_streams z) = Some (s\<lparr>gs_reader := q', gs_writer := w'\<rparr>)"
    using ex_growD(4)[OF z(2) q] by auto
  then have "ex_wired fr pair k z"
    using z(3) \<open>ex_reads k r z\<close> pr intra by (simp add: ex_wired_def) (simp add: stream_devices_def is_intra_stream_def)
  moreover have "ex_insert_stream fr pair cloexec k x = Inr z"
    using None s intra pr y(1) z(1) by (auto simp: ex_insert_stream_def um_at_eq is_inter_stream_def)
  ultimately show ?thesis by blast
next
  case (Some fd)
  with p have inter: "is_inter_stream s" and c: "cloexec fd = None" by (auto simp: provided_def)
  consider (I) "gs_head s \<noteq> None" "gs_tail s = None" | (O) "gs_head s = None" "gs_tail s \<noteq> None"
    using inter by (auto simp: is_inter_stream_def)
  then show ?thesis
  proof cases
    case I
    obtain v where v: "ex_end (gs_head s) x = Inr v" using graph_ready_end[OF x(2) s] I by blast
    obtain y where y: "ex_insert_istream k fd x = Inr y" "ex_grow {k} {} x y" "ex_reads k fd y"
      using ex_insert_istream_ok[OF x(1) s I(1) v] by blast
    obtain q w where q: "um_find k (ex_streams y) = Some (s\<lparr>gs_reader := q, gs_writer := w\<rparr>)"
      using ex_growD(4)[OF y(2) s] by blast
    have "ex_wired fr pair k y"
      using y(3) I Some q by (simp add: ex_wired_def) (simp add: stream_devices_def is_intra_stream_def)
    moreover have "ex_insert_stream fr pair cloexec k x = Inr y"
      using Some s inter c I y(1) by (simp add: ex_insert_stream_def um_at_eq is_inter_stream_mode_def)
    ultimately show ?thesis using ex_grow_mono[OF y(2)] by blast
  next
    case O
    obtain v where v: "ex_end (gs_tail s) x = Inr v" using graph_ready_end[OF x(2) s] O by blast
    obtain y where y: "ex_insert_ostream k fd x = Inr y" "ex_grow {k} {k} x y" "ex_writes k fd y"
      using ex_insert_ostream_inter[OF x(1) s O(2,1) v] by blast
    obtain q w where q: "um_find k (ex_streams y) = Some (s\<lparr>gs_reader := q, gs_writer := w\<rparr>)"
      using ex_growD(4)[OF y(2) s] by blast
    have "ex_wired fr pair k y"
      using y(3) O Some q by (simp add: ex_wired_def) (simp add: stream_devices_def is_intra_stream_def)
    moreover have "ex_insert_stream fr pair cloexec k x = Inr y"
      using Some s inter c O y(1) by (simp add: ex_insert_stream_def um_at_eq is_inter_stream_mode_def)
    ultimately show ?thesis using y(2) by blast
  qed
qed

lemma ex_insert_streams_ok:
  assumes "distinct ks" "ex_ids x" "graph_ready (ex_graph x)"
    and "\<And>k. k \<in> set ks \<Longrightarrow> \<exists>s. um_find k (ex_streams x) = Some s \<and> provided fr pair cloexec k s"
  shows "\<exists>y. fold_r (ex_insert_stream fr pair cloexec) ks x = Inr y \<and> ex_grow (set ks) (set ks) x y \<and>
    (\<forall>k \<in> set ks. ex_wired fr pair k y)"
  using assms
proof (induction ks arbitrary: x)
  case Nil
  then show ?case by (simp add: ex_grow_refl)
next
  case (Cons k ks)
  obtain s where s: "um_find k (ex_streams x) = Some s" "provided fr pair cloexec k s" using Cons.prems(4) by auto
  obtain y where y: "ex_insert_stream fr pair cloexec k x = Inr y" "ex_grow {k} {k} x y" "ex_wired fr pair k y"
    using ex_insert_stream_ok[OF Cons.prems(2,3) s] by blast
  have p: "\<exists>s. um_find j (ex_streams y) = Some s \<and> provided fr pair cloexec j s" if j: "j \<in> set ks" for j
  proof -
    obtain t where t: "um_find j (ex_streams x) = Some t" "provided fr pair cloexec j t" using Cons.prems(4) j by auto
    obtain r w where "um_find j (ex_streams y) = Some (t\<lparr>gs_reader := r, gs_writer := w\<rparr>)"
      using ex_growD(4)[OF y(2) t(1)] by blast
    with t(2) show ?thesis
      by (auto simp: provided_def is_intra_stream_def is_inter_stream_def split: option.splits)
  qed
  obtain z where z: "fold_r (ex_insert_stream fr pair cloexec) ks y = Inr z" "ex_grow (set ks) (set ks) y z"
      "\<forall>k \<in> set ks. ex_wired fr pair k z"
    using Cons.IH[OF _ ex_growD(7)[OF y(2)] ex_grow_ready[OF y(2) Cons.prems(3)] p] Cons.prems(1) by auto
  have "k \<notin> set ks" using Cons.prems(1) by simp
  then have "ex_wired fr pair k z" "ex_grow (insert k (set ks)) (insert k (set ks)) x z"
    using ex_grow_wired[OF z(2) _ _ y(3)] ex_grow_trans[OF y(2) z(2)] by auto
  with y(1) z(1,3) show ?case by auto
qed

text \<open>The timeouts of the vertices.\<close>

lemma ex_insert_vertices_fold:
  assumes "ex_ids x"
  shows "ex_ids (fold (\<lambda>k x. snd (ex_insert (Ev_start k) x)) vs x) \<and>
    (\<forall>i c. um_find i (ex_events x) = Some c \<longrightarrow> um_find i (ex_events (fold (\<lambda>k x. snd (ex_insert (Ev_start k) x)) vs x)) = Some c) \<and>
    map snd (ex_events (fold (\<lambda>k x. snd (ex_insert (Ev_start k) x)) vs x)) = map snd (ex_events x) @ map Ev_start vs \<and>
    (fold (\<lambda>k x. snd (ex_insert (Ev_start k) x)) vs x)\<lparr>ex_events := ex_events x, ex_next := ex_next x\<rparr> = x"
  using assms
proof (induction vs arbitrary: x)
  case Nil
  then show ?case by simp
next
  case (Cons v vs)
  obtain i y where y: "ex_insert (Ev_start v) x = (i, y)" by fastforce
  note yd = ex_insertD[OF Cons.prems y]
  have "map snd (ex_events y) = map snd (ex_events x) @ [Ev_start v]" using y by (auto simp: ex_insert_def)
  moreover have "z\<lparr>ex_events := ex_events x, ex_next := ex_next x\<rparr> = x"
    if "z\<lparr>ex_events := ex_events y, ex_next := ex_next y\<rparr> = y" for z
    using that yd(6) by (cases x; cases y; cases z) simp
  ultimately show ?case using Cons.IH[OF yd(1)] yd(4) by (simp add: y)
qed

end
