(* ===== verification/ExecutorRun.thy ===== *)
theory ExecutorRun
  imports Executor
begin

text \<open>
  The run of an executor: the invariant of its steps, that they only end in an orderly exit, and that
  an executor without critical streams can always come to the end of its loop. The theorems compose
  the submission of a graph, the extraction of one container, and the set-up and the run of the
  executor that is started for it.
\<close>

section \<open>The invariant\<close>

text \<open>A vertex can be started: when it is a program, all its bridges are there.\<close>

definition can_start :: "exec \<Rightarrow> key_type \<Rightarrow> bool" where
  "can_start x v \<longleftrightarrow> (\<exists>w. um_find v (ex_vertices x) = Some w \<and>
     (vertex_has_program w \<longrightarrow>
        (\<forall>j s. um_find j (ex_streams x) = Some s \<longrightarrow>
           (gs_head s = Some v \<longrightarrow> (\<exists>fd. gs_reader s = Bridge (Some fd))) \<and>
           (gs_tail s = Some v \<longrightarrow> (\<exists>fd. gs_writer s = Bridge (Some fd))))))"

definition ev_ok :: "exec \<Rightarrow> nat \<Rightarrow> ex_kind \<Rightarrow> bool" where
  "ev_ok x i c = (case c of
       Ev_reader k _ \<Rightarrow> ev_reads x i k c
     | Ev_watch k _ \<Rightarrow> ev_reads x i k c
     | Ev_writer k _ \<Rightarrow> ev_writes x i k c
     | Ev_start v \<Rightarrow> can_start x v
     | Ev_started _ \<Rightarrow> (i, Do_remove i) \<in> set (ex_queue x)
     | Ev_ended _ \<Rightarrow> (i, Do_remove i) \<in> set (ex_queue x)
     | _ \<Rightarrow> True)"

definition graph_ok :: "graph \<Rightarrow> bool" where
  "graph_ok g \<longleftrightarrow> graph_ready g \<and> linked g \<and> graph_tidy g"

definition ex_inv :: "exec \<Rightarrow> bool" where
  "ex_inv x \<longleftrightarrow> graph_ok (ex_graph x) \<and> ex_ids x \<and>
     (\<forall>i c. um_find i (ex_events x) = Some c \<longrightarrow> ev_ok x i c) \<and>
     (\<forall>i j v. um_find i (ex_events x) = Some (Ev_start v) \<longrightarrow> um_find j (ex_events x) = Some (Ev_start v) \<longrightarrow> i = j) \<and>
     (\<forall>q p. (q, Do_spawn p) \<in> set (ex_queue x) \<longrightarrow> um_find (pg_vertex p) (ex_vertices x) \<noteq> None) \<and>
     (\<forall>e. ex_dead x = Some e \<longrightarrow> (\<exists>c. e = Exit c))"

lemma ex_invD:
  assumes "ex_inv x"
  shows "graph_ok (ex_graph x)" "ex_ids x"
    "um_find i (ex_events x) = Some c \<Longrightarrow> ev_ok x i c"
    "um_find i (ex_events x) = Some (Ev_start v) \<Longrightarrow> um_find j (ex_events x) = Some (Ev_start v) \<Longrightarrow> i = j"
    "(q, Do_spawn p) \<in> set (ex_queue x) \<Longrightarrow> um_find (pg_vertex p) (ex_vertices x) \<noteq> None"
    "ex_dead x = Some e \<Longrightarrow> \<exists>c. e = Exit c"
  using assms unfolding ex_inv_def by blast+

lemma ex_invI:
  assumes "graph_ok (ex_graph x)" "ex_ids x"
    "\<And>i c. um_find i (ex_events x) = Some c \<Longrightarrow> ev_ok x i c"
    "\<And>i j v. um_find i (ex_events x) = Some (Ev_start v) \<Longrightarrow> um_find j (ex_events x) = Some (Ev_start v) \<Longrightarrow> i = j"
    "\<And>q p. (q, Do_spawn p) \<in> set (ex_queue x) \<Longrightarrow> um_find (pg_vertex p) (ex_vertices x) \<noteq> None"
    "\<And>e. ex_dead x = Some e \<Longrightarrow> \<exists>c. e = Exit c"
  shows "ex_inv x"
  using assms unfolding ex_inv_def by blast

text \<open>An event keeps its promise when the graph stays and the queue loses none of its removals.\<close>

lemma ev_ok_frame:
  assumes "ev_ok x i c" "ex_graph y = ex_graph x"
    and "(i, Do_remove i) \<in> set (ex_queue x) \<Longrightarrow> (i, Do_remove i) \<in> set (ex_queue y)"
  shows "ev_ok y i c"
  using assms by (auto simp: ev_ok_def ev_reads_def ev_writes_def can_start_def split: ex_kind.splits)

text \<open>The graph may change by the call of a vertex, which changes nothing the events rely on.\<close>

definition same_shape :: "graph \<Rightarrow> graph \<Rightarrow> bool" where
  "same_shape g g' \<longleftrightarrow> g_streams g' = g_streams g \<and> um_keys (g_vertices g') = um_keys (g_vertices g) \<and>
     (\<forall>v. map_option (\<lambda>w. (gv_key w, gv_istreams w, gv_ostreams w, gv_runtime w)) (um_find v (g_vertices g')) =
          map_option (\<lambda>w. (gv_key w, gv_istreams w, gv_ostreams w, gv_runtime w)) (um_find v (g_vertices g)))"

lemma vertex_invoke_frame:
  "gv_key (fst (vertex_invoke w)) = gv_key w" "gv_istreams (fst (vertex_invoke w)) = gv_istreams w"
  "gv_ostreams (fst (vertex_invoke w)) = gv_ostreams w" "gv_runtime (fst (vertex_invoke w)) = gv_runtime w"
  by (auto simp: vertex_invoke_def split: option.splits)

lemma ex_invoke_ok:
  assumes "p = Some v" "um_find v (ex_vertices x) = Some w"
  shows "\<exists>g. ex_invoke p x = Inr (x\<lparr>ex_graph := g\<rparr>) \<and> same_shape (ex_graph x) g"
  using assms
  by (auto simp: ex_invoke_def on_vertex_def um_update_at_eq same_shape_def um_keys_assign_present dict_simps
      vertex_invoke_frame)

lemma same_shape_find:
  assumes "same_shape g g'" "um_find v (g_vertices g') = Some w'"
  obtains w where "um_find v (g_vertices g) = Some w" "gv_key w' = gv_key w" "gv_istreams w' = gv_istreams w"
    "gv_ostreams w' = gv_ostreams w" "gv_runtime w' = gv_runtime w"
proof -
  have "map_option (\<lambda>w. (gv_key w, gv_istreams w, gv_ostreams w, gv_runtime w)) (um_find v (g_vertices g')) =
      map_option (\<lambda>w. (gv_key w, gv_istreams w, gv_ostreams w, gv_runtime w)) (um_find v (g_vertices g))"
    using assms(1) by (simp add: same_shape_def)
  with that assms(2) show ?thesis by (cases "um_find v (g_vertices g)") auto
qed

lemma same_shape_None: "same_shape g g' \<Longrightarrow> um_find v (g_vertices g') = None \<longleftrightarrow> um_find v (g_vertices g) = None"
  by (simp add: same_shape_def um_find_None_keys)

text \<open>More generally, a change of the graph that keeps the keys, the ends of the streams and the maps of
  the vertices.\<close>

definition same_links :: "graph \<Rightarrow> graph \<Rightarrow> bool" where
  "same_links g g' \<longleftrightarrow> um_keys (g_streams g') = um_keys (g_streams g) \<and> um_keys (g_vertices g') = um_keys (g_vertices g) \<and>
     (\<forall>j. map_option (\<lambda>s. (gs_head s, gs_tail s)) (um_find j (g_streams g')) =
          map_option (\<lambda>s. (gs_head s, gs_tail s)) (um_find j (g_streams g))) \<and>
     (\<forall>v. map_option (\<lambda>w. (gv_key w, gv_istreams w, gv_ostreams w)) (um_find v (g_vertices g')) =
          map_option (\<lambda>w. (gv_key w, gv_istreams w, gv_ostreams w)) (um_find v (g_vertices g)))"

lemma same_linksD:
  assumes "same_links g g'"
  shows "um_keys (g_streams g') = um_keys (g_streams g)" "um_keys (g_vertices g') = um_keys (g_vertices g)"
    "um_find j (g_streams g') = Some s' \<Longrightarrow>
       \<exists>s. um_find j (g_streams g) = Some s \<and> gs_head s = gs_head s' \<and> gs_tail s = gs_tail s'"
    "um_find v (g_vertices g') = Some w' \<Longrightarrow>
       \<exists>w. um_find v (g_vertices g) = Some w \<and> gv_key w = gv_key w' \<and> gv_istreams w = gv_istreams w' \<and>
         gv_ostreams w = gv_ostreams w'"
proof -
  show "um_keys (g_streams g') = um_keys (g_streams g)" "um_keys (g_vertices g') = um_keys (g_vertices g)"
    using assms by (simp_all add: same_links_def)
  show "\<exists>s. um_find j (g_streams g) = Some s \<and> gs_head s = gs_head s' \<and> gs_tail s = gs_tail s'"
    if "um_find j (g_streams g') = Some s'"
  proof -
    have "map_option (\<lambda>s. (gs_head s, gs_tail s)) (um_find j (g_streams g')) =
          map_option (\<lambda>s. (gs_head s, gs_tail s)) (um_find j (g_streams g))"
      using assms by (simp add: same_links_def)
    with that show ?thesis by (cases "um_find j (g_streams g)") auto
  qed
  show "\<exists>w. um_find v (g_vertices g) = Some w \<and> gv_key w = gv_key w' \<and> gv_istreams w = gv_istreams w' \<and>
         gv_ostreams w = gv_ostreams w'" if "um_find v (g_vertices g') = Some w'"
  proof -
    have "map_option (\<lambda>w. (gv_key w, gv_istreams w, gv_ostreams w)) (um_find v (g_vertices g')) =
          map_option (\<lambda>w. (gv_key w, gv_istreams w, gv_ostreams w)) (um_find v (g_vertices g))"
      using assms by (simp add: same_links_def)
    with that show ?thesis by (cases "um_find v (g_vertices g)") auto
  qed
qed

lemma same_links_sym: "same_links g g' \<Longrightarrow> same_links g' g"
  by (simp add: same_links_def)

lemma same_links_ok:
  assumes sl: "same_links g g'" and ok: "graph_ok g"
  shows "graph_ok g'"
proof -
  note d = same_linksD[OF sl]
  have none: "um_find v (g_vertices g') = None \<longleftrightarrow> um_find v (g_vertices g) = None" for v
    by (simp add: um_find_None_keys d(2))
  have "um_wf (g_vertices g')" "um_wf (g_streams g')"
    using ok d(1,2) by (simp_all add: graph_ok_def graph_ready_def um_wf_def)
  moreover have "(gs_head s \<noteq> None \<or> gs_tail s \<noteq> None) \<and>
        (\<forall>v. gs_head s = Some v \<or> gs_tail s = Some v \<longrightarrow> um_find v (g_vertices g') \<noteq> None)"
    if f: "um_find k (g_streams g') = Some s" for k s
  proof -
    obtain u where u: "um_find k (g_streams g) = Some u" "gs_head u = gs_head s" "gs_tail u = gs_tail s"
      using d(3)[OF f] by blast
    show ?thesis using ok u(1) unfolding graph_ok_def graph_ready_def none u(2,3)[symmetric] by blast
  qed
  ultimately have "graph_ready g'" unfolding graph_ready_def by blast
  moreover have "linked g'" unfolding linked_def
  proof (intro allI impI)
    fix k v j assume "um_find k (g_vertices g') = Some v"
    then obtain w where w: "um_find k (g_vertices g) = Some w" "gv_istreams w = gv_istreams v" "gv_ostreams w = gv_ostreams v"
      using d(4) by blast
    have e: "(\<exists>s. um_find j (g_streams g') = Some s \<and> gs_tail s = Some k) \<longleftrightarrow>
        (\<exists>s. um_find j (g_streams g) = Some s \<and> gs_tail s = Some k)"
      "(\<exists>s. um_find j (g_streams g') = Some s \<and> gs_head s = Some k) \<longleftrightarrow>
        (\<exists>s. um_find j (g_streams g) = Some s \<and> gs_head s = Some k)"
      using d(3)[of j] same_linksD(3)[OF same_links_sym[OF sl], of j] by metis+
    show "um_find j (gv_ostreams v) = (if \<exists>s. um_find j (g_streams g') = Some s \<and> gs_tail s = Some k then Some j else None) \<and>
        um_find j (gv_istreams v) = (if \<exists>s. um_find j (g_streams g') = Some s \<and> gs_head s = Some k then Some j else None)"
      using ok w(1) unfolding graph_ok_def linked_def e w(2,3)[symmetric] by blast
  qed
  moreover have "graph_tidy g'" unfolding graph_tidy_def
  proof (intro allI impI)
    fix k v assume "um_find k (g_vertices g') = Some v"
    then obtain w where w: "um_find k (g_vertices g) = Some w" "gv_key w = gv_key v" "gv_istreams w = gv_istreams v"
        "gv_ostreams w = gv_ostreams v"
      using d(4) by blast
    then show "gv_key v = k \<and> um_wf (gv_istreams v) \<and> um_wf (gv_ostreams v)"
      using ok unfolding graph_ok_def graph_tidy_def w(2-4)[symmetric] by blast
  qed
  ultimately show ?thesis by (simp add: graph_ok_def)
qed

lemma same_shape_links: "same_shape g g' \<Longrightarrow> same_links g g'"
proof -
  assume ss: "same_shape g g'"
  have "map_option (\<lambda>w. (gv_key w, gv_istreams w, gv_ostreams w)) (um_find v (g_vertices g')) =
          map_option (\<lambda>w. (gv_key w, gv_istreams w, gv_ostreams w)) (um_find v (g_vertices g))" for v
  proof (cases "um_find v (g_vertices g')")
    case None
    then show ?thesis using same_shape_None[OF ss, of v] by simp
  next
    case (Some w')
    then show ?thesis by (rule same_shape_find[OF ss]) (simp add: Some)
  qed
  then show ?thesis using ss by (simp add: same_shape_def same_links_def)
qed

lemma same_shape_can_start:
  assumes ss: "same_shape (ex_graph x) (ex_graph y)" and c: "can_start x v"
  shows "can_start y v"
proof -
  obtain w where w: "um_find v (ex_vertices x) = Some w" using c by (auto simp: can_start_def)
  then obtain w' where w': "um_find v (ex_vertices y) = Some w'"
    using same_shape_None[OF ss, of v] by (cases "um_find v (ex_vertices y)") auto
  then obtain u where "um_find v (ex_vertices x) = Some u" "gv_runtime w' = gv_runtime u"
    by (rule same_shape_find[OF ss])
  then have "vertex_has_program w' = vertex_has_program w" using w by (simp add: vertex_has_program_def)
  with c w w' ss show ?thesis by (simp add: can_start_def same_shape_def)
qed

lemma same_shape_ev_ok:
  assumes ss: "same_shape (ex_graph x) (ex_graph y)" and e: "ev_ok x i c"
    and q: "(i, Do_remove i) \<in> set (ex_queue x) \<Longrightarrow> (i, Do_remove i) \<in> set (ex_queue y)"
  shows "ev_ok y i c"
proof -
  have "ex_streams y = ex_streams x" using ss by (simp add: same_shape_def)
  then show ?thesis
    using e q same_shape_can_start[OF ss] by (auto simp: ev_ok_def ev_reads_def ev_writes_def split: ex_kind.splits)
qed

section \<open>Preparing a program\<close>

lemma take_bridges:
  assumes ex: "\<And>s fd. dev s = Bridge (Some fd) \<Longrightarrow> ex s = (Some fd, clr s)" and "distinct (map fst kps)"
    and "\<And>j p. (j, p) \<in> set kps \<Longrightarrow> p = j \<and> (\<exists>s fd. um_find j (g_streams g) = Some s \<and> dev s = Bridge (Some fd))"
  shows "\<exists>g' B' oss'. fold_r (take_bridge ex) kps (g, B, oss) = Inr (g', B', oss') \<and>
    g'\<lparr>g_streams := g_streams g\<rparr> = g \<and> um_keys (g_streams g') = um_keys (g_streams g) \<and>
    (\<forall>j. um_find j (g_streams g') = map_option (\<lambda>s. if j \<in> fst ` set kps then clr s else s)
       (um_find j (g_streams g)))"
  using assms(2-)
proof (induction kps arbitrary: g B oss)
  case Nil
  then show ?case by (simp add: option.map_ident)
next
  case (Cons kp kps)
  obtain j where kp: "kp = (j, j)" using Cons.prems(2)[of "fst kp" "snd kp"] by (cases kp) simp
  obtain s fd where s: "um_find j (g_streams g) = Some s" "dev s = Bridge (Some fd)"
    using Cons.prems(2)[of j j] by (auto simp: kp)
  define g1 where "g1 = g\<lparr>g_streams := um_assign j (clr s) (g_streams g)\<rparr>"
  have step: "take_bridge ex kp (g, B, oss) = Inr (g1, B @ [fd], oss @ bridge_text j s fd)"
    using s by (simp add: take_bridge_def deref_stream_def kp ex[OF s(2)] g1_def)
  have fresh: "j \<notin> fst ` set kps" using Cons.prems(1) by (simp add: kp)
  have "p = i \<and> (\<exists>s fd. um_find i (g_streams g1) = Some s \<and> dev s = Bridge (Some fd))" if "(i, p) \<in> set kps" for i p
  proof -
    have "i \<noteq> j" using that fresh by force
    then show ?thesis using Cons.prems(2)[of i p] that by (simp add: g1_def dict_simps)
  qed
  with Cons.IH[of g1 "B @ [fd]" "oss @ bridge_text j s fd"] Cons.prems(1) obtain g' B' oss' where
    "fold_r (take_bridge ex) kps (g1, B @ [fd], oss @ bridge_text j s fd) = Inr (g', B', oss')"
    "g'\<lparr>g_streams := g_streams g1\<rparr> = g1" "um_keys (g_streams g') = um_keys (g_streams g1)"
    "\<And>j. um_find j (g_streams g') = map_option (\<lambda>s. if j \<in> fst ` set kps then clr s else s)
       (um_find j (g_streams g1))" by auto
  moreover from this(2) have "g'\<lparr>g_streams := g_streams g\<rparr> = g"
    by (cases g; cases g') (simp add: g1_def)
  ultimately show ?case
    using step fresh s(1) by (simp add: g1_def um_keys_assign_present kp dict_simps)
qed


lemma prespawn_ok:
  assumes g: "graph_ok g" and w: "um_find v (g_vertices g) = Some w" "vertex_has_program w"
    and b: "\<And>j s. um_find j (g_streams g) = Some s \<Longrightarrow>
      (gs_head s = Some v \<longrightarrow> (\<exists>fd. gs_reader s = Bridge (Some fd))) \<and>
      (gs_tail s = Some v \<longrightarrow> (\<exists>fd. gs_writer s = Bridge (Some fd)))"
  shows "\<exists>p g' r. prespawn envp v g = Inr (p, g') \<and> pg_vertex p = v \<and>
    g_vertices g' = um_assign v (w\<lparr>gv_runtime := r\<rparr>) (g_vertices g) \<and>
    um_keys (g_streams g') = um_keys (g_streams g) \<and>
    (\<forall>j. um_find j (g_streams g') = map_option (\<lambda>s. s\<lparr>
        gs_reader := (if gs_head s = Some v then Bridge None else gs_reader s),
        gs_writer := (if gs_tail s = Some v then Bridge None else gs_writer s)\<rparr>) (um_find j (g_streams g)))"
proof -
  have l: "um_find j (gv_ostreams w) = (if \<exists>s. um_find j (g_streams g) = Some s \<and> gs_tail s = Some v then Some j else None)"
      "um_find j (gv_istreams w) = (if \<exists>s. um_find j (g_streams g) = Some s \<and> gs_head s = Some v then Some j else None)" for j
    using g w(1) unfolding graph_ok_def linked_def by blast+
  have t: "gv_key w = v" "distinct (map fst (gv_istreams w))" "distinct (map fst (gv_ostreams w))"
    using g w(1) by (auto simp: graph_ok_def graph_tidy_def um_wf_def um_keys_def)
  have ii: "p = j \<and> (\<exists>s. um_find j (g_streams g) = Some s \<and> gs_head s = Some v)" if "(j, p) \<in> set (gv_istreams w)" for j p
    using l(2)[of j] t(2) that by (auto simp: um_find_def split: if_splits)
  have oo: "p = j \<and> (\<exists>s. um_find j (g_streams g) = Some s \<and> gs_tail s = Some v)" if "(j, p) \<in> set (gv_ostreams w)" for j p
    using l(1)[of j] t(3) that by (auto simp: um_find_def split: if_splits)
  have ki: "j \<in> fst ` set (gv_istreams w) \<longleftrightarrow> (\<exists>s. um_find j (g_streams g) = Some s \<and> gs_head s = Some v)" for j
    using l(2)[of j] um_find_None_keys[of j "gv_istreams w"] by (auto simp: um_keys_def split: if_splits)
  have ko: "j \<in> fst ` set (gv_ostreams w) \<longleftrightarrow> (\<exists>s. um_find j (g_streams g) = Some s \<and> gs_tail s = Some v)" for j
    using l(1)[of j] um_find_None_keys[of j "gv_ostreams w"] by (auto simp: um_keys_def split: if_splits)
  obtain g1 B1 o1 where g1: "fold_r (take_bridge extract_ibridge) (gv_istreams w) (g, [], []) = Inr (g1, B1, o1)"
      "g1\<lparr>g_streams := g_streams g\<rparr> = g" "um_keys (g_streams g1) = um_keys (g_streams g)"
      "\<And>j. um_find j (g_streams g1) = map_option (\<lambda>s. if j \<in> fst ` set (gv_istreams w) then s\<lparr>gs_reader := Bridge None\<rparr> else s)
         (um_find j (g_streams g))"
    using take_bridges[of gs_reader extract_ibridge "\<lambda>s. s\<lparr>gs_reader := Bridge None\<rparr>" "gv_istreams w" g "[]" "[]"]
      t(2) ii b by (fastforce simp: extract_ibridge_def)
  have b1: "p = j \<and> (\<exists>s fd. um_find j (g_streams g1) = Some s \<and> gs_writer s = Bridge (Some fd))"
    if jp: "(j, p) \<in> set (gv_ostreams w)" for j p
  proof -
    obtain s fd where s: "p = j" "um_find j (g_streams g) = Some s" "gs_writer s = Bridge (Some fd)"
      using oo[OF jp] b[of j] by blast
    define s' where "s' = (if j \<in> fst ` set (gv_istreams w) then s\<lparr>gs_reader := Bridge None\<rparr> else s)"
    have "um_find j (g_streams g1) = Some s'" "gs_writer s' = Bridge (Some fd)"
      using s by (simp_all add: g1(4) s'_def)
    with s(1) show ?thesis by blast
  qed
  obtain g2 B2 o2 where g2: "fold_r (take_bridge extract_obridge) (gv_ostreams w) (g1, B1, o1) = Inr (g2, B2, o2)"
      "g2\<lparr>g_streams := g_streams g1\<rparr> = g1" "um_keys (g_streams g2) = um_keys (g_streams g1)"
      "\<And>j. um_find j (g_streams g2) = map_option (\<lambda>s. if j \<in> fst ` set (gv_ostreams w) then s\<lparr>gs_writer := Bridge None\<rparr> else s)
         (um_find j (g_streams g1))"
    using take_bridges[of gs_writer extract_obridge "\<lambda>s. s\<lparr>gs_writer := Bridge None\<rparr>" "gv_ostreams w" g1 B1 o1]
      t(3) b1 by (fastforce simp: extract_obridge_def)
  have gv: "g_vertices g2 = g_vertices g" using g1(2) g2(2) by (cases g; cases g1; cases g2) simp
  have st: "um_find j (g_streams g2) = map_option (\<lambda>s. s\<lparr>
        gs_reader := (if gs_head s = Some v then Bridge None else gs_reader s),
        gs_writer := (if gs_tail s = Some v then Bridge None else gs_writer s)\<rparr>) (um_find j (g_streams g))" for j
    unfolding g2(4) g1(4) ki ko by (cases "um_find j (g_streams g)") auto
  have "rt_program (gv_runtime w) \<noteq> []" using w(2) by (simp add: vertex_has_program_def)
  then show ?thesis
    using w(1) g1(1,3) g2(1,3) gv st t(1) by (simp add: prespawn_def um_at_eq Let_def) blast
qed

section \<open>The steps keep the invariant\<close>

lemma ex_inv_promise:
  assumes ok: "ex_inv x" and c: "\<And>p. c = Do_spawn p \<Longrightarrow> um_find (pg_vertex p) (ex_vertices x) \<noteq> None"
  shows "ex_inv (ex_promise i c x)"
proof -
  note inv = ex_invD[OF ok]
  have "ev_ok (ex_promise i c x) j d" if "um_find j (ex_events x) = Some d" for j d
    by (rule ev_ok_frame[OF inv(3)[OF that]]) (simp_all add: ex_promise_def)
  then show ?thesis
    using inv c by (intro ex_invI) (auto simp: ex_promise_def ex_ids_def)
qed

lemma ex_inv_fewer:
  assumes ok: "ex_inv x" and g: "ex_graph y = ex_graph x" "ex_dead y = ex_dead x" "ex_next y = ex_next x"
    and e: "um_wf (ex_events y)" "\<And>i c. um_find i (ex_events y) = Some c \<Longrightarrow> um_find i (ex_events x) = Some c"
    and q: "set (ex_queue y) \<subseteq> set (ex_queue x)"
    and r: "\<And>i. (i, Do_remove i) \<in> set (ex_queue x) \<Longrightarrow> um_find i (ex_events y) \<noteq> None \<Longrightarrow> (i, Do_remove i) \<in> set (ex_queue y)"
  shows "ex_inv y"
proof (rule ex_invI)
  note inv = ex_invD[OF ok]
  show "graph_ok (ex_graph y)" using inv(1) g by simp
  have "set (um_keys (ex_events y)) \<subseteq> set (um_keys (ex_events x))"
    using e(2) um_find_Some_keys by (metis subsetI)
  then show "ex_ids y" using inv(2) e(1) g(3) by (auto simp: ex_ids_def)
  show "ev_ok y i c" if "um_find i (ex_events y) = Some c" for i c
    by (rule ev_ok_frame[OF inv(3)[OF e(2)[OF that]] g(1)]) (use r that in simp)
  show "i = j" if "um_find i (ex_events y) = Some (Ev_start v)" "um_find j (ex_events y) = Some (Ev_start v)" for i j v
    using inv(4)[OF e(2) e(2)] that by blast
  show "um_find (pg_vertex p) (ex_vertices y) \<noteq> None" if "(k, Do_spawn p) \<in> set (ex_queue y)" for k p
    using inv(5) that q g(1) by auto
  show "\<exists>c. e = Exit c" if "ex_dead y = Some e" for e using inv(6) that g(2) by simp
qed

lemma ex_remove_frame [simp]:
  "ex_graph (ex_remove p x) = ex_graph x" "ex_dead (ex_remove p x) = ex_dead x" "ex_next (ex_remove p x) = ex_next x"
  "ex_queue (ex_remove p x) = ex_queue x" "ex_threshold (ex_remove p x) = ex_threshold x" "ex_break (ex_remove p x) = ex_break x"
  by (simp_all add: ex_remove_def split: option.splits)

lemma ex_remove_on_flush_frame [simp]:
  "ex_graph (ex_remove_on_flush p x) = ex_graph x" "ex_dead (ex_remove_on_flush p x) = ex_dead x"
  "ex_next (ex_remove_on_flush p x) = ex_next x" "ex_queue (ex_remove_on_flush p x) = ex_queue x"
  "ex_threshold (ex_remove_on_flush p x) = ex_threshold x" "ex_events (ex_remove_on_flush p x) = ex_events x"
  "ex_break (ex_remove_on_flush p x) = ex_break x"
  by (simp_all add: ex_remove_on_flush_def split: option.splits)

lemma ex_events_remove: "ex_events (ex_remove p x) = (case p of None \<Rightarrow> ex_events x | Some i \<Rightarrow> um_erase i (ex_events x))"
  by (simp add: ex_remove_def split: option.splits)

lemma ex_events_remove_find:
  "um_find i (ex_events (ex_remove p x)) = (if p = Some i then None else um_find i (ex_events x))"
  by (auto simp: ex_events_remove dict_simps split: option.splits)

lemma ex_inv_remove: "ex_inv x \<Longrightarrow> ex_inv (ex_remove p x)"
  by (rule ex_inv_fewer)
    (auto simp: ex_events_remove_find split: if_splits, auto simp: ex_events_remove ex_inv_def ex_ids_def split: option.splits)

lemma ex_inv_remove_on_flush: "ex_inv x \<Longrightarrow> ex_inv (ex_remove_on_flush p x)"
  by (rule ex_inv_fewer) (auto simp: ex_inv_def ex_ids_def)

text \<open>What a step leaves as it is, and how much there is to do: events and programs to spawn.\<close>

definition is_channel :: "ex_kind \<Rightarrow> bool" where
  "is_channel c = (case c of
       Ev_agent_in \<Rightarrow> True | Ev_agent_out \<Rightarrow> True | Ev_master_in \<Rightarrow> True | Ev_master_out \<Rightarrow> True
     | Ev_stdout_listener \<Rightarrow> True | Ev_stderr_listener \<Rightarrow> True | _ \<Rightarrow> False)"

definition ex_weight :: "ex_kind \<Rightarrow> nat" where
  "ex_weight c = (case c of Ev_start _ \<Rightarrow> 5 | Ev_program _ _ \<Rightarrow> 2 | _ \<Rightarrow> if is_channel c then 0 else 1)"

definition closure_weight :: "ex_closure \<Rightarrow> nat" where
  "closure_weight c = (case c of Do_spawn _ \<Rightarrow> 3 | _ \<Rightarrow> 0)"

definition ex_measure :: "exec \<Rightarrow> nat" where
  "ex_measure x = sum_list (map (\<lambda>e. ex_weight (snd e)) (ex_events x)) + sum_list (map (\<lambda>e. closure_weight (snd e)) (ex_queue x))"

definition channels :: "exec \<Rightarrow> nat" where
  "channels x = length (filter (is_channel \<circ> snd) (ex_events x))"

definition uncritical :: "exec \<Rightarrow> bool" where
  "uncritical x \<longleftrightarrow> (\<forall>k s. um_find k (ex_streams x) = Some s \<longrightarrow> \<not> gs_critical s)"

definition ex_stays :: "exec \<Rightarrow> exec \<Rightarrow> bool" where
  "ex_stays x y \<longleftrightarrow> ex_threshold y = ex_threshold x \<and> channels y \<le> channels x \<and> (uncritical x \<longrightarrow> uncritical y)"

lemma ex_stays_trans: "ex_stays x y \<Longrightarrow> ex_stays y z \<Longrightarrow> ex_stays x z"
  by (auto simp: ex_stays_def)

lemma ex_stays_refl [simp]: "ex_stays x x"
  by (simp add: ex_stays_def)

lemma sum_list_erase:
  assumes "um_wf m" "um_find i m = Some c"
  shows "sum_list (map (\<lambda>e. f (snd e)) (um_erase i m)) + f c = sum_list (map (\<lambda>e. f (snd e)) m :: nat list)"
  using assms
proof (induction m)
  case Nil
  then show ?case by simp
next
  case (Cons e m)
  obtain j d where e: "e = (j, d)" by (cases e)
  show ?case
  proof (cases "i = j")
    case True
    then have "um_find i m = None" using Cons.prems(1) e by (simp add: um_find_None_keys um_wf_def)
    then have "um_erase i m = m" by (rule um_erase_fresh)
    then show ?thesis using True Cons.prems e by (simp add: um_erase_def)
  next
    case False
    then have "sum_list (map (\<lambda>e. f (snd e)) (um_erase i m)) + f c = sum_list (map (\<lambda>e. f (snd e)) m)"
      using Cons.prems e by (intro Cons.IH) (auto simp: um_wf_def)
    then show ?thesis using False e by (simp add: um_erase_def)
  qed
qed

lemma sum_list_assign:
  assumes "um_wf m" "um_find i m = Some c"
  shows "sum_list (map (\<lambda>e. f (snd e)) (um_assign i d m)) + f c = sum_list (map (\<lambda>e. f (snd e)) m :: nat list) + f d"
  using assms
proof (induction m)
  case Nil
  then show ?case by simp
next
  case (Cons e m)
  obtain j b where e: "e = (j, b)" by (cases e)
  show ?case
  proof (cases "i = j")
    case True
    then show ?thesis using Cons.prems e by (simp add: um_assign_def)
  next
    case False
    then have "sum_list (map (\<lambda>e. f (snd e)) (um_assign i d m)) + f c = sum_list (map (\<lambda>e. f (snd e)) m) + f d"
      using Cons.prems e by (intro Cons.IH) (auto simp: um_wf_def)
    then show ?thesis using False e by (simp add: um_assign_def)
  qed
qed

lemma sum_list_erase_le: "sum_list (map (\<lambda>e. f (snd e)) (um_erase i m)) \<le> sum_list (map (\<lambda>e. f (snd e)) m :: nat list)"
  by (induction m) (auto simp: um_erase_def)

lemma length_filter_sum: "length (filter P xs) = sum_list (map (\<lambda>x. if P x then 1 else 0) xs)"
  by (induction xs) auto

lemma channels_sum: "channels x = sum_list (map (\<lambda>e. if is_channel (snd e) then 1 else 0) (ex_events x))"
  by (simp add: channels_def length_filter_sum)

text \<open>Starting a vertex.\<close>

definition bridged :: "graph \<Rightarrow> key_type \<Rightarrow> bool" where
  "bridged g v \<longleftrightarrow> (\<forall>j s. um_find j (g_streams g) = Some s \<longrightarrow>
      (gs_head s = Some v \<longrightarrow> (\<exists>fd. gs_reader s = Bridge (Some fd))) \<and>
      (gs_tail s = Some v \<longrightarrow> (\<exists>fd. gs_writer s = Bridge (Some fd))))"

lemma can_start_bridged: "can_start x v \<longleftrightarrow>
    (\<exists>w. um_find v (ex_vertices x) = Some w \<and> (vertex_has_program w \<longrightarrow> bridged (ex_graph x) v))"
  unfolding can_start_def bridged_def ..

lemma bridgedD:
  assumes "bridged g v" "um_find j (g_streams g) = Some s"
  shows "gs_reader s = Weak_event p \<Longrightarrow> gs_head s \<noteq> Some v" "gs_writer s = Weak_event p \<Longrightarrow> gs_tail s \<noteq> Some v"
  using assms unfolding bridged_def by (metis endpoint.distinct(1))+

definition unbridge :: "key_type \<Rightarrow> gstream \<Rightarrow> gstream" where
  "unbridge v s = s\<lparr>gs_reader := (if gs_head s = Some v then Bridge None else gs_reader s),
        gs_writer := (if gs_tail s = Some v then Bridge None else gs_writer s)\<rparr>"

lemma unbridge_ends [simp]:
  "gs_head (unbridge v s) = gs_head s" "gs_tail (unbridge v s) = gs_tail s" "gs_critical (unbridge v s) = gs_critical s"
  "gs_reader (unbridge v s) = (if gs_head s = Some v then Bridge None else gs_reader s)"
  "gs_writer (unbridge v s) = (if gs_tail s = Some v then Bridge None else gs_writer s)"
  by (simp_all add: unbridge_def)

lemma prespawn_ev_ok:
  assumes b: "bridged (ex_graph x) v"
    and st: "\<And>j. um_find j (ex_streams y) = map_option (unbridge v) (um_find j (ex_streams x))"
    and ve: "\<And>u. u \<noteq> v \<Longrightarrow> um_find u (ex_vertices y) = um_find u (ex_vertices x)"
    and e: "ev_ok x i c" "c \<noteq> Ev_start v"
    and q: "(i, Do_remove i) \<in> set (ex_queue x) \<Longrightarrow> (i, Do_remove i) \<in> set (ex_queue y)"
  shows "ev_ok y i c"
proof -
  have r: "ev_reads y i k c" if er: "ev_reads x i k c" for k
  proof -
    from er obtain fd s where s: "um_find k (ex_streams x) = Some s" "gs_reader s = Weak_event (Some i)"
        "c = Ev_reader k fd \<and> gs_head s \<noteq> None \<or> c = Ev_watch k fd \<and> gs_head s = None \<and> gs_tail s \<noteq> None"
      unfolding ev_reads_def by blast
    have "gs_head s \<noteq> Some v" by (rule bridgedD(1)[OF b s(1,2)])
    then have "um_find k (ex_streams y) = Some (unbridge v s)" "gs_reader (unbridge v s) = Weak_event (Some i)"
      using s(1,2) by (simp_all add: st)
    then show ?thesis using s(3) unfolding ev_reads_def by fastforce
  qed
  have w: "ev_writes y i k c" if ew: "ev_writes x i k c" for k
  proof -
    from ew obtain fd s where s: "um_find k (ex_streams x) = Some s" "gs_writer s = Weak_event (Some i)"
        "c = Ev_writer k fd" "gs_tail s \<noteq> None"
      unfolding ev_writes_def by blast
    have "gs_tail s \<noteq> Some v" by (rule bridgedD(2)[OF b s(1,2)])
    then have "um_find k (ex_streams y) = Some (unbridge v s)" "gs_writer (unbridge v s) = Weak_event (Some i)"
      using s(1,2) by (simp_all add: st)
    then show ?thesis using s(3,4) unfolding ev_writes_def by fastforce
  qed
  have cs: "can_start y u" if cu: "c = Ev_start u" "can_start x u" for u
  proof -
    have "u \<noteq> v" using e(2) cu(1) by simp
    obtain w where w: "um_find u (ex_vertices x) = Some w" "vertex_has_program w \<Longrightarrow> bridged (ex_graph x) u"
      using cu(2) by (auto simp: can_start_bridged)
    have "bridged (ex_graph y) u" if "bridged (ex_graph x) u"
      unfolding bridged_def
    proof (intro allI impI)
      fix j s' assume "um_find j (ex_streams y) = Some s'"
      then obtain s where s: "um_find j (ex_streams x) = Some s" "s' = unbridge v s" by (auto simp: st)
      with that \<open>u \<noteq> v\<close> show "(gs_head s' = Some u \<longrightarrow> (\<exists>fd. gs_reader s' = Bridge (Some fd))) \<and>
          (gs_tail s' = Some u \<longrightarrow> (\<exists>fd. gs_writer s' = Bridge (Some fd)))"
        by (auto simp: bridged_def)
    qed
    with w ve[OF \<open>u \<noteq> v\<close>] show ?thesis by (simp add: can_start_bridged)
  qed
  show ?thesis using e(1) r w cs q by (auto simp: ev_ok_def split: ex_kind.splits)
qed

lemma ex_start_ok:
  assumes ok: "ex_inv x" and i: "um_find i (ex_events x) = Some (Ev_start v)"
  shows "\<exists>y. ex_start envp i v x = Inr y \<and> ex_inv y \<and> ex_stays x y \<and> ex_measure y < ex_measure x \<and> ex_dead y = ex_dead x"
proof -
  note inv = ex_invD[OF ok]
  have cs: "can_start x v" using inv(3)[OF i] by (simp add: ev_ok_def)
  then obtain w where w: "um_find v (ex_vertices x) = Some w" "vertex_has_program w \<Longrightarrow> bridged (ex_graph x) v"
    unfolding can_start_def bridged_def by blast
  define x1 where "x1 = x\<lparr>ex_events := um_assign i (Ev_started v) (ex_events x)\<rparr>"
  obtain g1 where g1: "ex_invoke (Some v) x1 = Inr (x1\<lparr>ex_graph := g1\<rparr>)" "same_shape (ex_graph x) g1"
    using ex_invoke_ok[OF refl, of v x1 w] w(1) by (auto simp: x1_def)
  obtain w1 where w1: "um_find v (g_vertices g1) = Some w1"
    using same_shape_None[OF g1(2), of v] w(1) by (cases "um_find v (g_vertices g1)") auto
  have run: "gv_runtime w1 = gv_runtime w" using w1 w(1) by (elim same_shape_find[OF g1(2)]) simp
  have ok1: "graph_ok g1" by (rule same_links_ok[OF same_shape_links[OF g1(2)] inv(1)])
  have st1: "g_streams g1 = ex_streams x" using g1(2) by (simp add: same_shape_def)
  have ids: "um_wf (um_assign i (Ev_started v) (ex_events x))"
      "\<forall>j \<in> set (um_keys (um_assign i (Ev_started v) (ex_events x))). j < ex_next x"
    using inv(2) um_find_Some_keys[of i "ex_events x"] i by (auto simp: ex_ids_def)
  have meas: "sum_list (map (\<lambda>e. ex_weight (snd e)) (um_assign i (Ev_started v) (ex_events x))) + 5 =
      sum_list (map (\<lambda>e. ex_weight (snd e)) (ex_events x)) + 1"
    using sum_list_assign[of "ex_events x" i "Ev_start v" ex_weight "Ev_started v"] i inv(2)
    by (simp add: ex_ids_def ex_weight_def is_channel_def)
  have chan: "sum_list (map (\<lambda>e. if is_channel (snd e) then 1 else 0) (um_assign i (Ev_started v) (ex_events x))) =
      sum_list (map (\<lambda>e. if is_channel (snd e) then 1 else 0 :: nat) (ex_events x))"
    using sum_list_assign[of "ex_events x" i "Ev_start v" "\<lambda>c. if is_channel c then 1 else 0" "Ev_started v"] i inv(2)
    by (simp add: ex_ids_def is_channel_def)
  have crit1: "uncritical x \<Longrightarrow> \<forall>k s. um_find k (g_streams g1) = Some s \<longrightarrow> \<not> gs_critical s"
    by (simp add: uncritical_def st1)
  show ?thesis
  proof (cases "vertex_has_program w")
    case False
    define y where "y = ex_promise i (Do_remove i) (x1\<lparr>ex_graph := g1\<rparr>)"
    have "ex_start envp i v x = Inr y"
      using g1(1) w1 run False by (simp add: ex_start_def x1_def[symmetric] um_at_eq y_def vertex_has_program_def)
    moreover have "ex_inv y"
    proof (rule ex_invI)
      show "ev_ok y j c" if "um_find j (ex_events y) = Some c" for j c
        using that inv(3)[of j c] same_shape_ev_ok[of x y j c] g1(2)
        by (auto simp: y_def ex_promise_def x1_def dict_simps ev_ok_def split: if_splits)
      show "j = k" if "um_find j (ex_events y) = Some (Ev_start u)" "um_find k (ex_events y) = Some (Ev_start u)" for j k u
        using that inv(4)[of j u k] by (auto simp: y_def ex_promise_def x1_def dict_simps split: if_splits)
      show "um_find (pg_vertex p) (ex_vertices y) \<noteq> None" if "(k, Do_spawn p) \<in> set (ex_queue y)" for k p
        using that inv(5)[of k p] same_shape_None[OF g1(2)] by (auto simp: y_def ex_promise_def x1_def)
    qed (use ok1 ids inv(6) in \<open>simp_all add: y_def ex_promise_def x1_def ex_ids_def\<close>)
    moreover have "ex_stays x y"
      using chan crit1 by (simp add: ex_stays_def y_def ex_promise_def x1_def channels_sum uncritical_def)
    moreover have "ex_measure y < ex_measure x"
      using meas by (simp add: ex_measure_def y_def ex_promise_def x1_def closure_weight_def)
    ultimately show ?thesis by (auto simp: y_def ex_promise_def x1_def)
  next
    case True
    have b: "bridged g1 v" using w(2)[OF True] by (simp add: bridged_def st1)
    have "vertex_has_program w1" using True run by (simp add: vertex_has_program_def)
    then obtain p g2 r where p: "prespawn envp v g1 = Inr (p, g2)" "pg_vertex p = v"
        "g_vertices g2 = um_assign v (w1\<lparr>gv_runtime := r\<rparr>) (g_vertices g1)" "um_keys (g_streams g2) = um_keys (g_streams g1)"
        "\<And>j. um_find j (g_streams g2) = map_option (unbridge v) (um_find j (g_streams g1))"
      using prespawn_ok[OF ok1 w1, where envp = envp] b unfolding bridged_def unbridge_def[abs_def] by blast
    define y where "y = ex_promise i (Do_remove i) (ex_promise i (Do_spawn p) (x1\<lparr>ex_graph := g2\<rparr>))"
    have "ex_start envp i v x = Inr y"
      using g1(1) w1 run True p(1) by (simp add: ex_start_def x1_def[symmetric] um_at_eq y_def vertex_has_program_def)
    moreover have "ex_inv y"
    proof (rule ex_invI)
      have "same_links g1 g2"
        unfolding same_links_def p(3) using p(4) w1
        by (simp add: um_keys_assign_present p(5) option.map_comp comp_def dict_simps)
      then show "graph_ok (ex_graph y)" using same_links_ok[OF _ ok1] by (simp add: y_def ex_promise_def x1_def)
      show "ev_ok y j c" if j: "um_find j (ex_events y) = Some c" for j c
      proof (cases "j = i")
        case True
        then show ?thesis using j by (auto simp: y_def ex_promise_def x1_def dict_simps ev_ok_def)
      next
        case False
        then have c: "um_find j (ex_events x) = Some c" "c \<noteq> Ev_start v"
          using j inv(4)[OF i, of j] by (auto simp: y_def ex_promise_def x1_def dict_simps)
        have "ev_ok (x\<lparr>ex_graph := g1\<rparr>) j c" using same_shape_ev_ok[OF _ inv(3)[OF c(1)]] g1(2) by simp
        then show ?thesis
          by (rule prespawn_ev_ok[where v = v, rotated 3])
            (use b p(3,5) c(2) in \<open>simp_all add: y_def ex_promise_def x1_def dict_simps\<close>)
      qed
      show "j = k" if "um_find j (ex_events y) = Some (Ev_start u)" "um_find k (ex_events y) = Some (Ev_start u)" for j k u
        using that inv(4)[of j u k] by (auto simp: y_def ex_promise_def x1_def dict_simps split: if_splits)
      show "um_find (pg_vertex q) (ex_vertices y) \<noteq> None" if "(k, Do_spawn q) \<in> set (ex_queue y)" for k q
        using that inv(5)[of k q] same_shape_None[OF g1(2), of "pg_vertex q"] p(2)
        by (auto simp: y_def ex_promise_def x1_def p(3) dict_simps simp del: not_None_eq not_Some_eq)
    qed (use ids inv(6) in \<open>simp_all add: y_def ex_promise_def x1_def ex_ids_def\<close>)
    moreover have "ex_stays x y"
      using chan crit1
      by (auto simp: ex_stays_def y_def ex_promise_def x1_def channels_sum uncritical_def p(5))
    moreover have "ex_measure y < ex_measure x"
      using meas by (simp add: ex_measure_def y_def ex_promise_def x1_def closure_weight_def)
    ultimately show ?thesis by (auto simp: y_def ex_promise_def x1_def)
  qed
qed

text \<open>The callbacks of streams.\<close>

lemma ex_inv_same_shape:
  assumes ok: "ex_inv x" and g: "same_shape (ex_graph x) g"
  shows "ex_inv (x\<lparr>ex_graph := g\<rparr>)"
proof (rule ex_invI)
  note inv = ex_invD[OF ok]
  show "graph_ok (ex_graph (x\<lparr>ex_graph := g\<rparr>))" using same_links_ok[OF same_shape_links[OF g] inv(1)] by simp
  show "ev_ok (x\<lparr>ex_graph := g\<rparr>) i c" if "um_find i (ex_events (x\<lparr>ex_graph := g\<rparr>)) = Some c" for i c
    using same_shape_ev_ok[of x "x\<lparr>ex_graph := g\<rparr>" i c] g inv(3)[of i c] that by simp
  show "um_find (pg_vertex p) (ex_vertices (x\<lparr>ex_graph := g\<rparr>)) \<noteq> None"
    if "(q, Do_spawn p) \<in> set (ex_queue (x\<lparr>ex_graph := g\<rparr>))" for q p
    using inv(5)[of q p] that same_shape_None[OF g, of "pg_vertex p"] by simp
qed (use ex_invD[OF ok] in \<open>auto simp: ex_ids_def\<close>)

text \<open>What most steps do to the quantities: nothing is added.\<close>

definition ex_calm :: "exec \<Rightarrow> exec \<Rightarrow> bool" where
  "ex_calm x y \<longleftrightarrow> ex_inv y \<and> ex_stays x y \<and> ex_measure y \<le> ex_measure x \<and> ex_dead y = ex_dead x"

lemma ex_calm_trans: "ex_calm x y \<Longrightarrow> ex_calm y z \<Longrightarrow> ex_calm x z"
  unfolding ex_calm_def using ex_stays_trans by fastforce

lemma ex_calm_promise:
  assumes "ex_inv x" "\<And>p. c \<noteq> Do_spawn p"
  shows "ex_calm x (ex_promise i c x)"
proof -
  have "closure_weight c = 0" using assms(2) by (auto simp: closure_weight_def split: ex_closure.splits)
  moreover have "ex_inv (ex_promise i c x)" using ex_inv_promise[OF assms(1)] assms(2) by blast
  ultimately show ?thesis
    by (simp add: ex_calm_def) (simp add: ex_promise_def ex_stays_def channels_def uncritical_def ex_measure_def)
qed

lemma ex_invoke_calm:
  assumes ok: "ex_inv x" and p: "p = Some v" "um_find v (ex_vertices x) \<noteq> None"
  shows "\<exists>y. ex_invoke p x = Inr y \<and> ex_calm x y"
proof -
  obtain w where "um_find v (ex_vertices x) = Some w" using p(2) by auto
  from ex_invoke_ok[OF p(1) this] obtain g where g: "ex_invoke p x = Inr (x\<lparr>ex_graph := g\<rparr>)" "same_shape (ex_graph x) g"
    by blast
  have "ex_streams (x\<lparr>ex_graph := g\<rparr>) = ex_streams x" using g(2) by (simp add: same_shape_def)
  then have "ex_calm x (x\<lparr>ex_graph := g\<rparr>)"
    using ex_inv_same_shape[OF ok g(2)]
    by (simp add: ex_calm_def ex_stays_def channels_def uncritical_def ex_measure_def)
  with g(1) show ?thesis by blast
qed

lemma graph_ok_end:
  assumes "graph_ok g" "um_find k (g_streams g) = Some s" "gs_head s = Some v \<or> gs_tail s = Some v"
  shows "um_find v (g_vertices g) \<noteq> None"
  using assms unfolding graph_ok_def graph_ready_def by blast

lemma ex_read_calm:
  assumes ok: "ex_inv x" and i: "um_find i (ex_events x) = Some (Ev_reader k fd)"
  shows "\<exists>y. ex_read sig i k x = Inr y \<and> ex_calm x y"
proof -
  note inv = ex_invD[OF ok]
  obtain s v where s: "um_find k (ex_streams x) = Some s" "gs_head s = Some v"
    using inv(3)[OF i] by (auto simp: ev_ok_def ev_reads_def)
  obtain y where y: "ex_invoke (gs_head s) x = Inr y" "ex_calm x y"
    using ex_invoke_calm[OF ok s(2) graph_ok_end[OF inv(1) s(1) disjI1[OF s(2)]]] by blast
  have "ex_calm x (if sig then ex_promise i (Do_remove_istream k) y else y)"
    using ex_calm_trans[OF y(2) ex_calm_promise] y(2) by (simp add: ex_calm_def)
  moreover have "ex_calm x x" using ok by (simp add: ex_calm_def)
  ultimately show ?thesis
    using s y(1) by (cases "gs_on_istream s") (simp_all add: ex_read_def um_at_eq)
qed

lemma ex_written_calm:
  assumes ok: "ex_inv x" and i: "um_find i (ex_events x) = Some (Ev_writer k fd)"
  shows "\<exists>y. ex_written sig i k x = Inr y \<and> ex_calm x y"
proof -
  note inv = ex_invD[OF ok]
  obtain s v where s: "um_find k (ex_streams x) = Some s" "gs_tail s = Some v"
    using inv(3)[OF i] by (auto simp: ev_ok_def ev_writes_def)
  obtain y where y: "ex_invoke (gs_tail s) x = Inr y" "ex_calm x y"
    using ex_invoke_calm[OF ok s(2) graph_ok_end[OF inv(1) s(1) disjI2[OF s(2)]]] by blast
  have "ex_calm x (if sig then ex_promise i (Do_remove_ostream k) y else y)"
    using ex_calm_trans[OF y(2) ex_calm_promise] y(2) by (simp add: ex_calm_def)
  moreover have "ex_calm x x" using ok by (simp add: ex_calm_def)
  ultimately show ?thesis
    using s y(1) by (cases "gs_on_ostream s") (simp_all add: ex_written_def um_at_eq)
qed

text \<open>Removals.\<close>

lemma ex_calm_fewer:
  assumes ok: "ex_inv x" and g: "ex_graph y = ex_graph x" "ex_dead y = ex_dead x" "ex_next y = ex_next x"
      "ex_threshold y = ex_threshold x"
    and e: "\<exists>P. ex_events y = filter P (ex_events x)" and q: "ex_queue x = qs @ (p, c) # rs" "ex_queue y = qs @ rs"
    and c: "\<And>j. c = Do_remove j \<Longrightarrow> um_find j (ex_events y) = None"
  shows "ex_calm x y"
proof -
  obtain P where P: "ex_events y = filter P (ex_events x)" using e by blast
  have wf: "um_wf (ex_events x)" using ex_invD(2)[OF ok] by (simp add: ex_ids_def)
  then have wfy: "um_wf (ex_events y)" by (simp add: P um_wf_def um_keys_def distinct_map_filter)
  have "ex_inv y"
  proof (rule ex_inv_fewer[OF ok g(1-3) wfy])
    show "um_find i (ex_events x) = Some d" if "um_find i (ex_events y) = Some d" for i d
      using that wf wfy by (simp add: P flip: um_find_set)
    show "set (ex_queue y) \<subseteq> set (ex_queue x)" using q by auto
    show "(i, Do_remove i) \<in> set (ex_queue y)" if "(i, Do_remove i) \<in> set (ex_queue x)" "um_find i (ex_events y) \<noteq> None" for i
      using that q c by auto
  qed
  moreover have "sum_list (map f (filter P xs)) \<le> sum_list (map f xs :: nat list)" for f and xs :: "(nat \<times> ex_kind) list"
    by (induction xs) auto
  ultimately show ?thesis
    using g q by (simp add: ex_calm_def ex_stays_def channels_sum uncritical_def ex_measure_def P add_mono)
qed

lemma ex_inv_insert:
  assumes ok: "ex_inv x" and c: "\<And>y i. ev_ok y i c" and y: "ex_insert c x = (i, y)"
  shows "ex_inv y"
proof (rule ex_invI)
  note inv = ex_invD[OF ok]
  note yd = ex_insertD[OF inv(2) y]
  have y': "ex_queue y = ex_queue x" "ex_dead y = ex_dead x" using y by (auto simp: ex_insert_def)
  show "graph_ok (ex_graph y)" "ex_ids y" using inv(1) yd(1,7) by simp_all
  show "ev_ok y j d" if "um_find j (ex_events y) = Some d" for j d
    using yd(5)[OF that] c ev_ok_frame[OF inv(3) yd(7)] y'(1) by auto
  show "j = k" if "um_find j (ex_events y) = Some (Ev_start v)" "um_find k (ex_events y) = Some (Ev_start v)" for j k v
  proof -
    have "c \<noteq> Ev_start v"
      using c[of "x\<lparr>ex_graph := empty_graph\<rparr>" 0] by (auto simp: ev_ok_def can_start_def empty_graph_def)
    then show ?thesis using inv(4) yd(5)[OF that(1)] yd(5)[OF that(2)] by blast
  qed
  show "um_find (pg_vertex p) (ex_vertices y) \<noteq> None" if "(q, Do_spawn p) \<in> set (ex_queue y)" for q p
    using inv(5) that yd(7) y'(1) by simp
  show "\<exists>b. e = Exit b" if "ex_dead y = Some e" for e using inv(6) that y'(2) by simp
qed

lemma ex_remove_events: "\<exists>P. ex_events (ex_remove p x) = filter P (ex_events x)"
  by (cases p) (auto simp: ex_remove_def um_erase_def intro: exI[of _ "\<lambda>_. True"])

lemma ex_remove_remove_events: "\<exists>P. ex_events (ex_remove q (ex_remove p x)) = filter P (ex_events x)"
proof -
  obtain P where "ex_events (ex_remove p x) = filter P (ex_events x)" using ex_remove_events by blast
  moreover obtain Q where "ex_events (ex_remove q (ex_remove p x)) = filter Q (ex_events (ex_remove p x))"
    using ex_remove_events by blast
  ultimately show ?thesis by (auto simp: filter_filter)
qed

definition exits :: "exec result \<Rightarrow> bool" where
  "exits r = (case r of Inl (Exit _) \<Rightarrow> True | _ \<Rightarrow> False)"

lemma ex_run_ok:
  assumes ok: "ex_inv x" and q: "ex_queue x = qs @ (p, c) # rs"
  shows "exits (ex_run r c (x\<lparr>ex_queue := qs @ rs\<rparr>)) \<or>
    (\<exists>y. ex_run r c (x\<lparr>ex_queue := qs @ rs\<rparr>) = Inr y \<and> ex_calm x y \<and> ex_queue y = qs @ rs)"
proof -
  define u where "u = x\<lparr>ex_queue := qs @ rs\<rparr>"
  have u: "ex_graph u = ex_graph x" "ex_dead u = ex_dead x" "ex_next u = ex_next x" "ex_threshold u = ex_threshold x"
    "ex_events u = ex_events x" "ex_queue u = qs @ rs" by (simp_all add: u_def)
  have calm: "ex_calm x y" if "ex_graph y = ex_graph u" "ex_dead y = ex_dead u" "ex_next y = ex_next u"
      "ex_threshold y = ex_threshold u" "\<exists>P. ex_events y = filter P (ex_events u)" "ex_queue y = qs @ rs"
      "\<And>j. c = Do_remove j \<Longrightarrow> um_find j (ex_events y) = None" for y
    by (rule ex_calm_fewer[OF ok _ _ _ _ _ q]) (use that u in auto)
  have self: "\<exists>P. ex_events u = filter P (ex_events u)" by (rule exI[of _ "\<lambda>_. True"]) simp
  show ?thesis unfolding u_def[symmetric]
  proof (cases c)
    case (Do_remove_istream k)
    show "exits (ex_run r c u) \<or> (\<exists>y. ex_run r c u = Inr y \<and> ex_calm x y \<and> ex_queue y = qs @ rs)"
    proof (cases "um_find k (ex_streams u)")
      case None
      then show ?thesis
        using calm[of u] self u(6) Do_remove_istream by (simp add: ex_run_def ex_remove_istream_def)
    next
      case (Some s)
      show ?thesis
        using calm[of "ex_remove (stream_ostream s) (ex_remove (stream_istream s) u)"] calm[of "ex_remove (stream_istream s) u"]
          Some u(6) Do_remove_istream ex_remove_events[of "stream_istream s" u]
          ex_remove_remove_events[of "stream_ostream s" "stream_istream s" u]
        by (simp add: ex_run_def ex_remove_istream_def exits_def ex_exit_def)
    qed
  next
    case (Do_remove_ostream k)
    show "exits (ex_run r c u) \<or> (\<exists>y. ex_run r c u = Inr y \<and> ex_calm x y \<and> ex_queue y = qs @ rs)"
    proof (cases "um_find k (ex_streams u)")
      case None
      then show ?thesis
        using calm[of u] self u(6) Do_remove_ostream by (simp add: ex_run_def ex_remove_ostream_def)
    next
      case (Some s)
      show ?thesis
        using self calm[of "ex_remove_on_flush (stream_ostream s) (ex_remove (stream_istream s) u)"]
          calm[of "ex_remove_on_flush (stream_ostream s) u"]
          Some u(6) Do_remove_ostream ex_remove_events[of "stream_istream s" u]
        by (simp add: ex_run_def ex_remove_ostream_def exits_def ex_exit_def)
    qed
  next
    case (Do_remove j)
    show "exits (ex_run r c u) \<or> (\<exists>y. ex_run r c u = Inr y \<and> ex_calm x y \<and> ex_queue y = qs @ rs)"
      using calm[of "ex_remove (Some j) u"] ex_remove_events[of "Some j" u] u(6) Do_remove
      by (simp add: ex_run_def ex_events_remove_find)
  next
    case (Do_spawn g)
    show "exits (ex_run r c u) \<or> (\<exists>y. ex_run r c u = Inr y \<and> ex_calm x y \<and> ex_queue y = qs @ rs)"
    proof (cases r)
      case (Inl e)
      then show ?thesis using Do_spawn
        by (simp add: ex_run_def ex_spawn_def exits_def ex_exit_def bind_r_def split: sum.splits)
    next
      case (Inr pid)
      have xu: "ex_calm x u" using calm[of u] self u(6) Do_spawn by simp
      have "um_find (pg_vertex g) (ex_vertices u) \<noteq> None" using ex_invD(5)[OF ok, of p g] q Do_spawn u(1) by simp
      then have run: "ex_run r c u = Inr (snd (ex_insert (Ev_program (pg_vertex g) pid) u))"
        using Do_spawn Inr by (auto simp: ex_run_def ex_spawn_def um_at_eq)
      obtain i y where y: "ex_insert (Ev_program (pg_vertex g) pid) u = (i, y)" by fastforce
      have "ex_inv y" using ex_inv_insert[OF _ _ y] xu by (simp add: ex_calm_def ev_ok_def)
      moreover have "y = u\<lparr>ex_events := ex_events u @ [(ex_next u, Ev_program (pg_vertex g) pid)], ex_next := Suc (ex_next u)\<rparr>"
        using y by (auto simp: ex_insert_def)
      then have "ex_stays x y" "ex_measure y \<le> ex_measure x" "ex_dead y = ex_dead x" "ex_queue y = qs @ rs"
        using u q Do_spawn
        by (simp_all add: ex_stays_def channels_def uncritical_def is_channel_def ex_measure_def ex_weight_def closure_weight_def)
      ultimately show ?thesis using run y by (simp add: ex_calm_def)
    qed
  qed
qed

lemma ex_program_end_ok:
  assumes ok: "ex_inv x" and i: "um_find i (ex_events x) = Some (Ev_program v pid)"
  shows "exits (ex_program_end 0 pid st i v pid x) \<or>
    (\<exists>y. ex_program_end 0 pid st i v pid x = Inr y \<and> ex_calm x y \<and> ex_measure y < ex_measure x)"
proof (cases "WIFEXITED st \<and> WEXITSTATUS st \<noteq> 0 \<or> WIFSIGNALED st")
  case True
  then show ?thesis by (simp add: ex_program_end_def exits_def ex_exit_def)
next
  case False
  note inv = ex_invD[OF ok]
  have wf: "um_wf (ex_events x)" using inv(2) by (simp add: ex_ids_def)
  define y where "y = ex_promise i (Do_remove i) (x\<lparr>ex_events := um_assign i (Ev_ended v) (ex_events x)\<rparr>)"
  have y: "ex_graph y = ex_graph x" "ex_events y = um_assign i (Ev_ended v) (ex_events x)" "ex_next y = ex_next x"
      "ex_queue y = ex_queue x @ [(i, Do_remove i)]" "ex_dead y = ex_dead x" "ex_threshold y = ex_threshold x"
    by (simp_all add: y_def ex_promise_def)
  have "ex_inv y"
  proof (rule ex_invI)
    show "graph_ok (ex_graph y)" using inv(1) y(1) by simp
    show "ex_ids y" using inv(2) um_find_Some_keys[of i "ex_events x"] i y(2,3) by (auto simp: ex_ids_def)
    show "ev_ok y j c" if "um_find j (ex_events y) = Some c" for j c
    proof (cases "j = i")
      case True
      then show ?thesis using that by (auto simp: y(2,4) dict_simps ev_ok_def)
    next
      case False
      then show ?thesis using that ev_ok_frame[OF inv(3), of j c y] y(1,2,4) by (simp add: dict_simps)
    qed
    show "j = k" if "um_find j (ex_events y) = Some (Ev_start u)" "um_find k (ex_events y) = Some (Ev_start u)" for j k u
      using that inv(4)[of j u k] by (auto simp: y(2) dict_simps split: if_splits)
    show "um_find (pg_vertex p) (ex_vertices y) \<noteq> None" if "(q, Do_spawn p) \<in> set (ex_queue y)" for q p
      using inv(5)[of q p] that by (simp add: y(1,4))
    show "\<exists>b. e = Exit b" if "ex_dead y = Some e" for e using inv(6) that y(5) by simp
  qed
  moreover have "ex_stays x y" "ex_measure y < ex_measure x"
    using sum_list_assign[OF wf i, of ex_weight "Ev_ended v"]
      sum_list_assign[OF wf i, of "\<lambda>c. if is_channel c then 1 else 0" "Ev_ended v"]
    by (simp_all add: ex_stays_def y channels_sum uncritical_def ex_measure_def ex_weight_def is_channel_def closure_weight_def)
  ultimately show ?thesis using False y(5) by (auto simp: ex_program_end_def y_def ex_calm_def)
qed

lemma ex_inv_dead: "ex_inv x \<Longrightarrow> ex_inv (x\<lparr>ex_dead := Some (Exit c)\<rparr>)"
  by (rule ex_invI; frule ex_invD)
    (auto simp: ex_ids_def intro: ev_ok_frame dest: ex_invD)

lemma ex_inv_break: "ex_inv x \<Longrightarrow> ex_inv (x\<lparr>ex_break := True\<rparr>)"
  by (rule ex_invI; frule ex_invD)
    (auto simp: ex_ids_def intro: ev_ok_frame dest: ex_invD)

lemma ex_stays_dead [simp]: "ex_stays x (x\<lparr>ex_dead := d\<rparr>)" "ex_stays x (x\<lparr>ex_break := b\<rparr>)"
  by (simp_all add: ex_stays_def channels_def uncritical_def)

lemma ex_apply_exits:
  assumes "ex_inv x" "exits r"
  shows "ex_inv (ex_apply r x) \<and> ex_stays x (ex_apply r x)"
  using assms ex_inv_dead by (auto simp: exits_def ex_apply_def split: sum.splits exn.splits)

lemma ex_apply_calm: "ex_calm x y \<Longrightarrow> ex_inv (ex_apply (Inr y) x) \<and> ex_stays x (ex_apply (Inr y) x)"
  by (simp add: ex_apply_def ex_calm_def)

text \<open>The one way an assertion can fail: a program's pipe is readable without being at its end, or the
  program cannot be waited for.\<close>

definition end_asserts :: "exec \<Rightarrow> exec \<Rightarrow> bool" where
  "end_asserts x y \<longleftrightarrow> ex_dead x = None \<and>
     (\<exists>i v pid rd wp st. (i, Ev_program v pid) \<in> set (ex_events x) \<and> (rd \<noteq> 0 \<or> wp \<noteq> pid) \<and>
        y = ex_apply (ex_program_end rd wp st i v pid x) x)"

lemma end_asserts_dead: "end_asserts x y \<Longrightarrow> ex_dead y = Some Assert_failed"
  by (auto simp: end_asserts_def ex_program_end_def ex_apply_def)

lemma ex_step_alive: "ex_step x y \<Longrightarrow> ex_dead x = None"
  by (cases rule: ex_step.cases) auto

lemma ex_step_inv:
  assumes "ex_step x y" "ex_inv x"
  shows "(ex_inv y \<and> ex_stays x y) \<or> end_asserts x y"
  using assms(1)
proof cases
  note inv = ex_invD[OF assms(2)]
  have wf: "um_wf (ex_events x)" using inv(2) by (simp add: ex_ids_def)
  note find = um_find_set[OF wf, THEN iffD1]
  {
    case (ex_step_start i v envp)
    then show ?thesis using ex_start_ok[OF assms(2) find, of i v envp] by (auto simp: ex_apply_def)
  next
    case (ex_step_read i k fd sig)
    then show ?thesis using ex_read_calm[OF assms(2) find, of i k fd sig] ex_apply_calm by auto
  next
    case (ex_step_read_broken i k fd)
    then show ?thesis using ex_calm_promise[OF assms(2), of "Do_remove_istream k" i] by (simp add: ex_calm_def)
  next
    case (ex_step_write i k fd sig)
    then show ?thesis using ex_written_calm[OF assms(2) find, of i k fd sig] ex_apply_calm by auto
  next
    case (ex_step_write_broken i k fd)
    then show ?thesis using ex_calm_promise[OF assms(2), of "Do_remove_ostream k" i] by (simp add: ex_calm_def)
  next
    case (ex_step_watch_broken i k fd)
    then show ?thesis using ex_calm_promise[OF assms(2), of "Do_remove_ostream k" i] by (simp add: ex_calm_def)
  next
    case (ex_step_user_istream v w k p)
    then show ?thesis using ex_calm_promise[OF assms(2), of "Do_remove_istream k" p] by (simp add: ex_calm_def)
  next
    case (ex_step_user_ostream v w k p)
    then show ?thesis using ex_calm_promise[OF assms(2), of "Do_remove_ostream k" p] by (simp add: ex_calm_def)
  next
    case (ex_step_closure qs p c rs r)
    from ex_run_ok[OF assms(2) ex_step_closure(3), of r] show ?thesis
      unfolding ex_step_closure(1) using ex_apply_exits[OF assms(2)] ex_apply_calm by auto
  next
    case (ex_step_flushed i)
    have "channels (ex_remove (Some i) x) \<le> channels x"
      using sum_list_erase_le[of "\<lambda>c. if is_channel c then 1 else 0" i "ex_events x"]
      by (simp add: channels_sum ex_events_remove)
    then show ?thesis
      using ex_inv_remove[OF assms(2), of "Some i"] by (simp add: ex_step_flushed(1) ex_stays_def uncritical_def)
  next
    case (ex_step_program i v pid rd wp st)
    show ?thesis
    proof (cases "rd \<noteq> 0 \<or> wp \<noteq> pid")
      case True
      then have "end_asserts x y" unfolding end_asserts_def using ex_step_program by blast
      then show ?thesis by blast
    next
      case False
      then show ?thesis
        using ex_step_program ex_program_end_ok[OF assms(2) find, of i v pid st] ex_apply_exits[OF assms(2)] ex_apply_calm
        by auto
    qed
  next
    case (ex_step_lost i c)
    then show ?thesis using ex_inv_dead[OF assms(2)] by (simp add: ex_exit_def)
  next
    case (ex_step_solution i)
    then show ?thesis using ex_inv_break[OF assms(2)] by simp
  }
qed

lemma ex_steps_inv:
  "ex_step\<^sup>*\<^sup>* x y \<Longrightarrow> ex_inv x \<Longrightarrow> (ex_inv y \<and> ex_stays x y) \<or> (\<exists>w. ex_step\<^sup>*\<^sup>* x w \<and> end_asserts w y)"
proof (induction rule: rtranclp_induct)
  case base
  then show ?case by simp
next
  case (step y z)
  then consider "ex_inv y" "ex_stays x y" | w where "end_asserts w y" by blast
  then show ?case
  proof cases
    case 1
    then show ?thesis using ex_step_inv[OF step.hyps(2)] ex_stays_trans step.hyps(1) by blast
  next
    case 2
    then show ?thesis using end_asserts_dead ex_step_alive[OF step.hyps(2)] by fastforce
  qed
qed

lemma ex_steps_alive:
  assumes "ex_step\<^sup>*\<^sup>* x y" "ex_inv x" "ex_dead y = None"
  shows "ex_inv y" "ex_stays x y"
  using ex_steps_inv[OF assms(1,2)] assms(3) end_asserts_dead by auto

section \<open>Coming to the end\<close>

lemma ex_run_uncritical:
  assumes ok: "ex_inv x" and q: "ex_queue x = qs @ (p, c) # rs" and u: "uncritical x"
  shows "\<exists>y. ex_run (Inr 0) c (x\<lparr>ex_queue := qs @ rs\<rparr>) = Inr y \<and> ex_calm x y \<and> ex_queue y = qs @ rs"
proof -
  have "\<not> exits (ex_run (Inr 0) c (x\<lparr>ex_queue := qs @ rs\<rparr>))"
  proof (cases c)
    case (Do_spawn g)
    then have "um_find (pg_vertex g) (ex_vertices x) \<noteq> None" using ex_invD(5)[OF ok, of p g] q by simp
    then show ?thesis using Do_spawn by (auto simp: ex_run_def ex_spawn_def um_at_eq exits_def)
  qed (use u in \<open>auto simp: ex_run_def ex_remove_istream_def ex_remove_ostream_def exits_def uncritical_def split: option.splits\<close>)
  then show ?thesis using ex_run_ok[OF ok q] by blast
qed

text \<open>The owner can run all closures.\<close>

lemma ex_drain:
  assumes "ex_inv x" "ex_dead x = None" "uncritical x"
  shows "\<exists>y. ex_step\<^sup>*\<^sup>* x y \<and> ex_calm x y \<and> ex_queue y = []"
  using assms
proof (induction "length (ex_queue x)" arbitrary: x)
  case 0
  then show ?case by (auto simp: ex_calm_def)
next
  case (Suc n)
  obtain p c rs where q: "ex_queue x = [] @ (p, c) # rs" using Suc.hyps(2) by (cases "ex_queue x") auto
  obtain y where y: "ex_run (Inr 0) c (x\<lparr>ex_queue := [] @ rs\<rparr>) = Inr y" "ex_calm x y" "ex_queue y = [] @ rs"
    using ex_run_uncritical[OF Suc.prems(1) q Suc.prems(3)] by blast
  have st: "ex_step x y" using ex_step_closure[OF Suc.prems(2) q, of "Inr 0"] y(1) by (simp add: ex_apply_def)
  have "ex_inv y" "ex_dead y = None" "uncritical y" "n = length (ex_queue y)"
    using y(2,3) Suc.prems Suc.hyps(2) q by (auto simp: ex_calm_def ex_stays_def)
  from Suc.hyps(1)[OF this(4,1-3)] obtain z where "ex_step\<^sup>*\<^sup>* y z" "ex_calm y z" "ex_queue z = []" by blast
  with st y(2) show ?case using ex_calm_trans by (meson converse_rtranclp_into_rtranclp)
qed

lemma sum_filter_less:
  "e \<in> set xs \<Longrightarrow> \<not> P e \<Longrightarrow> 0 < f e \<Longrightarrow> sum_list (map f (filter P xs)) < sum_list (map f xs :: nat list)"
proof (induction xs)
  case Nil
  then show ?case by simp
next
  case (Cons a xs)
  have "sum_list (map f (filter P xs)) \<le> sum_list (map f xs)" by (induction xs) auto
  with Cons show ?case by (cases "e = a") auto
qed

lemma ex_gone_less:
  assumes wf: "ex_ids x" and i: "um_find i (ex_events x) = Some c" "0 < ex_weight c"
    and y: "\<exists>P. ex_events y = filter P (ex_events x)" "um_find i (ex_events y) = None" "ex_queue x = []" "ex_queue y = []"
  shows "ex_measure y < ex_measure x"
proof -
  obtain P where P: "ex_events y = filter P (ex_events x)" using y(1) by blast
  have e: "(i, c) \<in> set (ex_events x)" using i(1) by (rule um_find_Some_set)
  have "\<not> P (i, c)"
  proof
    assume "P (i, c)"
    then have "(i, c) \<in> set (ex_events y)" using e P by simp
    then show False using y(2) by (auto simp: um_find_None_keys um_keys_def image_iff)
  qed
  with sum_filter_less[of "(i, c)" "ex_events x" P "\<lambda>e. ex_weight (snd e)"] e i(2) y(3,4) P show ?thesis
    by (simp add: ex_measure_def)
qed

lemma ex_filter_trans: "\<exists>P. a = filter P b \<Longrightarrow> \<exists>P. b = filter P c \<Longrightarrow> \<exists>P. a = filter P c"
  by (auto simp: filter_filter)

text \<open>Asking for the removal of a stream and running the closure.\<close>

lemma ex_request:
  assumes ok: "ex_inv x" "ex_queue x = []" "ex_dead x = None" "uncritical x"
    and c: "\<And>p. c \<noteq> Do_spawn p" and st: "ex_step x (ex_promise i c x)"
  shows "\<exists>y. ex_step\<^sup>*\<^sup>* x y \<and> ex_calm x y \<and> ex_queue y = [] \<and> ex_run (Inr 0) c x = Inr y"
proof -
  define u where "u = ex_promise i c x"
  have u: "ex_calm x u" "ex_queue u = [] @ (i, c) # []" "u\<lparr>ex_queue := [] @ []\<rparr> = x"
    using ex_calm_promise[OF ok(1) c, of i] ok(2) by (auto simp: u_def ex_promise_def)
  have "ex_inv u" "uncritical u" "ex_dead u = None" using u(1) ok(3,4) by (auto simp: ex_calm_def ex_stays_def)
  then obtain y where y: "ex_run (Inr 0) c x = Inr y" "ex_calm u y" "ex_queue y = []"
    using ex_run_uncritical[OF _ u(2)] u(3) by auto
  have "ex_step u y"
    using ex_step_closure[OF \<open>ex_dead u = None\<close> u(2), of "Inr 0"] y(1) u(3) by (simp add: ex_apply_def)
  with st have "ex_step\<^sup>*\<^sup>* x y" unfolding u_def[symmetric] by (meson converse_rtranclp_into_rtranclp r_into_rtranclp)
  with y u(1) show ?thesis using ex_calm_trans by blast
qed

text \<open>While an event of a vertex, a stream or a program is left, something can be done about it.\<close>

lemma ex_progress:
  assumes ok: "ex_inv x" "ex_queue x = []" "ex_dead x = None" "uncritical x"
    and i: "um_find i (ex_events x) = Some c" "\<not> is_channel c"
  shows "\<exists>y. ex_step\<^sup>*\<^sup>* x y \<and> ex_measure y < ex_measure x \<and> ex_dead y = None"
proof -
  note inv = ex_invD[OF ok(1)]
  have mem: "(i, c) \<in> set (ex_events x)" using i(1) by (rule um_find_Some_set)
  have pos: "0 < ex_weight c" using i(2) by (auto simp: ex_weight_def split: ex_kind.splits)
  note ev = inv(3)[OF i(1)]
  have less: "ex_measure y < ex_measure x" if "\<exists>P. ex_events y = filter P (ex_events x)" "um_find i (ex_events y) = None" "ex_queue y = []" for y
    by (rule ex_gone_less[OF inv(2) i(1) pos that(1,2) ok(2) that(3)])
  show ?thesis
  proof (cases c)
    case (Ev_start v)
    obtain y where y: "ex_start [] i v x = Inr y" "ex_measure y < ex_measure x" "ex_dead y = ex_dead x"
      using ex_start_ok[OF ok(1), of i v "[]"] i(1) Ev_start by blast
    have "ex_step x y" using ex_step_start[OF ok(3), of i v "[]"] mem Ev_start y(1) by (simp add: ex_apply_def)
    with y ok(3) show ?thesis by auto
  next
    case (Ev_program v pid)
    have "\<not> exits (ex_program_end 0 pid 0 i v pid x)"
      by (simp add: exits_def ex_program_end_def WIFEXITED_def WIFSIGNALED_def WTERMSIG_def WEXITSTATUS_def)
    then obtain y where y: "ex_program_end 0 pid 0 i v pid x = Inr y" "ex_measure y < ex_measure x" "ex_calm x y"
      using ex_program_end_ok[OF ok(1), of i v pid 0] i(1) Ev_program by blast
    have "ex_step x y" using ex_step_program[OF ok(3), of i v pid 0 pid 0] mem Ev_program y(1) by (simp add: ex_apply_def)
    with y ok(3) show ?thesis by (auto simp: ex_calm_def)
  next
    case (Ev_reader k fd)
    obtain s where s: "um_find k (ex_streams x) = Some s" "gs_reader s = Weak_event (Some i)"
      using ev Ev_reader by (auto simp: ev_ok_def ev_reads_def)
    have "ex_step x (ex_promise i (Do_remove_istream k) x)" using ex_step_read_broken[OF ok(3)] mem Ev_reader by blast
    from ex_request[OF ok _ this] obtain y where y: "ex_step\<^sup>*\<^sup>* x y" "ex_calm x y" "ex_queue y = []"
        "ex_run (Inr 0) (Do_remove_istream k) x = Inr y" by auto
    have "\<exists>q. y = ex_remove q (ex_remove (Some i) x) \<or> y = ex_remove (Some i) x"
      using y(4) s ok(4) by (auto simp: ex_run_def ex_remove_istream_def stream_istream_def uncritical_def split: if_splits)
    moreover from this have "um_find i (ex_events y) = None" by (auto simp: ex_events_remove_find)
    ultimately have "\<exists>P. ex_events y = filter P (ex_events x)" "um_find i (ex_events y) = None"
      using ex_remove_remove_events[of _ "Some i" x] ex_remove_events[of "Some i" x] by auto
    then have "ex_measure y < ex_measure x" using less y(3) by blast
    with y(1,2) ok(3) show ?thesis by (auto simp: ex_calm_def)
  next
    case (Ev_watch k fd)
    obtain s where s: "um_find k (ex_streams x) = Some s" "gs_reader s = Weak_event (Some i)" "gs_head s = None"
      using ev Ev_watch by (auto simp: ev_ok_def ev_reads_def)
    have "ex_step x (ex_promise i (Do_remove_ostream k) x)" using ex_step_watch_broken[OF ok(3)] mem Ev_watch by blast
    from ex_request[OF ok _ this] obtain y where y: "ex_step\<^sup>*\<^sup>* x y" "ex_calm x y" "ex_queue y = []"
        "ex_run (Inr 0) (Do_remove_ostream k) x = Inr y" by auto
    have "y = ex_remove_on_flush (stream_ostream s) (ex_remove (Some i) x)"
      using y(4) s ok(4)
      by (simp add: ex_run_def ex_remove_ostream_def stream_istream_def is_intra_stream_def uncritical_def split: if_splits)
    then have "\<exists>P. ex_events y = filter P (ex_events x)" "um_find i (ex_events y) = None"
      using ex_remove_events[of "Some i" x] by (simp_all add: ex_events_remove_find)
    then have "ex_measure y < ex_measure x" using less y(3) by blast
    with y(1,2) ok(3) show ?thesis by (auto simp: ex_calm_def)
  next
    case (Ev_writer k fd)
    obtain s where s: "um_find k (ex_streams x) = Some s" "gs_writer s = Weak_event (Some i)"
      using ev Ev_writer by (auto simp: ev_ok_def ev_writes_def)
    have "ex_step x (ex_promise i (Do_remove_ostream k) x)" using ex_step_write_broken[OF ok(3)] mem Ev_writer by blast
    from ex_request[OF ok _ this] obtain y where y: "ex_step\<^sup>*\<^sup>* x y" "ex_calm x y" "ex_queue y = []"
        "ex_run (Inr 0) (Do_remove_ostream k) x = Inr y" by auto
    define u where "u = (if is_intra_stream s then x else ex_remove (stream_istream s) x)"
    have y': "y = ex_remove_on_flush (Some i) u"
      using y(4) s ok(4) by (auto simp: ex_run_def ex_remove_ostream_def stream_ostream_def uncritical_def u_def split: if_splits)
    have u: "\<exists>P. ex_events u = filter P (ex_events x)"
      using ex_remove_events[of "stream_istream s" x] by (auto simp: u_def intro: exI[of _ "\<lambda>_. True"])
    then have yf: "\<exists>P. ex_events y = filter P (ex_events x)" by (simp add: y')
    show ?thesis
    proof (cases "um_find i (ex_events y)")
      case None
      with yf y(1-3) less ok(3) show ?thesis by (auto simp: ex_calm_def)
    next
      case (Some d)
      then have "i \<in> set (ex_closing y)" by (auto simp: y' ex_remove_on_flush_def split: if_splits)
      moreover have "ex_dead y = None" using y(2) ok(3) by (simp add: ex_calm_def)
      ultimately have "ex_step y (ex_remove (Some i) y)" by (intro ex_step_flushed)
      with y(1) have "ex_step\<^sup>*\<^sup>* x (ex_remove (Some i) y)" by simp
      moreover have "ex_measure (ex_remove (Some i) y) < ex_measure x"
        using ex_filter_trans[OF ex_remove_events yf] y(3) by (intro less) (simp_all add: ex_events_remove_find)
      ultimately show ?thesis using \<open>ex_dead y = None\<close> by (intro exI[of _ "ex_remove (Some i) y"]) simp
    qed
  qed (use ev ok(2) i(2) in \<open>simp_all add: ev_ok_def is_channel_def\<close>)
qed

lemma ex_winds_down:
  assumes "ex_inv x" "ex_dead x = None" "uncritical x" "channels x \<le> ex_threshold x"
  shows "\<exists>y. ex_step\<^sup>*\<^sup>* x y \<and> ex_over y \<and> length (ex_events y) \<le> ex_threshold y"
  using assms
proof (induction "ex_measure x" arbitrary: x rule: less_induct)
  case less
  obtain y where y: "ex_step\<^sup>*\<^sup>* x y" "ex_calm x y" "ex_queue y = []" using ex_drain[OF less.prems(1-3)] by blast
  have yy: "ex_inv y" "ex_dead y = None" "uncritical y" "channels y \<le> ex_threshold y" "ex_measure y \<le> ex_measure x"
    using y(2) less.prems by (auto simp: ex_calm_def ex_stays_def)
  show ?case
  proof (cases "\<forall>e \<in> set (ex_events y). is_channel (snd e)")
    case True
    then have "channels y = length (ex_events y)" by (simp add: channels_def)
    with y(1) yy show ?thesis by (auto simp: ex_over_def)
  next
    case False
    then obtain i c where ic: "(i, c) \<in> set (ex_events y)" "\<not> is_channel c" by auto
    have "um_wf (ex_events y)" using ex_invD(2)[OF yy(1)] by (simp add: ex_ids_def)
    then have "um_find i (ex_events y) = Some c" using ic(1) um_find_set by metis
    from ex_progress[OF yy(1) y(3) yy(2,3) this ic(2)] obtain z where
      z: "ex_step\<^sup>*\<^sup>* y z" "ex_measure z < ex_measure y" "ex_dead z = None" by blast
    have "ex_inv z" "uncritical z" "channels z \<le> ex_threshold z"
      using ex_steps_alive[OF z(1) yy(1) z(3)] yy(3,4) by (auto simp: ex_stays_def)
    from less.hyps[OF _ this(1) z(3) this(2,3)] z(2) yy(5) obtain w where
      "ex_step\<^sup>*\<^sup>* z w" "ex_over w" "length (ex_events w) \<le> ex_threshold w" by auto
    with y(1) z(1) show ?thesis by (meson rtranclp_trans)
  qed
qed

section \<open>Behind \<open>_make_graph\<close>\<close>

text \<open>What the agent has given the executor: a descriptor for every inter stream and only for those,
  and a kernel that makes socket pairs for the intra streams.\<close>

definition frontiers_match ::
  "topology \<Rightarrow> (key_type \<times> int) list \<Rightarrow> (key_type \<Rightarrow> (int \<times> int) result) \<Rightarrow> (int \<Rightarrow> exn option) \<Rightarrow> bool" where
  "frontiers_match e fr pair cloexec \<longleftrightarrow>
     (\<forall>k. um_find k fr \<noteq> None \<longleftrightarrow> has_inter_stream e k) \<and>
     (\<forall>k fd. um_find k fr = Some fd \<longrightarrow> cloexec fd = None) \<and>
     (\<forall>k. has_intra_stream e k \<longrightarrow> (\<exists>d. pair k = Inr d))"

lemma frontiers_match_provided:
  assumes m: "frontiers_match e fr pair cloexec" and b: "built_from e g" and s: "um_find k (g_streams g) = Some s"
  shows "provided fr pair cloexec k s"
proof -
  have "case um_find k (g_streams g) of None \<Rightarrow> \<not> has_stream e k
      | Some s \<Rightarrow> has_stream e k \<and> is_intra_stream s = has_intra_stream e k \<and>
          is_inter_stream_mode s Mode_out = has_inter_stream_mode e k Mode_out \<and>
          is_inter_stream_mode s Mode_in = has_inter_stream_mode e k Mode_in"
    using b unfolding built_from_def by blast
  then have q: "is_intra_stream s = has_intra_stream e k" "is_inter_stream s = has_inter_stream e k"
    using s by (auto simp: has_inter_stream_def is_inter_stream_def is_inter_stream_mode_def)
  have "gs_head s \<noteq> None \<or> gs_tail s \<noteq> None" using b s unfolding built_from_def graph_ready_def by blast
  then have "is_intra_stream s \<or> is_inter_stream s" by (auto simp: is_intra_stream_def is_inter_stream_def)
  then consider "is_intra_stream s" "\<not> is_inter_stream s" | "is_inter_stream s" "\<not> is_intra_stream s"
    by (auto simp: is_intra_stream_def is_inter_stream_def)
  then show ?thesis
  proof cases
    case 1
    then have "um_find k fr = None" "\<exists>d. pair k = Inr d" using m q unfolding frontiers_match_def by metis+
    with 1 show ?thesis by (auto simp: provided_def)
  next
    case 2
    then obtain fd where "um_find k fr = Some fd" using m q unfolding frontiers_match_def by fastforce
    moreover from this m have "cloexec fd = None" unfolding frontiers_match_def by blast
    ultimately show ?thesis using 2 by (simp add: provided_def)
  qed
qed

lemma ex_wired_bridged:
  assumes w: "\<And>k. k \<in> set (um_keys (ex_streams x)) \<Longrightarrow> ex_wired fr pair k x"
    and v: "um_find v (ex_vertices x) = Some u" "vertex_has_program u"
  shows "bridged (ex_graph x) v"
  unfolding bridged_def
proof (intro allI impI)
  fix j s assume s: "um_find j (ex_streams x) = Some s"
  then have "ex_wired fr pair j x" using w um_find_Some_keys by metis
  then have "gs_head s \<noteq> None \<longrightarrow> (\<exists>fd. ex_reads j fd x)" "gs_tail s \<noteq> None \<longrightarrow> (\<exists>fd. ex_writes j fd x)"
    using s by (auto simp: ex_wired_def split: option.splits)
  then show "(gs_head s = Some v \<longrightarrow> (\<exists>fd. gs_reader s = Bridge (Some fd))) \<and>
      (gs_tail s = Some v \<longrightarrow> (\<exists>fd. gs_writer s = Bridge (Some fd)))"
    using s v by (auto simp: ex_reads_def ex_writes_def ex_end_def um_at_eq)
qed

text \<open>The executor before the topology arrives: only channels.\<close>

definition ex_fresh :: "exec \<Rightarrow> bool" where
  "ex_fresh x \<longleftrightarrow> ex_ids x \<and> list_all (is_channel \<circ> snd) (ex_events x) \<and> ex_queue x = [] \<and> ex_dead x = None \<and>
     ex_mode x = DISTRIBUTED"

lemma ex_insert_vertices_starts:
  assumes "ex_ids x" "distinct vs" "\<And>i v. v \<in> set vs \<Longrightarrow> um_find i (ex_events x) \<noteq> Some (Ev_start v)"
    and "\<And>i j v. um_find i (ex_events x) = Some (Ev_start v) \<Longrightarrow> um_find j (ex_events x) = Some (Ev_start v) \<Longrightarrow> i = j"
  shows "(\<forall>i j v. um_find i (ex_events (fold (\<lambda>k x. snd (ex_insert (Ev_start k) x)) vs x)) = Some (Ev_start v) \<longrightarrow>
      um_find j (ex_events (fold (\<lambda>k x. snd (ex_insert (Ev_start k) x)) vs x)) = Some (Ev_start v) \<longrightarrow> i = j) \<and>
    (\<forall>v \<in> set vs. \<exists>i. um_find i (ex_events (fold (\<lambda>k x. snd (ex_insert (Ev_start k) x)) vs x)) = Some (Ev_start v)) \<and>
    (\<forall>i c. um_find i (ex_events (fold (\<lambda>k x. snd (ex_insert (Ev_start k) x)) vs x)) = Some c \<longrightarrow>
      um_find i (ex_events x) = Some c \<or> (\<exists>v \<in> set vs. c = Ev_start v))"
  using assms
proof (induction vs arbitrary: x)
  case Nil
  then show ?case by simp
next
  case (Cons v vs)
  obtain i y where y: "ex_insert (Ev_start v) x = (i, y)" by fastforce
  note yd = ex_insertD[OF Cons.prems(1) y]
  have no: "um_find j (ex_events y) \<noteq> Some (Ev_start u)" if "u \<in> set vs" for j u
    using yd(5)[of j "Ev_start u"] Cons.prems(2) Cons.prems(3)[of u j] that by auto
  have un: "j = k" if "um_find j (ex_events y) = Some (Ev_start u)" "um_find k (ex_events y) = Some (Ev_start u)" for j k u
    using yd(5)[OF that(1)] yd(5)[OF that(2)] Cons.prems(3)[of v j] Cons.prems(3)[of v k] Cons.prems(4)[of j u k] by auto
  define z where "z = fold (\<lambda>k x. snd (ex_insert (Ev_start k) x)) vs y"
  have IH: "(\<forall>i j v. um_find i (ex_events z) = Some (Ev_start v) \<longrightarrow> um_find j (ex_events z) = Some (Ev_start v) \<longrightarrow> i = j) \<and>
    (\<forall>v \<in> set vs. \<exists>i. um_find i (ex_events z) = Some (Ev_start v)) \<and>
    (\<forall>i c. um_find i (ex_events z) = Some c \<longrightarrow> um_find i (ex_events y) = Some c \<or> (\<exists>v \<in> set vs. c = Ev_start v))"
    unfolding z_def using Cons.prems(2) by (intro Cons.IH yd(1) no un) auto
  have iz: "um_find i (ex_events z) = Some (Ev_start v)"
    using ex_insert_vertices_fold[OF yd(1), of vs] yd(2) unfolding z_def by blast
  have F: "fold (\<lambda>k x. snd (ex_insert (Ev_start k) x)) (v # vs) x = z" by (simp add: z_def y)
  have P2: "\<exists>i. um_find i (ex_events z) = Some (Ev_start u)" if "u \<in> set (v # vs)" for u
    using that iz IH by (cases "u = v") auto
  have P3: "um_find j (ex_events x) = Some c \<or> (\<exists>u \<in> set (v # vs). c = Ev_start u)"
    if "um_find j (ex_events z) = Some c" for j c
  proof -
    have "um_find j (ex_events y) = Some c \<or> (\<exists>u \<in> set vs. c = Ev_start u)" using IH that by blast
    then show ?thesis using yd(5)[of j c] by auto
  qed
  show ?case unfolding F using IH P2 P3 by (intro conjI) blast+
qed

lemma channels_card:
  assumes "um_wf (ex_events x)"
  shows "channels x = card {i. \<exists>c. um_find i (ex_events x) = Some c \<and> is_channel c}"
proof -
  let ?l = "map fst (filter (is_channel \<circ> snd) (ex_events x))"
  have "set ?l = {i. \<exists>c. um_find i (ex_events x) = Some c \<and> is_channel c}"
    by (auto simp: um_find_set[OF assms, symmetric] image_iff)
  moreover have "distinct ?l" using assms by (simp add: um_wf_def um_keys_def distinct_map_filter)
  ultimately have "card {i. \<exists>c. um_find i (ex_events x) = Some c \<and> is_channel c} = length ?l"
    using distinct_card by metis
  then show ?thesis by (simp add: channels_def)
qed

lemma ex_wired_frame:
  assumes "ex_wired fr pair k x" "ex_graph y = ex_graph x"
    and "\<And>i c. um_find i (ex_events x) = Some c \<Longrightarrow> um_find i (ex_events y) = Some c"
  shows "ex_wired fr pair k y"
proof -
  have e: "ex_end p y = ex_end p x" for p by (rule ex_end_frame) (simp add: assms(2))
  have "ex_reads k fd x \<Longrightarrow> ex_reads k fd y" "ex_writes k fd x \<Longrightarrow> ex_writes k fd y" for fd
    using assms(3) by (auto simp: ex_reads_def ex_writes_def assms(2) e split: option.splits sum.splits endpoint.splits if_splits)
  with assms(1,2) show ?thesis by (auto simp: ex_wired_def split: option.splits)
qed

lemma ex_grow_links: "ex_grow R W x y \<Longrightarrow> same_links (ex_graph x) (ex_graph y)"
proof -
  assume g: "ex_grow R W x y"
  have "map_option (\<lambda>s. (gs_head s, gs_tail s)) (um_find j (ex_streams y)) =
      map_option (\<lambda>s. (gs_head s, gs_tail s)) (um_find j (ex_streams x))" for j
  proof (cases "um_find j (ex_streams y)")
    case None
    then have "um_find j (ex_streams x) = None" using ex_growD(3)[OF g] by (simp add: um_find_None_keys)
    with None show ?thesis by simp
  next
    case (Some s)
    then show ?thesis by (rule ex_grow_find[OF g]) (simp add: Some)
  qed
  then show ?thesis using ex_growD(3)[OF g] ex_grow_vertices[OF g] by (simp add: same_links_def)
qed

lemma ex_make_graph_ok:
  assumes x: "ex_fresh x" and g: "graph_make h (ex_graph x) (Some t) = Inr (g, Some t)" "graph_ok g"
    and f: "rt_frontiers (t_runtime t) = Inr fr"
    and p: "\<And>k s. um_find k (g_streams g) = Some s \<Longrightarrow> provided fr pair cloexec k s"
  shows "\<exists>y. ex_make_graph h pair cloexec (Some t) x = Inr y \<and> ex_inv y \<and> ex_dead y = None \<and> ex_threshold y = 2 \<and>
    channels y = length (ex_events x) \<and> um_keys (ex_streams y) = um_keys (g_streams g) \<and>
    (\<forall>k \<in> set (um_keys (g_streams g)). ex_wired fr pair k y) \<and>
    (\<forall>v. (\<exists>i. um_find i (ex_events y) = Some (Ev_start v)) \<longleftrightarrow> um_find v (g_vertices g) \<noteq> None)"
proof -
  define x1 where "x1 = x\<lparr>ex_graph := g\<rparr>"
  have x1: "ex_ids x1" "ex_streams x1 = g_streams g" "ex_vertices x1 = g_vertices g" "ex_graph x1 = g"
      "ex_events x1 = ex_events x" "ex_queue x1 = []" "ex_dead x1 = None" "ex_mode x1 = DISTRIBUTED"
    using x by (simp_all add: x1_def ex_fresh_def ex_ids_def)
  have chan: "is_channel c" if "um_find i (ex_events x) = Some c" for i c
    using x um_find_Some_set[OF that] by (auto simp: ex_fresh_def list_all_iff)
  have wfs: "um_wf (g_streams g)" "um_wf (g_vertices g)" using g(2) by (simp_all add: graph_ok_def graph_ready_def)
  let ?ks = "um_keys (g_streams g)" and ?vs = "um_keys (g_vertices g)"
  have ks: "\<exists>s. um_find k (ex_streams x1) = Some s \<and> provided fr pair cloexec k s" if "k \<in> set ?ks" for k
    using that p um_find_Some_keys[of k "g_streams g"] x1(2) by auto
  have gr: "graph_ready (ex_graph x1)" using g(2) x1(4) by (simp add: graph_ok_def)
  have dk: "distinct ?ks" using wfs(1) by (simp add: um_wf_def)
  obtain y1 where y1: "fold_r (ex_insert_stream fr pair cloexec) ?ks x1 = Inr y1" "ex_grow (set ?ks) (set ?ks) x1 y1"
      "\<forall>k \<in> set ?ks. ex_wired fr pair k y1"
    using ex_insert_streams_ok[OF dk x1(1) gr ks] by blast
  have v1: "ex_vertices y1 = g_vertices g" using ex_grow_vertices[OF y1(2)] x1(3) by simp
  define y2 where "y2 = ex_insert_vertices y1"
  have y2f: "y2 = fold (\<lambda>k x. snd (ex_insert (Ev_start k) x)) ?vs y1" by (simp add: y2_def ex_insert_vertices_def v1)
  note y2 = ex_insert_vertices_fold[OF ex_growD(7)[OF y1(2)], of ?vs, folded y2f]
  have rest: "ex_graph y2 = ex_graph y1" "ex_queue y2 = []" "ex_dead y2 = None" "ex_mode y2 = DISTRIBUTED"
    using y2 ex_growD(1)[OF y1(2)] x1 by (cases y2; cases y1; cases x1; simp)+
  have old: "um_find i (ex_events x) = Some c \<or> (\<exists>k. ev_reads y1 i k c) \<or> (\<exists>k. ev_writes y1 i k c)"
    if "um_find i (ex_events y1) = Some c" for i c
    using ex_growD(6)[OF y1(2) that] x1(5) by auto
  have nostart: "um_find i (ex_events y1) \<noteq> Some (Ev_start v)" for i v
    using old[of i "Ev_start v"] chan[of i "Ev_start v"] by (auto simp: ev_reads_def ev_writes_def is_channel_def)
  have dv: "distinct ?vs" using wfs(2) by (simp add: um_wf_def)
  have st: "(\<forall>i j v. um_find i (ex_events y2) = Some (Ev_start v) \<longrightarrow> um_find j (ex_events y2) = Some (Ev_start v) \<longrightarrow> i = j) \<and>
    (\<forall>v \<in> set ?vs. \<exists>i. um_find i (ex_events y2) = Some (Ev_start v)) \<and>
    (\<forall>i c. um_find i (ex_events y2) = Some c \<longrightarrow> um_find i (ex_events y1) = Some c \<or> (\<exists>v \<in> set ?vs. c = Ev_start v))"
    unfolding y2f by (rule ex_insert_vertices_starts[OF ex_growD(7)[OF y1(2)] dv]) (use nostart in auto)
  define y where "y = y2\<lparr>ex_threshold := 2\<rparr>"
  have yy: "ex_graph y = ex_graph y1" "ex_events y = ex_events y2" "ex_next y = ex_next y2" "ex_queue y = []" "ex_dead y = None"
    using rest by (simp_all add: y_def)
  have find12: "um_find i (ex_events y1) = Some c \<Longrightarrow> um_find i (ex_events y) = Some c" for i c
    using y2 yy(2) by auto
  have wy: "ex_wired fr pair k y" if "k \<in> set ?ks" for k
    using y1(3) that ex_wired_frame[OF _ yy(1) find12] by blast
  have keys: "um_keys (ex_streams y) = ?ks" using ex_growD(3)[OF y1(2)] x1(2) yy(1) by simp
  have "ex_inv y"
  proof (rule ex_invI)
    show "graph_ok (ex_graph y)" using same_links_ok[OF ex_grow_links[OF y1(2)]] g(2) x1(4) yy(1) by simp
    show "ex_ids y" using y2 yy(2,3) by (simp add: ex_ids_def)
    show "ev_ok y i c" if ic: "um_find i (ex_events y) = Some c" for i c
    proof (cases "\<exists>v. c = Ev_start v")
      case True
      then obtain v where c: "c = Ev_start v" "v \<in> set ?vs" using st ic nostart yy(2) by fastforce
      then obtain u where u: "um_find v (ex_vertices y) = Some u"
        using um_find_Some_keys[of v "g_vertices g"] v1 yy(1) by auto
      have "bridged (ex_graph y) v" if "vertex_has_program u"
        by (rule ex_wired_bridged[OF _ u that]) (use wy keys in simp)
      with u show ?thesis unfolding c(1) by (simp add: ev_ok_def can_start_bridged)
    next
      case False
      then have "um_find i (ex_events y1) = Some c" using st ic yy(2) by fastforce
      then consider "is_channel c" | k where "ev_reads y1 i k c" | k where "ev_writes y1 i k c"
        using old chan by blast
      then show ?thesis
      proof cases
        case 1
        then show ?thesis by (simp add: ev_ok_def is_channel_def split: ex_kind.splits)
      next
        case (2 k)
        then show ?thesis by (auto simp: ev_reads_def ev_ok_def yy(1))
      next
        case (3 k)
        then show ?thesis by (auto simp: ev_writes_def ev_ok_def yy(1))
      qed
    qed
    show "i = j" if "um_find i (ex_events y) = Some (Ev_start v)" "um_find j (ex_events y) = Some (Ev_start v)" for i j v
      using st that yy(2) by auto
  qed (use yy in simp_all)
  moreover have "channels y = channels x1"
  proof -
    have "um_find i (ex_events y) = Some c \<and> is_channel c \<longleftrightarrow> um_find i (ex_events x1) = Some c \<and> is_channel c" for i c
    proof
      assume ic: "um_find i (ex_events y) = Some c \<and> is_channel c"
      then have "\<not> (\<exists>v. c = Ev_start v)" by (auto simp: is_channel_def)
      then have "um_find i (ex_events y1) = Some c" using st ic yy(2) by fastforce
      moreover have "\<not> ev_reads y1 i k c" "\<not> ev_writes y1 i k c" for k
        using ic by (auto simp: ev_reads_def ev_writes_def is_channel_def)
      ultimately show "um_find i (ex_events x1) = Some c \<and> is_channel c" using old[of i c] ic x1(5) by auto
    qed (use ex_growD(5)[OF y1(2)] find12 in blast)
    moreover have "um_wf (ex_events y)" "um_wf (ex_events x1)"
      using y2 x1(1) yy(2) by (simp_all add: ex_ids_def)
    ultimately show ?thesis by (simp add: channels_card)
  qed
  then have "channels y = length (ex_events x)"
    using x by (simp add: channels_def x1_def ex_fresh_def list_all_iff)
  moreover have "(\<exists>i. um_find i (ex_events y) = Some (Ev_start v)) \<longleftrightarrow> um_find v (g_vertices g) \<noteq> None" for v
    using st nostart yy(2) um_find_Some_keys[of v "g_vertices g"] by fastforce
  moreover have "ex_make_graph h pair cloexec (Some t) x = Inr y"
    using g(1) f y1(1) rest(4)
    by (simp add: ex_make_graph_def ex_insert_streams_def x1_def[symmetric] x1(2) y2_def[symmetric] y_def)
  ultimately show ?thesis using wy keys yy(5) by (simp add: y_def)
qed

text \<open>The state in which the topology of the agent arrives.\<close>

lemma ex_setup_distributed_fresh:
  assumes "ex_setup_distributed env cloexec new fds (mk_exec DISTRIBUTED g) = Inr (fds', a, x)"
  shows "ex_fresh x \<and> ex_graph x = g \<and> length (ex_events x) = 2"
  using assms
  by (auto simp: ex_setup_distributed_def Let_def ex_insert_def mk_exec_def ex_fresh_def ex_ids_def um_wf_def
      is_channel_def split: option.splits if_splits)

lemma ex_deployed:
  assumes prog: "program_ok [] [] [] (g_tasks g)" "g_vertices g = []" "g_streams g = []"
    and sub: "topologize envp (ctr, g) = Inr (t, cg)" "tpg_extract t c = Inr e" "c \<noteq> - 1"
    and agent: "rt_frontiers rt = Inr fr" "frontiers_match e fr pair cloexec"
    and up: "ex_setup_distributed env cloexec new fds (mk_exec DISTRIBUTED g) = Inr (fds', a, x)"
  shows "\<exists>y. ex_make_graph h pair cloexec (Some (e\<lparr>t_runtime := rt\<rparr>)) x = Inr y \<and> ex_inv y \<and> ex_dead y = None \<and>
    ex_threshold y = 2 \<and> channels y = 2 \<and> (\<forall>k. has_stream e k \<longrightarrow> ex_wired fr pair k y) \<and>
    (\<forall>v. (\<exists>i. um_find i (ex_events y) = Some (Ev_start v)) \<longleftrightarrow> container_of t v = Some c)"
proof -
  let ?e = "e\<lparr>t_runtime := rt\<rparr>"
  note x = ex_setup_distributed_fresh[OF up]
  have same: "t_topology ?e = t_topology e" "t_vertices ?e = t_vertices e" "t_streams ?e = t_streams e" by simp_all
  obtain g' where g': "graph_make h g (Some ?e) = Inr (g', Some ?e)" "built_from e g'"
    using distributed_graph[OF prog sub same] by blast
  have "graph_tidy g" using prog(2) by (simp add: graph_tidy_def)
  then have ok: "graph_ok g'" using graph_make_tidy[OF g'(1)] g'(2) by (simp add: graph_ok_def built_from_def)
  have "tpg_wf t"
    using topologize_result[OF prog(1) streams_of_ends_of[OF prog(1)], of envp ctr] sub(1) by force
  then have hv: "has_vertex e v \<longleftrightarrow> container_of t v = Some c" for v
    by (rule extract_has_vertex[OF _ sub(2)])
  have hs: "k \<in> set (um_keys (g_streams g'))" if "has_stream e k" for k
  proof (cases "um_find k (g_streams g')")
    case None
    have "case um_find k (g_streams g') of None \<Rightarrow> \<not> has_stream e k
        | Some s \<Rightarrow> has_stream e k \<and> is_intra_stream s = has_intra_stream e k \<and>
            is_inter_stream_mode s Mode_out = has_inter_stream_mode e k Mode_out \<and>
            is_inter_stream_mode s Mode_in = has_inter_stream_mode e k Mode_in"
      using g'(2) unfolding built_from_def by blast
    with None that show ?thesis by simp
  qed (simp flip: um_find_Some_keys)
  have vs: "um_find v (g_vertices g') \<noteq> None \<longleftrightarrow> container_of t v = Some c" for v
    using g'(2) hv[of v] unfolding built_from_def by blast
  obtain y where y: "ex_make_graph h pair cloexec (Some ?e) x = Inr y" "ex_inv y" "ex_dead y = None"
      "ex_threshold y = 2" "channels y = 2" "\<forall>k \<in> set (um_keys (g_streams g')). ex_wired fr pair k y"
      "\<forall>v. (\<exists>i. um_find i (ex_events y) = Some (Ev_start v)) \<longleftrightarrow> um_find v (g_vertices g') \<noteq> None"
    using ex_make_graph_ok[where x = x and t = ?e and g = g' and h = h and fr = fr and pair = pair and cloexec = cloexec]
      x g'(1) ok agent(1) frontiers_match_provided[OF agent(2) g'(2)] by auto
  then show ?thesis using hs vs by (intro exI[of _ y]) simp
qed

text \<open>The standard streams are put back as they were, and the descriptors of the set-up are closed.\<close>

lemma redirect_roundtrip:
  assumes up: "ex_setup_distributed env cloexec (n1, n2) fds x = Inr (fds', a, y)"
    and env: "env_stdout_fd env = Inr out" "env_stderr_fd env = Inr err"
    and d: "distinct [1, 2, n1, n2, out, err]"
  shows "\<exists>f z. ex_teardown_distributed ends (fds', a, y) = Inr (f, \<lparr>ea_stdout_fd = 1, ea_stderr_fd = 2\<rparr>, z) \<and>
    f 1 = fds 1 \<and> f 2 = fds 2 \<and> f n1 = None \<and> f n2 = None \<and> f out = None \<and> f err = None"
proof -
  have ne: "n1 \<noteq> 1" "n1 \<noteq> 2" "n2 \<noteq> 1" "n2 \<noteq> 2" "n1 \<noteq> n2" "out \<noteq> 1" "out \<noteq> 2" "err \<noteq> 1" "err \<noteq> 2"
      "n1 \<noteq> out" "n1 \<noteq> err" "n2 \<noteq> out" "n2 \<noteq> err" "out \<noteq> err"
    using d by auto
  define f0 where "f0 = fds(n1 := fds 1, n2 := fds 2)"
  define f1 where "f1 = f0(1 := f0 out, out := None, 2 := f0 err, err := None)"
  obtain fd where fd: "env_topology_fd env = Inr fd" "cloexec fd = None"
    using up by (cases "env_topology_fd env") (auto simp: ex_setup_distributed_def split: option.splits)
  have a: "a = \<lparr>ea_stdout_fd = n1, ea_stderr_fd = n2\<rparr>" and f: "fds' = f1" and ok: "fds 1 \<noteq> None" "fds 2 \<noteq> None"
    using up env ne fd
    by (auto simp: ex_setup_distributed_def Let_def duplicate_fd_def redirect_fd_def f0_def f1_def
        split: if_splits)
  have v: "f1 n1 = fds 1" "f1 n2 = fds 2" "f1 out = None" "f1 err = None"
    using ne by (simp_all add: f1_def f0_def)
  define f2 where "f2 = f1(1 := fds 1, n1 := None, 2 := fds 2, n2 := None)"
  have "\<exists>z. ex_teardown_distributed ends (fds', a, y) = Inr (f2, \<lparr>ea_stdout_fd = 1, ea_stderr_fd = 2\<rparr>, z)"
    using ne ok v by (simp add: ex_teardown_distributed_def a f redirect_fd_def f2_def)
  moreover have "f2 1 = fds 1" "f2 2 = fds 2" "f2 n1 = None" "f2 n2 = None" "f2 out = None" "f2 err = None"
    using ne v by (simp_all add: f2_def)
  ultimately show ?thesis by blast
qed

section \<open>Properties\<close>

text \<open>C7: A deployed executor is wired as the user drew the graph. A program is submitted, one container
  is extracted, and the executor started for it, with its own copy of the program, gets the extract and
  a descriptor for each inter stream. Then making the graph succeeds; every end of a stream that lies
  in the container is joined to the right device: both ends of an intra stream to the two ends of one
  socket pair, the end of an inter stream to its frontier, an outgoing one being watched too, and an
  end at a vertex that is a program is handed over as a bridge; and exactly the vertices of the
  container are scheduled to start.\<close>

theorem executor_wires_streams:
  assumes "program_ok [] [] [] (g_tasks g)" "g_vertices g = []" "g_streams g = []"
    and "topologize envp (ctr, g) = Inr (t, cg)" "tpg_extract t c = Inr e" "c \<noteq> - 1"
    and "rt_frontiers rt = Inr fr" "frontiers_match e fr pair cloexec"
    and "ex_setup_distributed env cloexec new fds (mk_exec DISTRIBUTED g) = Inr (fds', a, x)"
  shows "\<exists>y. ex_make_graph h pair cloexec (Some (e\<lparr>t_runtime := rt\<rparr>)) x = Inr y \<and>
    (\<forall>k. has_stream e k \<longrightarrow> ex_wired fr pair k y) \<and>
    (\<forall>v. (\<exists>i. um_find i (ex_events y) = Some (Ev_start v)) \<longleftrightarrow> container_of t v = Some c)"
  using ex_deployed[OF assms, of h] by blast

definition demo_env :: runtime where
  "demo_env = [(''DTC_TOPOLOGY_FD'', ''3''), (''DTC_STDOUT_FD'', ''4''), (''DTC_STDERR_FD'', ''5'')]"

definition demo_fds :: "int \<Rightarrow> nat option" where
  "demo_fds fd = (if 0 \<le> fd \<and> fd < 10 then Some (nat fd) else None)"

definition demo_pair :: "key_type \<Rightarrow> (int \<times> int) result" where
  "demo_pair k = Inr (20, 21)"

definition demo_exec :: exec where
  "demo_exec = snd (ex_insert Ev_agent_out (snd (ex_insert Ev_agent_in
     (mk_exec DISTRIBUTED (empty_graph\<lparr>g_tasks := demo_program\<rparr>)))))"

definition demo_run :: "exec result" where
  "demo_run = bind_r demo_extract (\<lambda>e. ex_make_graph ''node'' demo_pair (\<lambda>_. None)
     (Some (e\<lparr>t_runtime := [(''DTC_FRONTIERS'', ''2 7 '')]\<rparr>)) demo_exec)"

lemma demo_setup:
  "\<exists>fds a. ex_setup_distributed demo_env (\<lambda>_. None) (10, 11) demo_fds
     (mk_exec DISTRIBUTED (empty_graph\<lparr>g_tasks := demo_program\<rparr>)) = Inr (fds, a, demo_exec)"
proof -
  have "stoi ''3'' = Inr 3" "stoi ''4'' = Inr 4" "stoi ''5'' = Inr 5" by code_simp+
  then show ?thesis
    by (simp add: ex_setup_distributed_def demo_env_def env_topology_fd_def env_stdout_fd_def env_stderr_fd_def
        duplicate_fd_def redirect_fd_def demo_fds_def Let_def demo_exec_def)
qed

lemma demo_uncritical: "demo_run = Inr y \<Longrightarrow> uncritical y"
proof -
  assume y: "demo_run = Inr y"
  have "case demo_run of Inr y \<Rightarrow> list_all (\<lambda>ks. \<not> gs_critical (snd ks)) (ex_streams y) | Inl _ \<Rightarrow> True"
    by code_simp
  then have l: "list_all (\<lambda>ks. \<not> gs_critical (snd ks)) (ex_streams y)" by (simp add: y)
  show ?thesis unfolding uncritical_def
  proof (intro allI impI)
    fix k s assume "um_find k (ex_streams y) = Some s"
    then have "(k, s) \<in> set (ex_streams y)" by (rule um_find_Some_set)
    with l show "\<not> gs_critical s" by (auto simp: list_all_iff)
  qed
qed

lemma demo_frontiers: "rt_frontiers [(''DTC_FRONTIERS'', ''2 7 '')] = Inr [(2, 7)]"
  by code_simp

lemma demo_match:
  assumes "demo_extract = Inr e"
  shows "frontiers_match e [(2, 7)] demo_pair (\<lambda>_. None)"
proof -
  have "case demo_extract of
      Inr e \<Rightarrow> um_keys (t_streams e) = [2] \<and> has_inter_stream e 2 \<and> \<not> has_intra_stream e 2 | Inl _ \<Rightarrow> False"
    by code_simp
  then have "um_keys (t_streams e) = [2] \<and> has_inter_stream e 2 \<and> \<not> has_intra_stream e 2"
    unfolding assms by simp
  then have e: "um_keys (t_streams e) = [2]" "has_inter_stream e 2" "\<not> has_intra_stream e 2" by blast+
  have "um_find k (t_streams e) = None" if "k \<noteq> 2" for k using e(1) that by (simp add: um_find_None_keys)
  then have "\<not> has_inter_stream e k" "\<not> has_intra_stream e k" if "k \<noteq> 2" for k
    using that by (simp_all add: has_inter_stream_def has_inter_stream_mode_def has_intra_stream_def)
  with e(2,3) show ?thesis by (auto simp: frontiers_match_def demo_pair_def)
qed

theorem executor_wires_streams_witness:
  "\<exists>t y. demo_submitted = Inr t \<and> demo_run = Inr y \<and>
     (\<forall>k. k = 2 \<longrightarrow> ex_wired [(2, 7)] demo_pair k y) \<and>
     (\<forall>v. (\<exists>i. um_find i (ex_events y) = Some (Ev_start v)) \<longleftrightarrow> container_of t v = Some 3)"
proof -
  obtain e where e: "demo_extract = Inr e" using demo_extract_ok by (metis sum.collapse(2))
  then obtain t cg where t: "topologize [] (4, empty_graph\<lparr>g_tasks := demo_program\<rparr>) = Inr (t, cg)"
      "demo_submitted = Inr t" "tpg_extract t 3 = Inr e"
    by (auto simp: demo_extract_def demo_submitted_def)
  let ?g = "empty_graph\<lparr>g_tasks := demo_program\<rparr>"
  have g: "program_ok [] [] [] (g_tasks ?g)" "g_vertices ?g = []" "g_streams ?g = []"
    by (simp_all add: demo_program_ok empty_graph_def)
  have c: "(3 :: key_type) \<noteq> - 1" by simp
  obtain fds a where x: "ex_setup_distributed demo_env (\<lambda>_. None) (10, 11) demo_fds (mk_exec DISTRIBUTED ?g) = Inr (fds, a, demo_exec)"
    using demo_setup by blast
  from executor_wires_streams[OF g t(1,3) c demo_frontiers demo_match[OF e] x, of "''node''"] obtain y where
    y: "demo_run = Inr y" "\<forall>k. has_stream e k \<longrightarrow> ex_wired [(2, 7)] demo_pair k y"
      "\<forall>v. (\<exists>i. um_find i (ex_events y) = Some (Ev_start v)) \<longleftrightarrow> container_of t v = Some 3"
    by (auto simp: demo_run_def e)
  have "has_stream e 2" using demo_match[OF e] by (auto simp: frontiers_match_def has_inter_stream_def
        has_inter_stream_mode_def has_stream_def split: option.splits)
  with y t(2) show ?thesis by blast
qed

text \<open>C8: A deployed executor survives everything but the ends it chooses, and can always wind down.
  Behind the wiring, whatever handlers, user calls, closures, programs and the kernel do, in whatever
  order: no null device or vertex is accessed; the process is ended by \<open>std::exit\<close> with a code, or by
  the assertions in the handler of a vertex program's pipe (executor.cpp:343), and by these only in a
  step in which \<open>read\<close> on that pipe returned something else than 0 or \<open>waitpid\<close> something else than
  the program's number; no other assertion fails. As long as it has not ended, and provided no stream is marked
  critical, there is from the state reached a continuation to a state in which the loop of the reactor
  ends, with no more than the two events of the agent's channel. That the continuation is taken is
  not claimed: a peer may keep its connection open for ever.\<close>

theorem executor_winds_down:
  assumes "program_ok [] [] [] (g_tasks g)" "g_vertices g = []" "g_streams g = []"
    and "topologize envp (ctr, g) = Inr (t, cg)" "tpg_extract t c = Inr e" "c \<noteq> - 1"
    and "rt_frontiers rt = Inr fr" "frontiers_match e fr pair cloexec"
    and "ex_setup_distributed env cloexec new fds (mk_exec DISTRIBUTED g) = Inr (fds', a, x)"
    and "ex_make_graph h pair cloexec (Some (e\<lparr>t_runtime := rt\<rparr>)) x = Inr y" "ex_step\<^sup>*\<^sup>* y z"
  shows "(\<forall>err. ex_dead z = Some err \<longrightarrow> (\<exists>code. err = Exit code) \<or>
        err = Assert_failed \<and>
          (\<exists>w i v pid rd wp st. ex_step\<^sup>*\<^sup>* y w \<and> ex_dead w = None \<and> (i, Ev_program v pid) \<in> set (ex_events w) \<and>
             (rd \<noteq> 0 \<or> wp \<noteq> pid) \<and> z = ex_apply (ex_program_end rd wp st i v pid w) w)) \<and>
    (ex_dead z = None \<and> uncritical y \<longrightarrow>
       (\<exists>u. ex_step\<^sup>*\<^sup>* z u \<and> ex_over u \<and> length (ex_events u) \<le> 2))"
proof -
  have y: "ex_inv y" "ex_threshold y = 2" "channels y = 2"
    using ex_deployed[OF assms(1-9), of h] assms(10) by auto
  have dead: "(\<exists>code. err = Exit code) \<or> err = Assert_failed \<and> (\<exists>w. ex_step\<^sup>*\<^sup>* y w \<and> end_asserts w z)"
    if "ex_dead z = Some err" for err
    using ex_steps_inv[OF assms(11) y(1)] that end_asserts_dead ex_invD(6) by fastforce
  have "\<exists>u. ex_step\<^sup>*\<^sup>* z u \<and> ex_over u \<and> length (ex_events u) \<le> 2" if d: "ex_dead z = None" "uncritical y"
  proof -
    note z = ex_steps_alive[OF assms(11) y(1) d(1)]
    have "uncritical z" "channels z \<le> ex_threshold z" using z(2) y(2,3) d(2) by (auto simp: ex_stays_def)
    from ex_winds_down[OF z(1) d(1) this] obtain u where
      u: "ex_step\<^sup>*\<^sup>* z u" "ex_over u" "length (ex_events u) \<le> ex_threshold u" by blast
    have "ex_stays z u" using ex_steps_alive[OF u(1) z(1)] u(2) by (simp add: ex_over_def)
    with z(2) y(2) u show ?thesis by (auto simp: ex_stays_def)
  qed
  with dead show ?thesis unfolding end_asserts_def by blast
qed

theorem executor_winds_down_witness:
  "\<exists>y u. demo_run = Inr y \<and> ex_step\<^sup>*\<^sup>* y u \<and> ex_over u \<and> length (ex_events u) \<le> 2"
proof -
  obtain e where e: "demo_extract = Inr e" using demo_extract_ok by (metis sum.collapse(2))
  then obtain t cg where t: "topologize [] (4, empty_graph\<lparr>g_tasks := demo_program\<rparr>) = Inr (t, cg)"
      "demo_submitted = Inr t" "tpg_extract t 3 = Inr e"
    by (auto simp: demo_extract_def demo_submitted_def)
  let ?g = "empty_graph\<lparr>g_tasks := demo_program\<rparr>"
  have g: "program_ok [] [] [] (g_tasks ?g)" "g_vertices ?g = []" "g_streams ?g = []"
    by (simp_all add: demo_program_ok empty_graph_def)
  have c: "(3 :: key_type) \<noteq> - 1" by simp
  obtain fds a where x: "ex_setup_distributed demo_env (\<lambda>_. None) (10, 11) demo_fds (mk_exec DISTRIBUTED ?g) = Inr (fds, a, demo_exec)"
    using demo_setup by blast
  note deployed = g t(1,3) c demo_frontiers demo_match[OF e] x
  obtain y where y: "ex_make_graph ''node'' demo_pair (\<lambda>_. None) (Some (e\<lparr>t_runtime := [(''DTC_FRONTIERS'', ''2 7 '')]\<rparr>)) demo_exec = Inr y"
      "ex_dead y = None"
    using ex_deployed[OF deployed, of "''node''"] by blast
  have run: "demo_run = Inr y" using y(1) by (simp add: demo_run_def e)
  have "ex_step\<^sup>*\<^sup>* y y" by simp
  from executor_winds_down[OF deployed y(1) this] y(2) demo_uncritical[OF run] run show ?thesis by blast
qed

end
