(* ===== verification/Master.thy ===== *)
theory Master
  imports Topology TaskInfo
begin

text \<open>
  The master (src/kernel/master.cpp) and its scheduler (src/kernel/scheduler.cpp). All handlers run
  on the reactor's owner thread, one after the other; each is a function from the master's state to
  a new state or an exception. What the master sends is appended to a log, so that \<open>ostream\<close>
  writes are part of the state. The sockets of the channels are not part of the model.

  The threads \<open>_try_dequeue\<close> starts to extract and send the topologies only read shared state and
  are joined before the handler goes on; they are run here in the order of the assignment.

  The theorems are about the states that events lead to which keep to \<open>protocol\<close>: an agent reports its
  resource and a graph sends its topology once per connection (the handlers do not check this), and
  connections and messages come in any other order. A trial placement leaves the master as it was; the
  resources an agent has released plus the ones of its tasks are what the agent reported, so no agent
  is ever given more than it has; graphs are deployed first come first served; a deployed graph has
  exactly one task per container; removing a graph sends its report and kills its tasks.
\<close>

section \<open>State\<close>

record cpu_bin =
  cb_idx :: int
  cb_tasks :: "task_id list"

record agent_task =
  at_topology :: topology
  at_cpu_bins :: "nat list"

record m_agent =
  a_key :: key_type
  a_resource :: "resource option"
  a_released :: "resource option"
  a_cpu_bins :: "cpu_bin list"
  a_tasks :: "(task_id \<times> agent_task) list"

record m_graph =
  mg_key :: key_type
  mg_topology :: "topology option"
  mg_solution :: "solution option"
  mg_placement :: "(task_id \<times> key_type) list"

datatype master_msg =
    Deploy key_type topology
  | Kill_task key_type task_id
  | Report key_type solution
  | Close_agent key_type
  | Close_graph key_type
  | Close_webui key_type

record master =
  m_agents :: "(key_type \<times> m_agent) list"
  m_graphs :: "(key_type \<times> m_graph) list"
  m_webuis :: "(key_type \<times> key_type) list"
  m_queue :: "key_type list"
  m_agent_generator :: key_type
  m_graph_generator :: key_type
  m_webui_generator :: key_type
  m_out :: "master_msg list"

definition mk_agent :: "key_type \<Rightarrow> m_agent" where
  "mk_agent k = \<lparr>a_key = k, a_resource = None, a_released = None, a_cpu_bins = [], a_tasks = []\<rparr>"

definition mk_graph :: "key_type \<Rightarrow> m_graph" where
  "mk_graph k = \<lparr>mg_key = k, mg_topology = None, mg_solution = None, mg_placement = []\<rparr>"

definition master_init :: master where
  "master_init = \<lparr>m_agents = [], m_graphs = [], m_webuis = [], m_queue = [], m_agent_generator = 0,
     m_graph_generator = 0, m_webui_generator = 0, m_out = []\<rparr>"

definition send :: "master_msg \<Rightarrow> master \<Rightarrow> master" where
  "send x m = m\<lparr>m_out := m_out m @ [x]\<rparr>"

definition deref :: "'a option \<Rightarrow> 'a result" where
  "deref p = (case p of Some x \<Rightarrow> Inr x | None \<Rightarrow> Inl (Undefined ''access to a disengaged optional''))"

section \<open>Agents and graphs\<close>

definition graph_update :: "task_info \<Rightarrow> m_graph \<Rightarrow> m_graph result" where
  "graph_update info G =
     (case um_find (ti_task_id info) (mg_placement G) of
        None \<Rightarrow> Inr G
      | Some _ \<Rightarrow>
          bind_r (deref (mg_solution G)) (\<lambda>s.
            Inr (G\<lparr>mg_placement := um_erase (ti_task_id info) (mg_placement G),
                   mg_solution := Some (s\<lparr>sol_taskinfos := sol_taskinfos s @ [info]\<rparr>)\<rparr>)))"

definition erase_from_bin :: "task_id \<Rightarrow> nat \<Rightarrow> cpu_bin list \<Rightarrow> cpu_bin list result" where
  "erase_from_bin tid b bins =
     (if b < length bins
      then Inr (bins[b := (bins ! b)\<lparr>cb_tasks := filter (\<lambda>t. t \<noteq> tid) (cb_tasks (bins ! b))\<rparr>])
      else Inl (Undefined ''cpu_bins out of range''))"

text \<open>\<open>operator +=\<close> does not read the host of its right operand, so the host of the temporary
  \<open>topology.resource()\<close> is left empty here.\<close>

definition agent_remove :: "task_id \<Rightarrow> m_agent \<Rightarrow> m_agent result" where
  "agent_remove tid A =
     (case um_find tid (a_tasks A) of
        None \<Rightarrow> Inr A
      | Some t \<Rightarrow>
          bind_r (fold_r (erase_from_bin tid) (at_cpu_bins t) (a_cpu_bins A)) (\<lambda>bins.
          bind_r (deref (a_released A)) (\<lambda>r.
            Inr (A\<lparr>a_cpu_bins := bins,
                   a_released := Some (res_add r (tpg_resource '''' (at_topology t))),
                   a_tasks := um_erase tid (a_tasks A)\<rparr>))))"

definition agent_kill :: "key_type \<Rightarrow> m_agent \<Rightarrow> task_id \<Rightarrow> master \<Rightarrow> master" where
  "agent_kill akey A tid m =
     (case um_find tid (a_tasks A) of None \<Rightarrow> m | Some _ \<Rightarrow> send (Kill_task akey tid) m)"

definition num_agents :: "master \<Rightarrow> nat" where
  "num_agents m = length (m_agents m)"

definition num_graphs :: "master \<Rightarrow> nat" where
  "num_graphs m = length (m_graphs m)"

definition num_webuis :: "master \<Rightarrow> nat" where
  "num_webuis m = length (m_webuis m)"

definition insert_agent :: "master \<Rightarrow> key_type \<times> master" where
  "insert_agent m =
     (let key = m_agent_generator m
      in (key, m\<lparr>m_agent_generator := key + 1, m_agents := um_try_emplace key (mk_agent key) (m_agents m)\<rparr>))"

definition insert_graph :: "master \<Rightarrow> key_type \<times> master" where
  "insert_graph m =
     (let key = m_graph_generator m
      in (key, m\<lparr>m_graph_generator := key + 1, m_graphs := um_try_emplace key (mk_graph key) (m_graphs m)\<rparr>))"

definition insert_webui :: "master \<Rightarrow> key_type \<times> master" where
  "insert_webui m =
     (let key = m_webui_generator m
      in (key, m\<lparr>m_webui_generator := key + 1, m_webuis := um_try_emplace key key (m_webuis m)\<rparr>))"

definition remove_webui :: "key_type \<Rightarrow> master \<Rightarrow> master" where
  "remove_webui key m =
     (case um_find key (m_webuis m) of
        None \<Rightarrow> m
      | Some _ \<Rightarrow> (send (Close_webui key) m)\<lparr>m_webuis := um_erase key (m_webuis m)\<rparr>)"

definition kill_placed :: "task_id \<times> key_type \<Rightarrow> master \<Rightarrow> master" where
  "kill_placed ta m =
     (case um_find (snd ta) (m_agents m) of
        None \<Rightarrow> m
      | Some A \<Rightarrow> agent_kill (snd ta) A (fst ta) m)"

definition remove_graph :: "key_type \<Rightarrow> master \<Rightarrow> master result" where
  "remove_graph key m =
     (case um_find key (m_graphs m) of
        None \<Rightarrow> Inr m
      | Some G \<Rightarrow>
          (let m = fold kill_placed (mg_placement G) m
           in bind_r (deref (mg_solution G)) (\<lambda>s.
              let m = send (Close_graph key) (send (Report key s) m)
              in Inr (m\<lparr>m_graphs := um_erase key (m_graphs m)\<rparr>))))"

definition remove_agent :: "key_type \<Rightarrow> master \<Rightarrow> master result" where
  "remove_agent key m =
     (case um_find key (m_agents m) of
        None \<Rightarrow> Inr m
      | Some A \<Rightarrow>
          bind_r (fold_r (\<lambda>t. remove_graph (tid_graph (fst t))) (a_tasks A) m) (\<lambda>m.
            let m = send (Close_agent key) m
            in Inr (m\<lparr>m_agents := um_erase key (m_agents m)\<rparr>)))"

section \<open>The scheduler\<close>

text \<open>\<open>_try_enqueue\<close> works on the total resources of the agents, \<open>_try_dequeue\<close> on the
  released ones; the placement loop is otherwise the same code in both.\<close>

datatype pool = Pool_resource | Pool_released

definition pool_get :: "pool \<Rightarrow> m_agent \<Rightarrow> resource option" where
  "pool_get p A = (case p of Pool_resource \<Rightarrow> a_resource A | Pool_released \<Rightarrow> a_released A)"

definition pool_put :: "pool \<Rightarrow> resource \<Rightarrow> m_agent \<Rightarrow> m_agent" where
  "pool_put p r A = (case p of Pool_resource \<Rightarrow> A\<lparr>a_resource := Some r\<rparr> | Pool_released \<Rightarrow> A\<lparr>a_released := Some r\<rparr>)"

text \<open>The loop over the agents for one container: the smallest agent that fits, \<open>-1\<close> if none.\<close>

definition better :: "pool \<Rightarrow> (key_type \<times> m_agent) list \<Rightarrow> resource \<Rightarrow> key_type \<times> m_agent \<Rightarrow> key_type \<Rightarrow> key_type result" where
  "better p agents req ka best =
     (case pool_get p (snd ka) of
        None \<Rightarrow> Inr best
      | Some r \<Rightarrow>
          if res_ge r req then
            if best = - 1 then Inr (fst ka)
            else bind_r (um_at best agents) (\<lambda>B. bind_r (deref (pool_get p B)) (\<lambda>rb.
                   if res_lt r rb then Inr (fst ka) else Inr best))
          else Inr best)"

definition best_fit :: "pool \<Rightarrow> (key_type \<times> m_agent) list \<Rightarrow> resource \<Rightarrow> key_type result" where
  "best_fit p agents req = fold_r (better p agents req) agents (- 1)"

definition pool_update ::
  "pool \<Rightarrow> (resource \<Rightarrow> resource result) \<Rightarrow> key_type \<Rightarrow> (key_type \<times> m_agent) list \<Rightarrow> (key_type \<times> m_agent) list result" where
  "pool_update p f a agents =
     bind_r (um_at a agents) (\<lambda>A. bind_r (deref (pool_get p A)) (\<lambda>r. bind_r (f r) (\<lambda>r.
       Inr (um_assign a (pool_put p r A) agents))))"

type_synonym assignment = "(key_type \<times> key_type) list"

fun place_loop ::
  "pool \<Rightarrow> (key_type \<times> container) list \<Rightarrow> (key_type \<times> m_agent) list \<Rightarrow> assignment \<Rightarrow>
   ((key_type \<times> m_agent) list \<times> assignment) result" where
  "place_loop p [] agents c2a = Inr (agents, c2a)"
| "place_loop p ((ckey, c) # cs) agents c2a =
     bind_r (best_fit p agents (c_resource c)) (\<lambda>best.
       if best = - 1 then Inr (agents, c2a)
       else bind_r (pool_update p (\<lambda>r. res_sub r (c_resource c)) best agents) (\<lambda>agents.
              place_loop p cs agents (um_assign ckey best c2a)))"

definition give_back ::
  "pool \<Rightarrow> topology \<Rightarrow> key_type \<times> key_type \<Rightarrow> (key_type \<times> m_agent) list \<Rightarrow> (key_type \<times> m_agent) list result" where
  "give_back p t ca agents =
     bind_r (um_at (snd ca) agents) (\<lambda>A. bind_r (um_at (fst ca) (t_containers t)) (\<lambda>c.
       pool_update p (\<lambda>r. Inr (res_add r (c_resource c))) (snd ca) agents))"

definition try_enqueue :: "m_graph \<Rightarrow> master \<Rightarrow> (bool \<times> master) result" where
  "try_enqueue G m =
     bind_r (deref (mg_topology G)) (\<lambda>t.
     bind_r (place_loop Pool_resource (t_containers t) (m_agents m) []) (\<lambda>(agents, c2a).
     bind_r (fold_r (give_back Pool_resource t) c2a agents) (\<lambda>agents.
       Inr (length c2a = length (t_containers t), m\<lparr>m_agents := agents\<rparr>))))"

text \<open>The body of the thread started for one container. The hosts of all vertices at the ends of
  its streams are looked up in the assignment.\<close>

definition host_of_vertex ::
  "topology \<Rightarrow> (key_type \<times> m_agent) list \<Rightarrow> assignment \<Rightarrow> key_type \<Rightarrow> string result" where
  "host_of_vertex t agents c2a v =
     bind_r (um_at v (t_vertices t)) (\<lambda>x.
     bind_r (um_at (v_container x) c2a) (\<lambda>a.
     bind_r (um_at a agents) (\<lambda>A.
     bind_r (deref (a_released A)) (\<lambda>r. Inr (host r)))))"

definition stream_hosts ::
  "topology \<Rightarrow> (key_type \<times> m_agent) list \<Rightarrow> assignment \<Rightarrow> key_type \<times> stream \<Rightarrow>
   (key_type \<times> string) list \<Rightarrow> (key_type \<times> string) list result" where
  "stream_hosts t agents c2a kvp vhosts =
     bind_r (host_of_vertex t agents c2a (s_head (snd kvp))) (\<lambda>hh.
     bind_r (host_of_vertex t agents c2a (s_tail (snd kvp))) (\<lambda>th.
       Inr (um_try_emplace (s_tail (snd kvp)) th (um_try_emplace (s_head (snd kvp)) hh vhosts))))"

definition deploy_container ::
  "topology \<Rightarrow> (key_type \<times> m_agent) list \<Rightarrow> assignment \<Rightarrow> key_type \<Rightarrow> topology result" where
  "deploy_container t agents c2a c =
     bind_r (tpg_extract t c) (\<lambda>tpg.
     bind_r (fold_r (stream_hosts t agents c2a) (t_streams tpg) []) (\<lambda>vhosts.
       Inr (tpg\<lparr>t_runtime := rt_set_vertex_hosts (vhosts_text vhosts) (t_runtime tpg)\<rparr>)))"

text \<open>Synchronising with one thread: the task is entered in the graph's placement and in the agent,
  always in the first bin.\<close>

definition topology_task_id :: "topology \<Rightarrow> task_id" where
  "topology_task_id t = mk_tid (t_graph t) (t_topology t)"

definition agent_assign :: "topology \<Rightarrow> m_agent \<Rightarrow> m_agent result" where
  "agent_assign tpg A =
     (let tid = topology_task_id tpg
      in case a_cpu_bins A of
           [] \<Rightarrow> Inl (Undefined ''cpu_bins[0] of an agent without bins'')
         | b # bs \<Rightarrow>
             Inr (A\<lparr>a_cpu_bins := b\<lparr>cb_tasks := List.insert tid (cb_tasks b)\<rparr> # bs,
                    a_tasks := um_try_emplace tid \<lparr>at_topology = tpg, at_cpu_bins = [0]\<rparr> (a_tasks A)\<rparr>))"

definition place_task ::
  "key_type \<Rightarrow> key_type \<times> topology \<Rightarrow> master \<Rightarrow> master result" where
  "place_task gkey at m =
     bind_r (um_at gkey (m_graphs m)) (\<lambda>G.
     bind_r (um_at (fst at) (m_agents m)) (\<lambda>A.
     bind_r (agent_assign (snd at) A) (\<lambda>A.
       Inr (m\<lparr>m_graphs := um_assign gkey (G\<lparr>mg_placement :=
                um_assign (topology_task_id (snd at)) (fst at) (mg_placement G)\<rparr>) (m_graphs m),
              m_agents := um_assign (fst at) A (m_agents m)\<rparr>))))"

text \<open>The thread of one container also writes the topology to the agent's output stream.\<close>

definition deploy_one ::
  "topology \<Rightarrow> assignment \<Rightarrow> key_type \<times> key_type \<Rightarrow> (key_type \<times> topology) list \<times> master \<Rightarrow>
   ((key_type \<times> topology) list \<times> master) result" where
  "deploy_one t c2a ca st =
     bind_r (deploy_container t (m_agents (snd st)) c2a (fst ca)) (\<lambda>tpg.
       Inr (fst st @ [(snd ca, tpg)], send (Deploy (snd ca) tpg) (snd st)))"

definition try_dequeue :: "key_type \<Rightarrow> master \<Rightarrow> (bool \<times> master) result" where
  "try_dequeue gkey m =
     bind_r (um_at gkey (m_graphs m)) (\<lambda>G.
     bind_r (deref (mg_topology G)) (\<lambda>t.
     bind_r (place_loop Pool_released (t_containers t) (m_agents m) []) (\<lambda>(agents, c2a).
       if length c2a \<noteq> length (t_containers t)
       then bind_r (fold_r (give_back Pool_released t) c2a agents) (\<lambda>agents. Inr (False, m\<lparr>m_agents := agents\<rparr>))
       else bind_r (fold_r (deploy_one t c2a) c2a ([], m\<lparr>m_agents := agents\<rparr>)) (\<lambda>(futures, m).
            if mg_placement G \<noteq> [] then Inl Assert_failed
            else bind_r (fold_r (place_task gkey) futures m) (\<lambda>m. Inr (True, m))))))"

definition enqueue :: "key_type \<Rightarrow> master \<Rightarrow> (bool \<times> master) result" where
  "enqueue gkey m =
     bind_r (um_at gkey (m_graphs m)) (\<lambda>G.
     bind_r (try_enqueue G m) (\<lambda>(ok, m).
       if \<not> ok then Inr (False, m) else Inr (True, m\<lparr>m_queue := m_queue m @ [mg_key G]\<rparr>)))"

text \<open>\<open>_dequeue\<close> takes the queue from the front; it stops at the first graph that does not fit
  and drops the keys of graphs that are gone. The recursion is over the queue, which the body does not
  change otherwise.\<close>

fun dequeue_loop :: "key_type list \<Rightarrow> master \<Rightarrow> nat \<Rightarrow> (nat \<times> master) result" where
  "dequeue_loop [] m n = Inr (n, m)"
| "dequeue_loop (key # q) m n =
     (case um_find key (m_graphs m) of
        None \<Rightarrow> dequeue_loop q (m\<lparr>m_queue := q\<rparr>) (n + 1)
      | Some G \<Rightarrow>
          bind_r (try_dequeue key m) (\<lambda>(ok, m).
            if \<not> ok then Inr (n, m) else dequeue_loop q (m\<lparr>m_queue := q\<rparr>) (n + 1)))"

definition dequeue :: "master \<Rightarrow> (nat \<times> master) result" where
  "dequeue m = dequeue_loop (m_queue m) m 0"

section \<open>Message handlers\<close>

definition on_taskinfo :: "key_type \<Rightarrow> task_info \<Rightarrow> master \<Rightarrow> master result" where
  "on_taskinfo akey info m =
     bind_r (case um_find akey (m_agents m) of
               None \<Rightarrow> Inr m
             | Some A \<Rightarrow> bind_r (agent_remove (ti_task_id info) A) (\<lambda>A.
                 Inr (m\<lparr>m_agents := um_assign akey A (m_agents m)\<rparr>))) (\<lambda>m.
     bind_r (case um_find (tid_graph (ti_task_id info)) (m_graphs m) of
               None \<Rightarrow> Inr m
             | Some G \<Rightarrow> bind_r (graph_update info G) (\<lambda>G.
                 let m = m\<lparr>m_graphs := um_assign (tid_graph (ti_task_id info)) G (m_graphs m)\<rparr>
                 in if has_error info \<or> length (mg_placement G) = 0
                    then remove_graph (mg_key G) m else Inr m)) (\<lambda>m.
     bind_r (dequeue m) (\<lambda>(_, m). Inr m)))"

text \<open>The bins are numbered by an \<open>unsigned\<close> counter compared with a 64-bit amount: with
  4294967296 processors or more the loop does not end.\<close>

definition on_resource :: "key_type \<Rightarrow> resource \<Rightarrow> master \<Rightarrow> master result" where
  "on_resource key res m =
     bind_r (case um_find key (m_agents m) of
               None \<Rightarrow> Inr m
             | Some A \<Rightarrow>
                 if num_cpus res \<ge> 4294967296 then Inl (Undefined ''the loop over the cpus does not end'')
                 else Inr (m\<lparr>m_agents := um_assign key
                     (A\<lparr>a_resource := Some res, a_released := Some res,
                        a_cpu_bins := a_cpu_bins A @
                          map (\<lambda>cpu. \<lparr>cb_idx = int cpu, cb_tasks = []\<rparr>) [0..<unat (num_cpus res)]\<rparr>)
                     (m_agents m)\<rparr>)) (\<lambda>m.
     bind_r (dequeue m) (\<lambda>(_, m). Inr m))"

definition no_fit_message :: string where
  "no_fit_message = ''Resource request doesn'' @ [CHR 0x27] @ ''t fit in cluster''"

definition on_topology :: "key_type \<Rightarrow> topology \<Rightarrow> master \<Rightarrow> master result" where
  "on_topology key tpg m =
     (case um_find key (m_graphs m) of
        None \<Rightarrow> Inr m
      | Some G \<Rightarrow>
          (let G = G\<lparr>mg_topology := Some (tpg\<lparr>t_graph := key\<rparr>), mg_solution := Some (mk_solution key)\<rparr>;
               m = m\<lparr>m_graphs := um_assign key G (m_graphs m)\<rparr>
           in bind_r (enqueue key m) (\<lambda>(ok, m).
              if \<not> ok then
                bind_r (um_at key (m_graphs m)) (\<lambda>G.
                bind_r (deref (mg_solution G)) (\<lambda>s.
                  remove_graph key (m\<lparr>m_graphs := um_assign key
                    (G\<lparr>mg_solution := Some (s\<lparr>sol_what := no_fit_message\<rparr>)\<rparr>) (m_graphs m)\<rparr>)))
              else bind_r (dequeue m) (\<lambda>(_, m). Inr m))))"

section \<open>Cluster information for the web interface\<close>

record agent_info =
  ai_key :: key_type
  ai_resource :: resource
  ai_released :: resource
  ai_num_tasks :: nat

record cluster_info =
  ci_host :: string
  ci_num_agents :: nat
  ci_num_graphs :: nat
  ci_agents :: "agent_info list"

definition master_cluster_info :: "runtime \<Rightarrow> master \<Rightarrow> cluster_info result" where
  "master_cluster_info env m =
     bind_r (fold_r (\<lambda>ka infos.
               case a_resource (snd ka) of
                 None \<Rightarrow> Inr infos
               | Some r \<Rightarrow> bind_r (deref (a_released (snd ka))) (\<lambda>rel.
                   Inr (infos @ [\<lparr>ai_key = fst ka, ai_resource = r, ai_released = rel,
                                  ai_num_tasks = length (a_tasks (snd ka))\<rparr>]))) (m_agents m) [])
       (\<lambda>infos. Inr \<lparr>ci_host = env_this_host env, ci_num_agents = length (m_agents m),
                     ci_num_graphs = length (m_graphs m), ci_agents = infos\<rparr>)"

section \<open>Best fit\<close>

lemma deref_simps [simp]: "deref (Some x) = Inr x" "deref None = Inl (Undefined ''access to a disengaged optional'')"
  by (simp_all add: deref_def)

lemma pool_get_put [simp]: "pool_get p (pool_put p r A) = Some r"
  by (cases p) (simp_all add: pool_get_def pool_put_def)

lemma pool_put_put [simp]: "pool_put p r (pool_put p s A) = pool_put p r A"
  by (cases p) (simp_all add: pool_put_def)

lemma pool_put_get: "pool_get p A = Some r \<Longrightarrow> pool_put p r A = A"
  by (cases p) (simp_all add: pool_get_def pool_put_def)

definition fitting :: "pool \<Rightarrow> (key_type \<times> m_agent) list \<Rightarrow> resource \<Rightarrow> key_type \<Rightarrow> resource \<Rightarrow> bool" where
  "fitting p agents req a r \<longleftrightarrow> (\<exists>A. um_find a agents = Some A \<and> pool_get p A = Some r \<and> res_ge r req)"

definition best_so_far :: "pool \<Rightarrow> (key_type \<times> m_agent) list \<Rightarrow> resource \<Rightarrow> key_type set \<Rightarrow> key_type \<Rightarrow> bool" where
  "best_so_far p agents req seen best \<longleftrightarrow>
     (if best = - 1 then \<forall>a \<in> seen. \<forall>r. \<not> fitting p agents req a r
      else \<exists>r. fitting p agents req best r \<and> (\<forall>a \<in> seen. \<forall>s. fitting p agents req a s \<longrightarrow> \<not> res_lt s r))"

lemma fitting_unique: "fitting p agents req a r \<Longrightarrow> fitting p agents req a s \<Longrightarrow> r = s"
  by (auto simp: fitting_def)

lemma best_so_far_skip:
  assumes "best_so_far p agents req seen best"
    and "\<And>r rb. fitting p agents req a r \<Longrightarrow> fitting p agents req best rb \<Longrightarrow> best \<noteq> - 1 \<and> \<not> res_lt r rb"
    and "\<And>r. fitting p agents req a r \<Longrightarrow> best \<noteq> - 1"
  shows "best_so_far p agents req (insert a seen) best"
proof (cases "best = - 1")
  case True
  then show ?thesis using assms(1,3) by (auto simp: best_so_far_def)
next
  case False
  then obtain rb where "fitting p agents req best rb"
    "\<forall>a \<in> seen. \<forall>s. fitting p agents req a s \<longrightarrow> \<not> res_lt s rb"
    using assms(1) by (auto simp: best_so_far_def)
  then show ?thesis using False assms(2) unfolding best_so_far_def by (metis insert_iff)
qed

lemma best_so_far_take:
  assumes "best_so_far p agents req seen best" "fitting p agents req a r" "a \<noteq> - 1"
    and "\<And>rb. best \<noteq> - 1 \<Longrightarrow> fitting p agents req best rb \<Longrightarrow> res_lt r rb"
  shows "best_so_far p agents req (insert a seen) a"
proof -
  have "\<not> res_lt s r" if cs: "c \<in> insert a seen" "fitting p agents req c s" for c s
  proof (cases "c = a")
    case True
    then show ?thesis using fitting_unique [OF assms(2), of s] cs by auto
  next
    case False
    then have c: "c \<in> seen" using cs by simp
    show ?thesis
    proof (cases "best = - 1")
      case True
      then show ?thesis using assms(1) c cs by (auto simp: best_so_far_def)
    next
      case nb: False
      then obtain rb where rb: "fitting p agents req best rb" "\<not> res_lt s rb"
        using assms(1) c cs by (auto simp: best_so_far_def)
      then show ?thesis using assms(4) [OF nb rb(1)] res_lt_trans by blast
    qed
  qed
  then show ?thesis using assms(2,3) by (auto simp: best_so_far_def)
qed

lemma better_step:
  assumes "um_find a agents = Some A" "a \<noteq> - 1" "best_so_far p agents req seen best"
  shows "\<exists>b. better p agents req (a, A) best = Inr b \<and> best_so_far p agents req (insert a seen) b"
proof (cases "\<exists>r. fitting p agents req a r")
  case False
  then have "better p agents req (a, A) best = Inr best"
    using assms(1) by (auto simp: better_def fitting_def split: option.splits)
  then show ?thesis using False best_so_far_skip [OF assms(3)] by blast
next
  case True
  then obtain r where r: "fitting p agents req a r" by blast
  then have rA: "pool_get p A = Some r" "res_ge r req" using assms(1) by (auto simp: fitting_def)
  show ?thesis
  proof (cases "best = - 1")
    case True
    then show ?thesis
      using best_so_far_take [OF assms(3) r assms(2)] rA by (simp add: better_def)
  next
    case False
    then obtain rb where rb: "fitting p agents req best rb" using assms(3) by (auto simp: best_so_far_def)
    then have step: "better p agents req (a, A) best = Inr (if res_lt r rb then a else best)"
      using rA False by (auto simp: better_def fitting_def)
    show ?thesis
    proof (cases "res_lt r rb")
      case True
      then show ?thesis
        using best_so_far_take [OF assms(3) r assms(2)] step fitting_unique [OF rb] by auto
    next
      case nl: False
      then show ?thesis
        using best_so_far_skip [OF assms(3), of a] step False fitting_unique [OF rb] fitting_unique [OF r]
        by auto
    qed
  qed
qed

lemma best_fit_fold:
  assumes "um_wf agents" "- 1 \<notin> set (um_keys agents)" "set xs \<subseteq> set agents" "best_so_far p agents req seen best"
  shows "\<exists>b. fold_r (better p agents req) xs best = Inr b \<and>
     best_so_far p agents req (seen \<union> set (um_keys xs)) b"
  using assms(3,4)
proof (induction xs arbitrary: seen best)
  case Nil
  then show ?case by simp
next
  case (Cons x xs)
  obtain a A where x: "x = (a, A)" by (cases x)
  have f: "um_find a agents = Some A" using Cons.prems(1) assms(1) by (auto simp: x um_find_set)
  then have "a \<noteq> - 1" using assms(2) by (metis um_find_Some_keys)
  then obtain b where "better p agents req x best = Inr b" "best_so_far p agents req (insert a seen) b"
    using better_step [OF f _ Cons.prems(2)] x by blast
  then show ?case using Cons.IH [of "insert a seen" b] Cons.prems(1) by (simp add: x insert_commute)
qed

text \<open>The chosen agent fits the request, and no fitting agent is smaller in all three amounts; \<open>-1\<close>
  means that no agent fits.\<close>

lemma best_fit_ok:
  assumes "um_wf agents" "- 1 \<notin> set (um_keys agents)"
  obtains b where "best_fit p agents req = Inr b"
    "b = - 1 \<Longrightarrow> \<forall>a r. \<not> fitting p agents req a r"
    "b \<noteq> - 1 \<Longrightarrow> \<exists>r. fitting p agents req b r \<and> (\<forall>a s. fitting p agents req a s \<longrightarrow> \<not> res_lt s r)"
proof -
  have k: "a \<in> set (um_keys agents)" if "fitting p agents req a r" for a r
    using that by (auto simp: fitting_def simp flip: um_find_Some_keys)
  obtain b where b: "best_fit p agents req = Inr b" "best_so_far p agents req (set (um_keys agents)) b"
    using best_fit_fold [OF assms, of agents p req "{}" "- 1"] by (auto simp: best_fit_def best_so_far_def)
  have "b = - 1 \<Longrightarrow> \<forall>a r. \<not> fitting p agents req a r"
    using b(2) k by (auto simp: best_so_far_def)
  moreover have "b \<noteq> - 1 \<Longrightarrow> \<exists>r. fitting p agents req b r \<and> (\<forall>a s. fitting p agents req a s \<longrightarrow> \<not> res_lt s r)"
    using b(2) k unfolding best_so_far_def by meson
  ultimately show ?thesis using b(1) that by blast
qed

section \<open>Trial placement\<close>

text \<open>\<open>agents\<close> is \<open>agents0\<close> with, per agent, the amounts \<open>used\<close> drawn from one pool.\<close>

definition drawn_at :: "pool \<Rightarrow> m_agent \<Rightarrow> m_agent \<Rightarrow> rvec \<Rightarrow> bool" where
  "drawn_at p A0 A u \<longleftrightarrow>
     (case pool_get p A0 of
        None \<Rightarrow> A = A0 \<and> u = 0
      | Some r0 \<Rightarrow> \<exists>r. A = pool_put p r A0 \<and> host r = host r0 \<and> rvec_of r + u = rvec_of r0)"

definition drawn ::
  "pool \<Rightarrow> (key_type \<times> m_agent) list \<Rightarrow> (key_type \<times> m_agent) list \<Rightarrow> (key_type \<Rightarrow> rvec) \<Rightarrow> bool" where
  "drawn p agents0 agents used \<longleftrightarrow>
     um_keys agents = um_keys agents0 \<and>
     (\<forall>a A0. um_find a agents0 = Some A0 \<longrightarrow>
        (\<exists>A. um_find a agents = Some A \<and> drawn_at p A0 A (used a)))"

definition load :: "topology \<Rightarrow> assignment \<Rightarrow> key_type \<Rightarrow> rvec" where
  "load t c2a a = sum_list (map (\<lambda>ca. case um_find (fst ca) (t_containers t) of
       Some c \<Rightarrow> rvec_of (c_resource c) | None \<Rightarrow> 0) (filter (\<lambda>ca. snd ca = a) c2a))"

lemma load_Nil [simp]: "load t [] = (\<lambda>_. 0)"
  by (simp add: load_def fun_eq_iff)

lemma load_Cons: "load t ((c, b) # c2a) =
   (load t c2a)(b := (case um_find c (t_containers t) of Some x \<Rightarrow> rvec_of (c_resource x) | None \<Rightarrow> 0) + load t c2a b)"
  by (simp add: load_def fun_eq_iff)

lemma load_snoc: "load t (c2a @ [(c, b)]) =
   (load t c2a)(b := load t c2a b + (case um_find c (t_containers t) of Some x \<Rightarrow> rvec_of (c_resource x) | None \<Rightarrow> 0))"
  by (simp add: load_def fun_eq_iff)

lemma drawn_at_refl: "drawn_at p A A 0"
  by (auto simp: drawn_at_def split: option.splits) (metis pool_put_get)

lemma drawn_refl: "drawn p agents agents (\<lambda>_. 0)"
  by (simp add: drawn_def drawn_at_refl)

lemma drawn_some:
  assumes "drawn p agents0 agents used" "um_find a agents0 = Some A0" "pool_get p A0 = Some r0"
  shows "\<exists>r. um_find a agents = Some (pool_put p r A0) \<and> host r = host r0 \<and> rvec_of r + used a = rvec_of r0"
proof -
  obtain A where "um_find a agents = Some A" "drawn_at p A0 A (used a)"
    using assms(1,2) by (auto simp: drawn_def)
  then show ?thesis using assms(3) by (auto simp: drawn_at_def)
qed

lemma drawn_no:
  assumes "drawn p agents0 agents used" "um_find a agents0 = Some A0" "pool_get p A0 = None"
  shows "um_find a agents = Some A0 \<and> used a = 0"
proof -
  obtain A where "um_find a agents = Some A" "drawn_at p A0 A (used a)"
    using assms(1,2) by (auto simp: drawn_def)
  then show ?thesis using assms(3) by (auto simp: drawn_at_def)
qed

lemma drawn_wf: "drawn p agents0 agents used \<Longrightarrow> um_wf agents = um_wf agents0"
  by (simp add: drawn_def um_wf_def)

lemma drawn_find:
  assumes "drawn p agents0 agents used" "um_find a agents = Some A" "pool_get p A = Some r"
  obtains A0 r0 where "um_find a agents0 = Some A0" "pool_get p A0 = Some r0" "A = pool_put p r A0"
    "host r = host r0" "rvec_of r + used a = rvec_of r0"
proof -
  have "a \<in> set (um_keys agents0)"
    using assms(1,2) um_find_Some_keys [of a agents] by (auto simp: drawn_def)
  then obtain A0 where A0: "um_find a agents0 = Some A0" using in_set_conv_decomp um_find_Some_keys by metis
  show ?thesis
  proof (cases "pool_get p A0")
    case None
    then show ?thesis using drawn_no [OF assms(1) A0] assms(2,3) by simp
  next
    case (Some r0)
    then obtain q where "um_find a agents = Some (pool_put p q A0)" "host q = host r0" "rvec_of q + used a = rvec_of r0"
      using drawn_some [OF assms(1) A0] by blast
    then show ?thesis using that [OF A0 Some] assms(2,3) by auto
  qed
qed

lemma drawn_assign:
  assumes "drawn p agents0 agents used" "um_find a agents0 = Some A0" "pool_get p A0 = Some r0"
    and "host r = host r0" "rvec_of r + u = rvec_of r0"
  shows "drawn p agents0 (um_assign a (pool_put p r A0) agents) (used(a := u))"
proof -
  obtain q where "um_find a agents = Some (pool_put p q A0)"
    using drawn_some [OF assms(1-3)] by blast
  then show ?thesis
    using assms by (auto simp: drawn_def dict_simps um_keys_assign_present drawn_at_def [of _ A0])
qed

lemma drawn_take:
  assumes d: "drawn p agents0 agents used" and f: "fitting p agents req a r"
  shows "\<exists>agents'. pool_update p (\<lambda>r. res_sub r req) a agents = Inr agents' \<and>
     drawn p agents0 agents' (used(a := used a + rvec_of req))"
proof -
  obtain A where A: "um_find a agents = Some A" "pool_get p A = Some r" "res_ge r req"
    using f by (auto simp: fitting_def)
  obtain A0 r0 where A0: "um_find a agents0 = Some A0" "pool_get p A0 = Some r0" "A = pool_put p r A0"
    "host r = host r0" "rvec_of r + used a = rvec_of r0"
    using drawn_find [OF d A(1,2)] .
  obtain s where s: "res_sub r req = Inr s" "host s = host r" using res_sub_defined [OF A(3)] by blast
  have "rvec_of s + (used a + rvec_of req) = rvec_of r0"
    using res_sub_rvec [OF s(1)] A0(5) by (metis add.commute add.left_commute)
  then have "drawn p agents0 (um_assign a (pool_put p s A0) agents) (used(a := used a + rvec_of req))"
    using drawn_assign [OF d A0(1,2)] s(2) A0(4) by simp
  then show ?thesis using A s A0(3) by (auto simp: pool_update_def)
qed

lemma res_eq_rvec: "host r = host s \<Longrightarrow> rvec_of r = rvec_of s \<Longrightarrow> r = s"
  by (cases r; cases s) (auto simp: rvec_of_def word_unat_eq_iff)

lemma drawn_give:
  assumes d: "drawn p agents0 agents used" and a: "um_find a agents0 = Some A0" "pool_get p A0 = Some r0"
    and u: "used a = u + rvec_of req"
  shows "\<exists>agents'. pool_update p (\<lambda>r. Inr (res_add r req)) a agents = Inr agents' \<and>
     drawn p agents0 agents' (used(a := u))"
proof -
  obtain r where r: "um_find a agents = Some (pool_put p r A0)" "host r = host r0" "rvec_of r + used a = rvec_of r0"
    using drawn_some [OF d a] by blast
  have "rvec_of r + rvec_of req \<le> rvec_of r0"
    using r(3) u rvec_le_add(1) [of "rvec_of r + rvec_of req" u] by (simp add: add.commute add.left_commute)
  then have e: "rvec_of (res_add r req) = rvec_of r + rvec_of req" by (rule res_add_rvec)
  have "rvec_of (res_add r req) + u = rvec_of r0"
    using r(3) u unfolding e by (simp add: add.commute add.left_commute)
  then have "drawn p agents0 (um_assign a (pool_put p (res_add r req) A0) agents) (used(a := u))"
    using drawn_assign [OF d a] r(2) by simp
  then show ?thesis using r(1) by (auto simp: pool_update_def)
qed

lemma um_ext:
  assumes "um_wf m" "um_keys m = um_keys m'" "\<And>k. um_find k m = um_find k m'"
  shows "m = m'"
  using assms
proof (induction m arbitrary: m')
  case Nil
  then show ?case by (cases m') auto
next
  case (Cons e m)
  obtain k v where e: "e = (k, v)" by (cases e)
  obtain w n where m': "m' = (k, w) # n" using Cons.prems(2) e by (cases m') auto
  have wf: "um_wf m" "um_find k m = None" using Cons.prems(1) e by auto
  have keys: "um_keys m = um_keys n" using Cons.prems(2) e m' by simp
  then have kn: "um_find k n = None" using wf(2) by (simp add: um_find_None_keys)
  have "um_find j m = um_find j n" for j
    using Cons.prems(3) [of j] e m' wf(2) kn by (cases "j = k") simp_all
  then have "m = n" using Cons.IH [OF wf(1) keys] by blast
  moreover have "v = w" using Cons.prems(3) [of k] e m' by simp
  ultimately show ?case by (simp add: e m')
qed

text \<open>What a pass does, said without running it: \<open>spare\<close> is what an agent has left of the pool once the
  containers assigned so far are taken off; a greedy assignment gives each container to an agent that
  covers it, and passes over no covering agent with less left in all three amounts.\<close>

definition spare :: "pool \<Rightarrow> topology \<Rightarrow> (key_type \<times> m_agent) list \<Rightarrow> assignment \<Rightarrow> key_type \<Rightarrow> rvec \<Rightarrow> bool" where
  "spare p t agents c2a a v \<longleftrightarrow>
     (\<exists>A r. um_find a agents = Some A \<and> pool_get p A = Some r \<and> v + load t c2a a = rvec_of r)"

definition smaller :: "rvec \<Rightarrow> rvec \<Rightarrow> bool" where
  "smaller v w \<longleftrightarrow> rv_cpu v < rv_cpu w \<and> rv_mem v < rv_mem w \<and> rv_disk v < rv_disk w"

definition no_room :: "pool \<Rightarrow> topology \<Rightarrow> (key_type \<times> m_agent) list \<Rightarrow> assignment \<Rightarrow> container \<Rightarrow> bool" where
  "no_room p t agents c2a x \<longleftrightarrow> (\<forall>a v. spare p t agents c2a a v \<longrightarrow> \<not> rvec_of (c_resource x) \<le> v)"

definition chosen :: "pool \<Rightarrow> topology \<Rightarrow> (key_type \<times> m_agent) list \<Rightarrow> assignment \<Rightarrow> key_type \<times> key_type \<Rightarrow> bool" where
  "chosen p t agents c2a ca \<longleftrightarrow>
     (\<exists>x v. um_find (fst ca) (t_containers t) = Some x \<and> spare p t agents c2a (snd ca) v \<and>
        rvec_of (c_resource x) \<le> v \<and>
        (\<forall>a w. spare p t agents c2a a w \<longrightarrow> rvec_of (c_resource x) \<le> w \<longrightarrow> \<not> smaller w v))"

definition greedy :: "pool \<Rightarrow> topology \<Rightarrow> (key_type \<times> m_agent) list \<Rightarrow> assignment \<Rightarrow> bool" where
  "greedy p t agents c2a \<longleftrightarrow> (\<forall>i < length c2a. chosen p t agents (take i c2a) (c2a ! i))"

lemma greedy_Nil: "greedy p t agents []"
  by (simp add: greedy_def)

lemma greedy_snoc: "greedy p t agents (c2a @ [ca]) \<longleftrightarrow> greedy p t agents c2a \<and> chosen p t agents c2a ca"
  by (auto simp: greedy_def nth_append less_Suc_eq all_conj_distrib split: if_splits)

lemma fitting_spare:
  assumes "drawn p agents0 agents (load t c2a)" "fitting p agents req a s"
  shows "spare p t agents0 c2a a (rvec_of s) \<and> rvec_of req \<le> rvec_of s"
proof -
  obtain A where A: "um_find a agents = Some A" "pool_get p A = Some s" "res_ge s req"
    using assms(2) by (auto simp: fitting_def)
  from drawn_find [OF assms(1) A(1,2)] A(3) show ?thesis by (metis spare_def res_ge_iff)
qed

lemma spare_fitting:
  assumes "drawn p agents0 agents (load t c2a)" "spare p t agents0 c2a a w" "rvec_of req \<le> w"
  obtains s where "fitting p agents req a s" "rvec_of s = w"
proof -
  obtain A0 r0 where A0: "um_find a agents0 = Some A0" "pool_get p A0 = Some r0" "w + load t c2a a = rvec_of r0"
    using assms(2) by (auto simp: spare_def)
  obtain s where s: "um_find a agents = Some (pool_put p s A0)" "rvec_of s + load t c2a a = rvec_of r0"
    using drawn_some [OF assms(1) A0(1,2)] by blast
  have "rvec_of s = w" using s(2) A0(3) rvec_add_left_cancel by (metis add.commute)
  then show thesis using that s(1) assms(3) by (simp add: fitting_def res_ge_iff)
qed

lemma best_fit_chosen:
  assumes d: "drawn p agents0 agents (load t c2a)" and x: "um_find c (t_containers t) = Some x"
    and f: "fitting p agents (c_resource x) b r"
    and m: "\<And>a s. fitting p agents (c_resource x) a s \<Longrightarrow> \<not> res_lt s r"
  shows "chosen p t agents0 c2a (c, b)"
proof -
  have "\<not> smaller w (rvec_of r)" if w: "spare p t agents0 c2a a w" "rvec_of (c_resource x) \<le> w" for a w
  proof -
    obtain s where "fitting p agents (c_resource x) a s" "rvec_of s = w" using spare_fitting [OF d w] .
    then show ?thesis using m by (auto simp: smaller_def res_lt_def word_less_nat_alt)
  qed
  then show ?thesis using fitting_spare [OF d f] x by (auto simp: chosen_def)
qed

lemma no_fit_no_room:
  assumes "drawn p agents0 agents (load t c2a)" "\<forall>a r. \<not> fitting p agents (c_resource x) a r"
  shows "no_room p t agents0 c2a x"
  using assms by (auto simp: no_room_def elim: spare_fitting)

lemma drawn_none:
  assumes "um_wf agents0" "drawn p agents0 agents (\<lambda>_. 0)"
  shows "agents = agents0"
proof (rule um_ext)
  show "um_wf agents" using assms drawn_wf by blast
  show k: "um_keys agents = um_keys agents0" using assms(2) by (simp add: drawn_def)
  show "um_find a agents = um_find a agents0" for a
  proof (cases "um_find a agents0")
    case None
    then show ?thesis using k by (metis um_find_None_keys)
  next
    case (Some A0)
    show ?thesis
    proof (cases "pool_get p A0")
      case None
      then show ?thesis using drawn_no [OF assms(2) Some] Some by simp
    next
      case r0: (Some r0)
      then show ?thesis
        using drawn_some [OF assms(2) Some r0] res_eq_rvec pool_put_get [OF r0] Some
        by (metis add.right_neutral)
    qed
  qed
qed

text \<open>What the placement loop establishes: a prefix of the containers is assigned, the assigned
  amounts are drawn, and every agent used has an engaged pool.\<close>

definition placed ::
  "pool \<Rightarrow> topology \<Rightarrow> (key_type \<times> m_agent) list \<Rightarrow> (key_type \<times> m_agent) list \<Rightarrow> assignment \<Rightarrow> bool" where
  "placed p t agents0 agents c2a \<longleftrightarrow>
     drawn p agents0 agents (load t c2a) \<and> um_wf c2a \<and>
     (\<forall>(c, a) \<in> set c2a. has_container t c \<and>
        (\<exists>A0 r0. um_find a agents0 = Some A0 \<and> pool_get p A0 = Some r0))"

lemma place_loop_ok:
  assumes "um_wf agents0" "- 1 \<notin> set (um_keys agents0)" "um_wf cs"
    and "\<And>c x. (c, x) \<in> set cs \<Longrightarrow> um_find c (t_containers t) = Some x"
    and "\<And>c. c \<in> set (um_keys cs) \<Longrightarrow> c \<notin> set (um_keys c2a)"
    and "placed p t agents0 agents c2a" "greedy p t agents0 c2a"
  shows "\<exists>agents' c2a' n. place_loop p cs agents c2a = Inr (agents', c2a') \<and>
     placed p t agents0 agents' c2a' \<and> um_keys c2a' = um_keys c2a @ take n (um_keys cs) \<and>
     greedy p t agents0 c2a' \<and> n \<le> length cs \<and> (n < length cs \<longrightarrow> no_room p t agents0 c2a' (snd (cs ! n)))"
  using assms(3-7)
proof (induction cs arbitrary: agents c2a)
  case Nil
  then show ?case by auto
next
  case (Cons e cs)
  obtain c x where e: "e = (c, x)" by (cases e)
  have x: "um_find c (t_containers t) = Some x" using Cons.prems(2) e by auto
  have wf: "um_wf agents" "- 1 \<notin> set (um_keys agents)"
    using assms(1,2) Cons.prems(4) drawn_wf by (auto simp: placed_def drawn_def um_wf_def)
  obtain b where b: "best_fit p agents (c_resource x) = Inr b"
    "b = - 1 \<Longrightarrow> \<forall>a r. \<not> fitting p agents (c_resource x) a r"
    "b \<noteq> - 1 \<Longrightarrow> \<exists>r. fitting p agents (c_resource x) b r \<and> (\<forall>a s. fitting p agents (c_resource x) a s \<longrightarrow> \<not> res_lt s r)"
    using best_fit_ok [OF wf] by metis
  have d: "drawn p agents0 agents (load t c2a)" using Cons.prems(4) by (simp add: placed_def)
  show ?case
  proof (cases "b = - 1")
    case True
    then show ?thesis
      using b(1) Cons.prems(4,5) no_fit_no_room [OF d b(2)]
      by (intro exI [of _ agents] exI [of _ c2a] exI [of _ 0]) (simp add: e)
  next
    case False
    then obtain r where r: "fitting p agents (c_resource x) b r"
      "\<And>a s. fitting p agents (c_resource x) a s \<Longrightarrow> \<not> res_lt s r" using b(3) by blast
    have gr: "greedy p t agents0 (c2a @ [(c, b)])"
      using best_fit_chosen [OF d x r] Cons.prems(5) by (simp add: greedy_snoc)
    obtain agents1 where a1: "pool_update p (\<lambda>r. res_sub r (c_resource x)) b agents = Inr agents1"
      "drawn p agents0 agents1 ((load t c2a)(b := load t c2a b + rvec_of (c_resource x)))"
      using drawn_take [OF d r(1)] by blast
    have fresh: "um_find c c2a = None" using Cons.prems(3) e by (simp add: um_find_None_keys)
    then have app: "um_assign c b c2a = c2a @ [(c, b)]" by (rule um_assign_fresh)
    have eng: "\<exists>A0 r0. um_find b agents0 = Some A0 \<and> pool_get p A0 = Some r0"
      using r(1) drawn_find [OF d] by (auto simp: fitting_def) metis
    have "um_wf (um_assign c b c2a)" using Cons.prems(4) by (auto simp: placed_def)
    moreover have "drawn p agents0 agents1 (load t (c2a @ [(c, b)]))" using a1(2) x by (simp add: load_snoc)
    ultimately have pl: "placed p t agents0 agents1 (c2a @ [(c, b)])"
      using Cons.prems(4) x eng unfolding app by (simp add: placed_def has_container_def)
    have th: "j \<notin> set (um_keys (c2a @ [(c, b)]))" if "j \<in> set (um_keys cs)" for j
      using that Cons.prems(1,3) by (auto simp: e um_find_None_keys)
    have tl: "um_wf cs" "\<And>c x. (c, x) \<in> set cs \<Longrightarrow> um_find c (t_containers t) = Some x"
      using Cons.prems(1,2) by (auto simp: e)
    from Cons.IH [OF tl th pl gr] obtain agents' c2a' n where
      "place_loop p cs agents1 (c2a @ [(c, b)]) = Inr (agents', c2a')"
      "placed p t agents0 agents' c2a'" "um_keys c2a' = um_keys (c2a @ [(c, b)]) @ take n (um_keys cs)"
      "greedy p t agents0 c2a'" "n \<le> length cs" "n < length cs \<longrightarrow> no_room p t agents0 c2a' (snd (cs ! n))"
      by blast
    then show ?thesis
      using b(1) False a1(1) app
      by (intro exI [of _ agents'] exI [of _ c2a'] exI [of _ "Suc n"]) (simp add: e)
  qed
qed

lemma give_back_ok:
  assumes "drawn p agents0 agents (load t c2a)"
    and "\<forall>(c, a) \<in> set c2a. has_container t c \<and> (\<exists>A0 r0. um_find a agents0 = Some A0 \<and> pool_get p A0 = Some r0)"
  shows "\<exists>agents'. fold_r (give_back p t) c2a agents = Inr agents' \<and> drawn p agents0 agents' (\<lambda>_. 0)"
  using assms
proof (induction c2a arbitrary: agents)
  case Nil
  then show ?case by auto
next
  case (Cons e c2a)
  obtain c a where e: "e = (c, a)" by (cases e)
  obtain x A0 r0 where x: "um_find c (t_containers t) = Some x" and A0: "um_find a agents0 = Some A0" "pool_get p A0 = Some r0"
    using Cons.prems(2) by (auto simp: e has_container_def)
  have "load t (e # c2a) a = load t c2a a + rvec_of (c_resource x)" using x by (simp add: e load_Cons add.commute)
  from drawn_give [OF Cons.prems(1) A0 this] obtain agents1 where
    a1: "pool_update p (\<lambda>r. Inr (res_add r (c_resource x))) a agents = Inr agents1"
        "drawn p agents0 agents1 ((load t (e # c2a))(a := load t c2a a))" by blast
  have ld: "(load t (e # c2a))(a := load t c2a a) = load t c2a" by (simp add: e load_Cons fun_eq_iff)
  obtain q where "um_find a agents = Some (pool_put p q A0)"
    using drawn_some [OF Cons.prems(1) A0] by blast
  then have "give_back p t e agents = Inr agents1" using a1(1) x by (simp add: give_back_def e)
  then show ?case using Cons.IH [of agents1] a1(2) Cons.prems(2) by (simp add: ld)
qed

lemma placed_Nil: "placed p t agents agents []"
  by (simp add: placed_def drawn_refl)

lemma place_loop_from_start:
  assumes "um_wf agents" "- 1 \<notin> set (um_keys agents)" "um_wf (t_containers t)"
  obtains agents' c2a n where "place_loop p (t_containers t) agents [] = Inr (agents', c2a)"
    "placed p t agents agents' c2a" "um_keys c2a = take n (um_keys (t_containers t))"
    "greedy p t agents c2a" "n \<le> length (t_containers t)"
    "n < length (t_containers t) \<longrightarrow> no_room p t agents c2a (snd (t_containers t ! n))"
  using place_loop_ok [OF assms(1,2,3) _ _ placed_Nil greedy_Nil, of t p] assms(3) by (auto simp: um_find_set)

lemma placed_restore:
  assumes "um_wf agents0" "placed p t agents0 agents c2a"
  shows "fold_r (give_back p t) c2a agents = Inr agents0"
proof -
  obtain agents' where "fold_r (give_back p t) c2a agents = Inr agents'" "drawn p agents0 agents' (\<lambda>_. 0)"
    using give_back_ok [of p agents0 agents t c2a] assms(2) by (auto simp: placed_def)
  then show ?thesis using drawn_none [OF assms(1)] by blast
qed

lemma placed_load:
  assumes "placed p t agents0 agents c2a" "um_find a agents0 = Some A" "pool_get p A = Some r"
  shows "load t c2a a \<le> rvec_of r"
  using drawn_some [of p agents0 agents "load t c2a" a A r] assms rvec_le_add(2)
  by (metis placed_def)

section \<open>The invariant of the master\<close>

definition task_load :: "m_agent \<Rightarrow> rvec" where
  "task_load A = sum_list (map (\<lambda>kt. rvec_of (tpg_resource '''' (at_topology (snd kt)))) (a_tasks A))"

text \<open>An agent that reported its resource has released what is left of it by its tasks; before
  that it has none. The third argument is what is drawn but not yet recorded as a task.\<close>

definition balanced :: "m_agent \<Rightarrow> rvec \<Rightarrow> bool" where
  "balanced A u \<longleftrightarrow>
     um_wf (a_tasks A) \<and>
     (case a_resource A of
        None \<Rightarrow> a_released A = None \<and> a_tasks A = [] \<and> u = 0
      | Some R \<Rightarrow> \<exists>r. a_released A = Some r \<and> host r = host R \<and> rvec_of r + task_load A + u = rvec_of R)"

definition no_tasks_of :: "master \<Rightarrow> key_type \<Rightarrow> bool" where
  "no_tasks_of m g \<longleftrightarrow> (\<forall>a A tid. um_find a (m_agents m) = Some A \<longrightarrow>
     tid \<in> set (um_keys (a_tasks A)) \<longrightarrow> tid_graph tid \<noteq> g)"

definition graph_ok :: "key_type \<Rightarrow> m_graph \<Rightarrow> bool" where
  "graph_ok g G \<longleftrightarrow> mg_key G = g \<and>
     (case mg_topology G of
        None \<Rightarrow> mg_placement G = [] \<and> mg_solution G = None
      | Some t \<Rightarrow> t_graph t = g \<and> um_wf (t_containers t) \<and> mg_solution G \<noteq> None)"

definition agents_inv :: "master \<Rightarrow> bool" where
  "agents_inv m \<longleftrightarrow> um_wf (m_agents m) \<and> 0 \<le> m_agent_generator m \<and>
     (\<forall>a \<in> set (um_keys (m_agents m)). 0 \<le> a \<and> a < m_agent_generator m) \<and>
     (\<forall>a A. um_find a (m_agents m) = Some A \<longrightarrow> balanced A 0)"

definition graphs_inv :: "master \<Rightarrow> bool" where
  "graphs_inv m \<longleftrightarrow> um_wf (m_graphs m) \<and>
     (\<forall>g G. um_find g (m_graphs m) = Some G \<longrightarrow> graph_ok g G \<and> g < m_graph_generator m \<and>
        (mg_topology G = None \<longrightarrow> no_tasks_of m g \<and> g \<notin> set (m_queue m)) \<and>
        (g \<in> set (m_queue m) \<longrightarrow> mg_placement G = []))"

definition queue_inv :: "master \<Rightarrow> bool" where
  "queue_inv m \<longleftrightarrow> distinct (m_queue m) \<and>
     (\<forall>g \<in> set (m_queue m). g < m_graph_generator m \<and> no_tasks_of m g) \<and>
     (\<forall>g \<ge> m_graph_generator m. no_tasks_of m g)"

definition master_inv :: "master \<Rightarrow> bool" where
  "master_inv m \<longleftrightarrow> agents_inv m \<and> graphs_inv m \<and> queue_inv m"

lemma master_inv_no_minus_1: "master_inv m \<Longrightarrow> - 1 \<notin> set (um_keys (m_agents m))"
  by (force simp: master_inv_def agents_inv_def)

lemma master_inv_wf_agents: "master_inv m \<Longrightarrow> um_wf (m_agents m)"
  by (simp add: master_inv_def agents_inv_def)

lemma master_inv_graph:
  "master_inv m \<Longrightarrow> um_find g (m_graphs m) = Some G \<Longrightarrow> graph_ok g G \<and> g < m_graph_generator m \<and>
     (mg_topology G = None \<longrightarrow> no_tasks_of m g \<and> g \<notin> set (m_queue m)) \<and>
     (g \<in> set (m_queue m) \<longrightarrow> mg_placement G = [])"
  unfolding master_inv_def graphs_inv_def by blast

lemma graphs_invI:
  assumes "um_wf (m_graphs m)"
    and "\<And>h H. um_find h (m_graphs m) = Some H \<Longrightarrow> graph_ok h H \<and> h < m_graph_generator m \<and>
       (mg_topology H = None \<longrightarrow> no_tasks_of m h \<and> h \<notin> set (m_queue m)) \<and>
       (h \<in> set (m_queue m) \<longrightarrow> mg_placement H = [])"
  shows "graphs_inv m"
  unfolding graphs_inv_def using assms by blast

lemma graph_ok_Some: "graph_ok g G \<Longrightarrow> mg_topology G = Some t \<Longrightarrow>
   t_graph t = g \<and> um_wf (t_containers t) \<and> mg_solution G \<noteq> None"
  by (simp add: graph_ok_def)

lemma graphs_inv_mono:
  assumes "graphs_inv m" "m_graphs m' = m_graphs m" "m_queue m' = m_queue m"
    "m_graph_generator m' = m_graph_generator m" "\<And>g. no_tasks_of m g \<Longrightarrow> no_tasks_of m' g"
  shows "graphs_inv m'"
  using assms(1,5) unfolding graphs_inv_def assms(2-4) by blast

lemma queue_inv_mono:
  assumes "queue_inv m" "m_queue m' = m_queue m"
    "m_graph_generator m' = m_graph_generator m" "\<And>g. no_tasks_of m g \<Longrightarrow> no_tasks_of m' g"
  shows "queue_inv m'"
  using assms(1,4) unfolding queue_inv_def assms(2,3) by blast

lemma no_tasks_of_same: "m_agents m' = m_agents m \<Longrightarrow> no_tasks_of m' g = no_tasks_of m g"
  by (simp add: no_tasks_of_def)

lemma master_inv_agents:
  assumes "master_inv m" "agents_inv m'" "m_graphs m' = m_graphs m" "m_queue m' = m_queue m"
    "m_graph_generator m' = m_graph_generator m" "\<And>g. no_tasks_of m g \<Longrightarrow> no_tasks_of m' g"
  shows "master_inv m'"
  using assms graphs_inv_mono [of m m'] queue_inv_mono [of m m'] by (simp add: master_inv_def)

lemma master_inv_graphs:
  assumes "master_inv m" "graphs_inv m'" "m_agents m' = m_agents m" "m_queue m' = m_queue m"
    "m_graph_generator m' = m_graph_generator m" "m_agent_generator m' = m_agent_generator m"
  shows "master_inv m'"
  using assms queue_inv_mono [of m m'] no_tasks_of_same [OF assms(3)]
  by (simp add: master_inv_def agents_inv_def)

lemma master_inv_out [simp]: "master_inv (m\<lparr>m_out := xs\<rparr>) = master_inv m"
proof -
  have "no_tasks_of (m\<lparr>m_out := xs\<rparr>) g = no_tasks_of m g" for g by (simp add: no_tasks_of_def)
  then show ?thesis by (simp add: master_inv_def agents_inv_def graphs_inv_def queue_inv_def)
qed

lemma master_inv_send [simp]: "master_inv (send x m) = master_inv m"
  by (simp add: send_def)

lemma send_simps [simp]:
  "m_agents (send x m) = m_agents m" "m_graphs (send x m) = m_graphs m" "m_queue (send x m) = m_queue m"
  "m_webuis (send x m) = m_webuis m"
  "m_agent_generator (send x m) = m_agent_generator m" "m_graph_generator (send x m) = m_graph_generator m"
  "m_out (send x m) = m_out m @ [x]"
  by (simp_all add: send_def)

lemma kill_placed_eq: "\<exists>xs. fold kill_placed ps m = m\<lparr>m_out := m_out m @ xs\<rparr> \<and>
   xs = concat (map (\<lambda>ta. case um_find (snd ta) (m_agents m) of None \<Rightarrow> []
          | Some A \<Rightarrow> if um_find (fst ta) (a_tasks A) = None then [] else [Kill_task (snd ta) (fst ta)]) ps)"
proof (induction ps arbitrary: m)
  case Nil
  then show ?case by simp
next
  case (Cons p ps)
  define x where "x = (case um_find (snd p) (m_agents m) of None \<Rightarrow> []
          | Some A \<Rightarrow> if um_find (fst p) (a_tasks A) = None then [] else [Kill_task (snd p) (fst p)])"
  have "kill_placed p m = m\<lparr>m_out := m_out m @ x\<rparr>"
    by (auto simp: kill_placed_def agent_kill_def send_def x_def split: option.splits)
  then show ?case using Cons.IH [of "m\<lparr>m_out := m_out m @ x\<rparr>"] by (simp add: x_def)
qed

lemma remove_graph_eq:
  "remove_graph key m =
     (case um_find key (m_graphs m) of
        None \<Rightarrow> Inr m
      | Some G \<Rightarrow>
          (case mg_solution G of
             None \<Rightarrow> Inl (Undefined ''access to a disengaged optional'')
           | Some s \<Rightarrow> Inr (m\<lparr>m_graphs := um_erase key (m_graphs m),
               m_out := m_out m @ concat (map (\<lambda>ta. case um_find (snd ta) (m_agents m) of None \<Rightarrow> []
                 | Some A \<Rightarrow> if um_find (fst ta) (a_tasks A) = None then [] else [Kill_task (snd ta) (fst ta)])
                   (mg_placement G)) @ [Report key s, Close_graph key]\<rparr>)))"
proof (cases "um_find key (m_graphs m)")
  case None
  then show ?thesis by (simp add: remove_graph_def)
next
  case (Some G)
  then show ?thesis
    using kill_placed_eq [of "mg_placement G" m]
    by (auto simp: remove_graph_def Let_def send_def split: option.splits)
qed

lemma master_inv_erase_graph:
  assumes "master_inv m"
  shows "master_inv (m\<lparr>m_graphs := um_erase g (m_graphs m)\<rparr>)"
proof (rule master_inv_graphs [OF assms])
  let ?m = "m\<lparr>m_graphs := um_erase g (m_graphs m)\<rparr>"
  have nt: "no_tasks_of ?m h = no_tasks_of m h" for h by (rule no_tasks_of_same) simp
  show "graphs_inv ?m"
  proof (rule graphs_invI)
    show "um_wf (m_graphs ?m)" using assms by (simp add: master_inv_def graphs_inv_def um_wf_erase)
    fix h H assume "um_find h (m_graphs ?m) = Some H"
    then have "um_find h (m_graphs m) = Some H" by (simp add: dict_simps split: if_splits)
    from master_inv_graph [OF assms this]
    show "graph_ok h H \<and> h < m_graph_generator ?m \<and>
       (mg_topology H = None \<longrightarrow> no_tasks_of ?m h \<and> h \<notin> set (m_queue ?m)) \<and>
       (h \<in> set (m_queue ?m) \<longrightarrow> mg_placement H = [])" by (simp add: nt)
  qed
qed simp_all

lemma remove_graph_inv:
  assumes "remove_graph g m = Inr m'" "master_inv m"
  shows "master_inv m' \<and> m_agents m' = m_agents m \<and> m_queue m' = m_queue m"
  using assms master_inv_erase_graph [OF assms(2), of g]
  by (auto simp: remove_graph_eq split: option.splits)

lemma remove_graphs_inv:
  "fold_r (\<lambda>t. remove_graph (tid_graph (fst t))) ts m = Inr m' \<Longrightarrow> master_inv m \<Longrightarrow>
     master_inv m' \<and> m_agents m' = m_agents m"
proof (induction ts arbitrary: m)
  case Nil
  then show ?case by simp
next
  case (Cons t ts)
  then obtain m1 where "remove_graph (tid_graph (fst t)) m = Inr m1"
    "fold_r (\<lambda>t. remove_graph (tid_graph (fst t))) ts m1 = Inr m'" by auto
  then show ?case using Cons.IH [of m1] remove_graph_inv Cons.prems(2) by metis
qed

lemma master_inv_erase_agent:
  assumes "master_inv m"
  shows "master_inv (m\<lparr>m_agents := um_erase a (m_agents m)\<rparr>)"
proof (rule master_inv_agents [OF assms])
  let ?m = "m\<lparr>m_agents := um_erase a (m_agents m)\<rparr>"
  show "no_tasks_of m g \<Longrightarrow> no_tasks_of ?m g" for g
    unfolding no_tasks_of_def by (simp add: dict_simps)
  show "agents_inv ?m"
    using assms by (simp add: master_inv_def agents_inv_def dict_simps um_wf_erase)
qed simp_all

lemma remove_agent_inv:
  assumes "remove_agent a m = Inr m'" "master_inv m"
  shows "master_inv m'"
proof (cases "um_find a (m_agents m)")
  case None
  then show ?thesis using assms by (simp add: remove_agent_def)
next
  case (Some A)
  then obtain m1 where m1: "fold_r (\<lambda>t. remove_graph (tid_graph (fst t))) (a_tasks A) m = Inr m1"
    "m' = (send (Close_agent a) m1)\<lparr>m_agents := um_erase a (m_agents m1)\<rparr>"
    using assms(1) by (auto simp: remove_agent_def Let_def)
  have "master_inv (send (Close_agent a) m1)" using remove_graphs_inv [OF m1(1) assms(2)] by simp
  from master_inv_erase_agent [OF this, of a] show ?thesis by (simp add: m1(2))
qed

lemma no_tasks_of_assign:
  assumes "um_find a (m_agents m) = Some A0" "no_tasks_of m g"
    and "\<And>tid. tid \<in> set (um_keys (a_tasks A)) \<Longrightarrow> tid \<in> set (um_keys (a_tasks A0)) \<or> tid_graph tid \<noteq> g"
  shows "no_tasks_of (m\<lparr>m_agents := um_assign a A (m_agents m)\<rparr>) g"
  unfolding no_tasks_of_def
proof (intro allI impI)
  fix b B tid
  assume b: "um_find b (m_agents (m\<lparr>m_agents := um_assign a A (m_agents m)\<rparr>)) = Some B"
    and t: "tid \<in> set (um_keys (a_tasks B))"
  show "tid_graph tid \<noteq> g"
  proof (cases "b = a")
    case True
    then have "B = A" using b by (simp add: dict_simps)
    then show ?thesis using t assms unfolding no_tasks_of_def by blast
  next
    case False
    then show ?thesis using b t assms(2) by (simp add: dict_simps no_tasks_of_def)
  qed
qed

lemma agents_inv_assign:
  assumes "agents_inv m" "um_find a (m_agents m) = Some A0" "balanced A 0"
  shows "agents_inv (m\<lparr>m_agents := um_assign a A (m_agents m)\<rparr>)"
  using assms by (simp add: agents_inv_def dict_simps um_keys_assign_present um_wf_assign)

lemma task_load_erase:
  assumes "um_wf (a_tasks A)" "um_find tid (a_tasks A) = Some t"
  shows "task_load A = task_load (A\<lparr>a_tasks := um_erase tid (a_tasks A)\<rparr>) + rvec_of (tpg_resource '''' (at_topology t))"
proof -
  have "sum_list (map f xs) = sum_list (map f (um_erase tid xs)) + f (tid, t)"
    if "um_wf xs" "um_find tid xs = Some t" for xs and f :: "task_id \<times> agent_task \<Rightarrow> rvec"
    using that
  proof (induction xs)
    case Nil
    then show ?case by simp
  next
    case (Cons e xs)
    obtain k v where e: "e = (k, v)" by (cases e)
    show ?case
    proof (cases "k = tid")
      case True
      then have "v = t" "um_find tid xs = None" using Cons.prems by (auto simp: e)
      then have "um_erase tid (e # xs) = xs"
        using True um_erase_fresh [of tid xs] by (simp add: e um_erase_def)
      then show ?thesis using True \<open>v = t\<close> by (simp add: e add.commute)
    next
      case False
      then have "um_erase tid (e # xs) = e # um_erase tid xs" by (simp add: e um_erase_def)
      then show ?thesis using Cons False by (simp add: e add.assoc)
    qed
  qed
  from this [OF assms] show ?thesis by (simp add: task_load_def)
qed

lemma agent_remove_balanced:
  assumes "agent_remove tid A = Inr A'" "balanced A 0"
  shows "balanced A' 0 \<and> set (um_keys (a_tasks A')) \<subseteq> set (um_keys (a_tasks A))"
proof (cases "um_find tid (a_tasks A)")
  case None
  then show ?thesis using assms by (simp add: agent_remove_def)
next
  case (Some t)
  then have "a_tasks A \<noteq> []" by auto
  then obtain R r where R: "a_resource A = Some R" "a_released A = Some r" "host r = host R"
    "rvec_of r + task_load A = rvec_of R" and wf: "um_wf (a_tasks A)"
    using assms(2) by (auto simp: balanced_def split: option.splits)
  let ?x = "tpg_resource '''' (at_topology t)"
  obtain bins where A': "A' = A\<lparr>a_cpu_bins := bins, a_released := Some (res_add r ?x), a_tasks := um_erase tid (a_tasks A)\<rparr>"
    using assms(1) Some R(2) by (auto simp: agent_remove_def)
  define L where "L = task_load (A\<lparr>a_tasks := um_erase tid (a_tasks A)\<rparr>)"
  have l: "task_load A = L + rvec_of ?x" using task_load_erase [OF wf Some] by (simp add: L_def)
  have "rvec_of r + rvec_of ?x \<le> rvec_of R"
    using R(4) l rvec_le_add(1) [of "rvec_of r + rvec_of ?x" L] by (simp add: add.commute add.left_commute)
  then have "rvec_of (res_add r ?x) = rvec_of r + rvec_of ?x" by (rule res_add_rvec)
  moreover have "task_load A' = L" by (simp add: A' L_def task_load_def)
  ultimately have "rvec_of (res_add r ?x) + task_load A' = rvec_of R"
    using R(4) l by (simp add: add.commute add.left_commute)
  then show ?thesis using R(1,3) wf by (auto simp: A' balanced_def)
qed

section \<open>Deployment\<close>

lemma extract_labels:
  assumes "tpg_extract t c = Inr e"
  obtains x where "um_find c (t_containers t) = Some x" "t_containers e = [(c, x)]"
    "t_graph e = t_graph t" "t_topology e = c"
proof -
  obtain x where x: "um_find c (t_containers t) = Some x"
    using assms by (auto simp: tpg_extract_def Let_def)
  let ?lab = "\<lambda>u. t_containers u = [(c, x)] \<and> t_graph u = t_graph t \<and> t_topology u = c"
  define t0 where "t0 = (mk_topology (t_graph t) c)\<lparr>t_runtime := t_runtime t\<rparr>"
  define t1 where "t1 = t0\<lparr>t_containers := um_assign c x (t_containers t0)\<rparr>"
  have vs: "?lab u \<Longrightarrow> ?lab (fold (\<lambda>kvp tpg. if v_container (snd kvp) = c
              then tpg\<lparr>t_vertices := um_try_emplace (fst kvp) (snd kvp) (t_vertices tpg)\<rparr> else tpg) xs u)" for xs u
    by (induction xs arbitrary: u) auto
  have "?lab t1" by (simp add: t1_def t0_def mk_topology_def um_assign_def)
  from vs [OF this] have v: "?lab (extract_vertices t c t1)" unfolding extract_vertices_def .
  have "fold_r (extract_stream t c) (t_streams t) (extract_vertices t c t1) = Inr e"
    using assms x by (simp add: tpg_extract_def Let_def t1_def t0_def)
  moreover have "?lab u'" if "extract_stream t c k u = Inr u'" "?lab u" for k u u'
    using that by (auto simp: extract_stream_def split: if_splits)
  ultimately have "?lab e" using fold_r_invariant [of "extract_stream t c" _ _ _ ?lab] v by blast
  then show ?thesis using that x by blast
qed

lemma mk_tid_sel [simp]: "tid_graph (mk_tid g c) = g" "tid_topology (mk_tid g c) = c"
  by (simp_all add: mk_tid_def)

definition deployed ::
  "topology \<Rightarrow> (key_type \<times> m_agent) list \<Rightarrow> assignment \<Rightarrow> key_type \<times> key_type \<Rightarrow> key_type \<times> topology \<Rightarrow> bool" where
  "deployed t agents c2a ca at \<longleftrightarrow> fst at = snd ca \<and> deploy_container t agents c2a (fst ca) = Inr (snd at)"

lemma deploy_container_labels:
  assumes "deploy_container t agents c2a c = Inr e"
  obtains x where "um_find c (t_containers t) = Some x"
    "rvec_of (tpg_resource '''' e) = rvec_of (c_resource x)" "topology_task_id e = mk_tid (t_graph t) c"
proof -
  obtain e0 vh where e0: "tpg_extract t c = Inr e0"
    "e = e0\<lparr>t_runtime := rt_set_vertex_hosts (vhosts_text vh) (t_runtime e0)\<rparr>"
    using assms by (auto simp: deploy_container_def)
  obtain x where x: "um_find c (t_containers t) = Some x" "t_containers e0 = [(c, x)]"
    "t_graph e0 = t_graph t" "t_topology e0 = c"
    using extract_labels [OF e0(1)] .
  then have "rvec_of (tpg_resource '''' e) = rvec_of (c_resource x)" by (intro tpg_resource_single) (simp add: e0(2))
  then show ?thesis using that x by (simp add: e0(2) topology_task_id_def)
qed

lemma deploy_fold:
  assumes "fold_r (deploy_one t c2a) cas (fs, m) = Inr (fs', m')"
  shows "\<exists>ds. fs' = fs @ ds \<and> list_all2 (deployed t (m_agents m) c2a) cas ds \<and>
     m' = m\<lparr>m_out := m_out m @ map (\<lambda>at. Deploy (fst at) (snd at)) ds\<rparr>"
  using assms
proof (induction cas arbitrary: fs m)
  case Nil
  then show ?case by simp
next
  case (Cons ca cas)
  obtain tpg where tpg: "deploy_container t (m_agents m) c2a (fst ca) = Inr tpg"
    "fold_r (deploy_one t c2a) cas (fs @ [(snd ca, tpg)], send (Deploy (snd ca) tpg) m) = Inr (fs', m')"
  proof -
    obtain st where "deploy_one t c2a ca (fs, m) = Inr st" "fold_r (deploy_one t c2a) cas st = Inr (fs', m')"
      using Cons.prems by auto
    then show ?thesis using that by (auto simp: deploy_one_def)
  qed
  obtain ds where "fs' = (fs @ [(snd ca, tpg)]) @ ds" "list_all2 (deployed t (m_agents m) c2a) cas ds"
    "m' = m\<lparr>m_out := (m_out m @ [Deploy (snd ca) tpg]) @ map (\<lambda>at. Deploy (fst at) (snd at)) ds\<rparr>"
    using Cons.IH [OF tpg(2)] by (auto simp: send_def)
  then show ?case
    using tpg(1) deployed_def [of t "m_agents m" c2a ca "(snd ca, tpg)"]
    by (intro exI [of _ "(snd ca, tpg) # ds"]) simp
qed

text \<open>While the futures are joined, agents are short of what the remaining ones will record.\<close>

definition pending :: "(key_type \<times> topology) list \<Rightarrow> key_type \<Rightarrow> rvec" where
  "pending fs a = sum_list (map (\<lambda>at. rvec_of (tpg_resource '''' (snd at))) (filter (\<lambda>at. fst at = a) fs))"

lemma pending_load:
  assumes "list_all2 (deployed t agents c2a) cas ds"
  shows "pending ds a = load t cas a"
  using assms
proof (induction cas ds rule: list_all2_induct)
  case Nil
  then show ?case by (simp add: pending_def)
next
  case (Cons ca cas d ds)
  have d: "fst d = snd ca" "deploy_container t agents c2a (fst ca) = Inr (snd d)"
    using Cons.hyps(1) by (auto simp: deployed_def)
  obtain x where "um_find (fst ca) (t_containers t) = Some x" "rvec_of (tpg_resource '''' (snd d)) = rvec_of (c_resource x)"
    using deploy_container_labels [OF d(2)] by metis
  then show ?case using Cons.IH d(1) by (cases ca) (auto simp: load_Cons pending_def)
qed

lemma deployed_ids:
  assumes "list_all2 (deployed t agents c2a) cas ds"
  shows "map (\<lambda>at. (topology_task_id (snd at), fst at)) ds = map (\<lambda>ca. (mk_tid (t_graph t) (fst ca), snd ca)) cas"
  using assms
proof (induction cas ds rule: list_all2_induct)
  case Nil
  then show ?case by simp
next
  case (Cons ca cas d ds)
  have d: "fst d = snd ca" "deploy_container t agents c2a (fst ca) = Inr (snd d)"
    using Cons.hyps(1) by (auto simp: deployed_def)
  have "topology_task_id (snd d) = mk_tid (t_graph t) (fst ca)"
    using deploy_container_labels [OF d(2)] by metis
  then show ?case using Cons.IH d(1) by simp
qed

text \<open>The state between two joins: everything but the agents' balance is as before, the graph being
  placed has the entries joined so far, and agents have no task of it but those.\<close>

definition joining :: "key_type \<Rightarrow> master \<Rightarrow> (task_id \<times> key_type) list \<Rightarrow> (key_type \<times> topology) list \<Rightarrow> master \<Rightarrow> bool" where
  "joining g m0 done fs m \<longleftrightarrow>
     m_queue m = m_queue m0 \<and> m_graph_generator m = m_graph_generator m0 \<and>
     m_agent_generator m = m_agent_generator m0 \<and> m_webuis m = m_webuis m0 \<and> m_out m = m_out m0 \<and>
     um_keys (m_agents m) = um_keys (m_agents m0) \<and>
     (\<exists>G. um_find g (m_graphs m0) = Some G \<and>
        m_graphs m = um_assign g (G\<lparr>mg_placement := done\<rparr>) (m_graphs m0)) \<and>
     (\<forall>a A. um_find a (m_agents m) = Some A \<longrightarrow> balanced A (pending fs a) \<and>
        (\<exists>A0. um_find a (m_agents m0) = Some A0 \<and>
           (\<forall>tid \<in> set (um_keys (a_tasks A)). tid \<in> set (um_keys (a_tasks A0)) \<or> tid \<in> set (um_keys done))))"

lemma um_assign_twice: "um_assign k v (um_assign k w m) = um_assign k v m"
  by (induction m) (auto simp: um_assign_def)

lemma agent_assign_balanced:
  assumes "agent_assign tpg A = Inr A'" "balanced A (rvec_of (tpg_resource '''' tpg) + u)"
    and "topology_task_id tpg \<notin> set (um_keys (a_tasks A))" "a_resource A \<noteq> None"
  shows "balanced A' u \<and> um_keys (a_tasks A') = um_keys (a_tasks A) @ [topology_task_id tpg]"
proof -
  let ?tid = "topology_task_id tpg"
  have fr: "um_find ?tid (a_tasks A) = None" using assms(3) by (simp add: um_find_None_keys)
  obtain b bs where A': "A' = A\<lparr>a_cpu_bins := b\<lparr>cb_tasks := List.insert ?tid (cb_tasks b)\<rparr> # bs,
      a_tasks := a_tasks A @ [(?tid, \<lparr>at_topology = tpg, at_cpu_bins = [0]\<rparr>)]\<rparr>"
    using assms(1) by (auto simp: agent_assign_def Let_def um_try_emplace_fresh [OF fr] split: list.splits)
  have "task_load A' = task_load A + rvec_of (tpg_resource '''' tpg)" by (simp add: A' task_load_def)
  moreover have "um_wf (a_tasks A')" using assms(2,3) by (auto simp: A' balanced_def um_wf_def)
  ultimately show ?thesis using assms(2,4) by (auto simp: A' balanced_def add.assoc)
qed

lemma pending_Cons: "pending ((b, tpg) # fs) a = (if a = b then rvec_of (tpg_resource '''' tpg) + pending fs a else pending fs a)"
  by (simp add: pending_def)

definition same_resources :: "master \<Rightarrow> master \<Rightarrow> bool" where
  "same_resources m0 m \<longleftrightarrow> (\<forall>a A A0. um_find a (m_agents m) = Some A \<longrightarrow>
     um_find a (m_agents m0) = Some A0 \<longrightarrow> a_resource A = a_resource A0)"

lemma same_resources_refl: "same_resources m m"
  by (simp add: same_resources_def)

lemma place_task_joining:
  assumes j: "joining g m0 done ((a, tpg) # fs) m"
    and f: "topology_task_id tpg \<notin> set (um_keys done)"
      "\<And>A0. um_find a (m_agents m0) = Some A0 \<Longrightarrow> topology_task_id tpg \<notin> set (um_keys (a_tasks A0)) \<and> a_resource A0 \<noteq> None"
    and r: "same_resources m0 m"
    and p: "place_task g (a, tpg) m = Inr m'"
  shows "joining g m0 (done @ [(topology_task_id tpg, a)]) fs m' \<and>
     same_resources m0 m'"
proof -
  let ?tid = "topology_task_id tpg"
  obtain G where G: "um_find g (m_graphs m0) = Some G" "m_graphs m = um_assign g (G\<lparr>mg_placement := done\<rparr>) (m_graphs m0)"
    using j by (auto simp: joining_def)
  have dn: "um_find ?tid done = None" using f(1) by (simp add: um_find_None_keys)
  obtain A A' where A: "um_find a (m_agents m) = Some A" "agent_assign tpg A = Inr A'"
    "m' = m\<lparr>m_graphs := um_assign g (G\<lparr>mg_placement := done @ [(?tid, a)]\<rparr>) (m_graphs m0),
            m_agents := um_assign a A' (m_agents m)\<rparr>"
    using p G by (auto simp: place_task_def dict_simps um_assign_twice um_assign_fresh [OF dn])
  have ja: "balanced B (pending ((a, tpg) # fs) b) \<and>
        (\<exists>A0. um_find b (m_agents m0) = Some A0 \<and>
           (\<forall>tid \<in> set (um_keys (a_tasks B)). tid \<in> set (um_keys (a_tasks A0)) \<or> tid \<in> set (um_keys done)))"
    if "um_find b (m_agents m) = Some B" for b B
    using j that by (auto simp: joining_def)
  obtain A0 where A0: "um_find a (m_agents m0) = Some A0" "a_resource A = a_resource A0"
    "\<forall>tid \<in> set (um_keys (a_tasks A)). tid \<in> set (um_keys (a_tasks A0)) \<or> tid \<in> set (um_keys done)"
    using ja [OF A(1)] r A(1) unfolding same_resources_def by blast
  then have "?tid \<notin> set (um_keys (a_tasks A))" "a_resource A \<noteq> None" using f by auto
  then have A': "balanced A' (pending fs a)" "um_keys (a_tasks A') = um_keys (a_tasks A) @ [?tid]"
    using agent_assign_balanced [OF A(2), of "pending fs a"] ja [OF A(1)] by (auto simp: pending_Cons)
  have rA': "a_resource A' = a_resource A"
    using A(2) by (auto simp: agent_assign_def Let_def split: list.splits)
  have "balanced B (pending fs b) \<and>
        (\<exists>A0. um_find b (m_agents m0) = Some A0 \<and>
           (\<forall>tid \<in> set (um_keys (a_tasks B)). tid \<in> set (um_keys (a_tasks A0)) \<or> tid \<in> set (um_keys (done @ [(?tid, a)]))))"
    if "um_find b (um_assign a A' (m_agents m)) = Some B" for b B
  proof (cases "b = a")
    case True
    then have "B = A'" using that by (simp add: dict_simps)
    then show ?thesis using True A' A0 by auto
  next
    case False
    then have "um_find b (m_agents m) = Some B" using that by (simp add: dict_simps)
    from ja [OF this] show ?thesis using False by (auto simp: pending_Cons)
  qed
  then have "joining g m0 (done @ [(?tid, a)]) fs m'"
    using j G A unfolding joining_def by (simp add: um_keys_assign_present)
  moreover have "same_resources m0 m'"
    using A A0 r rA' by (auto simp: same_resources_def dict_simps split: if_splits)
  ultimately show ?thesis by blast
qed

lemma place_fold:
  assumes "fold_r (place_task g) fs m = Inr m'" "joining g m0 done fs m"
    and "distinct (map (\<lambda>at. topology_task_id (snd at)) fs)"
    and "\<And>a tpg. (a, tpg) \<in> set fs \<Longrightarrow> topology_task_id tpg \<notin> set (um_keys done)"
    and "\<And>a tpg A0. (a, tpg) \<in> set fs \<Longrightarrow> um_find a (m_agents m0) = Some A0 \<Longrightarrow>
           topology_task_id tpg \<notin> set (um_keys (a_tasks A0)) \<and> a_resource A0 \<noteq> None"
    and "same_resources m0 m"
  shows "joining g m0 (done @ map (\<lambda>at. (topology_task_id (snd at), fst at)) fs) [] m' \<and>
     same_resources m0 m'"
  using assms
proof (induction fs arbitrary: m "done")
  case Nil
  then show ?case by simp
next
  case (Cons f fs)
  obtain a tpg where f: "f = (a, tpg)" by (cases f)
  obtain m1 where m1: "place_task g (a, tpg) m = Inr m1" "fold_r (place_task g) fs m1 = Inr m'"
    using Cons.prems(1) f by auto
  have j: "joining g m0 (done @ [(topology_task_id tpg, a)]) fs m1"
    and r: "same_resources m0 m1"
  proof -
    have "topology_task_id tpg \<notin> set (um_keys done)" using Cons.prems(4) [of a tpg] by (simp add: f)
    moreover have "topology_task_id tpg \<notin> set (um_keys (a_tasks A0)) \<and> a_resource A0 \<noteq> None"
      if "um_find a (m_agents m0) = Some A0" for A0
      using Cons.prems(5) [of a tpg A0] that by (simp add: f)
    ultimately show "joining g m0 (done @ [(topology_task_id tpg, a)]) fs m1" "same_resources m0 m1"
      using place_task_joining [OF Cons.prems(2) [unfolded f] _ _ Cons.prems(6) m1(1)] by blast+
  qed
  have d: "topology_task_id x \<noteq> topology_task_id tpg" if "(b, x) \<in> set fs" for b x
    using that Cons.prems(3) by (force simp: f)
  have "joining g m0 ((done @ [(topology_task_id tpg, a)]) @ map (\<lambda>at. (topology_task_id (snd at), fst at)) fs) [] m' \<and>
     same_resources m0 m'"
  proof (rule Cons.IH [OF m1(2) j])
    show "distinct (map (\<lambda>at. topology_task_id (snd at)) fs)" using Cons.prems(3) by simp
    show "topology_task_id x \<notin> set (um_keys (done @ [(topology_task_id tpg, a)]))" if "(b, x) \<in> set fs" for b x
      using Cons.prems(4) [of b x] d [OF that] that by (simp add: f)
    show "topology_task_id x \<notin> set (um_keys (a_tasks A0)) \<and> a_resource A0 \<noteq> None"
      if "(b, x) \<in> set fs" "um_find b (m_agents m0) = Some A0" for b x A0
      using Cons.prems(5) [of b x A0] that by (simp add: f)
    show "same_resources m0 m1" by (rule r)
  qed
  then show ?case by (simp add: f)
qed

text \<open>What the agents gain from the joins: each deployed topology is entered as a task of its agent, in
  its first bin.\<close>

definition enter_bin :: "key_type \<times> topology \<Rightarrow> cpu_bin list \<Rightarrow> cpu_bin list" where
  "enter_bin d bins = (case bins of [] \<Rightarrow> []
     | b # bs \<Rightarrow> b\<lparr>cb_tasks := List.insert (topology_task_id (snd d)) (cb_tasks b)\<rparr> # bs)"

definition entered :: "(key_type \<times> topology) list \<Rightarrow> key_type \<Rightarrow> m_agent \<Rightarrow> m_agent \<Rightarrow> bool" where
  "entered ds a A0 A \<longleftrightarrow>
     (let mine = filter (\<lambda>d. fst d = a) ds
      in a_tasks A = a_tasks A0 @ map (\<lambda>d. (topology_task_id (snd d), \<lparr>at_topology = snd d, at_cpu_bins = [0]\<rparr>)) mine \<and>
         a_cpu_bins A = fold enter_bin mine (a_cpu_bins A0) \<and> (mine = [] \<or> a_cpu_bins A0 \<noteq> []))"

definition agents_enter :: "(key_type \<times> topology) list \<Rightarrow> (key_type \<times> m_agent) list \<Rightarrow> (key_type \<times> m_agent) list \<Rightarrow> bool" where
  "agents_enter ds agents0 agents \<longleftrightarrow> um_keys agents = um_keys agents0 \<and>
     (\<forall>a A. um_find a agents = Some A \<longrightarrow> (\<exists>A0. um_find a agents0 = Some A0 \<and> entered ds a A0 A))"

lemma fold_enter_bin_Nil [simp]: "(fold enter_bin ds bins = []) = (bins = [])"
  by (induction ds arbitrary: bins) (auto simp: enter_bin_def split: list.splits)

lemma entered_Nil [simp]: "entered [] a A0 A \<longleftrightarrow> a_tasks A = a_tasks A0 \<and> a_cpu_bins A = a_cpu_bins A0"
  by (simp add: entered_def)

lemma entered_append: "entered ds a A0 A1 \<Longrightarrow> entered es a A1 A \<Longrightarrow> entered (ds @ es) a A0 A"
  by (auto simp: entered_def Let_def)

lemma agents_enter_refl: "agents_enter [] agents agents"
  by (simp add: agents_enter_def)

lemma agents_enter_append:
  "agents_enter ds agents0 agents1 \<Longrightarrow> agents_enter es agents1 agents \<Longrightarrow> agents_enter (ds @ es) agents0 agents"
  unfolding agents_enter_def by (metis entered_append)

lemma place_task_enters:
  assumes "place_task g (b, tpg) m = Inr m'"
    and fresh: "\<And>B. um_find b (m_agents m) = Some B \<Longrightarrow> topology_task_id tpg \<notin> set (um_keys (a_tasks B))"
  shows "agents_enter [(b, tpg)] (m_agents m) (m_agents m')"
proof -
  obtain B B' where B: "um_find b (m_agents m) = Some B" "agent_assign tpg B = Inr B'"
    "m_agents m' = um_assign b B' (m_agents m)"
    using assms(1) by (auto simp: place_task_def)
  have fr: "um_find (topology_task_id tpg) (a_tasks B) = None" using fresh [OF B(1)] by (simp add: um_find_None_keys)
  have "entered [(b, tpg)] b B B'"
    using B(2) by (auto simp: agent_assign_def entered_def enter_bin_def Let_def um_try_emplace_fresh [OF fr] split: list.splits)
  moreover have "entered [(b, tpg)] a A A" if "a \<noteq> b" for a A using that by (simp add: entered_def)
  ultimately show ?thesis
    using B by (auto simp: agents_enter_def um_keys_assign_present dict_simps)
qed

lemma place_fold_enters:
  assumes "fold_r (place_task g) fs m = Inr m'"
    and "distinct (map (\<lambda>at. topology_task_id (snd at)) fs)"
    and "\<And>b tpg B. (b, tpg) \<in> set fs \<Longrightarrow> um_find b (m_agents m) = Some B \<Longrightarrow> topology_task_id tpg \<notin> set (um_keys (a_tasks B))"
  shows "agents_enter fs (m_agents m) (m_agents m')"
  using assms
proof (induction fs arbitrary: m)
  case Nil
  then show ?case by (simp add: agents_enter_refl)
next
  case (Cons f fs)
  obtain b tpg where f: "f = (b, tpg)" by (cases f)
  obtain m1 where m1: "place_task g (b, tpg) m = Inr m1" "fold_r (place_task g) fs m1 = Inr m'"
    using Cons.prems(1) f by auto
  have e: "agents_enter [(b, tpg)] (m_agents m) (m_agents m1)"
    using place_task_enters [OF m1(1)] Cons.prems(3) [of b tpg] by (simp add: f)
  have "topology_task_id x \<notin> set (um_keys (a_tasks C))"
    if c: "(c, x) \<in> set fs" "um_find c (m_agents m1) = Some C" for c x C
  proof -
    obtain C0 where C0: "um_find c (m_agents m) = Some C0" "entered [(b, tpg)] c C0 C"
      using e c(2) unfolding agents_enter_def by blast
    have "topology_task_id x \<noteq> topology_task_id tpg" using c(1) Cons.prems(2) by (force simp: f)
    moreover have "topology_task_id x \<notin> set (um_keys (a_tasks C0))" using Cons.prems(3) [of c x] c(1) C0(1) by simp
    ultimately show ?thesis using C0(2) by (auto simp: entered_def Let_def um_keys_def split: if_splits)
  qed
  then have "agents_enter fs (m_agents m1) (m_agents m')" using Cons.IH [OF m1(2)] Cons.prems(2) by simp
  from agents_enter_append [OF e this] show ?case by (simp add: f)
qed

lemma um_assign_same: "um_find k m = Some v \<Longrightarrow> um_assign k v m = m"
  by (induction m) (auto simp: um_assign_def split: if_splits)

lemma drawn_balanced:
  assumes "drawn Pool_released agents0 agents used" "um_find a agents0 = Some A0" "balanced A0 0"
  shows "\<exists>A. um_find a agents = Some A \<and> balanced A (used a) \<and>
     a_tasks A = a_tasks A0 \<and> a_resource A = a_resource A0 \<and> a_cpu_bins A = a_cpu_bins A0"
proof (cases "a_released A0")
  case None
  then have "um_find a agents = Some A0 \<and> used a = 0"
    using drawn_no [OF assms(1,2)] by (simp add: pool_get_def)
  then show ?thesis using assms(3) by simp
next
  case (Some r0)
  then obtain r where r: "um_find a agents = Some (pool_put Pool_released r A0)" "host r = host r0"
    "rvec_of r + used a = rvec_of r0"
    using drawn_some [OF assms(1,2)] by (auto simp: pool_get_def)
  obtain R where R: "a_resource A0 = Some R" "host r0 = host R" "rvec_of r0 + task_load A0 = rvec_of R" "um_wf (a_tasks A0)"
    using assms(3) Some by (auto simp: balanced_def split: option.splits)
  have "rvec_of r + task_load A0 + used a = rvec_of R"
    using r(3) R(3) by (metis add.assoc add.commute)
  then have "balanced (pool_put Pool_released r A0) (used a)"
    using r(2) R by (simp add: balanced_def pool_put_def task_load_def)
  then show ?thesis using r(1) by (simp add: pool_put_def)
qed

text \<open>One attempt to deploy the first graph of the queue: it fails and changes nothing, or the graph
  gets its placement.\<close>

lemma try_dequeue_cases:
  assumes inv: "master_inv m" and G: "um_find g (m_graphs m) = Some G" "g \<in> set (m_queue m)"
    and d: "try_dequeue g m = Inr (ok, m')"
  obtains (wait) "\<not> ok" "m' = m"
  | (deployed) t agents c2a ds where "ok" "mg_topology G = Some t" "mg_placement G = []"
      "placed Pool_released t (m_agents m) agents c2a" "um_keys c2a = um_keys (t_containers t)"
      "list_all2 (deployed t agents c2a) c2a ds"
      "joining g (m\<lparr>m_agents := agents, m_out := m_out m @ map (\<lambda>at. Deploy (fst at) (snd at)) ds\<rparr>)
         (map (\<lambda>ca. (mk_tid g (fst ca), snd ca)) c2a) [] m'"
      "agents_enter ds (m_agents m) (m_agents m')"
proof -
  obtain t where t: "mg_topology G = Some t" "t_graph t = g" "um_wf (t_containers t)"
    using master_inv_graph [OF inv G(1)] G(2) graph_ok_Some by blast
  note wf = master_inv_wf_agents [OF inv] master_inv_no_minus_1 [OF inv]
  obtain agents c2a n where pl: "place_loop Pool_released (t_containers t) (m_agents m) [] = Inr (agents, c2a)"
    "placed Pool_released t (m_agents m) agents c2a" "um_keys c2a = take n (um_keys (t_containers t))"
    by (rule place_loop_from_start [OF wf t(3), of Pool_released])
  show ?thesis
  proof (cases "length c2a = length (t_containers t)")
    case False
    have "try_dequeue g m = Inr (False, m\<lparr>m_agents := m_agents m\<rparr>)"
      using False G(1) t(1) pl(1) placed_restore [OF wf(1) pl(2)] by (simp add: try_dequeue_def)
    then show ?thesis using wait d by simp
  next
    case True
    then have keys: "um_keys c2a = um_keys (t_containers t)"
      using pl(3) by (metis length_um_keys length_take min.absorb_iff2 take_all nat_le_linear)
    obtain fs m1 where fs: "fold_r (deploy_one t c2a) c2a ([], m\<lparr>m_agents := agents\<rparr>) = Inr (fs, m1)"
      "mg_placement G = []" "fold_r (place_task g) fs m1 = Inr m'" "ok"
      using d G(1) t(1) pl(1) True by (auto simp: try_dequeue_def split: if_splits)
    obtain ds where ds: "fs = ds" "list_all2 (deployed t agents c2a) c2a ds"
      "m1 = m\<lparr>m_agents := agents, m_out := m_out m @ map (\<lambda>at. Deploy (fst at) (snd at)) ds\<rparr>"
      using deploy_fold [OF fs(1)] by auto
    have dr: "drawn Pool_released (m_agents m) agents (load t c2a)" "um_wf c2a"
      using pl(2) by (simp_all add: placed_def)
    have bal: "balanced A (load t c2a a) \<and> (\<exists>A0. um_find a (m_agents m) = Some A0 \<and>
        a_tasks A = a_tasks A0 \<and> a_resource A = a_resource A0 \<and> a_cpu_bins A = a_cpu_bins A0)"
      if A: "um_find a agents = Some A" for a A
    proof -
      obtain A0 where A0: "um_find a (m_agents m) = Some A0"
        using A dr(1) by (metis drawn_def um_find_Some_keys)
      then have "balanced A0 0" using inv by (simp add: master_inv_def agents_inv_def)
      from drawn_balanced [OF dr(1) A0 this] A A0 show ?thesis by auto
    qed
    have "G\<lparr>mg_placement := []\<rparr> = G" using fs(2) by (cases G) simp
    then have "joining g m1 [] ds m1"
      using G(1) bal pending_load [OF ds(2)] um_assign_same [OF G(1)]
      by (auto simp: joining_def ds(3))
    moreover have ids: "map (\<lambda>at. (topology_task_id (snd at), fst at)) ds = map (\<lambda>ca. (mk_tid g (fst ca), snd ca)) c2a"
      using deployed_ids [OF ds(2)] t(2) by simp
    moreover have di: "distinct (map (\<lambda>at. topology_task_id (snd at)) ds)"
    proof -
      have "map (\<lambda>at. topology_task_id (snd at)) ds = map fst (map (\<lambda>at. (topology_task_id (snd at), fst at)) ds)"
        by simp
      also have "\<dots> = map (mk_tid g) (um_keys c2a)" unfolding ids by (simp add: um_keys_def)
      finally show ?thesis using dr(2) by (simp add: um_wf_def distinct_map inj_on_def mk_tid_def)
    qed
    moreover have fr: "topology_task_id tpg \<notin> set (um_keys (a_tasks A0)) \<and> a_resource A0 \<noteq> None"
      if ad: "(a, tpg) \<in> set ds" and A0: "um_find a (m_agents m1) = Some A0" for a tpg A0
    proof -
      have "(topology_task_id tpg, a) \<in> set (map (\<lambda>ca. (mk_tid g (fst ca), snd ca)) c2a)"
        using ad unfolding ids [symmetric] by force
      then obtain c where c: "(c, a) \<in> set c2a" "topology_task_id tpg = mk_tid g c" by auto
      obtain B where B: "um_find a (m_agents m) = Some B" "a_tasks A0 = a_tasks B" "a_resource A0 = a_resource B"
        using bal [of a A0] A0 by (auto simp: ds(3))
      have "a_released B \<noteq> None" using pl(2) c(1) B(1) by (fastforce simp: placed_def pool_get_def)
      moreover have "balanced B 0" using inv B(1) by (simp add: master_inv_def agents_inv_def)
      ultimately have "a_resource B \<noteq> None" by (cases "a_resource B") (auto simp: balanced_def)
      moreover have "no_tasks_of m g" using inv G(2) by (simp add: master_inv_def queue_inv_def)
      then have "mk_tid g c \<notin> set (um_keys (a_tasks B))"
        using B(1) unfolding no_tasks_of_def by (metis mk_tid_sel(1))
      ultimately show ?thesis using B c(2) by simp
    qed
    ultimately have "joining g m1 (map (\<lambda>ca. (mk_tid g (fst ca), snd ca)) c2a) [] m'"
      using place_fold [OF fs(3) [unfolded ds(1)], of m1 "[]"] same_resources_refl by simp
    moreover have "agents_enter ds (m_agents m) (m_agents m')"
    proof -
      have "agents_enter [] (m_agents m) (m_agents m1)"
        using dr(1) bal by (fastforce simp: agents_enter_def drawn_def ds(3))
      moreover have "agents_enter ds (m_agents m1) (m_agents m')"
        using place_fold_enters [OF fs(3) [unfolded ds(1)] di] fr by blast
      ultimately show ?thesis using agents_enter_append by fastforce
    qed
    ultimately show ?thesis using deployed [OF fs(4) t(1) fs(2) pl(2) keys ds(2)] by (simp add: ds(3))
  qed
qed

lemma joining_agent:
  "joining g m0 done fs m \<Longrightarrow> um_find a (m_agents m) = Some A \<Longrightarrow> balanced A (pending fs a) \<and>
   (\<exists>A0. um_find a (m_agents m0) = Some A0 \<and>
      (\<forall>tid \<in> set (um_keys (a_tasks A)). tid \<in> set (um_keys (a_tasks A0)) \<or> tid \<in> set (um_keys done)))"
  unfolding joining_def by blast

lemma joined_inv:
  assumes inv: "master_inv m" and G: "um_find g (m_graphs m) = Some G" "mg_topology G = Some t"
    and q: "m_queue m = g # q" and keys: "um_keys agents = um_keys (m_agents m)"
    and tasks: "\<And>a A. um_find a agents = Some A \<Longrightarrow> \<exists>A0. um_find a (m_agents m) = Some A0 \<and> a_tasks A = a_tasks A0"
    and j: "joining g (m\<lparr>m_agents := agents, m_out := xs\<rparr>) pl [] m'"
    and ids: "\<And>tid. tid \<in> set (um_keys pl) \<Longrightarrow> tid_graph tid = g"
  shows "master_inv (m'\<lparr>m_queue := q\<rparr>)"
proof -
  let ?m = "m'\<lparr>m_queue := q\<rparr>"
  have eq: "m_graph_generator m' = m_graph_generator m" "m_agent_generator m' = m_agent_generator m"
    "um_keys (m_agents m') = um_keys (m_agents m)"
    "m_graphs m' = um_assign g (G\<lparr>mg_placement := pl\<rparr>) (m_graphs m)"
    using j G(1) keys by (auto simp: joining_def)
  have ag: "balanced A 0 \<and> (\<exists>A0. um_find a (m_agents m) = Some A0 \<and>
      (\<forall>tid \<in> set (um_keys (a_tasks A)). tid \<in> set (um_keys (a_tasks A0)) \<or> tid \<in> set (um_keys pl)))"
    if A: "um_find a (m_agents m') = Some A" for a A
  proof -
    obtain B where B: "balanced A (pending [] a)" "um_find a agents = Some B"
      "\<forall>tid \<in> set (um_keys (a_tasks A)). tid \<in> set (um_keys (a_tasks B)) \<or> tid \<in> set (um_keys pl)"
      using joining_agent [OF j A] by auto
    then show ?thesis using tasks [OF B(2)] by (auto simp: pending_def)
  qed
  have nt: "no_tasks_of ?m h" if "no_tasks_of m h" "h \<noteq> g" for h
    using that ag ids unfolding no_tasks_of_def by simp metis
  have g: "g < m_graph_generator m" "g \<notin> set q" "distinct q"
    using inv q by (auto simp: master_inv_def queue_inv_def)
  have "agents_inv ?m"
    using inv eq ag by (auto simp: master_inv_def agents_inv_def um_wf_def)
  moreover have "graphs_inv ?m"
    unfolding graphs_inv_def
  proof (intro conjI allI impI)
    show "um_wf (m_graphs ?m)" using inv eq by (simp add: master_inv_def graphs_inv_def um_wf_assign)
    fix h H assume "um_find h (m_graphs ?m) = Some H"
    then have H: "(if h = g then H = G\<lparr>mg_placement := pl\<rparr> else um_find h (m_graphs m) = Some H)"
      by (auto simp: eq dict_simps split: if_splits)
    note iG = master_inv_graph [OF inv G(1)] and iH = master_inv_graph [OF inv, of h H]
    show "graph_ok h H" "h < m_graph_generator ?m"
      using H iG iH G(2) eq(1) by (auto simp: graph_ok_def split: if_splits)
    show "no_tasks_of ?m h" "h \<notin> set (m_queue ?m)" if "mg_topology H = None"
    proof -
      have "h \<noteq> g" "um_find h (m_graphs m) = Some H" using H G(2) that by (cases "h = g"; simp)+
      then show "no_tasks_of ?m h" "h \<notin> set (m_queue ?m)" using iH that nt q by simp_all
    qed
    show "mg_placement H = []" if "h \<in> set (m_queue ?m)"
    proof -
      have "h \<noteq> g" using that g(2) by auto
      then show ?thesis using H iH that q by simp
    qed
  qed
  moreover have "queue_inv ?m"
    using inv q eq g nt by (auto simp: master_inv_def queue_inv_def)
  ultimately show ?thesis by (simp add: master_inv_def)
qed

lemma drawn_tasks:
  assumes "drawn p agents0 agents used" "um_find a agents = Some A"
  shows "\<exists>A0. um_find a agents0 = Some A0 \<and> a_tasks A = a_tasks A0"
proof -
  obtain A0 where A0: "um_find a agents0 = Some A0"
    using assms by (metis drawn_def um_find_Some_keys)
  have "drawn_at p A0 A (used a)" using assms A0 unfolding drawn_def by (metis option.inject)
  then have "a_tasks A = a_tasks A0"
    by (cases p) (auto simp: drawn_at_def pool_put_def split: option.splits)
  then show ?thesis using A0 by blast
qed

lemma master_inv_pop:
  assumes "master_inv m" "m_queue m = g # q"
  shows "master_inv (m\<lparr>m_queue := q\<rparr>)"
proof -
  let ?m = "m\<lparr>m_queue := q\<rparr>"
  have nt: "no_tasks_of ?m h = no_tasks_of m h" for h by (rule no_tasks_of_same) simp
  have "agents_inv ?m" using assms(1) by (simp add: master_inv_def agents_inv_def)
  moreover have "queue_inv ?m"
    unfolding queue_inv_def nt using assms by (simp add: master_inv_def queue_inv_def)
  moreover have "graphs_inv ?m"
    unfolding graphs_inv_def nt
  proof (intro conjI allI impI)
    show "um_wf (m_graphs ?m)" using assms(1) by (simp add: master_inv_def graphs_inv_def)
    fix h H assume "um_find h (m_graphs ?m) = Some H"
    then have H: "um_find h (m_graphs m) = Some H" by simp
    note iH = master_inv_graph [OF assms(1) H]
    show "graph_ok h H" "h < m_graph_generator ?m" using iH by simp_all
    show "no_tasks_of m h" "h \<notin> set (m_queue ?m)" if "mg_topology H = None" using iH that assms(2) by simp_all
    show "mg_placement H = []" if "h \<in> set (m_queue ?m)" using iH that assms(2) by simp
  qed
  ultimately show ?thesis by (simp add: master_inv_def)
qed

lemma try_dequeue_inv:
  assumes "master_inv m" "m_queue m = g # q" "um_find g (m_graphs m) = Some G"
    and "try_dequeue g m = Inr (True, m')"
  shows "master_inv (m'\<lparr>m_queue := q\<rparr>)"
proof (rule try_dequeue_cases [OF assms(1,3) _ assms(4)])
  show "g \<in> set (m_queue m)" using assms(2) by simp
next
  fix t agents c2a ds
  assume t: "mg_topology G = Some t" and pl: "placed Pool_released t (m_agents m) agents c2a"
    and j: "joining g (m\<lparr>m_agents := agents, m_out := m_out m @ map (\<lambda>at. Deploy (fst at) (snd at)) ds\<rparr>)
         (map (\<lambda>ca. (mk_tid g (fst ca), snd ca)) c2a) [] m'"
  have dr: "drawn Pool_released (m_agents m) agents (load t c2a)" using pl by (simp add: placed_def)
  show ?thesis
    by (rule joined_inv [OF assms(1,3) t assms(2) _ _ j])
       (use dr drawn_tasks [OF dr] in \<open>auto simp: drawn_def um_keys_def\<close>)
qed (use assms(4) in simp_all)

text \<open>What an attempt that succeeds has done.\<close>

definition part_of :: "topology \<Rightarrow> key_type \<Rightarrow> topology \<Rightarrow> bool" where
  "part_of t c tpg \<longleftrightarrow> (\<exists>e hosts. tpg_extract t c = Inr e \<and>
     tpg = e\<lparr>t_runtime := rt_set_vertex_hosts hosts (t_runtime e)\<rparr>)"

lemma deployed_part: "deployed t agents c2a ca d \<Longrightarrow> part_of t (fst ca) (snd d)"
  by (auto simp: deployed_def deploy_container_def part_of_def) metis

lemma try_dequeue_true:
  assumes inv: "master_inv m" and G: "um_find g (m_graphs m) = Some G" "g \<in> set (m_queue m)"
    and d: "try_dequeue g m = Inr (True, m')"
  obtains t ds where "mg_topology G = Some t" "m_queue m' = m_queue m"
    "m_out m' = m_out m @ map (\<lambda>d. Deploy (fst d) (snd d)) ds"
    "um_find g (m_graphs m') = Some (G\<lparr>mg_placement := map (\<lambda>d. (topology_task_id (snd d), fst d)) ds\<rparr>)"
    "\<And>h. h \<noteq> g \<Longrightarrow> um_find h (m_graphs m') = um_find h (m_graphs m)"
    "map (\<lambda>d. topology_task_id (snd d)) ds = map (mk_tid g) (um_keys (t_containers t))"
    "list_all2 (part_of t) (um_keys (t_containers t)) (map snd ds)"
    "agents_enter ds (m_agents m) (m_agents m')"
proof (rule try_dequeue_cases [OF assms])
  fix t agents c2a ds
  assume t: "mg_topology G = Some t" and keys: "um_keys c2a = um_keys (t_containers t)"
    and ds: "list_all2 (deployed t agents c2a) c2a ds"
    and j: "joining g (m\<lparr>m_agents := agents, m_out := m_out m @ map (\<lambda>at. Deploy (fst at) (snd at)) ds\<rparr>)
         (map (\<lambda>ca. (mk_tid g (fst ca), snd ca)) c2a) [] m'"
    and e: "agents_enter ds (m_agents m) (m_agents m')"
  have tg: "t_graph t = g" using master_inv_graph [OF inv G(1)] graph_ok_Some t by blast
  have pl: "map (\<lambda>d. (topology_task_id (snd d), fst d)) ds = map (\<lambda>ca. (mk_tid g (fst ca), snd ca)) c2a"
    using deployed_ids [OF ds] tg by simp
  have "map (\<lambda>d. topology_task_id (snd d)) ds = map fst (map (\<lambda>d. (topology_task_id (snd d), fst d)) ds)" by simp
  also have "\<dots> = map (mk_tid g) (um_keys (t_containers t))" unfolding pl keys [symmetric] by (simp add: um_keys_def)
  finally have ids: "map (\<lambda>d. topology_task_id (snd d)) ds = map (mk_tid g) (um_keys (t_containers t))" .
  have "list_all2 (\<lambda>ca d. part_of t (fst ca) (snd d)) c2a ds"
    using ds deployed_part by (rule list_all2_mono)
  then have parts: "list_all2 (part_of t) (um_keys (t_containers t)) (map snd ds)"
    unfolding keys [symmetric] by (simp add: um_keys_def list_all2_map1 list_all2_map2)
  have "um_find g (m_graphs m') = Some (G\<lparr>mg_placement := map (\<lambda>d. (topology_task_id (snd d), fst d)) ds\<rparr>)"
    "\<And>h. h \<noteq> g \<Longrightarrow> um_find h (m_graphs m') = um_find h (m_graphs m)"
    using j G(1) by (auto simp: joining_def dict_simps pl)
  then show thesis using that [OF t _ _ _ _ ids parts e] j by (simp add: joining_def)
qed simp

text \<open>The queue is served from the front, and the loop stops at a graph that does not fit.\<close>

definition tasks_of :: "master \<Rightarrow> key_type \<Rightarrow> task_id list" where
  "tasks_of m g = (case um_find g (m_graphs m) of None \<Rightarrow> []
     | Some G \<Rightarrow> (case mg_topology G of None \<Rightarrow> [] | Some t \<Rightarrow> map (mk_tid g) (um_keys (t_containers t))))"

definition placement_of :: "key_type \<Rightarrow> (key_type \<times> topology) list \<Rightarrow> (task_id \<times> key_type) list" where
  "placement_of h ds = map (\<lambda>d. (topology_task_id (snd d), fst d)) (filter (\<lambda>d. tid_graph (topology_task_id (snd d)) = h) ds)"

definition served :: "master \<Rightarrow> key_type list \<Rightarrow> (key_type \<times> topology) list \<Rightarrow> master \<Rightarrow> bool" where
  "served m p ds m' \<longleftrightarrow>
     m_out m' = m_out m @ map (\<lambda>d. Deploy (fst d) (snd d)) ds \<and>
     map (\<lambda>d. topology_task_id (snd d)) ds = concat (map (tasks_of m) p) \<and>
     agents_enter ds (m_agents m) (m_agents m') \<and>
     (\<forall>h. um_find h (m_graphs m') =
        (if h \<in> set p then map_option (\<lambda>G. G\<lparr>mg_placement := placement_of h ds\<rparr>) (um_find h (m_graphs m))
         else um_find h (m_graphs m)))"

lemma served_Nil: "served m [] [] m"
  by (simp add: served_def agents_enter_refl)

lemma tasks_of_graph: "tid \<in> set (tasks_of m g) \<Longrightarrow> tid_graph tid = g"
  by (auto simp: tasks_of_def split: option.splits)

lemma served_gone:
  assumes "um_find g (m_graphs m) = None" "served (m\<lparr>m_queue := q\<rparr>) p ds m'"
  shows "served m (g # p) ds m'"
proof -
  have "tasks_of (m\<lparr>m_queue := q\<rparr>) = tasks_of m" by (simp add: tasks_of_def fun_eq_iff)
  then show ?thesis using assms by (auto simp: served_def tasks_of_def [of m g])
qed

lemma served_deployed:
  assumes inv: "master_inv m" and G: "um_find g (m_graphs m) = Some G" "g \<in> set (m_queue m)" "g \<notin> set p"
    and d: "try_dequeue g m = Inr (True, m1)" and s: "served (m1\<lparr>m_queue := q\<rparr>) p ds m'"
  shows "\<exists>es. served m (g # p) es m'"
proof (rule try_dequeue_true [OF inv G(1,2) d])
  fix t ds0
  assume t: "mg_topology G = Some t" and o0: "m_out m1 = m_out m @ map (\<lambda>d. Deploy (fst d) (snd d)) ds0"
    and g1: "um_find g (m_graphs m1) = Some (G\<lparr>mg_placement := map (\<lambda>d. (topology_task_id (snd d), fst d)) ds0\<rparr>)"
    and h1: "\<And>h. h \<noteq> g \<Longrightarrow> um_find h (m_graphs m1) = um_find h (m_graphs m)"
    and ids: "map (\<lambda>d. topology_task_id (snd d)) ds0 = map (mk_tid g) (um_keys (t_containers t))"
    and e0: "agents_enter ds0 (m_agents m) (m_agents m1)"
  have to: "tasks_of m g = map (\<lambda>d. topology_task_id (snd d)) ds0" by (simp add: tasks_of_def G(1) t ids)
  have th: "tasks_of (m1\<lparr>m_queue := q\<rparr>) h = tasks_of m h" if "h \<in> set p" for h
    using that h1 G(3) by (cases "h = g") (auto simp: tasks_of_def)
  have tp: "map (\<lambda>d. topology_task_id (snd d)) ds = concat (map (tasks_of m) p)"
    using s th by (simp add: served_def cong: map_cong)
  have "topology_task_id (snd d) \<in> set (tasks_of m g)" if "d \<in> set ds0" for d using that by (force simp: to)
  then have in0: "\<And>d. d \<in> set ds0 \<Longrightarrow> tid_graph (topology_task_id (snd d)) = g" using tasks_of_graph by blast
  have in1: "tid_graph (topology_task_id (snd d)) \<in> set p" if "d \<in> set ds" for d
  proof -
    have "topology_task_id (snd d) \<in> set (map (\<lambda>d. topology_task_id (snd d)) ds)" using that by simp
    then show ?thesis unfolding tp using tasks_of_graph by fastforce
  qed
  have ge: "filter (\<lambda>d. tid_graph (topology_task_id (snd d)) = g) (ds0 @ ds) = ds0"
    using in0 in1 G(3) by (auto simp: filter_id_conv filter_empty_conv)
  have he: "filter (\<lambda>d. tid_graph (topology_task_id (snd d)) = h) (ds0 @ ds) =
      filter (\<lambda>d. tid_graph (topology_task_id (snd d)) = h) ds" if "h \<noteq> g" for h
    using in0 that by (auto simp: filter_empty_conv)
  have graphs: "um_find h (m_graphs m') =
        (if h \<in> set (g # p) then map_option (\<lambda>G. G\<lparr>mg_placement := placement_of h (ds0 @ ds)\<rparr>) (um_find h (m_graphs m))
         else um_find h (m_graphs m))" for h
  proof (cases "h = g")
    case True
    then show ?thesis using s g1 G(1,3) unfolding placement_of_def True ge by (simp add: served_def)
  next
    case False
    then show ?thesis using s h1 [OF False] unfolding placement_of_def he [OF False] by (simp add: served_def placement_of_def)
  qed
  have "served m (g # p) (ds0 @ ds) m'"
    using s o0 to tp graphs agents_enter_append [OF e0] unfolding served_def by simp
  then show ?thesis by blast
qed


lemma dequeue_loop_inv:
  assumes "master_inv m" "m_queue m = q" "dequeue_loop q m n = Inr (k, m')"
  shows "master_inv m' \<and> (\<exists>p ds. q = p @ m_queue m' \<and> k = n + length p \<and> served m p ds m') \<and>
     (m_queue m' \<noteq> [] \<longrightarrow> try_dequeue (hd (m_queue m')) m' = Inr (False, m'))"
  using assms
proof (induction q arbitrary: m n)
  case Nil
  then show ?case by (auto intro: served_Nil)
next
  case (Cons g q)
  show ?case
  proof (cases "um_find g (m_graphs m)")
    case None
    let ?m = "m\<lparr>m_queue := q\<rparr>"
    have "dequeue_loop q ?m (n + 1) = Inr (k, m')" using Cons.prems(3) None by simp
    from Cons.IH [OF master_inv_pop [OF Cons.prems(1,2)] _ this]
    obtain p ds where p: "master_inv m'" "q = p @ m_queue m'" "k = n + 1 + length p" "served ?m p ds m'"
      "m_queue m' \<noteq> [] \<longrightarrow> try_dequeue (hd (m_queue m')) m' = Inr (False, m')" by auto
    then show ?thesis using served_gone [OF None p(4)] by (auto intro!: exI [of _ "g # p"])
  next
    case (Some G)
    obtain ok m1 where m1: "try_dequeue g m = Inr (ok, m1)"
      "(if \<not> ok then Inr (n, m1) else dequeue_loop q (m1\<lparr>m_queue := q\<rparr>) (n + 1)) = Inr (k, m')"
      using Cons.prems(3) Some by auto
    have gq: "g \<in> set (m_queue m)" using Cons.prems(2) by simp
    show ?thesis
    proof (cases ok)
      case False
      from try_dequeue_cases [OF Cons.prems(1) Some gq m1(1)] False have "m1 = m" by metis
      then show ?thesis using m1 False Cons.prems(1,2) served_Nil [of m] by (auto intro!: exI [of _ "[]"])
    next
      case True
      let ?m = "m1\<lparr>m_queue := q\<rparr>"
      have t: "try_dequeue g m = Inr (True, m1)" using m1(1) True by simp
      have "master_inv ?m" using try_dequeue_inv [OF Cons.prems(1,2) Some t] .
      moreover have "dequeue_loop q ?m (n + 1) = Inr (k, m')" using m1(2) True by simp
      ultimately obtain p ds where p: "master_inv m'" "q = p @ m_queue m'" "k = n + 1 + length p" "served ?m p ds m'"
        "m_queue m' \<noteq> [] \<longrightarrow> try_dequeue (hd (m_queue m')) m' = Inr (False, m')"
        using Cons.IH [of ?m "n + 1"] by auto
      have "g \<notin> set p"
        using Cons.prems(1,2) p(2) by (auto simp: master_inv_def queue_inv_def)
      from served_deployed [OF Cons.prems(1) Some gq this t p(4)] p show ?thesis
        by (auto intro!: exI [of _ "g # p"])
    qed
  qed
qed

lemma dequeue_inv:
  assumes "master_inv m" "dequeue m = Inr (k, m')"
  shows "master_inv m'"
  using dequeue_loop_inv [OF assms(1) refl] assms(2) by (auto simp: dequeue_def)

section \<open>Handlers preserve the invariant\<close>

lemma insert_agent_inv: "master_inv m \<Longrightarrow> master_inv (snd (insert_agent m))"
proof -
  assume inv: "master_inv m"
  let ?k = "m_agent_generator m"
  let ?m = "m\<lparr>m_agent_generator := ?k + 1, m_agents := um_try_emplace ?k (mk_agent ?k) (m_agents m)\<rparr>"
  have fresh: "um_find ?k (m_agents m) = None"
    using inv by (fastforce simp: um_find_None_keys master_inv_def agents_inv_def)
  have f: "um_find a (m_agents ?m) = (if a = ?k then Some (mk_agent ?k) else um_find a (m_agents m))" for a
    using fresh by (simp add: dict_simps)
  have "master_inv ?m"
  proof (rule master_inv_agents [OF inv])
    show "agents_inv ?m"
      using inv f by (auto simp: master_inv_def agents_inv_def balanced_def mk_agent_def um_wf_try_emplace)
    show "no_tasks_of m g \<Longrightarrow> no_tasks_of ?m g" for g
      unfolding no_tasks_of_def f by (auto simp: mk_agent_def split: if_splits)
  qed simp_all
  then show ?thesis by (simp add: insert_agent_def Let_def)
qed

lemma insert_graph_inv: "master_inv m \<Longrightarrow> master_inv (snd (insert_graph m))"
proof -
  assume inv: "master_inv m"
  let ?k = "m_graph_generator m"
  let ?m = "m\<lparr>m_graph_generator := ?k + 1, m_graphs := um_try_emplace ?k (mk_graph ?k) (m_graphs m)\<rparr>"
  have nt: "no_tasks_of ?m g = no_tasks_of m g" for g by (rule no_tasks_of_same) simp
  have "um_find ?k (m_graphs m) = None"
    using master_inv_graph [OF inv, of ?k] by (cases "um_find ?k (m_graphs m)") auto
  then have f: "um_find g (m_graphs ?m) = (if g = ?k then Some (mk_graph ?k) else um_find g (m_graphs m))" for g
    by (simp add: dict_simps)
  have q: "?k \<notin> set (m_queue m)" "no_tasks_of m ?k" using inv by (auto simp: master_inv_def queue_inv_def)
  have "graphs_inv ?m"
    unfolding graphs_inv_def
  proof (intro conjI allI impI)
    show "um_wf (m_graphs ?m)" using inv by (simp add: master_inv_def graphs_inv_def um_wf_try_emplace)
    fix h H assume H: "um_find h (m_graphs ?m) = Some H"
    show "graph_ok h H" "h < m_graph_generator ?m"
      using H f [of h] master_inv_graph [OF inv, of h H] by (auto simp: graph_ok_def mk_graph_def split: if_splits)
    show "no_tasks_of ?m h" "h \<notin> set (m_queue ?m)" if "mg_topology H = None"
      using H f [of h] master_inv_graph [OF inv, of h H] that q unfolding nt by (auto split: if_splits)
    show "mg_placement H = []" if "h \<in> set (m_queue ?m)"
      using H f [of h] master_inv_graph [OF inv, of h H] that q by (auto split: if_splits)
  qed
  moreover have "queue_inv ?m" unfolding queue_inv_def nt using inv by (auto simp: master_inv_def queue_inv_def)
  moreover have "agents_inv ?m" using inv by (simp add: master_inv_def agents_inv_def)
  ultimately have "master_inv ?m" by (simp add: master_inv_def)
  then show ?thesis by (simp add: insert_graph_def Let_def)
qed

lemma master_inv_update_graph:
  assumes inv: "master_inv m" and G: "um_find g (m_graphs m) = Some G"
    and G': "graph_ok g G'" "mg_topology G' = None \<Longrightarrow> mg_topology G = None"
      "mg_placement G = [] \<Longrightarrow> mg_placement G' = []"
  shows "master_inv (m\<lparr>m_graphs := um_assign g G' (m_graphs m)\<rparr>)"
proof (rule master_inv_graphs [OF inv])
  let ?m = "m\<lparr>m_graphs := um_assign g G' (m_graphs m)\<rparr>"
  have nt: "no_tasks_of ?m h = no_tasks_of m h" for h by (rule no_tasks_of_same) simp
  show "graphs_inv ?m"
  proof (rule graphs_invI)
    show "um_wf (m_graphs ?m)" using inv by (simp add: master_inv_def graphs_inv_def um_wf_assign)
    fix h H assume "um_find h (m_graphs ?m) = Some H"
    then have H: "if h = g then H = G' else um_find h (m_graphs m) = Some H"
      by (simp add: dict_simps split: if_splits)
    show "graph_ok h H \<and> h < m_graph_generator ?m \<and>
       (mg_topology H = None \<longrightarrow> no_tasks_of ?m h \<and> h \<notin> set (m_queue ?m)) \<and>
       (h \<in> set (m_queue ?m) \<longrightarrow> mg_placement H = [])"
    proof (cases "h = g")
      case True
      then show ?thesis using H G' master_inv_graph [OF inv G] by (simp add: nt)
    next
      case False
      then show ?thesis using H master_inv_graph [OF inv, of h H] by (simp add: nt)
    qed
  qed
qed simp_all

lemma graph_update_ok:
  assumes "graph_update info G = Inr G'" "graph_ok g G"
  shows "graph_ok g G' \<and> mg_topology G' = mg_topology G \<and> (mg_placement G = [] \<longrightarrow> mg_placement G' = [])"
proof (cases "um_find (ti_task_id info) (mg_placement G)")
  case None
  then show ?thesis using assms by (simp add: graph_update_def)
next
  case (Some a)
  then have "mg_placement G \<noteq> []" by auto
  moreover obtain s where "G' = G\<lparr>mg_placement := um_erase (ti_task_id info) (mg_placement G),
                   mg_solution := Some (s\<lparr>sol_taskinfos := sol_taskinfos s @ [info]\<rparr>)\<rparr>"
    using assms(1) Some by (auto simp: graph_update_def)
  ultimately show ?thesis using assms(2) by (auto simp: graph_ok_def split: option.splits)
qed

lemma agent_removed_inv:
  assumes inv: "master_inv m" and A: "um_find a (m_agents m) = Some A" "agent_remove tid A = Inr A'"
  shows "master_inv (m\<lparr>m_agents := um_assign a A' (m_agents m)\<rparr>)"
proof (rule master_inv_agents [OF inv])
  have "balanced A 0" using inv A(1) by (simp add: master_inv_def agents_inv_def)
  then have A': "balanced A' 0" "set (um_keys (a_tasks A')) \<subseteq> set (um_keys (a_tasks A))"
    using agent_remove_balanced [OF A(2)] by auto
  show "agents_inv (m\<lparr>m_agents := um_assign a A' (m_agents m)\<rparr>)"
    using inv by (intro agents_inv_assign [OF _ A(1) A'(1)]) (simp add: master_inv_def)
  show "no_tasks_of m g \<Longrightarrow> no_tasks_of (m\<lparr>m_agents := um_assign a A' (m_agents m)\<rparr>) g" for g
    using A'(2) by (intro no_tasks_of_assign [OF A(1)]) auto
qed simp_all

lemma on_taskinfo_inv:
  assumes "on_taskinfo a info m = Inr m'" "master_inv m"
  shows "master_inv m'"
proof -
  obtain m1 m2 k where m1: "(case um_find a (m_agents m) of
               None \<Rightarrow> Inr m
             | Some A \<Rightarrow> bind_r (agent_remove (ti_task_id info) A) (\<lambda>A.
                 Inr (m\<lparr>m_agents := um_assign a A (m_agents m)\<rparr>))) = Inr m1"
    and m2: "(case um_find (tid_graph (ti_task_id info)) (m_graphs m1) of
               None \<Rightarrow> Inr m1
             | Some G \<Rightarrow> bind_r (graph_update info G) (\<lambda>G.
                 let m = m1\<lparr>m_graphs := um_assign (tid_graph (ti_task_id info)) G (m_graphs m1)\<rparr>
                 in if has_error info \<or> length (mg_placement G) = 0
                    then remove_graph (mg_key G) m else Inr m)) = Inr m2"
    and m3: "dequeue m2 = Inr (k, m')"
    using assms(1) unfolding on_taskinfo_def by auto
  have i1: "master_inv m1"
    using m1 assms(2) agent_removed_inv [OF assms(2)] by (auto split: option.splits)
  have "master_inv m2"
  proof (cases "um_find (tid_graph (ti_task_id info)) (m_graphs m1)")
    case None
    then show ?thesis using m2 i1 by simp
  next
    case (Some G)
    then obtain G' where G': "graph_update info G = Inr G'" using m2 by auto
    let ?m = "m1\<lparr>m_graphs := um_assign (tid_graph (ti_task_id info)) G' (m_graphs m1)\<rparr>"
    have "master_inv ?m"
      using graph_update_ok [OF G'] master_inv_graph [OF i1 Some]
      by (intro master_inv_update_graph [OF i1 Some]) auto
    then show ?thesis
      using m2 Some G' remove_graph_inv by (auto simp: Let_def split: if_splits)
  qed
  then show ?thesis using dequeue_inv m3 by blast
qed

lemma on_resource_inv:
  assumes "on_resource a res m = Inr m'" "master_inv m"
    and "\<And>A. um_find a (m_agents m) = Some A \<Longrightarrow> a_resource A = None"
  shows "master_inv m'"
proof (cases "um_find a (m_agents m)")
  case None
  then show ?thesis using assms dequeue_inv by (auto simp: on_resource_def)
next
  case (Some A)
  define A' where "A' = A\<lparr>a_resource := Some res, a_released := Some res,
                        a_cpu_bins := a_cpu_bins A @
                          map (\<lambda>cpu. \<lparr>cb_idx = int cpu, cb_tasks = []\<rparr>) [0..<unat (num_cpus res)]\<rparr>"
  obtain k where d: "dequeue (m\<lparr>m_agents := um_assign a A' (m_agents m)\<rparr>) = Inr (k, m')"
    using assms(1) Some by (auto simp: on_resource_def A'_def split: if_splits)
  have bal: "balanced A 0" using assms(2) Some by (simp add: master_inv_def agents_inv_def)
  then have t: "a_tasks A = []" using assms(3) [OF Some] by (simp add: balanced_def)
  have "master_inv (m\<lparr>m_agents := um_assign a A' (m_agents m)\<rparr>)"
  proof (rule master_inv_agents [OF assms(2)])
    have "balanced A' 0" using t by (simp add: A'_def balanced_def task_load_def)
    then show "agents_inv (m\<lparr>m_agents := um_assign a A' (m_agents m)\<rparr>)"
      using assms(2) by (intro agents_inv_assign [OF _ Some]) (auto simp: master_inv_def)
    show "no_tasks_of m g \<Longrightarrow> no_tasks_of (m\<lparr>m_agents := um_assign a A' (m_agents m)\<rparr>) g" for g
      by (rule no_tasks_of_assign [OF Some]) (simp_all add: A'_def)
  qed simp_all
  then show ?thesis using dequeue_inv d by blast
qed

text \<open>The trial placement of an incoming graph on the total resources changes nothing.\<close>

lemma try_enqueue_eq:
  assumes "um_wf (m_agents m)" "- 1 \<notin> set (um_keys (m_agents m))" "mg_topology G = Some t" "um_wf (t_containers t)"
  obtains n agents c2a where "try_enqueue G m = Inr (n = length (t_containers t), m)"
    "place_loop Pool_resource (t_containers t) (m_agents m) [] = Inr (agents, c2a)"
    "placed Pool_resource t (m_agents m) agents c2a" "um_keys c2a = take n (um_keys (t_containers t))"
    "greedy Pool_resource t (m_agents m) c2a" "n \<le> length (t_containers t)"
    "n < length (t_containers t) \<longrightarrow> no_room Pool_resource t (m_agents m) c2a (snd (t_containers t ! n))"
proof -
  obtain agents c2a n where pl: "place_loop Pool_resource (t_containers t) (m_agents m) [] = Inr (agents, c2a)"
    "placed Pool_resource t (m_agents m) agents c2a" "um_keys c2a = take n (um_keys (t_containers t))"
    "greedy Pool_resource t (m_agents m) c2a" "n \<le> length (t_containers t)"
    "n < length (t_containers t) \<longrightarrow> no_room Pool_resource t (m_agents m) c2a (snd (t_containers t ! n))"
    by (rule place_loop_from_start [OF assms(1,2,4), of Pool_resource])
  have "length c2a = n" using pl(3,5) by (metis length_take length_um_keys min.absorb2)
  then have "try_enqueue G m = Inr (n = length (t_containers t), m)"
    using assms(3) placed_restore [OF assms(1) pl(2)] pl(1) by (simp add: try_enqueue_def)
  then show ?thesis using that pl by blast
qed

lemma on_topology_inv:
  assumes h: "on_topology g tpg m = Inr m'" and inv: "master_inv m" and wf: "um_wf (t_containers tpg)"
    and first: "\<And>G. um_find g (m_graphs m) = Some G \<Longrightarrow> mg_topology G = None"
  shows "master_inv m'"
proof (cases "um_find g (m_graphs m)")
  case None
  then show ?thesis using h inv by (simp add: on_topology_def)
next
  case (Some G)
  define t where "t = tpg\<lparr>t_graph := g\<rparr>"
  define G1 where "G1 = G\<lparr>mg_topology := Some t, mg_solution := Some (mk_solution g)\<rparr>"
  define m1 where "m1 = m\<lparr>m_graphs := um_assign g G1 (m_graphs m)\<rparr>"
  note iG = master_inv_graph [OF inv Some]
  have k: "mg_key G1 = g" "mg_placement G1 = []" "mg_topology G1 = Some t" "um_wf (t_containers t)"
    using iG first [OF Some] wf by (auto simp: graph_ok_def G1_def t_def)
  have ok1: "graph_ok g G1" using k wf by (simp add: graph_ok_def G1_def t_def)
  have i1: "master_inv m1"
    unfolding m1_def using ok1 k by (intro master_inv_update_graph [OF inv Some]) auto
  have f1: "um_find g (m_graphs m1) = Some G1" by (simp add: m1_def dict_simps)
  obtain b where b: "try_enqueue G1 m1 = Inr (b, m1)"
    using try_enqueue_eq [OF master_inv_wf_agents [OF i1] master_inv_no_minus_1 [OF i1] k(3,4)] by metis
  have nt: "no_tasks_of m g" "g \<notin> set (m_queue m)" using iG first [OF Some] by auto
  show ?thesis
  proof (cases b)
    case True
    let ?m = "m1\<lparr>m_queue := m_queue m1 @ [g]\<rparr>"
    obtain n where d: "dequeue ?m = Inr (n, m')"
      using h Some f1 b True k(1) by (auto simp: on_topology_def enqueue_def Let_def m1_def G1_def t_def)
    have same: "no_tasks_of ?m h = no_tasks_of m h" for h by (rule no_tasks_of_same) (simp add: m1_def)
    have same1: "no_tasks_of m1 h = no_tasks_of m h" for h by (rule no_tasks_of_same) (simp add: m1_def)
    have "graphs_inv ?m"
    proof (rule graphs_invI)
      show "um_wf (m_graphs ?m)" using i1 by (simp add: master_inv_def graphs_inv_def)
      fix x X assume "um_find x (m_graphs ?m) = Some X"
      then have X: "um_find x (m_graphs m1) = Some X" by simp
      show "graph_ok x X \<and> x < m_graph_generator ?m \<and>
         (mg_topology X = None \<longrightarrow> no_tasks_of ?m x \<and> x \<notin> set (m_queue ?m)) \<and>
         (x \<in> set (m_queue ?m) \<longrightarrow> mg_placement X = [])"
        using master_inv_graph [OF i1 X] X f1 k by (cases "x = g") (simp_all add: same same1)
    qed
    moreover have "queue_inv ?m"
    proof -
      have "distinct (m_queue m)" "\<forall>h \<in> set (m_queue m). h < m_graph_generator m \<and> no_tasks_of m h"
        "\<forall>h \<ge> m_graph_generator m. no_tasks_of m h"
        using inv by (simp_all add: master_inv_def queue_inv_def)
      moreover have "g < m_graph_generator m" using iG by simp
      ultimately have "distinct (m_queue m @ [g])"
        "\<forall>h \<in> set (m_queue m @ [g]). h < m_graph_generator m \<and> no_tasks_of m h"
        "\<forall>h \<ge> m_graph_generator m. no_tasks_of m h" using nt by auto
      moreover have qe: "m_queue ?m = m_queue m @ [g]" and ge: "m_graph_generator ?m = m_graph_generator m"
        by (simp_all add: m1_def)
      ultimately show ?thesis unfolding queue_inv_def same qe ge by blast
    qed
    moreover have "agents_inv ?m" using i1 by (simp add: master_inv_def agents_inv_def)
    ultimately have "master_inv ?m" by (simp add: master_inv_def)
    from dequeue_inv [OF this d] show ?thesis .
  next
    case False
    define G2 where "G2 = G1\<lparr>mg_solution := Some ((mk_solution g)\<lparr>sol_what := no_fit_message\<rparr>)\<rparr>"
    have e: "enqueue g m1 = Inr (False, m1)" using f1 b False by (simp add: enqueue_def um_at_eq del: bind_r_eq_Inr)
    have "on_topology g tpg m = bind_r (enqueue g m1) (\<lambda>(ok, m).
              if \<not> ok then
                bind_r (um_at g (m_graphs m)) (\<lambda>G.
                bind_r (deref (mg_solution G)) (\<lambda>s.
                  remove_graph g (m\<lparr>m_graphs := um_assign g
                    (G\<lparr>mg_solution := Some (s\<lparr>sol_what := no_fit_message\<rparr>)\<rparr>) (m_graphs m)\<rparr>)))
              else bind_r (dequeue m) (\<lambda>(_, m). Inr m))"
      unfolding on_topology_def Some by (simp add: Let_def m1_def G1_def t_def)
    then have "bind_r (um_at g (m_graphs m1)) (\<lambda>G. bind_r (deref (mg_solution G)) (\<lambda>s.
        remove_graph g (m1\<lparr>m_graphs := um_assign g
          (G\<lparr>mg_solution := Some (s\<lparr>sol_what := no_fit_message\<rparr>)\<rparr>) (m_graphs m1)\<rparr>))) = Inr m'"
      using h by (simp add: e del: bind_r_eq_Inr)
    then have "remove_graph g (m1\<lparr>m_graphs := um_assign g G2 (m_graphs m1)\<rparr>) = Inr m'"
      by (simp add: f1 um_at_eq G1_def G2_def del: bind_r_eq_Inr)
    moreover have "master_inv (m1\<lparr>m_graphs := um_assign g G2 (m_graphs m1)\<rparr>)"
      using ok1 k by (intro master_inv_update_graph [OF i1 f1]) (auto simp: G2_def graph_ok_def)
    ultimately show ?thesis using remove_graph_inv by blast
  qed
qed

section \<open>The master as a state machine\<close>

text \<open>What can happen to the master: connections, messages and broken connections. An agent reports
  its resource, and a graph sends its topology, once per connection.\<close>

datatype master_event =
    Agent_connects
  | Graph_connects
  | Webui_connects
  | Resource_arrives key_type resource
  | Topology_arrives key_type topology
  | Taskinfo_arrives key_type task_info
  | Agent_breaks key_type
  | Graph_breaks key_type
  | Webui_breaks key_type

definition master_handle :: "master_event \<Rightarrow> master \<Rightarrow> master result" where
  "master_handle e m =
     (case e of
        Agent_connects \<Rightarrow> Inr (snd (insert_agent m))
      | Graph_connects \<Rightarrow> Inr (snd (insert_graph m))
      | Webui_connects \<Rightarrow> Inr (snd (insert_webui m))
      | Resource_arrives a r \<Rightarrow> on_resource a r m
      | Topology_arrives g t \<Rightarrow> on_topology g t m
      | Taskinfo_arrives a i \<Rightarrow> on_taskinfo a i m
      | Agent_breaks a \<Rightarrow> remove_agent a m
      | Graph_breaks g \<Rightarrow> remove_graph g m
      | Webui_breaks w \<Rightarrow> Inr (remove_webui w m))"

definition protocol :: "master_event \<Rightarrow> master \<Rightarrow> bool" where
  "protocol e m =
     (case e of
        Resource_arrives a _ \<Rightarrow> (case um_find a (m_agents m) of None \<Rightarrow> True | Some A \<Rightarrow> a_resource A = None)
      | Topology_arrives g t \<Rightarrow> um_wf (t_containers t) \<and>
          (case um_find g (m_graphs m) of None \<Rightarrow> True | Some G \<Rightarrow> mg_topology G = None)
      | _ \<Rightarrow> True)"

inductive master_reach :: "master \<Rightarrow> bool" where
  reach_init: "master_reach master_init"
| reach_step: "master_reach m \<Longrightarrow> protocol e m \<Longrightarrow> master_handle e m = Inr m' \<Longrightarrow> master_reach m'"

inductive_cases master_reachE: "master_reach m"

lemma master_inv_webuis [simp]:
  "master_inv (m\<lparr>m_webuis := w\<rparr>) = master_inv m"
  "master_inv (m\<lparr>m_webui_generator := n\<rparr>) = master_inv m"
proof -
  have "no_tasks_of (m\<lparr>m_webuis := w\<rparr>) g = no_tasks_of m g" for g by (simp add: no_tasks_of_def)
  moreover have "no_tasks_of (m\<lparr>m_webui_generator := n\<rparr>) g = no_tasks_of m g" for g
    by (simp add: no_tasks_of_def)
  ultimately show "master_inv (m\<lparr>m_webuis := w\<rparr>) = master_inv m"
    "master_inv (m\<lparr>m_webui_generator := n\<rparr>) = master_inv m"
    by (simp_all add: master_inv_def agents_inv_def graphs_inv_def queue_inv_def)
qed

lemma master_init_inv: "master_inv master_init"
  by (simp add: master_inv_def agents_inv_def graphs_inv_def queue_inv_def master_init_def no_tasks_of_def)

lemma master_handle_inv:
  assumes "master_handle e m = Inr m'" "protocol e m" "master_inv m"
  shows "master_inv m'"
proof (cases e)
  case Agent_connects
  then show ?thesis using assms insert_agent_inv by (auto simp: master_handle_def)
next
  case Graph_connects
  then show ?thesis using assms insert_graph_inv by (auto simp: master_handle_def)
next
  case Webui_connects
  then show ?thesis using assms by (auto simp: master_handle_def insert_webui_def Let_def)
next
  case (Resource_arrives a r)
  then have "on_resource a r m = Inr m'" "\<And>A. um_find a (m_agents m) = Some A \<Longrightarrow> a_resource A = None"
    using assms by (auto simp: master_handle_def protocol_def)
  then show ?thesis using on_resource_inv assms(3) by blast
next
  case (Topology_arrives g t)
  then have "on_topology g t m = Inr m'" "um_wf (t_containers t)"
    "\<And>G. um_find g (m_graphs m) = Some G \<Longrightarrow> mg_topology G = None"
    using assms by (auto simp: master_handle_def protocol_def)
  then show ?thesis using on_topology_inv assms(3) by blast
next
  case (Taskinfo_arrives a i)
  then show ?thesis using assms on_taskinfo_inv by (auto simp: master_handle_def)
next
  case (Agent_breaks a)
  then show ?thesis using assms remove_agent_inv by (auto simp: master_handle_def)
next
  case (Graph_breaks g)
  then show ?thesis using assms remove_graph_inv by (auto simp: master_handle_def)
next
  case (Webui_breaks w)
  then show ?thesis
    using assms by (auto simp: master_handle_def remove_webui_def send_def split: option.splits)
qed

lemma master_reach_inv: "master_reach m \<Longrightarrow> master_inv m"
  by (induction rule: master_reach.induct) (auto intro: master_init_inv master_handle_inv)

section \<open>Properties\<close>

text \<open>Runs in which the peers keep to the protocol: no agent reports a second resource, no graph sends a
  second topology, and the containers of a topology have distinct keys. The events are otherwise
  arbitrary. The code does not check any of this itself.\<close>

fun obeys :: "master_event list \<Rightarrow> master \<Rightarrow> bool" where
  "obeys [] m = True"
| "obeys (e # es) m = (protocol e m \<and> (case master_handle e m of Inr m' \<Rightarrow> obeys es m' | Inl _ \<Rightarrow> True))"

lemma obeys_reach: "obeys es m \<Longrightarrow> fold_r master_handle es m = Inr m' \<Longrightarrow> master_reach m \<Longrightarrow> master_reach m'"
proof (induction es arbitrary: m)
  case Nil
  then show ?case by simp
next
  case (Cons e es)
  obtain m1 where m1: "master_handle e m = Inr m1" "fold_r master_handle es m1 = Inr m'" using Cons.prems(2) by auto
  then have "obeys es m1" "protocol e m" using Cons.prems(1) by simp_all
  then show ?case using Cons.IH m1 reach_step [OF Cons.prems(3) _ m1(1)] by blast
qed

text \<open>C1: resources are conserved. Premise: the peers keep to the protocol, i.e. each agent reports its
  resource once per connection, each graph sends its topology once per connection, and the containers
  of a topology have distinct keys (master.cpp:261 does not check this: see
  \<open>second_resource_unbalances\<close> for what a second report does), and no handler has failed. Then,
  in whatever order connections, messages and broken connections came, each agent that reported its
  resource satisfies: what is released plus what its tasks were given, as natural numbers, is exactly
  what it reported. No agent is oversubscribed and nothing leaks.\<close>

theorem master_conservation:
  assumes "obeys es master_init" "fold_r master_handle es master_init = Inr m"
    and "um_find a (m_agents m) = Some A" "a_resource A = Some R"
  shows "\<exists>r. a_released A = Some r \<and> rvec_of r + task_load A = rvec_of R"
proof -
  have "balanced A 0"
    using master_reach_inv [OF obeys_reach [OF assms(1,2) reach_init]] assms(3)
    by (simp add: master_inv_def agents_inv_def)
  then show ?thesis using assms(4) by (auto simp: balanced_def)
qed

text \<open>A run of the master under the protocol, for concrete states.\<close>

fun run_master :: "master_event list \<Rightarrow> master \<Rightarrow> master option" where
  "run_master [] m = Some m"
| "run_master (e # es) m =
     (if protocol e m then (case master_handle e m of Inr m' \<Rightarrow> run_master es m' | Inl _ \<Rightarrow> None) else None)"

lemma run_master_reach: "run_master es m = Some m' \<Longrightarrow> master_reach m \<Longrightarrow> master_reach m'"
  by (induction es arbitrary: m) (auto split: if_splits sum.splits intro: reach_step)

definition demo_resource :: "u64 \<Rightarrow> resource" where
  "demo_resource n = \<lparr>host = ''h'', num_cpus = n, memory_limit_in_bytes = n, space_limit_in_bytes = n\<rparr>"

definition demo_job :: topology where
  "demo_job = demo_topology\<lparr>t_containers :=
     [(0, (mk_container '''' 0)\<lparr>c_resource := demo_resource 1\<rparr>), (1, (mk_container '''' 1)\<lparr>c_resource := demo_resource 2\<rparr>)]\<rparr>"

text \<open>Two agents, two graphs deployed on them, a third one that waits and a fourth that has only connected.\<close>

definition demo_events :: "master_event list" where
  "demo_events = [Agent_connects, Resource_arrives 0 (demo_resource 4), Agent_connects,
     Resource_arrives 1 (demo_resource 2), Graph_connects, Topology_arrives 0 demo_job,
     Graph_connects, Topology_arrives 1 demo_job, Graph_connects, Topology_arrives 2 demo_job,
     Graph_connects]"

definition demo_run :: "master option" where
  "demo_run = run_master demo_events master_init"

lemma run_master_obeys: "run_master es m = Some m' \<Longrightarrow> obeys es m \<and> fold_r master_handle es m = Inr m'"
  by (induction es arbitrary: m) (auto split: if_splits sum.splits)

lemma demo_run_ok: "demo_run \<noteq> None"
  by code_simp

lemma demo_run_reach:
  obtains m where "demo_run = Some m" "master_reach m"
proof -
  obtain m where m: "demo_run = Some m" using demo_run_ok by blast
  then have "master_reach m" unfolding demo_run_def by (rule run_master_reach [OF _ reach_init])
  with m that show ?thesis by blast
qed

definition check_demo :: "(master \<Rightarrow> bool) \<Rightarrow> bool" where
  "check_demo P = (case demo_run of Some m \<Rightarrow> P m | None \<Rightarrow> False)"

lemma check_demoD: assumes "check_demo P" "demo_run = Some m" shows "P m"
  using assms(1) unfolding check_demo_def assms(2) by simp

lemma demo_agent: "check_demo (\<lambda>m. case um_find 0 (m_agents m) of None \<Rightarrow> False
     | Some A \<Rightarrow> a_resource A = Some (demo_resource 4) \<and> length (a_tasks A) = 2)"
  by code_simp

theorem master_conservation_witness:
  "\<exists>m A R. demo_run = Some m \<and> um_find 0 (m_agents m) = Some A \<and> a_resource A = Some R \<and>
     length (a_tasks A) = 2 \<and> (\<exists>r. a_released A = Some r \<and> rvec_of r + task_load A = rvec_of R)"
proof -
  obtain m where m: "demo_run = Some m" "master_reach m" by (rule demo_run_reach)
  obtain A where A: "um_find 0 (m_agents m) = Some A" "a_resource A = Some (demo_resource 4)" "length (a_tasks A) = 2"
    using check_demoD [OF demo_agent m(1)] by (auto split: option.splits)
  have o: "obeys demo_events master_init" "fold_r master_handle demo_events master_init = Inr m"
    using run_master_obeys m(1) by (auto simp: demo_run_def)
  from master_conservation [OF o A(1,2)] m(1) A show ?thesis by blast
qed

text \<open>An agent that reports its resource again, while two tasks run on it, gets all of it released: the
  master then has more to give than the agent has.\<close>

lemma second_resource_unbalances:
  "check_demo (\<lambda>m. case on_resource 0 (demo_resource 4) m of Inl _ \<Rightarrow> False
     | Inr m' \<Rightarrow> (case um_find 0 (m_agents m') of None \<Rightarrow> False
         | Some A \<Rightarrow> (case a_released A of None \<Rightarrow> False
             | Some r \<Rightarrow> a_resource A = Some (demo_resource 4) \<and>
                 4 < rv_cpu (rvec_of r + task_load A))))"
  by code_simp

text \<open>C2: the admission test of a reachable master (agents report once, graphs send one topology, keys of
  its containers distinct: the events of \<open>protocol\<close>) never fails and leaves the master exactly as it
  was. It makes one pass over the containers in their order, each given to an agent that covers it with
  what is left of its total resource; it answers yes precisely when the pass has given every container
  an agent, and otherwise no agent had room for the next container. The assignment never loads an agent
  beyond the resource it reported.\<close>

theorem try_enqueue_restores:
  assumes "master_reach m" "um_find g (m_graphs m) = Some G" "mg_topology G = Some t"
  shows "\<exists>n agents c2a. place_loop Pool_resource (t_containers t) (m_agents m) [] = Inr (agents, c2a) \<and>
     um_keys c2a = take n (um_keys (t_containers t)) \<and> n \<le> length (t_containers t) \<and>
     try_enqueue G m = Inr (n = length (t_containers t), m) \<and>
     greedy Pool_resource t (m_agents m) c2a \<and>
     (n < length (t_containers t) \<longrightarrow> no_room Pool_resource t (m_agents m) c2a (snd (t_containers t ! n))) \<and>
     (\<forall>a A R. um_find a (m_agents m) = Some A \<longrightarrow> a_resource A = Some R \<longrightarrow> load t c2a a \<le> rvec_of R)"
proof -
  note inv = master_reach_inv [OF assms(1)]
  have wf: "um_wf (t_containers t)"
    using master_inv_graph [OF inv assms(2)] graph_ok_Some assms(3) by blast
  obtain n agents c2a where e: "try_enqueue G m = Inr (n = length (t_containers t), m)"
    "place_loop Pool_resource (t_containers t) (m_agents m) [] = Inr (agents, c2a)"
    "placed Pool_resource t (m_agents m) agents c2a" "um_keys c2a = take n (um_keys (t_containers t))"
    "greedy Pool_resource t (m_agents m) c2a" "n \<le> length (t_containers t)"
    "n < length (t_containers t) \<longrightarrow> no_room Pool_resource t (m_agents m) c2a (snd (t_containers t ! n))"
    by (rule try_enqueue_eq [OF master_inv_wf_agents [OF inv] master_inv_no_minus_1 [OF inv] assms(3) wf])
  moreover have "load t c2a a \<le> rvec_of R"
    if "um_find a (m_agents m) = Some A" "a_resource A = Some R" for a A R
    using placed_load [OF e(3) that(1)] that(2) by (simp add: pool_get_def)
  ultimately show ?thesis by blast
qed

lemma demo_graph: "check_demo (\<lambda>m. case um_find 2 (m_graphs m) of None \<Rightarrow> False
     | Some G \<Rightarrow> mg_topology G \<noteq> None \<and> m_queue m = [2])"
  by code_simp

theorem try_enqueue_restores_witness:
  "\<exists>m G t. demo_run = Some m \<and> um_find 2 (m_graphs m) = Some G \<and> mg_topology G = Some t \<and>
     (\<exists>n agents c2a. place_loop Pool_resource (t_containers t) (m_agents m) [] = Inr (agents, c2a) \<and>
       um_keys c2a = take n (um_keys (t_containers t)) \<and> n \<le> length (t_containers t) \<and>
       try_enqueue G m = Inr (n = length (t_containers t), m) \<and>
       greedy Pool_resource t (m_agents m) c2a \<and>
       (n < length (t_containers t) \<longrightarrow> no_room Pool_resource t (m_agents m) c2a (snd (t_containers t ! n))) \<and>
       (\<forall>a A R. um_find a (m_agents m) = Some A \<longrightarrow> a_resource A = Some R \<longrightarrow> load t c2a a \<le> rvec_of R))"
proof -
  obtain m where m: "demo_run = Some m" "master_reach m" by (rule demo_run_reach)
  obtain G t where G: "um_find 2 (m_graphs m) = Some G" "mg_topology G = Some t"
    using check_demoD [OF demo_graph m(1)] by (auto split: option.splits)
  from try_enqueue_restores [OF m(2) G] m(1) G show ?thesis by blast
qed

text \<open>C5: a placement pass over the containers of a topology (keys distinct), on the agents of a
  reachable master (events of \<open>protocol\<close>), gives each container in its turn, not only the first, to
  an agent that covers the request with what the containers before have left of its pool, and such
  that no other covering agent has less left in all three amounts; it stops early only at a container
  that no agent can cover any more. So the pass is a best fit: the comment above the loop
  (scheduler.cpp:29 and 72) says it finds "the largest bin", which is not what the code does.\<close>

theorem best_fit_correct:
  assumes "master_reach m" "um_wf (t_containers t)"
  shows "\<exists>agents c2a n. place_loop p (t_containers t) (m_agents m) [] = Inr (agents, c2a) \<and>
     n \<le> length (t_containers t) \<and> um_keys c2a = take n (um_keys (t_containers t)) \<and>
     (\<forall>i < n. \<exists>x v. um_find (fst (c2a ! i)) (t_containers t) = Some x \<and>
        spare p t (m_agents m) (take i c2a) (snd (c2a ! i)) v \<and> rvec_of (c_resource x) \<le> v \<and>
        (\<forall>a w. spare p t (m_agents m) (take i c2a) a w \<longrightarrow> rvec_of (c_resource x) \<le> w \<longrightarrow> \<not> smaller w v)) \<and>
     (n < length (t_containers t) \<longrightarrow>
        (\<forall>a v. spare p t (m_agents m) c2a a v \<longrightarrow> \<not> rvec_of (c_resource (snd (t_containers t ! n))) \<le> v))"
proof -
  note inv = master_reach_inv [OF assms(1)]
  obtain agents c2a n where pl: "place_loop p (t_containers t) (m_agents m) [] = Inr (agents, c2a)"
    "um_keys c2a = take n (um_keys (t_containers t))" "greedy p t (m_agents m) c2a" "n \<le> length (t_containers t)"
    "n < length (t_containers t) \<longrightarrow> no_room p t (m_agents m) c2a (snd (t_containers t ! n))"
    by (rule place_loop_from_start [OF master_inv_wf_agents [OF inv] master_inv_no_minus_1 [OF inv] assms(2), of p])
  have "length c2a = n" using pl(2,4) by (metis length_take length_um_keys min.absorb2)
  then show ?thesis using pl unfolding greedy_def chosen_def no_room_def by blast
qed

theorem best_fit_correct_witness:
  "\<exists>m agents c2a n. demo_run = Some m \<and>
     place_loop Pool_resource (t_containers demo_job) (m_agents m) [] = Inr (agents, c2a) \<and>
     n \<le> length (t_containers demo_job) \<and> um_keys c2a = take n (um_keys (t_containers demo_job)) \<and>
     (\<forall>i < n. \<exists>x v. um_find (fst (c2a ! i)) (t_containers demo_job) = Some x \<and>
        spare Pool_resource demo_job (m_agents m) (take i c2a) (snd (c2a ! i)) v \<and> rvec_of (c_resource x) \<le> v \<and>
        (\<forall>a w. spare Pool_resource demo_job (m_agents m) (take i c2a) a w \<longrightarrow> rvec_of (c_resource x) \<le> w \<longrightarrow>
           \<not> smaller w v))"
proof -
  obtain m where m: "demo_run = Some m" "master_reach m" by (rule demo_run_reach)
  have "um_wf (t_containers demo_job)" by code_simp
  from best_fit_correct [OF m(2) this, of Pool_resource] m(1) show ?thesis by blast
qed

text \<open>A second run: the first graph is deployed, the second, a big one, does not fit any more, and the
  third waits behind it although it would fit.\<close>

definition big_job :: topology where
  "big_job = demo_topology\<lparr>t_containers :=
     [(0, (mk_container '''' 0)\<lparr>c_resource := demo_resource 1\<rparr>), (1, (mk_container '''' 1)\<lparr>c_resource := demo_resource 3\<rparr>)]\<rparr>"

definition queue_events :: "master_event list" where
  "queue_events = [Agent_connects, Resource_arrives 0 (demo_resource 4), Agent_connects,
     Resource_arrives 1 (demo_resource 2), Graph_connects, Topology_arrives 0 demo_job,
     Graph_connects, Topology_arrives 1 big_job, Graph_connects, Topology_arrives 2 demo_job]"

definition check_run :: "master_event list \<Rightarrow> (master \<Rightarrow> bool) \<Rightarrow> bool" where
  "check_run es P = (case run_master es master_init of Some m \<Rightarrow> P m | None \<Rightarrow> False)"

lemma check_runE:
  assumes "check_run es P"
  obtains m where "run_master es master_init = Some m" "P m" "master_reach m"
proof -
  obtain m where "run_master es master_init = Some m" "P m"
    using assms by (auto simp: check_run_def split: option.splits)
  with that run_master_reach [OF _ reach_init] show thesis by blast
qed

text \<open>C4: the queue is first come, first served. In a reachable master (events of \<open>protocol\<close>) a
  round of \<open>_dequeue\<close> takes a prefix off the queue and returns its length. It drops nothing: the
  deployment messages it sends are for exactly the containers of the prefix's graphs that are still
  there, graph by graph in queue order, container by container; each of those graphs has these tasks
  as its placement, the agents have entered them, and all other graphs stay as they are. If something
  is left in the queue, then its first graph does not fit at that moment, even if later ones would.\<close>

theorem dequeue_fifo:
  assumes "master_reach m" "dequeue m = Inr (n, m')"
  shows "\<exists>p ds. m_queue m = p @ m_queue m' \<and> n = length p \<and>
     m_out m' = m_out m @ map (\<lambda>d. Deploy (fst d) (snd d)) ds \<and>
     map (\<lambda>d. topology_task_id (snd d)) ds = concat (map (tasks_of m) p) \<and>
     agents_enter ds (m_agents m) (m_agents m') \<and>
     (\<forall>h. um_find h (m_graphs m') =
        (if h \<in> set p then map_option (\<lambda>G. G\<lparr>mg_placement := placement_of h ds\<rparr>) (um_find h (m_graphs m))
         else um_find h (m_graphs m))) \<and>
     (m_queue m' = [] \<or> try_dequeue (hd (m_queue m')) m' = Inr (False, m'))"
  using dequeue_loop_inv [OF master_reach_inv [OF assms(1)] refl assms(2) [unfolded dequeue_def]]
  unfolding served_def by auto

text \<open>The big graph's client goes away: the round takes both keys and deploys the last graph.\<close>

lemma demo_dequeue: "check_run (queue_events @ [Graph_breaks 1]) (\<lambda>m. m_queue m = [1, 2] \<and>
   (case dequeue m of Inr (n, m') \<Rightarrow> n = 2 \<and> length (m_out m') = length (m_out m) + 2 | Inl _ \<Rightarrow> False))"
  by code_simp

theorem dequeue_fifo_witness:
  "\<exists>m n m'. run_master (queue_events @ [Graph_breaks 1]) master_init = Some m \<and> dequeue m = Inr (n, m') \<and>
     n = 2 \<and> length (m_out m') = length (m_out m) + 2 \<and>
     (\<exists>p ds. m_queue m = p @ m_queue m' \<and> n = length p \<and>
       m_out m' = m_out m @ map (\<lambda>d. Deploy (fst d) (snd d)) ds \<and>
       map (\<lambda>d. topology_task_id (snd d)) ds = concat (map (tasks_of m) p) \<and>
       agents_enter ds (m_agents m) (m_agents m'))"
proof -
  obtain m n m' where m: "run_master (queue_events @ [Graph_breaks 1]) master_init = Some m" "master_reach m"
    and d: "dequeue m = Inr (n, m')" "n = 2" "length (m_out m') = length (m_out m) + 2"
    by (rule check_runE [OF demo_dequeue]) (auto split: sum.splits)
  from dequeue_fifo [OF m(2) d(1)] m(1) d show ?thesis by blast
qed




text \<open>C6: removing a graph that has a report kills its placed tasks on the agents that still run them,
  sends the report once, closes the channel and forgets the graph; every other graph and all agents
  stay as they are, and removing it again does nothing.\<close>

theorem remove_graph_reports_once:
  assumes "um_find g (m_graphs m) = Some G" "mg_solution G = Some s"
  shows "\<exists>m' kills. remove_graph g m = Inr m' \<and>
     m_out m' = m_out m @ kills @ [Report g s, Close_graph g] \<and>
     set kills = {Kill_task a tid | a tid A. (tid, a) \<in> set (mg_placement G) \<and>
                    um_find a (m_agents m) = Some A \<and> um_find tid (a_tasks A) \<noteq> None} \<and>
     um_find g (m_graphs m') = None \<and> (\<forall>h. h = g \<or> um_find h (m_graphs m') = um_find h (m_graphs m)) \<and>
     m_agents m' = m_agents m \<and> m_queue m' = m_queue m \<and> remove_graph g m' = Inr m'"
proof -
  let ?f = "\<lambda>ta. case um_find (snd ta) (m_agents m) of None \<Rightarrow> []
                 | Some A \<Rightarrow> if um_find (fst ta) (a_tasks A) = None then [] else [Kill_task (snd ta) (fst ta)]"
  let ?k = "concat (map ?f (mg_placement G))"
  have "set ?k = {Kill_task a tid | a tid A. (tid, a) \<in> set (mg_placement G) \<and>
                    um_find a (m_agents m) = Some A \<and> um_find tid (a_tasks A) \<noteq> None}"
  proof (rule set_eqI)
    fix x
    have el: "x \<in> set (?f (tid, a)) \<longleftrightarrow>
        (\<exists>A. x = Kill_task a tid \<and> um_find a (m_agents m) = Some A \<and> um_find tid (a_tasks A) \<noteq> None)" for tid a
      by (cases "um_find a (m_agents m)") auto
    have "x \<in> set ?k \<longleftrightarrow> (\<exists>tid a. (tid, a) \<in> set (mg_placement G) \<and> x \<in> set (?f (tid, a)))" by force
    then show "x \<in> set ?k \<longleftrightarrow> x \<in> {Kill_task a tid | a tid A. (tid, a) \<in> set (mg_placement G) \<and>
                    um_find a (m_agents m) = Some A \<and> um_find tid (a_tasks A) \<noteq> None}"
      unfolding el by blast
  qed
  then show ?thesis
    using assms
    by (intro exI [of _ "m\<lparr>m_graphs := um_erase g (m_graphs m),
                m_out := m_out m @ ?k @ [Report g s, Close_graph g]\<rparr>"] exI [of _ ?k])
       (simp add: remove_graph_eq dict_simps)
qed

theorem remove_graph_reports_once_witness:
  "\<exists>m' kills. remove_graph 0 (master_init\<lparr>m_graphs := [(0, (mk_graph 0)\<lparr>mg_solution := Some (mk_solution 0)\<rparr>)]\<rparr>) = Inr m' \<and>
     m_out m' = [] @ kills @ [Report 0 (mk_solution 0), Close_graph 0] \<and> um_find 0 (m_graphs m') = None"
proof -
  let ?m = "master_init\<lparr>m_graphs := [(0, (mk_graph 0)\<lparr>mg_solution := Some (mk_solution 0)\<rparr>)]\<rparr>"
  have "um_find 0 (m_graphs ?m) = Some ((mk_graph 0)\<lparr>mg_solution := Some (mk_solution 0)\<rparr>)" by simp
  from remove_graph_reports_once [OF this, of "mk_solution 0"] show ?thesis
    by (auto simp: master_init_def)
qed

text \<open>C9: in a reachable state, losing the connection of a graph runs into undefined behaviour exactly
  when the graph has not sent its topology yet: its report, which \<open>_remove_graph\<close> sends without a
  check, does not exist.\<close>

theorem early_disconnect_undefined:
  assumes "master_reach m" "um_find g (m_graphs m) = Some G"
  shows "(\<exists>e. master_handle (Graph_breaks g) m = Inl e) = (mg_topology G = None)"
proof -
  have "graph_ok g G" using master_inv_graph [OF master_reach_inv [OF assms(1)] assms(2)] by blast
  then have "(mg_solution G = None) = (mg_topology G = None)"
    by (cases "mg_topology G") (auto simp: graph_ok_def)
  then show ?thesis
    using assms(2) by (auto simp: master_handle_def remove_graph_eq split: option.splits)
qed

lemma demo_unsent: "check_demo (\<lambda>m. case um_find 3 (m_graphs m) of None \<Rightarrow> False | Some G \<Rightarrow> mg_topology G = None)"
  by code_simp

theorem early_disconnect_undefined_witness:
  "\<exists>m G. demo_run = Some m \<and> um_find 3 (m_graphs m) = Some G \<and>
     (\<exists>e. master_handle (Graph_breaks 3) m = Inl e) = (mg_topology G = None) \<and> mg_topology G = None"
proof -
  obtain m where m: "demo_run = Some m" "master_reach m" by (rule demo_run_reach)
  obtain G where G: "um_find 3 (m_graphs m) = Some G" "mg_topology G = None"
    using check_demoD [OF demo_unsent m(1)] by (auto split: option.splits)
  from early_disconnect_undefined [OF m(2) G(1)] m(1) G show ?thesis by blast
qed

end
