(* ===== verification/Cgroup.thy ===== *)
theory Cgroup
  imports Strings
begin

text \<open>
  Control groups (src/lxc/cgroup.cpp, include/dtc/lxc/cgroup.hpp): finding the mount points of the
  nine subsystems in \<open>/proc/mounts\<close>, the paths of a group, writing and reading its files, and the
  parser of \<open>cpuset.cpus\<close>. The file system is a parameter: which paths can be written, what a file
  contains, which directories can be made or removed. Operations that change something before they
  throw return the state beside the exception. The theorem of this theory is that the parser reads
  back every CPU list the kernel prints.
\<close>

section \<open>Subsystems\<close>

datatype subsystem =
  BLKIO | CPU | CPUACCT | CPUSET | DEVICES | FREEZER | MEMORY | NET_CLS | NET_PRIO

definition subsystem_name :: "subsystem \<Rightarrow> string" where
  "subsystem_name s = (case s of
       BLKIO \<Rightarrow> ''blkio'' | CPU \<Rightarrow> ''cpu'' | CPUACCT \<Rightarrow> ''cpuacct'' | CPUSET \<Rightarrow> ''cpuset''
     | DEVICES \<Rightarrow> ''devices'' | FREEZER \<Rightarrow> ''freezer'' | MEMORY \<Rightarrow> ''memory''
     | NET_CLS \<Rightarrow> ''net_cls'' | NET_PRIO \<Rightarrow> ''net_prio'')"

definition all_subsystems :: "subsystem list" where
  "all_subsystems = [BLKIO, CPU, CPUACCT, CPUSET, DEVICES, FREEZER, MEMORY, NET_CLS, NET_PRIO]"

text \<open>An entry of \<open>/proc/mounts\<close>, its options separated.\<close>

record mntent =
  mnt_dir :: string
  mnt_type :: string
  mnt_opts :: "string list"

text \<open>The mount points by subsystem, empty before they are found. A later entry overrides an earlier
  one; a subsystem without any ends the program.\<close>

definition scan_mount :: "mntent \<Rightarrow> (subsystem \<Rightarrow> string) \<Rightarrow> subsystem \<Rightarrow> string" where
  "scan_mount e mount s =
     (if mnt_type e \<noteq> ''cgroup'' then mount s
      else if subsystem_name s \<in> set (mnt_opts e) then mnt_dir e else mount s)"

definition subsystems :: "mntent list option \<Rightarrow> (subsystem \<Rightarrow> string) result" where
  "subsystems mounts =
     (case mounts of
        None \<Rightarrow> Inl (Runtime_error ''/proc/mounts not found.'')
      | Some es \<Rightarrow>
          let mount = fold scan_mount es (\<lambda>_. [])
          in if \<exists>s \<in> set all_subsystems. mount s = [] then Inl (Exit 1) else Inr mount)"

lemma subsystem_in_all: "s \<in> set all_subsystems"
  by (cases s) (simp_all add: all_subsystems_def)

lemma subsystems_mounted: "subsystems m = Inr mount \<Longrightarrow> mount s \<noteq> []"
  using subsystem_in_all by (auto simp: subsystems_def Let_def split: option.splits if_splits)

section \<open>A control group\<close>

text \<open>\<open>operator /\<close> of \<open>std::filesystem::path\<close>: an absolute right operand replaces the left.\<close>

definition path_join :: "string \<Rightarrow> string \<Rightarrow> string" where
  "path_join a b =
     (if b \<noteq> [] \<and> hd b = CHR ''/'' then b
      else if a = [] \<or> last a = CHR ''/'' then a @ b else a @ ''/'' @ b)"

definition cg_file :: "(subsystem \<Rightarrow> string) \<Rightarrow> string \<Rightarrow> subsystem \<Rightarrow> string \<Rightarrow> string" where
  "cg_file mount p s f = path_join (path_join (mount s) p) f"

text \<open>The directories made by the constructor; the destructor stops at the first directory that
  cannot be removed (the exception is caught).\<close>

definition cg_create ::
  "(subsystem \<Rightarrow> string) \<Rightarrow> (string \<Rightarrow> exn option) \<Rightarrow> string \<Rightarrow> string list \<Rightarrow> string list outcome" where
  "cg_create mount mkdir p dirs =
     fold_o (\<lambda>s dirs. case mkdir (path_join (mount s) p) of
                 None \<Rightarrow> (List.insert (path_join (mount s) p) dirs, None)
               | Some e \<Rightarrow> (dirs, Some e)) all_subsystems dirs"

definition cg_destroy ::
  "(subsystem \<Rightarrow> string) \<Rightarrow> (string \<Rightarrow> exn option) \<Rightarrow> string \<Rightarrow> string list \<Rightarrow> string list" where
  "cg_destroy mount rmdir p dirs =
     (if p = [] then dirs
      else fst (fold_o (\<lambda>s dirs.
             let d = path_join (mount s) p
             in if d \<in> set dirs
                then (case rmdir d of None \<Rightarrow> (removeAll d dirs, None) | Some e \<Rightarrow> (dirs, Some e))
                else (dirs, None)) all_subsystems dirs))"

definition memory_mount :: "(subsystem \<Rightarrow> string) \<Rightarrow> string \<Rightarrow> string" where
  "memory_mount mount p = path_join (mount MEMORY) p"

definition cpuset_mount :: "(subsystem \<Rightarrow> string) \<Rightarrow> string \<Rightarrow> string" where
  "cpuset_mount mount p = path_join (mount CPUSET) p"

definition blkio_mount :: "(subsystem \<Rightarrow> string) \<Rightarrow> string \<Rightarrow> string" where
  "blkio_mount mount p = path_join (mount BLKIO) p"

text \<open>Writing appends to the list of writes; \<open>writable\<close> says whether the file opens.\<close>

definition cg_set ::
  "(string \<Rightarrow> bool) \<Rightarrow> string \<Rightarrow> string \<Rightarrow> (string \<times> string) list \<Rightarrow> (string \<times> string) list outcome" where
  "cg_set writable f v ws =
     (if writable f then (ws @ [(f, v)], None)
      else (ws, Some (Runtime_error (''failed to write '' @ v @ '' to '' @ f))))"

definition cg_get :: "(string \<Rightarrow> string option) \<Rightarrow> string \<Rightarrow> string result" where
  "cg_get content f =
     (case content f of Some s \<Rightarrow> Inr s | None \<Rightarrow> Inl (Runtime_error (''failed to open '' @ f)))"

definition cg_add ::
  "(subsystem \<Rightarrow> string) \<Rightarrow> (string \<Rightarrow> bool) \<Rightarrow> string \<Rightarrow> int \<Rightarrow> (string \<times> string) list \<Rightarrow>
   (string \<times> string) list outcome" where
  "cg_add mount writable p pid ws =
     fold_o (\<lambda>s. cg_set writable (cg_file mount p s ''tasks'') (int_str pid)) all_subsystems ws"

definition cg_set_memory_oom_control ::
  "(subsystem \<Rightarrow> string) \<Rightarrow> (string \<Rightarrow> bool) \<Rightarrow> string \<Rightarrow> bool \<Rightarrow> (string \<times> string) list \<Rightarrow>
   (string \<times> string) list outcome" where
  "cg_set_memory_oom_control mount writable p b =
     cg_set writable (cg_file mount p MEMORY ''memory.oom_control'') (if b then ''1'' else ''0'')"

definition cg_set_memory_swappiness ::
  "(subsystem \<Rightarrow> string) \<Rightarrow> (string \<Rightarrow> bool) \<Rightarrow> string \<Rightarrow> int \<Rightarrow> (string \<times> string) list \<Rightarrow>
   (string \<times> string) list outcome" where
  "cg_set_memory_swappiness mount writable p v =
     cg_set writable (cg_file mount p MEMORY ''memory.swappiness'') (int_str v)"

definition cg_set_memory_limit_in_bytes ::
  "(subsystem \<Rightarrow> string) \<Rightarrow> (string \<Rightarrow> bool) \<Rightarrow> string \<Rightarrow> u64 \<Rightarrow> (string \<times> string) list \<Rightarrow>
   (string \<times> string) list outcome" where
  "cg_set_memory_limit_in_bytes mount writable p v =
     cg_set writable (cg_file mount p MEMORY ''memory.limit_in_bytes'') (u64_str v)"

definition cg_set_cpuset_cpus ::
  "(subsystem \<Rightarrow> string) \<Rightarrow> (string \<Rightarrow> bool) \<Rightarrow> string \<Rightarrow> string \<Rightarrow> (string \<times> string) list \<Rightarrow>
   (string \<times> string) list outcome" where
  "cg_set_cpuset_cpus mount writable p v =
     cg_set writable (cg_file mount p CPUSET ''cpuset.cpus'') v"

section \<open>Reading the files of a group\<close>

text \<open>\<open>std::stoull\<close>: like \<open>stoi\<close>, but a minus sign negates modulo \<open>2^64\<close> and only a magnitude
  beyond \<open>unsigned long long\<close> is out of range.\<close>

definition stoull :: "string \<Rightarrow> u64 result" where
  "stoull s =
     (let (neg, t) = stoi_sign (dropWhile isspace s); ds = takeWhile isdigit t; v = digits_val ds
      in if ds = [] then Inl Invalid_argument
         else if 18446744073709551615 < int v then Inl Out_of_range
         else Inr (if neg then - of_nat v else of_nat v))"

lemma stoull_u64_str: "stoull (u64_str w) = Inr w"
proof -
  have ds: "takeWhile isdigit (u64_str w) = u64_str w"
    using nat_str_digits by (auto simp: u64_str_def takeWhile_eq_all_conv)
  obtain c t where ct: "u64_str w = c # t" using nat_str_nonempty by (cases "u64_str w") (auto simp: u64_str_def)
  then have c: "isdigit c" using nat_str_digits [of c "unat w"] by (simp add: u64_str_def)
  have sg: "stoi_sign (dropWhile isspace (u64_str w)) = (False, u64_str w)"
    using isdigit_not_isspace [OF c] isdigit_not_sign [OF c] ct by (simp add: stoi_sign_def)
  have "uint w < 2 ^ 64" using uint_bounded [of w] by simp
  then have "int (unat w) \<le> 18446744073709551615" by simp
  then have le: "\<not> 18446744073709551615 < int (digits_val (u64_str w))" by (simp add: u64_str_def)
  have "digits_val (u64_str w) = unat w" by (simp add: u64_str_def)
  moreover have "u64_str w \<noteq> []" using ct by simp
  ultimately show ?thesis using le by (simp only: stoull_def sg ds Let_def prod.case if_False) simp
qed

definition cg_memory_limit_in_bytes ::
  "(subsystem \<Rightarrow> string) \<Rightarrow> (string \<Rightarrow> string option) \<Rightarrow> string \<Rightarrow> u64 result" where
  "cg_memory_limit_in_bytes mount content p =
     bind_r (cg_get content (cg_file mount p MEMORY ''memory.limit_in_bytes'')) stoull"

definition cg_memory_usage_in_bytes ::
  "(subsystem \<Rightarrow> string) \<Rightarrow> (string \<Rightarrow> string option) \<Rightarrow> string \<Rightarrow> u64 result" where
  "cg_memory_usage_in_bytes mount content p =
     bind_r (cg_get content (cg_file mount p MEMORY ''memory.usage_in_bytes'')) stoull"

definition cg_memory_max_usage_in_bytes ::
  "(subsystem \<Rightarrow> string) \<Rightarrow> (string \<Rightarrow> string option) \<Rightarrow> string \<Rightarrow> u64 result" where
  "cg_memory_max_usage_in_bytes mount content p =
     bind_r (cg_get content (cg_file mount p MEMORY ''memory.max_usage_in_bytes'')) stoull"

definition cg_blkio_weight ::
  "(subsystem \<Rightarrow> string) \<Rightarrow> (string \<Rightarrow> string option) \<Rightarrow> string \<Rightarrow> u64 result" where
  "cg_blkio_weight mount content p =
     bind_r (cg_get content (cg_file mount p BLKIO ''blkio.weight'')) stoull"

definition cg_cpuacct_usage ::
  "(subsystem \<Rightarrow> string) \<Rightarrow> (string \<Rightarrow> string option) \<Rightarrow> string \<Rightarrow> u64 result" where
  "cg_cpuacct_usage mount content p =
     bind_r (cg_get content (cg_file mount p CPUACCT ''cpuacct.usage'')) stoull"

definition cg_swappiness ::
  "(subsystem \<Rightarrow> string) \<Rightarrow> (string \<Rightarrow> string option) \<Rightarrow> string \<Rightarrow> int result" where
  "cg_swappiness mount content p =
     bind_r (cg_get content (cg_file mount p MEMORY ''memory.swappiness'')) stoi"

section \<open>The list of CPUs\<close>

text \<open>One token: a number, or a range whose loop counts an \<open>int\<close> up to and including its end. The
  moved-from token of the loop is empty afterwards.\<close>

definition extract_cpu :: "string \<Rightarrow> int set \<Rightarrow> int set result" where
  "extract_cpu s cpus =
     (if s = [] then Inr cpus
      else if CHR ''-'' \<notin> set s then bind_r (stoi s) (\<lambda>i. Inr (insert i cpus))
      else bind_r (stoi (takeWhile (\<lambda>c. c \<noteq> CHR ''-'') s)) (\<lambda>beg.
           bind_r (stoi (tl (dropWhile (\<lambda>c. c \<noteq> CHR ''-'') s))) (\<lambda>e.
             if beg \<le> e \<and> e = int_max then Inl (Undefined ''signed overflow of the loop counter'')
             else Inr (set [beg..e] \<union> cpus))))"

fun scan_cpus :: "string \<Rightarrow> string \<Rightarrow> int set \<Rightarrow> int set result" where
  "scan_cpus [] token cpus = extract_cpu token cpus"
| "scan_cpus (c # cs) token cpus =
     (if isspace c then scan_cpus cs token cpus
      else if c = CHR '','' \<or> c = CHR 0x0A \<or> c = CHR 0x0D
           then bind_r (extract_cpu token cpus) (scan_cpus cs [])
      else scan_cpus cs (token @ [c]) cpus)"

definition cg_cpuset_cpus ::
  "(subsystem \<Rightarrow> string) \<Rightarrow> (string \<Rightarrow> string option) \<Rightarrow> string \<Rightarrow> int set result" where
  "cg_cpuset_cpus mount content p =
     bind_r (cg_get content (cg_file mount p CPUSET ''cpuset.cpus'')) (\<lambda>str. scan_cpus str [] {})"

text \<open>The white-space test comes first, so a line break never ends a token: the two other
  separators of the code are dead.\<close>

lemma scan_cpus_newline: "scan_cpus [CHR ''0'', CHR 0x0A, CHR ''1''] [] {} = Inr {1}"
  by code_simp

text \<open>The list as the kernel prints it: single numbers and ranges separated by commas.\<close>

definition cpu_range_text :: "int \<times> int \<Rightarrow> string" where
  "cpu_range_text r =
     (if fst r = snd r then int_str (fst r) else int_str (fst r) @ ''-'' @ int_str (snd r))"

fun cpu_list_text :: "(int \<times> int) list \<Rightarrow> string" where
  "cpu_list_text [] = [CHR 0x0A]"
| "cpu_list_text [r] = cpu_range_text r @ [CHR 0x0A]"
| "cpu_list_text (r # rs) = cpu_range_text r @ '','' @ cpu_list_text rs"

lemma scan_cpus_token:
  assumes "\<And>c. c \<in> set w \<Longrightarrow> isdigit c \<or> c = CHR ''-''"
  shows "scan_cpus (w @ cs) token cpus = scan_cpus cs (token @ w) cpus"
  using assms
proof (induction w arbitrary: token)
  case Nil
  then show ?case by simp
next
  case (Cons c w)
  then have "isdigit c \<or> c = CHR ''-''" by simp
  then have "\<not> isspace c" "c \<noteq> CHR '',''" "c \<noteq> CHR 0x0A" "c \<noteq> CHR 0x0D"
    by (auto simp: isdigit_def isspace_def)
  then show ?case using Cons by simp
qed

lemma int_str_digits: "0 \<le> i \<Longrightarrow> c \<in> set (int_str i) \<Longrightarrow> isdigit c"
  using nat_str_digits by (simp add: int_str_def)

lemma cpu_range_text_chars:
  "0 \<le> fst r \<Longrightarrow> fst r \<le> snd r \<Longrightarrow> c \<in> set (cpu_range_text r) \<Longrightarrow> isdigit c \<or> c = CHR ''-''"
  using int_str_digits [of "fst r"] int_str_digits [of "snd r"]
  by (auto simp: cpu_range_text_def split: if_splits)

lemma extract_cpu_range:
  assumes "0 \<le> a" "a \<le> b" "b < int_max"
  shows "extract_cpu (cpu_range_text (a, b)) cpus = Inr ({a..b} \<union> cpus)"
proof -
  have st: "stoi (int_str a) = Inr a" "stoi (int_str b) = Inr b"
    using assms by (auto intro!: stoi_int_str simp: int_min_def int_max_def)
  have no: "CHR ''-'' \<notin> set (int_str a)" using int_str_digits [OF assms(1)] isdigit_not_sign by blast
  have ne: "int_str a \<noteq> []" using assms(1) by (simp add: int_str_def)
  have tw: "takeWhile (\<lambda>c. c \<noteq> CHR ''-'') (int_str a @ CHR ''-'' # t) = int_str a"
    "dropWhile (\<lambda>c. c \<noteq> CHR ''-'') (int_str a @ CHR ''-'' # t) = CHR ''-'' # t" for t
    using no by (auto simp: takeWhile_append dropWhile_append)
  have "[a..b] \<noteq> [] \<longrightarrow> set [a..b] = {a..b}" by simp
  then show ?thesis
    using assms st no ne tw by (cases "a = b") (auto simp: extract_cpu_def cpu_range_text_def)
qed

lemma scan_cpu_list:
  assumes "\<And>r. r \<in> set rs \<Longrightarrow> 0 \<le> fst r \<and> fst r \<le> snd r \<and> snd r < int_max"
  shows "scan_cpus (cpu_list_text rs) [] cpus = Inr ((\<Union>r \<in> set rs. {fst r..snd r}) \<union> cpus)"
  using assms
proof (induction rs arbitrary: cpus rule: cpu_list_text.induct)
  case 1
  then show ?case by (simp add: isspace_def extract_cpu_def)
next
  case (2 r)
  have r: "0 \<le> fst r" "fst r \<le> snd r" "snd r < int_max" using "2.prems" by auto
  have "scan_cpus [CHR 0x0A] (cpu_range_text r) cpus = Inr ({fst r..snd r} \<union> cpus)"
    using extract_cpu_range [OF r] by (simp add: isspace_def)
  then show ?case using scan_cpus_token [OF cpu_range_text_chars [OF r(1,2)]] by simp
next
  case (3 r q rs)
  have r: "0 \<le> fst r" "fst r \<le> snd r" "snd r < int_max" using "3.prems" by auto
  have "scan_cpus ('','' @ cpu_list_text (q # rs)) (cpu_range_text r) cpus =
      scan_cpus (cpu_list_text (q # rs)) [] ({fst r..snd r} \<union> cpus)"
    using extract_cpu_range [OF r] by (simp add: isspace_def)
  moreover have "scan_cpus (cpu_list_text (q # rs)) [] ({fst r..snd r} \<union> cpus) =
      Inr ((\<Union>r \<in> set (q # rs). {fst r..snd r}) \<union> ({fst r..snd r} \<union> cpus))"
    using "3.prems" by (intro "3.IH") auto
  ultimately show ?case
    using scan_cpus_token [OF cpu_range_text_chars [OF r(1,2)]] by (simp add: Un_ac)
qed

section \<open>Property\<close>

text \<open>Whatever list of CPU numbers and ranges the kernel reports in \<open>cpuset.cpus\<close>, the agent
  reads back exactly the CPUs in it; their number is what it offers to the master.\<close>

theorem cpuset_roundtrip:
  assumes "\<And>a b. (a, b) \<in> set rs \<Longrightarrow> 0 \<le> a \<and> a \<le> b \<and> b < int_max"
    and "content (cg_file mount p CPUSET ''cpuset.cpus'') = Some (cpu_list_text rs)"
  shows "cg_cpuset_cpus mount content p = Inr {i. \<exists>(a, b) \<in> set rs. a \<le> i \<and> i \<le> b}"
proof -
  have "scan_cpus (cpu_list_text rs) [] {} = Inr ((\<Union>r \<in> set rs. {fst r..snd r}) \<union> {})"
    using assms(1) by (intro scan_cpu_list) auto
  moreover have "(\<Union>r \<in> set rs. {fst r..snd r}) = {i. \<exists>(a, b) \<in> set rs. a \<le> i \<and> i \<le> b}"
    by (fastforce simp: case_prod_beta)
  ultimately show ?thesis using assms(2) by (simp add: cg_cpuset_cpus_def cg_get_def)
qed

theorem cpuset_roundtrip_witness:
  "cg_cpuset_cpus (\<lambda>_. ''/sys/fs/cgroup/cpuset'') (\<lambda>_. Some (cpu_list_text [(0, 3), (7, 7)])) ''dtc'' =
     Inr {i. \<exists>(a, b) \<in> set [(0, 3), (7, 7 :: int)]. a \<le> i \<and> i \<le> b}"
  by (rule cpuset_roundtrip) (auto simp: int_max_def)

end
