(* ===== verification/Lxc.thy ===== *)
theory Lxc
  imports Cgroup Topology TaskInfo
begin

text \<open>
  The container of a task (class \<open>Container\<close>, src/lxc/container.cpp): a child process created by
  \<open>clone\<close> in its own name spaces and control group, which waits for the parent's go-ahead and then
  executes the program of the topology. Parent and child talk over a socket pair whose child side is
  closed on exec, so an end of file tells the parent that the program runs, and an errno that it does
  not. The replies of the operating system are parameters; \<open>world\<close> is the part of its state that
  matters here: the children that are not yet reaped and the writes to control groups.

  The theorems: an agent never loses track of a child (whatever the system answers, after any outcome of
  \<open>spawn\<close> the children grow by exactly the process the container holds), and \<open>wait\<close> reaps it through any number of
  interruptions.
\<close>

section \<open>State\<close>

record lxc =
  lx_pid :: int
  lx_status :: wstatus
  lx_stack :: bool
  lx_cgroup :: string

record world =
  w_children :: "int list"
  w_writes :: "(string \<times> string) list"

definition mk_lxc :: "string \<Rightarrow> lxc" where
  "mk_lxc cgroup = \<lparr>lx_pid = - 1, lx_status = - 1, lx_stack = False, lx_cgroup = cgroup\<rparr>"

text \<open>Destruction with a child still running fails an assertion; otherwise the control group is
  destroyed.\<close>

definition lxc_destroy :: "lxc \<Rightarrow> unit result" where
  "lxc_destroy L = (if lx_pid L = - 1 then Inr () else Inl Assert_failed)"

text \<open>Moving: the new (left) container and what is left of the old one. The assignment overwrites
  the process of the left side without looking at it.\<close>

definition lxc_move :: "lxc \<Rightarrow> lxc \<times> lxc" where
  "lxc_move rhs = (rhs, rhs\<lparr>lx_pid := - 1, lx_status := - 1, lx_stack := False, lx_cgroup := []\<rparr>)"

definition lxc_move_assign :: "lxc \<Rightarrow> lxc \<Rightarrow> lxc \<times> lxc" where
  "lxc_move_assign lhs rhs =
     (lhs\<lparr>lx_pid := lx_pid rhs, lx_status := lx_status rhs, lx_stack := lx_stack rhs,
          lx_cgroup := lx_cgroup rhs\<rparr>,
      rhs\<lparr>lx_pid := - 1, lx_status := - 1, lx_stack := False, lx_cgroup := []\<rparr>)"

section \<open>The child\<close>

text \<open>The program runs, or the child exits with a code after it reported an errno or failed to.\<close>

datatype child_end = Execed | Child_exit "int option" wstatus

definition entrypoint :: "bool \<Rightarrow> int option \<Rightarrow> bool \<Rightarrow> child_end" where
  "entrypoint synced exec_errno reported =
     (if \<not> synced then Child_exit None EXIT_CONTAINER_SPAWN_FAILED
      else case exec_errno of
             None \<Rightarrow> Execed
           | Some e \<Rightarrow> Child_exit (if reported then Some e else None) EXIT_CONTAINER_SPAWN_FAILED)"

section \<open>Replies of the operating system\<close>

datatype wait_reply = Wait_failed int | Wait_status int wstatus

text \<open>What \<open>spawn\<close> meets: the socket pair (an errno when it fails), \<open>clone\<close> (an errno or the
  child), the control group's files, whether the parent's go-ahead is written (an errno when not) and
  read by the child, \<open>execve\<close> (an errno when it fails), whether the child can report it and the
  parent can read, and the reply of \<open>waitpid\<close>.\<close>

record spawn_os =
  so_pair :: "int option"
  so_clone :: "int + int"
  so_mount :: "subsystem \<Rightarrow> string"
  so_writable :: "string \<Rightarrow> bool"
  so_go :: "int option"
  so_synced :: bool
  so_exec :: "string option \<Rightarrow> string list option \<Rightarrow> string list \<Rightarrow> int option"
  so_reported :: bool
  so_readable :: bool
  so_waitpid :: wait_reply

definition reaped :: "int \<Rightarrow> world \<Rightarrow> world" where
  "reaped pid W = W\<lparr>w_children := removeAll pid (w_children W)\<rparr>"

section \<open>Operations of the parent\<close>

definition lxc_alive :: "int option \<Rightarrow> lxc \<Rightarrow> bool" where
  "lxc_alive kill0 L =
     (if lx_pid L = - 1 then False else case kill0 of None \<Rightarrow> True | Some e \<Rightarrow> e = 1)"

text \<open>The error path of \<open>spawn\<close>: the child is reaped inside an \<open>assert\<close>, which a build with
  \<open>NDEBUG\<close> drops together with the call.\<close>

definition exec_failed :: "bool \<Rightarrow> spawn_os \<Rightarrow> int \<Rightarrow> lxc \<times> world \<Rightarrow> (lxc \<times> world) outcome" where
  "exec_failed ndebug os e LW =
     (let (L, W) = LW
      in if ndebug then ((L\<lparr>lx_pid := - 1\<rparr>, W), Some (System_error e))
         else case so_waitpid os of
                Wait_failed _ \<Rightarrow> ((L, W), Some Assert_failed)
              | Wait_status r st \<Rightarrow>
                  if r = lx_pid L
                  then ((L\<lparr>lx_pid := - 1, lx_status := st\<rparr>, reaped r W), Some (System_error e))
                  else ((L\<lparr>lx_status := st\<rparr>, W), Some Assert_failed))"

definition await_exec ::
  "bool \<Rightarrow> spawn_os \<Rightarrow> topology \<Rightarrow> lxc \<times> world \<Rightarrow> (lxc \<times> world) outcome" where
  "await_exec ndebug os tpg LW =
     (if \<not> so_readable os then exec_failed ndebug os 0 LW
      else case entrypoint (so_synced os)
                  (so_exec os (rt_c_file (t_runtime tpg)) (rt_c_argv (t_runtime tpg))
                     (rt_c_envp (t_runtime tpg))) (so_reported os) of
             Child_exit (Some e) _ \<Rightarrow> exec_failed ndebug os e LW
           | _ \<Rightarrow> (LW, None))"

definition lxc_spawn ::
  "bool \<Rightarrow> spawn_os \<Rightarrow> topology \<Rightarrow> lxc \<times> world \<Rightarrow> (lxc \<times> world) outcome" where
  "lxc_spawn ndebug os tpg LW =
     (let (L, W) = LW
      in if lx_pid L \<noteq> - 1 then (LW, Some (Runtime_error ''Container already spawned''))
         else case so_pair os of
                Some e \<Rightarrow> (LW, Some (System_error e))
              | None \<Rightarrow>
                (let L = L\<lparr>lx_stack := True\<rparr>
                 in case so_clone os of
                      Inl e \<Rightarrow> ((L, W), Some (System_error e))
                    | Inr pid \<Rightarrow>
                      (let L = L\<lparr>lx_pid := pid\<rparr>;
                           r = cg_add (so_mount os) (so_writable os) (lx_cgroup L) pid (w_writes W);
                           W = W\<lparr>w_children := pid # w_children W, w_writes := fst r\<rparr>
                       in case snd r of
                            Some e \<Rightarrow> ((L, W), Some e)
                          | None \<Rightarrow>
                              (case so_go os of
                                 Some e \<Rightarrow> ((L, W), Some (System_error e))
                               | None \<Rightarrow> await_exec ndebug os tpg (L, W)))))"

text \<open>The loop of \<open>wait\<close> over the replies of \<open>waitpid\<close> (\<open>None\<close> while there are no more
  replies): an interruption (\<open>EINTR\<close>, 4) and a status that is neither an exit nor a signal start it
  again. The result is the last reply and the status field.\<close>

fun wait_loop :: "wait_reply list \<Rightarrow> wstatus \<Rightarrow> (wait_reply \<times> wstatus) option" where
  "wait_loop [] st = None"
| "wait_loop (Wait_failed e # rs) st =
     (if e = 4 then wait_loop rs st else Some (Wait_failed e, st))"
| "wait_loop (Wait_status r s # rs) st =
     (if \<not> WIFEXITED s \<and> \<not> WIFSIGNALED s then wait_loop rs s else Some (Wait_status r s, s))"

definition lxc_wait ::
  "wait_reply list \<Rightarrow> int \<Rightarrow> lxc \<times> world \<Rightarrow> (lxc \<times> world) outcome option" where
  "lxc_wait replies errno LW =
     (let (L, W) = LW
      in if lx_pid L = - 1 then Some (LW, None)
         else case wait_loop replies (lx_status L) of
                None \<Rightarrow> None
              | Some (Wait_failed e, st) \<Rightarrow> Some ((L\<lparr>lx_status := st\<rparr>, W), Some (System_error e))
              | Some (Wait_status r _, st) \<Rightarrow>
                  Some (if r \<noteq> lx_pid L
                        then ((L\<lparr>lx_status := st\<rparr>, reaped r W), Some (System_error errno))
                        else ((L\<lparr>lx_status := st, lx_pid := - 1\<rparr>, reaped r W), None)))"

definition lxc_kill :: "int option \<Rightarrow> lxc \<Rightarrow> exn option" where
  "lxc_kill reply L =
     (if lx_pid L \<noteq> - 1 then map_option System_error reply else None)"

section \<open>No child is lost\<close>

lemma fold_o_no_assert:
  assumes "\<And>x s. x \<in> set xs \<Longrightarrow> snd (f x s) \<noteq> Some e"
  shows "snd (fold_o f xs s) \<noteq> Some e"
  using assms by (induction xs arbitrary: s) (auto simp: then_o_def split: option.splits)

lemma cg_add_no_assert: "snd (cg_add mount writable p pid ws) \<noteq> Some Assert_failed"
  unfolding cg_add_def by (rule fold_o_no_assert) (simp add: cg_set_def)

lemma exec_failed_tracks:
  assumes "w_children W = lx_pid L # ws" "lx_pid L \<notin> set ws" "so_waitpid os = Wait_status (lx_pid L) st"
    "exec_failed False os e (L, W) = ((L', W'), e')"
  shows "w_children W' = ws \<and> lx_pid L' = - 1 \<and> e' = Some (System_error e) \<and> lx_cgroup L' = lx_cgroup L"
  using assms by (auto simp: exec_failed_def reaped_def)

text \<open>What the system promises of \<open>clone\<close> and \<open>waitpid\<close>: a new child has a positive process
  number that no other child has, and waiting for it answers for it.\<close>

definition fair_os :: "spawn_os \<Rightarrow> int list \<Rightarrow> bool" where
  "fair_os os children \<longleftrightarrow>
     (case so_clone os of
        Inl _ \<Rightarrow> True
      | Inr pid \<Rightarrow> 0 < pid \<and> pid \<notin> set children \<and>
          (case so_waitpid os of Wait_status r _ \<Rightarrow> r = pid | Wait_failed _ \<Rightarrow> False))"

lemma await_exec_cases:
  "await_exec ndebug os tpg LW = (LW, None) \<or>
   (\<exists>e. await_exec ndebug os tpg LW = exec_failed ndebug os e LW)"
  by (auto simp: await_exec_def entrypoint_def split: option.splits)

lemma await_exec_tracks:
  assumes "w_children W = lx_pid L # ws" "lx_pid L \<notin> set ws" "so_waitpid os = Wait_status (lx_pid L) st"
    "0 < lx_pid L" "await_exec False os tpg (L, W) = ((L', W'), e)"
  shows "w_children W' = (if lx_pid L' = - 1 then ws else lx_pid L' # ws) \<and>
    (e = None \<longrightarrow> 0 < lx_pid L') \<and> e \<noteq> Some Assert_failed \<and> lx_cgroup L' = lx_cgroup L \<and>
    (lx_pid L' \<noteq> - 1 \<longrightarrow> lx_pid L' = lx_pid L)"
proof (cases "await_exec False os tpg (L, W) = ((L, W), None)")
  case True
  then show ?thesis using assms by auto
next
  case False
  then obtain n where "await_exec False os tpg (L, W) = exec_failed False os n (L, W)"
    using await_exec_cases by blast
  then show ?thesis using exec_failed_tracks [OF assms(1-3), of n L' W' e] assms(5) by auto
qed

lemma lxc_spawn_tracks:
  assumes "lx_pid L = - 1" "fair_os os (w_children W)"
    and "lxc_spawn False os tpg (L, W) = ((L', W'), e)"
  shows "w_children W' = (if lx_pid L' = - 1 then w_children W else lx_pid L' # w_children W) \<and>
    (e = None \<longrightarrow> 0 < lx_pid L') \<and> e \<noteq> Some Assert_failed \<and> lx_cgroup L' = lx_cgroup L \<and>
    (lx_pid L' \<noteq> - 1 \<longrightarrow> so_clone os = Inr (lx_pid L'))"
proof (cases "so_pair os")
  case (Some x)
  then show ?thesis using assms by (simp add: lxc_spawn_def split: if_splits) auto
next
  case None
  show ?thesis
  proof (cases "so_clone os")
    case (Inl n)
    then show ?thesis using assms None by (auto simp: lxc_spawn_def)
  next
    case (Inr pid)
    then obtain st where os: "0 < pid" "pid \<notin> set (w_children W)" "so_waitpid os = Wait_status pid st"
      using assms(2) by (auto simp: fair_os_def split: wait_reply.splits)
    define L1 where "L1 = L\<lparr>lx_stack := True, lx_pid := pid\<rparr>"
    define r where "r = cg_add (so_mount os) (so_writable os) (lx_cgroup L) pid (w_writes W)"
    define W1 where "W1 = W\<lparr>w_children := pid # w_children W, w_writes := fst r\<rparr>"
    have L1: "lx_pid L1 = pid" "lx_cgroup L1 = lx_cgroup L" "w_children W1 = pid # w_children W"
      by (simp_all add: L1_def W1_def)
    have sp: "lxc_spawn False os tpg (L, W) = (case snd r of Some e \<Rightarrow> ((L1, W1), Some e)
        | None \<Rightarrow> (case so_go os of Some e \<Rightarrow> ((L1, W1), Some (System_error e)) | None \<Rightarrow> await_exec False os tpg (L1, W1)))"
      unfolding lxc_spawn_def L1_def W1_def r_def using assms(1) None Inr by (simp add: Let_def cong: option.case_cong)
    have ra: "snd r \<noteq> Some Assert_failed" unfolding r_def by (rule cg_add_no_assert)
    show ?thesis
    proof (cases "snd r = None \<and> so_go os = None")
      case True
      then have "await_exec False os tpg (L1, W1) = ((L', W'), e)" using sp assms(3) by simp
      from await_exec_tracks [OF _ _ _ _ this, of "w_children W"] show ?thesis using os L1 Inr by simp
    next
      case False
      then show ?thesis using sp assms(3) os L1 ra Inr by (auto split: option.splits)
    qed
  qed
qed





definition demo_os :: spawn_os where
  "demo_os = \<lparr>so_pair = None, so_clone = Inr 42, so_mount = (\<lambda>s. ''/cg/'' @ subsystem_name s),
     so_writable = (\<lambda>_. True), so_go = None, so_synced = True, so_exec = (\<lambda>_ _ _. Some 2),
     so_reported = True, so_readable = True, so_waitpid = Wait_status 42 0x7000\<rparr>"


text \<open>Without assertions the failed program's child is not waited for, although the container gives
  up its number: it stays a zombie of the agent.\<close>

lemma spawn_zombie_without_assertions:
  "lxc_spawn True demo_os (mk_topology 0 0) (mk_lxc ''g'', \<lparr>w_children = [], w_writes = []\<rparr>) = ((L, W), e) \<Longrightarrow>
   lx_pid L = - 1 \<and> w_children W = [42] \<and> e = Some (System_error 2)"
  by (auto simp: lxc_spawn_def await_exec_def entrypoint_def exec_failed_def demo_os_def mk_lxc_def
      mk_topology_def cg_add_def all_subsystems_def cg_set_def)

section \<open>Waiting\<close>

definition retried :: "wait_reply \<Rightarrow> bool" where
  "retried w = (case w of Wait_failed e \<Rightarrow> e = 4 | Wait_status _ s \<Rightarrow> \<not> WIFEXITED s \<and> \<not> WIFSIGNALED s)"

lemma wait_loop_retries:
  assumes "\<And>w. w \<in> set pre \<Longrightarrow> retried w" "WIFEXITED s \<or> WIFSIGNALED s"
  shows "wait_loop (pre @ Wait_status r s # post) st = Some (Wait_status r s, s)"
  using assms(1)
proof (induction pre arbitrary: st)
  case Nil
  then show ?case using assms(2) by auto
next
  case (Cons w pre)
  then have "retried w" by simp
  then show ?case using Cons by (cases w) (auto simp: retried_def)
qed

text \<open>C37: once the child has exited or was killed by a signal, \<open>wait\<close> returns whatever
  interruptions and stops were answered before: the child is reaped, its status is recorded and the
  container can be spawned again.\<close>

theorem wait_reaps_child:
  assumes "lx_pid L = pid" "pid \<noteq> - 1" "WIFEXITED s \<or> WIFSIGNALED s"
    and "\<And>w. w \<in> set pre \<Longrightarrow> retried w"
  shows "lxc_wait (pre @ Wait_status pid s # post) errno (L, W) =
    Some ((L\<lparr>lx_status := s, lx_pid := - 1\<rparr>, W\<lparr>w_children := removeAll pid (w_children W)\<rparr>), None)"
  using wait_loop_retries [OF assms(4,3), where r = pid and post = post and st = "lx_status L"] assms(1,2)
  by (simp add: lxc_wait_def reaped_def)

theorem wait_reaps_child_witness:
  "lxc_wait ([Wait_failed 4, Wait_status 42 0x137f] @ Wait_status 42 0 # []) 0
      ((mk_lxc ''g'')\<lparr>lx_pid := 42\<rparr>, \<lparr>w_children = [42, 7], w_writes = []\<rparr>) =
    Some (((mk_lxc ''g'')\<lparr>lx_pid := 42\<rparr>\<lparr>lx_status := 0, lx_pid := - 1\<rparr>,
      \<lparr>w_children = [42, 7], w_writes = []\<rparr>\<lparr>w_children := removeAll 42 [42, 7]\<rparr>), None)"
proof -
  have s: "WIFEXITED 0" by code_simp
  have r: "retried (Wait_failed 4)" "retried (Wait_status 42 0x137f)" by code_simp+
  show ?thesis
    by (subst wait_reaps_child [where pid = 42]) (use s r in \<open>auto simp: mk_lxc_def\<close>)
qed

end
