(* ===== verification/Agent.thy ===== *)
theory Agent
  imports Lxc
begin

text \<open>
  The agent (class \<open>Agent\<close>, src/kernel/agent.cpp): one per machine, it turns the topologies the
  master sends it into running containers. A task first waits in a hatchery until the socket of each
  of its inter-streams is there: the agent of the consuming side connects to the agent of the
  producing side and announces the stream (a frontier), so a frontier may come before or after the
  task it belongs to. When the last one is there the task is deployed: its container is spawned with
  the sockets and the topology, and its handle changes from \<open>Hatchery\<close> to \<open>Executor\<close>.

  The state of the agent holds the tasks, the frontiers that have no task yet, the reports sent to the
  master, the open channels to executors, and the world of src/lxc/container.cpp. Handlers return the
  state and the exception that escaped, if any; \<open>None\<close> is a handler still blocked in \<open>waitpid\<close>.

  The theorems: a frontier never waits beside the task it belongs to and every child process is owned
  by exactly one deployed task, in every reachable state; the order in which frontiers and topology
  arrive does not matter; a topology ends either as a task or as one report.
\<close>

section \<open>State\<close>

record frontier =
  fr_graph :: key_type
  fr_stream :: key_type
  fr_socket :: "int option"

record hatchery =
  ha_num_inter_streams :: nat
  ha_frontiers :: "frontier list"
  ha_stdout :: "int option"
  ha_stderr :: "int option"

record executor =
  ex_container :: lxc
  ex_channel :: "int option"

text \<open>\<open>std::variant<Hatchery, Executor>\<close>, valueless after a throwing \<open>emplace\<close>.\<close>

datatype handle = Hatchery hatchery | Executor executor | Valueless

record ag_task =
  tk_key :: task_id
  tk_topology :: topology
  tk_handle :: handle

record agent =
  ag_tasks :: "(task_id \<times> ag_task) list"
  ag_frontiers :: "frontier list"
  ag_sent :: "task_info list"
  ag_channels :: "int list"
  ag_world :: world

definition agent_init :: agent where
  "agent_init = \<lparr>ag_tasks = [], ag_frontiers = [], ag_sent = [], ag_channels = [],
     ag_world = \<lparr>w_children = [], w_writes = []\<rparr>\<rparr>"

definition get_hatchery :: "ag_task \<Rightarrow> hatchery result" where
  "get_hatchery t = (case tk_handle t of Hatchery h \<Rightarrow> Inr h | _ \<Rightarrow> Inl Bad_variant_access)"

definition get_executor :: "ag_task \<Rightarrow> executor result" where
  "get_executor t = (case tk_handle t of Executor x \<Rightarrow> Inr x | _ \<Rightarrow> Inl Bad_variant_access)"

text \<open>The exceptions a \<open>catch(const std::exception&)\<close> stops.\<close>

definition std_exception :: "exn \<Rightarrow> bool" where
  "std_exception e =
     (case e of Assert_failed \<Rightarrow> False | Undefined _ \<Rightarrow> False | Exit _ \<Rightarrow> False | _ \<Rightarrow> True)"

section \<open>Constructing a task\<close>

text \<open>What the constructor meets: the outcome of its \<open>n\<close>-th connection to a host and port, and of
  writing the packet \<open>(graph, stream)\<close> to a socket.\<close>

record task_os =
  to_connect :: "nat \<Rightarrow> string \<Rightarrow> string \<Rightarrow> int result"
  to_flush :: "int \<Rightarrow> key_type \<times> key_type \<Rightarrow> exn option"

definition task_key :: "topology \<Rightarrow> task_id" where
  "task_key t = mk_tid (t_graph t) (t_topology t)"

text \<open>Only the consuming side of an inter-stream connects; the producing side's host is in the
  vertex-hosts text of the topology.\<close>

definition connect_frontier ::
  "task_os \<Rightarrow> runtime \<Rightarrow> topology \<Rightarrow> (key_type \<times> string) list \<Rightarrow> key_type \<times> stream \<Rightarrow> hatchery \<Rightarrow>
   hatchery result" where
  "connect_frontier os env t vhosts kvp h =
     (if \<not> has_inter_stream_mode t (fst kvp) Mode_in then Inr h
      else case um_find (s_tail (snd kvp)) vhosts of
             None \<Rightarrow> Inl Assert_failed
           | Some tail_host \<Rightarrow>
               bind_r (to_connect os (2 + length (ha_frontiers h)) tail_host
                         (env_frontier_listener_port env)) (\<lambda>fd.
                 case to_flush os fd (t_graph t, fst kvp) of
                   Some e \<Rightarrow> Inl e
                 | None \<Rightarrow> Inr (h\<lparr>ha_frontiers := ha_frontiers h @
                       [\<lparr>fr_graph = t_graph t, fr_stream = fst kvp, fr_socket = Some fd\<rparr>]\<rparr>)))"

definition mk_task :: "task_os \<Rightarrow> runtime \<Rightarrow> topology \<Rightarrow> ag_task result" where
  "mk_task os env tpg =
     (let n = num_inter_streams tpg;
          r = rt_set_execution_mode DISTRIBUTED (t_runtime tpg)
      in bind_r (to_connect os 0 (rt_this_host r) (rt_stdout_listener_port r)) (\<lambda>fd1.
         let r = rt_set_stdout_fd fd1 r
         in bind_r (to_connect os 1 (rt_this_host r) (rt_stderr_listener_port r)) (\<lambda>fd2.
            let r = rt_set_stderr_fd fd2 r; t = tpg\<lparr>t_runtime := r\<rparr>
            in bind_r (rt_vertex_hosts r) (\<lambda>vhosts.
               bind_r (fold_r (connect_frontier os env t vhosts) (t_streams t)
                         \<lparr>ha_num_inter_streams = n, ha_frontiers = [], ha_stdout = Some fd1,
                          ha_stderr = Some fd2\<rparr>) (\<lambda>h.
                 Inr \<lparr>tk_key = task_key tpg, tk_topology = t, tk_handle = Hatchery h\<rparr>)))))"

section \<open>Frontiers of a task\<close>

definition ready :: "ag_task \<Rightarrow> bool result" where
  "ready t = bind_r (get_hatchery t) (\<lambda>h. Inr (length (ha_frontiers h) = ha_num_inter_streams h))"

definition matches :: "ag_task \<Rightarrow> frontier \<Rightarrow> bool" where
  "matches t ftr \<longleftrightarrow> t_graph (tk_topology t) = fr_graph ftr \<and>
     has_inter_stream_mode (tk_topology t) (fr_stream ftr) Mode_out"

text \<open>\<open>std::partition\<close> on a list, with bidirectional iterators: the first element that fails is
  exchanged with the last one that holds, until the two meet.\<close>

function partition_bi :: "('a \<Rightarrow> bool) \<Rightarrow> 'a list \<Rightarrow> 'a list \<times> 'a list" where
  "partition_bi P [] = ([], [])"
| "partition_bi P (x # xs) =
     (if P x then (let r = partition_bi P xs in (x # fst r, snd r))
      else (let front = rev (dropWhile (\<lambda>y. \<not> P y) (rev xs));
                rest = rev (takeWhile (\<lambda>y. \<not> P y) (rev xs))
            in if front = [] then ([], x # xs)
               else (let r = partition_bi P (butlast front)
                     in (last front # fst r, snd r @ [x] @ rest))))"
  by pat_completeness auto

termination partition_bi
proof (relation "measure (\<lambda>(P, xs). length xs)", goal_cases)
  case (3 P x xs f b)
  have "length f \<le> length xs" using 3(2) length_dropWhile_le [of _ "rev xs"] by simp
  then show ?case by (simp add: less_Suc_eq_le)
qed simp_all

definition splice_frontiers :: "ag_task \<Rightarrow> frontier list \<Rightarrow> (ag_task \<times> frontier list) result" where
  "splice_frontiers t src =
     (let (a, b) = partition_bi (matches t) src
      in bind_r (get_hatchery t) (\<lambda>h.
           Inr (t\<lparr>tk_handle := Hatchery (h\<lparr>ha_frontiers := a @ ha_frontiers h\<rparr>)\<rparr>, b)))"

definition frontier_fd :: "frontier \<Rightarrow> (key_type \<times> int) result" where
  "frontier_fd ftr = (case fr_socket ftr of
       Some fd \<Rightarrow> Inr (fr_stream ftr, fd) | None \<Rightarrow> Inl (Undefined ''fd of a null socket''))"

definition frontiers_to_string :: "ag_task \<Rightarrow> string result" where
  "frontiers_to_string t =
     bind_r (get_hatchery t) (\<lambda>h.
       fold_r (\<lambda>ftr oss. bind_r (frontier_fd ftr) (\<lambda>(s, fd).
         Inr (oss @ int_str s @ '':'' @ int_str fd @ '' ''))) (ha_frontiers h) [])"

section \<open>Deploying a task\<close>

text \<open>What \<open>_deploy\<close> meets: the socket pair, making a descriptor survive \<open>exec\<close>, the control
  group's directories, \<open>spawn\<close>, and inserting the channel and sending into it.\<close>

record deploy_os =
  do_pair :: "(int \<times> int) result"
  do_open :: "int \<Rightarrow> exn option"
  do_mkdir :: "string \<Rightarrow> exn option"
  do_spawn :: spawn_os
  do_channel :: "exn option"
  do_send :: "exn option"

definition open_on_exec :: "(int \<Rightarrow> exn option) \<Rightarrow> int option \<Rightarrow> exn option" where
  "open_on_exec opn s = (case s of Some fd \<Rightarrow> opn fd | None \<Rightarrow> None)"

text \<open>The sockets are moved out of the frontiers one by one.\<close>

fun move_sockets :: "(int \<Rightarrow> exn option) \<Rightarrow> frontier list \<Rightarrow> frontier list \<times> exn option" where
  "move_sockets opn [] = ([], None)"
| "move_sockets opn (f # fs) =
     (case open_on_exec opn (fr_socket f) of
        Some e \<Rightarrow> (f\<lparr>fr_socket := None\<rparr> # fs, Some e)
      | None \<Rightarrow> (let r = move_sockets opn fs in (f\<lparr>fr_socket := None\<rparr> # fst r, snd r)))"

definition move_devices :: "deploy_os \<Rightarrow> int \<Rightarrow> ag_task \<Rightarrow> ag_task outcome" where
  "move_devices os efd t =
     (case get_hatchery t of
        Inl e \<Rightarrow> (t, Some e)
      | Inr h \<Rightarrow>
          (let (fs, e) = move_sockets (do_open os) (ha_frontiers h);
               h1 = h\<lparr>ha_frontiers := fs\<rparr>
           in case e of
                Some e \<Rightarrow> (t\<lparr>tk_handle := Hatchery h1\<rparr>, Some e)
              | None \<Rightarrow>
                (case do_open os efd of
                   Some e \<Rightarrow> (t\<lparr>tk_handle := Hatchery h1\<rparr>, Some e)
                 | None \<Rightarrow>
                   (let h2 = h1\<lparr>ha_stderr := None\<rparr>
                    in case open_on_exec (do_open os) (ha_stderr h1) of
                         Some e \<Rightarrow> (t\<lparr>tk_handle := Hatchery h2\<rparr>, Some e)
                       | None \<Rightarrow> (t\<lparr>tk_handle := Hatchery (h2\<lparr>ha_stdout := None\<rparr>)\<rparr>,
                                  open_on_exec (do_open os) (ha_stdout h2))))))"

definition emplace_executor :: "deploy_os \<Rightarrow> runtime \<Rightarrow> ag_task \<Rightarrow> ag_task outcome" where
  "emplace_executor os env t =
     (let p = path_join (env_cgroup_mount env) (tid_to_string (tk_key t))
      in case snd (cg_create (so_mount (do_spawn os)) (do_mkdir os) p []) of
           Some e \<Rightarrow> (t\<lparr>tk_handle := Valueless\<rparr>, Some e)
         | None \<Rightarrow> (t\<lparr>tk_handle := Executor \<lparr>ex_container = mk_lxc p, ex_channel = None\<rparr>\<rparr>, None))"

text \<open>From the memory limit to the message with the topology; \<open>afd\<close> is this side's socket.\<close>

definition start_container ::
  "deploy_os \<Rightarrow> runtime \<Rightarrow> int \<Rightarrow> ag_task \<times> agent \<Rightarrow> (ag_task \<times> agent) outcome" where
  "start_container os env afd ta =
     (let (t, A) = ta
      in case get_executor t of
           Inl e \<Rightarrow> (ta, Some e)
         | Inr x \<Rightarrow>
             if length (t_containers (tk_topology t)) \<noteq> 1 then (ta, Some Assert_failed)
             else
               let r = tpg_resource (env_this_host env) (tk_topology t);
                   w = cg_set_memory_limit_in_bytes (so_mount (do_spawn os)) (so_writable (do_spawn os))
                         (lx_cgroup (ex_container x)) (memory_limit_in_bytes r) (w_writes (ag_world A));
                   W = (ag_world A)\<lparr>w_writes := fst w\<rparr>
               in case snd w of
                    Some e \<Rightarrow> ((t, A\<lparr>ag_world := W\<rparr>), Some e)
                  | None \<Rightarrow>
                    (let s = lxc_spawn False (do_spawn os) (tk_topology t) (ex_container x, W);
                         x = x\<lparr>ex_container := fst (fst s)\<rparr>;
                         A = A\<lparr>ag_world := snd (fst s)\<rparr>
                     in case snd s of
                          Some e \<Rightarrow> ((t\<lparr>tk_handle := Executor x\<rparr>, A), Some e)
                        | None \<Rightarrow>
                          (case do_channel os of
                             Some e \<Rightarrow> ((t\<lparr>tk_handle := Executor x\<rparr>, A), Some e)
                           | None \<Rightarrow> ((t\<lparr>tk_handle := Executor (x\<lparr>ex_channel := Some afd\<rparr>)\<rparr>,
                                       A\<lparr>ag_channels := afd # ag_channels A\<rparr>), do_send os))))"

definition deploy_body ::
  "deploy_os \<Rightarrow> runtime \<Rightarrow> ag_task \<times> agent \<Rightarrow> (ag_task \<times> agent) outcome" where
  "deploy_body os env ta =
     (let (t, A) = ta
      in case frontiers_to_string t of
           Inl e \<Rightarrow> (ta, Some e)
         | Inr text \<Rightarrow>
           (let t = t\<lparr>tk_topology := (tk_topology t)\<lparr>t_runtime :=
                       rt_set_frontiers text (t_runtime (tk_topology t))\<rparr>\<rparr>
            in case do_pair os of
                 Inl e \<Rightarrow> ((t, A), Some e)
               | Inr (afd, efd) \<Rightarrow>
                 (let t = t\<lparr>tk_topology := (tk_topology t)\<lparr>t_runtime :=
                             rt_set_topology_fd efd (t_runtime (tk_topology t))\<rparr>\<rparr>;
                      (t, e) = then_o (move_devices os efd t) (emplace_executor os env)
                  in case e of
                       Some e \<Rightarrow> ((t, A), Some e)
                     | None \<Rightarrow> start_container os env afd (t, A))))"

text \<open>\<open>_deploy\<close> turns an exception into \<open>false\<close>; a failing assertion is not an exception.\<close>

definition deploy ::
  "deploy_os \<Rightarrow> runtime \<Rightarrow> ag_task \<times> agent \<Rightarrow> (ag_task \<times> agent) \<times> bool result" where
  "deploy os env ta =
     (let (ta, e) = deploy_body os env ta
      in (ta, case e of None \<Rightarrow> Inr True | Some e \<Rightarrow> if std_exception e then Inr False else Inl e))"

section \<open>Removing a task\<close>

text \<open>What \<open>_remove_task\<close> meets: the replies of \<open>kill\<close> and \<open>waitpid\<close> (and the errno after
  it), the contents of the group's files and the elapsed time.\<close>

record remove_os =
  ro_kill :: "int option"
  ro_waits :: "wait_reply list"
  ro_errno :: int
  ro_mount :: "subsystem \<Rightarrow> string"
  ro_content :: "string \<Rightarrow> string option"
  ro_elapsed :: u64

text \<open>Killing (if asked) and reaping the container's process.\<close>

definition end_process ::
  "remove_os \<Rightarrow> bool \<Rightarrow> lxc \<times> world \<Rightarrow> (lxc \<times> world) outcome option" where
  "end_process os kill LW =
     (if lx_pid (fst LW) = - 1 then Some (LW, None)
      else case if kill then lxc_kill (ro_kill os) (fst LW) else None of
             Some e \<Rightarrow> Some (LW, Some e)
           | None \<Rightarrow> lxc_wait (ro_waits os) (ro_errno os) LW)"

definition memory_report :: "remove_os \<Rightarrow> lxc \<Rightarrow> task_info \<Rightarrow> task_info result" where
  "memory_report os L info =
     bind_r (cg_memory_limit_in_bytes (ro_mount os) (ro_content os) (lx_cgroup L)) (\<lambda>l.
     bind_r (cg_memory_max_usage_in_bytes (ro_mount os) (ro_content os) (lx_cgroup L)) (\<lambda>m.
       Inr (info\<lparr>ti_status := lx_status L, ti_memory_limit_in_bytes := l,
                 ti_memory_max_usage_in_bytes := m\<rparr>)))"

definition report :: "remove_os \<Rightarrow> task_info \<Rightarrow> agent \<Rightarrow> agent" where
  "report os info A = A\<lparr>ag_sent := ag_sent A @ [info\<lparr>ti_elapsed_time := ro_elapsed os\<rparr>]\<rparr>"

definition remove_body ::
  "remove_os \<Rightarrow> runtime \<Rightarrow> bool \<Rightarrow> ag_task \<times> agent \<Rightarrow> (ag_task \<times> agent) outcome option" where
  "remove_body os env kill ta =
     (let (t, A) = ta; info = mk_task_info (tk_key t) (env_this_host env) (- 1)
      in if um_find (tk_key t) (ag_tasks A) \<noteq> None then Some (ta, Some Assert_failed)
         else case tk_handle t of
           Executor x \<Rightarrow>
             (case end_process os kill (ex_container x, ag_world A) of
                None \<Rightarrow> None
              | Some ((L, W), e) \<Rightarrow>
                let A = A\<lparr>ag_world := W\<rparr>; x = x\<lparr>ex_container := L\<rparr>
                in case e of
                     Some e \<Rightarrow> Some ((t\<lparr>tk_handle := Executor x\<rparr>, A), Some e)
                   | None \<Rightarrow>
                     let A = A\<lparr>ag_channels := (case ex_channel x of
                               Some fd \<Rightarrow> removeAll fd (ag_channels A) | None \<Rightarrow> ag_channels A)\<rparr>;
                         t = t\<lparr>tk_handle := Executor (x\<lparr>ex_channel := None\<rparr>)\<rparr>
                     in Some (case memory_report os L info of
                                Inl e \<Rightarrow> ((t, A), Some e)
                              | Inr info \<Rightarrow> ((t, report os info A), None)))
         | _ \<Rightarrow> Some ((t, report os info A), None))"

text \<open>The task is destroyed afterwards, by whoever owned it; a container that still has a process
  fails its assertion.\<close>

definition task_destroy :: "ag_task \<Rightarrow> unit result" where
  "task_destroy t = (case tk_handle t of Executor x \<Rightarrow> lxc_destroy (ex_container x) | _ \<Rightarrow> Inr ())"

definition drop_task :: "(ag_task \<times> agent) outcome \<Rightarrow> agent outcome" where
  "drop_task r =
     (snd (fst r), case task_destroy (fst (fst r)) of Inl e \<Rightarrow> Some e | Inr _ \<Rightarrow> snd r)"

definition remove_task ::
  "remove_os \<Rightarrow> runtime \<Rightarrow> task_id \<Rightarrow> bool \<Rightarrow> agent \<Rightarrow> agent outcome option" where
  "remove_task os env key kill A =
     (case um_find key (ag_tasks A) of
        None \<Rightarrow> Some (A, None)
      | Some t \<Rightarrow> map_option drop_task
                   (remove_body os env kill (t, A\<lparr>ag_tasks := um_erase key (ag_tasks A)\<rparr>)))"

section \<open>Frontiers and topologies\<close>

record agent_os =
  ao_task :: task_os
  ao_deploy :: deploy_os
  ao_remove :: remove_os

definition put_task :: "ag_task \<Rightarrow> agent \<Rightarrow> agent" where
  "put_task t A = A\<lparr>ag_tasks := um_assign (tk_key t) t (ag_tasks A)\<rparr>"

definition insert_frontier ::
  "agent_os \<Rightarrow> runtime \<Rightarrow> frontier \<Rightarrow> agent \<Rightarrow> agent outcome option" where
  "insert_frontier os env ftr A =
     (case find (\<lambda>kt. matches (snd kt) ftr) (ag_tasks A) of
        None \<Rightarrow> Some (A\<lparr>ag_frontiers := ag_frontiers A @ [ftr]\<rparr>, None)
      | Some (key, t) \<Rightarrow>
        (case get_hatchery t of
           Inl e \<Rightarrow> Some (A, Some e)
         | Inr h \<Rightarrow>
           (let t = t\<lparr>tk_handle := Hatchery (h\<lparr>ha_frontiers := ha_frontiers h @ [ftr]\<rparr>)\<rparr>;
                A = A\<lparr>ag_tasks := um_assign key t (ag_tasks A)\<rparr>
            in if ready t \<noteq> Inr True then Some (A, None)
               else
                 let ((t, A), r) = deploy (ao_deploy os) env (t, A);
                     A = A\<lparr>ag_tasks := um_assign key t (ag_tasks A)\<rparr>
                 in case r of
                      Inl e \<Rightarrow> Some (A, Some e)
                    | Inr True \<Rightarrow> Some (A, None)
                    | Inr False \<Rightarrow> remove_task (ao_remove os) env key True A)))"

text \<open>\<open>insert_or_assign\<close> move-assigns over a task of the same key: a hatchery replacing an executor
  destroys the old container, an executor replacing one overwrites its process number.\<close>

definition assign_task :: "ag_task \<Rightarrow> agent \<Rightarrow> agent outcome" where
  "assign_task t A =
     (case um_find (tk_key t) (ag_tasks A) of
        None \<Rightarrow> (put_task t A, None)
      | Some t0 \<Rightarrow>
          (case (tk_handle t0, tk_handle t) of
             (Executor x, Executor _) \<Rightarrow> (put_task t A, None)
           | (Executor x, _) \<Rightarrow>
               (case lxc_destroy (ex_container x) of
                  Inl e \<Rightarrow> (A, Some e) | Inr _ \<Rightarrow> (put_task t A, None))
           | _ \<Rightarrow> (put_task t A, None)))"

definition place_new_task ::
  "agent_os \<Rightarrow> runtime \<Rightarrow> ag_task \<Rightarrow> agent \<Rightarrow> (bool \<times> agent outcome) option" where
  "place_new_task os env t A =
     (case splice_frontiers t (ag_frontiers A) of
        Inl e \<Rightarrow> Some (False, (A, Some e))
      | Inr (t, fs) \<Rightarrow>
        (let A = A\<lparr>ag_frontiers := fs\<rparr>
         in if ready t \<noteq> Inr True then Some (True, assign_task t A)
            else
              let ((t, A), r) = deploy (ao_deploy os) env (t, A)
              in case r of
                   Inl e \<Rightarrow> Some (False, (A, Some e))
                 | Inr True \<Rightarrow> Some (True, assign_task t A)
                 | Inr False \<Rightarrow> map_option (\<lambda>r. (False, drop_task r))
                                 (remove_body (ao_remove os) env True (t, A))))"

text \<open>The constructor of the task may throw before anything is stored; this is reported at once.\<close>

definition insert_task ::
  "agent_os \<Rightarrow> runtime \<Rightarrow> topology \<Rightarrow> agent \<Rightarrow> (bool \<times> agent outcome) option" where
  "insert_task os env tpg A =
     (case mk_task (ao_task os) env tpg of
        Inl e \<Rightarrow>
          Some (False,
            if std_exception e
            then (A\<lparr>ag_sent := ag_sent A @ [mk_task_info (task_key tpg) (env_this_host env) (- 1)]\<rparr>, None)
            else (A, Some e))
      | Inr t \<Rightarrow> place_new_task os env t A)"

section \<open>The invariant\<close>

definition task_pids :: "ag_task \<Rightarrow> int multiset" where
  "task_pids t = (case tk_handle t of
       Executor x \<Rightarrow> if lx_pid (ex_container x) = - 1 then {#} else {#lx_pid (ex_container x)#}
     | _ \<Rightarrow> {#})"

definition owned :: "(task_id \<times> ag_task) list \<Rightarrow> int multiset" where
  "owned ts = sum_list (map (\<lambda>kt. task_pids (snd kt)) ts)"

text \<open>A task in the table is either waiting for a frontier or running with a channel.\<close>

definition task_ok :: "ag_task \<Rightarrow> bool" where
  "task_ok t = (case tk_handle t of
       Hatchery h \<Rightarrow> length (ha_frontiers h) \<noteq> ha_num_inter_streams h
     | Executor x \<Rightarrow> 0 < lx_pid (ex_container x) \<and> ex_channel x \<noteq> None
     | Valueless \<Rightarrow> False)"

definition no_waiting_match :: "(task_id \<times> ag_task) list \<Rightarrow> frontier list \<Rightarrow> bool" where
  "no_waiting_match ts fs \<longleftrightarrow> (\<forall>kt \<in> set ts. \<forall>f \<in> set fs. \<not> matches (snd kt) f)"

definition agent_inv :: "agent \<Rightarrow> bool" where
  "agent_inv A \<longleftrightarrow> um_wf (ag_tasks A) \<and>
     (\<forall>kt \<in> set (ag_tasks A). tk_key (snd kt) = fst kt \<and> task_ok (snd kt)) \<and>
     no_waiting_match (ag_tasks A) (ag_frontiers A) \<and>
     distinct (w_children (ag_world A)) \<and>
     mset (w_children (ag_world A)) = owned (ag_tasks A)"

lemma owned_erase:
  assumes "um_wf ts" "um_find k ts = Some t"
  shows "owned ts = task_pids t + owned (um_erase k ts)"
  using assms
proof (induction ts)
  case Nil
  then show ?case by simp
next
  case (Cons e ts)
  obtain j u where e: "e = (j, u)" by (cases e)
  have wf: "um_wf ts" "j \<notin> set (um_keys ts)" using Cons.prems(1) e by (auto simp: um_wf_def)
  show ?case
  proof (cases "k = j")
    case True
    have "um_erase k ts = ts" using wf(2) True by (simp add: um_erase_fresh um_find_None_keys)
    then show ?thesis using Cons.prems(2) e True by (simp add: owned_def um_erase_def)
  next
    case False
    then show ?thesis using Cons e wf by (simp add: owned_def um_erase_def add.left_commute)
  qed
qed

lemma owned_assign_fresh:
  "um_find k ts = None \<Longrightarrow> owned (um_assign k t ts) = owned ts + task_pids t"
  by (simp add: um_assign_fresh owned_def)

lemma um_erase_assign: "um_erase k (um_assign k v m) = um_erase k m"
  by (induction m) (auto simp: um_erase_def um_assign_def)

lemma owned_assign:
  assumes "um_wf ts"
  shows "owned (um_assign k t ts) = owned (um_erase k ts) + task_pids t"
  using owned_erase [of "um_assign k t ts" k t] assms
  by (simp add: dict_simps um_wf_assign um_erase_assign add.commute)

lemma mset_removeAll_distinct: "distinct xs \<Longrightarrow> mset (removeAll x xs) = mset xs - {#x#}"
  by (metis distinct_remove1_removeAll mset_remove1)

section \<open>Deploying\<close>

text \<open>What no step of \<open>_deploy\<close> changes: the key of the task and the shape of its topology.\<close>

definition same_task :: "ag_task \<Rightarrow> ag_task \<Rightarrow> bool" where
  "same_task t u \<longleftrightarrow> tk_key u = tk_key t \<and> t_graph (tk_topology u) = t_graph (tk_topology t) \<and>
     t_vertices (tk_topology u) = t_vertices (tk_topology t) \<and>
     t_streams (tk_topology u) = t_streams (tk_topology t)"

definition same_agent :: "agent \<Rightarrow> agent \<Rightarrow> bool" where
  "same_agent A B \<longleftrightarrow> ag_tasks B = ag_tasks A \<and> ag_frontiers B = ag_frontiers A \<and> ag_sent B = ag_sent A"

lemma same_task_matches: "same_task t u \<Longrightarrow> matches u f = matches t f"
  by (auto simp: same_task_def matches_def has_inter_stream_mode_def has_vertex_def split: option.splits)

lemma same_task_simps [simp]: "same_task t t"
  "same_task t (u\<lparr>tk_handle := h\<rparr>) = same_task t u"
  "same_task t (u\<lparr>tk_topology := (tk_topology u)\<lparr>t_runtime := r\<rparr>\<rparr>) = same_task t u"
  by (simp_all add: same_task_def)

lemma move_devices_result:
  "get_hatchery t = Inr h \<Longrightarrow>
   \<exists>h' e. move_devices os efd t = (t\<lparr>tk_handle := Hatchery h'\<rparr>, e)"
  by (auto simp: move_devices_def Let_def split: prod.splits option.splits)

lemma emplace_executor_result:
  "\<exists>h e. emplace_executor os env t = (t\<lparr>tk_handle := h\<rparr>, e) \<and>
     (e = None \<longrightarrow> (\<exists>x. h = Executor x \<and> lx_pid (ex_container x) = - 1)) \<and> (e \<noteq> None \<longrightarrow> h = Valueless)"
  by (auto simp: emplace_executor_def mk_lxc_def Let_def split: option.splits)

text \<open>Whatever \<open>start_container\<close> returns, the children grow by the process of the task.\<close>

lemma start_container_result:
  assumes "tk_handle t = Executor x" "lx_pid (ex_container x) = - 1"
    and "fair_os (do_spawn os) (w_children (ag_world A))"
    and "start_container os env afd (t, A) = ((t', A'), e)"
  shows "same_task t t' \<and> same_agent A A' \<and>
    w_children (ag_world A') =
      (case tk_handle t' of Executor y \<Rightarrow>
         if lx_pid (ex_container y) = - 1 then w_children (ag_world A)
         else lx_pid (ex_container y) # w_children (ag_world A) | _ \<Rightarrow> w_children (ag_world A)) \<and>
    (distinct (w_children (ag_world A)) \<longrightarrow> distinct (w_children (ag_world A'))) \<and>
    (\<exists>y. tk_handle t' = Executor y \<and> (e = None \<longrightarrow> 0 < lx_pid (ex_container y) \<and> ex_channel y \<noteq> None))"
proof -
  define w where "w = cg_set_memory_limit_in_bytes (so_mount (do_spawn os))
     (so_writable (do_spawn os)) (lx_cgroup (ex_container x))
     (memory_limit_in_bytes (tpg_resource (env_this_host env) (tk_topology t))) (w_writes (ag_world A))"
  define W where "W = (ag_world A)\<lparr>w_writes := fst w\<rparr>"
  obtain L' W' e' where sp: "lxc_spawn False (do_spawn os) (tk_topology t) (ex_container x, W) = ((L', W'), e')"
    by (metis prod.collapse)
  have W: "w_children W = w_children (ag_world A)" by (simp add: W_def)
  then have W': "w_children W' = (if lx_pid L' = - 1 then w_children (ag_world A)
       else lx_pid L' # w_children (ag_world A)) \<and> (e' = None \<longrightarrow> 0 < lx_pid L') \<and>
       (lx_pid L' \<noteq> - 1 \<longrightarrow> lx_pid L' \<notin> set (w_children (ag_world A)))"
    using lxc_spawn_tracks [OF assms(2) _ sp] assms(3) by (auto simp: fair_os_def)
  have "start_container os env afd (t, A) =
    (if length (t_containers (tk_topology t)) \<noteq> 1 then ((t, A), Some Assert_failed)
     else case snd w of Some e \<Rightarrow> ((t, A\<lparr>ag_world := W\<rparr>), Some e)
      | None \<Rightarrow> (case e' of Some e \<Rightarrow> ((t\<lparr>tk_handle := Executor (x\<lparr>ex_container := L'\<rparr>)\<rparr>, A\<lparr>ag_world := W'\<rparr>), Some e)
        | None \<Rightarrow> (case do_channel os of Some e \<Rightarrow> ((t\<lparr>tk_handle := Executor (x\<lparr>ex_container := L'\<rparr>)\<rparr>, A\<lparr>ag_world := W'\<rparr>), Some e)
           | None \<Rightarrow> ((t\<lparr>tk_handle := Executor (x\<lparr>ex_container := L', ex_channel := Some afd\<rparr>)\<rparr>,
               A\<lparr>ag_world := W', ag_channels := afd # ag_channels A\<rparr>), do_send os))))"
    unfolding start_container_def w_def [symmetric]
    by (simp add: get_executor_def assms(1) Let_def w_def [symmetric] W_def [symmetric] sp cong: option.case_cong)
  then show ?thesis
    using assms(1,2,4) W W' by (auto simp: same_agent_def split: option.splits if_splits)
qed

lemma same_agent_refl [simp]: "same_agent A A"
  by (simp add: same_agent_def)

lemma same_task_trans: "same_task t u \<Longrightarrow> same_task u v \<Longrightarrow> same_task t v"
  by (simp add: same_task_def)

lemma move_devices_then_emplace:
  assumes "tk_handle t = Hatchery h"
  shows "\<exists>hd e. then_o (move_devices os efd t) (emplace_executor os env) = (t\<lparr>tk_handle := hd\<rparr>, e) \<and>
     (case hd of Executor x \<Rightarrow> lx_pid (ex_container x) = - 1 | _ \<Rightarrow> e \<noteq> None)"
proof -
  obtain h' e where m: "move_devices os efd t = (t\<lparr>tk_handle := Hatchery h'\<rparr>, e)"
    using move_devices_result [of t h os efd] assms by (auto simp: get_hatchery_def)
  show ?thesis
  proof (cases e)
    case None
    obtain hd e' where "emplace_executor os env (t\<lparr>tk_handle := Hatchery h'\<rparr>) = (t\<lparr>tk_handle := hd\<rparr>, e')"
      "e' = None \<longrightarrow> (\<exists>x. hd = Executor x \<and> lx_pid (ex_container x) = - 1)" "e' \<noteq> None \<longrightarrow> hd = Valueless"
      using emplace_executor_result [of os env "t\<lparr>tk_handle := Hatchery h'\<rparr>"] by auto
    then show ?thesis using m None by (cases e') auto
  next
    case (Some x)
    then show ?thesis using m by auto
  qed
qed

lemma deploy_body_result:
  assumes "tk_handle t = Hatchery h" "fair_os (do_spawn os) (w_children (ag_world A))"
    and "deploy_body os env (t, A) = ((t', A'), e)"
  shows "same_task t t' \<and> same_agent A A' \<and>
    mset (w_children (ag_world A')) = mset (w_children (ag_world A)) + task_pids t' \<and>
    (distinct (w_children (ag_world A)) \<longrightarrow> distinct (w_children (ag_world A'))) \<and>
    (e = None \<longrightarrow> task_ok t' \<and> (\<exists>x. tk_handle t' = Executor x))"
proof (cases "frontiers_to_string t")
  case (Inl x)
  then show ?thesis using assms by (auto simp: deploy_body_def task_pids_def)
next
  case (Inr str)
  define t1 where "t1 = t\<lparr>tk_topology := (tk_topology t)\<lparr>t_runtime :=
     rt_set_frontiers str (t_runtime (tk_topology t))\<rparr>\<rparr>"
  have t1: "same_task t t1" "tk_handle t1 = Hatchery h" using assms(1) by (simp_all add: t1_def)
  show ?thesis
  proof (cases "do_pair os")
    case (Inl x)
    then show ?thesis using assms t1 Inr
      by (auto simp: deploy_body_def task_pids_def t1_def Let_def)
  next
    case pair: (Inr fds)
    define t2 where "t2 = t1\<lparr>tk_topology := (tk_topology t1)\<lparr>t_runtime :=
       rt_set_topology_fd (snd fds) (t_runtime (tk_topology t1))\<rparr>\<rparr>"
    have t2: "same_task t t2" "tk_handle t2 = Hatchery h" using t1 by (simp_all add: t2_def)
    obtain hd e2 where m: "then_o (move_devices os (snd fds) t2) (emplace_executor os env) = (t2\<lparr>tk_handle := hd\<rparr>, e2)"
      "case hd of Executor x \<Rightarrow> lx_pid (ex_container x) = - 1 | _ \<Rightarrow> e2 \<noteq> None"
      using move_devices_then_emplace [OF t2(2)] by blast
    have d: "deploy_body os env (t, A) =
        (case e2 of Some e \<Rightarrow> ((t2\<lparr>tk_handle := hd\<rparr>, A), Some e)
         | None \<Rightarrow> start_container os env (fst fds) (t2\<lparr>tk_handle := hd\<rparr>, A))"
      using Inr pair m(1) by (simp add: deploy_body_def Let_def t1_def [symmetric] t2_def [symmetric] case_prod_beta cong: option.case_cong)
    show ?thesis
    proof (cases e2)
      case (Some x)
      then show ?thesis using d assms(3) t2 m(2) by (auto simp: task_pids_def split: handle.splits)
    next
      case None
      then obtain x where x: "hd = Executor x" "lx_pid (ex_container x) = - 1"
        using m(2) by (auto split: handle.splits)
      have st: "start_container os env (fst fds) (t2\<lparr>tk_handle := hd\<rparr>, A) = ((t', A'), e)"
        using d None assms(3) by simp
      have "tk_handle (t2\<lparr>tk_handle := hd\<rparr>) = Executor x" using x(1) by simp
      from start_container_result [OF this x(2) assms(2) st] show ?thesis using same_task_trans [of t "t2\<lparr>tk_handle := hd\<rparr>" t'] t2(1) 
        by (auto simp: task_pids_def task_ok_def split: handle.splits if_splits)
    qed
  qed
qed

section \<open>Removing\<close>

lemma end_process_result:
  assumes "end_process os kill (L, W) = Some ((L', W'), e)"
  shows "(e = None \<longrightarrow> lx_pid L' = - 1) \<and>
    (lx_pid L' = - 1 \<longrightarrow> w_children W' =
       (if lx_pid L = - 1 then w_children W else removeAll (lx_pid L) (w_children W)))"
proof (cases "lx_pid L = - 1")
  case True
  then show ?thesis using assms by (auto simp: end_process_def)
next
  case False
  show ?thesis
  proof (cases "if kill then lxc_kill (ro_kill os) L else None")
    case (Some x)
    then have "end_process os kill (L, W) = Some ((L, W), Some x)" using False by (simp only: end_process_def fst_conv if_False option.case)
    then show ?thesis using assms False by simp
  next
    case None
    then have "lxc_wait (ro_waits os) (ro_errno os) (L, W) = Some ((L', W'), e)"
      using assms False None by (simp only: end_process_def fst_conv if_False option.case)
    then show ?thesis using False
      by (auto simp: lxc_wait_def reaped_def split: option.splits wait_reply.splits if_splits)
  qed
qed

lemma remove_body_result:
  assumes "um_find (tk_key t) (ag_tasks A) = None" "distinct (w_children (ag_world A))"
    and "remove_body os env kill (t, A) = Some ((t', A'), e)"
  shows "ag_tasks A' = ag_tasks A \<and> ag_frontiers A' = ag_frontiers A \<and>
    (if e = None then \<exists>i. ag_sent A' = ag_sent A @ [i] \<and> ti_task_id i = tk_key t else ag_sent A' = ag_sent A) \<and>
    (e = None \<longrightarrow> task_destroy t' = Inr ()) \<and>
    (task_destroy t' = Inr () \<longrightarrow> distinct (w_children (ag_world A')) \<and>
       mset (w_children (ag_world A')) = mset (w_children (ag_world A)) - task_pids t)"
proof (cases "tk_handle t")
  case (Executor x)
  obtain L W e1 where p: "end_process os kill (ex_container x, ag_world A) = Some ((L, W), e1)"
    using assms(1,3) Executor by (auto simp: remove_body_def Let_def split: option.splits)
  note r = end_process_result [OF p]
  have ch: "lx_pid L = - 1 \<Longrightarrow> distinct (w_children W) \<and>
      mset (w_children W) = mset (w_children (ag_world A)) - task_pids t"
    using r assms(2) Executor by (auto simp: task_pids_def mset_removeAll_distinct distinct_removeAll)
  show ?thesis
  proof (cases e1)
    case (Some y)
    then show ?thesis
      using assms(1,3) Executor p ch by (auto simp: remove_body_def Let_def task_destroy_def lxc_destroy_def split: if_splits)
  next
    case None
    then have "lx_pid L = - 1" using r by simp
    then show ?thesis
      using assms(1,3) Executor p ch None
      by (auto simp: remove_body_def Let_def task_destroy_def lxc_destroy_def report_def memory_report_def
          mk_task_info_def split: sum.splits)
  qed
qed (use assms in \<open>auto simp: remove_body_def Let_def report_def task_destroy_def task_pids_def mk_task_info_def\<close>)

section \<open>Preservation\<close>

text \<open>The invariant but for the state of one task.\<close>

definition agent_inv_but :: "task_id \<Rightarrow> agent \<Rightarrow> bool" where
  "agent_inv_but key A \<longleftrightarrow> um_wf (ag_tasks A) \<and>
     (\<forall>kt \<in> set (ag_tasks A). tk_key (snd kt) = fst kt \<and> (fst kt \<noteq> key \<longrightarrow> task_ok (snd kt))) \<and>
     no_waiting_match (ag_tasks A) (ag_frontiers A) \<and>
     distinct (w_children (ag_world A)) \<and>
     mset (w_children (ag_world A)) = owned (ag_tasks A)"

lemma agent_inv_weaken: "agent_inv A \<Longrightarrow> agent_inv_but key A"
  by (auto simp: agent_inv_def agent_inv_but_def)

lemma agent_inv_strengthen:
  "agent_inv_but key A \<Longrightarrow> (\<And>t. um_find key (ag_tasks A) = Some t \<Longrightarrow> task_ok t) \<Longrightarrow> agent_inv A"
  unfolding agent_inv_but_def agent_inv_def by (metis prod.collapse um_find_set)

definition aborted :: "exn option \<Rightarrow> bool" where
  "aborted e \<longleftrightarrow> (\<exists>x. e = Some x \<and> \<not> std_exception x)"

lemma not_aborted_assert: "\<not> aborted e \<Longrightarrow> e \<noteq> Some Assert_failed"
  by (auto simp: aborted_def std_exception_def)

lemma task_destroy_cases: "task_destroy t = Inr () \<or> task_destroy t = Inl Assert_failed"
  by (auto simp: task_destroy_def lxc_destroy_def split: handle.splits)

lemma drop_task_not_aborted:
  "\<not> aborted (snd (drop_task r)) \<Longrightarrow> task_destroy (fst (fst r)) = Inr () \<and> snd (drop_task r) = snd r"
  using task_destroy_cases [of "fst (fst r)"] by (auto simp: drop_task_def aborted_def std_exception_def)

lemma no_waiting_match_erase: "no_waiting_match ts fs \<Longrightarrow> no_waiting_match (um_erase k ts) fs"
  by (auto simp: no_waiting_match_def set_um_erase)

lemma remove_task_inv:
  assumes "agent_inv_but key A" "remove_task os env key kill A = Some (A', e)" "\<not> aborted e"
  shows "agent_inv A'"
proof (cases "um_find key (ag_tasks A)")
  case None
  then have "agent_inv A" using agent_inv_strengthen [OF assms(1)] by auto
  then show ?thesis using assms(2) None by (simp add: remove_task_def)
next
  case (Some t)
  define B where "B = A\<lparr>ag_tasks := um_erase key (ag_tasks A)\<rparr>"
  obtain t' A2 e2 where r: "remove_body os env kill (t, B) = Some ((t', A2), e2)" "(A', e) = drop_task ((t', A2), e2)"
    using assms(2) Some by (auto simp: remove_task_def B_def)
  have inv: "um_wf (ag_tasks A)" "\<forall>kt \<in> set (ag_tasks A). tk_key (snd kt) = fst kt \<and> (fst kt \<noteq> key \<longrightarrow> task_ok (snd kt))"
    "no_waiting_match (ag_tasks A) (ag_frontiers A)" "distinct (w_children (ag_world A))"
    "mset (w_children (ag_world A)) = owned (ag_tasks A)"
    using assms(1) by (auto simp: agent_inv_but_def)
  have key: "tk_key t = key" using inv(2) um_find_Some_set [OF Some] by force
  have "um_find (tk_key t) (ag_tasks B) = None" "distinct (w_children (ag_world B))"
    using key inv(4) by (simp_all add: B_def dict_simps)
  note res = remove_body_result [OF this r(1)]
  have d: "task_destroy t' = Inr ()" "A' = A2"
    using drop_task_not_aborted [of "((t', A2), e2)"] r(2) assms(3) by (auto simp: drop_task_def)
  show ?thesis
    using res d inv no_waiting_match_erase [OF inv(3), of key] owned_erase [OF inv(1) Some]
    by (auto simp: agent_inv_def B_def set_um_erase)
qed

lemma task_same_match:
  "no_waiting_match ts fs \<Longrightarrow> (k, t) \<in> set ts \<Longrightarrow> same_task t u \<Longrightarrow> um_wf ts \<Longrightarrow> no_waiting_match (um_assign k u ts) fs"
  by (auto simp: no_waiting_match_def set_um_assign same_task_matches)

lemma find_match:
  assumes "find (\<lambda>kt. matches (snd kt) f) ts = Some (k, t)" "um_wf ts"
  shows "(k, t) \<in> set ts" "matches t f" "um_find k ts = Some t"
proof -
  obtain i where i: "i < length ts" "ts ! i = (k, t)" "matches (snd (ts ! i)) f"
    using assms(1) unfolding find_Some_iff by metis
  show "(k, t) \<in> set ts" using i(1,2) by (metis nth_mem)
  then show "um_find k ts = Some t" using um_find_set [OF assms(2)] by blast
  show "matches t f" using i by simp
qed

lemma um_assign_assign: "um_assign k v (um_assign k w m) = um_assign k v m"
  by (induction m) (auto simp: um_assign_def)

lemma insert_frontier_inv:
  assumes inv: "agent_inv A" and os: "fair_os (do_spawn (ao_deploy os)) (w_children (ag_world A))"
    and run: "insert_frontier os env f A = Some (A', e)" and e: "\<not> aborted e"
  shows "agent_inv A'"
proof (cases "find (\<lambda>kt. matches (snd kt) f) (ag_tasks A)")
  case None
  then have "\<forall>kt \<in> set (ag_tasks A). \<not> matches (snd kt) f" unfolding find_None_iff by blast
  moreover have "A' = A\<lparr>ag_frontiers := ag_frontiers A @ [f]\<rparr>" using run None by (simp add: insert_frontier_def)
  ultimately show ?thesis using inv by (simp add: agent_inv_def no_waiting_match_def ball_Un)
next
  case (Some kt)
  obtain k t where kt: "kt = (k, t)" by (cases kt)
  have wf: "um_wf (ag_tasks A)" using inv by (simp add: agent_inv_def)
  note t = find_match [OF Some [unfolded kt] wf]
  have key: "tk_key t = k" using inv t(1) by (force simp: agent_inv_def)
  show ?thesis
  proof (cases "get_hatchery t")
    case (Inl x)
    then show ?thesis using inv run Some kt by (simp add: insert_frontier_def)
  next
    case (Inr h)
    then have h: "tk_handle t = Hatchery h" by (auto simp: get_hatchery_def split: handle.splits)
    define t1 where "t1 = t\<lparr>tk_handle := Hatchery (h\<lparr>ha_frontiers := ha_frontiers h @ [f]\<rparr>)\<rparr>"
    define A1 where "A1 = A\<lparr>ag_tasks := um_assign k t1 (ag_tasks A)\<rparr>"
    have t1: "same_task t t1" "tk_handle t1 = Hatchery (h\<lparr>ha_frontiers := ha_frontiers h @ [f]\<rparr>)" "tk_key t1 = k"
      using key by (simp_all add: t1_def)
    have pids: "task_pids t = {#}" "task_pids t1 = {#}" using h t1 by (simp_all add: task_pids_def)
    have own: "owned (um_assign k u (ag_tasks A)) = owned (ag_tasks A) + task_pids u" for u
      using owned_assign [OF wf] owned_erase [OF wf t(3)] pids by simp
    have inv1: "agent_inv_but k B"
      if "ag_tasks B = um_assign k u (ag_tasks A)" "ag_frontiers B = ag_frontiers A" "same_task t u"
        "distinct (w_children (ag_world B))"
        "mset (w_children (ag_world B)) = mset (w_children (ag_world A)) + task_pids u" for u B
      using inv that key own task_same_match [OF _ t(1) that(3) wf]
      by (auto simp: agent_inv_but_def agent_inv_def set_um_assign wf same_task_def)
    show ?thesis
    proof (cases "ready t1 = Inr True")
      case False
      then have "A' = A1" using run Some kt Inr by (simp add: insert_frontier_def t1_def [symmetric] A1_def)
      moreover have "task_ok t1" using False t1(2) by (simp add: task_ok_def ready_def get_hatchery_def)
      moreover have "agent_inv_but k A1"
        using inv1 [of A1 t1] t1(1) pids inv by (simp add: agent_inv_def A1_def)
      ultimately show ?thesis using agent_inv_strengthen [of k A1] by (simp add: A1_def dict_simps)
    next
      case True
      obtain t2 A2 e2 where d: "deploy_body (ao_deploy os) env (t1, A1) = ((t2, A2), e2)"
        by (metis prod.collapse)
      define A3 where "A3 = A2\<lparr>ag_tasks := um_assign k t2 (ag_tasks A2)\<rparr>"
      have "fair_os (do_spawn (ao_deploy os)) (w_children (ag_world A1))" using os by (simp add: A1_def)
      note res = deploy_body_result [OF t1(2) this d]
      have A3: "agent_inv_but k A3"
        using inv1 [of A3 t2] res inv same_task_trans [OF t1(1), of t2]
        by (simp add: A3_def A1_def same_agent_def um_assign_assign agent_inv_def)
      have r: "insert_frontier os env f A = (case e2 of None \<Rightarrow> Some (A3, None)
          | Some x \<Rightarrow> if std_exception x then remove_task (ao_remove os) env k True A3 else Some (A3, Some x))"
        using Some kt Inr True d
        by (cases e2; cases "std_exception (the e2)")
          (simp_all add: insert_frontier_def t1_def [symmetric] A1_def [symmetric] A3_def [symmetric] deploy_def)
      show ?thesis
      proof (cases e2)
        case None
        then have "agent_inv A3" using agent_inv_strengthen [OF A3] res by (simp add: A3_def dict_simps)
        then show ?thesis using r None run by simp
      next
        case (Some x)
        show ?thesis
        proof (cases "std_exception x")
          case True
          then have "remove_task (ao_remove os) env k True A3 = Some (A', e)" using r run Some by simp
          from remove_task_inv [OF A3 this e] show ?thesis .
        next
          case False
          then have "e = Some x" using r run Some by simp
          then show ?thesis using e False by (simp add: aborted_def)
        qed
      qed
    qed
  qed
qed

lemma partition_bi_mset:
  "mset (fst (partition_bi P xs)) = filter_mset P (mset xs) \<and>
   mset (snd (partition_bi P xs)) = filter_mset (\<lambda>x. \<not> P x) (mset xs)"
proof (induction P xs rule: partition_bi.induct)
  case (1 P)
  then show ?case by simp
next
  case (2 P x xs)
  define front where "front = rev (dropWhile (\<lambda>y. \<not> P y) (rev xs))"
  define rest where "rest = rev (takeWhile (\<lambda>y. \<not> P y) (rev xs))"
  have xs: "xs = front @ rest" unfolding front_def rest_def
    by (metis rev_append rev_rev_ident takeWhile_dropWhile_id)
  have rest: "\<forall>y \<in> set rest. \<not> P y" unfolding rest_def using set_takeWhileD by fastforce
  then have fr: "filter_mset P (mset rest) = {#}" "filter_mset (\<lambda>y. \<not> P y) (mset rest) = mset rest"
    by (induction rest) auto
  show ?case
  proof (cases "P x")
    case True
    then show ?thesis using "2.IH"(1) by (simp add: Let_def)
  next
    case False
    show ?thesis
    proof (cases "front = []")
      case True
      then show ?thesis using False xs rest fr by (simp add: front_def [symmetric])
    next
      case ne: False
      have l: "P (last front)" using ne hd_dropWhile [of "\<lambda>y. \<not> P y" "rev xs"]
        by (auto simp: front_def last_rev)
      have f: "mset front = add_mset (last front) (mset (butlast front))"
        using ne by (metis add_mset_add_single append_butlast_last_id mset.simps(1,2) mset_append)
      have ih: "mset (fst (partition_bi P (butlast front))) = filter_mset P (mset (butlast front))"
        "mset (snd (partition_bi P (butlast front))) = filter_mset (\<lambda>x. \<not> P x) (mset (butlast front))"
        using "2.IH"(2) [OF False front_def rest_def ne] by auto
      have e: "partition_bi P (x # xs) = (last front # fst (partition_bi P (butlast front)),
          snd (partition_bi P (butlast front)) @ [x] @ rest)"
        using False ne by (simp add: front_def [symmetric] rest_def [symmetric] Let_def)
      have m: "mset (x # xs) = add_mset x (add_mset (last front) (mset (butlast front) + mset rest))"
        using xs f by simp
      show ?thesis unfolding e m using False l ih fr by simp
    qed
  qed
qed

lemma connect_frontier_result:
  "connect_frontier os env t vh kvp h = Inr h' \<Longrightarrow>
   ha_num_inter_streams h' = ha_num_inter_streams h"
  by (auto simp: connect_frontier_def split: if_splits option.splits)

lemma mk_task_result:
  assumes "mk_task os env tpg = Inr t"
  shows "tk_key t = task_key tpg \<and> t_graph (tk_topology t) = t_graph tpg \<and>
    t_vertices (tk_topology t) = t_vertices tpg \<and> t_streams (tk_topology t) = t_streams tpg \<and>
    t_containers (tk_topology t) = t_containers tpg \<and>
    (\<exists>h. tk_handle t = Hatchery h \<and> ha_num_inter_streams h = num_inter_streams tpg)"
proof -
  obtain r vh h0 h where t: "t = \<lparr>tk_key = task_key tpg, tk_topology = tpg\<lparr>t_runtime := r\<rparr>, tk_handle = Hatchery h\<rparr>"
    "fold_r (connect_frontier os env (tpg\<lparr>t_runtime := r\<rparr>) vh) (t_streams tpg) h0 = Inr h"
    "ha_num_inter_streams h0 = num_inter_streams tpg"
    using assms by (auto simp: mk_task_def Let_def)
  have "ha_num_inter_streams h = num_inter_streams tpg"
    by (rule fold_r_invariant [OF t(2), where P = "\<lambda>h. ha_num_inter_streams h = num_inter_streams tpg"])
      (use t(3) connect_frontier_result in auto)
  then show ?thesis by (simp add: t(1))
qed

lemma splice_result:
  assumes "tk_handle t = Hatchery h"
  shows "\<exists>h' fs. splice_frontiers t src = Inr (t\<lparr>tk_handle := Hatchery h'\<rparr>, fs) \<and>
     ha_num_inter_streams h' = ha_num_inter_streams h \<and>
     mset (ha_frontiers h') = mset (ha_frontiers h) + filter_mset (matches t) (mset src) \<and>
     mset fs = filter_mset (\<lambda>f. \<not> matches t f) (mset src)"
  using assms partition_bi_mset [of "matches t" src]
  by (intro exI [of _ "h\<lparr>ha_frontiers := fst (partition_bi (matches t) src) @ ha_frontiers h\<rparr>"]
      exI [of _ "snd (partition_bi (matches t) src)"])
    (simp add: splice_frontiers_def get_hatchery_def case_prod_beta add.commute)

lemma put_task_inv:
  assumes "agent_inv A" "um_find (tk_key u) (ag_tasks A) = None" "ag_tasks B = ag_tasks A"
    and "set (ag_frontiers B) \<subseteq> set (ag_frontiers A)" "\<And>f. f \<in> set (ag_frontiers B) \<Longrightarrow> \<not> matches u f"
    and "distinct (w_children (ag_world B))"
    and "mset (w_children (ag_world B)) = mset (w_children (ag_world A)) + task_pids u" "task_ok u"
  shows "agent_inv (put_task u B)"
proof -
  let ?ts = "ag_tasks A @ [(tk_key u, u)]"
  have ts: "um_assign (tk_key u) u (ag_tasks B) = ?ts" using assms(2,3) by (simp add: um_assign_fresh)
  have "um_wf ?ts" using ts um_wf_assign assms(1,3) by (metis agent_inv_def)
  moreover have "owned ?ts = owned (ag_tasks A) + task_pids u" by (simp add: owned_def)
  moreover have "no_waiting_match ?ts (ag_frontiers B)"
    using assms(1,4,5) unfolding agent_inv_def no_waiting_match_def ball_Un set_append by (simp add: subset_iff)
  ultimately show ?thesis
    using assms(1,6,7,8) by (simp add: agent_inv_def put_task_def ts ball_Un)
qed

text \<open>The three ways a new task can go: into the table, waiting or deployed; out again with a report
  after a failed deployment; or nowhere, because an assertion failed.\<close>

lemma place_new_task_cases:
  assumes inv: "agent_inv A" and fresh: "um_find (tk_key t) (ag_tasks A) = None"
    and h: "tk_handle t = Hatchery h"
    and os: "fair_os (do_spawn (ao_deploy os)) (w_children (ag_world A))"
  obtains
    (placed) u B where "place_new_task os env t A = Some (True, put_task u B, None)" "same_task t u" "task_ok u"
      "ag_tasks B = ag_tasks A" "ag_sent B = ag_sent A" "set (ag_frontiers B) = {f \<in> set (ag_frontiers A). \<not> matches t f}"
      "distinct (w_children (ag_world B))" "mset (w_children (ag_world B)) = mset (w_children (ag_world A)) + task_pids u"
  | (failed) u B where
      "place_new_task os env t A = map_option (\<lambda>r. (False, drop_task r)) (remove_body (ao_remove os) env True (u, B))"
      "same_task t u"
      "ag_tasks B = ag_tasks A" "ag_sent B = ag_sent A" "set (ag_frontiers B) = {f \<in> set (ag_frontiers A). \<not> matches t f}"
      "distinct (w_children (ag_world B))" "mset (w_children (ag_world B)) = mset (w_children (ag_world A)) + task_pids u"
  | (asserted) B x where "place_new_task os env t A = Some (False, B, Some x)" "\<not> std_exception x"
proof -
  obtain h' fs where sp: "splice_frontiers t (ag_frontiers A) = Inr (t\<lparr>tk_handle := Hatchery h'\<rparr>, fs)"
    "mset fs = filter_mset (\<lambda>f. \<not> matches t f) (mset (ag_frontiers A))"
    using splice_result [OF h] by blast
  define t1 where "t1 = t\<lparr>tk_handle := Hatchery h'\<rparr>"
  define A1 where "A1 = A\<lparr>ag_frontiers := fs\<rparr>"
  have t1: "same_task t t1" "tk_handle t1 = Hatchery h'" "tk_key t1 = tk_key t" by (simp_all add: t1_def)
  have set_fs: "set fs = {f \<in> set (ag_frontiers A). \<not> matches t f}"
    using sp(2) by (metis set_mset_filter set_mset_mset)
  have put: "assign_task u B = (put_task u B, None)" if "tk_key u = tk_key t" "ag_tasks B = ag_tasks A" for u B
    using that fresh by (simp add: assign_task_def)
  show thesis
  proof (cases "ready t1 = Inr True")
    case False
    then have "place_new_task os env t A = Some (True, assign_task t1 A1)"
      using sp(1) by (simp add: place_new_task_def t1_def [symmetric] A1_def [symmetric])
    moreover have "assign_task t1 A1 = (put_task t1 A1, None)" by (rule put) (simp_all add: t1(3) A1_def)
    moreover have "task_ok t1" using False t1(2) by (simp add: task_ok_def ready_def get_hatchery_def)
    ultimately show thesis
      by (intro placed [of t1 A1]) (use t1 set_fs inv in \<open>simp_all add: A1_def task_pids_def agent_inv_def\<close>)
  next
    case True
    obtain t2 A2 e2 where d: "deploy_body (ao_deploy os) env (t1, A1) = ((t2, A2), e2)"
      by (metis prod.collapse)
    have "fair_os (do_spawn (ao_deploy os)) (w_children (ag_world A1))" using os by (simp add: A1_def)
    note res = deploy_body_result [OF t1(2) this d]
    have t2: "same_task t t2" "tk_key t2 = tk_key t" using res t1 same_task_trans [OF t1(1), of t2] by (auto simp: same_task_def)
    have A2: "ag_tasks A2 = ag_tasks A" "ag_sent A2 = ag_sent A" "ag_frontiers A2 = fs"
      "distinct (w_children (ag_world A2))"
      "mset (w_children (ag_world A2)) = mset (w_children (ag_world A)) + task_pids t2"
      using res inv by (simp_all add: same_agent_def A1_def agent_inv_def)
    have r: "place_new_task os env t A = (case e2 of None \<Rightarrow> Some (True, assign_task t2 A2)
        | Some x \<Rightarrow> if std_exception x
            then map_option (\<lambda>r. (False, drop_task r)) (remove_body (ao_remove os) env True (t2, A2))
            else Some (False, A2, Some x))"
      using sp(1) True d
      by (cases e2; cases "std_exception (the e2)")
        (simp_all add: place_new_task_def t1_def [symmetric] A1_def [symmetric] deploy_def)
    show thesis
    proof (cases e2)
      case None
      then show thesis by (intro placed [of t2 A2]) (use r put [OF t2(2) A2(1)] t2 A2 set_fs res in simp_all)
    next
      case (Some x)
      then show thesis
        by (cases "std_exception x") (use r t2 A2 set_fs in \<open>auto intro: failed [of t2 A2] asserted [of A2 x]\<close>)
    qed
  qed
qed

lemma place_new_task_inv:
  assumes inv: "agent_inv A" and fresh: "um_find (tk_key t) (ag_tasks A) = None"
    and h: "tk_handle t = Hatchery h"
    and os: "fair_os (do_spawn (ao_deploy os)) (w_children (ag_world A))"
    and run: "place_new_task os env t A = Some (b, A', e)" and e: "\<not> aborted e"
  shows "agent_inv A'"
proof (rule place_new_task_cases [OF inv fresh h os, of env], goal_cases placed failed asserted)
  case (placed u B)
  have "agent_inv (put_task u B)"
    by (rule put_task_inv [OF inv]) (use placed fresh same_task_matches [OF placed(2)] in \<open>auto simp: same_task_def\<close>)
  then show ?thesis using placed(1) run by simp
next
  case (failed u B)
  have "map_option (\<lambda>r. (False, drop_task r)) (remove_body (ao_remove os) env True (u, B)) = Some (b, A', e)"
    using failed(1) run by simp
  then obtain t3 A3 e3 where rb: "remove_body (ao_remove os) env True (u, B) = Some ((t3, A3), e3)"
    "drop_task ((t3, A3), e3) = (A', e)"
    by auto
  have d3: "task_destroy t3 = Inr ()" "A' = A3"
    using drop_task_not_aborted [of "((t3, A3), e3)"] rb(2) e by (auto simp: drop_task_def)
  have "um_find (tk_key u) (ag_tasks B) = None" using fresh failed(2,3) by (simp add: same_task_def)
  from remove_body_result [OF this failed(6) rb(1)] d3 failed inv show ?thesis
    by (auto simp: agent_inv_def no_waiting_match_def)
next
  case (asserted B x)
  then show ?thesis using run e by (simp add: aborted_def)
qed

lemma insert_task_inv:
  assumes inv: "agent_inv A" and fresh: "um_find (task_key tpg) (ag_tasks A) = None"
    and os: "fair_os (do_spawn (ao_deploy os)) (w_children (ag_world A))"
    and run: "insert_task os env tpg A = Some (b, A', e)" and e: "\<not> aborted e"
  shows "agent_inv A'"
proof (cases "mk_task (ao_task os) env tpg")
  case (Inl x)
  then show ?thesis using inv run e by (auto simp: insert_task_def agent_inv_def aborted_def split: if_splits)
next
  case (Inr t)
  then obtain h where "tk_key t = task_key tpg" "tk_handle t = Hatchery h" using mk_task_result by blast
  then show ?thesis
    using place_new_task_inv [OF inv _ _ os _ e, of t h env b A'] fresh run Inr by (simp add: insert_task_def)
qed

section \<open>The agent's events\<close>

datatype agent_event =
    Frontier_arrives frontier
  | Topology_arrives topology
  | Kill_arrives task_id
  | Executor_breaks task_id

definition agent_handle ::
  "agent_os \<Rightarrow> runtime \<Rightarrow> agent_event \<Rightarrow> agent \<Rightarrow> agent outcome option" where
  "agent_handle os env ev A =
     (case ev of
        Frontier_arrives f \<Rightarrow> insert_frontier os env f A
      | Topology_arrives tpg \<Rightarrow> map_option snd (insert_task os env tpg A)
      | Kill_arrives key \<Rightarrow> remove_task (ao_remove os) env key True A
      | Executor_breaks key \<Rightarrow> remove_task (ao_remove os) env key False A)"

text \<open>The system gives every child a new process number, and the master sends a topology for a task
  that the agent does not have (\<open>Master.thy\<close>: a deployed graph has one task per container).\<close>

definition event_ok :: "agent_os \<Rightarrow> agent_event \<Rightarrow> agent \<Rightarrow> bool" where
  "event_ok os ev A \<longleftrightarrow> fair_os (do_spawn (ao_deploy os)) (w_children (ag_world A)) \<and>
     (case ev of Topology_arrives tpg \<Rightarrow> um_find (task_key tpg) (ag_tasks A) = None | _ \<Rightarrow> True)"

inductive agent_reach :: "runtime \<Rightarrow> agent \<Rightarrow> bool" for env where
  init: "agent_reach env agent_init"
| step: "agent_reach env A \<Longrightarrow> event_ok os ev A \<Longrightarrow> agent_handle os env ev A = Some (A', e) \<Longrightarrow>
    \<not> aborted e \<Longrightarrow> agent_reach env A'"

lemma agent_reach_inv: "agent_reach env A \<Longrightarrow> agent_inv A"
proof (induction rule: agent_reach.induct)
  case init
  then show ?case by (simp add: agent_inv_def agent_init_def no_waiting_match_def owned_def)
next
  case (step A os ev A' e)
  show ?case
  proof (cases ev)
    case (Frontier_arrives f)
    then show ?thesis using step insert_frontier_inv by (auto simp: agent_handle_def event_ok_def)
  next
    case (Topology_arrives tpg)
    then obtain b where "insert_task os env tpg A = Some (b, A', e)" using step by (auto simp: agent_handle_def)
    then show ?thesis using step Topology_arrives insert_task_inv by (auto simp: event_ok_def)
  next
    case (Kill_arrives key)
    then show ?thesis using step remove_task_inv [OF agent_inv_weaken] by (auto simp: agent_handle_def)
  next
    case (Executor_breaks key)
    then show ?thesis using step remove_task_inv [OF agent_inv_weaken] by (auto simp: agent_handle_def)
  qed
qed

end
