(* ===== verification/AgentRendezvous.thy ===== *)
theory AgentRendezvous
  imports Agent
begin

text \<open>
  The properties of the agent (\<open>Agent.thy\<close>) that follow from its invariant and from the steps of a
  deployment the system does not refuse: the rendezvous of topology and frontiers in any order, the
  reports to the master, and what a frontier does that comes after its task was deployed.
\<close>

section \<open>Successful deployments\<close>

definition spawn_succeeds :: "spawn_os \<Rightarrow> bool" where
  "spawn_succeeds os \<longleftrightarrow> so_pair os = None \<and> (\<exists>pid. so_clone os = Inr pid) \<and> (\<forall>f. so_writable os f) \<and>
     so_go os = None \<and> so_synced os \<and> (\<forall>a b c. so_exec os a b c = None) \<and> so_readable os"

definition deploy_succeeds :: "deploy_os \<Rightarrow> bool" where
  "deploy_succeeds os \<longleftrightarrow> (\<exists>p. do_pair os = Inr p) \<and> (\<forall>fd. do_open os fd = None) \<and>
     (\<forall>d. do_mkdir os d = None) \<and> do_channel os = None \<and> do_send os = None \<and> spawn_succeeds (do_spawn os)"

lemma fold_o_no_exn: "(\<And>x s. snd (f x s) = None) \<Longrightarrow> snd (fold_o f xs s) = None"
  by (induction xs arbitrary: s) (auto simp: then_o_def split: option.splits)

lemma lxc_spawn_succeeds:
  assumes "spawn_succeeds os" "lx_pid L = - 1" "so_clone os = Inr pid"
  shows "\<exists>L' W'. lxc_spawn False os tpg (L, W) = ((L', W'), None) \<and> lx_pid L' = pid"
proof -
  have "snd (cg_add (so_mount os) (so_writable os) (lx_cgroup L) pid (w_writes W)) = None"
    unfolding cg_add_def by (rule fold_o_no_exn) (use assms(1) in \<open>simp add: cg_set_def spawn_succeeds_def\<close>)
  then show ?thesis
    using assms by (simp add: lxc_spawn_def spawn_succeeds_def Let_def await_exec_def entrypoint_def)
qed

lemma move_sockets_succeeds:
  "(\<And>fd. opn fd = None) \<Longrightarrow> snd (move_sockets opn fs) = None"
  by (induction fs) (auto simp: open_on_exec_def Let_def split: option.splits)

lemma move_devices_succeeds:
  assumes "\<And>fd. do_open os fd = None" "tk_handle t = Hatchery h"
  shows "\<exists>h'. move_devices os efd t = (t\<lparr>tk_handle := Hatchery h'\<rparr>, None)"
proof -
  have "open_on_exec (do_open os) s = None" for s by (simp add: open_on_exec_def assms(1) split: option.splits)
  then show ?thesis using assms move_sockets_succeeds [of "do_open os" "ha_frontiers h"]
    by (auto simp: move_devices_def get_hatchery_def Let_def case_prod_beta)
qed

lemma emplace_executor_succeeds:
  assumes "\<And>d. do_mkdir os d = None"
  shows "\<exists>p. emplace_executor os env t =
     (t\<lparr>tk_handle := Executor \<lparr>ex_container = mk_lxc p, ex_channel = None\<rparr>\<rparr>, None)"
proof -
  have "snd (cg_create (so_mount (do_spawn os)) (do_mkdir os) p []) = None" for p
    unfolding cg_create_def by (rule fold_o_no_exn) (simp add: assms)
  then show ?thesis by (simp add: emplace_executor_def Let_def) blast
qed

lemma start_container_succeeds:
  assumes "deploy_succeeds os" "tk_handle t = Executor \<lparr>ex_container = mk_lxc p, ex_channel = None\<rparr>"
    "length (t_containers (tk_topology t)) = 1"
  shows "\<exists>x A'. start_container os env afd (t, A) = ((t\<lparr>tk_handle := Executor x\<rparr>, A'), None)"
proof -
  obtain pid where pid: "so_clone (do_spawn os) = Inr pid" using assms(1) by (auto simp: deploy_succeeds_def spawn_succeeds_def)
  have sp: "spawn_succeeds (do_spawn os)" using assms(1) by (simp add: deploy_succeeds_def)
  define w where "w = cg_set_memory_limit_in_bytes (so_mount (do_spawn os)) (so_writable (do_spawn os)) p
      (memory_limit_in_bytes (tpg_resource (env_this_host env) (tk_topology t))) (w_writes (ag_world A))"
  define W where "W = (ag_world A)\<lparr>w_writes := fst w\<rparr>"
  obtain L' W' where l: "lxc_spawn False (do_spawn os) (tk_topology t) (mk_lxc p, W) = ((L', W'), None)"
    using lxc_spawn_succeeds [OF sp _ pid, of "mk_lxc p" "tk_topology t" W] by (auto simp: mk_lxc_def)
  have w: "snd w = None" using sp by (simp add: w_def cg_set_memory_limit_in_bytes_def cg_set_def spawn_succeeds_def)
  have "lx_cgroup (mk_lxc p) = p" by (simp add: mk_lxc_def)
  then show ?thesis
    using assms w l by (simp add: start_container_def get_executor_def Let_def w_def [symmetric] W_def [symmetric] deploy_succeeds_def) blast
qed

definition fits_int :: "int \<Rightarrow> bool" where
  "fits_int i \<longleftrightarrow> int_min \<le> i \<and> i \<le> int_max"

definition connected :: "frontier \<Rightarrow> bool" where
  "connected f \<longleftrightarrow> fits_int (fr_stream f) \<and> (\<exists>fd. fr_socket f = Some fd \<and> fits_int fd)"

definition ftr_pair :: "frontier \<Rightarrow> key_type \<times> int" where
  "ftr_pair f = (fr_stream f, the (fr_socket f))"

lemma frontiers_fold:
  assumes "\<And>f. f \<in> set fs \<Longrightarrow> connected f"
  shows "fold_r (\<lambda>ftr oss. bind_r (frontier_fd ftr) (\<lambda>(s, fd).
         Inr (oss @ int_str s @ '':'' @ int_str fd @ '' ''))) fs oss = Inr (oss @ frontiers_text (map ftr_pair fs))"
  using assms
proof (induction fs arbitrary: oss)
  case Nil
  then show ?case by (simp add: frontiers_text_def)
next
  case (Cons f fs)
  then obtain fd where "fr_socket f = Some fd" by (auto simp: connected_def)
  then show ?case using Cons by (simp add: frontier_fd_def ftr_pair_def frontiers_text_def)
qed

lemma frontiers_to_string_connected:
  assumes "tk_handle t = Hatchery h" "\<And>f. f \<in> set (ha_frontiers h) \<Longrightarrow> connected f"
  shows "frontiers_to_string t = Inr (frontiers_text (map ftr_pair (ha_frontiers h)))"
  unfolding frontiers_to_string_def get_hatchery_def assms(1) handle.case bind_r_simps
  by (subst frontiers_fold [OF assms(2)]) simp_all

lemma rt_frontiers_topology_fd: "rt_frontiers (rt_set_topology_fd fd m) = rt_frontiers m"
  by (simp add: rt_frontiers_def rt_set_topology_fd_def dict_simps)

lemma rt_frontiers_pairs:
  assumes "\<And>f. f \<in> set fs \<Longrightarrow> connected f"
  shows "rt_frontiers (rt_set_frontiers (frontiers_text (map ftr_pair fs)) m) = Inr (um.emplace_all (map ftr_pair fs) [])"
  by (rule rt_frontiers_text) (use assms in \<open>fastforce simp: connected_def ftr_pair_def fits_int_def\<close>)

lemma deploy_body_succeeds:
  assumes os: "deploy_succeeds os" and h: "tk_handle t = Hatchery h"
    and c: "\<And>f. f \<in> set (ha_frontiers h) \<Longrightarrow> connected f"
    and one: "length (t_containers (tk_topology t)) = 1"
  shows "\<exists>t' A' x. deploy_body os env (t, A) = ((t', A'), None) \<and> tk_handle t' = Executor x \<and>
     rt_frontiers (t_runtime (tk_topology t')) = Inr (um.emplace_all (map ftr_pair (ha_frontiers h)) [])"
proof -
  define str where "str = frontiers_text (map ftr_pair (ha_frontiers h))"
  obtain afd efd where p: "do_pair os = Inr (afd, efd)" using os by (auto simp: deploy_succeeds_def)
  define t1 where "t1 = t\<lparr>tk_topology := (tk_topology t)\<lparr>t_runtime := rt_set_frontiers str (t_runtime (tk_topology t))\<rparr>\<rparr>"
  define t2 where "t2 = t1\<lparr>tk_topology := (tk_topology t1)\<lparr>t_runtime := rt_set_topology_fd efd (t_runtime (tk_topology t1))\<rparr>\<rparr>"
  have t2: "tk_handle t2 = Hatchery h" "t_containers (tk_topology t2) = t_containers (tk_topology t)"
    "t_runtime (tk_topology t2) = rt_set_topology_fd efd (rt_set_frontiers str (t_runtime (tk_topology t)))"
    using h by (simp_all add: t1_def t2_def)
  obtain h' where m: "move_devices os efd t2 = (t2\<lparr>tk_handle := Hatchery h'\<rparr>, None)"
    using move_devices_succeeds [of os t2 h efd] os t2(1) by (auto simp: deploy_succeeds_def)
  obtain q where e: "emplace_executor os env (t2\<lparr>tk_handle := Hatchery h'\<rparr>) =
      (t2\<lparr>tk_handle := Executor \<lparr>ex_container = mk_lxc q, ex_channel = None\<rparr>\<rparr>, None)"
    using emplace_executor_succeeds [of os env "t2\<lparr>tk_handle := Hatchery h'\<rparr>"] os by (auto simp: deploy_succeeds_def)
  obtain x A' where s: "start_container os env afd (t2\<lparr>tk_handle := Executor \<lparr>ex_container = mk_lxc q, ex_channel = None\<rparr>\<rparr>, A) =
      ((t2\<lparr>tk_handle := Executor x\<rparr>, A'), None)"
    using start_container_succeeds [OF os, of "t2\<lparr>tk_handle := Executor \<lparr>ex_container = mk_lxc q, ex_channel = None\<rparr>\<rparr>" q env afd A]
      one t2(2) by auto
  have fs: "frontiers_to_string t = Inr str" unfolding str_def by (rule frontiers_to_string_connected [OF h c])
  have "deploy_body os env (t, A) = ((t2\<lparr>tk_handle := Executor x\<rparr>, A'), None)"
    using fs p m e s by (simp add: deploy_body_def Let_def t1_def [symmetric] t2_def [symmetric])
  moreover have "rt_frontiers (t_runtime (tk_topology (t2\<lparr>tk_handle := Executor x\<rparr>))) =
      Inr (um.emplace_all (map ftr_pair (ha_frontiers h)) [])"
    using rt_frontiers_pairs [OF c] by (simp add: t2(3) rt_frontiers_topology_fd str_def)
  moreover have "tk_handle (t2\<lparr>tk_handle := Executor x\<rparr>) = Executor x" by simp
  ultimately show ?thesis by blast
qed

section \<open>Frontiers in any order\<close>

fun arrive_all :: "agent_os \<Rightarrow> runtime \<Rightarrow> frontier list \<Rightarrow> agent \<Rightarrow> agent outcome option" where
  "arrive_all os env [] A = Some (A, None)"
| "arrive_all os env (f # fs) A =
     (case insert_frontier os env f A of
        Some (A, None) \<Rightarrow> arrive_all os env fs A
      | r \<Rightarrow> r)"

lemma arrive_before:
  assumes "\<And>f kt. f \<in> set fs \<Longrightarrow> kt \<in> set (ag_tasks A) \<Longrightarrow> \<not> matches (snd kt) f"
  shows "arrive_all os env fs A = Some (A\<lparr>ag_frontiers := ag_frontiers A @ fs\<rparr>, None)"
  using assms
proof (induction fs arbitrary: A)
  case Nil
  then show ?case by simp
next
  case (Cons f fs)
  have "find (\<lambda>kt. matches (snd kt) f) (ag_tasks A) = None"
    unfolding find_None_iff using Cons.prems by (meson list.set_intros(1))
  then have "insert_frontier os env f A = Some (A\<lparr>ag_frontiers := ag_frontiers A @ [f]\<rparr>, None)"
    by (simp add: insert_frontier_def)
  moreover have "arrive_all os env fs (A\<lparr>ag_frontiers := ag_frontiers A @ [f]\<rparr>) =
      Some (A\<lparr>ag_frontiers := ag_frontiers A @ [f]\<rparr>\<lparr>ag_frontiers := (ag_frontiers A @ [f]) @ fs\<rparr>, None)"
    using Cons.IH [of "A\<lparr>ag_frontiers := ag_frontiers A @ [f]\<rparr>"] Cons.prems by simp
  ultimately show ?case by simp
qed

text \<open>The task \<open>key\<close> is deployed with these sockets.\<close>

definition runs_with :: "task_id \<Rightarrow> (key_type \<times> int) list \<Rightarrow> agent \<Rightarrow> bool" where
  "runs_with key sockets A \<longleftrightarrow>
     (\<exists>t x r. um_find key (ag_tasks A) = Some t \<and> tk_handle t = Executor x \<and>
        rt_frontiers (t_runtime (tk_topology t)) = Inr r \<and> (\<forall>k. um_find k r = map_of sockets k))"

lemma find_only:
  assumes "um_find k ts = Some t" "um_wf ts" "matches t f"
    and "\<And>j u. (j, u) \<in> set ts \<Longrightarrow> j \<noteq> k \<Longrightarrow> \<not> matches u f"
  shows "find (\<lambda>kt. matches (snd kt) f) ts = Some (k, t)"
proof (cases "find (\<lambda>kt. matches (snd kt) f) ts")
  case None
  then show ?thesis using assms(3) um_find_Some_set [OF assms(1)] unfolding find_None_iff by (metis snd_conv)
next
  case (Some ju)
  obtain j u where ju: "ju = (j, u)" by (cases ju)
  note m = find_match [OF Some [unfolded ju] assms(2)]
  have "j = k" using m(1,2) assms(4) by blast
  then show ?thesis using Some ju m(3) assms(1) by simp
qed

lemma insert_last_frontier:
  assumes "um_find k (ag_tasks A) = Some t" "um_wf (ag_tasks A)" "matches t f" "tk_handle t = Hatchery h"
    and other: "\<And>j u. (j, u) \<in> set (ag_tasks A) \<Longrightarrow> j \<noteq> k \<Longrightarrow> \<not> matches u f"
    and n: "length (ha_frontiers h) + 1 = ha_num_inter_streams h"
    and c: "\<And>g. g \<in> set (f # ha_frontiers h) \<Longrightarrow> connected g"
    and os: "deploy_succeeds (ao_deploy os)" and one: "length (t_containers (tk_topology t)) = 1"
  shows "\<exists>A'. insert_frontier os env f A = Some (A', None) \<and>
    runs_with k (map ftr_pair (ha_frontiers h @ [f])) A'"
proof -
  define h1 where "h1 = h\<lparr>ha_frontiers := ha_frontiers h @ [f]\<rparr>"
  define t1 where "t1 = t\<lparr>tk_handle := Hatchery h1\<rparr>"
  define A1 where "A1 = A\<lparr>ag_tasks := um_assign k t1 (ag_tasks A)\<rparr>"
  have rd: "ready t1 = Inr True" using n by (simp add: ready_def get_hatchery_def t1_def h1_def)
  have c1: "connected g" if "g \<in> set (ha_frontiers h1)" for g using c that by (auto simp: h1_def)
  obtain t2 A2 x where d: "deploy_body (ao_deploy os) env (t1, A1) = ((t2, A2), None)" "tk_handle t2 = Executor x"
    "rt_frontiers (t_runtime (tk_topology t2)) = Inr (um.emplace_all (map ftr_pair (ha_frontiers h1)) [])"
    using deploy_body_succeeds [OF os, of t1 h1 env A1] c1 one by (auto simp: t1_def)
  have "insert_frontier os env f A = Some (A2\<lparr>ag_tasks := um_assign k t2 (ag_tasks A2)\<rparr>, None)"
    using find_only [OF assms(1-3) other] assms(4) rd d(1)
    by (simp add: insert_frontier_def get_hatchery_def t1_def [symmetric] h1_def [symmetric] A1_def [symmetric] deploy_def)
  moreover have "runs_with k (map ftr_pair (ha_frontiers h1)) (A2\<lparr>ag_tasks := um_assign k t2 (ag_tasks A2)\<rparr>)"
    using d(2,3) by (simp add: runs_with_def dict_simps um.find_emplace_all_empty)
  ultimately show ?thesis by (auto simp: h1_def)
qed

lemma insert_earlier_frontier:
  assumes "um_find k (ag_tasks A) = Some t" "um_wf (ag_tasks A)" "matches t f" "tk_handle t = Hatchery h"
    and other: "\<And>j u. (j, u) \<in> set (ag_tasks A) \<Longrightarrow> j \<noteq> k \<Longrightarrow> \<not> matches u f"
    and n: "length (ha_frontiers h) + 1 \<noteq> ha_num_inter_streams h"
  shows "insert_frontier os env f A = Some (A\<lparr>ag_tasks := um_assign k
     (t\<lparr>tk_handle := Hatchery (h\<lparr>ha_frontiers := ha_frontiers h @ [f]\<rparr>)\<rparr>) (ag_tasks A)\<rparr>, None)"
  using find_only [OF assms(1-3) other] assms(4) n
  by (simp add: insert_frontier_def get_hatchery_def ready_def)

text \<open>No other task waits for one of these frontiers.\<close>

definition alone :: "task_id \<Rightarrow> frontier set \<Rightarrow> (task_id \<times> ag_task) list \<Rightarrow> bool" where
  "alone k F ts \<longleftrightarrow> (\<forall>(j, u) \<in> set ts. j \<noteq> k \<longrightarrow> (\<forall>f \<in> F. \<not> matches u f))"

lemma alone_no_match: "alone k F ts \<Longrightarrow> f \<in> F \<Longrightarrow> (j, u) \<in> set ts \<Longrightarrow> j \<noteq> k \<Longrightarrow> \<not> matches u f"
  by (auto simp: alone_def)

lemma alone_assign: "um_wf ts \<Longrightarrow> alone k F ts \<Longrightarrow> alone k F (um_assign k t ts)"
  by (auto simp: alone_def set_um_assign)

lemma arrive_after:
  assumes "um_find k (ag_tasks A) = Some t" "um_wf (ag_tasks A)" "tk_handle t = Hatchery h" "alone k F (ag_tasks A)"
    and "\<And>f. f \<in> set fs \<Longrightarrow> f \<in> F \<and> matches t f"
    and "fs \<noteq> []" "length (ha_frontiers h) + length fs = ha_num_inter_streams h"
    and "\<And>f. f \<in> set (ha_frontiers h @ fs) \<Longrightarrow> connected f"
    and os: "deploy_succeeds (ao_deploy os)" "length (t_containers (tk_topology t)) = 1"
  shows "\<exists>A'. arrive_all os env fs A = Some (A', None) \<and> runs_with k (map ftr_pair (ha_frontiers h @ fs)) A'"
  using assms(1-8,10)
proof (induction fs arbitrary: A t h)
  case Nil
  then show ?case by simp
next
  case (Cons f fs)
  have f: "f \<in> F" "matches t f" using Cons.prems(5) by auto
  have no: "\<And>j u. (j, u) \<in> set (ag_tasks A) \<Longrightarrow> j \<noteq> k \<Longrightarrow> \<not> matches u f"
    using alone_no_match [OF Cons.prems(4) f(1)] by blast
  show ?case
  proof (cases "fs = []")
    case True
    have "\<exists>A'. insert_frontier os env f A = Some (A', None) \<and> runs_with k (map ftr_pair (ha_frontiers h @ [f])) A'"
      by (rule insert_last_frontier [OF Cons.prems(1,2) f(2) Cons.prems(3) no _ _ os(1) Cons.prems(9)])
        (use Cons.prems(7,8) True in auto)
    then show ?thesis using True by auto
  next
    case False
    define h1 where "h1 = h\<lparr>ha_frontiers := ha_frontiers h @ [f]\<rparr>"
    define t1 where "t1 = t\<lparr>tk_handle := Hatchery h1\<rparr>"
    define A1 where "A1 = A\<lparr>ag_tasks := um_assign k t1 (ag_tasks A)\<rparr>"
    have n: "length (ha_frontiers h) + 1 \<noteq> ha_num_inter_streams h" using Cons.prems(7) False by (cases fs) auto
    have i: "insert_frontier os env f A = Some (A1, None)"
      using insert_earlier_frontier [OF Cons.prems(1,2) f(2) Cons.prems(3) no n] by (simp add: A1_def t1_def h1_def)
    have m1: "matches t1 x = matches t x" for x by (simp add: t1_def matches_def)
    have "\<exists>A'. arrive_all os env fs A1 = Some (A', None) \<and> runs_with k (map ftr_pair (ha_frontiers h1 @ fs)) A'"
      by (rule Cons.IH [of A1 t1 h1])
        (use Cons.prems False alone_assign [OF Cons.prems(2,4), of t1] in
          \<open>auto simp: A1_def t1_def h1_def dict_simps um_wf_assign m1 [unfolded t1_def h1_def]\<close>)
    then show ?thesis using i by (simp add: h1_def)
  qed
qed

section \<open>The frontiers of a new task\<close>

definition inward :: "topology \<Rightarrow> key_type \<Rightarrow> bool" where
  "inward t k = has_inter_stream_mode t k Mode_in"

definition outward :: "topology \<Rightarrow> key_type \<Rightarrow> bool" where
  "outward t k = has_inter_stream_mode t k Mode_out"

lemma inward_not_outward: "inward t k \<Longrightarrow> \<not> outward t k"
  by (auto simp: inward_def outward_def has_inter_stream_mode_def split: option.splits)

lemma outward_key: "outward t k \<Longrightarrow> k \<in> fst ` set (t_streams t)"
  by (auto simp: outward_def has_inter_stream_mode_def split: option.splits dest!: um_find_Some_set intro: rev_image_eqI)

lemma inward_key: "inward t k \<Longrightarrow> k \<in> fst ` set (t_streams t)"
  by (auto simp: inward_def has_inter_stream_mode_def split: option.splits dest!: um_find_Some_set intro: rev_image_eqI)

lemma length_filter_disjoint:
  "(\<And>x. \<not> (P x \<and> Q x)) \<Longrightarrow> length (filter (\<lambda>x. P x \<or> Q x) xs) = length (filter P xs) + length (filter Q xs)"
  by (induction xs) auto

lemma num_inter_streams_split:
  "num_inter_streams t = length (filter (\<lambda>e. inward t (fst e)) (t_streams t)) +
     length (filter (\<lambda>e. outward t (fst e)) (t_streams t))"
  using inward_not_outward
  by (simp add: num_inter_streams_def has_inter_stream_def inward_def [symmetric] outward_def [symmetric])
    (intro length_filter_disjoint, blast)

lemma fold_connect:
  assumes "fold_r (connect_frontier os env t vh) ss h = Inr h'"
    and "\<And>n a p fd. to_connect os n a p = Inr fd \<Longrightarrow> fits_int fd"
    and "\<And>k. k \<in> fst ` set ss \<Longrightarrow> fits_int k"
  shows "\<exists>fs. ha_frontiers h' = ha_frontiers h @ fs \<and>
    map fr_stream fs = map fst (filter (\<lambda>e. inward t (fst e)) ss) \<and> (\<forall>f \<in> set fs. connected f)"
  using assms(1,3)
proof (induction ss arbitrary: h)
  case Nil
  then show ?case by simp
next
  case (Cons e ss)
  obtain h1 where h1: "connect_frontier os env t vh e h = Inr h1" "fold_r (connect_frontier os env t vh) ss h1 = Inr h'"
    using Cons.prems(1) by auto
  obtain fs where fs: "ha_frontiers h' = ha_frontiers h1 @ fs"
    "map fr_stream fs = map fst (filter (\<lambda>e. inward t (fst e)) ss)" "\<forall>f \<in> set fs. connected f"
    using Cons.IH [OF h1(2)] Cons.prems(2) by auto
  show ?case
  proof (cases "inward t (fst e)")
    case False
    then have "h1 = h" using h1(1) by (simp add: connect_frontier_def inward_def)
    then show ?thesis using fs False by auto
  next
    case True
    then obtain fd n a p where "ha_frontiers h1 = ha_frontiers h @ [\<lparr>fr_graph = t_graph t, fr_stream = fst e, fr_socket = Some fd\<rparr>]"
      "to_connect os n a p = Inr fd"
      using h1(1) by (auto simp: connect_frontier_def inward_def split: option.splits)
    moreover have "fits_int (fst e)" using Cons.prems(2) by simp
    ultimately show ?thesis using fs True assms(2)
      by (intro exI [of _ "\<lparr>fr_graph = t_graph t, fr_stream = fst e, fr_socket = Some fd\<rparr> # fs"]) (auto simp: connected_def)
  qed
qed

lemma mk_task_frontiers:
  assumes "mk_task os env tpg = Inr t"
    and "\<And>n a p fd. to_connect os n a p = Inr fd \<Longrightarrow> fits_int fd"
    and "\<And>k. k \<in> fst ` set (t_streams tpg) \<Longrightarrow> fits_int k"
  shows "\<exists>h. tk_handle t = Hatchery h \<and> ha_num_inter_streams h = num_inter_streams tpg \<and>
    map fr_stream (ha_frontiers h) = map fst (filter (\<lambda>e. inward tpg (fst e)) (t_streams tpg)) \<and>
    (\<forall>f \<in> set (ha_frontiers h). connected f)"
proof -
  obtain r vh fd1 fd2 h where t: "t = \<lparr>tk_key = task_key tpg, tk_topology = tpg\<lparr>t_runtime := r\<rparr>, tk_handle = Hatchery h\<rparr>"
    "fold_r (connect_frontier os env (tpg\<lparr>t_runtime := r\<rparr>) vh) (t_streams tpg)
       \<lparr>ha_num_inter_streams = num_inter_streams tpg, ha_frontiers = [], ha_stdout = Some fd1, ha_stderr = Some fd2\<rparr> = Inr h"
    using assms(1) by (auto simp: mk_task_def Let_def)
  have i: "inward (tpg\<lparr>t_runtime := r\<rparr>) k = inward tpg k" for k
    by (simp add: inward_def has_inter_stream_mode_def has_vertex_def split: option.split)
  obtain fs where "ha_frontiers h = fs" "map fr_stream fs = map fst (filter (\<lambda>e. inward tpg (fst e)) (t_streams tpg))"
    "\<forall>f \<in> set fs. connected f"
    using fold_connect [OF t(2) assms(2,3)] i by auto
  then show ?thesis using mk_task_result [OF assms(1)] t(1) by auto
qed

text \<open>One frontier for each outgoing stream, in any order.\<close>

definition outward_frontiers :: "topology \<Rightarrow> frontier list \<Rightarrow> bool" where
  "outward_frontiers tpg fs \<longleftrightarrow> distinct (map fr_stream fs) \<and> fr_stream ` set fs = {k. outward tpg k} \<and>
     (\<forall>f \<in> set fs. fr_graph f = t_graph tpg \<and> connected f)"

lemma length_outward:
  assumes "outward_frontiers tpg fs" "um_wf (t_streams tpg)"
  shows "length fs = length (filter (\<lambda>e. outward tpg (fst e)) (t_streams tpg))"
proof -
  let ?es = "filter (\<lambda>e. outward tpg (fst e)) (t_streams tpg)"
  have "distinct (map fst ?es)" using assms(2) by (simp add: um_wf_def um_keys_def distinct_map_filter)
  moreover have "set (map fst ?es) = {k. outward tpg k}" using outward_key by fastforce
  moreover have "distinct (map fr_stream fs)" "set (map fr_stream fs) = {k. outward tpg k}"
    using assms(1) by (simp_all add: outward_frontiers_def)
  ultimately have "length (map fr_stream fs) = length (map fst ?es)" by (metis distinct_card)
  then show ?thesis by simp
qed

lemma rendezvous_sockets:
  assumes "mset L = mset own + mset fs" "um_wf (t_streams tpg)"
    and "map fr_stream own = map fst (filter (\<lambda>e. inward tpg (fst e)) (t_streams tpg))"
    and "\<forall>f \<in> set own. connected f" "outward_frontiers tpg fs"
  shows "(\<forall>f \<in> set fs. map_of (map ftr_pair L) (fr_stream f) = fr_socket f) \<and>
    (\<forall>k. map_of (map ftr_pair L) k \<noteq> None \<longleftrightarrow> has_inter_stream tpg k)"
proof -
  have own: "distinct (map fr_stream own)" "fr_stream ` set own = {k. inward tpg k}"
  proof -
    show "distinct (map fr_stream own)" using assms(2,3) by (simp add: um_wf_def um_keys_def distinct_map_filter)
    have "set (map fr_stream own) = {k. inward tpg k}" unfolding assms(3) using inward_key by fastforce
    then show "fr_stream ` set own = {k. inward tpg k}" by simp
  qed
  have fs: "distinct (map fr_stream fs)" "fr_stream ` set fs = {k. outward tpg k}"
    "\<forall>f \<in> set fs. fr_graph f = t_graph tpg \<and> connected f"
    using assms(5) by (simp_all add: outward_frontiers_def)
  have L: "set L = set own \<union> set fs" using assms(1) by (metis set_mset_mset set_mset_union)
  have "mset (map fr_stream L) = mset (map fr_stream (own @ fs))" using assms(1) by simp
  moreover have "distinct (map fr_stream (own @ fs))"
    using own fs(1,2) inward_not_outward by (auto simp: distinct_map) 
  ultimately have d: "distinct (map fr_stream L)" by (metis mset_eq_imp_distinct_iff)
  have dd: "distinct (map fst (map ftr_pair L))" using d by (simp add: comp_def ftr_pair_def)
  have a: "map_of (map ftr_pair L) (fr_stream f) = fr_socket f" if "f \<in> set fs" for f
  proof -
    have "(fr_stream f, the (fr_socket f)) \<in> set (map ftr_pair L)" using that L by (auto simp: ftr_pair_def)
    then show ?thesis using dd fs(3) that by (auto simp: connected_def)
  qed
  have "map_of (map ftr_pair L) k \<noteq> None \<longleftrightarrow> k \<in> fr_stream ` set L" for k
    by (auto simp: map_of_eq_None_iff ftr_pair_def image_iff)
  moreover have "fr_stream ` set L = {k. inward tpg k \<or> outward tpg k}" using L own(2) fs(2) by auto
  ultimately show ?thesis using a by (auto simp: has_inter_stream_def inward_def outward_def)
qed

lemma topology_arrives:
  assumes "mk_task (ao_task os) env tpg = Inr t" "tk_handle t = Hatchery h"
    and "um_find (task_key tpg) (ag_tasks A) = None" "um_wf (ag_tasks A)"
    and "\<And>f. f \<in> set (ag_frontiers A) \<Longrightarrow> matches t f \<Longrightarrow> connected f"
    and "\<forall>f \<in> set (ha_frontiers h). connected f"
    and "deploy_succeeds (ao_deploy os)" "length (t_containers tpg) = 1"
    and fair: "fair_os (do_spawn (ao_deploy os)) (w_children (ag_world A))"
  shows "\<exists>A' L rest. insert_task os env tpg A = Some (True, A', None) \<and>
    mset L = mset (ha_frontiers h) + filter_mset (matches t) (mset (ag_frontiers A)) \<and>
    (if length L = ha_num_inter_streams h then runs_with (task_key tpg) (map ftr_pair L) A'
     else \<exists>h'. A' = A\<lparr>ag_frontiers := rest, ag_tasks := um_assign (task_key tpg) (t\<lparr>tk_handle := Hatchery h'\<rparr>) (ag_tasks A)\<rparr> \<and>
            ha_frontiers h' = L \<and> ha_num_inter_streams h' = ha_num_inter_streams h)"
proof -
  obtain h' fs where sp: "splice_frontiers t (ag_frontiers A) = Inr (t\<lparr>tk_handle := Hatchery h'\<rparr>, fs)"
    "ha_num_inter_streams h' = ha_num_inter_streams h"
    "mset (ha_frontiers h') = mset (ha_frontiers h) + filter_mset (matches t) (mset (ag_frontiers A))"
    using splice_result [OF assms(2)] by blast
  note mk = mk_task_result [OF assms(1)]
  define t1 where "t1 = t\<lparr>tk_handle := Hatchery h'\<rparr>"
  define A1 where "A1 = A\<lparr>ag_frontiers := fs\<rparr>"
  have "set (ha_frontiers h') = set (ha_frontiers h) \<union> {f \<in> set (ag_frontiers A). matches t f}"
    using sp(3) by (metis set_mset_filter set_mset_mset set_mset_union)
  moreover have "fr_graph f = t_graph tpg" if "matches t f" for f using that mk by (simp add: matches_def)
  ultimately have c: "connected f" if "f \<in> set (ha_frontiers h')" for f using that assms(5,6) by auto
  have put: "assign_task u B = (put_task u B, None)" if "tk_key u = task_key tpg" "ag_tasks B = ag_tasks A" for u B
    using that assms(3) by (simp add: assign_task_def)
  show ?thesis
  proof (cases "length (ha_frontiers h') = ha_num_inter_streams h")
    case False
    have "insert_task os env tpg A = Some (True, assign_task t1 A1)"
      using sp False assms(1) by (simp add: insert_task_def place_new_task_def ready_def get_hatchery_def t1_def A1_def)
    moreover have "assign_task t1 A1 = (put_task t1 A1, None)" by (rule put) (use mk in \<open>simp_all add: t1_def A1_def\<close>)
    ultimately have "insert_task os env tpg A = Some (True, put_task t1 A1, None)" by simp
    then show ?thesis
      using False sp mk by (intro exI [of _ "put_task t1 A1"] exI [of _ "ha_frontiers h'"] exI [of _ fs])
        (auto simp: put_task_def t1_def A1_def)
  next
    case True
    obtain t2 A2 x where d: "deploy_body (ao_deploy os) env (t1, A1) = ((t2, A2), None)" "tk_handle t2 = Executor x"
      "rt_frontiers (t_runtime (tk_topology t2)) = Inr (um.emplace_all (map ftr_pair (ha_frontiers h')) [])"
      using deploy_body_succeeds [OF assms(7), of t1 h' env A1] c assms(8) mk by (auto simp: t1_def)
    have same: "tk_key t2 = task_key tpg \<and> ag_tasks A2 = ag_tasks A"
      using deploy_body_result [OF _ _ d(1), of h'] mk fair by (simp add: t1_def A1_def same_task_def same_agent_def)
    have "insert_task os env tpg A = Some (True, assign_task t2 A2)"
      using sp True assms(1) d(1)
      by (simp add: insert_task_def place_new_task_def ready_def get_hatchery_def t1_def A1_def deploy_def)
    then have "insert_task os env tpg A = Some (True, put_task t2 A2, None)" using put same by simp
    moreover have "runs_with (task_key tpg) (map ftr_pair (ha_frontiers h')) (put_task t2 A2)"
      using d(2,3) same by (simp add: runs_with_def put_task_def dict_simps um.find_emplace_all_empty)
    ultimately show ?thesis using True sp(3) by (intro exI [of _ "put_task t2 A2"] exI [of _ "ha_frontiers h'"]) simp
  qed
qed

section \<open>Properties\<close>

text \<open>C29: the rendezvous of a task with the frontiers of its outgoing streams. Premises: the topology is
  one container's part of a graph and new to the agent; no other task of the agent has one of its
  outgoing streams as an outgoing stream too (the agent may well run other parts of the graph: by C25 these
  have other outgoing streams), and none of its frontiers is waiting already; one frontier with a socket
  comes for each outgoing stream; descriptors and stream keys fit an \<open>int\<close>; and the system does not
  refuse: the task can be created, its own connections included, and deployed. Then, however these
  frontiers are split by the arrival of the topology, and in whatever order they come, the task is
  deployed when the last of them is there, and its executor finds in its environment a
  socket for every inter-stream: for an outgoing stream the one that came in with its frontier.\<close>

theorem rendezvous_any_order:
  assumes "um_wf (ag_tasks A)"
    and "\<And>j u k. (j, u) \<in> set (ag_tasks A) \<Longrightarrow> t_graph (tk_topology u) = t_graph tpg \<Longrightarrow>
           outward (tk_topology u) k \<Longrightarrow> \<not> outward tpg k"
    and "um_find (task_key tpg) (ag_tasks A) = None"
    and "\<And>f. f \<in> set (ag_frontiers A) \<Longrightarrow> fr_graph f = t_graph tpg \<Longrightarrow> \<not> outward tpg (fr_stream f)"
    and "outward_frontiers tpg (pre @ post)" "um_wf (t_streams tpg)" "length (t_containers tpg) = 1"
    and "mk_task (ao_task os) env tpg = Inr t"
    and "\<And>n a p fd. to_connect (ao_task os) n a p = Inr fd \<Longrightarrow> fits_int fd"
    and "\<And>k. k \<in> fst ` set (t_streams tpg) \<Longrightarrow> fits_int k"
    and "deploy_succeeds (ao_deploy os)" "fair_os (do_spawn (ao_deploy os)) (w_children (ag_world A))"
  shows "\<exists>A1 A2 A3 sockets.
    arrive_all os env pre A = Some (A1, None) \<and>
    insert_task os env tpg A1 = Some (True, A2, None) \<and>
    arrive_all os env post A2 = Some (A3, None) \<and>
    runs_with (task_key tpg) sockets A3 \<and>
    (\<forall>f \<in> set (pre @ post). map_of sockets (fr_stream f) = fr_socket f) \<and>
    (\<forall>k. map_of sockets k \<noteq> None \<longleftrightarrow> has_inter_stream tpg k)"
proof -
  obtain h where h: "tk_handle t = Hatchery h" "ha_num_inter_streams h = num_inter_streams tpg"
    "map fr_stream (ha_frontiers h) = map fst (filter (\<lambda>e. inward tpg (fst e)) (t_streams tpg))"
    "\<forall>f \<in> set (ha_frontiers h). connected f"
    using mk_task_frontiers [OF assms(8)] assms(9,10) by blast
  note mk = mk_task_result [OF assms(8)]
  have mt: "matches t f \<longleftrightarrow> fr_graph f = t_graph tpg \<and> outward tpg (fr_stream f)" for f
    using mk by (auto simp: matches_def outward_def has_inter_stream_mode_def has_vertex_def split: option.split)
  have out: "\<And>f. f \<in> set (pre @ post) \<Longrightarrow> fr_graph f = t_graph tpg \<and> connected f \<and> matches t f"
  proof -
    fix f assume f: "f \<in> set (pre @ post)"
    then have "fr_graph f = t_graph tpg" "connected f" "outward tpg (fr_stream f)"
      using assms(5) by (auto simp: outward_frontiers_def)
    then show "fr_graph f = t_graph tpg \<and> connected f \<and> matches t f" by (simp add: mt)
  qed
  have num: "ha_num_inter_streams h = length (ha_frontiers h) + length (pre @ post)"
    using num_inter_streams_split [of tpg] length_outward [OF assms(5,6)] h(2) arg_cong [OF h(3), of length] by simp
  define A1 where "A1 = A\<lparr>ag_frontiers := ag_frontiers A @ pre\<rparr>"
  have no: "\<not> matches u f" if "f \<in> set (pre @ post)" "(j, u) \<in> set (ag_tasks A)" for f j u
    using assms(2) [OF that(2)] out [OF that(1)] unfolding mt by (auto simp: matches_def outward_def)
  have a1: "arrive_all os env pre A = Some (A1, None)"
    unfolding A1_def by (rule arrive_before) (use no in fastforce)
  have fil: "filter_mset (matches t) (mset (ag_frontiers A1)) = mset pre"
  proof -
    have "\<not> matches t f" if "f \<in> set (ag_frontiers A)" for f
      using assms(4) [OF that] unfolding mt by blast
    then have "filter (matches t) (ag_frontiers A) = []" by (simp add: filter_empty_conv)
    moreover have "filter (matches t) pre = pre" using out by (auto simp: filter_id_conv)
    ultimately have "filter (matches t) (ag_frontiers A1) = pre" by (simp add: A1_def)
    then show ?thesis by (metis mset_filter)
  qed
  have fresh1: "um_find (task_key tpg) (ag_tasks A1) = None" and wf1: "um_wf (ag_tasks A1)"
    and fair1: "fair_os (do_spawn (ao_deploy os)) (w_children (ag_world A1))"
    using assms(1,3,12) by (simp_all add: A1_def)
  have pend1: "connected f" if "f \<in> set (ag_frontiers A1)" "matches t f" for f
    using that assms(4) out unfolding mt by (auto simp: A1_def)
  obtain A2 L rest where a2: "insert_task os env tpg A1 = Some (True, A2, None)" "mset L = mset (ha_frontiers h) + mset pre"
    "if length L = ha_num_inter_streams h then runs_with (task_key tpg) (map ftr_pair L) A2
     else \<exists>h'. A2 = A1\<lparr>ag_frontiers := rest, ag_tasks := um_assign (task_key tpg) (t\<lparr>tk_handle := Hatchery h'\<rparr>) (ag_tasks A1)\<rparr> \<and>
            ha_frontiers h' = L \<and> ha_num_inter_streams h' = ha_num_inter_streams h"
    using topology_arrives [OF assms(8) h(1) fresh1 wf1 pend1 h(4) assms(11,7) fair1] unfolding fil by blast
  have len: "length L = length (ha_frontiers h) + length pre" using arg_cong [OF a2(2), of size] by simp
  show ?thesis
  proof (cases "post = []")
    case True
    then have "runs_with (task_key tpg) (map ftr_pair L) A2" using a2(3) len num by simp
    moreover have "mset L = mset (ha_frontiers h) + mset (pre @ post)" using a2(2) True by simp
    note rendezvous_sockets [OF this assms(6) h(3,4) assms(5)]
    ultimately show ?thesis using a1 a2(1) True by auto
  next
    case False
    then have "length L \<noteq> ha_num_inter_streams h" using len num by simp
    then obtain h' where h': "A2 = A1\<lparr>ag_frontiers := rest, ag_tasks := um_assign (task_key tpg) (t\<lparr>tk_handle := Hatchery h'\<rparr>) (ag_tasks A1)\<rparr>"
      "ha_frontiers h' = L" "ha_num_inter_streams h' = ha_num_inter_streams h"
      using a2(3) by auto
    let ?t = "t\<lparr>tk_handle := Hatchery h'\<rparr>"
    have wf: "um_wf (ag_tasks A2)" "um_find (task_key tpg) (ag_tasks A2) = Some ?t" "alone (task_key tpg) (set (pre @ post)) (ag_tasks A2)"
      using assms(1) no by (auto simp: h'(1) A1_def dict_simps alone_def set_um_assign)
    have "set L = set (ha_frontiers h) \<union> set pre" using a2(2) by (metis set_mset_mset set_mset_union)
    then have c: "connected f" if "f \<in> set (ha_frontiers h' @ post)" for f using that h(4) out h'(2) by auto
    have "\<exists>A3. arrive_all os env post A2 = Some (A3, None) \<and> runs_with (task_key tpg) (map ftr_pair (ha_frontiers h' @ post)) A3"
      by (rule arrive_after [OF wf(2,1) _ wf(3) _ False _ c assms(11)])
        (use out h' len num mk assms(7) in \<open>auto simp: matches_def\<close>)
    then obtain A3 where a3: "arrive_all os env post A2 = Some (A3, None)"
      "runs_with (task_key tpg) (map ftr_pair (L @ post)) A3" using h'(2) by auto
    have "mset (L @ post) = mset (ha_frontiers h) + mset (pre @ post)" using a2(2) by simp
    from rendezvous_sockets [OF this assms(6) h(3,4) assms(5)] show ?thesis using a1 a2(1) a3 by blast
  qed
qed

definition demo_part :: topology where
  "demo_part = (mk_topology 7 1)\<lparr>
     t_runtime := rt_set_vertex_hosts ''0:alpha 1:beta 2:beta '' [],
     t_vertices := [(1, \<lparr>v_key = 1, v_container = 1\<rparr>), (2, \<lparr>v_key = 2, v_container = 1\<rparr>)],
     t_streams := [(0, mk_stream 0 0 1), (1, mk_stream 1 1 2), (2, mk_stream 2 2 0)],
     t_containers := [(1, mk_container ''beta'' 1)]\<rparr>"

definition demo_agent_os :: agent_os where
  "demo_agent_os = \<lparr>
     ao_task = \<lparr>to_connect = (\<lambda>n _ _. Inr (10 + int (min n 5))), to_flush = (\<lambda>_ _. None)\<rparr>,
     ao_deploy = \<lparr>do_pair = Inr (30, 31), do_open = (\<lambda>_. None), do_mkdir = (\<lambda>_. None),
       do_spawn = demo_os\<lparr>so_exec := \<lambda>_ _ _. None\<rparr>, do_channel = None, do_send = None\<rparr>,
     ao_remove = \<lparr>ro_kill = None, ro_waits = [Wait_status 42 9], ro_errno = 0, ro_mount = (\<lambda>s. ''/cg''),
       ro_content = (\<lambda>_. Some ''4096''), ro_elapsed = 5\<rparr>\<rparr>"

definition demo_frontier :: "int \<Rightarrow> frontier" where
  "demo_frontier fd = \<lparr>fr_graph = 7, fr_stream = 2, fr_socket = Some fd\<rparr>"

lemma demo_mk_task: "\<exists>t. mk_task (ao_task demo_agent_os) [] demo_part = Inr t"
proof -
  have "(case mk_task (ao_task demo_agent_os) [] demo_part of Inr _ \<Rightarrow> True | Inl _ \<Rightarrow> False)" by code_simp
  then show ?thesis by (auto split: sum.splits)
qed

lemma demo_outward: "outward demo_part k \<longleftrightarrow> k = 2"
  by (simp add: outward_def has_inter_stream_mode_def demo_part_def mk_topology_def mk_stream_def has_vertex_def)

lemma demo_rv_graph: "t_graph demo_part = 7"
  by (simp add: demo_part_def mk_topology_def)

lemma demo_os_fine: "deploy_succeeds (ao_deploy demo_agent_os)" "fair_os (do_spawn (ao_deploy demo_agent_os)) []"
  by (simp_all add: demo_agent_os_def deploy_succeeds_def spawn_succeeds_def demo_os_def fair_os_def)

lemma demo_fits: "to_connect (ao_task demo_agent_os) n a p = Inr fd \<Longrightarrow> fits_int fd"
  "k \<in> fst ` set (t_streams demo_part) \<Longrightarrow> fits_int k"
  by (auto simp: demo_agent_os_def fits_int_def int_min_def int_max_def demo_part_def)

text \<open>An agent on which another part of the same graph waits for its frontiers.\<close>

definition busy_agent :: agent where
  "busy_agent = agent_init\<lparr>ag_tasks := [(mk_tid 7 0, \<lparr>tk_key = mk_tid 7 0, tk_topology = mk_topology 7 0,
     tk_handle = Hatchery \<lparr>ha_num_inter_streams = 1, ha_frontiers = [], ha_stdout = Some 8, ha_stderr = Some 9\<rparr>\<rparr>)]\<rparr>"

theorem rendezvous_any_order_witness:
  "\<exists>A1 A2 A3 sockets.
    arrive_all demo_agent_os [] [demo_frontier 20] busy_agent = Some (A1, None) \<and>
    insert_task demo_agent_os [] demo_part A1 = Some (True, A2, None) \<and>
    arrive_all demo_agent_os [] [] A2 = Some (A3, None) \<and>
    runs_with (task_key demo_part) sockets A3 \<and>
    (\<forall>f \<in> set ([demo_frontier 20] @ []). map_of sockets (fr_stream f) = fr_socket f) \<and>
    (\<forall>k. map_of sockets k \<noteq> None \<longleftrightarrow> has_inter_stream demo_part k)"
proof -
  obtain t where t: "mk_task (ao_task demo_agent_os) [] demo_part = Inr t" using demo_mk_task by blast
  have out: "outward_frontiers demo_part ([demo_frontier 20] @ [])"
    by (auto simp: outward_frontiers_def demo_outward demo_frontier_def connected_def fits_int_def int_min_def
        int_max_def demo_rv_graph)
  have wf: "um_wf (t_streams demo_part)" "length (t_containers demo_part) = 1"
    by (simp_all add: demo_part_def um_wf_def)
  have key: "um_find (task_key demo_part) (ag_tasks busy_agent) = None"
    by (simp add: busy_agent_def task_key_def demo_part_def mk_topology_def mk_tid_def)
  have other: "\<not> outward demo_part k" if "(j, u) \<in> set (ag_tasks busy_agent)" "outward (tk_topology u) k" for j u k
    using that by (simp add: busy_agent_def outward_def has_inter_stream_mode_def mk_topology_def)
  have rest: "um_wf (ag_tasks busy_agent)" "ag_frontiers busy_agent = []" "w_children (ag_world busy_agent) = []"
    by (simp_all add: busy_agent_def agent_init_def um_wf_def)
  show ?thesis
    by (rule rendezvous_any_order [OF rest(1) other key _ out wf t demo_fits demo_os_fine(1)])
      (simp_all add: rest demo_os_fine(2))
qed

text \<open>C30: in every state the agent can reach, no frontier waits although its task is there, every task
  in the table either lacks frontiers or runs a process that is a child of the agent, and the children
  that are not reaped are exactly the processes of the tasks in the table, each owned once.\<close>

theorem agent_bookkeeping:
  assumes "agent_reach env A"
  shows "(\<forall>kt \<in> set (ag_tasks A). \<forall>f \<in> set (ag_frontiers A). \<not> matches (snd kt) f) \<and>
    (\<forall>kt \<in> set (ag_tasks A). case tk_handle (snd kt) of
        Hatchery h \<Rightarrow> length (ha_frontiers h) \<noteq> ha_num_inter_streams h
      | Executor x \<Rightarrow> lx_pid (ex_container x) \<in> set (w_children (ag_world A)) \<and> ex_channel x \<noteq> None
      | Valueless \<Rightarrow> False) \<and>
    distinct (w_children (ag_world A)) \<and> mset (w_children (ag_world A)) = owned (ag_tasks A)"
proof -
  have inv: "agent_inv A" by (rule agent_reach_inv [OF assms])
  have "case tk_handle (snd kt) of
        Hatchery h \<Rightarrow> length (ha_frontiers h) \<noteq> ha_num_inter_streams h
      | Executor x \<Rightarrow> lx_pid (ex_container x) \<in> set (w_children (ag_world A)) \<and> ex_channel x \<noteq> None
      | Valueless \<Rightarrow> False" if kt: "kt \<in> set (ag_tasks A)" for kt
  proof -
    have ok: "task_ok (snd kt)" using inv kt by (simp add: agent_inv_def)
    show ?thesis
    proof (cases "tk_handle (snd kt)")
      case (Executor x)
      then have "lx_pid (ex_container x) \<in># task_pids (snd kt)" using ok by (simp add: task_pids_def task_ok_def)
      moreover obtain xs ys where "ag_tasks A = xs @ kt # ys" using split_list [OF kt] by blast
      ultimately have "lx_pid (ex_container x) \<in># owned (ag_tasks A)" by (simp add: owned_def)
      then show ?thesis using inv ok Executor
        by (simp add: agent_inv_def task_ok_def) (metis set_mset_mset)
    qed (use ok in \<open>simp_all add: task_ok_def\<close>)
  qed
  then show ?thesis using inv by (auto simp: agent_inv_def no_waiting_match_def)
qed

theorem agent_bookkeeping_witness:
  "\<exists>A. agent_reach [] A \<and> ag_frontiers A = [demo_frontier 20] \<and>
    (\<forall>kt \<in> set (ag_tasks A). \<forall>f \<in> set (ag_frontiers A). \<not> matches (snd kt) f) \<and>
    (\<forall>kt \<in> set (ag_tasks A). case tk_handle (snd kt) of
        Hatchery h \<Rightarrow> length (ha_frontiers h) \<noteq> ha_num_inter_streams h
      | Executor x \<Rightarrow> lx_pid (ex_container x) \<in> set (w_children (ag_world A)) \<and> ex_channel x \<noteq> None
      | Valueless \<Rightarrow> False) \<and>
    distinct (w_children (ag_world A)) \<and> mset (w_children (ag_world A)) = owned (ag_tasks A)"
proof -
  let ?A = "agent_init\<lparr>ag_frontiers := [demo_frontier 20]\<rparr>"
  have "event_ok demo_agent_os (Frontier_arrives (demo_frontier 20)) agent_init"
    using demo_os_fine(2) by (simp add: event_ok_def agent_init_def)
  moreover have "agent_handle demo_agent_os [] (Frontier_arrives (demo_frontier 20)) agent_init = Some (?A, None)"
    by (simp add: agent_handle_def insert_frontier_def agent_init_def)
  moreover have "\<not> aborted None" by (simp add: aborted_def)
  ultimately have r: "agent_reach [] ?A" by (rule agent_reach.step [OF agent_reach.init])
  show ?thesis using r agent_bookkeeping [OF r] by (intro exI [of _ ?A]) simp
qed

text \<open>a topology that reaches the agent is accounted for: when the handler returns, either the task
  is in the table and nothing was reported, or there is no such task, exactly one report for it was
  sent, and no process is left of it.\<close>

theorem insert_task_accounted:
  assumes "agent_inv A" "um_find (task_key tpg) (ag_tasks A) = None"
    and "fair_os (do_spawn (ao_deploy os)) (w_children (ag_world A))"
    and "insert_task os env tpg A = Some (placed, A', None)"
  shows "if placed then um_find (task_key tpg) (ag_tasks A') \<noteq> None \<and> ag_sent A' = ag_sent A
    else um_find (task_key tpg) (ag_tasks A') = None \<and>
      (\<exists>i. ag_sent A' = ag_sent A @ [i] \<and> ti_task_id i = task_key tpg) \<and>
      mset (w_children (ag_world A')) = mset (w_children (ag_world A))"
proof (cases "mk_task (ao_task os) env tpg")
  case (Inl x)
  then show ?thesis using assms(2,4) by (auto simp: insert_task_def mk_task_info_def split: if_splits)
next
  case (Inr t)
  obtain h where h: "tk_key t = task_key tpg" "tk_handle t = Hatchery h" using mk_task_result [OF Inr] by blast
  have fresh: "um_find (tk_key t) (ag_tasks A) = None" using h(1) assms(2) by simp
  have run: "place_new_task os env t A = Some (placed, A', None)" using assms(4) Inr by (simp add: insert_task_def)
  show ?thesis
  proof (rule place_new_task_cases [OF assms(1) fresh h(2) assms(3), of env], goal_cases placed failed asserted)
    case (placed u B)
    then show ?case using run h(1) by (auto simp: put_task_def same_task_def dict_simps)
  next
    case (failed u B)
    have "map_option (\<lambda>r. (False, drop_task r)) (remove_body (ao_remove os) env True (u, B)) = Some (placed, A', None)"
      using failed(1) run by simp
    then obtain t3 A3 e3 where rb: "remove_body (ao_remove os) env True (u, B) = Some ((t3, A3), e3)"
      "drop_task ((t3, A3), e3) = (A', None)" "\<not> placed"
      by auto
    have d3: "task_destroy t3 = Inr ()" "A' = A3" "e3 = None"
      using drop_task_not_aborted [of "((t3, A3), e3)"] rb(2) by (auto simp: drop_task_def aborted_def)
    have key: "tk_key u = task_key tpg" using failed(2) h(1) by (simp add: same_task_def)
    have "um_find (tk_key u) (ag_tasks B) = None" using key failed(3) assms(2) by simp
    from remove_body_result [OF this failed(6) rb(1)] d3 failed key rb(3) assms(2) show ?case by auto
  next
    case (asserted B x)
    then show ?case using run by simp
  qed
qed

theorem insert_task_accounted_witness:
  "\<exists>placed A'. insert_task demo_agent_os [] demo_part agent_init = Some (placed, A', None) \<and>
    (if placed then um_find (task_key demo_part) (ag_tasks A') \<noteq> None \<and> ag_sent A' = ag_sent agent_init
     else um_find (task_key demo_part) (ag_tasks A') = None \<and>
      (\<exists>i. ag_sent A' = ag_sent agent_init @ [i] \<and> ti_task_id i = task_key demo_part) \<and>
      mset (w_children (ag_world A')) = mset (w_children (ag_world agent_init)))"
proof -
  have "(case insert_task demo_agent_os [] demo_part agent_init of Some (_, _, None) \<Rightarrow> True | _ \<Rightarrow> False)"
    by code_simp
  then obtain placed A' where r: "insert_task demo_agent_os [] demo_part agent_init = Some (placed, A', None)"
    by (auto split: option.splits prod.splits)
  have "agent_inv agent_init" by (rule agent_reach_inv [OF agent_reach.init])
  moreover have "um_find (task_key demo_part) (ag_tasks agent_init) = None" by (simp add: agent_init_def)
  moreover have "fair_os (do_spawn (ao_deploy demo_agent_os)) (w_children (ag_world agent_init))"
    using demo_os_fine(2) by (simp add: agent_init_def)
  ultimately show ?thesis using r insert_task_accounted [OF _ _ _ r] by blast
qed

text \<open>A frontier for a task that is deployed already is not refused but ends in
  \<open>std::bad_variant_access\<close>: the search for its task does not look at the state of the handle. The
  socket is lost and the agent is unchanged.\<close>

theorem late_frontier_rejected:
  assumes "find (\<lambda>kt. matches (snd kt) f) (ag_tasks A) = Some (key, t)" "tk_handle t = Executor x"
  shows "insert_frontier os env f A = Some (A, Some Bad_variant_access)"
  using assms by (simp add: insert_frontier_def get_hatchery_def)

theorem late_frontier_rejected_witness:
  "insert_frontier demo_agent_os [] (demo_frontier 21)
     (agent_init\<lparr>ag_tasks := [((mk_tid 7 1), \<lparr>tk_key = mk_tid 7 1, tk_topology = demo_part,
        tk_handle = Executor \<lparr>ex_container = (mk_lxc ''g'')\<lparr>lx_pid := 42\<rparr>, ex_channel = Some 30\<rparr>\<rparr>)]\<rparr>) =
   Some (agent_init\<lparr>ag_tasks := [((mk_tid 7 1), \<lparr>tk_key = mk_tid 7 1, tk_topology = demo_part,
        tk_handle = Executor \<lparr>ex_container = (mk_lxc ''g'')\<lparr>lx_pid := 42\<rparr>, ex_channel = Some 30\<rparr>\<rparr>)]\<rparr>,
     Some Bad_variant_access)"
proof (rule late_frontier_rejected)
  have "matches \<lparr>tk_key = mk_tid 7 1, tk_topology = demo_part,
        tk_handle = Executor \<lparr>ex_container = (mk_lxc ''g'')\<lparr>lx_pid := 42\<rparr>, ex_channel = Some 30\<rparr>\<rparr> (demo_frontier 21)"
    using demo_outward [of 2] by (simp add: matches_def outward_def demo_rv_graph demo_frontier_def)
  then show "find (\<lambda>kt. matches (snd kt) (demo_frontier 21))
     (ag_tasks (agent_init\<lparr>ag_tasks := [((mk_tid 7 1), \<lparr>tk_key = mk_tid 7 1, tk_topology = demo_part,
        tk_handle = Executor \<lparr>ex_container = (mk_lxc ''g'')\<lparr>lx_pid := 42\<rparr>, ex_channel = Some 30\<rparr>\<rparr>)]\<rparr>)) =
     Some (mk_tid 7 1, \<lparr>tk_key = mk_tid 7 1, tk_topology = demo_part,
        tk_handle = Executor \<lparr>ex_container = (mk_lxc ''g'')\<lparr>lx_pid := 42\<rparr>, ex_channel = Some 30\<rparr>\<rparr>)"
    by simp
qed simp

end
