(* ===== verification/TimeoutHeap.thy ===== *)
theory TimeoutHeap
  imports Prelude
begin

text \<open>
  The events of the reactor and the priority queue of its timers (event.hpp, event.cpp).

  An \<open>Event*\<close> is an address; the \<open>Timer\<close> of the events' handles is one map from addresses to
  timers, the devices of the others are a map of their own (theory Reactor). The constructors of
  event.hpp give the timer to the types TIMEOUT and PERIODIC and the device to READ and WRITE and
  nothing changes the alternative, so \<open>std::get\<close> on the handle finds the one it asks for.

  \<open>TimeoutEventHeap\<close> is the array of addresses together with that map: sifting writes the index of
  an event into its timer, the field \<open>satellite\<close>, which is -1 while the event is in no heap. The
  array is a binary heap ordered by \<open>timeout\<close>, and the interface \<open>timer_queue\<close> says what the
  reactor relies on: the heap refines a set of events from which \<open>pop\<close> takes one that is due first.
\<close>

section \<open>Events\<close>

type_synonym eptr = nat

datatype etype = TIMEOUT | PERIODIC | READ | WRITE

datatype signal = REMOVE | DEFAULT

record timer =
  satellite :: int
  duration :: int
  timeout :: int

text \<open>
  The constructor of a timed event. The argument \<open>from_now\<close> starts a periodic event at once:
  its first timeout is the time of its construction.
\<close>

definition mk_timer :: "int \<Rightarrow> bool \<Rightarrow> int \<Rightarrow> timer" where
  "mk_timer d from_now now = \<lparr>satellite = -1, duration = d,
     timeout = (if from_now then now else now + d)\<rparr>"

section \<open>The heap\<close>

record theap =
  hp_array :: "eptr list"
  hp_timer :: "eptr \<Rightarrow> timer"

definition hp_empty :: "theap \<Rightarrow> bool" where
  "hp_empty h = (hp_array h = [])"

definition hp_top :: "theap \<Rightarrow> eptr option" where
  "hp_top h = (if hp_empty h then None else Some (hp_array h ! 0))"

definition hp_size :: "theap \<Rightarrow> nat" where
  "hp_size h = length (hp_array h)"

definition set_satellite :: "eptr \<Rightarrow> int \<Rightarrow> theap \<Rightarrow> theap" where
  "set_satellite e s h = h\<lparr>hp_timer := (hp_timer h)(e := (hp_timer h e)\<lparr>satellite := s\<rparr>)\<rparr>"

definition hp_clear :: "theap \<Rightarrow> theap" where
  "hp_clear h = (fold (\<lambda>e. set_satellite e (-1)) (hp_array h) h)\<lparr>hp_array := []\<rparr>"

text \<open>\<open>_less\<close>: the order of the heap.\<close>

definition hp_less :: "theap \<Rightarrow> eptr \<Rightarrow> eptr \<Rightarrow> bool" where
  "hp_less h l r = (timeout (hp_timer h l) < timeout (hp_timer h r))"

text \<open>
  The assignment \<open>(_array[idx] = e)->_timer().satellite = idx\<close>. When the index is the size of the
  array the code writes the storage that \<open>pop_back\<close> has just released, which no operation reads:
  the list stays as it is (lemma \<open>pop_past_the_end\<close>).
\<close>

definition hp_put :: "nat \<Rightarrow> eptr \<Rightarrow> theap \<Rightarrow> theap" where
  "hp_put i e h = set_satellite e (int i) (h\<lparr>hp_array := (hp_array h)[i := e]\<rparr>)"

text \<open>The shift \<open>(idx - 1) >> 1\<close>.\<close>

definition parent :: "nat \<Rightarrow> nat" where
  "parent i = (i - 1) div 2"

lemma parent_less: "0 < i \<Longrightarrow> parent i < i"
  by (auto simp: parent_def)

lemma parent_le [simp]: "parent i \<le> i" "i < n \<Longrightarrow> parent i < n" "parent 0 = 0"
  by (auto simp: parent_def)

text \<open>\<open>_bubble_up\<close>: the parents of the index are moved down until one is not later than \<open>e\<close>.\<close>

function bubble_up :: "nat \<Rightarrow> eptr \<Rightarrow> theap \<Rightarrow> theap" where
  "bubble_up i e h =
    (if i = 0 then hp_put i e h
     else let p = parent i in
       if \<not> hp_less h e (hp_array h ! p) then hp_put i e h
       else bubble_up p e (hp_put i (hp_array h ! p) h))"
  by pat_completeness auto
termination by (relation "measure (\<lambda>(i, e, h). i)") (auto simp: parent_less)

declare bubble_up.simps [simp del]

text \<open>
  \<open>_bubble_down\<close>: the smaller child is moved up until none is earlier than \<open>e\<close>. The right child
  is read only when it exists, and the left one is the answer when it does not.
\<close>

definition min_child :: "nat \<Rightarrow> theap \<Rightarrow> nat" where
  "min_child i h =
    (let c = 2 * (i + 1) in
     if c \<ge> hp_size h \<or> hp_less h (hp_array h ! (c - 1)) (hp_array h ! c) then c - 1 else c)"

lemma hp_put_size [simp]: "hp_size (hp_put i e h) = hp_size h"
  by (simp add: hp_put_def hp_size_def set_satellite_def)

lemma min_child_gt: "i < min_child i h"
  by (auto simp: min_child_def Let_def)

function bubble_down :: "nat \<Rightarrow> eptr \<Rightarrow> theap \<Rightarrow> theap" where
  "bubble_down i e h =
    (let m = min_child i h in
     if m \<ge> hp_size h \<or> \<not> hp_less h (hp_array h ! m) e then hp_put i e h
     else bubble_down m e (hp_put i (hp_array h ! m) h))"
  by pat_completeness auto
termination
  by (relation "measure (\<lambda>(i, e, h). hp_size h - i)") (auto intro!: diff_less_mono2 intro: min_child_gt order.strict_trans1[OF order.strict_implies_order] simp: not_le)

declare bubble_down.simps [simp del]

definition hp_pop_back :: "theap \<Rightarrow> theap" where
  "hp_pop_back h = h\<lparr>hp_array := butlast (hp_array h)\<rparr>"

definition hp_insert :: "eptr \<Rightarrow> theap \<Rightarrow> theap" where
  "hp_insert e h =
    (if satellite (hp_timer h e) \<noteq> -1 then h
     else let h1 = h\<lparr>hp_array := hp_array h @ [e]\<rparr> in bubble_up (hp_size h1 - 1) e h1)"

definition hp_remove :: "eptr \<Rightarrow> theap \<Rightarrow> theap" where
  "hp_remove e h =
    (if satellite (hp_timer h e) = -1 then h
     else let last = last (hp_array h); s = nat (satellite (hp_timer h e)); h1 = hp_pop_back h in
       set_satellite e (-1)
         (if s \<noteq> 0 \<and> hp_less h1 last (hp_array h1 ! parent s)
          then bubble_up s last h1 else bubble_down s last h1))"

definition hp_pop :: "theap \<Rightarrow> eptr option \<times> theap" where
  "hp_pop h =
    (if hp_size h = 0 then (None, h)
     else let e = hp_array h ! 0; last = last (hp_array h) in
       (Some e, set_satellite e (-1) (bubble_down 0 last (hp_pop_back h))))"

section \<open>The invariant\<close>

definition ordered :: "(eptr \<Rightarrow> int) \<Rightarrow> eptr list \<Rightarrow> bool" where
  "ordered k xs = (\<forall>i < length xs. 0 < i \<longrightarrow> k (xs ! parent i) \<le> k (xs ! i))"

abbreviation key :: "theap \<Rightarrow> eptr \<Rightarrow> int" where
  "key h e \<equiv> timeout (hp_timer h e)"

text \<open>Every event's satellite is its index, and -1 outside the heap.\<close>

definition indexed :: "theap \<Rightarrow> bool" where
  "indexed h = (\<forall>i < hp_size h. satellite (hp_timer h (hp_array h ! i)) = int i)"

definition hp_inv :: "theap \<Rightarrow> bool" where
  "hp_inv h = (distinct (hp_array h) \<and> indexed h \<and> ordered (key h) (hp_array h) \<and>
     (\<forall>e. e \<notin> set (hp_array h) \<longrightarrow> satellite (hp_timer h e) = -1))"

text \<open>
  The state inside a sifting loop: the event \<open>e\<close> is about to be stored at the index \<open>i\<close>. With it
  stored there the array is \<open>xs\<close>, the satellites of the other entries are right, and the heap
  order can only fail between \<open>i\<close> and its parent (\<open>up_ok\<close>) or between \<open>i\<close> and its children
  (\<open>down_ok\<close>).
\<close>

definition hole :: "nat \<Rightarrow> eptr \<Rightarrow> theap \<Rightarrow> eptr list \<Rightarrow> bool" where
  "hole i e h xs = (i < hp_size h \<and> xs = (hp_array h)[i := e] \<and> distinct xs \<and>
     (\<forall>j < hp_size h. j \<noteq> i \<longrightarrow> satellite (hp_timer h (xs ! j)) = int j))"

definition up_ok :: "(eptr \<Rightarrow> int) \<Rightarrow> eptr list \<Rightarrow> nat \<Rightarrow> bool" where
  "up_ok k xs i = (\<forall>j < length xs. 0 < j \<longrightarrow>
     (j \<noteq> i \<longrightarrow> k (xs ! parent j) \<le> k (xs ! j)) \<and>
     (parent j = i \<longrightarrow> 0 < i \<longrightarrow> k (xs ! parent i) \<le> k (xs ! j)))"

definition down_ok :: "(eptr \<Rightarrow> int) \<Rightarrow> eptr list \<Rightarrow> nat \<Rightarrow> bool" where
  "down_ok k xs i = (\<forall>j < length xs. 0 < j \<longrightarrow>
     (parent j \<noteq> i \<longrightarrow> k (xs ! parent j) \<le> k (xs ! j)) \<and>
     (parent j = i \<longrightarrow> 0 < i \<longrightarrow> k (xs ! parent i) \<le> k (xs ! j)))"

text \<open>What sifting leaves: an ordered permutation with right indices; no other timer changes.\<close>

definition sifted :: "theap \<Rightarrow> eptr list \<Rightarrow> theap \<Rightarrow> bool" where
  "sifted h xs h' = (mset (hp_array h') = mset xs \<and> indexed h' \<and> ordered (key h) (hp_array h') \<and>
     (\<forall>x. timeout (hp_timer h' x) = timeout (hp_timer h x) \<and>
          duration (hp_timer h' x) = duration (hp_timer h x)) \<and>
     (\<forall>x. x \<notin> set xs \<longrightarrow> hp_timer h' x = hp_timer h x))"

lemma set_satellite_simps [simp]:
  "hp_array (set_satellite e s h) = hp_array h"
  "hp_size (set_satellite e s h) = hp_size h"
  "timeout (hp_timer (set_satellite e s h) x) = timeout (hp_timer h x)"
  "duration (hp_timer (set_satellite e s h) x) = duration (hp_timer h x)"
  "satellite (hp_timer (set_satellite e s h) x) = (if x = e then s else satellite (hp_timer h x))"
  "x \<noteq> e \<Longrightarrow> hp_timer (set_satellite e s h) x = hp_timer h x"
  by (auto simp: set_satellite_def hp_size_def)

lemma hp_put_simps [simp]:
  "hp_array (hp_put i e h) = (hp_array h)[i := e]"
  "timeout (hp_timer (hp_put i e h) x) = timeout (hp_timer h x)"
  "duration (hp_timer (hp_put i e h) x) = duration (hp_timer h x)"
  "satellite (hp_timer (hp_put i e h) x) = (if x = e then int i else satellite (hp_timer h x))"
  "x \<noteq> e \<Longrightarrow> hp_timer (hp_put i e h) x = hp_timer h x"
  "hp_less (hp_put i e h) = hp_less h"
  by (auto simp: hp_put_def hp_size_def hp_less_def fun_eq_iff)

lemma sifted_put:
  assumes "hole i e h xs" "ordered (key h) xs"
  shows "sifted h xs (hp_put i e h)"
proof -
  have "satellite (hp_timer (hp_put i e h) (xs ! j)) = int j" if "j < hp_size h" for j
  proof (cases "j = i")
    case True
    then show ?thesis using assms(1) by (simp add: hole_def hp_size_def)
  next
    case False
    then have "xs ! j \<noteq> xs ! i"
      using assms(1) that by (subst nth_eq_iff_index_eq) (auto simp: hole_def hp_size_def)
    then show ?thesis using assms(1) that False by (auto simp: hole_def hp_size_def)
  qed
  moreover have "e \<in> set xs" using assms(1) by (auto simp: hole_def hp_size_def set_update_memI)
  then have "hp_timer (hp_put i e h) x = hp_timer h x" if "x \<notin> set xs" for x
    using that by (metis hp_put_simps(5))
  moreover have "xs = hp_array (hp_put i e h)" using assms(1) by (simp add: hole_def)
  ultimately show ?thesis
    using assms(2) by (auto simp: sifted_def indexed_def simp del: hp_put_simps(4,5))
qed

lemma hole_step:
  assumes "hole i e h xs" "p < hp_size h" "p \<noteq> i"
  shows "hole p e (hp_put i (hp_array h ! p) h) (xs[i := xs ! p, p := xs ! i])"
proof -
  let ?ys = "xs[i := xs ! p, p := xs ! i]"
  have xs: "xs = (hp_array h)[i := e]" "i < length xs" "p < length xs" "distinct xs"
    "length xs = hp_size h"
    using assms by (auto simp: hole_def hp_size_def)
  then have p: "hp_array h ! p = xs ! p" and e: "xs ! i = e" using assms(3) by (auto simp: hp_size_def)
  have "satellite (hp_timer (hp_put i (xs ! p) h) (?ys ! j)) = int j" if j: "j < hp_size h" "j \<noteq> p" for j
  proof (cases "j = i")
    case True
    then show ?thesis using xs assms(3) j by simp
  next
    case False
    have "xs ! j \<noteq> xs ! p" using xs(3,4,5) j by (subst nth_eq_iff_index_eq) auto
    moreover have "satellite (hp_timer h (xs ! j)) = int j"
      using False j assms(1) unfolding hole_def by blast
    ultimately show ?thesis using False j(2) by simp
  qed
  moreover have "distinct ?ys" using distinct_swap[OF xs(2,3)] xs(4) by blast
  moreover have "?ys = ((hp_array h)[i := xs ! p])[p := e]" using xs e by (simp add: list_update_swap)
  ultimately show ?thesis
    unfolding hole_def p hp_put_size hp_put_simps(1) using assms(2) by blast
qed

lemma sifted_trans:
  assumes "sifted (hp_put i p h) ys h'" "mset ys = mset xs" "p \<in> set xs"
  shows "sifted h xs h'"
proof -
  have ys: "set ys = set xs" using assms(2) by (metis set_mset_mset)
  have "hp_timer (hp_put i p h) x = hp_timer h x" if "x \<notin> set xs" for x
    using that assms(3) by (metis hp_put_simps(5))
  then show ?thesis using assms(1,2) ys by (simp add: sifted_def)
qed

lemma up_ok_step:
  assumes "up_ok k xs i" "i < length xs" "0 < i" and lt: "k (xs ! i) < k (xs ! parent i)"
  shows "up_ok k (xs[i := xs ! (parent i), parent i := xs ! i]) (parent i)"
    (is "up_ok k ?ys ?p")
  unfolding up_ok_def
proof (intro allI impI conjI)
  have p: "?p < i" "?p < length xs" using assms(2) parent_less[OF assms(3)] by auto
  have up: "k (xs ! parent j) \<le> k (xs ! j)" if "j < length xs" "0 < j" "j \<noteq> i" for j
    using assms(1) that by (simp add: up_ok_def)
  have below: "k (xs ! ?p) \<le> k (xs ! j)" if "j < length xs" "0 < j" "parent j = i" for j
    using assms(1,3) that by (simp add: up_ok_def)
  have nth: "?ys ! j = (if j = ?p then xs ! i else if j = i then xs ! ?p else xs ! j)"
    if "j < length xs" for j
    using that p assms(2) by (auto simp: nth_list_update)
  fix j assume "j < length ?ys" and j0: "0 < j"
  then have j: "j < length xs" by simp
  have q: "parent j < length xs" using j by simp
  { assume jp: "j \<noteq> ?p"
    have "parent j \<noteq> j" using parent_less[OF j0] by simp
    moreover have "k (xs ! i) \<le> k (xs ! j)" if "parent j = ?p" "j \<noteq> i"
      using up[OF j j0 that(2)] that(1) lt by simp
    ultimately show "k (?ys ! parent j) \<le> k (?ys ! j)"
      unfolding nth[OF j] nth[OF q] using jp up[OF j j0] below[OF j j0] lt by auto }
  { assume jp: "parent j = ?p" and p0: "0 < ?p"
    have "k (xs ! parent ?p) \<le> k (xs ! ?p)" using up[of ?p] p p0 by simp
    moreover have "j \<noteq> ?p" "parent ?p \<noteq> ?p" "parent ?p \<noteq> i" "parent ?p < length xs"
      using jp parent_less[OF j0] parent_less[OF p0] p by auto
    moreover have "k (xs ! ?p) \<le> k (xs ! j)" if "j \<noteq> i" using up[OF j j0 that] jp by simp
    ultimately show "k (?ys ! parent ?p) \<le> k (?ys ! j)"
      unfolding nth[OF j] by (subst nth) (auto intro: order_trans) }
qed

lemma bubble_up_sifted:
  "hole i e h xs \<Longrightarrow> up_ok (key h) xs i \<Longrightarrow> sifted h xs (bubble_up i e h)"
proof (induction i e h arbitrary: xs rule: bubble_up.induct)
  case (1 i e h)
  let ?p = "parent i"
  have xs: "xs ! i = e" "i < length xs" "length xs = hp_size h" "?p < length xs"
    "?p \<noteq> i \<Longrightarrow> hp_array h ! ?p = xs ! ?p"
    using 1(2) by (auto simp: hole_def hp_size_def)
  show ?case
  proof (cases "i = 0 \<or> \<not> hp_less h e (hp_array h ! ?p)")
    case True
    have "ordered (key h) xs"
      using 1(3) True xs by (fastforce simp: ordered_def up_ok_def hp_less_def)
    then have "sifted h xs (hp_put i e h)" using 1(2) by (rule sifted_put[rotated])
    then show ?thesis using True by (subst bubble_up.simps) (auto simp: Let_def)
  next
    case False
    then have ip: "i \<noteq> 0" "?p \<noteq> i" "?p < i" and lt: "key h e < key h (xs ! ?p)"
      using xs(5) parent_less[of i] by (auto simp: hp_less_def)
    let ?ys = "xs[i := xs ! ?p, ?p := xs ! i]"
    have "up_ok (key h) ?ys ?p" using up_ok_step[OF 1(3)] xs ip lt by simp
    moreover have "hole ?p e (hp_put i (hp_array h ! ?p) h) ?ys"
      by (rule hole_step[OF 1(2)]) (use ip xs in auto)
    ultimately have "sifted (hp_put i (hp_array h ! ?p) h) ?ys
        (bubble_up ?p e (hp_put i (hp_array h ! ?p) h))"
      using 1(1)[OF ip(1) refl] False by simp
    moreover have "mset ?ys = mset xs" by (intro mset_swap) (use xs in auto)
    ultimately have "sifted h xs (bubble_up ?p e (hp_put i (hp_array h ! ?p) h))"
      by (rule sifted_trans) (use xs ip in simp)
    then show ?thesis using False by (subst bubble_up.simps) (simp add: Let_def)
  qed
qed

text \<open>The children of \<open>i\<close> are at \<open>2 i + 1\<close> and \<open>2 i + 2\<close>.\<close>

lemma parent_eq_iff: "0 < j \<Longrightarrow> parent j = i \<longleftrightarrow> j = 2 * i + 1 \<or> j = 2 * i + 2"
  by (auto simp: parent_def)

lemma min_child_parent [simp]: "parent (min_child i h) = i"
  by (auto simp: parent_def min_child_def Let_def)

lemma min_child_pos [simp]: "0 < min_child i h"
  using min_child_gt[of i h] by simp

text \<open>The entry read as the smaller child is one, or there is none.\<close>

lemma min_child_least:
  assumes "j < hp_size h" "0 < j" "parent j = i"
  shows "min_child i h < hp_size h \<and> key h (hp_array h ! min_child i h) \<le> key h (hp_array h ! j)"
  using assms by (auto simp: parent_eq_iff min_child_def Let_def hp_less_def)

lemma down_ok_step:
  assumes "down_ok k xs i" "parent m = i" "0 < m" "m < length xs" and lt: "k (xs ! m) < k (xs ! i)"
    and least: "\<And>j. j < length xs \<Longrightarrow> 0 < j \<Longrightarrow> parent j = i \<Longrightarrow> k (xs ! m) \<le> k (xs ! j)"
  shows "down_ok k (xs[i := xs ! m, m := xs ! i]) m" (is "down_ok k ?ys m")
  unfolding down_ok_def
proof (intro allI impI conjI)
  have im: "i < m" "i < length xs" using parent_less[OF assms(3)] assms(2,4) by auto
  have edge: "k (xs ! parent j) \<le> k (xs ! j)" if "j < length xs" "0 < j" "parent j \<noteq> i" for j
    using assms(1) that by (simp add: down_ok_def)
  have above: "k (xs ! parent i) \<le> k (xs ! j)" if "j < length xs" "0 < j" "parent j = i" "0 < i" for j
    using assms(1) that by (simp add: down_ok_def)
  have nth: "?ys ! j = (if j = m then xs ! i else if j = i then xs ! m else xs ! j)"
    if "j < length xs" for j
    using that im assms(4) by (auto simp: nth_list_update)
  fix j assume "j < length ?ys" and j0: "0 < j"
  then have j: "j < length xs" by simp
  then have q: "parent j < length xs" by simp
  have pj: "parent j \<noteq> j" using parent_less[OF j0] by simp
  { assume jm: "parent j \<noteq> m"
    show "k (?ys ! parent j) \<le> k (?ys ! j)"
      unfolding nth[OF j] nth[OF q]
      using jm pj j0 edge[OF j j0] above[OF assms(4,3,2)] least[OF j j0] lt assms(2) by auto }
  { assume jm: "parent j = m" and "0 < m"
    have "j \<noteq> i" "j \<noteq> m" using jm im parent_less[OF j0] by auto
    then show "k (?ys ! parent m) \<le> k (?ys ! j)"
      unfolding nth[OF j] assms(2) nth[OF im(2)] using edge[OF j j0] jm im by auto }
qed

lemma bubble_down_sifted:
  "hole i e h xs \<Longrightarrow> down_ok (key h) xs i \<Longrightarrow> sifted h xs (bubble_down i e h)"
proof (induction i e h arbitrary: xs rule: bubble_down.induct)
  case (1 i e h)
  let ?m = "min_child i h"
  have xs: "xs ! i = e" "i < length xs" "length xs = hp_size h"
    "\<And>j. j \<noteq> i \<Longrightarrow> hp_array h ! j = xs ! j"
    using 1(2) by (auto simp: hole_def hp_size_def)
  have child: "?m < length xs" "key h (hp_array h ! ?m) \<le> key h (xs ! j)"
    if "j < length xs" "0 < j" "parent j = i" for j
    using min_child_least[of j h i] that xs(3) xs(4)[of j] parent_less[of j] by auto
  show ?case
  proof (cases "?m \<ge> hp_size h \<or> \<not> hp_less h (hp_array h ! ?m) e")
    case True
    have "key h (xs ! parent j) \<le> key h (xs ! j)" if j: "j < length xs" "0 < j" for j
    proof (cases "parent j = i")
      case eq: True
      then show ?thesis using True child[OF j eq] xs by (auto simp: hp_less_def)
    next
      case False
      then show ?thesis using 1(3) j by (simp add: down_ok_def)
    qed
    then have "ordered (key h) xs" by (simp add: ordered_def parent_def)
    then have "sifted h xs (hp_put i e h)" using 1(2) by (rule sifted_put[rotated])
    then show ?thesis using True by (subst bubble_down.simps) (auto simp: Let_def)
  next
    case False
    have im: "?m \<noteq> i" "?m < length xs" "?m < hp_size h" and lt: "key h (xs ! ?m) < key h (xs ! i)"
      and m: "hp_array h ! ?m = xs ! ?m"
      using False xs min_child_gt[of i h] by (auto simp: hp_less_def)
    let ?ys = "xs[i := xs ! ?m, ?m := xs ! i]"
    have "down_ok (key h) ?ys ?m"
      using down_ok_step[OF 1(3), of ?m] child lt im m by simp
    moreover have "hole ?m e (hp_put i (hp_array h ! ?m) h) ?ys"
      using hole_step[OF 1(2) im(3,1)] .
    ultimately have "sifted (hp_put i (hp_array h ! ?m) h) ?ys
        (bubble_down ?m e (hp_put i (hp_array h ! ?m) h))"
      using 1(1)[OF refl] False by simp
    moreover have "mset ?ys = mset xs" by (intro mset_swap) (use xs im in auto)
    ultimately have "sifted h xs (bubble_down ?m e (hp_put i (hp_array h ! ?m) h))"
      by (rule sifted_trans) (use im m in simp)
    then show ?thesis using False by (subst bubble_down.simps) (simp add: Let_def)
  qed
qed

section \<open>The operations\<close>

lemma hp_empty_inv: "hp_inv \<lparr>hp_array = [], hp_timer = t\<rparr> \<longleftrightarrow> (\<forall>e. satellite (t e) = -1)"
  by (simp add: hp_inv_def indexed_def ordered_def hp_size_def)

lemma hp_inv_satellite:
  "hp_inv h \<Longrightarrow> satellite (hp_timer h e) = -1 \<longleftrightarrow> e \<notin> set (hp_array h)"
  by (fastforce simp: hp_inv_def indexed_def hp_size_def in_set_conv_nth)

lemma hp_inv_index:
  assumes "hp_inv h" "e \<in> set (hp_array h)"
  obtains i where "i < hp_size h" "hp_array h ! i = e" "satellite (hp_timer h e) = int i"
  using assms by (auto simp: hp_inv_def indexed_def hp_size_def in_set_conv_nth)

lemma ordered_root:
  assumes "ordered k xs" "i < length xs"
  shows "k (xs ! 0) \<le> k (xs ! i)"
  using assms(2)
proof (induction i rule: less_induct)
  case (less i)
  show ?case
  proof (cases "i = 0")
    case False
    then have "k (xs ! 0) \<le> k (xs ! parent i)" using less by (simp add: parent_less)
    also have "\<dots> \<le> k (xs ! i)" using assms(1) less.prems False by (simp add: ordered_def)
    finally show ?thesis .
  qed simp
qed

lemma ordered_cong: "(\<And>x. k x = k' x) \<Longrightarrow> ordered k xs = ordered k' xs"
  by (simp add: ordered_def)

lemma sifted_inv:
  assumes "sifted h xs h'" "distinct xs" "\<And>x. x \<notin> set xs \<Longrightarrow> satellite (hp_timer h x) = -1"
  shows "hp_inv h' \<and> set (hp_array h') = set xs"
proof -
  have m: "mset (hp_array h') = mset xs" using assms(1) by (simp add: sifted_def)
  then have "distinct (hp_array h')" "set (hp_array h') = set xs"
    using assms(2) mset_eq_imp_distinct_iff by (blast, metis set_mset_mset)
  moreover have "ordered (key h') (hp_array h')"
    using assms(1) by (subst ordered_cong[where k' = "key h"]) (auto simp: sifted_def)
  ultimately show ?thesis using assms(1,3) by (simp add: hp_inv_def sifted_def)
qed

lemma sifted_remove:
  assumes "sifted h xs h'" "distinct xs" "e \<notin> set xs"
    "\<And>x. x \<notin> set xs \<Longrightarrow> x \<noteq> e \<Longrightarrow> satellite (hp_timer h x) = -1"
  shows "hp_inv (set_satellite e (-1) h') \<and> set (hp_array (set_satellite e (-1) h')) = set xs"
proof -
  have "sifted (set_satellite e (-1) h) xs (set_satellite e (-1) h')"
  proof -
    have m: "mset (hp_array h') = mset xs" using assms(1) by (simp add: sifted_def)
    then have "set (hp_array h') = set xs" by (metis set_mset_mset)
    then have "indexed (set_satellite e (-1) h')"
      using assms(1,3) by (auto simp: sifted_def indexed_def hp_size_def)
    moreover have "hp_timer (set_satellite e (-1) h') x = hp_timer (set_satellite e (-1) h) x"
      if "x \<notin> set xs" for x
      using assms(1) that by (simp add: sifted_def set_satellite_def)
    moreover have "ordered (key (set_satellite e (-1) h)) (hp_array h')"
      using assms(1) by (subst ordered_cong[where k' = "key h"]) (auto simp: sifted_def)
    ultimately show ?thesis using assms(1) by (auto simp: sifted_def)
  qed
  then show ?thesis by (rule sifted_inv) (use assms in auto)
qed

abbreviation same_times :: "theap \<Rightarrow> theap \<Rightarrow> bool" where
  "same_times h h' \<equiv> (\<forall>x. timeout (hp_timer h' x) = timeout (hp_timer h x) \<and>
     duration (hp_timer h' x) = duration (hp_timer h x))"

lemma hp_insert_correct:
  assumes "hp_inv h"
  shows "hp_inv (hp_insert e h) \<and> set (hp_array (hp_insert e h)) = insert e (set (hp_array h)) \<and>
    same_times h (hp_insert e h)"
proof (cases "e \<in> set (hp_array h)")
  case True
  then show ?thesis using assms hp_inv_satellite[OF assms, of e] by (auto simp: hp_insert_def)
next
  case False
  let ?h = "h\<lparr>hp_array := hp_array h @ [e]\<rparr>" and ?xs = "hp_array h @ [e]"
  have new: "hp_insert e h = bubble_up (hp_size ?h - 1) e ?h"
    using False hp_inv_satellite[OF assms, of e] by (simp add: hp_insert_def Let_def)
  have "hole (hp_size ?h - 1) e ?h ?xs"
    using assms False by (auto simp: hole_def hp_size_def hp_inv_def indexed_def nth_append)
  moreover have "up_ok (key ?h) ?xs (hp_size ?h - 1)"
  proof -
    have "parent j \<noteq> length (hp_array h)" if "j < Suc (length (hp_array h))" "0 < j" for j
      using parent_less[OF that(2)] that(1) by simp
    moreover have "parent j < length (hp_array h)" if "j < length (hp_array h)" for j
      using that by simp
    ultimately show ?thesis
      using assms by (auto simp: up_ok_def hp_size_def hp_inv_def ordered_def nth_append less_Suc_eq)
  qed
  ultimately have "sifted ?h ?xs (hp_insert e h)" using new bubble_up_sifted by metis
  moreover have "hp_inv (hp_insert e h) \<and> set (hp_array (hp_insert e h)) = set ?xs"
    by (rule sifted_inv[OF calculation]) (use assms False in \<open>auto simp: hp_inv_def\<close>)
  ultimately show ?thesis by (auto simp: sifted_def)
qed

lemma nth_butlast_update:
  "i < length xs - 1 \<Longrightarrow> distinct xs \<Longrightarrow>
    set ((butlast xs)[i := last xs]) = set xs - {xs ! i} \<and> distinct ((butlast xs)[i := last xs])"
  by (cases xs rule: rev_cases) (auto simp: set_update_distinct distinct_list_update nth_append)

text \<open>
  Removing the entry at the index \<open>i\<close>: the last event is sifted from there, unless it is the
  entry itself; then nothing is left to order.
\<close>

definition fill :: "nat \<Rightarrow> theap \<Rightarrow> theap \<Rightarrow> bool" where
  "fill i h h' = (h' = bubble_up i (last (hp_array h)) (hp_pop_back h) \<and>
       i \<noteq> 0 \<and> key h (last (hp_array h)) < key h (hp_array (hp_pop_back h) ! parent i) \<or>
     h' = bubble_down i (last (hp_array h)) (hp_pop_back h) \<and>
       (i = 0 \<or> \<not> key h (last (hp_array h)) < key h (hp_array (hp_pop_back h) ! parent i)))"

lemma bubble_down_past_end:
  assumes "hp_size h \<le> i"
  shows "bubble_down i e h = set_satellite e (int i) h"
proof -
  have "hp_size h \<le> min_child i h" using assms min_child_gt[of i h] by simp
  then show ?thesis
    using assms by (cases h) (subst bubble_down.simps, simp add: Let_def hp_put_def hp_size_def list_update_beyond)
qed

lemma fill_last:
  assumes last: "i = hp_size h - 1"
    and inv: "hp_inv h" and i: "i < hp_size h" and f: "fill i h h'"
  shows "hp_inv (set_satellite (hp_array h ! i) (-1) h') \<and>
    set (hp_array (set_satellite (hp_array h ! i) (-1) h')) = set (hp_array h) - {hp_array h ! i} \<and>
    same_times h h'"
proof -
  let ?l = "last (hp_array h)"
  have arr: "hp_array h = butlast (hp_array h) @ [?l]" and l: "hp_array h ! i = ?l"
    using i last by (cases "hp_array h" rule: rev_cases; simp add: hp_size_def)+
  have ord: "ordered (key h) (hp_array h)" and dist: "distinct (hp_array h)"
    using inv by (auto simp: hp_inv_def)
  have sz: "hp_size (hp_pop_back h) = i" using last by (simp add: hp_pop_back_def hp_size_def)
  have "key h (hp_array (hp_pop_back h) ! parent i) \<le> key h ?l" if "i \<noteq> 0"
  proof -
    have "key h (hp_array h ! parent i) \<le> key h (hp_array h ! i)"
      using ord i that by (simp add: ordered_def hp_size_def)
    moreover have "hp_array h ! parent i = butlast (hp_array h) ! parent i"
      using that last parent_less[of i] by (subst arr) (simp add: nth_append hp_size_def)
    ultimately show ?thesis using l by (simp add: hp_pop_back_def)
  qed
  then have "h' = bubble_down i ?l (hp_pop_back h)" using f by (fastforce simp: fill_def)
  then have h': "h' = set_satellite ?l (int i) (hp_pop_back h)" using sz by (simp add: bubble_down_past_end)
  have set_eq: "set (butlast (hp_array h)) = set (hp_array h) - {?l}" "distinct (butlast (hp_array h))"
    using dist i by (cases "hp_array h" rule: rev_cases; simp add: hp_size_def)+
  have nth: "butlast (hp_array h) ! j = hp_array h ! j" if "j < hp_size h - 1" for j
    using that by (simp add: nth_butlast hp_size_def)
  have "hp_inv (set_satellite ?l (-1) h')"
    unfolding hp_inv_def
  proof (intro conjI)
    have ne: "hp_array h ! j \<noteq> ?l" if "j < hp_size h - 1" for j
      unfolding l [symmetric] using that i last dist
      by (subst nth_eq_iff_index_eq) (auto simp: hp_size_def)
    show "indexed (set_satellite ?l (-1) h')"
      using inv ne nth by (auto simp: h' indexed_def hp_inv_def hp_pop_back_def hp_size_def)
    show "ordered (key (set_satellite ?l (-1) h')) (hp_array (set_satellite ?l (-1) h'))"
      using ord nth by (auto simp: h' ordered_def hp_pop_back_def hp_size_def)
    show "\<forall>e. e \<notin> set (hp_array (set_satellite ?l (-1) h')) \<longrightarrow>
        satellite (hp_timer (set_satellite ?l (-1) h') e) = -1"
      using inv set_eq by (auto simp: h' hp_pop_back_def hp_inv_def)
  qed (use set_eq h' in \<open>simp add: hp_pop_back_def\<close>)
  then show ?thesis using l set_eq by (simp add: h' hp_pop_back_def)
qed

lemma fill_inner:
  assumes less: "i < hp_size h - 1"
    and inv: "hp_inv h" and i: "i < hp_size h" and f: "fill i h h'"
  shows "hp_inv (set_satellite (hp_array h ! i) (-1) h') \<and>
    set (hp_array (set_satellite (hp_array h ! i) (-1) h')) = set (hp_array h) - {hp_array h ! i} \<and>
    same_times h h'"
proof -
  let ?l = "last (hp_array h)" and ?xs = "(butlast (hp_array h))[i := last (hp_array h)]"
  have ord: "ordered (key h) (hp_array h)" and dist: "distinct (hp_array h)" and ind: "indexed h"
    using inv by (auto simp: hp_inv_def)
  have xs: "set ?xs = set (hp_array h) - {hp_array h ! i}" "distinct ?xs"
    using nth_butlast_update[of i "hp_array h"] less dist by (auto simp: hp_size_def)
  have nth: "?xs ! j = hp_array h ! j" if "j < hp_size h - 1" "j \<noteq> i" for j
    using that by (simp add: nth_butlast hp_size_def)
  have hole: "hole i ?l (hp_pop_back h) ?xs"
    using less xs(2) nth ind by (auto simp: hole_def hp_pop_back_def hp_size_def indexed_def)
  have edge: "key h (hp_array h ! parent j) \<le> key h (hp_array h ! j)" if "j < hp_size h" "0 < j" for j
    using ord that by (simp add: ordered_def hp_size_def)
  have k: "key (hp_pop_back h) = key h" by (simp add: hp_pop_back_def)
  have xi: "?xs ! i = ?l" using less by (simp add: hp_size_def)
  have pi: "?xs ! parent i = hp_array h ! parent i" if "0 < i"
    using that less parent_less[OF that] by (intro nth) auto
  have bp: "hp_array (hp_pop_back h) ! parent i = hp_array h ! parent i" if "0 < i"
    using that less by (simp add: hp_pop_back_def nth_butlast hp_size_def)
  have below: "key h (hp_array h ! parent i) \<le> key h (hp_array h ! i)" if "0 < i"
    using edge[of i] i that by simp
  have rest: "key h (?xs ! parent j) \<le> key h (?xs ! j)"
    if "j < hp_size h - 1" "0 < j" "j \<noteq> i" "parent j \<noteq> i" for j
    using edge[of j] that nth[of j] nth[of "parent j"] by (simp add: parent_less)
  have child: "key h (hp_array h ! i) \<le> key h (?xs ! j)" "?xs ! j = hp_array h ! j"
    if "j < hp_size h - 1" "0 < j" "parent j = i" for j
    using edge[of j] that nth[of j] parent_less[of j] by auto
  have sifted: "sifted (hp_pop_back h) ?xs h'"
  proof (cases "i \<noteq> 0 \<and> key h ?l < key h (hp_array h ! parent i)")
    case True
    then have h': "h' = bubble_up i ?l (hp_pop_back h)" using f bp by (auto simp: fill_def)
    have "key h (?xs ! parent j) \<le> key h (?xs ! j)" if "j < hp_size h - 1" "0 < j" "j \<noteq> i" for j
      using rest[OF that] child(1)[of j] that True below xi by fastforce
    moreover have "key h (?xs ! parent i) \<le> key h (?xs ! j)"
      if "j < hp_size h - 1" "0 < j" "parent j = i" "0 < i" for j
      using child(1)[of j] that below pi by fastforce
    ultimately have "up_ok (key (hp_pop_back h)) ?xs i"
      unfolding up_ok_def k by (simp add: hp_size_def)
    then show ?thesis unfolding h' by (rule bubble_up_sifted[OF hole])
  next
    case False
    then have h': "h' = bubble_down i ?l (hp_pop_back h)" using f bp by (auto simp: fill_def)
    have "key h (?xs ! parent j) \<le> key h (?xs ! j)" if "j < hp_size h - 1" "0 < j" "parent j \<noteq> i" for j
      using rest[OF that(1,2) _ that(3)] that False xi pi by (cases "j = i") auto
    moreover have "key h (?xs ! parent i) \<le> key h (?xs ! j)"
      if "j < hp_size h - 1" "0 < j" "parent j = i" "0 < i" for j
      using child(1)[of j] that below pi by fastforce
    ultimately have "down_ok (key (hp_pop_back h)) ?xs i"
      unfolding down_ok_def k by (simp add: hp_size_def)
    then show ?thesis unfolding h' by (rule bubble_down_sifted[OF hole])
  qed
  then have "hp_inv (set_satellite (hp_array h ! i) (-1) h') \<and>
      set (hp_array (set_satellite (hp_array h ! i) (-1) h')) = set ?xs"
    by (rule sifted_remove) (use xs inv in \<open>auto simp: hp_pop_back_def hp_inv_def\<close>)
  then show ?thesis using xs sifted by (auto simp: sifted_def hp_pop_back_def)
qed

lemma fill_correct:
  assumes inv: "hp_inv h" and i: "i < hp_size h" and f: "fill i h h'"
  shows "hp_inv (set_satellite (hp_array h ! i) (-1) h') \<and>
    set (hp_array (set_satellite (hp_array h ! i) (-1) h')) = set (hp_array h) - {hp_array h ! i} \<and>
    same_times h h'"
  using fill_last[OF _ assms] fill_inner[OF _ assms] i by (cases "i = hp_size h - 1") auto

lemma same_times_satellite [simp]: "same_times h (set_satellite e s h') = same_times h h'"
  by simp

lemma hp_remove_correct:
  assumes inv: "hp_inv h"
  shows "hp_inv (hp_remove e h) \<and> set (hp_array (hp_remove e h)) = set (hp_array h) - {e} \<and>
    same_times h (hp_remove e h)"
proof (cases "e \<in> set (hp_array h)")
  case False
  then show ?thesis using inv hp_inv_satellite[OF inv, of e] by (simp add: hp_remove_def)
next
  case True
  then obtain i where i: "i < hp_size h" "hp_array h ! i = e" "satellite (hp_timer h e) = int i"
    by (rule hp_inv_index[OF inv])
  let ?l = "last (hp_array h)" and ?h1 = "hp_pop_back h"
  define h' where "h' = (if i \<noteq> 0 \<and> hp_less ?h1 ?l (hp_array ?h1 ! parent i)
    then bubble_up i ?l ?h1 else bubble_down i ?l ?h1)"
  have h': "fill i h h'" "hp_remove e h = set_satellite e (-1) h'"
    using i by (simp_all add: hp_remove_def fill_def Let_def h'_def)
      (auto simp: hp_less_def hp_pop_back_def)
  then show ?thesis using fill_correct[OF inv i(1) h'(1)] i(2) by simp
qed

lemma hp_pop_correct:
  assumes inv: "hp_inv h" and ne: "hp_array h \<noteq> []"
  shows "\<exists>e h'. hp_pop h = (Some e, h') \<and> e \<in> set (hp_array h) \<and>
    (\<forall>x \<in> set (hp_array h). key h e \<le> key h x) \<and>
    hp_inv h' \<and> set (hp_array h') = set (hp_array h) - {e} \<and> same_times h h'"
proof -
  let ?e = "hp_array h ! 0" and ?h = "bubble_down 0 (last (hp_array h)) (hp_pop_back h)"
  have "fill 0 h ?h" by (simp add: fill_def)
  moreover have "0 < hp_size h" using ne by (simp add: hp_size_def)
  ultimately have "hp_inv (set_satellite ?e (-1) ?h) \<and>
      set (hp_array (set_satellite ?e (-1) ?h)) = set (hp_array h) - {?e} \<and> same_times h ?h"
    using fill_correct[OF inv] by blast
  moreover have "hp_pop h = (Some ?e, set_satellite ?e (-1) ?h)"
    using ne by (simp add: hp_pop_def Let_def hp_size_def)
  moreover have "key h ?e \<le> key h x" if "x \<in> set (hp_array h)" for x
    using that ordered_root[of "key h" "hp_array h"] inv by (auto simp: hp_inv_def in_set_conv_nth)
  ultimately show ?thesis using ne by simp
qed

lemma fold_set_satellite:
  "hp_timer (fold (\<lambda>e. set_satellite e s) es h) x =
     (if x \<in> set es then (hp_timer h x)\<lparr>satellite := s\<rparr> else hp_timer h x)"
  by (induction es arbitrary: h) (auto simp: set_satellite_def)

lemma hp_clear_correct:
  assumes "hp_inv h"
  shows "hp_inv (hp_clear h) \<and> hp_array (hp_clear h) = [] \<and> same_times h (hp_clear h)"
  using assms by (auto simp: hp_clear_def hp_inv_def indexed_def ordered_def hp_size_def fold_set_satellite)

text \<open>\<open>pop\<close> on a heap of one event stores it behind the end of the array it has just emptied.\<close>

lemma pop_past_the_end:
  assumes "hp_size h = 1"
  shows "hp_size (hp_pop_back h) = 0 \<and>
    bubble_down 0 (last (hp_array h)) (hp_pop_back h) =
      set_satellite (last (hp_array h)) 0 (hp_pop_back h)"
  using assms bubble_down_past_end[of "hp_pop_back h" 0] by (simp add: hp_pop_back_def hp_size_def)

section \<open>The interface of the reactor\<close>

text \<open>
  What the reactor relies on: a set of events with deadlines. Every operation keeps the
  representation invariant and the deadlines and acts on the set as its name says; \<open>top\<close> and
  \<open>pop\<close> give an event that no other one precedes.
\<close>

locale timer_queue =
  fixes q_inv :: "'q \<Rightarrow> bool"
    and q_set :: "'q \<Rightarrow> eptr set"
    and q_time :: "'q \<Rightarrow> eptr \<Rightarrow> int"
    and q_insert :: "eptr \<Rightarrow> 'q \<Rightarrow> 'q"
    and q_remove :: "eptr \<Rightarrow> 'q \<Rightarrow> 'q"
    and q_top :: "'q \<Rightarrow> eptr option"
    and q_pop :: "'q \<Rightarrow> eptr option \<times> 'q"
  assumes finite_set: "finite (q_set q)"
    and insert_inv: "q_inv q \<Longrightarrow> q_inv (q_insert e q)"
    and insert_set: "q_inv q \<Longrightarrow> q_set (q_insert e q) = insert e (q_set q)"
    and insert_time: "q_inv q \<Longrightarrow> q_time (q_insert e q) = q_time q"
    and remove_inv: "q_inv q \<Longrightarrow> q_inv (q_remove e q)"
    and remove_set: "q_inv q \<Longrightarrow> q_set (q_remove e q) = q_set q - {e}"
    and remove_time: "q_inv q \<Longrightarrow> q_time (q_remove e q) = q_time q"
    and top_none: "q_inv q \<Longrightarrow> q_top q = None \<longleftrightarrow> q_set q = {}"
    and pop_top: "q_inv q \<Longrightarrow> fst (q_pop q) = q_top q"
    and pop_some: "q_inv q \<Longrightarrow> q_pop q = (Some e, q') \<Longrightarrow>
      e \<in> q_set q \<and> (\<forall>x \<in> q_set q. q_time q e \<le> q_time q x) \<and>
      q_inv q' \<and> q_set q' = q_set q - {e} \<and> q_time q' = q_time q"
begin

lemma top_least:
  assumes "q_inv q" "q_top q = Some e"
  shows "e \<in> q_set q" "\<And>x. x \<in> q_set q \<Longrightarrow> q_time q e \<le> q_time q x"
proof -
  obtain q' where "q_pop q = (Some e, q')" using pop_top[OF assms(1)] assms(2) by (metis fst_conv surj_pair)
  from pop_some[OF assms(1) this] show "e \<in> q_set q" "\<And>x. x \<in> q_set q \<Longrightarrow> q_time q e \<le> q_time q x"
    by auto
qed

text \<open>When the first deadline lies in the future, so do all.\<close>

lemma none_due:
  assumes "q_inv q" "q_top q = Some e" "now < q_time q e"
  shows "{x \<in> q_set q. q_time q x \<le> now} = {}"
  using top_least[OF assms(1,2)] assms(3) by force

text \<open>Taking the first due event leaves the others, and everything that is left is later.\<close>

lemma pop_due:
  assumes "q_inv q" "q_pop q = (Some e, q')" "q_time q e \<le> now"
  shows "{x \<in> q_set q. q_time q x \<le> now} = insert e {x \<in> q_set q'. q_time q' x \<le> now}"
    and "e \<notin> q_set q'" "card (q_set q') < card (q_set q)"
    and "\<And>x. x \<in> q_set q' \<Longrightarrow> q_time q e \<le> q_time q x"
  using pop_some[OF assms(1,2)] assms(3) card_Diff1_less[OF finite_set[of q], of e] by auto

lemma insert_pop_commute:
  assumes "q_inv q" "e \<notin> q_set q"
  shows "q_set (q_remove e (q_insert e q)) = q_set q" "q_inv (q_remove e (q_insert e q))"
  using assms by (simp_all add: remove_set remove_inv insert_set insert_inv)

end

definition hp_set :: "theap \<Rightarrow> eptr set" where
  "hp_set h = set (hp_array h)"

interpretation hq: timer_queue hp_inv hp_set key hp_insert hp_remove hp_top hp_pop
proof unfold_locales
  fix q e
  assume inv: "hp_inv q"
  show "hp_inv (hp_insert e q)" "hp_set (hp_insert e q) = insert e (hp_set q)"
    "key (hp_insert e q) = key q"
    using hp_insert_correct[OF inv, of e] by (auto simp: hp_set_def)
  show "hp_inv (hp_remove e q)" "hp_set (hp_remove e q) = hp_set q - {e}"
    "key (hp_remove e q) = key q"
    using hp_remove_correct[OF inv, of e] by (auto simp: hp_set_def)
next
  fix q assume "hp_inv q"
  show "hp_top q = None \<longleftrightarrow> hp_set q = {}" by (simp add: hp_top_def hp_empty_def hp_set_def)
  show "fst (hp_pop q) = hp_top q"
    by (simp add: hp_pop_def hp_top_def hp_empty_def hp_size_def Let_def)
next
  fix q e q' assume inv: "hp_inv q" and p: "hp_pop q = (Some e, q')"
  then have "hp_array q \<noteq> []" by (auto simp: hp_pop_def hp_size_def)
  from hp_pop_correct[OF inv this] p
  show "e \<in> hp_set q \<and> (\<forall>x \<in> hp_set q. key q e \<le> key q x) \<and>
      hp_inv q' \<and> hp_set q' = hp_set q - {e} \<and> key q' = key q"
    by (auto simp: hp_set_def)
qed (simp add: hp_set_def)

section \<open>Histories of the heap\<close>

datatype hop = Insert eptr | Remove eptr | Pop

definition hp_do :: "hop \<Rightarrow> theap \<Rightarrow> eptr option \<times> theap" where
  "hp_do o1 h = (case o1 of
     Insert e \<Rightarrow> (None, hp_insert e h)
   | Remove e \<Rightarrow> (None, hp_remove e h)
   | Pop \<Rightarrow> hp_pop h)"

fun hp_run :: "hop list \<Rightarrow> theap \<Rightarrow> eptr option list \<times> theap" where
  "hp_run [] h = ([], h)"
| "hp_run (o1 # ops) h = (let (x, h1) = hp_do o1 h; (xs, h2) = hp_run ops h1 in (x # xs, h2))"

text \<open>The specification: a set of events with fixed deadlines; ties are resolved arbitrarily.\<close>

inductive pq_step :: "(eptr \<Rightarrow> int) \<Rightarrow> eptr set \<Rightarrow> hop \<Rightarrow> eptr option \<Rightarrow> eptr set \<Rightarrow> bool"
  for k :: "eptr \<Rightarrow> int" where
  ins: "pq_step k S (Insert e) None (insert e S)"
| rem: "pq_step k S (Remove e) None (S - {e})"
| pop_none: "pq_step k {} Pop None {}"
| pop_some: "e \<in> S \<Longrightarrow> (\<And>x. x \<in> S \<Longrightarrow> k e \<le> k x) \<Longrightarrow> pq_step k S Pop (Some e) (S - {e})"

inductive_cases pq_popE: "pq_step k S Pop x S'"

inductive pq_run :: "(eptr \<Rightarrow> int) \<Rightarrow> eptr set \<Rightarrow> hop list \<Rightarrow> eptr option list \<Rightarrow> eptr set \<Rightarrow> bool"
  for k :: "eptr \<Rightarrow> int" where
  stop: "pq_run k S [] [] S"
| step: "pq_step k S o1 x T \<Longrightarrow> pq_run k T ops xs U \<Longrightarrow> pq_run k S (o1 # ops) (x # xs) U"

lemma hp_do_step:
  assumes "hp_inv h" "hp_do o1 h = (x, h')"
  shows "hp_inv h' \<and> key h' = key h \<and> pq_step (key h) (hp_set h) o1 x (hp_set h')"
proof (cases o1)
  case (Insert e)
  then show ?thesis
    using assms by (auto simp: hp_do_def hq.insert_inv hq.insert_set hq.insert_time intro: pq_step.ins)
next
  case (Remove e)
  then show ?thesis
    using assms by (auto simp: hp_do_def hq.remove_inv hq.remove_set hq.remove_time intro: pq_step.rem)
next
  case Pop
  show ?thesis
  proof (cases x)
    case None
    then have "hp_set h = {}" using hq.pop_top[OF assms(1)] hq.top_none[OF assms(1)] Pop assms(2)
      by (simp add: hp_do_def)
    moreover from this have "h' = h"
      using assms(2) Pop by (simp add: hp_do_def hp_pop_def hp_size_def hp_set_def)
    ultimately show ?thesis using assms(1) None Pop by (auto intro: pq_step.pop_none)
  next
    case (Some e)
    have "hp_pop h = (Some e, h')" using assms(2) Some Pop by (simp add: hp_do_def)
    from hq.pop_some[OF assms(1) this] show ?thesis using Some Pop by (auto intro: pq_step.pop_some)
  qed
qed

text \<open>C26: the timer heap implements a priority queue of events: whatever sequence of insertions,
  removals and pops is run on a well-formed heap, the events it returns are those a set of events
  with the same deadlines can return - every \<open>pop\<close> gives an event of the set that is due no later
  than any other - and the heap represents the resulting set. Inserting an event twice and removing
  one that is not in the heap change nothing, and the positions that the events store in their
  timers stay right, which is how \<open>remove\<close> finds its event without searching.\<close>

theorem timer_heap_refines_set:
  assumes "hp_inv h" "hp_run ops h = (xs, h')"
  shows "pq_run (key h) (hp_set h) ops xs (hp_set h') \<and> hp_inv h'"
  using assms
proof (induction ops arbitrary: h xs)
  case Nil
  then show ?case by (auto intro: pq_run.stop)
next
  case (Cons o1 ops)
  obtain x h1 where s: "hp_do o1 h = (x, h1)" by (metis surj_pair)
  obtain ys where r: "hp_run ops h1 = (ys, h')" "xs = x # ys"
    using Cons.prems(2) s by (auto split: prod.splits)
  note step = hp_do_step[OF Cons.prems(1) s]
  then have "pq_run (key h1) (hp_set h1) ops ys (hp_set h') \<and> hp_inv h'"
    using Cons.IH[of h1 ys] r(1) by blast
  then show ?case using step r(2) by (auto intro: pq_run.step)
qed

definition demo_timers :: "eptr \<Rightarrow> timer" where
  "demo_timers e = mk_timer ((\<lambda>n. [50, 20, 40, 10, 30, 20] ! n) (e mod 6)) False 100"

definition demo_ops :: "hop list" where
  "demo_ops = map Insert [0, 1, 2, 3, 4, 5] @ [Remove 2, Pop, Insert 3, Pop, Pop, Pop, Pop, Pop]"

lemma timer_heap_refines_set_witness:
  defines "h0 \<equiv> \<lparr>hp_array = [], hp_timer = demo_timers\<rparr>"
  shows "fst (hp_run demo_ops h0) =
      replicate 7 None @ [Some 3, None, Some 3, Some 1, Some 5, Some 4, Some 0] \<and>
    pq_run (key h0) {} demo_ops (fst (hp_run demo_ops h0)) {} \<and>
    hp_inv (snd (hp_run demo_ops h0))"
proof -
  have inv: "hp_inv h0" by (simp add: h0_def hp_empty_inv demo_timers_def mk_timer_def)
  have r: "fst (hp_run demo_ops h0) =
      replicate 7 None @ [Some 3, None, Some 3, Some 1, Some 5, Some 4, Some 0] \<and>
    hp_array (snd (hp_run demo_ops h0)) = []"
    unfolding h0_def by code_simp
  obtain xs h1 where run: "hp_run demo_ops h0 = (xs, h1)" by (metis surj_pair)
  then have xs: "fst (hp_run demo_ops h0) = xs" "snd (hp_run demo_ops h0) = h1" by simp_all
  have "hp_set h0 = {}" "hp_set h1 = {}" using r xs by (simp_all add: h0_def hp_set_def)
  with timer_heap_refines_set[OF inv run] have "pq_run (key h0) {} demo_ops xs {} \<and> hp_inv h1"
    by simp
  then show ?thesis unfolding xs(2) using r xs(1) by blast
qed

end
