(* ===== verification/Select.thy ===== *)
theory Select
  imports TimeoutHeap "HOL-Library.Signed_Division"
begin

text \<open>
  The I/O demultiplexers of the reactor: \<open>Select\<close> (select.hpp, select.cpp) and the interface
  \<open>demux\<close> that the reactor relies on.

  The bit masks \<open>_R\<close> and \<open>_W\<close> are lists of booleans, one per descriptor: the code sees them as
  \<open>fd_set\<close> and as arrays of bytes, and on the little-endian targets of the code byte \<open>k\<close> of
  either view holds the descriptors \<open>8 k\<close> to \<open>8 k + 7\<close>. Capacities are counted in bytes as in the
  code. \<open>_fd2ev\<close> is a list with a possibly null event per descriptor. \<open>realloc\<close> keeps the old
  contents; what it leaves in the new part is the argument \<open>junk\<close> where the code does not clear
  it. An access outside the allocated memory is the exception \<open>Undefined\<close>.

  The system call \<open>select\<close> is a parameter: it gets the number of descriptors, the two masks and
  the timeout, and returns an \<open>errno\<close> or the masks of the ready descriptors.
\<close>

section \<open>Time values\<close>

text \<open>
  \<open>duration_cast<timeval>\<close> (chrono.hpp) of a duration of \<open>n\<close> ticks, \<open>per\<close> ticks a second:
  chrono's conversions truncate towards zero.
\<close>

definition to_timeval :: "int \<Rightarrow> int \<Rightarrow> int \<times> int" where
  "to_timeval per n = (let sec = n sdiv per in (sec, ((n - sec * per) * 1000000) sdiv per))"

section \<open>The state\<close>

record select =
  max_fd :: int
  cap_in :: nat
  cap_out :: nat
  r_in :: "bool list"
  w_in :: "bool list"
  r_out :: "bool list"
  w_out :: "bool list"
  ev_r :: "eptr option list"
  ev_w :: "eptr option list"

definition sel_init :: select where
  "sel_init = \<lparr>max_fd = -1, cap_in = 0, cap_out = 0, r_in = [], w_in = [], r_out = [], w_out = [],
     ev_r = [], ev_w = []\<rparr>"

definition grow :: "(nat \<Rightarrow> 'a) \<Rightarrow> nat \<Rightarrow> 'a list \<Rightarrow> 'a list" where
  "grow junk n xs = xs @ map junk [length xs..<n]"

lemma length_grow [simp]: "length xs \<le> n \<Longrightarrow> length (grow junk n xs) = n"
  by (simp add: grow_def)

lemma nth_grow:
  "i < n \<Longrightarrow> grow junk n xs ! i = (if i < length xs then xs ! i else junk i)"
  by (auto simp: grow_def nth_append)

section \<open>The operations\<close>

text \<open>\<open>sizeof(fd_mask)\<close> is 8, a \<open>long\<close>.\<close>

definition num_fds_per_mask :: nat where
  "num_fds_per_mask = 8 * 8"

definition num_masks :: "nat \<Rightarrow> nat" where
  "num_masks n = (n + num_fds_per_mask - 1) div num_fds_per_mask"

definition sel_clear :: "select \<Rightarrow> select" where
  "sel_clear s = s\<lparr>r_in := map (\<lambda>_. False) (r_in s), w_in := map (\<lambda>_. False) (w_in s),
     ev_r := map (\<lambda>_. None) (ev_r s), ev_w := map (\<lambda>_. None) (ev_w s), max_fd := -1\<rparr>"

text \<open>\<open>_recap\<close>: the capacity is doubled until the descriptor fits.\<close>

definition sel_recap :: "int \<Rightarrow> select \<Rightarrow> select" where
  "sel_recap fd s =
    (if max_fd s \<ge> fd then s
     else let s1 = s\<lparr>max_fd := fd\<rparr>; tgt = num_masks (nat (fd + 1)) * 8 in
       if cap_in s1 \<ge> tgt then s1
       else let n = double_until (if cap_in s1 = 0 then 8 else cap_in s1) tgt in
         s1\<lparr>r_in := grow (\<lambda>_. False) (n * 8) (r_in s1), w_in := grow (\<lambda>_. False) (n * 8) (w_in s1),
            ev_r := grow (\<lambda>_. None) (n * 8) (ev_r s1), ev_w := grow (\<lambda>_. None) (n * 8) (ev_w s1),
            cap_in := n\<rparr>)"

text \<open>\<open>_make_pollee\<close> copies the first \<open>n\<close> bytes of a mask over those of another.\<close>

definition make_pollee :: "bool list \<Rightarrow> bool list \<Rightarrow> nat \<Rightarrow> bool list result" where
  "make_pollee dst src n =
    (if n * 8 \<le> length src \<and> n * 8 \<le> length dst then Inr (take (n * 8) src @ drop (n * 8) dst)
     else Inl (Undefined ''copy out of bounds''))"

definition prepare_select :: "(nat \<Rightarrow> bool) \<Rightarrow> select \<Rightarrow> select result" where
  "prepare_select junk s =
    (let tgt = (if max_fd s = -1 then 0 else nat (max_fd s) div 8 + 1);
         s1 = (if cap_out s < cap_in s
               then s\<lparr>cap_out := cap_in s, r_out := grow junk (cap_in s * 8) (r_out s),
                      w_out := grow junk (cap_in s * 8) (w_out s)\<rparr>
               else s)
     in bind_r (make_pollee (r_out s1) (r_in s1) tgt) (\<lambda>r.
        bind_r (make_pollee (w_out s1) (w_in s1) tgt) (\<lambda>w. Inr (s1\<lparr>r_out := r, w_out := w\<rparr>))))"

definition sel_insert :: "eptr \<Rightarrow> etype \<Rightarrow> int \<Rightarrow> select \<Rightarrow> select result" where
  "sel_insert e ty fd s0 = (let s = sel_recap fd s0 in
    (case ty of
       READ \<Rightarrow> bind_r (put_slot (r_in s) fd True) (\<lambda>m.
         bind_r (put_slot (ev_r s) fd (Some e)) (\<lambda>v. Inr (s\<lparr>r_in := m, ev_r := v\<rparr>)))
     | WRITE \<Rightarrow> bind_r (put_slot (w_in s) fd True) (\<lambda>m.
         bind_r (put_slot (ev_w s) fd (Some e)) (\<lambda>v. Inr (s\<lparr>w_in := m, ev_w := v\<rparr>)))
     | _ \<Rightarrow> Inr s))"

text \<open>The loop that lowers \<open>_max_fd\<close> to the largest descriptor with a bit set, or to -1.\<close>

fun lower_max :: "bool list \<Rightarrow> bool list \<Rightarrow> nat \<Rightarrow> int result" where
  "lower_max r w 0 = Inr (-1)"
| "lower_max r w (Suc n) =
    bind_r (slot r (int n)) (\<lambda>a.
      if a then Inr (int n)
      else bind_r (slot w (int n)) (\<lambda>b. if b then Inr (int n) else lower_max r w n))"

definition adjust_max :: "select \<Rightarrow> select result" where
  "adjust_max s = bind_r (lower_max (r_in s) (w_in s) (nat (max_fd s + 1)))
     (\<lambda>m. Inr (s\<lparr>max_fd := m\<rparr>))"

definition sel_remove :: "etype \<Rightarrow> int \<Rightarrow> select \<Rightarrow> select result" where
  "sel_remove ty fd s0 = (let s = sel_recap fd s0 in
    bind_r
      (case ty of
         READ \<Rightarrow> bind_r (put_slot (r_in s) fd False) (\<lambda>m.
           bind_r (put_slot (ev_r s) fd None) (\<lambda>v. Inr (s\<lparr>r_in := m, ev_r := v\<rparr>)))
       | WRITE \<Rightarrow> bind_r (put_slot (w_in s) fd False) (\<lambda>m.
           bind_r (put_slot (ev_w s) fd None) (\<lambda>v. Inr (s\<lparr>w_in := m, ev_w := v\<rparr>)))
       | _ \<Rightarrow> Inr s)
      adjust_max)"

text \<open>
  \<open>_poll\<close>. The handler \<open>on\<close> may change the demultiplexer and whatever else it owns, the second
  component of the state: each entry is read when the loop reaches it.
\<close>

type_synonym sys_select =
  "int \<Rightarrow> bool list \<Rightarrow> bool list \<Rightarrow> int \<times> int \<Rightarrow> int + (bool list \<times> bool list)"

definition call_on :: "(eptr \<Rightarrow> select \<times> 'x \<Rightarrow> (select \<times> 'x) result) \<Rightarrow>
    (select \<Rightarrow> bool list) \<Rightarrow> (select \<Rightarrow> eptr option list) \<Rightarrow> int \<Rightarrow>
    select \<times> 'x \<Rightarrow> (select \<times> 'x) result" where
  "call_on on msk evs fd st =
    bind_r (slot (msk (fst st)) fd) (\<lambda>b.
      if b then bind_r (slot (evs (fst st)) fd) (\<lambda>p.
        case p of Some e \<Rightarrow> on e st | None \<Rightarrow> Inr st)
      else Inr st)"

fun poll_loop :: "(eptr \<Rightarrow> select \<times> 'x \<Rightarrow> (select \<times> 'x) result) \<Rightarrow> nat \<Rightarrow>
    select \<times> 'x \<Rightarrow> (select \<times> 'x) result" where
  "poll_loop on 0 st = Inr st"
| "poll_loop on (Suc n) st =
    bind_r (call_on on r_out ev_r (int n) st) (\<lambda>st1.
      bind_r (call_on on w_out ev_w (int n) st1) (poll_loop on n))"

definition sel_poll :: "sys_select \<Rightarrow> (nat \<Rightarrow> bool) \<Rightarrow> int \<times> int \<Rightarrow>
    (eptr \<Rightarrow> select \<times> 'x \<Rightarrow> (select \<times> 'x) result) \<Rightarrow> select \<times> 'x \<Rightarrow> (select \<times> 'x) result" where
  "sel_poll sys junk tv on st =
    (let (s, x) = st in
     if max_fd s = -1 then Inr (s, x)
     else bind_r (prepare_select junk s) (\<lambda>s1. let pmax = max_fd s1 in
       (case sys (pmax + 1) (r_out s1) (w_out s1) tv of
          Inl errno \<Rightarrow> Inl (System_error errno)
        | Inr (r, w) \<Rightarrow> poll_loop on (nat (pmax + 1)) (s1\<lparr>r_out := r, w_out := w\<rparr>, x))))"

section \<open>The invariant\<close>

text \<open>The events that the demultiplexer watches, by kind and descriptor.\<close>

definition sel_reg :: "select \<Rightarrow> etype \<times> int \<Rightarrow> eptr option" where
  "sel_reg s k = (case k of (ty, fd) \<Rightarrow>
     if 0 \<le> fd \<and> fd < int (cap_in s * 8)
     then (case ty of READ \<Rightarrow> ev_r s ! nat fd | WRITE \<Rightarrow> ev_w s ! nat fd | _ \<Rightarrow> None) else None)"

definition masked :: "bool list \<Rightarrow> eptr option list \<Rightarrow> nat \<Rightarrow> bool" where
  "masked m evs n = (length m = n \<and> length evs = n \<and> (\<forall>i < n. m ! i \<longleftrightarrow> evs ! i \<noteq> None))"

definition sel_inv :: "select \<Rightarrow> bool" where
  "sel_inv s =
    (masked (r_in s) (ev_r s) (cap_in s * 8) \<and> masked (w_in s) (ev_w s) (cap_in s * 8) \<and>
     length (r_out s) = cap_out s * 8 \<and> length (w_out s) = cap_out s * 8 \<and> cap_out s \<le> cap_in s \<and>
     -1 \<le> max_fd s \<and> max_fd s < int (cap_in s * 8) \<and>
     (\<forall>i < cap_in s * 8. max_fd s < int i \<longrightarrow> ev_r s ! i = None \<and> ev_w s ! i = None))"

text \<open>\<open>_max_fd\<close> is the largest descriptor that is watched: what \<open>_insert\<close> and \<open>_remove\<close> leave.\<close>

definition max_tight :: "select \<Rightarrow> bool" where
  "max_tight s = (max_fd s = -1 \<or> ev_r s ! nat (max_fd s) \<noteq> None \<or> ev_w s ! nat (max_fd s) \<noteq> None)"

lemma num_masks_enough: "n \<le> num_masks n * 8 * 8"
  by (simp add: num_masks_def num_fds_per_mask_def)

lemma masked_grow:
  assumes "masked m evs k" "k \<le> n"
  shows "masked (grow (\<lambda>_. False) n m) (grow (\<lambda>_. None) n evs) n"
  using assms by (auto simp: masked_def nth_grow)

lemma masked_update:
  assumes "masked m evs n" "b \<longleftrightarrow> v \<noteq> None"
  shows "masked (m[i := b]) (evs[i := v]) n"
  using assms by (cases "i < n") (auto simp: masked_def nth_list_update list_update_beyond)

lemma sel_recap_ok:
  assumes "sel_inv s" "0 \<le> fd"
  shows "sel_inv (sel_recap fd s) \<and> fd \<le> max_fd (sel_recap fd s) \<and>
    sel_reg (sel_recap fd s) = sel_reg s"
proof (cases "max_fd s \<ge> fd")
  case True
  then show ?thesis using assms by (simp add: sel_recap_def)
next
  case less: False
  let ?tgt = "num_masks (nat (fd + 1)) * 8"
  have tgt: "fd < int (?tgt * 8)" using num_masks_enough[of "nat (fd + 1)"] assms(2) by linarith
  show ?thesis
  proof (cases "?tgt \<le> cap_in s")
    case True
    then have "sel_recap fd s = s\<lparr>max_fd := fd\<rparr>" using less by (simp add: sel_recap_def Let_def)
    moreover have "fd < int (cap_in s * 8)" using tgt True by linarith
    ultimately show ?thesis
      using assms less by (auto simp: sel_inv_def sel_reg_def fun_eq_iff split: etype.splits)
  next
    case False
    define n where "n = double_until (if cap_in s = 0 then 8 else cap_in s) ?tgt"
    have n: "?tgt \<le> n" "cap_in s \<le> n"
      using double_until_ge[of "if cap_in s = 0 then 8 else cap_in s" ?tgt] by (auto simp: n_def)
    let ?s = "s\<lparr>max_fd := fd, r_in := grow (\<lambda>_. False) (n * 8) (r_in s),
      w_in := grow (\<lambda>_. False) (n * 8) (w_in s), ev_r := grow (\<lambda>_. None) (n * 8) (ev_r s),
      ev_w := grow (\<lambda>_. None) (n * 8) (ev_w s), cap_in := n\<rparr>"
    have eq: "sel_recap fd s = ?s" using less False by (simp add: sel_recap_def Let_def n_def)
    have len: "length (ev_r s) = cap_in s * 8" "length (ev_w s) = cap_in s * 8"
      using assms(1) by (auto simp: sel_inv_def masked_def)
    have "fd < int (n * 8)" using tgt n by linarith
    moreover have "cap_in s * 8 \<le> n * 8" using n by simp
    moreover have "masked (grow (\<lambda>_. False) (n * 8) (r_in s)) (grow (\<lambda>_. None) (n * 8) (ev_r s)) (n * 8)"
      "masked (grow (\<lambda>_. False) (n * 8) (w_in s)) (grow (\<lambda>_. None) (n * 8) (ev_w s)) (n * 8)"
      using assms(1) n by (auto simp: sel_inv_def intro: masked_grow)
    moreover have "grow (\<lambda>_. None) (n * 8) (ev_r s) ! i = None \<and> grow (\<lambda>_. None) (n * 8) (ev_w s) ! i = None"
      if "i < n * 8" "fd < int i" for i
      using assms(1) that less len by (auto simp: nth_grow sel_inv_def)
    ultimately have "sel_inv ?s" using assms n by (simp add: sel_inv_def)
    moreover have "sel_reg ?s k = sel_reg s k" for k
    proof -
      obtain ty f where k: "k = (ty, f)" by (cases k)
      show ?thesis using n len by (cases ty) (auto simp: k sel_reg_def nth_grow)
    qed
    ultimately show ?thesis by (simp add: eq fun_eq_iff)
  qed
qed

lemma sel_invD:
  assumes "sel_inv s"
  shows "length (r_in s) = cap_in s * 8" "length (w_in s) = cap_in s * 8"
    "length (ev_r s) = cap_in s * 8" "length (ev_w s) = cap_in s * 8"
    "\<And>i. i < cap_in s * 8 \<Longrightarrow> r_in s ! i \<longleftrightarrow> ev_r s ! i \<noteq> None"
    "\<And>i. i < cap_in s * 8 \<Longrightarrow> w_in s ! i \<longleftrightarrow> ev_w s ! i \<noteq> None"
    "max_fd s < int (cap_in s * 8)" "-1 \<le> max_fd s"
  using assms by (auto simp: sel_inv_def masked_def)

lemma sel_reg_update:
  assumes "sel_inv s" "0 \<le> fd" "fd \<le> max_fd s"
  shows "sel_reg (s\<lparr>r_in := m, ev_r := (ev_r s)[nat fd := v]\<rparr>) = (sel_reg s)((READ, fd) := v)"
    "sel_reg (s\<lparr>w_in := m, ev_w := (ev_w s)[nat fd := v]\<rparr>) = (sel_reg s)((WRITE, fd) := v)"
proof -
  have fd: "fd < int (cap_in s * 8)" using sel_invD(7)[OF assms(1)] assms(3) by linarith
  then have ok: "nat fd < length (ev_r s)" "nat fd < length (ev_w s)"
    using sel_invD(3,4)[OF assms(1)] assms(2) by (auto simp: nat_less_iff)
  have eq: "nat f = nat fd \<longleftrightarrow> f = fd" if "0 \<le> f" for f using that assms(2) by (auto simp: eq_nat_nat_iff)
  have r: "sel_reg (s\<lparr>r_in := m, ev_r := (ev_r s)[nat fd := v]\<rparr>) (ty, f) = ((sel_reg s)((READ, fd) := v)) (ty, f)"
    "sel_reg (s\<lparr>w_in := m, ev_w := (ev_w s)[nat fd := v]\<rparr>) (ty, f) = ((sel_reg s)((WRITE, fd) := v)) (ty, f)"
    for ty f
    using ok fd assms(2) eq[of f] by (cases ty; cases "0 \<le> f"; simp add: sel_reg_def nth_list_update)+
  show "sel_reg (s\<lparr>r_in := m, ev_r := (ev_r s)[nat fd := v]\<rparr>) = (sel_reg s)((READ, fd) := v)"
    "sel_reg (s\<lparr>w_in := m, ev_w := (ev_w s)[nat fd := v]\<rparr>) = (sel_reg s)((WRITE, fd) := v)"
    by (rule ext, metis r surj_pair)+
qed

lemma sel_update_inv:
  assumes "sel_inv s" "0 \<le> fd" "fd \<le> max_fd s" "b \<longleftrightarrow> v \<noteq> None"
  shows "sel_inv (s\<lparr>r_in := (r_in s)[nat fd := b], ev_r := (ev_r s)[nat fd := v]\<rparr>)"
    "sel_inv (s\<lparr>w_in := (w_in s)[nat fd := b], ev_w := (ev_w s)[nat fd := v]\<rparr>)"
  using assms masked_update[OF _ assms(4)] by (auto simp: sel_inv_def nth_list_update_neq)

lemma sel_insert_ok:
  assumes "sel_inv s" "ty = READ \<or> ty = WRITE" "0 \<le> fd"
  shows "\<exists>s'. sel_insert e ty fd s = Inr s' \<and> sel_inv s' \<and> sel_reg s' = (sel_reg s)((ty, fd) \<mapsto> e)"
proof -
  let ?s = "sel_recap fd s"
  have r: "sel_inv ?s" "fd \<le> max_fd ?s" "sel_reg ?s = sel_reg s"
    using sel_recap_ok[OF assms(1,3)] by auto
  have ok: "fd < int (cap_in ?s * 8)" using sel_invD(7)[OF r(1)] r(2) by linarith
  show ?thesis
    using assms(2,3) ok sel_invD(1-4)[OF r(1)] sel_reg_update[OF r(1) assms(3) r(2)]
      sel_update_inv[OF r(1) assms(3) r(2), of True "Some e"] r(3)
    by (auto simp: sel_insert_def Let_def)
qed

lemma lower_max_ok:
  assumes "n \<le> length r" "n \<le> length w"
  shows "\<exists>m. lower_max r w n = Inr m \<and> -1 \<le> m \<and> m < int n \<and>
    (\<forall>i < n. m < int i \<longrightarrow> \<not> r ! i \<and> \<not> w ! i) \<and> (m = -1 \<or> r ! nat m \<or> w ! nat m)"
  using assms
proof (induction n)
  case (Suc n)
  show ?case
  proof (cases "r ! n \<or> w ! n")
    case True
    then show ?thesis using Suc.prems by (auto simp: less_Suc_eq)
  next
    case False
    with Suc obtain m where m: "lower_max r w n = Inr m" "-1 \<le> m" "m < int n"
      "\<forall>i < n. m < int i \<longrightarrow> \<not> r ! i \<and> \<not> w ! i" "m = -1 \<or> r ! nat m \<or> w ! nat m"
      by auto
    then have "lower_max r w (Suc n) = Inr m" using False Suc.prems by simp
    moreover have "\<forall>i < Suc n. m < int i \<longrightarrow> \<not> r ! i \<and> \<not> w ! i" using m(4) False by (auto simp: less_Suc_eq)
    ultimately show ?thesis using m(2,3,5) by (intro exI[of _ m]) (simp del: lower_max.simps)
  qed
qed simp

lemma adjust_max_ok:
  assumes "sel_inv s"
  shows "\<exists>s'. adjust_max s = Inr s' \<and> sel_inv s' \<and> sel_reg s' = sel_reg s \<and> max_tight s'"
proof -
  let ?n = "nat (max_fd s + 1)"
  note inv = sel_invD[OF assms]
  have le: "?n \<le> cap_in s * 8" using inv(7) by linarith
  obtain m where m: "lower_max (r_in s) (w_in s) ?n = Inr m" "-1 \<le> m" "m < int ?n"
    "\<forall>i < ?n. m < int i \<longrightarrow> \<not> r_in s ! i \<and> \<not> w_in s ! i" "m = -1 \<or> r_in s ! nat m \<or> w_in s ! nat m"
    using lower_max_ok[of ?n "r_in s" "w_in s"] le inv(1,2) by auto
  have "ev_r s ! i = None \<and> ev_w s ! i = None" if "i < cap_in s * 8" "m < int i" for i
  proof (cases "i < ?n")
    case True
    then show ?thesis using m(4) that inv(5,6)[of i] by auto
  next
    case False
    then have "max_fd s < int i" by linarith
    then show ?thesis using assms that(1) by (simp add: sel_inv_def)
  qed
  moreover have "m < int (cap_in s * 8)" using m(3) le by linarith
  ultimately have "sel_inv (s\<lparr>max_fd := m\<rparr>)" using assms m(2) by (simp add: sel_inv_def)
  moreover have "nat m < cap_in s * 8" if "m \<noteq> -1" using that m(2,3) le by linarith
  then have "max_tight (s\<lparr>max_fd := m\<rparr>)"
    using m(5) inv(5,6)[of "nat m"] by (auto simp: max_tight_def)
  moreover have "sel_reg (s\<lparr>max_fd := m\<rparr>) = sel_reg s"
    by (simp add: sel_reg_def fun_eq_iff split: etype.split)
  ultimately show ?thesis using m(1) by (simp add: adjust_max_def)
qed

lemma sel_remove_ok:
  assumes "sel_inv s" "ty = READ \<or> ty = WRITE" "0 \<le> fd"
  shows "\<exists>s'. sel_remove ty fd s = Inr s' \<and> sel_inv s' \<and> sel_reg s' = (sel_reg s)((ty, fd) := None) \<and>
    max_tight s'"
proof -
  let ?s = "sel_recap fd s"
  have r: "sel_inv ?s" "fd \<le> max_fd ?s" "sel_reg ?s = sel_reg s"
    using sel_recap_ok[OF assms(1,3)] by auto
  have ok: "fd < int (cap_in ?s * 8)" using sel_invD(7)[OF r(1)] r(2) by linarith
  let ?t = "if ty = READ then ?s\<lparr>r_in := (r_in ?s)[nat fd := False], ev_r := (ev_r ?s)[nat fd := None]\<rparr>
    else ?s\<lparr>w_in := (w_in ?s)[nat fd := False], ev_w := (ev_w ?s)[nat fd := None]\<rparr>"
  have "sel_remove ty fd s = adjust_max ?t"
    using assms(2,3) ok sel_invD(1-4)[OF r(1)] by (auto simp: sel_remove_def Let_def)
  moreover have "sel_inv ?t" "sel_reg ?t = (sel_reg s)((ty, fd) := None)"
    using sel_update_inv[OF r(1) assms(3) r(2), of False None]
      sel_reg_update[OF r(1) assms(3) r(2)] r(3) assms(2) by auto
  ultimately show ?thesis using adjust_max_ok[of ?t] by simp
qed

text \<open>What the operations leave alone: the masks of a round, and memory is never given back.\<close>

lemma sel_recap_frame:
  "r_out (sel_recap fd s) = r_out s \<and> w_out (sel_recap fd s) = w_out s \<and> cap_in s \<le> cap_in (sel_recap fd s)"
  using double_until_ge[of "if cap_in s = 0 then 8 else cap_in s" "num_masks (nat (fd + 1)) * 8"]
  by (auto simp: sel_recap_def Let_def)

lemma sel_remove_frame:
  assumes "sel_remove ty fd s = Inr s'"
  shows "r_out s' = r_out s" "w_out s' = w_out s" "cap_in s \<le> cap_in s'"
  using assms sel_recap_frame[of fd s]
  by (auto simp: sel_remove_def adjust_max_def Let_def split: etype.splits)

section \<open>The interface of the reactor\<close>

text \<open>
  What the reactor needs of a demultiplexer: a map from (kind, descriptor) to the event that is
  watched, for the descriptors in its domain. The weaker contract lets a client register what is
  free and remove what is registered; the stronger one allows both in any state, the last
  registration taking the place of another.
\<close>

locale demux =
  fixes d_dom :: "int \<Rightarrow> bool"
    and d_inv :: "'s \<Rightarrow> bool"
    and d_reg :: "'s \<Rightarrow> etype \<times> int \<Rightarrow> eptr option"
    and d_insert :: "eptr \<Rightarrow> etype \<Rightarrow> int \<Rightarrow> 's \<Rightarrow> 's result"
    and d_remove :: "etype \<Rightarrow> int \<Rightarrow> 's \<Rightarrow> 's result"
  assumes insert_ok: "d_inv s \<Longrightarrow> ty = READ \<or> ty = WRITE \<Longrightarrow> d_dom fd \<Longrightarrow> d_reg s (ty, fd) = None \<Longrightarrow>
      \<exists>s'. d_insert e ty fd s = Inr s' \<and> d_inv s' \<and> d_reg s' = (d_reg s)((ty, fd) \<mapsto> e)"
    and remove_ok: "d_inv s \<Longrightarrow> ty = READ \<or> ty = WRITE \<Longrightarrow> d_dom fd \<Longrightarrow> d_reg s (ty, fd) = Some e \<Longrightarrow>
      \<exists>s'. d_remove ty fd s = Inr s' \<and> d_inv s' \<and> d_reg s' = (d_reg s)((ty, fd) := None)"
begin

text \<open>An event is taken out while its handler runs and put back when it is done.\<close>

lemma rearm:
  assumes "d_inv s" "ty = READ \<or> ty = WRITE" "d_dom fd" "d_reg s (ty, fd) = Some e"
  shows "\<exists>s1 s2. d_remove ty fd s = Inr s1 \<and> d_reg s1 = (d_reg s)((ty, fd) := None) \<and>
    d_insert e ty fd s1 = Inr s2 \<and> d_inv s2 \<and> d_reg s2 = d_reg s"
proof -
  obtain s1 where s1: "d_remove ty fd s = Inr s1" "d_inv s1" "d_reg s1 = (d_reg s)((ty, fd) := None)"
    using remove_ok[OF assms] by blast
  obtain s2 where "d_insert e ty fd s1 = Inr s2" "d_inv s2" "d_reg s2 = (d_reg s1)((ty, fd) \<mapsto> e)"
    using insert_ok[OF s1(2) assms(2,3), of e] s1(3) by auto
  with s1 assms(4) show ?thesis by (auto simp: fun_eq_iff)
qed

text \<open>Registering a batch of events with keys of their own.\<close>

lemma insert_all:
  assumes "d_inv s" "\<forall>(e, ty, fd) \<in> set es. (ty = READ \<or> ty = WRITE) \<and> d_dom fd \<and> d_reg s (ty, fd) = None"
    "distinct (map snd es)"
  shows "\<exists>s'. fold_r (\<lambda>(e, ty, fd). d_insert e ty fd) es s = Inr s' \<and> d_inv s' \<and>
    d_reg s' = fold (\<lambda>(e, k) m. m(k \<mapsto> e)) es (d_reg s)"
  using assms
proof (induction es arbitrary: s)
  case (Cons x es)
  obtain e ty fd where x: "x = (e, ty, fd)" by (cases x)
  obtain s1 where s1: "d_insert e ty fd s = Inr s1" "d_inv s1" "d_reg s1 = (d_reg s)((ty, fd) \<mapsto> e)"
    using insert_ok[of s ty fd e] Cons.prems x by auto
  have "\<forall>(e, ty, fd) \<in> set es. (ty = READ \<or> ty = WRITE) \<and> d_dom fd \<and> d_reg s1 (ty, fd) = None"
    using Cons.prems(2,3) s1(3) x by (force simp: image_iff)
  from Cons.IH[OF s1(2) this] Cons.prems(3) show ?case using s1 x by simp
qed simp

end

locale total_demux = demux +
  assumes insert_any: "d_inv s \<Longrightarrow> ty = READ \<or> ty = WRITE \<Longrightarrow> d_dom fd \<Longrightarrow>
      \<exists>s'. d_insert e ty fd s = Inr s' \<and> d_inv s' \<and> d_reg s' = (d_reg s)((ty, fd) \<mapsto> e)"
    and remove_any: "d_inv s \<Longrightarrow> ty = READ \<or> ty = WRITE \<Longrightarrow> d_dom fd \<Longrightarrow>
      \<exists>s'. d_remove ty fd s = Inr s' \<and> d_inv s' \<and> d_reg s' = (d_reg s)((ty, fd) := None)"
begin

lemma insert_total: "d_inv s \<Longrightarrow> ty = READ \<or> ty = WRITE \<Longrightarrow> d_dom fd \<Longrightarrow> d_insert e ty fd s \<noteq> Inl x"
  using insert_any[of s ty fd e] by auto

lemma remove_twice:
  assumes "d_inv s" "ty = READ \<or> ty = WRITE" "d_dom fd"
  shows "\<exists>s1 s2. d_remove ty fd s = Inr s1 \<and> d_remove ty fd s1 = Inr s2 \<and> d_inv s2 \<and> d_reg s2 = d_reg s1"
proof -
  obtain s1 where s1: "d_remove ty fd s = Inr s1" "d_inv s1" "d_reg s1 = (d_reg s)((ty, fd) := None)"
    using remove_any[OF assms] by blast
  then show ?thesis using remove_any[OF s1(2) assms(2,3)] by auto
qed

end

interpretation sel: total_demux "\<lambda>fd. 0 \<le> fd" sel_inv sel_reg sel_insert sel_remove
  by unfold_locales (use sel_insert_ok sel_remove_ok in blast)+

section \<open>Polling\<close>

text \<open>
  The events that one round calls, in the order of the loop: descriptors from the largest down,
  for each the reader before the writer.
\<close>

definition ready_at :: "bool list \<Rightarrow> bool list \<Rightarrow> select \<Rightarrow> nat \<Rightarrow> eptr list" where
  "ready_at r w s n =
    (if r ! n then (case sel_reg s (READ, int n) of Some e \<Rightarrow> [e] | None \<Rightarrow> []) else []) @
    (if w ! n then (case sel_reg s (WRITE, int n) of Some e \<Rightarrow> [e] | None \<Rightarrow> []) else [])"

fun ready_below :: "bool list \<Rightarrow> bool list \<Rightarrow> select \<Rightarrow> nat \<Rightarrow> eptr list" where
  "ready_below r w s 0 = []"
| "ready_below r w s (Suc n) = ready_at r w s n @ ready_below r w s n"

text \<open>
  The handlers that the loop is proved for: called for the event registered under a key, they
  leave the registrations under the other keys and the masks of the round as they are. \<open>P\<close> is an
  invariant that they need of the whole state.
\<close>

definition handles :: "(select \<Rightarrow> 'x \<Rightarrow> bool) \<Rightarrow> (eptr \<Rightarrow> select \<times> 'x \<Rightarrow> (select \<times> 'x) result) \<Rightarrow>
    (eptr \<Rightarrow> 'x \<Rightarrow> 'x) \<Rightarrow> bool" where
  "handles P on f = (\<forall>e s x k. P s x \<longrightarrow> sel_inv s \<longrightarrow> sel_reg s k = Some e \<longrightarrow>
     (\<exists>s'. on e (s, x) = Inr (s', f e x) \<and> P s' (f e x) \<and> sel_inv s' \<and>
        r_out s' = r_out s \<and> w_out s' = w_out s \<and>
        cap_in s \<le> cap_in s' \<and> (\<forall>k'. k' \<noteq> k \<longrightarrow> sel_reg s' k' = sel_reg s k')))"

text \<open>What one call leaves unchanged, and the registrations it may have touched.\<close>

definition unrelated :: "(etype \<times> int) set \<Rightarrow> select \<Rightarrow> select \<Rightarrow> bool" where
  "unrelated K s s' = (sel_inv s' \<and> r_out s' = r_out s \<and> w_out s' = w_out s \<and> cap_in s \<le> cap_in s' \<and>
     (\<forall>k. k \<notin> K \<longrightarrow> sel_reg s' k = sel_reg s k))"

lemma unrelated_trans: "unrelated K s t \<Longrightarrow> unrelated L t u \<Longrightarrow> unrelated (K \<union> L) s u"
  by (auto simp: unrelated_def)

lemma call_on_ok:
  assumes on: "handles P on f" and P: "P s x" and inv: "sel_inv s"
    and n: "n < cap_in s * 8" "n < length b"
    and evs: "(msk, evs, ty) = (r_out, ev_r, READ) \<or> (msk, evs, ty) = (w_out, ev_w, WRITE)" "msk s = b"
  shows "\<exists>s'. call_on on msk evs (int n) (s, x) =
      Inr (s', fold f (if b ! n then (case sel_reg s (ty, int n) of Some e \<Rightarrow> [e] | None \<Rightarrow> []) else []) x) \<and>
    P s' (fold f (if b ! n then (case sel_reg s (ty, int n) of Some e \<Rightarrow> [e] | None \<Rightarrow> []) else []) x) \<and>
    unrelated {(ty, int n)} s s'"
proof -
  have reg: "slot (evs s) (int n) = Inr (sel_reg s (ty, int n))"
    using evs(1) n(1) sel_invD(3,4)[OF inv] by (auto simp: sel_reg_def)
  show ?thesis
  proof (cases "b ! n \<and> sel_reg s (ty, int n) \<noteq> None")
    case True
    then obtain e where e: "sel_reg s (ty, int n) = Some e" by auto
    then obtain s' where "on e (s, x) = Inr (s', f e x)" "P s' (f e x)" "unrelated {(ty, int n)} s s'"
      using on P inv unfolding handles_def unrelated_def by fastforce
    then show ?thesis using True e reg n evs(2) by (simp add: call_on_def)
  next
    case False
    then show ?thesis using reg n evs(2) inv P by (auto simp: call_on_def unrelated_def)
  qed
qed

lemma poll_loop_ok:
  assumes on: "handles P on f"
  shows "sel_inv s \<Longrightarrow> n \<le> cap_in s * 8 \<Longrightarrow> n \<le> length (r_out s) \<Longrightarrow> n \<le> length (w_out s) \<Longrightarrow>
    P s x \<Longrightarrow>
    \<exists>s'. poll_loop on n (s, x) = Inr (s', fold f (ready_below (r_out s) (w_out s) s n) x) \<and>
      P s' (fold f (ready_below (r_out s) (w_out s) s n) x) \<and>
      unrelated {(ty, fd). 0 \<le> fd \<and> fd < int n} s s'"
proof (induction n arbitrary: s x)
  case 0
  then show ?case by (simp add: unrelated_def)
next
  case (Suc n)
  let ?at = "\<lambda>ty m. if m ! n then (case sel_reg s (ty, int n) of Some e \<Rightarrow> [e] | None \<Rightarrow> []) else []"
  define x1 where "x1 = fold f (?at READ (r_out s)) x"
  define x2 where "x2 = fold f (?at WRITE (w_out s)) x1"
  define x3 where "x3 = fold f (ready_below (r_out s) (w_out s) s n) x2"
  obtain s1 where s1: "call_on on r_out ev_r (int n) (s, x) = Inr (s1, x1)"
    "P s1 x1" "unrelated {(READ, int n)} s s1"
    using call_on_ok[OF on Suc.prems(5,1), of n "r_out s" r_out ev_r READ] Suc.prems(2-4)
    by (auto simp: x1_def)
  then have i1: "sel_inv s1" "n < cap_in s1 * 8" "w_out s1 = w_out s" "r_out s1 = r_out s"
      "sel_reg s1 (WRITE, int n) = sel_reg s (WRITE, int n)"
    using Suc.prems(2) s1(3) by (auto simp: unrelated_def)
  obtain s2 where s2: "call_on on w_out ev_w (int n) (s1, x1) = Inr (s2, x2)"
    "P s2 x2" "unrelated {(WRITE, int n)} s1 s2"
    using call_on_ok[OF on s1(2) i1(1,2), of "w_out s" w_out ev_w WRITE] i1(3) Suc.prems(4)
    unfolding x2_def i1(5) [symmetric] by auto
  have u: "unrelated {(READ, int n), (WRITE, int n)} s s2"
    using unrelated_trans[OF s1(3) s2(3)] by (simp add: insert_commute)
  then have i2: "sel_inv s2" "n \<le> cap_in s2 * 8" "w_out s2 = w_out s" "r_out s2 = r_out s"
    using Suc.prems(2) by (auto simp: unrelated_def)
  have same: "ready_below r w s2 m = ready_below r w s m" if "m \<le> n" for r w m
    using that
  proof (induction m)
    case (Suc m)
    then have "ready_at r w s2 m = ready_at r w s m" using u by (simp add: ready_at_def unrelated_def)
    then show ?case using Suc by simp
  qed simp
  obtain s3 where s3: "poll_loop on n (s2, x2) = Inr (s3, x3)"
    "P s3 x3" "unrelated {(ty, fd). 0 \<le> fd \<and> fd < int n} s2 s3"
    using Suc.IH[OF i2(1,2) _ _ s2(2)] i2 Suc.prems(3,4) same[of n] by (auto simp: x3_def)
  have "unrelated {(ty, fd). 0 \<le> fd \<and> fd < int (Suc n)} s s3"
    using unrelated_trans[OF u s3(3)] by (auto simp: unrelated_def)
  moreover have "fold f (ready_below (r_out s) (w_out s) s (Suc n)) x = x3"
    by (simp add: x3_def x2_def x1_def ready_at_def)
  ultimately show ?case using s1(1) s2(1) s3(1,2) by (simp del: ready_below.simps)
qed

lemma make_pollee_ok:
  assumes "n * 8 \<le> length src" "n * 8 \<le> length dst"
  obtains m where "make_pollee dst src n = Inr m" "length m = length dst" "\<And>i. i < n * 8 \<Longrightarrow> m ! i = src ! i"
  using assms that by (simp add: make_pollee_def nth_append)

lemma prepare_select_ok:
  fixes s :: select and junk :: "nat \<Rightarrow> bool"
  assumes inv: "sel_inv s" and "max_fd s \<noteq> -1"
  obtains s1 where "prepare_select junk s = Inr s1" "sel_inv s1" "max_fd s1 = max_fd s" "cap_in s1 = cap_in s"
    "sel_reg s1 = sel_reg s" "nat (max_fd s + 1) \<le> length (r_out s1)" "nat (max_fd s + 1) \<le> length (w_out s1)"
    "\<And>i. i < nat (max_fd s + 1) \<Longrightarrow> (r_out s1 ! i \<longleftrightarrow> sel_reg s (READ, int i) \<noteq> None) \<and>
       (w_out s1 ! i \<longleftrightarrow> sel_reg s (WRITE, int i) \<noteq> None)"
proof -
  note iD = sel_invD[OF inv]
  let ?n = "nat (max_fd s) div 8 + 1"
  have max: "0 \<le> max_fd s" "max_fd s < int (cap_in s * 8)" using iD(7,8) assms(2) by auto
  then obtain k where k: "max_fd s = int k" "k < cap_in s * 8" by (metis nonneg_int_cases of_nat_less_iff)
  then have "k div 8 < cap_in s" by (simp add: less_mult_imp_div_less)
  then have n: "?n * 8 \<le> cap_in s * 8" "nat (max_fd s + 1) \<le> ?n * 8"
    using div_mult_mod_eq[of k 8] mod_less_divisor[of 8 k] unfolding k(1) by simp_all
  define r w where "r = (if cap_out s < cap_in s then grow junk (cap_in s * 8) (r_out s) else r_out s)"
    and "w = (if cap_out s < cap_in s then grow junk (cap_in s * 8) (w_out s) else w_out s)"
  have len: "length r = cap_in s * 8" "length w = cap_in s * 8"
    using inv by (auto simp: r_def w_def sel_inv_def)
  obtain mr where mr: "make_pollee r (r_in s) ?n = Inr mr" "length mr = cap_in s * 8" "\<And>i. i < ?n * 8 \<Longrightarrow> mr ! i = r_in s ! i"
    using make_pollee_ok[of ?n "r_in s" r] n(1) len iD(1) by metis
  obtain mw where mw: "make_pollee w (w_in s) ?n = Inr mw" "length mw = cap_in s * 8" "\<And>i. i < ?n * 8 \<Longrightarrow> mw ! i = w_in s ! i"
    using make_pollee_ok[of ?n "w_in s" w] n(1) len iD(2) by metis
  define s1 where "s1 = s\<lparr>cap_out := cap_in s, r_out := mr, w_out := mw\<rparr>"
  have s1: "prepare_select junk s = Inr s1"
    using inv assms(2) mr(1) mw(1)
    by (cases s) (auto simp: s1_def prepare_select_def r_def w_def Let_def sel_inv_def split: if_splits)
  have "sel_inv s1" using inv mr(2) mw(2) by (simp add: s1_def sel_inv_def)
  moreover have "sel_reg s1 = sel_reg s" by (simp add: s1_def sel_reg_def fun_eq_iff split: etype.split)
  moreover have "(r_out s1 ! i \<longleftrightarrow> sel_reg s (READ, int i) \<noteq> None) \<and>
      (w_out s1 ! i \<longleftrightarrow> sel_reg s (WRITE, int i) \<noteq> None)" if "i < nat (max_fd s + 1)" for i
  proof -
    have i: "i < ?n * 8" "i < cap_in s * 8" using that n by linarith+
    then have "r_out s1 ! i = r_in s ! i" "w_out s1 ! i = w_in s ! i"
      using mr(3) mw(3) by (simp_all add: s1_def)
    then show ?thesis using iD(5,6)[OF i(2)] i(2) by (simp add: sel_reg_def)
  qed
  moreover have "nat (max_fd s + 1) \<le> cap_in s * 8" using n by linarith
  ultimately show thesis using that[OF s1] mr(2) mw(2) by (simp add: s1_def)
qed

text \<open>What the manual of the system call promises: the result masks are subsets of the given ones.\<close>

definition select_doc :: "sys_select \<Rightarrow> bool" where
  "select_doc sys = (\<forall>n r w tv r' w'. sys n r w tv = Inr (r', w') \<longrightarrow>
     length r' = length r \<and> length w' = length w \<and>
     (\<forall>i. int i < n \<longrightarrow> (r' ! i \<longrightarrow> r ! i) \<and> (w' ! i \<longrightarrow> w ! i)))"

lemma sel_poll_ok:
  fixes s :: select and junk :: "nat \<Rightarrow> bool"
  assumes prep: "prepare_select junk s = Inr s1"
    and inv: "sel_inv s" and on: "handles P on f" and P: "\<And>s'. sel_inv s' \<Longrightarrow> sel_reg s' = sel_reg s \<Longrightarrow> P s' x"
    and doc: "select_doc sys" and m: "max_fd s \<noteq> -1"
  shows "case sys (max_fd s + 1) (r_out s1) (w_out s1) tv of
      Inl errno \<Rightarrow> sel_poll sys junk tv on (s, x) = Inl (System_error errno)
    | Inr (r, w) \<Rightarrow> \<exists>s'. sel_poll sys junk tv on (s, x) =
          Inr (s', fold f (ready_below r w s (nat (max_fd s + 1))) x) \<and>
          P s' (fold f (ready_below r w s (nat (max_fd s + 1))) x) \<and> sel_inv s'"
proof (cases "sys (max_fd s + 1) (r_out s1) (w_out s1) tv")
  case (Inl errno)
  have "max_fd s1 = max_fd s" using prepare_select_ok[OF inv m, of junk] prep by (metis sum.inject(2))
  then show ?thesis using m Inl prep by (simp add: sel_poll_def Let_def)
next
  case (Inr rw)
  obtain r w where rw: "rw = (r, w)" by (cases rw)
  have p: "sel_inv s1" "max_fd s1 = max_fd s" "cap_in s1 = cap_in s" "sel_reg s1 = sel_reg s"
    "nat (max_fd s + 1) \<le> length (r_out s1)" "nat (max_fd s + 1) \<le> length (w_out s1)"
    using prepare_select_ok[OF inv m, of junk] prep by (metis sum.inject(2))+
  let ?s = "s1\<lparr>r_out := r, w_out := w\<rparr>" and ?n = "nat (max_fd s + 1)"
  have len: "length r = length (r_out s1)" "length w = length (w_out s1)"
    using doc Inr rw unfolding select_doc_def by blast+
  have inv1: "sel_inv ?s" using len p(1) by (simp add: sel_inv_def)
  have "sel_reg ?s = sel_reg s1" by (simp add: sel_reg_def fun_eq_iff split: etype.split)
  then have reg: "sel_reg ?s = sel_reg s" using p by simp
  have same: "ready_below r w ?s n = ready_below r w s n" for n
    by (induction n) (simp_all add: ready_at_def reg)
  have "max_fd s < int (cap_in s * 8)" using sel_invD(7)[OF inv] .
  then have "?n \<le> cap_in ?s * 8" "?n \<le> length (r_out ?s)" "?n \<le> length (w_out ?s)"
    using p len by auto
  from poll_loop_ok[where x = x, OF on inv1 this P[OF inv1 reg]] obtain s' where s':
    "poll_loop on ?n (?s, x) = Inr (s', fold f (ready_below r w s ?n) x)"
    "P s' (fold f (ready_below r w s ?n) x)"
    "unrelated {(ty, fd). 0 \<le> fd \<and> fd < int ?n} ?s s'"
    by (auto simp: same)
  have "sel_poll sys junk tv on (s, x) = poll_loop on ?n (?s, x)"
    using m Inr rw p prep by (simp add: sel_poll_def Let_def)
  then show ?thesis using Inr rw s' by (auto simp: unrelated_def)
qed

section \<open>Histories\<close>

datatype sop = Watch eptr etype int | Unwatch etype int

definition sel_do :: "sop \<Rightarrow> select \<Rightarrow> select result" where
  "sel_do p s = (case p of Watch e ty fd \<Rightarrow> sel_insert e ty fd s | Unwatch ty fd \<Rightarrow> sel_remove ty fd s)"

definition sop_ok :: "sop \<Rightarrow> bool" where
  "sop_ok p = (case p of Watch e ty fd \<Rightarrow> (ty = READ \<or> ty = WRITE) \<and> 0 \<le> fd
     | Unwatch ty fd \<Rightarrow> (ty = READ \<or> ty = WRITE) \<and> 0 \<le> fd)"

definition watch_map :: "sop \<Rightarrow> (etype \<times> int \<Rightarrow> eptr option) \<Rightarrow> etype \<times> int \<Rightarrow> eptr option" where
  "watch_map p m = (case p of Watch e ty fd \<Rightarrow> m((ty, fd) \<mapsto> e) | Unwatch ty fd \<Rightarrow> m((ty, fd) := None))"

lemma sel_init_inv: "sel_inv sel_init" "sel_reg sel_init = (\<lambda>_. None)"
  by (auto simp: sel_inv_def sel_init_def masked_def sel_reg_def fun_eq_iff)

lemma sel_do_ok:
  assumes "sel_inv s" "sop_ok p"
  shows "\<exists>s'. sel_do p s = Inr s' \<and> sel_inv s' \<and> sel_reg s' = watch_map p (sel_reg s)"
proof (cases p)
  case (Watch e ty fd)
  then show ?thesis
    using sel.insert_any[OF assms(1), of ty fd e] assms(2) by (simp add: sel_do_def sop_ok_def watch_map_def)
next
  case (Unwatch ty fd)
  then show ?thesis
    using sel.remove_any[OF assms(1), of ty fd] assms(2) by (simp add: sel_do_def sop_ok_def watch_map_def)
qed

lemma sel_run_ok:
  assumes "sel_inv s" "\<forall>p \<in> set ops. sop_ok p"
  shows "\<exists>s'. fold_r sel_do ops s = Inr s' \<and> sel_inv s' \<and> sel_reg s' = fold watch_map ops (sel_reg s)"
  using assms
proof (induction ops arbitrary: s)
  case (Cons p ops)
  obtain s1 where "sel_do p s = Inr s1" "sel_inv s1" "sel_reg s1 = watch_map p (sel_reg s)"
    using sel_do_ok[OF Cons.prems(1), of p] Cons.prems(2) by auto
  then show ?case using Cons.IH[of s1] Cons.prems(2) by auto
qed simp

text \<open>C27: whatever events are inserted into the \<open>select\<close> demultiplexer and removed from it, in any
  order, repeated or not, for any descriptors, no operation leaves the memory it has allocated, and
  the masks that the next poll hands to the system call have exactly the bits of the descriptors
  that are being watched: the last insertion for a kind and descriptor that no removal followed.\<close>

theorem select_watches_registered:
  assumes "\<forall>p \<in> set ops. sop_ok p"
  shows "\<exists>s. fold_r sel_do ops sel_init = Inr s \<and>
    (\<exists>s1. prepare_select junk s = Inr s1 \<and> (let watched = fold watch_map ops (\<lambda>_. None) in
       (\<forall>fd. (r_out s1 ! fd \<and> int fd \<le> max_fd s1 \<longleftrightarrow> watched (READ, int fd) \<noteq> None) \<and>
             (w_out s1 ! fd \<and> int fd \<le> max_fd s1 \<longleftrightarrow> watched (WRITE, int fd) \<noteq> None))))"
proof -
  obtain s where s: "fold_r sel_do ops sel_init = Inr s" "sel_inv s"
    "sel_reg s = fold watch_map ops (\<lambda>_. None)"
    using sel_run_ok[OF sel_init_inv(1) assms] sel_init_inv(2) by auto
  have above: "sel_reg s (ty, int fd) = None" if "max_fd s < int fd" for ty fd
    using s(2) that by (auto simp: sel_reg_def sel_inv_def split: etype.split)
  show ?thesis
  proof (cases "max_fd s = -1")
    case True
    then obtain s1 where "prepare_select junk s = Inr s1" "max_fd s1 = -1"
      by (simp add: prepare_select_def make_pollee_def Let_def)
    then show ?thesis using s(1,3) above True by (simp add: Let_def)
  next
    case False
    obtain s1 where p: "prepare_select junk s = Inr s1" "max_fd s1 = max_fd s"
      "\<And>i. i < nat (max_fd s + 1) \<Longrightarrow> (r_out s1 ! i \<longleftrightarrow> sel_reg s (READ, int i) \<noteq> None) \<and>
         (w_out s1 ! i \<longleftrightarrow> sel_reg s (WRITE, int i) \<noteq> None)"
      using prepare_select_ok[OF s(2) False, of junk] by metis
    have fd: "fd < nat (max_fd s + 1) \<longleftrightarrow> int fd \<le> max_fd s" for fd by linarith
    have "(r_out s1 ! fd \<and> int fd \<le> max_fd s1 \<longleftrightarrow> sel_reg s (READ, int fd) \<noteq> None) \<and>
      (w_out s1 ! fd \<and> int fd \<le> max_fd s1 \<longleftrightarrow> sel_reg s (WRITE, int fd) \<noteq> None)" for fd
    proof (cases "int fd \<le> max_fd s")
      case True
      then show ?thesis using p fd[of fd] by simp
    next
      case False
      then show ?thesis using p(2) above[of fd] by simp
    qed
    then show ?thesis using s(1,3) p(1) by (simp add: Let_def)
  qed
qed

lemma select_watches_registered_witness:
  defines "ops \<equiv> [Watch 5 READ 3, Watch 6 WRITE 3, Watch 7 READ 70, Unwatch READ 70, Watch 8 READ 3]"
  shows "\<exists>s s1. fold_r sel_do ops sel_init = Inr s \<and> prepare_select (\<lambda>_. True) s = Inr s1 \<and>
    r_out s1 ! 3 \<and> \<not> (70 \<le> max_fd s1 \<and> r_out s1 ! 70)"
proof -
  have "\<forall>p \<in> set ops. sop_ok p" by (simp add: ops_def sop_ok_def)
  from select_watches_registered[OF this, of "\<lambda>_. True"] obtain s s1 where s:
    "fold_r sel_do ops sel_init = Inr s" "prepare_select (\<lambda>_. True) s = Inr s1"
    "\<And>fd. r_out s1 ! fd \<and> int fd \<le> max_fd s1 \<longleftrightarrow> fold watch_map ops (\<lambda>_. None) (READ, int fd) \<noteq> None"
    by (auto simp: Let_def)
  have "r_out s1 ! 3" using s(3)[of 3] by (simp add: ops_def watch_map_def)
  moreover have "\<not> (70 \<le> max_fd s1 \<and> r_out s1 ! 70)" using s(3)[of 70] by (auto simp: ops_def watch_map_def)
  ultimately show ?thesis using s(1,2) by blast
qed

end
