(* ===== verification/Reactor.thy ===== *)
theory Reactor
  imports Select
begin

text \<open>
  The reactor (reactor.hpp, reactor.cpp): the event loop that every process of the system runs.

  Only the owner thread touches the event set, the timer heap and the demultiplexer; other threads
  hand it closures through the queue \<open>_promises\<close> and it hands events to the worker threads through
  the queue of its thread pool. A closure is a value of \<open>promise\<close>, a queued task one of
  \<open>rtask\<close>. A \<open>shared_ptr\<close> to an event is its address; the address is free again when neither the
  event set nor a closure nor a task holds it.

  The handlers \<open>_on\<close> of the events are user code: the step relation lets each return any signal, and
  lets every thread call the reactor's operations at any time. The pool has at least one worker, as
  the constructor's comment asks. The queue of closures is a third-party lock-free queue that keeps
  no order between threads: a step may take any closure out of it.
\<close>

section \<open>The state\<close>

record event =
  ev_type :: etype
  ev_fd :: int

datatype promise =
    P_insert eptr
  | P_remove eptr
  | P_freeze eptr
  | P_thaw eptr
  | P_rearm_read eptr
  | P_rearm_timer eptr
  | P_break

datatype rtask = Handle eptr | Destroy eptr

record reactor =
  r_event :: "eptr \<Rightarrow> event"
  eventset :: "eptr list"
  timeoutpq :: theap
  r_demux :: select
  promises :: "promise list"
  tasks :: "rtask list"
  notifier :: eptr
  notified :: bool
  sync_time_point :: int
  break_loop :: bool
  threshold :: nat

definition async :: "rtask \<Rightarrow> reactor \<Rightarrow> reactor" where
  "async t R = R\<lparr>tasks := tasks R @ [t]\<rparr>"

text \<open>
  The constructor: \<open>n\<close> is the notifier, a read event on the descriptor that \<open>eventfd\<close> has returned
  unless it has failed with an \<open>errno\<close>. The demultiplexer is the one of the class, still empty.
\<close>

definition reactor_init :: "eptr \<Rightarrow> int + int \<Rightarrow> int \<Rightarrow> reactor result" where
  "reactor_init n r now = (case r of
     Inl errno \<Rightarrow> Inl (System_error errno)
   | Inr fd \<Rightarrow> bind_r (sel_insert n READ fd sel_init) (\<lambda>d.
       Inr \<lparr>r_event = (\<lambda>_. \<lparr>ev_type = READ, ev_fd = fd\<rparr>), eventset = [],
            timeoutpq = \<lparr>hp_array = [], hp_timer = (\<lambda>_. mk_timer 0 False 0)\<rparr>,
            r_demux = d, promises = [], tasks = [], notifier = n, notified = False,
            sync_time_point = now, break_loop = False, threshold = 0\<rparr>))"

section \<open>The operations of the owner thread\<close>

definition arm_timer :: "eptr \<Rightarrow> reactor \<Rightarrow> reactor" where
  "arm_timer e R = R\<lparr>timeoutpq := hp_insert e (timeoutpq R)\<rparr>"

definition disarm_timer :: "eptr \<Rightarrow> reactor \<Rightarrow> reactor" where
  "disarm_timer e R = R\<lparr>timeoutpq := hp_remove e (timeoutpq R)\<rparr>"

definition demux_insert :: "eptr \<Rightarrow> reactor \<Rightarrow> reactor result" where
  "demux_insert e R = bind_r (sel_insert e (ev_type (r_event R e)) (ev_fd (r_event R e)) (r_demux R))
     (\<lambda>d. Inr (R\<lparr>r_demux := d\<rparr>))"

definition demux_remove :: "eptr \<Rightarrow> reactor \<Rightarrow> reactor result" where
  "demux_remove e R = bind_r (sel_remove (ev_type (r_event R e)) (ev_fd (r_event R e)) (r_demux R))
     (\<lambda>d. Inr (R\<lparr>r_demux := d\<rparr>))"

text \<open>The switch on the type of the event that \<open>_freeze\<close> and \<open>_remove\<close> make, and that of \<open>_thaw\<close>.\<close>

definition disarm :: "eptr \<Rightarrow> reactor \<Rightarrow> reactor result" where
  "disarm e R = (case ev_type (r_event R e) of
     TIMEOUT \<Rightarrow> Inr (disarm_timer e R) | PERIODIC \<Rightarrow> Inr (disarm_timer e R)
   | READ \<Rightarrow> demux_remove e R | WRITE \<Rightarrow> demux_remove e R)"

definition arm :: "eptr \<Rightarrow> reactor \<Rightarrow> reactor result" where
  "arm e R = (case ev_type (r_event R e) of
     TIMEOUT \<Rightarrow> Inr (arm_timer e R) | PERIODIC \<Rightarrow> Inr (arm_timer e R)
   | READ \<Rightarrow> demux_insert e R | WRITE \<Rightarrow> demux_insert e R)"

definition r_freeze :: "eptr \<Rightarrow> reactor \<Rightarrow> (bool \<times> reactor) result" where
  "r_freeze e R = (if e \<notin> set (eventset R) then Inr (False, R)
     else bind_r (disarm e R) (\<lambda>R. Inr (True, R)))"

definition r_thaw :: "eptr \<Rightarrow> reactor \<Rightarrow> (bool \<times> reactor) result" where
  "r_thaw e R = (if e \<notin> set (eventset R) then Inr (False, R)
     else bind_r (arm e R) (\<lambda>R. Inr (True, R)))"

definition r_remove :: "eptr \<Rightarrow> reactor \<Rightarrow> (bool \<times> reactor) result" where
  "r_remove e R = (if e \<in> set (eventset R)
     then bind_r (disarm e R) (\<lambda>R. Inr (True, async (Destroy e) (R\<lparr>eventset := removeAll e (eventset R)\<rparr>)))
     else Inr (False, R))"

text \<open>
  \<open>insert\<close>: the caller's thread constructs the event, with the handle that its type takes, and the
  closure enters it. A write event is not watched until it is thawed.
\<close>

definition make_event :: "eptr \<Rightarrow> event \<Rightarrow> timer \<Rightarrow> reactor \<Rightarrow> reactor" where
  "make_event e ev tm R = R\<lparr>r_event := (r_event R)(e := ev),
     timeoutpq := (timeoutpq R)\<lparr>hp_timer := (hp_timer (timeoutpq R))(e := tm)\<rparr>\<rparr>"

definition r_insert :: "eptr \<Rightarrow> reactor \<Rightarrow> reactor result" where
  "r_insert e R =
    (let R1 = R\<lparr>eventset := List.insert e (eventset R)\<rparr> in
     case ev_type (r_event R e) of
       TIMEOUT \<Rightarrow> Inr (arm_timer e R1) | PERIODIC \<Rightarrow> Inr (arm_timer e R1)
     | READ \<Rightarrow> demux_insert e R1
     | WRITE \<Rightarrow> Inr R1)"

definition r_clear :: "reactor \<Rightarrow> reactor" where
  "r_clear R = R\<lparr>timeoutpq := hp_clear (timeoutpq R), r_demux := sel_clear (r_demux R), eventset := []\<rparr>"

definition run_promise :: "promise \<Rightarrow> reactor \<Rightarrow> reactor result" where
  "run_promise p R = (case p of
     P_insert e \<Rightarrow> r_insert e R
   | P_remove e \<Rightarrow> bind_r (r_remove e R) (\<lambda>(_, R). Inr R)
   | P_freeze e \<Rightarrow> bind_r (r_freeze e R) (\<lambda>(_, R). Inr R)
   | P_thaw e \<Rightarrow> bind_r (r_thaw e R) (\<lambda>(_, R). Inr R)
   | P_rearm_read e \<Rightarrow> if e \<in> set (eventset R) then demux_insert e R else Inr R
   | P_rearm_timer e \<Rightarrow> if e \<in> set (eventset R) then Inr (arm_timer e R) else Inr R
   | P_break \<Rightarrow> Inr (R\<lparr>break_loop := True\<rparr>))"

lemma run_promise_promises: "run_promise p R = Inr R' \<Longrightarrow> promises R' = promises R"
  by (auto simp: run_promise_def r_insert_def r_remove_def r_freeze_def r_thaw_def arm_def disarm_def
      arm_timer_def disarm_timer_def demux_insert_def demux_remove_def async_def Let_def
      split: promise.splits etype.splits if_splits)

text \<open>\<open>_carry_on_promises\<close>: closures are taken from the queue and run until it is empty.\<close>

function carry_on_promises :: "reactor \<Rightarrow> reactor result" where
  "carry_on_promises R = (case promises R of
     [] \<Rightarrow> Inr R
   | p # qs \<Rightarrow> bind_r (run_promise p (R\<lparr>promises := qs\<rparr>)) carry_on_promises)"
  by pat_completeness auto
termination
  by (relation "measure (\<lambda>R. length (promises R))") (auto dest: run_promise_promises)

declare carry_on_promises.simps [simp del]

text \<open>\<open>_activate_event\<close>: the notifier is drained, any other event goes to the thread pool.\<close>

definition activate_event :: "eptr \<Rightarrow> reactor \<Rightarrow> reactor result" where
  "activate_event e R =
    (if e = notifier R then Inr (R\<lparr>notified := False\<rparr>)
     else case ev_type (r_event R e) of
       READ \<Rightarrow> bind_r (demux_remove e R) (\<lambda>R. Inr (async (Handle e) R))
     | WRITE \<Rightarrow> bind_r (demux_remove e R) (\<lambda>R. Inr (async (Handle e) R))
     | TIMEOUT \<Rightarrow> Inr (async (Handle e) R)
     | PERIODIC \<Rightarrow> Inr (async (Handle e) R))"

lemma hp_size_bubble_down [simp]: "hp_size (bubble_down i e h) = hp_size h"
proof (induction i e h rule: bubble_down.induct)
  case (1 i e h)
  show ?case by (subst bubble_down.simps) (simp add: Let_def 1)
qed

lemma hp_pop_size: "hp_pop h = (Some e, h') \<Longrightarrow> hp_size h' < hp_size h"
  by (auto simp: hp_pop_def Let_def hp_pop_back_def hp_size_def split: if_splits)
     (metis One_nat_def diff_less hp_size_bubble_down hp_size_def length_butlast length_greater_0_conv
        less_numeral_extra(1) theap.select_convs(1) theap.simps(3) theap.surjective theap.update_convs(1))

lemma activate_event_pq: "activate_event e R = Inr R' \<Longrightarrow> timeoutpq R' = timeoutpq R"
  by (auto simp: activate_event_def demux_remove_def async_def split: if_splits etype.splits)

text \<open>\<open>_poll_timeout_events\<close>: the heap is popped while its first event is due.\<close>

function poll_timeout_events :: "reactor \<Rightarrow> reactor result" where
  "poll_timeout_events R =
    (case hp_top (timeoutpq R) of
       None \<Rightarrow> Inr R
     | Some t \<Rightarrow>
         if timeout (hp_timer (timeoutpq R) t) > sync_time_point R then Inr R
         else (case hp_pop (timeoutpq R) of
             (None, _) \<Rightarrow> Inr R
           | (Some e, q) \<Rightarrow> bind_r (activate_event e (R\<lparr>timeoutpq := q\<rparr>)) poll_timeout_events))"
  by pat_completeness auto
termination
  by (relation "measure (\<lambda>R. hp_size (timeoutpq R))")
     (auto dest!: hp_pop_size [OF sym] simp: activate_event_pq)

declare poll_timeout_events.simps [simp del]

text \<open>
  \<open>_poll_io_events\<close>. While the demultiplexer polls, the rest of the reactor is the second component
  of its state; \<open>milliseconds::max()\<close> is the timeout when there are no timers.
\<close>

definition io_handler :: "eptr \<Rightarrow> select \<times> reactor \<Rightarrow> (select \<times> reactor) result" where
  "io_handler e dR = (case dR of (d, R) \<Rightarrow>
     bind_r (activate_event e (R\<lparr>r_demux := d\<rparr>)) (\<lambda>R'. Inr (r_demux R', R'\<lparr>r_demux := r_demux R\<rparr>)))"

definition poll_demux :: "sys_select \<Rightarrow> (nat \<Rightarrow> bool) \<Rightarrow> int \<times> int \<Rightarrow> reactor \<Rightarrow> reactor result" where
  "poll_demux sys junk tv R =
    bind_r (sel_poll sys junk tv io_handler (r_demux R, R)) (\<lambda>(d, R'). Inr (R'\<lparr>r_demux := d\<rparr>))"

definition poll_io_events :: "sys_select \<Rightarrow> (nat \<Rightarrow> bool) \<Rightarrow> reactor \<Rightarrow> reactor result" where
  "poll_io_events sys junk R =
    (case hp_top (timeoutpq R) of
       Some e \<Rightarrow>
         let t = timeout (hp_timer (timeoutpq R) e) in
         if t > sync_time_point R
         then poll_demux sys junk (to_timeval 1000000000 (t - sync_time_point R)) R
         else Inr R
     | None \<Rightarrow> poll_demux sys junk (to_timeval 1000 (2 ^ 63 - 1)) R)"

section \<open>The dispatch loop\<close>

text \<open>
  One pass of the loop of \<open>dispatch\<close>; the flag says that the loop is left. The kernel, the clock
  and the user's predicate \<open>_break_loop_on\<close> are the inputs of the pass.
\<close>

definition dispatch_pass ::
    "sys_select \<Rightarrow> (nat \<Rightarrow> bool) \<Rightarrow> int \<Rightarrow> (reactor \<Rightarrow> bool) \<Rightarrow> reactor \<Rightarrow> (bool \<times> reactor) result" where
  "dispatch_pass sys junk now break_on R =
    bind_r (carry_on_promises R) (\<lambda>R1.
      if break_loop R1 \<or> length (eventset R1) \<le> threshold R1 \<or> break_on R1 then Inr (True, R1)
      else bind_r (poll_io_events sys junk R1) (\<lambda>R2.
        bind_r (poll_timeout_events (R2\<lparr>sync_time_point := now\<rparr>)) (\<lambda>R3. Inr (False, R3))))"

text \<open>
  \<open>dispatch\<close> with the inputs of its first passes; \<open>others\<close> is what the other threads have done
  to the two queues when a pass begins. The result says whether the loop has been left by then.
\<close>

fun dispatch_loop :: "(sys_select \<times> (nat \<Rightarrow> bool) \<times> int \<times> (reactor \<Rightarrow> bool) \<times> (reactor \<Rightarrow> reactor)) list \<Rightarrow>
    reactor \<Rightarrow> (bool \<times> reactor) result" where
  "dispatch_loop [] R = Inr (False, R)"
| "dispatch_loop ((sys, junk, now, break_on, others) # ins) R =
    bind_r (dispatch_pass sys junk now break_on (others R)) (\<lambda>(left, R).
      if left then Inr (True, R\<lparr>break_loop := True\<rparr>) else dispatch_loop ins R)"

definition dispatch :: "bool \<Rightarrow>
    (sys_select \<times> (nat \<Rightarrow> bool) \<times> int \<times> (reactor \<Rightarrow> bool) \<times> (reactor \<Rightarrow> reactor)) list \<Rightarrow>
    reactor \<Rightarrow> (bool \<times> reactor) result" where
  "dispatch is_owner ins R =
    (if \<not> is_owner then Inl (Runtime_error ''Only the reactor owner can dispatch event(s)'')
     else dispatch_loop ins (R\<lparr>break_loop := False\<rparr>))"

section \<open>The worker threads\<close>

text \<open>
  The task that \<open>_activate_event\<close> has queued: the handler returns \<open>sig\<close>, and the worker asks the
  owner to remove the event or to watch it again. A one-shot timer is always removed. For a
  periodic timer the worker itself writes the next deadline.
\<close>

definition run_handler :: "eptr \<Rightarrow> signal \<Rightarrow> reactor \<Rightarrow> reactor" where
  "run_handler e sig R = (case ev_type (r_event R e) of
     READ \<Rightarrow> R\<lparr>promises := promises R @ [if sig = REMOVE then P_remove e else P_rearm_read e]\<rparr>
   | WRITE \<Rightarrow> (if sig = REMOVE then R\<lparr>promises := promises R @ [P_remove e]\<rparr> else R)
   | TIMEOUT \<Rightarrow> R\<lparr>promises := promises R @ [P_remove e]\<rparr>
   | PERIODIC \<Rightarrow>
       (if sig = REMOVE then R\<lparr>promises := promises R @ [P_remove e]\<rparr>
        else let tm = hp_timer (timeoutpq R) in
          R\<lparr>timeoutpq := (timeoutpq R)\<lparr>hp_timer := tm(e := (tm e)\<lparr>timeout :=
               sync_time_point R + duration (tm e)\<rparr>)\<rparr>,
            promises := promises R @ [P_rearm_timer e]\<rparr>))"

section \<open>Steps\<close>

fun promise_event :: "promise \<Rightarrow> eptr set" where
  "promise_event (P_insert e) = {e}"
| "promise_event (P_remove e) = {e}"
| "promise_event (P_freeze e) = {e}"
| "promise_event (P_thaw e) = {e}"
| "promise_event (P_rearm_read e) = {e}"
| "promise_event (P_rearm_timer e) = {e}"
| "promise_event P_break = {}"

fun task_event :: "rtask \<Rightarrow> eptr" where
  "task_event (Handle e) = e"
| "task_event (Destroy e) = e"

text \<open>The events that somebody still holds.\<close>

definition refs :: "reactor \<Rightarrow> eptr set" where
  "refs R = insert (notifier R) (set (eventset R) \<union> (\<Union>p \<in> set (promises R). promise_event p) \<union>
     task_event ` set (tasks R))"

definition ev_timed :: "reactor \<Rightarrow> eptr \<Rightarrow> bool" where
  "ev_timed R e = (ev_type (r_event R e) = TIMEOUT \<or> ev_type (r_event R e) = PERIODIC)"

definition ev_key :: "reactor \<Rightarrow> eptr \<Rightarrow> etype \<times> int" where
  "ev_key R e = (ev_type (r_event R e), ev_fd (r_event R e))"

text \<open>
  The calls that the steps consider. \<open>T\<close> and \<open>F\<close> are the types of the events that the program thaws
  and freezes. A new event has an address that nobody holds, is not in a heap, and reads from a
  descriptor of its own, which the operating system does not hand out twice while it is open.
\<close>

definition call_ok :: "etype set \<Rightarrow> etype set \<Rightarrow> reactor \<Rightarrow> promise \<Rightarrow> bool" where
  "call_ok T F R p = (case p of
     P_insert e \<Rightarrow> False
   | P_remove e \<Rightarrow> e \<noteq> notifier R \<and> e \<in> refs R
   | P_freeze e \<Rightarrow> e \<noteq> notifier R \<and> e \<in> refs R \<and> ev_type (r_event R e) \<in> F
   | P_thaw e \<Rightarrow> e \<noteq> notifier R \<and> e \<in> refs R \<and> ev_type (r_event R e) \<in> T
   | P_rearm_read e \<Rightarrow> False | P_rearm_timer e \<Rightarrow> False
   | P_break \<Rightarrow> True)"

definition new_ok :: "reactor \<Rightarrow> eptr \<Rightarrow> event \<Rightarrow> timer \<Rightarrow> bool" where
  "new_ok R e ev tm = (e \<notin> refs R \<and> satellite tm = -1 \<and>
     (ev_type ev = READ \<or> ev_type ev = WRITE \<longrightarrow> 0 \<le> ev_fd ev) \<and>
     (ev_type ev = READ \<longrightarrow> (\<forall>f \<in> refs R. ev_type (r_event R f) = READ \<longrightarrow> ev_fd (r_event R f) \<noteq> ev_fd ev)))"

inductive r_step :: "etype set \<Rightarrow> etype set \<Rightarrow> reactor \<Rightarrow> reactor \<Rightarrow> bool" for T F where
  carry: "promises R = ps @ p # qs \<Longrightarrow> run_promise p (R\<lparr>promises := ps @ qs\<rparr>) = Inr R' \<Longrightarrow>
    r_step T F R R'"
| poll_io: "select_doc sys \<Longrightarrow> poll_io_events sys junk R = Inr R' \<Longrightarrow> r_step T F R R'"
| timeouts: "poll_timeout_events (R\<lparr>sync_time_point := now\<rparr>) = Inr R' \<Longrightarrow> r_step T F R R'"
| handler: "tasks R = ts @ Handle e # us \<Longrightarrow> r_step T F R (run_handler e sig (R\<lparr>tasks := ts @ us\<rparr>))"
| destroy: "tasks R = ts @ Destroy e # us \<Longrightarrow> r_step T F R (R\<lparr>tasks := ts @ us\<rparr>)"
| call: "call_ok T F R p \<Longrightarrow> r_step T F R (R\<lparr>promises := promises R @ [p]\<rparr>)"
| construct: "new_ok R e ev tm \<Longrightarrow>
    r_step T F R ((make_event e ev tm R)\<lparr>promises := promises R @ [P_insert e]\<rparr>)"

inductive r_reach :: "etype set \<Rightarrow> etype set \<Rightarrow> reactor \<Rightarrow> bool" for T F where
  init: "reactor_init n (Inr fd) now = Inr R \<Longrightarrow> 0 \<le> fd \<Longrightarrow> r_reach T F R"
| step: "r_reach T F R \<Longrightarrow> r_step T F R R' \<Longrightarrow> r_reach T F R'"

section \<open>The invariant\<close>

definition inflight :: "reactor \<Rightarrow> eptr \<Rightarrow> nat" where
  "inflight R e = count_list (tasks R) (Handle e) + count_list (promises R) (P_rearm_read e) +
     count_list (promises R) (P_rearm_timer e)"

definition armed :: "reactor \<Rightarrow> eptr \<Rightarrow> bool" where
  "armed R e = (e \<in> hp_set (timeoutpq R) \<or> sel_reg (r_demux R) (ev_key R e) = Some e)"

text \<open>Nothing is armed that is not owned, and it is armed as what it is.\<close>

definition arms_ok :: "reactor \<Rightarrow> bool" where
  "arms_ok R = (hp_inv (timeoutpq R) \<and> sel_inv (r_demux R) \<and> distinct (eventset R) \<and>
     notifier R \<notin> set (eventset R) \<and> ev_type (r_event R (notifier R)) = READ \<and>
     sel_reg (r_demux R) (ev_key R (notifier R)) = Some (notifier R) \<and>
     (\<forall>e \<in> hp_set (timeoutpq R). e \<in> set (eventset R) \<and> ev_timed R e) \<and>
     (\<forall>k e. sel_reg (r_demux R) k = Some e \<longrightarrow>
        k = ev_key R e \<and> \<not> ev_timed R e \<and> (e = notifier R \<or> e \<in> set (eventset R))))"

text \<open>The descriptors of the events that are held, and the closures and tasks that hold them.\<close>

definition refs_ok :: "etype set \<Rightarrow> etype set \<Rightarrow> reactor \<Rightarrow> bool" where
  "refs_ok T F R =
    ((\<forall>e \<in> refs R. \<not> ev_timed R e \<longrightarrow> 0 \<le> ev_fd (r_event R e)) \<and>
     (\<forall>e \<in> refs R. \<forall>f \<in> refs R. e \<noteq> f \<longrightarrow> ev_type (r_event R e) = READ \<longrightarrow> ev_type (r_event R f) = READ \<longrightarrow>
        ev_fd (r_event R e) \<noteq> ev_fd (r_event R f)) \<and>
     (\<forall>p \<in> set (promises R). notifier R \<notin> promise_event p) \<and>
     (\<forall>t \<in> set (tasks R). task_event t \<noteq> notifier R) \<and>
     (\<forall>e. P_insert e \<in> set (promises R) \<longrightarrow>
        e \<notin> set (eventset R) \<and> count_list (promises R) (P_insert e) = 1 \<and> inflight R e = 0) \<and>
     (\<forall>e. P_rearm_read e \<in> set (promises R) \<longrightarrow> ev_type (r_event R e) = READ) \<and>
     (\<forall>e. P_rearm_timer e \<in> set (promises R) \<longrightarrow> ev_type (r_event R e) = PERIODIC) \<and>
     (\<forall>e. P_thaw e \<in> set (promises R) \<longrightarrow> ev_type (r_event R e) \<in> T) \<and>
     (\<forall>e. P_freeze e \<in> set (promises R) \<longrightarrow> ev_type (r_event R e) \<in> F))"

text \<open>No event is handled twice at a time, and none is forgotten.\<close>

definition account_ok :: "etype set \<Rightarrow> etype set \<Rightarrow> reactor \<Rightarrow> bool" where
  "account_ok T F R =
    ((\<forall>e. ev_type (r_event R e) \<notin> T \<longrightarrow> inflight R e + (if armed R e then 1 else 0) \<le> 1) \<and>
     (\<forall>e \<in> set (eventset R). ev_type (r_event R e) \<notin> F \<longrightarrow> ev_type (r_event R e) \<noteq> WRITE \<longrightarrow>
        armed R e \<or> 0 < inflight R e \<or> P_remove e \<in> set (promises R)))"

definition reactor_inv :: "etype set \<Rightarrow> etype set \<Rightarrow> reactor \<Rightarrow> bool" where
  "reactor_inv T F R = (arms_ok R \<and> refs_ok T F R \<and> account_ok T F R)"

lemma armed_simps [simp]:
  "armed (R\<lparr>promises := ps\<rparr>) = armed R"
  "armed (R\<lparr>tasks := ts\<rparr>) = armed R"
  "armed (R\<lparr>eventset := es\<rparr>) = armed R"
  "armed (R\<lparr>sync_time_point := t\<rparr>) = armed R"
  "armed (R\<lparr>notified := b\<rparr>) = armed R"
  "armed (R\<lparr>break_loop := b\<rparr>) = armed R"
  by (simp_all add: fun_eq_iff armed_def ev_key_def)

lemma key_simps [simp]:
  "ev_key (R\<lparr>promises := ps\<rparr>) = ev_key R" "ev_timed (R\<lparr>promises := ps\<rparr>) = ev_timed R"
  "ev_key (R\<lparr>tasks := ts\<rparr>) = ev_key R" "ev_timed (R\<lparr>tasks := ts\<rparr>) = ev_timed R"
  "ev_key (R\<lparr>eventset := es\<rparr>) = ev_key R" "ev_timed (R\<lparr>eventset := es\<rparr>) = ev_timed R"
  "ev_key (R\<lparr>timeoutpq := q\<rparr>) = ev_key R" "ev_timed (R\<lparr>timeoutpq := q\<rparr>) = ev_timed R"
  "ev_key (R\<lparr>r_demux := d\<rparr>) = ev_key R" "ev_timed (R\<lparr>r_demux := d\<rparr>) = ev_timed R"
  "ev_key (R\<lparr>sync_time_point := t\<rparr>) = ev_key R" "ev_timed (R\<lparr>sync_time_point := t\<rparr>) = ev_timed R"
  "ev_key (R\<lparr>notified := b\<rparr>) = ev_key R" "ev_timed (R\<lparr>notified := b\<rparr>) = ev_timed R"
  "ev_key (R\<lparr>break_loop := b\<rparr>) = ev_key R" "ev_timed (R\<lparr>break_loop := b\<rparr>) = ev_timed R"
  by (simp_all add: fun_eq_iff ev_key_def ev_timed_def)

lemma arms_ok_simps [simp]:
  "arms_ok (R\<lparr>promises := ps\<rparr>) = arms_ok R"
  "arms_ok (R\<lparr>tasks := ts\<rparr>) = arms_ok R"
  "arms_ok (R\<lparr>sync_time_point := t\<rparr>) = arms_ok R"
  "arms_ok (R\<lparr>notified := b\<rparr>) = arms_ok R"
  "arms_ok (R\<lparr>break_loop := b\<rparr>) = arms_ok R"
  by (simp_all add: arms_ok_def)

lemma inflight_simps [simp]:
  "inflight (R\<lparr>timeoutpq := q\<rparr>) = inflight R" "inflight (R\<lparr>r_demux := d\<rparr>) = inflight R"
  "inflight (R\<lparr>eventset := es\<rparr>) = inflight R" "inflight (R\<lparr>sync_time_point := t\<rparr>) = inflight R"
  "inflight (R\<lparr>notified := b\<rparr>) = inflight R" "inflight (R\<lparr>break_loop := b\<rparr>) = inflight R"
  by (simp_all add: fun_eq_iff inflight_def)

text \<open>An event of type READ or WRITE can be put into the demultiplexer and taken out of it.\<close>

definition fd_ok :: "reactor \<Rightarrow> eptr \<Rightarrow> bool" where
  "fd_ok R e = ((\<not> ev_timed R e \<longrightarrow> 0 \<le> ev_fd (r_event R e)) \<and> ev_key R e \<noteq> ev_key R (notifier R))"

lemma not_timed: "\<not> ev_timed R e \<longleftrightarrow> ev_type (r_event R e) = READ \<or> ev_type (r_event R e) = WRITE"
  by (cases "ev_type (r_event R e)") (auto simp: ev_timed_def)

text \<open>
  What \<open>arm\<close> and \<open>disarm\<close> do: the state with another heap and demultiplexer, in which only the
  event itself changes, and events with its key, of which there is none but for write events.
\<close>

definition rearms :: "reactor \<Rightarrow> eptr \<Rightarrow> bool \<Rightarrow> reactor \<Rightarrow> bool" where
  "rearms R e b R' = (arms_ok R' \<and> armed R' e = b \<and>
     (\<exists>q d. R' = R\<lparr>timeoutpq := q, r_demux := d\<rparr> \<and> key q = key (timeoutpq R)) \<and>
     (\<forall>x. x \<noteq> e \<longrightarrow> armed R' x \<longrightarrow> armed R x) \<and>
     (\<forall>x. x \<noteq> e \<longrightarrow> armed R x \<longrightarrow> ev_timed R x \<or> ev_key R x \<noteq> ev_key R e \<longrightarrow> armed R' x))"

lemma armed_timed: "arms_ok R \<Longrightarrow> ev_timed R e \<Longrightarrow> armed R e \<longleftrightarrow> e \<in> hp_set (timeoutpq R)"
  unfolding arms_ok_def armed_def by blast

lemma armed_io: "arms_ok R \<Longrightarrow> \<not> ev_timed R e \<Longrightarrow> armed R e \<longleftrightarrow> sel_reg (r_demux R) (ev_key R e) = Some e"
  by (auto simp: arms_ok_def armed_def)

lemma rearms_timer:
  assumes inv: "arms_ok R" and t: "ev_timed R e" and b: "b \<longrightarrow> e \<in> set (eventset R)"
    and q: "hp_inv q" "hp_set q = (if b then insert e (hp_set (timeoutpq R)) else hp_set (timeoutpq R) - {e})"
      "key q = key (timeoutpq R)"
  shows "rearms R e b (R\<lparr>timeoutpq := q\<rparr>)"
proof -
  have arms: "arms_ok (R\<lparr>timeoutpq := q\<rparr>)"
    using inv t b q(1,2) by (auto simp: arms_ok_def split: if_splits)
  have "armed (R\<lparr>timeoutpq := q\<rparr>) x \<longleftrightarrow> (if x = e then b else armed R x)" for x
  proof (cases "ev_timed R x")
    case True
    then show ?thesis using armed_timed[OF arms, of x] armed_timed[OF inv, of x] q(2) by auto
  next
    case False
    then show ?thesis using armed_io[OF arms, of x] armed_io[OF inv, of x] t by auto
  qed
  then show ?thesis
    using arms q(3) by (auto simp: rearms_def intro!: exI[of _ q] exI[of _ "r_demux R"])
qed

lemma rearms_io:
  assumes inv: "arms_ok R" and t: "\<not> ev_timed R e" and b: "b \<longrightarrow> e \<in> set (eventset R)"
    and n: "ev_key R e \<noteq> ev_key R (notifier R)"
    and d: "sel_inv d" "sel_reg d = (sel_reg (r_demux R))(ev_key R e := (if b then Some e else None))"
  shows "rearms R e b (R\<lparr>r_demux := d\<rparr>)"
proof -
  have arms: "arms_ok (R\<lparr>r_demux := d\<rparr>)"
    using inv t b d n by (auto simp: arms_ok_def split: if_splits)
  have "armed (R\<lparr>r_demux := d\<rparr>) x \<longleftrightarrow>
      (if x = e then b else armed R x \<and> (ev_timed R x \<or> ev_key R x \<noteq> ev_key R e))" for x
  proof (cases "ev_timed R x")
    case True
    then show ?thesis using armed_timed[OF arms, of x] armed_timed[OF inv, of x] t by auto
  next
    case False
    then show ?thesis using armed_io[OF arms, of x] armed_io[OF inv, of x] d(2) by auto
  qed
  then show ?thesis
    using arms by (auto simp: rearms_def intro!: exI[of _ "timeoutpq R"] exI[of _ d])
qed

lemma disarm_ok:
  assumes inv: "arms_ok R" and fd: "fd_ok R e"
  shows "\<exists>R'. disarm e R = Inr R' \<and> rearms R e False R'"
proof (cases "ev_timed R e")
  case True
  have "hp_inv (timeoutpq R)" using inv by (simp add: arms_ok_def)
  then have "rearms R e False (R\<lparr>timeoutpq := hp_remove e (timeoutpq R)\<rparr>)"
    using rearms_timer[OF inv True, of False "hp_remove e (timeoutpq R)"]
    by (simp add: hq.remove_inv hq.remove_set hq.remove_time)
  moreover have "disarm e R = Inr (R\<lparr>timeoutpq := hp_remove e (timeoutpq R)\<rparr>)"
    using True by (auto simp: disarm_def disarm_timer_def ev_timed_def)
  ultimately show ?thesis by blast
next
  case False
  then have io: "ev_type (r_event R e) = READ \<or> ev_type (r_event R e) = WRITE" by (simp add: not_timed)
  have "sel_inv (r_demux R)" using inv by (simp add: arms_ok_def)
  then obtain d where d: "sel_remove (ev_type (r_event R e)) (ev_fd (r_event R e)) (r_demux R) = Inr d"
    "sel_inv d" "sel_reg d = (sel_reg (r_demux R))(ev_key R e := None)"
    using sel.remove_any[OF _ io, of "r_demux R" "ev_fd (r_event R e)"] fd False
    by (auto simp: fd_ok_def ev_key_def)
  have "rearms R e False (R\<lparr>r_demux := d\<rparr>)"
    using rearms_io[OF inv False, of False d] d fd by (simp add: fd_ok_def)
  moreover have "disarm e R = Inr (R\<lparr>r_demux := d\<rparr>)"
    using io d(1) by (auto simp: disarm_def demux_remove_def)
  ultimately show ?thesis by blast
qed

lemma arm_ok:
  assumes inv: "arms_ok R" and fd: "fd_ok R e" and e: "e \<in> set (eventset R)"
  shows "\<exists>R'. arm e R = Inr R' \<and> rearms R e True R'"
proof (cases "ev_timed R e")
  case True
  have "hp_inv (timeoutpq R)" using inv by (simp add: arms_ok_def)
  then have "rearms R e True (R\<lparr>timeoutpq := hp_insert e (timeoutpq R)\<rparr>)"
    using rearms_timer[OF inv True, of True "hp_insert e (timeoutpq R)"] e
    by (simp add: hq.insert_inv hq.insert_set hq.insert_time)
  moreover have "arm e R = Inr (R\<lparr>timeoutpq := hp_insert e (timeoutpq R)\<rparr>)"
    using True by (auto simp: arm_def arm_timer_def ev_timed_def)
  ultimately show ?thesis by blast
next
  case False
  then have io: "ev_type (r_event R e) = READ \<or> ev_type (r_event R e) = WRITE" by (simp add: not_timed)
  have "sel_inv (r_demux R)" using inv by (simp add: arms_ok_def)
  then obtain d where d: "sel_insert e (ev_type (r_event R e)) (ev_fd (r_event R e)) (r_demux R) = Inr d"
    "sel_inv d" "sel_reg d = (sel_reg (r_demux R))(ev_key R e := Some e)"
    using sel.insert_any[OF _ io, of "r_demux R" "ev_fd (r_event R e)"] fd False
    by (auto simp: fd_ok_def ev_key_def)
  have "rearms R e True (R\<lparr>r_demux := d\<rparr>)"
    using rearms_io[OF inv False, of True d] d fd e by (simp add: fd_ok_def)
  moreover have "arm e R = Inr (R\<lparr>r_demux := d\<rparr>)"
    using io d(1) by (auto simp: arm_def demux_insert_def)
  ultimately show ?thesis by blast
qed

section \<open>The closures keep the invariant\<close>

lemma refs_okD:
  assumes "refs_ok T F R"
  shows "\<And>e. e \<in> refs R \<Longrightarrow> \<not> ev_timed R e \<Longrightarrow> 0 \<le> ev_fd (r_event R e)"
    "\<And>e f. e \<in> refs R \<Longrightarrow> f \<in> refs R \<Longrightarrow> e \<noteq> f \<Longrightarrow> ev_type (r_event R e) = READ \<Longrightarrow>
       ev_type (r_event R f) = READ \<Longrightarrow> ev_fd (r_event R e) \<noteq> ev_fd (r_event R f)"
    "\<And>p. p \<in> set (promises R) \<Longrightarrow> notifier R \<notin> promise_event p"
    "\<And>t. t \<in> set (tasks R) \<Longrightarrow> task_event t \<noteq> notifier R"
    "\<And>e. P_insert e \<in> set (promises R) \<Longrightarrow> e \<notin> set (eventset R)"
    "\<And>e. P_insert e \<in> set (promises R) \<Longrightarrow> count_list (promises R) (P_insert e) = 1"
    "\<And>e. P_insert e \<in> set (promises R) \<Longrightarrow> inflight R e = 0"
    "\<And>e. P_rearm_read e \<in> set (promises R) \<Longrightarrow> ev_type (r_event R e) = READ"
    "\<And>e. P_rearm_timer e \<in> set (promises R) \<Longrightarrow> ev_type (r_event R e) = PERIODIC"
    "\<And>e. P_thaw e \<in> set (promises R) \<Longrightarrow> ev_type (r_event R e) \<in> T"
    "\<And>e. P_freeze e \<in> set (promises R) \<Longrightarrow> ev_type (r_event R e) \<in> F"
  using assms unfolding refs_ok_def by blast+

lemma refs_ok_step:
  assumes "refs_ok T F R" "r_event R' = r_event R" "notifier R' = notifier R" "refs R' \<subseteq> refs R"
    "set (promises R') \<subseteq> set (promises R)"
    "\<And>t. t \<in> set (tasks R') \<Longrightarrow> task_event t \<noteq> notifier R"
    "\<And>e. P_insert e \<in> set (promises R') \<Longrightarrow>
       e \<notin> set (eventset R') \<and> count_list (promises R') (P_insert e) = 1 \<and> inflight R' e = 0"
  shows "refs_ok T F R'"
proof -
  have "ev_timed R' = ev_timed R" using assms(2) by (simp add: ev_timed_def fun_eq_iff)
  then show ?thesis
    using refs_okD[OF assms(1)] assms(2-7) unfolding refs_ok_def by (simp add: subset_iff)
qed

lemma fd_ok_refs:
  assumes "arms_ok R" "refs_ok T F R" "e \<in> refs R" "e \<noteq> notifier R"
  shows "fd_ok R e"
proof -
  have "notifier R \<in> refs R" by (simp add: refs_def)
  then show ?thesis
    using refs_okD(1)[OF assms(2,3)] refs_okD(2)[OF assms(2,3), of "notifier R"] assms(1,4)
    by (auto simp: fd_ok_def ev_key_def arms_ok_def)
qed

lemma rearms_frame:
  assumes "rearms R e b R'"
  shows "r_event R' = r_event R" "eventset R' = eventset R" "promises R' = promises R" "tasks R' = tasks R"
    "notifier R' = notifier R" "inflight R' = inflight R" "refs R' = refs R" "arms_ok R'"
    "threshold R' = threshold R" "break_loop R' = break_loop R"
    "sync_time_point R' = sync_time_point R" "key (timeoutpq R') = key (timeoutpq R)"
proof -
  obtain q d where R': "R' = R\<lparr>timeoutpq := q, r_demux := d\<rparr>" "key q = key (timeoutpq R)" "arms_ok R'"
    using assms unfolding rearms_def by blast
  show "r_event R' = r_event R" "eventset R' = eventset R" "promises R' = promises R" "tasks R' = tasks R"
    "notifier R' = notifier R" "inflight R' = inflight R" "refs R' = refs R"
    "threshold R' = threshold R" "break_loop R' = break_loop R"
    "sync_time_point R' = sync_time_point R"
    by (simp_all add: R'(1) refs_def)
  show "key (timeoutpq R') = key (timeoutpq R)" unfolding R'(1) using R'(2) by simp
qed (use assms in \<open>simp add: rearms_def\<close>)

lemma rearmsD:
  assumes "rearms R e b R'"
  shows "armed R' e = b" "\<And>x. x \<noteq> e \<Longrightarrow> armed R' x \<Longrightarrow> armed R x"
  using assms unfolding rearms_def by blast+

lemma rearms_refs_ok:
  assumes r: "rearms R e b R'" and refs: "refs_ok T F R"
  shows "refs_ok T F R'"
  by (rule refs_ok_step[OF refs]; unfold rearms_frame[OF r])
     (use refs_okD(4-7)[OF refs] in auto)

lemma account_okD:
  assumes "account_ok T F R"
  shows "\<And>e. ev_type (r_event R e) \<notin> T \<Longrightarrow> inflight R e + (if armed R e then 1 else 0) \<le> 1"
    "\<And>e. e \<in> set (eventset R) \<Longrightarrow> ev_type (r_event R e) \<notin> F \<Longrightarrow> ev_type (r_event R e) \<noteq> WRITE \<Longrightarrow>
       armed R e \<or> 0 < inflight R e \<or> P_remove e \<in> set (promises R)"
  using assms unfolding account_ok_def by blast+

text \<open>Re-arming one event disturbs none that is not a write event.\<close>

lemma rearms_others:
  assumes "rearms R e b R'" "refs_ok T F R" "e \<in> refs R" "x \<in> refs R" "x \<noteq> e"
    "ev_type (r_event R x) \<noteq> WRITE" "armed R x"
  shows "armed R' x"
proof -
  have "ev_timed R x \<or> ev_key R x \<noteq> ev_key R e"
  proof (cases "ev_type (r_event R x) = READ \<and> ev_type (r_event R e) = READ")
    case True
    then show ?thesis using refs_okD(2)[OF assms(2,4,3,5)] by (simp add: ev_key_def)
  next
    case False
    then show ?thesis using assms(6) not_timed[of R x] unfolding ev_key_def by (metis prod.inject)
  qed
  then show ?thesis using assms(1,5,7) unfolding rearms_def by blast
qed

text \<open>Consuming one closure: the number of closures of the others stays the same.\<close>

lemma inflight_promise:
  "promises R = ps @ p # qs \<Longrightarrow> inflight R e = inflight (R\<lparr>promises := ps @ qs\<rparr>) e +
     (if p = P_rearm_read e \<or> p = P_rearm_timer e then 1 else 0)"
  by (auto simp: inflight_def)

lemma refs_promise:
  "promises R = ps @ p # qs \<Longrightarrow> refs (R\<lparr>promises := ps @ qs\<rparr>) \<union> promise_event p = refs R"
  by (auto simp: refs_def)

lemma promise_consumed:
  assumes "refs_ok T F R" "promises R = ps @ p # qs"
  shows "refs_ok T F (R\<lparr>promises := ps @ qs\<rparr>)"
proof (rule refs_ok_step[OF assms(1)])
  show "refs (R\<lparr>promises := ps @ qs\<rparr>) \<subseteq> refs R" using refs_promise[OF assms(2)] by blast
  fix e assume "P_insert e \<in> set (promises (R\<lparr>promises := ps @ qs\<rparr>))"
  then have e: "P_insert e \<in> set (promises R)" and pos: "0 < count_list (ps @ qs) (P_insert e)"
    using assms(2) by (auto simp: count_list_0_iff neq0_conv[symmetric] simp del: neq0_conv)
  then have "count_list (ps @ qs) (P_insert e) = 1"
    using refs_okD(6)[OF assms(1) e] assms(2) by (auto split: if_splits)
  then show "e \<notin> set (eventset (R\<lparr>promises := ps @ qs\<rparr>)) \<and>
      count_list (promises (R\<lparr>promises := ps @ qs\<rparr>)) (P_insert e) = 1 \<and>
      inflight (R\<lparr>promises := ps @ qs\<rparr>) e = 0"
    using refs_okD(5,7)[OF assms(1) e] inflight_promise[OF assms(2), of e] by simp
qed (use assms refs_okD(4)[OF assms(1)] in auto)

lemma account_rearms:
  assumes r: "rearms R e b R'" and refs: "refs_ok T F R" "e \<in> refs R"
    and a1: "\<And>x. x \<noteq> e \<Longrightarrow> ev_type (r_event R x) \<notin> T \<Longrightarrow> inflight R x + (if armed R x then 1 else 0) \<le> 1"
    and a2: "ev_type (r_event R e) \<notin> T \<Longrightarrow> inflight R e + (if b then 1 else 0) \<le> 1"
    and b1: "\<And>x. x \<in> set (eventset R) \<Longrightarrow> x \<noteq> e \<Longrightarrow> ev_type (r_event R x) \<notin> F \<Longrightarrow>
      ev_type (r_event R x) \<noteq> WRITE \<Longrightarrow> armed R x \<or> 0 < inflight R x \<or> P_remove x \<in> set (promises R)"
    and b2: "e \<in> set (eventset R) \<Longrightarrow> ev_type (r_event R e) \<notin> F \<Longrightarrow> ev_type (r_event R e) \<noteq> WRITE \<Longrightarrow>
      b \<or> 0 < inflight R e \<or> P_remove e \<in> set (promises R)"
  shows "account_ok T F R'"
proof -
  note fr = rearms_frame[OF r]
  note ae = rearmsD(1)[OF r] and sub = rearmsD(2)[OF r]
  show ?thesis
    unfolding account_ok_def fr(1,2,3,6)
  proof (intro conjI allI ballI impI)
    fix x assume x: "ev_type (r_event R x) \<notin> T"
    show "inflight R x + (if armed R' x then 1 else 0) \<le> 1"
    proof (cases "x = e")
      case True
      then show ?thesis using a2 x ae by simp
    next
      case False
      then show ?thesis using a1[OF False x] sub[OF False] by (auto split: if_splits)
    qed
  next
    fix x assume x: "x \<in> set (eventset R)" "ev_type (r_event R x) \<notin> F" "ev_type (r_event R x) \<noteq> WRITE"
    show "armed R' x \<or> 0 < inflight R x \<or> P_remove x \<in> set (promises R)"
    proof (cases "x = e")
      case True
      then show ?thesis using b2 x ae by simp
    next
      case False
      have "x \<in> refs R" using x(1) by (simp add: refs_def)
      then show ?thesis using b1[OF x(1) False x(2,3)] rearms_others[OF r refs _ False x(3)] by blast
    qed
  qed
qed

lemma r_insert_arm:
  "r_insert e R = (let R1 = R\<lparr>eventset := List.insert e (eventset R)\<rparr> in
     if ev_type (r_event R e) = WRITE then Inr R1 else arm e R1)"
  by (cases "ev_type (r_event R e)") (simp_all add: r_insert_def arm_def Let_def)

lemma arms_okD:
  assumes "arms_ok R"
  shows "hp_inv (timeoutpq R)" "sel_inv (r_demux R)" "distinct (eventset R)"
    "notifier R \<notin> set (eventset R)" "ev_type (r_event R (notifier R)) = READ"
    "sel_reg (r_demux R) (ev_key R (notifier R)) = Some (notifier R)"
    "\<And>e. e \<in> hp_set (timeoutpq R) \<Longrightarrow> e \<in> set (eventset R) \<and> ev_timed R e"
    "\<And>k e. sel_reg (r_demux R) k = Some e \<Longrightarrow> k = ev_key R e \<and> \<not> ev_timed R e"
    "\<And>k e. sel_reg (r_demux R) k = Some e \<Longrightarrow> e \<noteq> notifier R \<Longrightarrow> e \<in> set (eventset R)"
  using assms unfolding arms_ok_def by blast+

lemma arms_ok_eventset:
  assumes "arms_ok R" "distinct es" "notifier R \<notin> set es"
    "\<And>x. armed R x \<Longrightarrow> x \<noteq> notifier R \<Longrightarrow> x \<in> set (eventset R) \<Longrightarrow> x \<in> set es"
  shows "arms_ok (R\<lparr>eventset := es\<rparr>)"
proof -
  note D = arms_okD[OF assms(1)]
  have "e \<in> set es \<and> ev_timed R e" if "e \<in> hp_set (timeoutpq R)" for e
    using D(4) D(7)[OF that] assms(4)[of e] that by (auto simp: armed_def)
  moreover have "k = ev_key R e \<and> \<not> ev_timed R e \<and> (e = notifier R \<or> e \<in> set es)"
    if "sel_reg (r_demux R) k = Some e" for k e
    using D(8,9)[OF that] assms(4)[of e] that unfolding armed_def by blast
  moreover have "arms_ok (R\<lparr>eventset := es\<rparr>) \<longleftrightarrow> hp_inv (timeoutpq R) \<and> sel_inv (r_demux R) \<and>
     distinct es \<and> notifier R \<notin> set es \<and> ev_type (r_event R (notifier R)) = READ \<and>
     sel_reg (r_demux R) (ev_key R (notifier R)) = Some (notifier R) \<and>
     (\<forall>e \<in> hp_set (timeoutpq R). e \<in> set es \<and> ev_timed R e) \<and>
     (\<forall>k e. sel_reg (r_demux R) k = Some e \<longrightarrow>
        k = ev_key R e \<and> \<not> ev_timed R e \<and> (e = notifier R \<or> e \<in> set es))"
    by (simp add: arms_ok_def del: split_paired_All)
  ultimately show ?thesis using D(1,2,5,6) assms(2,3) by blast
qed

lemma arms_ok_insert:
  assumes "arms_ok R" "e \<noteq> notifier R"
  shows "arms_ok (R\<lparr>eventset := List.insert e (eventset R)\<rparr>)"
  using assms(2) arms_okD(3,4)[OF assms(1)] by (intro arms_ok_eventset[OF assms(1)]) auto

lemma arms_ok_erase:
  assumes "arms_ok R" "\<not> armed R e"
  shows "arms_ok (R\<lparr>eventset := removeAll e (eventset R)\<rparr>)"
  using assms(2) arms_okD(3,4)[OF assms(1)]
  by (intro arms_ok_eventset[OF assms(1)]) (auto simp: distinct_removeAll)

lemma refs_insert:
  assumes "arms_ok R" "refs_ok T F R" "promises R = ps @ P_insert e # qs"
  defines "R1 \<equiv> R\<lparr>promises := ps @ qs, eventset := List.insert e (eventset R)\<rparr>"
  shows "arms_ok R1" "refs_ok T F R1" "e \<in> set (eventset R1)" "fd_ok R1 e" "inflight R1 e = 0" "refs R1 = refs R"
proof -
  have e: "P_insert e \<in> set (promises R)" "e \<in> refs R" "e \<noteq> notifier R" "notifier R \<in> refs R"
    using refs_okD(3)[OF assms(2), of "P_insert e"] assms(3) by (auto simp: refs_def)
  have eq: "R1 = (R\<lparr>promises := ps @ qs\<rparr>)\<lparr>eventset := List.insert e (eventset R)\<rparr>"
    by (simp add: R1_def)
  show "arms_ok R1" unfolding eq using arms_ok_insert[of "R\<lparr>promises := ps @ qs\<rparr>" e] assms(1) e(3) by simp
  show refs: "refs R1 = refs R" using assms(3) by (auto simp: refs_def R1_def)
  show "inflight R1 e = 0"
    using refs_okD(7)[OF assms(2) e(1)] inflight_promise[OF assms(3), of e] by (simp add: R1_def)
  have no: "P_insert e \<notin> set (ps @ qs)"
    using refs_okD(6)[OF assms(2) e(1)] assms(3) by (auto simp: count_list_0_iff)
  note R0 = promise_consumed[OF assms(2,3)]
  show "refs_ok T F R1"
  proof (rule refs_ok_step[OF assms(2)])
    fix x assume "P_insert x \<in> set (promises R1)"
    then have x: "P_insert x \<in> set (promises (R\<lparr>promises := ps @ qs\<rparr>))" "x \<noteq> e"
      using no by (auto simp: R1_def)
    then show "x \<notin> set (eventset R1) \<and> count_list (promises R1) (P_insert x) = 1 \<and> inflight R1 x = 0"
      using refs_okD(5,6,7)[OF R0 x(1)] by (simp add: R1_def)
  qed (use refs refs_okD(4)[OF assms(2)] assms(3) in \<open>auto simp: R1_def\<close>)
  show "e \<in> set (eventset R1)" by (simp add: R1_def)
  show "fd_ok R1 e" using fd_ok_refs[OF assms(1,2) e(2,3)] by (simp add: fd_ok_def R1_def)
qed

text \<open>The accounts of the state in which the closure has been taken but not run.\<close>

lemma account_promise:
  assumes "account_ok T F R" "promises R = ps @ p # qs"
  defines "R0 \<equiv> R\<lparr>promises := ps @ qs\<rparr>"
  shows "\<And>x. ev_type (r_event R x) \<notin> T \<Longrightarrow> inflight R0 x +
      (if p = P_rearm_read x \<or> p = P_rearm_timer x then 1 else 0) + (if armed R x then 1 else 0) \<le> 1"
    "\<And>x. x \<in> set (eventset R) \<Longrightarrow> ev_type (r_event R x) \<notin> F \<Longrightarrow> ev_type (r_event R x) \<noteq> WRITE \<Longrightarrow>
      armed R x \<or> 0 < inflight R0 x \<or> P_remove x \<in> set (ps @ qs) \<or>
      p = P_rearm_read x \<or> p = P_rearm_timer x \<or> p = P_remove x"
proof -
  fix x assume "ev_type (r_event R x) \<notin> T"
  from account_okD(1)[OF assms(1) this]
  show "inflight R0 x + (if p = P_rearm_read x \<or> p = P_rearm_timer x then 1 else 0) +
      (if armed R x then 1 else 0) \<le> 1"
    using inflight_promise[OF assms(2), of x] unfolding R0_def by linarith
next
  fix x assume "x \<in> set (eventset R)" "ev_type (r_event R x) \<notin> F" "ev_type (r_event R x) \<noteq> WRITE"
  from account_okD(2)[OF assms(1) this] show "armed R x \<or> 0 < inflight R0 x \<or> P_remove x \<in> set (ps @ qs) \<or>
      p = P_rearm_read x \<or> p = P_rearm_timer x \<or> p = P_remove x"
    using inflight_promise[OF assms(2), of x] assms(2) by (auto simp: R0_def split: if_splits)
qed

text \<open>Re-arming the event of the closure keeps the whole invariant when it keeps its account.\<close>

lemma rearm_promise:
  assumes inv: "reactor_inv T F R" and p: "promises R = ps @ p # qs"
  defines "R0 \<equiv> R\<lparr>promises := ps @ qs\<rparr>"
  assumes r: "rearms R0 e b R'" and e: "e \<in> set (eventset R)"
    and a: "b \<Longrightarrow> ev_type (r_event R e) \<notin> T \<Longrightarrow> inflight R0 e = 0"
    and l: "ev_type (r_event R e) \<notin> F \<Longrightarrow> ev_type (r_event R e) \<noteq> WRITE \<Longrightarrow>
      b \<or> 0 < inflight R0 e \<or> P_remove e \<in> set (ps @ qs)"
    and pe: "promise_event p \<subseteq> {e}"
  shows "reactor_inv T F R'"
proof -
  have A: "arms_ok R" "refs_ok T F R" "account_ok T F R" using inv by (auto simp: reactor_inv_def)
  note refs0 = promise_consumed[OF A(2) p, folded R0_def]
  note acc = account_promise[OF A(3) p, folded R0_def]
  have other: "p \<noteq> P_rearm_read x" "p \<noteq> P_rearm_timer x" "p \<noteq> P_remove x" if "x \<noteq> e" for x
    using pe that by auto
  have same [simp]: "r_event R0 = r_event R" "eventset R0 = eventset R" "armed R0 = armed R"
    "promises R0 = ps @ qs" "notifier R0 = notifier R" by (simp_all add: R0_def)
  have e0: "e \<in> refs R0" using e by (simp add: refs_def)
  have "account_ok T F R'"
  proof (rule account_rearms[OF r refs0 e0])
    fix x assume "x \<noteq> e" "ev_type (r_event R0 x) \<notin> T"
    then show "inflight R0 x + (if armed R0 x then 1 else 0) \<le> 1" using acc(1)[of x] by simp
  next
    assume "ev_type (r_event R0 e) \<notin> T"
    then show "inflight R0 e + (if b then 1 else 0) \<le> 1" using acc(1)[of e] a by simp
  next
    fix x assume "x \<in> set (eventset R0)" "x \<noteq> e" "ev_type (r_event R0 x) \<notin> F" "ev_type (r_event R0 x) \<noteq> WRITE"
    then show "armed R0 x \<or> 0 < inflight R0 x \<or> P_remove x \<in> set (promises R0)"
      using acc(2)[of x] other[of x] by simp
  qed (use l in simp)
  moreover have "refs_ok T F R'" by (rule rearms_refs_ok[OF r refs0])
  ultimately show ?thesis using rearms_frame(8)[OF r] by (simp add: reactor_inv_def)
qed

lemma drop_promise:
  assumes inv: "reactor_inv T F R" and p: "promises R = ps @ p # qs"
    and l: "\<And>x. x \<in> promise_event p \<Longrightarrow> p = P_freeze x \<or> p = P_thaw x \<or> x \<notin> set (eventset R)"
    and pi: "\<And>x. p \<noteq> P_insert x"
  shows "reactor_inv T F (R\<lparr>promises := ps @ qs\<rparr>)"
proof -
  have A: "arms_ok R" "refs_ok T F R" "account_ok T F R" using inv by (auto simp: reactor_inv_def)
  note acc = account_promise[OF A(3) p]
  have "account_ok T F (R\<lparr>promises := ps @ qs\<rparr>)"
    unfolding account_ok_def
  proof (intro conjI allI ballI impI, goal_cases)
    case (1 x)
    then show ?case using acc(1)[of x] by simp
  next
    case (2 x)
    then have "p \<noteq> P_rearm_read x" "p \<noteq> P_rearm_timer x" "p \<noteq> P_remove x" using l[of x] by auto
    with 2 show ?case using acc(2)[of x] by simp
  qed
  then show ?thesis using promise_consumed[OF A(2) p] A(1) by (simp add: reactor_inv_def)
qed

lemma run_promise_inv:
  assumes inv: "reactor_inv T F R" and p: "promises R = ps @ p # qs"
  shows "\<exists>R'. run_promise p (R\<lparr>promises := ps @ qs\<rparr>) = Inr R' \<and> reactor_inv T F R'"
proof -
  let ?R0 = "R\<lparr>promises := ps @ qs\<rparr>"
  have A: "arms_ok R" "refs_ok T F R" "account_ok T F R" using inv by (auto simp: reactor_inv_def)
  note acc = account_promise[OF A(3) p]
  have pR: "p \<in> set (promises R)" using p by simp
  have fd: "fd_ok ?R0 e" if "promise_event p = {e}" for e
  proof -
    have "e \<in> refs R" "e \<noteq> notifier R" using refs_promise[OF p] refs_okD(3)[OF A(2) pR] that by auto
    then show ?thesis using fd_ok_refs[OF A(1,2)] by (simp add: fd_ok_def)
  qed
  have A0: "arms_ok ?R0" using A(1) by simp
  have drop: "reactor_inv T F ?R0" if "promise_event p = {e}" "e \<notin> set (eventset R)" "p \<noteq> P_insert e" for e
  proof (rule drop_promise[OF inv p])
    show "p \<noteq> P_insert x" for x
    proof
      assume px: "p = P_insert x"
      have "x = e" using that(1) unfolding px promise_event.simps by (rule singleton_inject)
      then show False using px that(3) by blast
    qed
    show "p = P_freeze x \<or> p = P_thaw x \<or> x \<notin> set (eventset R)" if "x \<in> promise_event p" for x
    proof -
      have "x = e" using that unfolding \<open>promise_event p = {e}\<close> by (rule singletonD)
      then show ?thesis using \<open>e \<notin> set (eventset R)\<close> by simp
    qed
  qed
  show ?thesis
  proof (cases p)
    case (P_insert e)
    let ?R1 = "R\<lparr>promises := ps @ qs, eventset := List.insert e (eventset R)\<rparr>"
    note i = refs_insert[OF A(1,2) p[unfolded P_insert]]
    have arm_other: "inflight ?R1 x = inflight ?R0 x" for x by (simp add: inflight_def)
    have a1: "inflight ?R1 x + (if armed ?R1 x then 1 else 0) \<le> 1" if "ev_type (r_event R x) \<notin> T" for x
      using acc(1)[OF that] P_insert by (simp add: arm_other)
    have b1: "armed ?R1 x \<or> 0 < inflight ?R1 x \<or> P_remove x \<in> set (ps @ qs)"
      if "x \<in> set (eventset R)" "ev_type (r_event R x) \<notin> F" "ev_type (r_event R x) \<noteq> WRITE" for x
      using acc(2)[OF that] P_insert by (simp add: arm_other)
    show ?thesis
    proof (cases "ev_type (r_event R e) = WRITE")
      case True
      have "account_ok T F ?R1"
        using a1 b1 True by (auto simp: account_ok_def)
      then show ?thesis using i(1,2) True P_insert by (simp add: run_promise_def r_insert_arm reactor_inv_def)
    next
      case False
      from arm_ok[OF i(1,4,3)] obtain R' where R': "arm e ?R1 = Inr R'" "rearms ?R1 e True R'" by blast
      have "e \<in> refs ?R1" by (simp add: refs_def)
      from account_rearms[OF R'(2) i(2) this, of ] have "account_ok T F R'"
        using a1 b1 i(5) by simp
      moreover have "refs_ok T F R'" by (rule rearms_refs_ok[OF R'(2) i(2)])
      ultimately show ?thesis
        using R'(1) rearms_frame(8)[OF R'(2)] False P_insert
        by (simp add: run_promise_def r_insert_arm reactor_inv_def)
    qed
  next
    case (P_remove e)
    show ?thesis
    proof (cases "e \<in> set (eventset R)")
      case False
      then show ?thesis using drop[of e] P_remove by (simp add: run_promise_def r_remove_def)
    next
      case True
      obtain R1 where R1: "disarm e ?R0 = Inr R1" "rearms ?R0 e False R1"
        using disarm_ok[OF A0 fd] P_remove by auto
      let ?R2 = "async (Destroy e) (R1\<lparr>eventset := removeAll e (eventset R1)\<rparr>)"
      note fr = rearms_frame[OF R1(2)]
      note refs0 = promise_consumed[OF A(2) p]
      have ne: "\<not> armed R1 e" using rearmsD(1)[OF R1(2)] by simp
      have sub: "x \<noteq> e \<Longrightarrow> armed R1 x \<Longrightarrow> armed R x" for x using rearmsD(2)[OF R1(2)] by simp
      have en: "e \<noteq> notifier R" using arms_okD(4)[OF A(1)] True by blast
      have "arms_ok ?R2" using arms_ok_erase[OF fr(8) ne] by (simp add: async_def)
      moreover have infl: "inflight ?R2 = inflight ?R0" by (simp add: fun_eq_iff inflight_def async_def fr)
      moreover have "refs_ok T F ?R2"
      proof -
        note refs1 = rearms_refs_ok[OF R1(2) refs0]
        have "refs ?R2 \<subseteq> refs R1" using True fr(2) by (auto simp: async_def refs_def)
        moreover have "task_event t \<noteq> notifier R1" if "t \<in> set (tasks ?R2)" for t
          using that refs_okD(4)[OF refs1] en fr(5) by (auto simp: async_def)
        moreover have "inflight ?R2 = inflight R1" unfolding infl fr(6) ..
        ultimately show ?thesis
          using refs_okD(5-7)[OF refs1] by (intro refs_ok_step[OF refs1]) (simp_all add: async_def)
      qed
      moreover have "account_ok T F ?R2"
        unfolding account_ok_def infl
      proof (intro conjI allI ballI impI, goal_cases)
        case (1 x)
        then show ?case using acc(1)[of x] ne sub[of x] fr(1) P_remove
          by (cases "x = e") (auto simp: async_def split: if_splits)
      next
        case (2 x)
        then have x: "x \<noteq> e" "x \<in> set (eventset R)" "ev_type (r_event R x) \<notin> F" "ev_type (r_event R x) \<noteq> WRITE"
          using fr(1,2) by (auto simp: async_def)
        have "armed R x \<Longrightarrow> armed R1 x"
          using rearms_others[OF R1(2) refs0, of x] x True by (simp add: refs_def)
        then show ?case using acc(2)[OF x(2-4)] x(1) P_remove fr(3) by (auto simp: async_def)
      qed
      ultimately have "reactor_inv T F ?R2" by (simp add: reactor_inv_def)
      then show ?thesis using R1(1) True P_remove fr(2) by (simp add: run_promise_def r_remove_def)
    qed
  next
    case (P_freeze e)
    show ?thesis
    proof (cases "e \<in> set (eventset R)")
      case True
      obtain R1 where R1: "disarm e ?R0 = Inr R1" "rearms ?R0 e False R1"
        using disarm_ok[OF A0 fd] P_freeze by auto
      have "ev_type (r_event R e) \<in> F" using refs_okD(11)[OF A(2), of e] pR P_freeze by simp
      then have "reactor_inv T F R1" using rearm_promise[OF inv p R1(2) True] P_freeze by simp
      then show ?thesis using R1(1) True P_freeze by (simp add: run_promise_def r_freeze_def)
    qed (use drop[of e] P_freeze in \<open>simp add: run_promise_def r_freeze_def\<close>)
  next
    case (P_thaw e)
    show ?thesis
    proof (cases "e \<in> set (eventset R)")
      case True
      obtain R1 where R1: "arm e ?R0 = Inr R1" "rearms ?R0 e True R1"
        using arm_ok[OF A0 fd] P_thaw True by auto
      have "ev_type (r_event R e) \<in> T" using refs_okD(10)[OF A(2), of e] pR P_thaw by simp
      then have "reactor_inv T F R1" using rearm_promise[OF inv p R1(2) True] P_thaw by simp
      then show ?thesis using R1(1) True P_thaw by (simp add: run_promise_def r_thaw_def)
    qed (use drop[of e] P_thaw in \<open>simp add: run_promise_def r_thaw_def\<close>)
  next
    case (P_rearm_read e)
    show ?thesis
    proof (cases "e \<in> set (eventset R)")
      case True
      obtain R1 where R1: "arm e ?R0 = Inr R1" "rearms ?R0 e True R1"
        using arm_ok[OF A0 fd] P_rearm_read True by auto
      have t: "ev_type (r_event R e) = READ" using refs_okD(8)[OF A(2), of e] pR P_rearm_read by simp
      have "reactor_inv T F R1"
        using rearm_promise[OF inv p R1(2) True] acc(1)[of e] P_rearm_read by (simp split: if_splits)
      then show ?thesis using R1(1) True P_rearm_read t by (simp add: run_promise_def arm_def)
    qed (use drop[of e] P_rearm_read in \<open>simp add: run_promise_def\<close>)
  next
    case (P_rearm_timer e)
    show ?thesis
    proof (cases "e \<in> set (eventset R)")
      case True
      obtain R1 where R1: "arm e ?R0 = Inr R1" "rearms ?R0 e True R1"
        using arm_ok[OF A0 fd] P_rearm_timer True by auto
      have t: "ev_type (r_event R e) = PERIODIC" using refs_okD(9)[OF A(2), of e] pR P_rearm_timer by simp
      have "reactor_inv T F R1"
        using rearm_promise[OF inv p R1(2) True] acc(1)[of e] P_rearm_timer by (simp split: if_splits)
      then show ?thesis using R1(1) True P_rearm_timer t by (simp add: run_promise_def arm_def)
    qed (use drop[of e] P_rearm_timer in \<open>simp add: run_promise_def\<close>)
  next
    case P_break
    have "reactor_inv T F ?R0" using P_break by (intro drop_promise[OF inv p]) auto
    then have "reactor_inv T F (?R0\<lparr>break_loop := True\<rparr>)"
      by (simp add: reactor_inv_def refs_ok_def account_ok_def refs_def)
    then show ?thesis using P_break by (simp add: run_promise_def)
  qed
qed

section \<open>Activation keeps the invariant\<close>

lemma activated_inv:
  assumes inv: "reactor_inv T F R" and r: "rearms R e False R1" and e: "e \<in> set (eventset R)" "armed R e"
  shows "reactor_inv T F (async (Handle e) R1)" (is "reactor_inv T F ?R2")
proof -
  have A: "arms_ok R" "refs_ok T F R" "account_ok T F R" using inv by (auto simp: reactor_inv_def)
  note fr = rearms_frame[OF r] and refs1 = rearms_refs_ok[OF r A(2)]
  have infl: "inflight ?R2 x = inflight R x + (if x = e then 1 else 0)" for x
    using fr(3,4) by (simp add: inflight_def async_def)
  have arm: "armed ?R2 = armed R1" by (simp add: async_def)
  have "arms_ok ?R2" using fr(8) by (simp add: async_def)
  moreover have "refs_ok T F ?R2"
  proof (rule refs_ok_step[OF refs1])
    show "refs ?R2 \<subseteq> refs R1" using e(1) fr(2) by (auto simp: async_def refs_def)
    fix t assume "t \<in> set (tasks ?R2)"
    then show "task_event t \<noteq> notifier R1"
      using refs_okD(4)[OF refs1] arms_okD(4)[OF A(1)] e(1) fr(5) by (auto simp: async_def)
  next
    fix x assume "P_insert x \<in> set (promises ?R2)"
    then have x: "P_insert x \<in> set (promises R1)" by (simp add: async_def)
    then have "x \<noteq> e" using refs_okD(5)[OF refs1] e(1) fr(2) by auto
    then show "x \<notin> set (eventset ?R2) \<and> count_list (promises ?R2) (P_insert x) = 1 \<and> inflight ?R2 x = 0"
      using refs_okD(5-7)[OF refs1 x] infl[of x] fr(6) by (simp add: async_def)
  qed (simp_all add: async_def)
  moreover have "account_ok T F ?R2"
    unfolding account_ok_def arm
  proof (intro conjI allI ballI impI, goal_cases)
    case (1 x)
    then have "inflight R x + (if armed R x then 1 else 0) \<le> 1"
      using account_okD(1)[OF A(3), of x] fr(1) by (simp add: async_def)
    then show ?case using infl[of x] rearmsD[OF r] e(2) by (auto split: if_splits)
  next
    case (2 x)
    then have x: "x \<in> set (eventset R)" "ev_type (r_event R x) \<notin> F" "ev_type (r_event R x) \<noteq> WRITE"
      using fr(1,2) by (auto simp: async_def)
    show ?case
    proof (cases "x = e")
      case True
      then show ?thesis using infl[of x] by simp
    next
      case False
      have "armed R x \<Longrightarrow> armed R1 x"
        using rearms_others[OF r A(2), of x] False x e(1) by (simp add: refs_def)
      then show ?thesis using account_okD(2)[OF A(3) x] infl[of x] fr(3) by (auto simp: async_def)
    qed
  qed
  ultimately show ?thesis by (simp add: reactor_inv_def)
qed

lemma pop_activates:
  assumes inv: "reactor_inv T F R" and pop: "hp_pop (timeoutpq R) = (Some e, q)"
  shows "activate_event e (R\<lparr>timeoutpq := q\<rparr>) = Inr (async (Handle e) (R\<lparr>timeoutpq := q\<rparr>))"
    "reactor_inv T F (async (Handle e) (R\<lparr>timeoutpq := q\<rparr>))"
proof -
  have A: "arms_ok R" using inv by (auto simp: reactor_inv_def)
  note p = hq.pop_some[OF arms_okD(1)[OF A] pop]
  have e: "e \<in> set (eventset R)" "ev_timed R e" using p arms_okD(7)[OF A] by auto
  have r: "rearms R e False (R\<lparr>timeoutpq := q\<rparr>)" by (rule rearms_timer[OF A e(2)]) (use p in auto)
  have "armed R e" using p by (simp add: armed_def)
  then show "reactor_inv T F (async (Handle e) (R\<lparr>timeoutpq := q\<rparr>))" by (rule activated_inv[OF inv r e(1)])
  have "e \<noteq> notifier R" using arms_okD(4)[OF A] e(1) by blast
  then show "activate_event e (R\<lparr>timeoutpq := q\<rparr>) = Inr (async (Handle e) (R\<lparr>timeoutpq := q\<rparr>))"
    using e(2) by (auto simp: activate_event_def ev_timed_def)
qed

text \<open>
  One round of the timers: the events handed to the pool are those that are due, the earliest
  first, and those that stay in the heap are not due.
\<close>

definition due :: "reactor \<Rightarrow> eptr set" where
  "due R = {e \<in> hp_set (timeoutpq R). key (timeoutpq R) e \<le> sync_time_point R}"

lemma poll_timeout_events_ok:
  assumes "reactor_inv T F R"
  shows "\<exists>R' es q. poll_timeout_events R = Inr R' \<and> reactor_inv T F R' \<and>
    R' = R\<lparr>timeoutpq := q, tasks := tasks R @ map Handle es\<rparr> \<and> key q = key (timeoutpq R) \<and>
    set es = due R \<and> distinct es \<and> sorted (map (key (timeoutpq R)) es) \<and>
    hp_set q = hp_set (timeoutpq R) - due R"
  using assms
proof (induction R rule: poll_timeout_events.induct)
  case (1 R)
  have A: "arms_ok R" using 1(2) by (auto simp: reactor_inv_def)
  note inv = arms_okD(1)[OF A]
  show ?case
  proof (cases "hp_top (timeoutpq R)")
    case None
    then have "hp_set (timeoutpq R) = {}" using hq.top_none[OF inv] by simp
    then have "poll_timeout_events R = Inr R" "due R = {}" using None
      by (simp_all add: poll_timeout_events.simps[of R] due_def)
    then show ?thesis using 1(2) by (intro exI[of _ R] exI[of _ "[]"] exI[of _ "timeoutpq R"]) simp
  next
    case (Some e)
    then obtain q where pop: "hp_pop (timeoutpq R) = (Some e, q)"
      using hq.pop_top[OF inv] by (metis fst_conv surj_pair)
    show ?thesis
    proof (cases "sync_time_point R < key (timeoutpq R) e")
      case True
      then have "poll_timeout_events R = Inr R" "due R = {}"
        using Some hq.none_due[OF inv Some True] by (simp_all add: poll_timeout_events.simps[of R] due_def)
      then show ?thesis using 1(2) by (intro exI[of _ R] exI[of _ "[]"] exI[of _ "timeoutpq R"]) simp
    next
      case False
      let ?R1 = "async (Handle e) (R\<lparr>timeoutpq := q\<rparr>)"
      note act = pop_activates[OF 1(2) pop] and p = hq.pop_some[OF inv pop]
      have rec: "poll_timeout_events R = poll_timeout_events ?R1"
        using Some False pop act(1) by (simp add: poll_timeout_events.simps[of R])
      have R1: "timeoutpq ?R1 = q" "tasks ?R1 = tasks R @ [Handle e]" "sync_time_point ?R1 = sync_time_point R"
        by (simp_all add: async_def)
      obtain R' es q' where IH: "poll_timeout_events ?R1 = Inr R'" "reactor_inv T F R'"
        "R' = ?R1\<lparr>timeoutpq := q', tasks := tasks ?R1 @ map Handle es\<rparr>" "key q' = key q"
        "set es = due ?R1" "distinct es" "sorted (map (key q) es)" "hp_set q' = hp_set q - due ?R1"
        using 1(1)[OF Some _ pop[symmetric] refl act(1) act(2)] False R1(1) by auto
      have kq: "key q = key (timeoutpq R)" using p by simp
      have le: "key (timeoutpq R) e \<le> sync_time_point R" using False by simp
      have due: "due R = insert e (due ?R1)" "e \<notin> due ?R1"
        using hq.pop_due(1,2)[OF inv pop le] by (auto simp: due_def R1)
      have "\<forall>x \<in> set es. key (timeoutpq R) e \<le> key (timeoutpq R) x"
        using IH(5) p by (auto simp: due_def R1)
      then have "sorted (map (key (timeoutpq R)) (e # es))" using IH(7) kq by simp
      moreover have "hp_set q' = hp_set (timeoutpq R) - due R" using IH(8) p due by auto
      moreover have "R' = R\<lparr>timeoutpq := q', tasks := tasks R @ map Handle (e # es)\<rparr>"
        using IH(3) by (simp add: async_def)
      ultimately show ?thesis using rec IH due kq
        by (intro exI[of _ R'] exI[of _ "e # es"] exI[of _ q']) simp
    qed
  qed
qed

lemma reactor_inv_demux:
  assumes "reactor_inv T F R" "sel_inv d" "sel_reg d = sel_reg (r_demux R)"
  shows "reactor_inv T F (R\<lparr>r_demux := d\<rparr>)"
proof -
  have "armed (R\<lparr>r_demux := d\<rparr>) = armed R" by (rule ext) (simp add: armed_def assms(3))
  moreover have "refs (R\<lparr>r_demux := d\<rparr>) = refs R" by (simp add: refs_def)
  ultimately show ?thesis
    using assms by (simp add: reactor_inv_def arms_ok_def refs_ok_def account_ok_def)
qed

lemma reactor_inv_notified: "reactor_inv T F R \<Longrightarrow> reactor_inv T F (R\<lparr>notified := b\<rparr>)"
  by (simp add: reactor_inv_def refs_ok_def account_ok_def refs_def)

lemma reactor_inv_sync: "reactor_inv T F R \<Longrightarrow> reactor_inv T F (R\<lparr>sync_time_point := b\<rparr>)"
  by (simp add: reactor_inv_def refs_ok_def account_ok_def refs_def)

text \<open>What the handler of a poll does to the rest of the reactor.\<close>

definition io_activate :: "eptr \<Rightarrow> reactor \<Rightarrow> reactor" where
  "io_activate e R = (if e = notifier R then R\<lparr>notified := False\<rparr> else async (Handle e) R)"

lemma io_handler_handles:
  "handles (\<lambda>d R. reactor_inv T F (R\<lparr>r_demux := d\<rparr>)) io_handler io_activate"
  unfolding handles_def
proof (intro allI impI)
  fix e s k and x :: reactor
  let ?R = "x\<lparr>r_demux := s\<rparr>"
  assume inv: "reactor_inv T F ?R" and s: "sel_inv s" and k: "sel_reg s k = Some e"
  have A: "arms_ok ?R" "refs_ok T F ?R" using inv by (auto simp: reactor_inv_def)
  show "\<exists>s'. io_handler e (s, x) = Inr (s', io_activate e x) \<and>
      reactor_inv T F ((io_activate e x)\<lparr>r_demux := s'\<rparr>) \<and> sel_inv s' \<and>
      r_out s' = r_out s \<and> w_out s' = w_out s \<and> cap_in s \<le> cap_in s' \<and>
      (\<forall>k'. k' \<noteq> k \<longrightarrow> sel_reg s' k' = sel_reg s k')"
  proof (cases "e = notifier x")
    case True
    then have "io_handler e (s, x) = Inr (s, io_activate e x)"
      by (simp add: io_handler_def activate_event_def io_activate_def)
    moreover have eq: "(io_activate e x)\<lparr>r_demux := s\<rparr> = ?R\<lparr>notified := False\<rparr>"
      using True by (simp add: io_activate_def)
    have "reactor_inv T F ((io_activate e x)\<lparr>r_demux := s\<rparr>)"
      unfolding eq by (rule reactor_inv_notified[OF inv])
    ultimately show ?thesis using s by blast
  next
    case False
    have ke: "k = ev_key ?R e" "\<not> ev_timed ?R e" "e \<in> set (eventset ?R)"
      using arms_okD(8,9)[OF A(1), of k e] k False by auto
    then have io: "ev_type (r_event x e) = READ \<or> ev_type (r_event x e) = WRITE"
      using not_timed[of ?R e] by simp
    have "fd_ok ?R e" using fd_ok_refs[OF A, of e] ke(3) False by (simp add: refs_def)
    from disarm_ok[OF A(1) this] obtain R1 where R1: "disarm e ?R = Inr R1" "rearms ?R e False R1" by blast
    then obtain d where d: "sel_remove (ev_type (r_event x e)) (ev_fd (r_event x e)) s = Inr d"
      "R1 = ?R\<lparr>r_demux := d\<rparr>" "disarm e ?R = demux_remove e ?R"
      using io by (auto simp: disarm_def demux_remove_def)
    have reg: "sel_reg d = (sel_reg s)(k := None)" "sel_inv d"
      using sel.remove_any[OF s io, of "ev_fd (r_event x e)"] d(1) \<open>fd_ok ?R e\<close> ke(1,2)
      by (auto simp: fd_ok_def ev_key_def)
    have h: "io_handler e (s, x) = Inr (d, io_activate e x)"
      using io False d(1) by (auto simp: io_handler_def activate_event_def io_activate_def demux_remove_def async_def)
    have "armed ?R e" using k ke(1) by (simp add: armed_def)
    from activated_inv[OF inv R1(2) ke(3) this]
    have act: "reactor_inv T F (async (Handle e) (?R\<lparr>r_demux := d\<rparr>))" unfolding d(2) .
    have eq: "(io_activate e x)\<lparr>r_demux := d\<rparr> = async (Handle e) (?R\<lparr>r_demux := d\<rparr>)"
      using False by (simp add: io_activate_def async_def)
    have "reactor_inv T F ((io_activate e x)\<lparr>r_demux := d\<rparr>)" unfolding eq by (rule act)
    then show ?thesis using h reg sel_remove_frame[OF d(1)] by (intro exI[of _ d]) simp
  qed
qed

lemma poll_demux_ok:
  assumes inv: "reactor_inv T F R" and doc: "select_doc sys"
  shows "(\<exists>errno. poll_demux sys junk tv R = Inl (System_error errno)) \<or>
    (\<exists>R'. poll_demux sys junk tv R = Inr R' \<and> reactor_inv T F R')"
proof (cases "max_fd (r_demux R) = -1")
  case True
  then show ?thesis using inv by (simp add: poll_demux_def sel_poll_def)
next
  case False
  have s: "sel_inv (r_demux R)" using inv arms_okD(2) by (auto simp: reactor_inv_def)
  have P: "reactor_inv T F (R\<lparr>r_demux := d\<rparr>)" if "sel_inv d" "sel_reg d = sel_reg (r_demux R)" for d
    by (rule reactor_inv_demux[OF inv that])
  obtain s1 where prep: "prepare_select junk (r_demux R) = Inr s1" by (rule prepare_select_ok[OF s False, of junk])
  from sel_poll_ok[where x = R and tv = tv, OF prep s io_handler_handles P doc False]
  show ?thesis by (auto simp: poll_demux_def split: sum.splits prod.splits)
qed

lemma poll_io_events_ok:
  assumes "reactor_inv T F R" "select_doc sys"
  shows "(\<exists>errno. poll_io_events sys junk R = Inl (System_error errno)) \<or>
    (\<exists>R'. poll_io_events sys junk R = Inr R' \<and> reactor_inv T F R')"
  using poll_demux_ok[OF assms] assms(1) by (auto simp: poll_io_events_def Let_def split: option.split)

section \<open>The other threads\<close>

lemma refs_ok_more:
  assumes "refs_ok T F R" "r_event R' = r_event R" "notifier R' = notifier R" "refs R' \<subseteq> refs R"
    "\<And>p. p \<in> set (promises R') \<Longrightarrow> p \<in> set (promises R) \<or> notifier R \<notin> promise_event p \<and>
       (case p of P_rearm_read e \<Rightarrow> ev_type (r_event R e) = READ
        | P_rearm_timer e \<Rightarrow> ev_type (r_event R e) = PERIODIC
        | P_thaw e \<Rightarrow> ev_type (r_event R e) \<in> T | P_freeze e \<Rightarrow> ev_type (r_event R e) \<in> F
        | _ \<Rightarrow> True)"
    "\<And>t. t \<in> set (tasks R') \<Longrightarrow> task_event t \<noteq> notifier R"
    "\<And>e. P_insert e \<in> set (promises R') \<Longrightarrow>
       e \<notin> set (eventset R') \<and> count_list (promises R') (P_insert e) = 1 \<and> inflight R' e = 0"
  shows "refs_ok T F R'"
proof -
  note D = refs_okD[OF assms(1)]
  have timed: "ev_timed R' = ev_timed R" using assms(2) by (simp add: ev_timed_def fun_eq_iff)
  have "P_rearm_read e \<in> set (promises R') \<Longrightarrow> ev_type (r_event R e) = READ"
    "P_rearm_timer e \<in> set (promises R') \<Longrightarrow> ev_type (r_event R e) = PERIODIC"
    "P_thaw e \<in> set (promises R') \<Longrightarrow> ev_type (r_event R e) \<in> T"
    "P_freeze e \<in> set (promises R') \<Longrightarrow> ev_type (r_event R e) \<in> F" for e
    using D(8-11)[of e] assms(5)[of "P_rearm_read e"] assms(5)[of "P_rearm_timer e"]
      assms(5)[of "P_thaw e"] assms(5)[of "P_freeze e"] by auto
  moreover have "notifier R \<notin> promise_event p" if "p \<in> set (promises R')" for p
    using D(3)[of p] assms(5)[OF that] by blast
  ultimately show ?thesis
    using D(1,2) assms(4,6,7) unfolding refs_ok_def assms(2,3) timed by (simp add: subset_iff)
qed

text \<open>A task of the pool is replaced by at most one closure about its event.\<close>

lemma hand_over:
  assumes inv: "reactor_inv T F R" and t: "tasks R = ts @ Handle e # us"
    and pl: "pl = [P_remove e] \<or> pl = [P_rearm_read e] \<and> ev_type (r_event R e) = READ \<or>
      pl = [P_rearm_timer e] \<and> ev_type (r_event R e) = PERIODIC \<or> pl = [] \<and> ev_type (r_event R e) = WRITE"
  shows "reactor_inv T F (R\<lparr>tasks := ts @ us, promises := promises R @ pl\<rparr>)" (is "reactor_inv T F ?R")
proof -
  have A: "arms_ok R" "refs_ok T F R" "account_ok T F R" using inv by (auto simp: reactor_inv_def)
  have infl: "inflight ?R x + (if x = e then 1 else 0) =
      inflight R x + (if x = e \<and> pl \<noteq> [P_remove e] \<and> pl \<noteq> [] then 1 else 0)" for x
    using pl t by (auto simp: inflight_def)
  have pos: "0 < inflight R e" using t by (simp add: inflight_def)
  have ne: "e \<noteq> notifier R" using refs_okD(4)[OF A(2), of "Handle e"] t by simp
  have "refs_ok T F ?R"
  proof (rule refs_ok_more[OF A(2)])
    show "refs ?R \<subseteq> refs R" using pl t by (auto simp: refs_def)
    show "p \<in> set (promises R) \<or> notifier R \<notin> promise_event p \<and>
       (case p of P_rearm_read e \<Rightarrow> ev_type (r_event R e) = READ
        | P_rearm_timer e \<Rightarrow> ev_type (r_event R e) = PERIODIC
        | P_thaw e \<Rightarrow> ev_type (r_event R e) \<in> T | P_freeze e \<Rightarrow> ev_type (r_event R e) \<in> F
        | _ \<Rightarrow> True)" if "p \<in> set (promises ?R)" for p
      using that pl ne by auto
    show "task_event t \<noteq> notifier R" if "t \<in> set (tasks ?R)" for t
      using that t refs_okD(4)[OF A(2), of t] by auto
    fix x assume "P_insert x \<in> set (promises ?R)"
    then have x: "P_insert x \<in> set (promises R)" using pl by auto
    then have "x \<noteq> e" using refs_okD(7)[OF A(2) x] pos by auto
    then show "x \<notin> set (eventset ?R) \<and> count_list (promises ?R) (P_insert x) = 1 \<and> inflight ?R x = 0"
      using refs_okD(5-7)[OF A(2) x] infl[of x] pl by auto
  qed simp_all
  moreover have "account_ok T F ?R"
    unfolding account_ok_def
  proof (intro conjI allI ballI impI, goal_cases)
    case (1 x)
    then have "inflight R x + (if armed R x then 1 else 0) \<le> 1" using account_okD(1)[OF A(3), of x] by simp
    moreover have "inflight ?R x \<le> inflight R x" using infl[of x] pos by (auto split: if_splits)
    ultimately show ?case by simp
  next
    case (2 x)
    then have x: "x \<in> set (eventset R)" "ev_type (r_event R x) \<notin> F" "ev_type (r_event R x) \<noteq> WRITE" by auto
    show ?case
    proof (cases "x = e")
      case True
      then have "pl = [P_remove e] \<or> 0 < inflight ?R e" using infl[of e] pl pos x(3) by auto
      then show ?thesis using True by auto
    next
      case False
      then show ?thesis using account_okD(2)[OF A(3) x] infl[of x] by auto
    qed
  qed
  ultimately show ?thesis using A(1) by (simp add: reactor_inv_def)
qed

lemma hp_inv_set_timer:
  assumes "hp_inv q" "e \<notin> hp_set q" "satellite tm = -1"
  shows "hp_inv (q\<lparr>hp_timer := (hp_timer q)(e := tm)\<rparr>)" "hp_set (q\<lparr>hp_timer := (hp_timer q)(e := tm)\<rparr>) = hp_set q"
proof -
  have ne: "hp_array q ! i \<noteq> e" if "i < length (hp_array q)" for i
    using assms(2) that by (auto simp: hp_set_def)
  show "hp_inv (q\<lparr>hp_timer := (hp_timer q)(e := tm)\<rparr>)"
    using assms ne by (simp add: hp_inv_def indexed_def ordered_def hp_size_def hp_set_def)
qed (simp add: hp_set_def)

lemma reactor_inv_timers:
  assumes "reactor_inv T F R" "hp_inv q" "hp_set q = hp_set (timeoutpq R)"
  shows "reactor_inv T F (R\<lparr>timeoutpq := q\<rparr>)"
proof -
  have "armed (R\<lparr>timeoutpq := q\<rparr>) = armed R" by (rule ext) (simp add: armed_def assms(3))
  moreover have "refs (R\<lparr>timeoutpq := q\<rparr>) = refs R" by (simp add: refs_def)
  ultimately show ?thesis
    using assms by (simp add: reactor_inv_def arms_ok_def refs_ok_def account_ok_def)
qed

lemma run_handler_inv:
  assumes inv: "reactor_inv T F R" and t: "tasks R = ts @ Handle e # us" and pT: "PERIODIC \<notin> T"
  shows "reactor_inv T F (run_handler e sig (R\<lparr>tasks := ts @ us\<rparr>))"
proof (cases "ev_type (r_event R e) = PERIODIC \<and> sig \<noteq> REMOVE")
  case True
  let ?q = "timeoutpq R"
  let ?tm = "(hp_timer ?q e)\<lparr>timeout := sync_time_point R + duration (hp_timer ?q e)\<rparr>"
  have A: "arms_ok R" "account_ok T F R" using inv by (auto simp: reactor_inv_def)
  have "0 < inflight R e" using t by (simp add: inflight_def)
  then have "\<not> armed R e" using account_okD(1)[OF A(2), of e] True pT by (auto split: if_splits)
  then have e: "e \<notin> hp_set ?q" by (simp add: armed_def)
  have q: "hp_inv ?q" using arms_okD(1)[OF A(1)] .
  then have "satellite ?tm = -1" using e hp_inv_satellite[OF q, of e] by (simp add: hp_set_def)
  note set = hp_inv_set_timer[OF q e this]
  have "reactor_inv T F (R\<lparr>tasks := ts @ us, promises := promises R @ [P_rearm_timer e]\<rparr>)"
    using True by (intro hand_over[OF inv t]) simp
  from reactor_inv_timers[OF this set(1)] set(2)
  have "reactor_inv T F (R\<lparr>tasks := ts @ us, promises := promises R @ [P_rearm_timer e],
      timeoutpq := ?q\<lparr>hp_timer := (hp_timer ?q)(e := ?tm)\<rparr>\<rparr>)" by simp
  moreover have "run_handler e sig (R\<lparr>tasks := ts @ us\<rparr>) =
      R\<lparr>tasks := ts @ us, promises := promises R @ [P_rearm_timer e],
        timeoutpq := ?q\<lparr>hp_timer := (hp_timer ?q)(e := ?tm)\<rparr>\<rparr>"
    using True by (simp add: run_handler_def Let_def)
  ultimately show ?thesis by simp
next
  case False
  have "reactor_inv T F (R\<lparr>tasks := ts @ us, promises := promises R @ pl\<rparr>)"
    if "pl = [P_remove e] \<or> pl = [P_rearm_read e] \<and> ev_type (r_event R e) = READ \<or>
      pl = [] \<and> ev_type (r_event R e) = WRITE" for pl
    using that by (intro hand_over[OF inv t]) auto
  from this[of "[P_remove e]"] this[of "[P_rearm_read e]"] this[of "[]"]
  show ?thesis using False
    by (cases "ev_type (r_event R e)"; cases sig) (simp_all add: run_handler_def)
qed

lemma destroy_inv:
  assumes inv: "reactor_inv T F R" and t: "tasks R = ts @ Destroy e # us"
  shows "reactor_inv T F (R\<lparr>tasks := ts @ us\<rparr>)" (is "reactor_inv T F ?R")
proof -
  have A: "arms_ok R" "refs_ok T F R" "account_ok T F R" using inv by (auto simp: reactor_inv_def)
  have infl: "inflight ?R = inflight R" using t by (simp add: inflight_def fun_eq_iff)
  have "refs_ok T F ?R"
  proof (rule refs_ok_step[OF A(2)])
    show "refs ?R \<subseteq> refs R" using t by (auto simp: refs_def)
    show "task_event u \<noteq> notifier R" if "u \<in> set (tasks ?R)" for u
      using that t refs_okD(4)[OF A(2), of u] by auto
    show "x \<notin> set (eventset ?R) \<and> count_list (promises ?R) (P_insert x) = 1 \<and> inflight ?R x = 0"
      if "P_insert x \<in> set (promises ?R)" for x
      using refs_okD(5-7)[OF A(2), of x] that infl by simp
  qed simp_all
  moreover have "account_ok T F ?R" using A(3) infl by (simp add: account_ok_def)
  ultimately show ?thesis using A(1) by (simp add: reactor_inv_def)
qed

lemma call_inv:
  assumes inv: "reactor_inv T F R" and c: "call_ok T F R p"
  shows "reactor_inv T F (R\<lparr>promises := promises R @ [p]\<rparr>)" (is "reactor_inv T F ?R")
proof -
  have A: "arms_ok R" "refs_ok T F R" "account_ok T F R" using inv by (auto simp: reactor_inv_def)
  have infl: "inflight ?R = inflight R" using c by (cases p) (auto simp: inflight_def fun_eq_iff call_ok_def)
  have "refs_ok T F ?R"
  proof (rule refs_ok_more[OF A(2)])
    show "refs ?R \<subseteq> refs R" using c by (cases p) (auto simp: refs_def call_ok_def)
    show "r \<in> set (promises R) \<or> notifier R \<notin> promise_event r \<and>
       (case r of P_rearm_read e \<Rightarrow> ev_type (r_event R e) = READ
        | P_rearm_timer e \<Rightarrow> ev_type (r_event R e) = PERIODIC
        | P_thaw e \<Rightarrow> ev_type (r_event R e) \<in> T | P_freeze e \<Rightarrow> ev_type (r_event R e) \<in> F
        | _ \<Rightarrow> True)" if "r \<in> set (promises ?R)" for r
      using that c by (cases p) (auto simp: call_ok_def)
    show "x \<notin> set (eventset ?R) \<and> count_list (promises ?R) (P_insert x) = 1 \<and> inflight ?R x = 0"
      if "P_insert x \<in> set (promises ?R)" for x
      using refs_okD(5-7)[OF A(2), of x] that infl c by (cases p) (auto simp: call_ok_def)
  qed (use refs_okD(4)[OF A(2)] in simp_all)
  moreover have "account_ok T F ?R" using A(3) infl unfolding account_ok_def by auto
  ultimately show ?thesis using A(1) by (simp add: reactor_inv_def)
qed

lemma construct_inv:
  assumes inv: "reactor_inv T F R" and c: "new_ok R e ev tm"
  shows "reactor_inv T F ((make_event e ev tm R)\<lparr>promises := promises R @ [P_insert e]\<rparr>)"
    (is "reactor_inv T F ?R")
proof -
  have A: "arms_ok R" "refs_ok T F R" "account_ok T F R" using inv by (auto simp: reactor_inv_def)
  have new: "e \<notin> refs R" "e \<notin> set (eventset R)" "e \<noteq> notifier R" "P_insert e \<notin> set (promises R)"
    "P_rearm_read e \<notin> set (promises R)" "P_rearm_timer e \<notin> set (promises R)" "P_thaw e \<notin> set (promises R)"
    "P_freeze e \<notin> set (promises R)"
    using c by (auto simp: new_ok_def refs_def)
  have task: "Handle e \<notin> set (tasks R)"
    using new(1) image_eqI[of e task_event "Handle e"] by (auto simp: refs_def)
  have e: "e \<notin> hp_set (timeoutpq R)" using arms_okD(7)[OF A(1), of e] new(2) by blast
  have unreg: "sel_reg (r_demux R) k \<noteq> Some e" for k using arms_okD(9)[OF A(1), of k e] new(2,3) by blast
  note tim = hp_inv_set_timer[OF arms_okD(1)[OF A(1)] e, of tm]
  have R: "eventset ?R = eventset R" "tasks ?R = tasks R" "promises ?R = promises R @ [P_insert e]"
    "r_demux ?R = r_demux R" "notifier ?R = notifier R" "r_event ?R = (r_event R)(e := ev)"
    "hp_set (timeoutpq ?R) = hp_set (timeoutpq R)" "hp_inv (timeoutpq ?R)"
    using tim c by (simp_all add: make_event_def new_ok_def)
  have same: "ev_timed ?R x = ev_timed R x" "ev_key ?R x = ev_key R x" if "x \<noteq> e" for x
    using that R(6) by (simp_all add: ev_timed_def ev_key_def)
  have arm: "armed ?R x \<longleftrightarrow> armed R x" for x
    using R(4,7) same[of x] e unreg by (cases "x = e") (auto simp: armed_def)
  have infl: "inflight ?R = inflight R" using R by (simp add: inflight_def fun_eq_iff)
  have infl0: "inflight R e = 0" using new task by (simp add: inflight_def count_list_0_iff)
  have refs: "refs ?R = insert e (refs R)" using R by (auto simp: refs_def)
  have "arms_ok ?R"
    unfolding arms_ok_def R(1,4,5,7)
  proof (intro conjI ballI allI impI)
    fix x assume "x \<in> hp_set (timeoutpq R)"
    then show "x \<in> set (eventset R)" "ev_timed ?R x" using arms_okD(7)[OF A(1), of x] e same[of x] by auto
  next
    fix k x assume k: "sel_reg (r_demux R) k = Some x"
    then have "x \<noteq> e" using unreg by blast
    then show "k = ev_key ?R x" "\<not> ev_timed ?R x" "x = notifier R \<or> x \<in> set (eventset R)"
      using arms_okD(8,9)[OF A(1) k] same[of x] by auto
  next
    show "hp_inv (timeoutpq ?R)" by (rule R(8))
    show "ev_type (r_event ?R (notifier R)) = READ" using arms_okD(5)[OF A(1)] new(3) R(6) by simp
    show "sel_reg (r_demux R) (ev_key ?R (notifier R)) = Some (notifier R)"
      using arms_okD(6)[OF A(1)] same(2)[OF new(3)[symmetric]] by simp
  qed (rule arms_okD[OF A(1)])+
  moreover have "refs_ok T F ?R"
  proof -
    note D = refs_okD[OF A(2)]
    have fd: "0 \<le> ev_fd (r_event ?R x)" if "x \<in> refs ?R" "\<not> ev_timed ?R x" for x
      using that D(1)[of x] refs R(6) c same[of x] not_timed[of ?R x] by (cases "x = e") (auto simp: new_ok_def)
    have uniq: "ev_fd (r_event ?R x) \<noteq> ev_fd (r_event ?R y)"
      if "x \<in> refs ?R" "y \<in> refs ?R" "x \<noteq> y" "ev_type (r_event ?R x) = READ" "ev_type (r_event ?R y) = READ" for x y
      using that D(2)[of x y] refs R(6) c unfolding new_ok_def by (cases "x = e"; cases "y = e") auto
    have "x \<notin> set (eventset R) \<and> count_list (promises R @ [P_insert e]) (P_insert x) = 1 \<and> inflight R x = 0"
      if "P_insert x \<in> set (promises R @ [P_insert e])" for x
    proof (cases "x = e")
      case True
      then show ?thesis using new infl0 by (simp add: count_list_0_iff)
    next
      case False
      then show ?thesis using that D(5-7)[of x] by auto
    qed
    moreover have "ev_type (r_event ?R x) = READ" if "P_rearm_read x \<in> set (promises R @ [P_insert e])" for x
      using that new(5) D(8)[of x] R(6) by (cases "x = e") auto
    moreover have "ev_type (r_event ?R x) = PERIODIC" if "P_rearm_timer x \<in> set (promises R @ [P_insert e])" for x
      using that new(6) D(9)[of x] R(6) by (cases "x = e") auto
    moreover have "ev_type (r_event ?R x) \<in> T" if "P_thaw x \<in> set (promises R @ [P_insert e])" for x
      using that new(7) D(10)[of x] R(6) by (cases "x = e") auto
    moreover have "ev_type (r_event ?R x) \<in> F" if "P_freeze x \<in> set (promises R @ [P_insert e])" for x
      using that new(8) D(11)[of x] R(6) by (cases "x = e") auto
    moreover have "notifier R \<notin> promise_event p" if "p \<in> set (promises R @ [P_insert e])" for p
      using that D(3)[of p] new(3) by auto
    ultimately show ?thesis unfolding refs_ok_def R(1-3,5) infl using fd uniq D(4) by blast
  qed
  moreover have "account_ok T F ?R"
    unfolding account_ok_def infl R(1,3)
  proof (intro conjI allI ballI impI, goal_cases)
    case (1 x)
    have "\<not> armed R e" using e unreg by (auto simp: armed_def)
    then show ?case using 1 account_okD(1)[OF A(3), of x] arm infl0 R(6) by (cases "x = e") auto
  next
    case (2 x)
    then have "x \<noteq> e" using new(2) by auto
    then show ?case using account_okD(2)[OF A(3), of x] 2 arm R(6) by auto
  qed
  ultimately show ?thesis by (simp add: reactor_inv_def)
qed

lemma reactor_init_inv:
  assumes "reactor_init n (Inr fd) now = Inr R" "0 \<le> fd"
  shows "reactor_inv T F R"
proof -
  obtain d where d: "sel_insert n READ fd sel_init = Inr d" "sel_inv d"
    "sel_reg d = (\<lambda>_. None)((READ, fd) \<mapsto> n)"
    using sel.insert_any[OF sel_init_inv(1), of READ fd n] assms(2) sel_init_inv(2) by auto
  have R: "r_event R = (\<lambda>_. \<lparr>ev_type = READ, ev_fd = fd\<rparr>)" "eventset R = []" "promises R = []" "tasks R = []"
    "notifier R = n" "r_demux R = d" "timeoutpq R = \<lparr>hp_array = [], hp_timer = (\<lambda>_. mk_timer 0 False 0)\<rparr>"
    using assms(1,2) d(1) by (auto simp: reactor_init_def)
  have hp: "hp_inv (timeoutpq R)" "hp_set (timeoutpq R) = {}"
    by (simp_all add: R(7) hp_empty_inv mk_timer_def hp_set_def)
  have "refs R = {n}" using R by (simp add: refs_def)
  moreover have "inflight R x = 0" for x using R by (simp add: inflight_def)
  moreover have "ev_key R x = (READ, fd)" "\<not> ev_timed R x" for x using R by (simp_all add: ev_key_def ev_timed_def)
  ultimately show ?thesis
    using hp d(2,3) R(1-6) assms(2)
    by (auto simp: reactor_inv_def arms_ok_def refs_ok_def account_ok_def split: if_splits)
qed

lemma r_step_inv: "r_step T F R R' \<Longrightarrow> PERIODIC \<notin> T \<Longrightarrow> reactor_inv T F R \<Longrightarrow> reactor_inv T F R'"
proof (induction rule: r_step.induct)
  case (carry R ps p qs R')
  then show ?case using run_promise_inv[OF carry.prems(2) carry.hyps(1)] by auto
next
  case (poll_io sys junk R R')
  then show ?case using poll_io_events_ok[OF poll_io.prems(2) poll_io.hyps(1), of junk] by auto
next
  case (timeouts t R R')
  then show ?case
    using poll_timeout_events_ok[OF reactor_inv_sync[OF timeouts.prems(2), of t]] by auto
qed (simp_all add: run_handler_inv destroy_inv call_inv construct_inv)

lemma r_reach_inv: "r_reach T F R \<Longrightarrow> PERIODIC \<notin> T \<Longrightarrow> reactor_inv T F R"
  by (induction rule: r_reach.induct) (auto intro: reactor_init_inv r_step_inv)

section \<open>What the loop guarantees\<close>

lemma carry_on_promises_reach:
  assumes "r_reach T F R" "PERIODIC \<notin> T"
  shows "\<exists>R'. carry_on_promises R = Inr R' \<and> r_reach T F R' \<and> promises R' = []"
  using assms(1)
proof (induction R rule: carry_on_promises.induct)
  case (1 R)
  show ?case
  proof (cases "promises R")
    case Nil
    then show ?thesis using 1(2) by (simp add: carry_on_promises.simps[of R])
  next
    case (Cons p qs)
    have "promises R = [] @ p # qs" using Cons by simp
    note pr = run_promise_inv[OF r_reach_inv[OF 1(2) assms(2)] this] r_step.carry[OF this]
    obtain R1 where R1: "run_promise p (R\<lparr>promises := qs\<rparr>) = Inr R1" using pr(1) by auto
    then have "r_reach T F R1" using pr(2)[of R1] 1(2) by (auto intro: r_reach.step)
    from 1(1)[OF Cons R1 this] show ?thesis using Cons R1 by (simp add: carry_on_promises.simps[of R])
  qed
qed

lemma poll_io_events_pq:
  assumes inv: "reactor_inv T F R" and "poll_io_events sys junk R = Inr R'" "select_doc sys"
  shows "reactor_inv T F R'"
  using poll_io_events_ok[OF inv assms(3), of junk] assms(2) by auto

text \<open>C10: the reactor accounts for its events. The threads insert events, remove, freeze and thaw them
  and run their handlers, in whatever order the reactor gets to it (\<open>r_reach\<close>), provided that new
  events have addresses of their own, no two READ events are on one descriptor, only events of the types
  in T are thawed, PERIODIC timers not among them (\<open>thaw_breaks_the_heap\<close> shows what thawing one does),
  only events of the types in F are frozen, and \<open>select\<close> keeps to its manual. Then every event that the
  heap or the demultiplexer points to is owned by the event set; the heap stays well-formed and
  the notifier is watched; for an event of a type not in T, no handler runs or waits while it is
  armed, nor twice. An owned event of a type not in F and other than WRITE (which the code arms only
  when it is thawed) is never forgotten: it is armed, or its handler is queued, or the request to arm
  it again or to remove it is.\<close>

theorem reactor_events_accounted:
  assumes "r_reach T F R" "PERIODIC \<notin> T"
  shows "hp_inv (timeoutpq R) \<and> hp_set (timeoutpq R) \<subseteq> set (eventset R) \<and>
    (\<forall>k e. sel_reg (r_demux R) k = Some e \<longrightarrow> e = notifier R \<or> e \<in> set (eventset R)) \<and>
    armed R (notifier R) \<and>
    (\<forall>e. ev_type (r_event R e) \<notin> T \<longrightarrow> inflight R e + (if armed R e then 1 else 0) \<le> 1) \<and>
    (\<forall>e \<in> set (eventset R). ev_type (r_event R e) \<notin> F \<longrightarrow> ev_type (r_event R e) \<noteq> WRITE \<longrightarrow>
       armed R e \<or> 0 < inflight R e \<or> P_remove e \<in> set (promises R))"
proof -
  have inv: "arms_ok R" "account_ok T F R" using r_reach_inv[OF assms] by (auto simp: reactor_inv_def)
  note A = arms_okD[OF inv(1)] and B = account_okD[OF inv(2)]
  have "hp_set (timeoutpq R) \<subseteq> set (eventset R)" using A(7) by blast
  moreover have "armed R (notifier R)" using A(6) by (simp add: armed_def)
  ultimately show ?thesis using A(1,9) B by blast
qed

text \<open>C21: in every state that the threads can bring about without thawing a PERIODIC timer (the proviso
  \<open>PERIODIC \<notin> T\<close>; thawing one can put the heap out of order, \<open>thaw_breaks_the_heap\<close>), one round of
  the timers hands exactly the events whose deadline has come to the thread pool, each once and the
  earliest first, and keeps the others in the heap.\<close>

theorem due_timers_handed_over:
  assumes "r_reach T F R" "PERIODIC \<notin> T"
  shows "\<exists>R' es. poll_timeout_events (R\<lparr>sync_time_point := now\<rparr>) = Inr R' \<and>
    tasks R' = tasks R @ map Handle es \<and> distinct es \<and> sorted (map (key (timeoutpq R)) es) \<and>
    set es = {e \<in> hp_set (timeoutpq R). key (timeoutpq R) e \<le> now} \<and>
    hp_set (timeoutpq R') = {e \<in> hp_set (timeoutpq R). now < key (timeoutpq R) e} \<and>
    eventset R' = eventset R"
proof -
  obtain R' es q where "poll_timeout_events (R\<lparr>sync_time_point := now\<rparr>) = Inr R'"
    "R' = R\<lparr>sync_time_point := now, timeoutpq := q, tasks := tasks R @ map Handle es\<rparr>"
    "set es = due (R\<lparr>sync_time_point := now\<rparr>)" "distinct es" "sorted (map (key (timeoutpq R)) es)"
    "hp_set q = hp_set (timeoutpq R) - due (R\<lparr>sync_time_point := now\<rparr>)"
    using poll_timeout_events_ok[OF reactor_inv_sync[OF r_reach_inv[OF assms], of now]] by auto
  then show ?thesis by (intro exI[of _ R'] exI[of _ es]) (auto simp: due_def)
qed

text \<open>C20: a pass of the dispatch loop terminates in every state that the threads can bring about without
  thawing a PERIODIC timer (the proviso \<open>PERIODIC \<notin> T\<close>; thawing one can put the heap out of
  order, \<open>thaw_breaks_the_heap\<close>), with a \<open>select\<close> that keeps to its manual (\<open>select_doc\<close>). The only
  exception it can end with is the failure of that system call; it leaves the loop only with an empty
  queue of closures, and when it stays in it, it has activated every timer that was due at the time it
  took. The states after a pass are again such states.\<close>

theorem dispatch_pass_safe:
  assumes "r_reach T F R" "PERIODIC \<notin> T" "select_doc sys"
  shows "(\<exists>errno. dispatch_pass sys junk now break_on R = Inl (System_error errno)) \<or>
    (\<exists>R'. dispatch_pass sys junk now break_on R = Inr (True, R') \<and> r_reach T F R' \<and> promises R' = []) \<or>
    (\<exists>R'. dispatch_pass sys junk now break_on R = Inr (False, R') \<and> r_reach T F R' \<and>
       (\<forall>e \<in> hp_set (timeoutpq R'). now < key (timeoutpq R') e))"
proof -
  obtain R1 where R1: "carry_on_promises R = Inr R1" "r_reach T F R1" "promises R1 = []"
    using carry_on_promises_reach[OF assms(1,2)] by blast
  show ?thesis
  proof (cases "break_loop R1 \<or> length (eventset R1) \<le> threshold R1 \<or> break_on R1")
    case True
    then show ?thesis using R1 by (simp add: dispatch_pass_def)
  next
    case False
    then have pass: "dispatch_pass sys junk now break_on R = bind_r (poll_io_events sys junk R1) (\<lambda>R2.
        bind_r (poll_timeout_events (R2\<lparr>sync_time_point := now\<rparr>)) (\<lambda>R3. Inr (False, R3)))"
      using R1(1) by (simp add: dispatch_pass_def)
    consider errno where "poll_io_events sys junk R1 = Inl (System_error errno)" |
      R2 where "poll_io_events sys junk R1 = Inr R2"
      using poll_io_events_ok[OF r_reach_inv[OF R1(2) assms(2)] assms(3), of junk] by blast
    then show ?thesis
    proof cases
      case 1
      then show ?thesis by (simp add: pass)
    next
      case 2
      then have reach2: "r_reach T F R2"
        using r_step.poll_io[OF assms(3) 2] R1(2) by (auto intro: r_reach.step)
      obtain R3 es q where R3: "poll_timeout_events (R2\<lparr>sync_time_point := now\<rparr>) = Inr R3"
        "R3 = R2\<lparr>sync_time_point := now, timeoutpq := q, tasks := tasks R2 @ map Handle es\<rparr>"
        "key q = key (timeoutpq R2)"
        "hp_set q = hp_set (timeoutpq R2) - due (R2\<lparr>sync_time_point := now\<rparr>)"
        using poll_timeout_events_ok[OF reactor_inv_sync[OF r_reach_inv[OF reach2 assms(2)], of now]] by auto
      have "r_reach T F R3" using r_step.timeouts[OF R3(1)] reach2 by (auto intro: r_reach.step)
      moreover have "now < key (timeoutpq R3) e" if "e \<in> hp_set (timeoutpq R3)" for e
        using that R3(2-4) fun_cong[OF R3(3), of e] by (auto simp: due_def)
      ultimately show ?thesis using 2 R3(1) by (simp add: pass)
    qed
  qed
qed

section \<open>A run\<close>

text \<open>Steps that can be evaluated, for concrete runs.\<close>

datatype rlabel = L_carry | L_timeouts int | L_handler signal | L_call promise | L_new eptr event timer

definition r_exec :: "etype set \<Rightarrow> etype set \<Rightarrow> rlabel \<Rightarrow> reactor \<Rightarrow> reactor option" where
  "r_exec T F l R = (case l of
     L_carry \<Rightarrow> (case promises R of [] \<Rightarrow> None
       | p # qs \<Rightarrow> (case run_promise p (R\<lparr>promises := qs\<rparr>) of Inl _ \<Rightarrow> None | Inr R' \<Rightarrow> Some R'))
   | L_timeouts now \<Rightarrow> (case poll_timeout_events (R\<lparr>sync_time_point := now\<rparr>) of
       Inl _ \<Rightarrow> None | Inr R' \<Rightarrow> Some R')
   | L_handler sig \<Rightarrow> (case tasks R of
       Handle e # us \<Rightarrow> Some (run_handler e sig (R\<lparr>tasks := us\<rparr>)) | _ \<Rightarrow> None)
   | L_call p \<Rightarrow> if call_ok T F R p then Some (R\<lparr>promises := promises R @ [p]\<rparr>) else None
   | L_new e ev tm \<Rightarrow> if new_ok R e ev tm
       then Some ((make_event e ev tm R)\<lparr>promises := promises R @ [P_insert e]\<rparr>) else None)"

fun r_execs :: "etype set \<Rightarrow> etype set \<Rightarrow> rlabel list \<Rightarrow> reactor \<Rightarrow> reactor option" where
  "r_execs T F [] R = Some R"
| "r_execs T F (l # ls) R = (case r_exec T F l R of None \<Rightarrow> None | Some R' \<Rightarrow> r_execs T F ls R')"

lemma r_exec_step: "r_exec T F l R = Some R' \<Longrightarrow> r_step T F R R'"
proof (cases l)
  case L_carry
  then show "r_exec T F l R = Some R' \<Longrightarrow> ?thesis"
    by (auto simp: r_exec_def split: list.splits sum.splits intro: r_step.carry[where ps = "[]"])
next
  case (L_handler sig)
  then show "r_exec T F l R = Some R' \<Longrightarrow> ?thesis"
    by (auto simp: r_exec_def split: list.splits rtask.splits intro: r_step.handler[where ts = "[]", simplified])
qed (auto simp: r_exec_def split: if_splits sum.splits intro: r_step.intros)

lemma r_execs_reach: "r_reach T F R \<Longrightarrow> r_execs T F ls R = Some R' \<Longrightarrow> r_reach T F R'"
  by (induction ls arbitrary: R) (auto split: option.splits intro: r_reach.step dest: r_exec_step)

definition demo_steps :: "rlabel list" where
  "demo_steps =
    [L_new 1 \<lparr>ev_type = PERIODIC, ev_fd = 0\<rparr> (mk_timer 10 False 0),
     L_new 2 \<lparr>ev_type = READ, ev_fd = 5\<rparr> (mk_timer 0 True 0),
     L_new 3 \<lparr>ev_type = TIMEOUT, ev_fd = 0\<rparr> (mk_timer 25 False 0),
     L_carry, L_carry, L_carry, L_timeouts 12, L_call (P_remove 3), L_handler DEFAULT, L_carry]"

lemma demo_reactor_run:
  "\<exists>R. r_reach {} {} R \<and> eventset R = [2, 1] \<and> hp_array (timeoutpq R) = [] \<and>
     promises R = [P_rearm_timer 1] \<and> tasks R = [Destroy 3] \<and> ev_type (r_event R 2) = READ \<and>
     hp_timer (timeoutpq R) 1 = \<lparr>satellite = -1, duration = 10, timeout = 22\<rparr>"
proof -
  have ok: "case reactor_init 0 (Inr 4) 0 of Inl _ \<Rightarrow> False | Inr R \<Rightarrow> (case r_execs {} {} demo_steps R of None \<Rightarrow> False
      | Some R' \<Rightarrow> eventset R' = [2, 1] \<and> hp_array (timeoutpq R') = [] \<and>
          promises R' = [P_rearm_timer 1] \<and> tasks R' = [Destroy 3] \<and> ev_type (r_event R' 2) = READ \<and>
          hp_timer (timeoutpq R') 1 = \<lparr>satellite = -1, duration = 10, timeout = 22\<rparr>)"
    by code_simp
  obtain R where R: "reactor_init 0 (Inr 4) 0 = Inr R" using ok by (auto split: sum.splits)
  obtain R' where R': "r_execs {} {} demo_steps R = Some R'" using ok R by (auto split: option.splits)
  have "r_reach {} {} R" using R by (rule r_reach.init) simp
  then have "r_reach {} {} R'" using R' by (rule r_execs_reach)
  then show ?thesis using ok R R' by auto
qed

lemma reactor_events_accounted_witness:
  "\<exists>R. r_reach {} {} R \<and> 1 \<in> set (eventset R) \<and> inflight R 1 = 1 \<and> \<not> armed R 1 \<and> armed R 2"
proof -
  obtain R where R: "r_reach {} {} R" "eventset R = [2, 1]" "promises R = [P_rearm_timer 1]"
    "tasks R = [Destroy 3]" "ev_type (r_event R 2) = READ"
    using demo_reactor_run by auto
  from reactor_events_accounted[OF R(1)] have acc:
    "inflight R 1 + (if armed R 1 then 1 else 0) \<le> 1"
    "armed R 2 \<or> 0 < inflight R 2 \<or> P_remove 2 \<in> set (promises R)"
    using R(2,5) by auto
  have fl: "inflight R 1 = 1" "inflight R 2 = 0" using R(3,4) by (simp_all add: inflight_def)
  have "\<not> armed R 1" using acc(1) fl(1) by (auto split: if_splits)
  moreover have "armed R 2" using acc(2) fl(2) R(3) by simp
  ultimately show ?thesis using R(1,2) fl(1) by (intro exI[of _ R]) simp
qed

text \<open>The same run before the first timer fires: the timers 1 and 3 are armed.\<close>

lemma demo_armed_run:
  "\<exists>R. r_reach {} {} R \<and> hp_array (timeoutpq R) = [1, 3] \<and> tasks R = [] \<and>
     timeout (hp_timer (timeoutpq R) 1) = 10 \<and> timeout (hp_timer (timeoutpq R) 3) = 25"
proof -
  have ok: "case reactor_init 0 (Inr 4) 0 of Inl _ \<Rightarrow> False | Inr R \<Rightarrow>
      (case r_execs {} {} (take 6 demo_steps) R of None \<Rightarrow> False
      | Some R' \<Rightarrow> hp_array (timeoutpq R') = [1, 3] \<and> tasks R' = [] \<and>
         timeout (hp_timer (timeoutpq R') 1) = 10 \<and> timeout (hp_timer (timeoutpq R') 3) = 25)"
    by code_simp
  obtain R where R: "reactor_init 0 (Inr 4) 0 = Inr R" using ok by (auto split: sum.splits)
  obtain R' where R': "r_execs {} {} (take 6 demo_steps) R = Some R'" using ok R by (auto split: option.splits)
  have "r_reach {} {} R" using R by (rule r_reach.init) simp
  then have "r_reach {} {} R'" using R' by (rule r_execs_reach)
  then show ?thesis using ok R R' by auto
qed

lemma due_timers_handed_over_witness:
  "\<exists>R R'. r_reach {} {} R \<and> poll_timeout_events (R\<lparr>sync_time_point := 12\<rparr>) = Inr R' \<and>
     tasks R' = [Handle 1] \<and> hp_set (timeoutpq R') = {3}"
proof -
  obtain R where R: "r_reach {} {} R" "hp_array (timeoutpq R) = [1, 3]" "tasks R = []"
    "timeout (hp_timer (timeoutpq R) 1) = 10" "timeout (hp_timer (timeoutpq R) 3) = 25"
    using demo_armed_run by auto
  have set: "hp_set (timeoutpq R) = {1, 3}" using R(2) by (simp add: hp_set_def)
  obtain R' es where R': "poll_timeout_events (R\<lparr>sync_time_point := 12\<rparr>) = Inr R'"
    "tasks R' = map Handle es" "distinct es" "set es = {e \<in> {1, 3}. key (timeoutpq R) e \<le> 12}"
    "hp_set (timeoutpq R') = {e \<in> {1, 3}. 12 < key (timeoutpq R) e}"
    using due_timers_handed_over[OF R(1), of 12] unfolding set R(3) append_Nil by blast
  have pick: "{e \<in> {1, 3}. P e} = {1}" "{e \<in> {1, 3}. \<not> P e} = {3}" if "P 1" "\<not> P 3" for P :: "eptr \<Rightarrow> bool"
    using that by (auto simp del: One_nat_def)
  have "set es = {1}" unfolding R'(4) by (rule pick(1)) (use R(4,5) in simp_all)
  then have "length es = 1" using distinct_card[OF R'(3)] by simp
  then have "es = [1]" using \<open>set es = {1}\<close> by (cases es) auto
  moreover have "hp_set (timeoutpq R') = {3}"
    unfolding R'(5) not_le [symmetric] by (rule pick(2)) (use R(4,5) in simp_all)
  ultimately show ?thesis using R(1) R'(1,2) by (intro exI[of _ R] exI[of _ R']) simp
qed

definition demo_select :: sys_select where
  "demo_select n r w tv = Inr (r, w)"

lemma dispatch_pass_safe_witness:
  "\<exists>R R'. r_reach {} {} R \<and> dispatch_pass demo_select (\<lambda>_. False) 12 (\<lambda>_. False) R = Inr (False, R') \<and>
     (\<forall>e \<in> hp_set (timeoutpq R'). 12 < key (timeoutpq R') e)"
proof -
  have ok: "case reactor_init 0 (Inr 4) 0 of Inl _ \<Rightarrow> False | Inr R \<Rightarrow>
      (case r_execs {} {} (take 6 demo_steps) R of None \<Rightarrow> False
      | Some R' \<Rightarrow> (case dispatch_pass demo_select (\<lambda>_. False) 12 (\<lambda>_. False) R' of
          Inl _ \<Rightarrow> False | Inr (left, _) \<Rightarrow> \<not> left))"
    by code_simp
  obtain R where R: "reactor_init 0 (Inr 4) 0 = Inr R" using ok by (auto split: sum.splits)
  obtain R' where R': "r_execs {} {} (take 6 demo_steps) R = Some R'" using ok R by (auto split: option.splits)
  have "r_reach {} {} R" using R by (rule r_reach.init) simp
  then have reach: "r_reach {} {} R'" using R' by (rule r_execs_reach)
  have doc: "select_doc demo_select" by (simp add: select_doc_def demo_select_def)
  from dispatch_pass_safe[OF reach _ doc, of "\<lambda>_. False" 12 "\<lambda>_. False"] ok R R'
  obtain R'' where "dispatch_pass demo_select (\<lambda>_. False) 12 (\<lambda>_. False) R' = Inr (False, R'')"
    "\<forall>e \<in> hp_set (timeoutpq R''). 12 < key (timeoutpq R'') e"
    by auto
  then show ?thesis using reach by blast
qed

text \<open>
  The proviso on thawing is needed: the worker that runs the handler of a periodic timer writes the
  next deadline while another thread may have thawed the event, and then the deadline of an entry of
  the heap changes in place.
\<close>

definition thaw_steps :: "rlabel list" where
  "thaw_steps =
    [L_new 1 \<lparr>ev_type = PERIODIC, ev_fd = 0\<rparr> (mk_timer 10 False 0),
     L_new 3 \<lparr>ev_type = TIMEOUT, ev_fd = 0\<rparr> (mk_timer 15 False 0),
     L_carry, L_carry, L_timeouts 12, L_call (P_thaw 1), L_carry, L_handler DEFAULT]"

lemma thaw_breaks_the_heap:
  "\<exists>R. r_reach {PERIODIC} {} R \<and> \<not> ordered (key (timeoutpq R)) (hp_array (timeoutpq R))"
proof -
  have ok: "case reactor_init 0 (Inr 4) 0 of Inl _ \<Rightarrow> False | Inr R \<Rightarrow>
      (case r_execs {PERIODIC} {} thaw_steps R of None \<Rightarrow> False
      | Some R' \<Rightarrow> hp_array (timeoutpq R') = [1, 3] \<and>
         timeout (hp_timer (timeoutpq R') 1) = 22 \<and> timeout (hp_timer (timeoutpq R') 3) = 15)"
    by code_simp
  obtain R where R: "reactor_init 0 (Inr 4) 0 = Inr R" using ok by (auto split: sum.splits)
  obtain R' where R': "r_execs {PERIODIC} {} thaw_steps R = Some R'" using ok R by (auto split: option.splits)
  have "r_reach {PERIODIC} {} R" using R by (rule r_reach.init) simp
  then have "r_reach {PERIODIC} {} R'" using R' by (rule r_execs_reach)
  moreover have "\<not> ordered (key (timeoutpq R')) (hp_array (timeoutpq R'))"
    using ok R R' by (auto simp: ordered_def parent_def intro!: exI[of _ "Suc 0"])
  ultimately show ?thesis by blast
qed

end
