(* ===== verification/Wakeup.thy ===== *)
theory Wakeup
  imports Reactor
begin

text \<open>
  The wake-up protocol of the reactor: \<open>Reactor::promise\<close> and \<open>Reactor::notify\<close> in the threads that
  are not the owner, against the dispatch loop of the owner, at the granularity of single accesses to
  what they share: the queue of closures, the flag \<open>_notified\<close> and the counter of the \<open>eventfd\<close>.

  The owner dequeues until the queue looks empty and then blocks in \<open>select\<close>, which returns when the
  counter is positive, and may return for other events and timeouts at any time. The counter of an
  \<open>eventfd\<close> is read to zero by one \<open>read\<close>, a further \<open>read\<close> fails while it is zero, and a \<open>write\<close> of
  1 adds 1 to it (or fails because it is too large already, which leaves it positive).
\<close>

section \<open>The protocol\<close>

text \<open>Where the owner is: in \<open>_carry_on_promises\<close>, in \<open>select\<close>, in the loop that drains the notifier,
  between that loop and the reset of the flag.\<close>

datatype main_pc = Carrying | Blocked | Draining | Drained

text \<open>Where another thread is: outside, behind the enqueue, behind the test of the flag, behind its
  assignment.\<close>

datatype worker_pc = Outside | Enqueued | Tested | Flagged

record 'c wake =
  w_queue :: "'c list"
  w_flag :: bool
  w_counter :: nat
  w_main :: main_pc
  w_threads :: "nat \<Rightarrow> worker_pc"

definition wake_init :: "'c wake" where
  "wake_init = \<lparr>w_queue = [], w_flag = False, w_counter = 0, w_main = Carrying, w_threads = (\<lambda>_. Outside)\<rparr>"

text \<open>The owner's own way: it takes closures until there are none, blocks, is woken by the counter, drains it
  and resets the flag.\<close>

inductive own_step :: "'c wake \<Rightarrow> 'c wake \<Rightarrow> bool" where
  dequeue: "w_main s = Carrying \<Longrightarrow> w_queue s = ps @ c # qs \<Longrightarrow> own_step s (s\<lparr>w_queue := ps @ qs\<rparr>)"
| block: "w_main s = Carrying \<Longrightarrow> w_queue s = [] \<Longrightarrow> own_step s (s\<lparr>w_main := Blocked\<rparr>)"
| wake: "w_main s = Blocked \<Longrightarrow> 0 < w_counter s \<Longrightarrow> own_step s (s\<lparr>w_main := Draining\<rparr>)"
| drain: "w_main s = Draining \<Longrightarrow> 0 < w_counter s \<Longrightarrow> own_step s (s\<lparr>w_counter := 0\<rparr>)"
| drained: "w_main s = Draining \<Longrightarrow> w_counter s = 0 \<Longrightarrow> own_step s (s\<lparr>w_main := Drained\<rparr>)"
| reset: "w_main s = Drained \<Longrightarrow> own_step s (s\<lparr>w_flag := False, w_main := Carrying\<rparr>)"

text \<open>Beside this, \<open>select\<close> may return for a timeout or for another event, which need not happen.\<close>

inductive main_step :: "'c wake \<Rightarrow> 'c wake \<Rightarrow> bool" where
  own: "own_step s s' \<Longrightarrow> main_step s s'"
| other: "w_main s = Blocked \<Longrightarrow> main_step s (s\<lparr>w_main := Carrying\<rparr>)"

inductive_cases own_stepE: "own_step s s'"

inductive thread_step :: "nat \<Rightarrow> 'c wake \<Rightarrow> 'c wake \<Rightarrow> bool" for t where
  enqueue: "w_threads s t = Outside \<Longrightarrow>
    thread_step t s (s\<lparr>w_queue := w_queue s @ [c], w_threads := (w_threads s)(t := Enqueued)\<rparr>)"
| seen: "w_threads s t = Enqueued \<Longrightarrow> w_flag s \<Longrightarrow>
    thread_step t s (s\<lparr>w_threads := (w_threads s)(t := Outside)\<rparr>)"
| unseen: "w_threads s t = Enqueued \<Longrightarrow> \<not> w_flag s \<Longrightarrow>
    thread_step t s (s\<lparr>w_threads := (w_threads s)(t := Tested)\<rparr>)"
| flag: "w_threads s t = Tested \<Longrightarrow>
    thread_step t s (s\<lparr>w_flag := True, w_threads := (w_threads s)(t := Flagged)\<rparr>)"
| store: "w_threads s t = Flagged \<Longrightarrow> n = w_counter s + 1 \<or> 0 < w_counter s \<and> n = w_counter s \<Longrightarrow>
    thread_step t s (s\<lparr>w_counter := n, w_threads := (w_threads s)(t := Outside)\<rparr>)"

inductive wake_reach :: "'c wake \<Rightarrow> bool" where
  start: "wake_reach wake_init"
| main: "wake_reach s \<Longrightarrow> main_step s s' \<Longrightarrow> wake_reach s'"
| thread: "wake_reach s \<Longrightarrow> thread_step t s s' \<Longrightarrow> wake_reach s'"

section \<open>The invariant\<close>

text \<open>
  While the flag is up the owner is going to look at the queue again: the counter is positive, or a
  thread is about to write it, or the owner is on its way from the counter to the flag. And closures
  that arrive while the owner blocks have a thread behind them that has not yet tested the flag or
  has found it down.
\<close>

definition wake_inv :: "'c wake \<Rightarrow> bool" where
  "wake_inv s =
    ((w_flag s \<longrightarrow> 0 < w_counter s \<or> (\<exists>t. w_threads s t = Flagged) \<or> w_main s \<in> {Draining, Drained}) \<and>
     (w_main s = Blocked \<longrightarrow> w_queue s \<noteq> [] \<longrightarrow>
        w_flag s \<or> (\<exists>t. w_threads s t \<in> {Enqueued, Tested})))"

lemma wake_inv_own: "own_step s s' \<Longrightarrow> wake_inv s \<Longrightarrow> wake_inv s'"
  by (induction rule: own_step.induct) (auto simp: wake_inv_def)

lemma wake_inv_main: "main_step s s' \<Longrightarrow> wake_inv s \<Longrightarrow> wake_inv s'"
  by (induction rule: main_step.induct) (auto simp: wake_inv_own, auto simp: wake_inv_def)

text \<open>A step of one thread leaves the others where they are.\<close>

lemma thread_other:
  assumes "\<exists>u. w_threads s u \<in> A" "w_threads s t \<notin> A"
  shows "\<exists>u. ((w_threads s)(t := x)) u \<in> A"
proof -
  obtain u where "w_threads s u \<in> A" "u \<noteq> t" using assms by blast
  then show ?thesis by (intro exI[of _ u]) simp
qed

lemma wake_inv_alt:
  "wake_inv s \<longleftrightarrow>
    (w_flag s \<longrightarrow> 0 < w_counter s \<or> (\<exists>t. w_threads s t \<in> {Flagged}) \<or> w_main s \<in> {Draining, Drained}) \<and>
    (w_main s = Blocked \<longrightarrow> w_queue s \<noteq> [] \<longrightarrow> w_flag s \<or> (\<exists>t. w_threads s t \<in> {Enqueued, Tested}))"
  by (simp add: wake_inv_def)

lemma wake_inv_thread: "thread_step t s s' \<Longrightarrow> wake_inv s \<Longrightarrow> wake_inv s'"
proof (induction rule: thread_step.induct)
  case (enqueue s c)
  have "\<exists>u. ((w_threads s)(t := Enqueued)) u \<in> {Enqueued, Tested}" by (rule exI[of _ t]) simp
  then show ?case
    using enqueue thread_other[of s "{Flagged}" t Enqueued] unfolding wake_inv_alt by fastforce
next
  case (seen s)
  then show ?case using thread_other[of s "{Flagged}" t Outside] unfolding wake_inv_alt by fastforce
next
  case (unseen s)
  have "\<exists>u. ((w_threads s)(t := Tested)) u \<in> {Enqueued, Tested}" by (rule exI[of _ t]) simp
  then show ?case using unseen unfolding wake_inv_alt by simp
next
  case (flag s)
  have "\<exists>u. ((w_threads s)(t := Flagged)) u \<in> {Flagged}" by (rule exI[of _ t]) simp
  then show ?case unfolding wake_inv_alt by simp
next
  case (store s n)
  then have "0 < n" by auto
  moreover have "w_threads s t \<notin> {Enqueued, Tested}" using store.hyps(1) by simp
  then have "w_main s = Blocked \<Longrightarrow> w_queue s \<noteq> [] \<Longrightarrow>
      w_flag s \<or> (\<exists>u. ((w_threads s)(t := Outside)) u \<in> {Enqueued, Tested})"
    using store.prems thread_other[of s "{Enqueued, Tested}" t Outside] unfolding wake_inv_alt by blast
  ultimately show ?case unfolding wake_inv_alt by simp
qed

lemma wake_reach_inv: "wake_reach s \<Longrightarrow> wake_inv s"
proof (induction rule: wake_reach.induct)
  case start
  show ?case by (simp add: wake_inv_def wake_init_def)
qed (auto intro: wake_inv_main wake_inv_thread)

text \<open>A run of the owner alone, from the moment it blocks with a positive counter: where it is after
  \<open>k\<close> steps.\<close>

definition woken :: "'c wake \<Rightarrow> nat \<Rightarrow> 'c wake \<Rightarrow> bool" where
  "woken s k u =
    (if k = 0 then u = s
     else if k = 1 then u = s\<lparr>w_main := Draining\<rparr>
     else if k = 2 then u = s\<lparr>w_counter := 0, w_main := Draining\<rparr>
     else if k = 3 then u = s\<lparr>w_counter := 0, w_main := Drained\<rparr>
     else if k \<le> length (w_queue s) + 4
     then \<exists>q. length q + k = length (w_queue s) + 4 \<and>
            u = s\<lparr>w_queue := q, w_counter := 0, w_flag := False, w_main := Carrying\<rparr>
     else u = s\<lparr>w_queue := [], w_counter := 0, w_flag := False\<rparr>)"

lemma woken_step:
  assumes "woken s k u" "own_step u v" "w_main s = Blocked" "0 < w_counter s" "k < length (w_queue s) + 5"
  shows "woken s (Suc k) v"
proof -
  consider "k = 0" | "k = 1" | "k = 2" | "k = 3" | "4 \<le> k" by linarith
  then show ?thesis
  proof cases
    case 4
    then have "v = s\<lparr>w_queue := w_queue s, w_counter := 0, w_flag := False, w_main := Carrying\<rparr>"
      using assms by (auto simp: woken_def elim: own_stepE)
    then show ?thesis using 4 unfolding woken_def by (auto intro!: exI[of _ "w_queue s"])
  next
    case 5
    then obtain q where q: "length q + k = length (w_queue s) + 4"
      "u = s\<lparr>w_queue := q, w_counter := 0, w_flag := False, w_main := Carrying\<rparr>"
      using assms(1,5) by (auto simp: woken_def)
    show ?thesis
    proof (cases q)
      case Nil
      then have "v = s\<lparr>w_queue := [], w_counter := 0, w_flag := False\<rparr>"
        using assms(2,3) q(2) by (auto elim: own_stepE)
      then show ?thesis using 5 q(1) Nil by (simp add: woken_def)
    next
      case (Cons c r)
      then obtain ps d qs where "q = ps @ d # qs"
        "v = s\<lparr>w_queue := ps @ qs, w_counter := 0, w_flag := False, w_main := Carrying\<rparr>"
        using assms(2) q(2) by (auto elim: own_stepE)
      then show ?thesis using 5 q(1) by (auto simp: woken_def intro!: exI[of _ "ps @ qs"])
    qed
  qed (use assms in \<open>auto simp: woken_def elim: own_stepE\<close>)
qed

lemma woken_progress:
  assumes "woken s k u" "w_main s = Blocked" "0 < w_counter s" "k < length (w_queue s) + 5"
  shows "\<exists>v. own_step u v"
proof -
  consider "k = 0" | "k = 1" | "k = 2" | "k = 3" | "4 \<le> k" by linarith
  then show ?thesis
  proof cases
    case 5
    then obtain q where q: "u = s\<lparr>w_queue := q, w_counter := 0, w_flag := False, w_main := Carrying\<rparr>"
      using assms(1,4) by (auto simp: woken_def)
    then show ?thesis
      using own_step.block[of u] own_step.dequeue[of u "[]"] by (cases q) auto
  qed (use assms own_step.wake[of u] own_step.drain[of u] own_step.drained[of u] own_step.reset[of u]
      in \<open>auto simp: woken_def\<close>)
qed

lemma own_run:
  assumes "(own_step ^^ k) s u" "w_main s = Blocked" "0 < w_counter s" "k \<le> length (w_queue s) + 5"
  shows "woken s k u"
  using assms(1,4)
proof (induction k arbitrary: u)
  case 0
  then show ?case by (simp add: woken_def)
next
  case (Suc k)
  then obtain w where "(own_step ^^ k) s w" "own_step w u" by auto
  then show ?case using woken_step[OF Suc.IH[of w]] assms(2,3) Suc.prems by simp
qed

text \<open>A thread in the middle of a notification makes the counter positive by its own next steps, or
  another one does.\<close>

lemma thread_notifies:
  assumes "w_threads s t = Flagged \<or> w_threads s t \<in> {Enqueued, Tested} \<and> \<not> w_flag s"
  shows "\<exists>s'. (thread_step t)\<^sup>*\<^sup>* s s' \<and> 0 < w_counter s' \<and> w_main s' = w_main s \<and> w_queue s' = w_queue s"
proof -
  have st: "\<exists>s'. (thread_step t)\<^sup>*\<^sup>* u s' \<and> 0 < w_counter s' \<and> w_main s' = w_main u \<and> w_queue s' = w_queue u"
    if "w_threads u t = Flagged" for u :: "'a wake"
    using thread_step.store[OF that, of "w_counter u + 1"]
    by (intro exI[of _ "u\<lparr>w_counter := w_counter u + 1, w_threads := (w_threads u)(t := Outside)\<rparr>"]) auto
  have fl: "\<exists>s'. (thread_step t)\<^sup>*\<^sup>* u s' \<and> 0 < w_counter s' \<and> w_main s' = w_main u \<and> w_queue s' = w_queue u"
    if "w_threads u t = Tested" for u :: "'a wake"
    using converse_rtranclp_into_rtranclp[of "thread_step t", OF thread_step.flag[OF that]]
      st[of "u\<lparr>w_flag := True, w_threads := (w_threads u)(t := Flagged)\<rparr>"] by auto
  show ?thesis
  proof (cases "w_threads s t = Enqueued")
    case True
    then show ?thesis
      using assms converse_rtranclp_into_rtranclp[of "thread_step t", OF thread_step.unseen[OF True]]
        fl[of "s\<lparr>w_threads := (w_threads s)(t := Tested)\<rparr>"] by auto
  next
    case False
    then show ?thesis using assms st fl by auto
  qed
qed

text \<open>C11: no wake-up of the reactor is lost. However the accesses of the threads to the queue, to
  the flag and to the event counter interleave, when the owner is blocked while closures wait in the
  queue, then the event counter is positive unless a thread is still in the middle of a notification; if
  it is not positive yet, one of these threads makes it positive by its own steps. And once it is
  positive, the owner does not depend on a timeout or another event: each run of its own steps that
  no thread interrupts goes on for 5 steps and one per closure, without getting stuck, and ends with
  every closure taken from the queue, the counter drained, the flag reset and the owner blocked again.\<close>

theorem no_lost_wakeup:
  assumes "wake_reach s" "w_main s = Blocked" "w_queue s \<noteq> []"
  shows "((\<forall>t. w_threads s t = Outside) \<longrightarrow> 0 < w_counter s) \<and>
    (w_counter s = 0 \<longrightarrow> (\<exists>t s'. w_threads s t \<noteq> Outside \<and> (thread_step t)\<^sup>*\<^sup>* s s' \<and>
       0 < w_counter s' \<and> w_main s' = Blocked \<and> w_queue s' = w_queue s)) \<and>
    (0 < w_counter s \<longrightarrow>
       (\<forall>u. (own_step ^^ (length (w_queue s) + 5)) s u \<longrightarrow>
          u = s\<lparr>w_queue := [], w_counter := 0, w_flag := False\<rparr>) \<and>
       (\<forall>k u. k < length (w_queue s) + 5 \<longrightarrow> (own_step ^^ k) s u \<longrightarrow> (\<exists>v. own_step u v)))"
proof -
  have inv: "wake_inv s" using assms(1) by (rule wake_reach_inv)
  have th: "\<exists>t. w_threads s t = Flagged \<or> w_threads s t \<in> {Enqueued, Tested} \<and> \<not> w_flag s"
    if "w_counter s = 0"
    using inv assms(2,3) that by (auto simp: wake_inv_def)
  have "\<exists>t s'. w_threads s t \<noteq> Outside \<and> (thread_step t)\<^sup>*\<^sup>* s s' \<and>
       0 < w_counter s' \<and> w_main s' = Blocked \<and> w_queue s' = w_queue s" if "w_counter s = 0"
  proof -
    note z = that
    obtain t where t: "w_threads s t = Flagged \<or> w_threads s t \<in> {Enqueued, Tested} \<and> \<not> w_flag s"
      using th[OF z] by blast
    then have "w_threads s t \<noteq> Outside" by auto
    then show ?thesis using thread_notifies[OF t] assms(2) by metis
  qed
  moreover have "0 < w_counter s" if "\<forall>t. w_threads s t = Outside"
    using th that by fastforce
  moreover have "u = s\<lparr>w_queue := [], w_counter := 0, w_flag := False\<rparr>"
    if "0 < w_counter s" "(own_step ^^ (length (w_queue s) + 5)) s u" for u
    using own_run[OF that(2) assms(2) that(1)] by (simp add: woken_def)
  moreover have "\<exists>v. own_step u v"
    if "0 < w_counter s" "k < length (w_queue s) + 5" "(own_step ^^ k) s u" for k u
    using woken_progress[OF own_run[OF that(3) assms(2) that(1)] assms(2) that(1,2)] that(2) by simp
  ultimately show ?thesis by blast
qed

lemma no_lost_wakeup_witness:
  "\<exists>s :: nat wake. wake_reach s \<and> w_main s = Blocked \<and> w_queue s = [7] \<and>
     (\<forall>t. w_threads s t = Outside) \<and> 0 < w_counter s \<and>
     (\<forall>u. (own_step ^^ 6) s u \<longrightarrow> u = s\<lparr>w_queue := [], w_counter := 0, w_flag := False\<rparr>)"
proof -
  let ?s1 = "wake_init\<lparr>w_main := Blocked\<rparr> :: nat wake"
  let ?s2 = "?s1\<lparr>w_queue := [7], w_threads := (\<lambda>_. Outside)(0 := Enqueued)\<rparr>"
  let ?s3 = "?s2\<lparr>w_threads := (\<lambda>_. Outside)(0 := Tested)\<rparr>"
  let ?s4 = "?s3\<lparr>w_flag := True, w_threads := (\<lambda>_. Outside)(0 := Flagged)\<rparr>"
  let ?s5 = "?s4\<lparr>w_counter := 1, w_threads := (\<lambda>_. Outside)\<rparr>"
  have "main_step wake_init ?s1" by (intro main_step.own own_step.block) (simp_all add: wake_init_def)
  then have r1: "wake_reach ?s1" by (rule wake_reach.main[OF wake_reach.start])
  have "thread_step 0 ?s1 ?s2" using thread_step.enqueue[of ?s1 0 7] by (simp add: wake_init_def)
  then have r2: "wake_reach ?s2" by (rule wake_reach.thread[OF r1])
  have "thread_step 0 ?s2 ?s3" using thread_step.unseen[of ?s2 0] by (simp add: wake_init_def)
  then have r3: "wake_reach ?s3" by (rule wake_reach.thread[OF r2])
  have "thread_step 0 ?s3 ?s4" using thread_step.flag[of ?s3 0] by (simp add: wake_init_def)
  then have r4: "wake_reach ?s4" by (rule wake_reach.thread[OF r3])
  have "thread_step 0 ?s4 ?s5"
    using thread_step.store[of ?s4 0 1] by (simp add: wake_init_def fun_upd_idem)
  then have r5: "wake_reach ?s5" by (rule wake_reach.thread[OF r4])
  have six: "length (w_queue ?s5) + 5 = 6" by simp
  from no_lost_wakeup[OF r5] show ?thesis unfolding six using r5 by (intro exI[of _ ?s5]) auto
qed

end
