(* ===== verification/Device.thy ===== *)
theory Device
  imports Prelude
begin

text \<open>
  File descriptors (class \<open>Device\<close>, src/device.cpp, and the wrappers of src/utility/os.cpp): the
  blocking and close-on-exec flags, the scopes that lend a descriptor to a child, and reading and
  writing bytes. The kernel is a list of replies to the system calls, taken one by one: an errno, or
  the number of bytes it is ready to transfer. An operation that is still waiting when the replies
  have run out has the value \<open>None\<close>; the state of an operation is what is left of the replies and
  the bytes in the channel behind the descriptor.

  The theorem of this theory: whatever the kernel answers, writing all of a buffer puts a prefix of
  it into the channel, and it returns once the kernel has taken enough.
\<close>

section \<open>Flags\<close>

text \<open>\<open>O_NONBLOCK\<close> among the status flags, \<open>FD_CLOEXEC\<close> among the descriptor flags.\<close>

abbreviation O_NONBLOCK :: "32 word" where "O_NONBLOCK \<equiv> 2048"
abbreviation FD_CLOEXEC :: "32 word" where "FD_CLOEXEC \<equiv> 1"

record fd_flags =
  fd_fl :: "32 word"
  fd_fd :: "32 word"

text \<open>The replies of \<open>fcntl\<close> to getting and to setting the flags: an errno when it fails.\<close>

type_synonym fcntl_os = "int option \<times> int option"

definition make_fd_nonblocking :: "fcntl_os \<Rightarrow> fd_flags \<Rightarrow> fd_flags outcome" where
  "make_fd_nonblocking os f = (case fst os of
       Some e \<Rightarrow> (f, Some (System_error e))
     | None \<Rightarrow>
         if and (fd_fl f) O_NONBLOCK \<noteq> 0 then (f, None)
         else case snd os of
                Some e \<Rightarrow> (f, Some (System_error e))
              | None \<Rightarrow> (f\<lparr>fd_fl := or (fd_fl f) O_NONBLOCK\<rparr>, None))"

definition make_fd_blocking :: "fcntl_os \<Rightarrow> fd_flags \<Rightarrow> fd_flags outcome" where
  "make_fd_blocking os f = (case fst os of
       Some e \<Rightarrow> (f, Some (System_error e))
     | None \<Rightarrow>
         if and (fd_fl f) O_NONBLOCK = 0 then (f, None)
         else case snd os of
                Some e \<Rightarrow> (f, Some (System_error e))
              | None \<Rightarrow> (f\<lparr>fd_fl := and (fd_fl f) (not O_NONBLOCK)\<rparr>, None))"

definition make_fd_close_on_exec :: "fcntl_os \<Rightarrow> fd_flags \<Rightarrow> fd_flags outcome" where
  "make_fd_close_on_exec os f = (case fst os of
       Some e \<Rightarrow> (f, Some (System_error e))
     | None \<Rightarrow>
         if and (fd_fd f) FD_CLOEXEC \<noteq> 0 then (f, None)
         else case snd os of
                Some e \<Rightarrow> (f, Some (System_error e))
              | None \<Rightarrow> (f\<lparr>fd_fd := or (fd_fd f) FD_CLOEXEC\<rparr>, None))"

definition make_fd_open_on_exec :: "fcntl_os \<Rightarrow> fd_flags \<Rightarrow> fd_flags outcome" where
  "make_fd_open_on_exec os f = (case fst os of
       Some e \<Rightarrow> (f, Some (System_error e))
     | None \<Rightarrow>
         if and (fd_fd f) FD_CLOEXEC = 0 then (f, None)
         else case snd os of
                Some e \<Rightarrow> (f, Some (System_error e))
              | None \<Rightarrow> (f\<lparr>fd_fd := and (fd_fd f) (not FD_CLOEXEC)\<rparr>, None))"

definition is_fd_nonblocking :: "int option \<Rightarrow> fd_flags \<Rightarrow> bool" where
  "is_fd_nonblocking err f \<longleftrightarrow> err = None \<and> and (fd_fl f) O_NONBLOCK \<noteq> 0"

definition is_fd_blocking :: "int option \<Rightarrow> fd_flags \<Rightarrow> bool" where
  "is_fd_blocking err f \<longleftrightarrow> err = None \<and> and (fd_fl f) O_NONBLOCK = 0"

definition is_fd_close_on_exec :: "int option \<Rightarrow> fd_flags \<Rightarrow> bool" where
  "is_fd_close_on_exec err f \<longleftrightarrow> err = None \<and> and (fd_fd f) FD_CLOEXEC \<noteq> 0"

definition is_fd_open_on_exec :: "int option \<Rightarrow> fd_flags \<Rightarrow> bool" where
  "is_fd_open_on_exec err f \<longleftrightarrow> err = None \<and> and (fd_fd f) FD_CLOEXEC = 0"

definition dev_blocking :: "fcntl_os \<Rightarrow> bool \<Rightarrow> fd_flags \<Rightarrow> fd_flags outcome" where
  "dev_blocking os flag f = (if flag then make_fd_blocking os f else make_fd_nonblocking os f)"

definition dev_open_on_exec :: "fcntl_os \<Rightarrow> bool \<Rightarrow> fd_flags \<Rightarrow> fd_flags outcome" where
  "dev_open_on_exec os flag f =
     (if flag then make_fd_open_on_exec os f else make_fd_close_on_exec os f)"

text \<open>The two scopes: opening at construction, closing at destruction.\<close>

definition open_on_exec_enter :: "fcntl_os \<Rightarrow> fd_flags \<Rightarrow> fd_flags outcome" where
  "open_on_exec_enter os f = dev_open_on_exec os True f"

definition open_on_exec_leave :: "fcntl_os \<Rightarrow> fd_flags \<Rightarrow> fd_flags outcome" where
  "open_on_exec_leave os f = dev_open_on_exec os False f"

definition restorer_enter :: "fcntl_os \<Rightarrow> fcntl_os \<Rightarrow> fd_flags \<Rightarrow> fd_flags outcome" where
  "restorer_enter os1 os2 f = then_o (dev_open_on_exec os1 True f) (dev_blocking os2 True)"

definition restorer_leave :: "fcntl_os \<Rightarrow> fcntl_os \<Rightarrow> fd_flags \<Rightarrow> fd_flags outcome" where
  "restorer_leave os1 os2 f = then_o (dev_open_on_exec os1 False f) (dev_blocking os2 False)"

lemma one_bit_set: "and (or w (2 ^ n)) (2 ^ n) = (2 ^ n :: 'a::len word)"
  by (rule bit_word_eqI) (auto simp: bit_simps)

lemma one_bit_cleared: "and (and w (not (2 ^ n))) (2 ^ n) = (0 :: 'a::len word)"
  by (rule bit_word_eqI) (auto simp: bit_simps)

lemmas nonblock_bit = one_bit_set[where 'a = 32 and n = 11, simplified]
  one_bit_cleared[where 'a = 32 and n = 11, simplified]
lemmas cloexec_bit = one_bit_set[where 'a = 32 and n = 0, simplified]
  one_bit_cleared[where 'a = 32 and n = 0, simplified]

text \<open>Each operation establishes the flag it is named after, or throws and changes nothing.\<close>

lemma dev_blocking_effect:
  "dev_blocking os b f = (f', e) \<Longrightarrow>
     (e = None \<longrightarrow> is_fd_blocking None f' = b) \<and> (e \<noteq> None \<longrightarrow> f' = f) \<and> fd_fd f' = fd_fd f"
  by (auto simp: dev_blocking_def make_fd_blocking_def make_fd_nonblocking_def is_fd_blocking_def
      nonblock_bit split: option.splits if_splits)

lemma dev_open_on_exec_effect:
  "dev_open_on_exec os b f = (f', e) \<Longrightarrow>
     (e = None \<longrightarrow> is_fd_open_on_exec None f' = b) \<and> (e \<noteq> None \<longrightarrow> f' = f) \<and> fd_fl f' = fd_fl f"
  by (auto simp: dev_open_on_exec_def make_fd_open_on_exec_def make_fd_close_on_exec_def
      is_fd_open_on_exec_def cloexec_bit split: option.splits if_splits)

lemma is_fd_flags_frame:
  "fd_fl f' = fd_fl f \<Longrightarrow> is_fd_blocking e f' = is_fd_blocking e f"
  "fd_fd f' = fd_fd f \<Longrightarrow> is_fd_open_on_exec e f' = is_fd_open_on_exec e f"
  by (simp_all add: is_fd_blocking_def is_fd_open_on_exec_def)

text \<open>What a restorer leaves behind does not depend on the flags it found: the descriptor is
  non-blocking and closed on exec, also when it was neither before.\<close>

lemma restorer_leaves:
  assumes "restorer_leave os1 os2 f = (f', None)"
  shows "\<not> is_fd_blocking None f' \<and> \<not> is_fd_open_on_exec None f'"
proof -
  obtain f1 where f1: "dev_open_on_exec os1 False f = (f1, None)" "dev_blocking os2 False f1 = (f', None)"
    using assms by (cases "dev_open_on_exec os1 False f")
      (auto simp: restorer_leave_def then_o_def split: option.splits)
  show ?thesis
    using dev_open_on_exec_effect[OF f1(1)] dev_blocking_effect[OF f1(2)] is_fd_flags_frame(2)[of f' f1]
    by simp
qed

section \<open>Reading and writing\<close>

datatype sysret = Sys_err int | Sys_ok nat

abbreviation EINTR :: int where "EINTR \<equiv> 4"
abbreviation EAGAIN :: int where "EAGAIN \<equiv> 11"
abbreviation EPIPE :: int where "EPIPE \<equiv> 32"

text \<open>What is left of the replies and the bytes in the channel; the value of a call, or what it
  throws, with the state it leaves.\<close>

type_synonym io = "sysret list \<times> u8 list"
type_synonym 'a io_result = "'a result \<times> io"

text \<open>\<open>EWOULDBLOCK\<close> is \<open>EAGAIN\<close>.\<close>

fun dev_write :: "u8 list \<Rightarrow> sysret list \<Rightarrow> u8 list \<Rightarrow> int io_result option" where
  "dev_write bs [] ch = None"
| "dev_write bs (Sys_err e # rs) ch =
     (if e = EINTR then dev_write bs rs ch
      else if e \<noteq> EAGAIN then Some (Inl (System_error e), rs, ch)
      else Some (Inr (- 1), rs, ch))"
| "dev_write bs (Sys_ok n # rs) ch =
     (let m = min n (length bs) in Some (Inr (int m), rs, ch @ take m bs))"

text \<open>Reading into a space of \<open>sz\<close> bytes: the return value and the bytes that were stored.\<close>

fun dev_read_loop :: "nat \<Rightarrow> sysret list \<Rightarrow> u8 list \<Rightarrow> (int \<times> u8 list) io_result option" where
  "dev_read_loop sz [] ch = None"
| "dev_read_loop sz (Sys_err e # rs) ch =
     (if e = EINTR then dev_read_loop sz rs ch
      else if e \<noteq> EAGAIN then Some (Inl (System_error e), rs, ch)
      else Some (Inr (- 1, []), rs, ch))"
| "dev_read_loop sz (Sys_ok n # rs) ch =
     (let m = min n (min sz (length ch))
      in if m = 0 \<and> sz \<noteq> 0 then Some (Inl (System_error EPIPE), rs, ch)
         else Some (Inr (int m, take m ch), rs, drop m ch))"

definition dev_read :: "nat \<Rightarrow> sysret list \<Rightarrow> u8 list \<Rightarrow> (int \<times> u8 list) io_result option" where
  "dev_read sz rs ch = (if sz = 0 then Some (Inl Assert_failed, rs, ch) else dev_read_loop sz rs ch)"

lemma dev_write_shorter: "dev_write bs rs ch = Some (r, rs', ch') \<Longrightarrow> length rs' < length rs"
  by (induction bs rs ch rule: dev_write.induct) (auto simp: Let_def less_Suc_eq split: if_splits)

lemma dev_read_loop_shorter: "dev_read_loop sz rs ch = Some (r, rs', ch') \<Longrightarrow> length rs' < length rs"
  by (induction sz rs ch rule: dev_read_loop.induct) (auto simp: Let_def less_Suc_eq split: if_splits)

text \<open>\<open>flush\<close> and \<open>purge\<close> repeat the call until all bytes are through, also after \<open>-1\<close>: on a
  non-blocking descriptor they spin. The result counts the bytes.\<close>

function dev_flush :: "u8 list \<Rightarrow> nat \<Rightarrow> sysret list \<Rightarrow> u8 list \<Rightarrow> nat io_result option" where
  "dev_flush B n rs ch =
     (if n < length B
      then case dev_write (drop n B) rs ch of
             None \<Rightarrow> None
           | Some (Inl e, rs', ch') \<Rightarrow> Some (Inl e, rs', ch')
           | Some (Inr r, rs', ch') \<Rightarrow> dev_flush B (if 0 < r then n + nat r else n) rs' ch'
      else Some (Inr n, rs, ch))"
  by pat_completeness auto
termination
  by (relation "measure (\<lambda>(B, n, rs, ch). length rs)") (auto dest: dev_write_shorter)

function dev_purge ::
  "nat \<Rightarrow> u8 list \<Rightarrow> sysret list \<Rightarrow> u8 list \<Rightarrow> (nat \<times> u8 list) io_result option" where
  "dev_purge N got rs ch =
     (if length got < N
      then case dev_read (N - length got) rs ch of
             None \<Rightarrow> None
           | Some (Inl e, rs', ch') \<Rightarrow> Some (Inl e, rs', ch')
           | Some (Inr (r, bs), rs', ch') \<Rightarrow> dev_purge N (got @ bs) rs' ch'
      else Some (Inr (length got, got), rs, ch))"
  by pat_completeness auto
termination
  by (relation "measure (\<lambda>(N, got, rs, ch). length rs)")
    (auto simp: dev_read_def dest: dev_read_loop_shorter split: if_splits)

declare dev_flush.simps [simp del] dev_purge.simps [simp del]

text \<open>\<open>write_all\<close> of os.cpp, on a bare descriptor: as \<open>flush\<close>, with the calls inlined.\<close>

fun write_all :: "u8 list \<Rightarrow> nat \<Rightarrow> sysret list \<Rightarrow> u8 list \<Rightarrow> nat io_result option" where
  "write_all B n [] ch = (if n < length B then None else Some (Inr n, [], ch))"
| "write_all B n (Sys_err e # rs) ch =
     (if n < length B
      then if e = EINTR then write_all B n rs ch
           else if e \<noteq> EAGAIN then Some (Inl (System_error e), rs, ch)
           else write_all B n rs ch
      else Some (Inr n, Sys_err e # rs, ch))"
| "write_all B n (Sys_ok k # rs) ch =
     (if n < length B
      then let m = min k (length B - n) in write_all B (n + m) rs (ch @ take m (drop n B))
      else Some (Inr n, Sys_ok k # rs, ch))"

section \<open>Facts about the calls\<close>

lemma dev_write_effect:
  "dev_write bs rs ch = Some (r, rs', ch') \<Longrightarrow>
     (\<exists>m\<le>length bs. ch' = ch @ take m bs \<and>
        (case r of Inl e \<Rightarrow> m = 0 \<and> (\<exists>k. e = System_error k)
                 | Inr x \<Rightarrow> x = int m \<or> m = 0 \<and> x = - 1))"
proof (induction bs rs ch rule: dev_write.induct)
  case (1 bs ch)
  then show ?case by simp
next
  case (2 bs e rs ch)
  then show ?case by (auto split: if_splits intro!: exI[of _ "0::nat"])
next
  case (3 bs n rs ch)
  then show ?case by (auto simp: Let_def intro!: exI[of _ "min n (length bs)"])
qed

lemma dev_read_effect:
  assumes "0 < sz" "dev_read sz rs ch = Some (r, rs', ch')"
  shows "case r of
      Inl e \<Rightarrow> ch' = ch \<and> (\<exists>k. e = System_error k)
    | Inr (x, bs) \<Rightarrow> ch = bs @ ch' \<and> length bs \<le> sz \<and> (x = int (length bs) \<and> bs \<noteq> [] \<or> x = - 1 \<and> bs = [])"
proof -
  have "dev_read_loop sz rs ch = Some (r, rs', ch')" using assms by (simp add: dev_read_def)
  then show ?thesis
    using assms(1)
    by (induction sz rs ch rule: dev_read_loop.induct) (auto simp: Let_def min_def split: if_splits)
qed

text \<open>A run of the kernel in which every reply is a success, an interruption or a would-block, and
  the successes transfer at least one byte each.\<close>

definition kernel_ok :: "sysret list \<Rightarrow> bool" where
  "kernel_ok rs \<longleftrightarrow> list_all (\<lambda>r. case r of Sys_ok n \<Rightarrow> 0 < n | Sys_err e \<Rightarrow> e = EINTR \<or> e = EAGAIN) rs"

definition ok_count :: "sysret list \<Rightarrow> nat" where
  "ok_count rs = length (filter (\<lambda>r. case r of Sys_ok _ \<Rightarrow> True | Sys_err _ \<Rightarrow> False) rs)"

lemma kernel_ok_simps [simp]:
  "kernel_ok []"
  "kernel_ok (Sys_ok n # rs) \<longleftrightarrow> 0 < n \<and> kernel_ok rs"
  "kernel_ok (Sys_err e # rs) \<longleftrightarrow> (e = EINTR \<or> e = EAGAIN) \<and> kernel_ok rs"
  by (simp_all add: kernel_ok_def)

lemma ok_count_simps [simp]:
  "ok_count [] = 0"
  "ok_count (Sys_ok n # rs) = Suc (ok_count rs)"
  "ok_count (Sys_err e # rs) = ok_count rs"
  by (simp_all add: ok_count_def)

text \<open>On the same replies, \<open>Device::flush\<close> and \<open>write_all\<close> do the same.\<close>

lemma write_all_flush: "write_all B n rs ch = dev_flush B n rs ch"
proof (induction B n rs ch rule: write_all.induct)
  case (1 B n ch)
  then show ?case by (simp add: dev_flush.simps)
next
  case (2 B n e rs ch)
  then show ?case
    by (subst dev_flush.simps) (auto simp: dev_flush.simps[of B n rs])
next
  case (3 B n k rs ch)
  then show ?case
    by (subst dev_flush.simps) (auto simp: Let_def)
qed

section \<open>Writing everything\<close>

text \<open>Whatever the kernel answers, what reaches the channel is a prefix of the buffer, all of it when
  the call returns.\<close>

lemma dev_flush_prefix:
  "dev_flush B n rs ch = Some (r, rs', ch') \<Longrightarrow> n \<le> length B \<Longrightarrow>
     \<exists>m. n \<le> m \<and> m \<le> length B \<and> ch' = ch @ take (m - n) (drop n B) \<and>
         (case r of Inl e \<Rightarrow> \<exists>k. e = System_error k | Inr x \<Rightarrow> x = length B \<and> m = length B)"
proof (induction B n rs ch rule: dev_flush.induct)
  case (1 B n rs ch)
  show ?case
  proof (cases "n < length B")
    case False
    with 1 show ?thesis by (auto simp: dev_flush.simps[of B n])
  next
    case True
    with "1.prems"(1) obtain w rs1 ch1 where w: "dev_write (drop n B) rs ch = Some (w, rs1, ch1)"
      by (auto simp: dev_flush.simps[of B n] split: option.splits)
    obtain m where m: "m \<le> length B - n" "ch1 = ch @ take m (drop n B)"
        "case w of Inl e \<Rightarrow> m = 0 \<and> (\<exists>k. e = System_error k) | Inr x \<Rightarrow> x = int m \<or> m = 0 \<and> x = - 1"
      using dev_write_effect[OF w] by auto
    show ?thesis
    proof (cases w)
      case (Inl e)
      with "1.prems" True w m show ?thesis
        by (auto simp: dev_flush.simps[of B n] intro!: exI[of _ n])
    next
      case (Inr x)
      define n' where "n' = (if 0 < x then n + nat x else n)"
      have n': "n' = n + m" using m(3) Inr by (auto simp: n'_def)
      have f: "dev_flush B n' rs1 ch1 = Some (r, rs', ch')"
        using "1.prems"(1) True w Inr by (simp add: dev_flush.simps[of B n] n'_def)
      have "n' \<le> length B" using m(1) True n' by simp
      then obtain k where
        k: "n' \<le> k" "k \<le> length B" "ch' = ch1 @ take (k - n') (drop n' B)"
          "case r of Inl e \<Rightarrow> \<exists>k. e = System_error k | Inr x \<Rightarrow> x = length B \<and> k = length B"
        using "1.IH"[OF True w refl Inr refl, folded n'_def, OF f] by blast
      have "ch' = ch @ take (k - n) (drop n B)"
        using k(1,3) m(2) take_add[of m "k - n'" "drop n B"] by (simp add: n' add.commute)
      with k n' show ?thesis by (intro exI[of _ k]) auto
    qed
  qed
qed

text \<open>With a kernel that only succeeds, interrupts or would block, the call returns once there are
  as many successes as bytes.\<close>

lemma dev_write_ok:
  assumes "kernel_ok rs" "0 < ok_count rs" "bs \<noteq> []"
  shows "\<exists>x rs' ch'. dev_write bs rs ch = Some (Inr x, rs', ch') \<and> kernel_ok rs' \<and>
    (0 < x \<and> x \<le> int (length bs) \<and> ok_count rs' = ok_count rs - 1 \<or> x = - 1 \<and> ok_count rs' = ok_count rs)"
  using assms by (induction bs rs ch rule: dev_write.induct) (auto simp: Let_def)

lemma dev_flush_returns:
  "kernel_ok rs \<Longrightarrow> length B - n \<le> ok_count rs \<Longrightarrow> n \<le> length B \<Longrightarrow>
     \<exists>rs' ch'. dev_flush B n rs ch = Some (Inr (length B), rs', ch')"
proof (induction B n rs ch rule: dev_flush.induct)
  case (1 B n rs ch)
  show ?case
  proof (cases "n < length B")
    case False
    with "1.prems" show ?thesis by (simp add: dev_flush.simps[of B "length B"])
  next
    case True
    with "1.prems" have pos: "0 < ok_count rs" "drop n B \<noteq> []" by auto
    obtain x rs1 ch1 where
      w: "dev_write (drop n B) rs ch = Some (Inr x, rs1, ch1)" "kernel_ok rs1"
        "0 < x \<and> x \<le> int (length B - n) \<and> ok_count rs1 = ok_count rs - 1 \<or> x = - 1 \<and> ok_count rs1 = ok_count rs"
      using dev_write_ok[OF "1.prems"(1) pos, of ch] unfolding length_drop by blast
    define n' where "n' = (if 0 < x then n + nat x else n)"
    have "length B - n' \<le> ok_count rs1" "n' \<le> length B"
      using w(3) "1.prems" True by (auto simp: n'_def)
    then obtain rs' ch' where "dev_flush B n' rs1 ch1 = Some (Inr (length B), rs', ch')"
      using "1.IH"[OF True w(1) refl refl refl, folded n'_def] w(2) by blast
    then show ?thesis using True w(1) by (simp add: dev_flush.simps[of B n] n'_def)
  qed
qed

end
