(* ===== verification/StreamBuf.thy ===== *)
theory StreamBuf
  imports Device
begin

text \<open>
  The stream buffers between the tasks and their devices (src/ipc/streambuf.cpp,
  include/dtc/ipc/streambuf.hpp): \<open>OutputStreamBuffer\<close>, filled by writes and drained into a device
  by \<open>sync\<close> and \<open>flush\<close>, and \<open>InputStreamBuffer\<close>, filled from a device by \<open>sync\<close> and \<open>purge\<close>
  and drained by reads. Both keep up to 31 bytes inside the union that holds their size, and move to
  an allocated block when more is needed. The model keeps the bytes of the union, the block and the
  pointers as offsets into the data, and checks the bounds of every copy.

  The theorems: whatever the kernel does, the bytes taken out of the input buffer, those in it, those
  in the channel and those in the output buffer are together exactly what was written, in order, with
  no access out of bounds and a capacity bounded by the data (\<open>stream_fifo\<close>); flushing ends, and
  empties the buffer when the device takes everything (\<open>flush_drains\<close>).
\<close>

section \<open>Memory\<close>

definition slice :: "nat \<Rightarrow> nat \<Rightarrow> 'a list \<Rightarrow> 'a list" where
  "slice a b xs = take (b - a) (drop a xs)"

text \<open>\<open>memcpy\<close> and \<open>memmove\<close> to an offset of a block.\<close>

definition blit :: "nat \<Rightarrow> 'a list \<Rightarrow> 'a list \<Rightarrow> 'a list result" where
  "blit off bs mem =
     (if off + length bs \<le> length mem
      then Inr (take off mem @ bs @ drop (off + length bs) mem)
      else Inl (Undefined ''write past the end''))"

text \<open>\<open>malloc\<close> refuses more than \<open>PTRDIFF_MAX\<close> bytes, upon which the callers' \<open>assert\<close> fails. The
  contents of a new block are not read before they are written.\<close>

definition malloc_limit :: nat where "malloc_limit = 2 ^ 63"

definition malloc :: "nat \<Rightarrow> u8 list result" where
  "malloc n = (if n < malloc_limit then Inr (replicate n 0) else Inl Assert_failed)"

lemma length_slice [simp]: "b \<le> length xs \<Longrightarrow> length (slice a b xs) = b - a"
  by (auto simp: slice_def)

lemma slice_same [simp]: "slice a a xs = []"
  by (simp add: slice_def)

lemma blit_ok: "off + length bs \<le> length mem \<Longrightarrow>
    blit off bs mem = Inr (take off mem @ bs @ drop (off + length bs) mem)"
  by (simp add: blit_def)

lemma slice_after_blit:
  "a \<le> off \<Longrightarrow> off \<le> length mem \<Longrightarrow>
     slice a (off + length bs) (take off mem @ bs @ xs) = slice a off mem @ bs"
  by (simp add: slice_def drop_take)

lemma slice_split: "a \<le> m \<Longrightarrow> m \<le> b \<Longrightarrow> b \<le> length xs \<Longrightarrow> slice a b xs = slice a m xs @ slice m b xs"
  unfolding slice_def using take_add[of "m - a" "b - m" "drop a xs"] by simp

lemma drop_slice: "a + n \<le> b \<Longrightarrow> slice (a + n) b xs = drop n (slice a b xs)"
  by (simp add: slice_def drop_take add.commute)

lemma take_slice: "n \<le> b - a \<Longrightarrow> take n (slice a b xs) = slice a (a + n) xs"
  by (simp add: slice_def)

section \<open>Small-buffer storage\<close>

text \<open>The bytes of the union \<open>LocalStreamBuffer\<close>, and the block \<open>_data\<close> points to, \<open>None\<close> while it
  points to the second byte of the union.\<close>

record store =
  b_size :: "u8 list"
  b_heap :: "u8 list option"

definition local_capacity :: nat where "local_capacity = 31"

definition fresh_union :: "u8 list" where
  "fresh_union = le_bytes 8 local_capacity @ replicate 24 0"

definition is_local_data :: "'a store_scheme \<Rightarrow> bool" where
  "is_local_data b \<longleftrightarrow> b_heap b = None"

definition b_value :: "'a store_scheme \<Rightarrow> nat" where
  "b_value b = of_le (take 8 (b_size b))"

text \<open>Local data overwrites all but the first byte of \<open>_size.value\<close>, hence the cast to \<open>char\<close>.\<close>

definition csize :: "'a store_scheme \<Rightarrow> nat" where
  "csize b = (if is_local_data b then unat (signed (hd (b_size b)) :: u64) else b_value b)"

definition mem :: "'a store_scheme \<Rightarrow> u8 list" where
  "mem b = (case b_heap b of None \<Rightarrow> tl (b_size b) | Some h \<Rightarrow> h)"

definition set_mem :: "u8 list \<Rightarrow> 'a store_scheme \<Rightarrow> 'a store_scheme" where
  "set_mem m b = (case b_heap b of
       None \<Rightarrow> b\<lparr>b_size := hd (b_size b) # m\<rparr>
     | Some _ \<Rightarrow> b\<lparr>b_heap := Some m\<rparr>)"

definition set_block :: "u8 list \<Rightarrow> nat \<Rightarrow> 'a store_scheme \<Rightarrow> 'a store_scheme" where
  "set_block m n b = b\<lparr>b_heap := Some m, b_size := le_bytes 8 n @ drop 8 (b_size b)\<rparr>"

definition store_ok :: "'a store_scheme \<Rightarrow> bool" where
  "store_ok b \<longleftrightarrow> length (b_size b) = 32 \<and>
     (case b_heap b of
        None \<Rightarrow> hd (b_size b) = 31
      | Some h \<Rightarrow> b_value b = length h \<and> local_capacity \<le> length h \<and> length h < malloc_limit)"

lemma fresh_union_ok: "length fresh_union = 32" "hd fresh_union = 31" "of_le (take 8 fresh_union) = 31"
  by code_simp+

lemma csize_mem: "store_ok b \<Longrightarrow> csize b = length (mem b)"
  by (auto simp: store_ok_def csize_def is_local_data_def mem_def split: option.splits)

lemma store_ok_capacity: "store_ok b \<Longrightarrow> 31 \<le> length (mem b)"
  by (auto simp: store_ok_def mem_def local_capacity_def split: option.splits)

lemma mem_set_mem [simp]: "mem (set_mem m b) = m"
  by (auto simp: mem_def set_mem_def split: option.splits)

lemma store_ok_set_mem: "store_ok b \<Longrightarrow> length m = length (mem b) \<Longrightarrow> store_ok (set_mem m b)"
  by (auto simp: store_ok_def set_mem_def mem_def b_value_def split: option.splits)

lemma mem_set_block [simp]: "mem (set_block m n b) = m"
  by (simp add: mem_def set_block_def)

lemma store_ok_set_block:
  assumes "store_ok b" "length m = n" "31 \<le> n" "n < malloc_limit"
  shows "store_ok (set_block m n b)"
proof -
  have "n < 256 ^ 8" using assms(4) by (simp add: malloc_limit_def)
  then show ?thesis
    using assms by (simp add: store_ok_def set_block_def b_value_def local_capacity_def del: le_bytes.simps)
qed

lemma double_until_le: "0 < n \<Longrightarrow> double_until n t \<le> max n (2 * t)"
proof (induction n t rule: double_until.induct)
  case (1 n t)
  then show ?case by (cases "n < t") (auto simp: double_until.simps[of n t])
qed

section \<open>Output buffer\<close>

text \<open>The device (whether there is one), whether there is a callback, the pointers, and how often the
  callback has been invoked.\<close>

record obuf = store +
  o_device :: bool
  o_on_write :: bool
  o_pbase :: nat
  o_pptr :: nat
  o_epptr :: nat
  o_fired :: nat

definition mk_obuf :: "bool \<Rightarrow> bool \<Rightarrow> obuf" where
  "mk_obuf device cb =
     \<lparr>b_size = fresh_union, b_heap = None, o_device = device, o_on_write = cb,
      o_pbase = 0, o_pptr = 0, o_epptr = local_capacity, o_fired = 0\<rparr>"

definition o_avail :: "obuf \<Rightarrow> nat" where
  "o_avail b = o_pptr b - o_pbase b"

definition o_content :: "obuf \<Rightarrow> u8 list" where
  "o_content b = slice (o_pbase b) (o_pptr b) (mem b)"

definition o_copy :: "nat \<Rightarrow> obuf \<Rightarrow> u8 list" where
  "o_copy cnt b = take (min (o_avail b) cnt) (drop (o_pbase b) (mem b))"

text \<open>\<open>_write\<close>: making room, by moving the data to the front or to a larger block, then the copy and
  the callback.\<close>

definition o_reserve :: "nat \<Rightarrow> obuf \<Rightarrow> obuf result" where
  "o_reserve cnt b =
     (if o_epptr b < o_pptr b + cnt then
        let avail = o_avail b; n = csize b in
        if avail + cnt \<le> n
        then bind_r (blit 0 (o_content b) (mem b)) (\<lambda>m.
               Inr ((set_mem m b)\<lparr>o_pbase := 0, o_epptr := n, o_pptr := avail\<rparr>))
        else let n = double_until n (avail + cnt) in
             bind_r (malloc n) (\<lambda>chunk.
             bind_r (blit 0 (o_content b) chunk) (\<lambda>m.
               Inr ((set_block m n b)\<lparr>o_pbase := 0, o_epptr := n, o_pptr := avail\<rparr>)))
      else Inr b)"

definition o_write :: "u8 list \<Rightarrow> obuf \<Rightarrow> (nat \<times> obuf) result" where
  "o_write bs b =
     bind_r (o_reserve (length bs) b) (\<lambda>b.
     bind_r (blit (o_pptr b) bs (mem b)) (\<lambda>m.
       Inr (length bs,
            (set_mem m b)\<lparr>o_pptr := o_pptr b + length bs,
              o_fired := o_fired b + (if 0 < length bs \<and> o_on_write b then 1 else 0)\<rparr>)))"

text \<open>\<open>_sync\<close> calls the virtual function \<open>write\<close> of its device, here an argument; \<open>o_sync\<close> is the
  \<open>_sync\<close> of a buffer whose device does not override it.\<close>

type_synonym writer = "u8 list \<Rightarrow> sysret list \<Rightarrow> u8 list \<Rightarrow> int io_result option"

definition sync_out :: "writer \<Rightarrow> obuf \<Rightarrow> sysret list \<Rightarrow> u8 list \<Rightarrow> (obuf \<times> int) io_result option" where
  "sync_out wr b rs ch =
     (if \<not> o_device b then Some (Inr (b, - 1), rs, ch)
      else case wr (o_content b) rs ch of
             None \<Rightarrow> None
           | Some (Inl e, io) \<Rightarrow> Some (Inl e, io)
           | Some (Inr r, io) \<Rightarrow>
               Some (Inr (if 0 < r then b\<lparr>o_pbase := o_pbase b + nat r\<rparr> else b, r), io))"

definition o_sync :: "obuf \<Rightarrow> sysret list \<Rightarrow> u8 list \<Rightarrow> (obuf \<times> int) io_result option" where
  "o_sync = sync_out dev_write"

lemmas o_sync_unfold = o_sync_def sync_out_def

lemma o_sync_shorter:
  "o_sync b rs ch = Some (Inr (b', r), rs', ch') \<Longrightarrow> 0 < r \<Longrightarrow> length rs' < length rs"
  by (auto simp: o_sync_unfold dest: dev_write_shorter split: if_splits option.splits sum.splits)

text \<open>\<open>_flush\<close>, with the bytes so far; an exception of the device leaves the buffer as it is then.\<close>

function o_flush ::
  "int \<Rightarrow> obuf \<Rightarrow> sysret list \<Rightarrow> u8 list \<Rightarrow> (obuf \<times> int result \<times> io) option" where
  "o_flush sz b rs ch =
     (if 0 < o_avail b
      then case o_sync b rs ch of
             None \<Rightarrow> None
           | Some (Inl e, rs', ch') \<Rightarrow> Some (b, Inl e, rs', ch')
           | Some (Inr (b', r), rs', ch') \<Rightarrow>
               if 0 < r then o_flush (sz + r) b' rs' ch'
               else if r = 0 then Some (b', Inr (if o_avail b' \<noteq> 0 then - 1 else sz), rs', ch')
               else Some (b', Inr (- 1), rs', ch')
      else Some (b, Inr sz, rs, ch))"
  by pat_completeness auto
termination
  by (relation "measure (\<lambda>(sz, b, rs, ch). length rs)") (auto dest: o_sync_shorter)

declare o_flush.simps [simp del]

text \<open>The same loop on any device.\<close>

partial_function (option) flush_out ::
  "writer \<Rightarrow> int \<Rightarrow> obuf \<Rightarrow> sysret list \<Rightarrow> u8 list \<Rightarrow> (obuf \<times> int result \<times> io) option" where
  "flush_out wr sz b rs ch =
     (if 0 < o_avail b
      then case sync_out wr b rs ch of
             None \<Rightarrow> None
           | Some (Inl e, rs', ch') \<Rightarrow> Some (b, Inl e, rs', ch')
           | Some (Inr (b', r), rs', ch') \<Rightarrow>
               if 0 < r then flush_out wr (sz + r) b' rs' ch'
               else if r = 0 then Some (b', Inr (if o_avail b' \<noteq> 0 then - 1 else sz), rs', ch')
               else Some (b', Inr (- 1), rs', ch')
      else Some (b, Inr sz, rs, ch))"

lemma o_flush_flush_out: "o_flush sz b rs ch = flush_out dev_write sz b rs ch"
proof (induction sz b rs ch rule: o_flush.induct)
  case (1 sz b rs ch)
  then show ?case
    by (subst o_flush.simps, subst flush_out.simps) (auto simp: o_sync_def split: option.splits sum.splits)
qed

section \<open>Input buffer\<close>

record ibuf = store +
  i_device :: bool
  i_on_read :: bool
  i_eback :: nat
  i_gptr :: nat
  i_egptr :: nat
  i_fired :: nat

definition mk_ibuf :: "bool \<Rightarrow> bool \<Rightarrow> ibuf" where
  "mk_ibuf device cb =
     \<lparr>b_size = fresh_union, b_heap = None, i_device = device, i_on_read = cb,
      i_eback = 0, i_gptr = 0, i_egptr = 0, i_fired = 0\<rparr>"

definition i_avail :: "ibuf \<Rightarrow> nat" where
  "i_avail b = i_egptr b - i_gptr b"

definition i_content :: "ibuf \<Rightarrow> u8 list" where
  "i_content b = slice (i_gptr b) (i_egptr b) (mem b)"

definition i_copy :: "nat \<Rightarrow> ibuf \<Rightarrow> u8 list" where
  "i_copy cnt b = take (min (i_avail b) cnt) (drop (i_gptr b) (mem b))"

text \<open>\<open>_sync\<close>: a full buffer first gets room, by reusing the space in front when that is more than
  half of it, else by doubling; the capacity at hand is returned with the buffer.\<close>

definition i_reserve :: "ibuf \<Rightarrow> (ibuf \<times> nat) result" where
  "i_reserve b =
     (let n = csize b in
      if i_egptr b = i_eback b + n then
        let empty = i_gptr b - i_eback b; avail = i_avail b in
        if n div 2 < empty
        then bind_r (blit (i_eback b) (i_content b) (mem b)) (\<lambda>m.
               Inr ((set_mem m b)\<lparr>i_eback := 0, i_gptr := 0, i_egptr := avail\<rparr>, n))
        else let n = n * 2 in
             bind_r (malloc n) (\<lambda>chunk.
             bind_r (blit 0 (i_content b) chunk) (\<lambda>m.
               Inr ((set_block m n b)\<lparr>i_eback := 0, i_gptr := 0, i_egptr := avail\<rparr>, n)))
      else Inr (b, n))"

text \<open>Likewise \<open>_sync\<close> of an input buffer with the virtual \<open>read\<close>.\<close>

type_synonym reader = "nat \<Rightarrow> sysret list \<Rightarrow> u8 list \<Rightarrow> (int \<times> u8 list) io_result option"

definition sync_in ::
  "reader \<Rightarrow> ibuf \<Rightarrow> sysret list \<Rightarrow> u8 list \<Rightarrow> (ibuf \<times> int result \<times> io) option" where
  "sync_in rd b rs ch =
     (if \<not> i_device b then Some (b, Inr (- 1), rs, ch)
      else case i_reserve b of
             Inl e \<Rightarrow> Some (b, Inl e, rs, ch)
           | Inr (b, n) \<Rightarrow>
               (case rd (n - (i_egptr b - i_eback b)) rs ch of
                  None \<Rightarrow> None
                | Some (Inl e, io) \<Rightarrow> Some (b, Inl e, io)
                | Some (Inr (r, bs), io) \<Rightarrow>
                    (case blit (i_egptr b) bs (mem b) of
                       Inl e \<Rightarrow> Some (b, Inl e, io)
                     | Inr m \<Rightarrow>
                         let b = set_mem m b
                         in Some (if 0 < r then b\<lparr>i_egptr := i_egptr b + nat r\<rparr> else b, Inr r, io))))"

definition i_sync ::
  "ibuf \<Rightarrow> sysret list \<Rightarrow> u8 list \<Rightarrow> (ibuf \<times> int result \<times> io) option" where
  "i_sync = sync_in dev_read"

lemmas i_sync_unfold = i_sync_def sync_in_def

lemma i_sync_shorter:
  "i_sync b rs ch = Some (b', Inr r, rs', ch') \<Longrightarrow> 0 < r \<Longrightarrow> length rs' < length rs"
  by (auto simp: i_sync_unfold dev_read_def Let_def dest: dev_read_loop_shorter
      split: if_splits option.splits sum.splits prod.splits)

text \<open>\<open>_purge\<close>: the loop ends at a result that is not positive.\<close>

function i_purge ::
  "int \<Rightarrow> ibuf \<Rightarrow> sysret list \<Rightarrow> u8 list \<Rightarrow> (ibuf \<times> int result \<times> io) option" where
  "i_purge sz b rs ch =
     (case i_sync b rs ch of
        None \<Rightarrow> None
      | Some (b', Inl e, rs', ch') \<Rightarrow> Some (b', Inl e, rs', ch')
      | Some (b', Inr r, rs', ch') \<Rightarrow>
          if 0 < r then i_purge (sz + r) b' rs' ch'
          else if r = 0 then Some (b', Inr sz, rs', ch')
          else Some (b', Inr (- 1), rs', ch'))"
  by pat_completeness auto
termination
  by (relation "measure (\<lambda>(sz, b, rs, ch). length rs)") (auto dest: i_sync_shorter)

declare i_purge.simps [simp del]

partial_function (option) purge_in ::
  "reader \<Rightarrow> int \<Rightarrow> ibuf \<Rightarrow> sysret list \<Rightarrow> u8 list \<Rightarrow> (ibuf \<times> int result \<times> io) option" where
  "purge_in rd sz b rs ch =
     (case sync_in rd b rs ch of
        None \<Rightarrow> None
      | Some (b', Inl e, rs', ch') \<Rightarrow> Some (b', Inl e, rs', ch')
      | Some (b', Inr r, rs', ch') \<Rightarrow>
          if 0 < r then purge_in rd (sz + r) b' rs' ch'
          else if r = 0 then Some (b', Inr sz, rs', ch')
          else Some (b', Inr (- 1), rs', ch'))"

lemma i_purge_purge_in: "i_purge sz b rs ch = purge_in dev_read sz b rs ch"
proof (induction sz b rs ch rule: i_purge.induct)
  case (1 sz b rs ch)
  then show ?case
    by (subst i_purge.simps, subst purge_in.simps) (auto simp: i_sync_def split: option.splits sum.splits)
qed

text \<open>\<open>_read\<close> and \<open>_drop\<close>; their counts are signed, and a negative count of \<open>memcpy\<close> is a huge one.\<close>

definition i_read :: "int \<Rightarrow> ibuf \<Rightarrow> (int \<times> u8 list \<times> ibuf) result" where
  "i_read cnt b =
     (let n = min cnt (int (i_avail b)) in
      if n < 0 then Inl (Undefined ''memcpy of a negative size'')
      else Inr (n, take (nat n) (drop (i_gptr b) (mem b)),
                b\<lparr>i_gptr := i_gptr b + nat n,
                  i_fired := i_fired b + (if 0 < n \<and> i_on_read b then 1 else 0)\<rparr>))"

definition i_drop :: "int \<Rightarrow> ibuf \<Rightarrow> (int \<times> ibuf) result" where
  "i_drop cnt b =
     (let n = min cnt (int (i_avail b)) in
      if int (i_gptr b) + n < 0 then Inl (Undefined ''pointer before the buffer'')
      else Inr (n, b\<lparr>i_gptr := nat (int (i_gptr b) + n)\<rparr>))"

text \<open>The constructors of an input buffer from an output buffer: by copy, and by move, which takes
  over an allocated block and resets the source.\<close>

definition ibuf_of_copy :: "obuf \<Rightarrow> ibuf result" where
  "ibuf_of_copy ob =
     (let b = mk_ibuf False False; cnt = o_avail ob in
      if cnt < b_value b
      then bind_r (blit 0 (o_content ob) (mem b)) (\<lambda>m. Inr ((set_mem m b)\<lparr>i_egptr := cnt\<rparr>))
      else case malloc cnt of
             Inl _ \<Rightarrow> Inl (Undefined ''null pointer'')
           | Inr chunk \<Rightarrow>
               bind_r (blit 0 (o_content ob) chunk) (\<lambda>m.
                 Inr ((set_block m cnt b)\<lparr>i_eback := 0, i_gptr := 0, i_egptr := cnt\<rparr>)))"

definition ibuf_of_move :: "obuf \<Rightarrow> (ibuf \<times> obuf) result" where
  "ibuf_of_move ob =
     (let b = mk_ibuf False False; cnt = o_avail ob in
      bind_r
        (if is_local_data ob
         then bind_r (blit 0 (o_content ob) (mem b)) (\<lambda>m. Inr ((set_mem m b)\<lparr>i_egptr := cnt\<rparr>))
         else bind_r (blit 0 (o_content ob) (mem ob)) (\<lambda>m.
                Inr ((set_block m (b_value ob) b)\<lparr>i_eback := 0, i_gptr := 0, i_egptr := cnt\<rparr>)))
        (\<lambda>b. Inr (b, ob\<lparr>b_size := fresh_union, b_heap := None, o_pbase := 0, o_pptr := 0,
                         o_epptr := local_capacity\<rparr>)))"

section \<open>Well-formed buffers\<close>

definition obuf_ok :: "obuf \<Rightarrow> bool" where
  "obuf_ok b \<longleftrightarrow> store_ok b \<and> o_pbase b \<le> o_pptr b \<and> o_pptr b \<le> o_epptr b \<and>
     o_epptr b = length (mem b)"

definition ibuf_ok :: "ibuf \<Rightarrow> bool" where
  "ibuf_ok b \<longleftrightarrow> store_ok b \<and> i_eback b = 0 \<and> i_gptr b \<le> i_egptr b \<and> i_egptr b \<le> length (mem b)"

lemma obuf_okD:
  assumes "obuf_ok b"
  shows "store_ok b" "o_pbase b \<le> o_pptr b" "o_pptr b \<le> o_epptr b" "o_epptr b = length (mem b)"
  using assms by (simp_all add: obuf_ok_def)

lemma ibuf_okD:
  assumes "ibuf_ok b"
  shows "store_ok b" "i_eback b = 0" "i_gptr b \<le> i_egptr b" "i_egptr b \<le> length (mem b)"
  using assms by (simp_all add: ibuf_ok_def)

text \<open>The storage does not depend on the other fields, nor they on the storage.\<close>

lemma store_frame [simp]:
  "mem (b\<lparr>o_pbase := x\<rparr>) = mem b" "mem (b\<lparr>o_pptr := x\<rparr>) = mem b"
  "mem (b\<lparr>o_epptr := x\<rparr>) = mem b" "mem (b\<lparr>o_fired := x\<rparr>) = mem b"
  "mem (c\<lparr>i_eback := x\<rparr>) = mem c" "mem (c\<lparr>i_gptr := x\<rparr>) = mem c"
  "mem (c\<lparr>i_egptr := x\<rparr>) = mem c" "mem (c\<lparr>i_fired := x\<rparr>) = mem c"
  "store_ok (b\<lparr>o_pbase := x\<rparr>) = store_ok b" "store_ok (b\<lparr>o_pptr := x\<rparr>) = store_ok b"
  "store_ok (b\<lparr>o_epptr := x\<rparr>) = store_ok b" "store_ok (b\<lparr>o_fired := x\<rparr>) = store_ok b"
  "store_ok (c\<lparr>i_eback := x\<rparr>) = store_ok c" "store_ok (c\<lparr>i_gptr := x\<rparr>) = store_ok c"
  "store_ok (c\<lparr>i_egptr := x\<rparr>) = store_ok c" "store_ok (c\<lparr>i_fired := x\<rparr>) = store_ok c"
  by (simp_all add: mem_def store_ok_def b_value_def split: option.split)

lemma set_mem_frame [simp]:
  "o_device (set_mem m b) = o_device b" "o_on_write (set_mem m b) = o_on_write b"
  "o_pbase (set_mem m b) = o_pbase b" "o_pptr (set_mem m b) = o_pptr b"
  "o_epptr (set_mem m b) = o_epptr b" "o_fired (set_mem m b) = o_fired b"
  "i_device (set_mem m c) = i_device c" "i_on_read (set_mem m c) = i_on_read c"
  "i_eback (set_mem m c) = i_eback c" "i_gptr (set_mem m c) = i_gptr c"
  "i_egptr (set_mem m c) = i_egptr c" "i_fired (set_mem m c) = i_fired c"
  by (simp_all add: set_mem_def split: option.splits)

lemma set_block_frame [simp]:
  "o_device (set_block m n b) = o_device b" "o_on_write (set_block m n b) = o_on_write b"
  "o_fired (set_block m n b) = o_fired b"
  "i_device (set_block m n c) = i_device c" "i_on_read (set_block m n c) = i_on_read c"
  "i_fired (set_block m n c) = i_fired c"
  by (simp_all add: set_block_def)

lemma mk_obuf_ok: "obuf_ok (mk_obuf d c)" "o_content (mk_obuf d c) = []" "length (mem (mk_obuf d c)) = 31"
  by (simp_all add: obuf_ok_def mk_obuf_def store_ok_def mem_def fresh_union_ok local_capacity_def
      o_content_def)

lemma mk_ibuf_ok: "ibuf_ok (mk_ibuf d c)" "i_content (mk_ibuf d c) = []" "length (mem (mk_ibuf d c)) = 31"
  by (simp_all add: ibuf_ok_def mk_ibuf_def store_ok_def mem_def fresh_union_ok i_content_def)

lemma length_o_content: "obuf_ok b \<Longrightarrow> length (o_content b) = o_avail b"
  using obuf_okD[of b] by (simp add: o_content_def o_avail_def)

lemma length_i_content: "ibuf_ok b \<Longrightarrow> length (i_content b) = i_avail b"
  using ibuf_okD[of b] by (simp add: i_content_def i_avail_def)

lemma o_copy_content: "obuf_ok b \<Longrightarrow> o_copy n b = take n (o_content b)"
  by (simp add: o_copy_def o_content_def o_avail_def slice_def min.commute)

lemma i_copy_content: "ibuf_ok b \<Longrightarrow> i_copy n b = take n (i_content b)"
  by (simp add: i_copy_def i_content_def i_avail_def slice_def min.commute)

section \<open>The output operations\<close>

lemma slice_front: "slice 0 (length xs) (xs @ ys) = xs"
  by (simp add: slice_def)

text \<open>A write goes through when the block it needs can be allocated, in particular when twice the data
  fits.\<close>

definition allocatable :: "nat \<Rightarrow> obuf \<Rightarrow> bool" where
  "allocatable n b \<longleftrightarrow>
     (o_epptr b < o_pptr b + n \<longrightarrow> csize b < o_avail b + n \<longrightarrow>
        double_until (csize b) (o_avail b + n) < malloc_limit)"

lemma small_allocatable:
  assumes "obuf_ok b" "2 * (o_avail b + n) < malloc_limit"
  shows "allocatable n b"
proof -
  have "31 \<le> csize b"
    using obuf_okD(1)[OF assms(1)] store_ok_capacity[of b] csize_mem[of b] by simp
  then show ?thesis
    using double_until_le[of "csize b" "o_avail b + n"] assms(2) by (auto simp: allocatable_def)
qed

lemma o_reserve_ok:
  assumes ok: "obuf_ok b" and small: "allocatable n b"
  shows "\<exists>b'. o_reserve n b = Inr b' \<and> obuf_ok b' \<and> o_content b' = o_content b \<and>
    o_pptr b' + n \<le> length (mem b') \<and> length (mem b') \<le> max (length (mem b)) (2 * (o_avail b + n)) \<and>
    o_device b' = o_device b \<and> o_on_write b' = o_on_write b \<and> o_fired b' = o_fired b"
proof -
  note [simp] = obuf_okD[OF ok] length_o_content[OF ok]
  have cap: "csize b = length (mem b)" by (rule csize_mem) simp
  consider (room) "o_pptr b + n \<le> o_epptr b"
    | (move) "o_epptr b < o_pptr b + n" "o_avail b + n \<le> csize b"
    | (grow) "o_epptr b < o_pptr b + n" "csize b < o_avail b + n" by linarith
  then show ?thesis
  proof cases
    case room
    then show ?thesis using ok by (simp add: o_reserve_def)
  next
    case move
    define m where "m = o_content b @ drop (o_avail b) (mem b)"
    define b' where "b' = (set_mem m b)\<lparr>o_pbase := 0, o_epptr := csize b, o_pptr := o_avail b\<rparr>"
    have m: "blit 0 (o_content b) (mem b) = Inr m" "length m = length (mem b)"
      using move cap by (simp_all add: blit_ok m_def)
    have "o_reserve n b = Inr b'"
      using move m(1) by (simp add: o_reserve_def Let_def b'_def)
    moreover have "obuf_ok b'"
      using m(2) cap move(2) by (simp add: obuf_ok_def b'_def store_ok_set_mem)
    moreover have "o_content b' = o_content b"
    proof -
      have "o_pbase b' = 0" "o_pptr b' = length (o_content b)" "mem b' = m" by (simp_all add: b'_def)
      then show ?thesis unfolding o_content_def[of b'] by (simp only: m_def slice_front)
    qed
    ultimately show ?thesis using move cap m(2) by (simp add: b'_def)
  next
    case grow
    define k where "k = double_until (csize b) (o_avail b + n)"
    define m where "m = o_content b @ drop (o_avail b) (replicate k 0)"
    define b' where "b' = (set_block m k b)\<lparr>o_pbase := 0, o_epptr := k, o_pptr := o_avail b\<rparr>"
    have pos: "31 \<le> csize b" using store_ok_capacity[of b] cap by simp
    have k: "o_avail b + n \<le> k" "31 \<le> k" "k \<le> 2 * (o_avail b + n)"
      using double_until_ge[of "csize b" "o_avail b + n"] double_until_le[of "csize b" "o_avail b + n"]
        pos grow(2) by (auto simp: k_def)
    have m: "malloc k = Inr (replicate k 0)" "blit 0 (o_content b) (replicate k 0) = Inr m" "length m = k"
      using k small grow by (auto simp: malloc_def blit_ok m_def k_def allocatable_def)
    have "o_reserve n b = Inr b'"
      using grow m(1,2) by (simp add: o_reserve_def Let_def b'_def k_def)
    moreover have "obuf_ok b'"
      using m(3) k small grow by (simp add: obuf_ok_def b'_def store_ok_set_block allocatable_def k_def)
    moreover have "o_content b' = o_content b"
    proof -
      have "o_pbase b' = 0" "o_pptr b' = length (o_content b)" "mem b' = m" by (simp_all add: b'_def)
      then show ?thesis unfolding o_content_def[of b'] by (simp only: m_def slice_front)
    qed
    ultimately show ?thesis using k m(3) by (simp add: b'_def)
  qed
qed

text \<open>A write appends to the contents and always succeeds.\<close>

lemma o_write_allocatable:
  assumes ok: "obuf_ok b" and small: "allocatable (length bs) b"
  shows "\<exists>b'. o_write bs b = Inr (length bs, b') \<and> obuf_ok b' \<and> o_content b' = o_content b @ bs \<and>
    length (mem b') \<le> max (length (mem b)) (2 * (o_avail b + length bs)) \<and>
    o_device b' = o_device b \<and> o_on_write b' = o_on_write b \<and>
    o_fired b' = o_fired b + (if bs \<noteq> [] \<and> o_on_write b then 1 else 0)"
proof -
  obtain c where c: "o_reserve (length bs) b = Inr c" "obuf_ok c" "o_content c = o_content b"
      "o_pptr c + length bs \<le> length (mem c)" "length (mem c) \<le> max (length (mem b)) (2 * (o_avail b + length bs))"
      "o_device c = o_device b" "o_on_write c = o_on_write b" "o_fired c = o_fired b"
    using o_reserve_ok[OF ok small] by blast
  define m where "m = take (o_pptr c) (mem c) @ bs @ drop (o_pptr c + length bs) (mem c)"
  define b' where "b' = (set_mem m c)\<lparr>o_pptr := o_pptr c + length bs,
     o_fired := o_fired c + (if 0 < length bs \<and> o_on_write c then 1 else 0)\<rparr>"
  have m: "blit (o_pptr c) bs (mem c) = Inr m" "length m = length (mem c)"
    using c(4) by (auto simp: blit_ok m_def)
  have "o_write bs b = Inr (length bs, b')" using c(1) m(1) by (simp add: o_write_def b'_def)
  moreover have "obuf_ok b'"
    using obuf_okD[OF c(2)] c(4) m(2) by (simp add: obuf_ok_def b'_def store_ok_set_mem)
  moreover have "o_content b' = o_content b @ bs"
  proof -
    have "o_pbase b' = o_pbase c" "o_pptr b' = o_pptr c + length bs" "mem b' = m" by (simp_all add: b'_def)
    then have "o_content b' = slice (o_pbase c) (o_pptr c) (mem c) @ bs"
      using slice_after_blit[of "o_pbase c" "o_pptr c" "mem c" bs] obuf_okD[OF c(2)]
      unfolding o_content_def[of b'] by (simp add: m_def)
    then show ?thesis by (simp add: c(3)[symmetric] o_content_def[of c])
  qed
  ultimately show ?thesis using c m(2) by (simp add: b'_def)
qed

lemma o_write_ok:
  assumes ok: "obuf_ok b" and small: "2 * (o_avail b + length bs) < malloc_limit"
  shows "\<exists>b'. o_write bs b = Inr (length bs, b') \<and> obuf_ok b' \<and> o_content b' = o_content b @ bs \<and>
    length (mem b') \<le> max (length (mem b)) (2 * (o_avail b + length bs)) \<and>
    o_device b' = o_device b \<and> o_on_write b' = o_on_write b \<and>
    o_fired b' = o_fired b + (if bs \<noteq> [] \<and> o_on_write b then 1 else 0)"
  by (rule o_write_allocatable[OF ok small_allocatable[OF ok small]])

lemma o_write_Inr:
  assumes ok: "obuf_ok b" and w: "o_write bs b = Inr (n, b')"
  shows "n = length bs \<and> obuf_ok b' \<and> o_content b' = o_content b @ bs \<and> o_on_write b' = o_on_write b \<and>
    o_fired b' = o_fired b + (if bs \<noteq> [] \<and> o_on_write b then 1 else 0)"
proof -
  have "allocatable (length bs) b"
    using w by (auto simp: allocatable_def o_write_def o_reserve_def malloc_def Let_def split: if_splits)
  from o_write_allocatable[OF ok this] w show ?thesis by auto
qed

text \<open>A \<open>sync\<close> moves a prefix of the contents to the channel.\<close>

text \<open>What a device promises of \<open>write\<close>: the bytes it counts are the next ones of the channel.\<close>

locale out_device =
  fixes wr :: writer
  assumes wr_effect: "wr bs rs ch = Some (r, rs', ch') \<Longrightarrow>
     (\<exists>m\<le>length bs. ch' = ch @ take m bs \<and>
        (case r of Inl e \<Rightarrow> m = 0 \<and> (\<exists>k. e = System_error k)
                 | Inr x \<Rightarrow> x = int m \<or> m = 0 \<and> x = - 1))"
begin

lemma sync_out_effect:
  assumes ok: "obuf_ok b" and s: "sync_out wr b rs ch = Some (r, rs', ch')"
  shows "case r of
      Inl e \<Rightarrow> ch' = ch \<and> (\<exists>k. e = System_error k)
    | Inr (b', x) \<Rightarrow> obuf_ok b' \<and> ch' @ o_content b' = ch @ o_content b \<and> mem b' = mem b \<and>
        (0 < x \<longrightarrow> o_avail b' = o_avail b - nat x \<and> nat x \<le> o_avail b) \<and> (x \<le> 0 \<longrightarrow> b' = b)"
proof (cases "o_device b")
  case False
  then show ?thesis using ok s by (auto simp: sync_out_def)
next
  case True
  with s obtain w where w: "wr (o_content b) rs ch = Some (w, rs', ch')"
      "r = (case w of Inl e \<Rightarrow> Inl e
             | Inr x \<Rightarrow> Inr (if 0 < x then b\<lparr>o_pbase := o_pbase b + nat x\<rparr> else b, x))"
    by (auto simp: sync_out_def split: option.splits sum.splits)
  obtain m where m: "m \<le> o_avail b" "ch' = ch @ take m (o_content b)"
      "case w of Inl e \<Rightarrow> m = 0 \<and> (\<exists>k. e = System_error k) | Inr x \<Rightarrow> x = int m \<or> m = 0 \<and> x = - 1"
    using wr_effect[OF w(1)] length_o_content[OF ok] by auto
  have "obuf_ok (b\<lparr>o_pbase := o_pbase b + m\<rparr>)"
      and "take m (o_content b) @ o_content (b\<lparr>o_pbase := o_pbase b + m\<rparr>) = o_content b"
    using obuf_okD[OF ok] m(1) drop_slice[of "o_pbase b" m "o_pptr b" "mem b"]
    by (auto simp: obuf_ok_def o_content_def o_avail_def)
  then show ?thesis using ok w(2) m by (auto simp: o_avail_def split: sum.splits)
qed

lemma flush_out_effect:
  assumes "flush_out wr sz b rs ch = Some (b', r, rs', ch')" "obuf_ok b"
  shows "obuf_ok b' \<and> ch' @ o_content b' = ch @ o_content b \<and> mem b' = mem b \<and>
     (case r of Inl e \<Rightarrow> \<exists>k. e = System_error k
              | Inr x \<Rightarrow> x = - 1 \<and> 0 < o_avail b' \<or> o_avail b' = 0 \<and> x = sz + int (o_avail b))"
proof -
  define P where "P w sz b ch y \<longleftrightarrow> (case y of (b', r, rs', ch') \<Rightarrow> w = wr \<longrightarrow> obuf_ok b \<longrightarrow>
     obuf_ok b' \<and> ch' @ o_content b' = ch @ o_content b \<and> mem b' = mem b \<and>
     (case r of Inl e \<Rightarrow> \<exists>k. e = System_error k
              | Inr x \<Rightarrow> x = - 1 \<and> 0 < o_avail b' \<or> o_avail b' = 0 \<and> x = sz + int (o_avail b)))"
    for w sz b ch and y :: "obuf \<times> int result \<times> sysret list \<times> u8 list"
  have "P wr sz b ch (b', r, rs', ch')"
  proof (rule flush_out.raw_induct [where P = "\<lambda>w sz b (rs :: sysret list) ch. P w sz b ch", OF _ assms(1)])
    fix f w sz b ch y and rs :: "sysret list"
    assume IH: "\<And>w sz b (rs :: sysret list) ch y. f w sz b rs ch = Some y \<Longrightarrow> P w sz b ch y"
    assume f: "(if 0 < o_avail b
      then case sync_out w b rs ch of
             None \<Rightarrow> None
           | Some (Inl e, rs', ch') \<Rightarrow> Some (b, Inl e, rs', ch')
           | Some (Inr (b', r), rs', ch') \<Rightarrow>
               if 0 < r then f w (sz + r) b' rs' ch'
               else if r = 0 then Some (b', Inr (if o_avail b' \<noteq> 0 then - 1 else sz), rs', ch')
               else Some (b', Inr (- 1), rs', ch')
      else Some (b, Inr sz, rs, ch)) = Some y"
    show "P w sz b ch y"
    proof (cases "w = wr \<and> obuf_ok b \<and> 0 < o_avail b")
      case False
      then show ?thesis using f by (auto simp: P_def)
    next
      case True
      with f obtain v rs1 ch1 where s: "sync_out wr b rs ch = Some (v, rs1, ch1)"
        by (auto split: option.splits)
      have ok: "obuf_ok b" using True by simp
      note eff = sync_out_effect [OF ok s]
      show ?thesis
      proof (cases v)
        case (Inl e)
        with f True s eff show ?thesis by (auto simp: P_def)
      next
        case (Inr p)
        then obtain c x where v: "v = Inr (c, x)" by (cases p) auto
        have c: "obuf_ok c" "ch1 @ o_content c = ch @ o_content b" "mem c = mem b"
            "0 < x \<Longrightarrow> o_avail c = o_avail b - nat x \<and> nat x \<le> o_avail b" "x \<le> 0 \<Longrightarrow> c = b"
          using eff by (simp_all add: v)
        show ?thesis
        proof (cases "0 < x")
          case False
          with f True s v c show ?thesis by (auto simp: P_def split: if_splits)
        next
          case pos: True
          then have "f wr (sz + x) c rs1 ch1 = Some y" using f True s v by simp
          from IH [OF this] show ?thesis
            using c(1-3) c(4) [OF pos] pos by (auto simp: P_def of_nat_diff split: sum.splits)
        qed
      qed
    qed
  qed
  with assms(2) show ?thesis by (simp add: P_def)
qed

end

interpretation dev_out: out_device dev_write
  by unfold_locales (rule dev_write_effect)

lemmas o_sync_effect = dev_out.sync_out_effect [folded o_sync_def]
lemmas o_flush_effect = dev_out.flush_out_effect [folded o_flush_flush_out]

text \<open>With a device that is attached and a kernel that takes at least a byte each time, the buffer is
  emptied.\<close>

lemma o_flush_drains:
  "obuf_ok b \<Longrightarrow> o_device b \<Longrightarrow> list_all (\<lambda>r. \<exists>n>0. r = Sys_ok n) rs \<Longrightarrow> o_avail b \<le> length rs \<Longrightarrow>
     \<exists>b' rs' ch'. o_flush sz b rs ch = Some (b', Inr (sz + int (o_avail b)), rs', ch') \<and> o_avail b' = 0"
proof (induction sz b rs ch rule: o_flush.induct)
  case (1 sz b rs ch)
  show ?case
  proof (cases "0 < o_avail b")
    case False
    then show ?thesis by (simp add: o_flush.simps[of sz b])
  next
    case True
    with "1.prems"(4) obtain r rs1 where rs: "rs = r # rs1" by (cases rs) auto
    with "1.prems"(3) obtain n where n: "0 < n" "r = Sys_ok n" "list_all (\<lambda>r. \<exists>n>0. r = Sys_ok n) rs1" by auto
    define m where "m = min n (o_avail b)"
    define c where "c = b\<lparr>o_pbase := o_pbase b + m\<rparr>"
    have m: "0 < m" "m \<le> o_avail b" using n True by (simp_all add: m_def)
    have s: "o_sync b rs ch = Some (Inr (c, int m), rs1, ch @ take m (o_content b))"
      using m "1.prems"(2) length_o_content[OF "1.prems"(1)]
      by (simp add: o_sync_unfold rs n(2) Let_def m_def c_def)
    have c: "obuf_ok c" "o_device c" "o_avail c = o_avail b - m"
      using o_sync_effect[OF "1.prems"(1) s] m "1.prems"(2) by (simp_all add: c_def)
    have pos: "0 < int m" and len: "o_avail c \<le> length rs1"
      using m(1) c(3) "1.prems"(4) rs by auto
    from "1.IH"[OF True s refl refl refl refl pos c(1,2) n(3) len]
    obtain b' rs' ch' where "o_flush (sz + int m) c rs1 (ch @ take m (o_content b)) =
        Some (b', Inr (sz + int m + int (o_avail c)), rs', ch')" "o_avail b' = 0"
      by blast
    then show ?thesis
      using True s m c(3) by (simp add: o_flush.simps[of sz b rs] of_nat_diff)
  qed
qed

section \<open>The input operations\<close>

lemma i_reserve_ok:
  assumes ok: "ibuf_ok b" and small: "4 * i_avail b < malloc_limit"
  shows "\<exists>b'. i_reserve b = Inr (b', length (mem b')) \<and> ibuf_ok b' \<and> i_content b' = i_content b \<and>
    i_egptr b' < length (mem b') \<and> length (mem b') \<le> max (length (mem b)) (4 * i_avail b) \<and>
    i_device b' = i_device b \<and> i_on_read b' = i_on_read b \<and> i_fired b' = i_fired b"
proof -
  note [simp] = ibuf_okD[OF ok] length_i_content[OF ok]
  have cap: "csize b = length (mem b)" by (rule csize_mem) simp
  have big: "31 \<le> length (mem b)" by (rule store_ok_capacity) simp
  consider (room) "i_egptr b < csize b"
    | (reuse) "i_egptr b = csize b" "csize b div 2 < i_gptr b"
    | (grow) "i_egptr b = csize b" "i_gptr b \<le> csize b div 2"
    using ibuf_okD(4)[OF ok] cap by linarith
  then show ?thesis
  proof cases
    case room
    then show ?thesis using ok cap by (simp add: i_reserve_def Let_def)
  next
    case reuse
    define m where "m = i_content b @ drop (i_avail b) (mem b)"
    define b' where "b' = (set_mem m b)\<lparr>i_eback := 0, i_gptr := 0, i_egptr := i_avail b\<rparr>"
    have av: "i_avail b < length (mem b)" using reuse cap big by (simp add: i_avail_def)
    have m: "blit 0 (i_content b) (mem b) = Inr m" "length m = length (mem b)"
      using av by (simp_all add: blit_ok m_def)
    have f: "i_gptr b' = 0" "i_egptr b' = length (i_content b)" "mem b' = m" by (simp_all add: b'_def)
    have "i_reserve b = Inr (b', length (mem b'))"
      using reuse m cap by (simp add: i_reserve_def Let_def b'_def)
    moreover have "ibuf_ok b'" using m(2) av by (simp add: ibuf_ok_def b'_def store_ok_set_mem)
    moreover have "i_content b' = i_content b"
      unfolding i_content_def[of b'] f by (simp only: m_def slice_front)
    ultimately show ?thesis using av m(2) by (simp add: b'_def)
  next
    case grow
    define k where "k = csize b * 2"
    define m where "m = i_content b @ drop (i_avail b) (replicate k 0)"
    define b' where "b' = (set_block m k b)\<lparr>i_eback := 0, i_gptr := 0, i_egptr := i_avail b\<rparr>"
    have av: "i_avail b \<le> length (mem b)" "k \<le> 4 * i_avail b" "31 \<le> k" "i_avail b < k"
      using grow cap big by (auto simp: i_avail_def k_def)
    have m: "malloc k = Inr (replicate k 0)" "blit 0 (i_content b) (replicate k 0) = Inr m" "length m = k"
      using av small by (auto simp: malloc_def blit_ok m_def)
    have f: "i_gptr b' = 0" "i_egptr b' = length (i_content b)" "mem b' = m" by (simp_all add: b'_def)
    have "i_reserve b = Inr (b', length (mem b'))"
      using grow m cap by (simp add: i_reserve_def Let_def b'_def k_def)
    moreover have "ibuf_ok b'" using m(3) av small by (simp add: ibuf_ok_def b'_def store_ok_set_block)
    moreover have "i_content b' = i_content b"
      unfolding i_content_def[of b'] f by (simp only: m_def slice_front)
    ultimately show ?thesis using av m(3) by (simp add: b'_def)
  qed
qed

text \<open>What a device promises of \<open>read\<close>: the bytes it stores are the next ones of the channel and are
  counted, and the count is one that it \<open>returns\<close>. A \<open>sync\<close> appends them to the contents; it always
  asks for a byte at least.\<close>

locale in_device =
  fixes rd :: reader and returns :: "int \<Rightarrow> bool"
  assumes rd_effect: "0 < sz \<Longrightarrow> rd sz rs ch = Some (r, rs', ch') \<Longrightarrow> (case r of
      Inl e \<Rightarrow> ch' = ch \<and> (\<exists>k. e = System_error k)
    | Inr (x, bs) \<Rightarrow> ch = bs @ ch' \<and> length bs \<le> sz \<and> (x = int (length bs) \<and> returns x \<or> x = - 1 \<and> bs = []))"
begin

lemma sync_in_effect:
  assumes ok: "ibuf_ok b" and small: "4 * i_avail b < malloc_limit"
    and s: "sync_in rd b rs ch = Some (b', r, rs', ch')"
  shows "ibuf_ok b' \<and> i_content b' @ ch' = i_content b @ ch \<and> i_device b' = i_device b \<and>
    (case r of Inl e \<Rightarrow> \<exists>k. e = System_error k
             | Inr x \<Rightarrow> x = int (i_avail b') - int (i_avail b) \<and> returns x \<or> x = - 1 \<and> ch' = ch) \<and>
    length (mem b') \<le> max (length (mem b)) (4 * i_avail b)"
proof (cases "i_device b")
  case False
  then show ?thesis using ok s by (auto simp: sync_in_def)
next
  case True
  obtain c where c: "i_reserve b = Inr (c, length (mem c))" "ibuf_ok c" "i_content c = i_content b"
      "i_egptr c < length (mem c)" "length (mem c) \<le> max (length (mem b)) (4 * i_avail b)"
      "i_device c = i_device b"
    using i_reserve_ok[OF ok small] by blast
  define sz where "sz = length (mem c) - i_egptr c"
  have sz: "0 < sz" "length (mem c) - (i_egptr c - i_eback c) = sz"
    using c(4) ibuf_okD(2)[OF c(2)] by (simp_all add: sz_def)
  from s True c(1) obtain w rs1 ch1 where w: "rd sz rs ch = Some (w, rs1, ch1)"
    by (auto simp: sync_in_def sz(2) split: option.splits)
  note eff = rd_effect[OF sz(1) w]
  show ?thesis
  proof (cases w)
    case (Inl e)
    with s True c w eff show ?thesis by (auto simp: sync_in_def sz(2))
  next
    case (Inr p)
    then obtain x bs where x: "w = Inr (x, bs)" by (cases p) auto
    have bs: "ch = bs @ ch1" "length bs \<le> sz" "x = int (length bs) \<and> returns x \<or> x = - 1 \<and> bs = []"
      using eff x by auto
    define m where "m = take (i_egptr c) (mem c) @ bs @ drop (i_egptr c + length bs) (mem c)"
    have m: "blit (i_egptr c) bs (mem c) = Inr m" "length m = length (mem c)"
      using bs(2) c(4) by (auto simp: blit_ok m_def sz_def)
    define d where "d = (set_mem m c)\<lparr>i_egptr := i_egptr c + length bs\<rparr>"
    have d: "b' = d" "r = Inr x" "rs' = rs1" "ch' = ch1"
      using s True c(1) w x m(1) bs(3) by (auto simp: sync_in_def sz(2) Let_def d_def set_mem_def split: option.splits)
    have f: "i_gptr d = i_gptr c" "i_egptr d = i_egptr c + length bs" "mem d = m" "i_device d = i_device c"
      by (simp_all add: d_def)
    have content: "i_content d = i_content b @ bs"
      unfolding i_content_def[of d] f c(3)[symmetric] i_content_def[of c] m_def
      using ibuf_okD[OF c(2)] by (simp add: slice_after_blit)
    moreover have ok': "ibuf_ok d"
      using ibuf_okD[OF c(2)] m(2) bs(2) c(4) by (simp add: ibuf_ok_def d_def store_ok_set_mem sz_def)
    moreover have "i_avail d = i_avail b + length bs"
      using length_i_content[OF ok'] length_i_content[OF ok] content by simp
    ultimately show ?thesis using bs c(5,6) m(2) f(3,4) by (auto simp: d)
  qed
qed

end

interpretation dev_in: in_device dev_read "\<lambda>x. 0 < x"
proof
  fix sz rs ch r rs' ch'
  assume "0 < sz" "dev_read sz rs ch = Some (r, rs', ch')"
  from dev_read_effect[OF this]
  show "case r of
      Inl e \<Rightarrow> ch' = ch \<and> (\<exists>k. e = System_error k)
    | Inr (x, bs) \<Rightarrow> ch = bs @ ch' \<and> length bs \<le> sz \<and> (x = int (length bs) \<and> 0 < x \<or> x = - 1 \<and> bs = [])"
    by (auto split: sum.splits)
qed

lemma i_sync_effect:
  assumes "ibuf_ok b" "4 * i_avail b < malloc_limit" "i_sync b rs ch = Some (b', r, rs', ch')"
  shows "ibuf_ok b' \<and> i_content b' @ ch' = i_content b @ ch \<and>
    (case r of Inl e \<Rightarrow> \<exists>k. e = System_error k | Inr x \<Rightarrow> 0 < x \<or> x = - 1) \<and>
    length (mem b') \<le> max (length (mem b)) (4 * i_avail b)"
  using dev_in.sync_in_effect[OF assms(1,2) assms(3)[unfolded i_sync_def]] by (auto split: sum.splits)

lemma i_sync_avail:
  "ibuf_ok b \<Longrightarrow> 4 * i_avail b < malloc_limit \<Longrightarrow> i_sync b rs ch = Some (b', r, rs', ch') \<Longrightarrow>
     i_avail b' + length ch' = i_avail b + length ch"
  using i_sync_effect[of b rs ch b' r rs' ch'] length_i_content[of b] length_i_content[of b']
  by (metis length_append)

lemma i_purge_effect:
  "i_purge sz b rs ch = Some (b', r, rs', ch') \<Longrightarrow> ibuf_ok b \<Longrightarrow>
     4 * (i_avail b + length ch) < malloc_limit \<Longrightarrow>
     ibuf_ok b' \<and> i_content b' @ ch' = i_content b @ ch \<and>
     (case r of Inl e \<Rightarrow> \<exists>k. e = System_error k | Inr x \<Rightarrow> x = - 1) \<and>
     length (mem b') \<le> max (length (mem b)) (4 * (i_avail b + length ch))"
proof (induction sz b rs ch rule: i_purge.induct)
  case (1 sz b rs ch)
  from "1.prems"(1) obtain c w rs1 ch1 where s: "i_sync b rs ch = Some (c, w, rs1, ch1)"
    by (auto simp: i_purge.simps[of sz b] split: option.splits)
  have small: "4 * i_avail b < malloc_limit" using "1.prems"(3) by simp
  note eff = i_sync_effect[OF "1.prems"(2) small s] and av = i_sync_avail[OF "1.prems"(2) small s]
  show ?case
  proof (cases "\<exists>x>0. w = Inr x")
    case False
    with "1.prems"(1) s eff show ?thesis
      by (auto simp: i_purge.simps[of sz b] split: sum.splits if_splits)
  next
    case True
    then obtain x where x: "w = Inr x" "0 < x" by auto
    with "1.prems"(1) s have "i_purge (sz + x) c rs1 ch1 = Some (b', r, rs', ch')"
      by (simp add: i_purge.simps[of sz b])
    from "1.IH"[OF s refl refl x(1) refl x(2) this] eff av "1.prems"(3)
    show ?thesis by (auto simp: le_max_iff_disj)
  qed
qed

text \<open>On a device that does not override \<open>read\<close> the return value of \<open>_purge\<close> never is the number of
  bytes: \<open>Device::read\<close> throws at the end of the file, so the loop ends with \<open>-1\<close> or an exception.\<close>

lemma i_read_ok:
  assumes ok: "ibuf_ok b" and n: "0 \<le> n"
  shows "\<exists>b' bs. i_read n b = Inr (int (length bs), bs, b') \<and> ibuf_ok b' \<and>
    i_content b = bs @ i_content b' \<and> length bs = min (nat n) (i_avail b) \<and> mem b' = mem b"
proof -
  define k where "k = min (nat n) (i_avail b)"
  define b' where "b' = b\<lparr>i_gptr := i_gptr b + k,
      i_fired := i_fired b + (if 0 < k \<and> i_on_read b then 1 else 0)\<rparr>"
  have k: "min n (int (i_avail b)) = int k" using n by (auto simp: k_def min_def)
  have le: "i_gptr b + k \<le> i_egptr b" using ibuf_okD(3)[OF ok] by (auto simp: k_def i_avail_def)
  have bs: "take k (drop (i_gptr b) (mem b)) = slice (i_gptr b) (i_gptr b + k) (mem b)"
    by (simp add: slice_def)
  have c: "i_content b' = slice (i_gptr b + k) (i_egptr b) (mem b)" by (simp add: i_content_def b'_def)
  have "i_read n b = Inr (int k, slice (i_gptr b) (i_gptr b + k) (mem b), b')"
    using bs by (simp add: i_read_def k Let_def b'_def)
  moreover have "ibuf_ok b'" using ibuf_okD[OF ok] le by (simp add: ibuf_ok_def b'_def)
  moreover have "i_content b = slice (i_gptr b) (i_gptr b + k) (mem b) @ i_content b'"
    unfolding c i_content_def[of b] using ibuf_okD(4)[OF ok] le by (intro slice_split) simp_all
  moreover have "length (slice (i_gptr b) (i_gptr b + k) (mem b)) = k"
    using ibuf_okD[OF ok] le by simp
  moreover have "mem b' = mem b" by (simp add: b'_def)
  ultimately show ?thesis unfolding k_def[symmetric] by metis
qed

lemma i_drop_ok:
  assumes ok: "ibuf_ok b" and n: "0 \<le> n"
  shows "\<exists>b' k. i_drop n b = Inr (int k, b') \<and> ibuf_ok b' \<and> k = min (nat n) (i_avail b) \<and>
    i_content b' = drop k (i_content b) \<and> mem b' = mem b"
proof -
  define k where "k = min (nat n) (i_avail b)"
  define b' where "b' = b\<lparr>i_gptr := i_gptr b + k\<rparr>"
  have k: "min n (int (i_avail b)) = int k" using n by (auto simp: k_def min_def)
  have le: "i_gptr b + k \<le> i_egptr b" using ibuf_okD(3)[OF ok] by (auto simp: k_def i_avail_def)
  have "i_drop n b = Inr (int k, b')" by (simp add: i_drop_def k Let_def b'_def nat_int_add)
  moreover have "ibuf_ok b'" using ibuf_okD[OF ok] le by (simp add: ibuf_ok_def b'_def)
  moreover have "i_content b' = drop k (i_content b)"
    using le by (simp add: i_content_def b'_def drop_slice)
  ultimately show ?thesis by (auto simp: k_def b'_def)
qed

section \<open>Output buffer, channel and input buffer together\<close>

text \<open>A channel with an output buffer at one end and an input buffer at the other; the bytes taken out
  at the far end and the exceptions thrown so far. Each operation brings the replies of the kernel
  it meets.\<close>

record pipeline =
  s_ob :: obuf
  s_ib :: ibuf
  s_ch :: "u8 list"
  s_got :: "u8 list"
  s_errs :: "exn list"

datatype s_op =
    Op_write "u8 list"
  | Op_sync "sysret list"
  | Op_flush "sysret list"
  | Op_sync_in "sysret list"
  | Op_purge "sysret list"
  | Op_read nat
  | Op_drop nat

definition mk_pipeline :: "bool \<Rightarrow> bool \<Rightarrow> bool \<Rightarrow> bool \<Rightarrow> pipeline" where
  "mk_pipeline od oc ind inc =
     \<lparr>s_ob = mk_obuf od oc, s_ib = mk_ibuf ind inc, s_ch = [], s_got = [], s_errs = []\<rparr>"

definition s_throw :: "exn \<Rightarrow> pipeline \<Rightarrow> pipeline" where
  "s_throw e s = s\<lparr>s_errs := e # s_errs s\<rparr>"

definition s_note :: "int result \<Rightarrow> pipeline \<Rightarrow> pipeline" where
  "s_note r s = (case r of Inl e \<Rightarrow> s_throw e s | Inr _ \<Rightarrow> s)"

definition s_step :: "s_op \<Rightarrow> pipeline \<Rightarrow> pipeline option" where
  "s_step op s = (case op of
       Op_write bs \<Rightarrow> Some (case o_write bs (s_ob s) of
           Inl e \<Rightarrow> s_throw e s
         | Inr (_, b) \<Rightarrow> s\<lparr>s_ob := b\<rparr>)
     | Op_sync rs \<Rightarrow> map_option (\<lambda>r. case r of
           (Inl e, io) \<Rightarrow> s_throw e (s\<lparr>s_ch := snd io\<rparr>)
         | (Inr (b, _), io) \<Rightarrow> s\<lparr>s_ob := b, s_ch := snd io\<rparr>) (o_sync (s_ob s) rs (s_ch s))
     | Op_flush rs \<Rightarrow> map_option (\<lambda>(b, r, io). s_note r (s\<lparr>s_ob := b, s_ch := snd io\<rparr>))
           (o_flush 0 (s_ob s) rs (s_ch s))
     | Op_sync_in rs \<Rightarrow> map_option (\<lambda>(b, r, io). s_note r (s\<lparr>s_ib := b, s_ch := snd io\<rparr>))
           (i_sync (s_ib s) rs (s_ch s))
     | Op_purge rs \<Rightarrow> map_option (\<lambda>(b, r, io). s_note r (s\<lparr>s_ib := b, s_ch := snd io\<rparr>))
           (i_purge 0 (s_ib s) rs (s_ch s))
     | Op_read n \<Rightarrow> Some (case i_read (int n) (s_ib s) of
           Inl e \<Rightarrow> s_throw e s
         | Inr (_, bs, b) \<Rightarrow> s\<lparr>s_ib := b, s_got := s_got s @ bs\<rparr>)
     | Op_drop n \<Rightarrow> Some (case i_drop (int n) (s_ib s) of
           Inl e \<Rightarrow> s_throw e s
         | Inr (k, b) \<Rightarrow> s\<lparr>s_ib := b, s_got := s_got s @ take (nat k) (i_content (s_ib s))\<rparr>))"

text \<open>A sequence of operations; \<open>None\<close> when one of them is still waiting for the kernel.\<close>

fun s_run :: "s_op list \<Rightarrow> pipeline \<Rightarrow> pipeline option" where
  "s_run [] s = Some s"
| "s_run (op # ops) s = (case s_step op s of None \<Rightarrow> None | Some s' \<Rightarrow> s_run ops s')"

fun written :: "s_op list \<Rightarrow> u8 list" where
  "written [] = []"
| "written (op # ops) = (case op of Op_write bs \<Rightarrow> bs | _ \<Rightarrow> []) @ written ops"

definition stream_ok :: "u8 list \<Rightarrow> pipeline \<Rightarrow> bool" where
  "stream_ok w s \<longleftrightarrow> obuf_ok (s_ob s) \<and> ibuf_ok (s_ib s) \<and>
     s_got s @ i_content (s_ib s) @ s_ch s @ o_content (s_ob s) = w \<and>
     length (mem (s_ob s)) \<le> max 31 (2 * length w) \<and>
     length (mem (s_ib s)) \<le> max 31 (4 * length w) \<and>
     list_all (\<lambda>e. \<exists>k. e = System_error k) (s_errs s)"

lemma stream_okD:
  assumes "stream_ok w s"
  shows "obuf_ok (s_ob s)" "ibuf_ok (s_ib s)"
    "s_got s @ i_content (s_ib s) @ s_ch s @ o_content (s_ob s) = w"
    "length (mem (s_ob s)) \<le> max 31 (2 * length w)" "length (mem (s_ib s)) \<le> max 31 (4 * length w)"
    "list_all (\<lambda>e. \<exists>k. e = System_error k) (s_errs s)"
  using assms by (simp_all add: stream_ok_def)

lemma stream_ok_sizes:
  assumes "stream_ok w s"
  shows "i_avail (s_ib s) + length (s_ch s) + o_avail (s_ob s) \<le> length w"
  using stream_okD(3)[OF assms, THEN arg_cong[where f = length]]
    length_o_content[OF stream_okD(1)[OF assms]] length_i_content[OF stream_okD(2)[OF assms]] by simp

text \<open>One lemma for the operations at each end: they need only respect what the buffer and the channel
  hold together.\<close>

lemma stream_ok_out:
  assumes ok: "stream_ok w s" and b: "obuf_ok b" "ch @ o_content b = s_ch s @ o_content (s_ob s)"
    "mem b = mem (s_ob s)" and e: "list_all (\<lambda>e. \<exists>k. e = System_error k) es"
  shows "stream_ok w (s\<lparr>s_ob := b, s_ch := ch, s_errs := es\<rparr>)"
  using stream_okD[OF ok] b e by (simp add: stream_ok_def)

lemma stream_ok_in:
  assumes ok: "stream_ok w s" and b: "ibuf_ok b" "got @ i_content b @ ch = s_got s @ i_content (s_ib s) @ s_ch s"
    "length (mem b) \<le> max 31 (4 * length w)" and e: "list_all (\<lambda>e. \<exists>k. e = System_error k) es"
  shows "stream_ok w (s\<lparr>s_ib := b, s_ch := ch, s_got := got, s_errs := es\<rparr>)"
proof -
  have "got @ i_content b @ ch @ o_content (s_ob s) = w"
    using stream_okD(3)[OF ok] b(2) by (metis append.assoc)
  with stream_okD[OF ok] b(1,3) e show ?thesis by (simp add: stream_ok_def)
qed

lemma s_step_write:
  assumes ok: "stream_ok w s" and small: "4 * (length w + length bs) < malloc_limit"
  shows "\<exists>s'. s_step (Op_write bs) s = Some s' \<and> stream_ok (w @ bs) s'"
proof -
  have av: "o_avail (s_ob s) \<le> length w" using stream_ok_sizes[OF ok] by simp
  then obtain b where b: "o_write bs (s_ob s) = Inr (length bs, b)" "obuf_ok b"
      "o_content b = o_content (s_ob s) @ bs"
      "length (mem b) \<le> max (length (mem (s_ob s))) (2 * (o_avail (s_ob s) + length bs))"
    using o_write_ok[OF stream_okD(1)[OF ok], of bs] small by auto
  have "stream_ok (w @ bs) (s\<lparr>s_ob := b\<rparr>)"
    unfolding stream_ok_def
    using stream_okD[OF ok] b av by (auto simp: le_max_iff_disj simp flip: stream_okD(3)[OF ok])
  with b(1) show ?thesis by (simp add: s_step_def)
qed

lemma s_step_out:
  assumes ok: "stream_ok w s" and op: "(\<exists>rs. op = Op_sync rs) \<or> (\<exists>rs. op = Op_flush rs)"
    and st: "s_step op s = Some s'"
  shows "stream_ok w s'"
proof -
  note errs = stream_okD(6)[OF ok] and b0 = stream_okD(1)[OF ok]
  from op show ?thesis
  proof
    assume "\<exists>rs. op = Op_sync rs"
    then obtain rs where "op = Op_sync rs" ..
    with st obtain r rs' ch' where y: "o_sync (s_ob s) rs (s_ch s) = Some (r, rs', ch')"
        "s' = (case r of Inl e \<Rightarrow> s_throw e (s\<lparr>s_ch := ch'\<rparr>) | Inr (b, _) \<Rightarrow> s\<lparr>s_ob := b, s_ch := ch'\<rparr>)"
      by (cases "o_sync (s_ob s) rs (s_ch s)") (auto simp: s_step_def split: sum.split)
    note eff = o_sync_effect[OF b0 y(1)]
    show ?thesis
    proof (cases r)
      case (Inl e)
      then have "s' = s\<lparr>s_ob := s_ob s, s_ch := ch', s_errs := e # s_errs s\<rparr>"
        by (simp add: y(2) s_throw_def)
      then show ?thesis using stream_ok_out[OF ok b0, of ch' "e # s_errs s"] eff Inl errs by simp
    next
      case (Inr p)
      then obtain b x where r: "r = Inr (b, x)" by (cases p) auto
      then have "s' = s\<lparr>s_ob := b, s_ch := ch', s_errs := s_errs s\<rparr>" by (simp add: y(2))
      then show ?thesis using stream_ok_out[OF ok, of b ch' "s_errs s"] eff r errs by simp
    qed
  next
    assume "\<exists>rs. op = Op_flush rs"
    with st obtain rs b r rs' ch' where y: "o_flush 0 (s_ob s) rs (s_ch s) = Some (b, r, rs', ch')"
        "s' = s_note r (s\<lparr>s_ob := b, s_ch := ch'\<rparr>)"
      by (auto simp: s_step_def)
    define es where "es = (case r of Inl e \<Rightarrow> e # s_errs s | Inr _ \<Rightarrow> s_errs s)"
    have "s' = s\<lparr>s_ob := b, s_ch := ch', s_errs := es\<rparr>"
      by (cases r) (simp_all add: y(2) s_note_def s_throw_def es_def)
    moreover have "list_all (\<lambda>e. \<exists>k. e = System_error k) es"
      using o_flush_effect[OF y(1) b0] errs by (auto simp: es_def split: sum.splits)
    ultimately show ?thesis using stream_ok_out[OF ok, of b ch' es] o_flush_effect[OF y(1) b0] by simp
  qed
qed

lemma s_step_in:
  assumes ok: "stream_ok w s" and small: "4 * length w < malloc_limit"
    and op: "(\<exists>rs. op = Op_sync_in rs) \<or> (\<exists>rs. op = Op_purge rs)" and st: "s_step op s = Some s'"
  shows "stream_ok w s'"
proof -
  note errs = stream_okD(6)[OF ok] and b0 = stream_okD(2)[OF ok] and cap = stream_okD(5)[OF ok]
  have av: "i_avail (s_ib s) + length (s_ch s) \<le> length w" using stream_ok_sizes[OF ok] by simp
  have goal: "stream_ok w s'"
    if y: "ibuf_ok b" "i_content b @ ch' = i_content (s_ib s) @ s_ch s"
        "case r of Inl e \<Rightarrow> \<exists>k. e = System_error k | Inr x \<Rightarrow> P x"
        "length (mem b) \<le> max 31 (4 * length w)" "s' = s_note r (s\<lparr>s_ib := b, s_ch := ch'\<rparr>)" for b ch' r P
  proof -
    define es where "es = (case r of Inl e \<Rightarrow> e # s_errs s | Inr _ \<Rightarrow> s_errs s)"
    have "s' = s\<lparr>s_ib := b, s_ch := ch', s_got := s_got s, s_errs := es\<rparr>"
      by (cases r) (simp_all add: y(5) s_note_def s_throw_def es_def)
    moreover have "list_all (\<lambda>e. \<exists>k. e = System_error k) es"
      using y(3) errs by (auto simp: es_def split: sum.splits)
    ultimately show ?thesis using stream_ok_in[OF ok y(1) _ y(4), of "s_got s" ch' es] y(2) by simp
  qed
  from op show ?thesis
  proof
    assume "\<exists>rs. op = Op_sync_in rs"
    with st obtain rs b r rs' ch' where y: "i_sync (s_ib s) rs (s_ch s) = Some (b, r, rs', ch')"
        "s' = s_note r (s\<lparr>s_ib := b, s_ch := ch'\<rparr>)"
      by (auto simp: s_step_def)
    have "4 * i_avail (s_ib s) < malloc_limit" using av small by simp
    note eff = i_sync_effect[OF b0 this y(1)]
    show ?thesis by (rule goal[OF _ _ _ _ y(2)]) (use eff cap av in auto)
  next
    assume "\<exists>rs. op = Op_purge rs"
    with st obtain rs b r rs' ch' where y: "i_purge 0 (s_ib s) rs (s_ch s) = Some (b, r, rs', ch')"
        "s' = s_note r (s\<lparr>s_ib := b, s_ch := ch'\<rparr>)"
      by (auto simp: s_step_def)
    have "4 * (i_avail (s_ib s) + length (s_ch s)) < malloc_limit" using av small by simp
    note eff = i_purge_effect[OF y(1) b0 this]
    show ?thesis by (rule goal[OF _ _ _ _ y(2)]) (use eff cap av in auto)
  qed
qed

lemma s_step_take:
  assumes ok: "stream_ok w s" and op: "(\<exists>n. op = Op_read n) \<or> (\<exists>n. op = Op_drop n)"
    and st: "s_step op s = Some s'"
  shows "stream_ok w s'"
proof -
  note errs = stream_okD(6)[OF ok] and b0 = stream_okD(2)[OF ok] and cap = stream_okD(5)[OF ok]
  have goal: "stream_ok w s'"
    if "ibuf_ok b" "i_content (s_ib s) = bs @ i_content b" "mem b = mem (s_ib s)"
      "s' = s\<lparr>s_ib := b, s_got := s_got s @ bs\<rparr>" for b bs
  proof -
    have "s' = s\<lparr>s_ib := b, s_ch := s_ch s, s_got := s_got s @ bs, s_errs := s_errs s\<rparr>"
      using that(4) by simp
    then show ?thesis
      using stream_ok_in[OF ok that(1), of "s_got s @ bs" "s_ch s" "s_errs s"] that(2,3) cap errs by simp
  qed
  from op show ?thesis
  proof
    assume "\<exists>n. op = Op_read n"
    then obtain n where n: "op = Op_read n" ..
    obtain b bs where b: "i_read (int n) (s_ib s) = Inr (int (length bs), bs, b)" "ibuf_ok b"
        "i_content (s_ib s) = bs @ i_content b" "mem b = mem (s_ib s)"
      using i_read_ok[OF b0, of "int n"] by auto
    show ?thesis by (rule goal[OF b(2-4)]) (use st b(1) n in \<open>simp add: s_step_def\<close>)
  next
    assume "\<exists>n. op = Op_drop n"
    then obtain n where n: "op = Op_drop n" ..
    obtain b k where b: "i_drop (int n) (s_ib s) = Inr (int k, b)" "ibuf_ok b"
        "i_content b = drop k (i_content (s_ib s))" "mem b = mem (s_ib s)"
      using i_drop_ok[OF b0, of "int n"] by auto
    show ?thesis
      by (rule goal[OF b(2), of "take k (i_content (s_ib s))"])
        (use st b n in \<open>simp_all add: s_step_def\<close>)
  qed
qed

lemma s_step_ok:
  assumes "stream_ok w s" "4 * (length w + length (written [op])) < malloc_limit" "s_step op s = Some s'"
  shows "stream_ok (w @ written [op]) s'"
proof (cases op)
  case (Op_write bs)
  then obtain t where "s_step op s = Some t" "stream_ok (w @ bs) t"
    using s_step_write[OF assms(1), of bs] assms(2) by auto
  then show ?thesis using assms(3) Op_write by simp
qed (use assms s_step_out[of w s op s'] s_step_in[of w s op s'] s_step_take[of w s op s'] in auto)

lemma s_run_ok:
  "stream_ok w s \<Longrightarrow> 4 * (length w + length (written ops)) < malloc_limit \<Longrightarrow> s_run ops s = Some s' \<Longrightarrow>
     stream_ok (w @ written ops) s'"
proof (induction ops arbitrary: w s)
  case Nil
  then show ?case by simp
next
  case (Cons op ops)
  have len: "length (written (op # ops)) = length (written [op]) + length (written ops)" by simp
  from Cons.prems(3) obtain t where t: "s_step op s = Some t" "s_run ops t = Some s'"
    by (auto split: option.splits)
  have "stream_ok (w @ written [op]) t"
    by (rule s_step_ok[OF Cons.prems(1) _ t(1)]) (rule le_less_trans[OF _ Cons.prems(2)], simp add: len del: written.simps)
  from Cons.IH[OF this _ t(2)] Cons.prems(2) len show ?case by simp
qed

lemma stream_ok_init: "stream_ok [] (mk_pipeline a b c d)"
  by (simp add: stream_ok_def mk_pipeline_def mk_obuf_ok mk_ibuf_ok)

section \<open>From an output to an input buffer\<close>

lemma local_content:
  assumes "length c \<le> 31"
  shows "\<exists>m. blit 0 c (mem (mk_ibuf False False)) = Inr m \<and>
    ibuf_ok ((set_mem m (mk_ibuf False False))\<lparr>i_egptr := length c\<rparr>) \<and>
    i_content ((set_mem m (mk_ibuf False False))\<lparr>i_egptr := length c\<rparr>) = c"
proof -
  let ?b = "mk_ibuf False False"
  define m where "m = c @ drop (length c) (mem ?b)"
  have m: "blit 0 c (mem ?b) = Inr m" "length m = length (mem ?b)"
    using assms mk_ibuf_ok(3)[of False False] by (simp_all add: blit_ok m_def)
  have z: "i_gptr ?b = 0" "i_eback ?b = 0" by (simp_all add: mk_ibuf_def)
  have "i_content ((set_mem m ?b)\<lparr>i_egptr := length c\<rparr>) = c"
    by (simp add: i_content_def z m_def slice_front)
  moreover have "ibuf_ok ((set_mem m ?b)\<lparr>i_egptr := length c\<rparr>)"
    using ibuf_okD(1)[OF mk_ibuf_ok(1)] assms mk_ibuf_ok(3)[of False False] m(2) z
    by (simp add: ibuf_ok_def store_ok_set_mem)
  ultimately show ?thesis using m(1) by blast
qed

lemma block_content:
  assumes "length h = n" "length c \<le> n" "31 \<le> n" "n < malloc_limit"
  shows "\<exists>m. blit 0 c h = Inr m \<and>
    ibuf_ok ((set_block m n (mk_ibuf False False))\<lparr>i_eback := 0, i_gptr := 0, i_egptr := length c\<rparr>) \<and>
    i_content ((set_block m n (mk_ibuf False False))\<lparr>i_eback := 0, i_gptr := 0, i_egptr := length c\<rparr>) = c"
proof -
  define m where "m = c @ drop (length c) h"
  have m: "blit 0 c h = Inr m" "length m = n" using assms by (simp_all add: blit_ok m_def)
  have "i_content ((set_block m n (mk_ibuf False False))\<lparr>i_eback := 0, i_gptr := 0, i_egptr := length c\<rparr>) = c"
    by (simp add: i_content_def m_def slice_front)
  moreover have "ibuf_ok ((set_block m n (mk_ibuf False False))\<lparr>i_eback := 0, i_gptr := 0, i_egptr := length c\<rparr>)"
    using ibuf_okD(1)[OF mk_ibuf_ok(1)] assms m(2) by (simp add: ibuf_ok_def store_ok_set_block)
  ultimately show ?thesis using m(1) by blast
qed

lemma b_value_mk_ibuf: "b_value (mk_ibuf d c) = 31"
  by (simp add: b_value_def mk_ibuf_def fresh_union_ok)

lemma ibuf_of_copy_ok:
  assumes "obuf_ok ob" "o_avail ob < malloc_limit"
  shows "\<exists>b. ibuf_of_copy ob = Inr b \<and> ibuf_ok b \<and> i_content b = o_content ob"
proof (cases "o_avail ob < 31")
  case True
  with local_content[of "o_content ob"] length_o_content[OF assms(1)] show ?thesis
    by (auto simp: ibuf_of_copy_def Let_def b_value_mk_ibuf)
next
  case False
  have "malloc (o_avail ob) = Inr (replicate (o_avail ob) 0)" using assms(2) by (simp add: malloc_def)
  with False assms(2) block_content[of "replicate (o_avail ob) 0" "o_avail ob" "o_content ob"]
    length_o_content[OF assms(1)]
  show ?thesis by (auto simp: ibuf_of_copy_def Let_def b_value_mk_ibuf)
qed

text \<open>Moving hands over the contents and leaves a fresh, empty output buffer.\<close>

lemma ibuf_of_move_ok:
  assumes "obuf_ok ob"
  shows "\<exists>b ob'. ibuf_of_move ob = Inr (b, ob') \<and> ibuf_ok b \<and> i_content b = o_content ob \<and>
    obuf_ok ob' \<and> o_content ob' = []"
proof -
  define ob' where "ob' = ob\<lparr>b_size := fresh_union, b_heap := None, o_pbase := 0, o_pptr := 0,
      o_epptr := local_capacity\<rparr>"
  have ob': "obuf_ok ob'" "o_content ob' = []"
    by (simp_all add: ob'_def obuf_ok_def store_ok_def mem_def fresh_union_ok local_capacity_def o_content_def)
  note ok = obuf_okD[OF assms] and len = length_o_content[OF assms]
  have av: "o_avail ob \<le> length (mem ob)" using ok(3,4) by (simp add: o_avail_def)
  show ?thesis
  proof (cases "b_heap ob")
    case None
    then have "o_avail ob \<le> 31" using av ok(1) by (simp add: mem_def store_ok_def)
    with None local_content[of "o_content ob"] len ob' show ?thesis
      by (auto simp: ibuf_of_move_def Let_def is_local_data_def ob'_def)
  next
    case (Some h)
    then have h: "mem ob = h" "b_value ob = length h" "31 \<le> length h" "length h < malloc_limit"
      using ok(1) by (auto simp: mem_def store_ok_def local_capacity_def)
    with Some block_content[of h "length h" "o_content ob"] len av ob' show ?thesis
      by (auto simp: ibuf_of_move_def Let_def is_local_data_def ob'_def)
  qed
qed

section \<open>Properties\<close>

text \<open>C13: Reliable delivery. After any sequence of writes, \<open>sync\<close>s and \<open>flush\<close>es on the output
  buffer and \<open>sync\<close>s, \<open>purge\<close>s, reads and drops on the input buffer, with any replies of the kernel,
  the bytes taken out, those in the input buffer, those in the channel and those in the output buffer
  are in this order exactly the bytes written; no access was out of bounds and no assertion failed
  (only system errors were thrown), and the buffers have at most four times the size of the data (or
  their initial 31 bytes).\<close>

theorem stream_fifo:
  assumes "4 * length (written ops) < malloc_limit"
    and "s_run ops (mk_pipeline od oc ind inc) = Some s"
  shows "s_got s @ i_content (s_ib s) @ s_ch s @ o_content (s_ob s) = written ops \<and>
    list_all (\<lambda>e. \<exists>k. e = System_error k) (s_errs s) \<and>
    length (mem (s_ob s)) \<le> max 31 (2 * length (written ops)) \<and>
    length (mem (s_ib s)) \<le> max 31 (4 * length (written ops))"
  using stream_okD[OF s_run_ok[OF stream_ok_init _ assms(2)]] assms(1) by simp

text \<open>An interrupted and a partial write, a read that would block, the end of the file.\<close>

definition example_ops :: "s_op list" where
  "example_ops = [Op_write [1, 2, 3, 4, 5], Op_flush [Sys_err 4, Sys_ok 2, Sys_err 11],
     Op_purge [Sys_ok 9, Sys_err 11], Op_read 1, Op_sync [Sys_ok 2], Op_write [6],
     Op_sync_in [Sys_ok 1], Op_drop 1, Op_flush [Sys_err 32]]"

theorem stream_fifo_witness:
  "\<exists>s. s_run example_ops (mk_pipeline True False True False) = Some s \<and>
     s_got s @ i_content (s_ib s) @ s_ch s @ o_content (s_ob s) = [1, 2, 3, 4, 5, 6]"
proof -
  have "s_run example_ops (mk_pipeline True False True False) \<noteq> None" by code_simp
  then obtain s where s: "s_run example_ops (mk_pipeline True False True False) = Some s" by auto
  have "4 * length (written example_ops) < malloc_limit"
    by (simp add: example_ops_def malloc_limit_def)
  from stream_fifo[OF this s] s show ?thesis by (auto simp: example_ops_def)
qed

text \<open>Flushing. A \<open>flush\<close> of a buffer with a device ends as soon as the kernel has taken all
  bytes, however few at a time: with at least as many successful replies as bytes it returns their
  number, the whole contents have been appended to the channel and the buffer is empty.\<close>

theorem flush_drains:
  assumes "obuf_ok b" "o_device b" "list_all (\<lambda>r. \<exists>n>0. r = Sys_ok n) rs" "o_avail b \<le> length rs"
  shows "\<exists>b' rs'. o_flush 0 b rs ch = Some (b', Inr (int (o_avail b)), rs', ch @ o_content b) \<and>
    obuf_ok b' \<and> o_content b' = []"
proof -
  obtain b' rs' ch' where f: "o_flush 0 b rs ch = Some (b', Inr (0 + int (o_avail b)), rs', ch')" "o_avail b' = 0"
    using o_flush_drains[OF assms] by blast
  note eff = o_flush_effect[OF f(1) assms(1)]
  have "o_content b' = []" using length_o_content[of b'] eff f(2) by simp
  with eff f(1) show ?thesis by auto
qed

theorem flush_drains_witness:
  "\<exists>b b' rs'. o_write [7, 8] (mk_obuf True False) = Inr (2, b) \<and>
     o_flush 0 b [Sys_ok 1, Sys_ok 5] [] = Some (b', Inr 2, rs', [7, 8])"
proof -
  obtain b where b: "o_write [7, 8] (mk_obuf True False) = Inr (2, b)" "obuf_ok b" "o_content b = [7, 8]"
      "o_device b"
    using o_write_ok[OF mk_obuf_ok(1)[of True False], of "[7, 8]"] mk_obuf_ok(2)[of True False]
    by (auto simp: o_avail_def mk_obuf_def malloc_limit_def)
  have "o_avail b = 2" using length_o_content[OF b(2)] b(3) by simp
  with flush_drains[OF b(2,4), of "[Sys_ok 1, Sys_ok 5]" "[]"] b(1,3) show ?thesis by auto
qed

end
