(* ===== verification/Archive.thy ===== *)
theory Archive
  imports StreamBuf
begin

text \<open>
  Binary serialization (include/dtc/archive/binary.hpp, archive.hpp): the archivers, which write a
  value of any of the supported C++ types to an output buffer and read one from an input buffer, and
  the packagers, which prefix the values of a message with its size and read only complete messages.

  The C++ types are data (\<open>cty\<close>), the values of all types one data type (\<open>cval\<close>); each branch of
  \<open>_archive\<close> is an equation. The order in which the operands of \<open>+\<close> are evaluated, which the
  language leaves open, is left to right. What the types are instantiated with is a parameter
  (\<open>cxx\<close>): the comparison of the keys of sorted and of hashed containers, what a move leaves behind,
  and the largest size the allocator grants.

  The theorems: writing a value appends the bytes of a reference encoding; reading them back gives the
  value, whatever the target held before, and leaves what follows; a message is read when all of it
  has arrived, and nothing is touched before.
\<close>

section \<open>Types and values\<close>

text \<open>Arithmetic types and the underlying types of enumerations by their size; strings by the size of
  their characters; \<open>deque\<close>, \<open>list\<close> and \<open>forward_list\<close> are \<open>T_seq\<close>. A class with a member
  \<open>archive\<close> is the list of the fields it archives, with the values they have after default
  construction.\<close>

datatype err_category = Cat_generic | Cat_system | Cat_iostream | Cat_future | Cat_other

datatype cty =
    T_num nat
  | T_enum nat
  | T_string nat
  | T_vector cty
  | T_seq cty
  | T_map cty cty
  | T_umap cty cty
  | T_set cty
  | T_uset cty
  | T_array nat cty
  | T_variant "cty list"
  | T_unique_ptr cty
  | T_error_code
  | T_duration cty
  | T_time_point cty
  | T_optional cty
  | T_tuple "cty list"
  | T_eigen nat
  | T_class "cty list" "cval list"
and cval =
    V_num nat
  | V_indet
  | V_list "cval list"
  | V_pair cval cval
  | V_variant nat cval
  | V_valueless
  | V_none
  | V_some cval
  | V_errc err_category nat
  | V_matrix nat nat "cval list"

text \<open>Numbers are the unsigned values of their object representations; \<open>V_indet\<close> is the value of a
  number that has not been initialized; the entries of a map are pairs, tuples and objects lists.\<close>

definition elems :: "cval \<Rightarrow> cval list" where
  "elems v = (case v of V_list xs \<Rightarrow> xs | _ \<Rightarrow> [])"

definition key_of :: "cval \<Rightarrow> cval" where
  "key_of v = (case v of V_pair k _ \<Rightarrow> k | k \<Rightarrow> k)"

definition value_of :: "cval \<Rightarrow> cval" where
  "value_of v = (case v of V_pair _ x \<Rightarrow> x | x \<Rightarrow> x)"

record cxx =
  c_less :: "cval \<Rightarrow> cval \<Rightarrow> bool"
  c_equal :: "cval \<Rightarrow> cval \<Rightarrow> bool"
  c_moved :: "cval \<Rightarrow> cval"
  c_max :: nat

section \<open>Output\<close>

text \<open>The sum of the sizes written by two steps, in order.\<close>

definition plus_w :: "(nat \<times> 's) result \<Rightarrow> ('s \<Rightarrow> (nat \<times> 's) result) \<Rightarrow> (nat \<times> 's) result" where
  "plus_w r f = bind_r r (\<lambda>(n, b). bind_r (f b) (\<lambda>(m, b). Inr (n + m, b)))"

definition num_bytes :: "nat \<Rightarrow> cval \<Rightarrow> u8 list result" where
  "num_bytes w v = (case v of
       V_num x \<Rightarrow> Inr (le_bytes w x)
     | _ \<Rightarrow> Inl (Undefined ''indeterminate value''))"

fun block_bytes :: "nat \<Rightarrow> cval list \<Rightarrow> u8 list result" where
  "block_bytes w [] = Inr []"
| "block_bytes w (v # vs) = bind_r (num_bytes w v) (\<lambda>x. bind_r (block_bytes w vs) (\<lambda>xs. Inr (x @ xs)))"

definition o_num :: "nat \<Rightarrow> cval \<Rightarrow> obuf \<Rightarrow> (nat \<times> obuf) result" where
  "o_num w v b = bind_r (num_bytes w v) (\<lambda>bs. o_write bs b)"

definition o_block :: "nat \<Rightarrow> cval list \<Rightarrow> obuf \<Rightarrow> (nat \<times> obuf) result" where
  "o_block w vs b = bind_r (block_bytes w vs) (\<lambda>bs. o_write bs b)"

text \<open>\<open>make_size_tag\<close>: a \<open>size_t\<close>.\<close>

definition o_size_tag :: "nat \<Rightarrow> obuf \<Rightarrow> (nat \<times> obuf) result" where
  "o_size_tag n b = o_num 8 (V_num n) b"

fun o_items :: "(cval \<Rightarrow> obuf \<Rightarrow> (nat \<times> obuf) result) \<Rightarrow> cval list \<Rightarrow> obuf \<Rightarrow> (nat \<times> obuf) result" where
  "o_items f [] b = Inr (0, b)"
| "o_items f (x # xs) b = plus_w (f x b) (o_items f xs)"

definition o_entry ::
  "(cval \<Rightarrow> obuf \<Rightarrow> (nat \<times> obuf) result) \<Rightarrow> (cval \<Rightarrow> obuf \<Rightarrow> (nat \<times> obuf) result) \<Rightarrow> cval \<Rightarrow> obuf \<Rightarrow>
     (nat \<times> obuf) result" where
  "o_entry fk fv e b = (case e of
       V_pair k v \<Rightarrow> plus_w (fk k b) (fv v)
     | _ \<Rightarrow> Inl (Undefined ''no entry''))"

text \<open>\<open>ErrorCodeItem\<close>: the category as an enumerator.\<close>

definition category_index :: "err_category \<Rightarrow> nat result" where
  "category_index c = (case c of
       Cat_generic \<Rightarrow> Inr 0 | Cat_system \<Rightarrow> Inr 1 | Cat_iostream \<Rightarrow> Inr 2 | Cat_future \<Rightarrow> Inr 3
     | Cat_other \<Rightarrow> Inl Invalid_argument)"

definition to_error_category :: "nat \<Rightarrow> err_category result" where
  "to_error_category n =
     (if n = 0 then Inr Cat_generic else if n = 1 then Inr Cat_system
      else if n = 2 then Inr Cat_iostream else if n = 3 then Inr Cat_future
      else Inl Invalid_argument)"

definition npos :: nat where "npos = 2 ^ 64 - 1"

definition is_arithmetic :: "cty \<Rightarrow> nat option" where
  "is_arithmetic t = (case t of T_num w \<Rightarrow> Some w | _ \<Rightarrow> None)"

text \<open>\<open>BinaryOutputArchiver::_archive\<close>; \<open>o_alt\<close> is the visit of a variant, \<open>o_fields\<close> the fold over
  the elements of a tuple or the fields of an object.\<close>

fun o_archive :: "cty \<Rightarrow> cval \<Rightarrow> obuf \<Rightarrow> (nat \<times> obuf) result"
  and o_alt :: "cty list \<Rightarrow> nat \<Rightarrow> cval \<Rightarrow> obuf \<Rightarrow> (nat \<times> obuf) result"
  and o_fields :: "cty list \<Rightarrow> cval list \<Rightarrow> obuf \<Rightarrow> (nat \<times> obuf) result" where
  "o_archive (T_num w) v b = o_num w v b"
| "o_archive (T_string w) v b = plus_w (o_size_tag (length (elems v)) b) (o_block w (elems v))"
| "o_archive (T_vector t) v b =
     plus_w (o_size_tag (length (elems v)) b)
       (case is_arithmetic t of
          Some w \<Rightarrow> o_block w (elems v)
        | None \<Rightarrow> o_items (o_archive t) (elems v))"
| "o_archive (T_seq t) v b =
     plus_w (o_size_tag (length (elems v)) b) (o_items (o_archive t) (elems v))"
| "o_archive (T_map k t) v b =
     plus_w (o_size_tag (length (elems v)) b) (o_items (o_entry (o_archive k) (o_archive t)) (elems v))"
| "o_archive (T_umap k t) v b =
     plus_w (o_size_tag (length (elems v)) b) (o_items (o_entry (o_archive k) (o_archive t)) (elems v))"
| "o_archive (T_set t) v b =
     plus_w (o_size_tag (length (elems v)) b) (o_items (o_archive t) (elems v))"
| "o_archive (T_uset t) v b =
     plus_w (o_size_tag (length (elems v)) b) (o_items (o_archive t) (elems v))"
| "o_archive (T_enum w) v b = o_num w v b"
| "o_archive (T_array n t) v b =
     (case is_arithmetic t of
        Some w \<Rightarrow> o_block w (elems v) b
      | None \<Rightarrow> o_items (o_archive t) (elems v) b)"
| "o_archive (T_variant ts) v b = (case v of
       V_variant i x \<Rightarrow> plus_w (o_size_tag i b) (o_alt ts i x)
     | _ \<Rightarrow> plus_w (o_size_tag npos b) (\<lambda>b. Inl Bad_variant_access))"
| "o_archive (T_unique_ptr t) v b = (case v of
       V_some x \<Rightarrow> plus_w (o_num 1 (V_num 1) b) (o_archive t x)
     | _ \<Rightarrow> o_num 1 (V_num 0) b)"
| "o_archive T_error_code v b = (case v of
       V_errc c n \<Rightarrow> bind_r (category_index c) (\<lambda>i. plus_w (o_num 4 (V_num i) b) (o_num 4 (V_num n)))
     | _ \<Rightarrow> Inl (Undefined ''no error code''))"
| "o_archive (T_duration t) v b = o_archive t v b"
| "o_archive (T_time_point t) v b = o_archive t v b"
| "o_archive (T_optional t) v b = (case v of
       V_some x \<Rightarrow> plus_w (o_num 1 (V_num 1) b) (o_archive t x)
     | _ \<Rightarrow> o_num 1 (V_num 0) b)"
| "o_archive (T_tuple ts) v b = o_fields ts (elems v) b"
| "o_archive (T_eigen w) v b = (case v of
       V_matrix r c xs \<Rightarrow> plus_w (plus_w (o_num 8 (V_num r) b) (o_num 8 (V_num c))) (o_block w xs)
     | _ \<Rightarrow> Inl (Undefined ''no matrix''))"
| "o_archive (T_class ts ds) v b = o_fields ts (elems v) b"
| "o_alt [] i x b = Inl Bad_variant_access"
| "o_alt (t # ts) 0 x b = o_archive t x b"
| "o_alt (t # ts) (Suc i) x b = o_alt ts i x b"
| "o_fields (t # ts) (v # vs) b = plus_w (o_archive t v b) (o_fields ts vs)"
| "o_fields ts vs b = Inr (0, b)"

section \<open>Input\<close>

text \<open>Value initialization, and what a local variable holds that is declared without initializer.\<close>

fun default_val :: "cty \<Rightarrow> cval" where
  "default_val (T_num w) = V_num 0"
| "default_val (T_enum w) = V_num 0"
| "default_val (T_array n t) = V_list (replicate n (default_val t))"
| "default_val (T_variant ts) = (case ts of [] \<Rightarrow> V_valueless | t # _ \<Rightarrow> V_variant 0 (default_val t))"
| "default_val (T_unique_ptr t) = V_none"
| "default_val (T_optional t) = V_none"
| "default_val T_error_code = V_errc Cat_system 0"
| "default_val (T_duration t) = default_val t"
| "default_val (T_time_point t) = default_val t"
| "default_val (T_tuple ts) = V_list (map default_val ts)"
| "default_val (T_eigen w) = V_matrix 0 0 []"
| "default_val (T_class ts ds) = V_list ds"
| "default_val _ = V_list []"

fun indet_val :: "cty \<Rightarrow> cval" where
  "indet_val (T_num w) = V_indet"
| "indet_val (T_enum w) = V_indet"
| "indet_val (T_array n t) = V_list (replicate n (indet_val t))"
| "indet_val (T_duration t) = V_indet"
| "indet_val t = default_val t"

fun determinate :: "cval \<Rightarrow> bool" where
  "determinate V_indet = False"
| "determinate (V_list xs) = list_all determinate xs"
| "determinate (V_pair k v) = (determinate k \<and> determinate v)"
| "determinate (V_variant i v) = determinate v"
| "determinate (V_some v) = determinate v"
| "determinate (V_matrix r c xs) = list_all determinate xs"
| "determinate _ = True"

definition use_num :: "cval \<Rightarrow> nat result" where
  "use_num v = (case v of V_num x \<Rightarrow> Inr x | _ \<Rightarrow> Inl (Undefined ''indeterminate value''))"

definition use_val :: "cval \<Rightarrow> cval result" where
  "use_val v = (if determinate v then Inr v else Inl (Undefined ''indeterminate value''))"

text \<open>Reading into a number of \<open>w\<close> bytes, and into consecutive numbers: when the buffer holds less,
  the remaining bytes of the target stay as they are.\<close>

definition fill_num :: "nat \<Rightarrow> cval \<Rightarrow> u8 list \<Rightarrow> cval" where
  "fill_num w old bs =
     (if length bs = w then V_num (of_le bs)
      else case old of
             V_num x \<Rightarrow> V_num (of_le (bs @ drop (length bs) (le_bytes w x)))
           | _ \<Rightarrow> old)"

fun fill_block :: "nat \<Rightarrow> cval list \<Rightarrow> u8 list \<Rightarrow> cval list" where
  "fill_block w [] bs = []"
| "fill_block w (v # vs) bs = fill_num w v (take w bs) # fill_block w vs (drop w bs)"

type_synonym ('a, 's) reading = "(nat \<times> 'a \<times> 's) result"

definition i_num :: "nat \<Rightarrow> cval \<Rightarrow> ibuf \<Rightarrow> (cval, ibuf) reading" where
  "i_num w old b = bind_r (i_read (int w) b) (\<lambda>(n, bs, b). Inr (nat n, fill_num w old bs, b))"

definition i_block :: "nat \<Rightarrow> cval list \<Rightarrow> ibuf \<Rightarrow> (cval list, ibuf) reading" where
  "i_block w olds b =
     bind_r (i_read (int (length olds * w)) b) (\<lambda>(n, bs, b). Inr (nat n, fill_block w olds bs, b))"

text \<open>Two readings in sequence, and the conversion of what was read.\<close>

definition then_r ::
  "('a, 's) reading \<Rightarrow> ('a \<Rightarrow> 's \<Rightarrow> ('b, 's) reading) \<Rightarrow> ('b, 's) reading" where
  "then_r r f = bind_r r (\<lambda>(n, x, b). bind_r (f x b) (\<lambda>(m, y, b). Inr (n + m, y, b)))"

definition map_r :: "('a \<Rightarrow> 'b result) \<Rightarrow> ('a, 's) reading \<Rightarrow> ('b, 's) reading" where
  "map_r g r = bind_r r (\<lambda>(n, x, b). bind_r (g x) (\<lambda>y. Inr (n, y, b)))"

definition i_size_tag :: "ibuf \<Rightarrow> (nat, ibuf) reading" where
  "i_size_tag b = map_r use_num (i_num 8 V_indet b)"

definition resize_to :: "cxx \<Rightarrow> cval \<Rightarrow> nat \<Rightarrow> cval list \<Rightarrow> cval list result" where
  "resize_to C new n xs =
     (if n \<le> c_max C then Inr (take n xs @ replicate (n - length xs) new)
      else Inl (Runtime_error ''length_error''))"

fun i_items :: "(cval \<Rightarrow> ibuf \<Rightarrow> (cval, ibuf) reading) \<Rightarrow> cval list \<Rightarrow> ibuf \<Rightarrow> (cval list, ibuf) reading" where
  "i_items f [] b = Inr (0, [], b)"
| "i_items f (x # xs) b =
     then_r (f x b) (\<lambda>y b. map_r (\<lambda>ys. Inr (y # ys)) (i_items f xs b))"

definition i_entry ::
  "(cval \<Rightarrow> ibuf \<Rightarrow> (cval, ibuf) reading) \<Rightarrow> (cval \<Rightarrow> ibuf \<Rightarrow> (cval, ibuf) reading) \<Rightarrow>
     cval \<Rightarrow> ibuf \<Rightarrow> (cval, ibuf) reading" where
  "i_entry fk fv e b =
     then_r (fk (key_of e) b) (\<lambda>k b. map_r (\<lambda>v. Inr (V_pair k v)) (fv (value_of e) b))"

text \<open>The loops that fill sets and maps: the element is read into a local that is moved from in every
  round. Insertion into a sorted and into a hashed container, of a key that is not there yet.\<close>

fun i_emplace ::
  "(cval \<Rightarrow> ibuf \<Rightarrow> (cval, ibuf) reading) \<Rightarrow> (cval \<Rightarrow> cval list \<Rightarrow> cval list) \<Rightarrow> (cval \<Rightarrow> cval) \<Rightarrow>
     nat \<Rightarrow> cval \<Rightarrow> cval list \<Rightarrow> ibuf \<Rightarrow> (cval list, ibuf) reading" where
  "i_emplace f ins mv 0 x es b = Inr (0, es, b)"
| "i_emplace f ins mv (Suc n) x es b =
     then_r (map_r use_val (f x b)) (\<lambda>y b. i_emplace f ins mv n (mv y) (ins y es) b)"

fun emplace_hint :: "(cval \<Rightarrow> cval \<Rightarrow> bool) \<Rightarrow> cval \<Rightarrow> cval list \<Rightarrow> cval list" where
  "emplace_hint lt x [] = [x]"
| "emplace_hint lt x (y # ys) =
     (if lt (key_of y) (key_of x) then y # emplace_hint lt x ys
      else if lt (key_of x) (key_of y) then x # y # ys
      else y # ys)"

definition emplace_hash :: "(cval \<Rightarrow> cval \<Rightarrow> bool) \<Rightarrow> cval \<Rightarrow> cval list \<Rightarrow> cval list" where
  "emplace_hash eq x ys = (if list_ex (\<lambda>y. eq (key_of y) (key_of x)) ys then ys else ys @ [x])"

definition moved_entry :: "cxx \<Rightarrow> cval \<Rightarrow> cval" where
  "moved_entry C e = (case e of V_pair k v \<Rightarrow> V_pair (c_moved C k) (c_moved C v) | k \<Rightarrow> c_moved C k)"

text \<open>The parts of a target. Typed code cannot have targets of another shape; the model completes them
  with default values.\<close>

definition old_elems :: "nat \<Rightarrow> cty \<Rightarrow> cval \<Rightarrow> cval list" where
  "old_elems n t v = take n (elems v @ replicate n (default_val t))"

definition old_some :: "cty \<Rightarrow> cval \<Rightarrow> cval" where
  "old_some t v = (case v of V_some x \<Rightarrow> x | _ \<Rightarrow> default_val t)"

definition old_alt :: "cty list \<Rightarrow> nat \<Rightarrow> cval \<Rightarrow> cval" where
  "old_alt ts i v = (case v of
       V_variant j x \<Rightarrow> if j = i then x else default_val (ts ! i)
     | _ \<Rightarrow> default_val (ts ! i))"

definition old_matrix :: "cval \<Rightarrow> nat \<times> nat \<times> cval list" where
  "old_matrix v = (case v of V_matrix r c xs \<Rightarrow> (r, c, xs) | _ \<Rightarrow> (0, 0, []))"

text \<open>Resizing a matrix asserts that its dimensions are not negative, and keeps the storage when the
  number of its elements stays the same.\<close>

definition resize_matrix :: "cxx \<Rightarrow> nat \<Rightarrow> nat \<Rightarrow> cval list \<Rightarrow> cval list result" where
  "resize_matrix C r c xs =
     (if 2 ^ 63 \<le> r \<or> 2 ^ 63 \<le> c then Inl Assert_failed
      else if r * c = length xs then Inr xs
      else if r * c \<le> c_max C then Inr (replicate (r * c) V_indet)
      else Inl (Runtime_error ''bad_alloc''))"

text \<open>\<open>BinaryInputArchiver::_archive\<close> into a target with the given old value; \<open>i_alt\<close> is
  \<open>_variant_helper\<close>, which reads nothing when no alternative has the index.\<close>

fun i_archive :: "cxx \<Rightarrow> cty \<Rightarrow> cval \<Rightarrow> ibuf \<Rightarrow> (cval, ibuf) reading"
  and i_alt :: "cxx \<Rightarrow> cty list \<Rightarrow> nat \<Rightarrow> cval \<Rightarrow> ibuf \<Rightarrow> (cval, ibuf) reading"
  and i_fields :: "cxx \<Rightarrow> cty list \<Rightarrow> cval list \<Rightarrow> ibuf \<Rightarrow> (cval list, ibuf) reading" where
  "i_archive C (T_num w) old b = i_num w old b"
| "i_archive C (T_string w) old b =
     then_r (i_size_tag b) (\<lambda>n b. bind_r (resize_to C (V_num 0) n (elems old)) (\<lambda>xs.
       map_r (\<lambda>ys. Inr (V_list ys)) (i_block w xs b)))"
| "i_archive C (T_vector t) old b =
     then_r (i_size_tag b) (\<lambda>n b. bind_r (resize_to C (default_val t) n (elems old)) (\<lambda>xs.
       map_r (\<lambda>ys. Inr (V_list ys))
         (case is_arithmetic t of
            Some w \<Rightarrow> i_block w xs b
          | None \<Rightarrow> i_items (i_archive C t) xs b)))"
| "i_archive C (T_seq t) old b =
     then_r (i_size_tag b) (\<lambda>n b. bind_r (resize_to C (default_val t) n (elems old)) (\<lambda>xs.
       map_r (\<lambda>ys. Inr (V_list ys)) (i_items (i_archive C t) xs b)))"
| "i_archive C (T_map k t) old b =
     then_r (i_size_tag b) (\<lambda>n b. map_r (\<lambda>ys. Inr (V_list ys))
       (i_emplace (i_entry (i_archive C k) (i_archive C t)) (emplace_hint (c_less C)) (moved_entry C) n
          (V_pair (indet_val k) (indet_val t)) [] b))"
| "i_archive C (T_umap k t) old b =
     then_r (i_size_tag b) (\<lambda>n b.
       if c_max C < n then Inl (Runtime_error ''length_error'')
       else map_r (\<lambda>ys. Inr (V_list ys))
         (i_emplace (i_entry (i_archive C k) (i_archive C t)) (emplace_hash (c_equal C)) (moved_entry C) n
            (V_pair (indet_val k) (indet_val t)) [] b))"
| "i_archive C (T_set t) old b =
     then_r (i_size_tag b) (\<lambda>n b. map_r (\<lambda>ys. Inr (V_list ys))
       (i_emplace (i_archive C t) (emplace_hint (c_less C)) (c_moved C) n (indet_val t) [] b))"
| "i_archive C (T_uset t) old b =
     then_r (i_size_tag b) (\<lambda>n b.
       if c_max C < n then Inl (Runtime_error ''length_error'')
       else map_r (\<lambda>ys. Inr (V_list ys))
         (i_emplace (i_archive C t) (emplace_hash (c_equal C)) (c_moved C) n (indet_val t) [] b))"
| "i_archive C (T_enum w) old b = map_r use_val (i_num w V_indet b)"
| "i_archive C (T_array n t) old b =
     map_r (\<lambda>ys. Inr (V_list ys))
       (case is_arithmetic t of
          Some w \<Rightarrow> i_block w (old_elems n t old) b
        | None \<Rightarrow> i_items (i_archive C t) (old_elems n t old) b)"
| "i_archive C (T_variant ts) old b =
     then_r (i_size_tag b) (\<lambda>i b.
       if i < length ts then map_r (\<lambda>y. Inr (V_variant i y)) (i_alt C ts i (old_alt ts i old) b)
       else Inr (0, old, b))"
| "i_archive C (T_unique_ptr t) old b =
     then_r (map_r use_num (i_num 1 V_indet b)) (\<lambda>flag b.
       if flag = 0 then Inr (0, V_none, b)
       else map_r (\<lambda>y. Inr (V_some y)) (i_archive C t (default_val t) b))"
| "i_archive C T_error_code old b =
     then_r (map_r use_num (i_num 4 V_indet b)) (\<lambda>c b.
       map_r (\<lambda>v. bind_r (to_error_category c) (\<lambda>c. bind_r (use_num v) (\<lambda>v. Inr (V_errc c v))))
         (i_num 4 V_indet b))"
| "i_archive C (T_duration t) old b = map_r use_val (i_archive C t (indet_val t) b)"
| "i_archive C (T_time_point t) old b = map_r use_val (i_archive C t (indet_val t) b)"
| "i_archive C (T_optional t) old b =
     then_r (map_r use_num (i_num 1 V_indet b)) (\<lambda>has_value b.
       if 1 < has_value then Inl (Undefined ''bool'')
       else if has_value = 1 then map_r (\<lambda>y. Inr (V_some y)) (i_archive C t (old_some t old) b)
       else Inr (0, V_none, b))"
| "i_archive C (T_tuple ts) old b = map_r (\<lambda>ys. Inr (V_list ys)) (i_fields C ts (elems old) b)"
| "i_archive C (T_eigen w) old b =
     then_r (map_r use_num (i_num 8 (V_num (fst (old_matrix old))) b)) (\<lambda>r b.
     then_r (map_r use_num (i_num 8 (V_num (fst (snd (old_matrix old)))) b)) (\<lambda>c b.
       bind_r (resize_matrix C r c (snd (snd (old_matrix old)))) (\<lambda>xs.
         map_r (\<lambda>ys. Inr (V_matrix r c ys)) (i_block w xs b))))"
| "i_archive C (T_class ts ds) old b = map_r (\<lambda>ys. Inr (V_list ys)) (i_fields C ts (elems old) b)"
| "i_alt C [] i x b = Inr (0, x, b)"
| "i_alt C (t # ts) 0 x b = i_archive C t x b"
| "i_alt C (t # ts) (Suc i) x b = i_alt C ts i x b"
| "i_fields C [] vs b = Inr (0, [], b)"
| "i_fields C (t # ts) vs b =
     then_r (i_archive C t (case vs of [] \<Rightarrow> default_val t | v # _ \<Rightarrow> v) b) (\<lambda>y b.
       map_r (\<lambda>ys. Inr (y # ys)) (i_fields C ts (drop 1 vs) b))"

section \<open>Reference encoding\<close>

text \<open>Typed values: numbers in range, containers no larger than the allocator grants, sorted containers
  in order, hashed ones without duplicates.\<close>

definition is_num :: "nat \<Rightarrow> cval \<Rightarrow> bool" where
  "is_num w v = (case v of V_num x \<Rightarrow> x < 256 ^ w | _ \<Rightarrow> False)"

definition size_ok :: "cxx \<Rightarrow> nat \<Rightarrow> bool" where
  "size_ok C n \<longleftrightarrow> n \<le> c_max C \<and> n < 256 ^ 8"

definition wt_entry :: "(cval \<Rightarrow> bool) \<Rightarrow> (cval \<Rightarrow> bool) \<Rightarrow> cval \<Rightarrow> bool" where
  "wt_entry pk pv e = (case e of V_pair k v \<Rightarrow> pk k \<and> pv v | _ \<Rightarrow> False)"

definition ascending :: "cxx \<Rightarrow> cval list \<Rightarrow> bool" where
  "ascending C = sorted_wrt (\<lambda>x y. c_less C (key_of x) (key_of y))"

definition no_duplicates :: "cxx \<Rightarrow> cval list \<Rightarrow> bool" where
  "no_duplicates C = sorted_wrt (\<lambda>x y. \<not> c_equal C (key_of x) (key_of y))"

fun wt :: "cxx \<Rightarrow> cty \<Rightarrow> cval \<Rightarrow> bool"
  and wt_alt :: "cxx \<Rightarrow> cty list \<Rightarrow> nat \<Rightarrow> cval \<Rightarrow> bool"
  and wt_fields :: "cxx \<Rightarrow> cty list \<Rightarrow> cval list \<Rightarrow> bool" where
  "wt C (T_num w) v = is_num w v"
| "wt C (T_enum w) v = is_num w v"
| "wt C (T_string w) v = (case v of V_list xs \<Rightarrow> size_ok C (length xs) \<and> list_all (is_num w) xs | _ \<Rightarrow> False)"
| "wt C (T_vector t) v = (case v of V_list xs \<Rightarrow> size_ok C (length xs) \<and> list_all (wt C t) xs | _ \<Rightarrow> False)"
| "wt C (T_seq t) v = (case v of V_list xs \<Rightarrow> size_ok C (length xs) \<and> list_all (wt C t) xs | _ \<Rightarrow> False)"
| "wt C (T_map k t) v = (case v of
       V_list es \<Rightarrow> size_ok C (length es) \<and> list_all (wt_entry (wt C k) (wt C t)) es \<and> ascending C es
     | _ \<Rightarrow> False)"
| "wt C (T_umap k t) v = (case v of
       V_list es \<Rightarrow> size_ok C (length es) \<and> list_all (wt_entry (wt C k) (wt C t)) es \<and> no_duplicates C es
     | _ \<Rightarrow> False)"
| "wt C (T_set t) v = (case v of
       V_list xs \<Rightarrow> size_ok C (length xs) \<and> list_all (wt C t) xs \<and> ascending C xs | _ \<Rightarrow> False)"
| "wt C (T_uset t) v = (case v of
       V_list xs \<Rightarrow> size_ok C (length xs) \<and> list_all (wt C t) xs \<and> no_duplicates C xs | _ \<Rightarrow> False)"
| "wt C (T_array n t) v = (case v of V_list xs \<Rightarrow> length xs = n \<and> list_all (wt C t) xs | _ \<Rightarrow> False)"
| "wt C (T_variant ts) v = (case v of V_variant i x \<Rightarrow> i < 256 ^ 8 \<and> wt_alt C ts i x | _ \<Rightarrow> False)"
| "wt C (T_unique_ptr t) v = (case v of V_none \<Rightarrow> True | V_some x \<Rightarrow> wt C t x | _ \<Rightarrow> False)"
| "wt C T_error_code v = (case v of V_errc c n \<Rightarrow> c \<noteq> Cat_other \<and> n < 256 ^ 4 | _ \<Rightarrow> False)"
| "wt C (T_duration t) v = wt C t v"
| "wt C (T_time_point t) v = wt C t v"
| "wt C (T_optional t) v = (case v of V_none \<Rightarrow> True | V_some x \<Rightarrow> wt C t x | _ \<Rightarrow> False)"
| "wt C (T_tuple ts) v = (case v of V_list xs \<Rightarrow> wt_fields C ts xs | _ \<Rightarrow> False)"
| "wt C (T_eigen w) v = (case v of
       V_matrix r c xs \<Rightarrow> r < 2 ^ 63 \<and> c < 2 ^ 63 \<and> r * c = length xs \<and> length xs \<le> c_max C \<and>
         list_all (is_num w) xs
     | _ \<Rightarrow> False)"
| "wt C (T_class ts ds) v = (case v of V_list xs \<Rightarrow> wt_fields C ts xs | _ \<Rightarrow> False)"
| "wt_alt C [] i x = False"
| "wt_alt C (t # ts) 0 x = wt C t x"
| "wt_alt C (t # ts) (Suc i) x = wt_alt C ts i x"
| "wt_fields C (t # ts) (v # vs) = (wt C t v \<and> wt_fields C ts vs)"
| "wt_fields C [] [] = True"
| "wt_fields C _ _ = False"

text \<open>The bytes of a value: fixed-width numbers in little-endian order, sizes and indices as eight
  bytes in front.\<close>

definition enc_num :: "nat \<Rightarrow> cval \<Rightarrow> u8 list" where
  "enc_num w v = (case v of V_num x \<Rightarrow> le_bytes w x | _ \<Rightarrow> [])"

abbreviation enc_size :: "nat \<Rightarrow> u8 list" where "enc_size n \<equiv> le_bytes 8 n"

fun enc :: "cty \<Rightarrow> cval \<Rightarrow> u8 list"
  and enc_alt :: "cty list \<Rightarrow> nat \<Rightarrow> cval \<Rightarrow> u8 list"
  and enc_fields :: "cty list \<Rightarrow> cval list \<Rightarrow> u8 list" where
  "enc (T_num w) v = enc_num w v"
| "enc (T_enum w) v = enc_num w v"
| "enc (T_string w) v = enc_size (length (elems v)) @ concat (map (enc_num w) (elems v))"
| "enc (T_vector t) v = enc_size (length (elems v)) @ concat (map (enc t) (elems v))"
| "enc (T_seq t) v = enc_size (length (elems v)) @ concat (map (enc t) (elems v))"
| "enc (T_map k t) v = enc_size (length (elems v)) @
     concat (map (\<lambda>e. case e of V_pair x y \<Rightarrow> enc k x @ enc t y | _ \<Rightarrow> []) (elems v))"
| "enc (T_umap k t) v = enc_size (length (elems v)) @
     concat (map (\<lambda>e. case e of V_pair x y \<Rightarrow> enc k x @ enc t y | _ \<Rightarrow> []) (elems v))"
| "enc (T_set t) v = enc_size (length (elems v)) @ concat (map (enc t) (elems v))"
| "enc (T_uset t) v = enc_size (length (elems v)) @ concat (map (enc t) (elems v))"
| "enc (T_array n t) v = concat (map (enc t) (elems v))"
| "enc (T_variant ts) v = (case v of V_variant i x \<Rightarrow> enc_size i @ enc_alt ts i x | _ \<Rightarrow> [])"
| "enc (T_unique_ptr t) v = (case v of V_some x \<Rightarrow> 1 # enc t x | _ \<Rightarrow> [0])"
| "enc T_error_code v = (case v of
       V_errc c n \<Rightarrow> (case category_index c of Inr i \<Rightarrow> le_bytes 4 i | _ \<Rightarrow> []) @ le_bytes 4 n | _ \<Rightarrow> [])"
| "enc (T_duration t) v = enc t v"
| "enc (T_time_point t) v = enc t v"
| "enc (T_optional t) v = (case v of V_some x \<Rightarrow> 1 # enc t x | _ \<Rightarrow> [0])"
| "enc (T_tuple ts) v = enc_fields ts (elems v)"
| "enc (T_eigen w) v = (case v of
       V_matrix r c xs \<Rightarrow> le_bytes 8 r @ le_bytes 8 c @ concat (map (enc_num w) xs) | _ \<Rightarrow> [])"
| "enc (T_class ts ds) v = enc_fields ts (elems v)"
| "enc_alt [] i x = []"
| "enc_alt (t # ts) 0 x = enc t x"
| "enc_alt (t # ts) (Suc i) x = enc_alt ts i x"
| "enc_fields (t # ts) (v # vs) = enc t v @ enc_fields ts vs"
| "enc_fields ts vs = []"

section \<open>Writing appends the encoding\<close>

definition writes :: "(obuf \<Rightarrow> (nat \<times> obuf) result) \<Rightarrow> u8 list \<Rightarrow> bool" where
  "writes f bs \<longleftrightarrow> (\<forall>b. obuf_ok b \<longrightarrow> 2 * (o_avail b + length bs) < malloc_limit \<longrightarrow>
     (\<exists>b'. f b = Inr (length bs, b') \<and> obuf_ok b' \<and> o_content b' = o_content b @ bs))"

lemma writesD:
  "writes f bs \<Longrightarrow> obuf_ok b \<Longrightarrow> 2 * (o_avail b + length bs) < malloc_limit \<Longrightarrow>
     \<exists>b'. f b = Inr (length bs, b') \<and> obuf_ok b' \<and> o_content b' = o_content b @ bs"
  by (simp add: writes_def)

named_theorems archive_intros \<open>composition of writings and readings\<close>

lemma writes_plus [archive_intros]:
  assumes "writes f xs" "writes g ys"
  shows "writes (\<lambda>b. plus_w (f b) g) (xs @ ys)"
  unfolding writes_def
proof (intro allI impI)
  fix b assume b: "obuf_ok b" "2 * (o_avail b + length (xs @ ys)) < malloc_limit"
  then obtain c where c: "f b = Inr (length xs, c)" "obuf_ok c" "o_content c = o_content b @ xs"
    using writesD[OF assms(1) b(1)] by auto
  have "o_avail c = o_avail b + length xs"
    using length_o_content[OF c(2)] length_o_content[OF b(1)] c(3) by simp
  then obtain d where "g c = Inr (length ys, d)" "obuf_ok d" "o_content d = o_content c @ ys"
    using writesD[OF assms(2) c(2)] b(2) by auto
  with c show "\<exists>b'. plus_w (f b) g = Inr (length (xs @ ys), b') \<and> obuf_ok b' \<and>
      o_content b' = o_content b @ xs @ ys"
    by (simp add: plus_w_def)
qed

lemma writes_nothing [archive_intros]: "writes (\<lambda>b. Inr (0, b)) []"
  by (simp add: writes_def)

lemma writes_bytes [archive_intros]: "writes (o_write bs) bs"
  using o_write_ok by (fastforce simp: writes_def)

lemma writes_num [archive_intros]: "is_num w v \<Longrightarrow> writes (o_num w v) (enc_num w v)"
  using writes_bytes
  by (auto simp: is_num_def o_num_def[abs_def] num_bytes_def enc_num_def split: cval.splits)

lemma writes_size [archive_intros]: "writes (o_size_tag n) (enc_size n)"
  using writes_bytes by (simp add: o_size_tag_def[abs_def] o_num_def num_bytes_def)

lemma block_bytes_enc: "list_all (is_num w) vs \<Longrightarrow> block_bytes w vs = Inr (concat (map (enc_num w) vs))"
  by (induction vs) (auto simp: is_num_def num_bytes_def enc_num_def split: cval.splits)

lemma writes_block [archive_intros]:
  "list_all (is_num w) vs \<Longrightarrow> writes (o_block w vs) (concat (map (enc_num w) vs))"
  using writes_bytes by (simp add: o_block_def[abs_def] block_bytes_enc)

lemma writes_items [archive_intros]:
  "(\<And>x. x \<in> set xs \<Longrightarrow> writes (f x) (g x)) \<Longrightarrow> writes (o_items f xs) (concat (map g xs))"
proof (induction xs)
  case Nil
  have "o_items f [] = (\<lambda>b. Inr (0, b))" by (rule ext) simp
  then show ?case by (simp add: writes_nothing)
next
  case (Cons x xs)
  have "o_items f (x # xs) = (\<lambda>b. plus_w (f x b) (o_items f xs))" by (rule ext) simp
  then show ?case using Cons by (auto intro: writes_plus)
qed

lemma writes_entry:
  assumes "wt_entry pk pv e"
    and "\<And>k v. e = V_pair k v \<Longrightarrow> pk k \<Longrightarrow> writes (fk k) (gk k)"
    and "\<And>k v. e = V_pair k v \<Longrightarrow> pv v \<Longrightarrow> writes (fv v) (gv v)"
  shows "writes (o_entry fk fv e) (case e of V_pair x y \<Rightarrow> gk x @ gv y | _ \<Rightarrow> [])"
proof -
  from assms(1) obtain k v where e: "e = V_pair k v" "pk k" "pv v"
    by (auto simp: wt_entry_def split: cval.splits)
  have "o_entry fk fv e = (\<lambda>b. plus_w (fk k b) (fv v))" by (rule ext) (simp add: o_entry_def e)
  then show ?thesis using writes_plus[OF assms(2)[OF e(1,2)] assms(3)[OF e(1,3)]] e(1) by simp
qed

text \<open>The flag of a pointer or an optional value.\<close>

lemma writes_flag: "n < 2 \<Longrightarrow> writes (o_num (Suc 0) (V_num n)) [of_nat n]"
  using writes_num[of "Suc 0" "V_num n"] by (simp add: is_num_def enc_num_def)

lemma writes_no_flag [archive_intros]: "writes (o_num (Suc 0) (V_num 0)) [0]"
  using writes_flag[of 0] by simp

lemma writes_flagged [archive_intros]:
  "writes g ys \<Longrightarrow> writes (\<lambda>b. plus_w (o_num (Suc 0) (V_num (Suc 0)) b) g) (1 # ys)"
  using writes_plus[OF writes_flag[of 1], of g ys] by simp

lemma writes_errc:
  "c \<noteq> Cat_other \<Longrightarrow> n < 256 ^ 4 \<Longrightarrow>
     writes (\<lambda>b. bind_r (category_index c) (\<lambda>i. plus_w (o_num 4 (V_num i) b) (o_num 4 (V_num n))))
       ((case category_index c of Inl a \<Rightarrow> [] | Inr x \<Rightarrow> le_bytes 4 x) @ le_bytes 4 n)"
  using writes_num[of 4 "V_num n"] writes_num[of 4 "V_num i" for i]
  by (cases c) (auto simp: category_index_def is_num_def enc_num_def simp del: le_bytes.simps intro!: writes_plus)

text \<open>Each branch of \<open>_archive\<close> as a function of the buffer.\<close>

lemmas o_archive_fun = o_archive.simps[abs_def] o_alt.simps[abs_def] o_fields.simps[abs_def]

lemma wt_num [simp]: "wt C (T_num w) = is_num w"
  by (rule ext) simp

lemma enc_num_fun [simp]: "enc (T_num w) = enc_num w"
  by (rule ext) simp

lemma is_arithmetic_Some: "is_arithmetic t = Some w \<longleftrightarrow> t = T_num w"
  by (simp add: is_arithmetic_def split: cty.splits)

lemma is_arithmetic_num [simp]: "is_arithmetic (T_num w) = Some w"
  by (simp add: is_arithmetic_def)

lemma elems_list [simp]: "elems (V_list xs) = xs"
  by (simp add: elems_def)

lemma writes_archive:
  "wt C t v \<Longrightarrow> writes (o_archive t v) (enc t v)"
  "wt_alt C ts i x \<Longrightarrow> writes (o_alt ts i x) (enc_alt ts i x)"
  "wt_fields C ts vs \<Longrightarrow> writes (o_fields ts vs) (enc_fields ts vs)"
proof (induction t v and ts i x and ts vs rule: enc_enc_alt_enc_fields.induct)
  case (1 w v)
  then show ?case using writes_num by (simp add: o_archive_fun)
next
  case (4 t v)
  then obtain xs where v: "v = V_list xs" "list_all (wt C t) xs" by (auto split: cval.splits)
  show ?case
  proof (cases "is_arithmetic t")
    case None
    have "writes (o_items (o_archive t) xs) (concat (map (enc t) xs))"
      using 4 v by (auto intro!: writes_items simp: list_all_iff elems_def)
    with None v(1) show ?thesis
      by (auto simp: o_archive_fun elems_def intro!: writes_plus writes_size)
  qed (use v in \<open>auto simp: o_archive_fun elems_def is_arithmetic_Some intro!: archive_intros\<close>)
next
  case (10 n t v)
  then obtain xs where v: "v = V_list xs" "list_all (wt C t) xs" by (auto split: cval.splits)
  show ?case
  proof (cases "is_arithmetic t")
    case None
    have "writes (o_items (o_archive t) xs) (concat (map (enc t) xs))"
      using 10 v by (auto intro!: writes_items simp: list_all_iff)
    with None v(1) show ?thesis by (simp add: o_archive_fun)
  qed (use v in \<open>auto simp: o_archive_fun is_arithmetic_Some intro!: archive_intros\<close>)
next
  case (13 v)
  then show ?case by (auto simp: o_archive_fun split: cval.splits intro!: writes_errc)
next
  case (18 w v)
  then obtain r c xs where v: "v = V_matrix r c xs" "r < 2 ^ 63" "c < 2 ^ 63" "list_all (is_num w) xs"
    by (auto split: cval.splits)
  then have "is_num 8 (V_num r)" "is_num 8 (V_num c)" by (simp_all add: is_num_def)
  then have "writes (\<lambda>b. plus_w (plus_w (o_num 8 (V_num r) b) (o_num 8 (V_num c))) (o_block w xs))
      ((enc_num 8 (V_num r) @ enc_num 8 (V_num c)) @ concat (map (enc_num w) xs))"
    using v(4) by (intro archive_intros)
  then show ?case by (simp add: o_archive_fun v(1) enc_num_def)
qed (auto simp: o_archive_fun list_all_iff elems_def intro!: archive_intros writes_entry split: cval.splits)

section \<open>Reading inverts the encoding\<close>

definition reads :: "(ibuf \<Rightarrow> ('a, ibuf) reading) \<Rightarrow> 'a \<Rightarrow> u8 list \<Rightarrow> bool" where
  "reads f v bs \<longleftrightarrow> (\<forall>b rest. ibuf_ok b \<longrightarrow> i_content b = bs @ rest \<longrightarrow>
     (\<exists>b'. f b = Inr (length bs, v, b') \<and> ibuf_ok b' \<and> i_content b' = rest))"

lemma readsD:
  "reads f v bs \<Longrightarrow> ibuf_ok b \<Longrightarrow> i_content b = bs @ rest \<Longrightarrow>
     \<exists>b'. f b = Inr (length bs, v, b') \<and> ibuf_ok b' \<and> i_content b' = rest"
  by (simp add: reads_def)

lemma reads_then:
  assumes "reads f x xs" "reads (g x) y ys"
  shows "reads (\<lambda>b. then_r (f b) g) y (xs @ ys)"
  unfolding reads_def
proof (intro allI impI)
  fix b rest assume b: "ibuf_ok b" "i_content b = (xs @ ys) @ rest"
  then obtain c where c: "f b = Inr (length xs, x, c)" "ibuf_ok c" "i_content c = ys @ rest"
    using readsD[OF assms(1) b(1), of "ys @ rest"] by auto
  with readsD[OF assms(2) c(2,3)] show "\<exists>b'. then_r (f b) g = Inr (length (xs @ ys), y, b') \<and>
      ibuf_ok b' \<and> i_content b' = rest"
    by (auto simp: then_r_def)
qed

lemma reads_map: "reads f x bs \<Longrightarrow> g x = Inr y \<Longrightarrow> reads (\<lambda>b. map_r g (f b)) y bs"
  by (fastforce simp: reads_def map_r_def)

lemma reads_bind: "r = Inr x \<Longrightarrow> reads (f x) v bs \<Longrightarrow> reads (\<lambda>b. bind_r r (\<lambda>x. f x b)) v bs"
  by simp

lemma reads_nothing: "reads (\<lambda>b. Inr (0, v, b)) v []"
  by (simp add: reads_def)

lemma i_read_exact:
  assumes "ibuf_ok b" "i_content b = bs @ rest"
  shows "\<exists>b'. i_read (int (length bs)) b = Inr (int (length bs), bs, b') \<and> ibuf_ok b' \<and> i_content b' = rest"
proof -
  obtain b' cs where r: "i_read (int (length bs)) b = Inr (int (length cs), cs, b')" "ibuf_ok b'"
      "i_content b = cs @ i_content b'" "length cs = min (length bs) (i_avail b)"
    using i_read_ok[OF assms(1), of "int (length bs)"] by auto
  have "length cs = length bs"
    using r(4) length_i_content[OF assms(1)] assms(2) by simp
  with r(3) assms(2) have "cs = bs \<and> i_content b' = rest" by simp
  with r show ?thesis by simp
qed

lemma reads_num: "is_num w v \<Longrightarrow> reads (i_num w old) v (enc_num w v)"
proof -
  assume "is_num w v"
  then obtain x where x: "v = V_num x" "x < 256 ^ w" by (auto simp: is_num_def split: cval.splits)
  show ?thesis
    unfolding reads_def
  proof (intro allI impI)
    fix b rest assume b: "ibuf_ok b" "i_content b = enc_num w v @ rest"
    have len: "length (enc_num w v) = w" by (simp add: enc_num_def x)
    have "fill_num w old (enc_num w v) = v" using x by (simp add: fill_num_def enc_num_def)
    with i_read_exact[OF b, unfolded len] len
    show "\<exists>b'. i_num w old b = Inr (length (enc_num w v), v, b') \<and> ibuf_ok b' \<and> i_content b' = rest"
      by (auto simp: i_num_def)
  qed
qed

lemma reads_V_num: "x < 256 ^ w \<Longrightarrow> reads (i_num w old) (V_num x) (le_bytes w x)"
  using reads_num[of w "V_num x" old] by (simp add: is_num_def enc_num_def)

lemma reads_nat: "x < 256 ^ w \<Longrightarrow> reads (\<lambda>b. map_r use_num (i_num w old b)) x (le_bytes w x)"
  by (rule reads_map[OF reads_V_num]) (simp_all add: use_num_def)

lemma reads_size: "n < 256 ^ 8 \<Longrightarrow> reads i_size_tag n (enc_size n)"
  using reads_nat[of n 8 V_indet] by (simp add: i_size_tag_def[abs_def])

lemma length_enc_block: "list_all (is_num w) vs \<Longrightarrow> length (concat (map (enc_num w) vs)) = length vs * w"
  by (induction vs) (auto simp: is_num_def enc_num_def split: cval.splits)

lemma fill_block_enc:
  "list_all (is_num w) vs \<Longrightarrow> length olds = length vs \<Longrightarrow> fill_block w olds (concat (map (enc_num w) vs)) = vs"
proof (induction vs arbitrary: olds)
  case Nil
  then show ?case by simp
next
  case (Cons v vs)
  then obtain o1 os where olds: "olds = o1 # os" by (cases olds) auto
  obtain x where x: "v = V_num x" "x < 256 ^ w"
    using Cons.prems(1) by (auto simp: is_num_def split: cval.splits)
  have "fill_num w o1 (enc_num w v) = v" using x by (simp add: fill_num_def enc_num_def)
  moreover have "length (enc_num w v) = w" by (simp add: x enc_num_def)
  ultimately show ?case using Cons by (simp add: olds)
qed

lemma reads_block:
  assumes "list_all (is_num w) vs" "length olds = length vs"
  shows "reads (i_block w olds) vs (concat (map (enc_num w) vs))"
  unfolding reads_def
proof (intro allI impI)
  fix b rest assume b: "ibuf_ok b" "i_content b = concat (map (enc_num w) vs) @ rest"
  show "\<exists>b'. i_block w olds b = Inr (length (concat (map (enc_num w) vs)), vs, b') \<and> ibuf_ok b' \<and>
      i_content b' = rest"
    using i_read_exact[OF b, unfolded length_enc_block[OF assms(1)]] fill_block_enc[OF assms]
      length_enc_block[OF assms(1)]
    by (auto simp: i_block_def assms(2) nat_mult_distrib)
qed

lemma reads_items:
  assumes "length olds = length vs" "\<And>x old. x \<in> set vs \<Longrightarrow> reads (f old) x (g x)"
  shows "reads (i_items f olds) vs (concat (map g vs))"
  using assms
proof (induction vs arbitrary: olds)
  case Nil
  have "i_items f [] = (\<lambda>b. Inr (0, [], b))" by (rule ext) simp
  with Nil show ?case by (simp add: reads_nothing)
next
  case (Cons v vs)
  then obtain o1 os where olds: "olds = o1 # os" by (cases olds) auto
  have "i_items f olds = (\<lambda>b. then_r (f o1 b) (\<lambda>y b. map_r (\<lambda>ys. Inr (y # ys)) (i_items f os b)))"
    by (rule ext) (simp add: olds)
  moreover have "reads (i_items f os) vs (concat (map g vs))" using Cons olds by simp
  then have "reads (\<lambda>b. map_r (\<lambda>ys. Inr (v # ys)) (i_items f os b)) (v # vs) (concat (map g vs))"
    by (rule reads_map) simp
  ultimately show ?case
    using reads_then[where f = "f o1" and x = v and xs = "g v"] Cons.prems(2)[of v o1] by simp
qed

text \<open>The filling loops: what is inserted in the order of the container ends up in that order.\<close>

lemma reads_emplace:
  assumes "\<And>x old. x \<in> set xs \<Longrightarrow> reads (f old) x (g x)" "list_all determinate xs"
    and "\<And>ys x zs. xs = ys @ x # zs \<Longrightarrow> ins x (es @ ys) = es @ ys @ [x]"
  shows "reads (i_emplace f ins mv (length xs) old es) (es @ xs) (concat (map g xs))"
  using assms
proof (induction xs arbitrary: old es)
  case Nil
  have "i_emplace f ins mv 0 old es = (\<lambda>b. Inr (0, es, b))" by (rule ext) simp
  then show ?case by (simp add: reads_nothing)
next
  case (Cons x xs)
  have ins: "ins x es = es @ [x]" using Cons.prems(3)[of "[]" x xs] by simp
  have "i_emplace f ins mv (length (x # xs)) old es =
      (\<lambda>b. then_r (map_r use_val (f old b)) (\<lambda>y b. i_emplace f ins mv (length xs) (mv y) (ins y es) b))"
    by (rule ext) simp
  moreover have "reads (\<lambda>b. map_r use_val (f old b)) x (g x)"
    using Cons.prems by (intro reads_map[where x = x]) (simp_all add: use_val_def)
  moreover have "reads (i_emplace f ins mv (length xs) (mv x) (ins x es)) (es @ x # xs) (concat (map g xs))"
    using Cons.IH[of "es @ [x]" "mv x"] Cons.prems(1,2) Cons.prems(3)[of "x # ys" for ys] ins by simp
  ultimately show ?case by (simp add: reads_then)
qed

lemma emplace_hint_last:
  "(\<And>y. y \<in> set ys \<Longrightarrow> lt (key_of y) (key_of x)) \<Longrightarrow> emplace_hint lt x ys = ys @ [x]"
  by (induction ys) auto

lemma emplace_hint_ascending:
  "ascending C xs \<Longrightarrow> xs = ys @ x # zs \<Longrightarrow> emplace_hint (c_less C) x ([] @ ys) = [] @ ys @ [x]"
  by (auto simp: ascending_def sorted_wrt_append intro!: emplace_hint_last)

lemma emplace_hash_fresh:
  "no_duplicates C xs \<Longrightarrow> xs = ys @ x # zs \<Longrightarrow> emplace_hash (c_equal C) x ([] @ ys) = [] @ ys @ [x]"
  by (auto simp: no_duplicates_def sorted_wrt_append emplace_hash_def list_ex_iff)

lemmas i_archive_fun = i_archive.simps[abs_def] i_alt.simps[abs_def] i_fields.simps[abs_def]

lemma wt_fields_Nil [simp]: "wt_fields C [] vs \<longleftrightarrow> vs = []"
  by (cases vs) simp_all

lemma wt_fields_to_Nil [simp]: "wt_fields C ts [] \<longleftrightarrow> ts = []"
  by (cases ts) simp_all

lemma is_num_determinate: "is_num w v \<Longrightarrow> determinate v"
  by (auto simp: is_num_def split: cval.splits)

lemma wt_entry_determinate:
  assumes "wt_entry pk pv e" "\<And>k v. e = V_pair k v \<Longrightarrow> pk k \<Longrightarrow> determinate k"
    and "\<And>k v. e = V_pair k v \<Longrightarrow> pv v \<Longrightarrow> determinate v"
  shows "determinate e"
  using assms by (auto simp: wt_entry_def split: cval.splits)

lemma wt_determinate:
  "wt C t v \<Longrightarrow> determinate v"
  "wt_alt C ts i x \<Longrightarrow> determinate x"
  "wt_fields C ts vs \<Longrightarrow> list_all determinate vs"
proof (induction t v and ts i x and ts vs rule: enc_enc_alt_enc_fields.induct)
qed (auto simp: list_all_iff elems_def intro: is_num_determinate wt_entry_determinate split: cval.splits)

lemma wt_determinate_list: "list_all (wt C t) xs \<Longrightarrow> list_all determinate xs"
  by (auto simp: list_all_iff intro: wt_determinate)

lemma wt_determinate_entries: "list_all (wt_entry (wt C k) (wt C t)) es \<Longrightarrow> list_all determinate es"
  by (auto simp: list_all_iff intro: wt_entry_determinate wt_determinate)

lemma reads_list: "reads f xs bs \<Longrightarrow> reads (\<lambda>b. map_r (\<lambda>ys. Inr (V_list ys)) (f b)) (V_list xs) bs"
  by (rule reads_map) simp_all

text \<open>A container: its size, then its elements into the resized target.\<close>

lemma reads_resized:
  assumes n: "size_ok C (length xs)" and f: "\<And>olds. length olds = length xs \<Longrightarrow> reads (f olds) xs bs"
  shows "reads (\<lambda>b. then_r (i_size_tag b) (\<lambda>n b. bind_r (resize_to C d n olds0) (\<lambda>ys.
       map_r (\<lambda>zs. Inr (V_list zs)) (f ys b)))) (V_list xs) (enc_size (length xs) @ bs)"
proof (rule reads_then)
  show "reads i_size_tag (length xs) (enc_size (length xs))"
    using n by (intro reads_size) (simp add: size_ok_def)
  define ys where "ys = take (length xs) olds0 @ replicate (length xs - length olds0) d"
  have ys: "resize_to C d (length xs) olds0 = Inr ys" "length ys = length xs"
    using n by (simp_all add: resize_to_def size_ok_def ys_def)
  show "reads (\<lambda>b. bind_r (resize_to C d (length xs) olds0) (\<lambda>ys. map_r (\<lambda>zs. Inr (V_list zs)) (f ys b)))
      (V_list xs) bs"
    using reads_list[OF f[OF ys(2)]] by (simp add: ys(1))
qed

lemma reads_entry:
  assumes "wt_entry pk pv e" "\<And>k v old. e = V_pair k v \<Longrightarrow> pk k \<Longrightarrow> reads (fk old) k (gk k)"
    and "\<And>k v old. e = V_pair k v \<Longrightarrow> pv v \<Longrightarrow> reads (fv old) v (gv v)"
  shows "reads (i_entry fk fv e0) e (case e of V_pair x y \<Rightarrow> gk x @ gv y | _ \<Rightarrow> [])"
proof -
  from assms(1) obtain k v where e: "e = V_pair k v" "pk k" "pv v"
    by (auto simp: wt_entry_def split: cval.splits)
  have "i_entry fk fv e0 =
      (\<lambda>b. then_r (fk (key_of e0) b) (\<lambda>k b. map_r (\<lambda>v. Inr (V_pair k v)) (fv (value_of e0) b)))"
    by (rule ext) (simp add: i_entry_def)
  moreover have "reads (\<lambda>b. map_r (\<lambda>v. Inr (V_pair k v)) (fv (value_of e0) b)) (V_pair k v) (gv v)"
    using assms(3)[OF e(1,3)] by (rule reads_map) simp
  ultimately show ?thesis using reads_then[OF assms(2)[OF e(1,2)]] e(1) by simp
qed

text \<open>Sets and maps: the size, then the filling loop.\<close>

lemma reads_filled:
  assumes n: "length xs < 256 ^ 8" and det: "list_all determinate xs"
    and f: "\<And>x old. x \<in> set xs \<Longrightarrow> reads (f old) x (g x)"
    and ins: "\<And>ys x zs. xs = ys @ x # zs \<Longrightarrow> ins x ([] @ ys) = [] @ ys @ [x]"
  shows "reads (\<lambda>b. then_r (i_size_tag b) (\<lambda>n b. map_r (\<lambda>ys. Inr (V_list ys)) (i_emplace f ins mv n old [] b)))
     (V_list xs) (enc_size (length xs) @ concat (map g xs))"
proof (rule reads_then[OF reads_size[OF n]])
  show "reads (\<lambda>b. map_r (\<lambda>ys. Inr (V_list ys)) (i_emplace f ins mv (length xs) old [] b)) (V_list xs)
      (concat (map g xs))"
    using reads_list[OF reads_emplace[of xs f g ins "[]" mv old, OF f det ins]] by simp
qed

lemma reads_filled_limited:
  assumes "size_ok C (length xs)" "list_all determinate xs"
    and "\<And>x old. x \<in> set xs \<Longrightarrow> reads (f old) x (g x)"
    and "\<And>ys x zs. xs = ys @ x # zs \<Longrightarrow> ins x ([] @ ys) = [] @ ys @ [x]"
  shows "reads (\<lambda>b. then_r (i_size_tag b) (\<lambda>n b.
       if c_max C < n then Inl (Runtime_error ''length_error'')
       else map_r (\<lambda>ys. Inr (V_list ys)) (i_emplace f ins mv n old [] b)))
     (V_list xs) (enc_size (length xs) @ concat (map g xs))"
proof (rule reads_then)
  show "reads i_size_tag (length xs) (enc_size (length xs))"
    using assms(1) by (intro reads_size) (simp add: size_ok_def)
  show "reads (\<lambda>b. if c_max C < length xs then Inl (Runtime_error ''length_error'')
       else map_r (\<lambda>ys. Inr (V_list ys)) (i_emplace f ins mv (length xs) old [] b)) (V_list xs)
     (concat (map g xs))"
    using assms(1) reads_list[OF reads_emplace[of xs f g ins "[]" mv old, OF assms(3,2,4)]]
    by (simp add: size_ok_def)
qed

text \<open>The flag of a pointer or an optional value.\<close>

lemma reads_flag:
  assumes "n < 2" "reads (f n) v bs"
  shows "reads (\<lambda>b. then_r (map_r use_num (i_num 1 old b)) f) v (of_nat n # bs)"
proof -
  have n: "n < 256 ^ 1" using assms(1) by simp
  have "reads (\<lambda>b. then_r (map_r use_num (i_num 1 old b)) f) v (le_bytes 1 n @ bs)"
    by (rule reads_then[OF reads_nat[OF n]]) (rule assms(2))
  then show ?thesis by simp
qed

lemma reads_error_code:
  assumes "c \<noteq> Cat_other" "n < 256 ^ 4"
  shows "reads (\<lambda>b. then_r (map_r use_num (i_num 4 V_indet b)) (\<lambda>c b.
       map_r (\<lambda>v. bind_r (to_error_category c) (\<lambda>c. bind_r (use_num v) (\<lambda>v. Inr (V_errc c v))))
         (i_num 4 V_indet b)))
     (V_errc c n) ((case category_index c of Inl a \<Rightarrow> [] | Inr x \<Rightarrow> le_bytes 4 x) @ le_bytes 4 n)"
proof -
  obtain i where i: "category_index c = Inr i" "to_error_category i = Inr c" "i < 256 ^ 4"
    using assms(1) by (cases c) (simp_all add: category_index_def to_error_category_def)
  have "reads (\<lambda>b. map_r (\<lambda>v. bind_r (to_error_category i) (\<lambda>c. bind_r (use_num v) (\<lambda>v. Inr (V_errc c v))))
      (i_num 4 V_indet b)) (V_errc c n) (le_bytes 4 n)"
    by (rule reads_map[OF reads_V_num[OF assms(2)]]) (simp add: i(2) use_num_def)
  note second = this
  have "(case category_index c of Inl a \<Rightarrow> [] | Inr x \<Rightarrow> le_bytes 4 x) = le_bytes 4 i" by (simp add: i(1))
  then show ?thesis using second by (simp only:) (rule reads_then[OF reads_nat[OF i(3)]])
qed

lemma reads_matrix:
  assumes v: "r < 2 ^ 63" "c < 2 ^ 63" "r * c = length xs" "length xs \<le> c_max C" "list_all (is_num w) xs"
  shows "reads (\<lambda>b. then_r (map_r use_num (i_num 8 (V_num r0) b)) (\<lambda>r b.
     then_r (map_r use_num (i_num 8 (V_num c0) b)) (\<lambda>c b.
       bind_r (resize_matrix C r c xs0) (\<lambda>xs. map_r (\<lambda>ys. Inr (V_matrix r c ys)) (i_block w xs b)))))
     (V_matrix r c xs) (le_bytes 8 r @ le_bytes 8 c @ concat (map (enc_num w) xs))"
proof -
  have small: "r < 256 ^ 8" "c < 256 ^ 8" using v(1,2) by simp_all
  obtain ys where ys: "resize_matrix C r c xs0 = Inr ys" "length ys = length xs"
    using v by (cases "length xs = length xs0") (auto simp: resize_matrix_def)
  have "reads (\<lambda>b. bind_r (resize_matrix C r c xs0) (\<lambda>xs. map_r (\<lambda>ys. Inr (V_matrix r c ys)) (i_block w xs b)))
      (V_matrix r c xs) (concat (map (enc_num w) xs))"
    using reads_map[OF reads_block[OF v(5) ys(2)], of "\<lambda>ys. Inr (V_matrix r c ys)"] by (simp add: ys(1))
  note third = this
  show ?thesis
  proof (rule reads_then[OF reads_nat[OF small(1)]])
    show "reads (\<lambda>b. then_r (map_r use_num (i_num 8 (V_num c0) b)) (\<lambda>c b.
         bind_r (resize_matrix C r c xs0) (\<lambda>xs. map_r (\<lambda>ys. Inr (V_matrix r c ys)) (i_block w xs b))))
       (V_matrix r c xs) (le_bytes 8 c @ concat (map (enc_num w) xs))"
      by (rule reads_then[OF reads_nat[OF small(2)]]) (rule third)
  qed
qed

lemma length_old_elems [simp]: "length (old_elems n t v) = n"
  by (simp add: old_elems_def)

text \<open>The facts an element type brings, for all elements of a container.\<close>

lemma reads_archive:
  "wt C t v \<Longrightarrow> reads (i_archive C t old) v (enc t v)"
  "wt_alt C ts i x \<Longrightarrow> i < length ts \<and> reads (i_alt C ts i old) x (enc_alt ts i x)"
  "wt_fields C ts vs \<Longrightarrow> reads (i_fields C ts olds) vs (enc_fields ts vs)"
proof (induction t v and ts i x and ts vs arbitrary: old and old and olds
    rule: enc_enc_alt_enc_fields.induct)
  case (1 w v)
  then show ?case using reads_num by (simp add: i_archive_fun)
next
  case (2 w v)
  then have "is_num w v" by simp
  from reads_map[OF reads_num[OF this], of use_val v V_indet] is_num_determinate[OF this] show ?case
    by (simp add: i_archive_fun use_val_def)
next
  case (3 w v)
  then obtain xs where v: "v = V_list xs" "size_ok C (length xs)" "list_all (is_num w) xs"
    by (auto split: cval.splits)
  show ?case using reads_resized[OF v(2) reads_block[OF v(3)]] by (simp add: i_archive_fun v(1))
next
  case (4 t v)
  then obtain xs where v: "v = V_list xs" "size_ok C (length xs)" "list_all (wt C t) xs"
    by (auto split: cval.splits)
  show ?case
  proof (cases "is_arithmetic t")
    case None
    have "reads (i_items (i_archive C t) olds) xs (concat (map (enc t) xs))" if "length olds = length xs" for olds
      using 4 v that by (intro reads_items) (simp_all add: list_all_iff)
    from reads_resized[OF v(2) this] None show ?thesis by (simp add: i_archive_fun v(1))
  next
    case (Some w)
    then have t: "t = T_num w" by (simp add: is_arithmetic_Some)
    then have "list_all (is_num w) xs" using v(3) by simp
    from reads_resized[OF v(2) reads_block[OF this]] show ?thesis by (simp add: i_archive_fun v(1) t)
  qed
next
  case (5 t v)
  then obtain xs where v: "v = V_list xs" "size_ok C (length xs)" "list_all (wt C t) xs"
    by (auto split: cval.splits)
  have "reads (i_items (i_archive C t) olds) xs (concat (map (enc t) xs))" if "length olds = length xs" for olds
    using 5 v that by (intro reads_items) (simp_all add: list_all_iff)
  from reads_resized[OF v(2) this] show ?case by (simp add: i_archive_fun v(1))
next
  case (6 k t v)
  then obtain es where v: "v = V_list es" "length es < 256 ^ 8" "list_all (wt_entry (wt C k) (wt C t)) es"
      "ascending C es"
    by (auto simp: size_ok_def split: cval.splits)
  have "reads (i_entry (i_archive C k) (i_archive C t) old0) e
      (case e of V_pair x y \<Rightarrow> enc k x @ enc t y | _ \<Rightarrow> [])" if "e \<in> set es" for e old0
    using 6 v(1,3) that by (intro reads_entry[where pk = "wt C k" and pv = "wt C t"]) (auto simp: list_all_iff)
  from reads_filled[OF v(2) wt_determinate_entries[OF v(3)] this emplace_hint_ascending[OF v(4)]]
  show ?case by (simp add: i_archive_fun v(1))
next
  case (7 k t v)
  then obtain es where v: "v = V_list es" "size_ok C (length es)" "list_all (wt_entry (wt C k) (wt C t)) es"
      "no_duplicates C es"
    by (auto split: cval.splits)
  have "reads (i_entry (i_archive C k) (i_archive C t) old0) e
      (case e of V_pair x y \<Rightarrow> enc k x @ enc t y | _ \<Rightarrow> [])" if "e \<in> set es" for e old0
    using 7 v(1,3) that by (intro reads_entry[where pk = "wt C k" and pv = "wt C t"]) (auto simp: list_all_iff)
  from reads_filled_limited[OF v(2) wt_determinate_entries[OF v(3)] this emplace_hash_fresh[OF v(4)]]
  show ?case by (simp add: i_archive_fun v(1))
next
  case (8 t v)
  then obtain xs where v: "v = V_list xs" "length xs < 256 ^ 8" "list_all (wt C t) xs" "ascending C xs"
    by (auto simp: size_ok_def split: cval.splits)
  have "reads (i_archive C t old0) x (enc t x)" if "x \<in> set xs" for x old0
    using 8 v(1,3) that by (auto simp: list_all_iff)
  from reads_filled[OF v(2) wt_determinate_list[OF v(3)] this emplace_hint_ascending[OF v(4)]]
  show ?case by (simp add: i_archive_fun v(1))
next
  case (9 t v)
  then obtain xs where v: "v = V_list xs" "size_ok C (length xs)" "list_all (wt C t) xs" "no_duplicates C xs"
    by (auto split: cval.splits)
  have "reads (i_archive C t old0) x (enc t x)" if "x \<in> set xs" for x old0
    using 9 v(1,3) that by (auto simp: list_all_iff)
  from reads_filled_limited[OF v(2) wt_determinate_list[OF v(3)] this emplace_hash_fresh[OF v(4)]]
  show ?case by (simp add: i_archive_fun v(1))
next
  case (10 n t v)
  then obtain xs where v: "v = V_list xs" "length xs = n" "list_all (wt C t) xs" by (auto split: cval.splits)
  show ?case
  proof (cases "is_arithmetic t")
    case None
    have "reads (i_items (i_archive C t) (old_elems n t old)) xs (concat (map (enc t) xs))"
      using 10 v by (intro reads_items) (simp_all add: list_all_iff)
    from reads_list[OF this] None show ?thesis by (simp add: i_archive_fun v(1))
  next
    case (Some w)
    then have t: "t = T_num w" by (simp add: is_arithmetic_Some)
    then have "list_all (is_num w) xs" using v(3) by simp
    from reads_list[OF reads_block[OF this]] v(2) show ?thesis by (simp add: i_archive_fun v(1) t)
  qed
next
  case (11 ts v)
  then obtain i x where v: "v = V_variant i x" "i < 256 ^ 8" "wt_alt C ts i x" by (auto split: cval.splits)
  have x: "i < length ts" "reads (i_alt C ts i (old_alt ts i old)) x (enc_alt ts i x)"
    using 11 v by auto
  have "reads (\<lambda>b. then_r (i_size_tag b) (\<lambda>i b.
       if i < length ts then map_r (\<lambda>y. Inr (V_variant i y)) (i_alt C ts i (old_alt ts i old) b)
       else Inr (0, old, b))) v (enc_size i @ enc_alt ts i x)"
    using reads_map[OF x(2), of "\<lambda>y. Inr (V_variant i y)"] x(1) v(1)
    by (intro reads_then[OF reads_size[OF v(2)]]) simp
  then show ?case by (simp add: i_archive_fun v(1))
next
  case (12 t v)
  show ?case
  proof (cases "v = V_none")
    case True
    then show ?thesis
      using reads_flag[of 0 _ V_none "[]" V_indet] reads_nothing[of V_none] by (simp add: i_archive_fun)
  next
    case False
    with 12 obtain x where v: "v = V_some x" "wt C t x" by (auto split: cval.splits)
    have "reads (i_archive C t (default_val t)) x (enc t x)" using 12 v by auto
    from reads_map[OF this, of "\<lambda>y. Inr (V_some y)"] show ?thesis
      using reads_flag[of 1 _ v "enc t x" V_indet] by (simp add: i_archive_fun v(1))
  qed
next
  case (13 v)
  then show ?case using reads_error_code by (auto simp: i_archive_fun split: cval.splits)
next
  case (14 t v)
  then have "wt C t v" by simp
  with 14 reads_map[of "i_archive C t (indet_val t)" v "enc t v" use_val v] wt_determinate(1)[of C t v]
  show ?case by (simp add: i_archive_fun use_val_def)
next
  case (15 t v)
  then have "wt C t v" by simp
  with 15 reads_map[of "i_archive C t (indet_val t)" v "enc t v" use_val v] wt_determinate(1)[of C t v]
  show ?case by (simp add: i_archive_fun use_val_def)
next
  case (16 t v)
  show ?case
  proof (cases "v = V_none")
    case True
    then show ?thesis
      using reads_flag[of 0 _ V_none "[]" V_indet] reads_nothing[of V_none] by (simp add: i_archive_fun)
  next
    case False
    with 16 obtain x where v: "v = V_some x" "wt C t x" by (auto split: cval.splits)
    have "reads (i_archive C t (old_some t old)) x (enc t x)" using 16 v by auto
    from reads_map[OF this, of "\<lambda>y. Inr (V_some y)"] show ?thesis
      using reads_flag[of 1 _ v "enc t x" V_indet] by (simp add: i_archive_fun v(1))
  qed
next
  case (18 w v)
  then show ?case using reads_matrix by (auto simp: i_archive_fun split: cval.splits)
next
  case (23 t ts v vs)
  let ?old = "case olds of [] \<Rightarrow> default_val t | v # _ \<Rightarrow> v"
  have hd: "reads (i_archive C t ?old) v (enc t v)"
    and tl: "reads (i_fields C ts (drop 1 olds)) vs (enc_fields ts vs)"
    using 23 by simp_all
  have "reads (\<lambda>b. then_r (i_archive C t ?old b) (\<lambda>y b. map_r (\<lambda>ys. Inr (y # ys)) (i_fields C ts (drop 1 olds) b)))
      (v # vs) (enc t v @ enc_fields ts vs)"
    by (rule reads_then[OF hd]) (rule reads_map[OF tl], simp)
  then show ?case by (simp add: i_archive_fun)
qed (use reads_list reads_nothing in \<open>auto simp: i_archive_fun split: cval.splits\<close>)

section \<open>Packages\<close>

text \<open>A message: its size in bytes, with the eight bytes of the size itself, then its values. The size
  is archived before it is known and overwritten in the buffer afterwards; \<open>junk\<close> is what the
  uninitialized variable holds.\<close>

definition o_archives :: "cty list \<Rightarrow> cval list \<Rightarrow> obuf \<Rightarrow> (nat \<times> obuf) result" where
  "o_archives ts vs b = o_fields ts vs b"

definition o_package :: "nat \<Rightarrow> cty list \<Rightarrow> cval list \<Rightarrow> obuf \<Rightarrow> (nat \<times> obuf) result" where
  "o_package junk ts vs b =
     bind_r (o_archives (T_num 8 # ts) (V_num junk # vs) b) (\<lambda>(sz, b).
     bind_r (blit (o_pptr b - sz) (le_bytes 8 sz) (mem b)) (\<lambda>m.
       Inr (sz, set_mem m b)))"

definition i_archives :: "cxx \<Rightarrow> cty list \<Rightarrow> cval list \<Rightarrow> ibuf \<Rightarrow> (cval list, ibuf) reading" where
  "i_archives C ts olds b = i_fields C ts olds b"

text \<open>The size in front of the buffer is compared as a signed number.\<close>

definition i_ready :: "ibuf \<Rightarrow> bool" where
  "i_ready b \<longleftrightarrow> 8 \<le> i_avail b \<and>
     (let x = of_le (take 8 (drop (i_gptr b) (mem b)))
      in (if x < 2 ^ 63 then int x else int x - 2 ^ 64) \<le> int (i_avail b))"

definition i_package :: "cxx \<Rightarrow> cty list \<Rightarrow> cval list \<Rightarrow> ibuf \<Rightarrow> (int \<times> cval list \<times> ibuf) result" where
  "i_package C ts olds b =
     (if i_ready b
      then bind_r (i_archives C (T_num 8 # ts) (V_num (i_avail b) # olds) b) (\<lambda>(n, vs, b).
             Inr (int n, tl vs, b))
      else Inr (- 1, olds, b))"

definition package_bytes :: "cty list \<Rightarrow> cval list \<Rightarrow> u8 list" where
  "package_bytes ts vs = le_bytes 8 (8 + length (enc_fields ts vs)) @ enc_fields ts vs"

lemma length_package_bytes [simp]: "length (package_bytes ts vs) = 8 + length (enc_fields ts vs)"
  by (simp add: package_bytes_def del: le_bytes.simps)

lemma slice_patched:
  assumes "a \<le> off" "off + length bs \<le> e" "e \<le> length m"
  shows "slice a e (take off m @ bs @ drop (off + length bs) m) =
    slice a off m @ bs @ slice (off + length bs) e m"
proof -
  let ?m = "take off m @ bs @ drop (off + length bs) m"
  have "slice a e ?m = slice a (off + length bs) ?m @ slice (off + length bs) e ?m"
    using assms by (intro slice_split) simp_all
  also have "slice a (off + length bs) ?m = slice a off m @ bs"
    using assms by (intro slice_after_blit) simp_all
  also have "slice (off + length bs) e ?m = slice (off + length bs) e m"
    using assms by (simp add: slice_def min_absorb2)
  finally show ?thesis by simp
qed

lemma o_package_ok:
  assumes wt: "wt_fields C ts vs" and ok: "obuf_ok b"
    and small: "2 * (o_avail b + length (package_bytes ts vs)) < malloc_limit"
  shows "\<exists>b'. o_package junk ts vs b = Inr (length (package_bytes ts vs), b') \<and> obuf_ok b' \<and>
    o_content b' = o_content b @ package_bytes ts vs"
proof -
  define n where "n = 8 + length (enc_fields ts vs)"
  have o_num: "o_num 8 (V_num junk) = o_write (le_bytes 8 junk)"
    by (rule ext) (simp add: o_num_def num_bytes_def del: le_bytes.simps)
  have "writes (\<lambda>b. plus_w (o_num 8 (V_num junk) b) (o_fields ts vs)) (le_bytes 8 junk @ enc_fields ts vs)"
    unfolding o_num by (intro writes_plus writes_bytes writes_archive(3)[OF wt])
  from writesD[OF this ok] small obtain c where
    c: "plus_w (o_num 8 (V_num junk) b) (o_fields ts vs) = Inr (n, c)" "obuf_ok c"
      "o_content c = o_content b @ le_bytes 8 junk @ enc_fields ts vs"
    by (auto simp: n_def simp del: le_bytes.simps)
  define off where "off = o_pptr c - n"
  note okc = obuf_okD[OF c(2)]
  have av: "o_avail c = o_avail b + n"
    using length_o_content[OF c(2)] length_o_content[OF ok] c(3) by (simp add: n_def del: le_bytes.simps)
  have off: "o_pbase c + o_avail b = off" "off + n = o_pptr c" "8 \<le> n"
    using av okc(2) by (auto simp: off_def o_avail_def n_def)
  define m where "m = take off (mem c) @ le_bytes 8 n @ drop (off + 8) (mem c)"
  have m: "blit off (le_bytes 8 n) (mem c) = Inr m" "length m = length (mem c)"
    using off okc(3,4) by (auto simp: blit_def m_def simp del: le_bytes.simps)
  have "o_package junk ts vs b = Inr (n, set_mem m c)"
    using c(1) m(1) by (simp add: o_package_def o_archives_def off_def)
  moreover have "obuf_ok (set_mem m c)" using okc m(2) by (simp add: obuf_ok_def store_ok_set_mem)
  moreover have "o_content (set_mem m c) = o_content b @ package_bytes ts vs"
  proof -
    have "slice (o_pbase c) off (mem c) = take (o_avail b) (o_content c)"
      unfolding o_content_def[of c] using take_slice[of "o_avail b" "o_pptr c" "o_pbase c" "mem c"] av off(1)
      by (simp add: o_avail_def)
    moreover have "slice (off + 8) (o_pptr c) (mem c) = drop (o_avail b + 8) (o_content c)"
      unfolding o_content_def[of c] using drop_slice[of "o_pbase c" "o_avail b + 8" "o_pptr c" "mem c"] off
      by (simp add: add.assoc[symmetric])
    moreover have "o_content (set_mem m c) =
        slice (o_pbase c) off (mem c) @ le_bytes 8 n @ slice (off + 8) (o_pptr c) (mem c)"
      using slice_patched[of "o_pbase c" off "le_bytes 8 n" "o_pptr c" "mem c"] off okc(3,4)
      by (simp add: o_content_def m_def del: le_bytes.simps)
    ultimately show ?thesis
      using length_o_content[OF ok] c(3) by (simp add: package_bytes_def n_def del: le_bytes.simps)
  qed
  ultimately show ?thesis by (auto simp: n_def)
qed

lemma i_package_reads:
  assumes r: "reads (i_fields C ts olds) vs bs" and ok: "ibuf_ok b"
    and c: "i_content b = le_bytes 8 (8 + length bs) @ bs @ rest" and small: "8 + length bs < 2 ^ 63"
  shows "\<exists>b'. i_package C ts olds b = Inr (int (8 + length bs), vs, b') \<and> ibuf_ok b' \<and> i_content b' = rest"
proof -
  define n where "n = 8 + length bs"
  have n: "n < 2 ^ 63" "n < 256 ^ 8" using small by (simp_all add: n_def)
  have front: "take 8 (drop (i_gptr b) (mem b)) = le_bytes 8 n"
    if "8 \<le> i_avail b"
    using i_copy_content[OF ok, of 8] that c
    by (simp add: i_copy_def min_def n_def del: le_bytes.simps split: if_splits)
  have "i_avail b = n + length rest"
    using length_i_content[OF ok] c by (simp add: n_def)
  then have "i_ready b"
    using front n by (simp add: i_ready_def n_def del: le_bytes.simps)
  moreover have "reads (i_fields C (T_num 8 # ts) (V_num (i_avail b) # olds)) (V_num n # vs) (le_bytes 8 n @ bs)"
    unfolding i_archive_fun using reads_V_num[OF n(2)] r
    by (auto simp del: le_bytes.simps intro!: reads_then reads_map)
  ultimately show ?thesis
    using readsD[OF _ ok] c by (fastforce simp: i_package_def i_archives_def n_def simp del: le_bytes.simps)
qed

lemma i_package_ok:
  assumes wt: "wt_fields C ts vs" and ok: "ibuf_ok b" and c: "i_content b = package_bytes ts vs @ rest"
    and small: "length (package_bytes ts vs) < 2 ^ 63"
  shows "\<exists>b'. i_package C ts olds b = Inr (int (length (package_bytes ts vs)), vs, b') \<and> ibuf_ok b' \<and>
    i_content b' = rest"
  using i_package_reads[OF reads_archive(3)[OF wt] ok, of rest] c small
  by (simp add: package_bytes_def del: le_bytes.simps)

text \<open>A strict prefix of a package is left alone.\<close>

lemma i_package_waits:
  assumes ok: "ibuf_ok b" and c: "package_bytes ts vs = i_content b @ rest" "rest \<noteq> []"
    and small: "length (package_bytes ts vs) < 2 ^ 63"
  shows "i_package C ts olds b = Inr (- 1, olds, b)"
proof -
  define n where "n = 8 + length (enc_fields ts vs)"
  have n: "n < 2 ^ 63" "n < 256 ^ 8" using small by (simp_all add: n_def)
  have lt: "i_avail b < n"
    using length_i_content[OF ok] arg_cong[OF c(1), of length] c(2) by (cases rest) (auto simp: n_def)
  have "\<not> i_ready b"
  proof (cases "8 \<le> i_avail b")
    case False
    then show ?thesis by (simp add: i_ready_def)
  next
    case True
    have "take 8 (i_content b) = take 8 (package_bytes ts vs)"
      using c(1) True length_i_content[OF ok] by simp
    then have "take 8 (drop (i_gptr b) (mem b)) = le_bytes 8 n"
      using i_copy_content[OF ok, of 8] True
      by (simp add: i_copy_def min_def package_bytes_def n_def del: le_bytes.simps split: if_splits)
    then show ?thesis using n lt by (simp add: i_ready_def del: le_bytes.simps)
  qed
  then show ?thesis by (simp add: i_package_def)
qed

section \<open>Properties\<close>

text \<open>Keys that are numbers, compared as such; a string, an optional number and a sorted map, as a user
  type archives them.\<close>

definition example_cxx :: cxx where
  "example_cxx = \<lparr>c_less = (\<lambda>x y. case x of V_num a \<Rightarrow> (case y of V_num b \<Rightarrow> a < b | _ \<Rightarrow> False) | _ \<Rightarrow> False),
     c_equal = (=), c_moved = (\<lambda>v. v), c_max = 1000\<rparr>"

definition example_type :: cty where
  "example_type = T_class [T_string 1, T_optional (T_num 4), T_map (T_num 2) (T_vector (T_num 1))] []"

definition example_value :: cval where
  "example_value = V_list [V_list [V_num 104, V_num 105], V_some (V_num 258),
     V_list [V_pair (V_num 1) (V_list [V_num 7]), V_pair (V_num 300) (V_list [])]]"

lemma example_wt: "wt example_cxx example_type example_value"
  by (simp add: example_cxx_def example_type_def example_value_def is_num_def size_ok_def wt_entry_def
      ascending_def key_of_def)

lemma example_length: "length (enc example_type example_value) = 44"
  by (simp add: example_type_def example_value_def enc_num_def)

text \<open>C19: Writing is encoding. Archiving any well-typed value succeeds, returns the size of its
  encoding and appends exactly these bytes to the buffer, for every supported type, however the code
  splits them into writes.\<close>

theorem archive_encodes:
  assumes "wt C t v" "obuf_ok b" "2 * (o_avail b + length (enc t v)) < malloc_limit"
  shows "\<exists>b'. o_archive t v b = Inr (length (enc t v), b') \<and> obuf_ok b' \<and>
    o_content b' = o_content b @ enc t v"
  using writesD[OF writes_archive(1)[OF assms(1)] assms(2,3)] .

theorem archive_encodes_witness:
  "\<exists>b'. o_archive example_type example_value (mk_obuf True False) = Inr (44, b') \<and>
     o_content b' = enc example_type example_value"
proof -
  have "2 * (o_avail (mk_obuf True False) + length (enc example_type example_value)) < malloc_limit"
    by (simp add: example_length o_avail_def mk_obuf_def malloc_limit_def)
  from archive_encodes[OF example_wt mk_obuf_ok(1) this] show ?thesis
    by (auto simp: example_length mk_obuf_ok(2))
qed

text \<open>C16: Serialization round trip. The bytes that archiving a well-typed value appends to an output
  buffer, at the front of any input buffer, are read back as the same value, whatever the target held
  before, and exactly these bytes are consumed.\<close>

theorem archive_roundtrip:
  assumes "wt C t v" "obuf_ok ob" "2 * (o_avail ob + length (enc t v)) < malloc_limit"
  shows "\<exists>ob' bs. o_archive t v ob = Inr (length bs, ob') \<and> o_content ob' = o_content ob @ bs \<and>
    (\<forall>old ib rest. ibuf_ok ib \<longrightarrow> i_content ib = bs @ rest \<longrightarrow>
       (\<exists>ib'. i_archive C t old ib = Inr (length bs, v, ib') \<and> ibuf_ok ib' \<and> i_content ib' = rest))"
  using writesD[OF writes_archive(1)[OF assms(1)] assms(2,3)] readsD[OF reads_archive(1)[OF assms(1)]]
  by blast

theorem archive_roundtrip_witness:
  "\<exists>ob ib ob' ib'. o_archive example_type example_value (mk_obuf True False) = Inr (44, ob) \<and>
     ibuf_of_move ob = Inr (ib, ob') \<and>
     i_archive example_cxx example_type (V_list []) ib = Inr (44, example_value, ib') \<and>
     i_content ib' = []"
proof -
  have "2 * (o_avail (mk_obuf True False) + length (enc example_type example_value)) < malloc_limit"
    by (simp add: example_length o_avail_def mk_obuf_def malloc_limit_def)
  from archive_roundtrip[OF example_wt mk_obuf_ok(1) this] obtain ob bs where
    o: "o_archive example_type example_value (mk_obuf True False) = Inr (length bs, ob)"
      "o_content ob = bs"
      "\<And>old ib rest. ibuf_ok ib \<Longrightarrow> i_content ib = bs @ rest \<Longrightarrow>
         \<exists>ib'. i_archive example_cxx example_type old ib = Inr (length bs, example_value, ib') \<and>
           ibuf_ok ib' \<and> i_content ib' = rest"
    by (auto simp: mk_obuf_ok(2))
  have "2 * (o_avail (mk_obuf True False) + length (enc example_type example_value)) < malloc_limit"
    by (simp add: example_length o_avail_def mk_obuf_def malloc_limit_def)
  from writesD[OF writes_archive(1)[OF example_wt] mk_obuf_ok(1) this] o(1)
  have len: "length bs = 44" and ok: "obuf_ok ob" by (auto simp: example_length)
  from ibuf_of_move_ok[OF ok] obtain ib ob' where
    i: "ibuf_of_move ob = Inr (ib, ob')" "ibuf_ok ib" "i_content ib = bs @ []"
    using o(2) by auto
  with o(1) o(3)[OF i(2,3), of "V_list []"] len show ?thesis by auto
qed

text \<open>C15: Messages arrive whole. A package appends its size and its values; an input buffer with the
  whole package in front yields the values and consumes exactly the package, and while any byte of it
  is missing reading returns \<open>-1\<close> and touches neither the buffer nor the targets.\<close>

theorem package_delivery:
  assumes "wt_fields C ts vs" "obuf_ok ob"
    and "2 * (o_avail ob + length (package_bytes ts vs)) < malloc_limit"
  shows "\<exists>ob' pk. o_package junk ts vs ob = Inr (length pk, ob') \<and> obuf_ok ob' \<and>
    o_content ob' = o_content ob @ pk \<and>
    (\<forall>olds ib. ibuf_ok ib \<longrightarrow>
       (\<forall>rest. i_content ib = pk @ rest \<longrightarrow>
          (\<exists>ib'. i_package C ts olds ib = Inr (int (length pk), vs, ib') \<and> ibuf_ok ib' \<and>
             i_content ib' = rest)) \<and>
       (\<forall>rest. rest \<noteq> [] \<and> pk = i_content ib @ rest \<longrightarrow> i_package C ts olds ib = Inr (- 1, olds, ib)))"
proof -
  have small: "length (package_bytes ts vs) < 2 ^ 63"
    using assms(3) by (simp add: malloc_limit_def)
  obtain ob' where ob': "o_package junk ts vs ob = Inr (length (package_bytes ts vs), ob')" "obuf_ok ob'"
      "o_content ob' = o_content ob @ package_bytes ts vs"
    using o_package_ok[OF assms, of junk] by blast
  show ?thesis
  proof ((rule exI)+, intro conjI allI impI)
    show "o_package junk ts vs ob = Inr (length (package_bytes ts vs), ob')" "obuf_ok ob'"
      "o_content ob' = o_content ob @ package_bytes ts vs" by (rule ob')+
  next
    fix olds ib rest
    assume "ibuf_ok ib" "i_content ib = package_bytes ts vs @ rest"
    then show "\<exists>ib'. i_package C ts olds ib = Inr (int (length (package_bytes ts vs)), vs, ib') \<and>
        ibuf_ok ib' \<and> i_content ib' = rest"
      by (rule i_package_ok[OF assms(1) _ _ small])
  next
    fix olds ib rest
    assume "ibuf_ok ib" "rest \<noteq> [] \<and> package_bytes ts vs = i_content ib @ rest"
    then show "i_package C ts olds ib = Inr (- 1, olds, ib)"
      using i_package_waits[of ib ts vs rest] small by blast
  qed
qed

theorem package_delivery_witness:
  "\<exists>ob ib ob' ib'. o_package 99 [example_type] [example_value] (mk_obuf True False) = Inr (52, ob) \<and>
     ibuf_of_move ob = Inr (ib, ob') \<and>
     i_package example_cxx [example_type] [V_list []] ib = Inr (52, [example_value], ib')"
proof -
  have wt: "wt_fields example_cxx [example_type] [example_value]" by (simp add: example_wt)
  have len: "length (package_bytes [example_type] [example_value]) = 52" by (simp add: example_length)
  have small: "2 * (o_avail (mk_obuf True False) + length (package_bytes [example_type] [example_value])) < malloc_limit"
    unfolding len by (simp add: o_avail_def mk_obuf_def malloc_limit_def)
  from package_delivery[OF wt mk_obuf_ok(1) small, of 99] obtain ob pk where
    o: "o_package 99 [example_type] [example_value] (mk_obuf True False) = Inr (length pk, ob)" "obuf_ok ob"
      "o_content ob = o_content (mk_obuf True False) @ pk"
      "\<forall>olds ib. ibuf_ok ib \<longrightarrow>
         (\<forall>rest. i_content ib = pk @ rest \<longrightarrow>
            (\<exists>ib'. i_package example_cxx [example_type] olds ib = Inr (int (length pk), [example_value], ib') \<and>
               ibuf_ok ib' \<and> i_content ib' = rest)) \<and>
         (\<forall>rest. rest \<noteq> [] \<and> pk = i_content ib @ rest \<longrightarrow>
            i_package example_cxx [example_type] olds ib = Inr (- 1, olds, ib))"
    by (elim exE conjE) (rule that)
  from o_package_ok[OF wt mk_obuf_ok(1) small, of 99] o(1) len have "length pk = 52" by auto
  moreover from ibuf_of_move_ok[OF o(2)] obtain ib ob' where
    ib: "ibuf_of_move ob = Inr (ib, ob')" "ibuf_ok ib" "i_content ib = pk @ []"
    using o(3) mk_obuf_ok(2)[of True False] by auto
  moreover from o(4)[THEN spec, THEN spec, THEN mp, OF ib(2), THEN conjunct1, THEN spec, THEN mp, OF ib(3)]
  obtain ib' where "i_package example_cxx [example_type] [V_list []] ib = Inr (int (length pk), [example_value], ib')"
    by blast
  ultimately show ?thesis using o(1) ib(1) by auto
qed

end
