(* ===== verification/OutStream.thy ===== *)
theory OutStream
  imports Archive
begin

text \<open>
  Output streams (class \<open>OutputStream\<close>, src/ipc/ipc.cpp and include/dtc/ipc/ipc.hpp, as
  \<open>KernelBase::insert_channel\<close> sets them up): an output buffer joined to a write event of the
  reactor. The event is not registered with the demultiplexer while there is nothing to write; a write
  into the buffer has it thawed through \<open>_notify\<close>, its handler empties the buffer and notifies again
  when data is left. \<open>remove_on_flush\<close> disables the stream, after which the handler flushes and removes
  the event.

  The flag \<open>_notified\<close> keeps the event from being thawed twice. The model has the buffer, the two
  flags, what the reactor knows of the event (whether it has it, whether the demultiplexer watches
  it, the closures that are on their way to the owner) and, for every task of the worker threads that
  runs the handler, how far it is. Sections under the lock of the buffer are one step.

  The theorem: no data gets stuck. The counterexample: \<open>remove_on_flush\<close> during a handler can make
  the assertion at the beginning of the handler fail.
\<close>

section \<open>State\<close>

datatype os_closure = Thaw_me | Remove_me

text \<open>A handler: not running; behind the activation; behind the test of \<open>_disabled\<close>; in the callback;
  behind the callback; in and behind the flush of a disabled stream; behind a handler that returned
  \<open>REMOVE\<close>.\<close>

datatype handler_pc = Idle | Activated | Enabled | Calling | Called | Disabled | Flushed | Leaving

record ostr =
  os_buf :: obuf
  os_ch :: "u8 list"
  os_disabled :: bool
  os_notified :: bool
  os_inset :: bool
  os_armed :: bool
  os_queue :: "os_closure list"
  os_tasks :: "nat \<Rightarrow> handler_pc"
  os_sent :: "u8 list"
  os_failed :: bool

text \<open>After \<open>insert\<close>: a write event is not registered with the demultiplexer.\<close>

definition mk_ostr :: ostr where
  "mk_ostr = \<lparr>os_buf = mk_obuf True True, os_ch = [], os_disabled = False, os_notified = False,
     os_inset = True, os_armed = False, os_queue = [], os_tasks = (\<lambda>_. Idle), os_sent = [],
     os_failed = False\<rparr>"

section \<open>Operations\<close>

text \<open>The closures, run by the owner: \<open>_thaw\<close> and \<open>_remove\<close> of the reactor.\<close>

definition os_run :: "os_closure \<Rightarrow> ostr \<Rightarrow> ostr" where
  "os_run c s =
     (if \<not> os_inset s then s
      else case c of
             Thaw_me \<Rightarrow> s\<lparr>os_armed := True\<rparr>
           | Remove_me \<Rightarrow> s\<lparr>os_armed := False, os_inset := False\<rparr>)"

definition os_promise :: "bool \<Rightarrow> os_closure \<Rightarrow> ostr \<Rightarrow> ostr" where
  "os_promise owner c s = (if owner then os_run c s else s\<lparr>os_queue := os_queue s @ [c]\<rparr>)"

definition os_notify :: "bool \<Rightarrow> ostr \<Rightarrow> bool \<times> ostr" where
  "os_notify owner s =
     (if os_notified s \<or> \<not> os_inset s \<or> o_avail (os_buf s) = 0 then (False, s)
      else (True, os_promise owner Thaw_me (s\<lparr>os_notified := True\<rparr>)))"

text \<open>A write with the callback of the buffer.\<close>

definition os_write :: "bool \<Rightarrow> u8 list \<Rightarrow> ostr \<Rightarrow> ostr result" where
  "os_write owner bs s =
     bind_r (o_write bs (os_buf s)) (\<lambda>(n, b).
       let s' = s\<lparr>os_buf := b, os_sent := os_sent s @ bs\<rparr>
       in Inr (if o_fired b = o_fired (os_buf s) then s' else snd (os_notify owner s')))"

definition os_remove_on_flush :: "bool \<Rightarrow> ostr \<Rightarrow> ostr" where
  "os_remove_on_flush owner s =
     (if \<not> os_inset s \<or> os_disabled s then s
      else let s' = s\<lparr>os_disabled := True\<rparr>
           in if 0 < o_avail (os_buf s') then os_promise owner Thaw_me s'
              else os_promise owner Remove_me s')"

definition os_at :: "nat \<Rightarrow> handler_pc \<Rightarrow> ostr \<Rightarrow> ostr" where
  "os_at t pc s = s\<lparr>os_tasks := (os_tasks s)(t := pc)\<rparr>"

text \<open>The handler: the test of the flag and the assertion; the callback of \<open>insert_channel\<close>, a \<open>sync\<close>
  of the buffer whose exception is reported to the user; the end under the lock.\<close>

definition os_test :: "nat \<Rightarrow> ostr \<Rightarrow> ostr" where
  "os_test t s = os_at t (if os_disabled s then Disabled else Enabled) s"

definition os_assert :: "nat \<Rightarrow> ostr \<Rightarrow> ostr" where
  "os_assert t s = (if os_notified s then os_at t Calling s else s\<lparr>os_failed := True\<rparr>)"

definition os_sync :: "nat \<Rightarrow> sysret list \<Rightarrow> ostr \<Rightarrow> ostr option" where
  "os_sync t rs s = (case o_sync (os_buf s) rs (os_ch s) of
       None \<Rightarrow> None
     | Some (Inl e, _, ch) \<Rightarrow> Some (os_at t Called (s\<lparr>os_ch := ch\<rparr>))
     | Some (Inr (b, _), _, ch) \<Rightarrow> Some (os_at t Called (s\<lparr>os_buf := b, os_ch := ch\<rparr>)))"

definition os_finish :: "bool \<Rightarrow> nat \<Rightarrow> ostr \<Rightarrow> ostr" where
  "os_finish owner t s = snd (os_notify owner (os_at t Idle (s\<lparr>os_notified := False\<rparr>)))"

text \<open>\<open>_remove_on_flush\<close>: the flush, upon whose exception the event is to be removed, and the rest
  under the lock.\<close>

definition os_flush :: "nat \<Rightarrow> sysret list \<Rightarrow> ostr \<Rightarrow> ostr option" where
  "os_flush t rs s = (case o_flush 0 (os_buf s) rs (os_ch s) of
       None \<Rightarrow> None
     | Some (b, r, _, ch) \<Rightarrow>
         Some (os_at t (case r of Inl _ \<Rightarrow> Leaving | Inr _ \<Rightarrow> Flushed) (s\<lparr>os_buf := b, os_ch := ch\<rparr>)))"

definition os_flushed :: "bool \<Rightarrow> nat \<Rightarrow> ostr \<Rightarrow> ostr" where
  "os_flushed owner t s =
     (case os_notify owner (s\<lparr>os_notified := False\<rparr>) of
        (False, s') \<Rightarrow> os_at t Leaving s'
      | (True, s') \<Rightarrow> os_at t Idle s')"

text \<open>Behind a handler that returned \<open>REMOVE\<close> the task has the reactor remove the event.\<close>

definition os_leave :: "bool \<Rightarrow> nat \<Rightarrow> ostr \<Rightarrow> ostr" where
  "os_leave owner t s = os_promise owner Remove_me (os_at t Idle s)"

section \<open>Steps\<close>

text \<open>A thread writes or removes the stream; the owner takes a closure out of the queue (in any order)
  or activates the event, for which a task of the workers is handed the handler; a handler goes on. A
  failed assertion ends the process.\<close>

inductive os_step :: "ostr \<Rightarrow> ostr \<Rightarrow> bool" where
  os_step_write: "\<not> os_failed s \<Longrightarrow> os_write owner bs s = Inr s' \<Longrightarrow> os_step s s'"
| os_step_remove: "\<not> os_failed s \<Longrightarrow> os_step s (os_remove_on_flush owner s)"
| os_step_run: "\<not> os_failed s \<Longrightarrow> os_queue s = cs @ c # ds \<Longrightarrow> os_step s (os_run c (s\<lparr>os_queue := cs @ ds\<rparr>))"
| os_step_activate: "\<not> os_failed s \<Longrightarrow> os_armed s \<Longrightarrow> os_tasks s t = Idle \<Longrightarrow>
    os_step s (os_at t Activated (s\<lparr>os_armed := False\<rparr>))"
| os_step_test: "\<not> os_failed s \<Longrightarrow> os_tasks s t = Activated \<Longrightarrow> os_step s (os_test t s)"
| os_step_assert: "\<not> os_failed s \<Longrightarrow> os_tasks s t = Enabled \<Longrightarrow> os_step s (os_assert t s)"
| os_step_sync: "\<not> os_failed s \<Longrightarrow> os_tasks s t = Calling \<Longrightarrow> os_sync t rs s = Some s' \<Longrightarrow> os_step s s'"
| os_step_finish: "\<not> os_failed s \<Longrightarrow> os_tasks s t = Called \<Longrightarrow> os_step s (os_finish owner t s)"
| os_step_flush: "\<not> os_failed s \<Longrightarrow> os_tasks s t = Disabled \<Longrightarrow> os_flush t rs s = Some s' \<Longrightarrow> os_step s s'"
| os_step_flushed: "\<not> os_failed s \<Longrightarrow> os_tasks s t = Flushed \<Longrightarrow> os_step s (os_flushed owner t s)"
| os_step_leave: "\<not> os_failed s \<Longrightarrow> os_tasks s t = Leaving \<Longrightarrow> os_step s (os_leave owner t s)"

inductive_cases os_stepE: "os_step s s'"

inductive os_reach :: "ostr \<Rightarrow> bool" where
  os_start: "os_reach mk_ostr"
| os_next: "os_reach s \<Longrightarrow> os_step s s' \<Longrightarrow> os_reach s'"

section \<open>The invariant\<close>

text \<open>Something is under way for the event: it is registered, a closure waits for the owner, or a
  handler is in one of the given places.\<close>

definition under_way :: "handler_pc set \<Rightarrow> ostr \<Rightarrow> bool" where
  "under_way P s \<longleftrightarrow> os_armed s \<or> os_queue s \<noteq> [] \<or> (\<exists>t. os_tasks s t \<in> P)"

abbreviation running :: "handler_pc set" where
  "running \<equiv> {Activated, Enabled, Calling, Called, Disabled, Flushed, Leaving}"

abbreviation removing :: "handler_pc set" where "removing \<equiv> {Activated, Disabled, Flushed, Leaving}"

text \<open>Before the stream is disabled, the flag is up exactly while one token is in circulation: the
  closure that thaws the event, the registration or the handler.\<close>

definition one_token :: "ostr \<Rightarrow> bool" where
  "one_token s \<longleftrightarrow>
     (if os_notified s
      then os_queue s = [Thaw_me] \<and> \<not> os_armed s \<and> (\<forall>t. os_tasks s t = Idle) \<or>
           os_queue s = [] \<and> os_armed s \<and> (\<forall>t. os_tasks s t = Idle) \<or>
           os_queue s = [] \<and> \<not> os_armed s \<and>
             (\<exists>t. os_tasks s t \<in> {Activated, Enabled, Calling, Called} \<and> (\<forall>u. u \<noteq> t \<longrightarrow> os_tasks s u = Idle))
      else os_queue s = [] \<and> \<not> os_armed s \<and> (\<forall>t. os_tasks s t = Idle))"

definition os_inv :: "ostr \<Rightarrow> bool" where
  "os_inv s \<longleftrightarrow>
     obuf_ok (os_buf s) \<and> os_ch s @ o_content (os_buf s) = os_sent s \<and> o_on_write (os_buf s) \<and>
     (os_inset s \<longrightarrow> 0 < o_avail (os_buf s) \<longrightarrow> os_notified s) \<and>
     (os_inset s \<longrightarrow> os_notified s \<longrightarrow> under_way running s) \<and>
     (os_inset s \<longrightarrow> os_disabled s \<longrightarrow> under_way removing s) \<and>
     (\<not> os_disabled s \<longrightarrow> os_inset s \<and> one_token s \<and> \<not> os_failed s)"

lemma os_invD:
  assumes "os_inv s"
  shows "obuf_ok (os_buf s)" "os_ch s @ o_content (os_buf s) = os_sent s" "o_on_write (os_buf s)"
    "os_inset s \<Longrightarrow> 0 < o_avail (os_buf s) \<Longrightarrow> os_notified s"
    "os_inset s \<Longrightarrow> os_notified s \<Longrightarrow> under_way running s"
    "os_inset s \<Longrightarrow> os_disabled s \<Longrightarrow> under_way removing s"
    "\<not> os_disabled s \<Longrightarrow> os_inset s" "\<not> os_disabled s \<Longrightarrow> one_token s" "os_failed s \<Longrightarrow> os_disabled s"
  using assms unfolding os_inv_def by blast+

lemma os_inv_init: "os_inv mk_ostr"
  by (simp add: os_inv_def mk_ostr_def mk_obuf_ok one_token_def) (simp add: mk_obuf_def o_avail_def)

lemma os_at_simps [simp]:
  "os_buf (os_at t pc s) = os_buf s" "os_ch (os_at t pc s) = os_ch s" "os_sent (os_at t pc s) = os_sent s"
  "os_disabled (os_at t pc s) = os_disabled s" "os_notified (os_at t pc s) = os_notified s"
  "os_inset (os_at t pc s) = os_inset s" "os_armed (os_at t pc s) = os_armed s"
  "os_queue (os_at t pc s) = os_queue s" "os_failed (os_at t pc s) = os_failed s"
  "os_tasks (os_at t pc s) = (os_tasks s)(t := pc)"
  by (simp_all add: os_at_def)

lemma os_run_simps [simp]:
  "os_buf (os_run c s) = os_buf s" "os_ch (os_run c s) = os_ch s" "os_sent (os_run c s) = os_sent s"
  "os_disabled (os_run c s) = os_disabled s" "os_notified (os_run c s) = os_notified s"
  "os_queue (os_run c s) = os_queue s" "os_failed (os_run c s) = os_failed s"
  "os_tasks (os_run c s) = os_tasks s"
  by (simp_all add: os_run_def split: os_closure.splits)

lemma os_promise_simps [simp]:
  "os_buf (os_promise w c s) = os_buf s" "os_ch (os_promise w c s) = os_ch s"
  "os_sent (os_promise w c s) = os_sent s" "os_disabled (os_promise w c s) = os_disabled s"
  "os_notified (os_promise w c s) = os_notified s" "os_failed (os_promise w c s) = os_failed s"
  "os_tasks (os_promise w c s) = os_tasks s"
  by (simp_all add: os_promise_def)

lemma os_inset_run: "os_inset (os_run c s) \<Longrightarrow> os_inset s \<and> c = Thaw_me \<and> os_armed (os_run c s)"
  by (auto simp: os_run_def split: if_splits os_closure.splits)

lemma os_inset_promise: "os_inset (os_promise w c s) \<Longrightarrow> os_inset s \<and> under_way P (os_promise w c s)"
  using os_inset_run[of c s] by (auto simp: os_promise_def under_way_def split: if_splits)

lemma os_thaw_inset: "os_inset (os_promise w Thaw_me s) = os_inset s"
  by (simp add: os_promise_def os_run_def)

text \<open>What a notification does to the invariant: afterwards data implies the flag, and the flag implies
  that something is under way, whatever was the case before.\<close>

lemma os_notify_frame:
  "os_notify w s = (r, s') \<Longrightarrow> os_buf s' = os_buf s \<and> os_ch s' = os_ch s \<and> os_sent s' = os_sent s \<and>
     os_disabled s' = os_disabled s \<and> os_inset s' = os_inset s \<and> os_failed s' = os_failed s \<and>
     os_tasks s' = os_tasks s"
  by (auto simp: os_notify_def os_thaw_inset split: if_splits)

lemma os_notify_effect:
  assumes "os_notify w s = (r, s')"
  shows "os_inset s' \<longrightarrow> 0 < o_avail (os_buf s') \<longrightarrow> os_notified s'"
    and "r \<Longrightarrow> os_inset s \<and> under_way P s'"
    and "\<not> r \<Longrightarrow> s' = s"
    and "r \<Longrightarrow> os_notified s' \<and> \<not> os_notified s"
  using assms by (auto simp: os_notify_def os_promise_def os_run_def under_way_def split: if_splits)

lemma os_notify_token:
  assumes "os_notify w s = (r, s')" "os_inset s" "os_notified s \<longrightarrow> one_token s"
    "\<not> os_notified s \<longrightarrow> os_queue s = [] \<and> \<not> os_armed s \<and> (\<forall>t. os_tasks s t = Idle)"
  shows "one_token s'"
  using assms by (auto simp: os_notify_def os_promise_def os_run_def one_token_def split: if_splits)

lemma os_invI:
  assumes "obuf_ok (os_buf s)" "os_ch s @ o_content (os_buf s) = os_sent s" "o_on_write (os_buf s)"
    "os_inset s \<Longrightarrow> 0 < o_avail (os_buf s) \<Longrightarrow> os_notified s"
    "os_inset s \<Longrightarrow> os_notified s \<Longrightarrow> under_way running s"
    "os_inset s \<Longrightarrow> os_disabled s \<Longrightarrow> under_way removing s"
    "\<not> os_disabled s \<Longrightarrow> os_inset s \<and> one_token s \<and> \<not> os_failed s"
  shows "os_inv s"
  using assms unfolding os_inv_def by blast

lemma under_way_mono: "under_way P s \<Longrightarrow> P \<subseteq> Q \<Longrightarrow> under_way Q s"
  by (auto simp: under_way_def)

lemma under_way_at: "pc \<in> P \<Longrightarrow> under_way P (os_at t pc s)"
  by (auto simp: under_way_def intro!: exI[of _ t])

lemma under_way_task: "under_way P s \<Longrightarrow> os_tasks s t \<notin> P \<Longrightarrow> under_way P (os_at t pc s)"
  unfolding under_way_def by (metis fun_upd_other os_at_simps(7,8,10))

lemma under_way_idle: "under_way {} s \<Longrightarrow> under_way P (os_at t pc s)"
  by (auto simp: under_way_def)

lemma os_inv_write:
  assumes ok: "os_inv s" and w: "os_write owner bs s = Inr s'"
  shows "os_inv s'"
proof -
  note inv = os_invD[OF ok]
  obtain n b where b: "o_write bs (os_buf s) = Inr (n, b)"
      "s' = (if o_fired b = o_fired (os_buf s) then s\<lparr>os_buf := b, os_sent := os_sent s @ bs\<rparr>
             else snd (os_notify owner (s\<lparr>os_buf := b, os_sent := os_sent s @ bs\<rparr>)))"
    using w by (auto simp: os_write_def Let_def)
  have wb: "obuf_ok b" "o_content b = o_content (os_buf s) @ bs" "o_on_write b"
      "o_fired b = o_fired (os_buf s) + (if bs \<noteq> [] then 1 else 0)"
    using o_write_Inr[OF inv(1) b(1)] inv(3) by auto
  define u where "u = s\<lparr>os_buf := b, os_sent := os_sent s @ bs\<rparr>"
  show ?thesis
  proof (cases "bs = []")
    case True
    then have "s' = u" using b(2) wb(4) by (simp add: u_def)
    moreover have "o_avail b = o_avail (os_buf s)"
      using length_o_content[OF wb(1)] length_o_content[OF inv(1)] wb(2) True by simp
    ultimately show ?thesis
      using inv wb True by (intro os_invI) (auto simp: u_def under_way_def one_token_def)
  next
    case False
    obtain r v where v: "os_notify owner u = (r, v)" by (cases "os_notify owner u")
    then have s': "s' = v" using b(2) wb(4) False by (simp add: u_def)
    note f = os_notify_frame[OF v] and e = os_notify_effect[OF v]
    have uw: "under_way running v" if "os_inset v" "os_notified v"
      using e(2)[of running] e(3) that inv(5) by (cases r) (auto simp: u_def under_way_def)
    have rm: "under_way removing v" if "os_inset v" "os_disabled v"
      using e(2)[of removing] e(3) that inv(6) f by (cases r) (auto simp: u_def under_way_def)
    have tok: "one_token v" if "\<not> os_disabled v"
      using os_notify_token[OF v] inv(7,8) that f by (auto simp: u_def one_token_def split: if_splits)
    show ?thesis
      unfolding s' using inv wb f e(1) uw rm tok by (intro os_invI) (auto simp: u_def)
  qed
qed


text \<open>Steps that change neither the buffer nor the channel.\<close>

lemma os_inv_remove_on_flush:
  assumes ok: "os_inv s"
  shows "os_inv (os_remove_on_flush owner s)"
proof (cases "os_inset s \<and> \<not> os_disabled s")
  case False
  then show ?thesis using ok by (auto simp: os_remove_on_flush_def)
next
  case True
  define c where "c = (if 0 < o_avail (os_buf s) then Thaw_me else Remove_me)"
  define u where "u = os_promise owner c (s\<lparr>os_disabled := True\<rparr>)"
  have "os_inv u"
    using os_invD[OF ok] os_inset_promise[of owner c "s\<lparr>os_disabled := True\<rparr>"]
    by (intro os_invI) (auto simp: u_def)
  then show ?thesis using True by (auto simp: os_remove_on_flush_def u_def c_def Let_def split: if_splits)
qed

lemma os_inv_run:
  assumes ok: "os_inv s" and q: "os_queue s = cs @ c # ds"
  shows "os_inv (os_run c (s\<lparr>os_queue := cs @ ds\<rparr>))"
proof -
  define u where "u = os_run c (s\<lparr>os_queue := cs @ ds\<rparr>)"
  note inv = os_invD[OF ok]
  have armed: "os_inset s \<and> under_way P u" if "os_inset u" for P
    using os_inset_run[of c "s\<lparr>os_queue := cs @ ds\<rparr>"] that unfolding u_def[symmetric] under_way_def
    by simp
  have "os_inset u \<and> one_token u" if "\<not> os_disabled s"
  proof -
    have "os_notified s" "cs = []" "c = Thaw_me" "ds = []" "\<not> os_armed s" "\<forall>t. os_tasks s t = Idle"
      using inv(8)[OF that] q by (auto simp: one_token_def append_eq_Cons_conv split: if_splits)
    then show ?thesis using inv(7)[OF that] by (simp add: u_def os_run_def one_token_def)
  qed
  then have "os_inv u"
    using inv armed by (intro os_invI) (auto simp: u_def)
  then show ?thesis by (simp add: u_def)
qed

lemma os_inv_activate:
  assumes ok: "os_inv s" and s: "os_armed s" "os_tasks s t = Idle"
  shows "os_inv (os_at t Activated (s\<lparr>os_armed := False\<rparr>))"
proof -
  note inv = os_invD[OF ok]
  have "one_token (os_at t Activated (s\<lparr>os_armed := False\<rparr>))" if "\<not> os_disabled s"
    using inv(8)[OF that] s by (auto simp: one_token_def split: if_splits)
  then show ?thesis
    using inv by (intro os_invI) (auto simp: under_way_at)
qed

lemma one_token_task:
  assumes "one_token s" "os_tasks s t \<noteq> Idle"
  shows "os_notified s \<and> os_queue s = [] \<and> \<not> os_armed s \<and> (\<forall>u. u \<noteq> t \<longrightarrow> os_tasks s u = Idle) \<and>
    os_tasks s t \<in> {Activated, Enabled, Calling, Called}"
  using assms by (auto simp: one_token_def split: if_splits) metis+

lemma one_token_at:
  assumes "one_token s" "os_tasks s t \<noteq> Idle" "pc \<in> {Activated, Enabled, Calling, Called}"
  shows "one_token (os_at t pc s)"
  using one_token_task[OF assms(1,2)] assms(3) by (auto simp: one_token_def)

lemma os_inv_test:
  assumes ok: "os_inv s" and t: "os_tasks s t = Activated"
  shows "os_inv (os_test t s)"
proof -
  note inv = os_invD[OF ok]
  have "one_token (os_test t s)" if "\<not> os_disabled s"
    using one_token_at[OF inv(8)[OF that], of t Enabled] t that by (simp add: os_test_def)
  then show ?thesis
    using inv by (intro os_invI) (auto simp: os_test_def under_way_at)
qed

lemma os_inv_assert:
  assumes ok: "os_inv s" and t: "os_tasks s t = Enabled"
  shows "os_inv (os_assert t s)"
proof (cases "os_notified s")
  case True
  note inv = os_invD[OF ok]
  have "one_token (os_assert t s)" if "\<not> os_disabled s"
    using one_token_at[OF inv(8)[OF that], of t Calling] t True by (simp add: os_assert_def)
  moreover have "under_way removing (os_at t Calling s)" if "under_way removing s"
    using under_way_task[OF that, of t Calling] t by simp
  ultimately show ?thesis
    using inv True by (intro os_invI) (auto simp: os_assert_def under_way_at)
next
  case False
  note inv = os_invD[OF ok]
  have "os_disabled s" using one_token_task[OF inv(8), of t] t False by auto
  then show ?thesis
    using inv False by (intro os_invI) (auto simp: os_assert_def under_way_def)
qed


text \<open>The callback and the flush: bytes move from the buffer to the channel.\<close>

lemma o_sync_on_write: "o_sync b rs ch = Some (Inr (b', x), rs', ch') \<Longrightarrow> o_on_write b' = o_on_write b"
  by (auto simp: o_sync_unfold split: if_splits option.splits sum.splits)

lemma o_flush_on_write: "o_flush sz b rs ch = Some (b', r, rs', ch') \<Longrightarrow> o_on_write b' = o_on_write b"
proof (induction sz b rs ch rule: o_flush.induct)
  case (1 sz b rs ch)
  show ?case
  proof (cases "0 < o_avail b")
    case False
    with "1.prems" show ?thesis by (simp add: o_flush.simps[of sz b])
  next
    case True
    with "1.prems" obtain p rs1 ch1 where p: "o_sync b rs ch = Some (p, rs1, ch1)"
      by (auto simp: o_flush.simps[of sz b] split: option.splits)
    show ?thesis
    proof (cases p)
      case (Inl e)
      with p True "1.prems" show ?thesis by (simp add: o_flush.simps[of sz b])
    next
      case (Inr q)
      obtain c x where q: "p = Inr (c, x)" using Inr by (cases q) auto
      note c = o_sync_on_write[OF p[unfolded q]]
      show ?thesis
      proof (cases "0 < x")
        case x: True
        have "o_flush (sz + x) c rs1 ch1 = Some (b', r, rs', ch')"
          using p q True x "1.prems" by (simp add: o_flush.simps[of sz b])
        from "1.IH"[OF True p _ _ _ _ x this] c q show ?thesis by simp
      next
        case x: False
        with p q True c "1.prems" show ?thesis by (auto simp: o_flush.simps[of sz b] split: if_splits)
      qed
    qed
  qed
qed

lemma o_flush_empty: "o_avail b = 0 \<Longrightarrow> o_flush sz b rs ch = Some (b', r, rs', ch') \<Longrightarrow> b' = b"
  by (simp add: o_flush.simps[of sz b])

lemma os_inv_sync:
  assumes ok: "os_inv s" and t: "os_tasks s t = Calling" and s': "os_sync t rs s = Some s'"
  shows "os_inv s'"
proof -
  note inv = os_invD[OF ok]
  obtain b ch where b: "s' = os_at t Called (s\<lparr>os_buf := b, os_ch := ch\<rparr>)"
      "obuf_ok b" "ch @ o_content b = os_sent s" "o_on_write b" "0 < o_avail b \<Longrightarrow> 0 < o_avail (os_buf s)"
  proof -
    obtain r rs' ch where y: "o_sync (os_buf s) rs (os_ch s) = Some (r, rs', ch)"
      using s' by (auto simp: os_sync_def split: option.splits)
    note e = o_sync_effect[OF inv(1) y]
    show thesis
    proof (cases r)
      case (Inl x)
      then show thesis using e s' y inv by (intro that[of ch "os_buf s"]) (auto simp: os_sync_def)
    next
      case (Inr p)
      obtain b x where p: "p = (b, x)" by (cases p)
      show thesis
      proof (rule that[of ch b])
        show "s' = os_at t Called (s\<lparr>os_buf := b, os_ch := ch\<rparr>)" using s' y Inr p by (simp add: os_sync_def)
        show "obuf_ok b" "ch @ o_content b = os_sent s" using e Inr p inv(2) by auto
        show "o_on_write b" using o_sync_on_write[of "os_buf s"] y Inr p inv(3) by simp
        show "0 < o_avail b \<Longrightarrow> 0 < o_avail (os_buf s)" using e Inr p by (cases "0 < x") auto
      qed
    qed
  qed
  have "one_token s'" if "\<not> os_disabled s"
    using one_token_task[OF inv(8)[OF that], of t] t unfolding b(1) by (auto simp: one_token_def)
  moreover have "under_way removing s'" if "under_way removing s"
    using under_way_task[OF that, of t Called] t by (simp add: b(1) under_way_def)
  ultimately show ?thesis
    using inv b(2-5) by (intro os_invI) (auto simp: b(1) under_way_at)
qed

lemma os_inv_flush:
  assumes ok: "os_inv s" and t: "os_tasks s t = Disabled" and s': "os_flush t rs s = Some s'"
  shows "os_inv s'"
proof -
  note inv = os_invD[OF ok]
  have dis: "os_disabled s" using one_token_task[OF inv(8), of t] t by auto
  obtain b r rs' ch where y: "o_flush 0 (os_buf s) rs (os_ch s) = Some (b, r, rs', ch)"
    using s' by (auto simp: os_flush_def split: option.splits)
  have b: "obuf_ok b" "ch @ o_content b = os_sent s" "o_on_write b" "0 < o_avail b \<Longrightarrow> 0 < o_avail (os_buf s)"
    using o_flush_effect[OF y inv(1)] o_flush_on_write[OF y] o_flush_empty[OF _ y] inv(2,3) by auto
  obtain pc where "pc \<in> removing" "s' = os_at t pc (s\<lparr>os_buf := b, os_ch := ch\<rparr>)"
    using s' y by (auto simp: os_flush_def split: sum.splits)
  then show ?thesis
    using inv b dis by (intro os_invI) (auto simp: under_way_at)
qed

text \<open>The ends of the handler, under the lock: the flag falls and is raised again when data is left.\<close>

lemma os_inv_finish:
  assumes ok: "os_inv s" and t: "os_tasks s t = Called"
  shows "os_inv (os_finish owner t s)"
proof -
  note inv = os_invD[OF ok]
  obtain r v where v: "os_notify owner (os_at t Idle (s\<lparr>os_notified := False\<rparr>)) = (r, v)"
    by (cases "os_notify owner (os_at t Idle (s\<lparr>os_notified := False\<rparr>))")
  note f = os_notify_frame[OF v] and e = os_notify_effect[OF v]
  have fin: "os_finish owner t s = v" by (simp add: os_finish_def v)
  have uw: "under_way running v" if "os_inset v" "os_notified v"
    using e(2)[of running] e(3) that by (cases r) auto
  have rm: "under_way removing v" if "os_inset v" "os_disabled v"
  proof (cases r)
    case False
    have "under_way removing (os_at t Idle (s\<lparr>os_notified := False\<rparr>))"
      using under_way_task[OF inv(6), of t Idle] that f t by (simp add: under_way_def)
    then show ?thesis using e(3) False by simp
  qed (use e(2) in simp)
  have tok: "one_token v" if "\<not> os_disabled v"
    using one_token_task[OF inv(8), of t] t that f inv(7) by (intro os_notify_token[OF v]) auto
  show ?thesis
    unfolding fin using inv f e(1) uw rm tok by (intro os_invI) auto
qed


lemma os_inv_flushed:
  assumes ok: "os_inv s" and t: "os_tasks s t = Flushed"
  shows "os_inv (os_flushed owner t s)"
proof -
  note inv = os_invD[OF ok]
  have dis: "os_disabled s" using one_token_task[OF inv(8), of t] t by auto
  obtain r v where v: "os_notify owner (s\<lparr>os_notified := False\<rparr>) = (r, v)"
    by (cases "os_notify owner (s\<lparr>os_notified := False\<rparr>)")
  note f = os_notify_frame[OF v] and e = os_notify_effect[OF v]
  show ?thesis
  proof (cases r)
    case True
    have "under_way P (os_at t Idle v)" for P
      using under_way_idle e(2)[OF True] by blast
    then show ?thesis
      using True v f e(1) dis inv by (intro os_invI) (auto simp: os_flushed_def)
  next
    case False
    then show ?thesis
      using v f e(1) dis inv by (intro os_invI) (auto simp: os_flushed_def under_way_at)
  qed
qed

lemma os_inv_leave:
  assumes ok: "os_inv s" and t: "os_tasks s t = Leaving"
  shows "os_inv (os_leave owner t s)"
proof -
  note inv = os_invD[OF ok]
  have dis: "os_disabled s" using one_token_task[OF inv(8), of t] t by auto
  show ?thesis
    using inv dis os_inset_promise[of owner Remove_me "os_at t Idle s"]
    by (intro os_invI) (auto simp: os_leave_def)
qed

lemma os_inv_step: "os_step s s' \<Longrightarrow> os_inv s \<Longrightarrow> os_inv s'"
  by (induction rule: os_step.induct)
    (blast intro: os_inv_write os_inv_remove_on_flush os_inv_run os_inv_activate os_inv_test os_inv_assert
      os_inv_sync os_inv_finish os_inv_flush os_inv_flushed os_inv_leave)+

lemma os_inv_reach: "os_reach s \<Longrightarrow> os_inv s"
  by (induction rule: os_reach.induct) (blast intro: os_inv_init os_inv_step)+

section \<open>Properties\<close>

text \<open>A stream behind its first write.\<close>

definition os_written :: "obuf \<Rightarrow> ostr" where
  "os_written b = mk_ostr\<lparr>os_buf := b, os_sent := [7, 8], os_notified := True, os_armed := True\<rparr>"

lemma os_written_reach:
  "\<exists>b. obuf_ok b \<and> o_content b = [7, 8] \<and> o_avail b = 2 \<and> o_device b \<and> os_reach (os_written b)"
proof -
  obtain b where b: "o_write [7, 8] (mk_obuf True True) = Inr (2, b)" "obuf_ok b" "o_content b = [7, 8]"
      "o_device b" "o_fired b = Suc (o_fired (mk_obuf True True))"
    using o_write_ok[OF mk_obuf_ok(1)[of True True], of "[7, 8]"] mk_obuf_ok(2)[of True True]
    by (auto simp: o_avail_def mk_obuf_def malloc_limit_def)
  have av: "o_avail b = 2" using length_o_content[OF b(2)] b(3) by simp
  have "os_write True [7, 8] mk_ostr = Inr (os_written b)"
    using b(1,5) av
    by (simp add: os_write_def os_written_def mk_ostr_def os_notify_def os_promise_def os_run_def Let_def)
  then have "os_reach (os_written b)"
    by (intro os_next[OF os_start] os_step_write) (simp_all add: mk_ostr_def)
  with b av show ?thesis by blast
qed

text \<open>C12: Streams never get stuck. However writes, closures, activations, handlers and a
  \<open>remove_on_flush\<close> interleave, the channel and the buffer together hold what was written, in order;
  and while the stream belongs to its reactor and has data, or is disabled and not yet removed, its
  event is registered with the demultiplexer, or a closure waits for the owner, or a handler runs. The
  assertion at the beginning of the handler can fail only behind a \<open>remove_on_flush\<close>.\<close>

theorem ostream_no_stall:
  assumes "os_reach s"
  shows "os_ch s @ o_content (os_buf s) = os_sent s \<and>
    (os_inset s \<and> (0 < o_avail (os_buf s) \<or> os_disabled s) \<longrightarrow>
       os_armed s \<or> os_queue s \<noteq> [] \<or> (\<exists>t. os_tasks s t \<noteq> Idle)) \<and>
    (os_failed s \<longrightarrow> os_disabled s)"
proof -
  note inv = os_invD[OF os_inv_reach[OF assms]]
  have "under_way P s \<Longrightarrow> Idle \<notin> P \<Longrightarrow> os_armed s \<or> os_queue s \<noteq> [] \<or> (\<exists>t. os_tasks s t \<noteq> Idle)" for P
    by (auto simp: under_way_def)
  with inv show ?thesis by blast
qed

theorem ostream_no_stall_witness:
  "\<exists>b. o_content b = [7, 8] \<and> os_reach (os_written b) \<and> 0 < o_avail (os_buf (os_written b)) \<and>
     (os_armed (os_written b) \<or> os_queue (os_written b) \<noteq> [] \<or> (\<exists>t. os_tasks (os_written b) t \<noteq> Idle))"
proof -
  obtain b where b: "o_content b = [7, 8]" "o_avail b = 2" "os_reach (os_written b)"
    using os_written_reach by blast
  have "os_inset (os_written b)" "os_buf (os_written b) = b" by (simp_all add: os_written_def mk_ostr_def)
  with ostream_no_stall[OF b(3)] b show ?thesis by auto
qed

text \<open>The counterexample: a second handler runs the removal to its end between the test of
  \<open>_disabled\<close> and the assertion of the first.\<close>

lemma remove_on_flush_race: "\<exists>s. os_reach s \<and> os_failed s"
proof -
  obtain b where b: "obuf_ok b" "o_avail b = 2" "o_device b" "os_reach (os_written b)"
    using os_written_reach by blast
  obtain c rs ch where c: "o_flush 0 b [Sys_ok 1, Sys_ok 1] [] = Some (c, Inr 2, rs, ch)" "o_avail c = 0"
    using o_flush_drains[OF b(1,3), of "[Sys_ok 1, Sys_ok 1]" 0 "[]"] b(2) by auto
  define u where "u armed n d pc p q x = (os_written b)\<lparr>os_buf := q, os_ch := x, os_armed := armed,
      os_notified := n, os_disabled := d, os_tasks := (\<lambda>_. Idle)(0 := pc, 1 := p)\<rparr>" for armed n d pc p q x
  have [simp]: "os_tasks (u a n d pc p q x) 0 = pc" "os_tasks (u a n d pc p q x) (Suc 0) = p"
      "os_armed (u a n d pc p q x) = a" "os_notified (u a n d pc p q x) = n" "os_inset (u a n d pc p q x)"
      "os_disabled (u a n d pc p q x) = d" "\<not> os_failed (u a n d pc p q x)" "os_buf (u a n d pc p q x) = q"
      "os_ch (u a n d pc p q x) = x" for a n d pc p q x
    by (simp_all add: u_def os_written_def mk_ostr_def)
  have upd [simp]: "os_at 0 r (u a n d pc p q x) = u a n d r p q x" "os_at (Suc 0) r (u a n d pc p q x) = u a n d pc r q x"
      "u a n d pc p q x\<lparr>os_armed := a'\<rparr> = u a' n d pc p q x" "u a n d pc p q x\<lparr>os_notified := n'\<rparr> = u a n' d pc p q x"
      "u a n d pc p q x\<lparr>os_disabled := d'\<rparr> = u a n d' pc p q x"
      "u a n d pc p q x\<lparr>os_buf := q', os_ch := x'\<rparr> = u a n d pc p q' x'" for a a' n n' d d' pc p q q' r x x'
    by (simp_all add: u_def os_at_def fun_upd_twist)
  have "u True True False Idle Idle b [] = os_written b"
    by (simp add: u_def os_written_def mk_ostr_def fun_upd_idem)
  with b(4) have "os_reach (u True True False Idle Idle b [])" by simp
  then have "os_reach (u False True False Activated Idle b [])"
    by (rule os_next) (use os_step_activate[of "u True True False Idle Idle b []" 0] in simp)
  then have "os_reach (u False True False Enabled Idle b [])"
    by (rule os_next) (use os_step_test[of "u False True False Activated Idle b []" 0] in \<open>simp add: os_test_def\<close>)
  then have "os_reach (u True True True Enabled Idle b [])"
    by (rule os_next) (use os_step_remove[of "u False True False Enabled Idle b []" True] b(2) in
        \<open>simp add: os_remove_on_flush_def os_promise_def os_run_def\<close>)
  then have "os_reach (u False True True Enabled Activated b [])"
    by (rule os_next) (use os_step_activate[of "u True True True Enabled Idle b []" 1] in simp)
  then have "os_reach (u False True True Enabled Disabled b [])"
    by (rule os_next) (use os_step_test[of "u False True True Enabled Activated b []" 1] in \<open>simp add: os_test_def\<close>)
  then have "os_reach (u False True True Enabled Flushed c ch)"
    by (rule os_next) (use os_step_flush[of "u False True True Enabled Disabled b []" 1 "[Sys_ok 1, Sys_ok 1]"] c in
        \<open>simp add: os_flush_def\<close>)
  then have "os_reach (u False False True Enabled Leaving c ch)"
    by (rule os_next) (use os_step_flushed[of "u False True True Enabled Flushed c ch" 1 True] c(2) in
        \<open>simp add: os_flushed_def os_notify_def\<close>)
  then have "os_reach ((u False False True Enabled Leaving c ch)\<lparr>os_failed := True\<rparr>)"
    by (rule os_next) (use os_step_assert[of "u False False True Enabled Leaving c ch" 0] in
        \<open>simp add: os_assert_def\<close>)
  moreover have "os_failed ((u False False True Enabled Leaving c ch)\<lparr>os_failed := True\<rparr>)" by simp
  ultimately show ?thesis by blast
qed

end
