(* ===== verification/ArchiveTypes.thy ===== *)
theory ArchiveTypes
  imports Archive
begin

text \<open>
  Reading an archive from arbitrary bytes (include/dtc/archive/binary.hpp): the values that
  \<open>BinaryInputArchiver\<close> leaves in its targets belong to their types whatever the buffer holds, also
  when it holds less than an encoding.

  \<open>ty\<close> are the values of a type: as \<open>wt\<close>, but a number may be indeterminate, since a short buffer
  leaves it as it was.
\<close>

section \<open>Values of a type\<close>

definition in_range :: "nat \<Rightarrow> cval \<Rightarrow> bool" where
  "in_range w v \<longleftrightarrow> v = V_indet \<or> is_num w v"

fun ty :: "cxx \<Rightarrow> cty \<Rightarrow> cval \<Rightarrow> bool"
  and ty_alt :: "cxx \<Rightarrow> cty list \<Rightarrow> nat \<Rightarrow> cval \<Rightarrow> bool"
  and ty_fields :: "cxx \<Rightarrow> cty list \<Rightarrow> cval list \<Rightarrow> bool" where
  "ty C (T_num w) v = in_range w v"
| "ty C (T_enum w) v = in_range w v"
| "ty C (T_string w) v = (case v of V_list xs \<Rightarrow> length xs \<le> c_max C \<and> list_all (in_range w) xs | _ \<Rightarrow> False)"
| "ty C (T_vector t) v = (case v of V_list xs \<Rightarrow> length xs \<le> c_max C \<and> list_all (ty C t) xs | _ \<Rightarrow> False)"
| "ty C (T_seq t) v = (case v of V_list xs \<Rightarrow> length xs \<le> c_max C \<and> list_all (ty C t) xs | _ \<Rightarrow> False)"
| "ty C (T_map k t) v = (case v of
       V_list es \<Rightarrow> list_all (wt_entry (ty C k) (ty C t)) es \<and> ascending C es | _ \<Rightarrow> False)"
| "ty C (T_umap k t) v = (case v of
       V_list es \<Rightarrow> list_all (wt_entry (ty C k) (ty C t)) es \<and> no_duplicates C es | _ \<Rightarrow> False)"
| "ty C (T_set t) v = (case v of V_list xs \<Rightarrow> list_all (ty C t) xs \<and> ascending C xs | _ \<Rightarrow> False)"
| "ty C (T_uset t) v = (case v of V_list xs \<Rightarrow> list_all (ty C t) xs \<and> no_duplicates C xs | _ \<Rightarrow> False)"
| "ty C (T_array n t) v = (case v of V_list xs \<Rightarrow> length xs = n \<and> list_all (ty C t) xs | _ \<Rightarrow> False)"
| "ty C (T_variant ts) v = (case v of V_variant i x \<Rightarrow> ty_alt C ts i x | _ \<Rightarrow> False)"
| "ty C (T_unique_ptr t) v = (case v of V_none \<Rightarrow> True | V_some x \<Rightarrow> ty C t x | _ \<Rightarrow> False)"
| "ty C T_error_code v = (case v of V_errc c n \<Rightarrow> n < 256 ^ 4 | _ \<Rightarrow> False)"
| "ty C (T_duration t) v = ty C t v"
| "ty C (T_time_point t) v = ty C t v"
| "ty C (T_optional t) v = (case v of V_none \<Rightarrow> True | V_some x \<Rightarrow> ty C t x | _ \<Rightarrow> False)"
| "ty C (T_tuple ts) v = (case v of V_list xs \<Rightarrow> ty_fields C ts xs | _ \<Rightarrow> False)"
| "ty C (T_eigen w) v = (case v of
       V_matrix r c xs \<Rightarrow> r < 2 ^ 63 \<and> c < 2 ^ 63 \<and> r * c = length xs \<and> list_all (in_range w) xs
     | _ \<Rightarrow> False)"
| "ty C (T_class ts ds) v = (case v of V_list xs \<Rightarrow> ty_fields C ts xs | _ \<Rightarrow> False)"
| "ty_alt C [] i x = False"
| "ty_alt C (t # ts) 0 x = ty C t x"
| "ty_alt C (t # ts) (Suc i) x = ty_alt C ts i x"
| "ty_fields C (t # ts) (v # vs) = (ty C t v \<and> ty_fields C ts vs)"
| "ty_fields C [] [] = True"
| "ty_fields C _ _ = False"

text \<open>The types there are in C++: a variant has an alternative, durations count in a number, and the
  initializers of the fields of a class belong to them.\<close>

fun cty_ok :: "cxx \<Rightarrow> cty \<Rightarrow> bool" and ctys_ok :: "cxx \<Rightarrow> cty list \<Rightarrow> bool" where
  "cty_ok C (T_vector t) = cty_ok C t"
| "cty_ok C (T_seq t) = cty_ok C t"
| "cty_ok C (T_map k t) = (cty_ok C k \<and> cty_ok C t)"
| "cty_ok C (T_umap k t) = (cty_ok C k \<and> cty_ok C t)"
| "cty_ok C (T_set t) = cty_ok C t"
| "cty_ok C (T_uset t) = cty_ok C t"
| "cty_ok C (T_array n t) = cty_ok C t"
| "cty_ok C (T_variant ts) = (ts \<noteq> [] \<and> ctys_ok C ts)"
| "cty_ok C (T_unique_ptr t) = cty_ok C t"
| "cty_ok C (T_duration t) = (is_arithmetic t \<noteq> None)"
| "cty_ok C (T_time_point t) = cty_ok C t"
| "cty_ok C (T_optional t) = cty_ok C t"
| "cty_ok C (T_tuple ts) = ctys_ok C ts"
| "cty_ok C (T_class ts ds) = (ctys_ok C ts \<and> ty_fields C ts ds)"
| "cty_ok C (T_num w) = True"
| "cty_ok C (T_enum w) = True"
| "cty_ok C (T_string w) = True"
| "cty_ok C T_error_code = True"
| "cty_ok C (T_eigen w) = True"
| "ctys_ok C [] = True"
| "ctys_ok C (t # ts) = (cty_ok C t \<and> ctys_ok C ts)"

lemma in_range_simps [simp]:
  "in_range w V_indet" "x < 256 ^ w \<Longrightarrow> in_range w (V_num x)"
  by (simp_all add: in_range_def is_num_def)

lemma ty_default:
  "cty_ok C t \<Longrightarrow> ty C t (default_val t)"
  "ctys_ok C ts \<Longrightarrow> ty_fields C ts (map default_val ts)"
proof (induction C t and C ts rule: cty_ok_ctys_ok.induct)
  case (10 C t)
  then show ?case by (auto simp: is_arithmetic_Some)
qed (auto simp: ascending_def no_duplicates_def list_all_iff split: list.splits)

lemma ty_indet: "cty_ok C t \<Longrightarrow> ty C t (indet_val t)"
proof (induction t rule: indet_val.induct)
  case (4 t)
  then show ?case by (auto simp: is_arithmetic_Some)
qed (auto simp: list_all_iff ascending_def no_duplicates_def ty_default split: list.splits)

lemma ty_alt_nth: "ty_alt C ts i x \<longleftrightarrow> i < length ts \<and> ty C (ts ! i) x"
proof (induction ts arbitrary: i)
  case (Cons t ts)
  then show ?case by (cases i) simp_all
qed simp

lemma ctys_ok_nth: "ctys_ok C ts \<Longrightarrow> i < length ts \<Longrightarrow> cty_ok C (ts ! i)"
  by (induction ts arbitrary: i) (auto simp: nth_Cons split: nat.splits)

section \<open>Readings that yield values of a kind\<close>

definition yields :: "('a \<Rightarrow> bool) \<Rightarrow> ('s \<Rightarrow> ('a, 's) reading) \<Rightarrow> bool" where
  "yields P f \<longleftrightarrow> (\<forall>b n x b'. f b = Inr (n, x, b') \<longrightarrow> P x)"

lemma yieldsD: "yields P f \<Longrightarrow> f b = Inr (n, x, b') \<Longrightarrow> P x"
  by (auto simp: yields_def)

lemma yields_value: "P x \<Longrightarrow> yields P (\<lambda>b. Inr (n, x, b))"
  by (simp add: yields_def)

lemma yields_error: "yields P (\<lambda>b. Inl e)"
  by (simp add: yields_def)

lemma yields_if: "(c \<Longrightarrow> yields P f) \<Longrightarrow> (\<not> c \<Longrightarrow> yields P g) \<Longrightarrow> yields P (\<lambda>b. if c then f b else g b)"
  by (cases c) simp_all

lemma yields_bind: "(\<And>x. r = Inr x \<Longrightarrow> yields P (f x)) \<Longrightarrow> yields P (\<lambda>b. bind_r r (\<lambda>x. f x b))"
  by (fastforce simp: yields_def)

lemma yields_then: "yields Q f \<Longrightarrow> (\<And>x. Q x \<Longrightarrow> yields P (g x)) \<Longrightarrow> yields P (\<lambda>b. then_r (f b) g)"
  by (fastforce simp: yields_def then_r_def)

lemma yields_map: "yields Q f \<Longrightarrow> (\<And>x y. Q x \<Longrightarrow> g x = Inr y \<Longrightarrow> P y) \<Longrightarrow> yields P (\<lambda>b. map_r g (f b))"
  by (fastforce simp: yields_def map_r_def)

lemma yields_use: "yields P f \<Longrightarrow> yields P (\<lambda>b. map_r use_val (f b))"
  by (erule yields_map) (simp add: use_val_def split: if_splits)

lemma yields_list: "yields P f \<Longrightarrow> (\<And>ys. P ys \<Longrightarrow> Q (V_list ys)) \<Longrightarrow> yields Q (\<lambda>b. map_r (\<lambda>ys. Inr (V_list ys)) (f b))"
  by (erule yields_map) auto

lemma fill_num_range: "length bs \<le> w \<Longrightarrow> in_range w old \<Longrightarrow> in_range w (fill_num w old bs)"
  using of_le_less [of bs] of_le_less [of "bs @ drop (length bs) (le_bytes w x)" for x]
  by (force simp: fill_num_def in_range_def is_num_def simp del: le_bytes.simps split: cval.splits)

lemma fill_block_range:
  "list_all (in_range w) olds \<Longrightarrow> list_all (in_range w) (fill_block w olds bs)"
  "length (fill_block w olds bs) = length olds"
  by (induction w olds bs rule: fill_block.induct) (auto intro: fill_num_range)

lemma yields_num: "in_range w old \<Longrightarrow> yields (in_range w) (i_num w old)"
  by (auto simp: yields_def i_num_def i_read_def Let_def split: if_splits intro!: fill_num_range)

lemma yields_block:
  "list_all (in_range w) olds \<Longrightarrow> yields (\<lambda>ys. length ys = length olds \<and> list_all (in_range w) ys) (i_block w olds)"
  by (auto simp: yields_def i_block_def fill_block_range)

lemma yields_nat: "in_range w old \<Longrightarrow> yields (\<lambda>n. n < 256 ^ w) (\<lambda>b. map_r use_num (i_num w old b))"
  by (rule yields_map, erule yields_num) (auto simp: use_num_def in_range_def is_num_def split: cval.splits)

lemma yields_items:
  assumes "\<And>x. x \<in> set xs \<Longrightarrow> yields P (f x)"
  shows "yields (\<lambda>ys. length ys = length xs \<and> list_all P ys) (i_items f xs)"
  using assms
proof (induction xs)
  case Nil
  then show ?case by (simp add: yields_value i_items.simps [abs_def])
next
  case (Cons x xs)
  have "yields (\<lambda>ys. length ys = length (x # xs) \<and> list_all P ys)
      (\<lambda>b. map_r (\<lambda>ys. Inr (y # ys)) (i_items f xs b))" if "P y" for y
    by (rule yields_map [OF Cons.IH]) (use Cons.prems that in auto)
  then have "yields (\<lambda>ys. length ys = length (x # xs) \<and> list_all P ys)
      (\<lambda>b. then_r (f x b) (\<lambda>y b. map_r (\<lambda>ys. Inr (y # ys)) (i_items f xs b)))"
    by (intro yields_then [where Q = P]) (simp_all add: Cons.prems)
  then show ?case by (simp add: i_items.simps [abs_def])
qed

lemma yields_emplace:
  assumes f: "\<And>x. P x \<Longrightarrow> yields P (f x)" and mv: "\<And>x. P x \<Longrightarrow> P (mv x)"
    and ins: "\<And>y es. P y \<Longrightarrow> I es \<Longrightarrow> I (ins y es)" and "P x" "I es"
  shows "yields I (i_emplace f ins mv n x es)"
  using assms(4,5)
proof (induction n arbitrary: x es)
  case 0
  then show ?case by (simp add: yields_value i_emplace.simps [abs_def])
next
  case (Suc n)
  have "yields I (\<lambda>b. then_r (map_r use_val (f x b)) (\<lambda>y b. i_emplace f ins mv n (mv y) (ins y es) b))"
    by (rule yields_then [OF yields_use [OF f [OF Suc.prems(1)]]]) (intro Suc.IH mv ins Suc.prems)
  then show ?case by (simp add: i_emplace.simps [abs_def])
qed

text \<open>The containers that are filled keep their order and have no key twice.\<close>

lemma emplace_hint_set: "set (emplace_hint lt y es) \<subseteq> insert y (set es)"
  by (induction es) auto

lemma emplace_hint_ascends:
  assumes "transp (c_less C)" "ascending C es"
  shows "ascending C (emplace_hint (c_less C) y es)"
  using assms(2)
proof (induction es)
  case (Cons e es)
  let ?l = "\<lambda>x z. c_less C (key_of x) (key_of z)"
  have e: "\<forall>z \<in> set es. ?l e z" and es: "ascending C es" "ascending C (emplace_hint (c_less C) y es)"
    using Cons by (simp_all add: ascending_def)
  consider "?l e y" | "\<not> ?l e y" "?l y e" | "\<not> ?l e y" "\<not> ?l y e" by blast
  then show ?case
  proof cases
    case 1
    then have "\<forall>z \<in> set (emplace_hint (c_less C) y es). ?l e z"
      using e emplace_hint_set [of "c_less C" y es] by blast
    with 1 es(2) show ?thesis by (simp add: ascending_def)
  next
    case 2
    then have "\<forall>z \<in> set es. ?l y z" using e transpD [OF assms(1)] by blast
    with 2 Cons.prems show ?thesis by (simp add: ascending_def)
  qed (use Cons.prems in simp)
qed (simp add: ascending_def)

lemma emplace_hint_keeps:
  "transp (c_less C) \<Longrightarrow> P y \<Longrightarrow> list_all P es \<and> ascending C es \<Longrightarrow>
    list_all P (emplace_hint (c_less C) y es) \<and> ascending C (emplace_hint (c_less C) y es)"
  using emplace_hint_set [of "c_less C" y es] by (auto simp: list_all_iff intro: emplace_hint_ascends)

lemma emplace_hash_keeps:
  "P y \<Longrightarrow> list_all P es \<and> no_duplicates C es \<Longrightarrow>
    list_all P (emplace_hash (c_equal C) y es) \<and> no_duplicates C (emplace_hash (c_equal C) y es)"
  by (auto simp: emplace_hash_def no_duplicates_def sorted_wrt_append list_ex_iff)

lemma yields_entry:
  assumes "wt_entry P Q e" "\<And>k. P k \<Longrightarrow> yields P (fk k)" "\<And>v. Q v \<Longrightarrow> yields Q (fv v)"
  shows "yields (wt_entry P Q) (i_entry fk fv e)"
proof -
  obtain k v where e: "e = V_pair k v" "P k" "Q v"
    using assms(1) by (auto simp: wt_entry_def split: cval.splits)
  have "yields (wt_entry P Q) (\<lambda>b. then_r (fk k b) (\<lambda>k b. map_r (\<lambda>v. Inr (V_pair k v)) (fv v b)))"
    using assms(2,3) e(2,3)
    by (intro yields_then [where Q = P] yields_map [where Q = Q]) (auto simp: wt_entry_def)
  then show ?thesis by (simp add: i_entry_def [abs_def] e(1) key_of_def value_of_def)
qed

text \<open>What the standard library promises: a comparison is transitive, and an object that has been moved
  from is still one of its type.\<close>

definition cxx_doc :: "cxx \<Rightarrow> bool" where
  "cxx_doc C \<longleftrightarrow> transp (c_less C) \<and> (\<forall>t v. ty C t v \<longrightarrow> ty C t (c_moved C v))"

lemma cxx_docD: "cxx_doc C \<Longrightarrow> transp (c_less C)" "cxx_doc C \<Longrightarrow> ty C t v \<Longrightarrow> ty C t (c_moved C v)"
  by (simp_all add: cxx_doc_def)

lemma moved_entry_typed:
  "cxx_doc C \<Longrightarrow> wt_entry (ty C k) (ty C t) e \<Longrightarrow> wt_entry (ty C k) (ty C t) (moved_entry C e)"
  by (auto simp: wt_entry_def moved_entry_def cxx_docD split: cval.splits)

lemma elems_typed:
  "ty C (T_string w) v \<Longrightarrow> list_all (in_range w) (elems v)"
  "ty C (T_vector t) v \<Longrightarrow> list_all (ty C t) (elems v)"
  "ty C (T_seq t) v \<Longrightarrow> list_all (ty C t) (elems v)"
  "ty C (T_tuple ts) v \<Longrightarrow> ty_fields C ts (elems v)"
  "ty C (T_class ts ds) v \<Longrightarrow> ty_fields C ts (elems v)"
  by (auto simp: elems_def split: cval.splits)

lemma old_elems_typed: "ty C (T_array n t) v \<Longrightarrow> length (old_elems n t v) = n \<and> list_all (ty C t) (old_elems n t v)"
  by (auto simp: old_elems_def elems_def split: cval.splits)

lemma yields_resized:
  assumes "list_all P xs" "P new"
    and f: "\<And>xs. list_all P xs \<Longrightarrow> length xs \<le> c_max C \<Longrightarrow>
      yields (\<lambda>ys. length ys = length xs \<and> list_all P ys) (f xs)"
    and Q: "\<And>ys. length ys \<le> c_max C \<Longrightarrow> list_all P ys \<Longrightarrow> Q (V_list ys)"
  shows "yields Q (\<lambda>b. then_r (i_size_tag b) (\<lambda>n b. bind_r (resize_to C new n xs) (\<lambda>xs.
       map_r (\<lambda>ys. Inr (V_list ys)) (f xs b))))"
proof (rule yields_then [where Q = "\<lambda>_. True"])
  show "yields (\<lambda>_. True) i_size_tag" by (simp add: yields_def)
  fix n
  show "yields Q (\<lambda>b. bind_r (resize_to C new n xs) (\<lambda>xs. map_r (\<lambda>ys. Inr (V_list ys)) (f xs b)))"
  proof (rule yields_bind)
    fix zs
    assume "resize_to C new n xs = Inr zs"
    then have z: "list_all P zs" "length zs \<le> c_max C"
      using assms(1,2) by (auto simp: resize_to_def list_all_iff split: if_splits dest!: in_set_takeD)
    show "yields Q (\<lambda>b. map_r (\<lambda>ys. Inr (V_list ys)) (f zs b))"
      by (rule yields_list [OF f [OF z]]) (use z(2) Q in auto)
  qed
qed

section \<open>Type safety\<close>

lemma yields_any: "(\<And>x. yields P (g x)) \<Longrightarrow> yields P (\<lambda>b. then_r (f b) g)"
  by (rule yields_then [where Q = "\<lambda>_. True"]) (simp_all add: yields_def)

lemma yields_some:
  "yields (ty C t) f \<Longrightarrow> (\<And>x. ty C t x \<Longrightarrow> Q (V_some x)) \<Longrightarrow> yields Q (\<lambda>b. map_r (\<lambda>y. Inr (V_some y)) (f b))"
  by (erule yields_map) auto

lemma yields_sorted:
  assumes "cxx_doc C" "\<And>x. P x \<Longrightarrow> yields P (f x)" "\<And>x. P x \<Longrightarrow> P (mv x)" "P x"
  shows "yields (\<lambda>es. list_all P es \<and> ascending C es) (i_emplace f (emplace_hint (c_less C)) mv n x [])"
  using assms emplace_hint_keeps [OF cxx_docD(1)]
  by (intro yields_emplace [where P = P]) (simp_all add: ascending_def)

lemma yields_hashed:
  assumes "\<And>x. P x \<Longrightarrow> yields P (f x)" "\<And>x. P x \<Longrightarrow> P (mv x)" "P x"
  shows "yields (\<lambda>es. list_all P es \<and> no_duplicates C es) (i_emplace f (emplace_hash (c_equal C)) mv n x [])"
  using assms emplace_hash_keeps by (intro yields_emplace [where P = P]) (simp_all add: no_duplicates_def)

lemma yields_matrix:
  assumes "ty C (T_eigen w) old"
  shows "yields (ty C (T_eigen w)) (i_archive C (T_eigen w) old)"
proof -
  obtain r c xs where o: "old = V_matrix r c xs" "r < 2 ^ 63" "c < 2 ^ 63" "list_all (in_range w) xs"
    using assms by (auto split: cval.splits)
  have "yields (ty C (T_eigen w)) (\<lambda>b. bind_r (resize_matrix C n m xs) (\<lambda>zs.
      map_r (\<lambda>ys. Inr (V_matrix n m ys)) (i_block w zs b)))" for n m
  proof (rule yields_bind)
    fix zs
    assume "resize_matrix C n m xs = Inr zs"
    then have z: "n < 2 ^ 63" "m < 2 ^ 63" "n * m = length zs" "list_all (in_range w) zs"
      using o(4) by (auto simp: resize_matrix_def list_all_iff split: if_splits)
    show "yields (ty C (T_eigen w)) (\<lambda>b. map_r (\<lambda>ys. Inr (V_matrix n m ys)) (i_block w zs b))"
      by (rule yields_map [OF yields_block [OF z(4)]]) (use z in auto)
  qed
  then show ?thesis
    unfolding i_archive_fun by (simp only: o(1) old_matrix_def cval.case fst_conv snd_conv) (intro yields_any)
qed

lemma archive_yields:
  "cxx_doc C \<Longrightarrow> cty_ok C t \<Longrightarrow> ty C t old \<Longrightarrow> yields (ty C t) (i_archive C t old)"
  "cxx_doc C \<Longrightarrow> ctys_ok C ts \<Longrightarrow> (i < length ts \<longrightarrow> ty C (ts ! i) x \<longrightarrow> yields (ty C (ts ! i)) (i_alt C ts i x)) \<and>
     (ty_fields C ts vs \<longrightarrow> yields (ty_fields C ts) (i_fields C ts vs))"
proof (induction C t and C ts arbitrary: old and i x vs rule: cty_ok_ctys_ok.induct)
  case (1 C t)
  have "yields (\<lambda>ys. length ys = length xs \<and> list_all (ty C t) ys)
      (\<lambda>b. case is_arithmetic t of Some w \<Rightarrow> i_block w xs b | None \<Rightarrow> i_items (i_archive C t) xs b)"
    if xs: "list_all (ty C t) xs" for xs
  proof (cases "is_arithmetic t")
    case None
    have "yields (\<lambda>ys. length ys = length xs \<and> list_all (ty C t) ys) (i_items (i_archive C t) xs)"
      by (rule yields_items) (use 1 xs in \<open>auto simp: list_all_iff\<close>)
    with None show ?thesis by simp
  next
    case (Some w)
    then show ?thesis using xs yields_block [of w xs] by (simp add: is_arithmetic_Some ty.simps [abs_def])
  qed
  then show ?case
    unfolding i_archive_fun
    by (intro yields_resized [where P = "ty C t"]) (use 1 elems_typed(2) ty_default(1) in auto)
next
  case (2 C t)
  then show ?case
    unfolding i_archive_fun
    by (intro yields_resized [where P = "ty C t"] yields_items)
      (use elems_typed(3) ty_default(1) in \<open>auto simp: list_all_iff\<close>)
next
  case (3 C k t)
  then have e: "wt_entry (ty C k) (ty C t) (V_pair (indet_val k) (indet_val t))"
    by (simp add: wt_entry_def ty_indet)
  show ?case
    unfolding i_archive_fun
    by (intro yields_any yields_list [OF yields_sorted [where P = "wt_entry (ty C k) (ty C t)"]]
        yields_entry moved_entry_typed e)
      (use 3 in auto)
next
  case (4 C k t)
  then have e: "wt_entry (ty C k) (ty C t) (V_pair (indet_val k) (indet_val t))"
    by (simp add: wt_entry_def ty_indet)
  show ?case
    unfolding i_archive_fun
    by (intro yields_any yields_if yields_error
        yields_list [OF yields_hashed [where P = "wt_entry (ty C k) (ty C t)"]]
        yields_entry moved_entry_typed e)
      (use 4 in auto)
next
  case (5 C t)
  then show ?case
    unfolding i_archive_fun
    by (intro yields_any yields_list [OF yields_sorted [where P = "ty C t"]])
      (auto intro: cxx_docD ty_indet)
next
  case (6 C t)
  then show ?case
    unfolding i_archive_fun
    by (intro yields_any yields_if yields_error yields_list [OF yields_hashed [where P = "ty C t"]])
      (auto intro: cxx_docD ty_indet)
next
  case (7 C n t)
  have xs: "length (old_elems n t old) = n" "list_all (ty C t) (old_elems n t old)"
    using old_elems_typed 7(4) by auto
  show ?case
  proof (cases "is_arithmetic t")
    case None
    then show ?thesis
      unfolding i_archive_fun using 7 xs
      by (simp, intro yields_list [OF yields_items [where P = "ty C t"]]) (auto simp: list_all_iff)
  next
    case (Some w)
    then have "list_all (in_range w) (old_elems n t old)" "ty C t = in_range w"
      using xs(2) by (auto simp: is_arithmetic_Some ty.simps [abs_def])
    then show ?thesis
      unfolding i_archive_fun using Some xs(1)
      by (simp, intro yields_list [OF yields_block]) auto
  qed
next
  case (8 C ts)
  then obtain j y where old: "old = V_variant j y" "j < length ts" "ty C (ts ! j) y"
    by (auto simp: ty_alt_nth split: cval.splits)
  have "ty C (ts ! i) (old_alt ts i old)" if "i < length ts" for i
    using 8(3) ctys_ok_nth [OF _ that] old(3) by (auto simp: old_alt_def old(1) ty_default)
  then have alt: "yields (ty C (ts ! i)) (i_alt C ts i (old_alt ts i old))" if "i < length ts" for i
    using 8 that by auto
  show ?case
    unfolding i_archive_fun
    by (intro yields_any yields_if yields_map [OF alt] yields_value)
      (use 8 in \<open>auto simp: ty_alt_nth\<close>)
next
  case (9 C t)
  then show ?case
    unfolding i_archive_fun
    by (intro yields_any yields_if yields_some [where C = C and t = t] yields_value)
      (auto intro: ty_default)
next
  case (10 C t)
  then obtain w where "t = T_num w" by (auto simp: is_arithmetic_Some)
  then show ?case using yields_use [OF yields_num [of w V_indet]] by (simp add: i_archive_fun ty.simps [abs_def])
next
  case (11 C t)
  then show ?case
    unfolding i_archive_fun ty.simps [abs_def] by (intro yields_use) (auto intro: ty_indet)
next
  case (12 C t)
  then show ?case
    unfolding i_archive_fun
    by (intro yields_any yields_if yields_error yields_some [where C = C and t = t] yields_value)
      (auto simp: old_some_def intro: ty_default split: cval.splits)
next
  case (13 C ts)
  then show ?case
    unfolding i_archive_fun by (intro yields_list) (use elems_typed(4) in auto)
next
  case (14 C ts ds)
  then show ?case
    unfolding i_archive_fun by (intro yields_list) (use elems_typed(5) in auto)
next
  case (15 C w)
  then show ?case using yields_num by (simp add: i_archive_fun ty.simps [abs_def])
next
  case (16 C w)
  then show ?case using yields_use [OF yields_num [of w V_indet]] by (simp add: i_archive_fun ty.simps [abs_def])
next
  case (17 C w)
  show ?case
    unfolding i_archive_fun
    by (intro yields_resized [where P = "in_range w"] yields_block) (use 17 elems_typed(1) in auto)
next
  case (18 C)
  have "yields (ty C T_error_code) (\<lambda>b. map_r (\<lambda>v. bind_r (to_error_category c) (\<lambda>c. bind_r (use_num v) (\<lambda>v. Inr (V_errc c v))))
      (i_num 4 V_indet b))" for c
    by (rule yields_map [OF yields_num])
      (auto simp: use_num_def in_range_def is_num_def split: cval.splits)
  then show ?case unfolding i_archive_fun by (intro yields_any)
next
  case (19 C w)
  then show ?case by (intro yields_matrix)
next
  case (20 C)
  then show ?case by (auto simp: i_archive_fun yields_value elim: ty_fields.elims)
next
  case (21 C t ts)
  have "yields (ty_fields C (t # ts)) (i_fields C (t # ts) vs)" if vs: "ty_fields C (t # ts) vs"
  proof -
    obtain v us where v: "vs = v # us" "ty C t v" "ty_fields C ts us" using vs by (cases vs) auto
    show ?thesis
      unfolding i_archive_fun v(1)
      by (simp, intro yields_then [where Q = "ty C t"] yields_map [where Q = "ty_fields C ts"])
        (use 21 v in auto)
  qed
  moreover have "yields (ty C ((t # ts) ! i)) (i_alt C (t # ts) i x)"
    if "i < length (t # ts)" "ty C ((t # ts) ! i) x"
    using 21 that by (cases i) (auto simp: i_archive_fun)
  ultimately show ?case by blast
qed

text \<open>The values written by the other side are among those of the type.\<close>

lemma is_num_in_range: "is_num w v \<Longrightarrow> in_range w v"
  by (simp add: in_range_def)

lemma wt_ty:
  "wt C t v \<Longrightarrow> ty C t v"
  "wt_alt C ts i x \<Longrightarrow> ty_alt C ts i x"
  "wt_fields C ts vs \<Longrightarrow> ty_fields C ts vs"
proof (induction C t v and C ts i x and C ts vs rule: wt_wt_alt_wt_fields.induct)
qed (auto simp: is_num_in_range size_ok_def list_all_iff wt_entry_def split: cval.splits)

text \<open>C17: whatever bytes a buffer holds, truncated and forged ones included: when \<open>BinaryInputArchiver\<close>
  has read into a target of a type and returns, the value is one of that type. Numbers fit their width, a
  variant holds one of its alternatives, arrays and matrices have the size they say, maps and sets are
  sorted without duplicates, and strings, vectors and sequences are no larger than the allocator grants.
  "Returns" leaves out two outcomes, both \<open>Inl\<close> in the model: an exception, and undefined
  behaviour, which forged bytes can lead to as well (a size tag that is cut off leaves an uninitialised
  size, a byte other than 0 and 1 an indeterminate \<open>bool\<close>).\<close>

theorem archive_type_safe:
  assumes "cxx_doc C" "cty_ok C t" "ty C t old" "i_archive C t old b = Inr (n, v, b')"
  shows "ty C t v"
  using yieldsD [OF archive_yields(1) [OF assms(1-3)] assms(4)] .

text \<open>A map with keys out of order and one key twice, behind a number, and a vector that is cut off.\<close>

definition forged_type :: cty where
  "forged_type = T_class [T_num 2, T_map (T_num 1) (T_enum 1), T_vector (T_num 2)] [V_num 7, V_list [], V_list []]"

definition forged :: ibuf where
  "forged = (mk_ibuf True False)\<lparr>b_heap := Some ([1, 1] @ [3, 0, 0, 0, 0, 0, 0, 0, 5, 1, 2, 9, 5, 8] @
     [2, 0, 0, 0, 0, 0, 0, 0, 3, 0, 4]), i_egptr := 27\<rparr>"

lemma example_cxx_doc: "cxx_doc example_cxx"
  by (auto simp: cxx_doc_def example_cxx_def transp_def split: cval.splits)

lemma read_forged:
  "\<exists>b. i_archive example_cxx forged_type (default_val forged_type) forged =
     Inr (27, V_list [V_num 257, V_list [V_pair (V_num 2) (V_num 9), V_pair (V_num 5) (V_num 1)], V_list [V_num 3, V_num 4]], b)"
  by (rule exI, code_simp)

lemma archive_type_safe_witness:
  "\<exists>v b. i_archive example_cxx forged_type (default_val forged_type) forged = Inr (27, v, b) \<and>
     ty example_cxx forged_type v \<and>
     v = V_list [V_num 257, V_list [V_pair (V_num 2) (V_num 9), V_pair (V_num 5) (V_num 1)], V_list [V_num 3, V_num 4]]"
proof -
  have ok: "cty_ok example_cxx forged_type"
    by (simp add: forged_type_def ascending_def)
  from ok have old: "ty example_cxx forged_type (default_val forged_type)" by (rule ty_default)
  from read_forged archive_type_safe [OF example_cxx_doc ok old] show ?thesis by blast
qed

end
