(* ===== verification/BlockFile.thy ===== *)
theory BlockFile
  imports Archive
begin

text \<open>
  Regular files as devices (class \<open>BlockFile\<close>, ipc/block_file.cpp), which override \<open>read\<close> and
  \<open>write\<close>, and the two functions that keep an object in a file, \<open>save\<close> and \<open>load\<close> of the classifiers
  and regressors in ml/dnn.cpp: they archive into a buffer and flush it, and purge a buffer and read
  from it.

  The channel of a device is here the file: what has been written, or what is still to be read.
\<close>

section \<open>The device\<close>

text \<open>An error other than an interruption is thrown, a would-block too; at the end of the file \<open>read\<close>
  returns 0.\<close>

fun bf_write :: writer where
  "bf_write bs [] ch = None"
| "bf_write bs (Sys_err e # rs) ch =
     (if e = EINTR then bf_write bs rs ch else Some (Inl (System_error e), rs, ch))"
| "bf_write bs (Sys_ok n # rs) ch =
     (let m = min n (length bs) in Some (Inr (int m), rs, ch @ take m bs))"

fun bf_read :: reader where
  "bf_read sz [] ch = None"
| "bf_read sz (Sys_err e # rs) ch =
     (if e = EINTR then bf_read sz rs ch else Some (Inl (System_error e), rs, ch))"
| "bf_read sz (Sys_ok n # rs) ch =
     (let m = min n (min sz (length ch)) in Some (Inr (int m, take m ch), rs, drop m ch))"

text \<open>The flags \<open>make_block_file\<close> opens a file with; an empty path stands for a temporary file.\<close>

datatype open_flag = O_CLOEXEC | O_RDWR | O_RDONLY | O_WRONLY | O_APPEND | O_TRUNC | O_TMPFILE | O_EXCL | O_CREAT

definition block_file_flags :: "string \<Rightarrow> bool \<Rightarrow> bool \<Rightarrow> bool \<Rightarrow> bool \<Rightarrow> open_flag list result" where
  "block_file_flags path m_in m_out m_app m_trunc =
     bind_r (if m_in \<and> m_out then Inr [O_RDWR]
             else if m_in then Inr [O_RDONLY]
             else if m_out then Inr [O_WRONLY]
             else Inl (Runtime_error ''Must specify 'in' or 'out' to create a device''))
       (\<lambda>acc. Inr ([O_CLOEXEC] @ acc @ (if m_app then [O_APPEND] else []) @ (if m_trunc then [O_TRUNC] else []) @
          (if path = '''' then [O_TMPFILE, O_EXCL] else [O_CREAT])))"

section \<open>Objects in files\<close>

definition ml_save :: "cty \<Rightarrow> cval \<Rightarrow> sysret list \<Rightarrow> (int result \<times> u8 list) option" where
  "ml_save t v rs = (case o_archive t v (mk_obuf True False) of
       Inl e \<Rightarrow> Some (Inl e, [])
     | Inr (sz1, ob) \<Rightarrow>
         (case flush_out bf_write 0 ob rs [] of
            None \<Rightarrow> None
          | Some (ob, Inl e, rs, file) \<Rightarrow> Some (Inl e, file)
          | Some (ob, Inr sz2, rs, file) \<Rightarrow>
              Some (if int sz1 \<noteq> sz2 \<or> o_avail ob \<noteq> 0 then Inl (Runtime_error ''Failed to save'')
                    else Inr (int sz1), file)))"

definition ml_load :: "cxx \<Rightarrow> cty \<Rightarrow> cval \<Rightarrow> sysret list \<Rightarrow> u8 list \<Rightarrow> (int \<times> cval) result option" where
  "ml_load C t old rs file = (case purge_in bf_read 0 (mk_ibuf True False) rs file of
       None \<Rightarrow> None
     | Some (b, Inl e, rs, file) \<Rightarrow> Some (Inl e)
     | Some (b, Inr sz1, rs, file) \<Rightarrow>
         Some (bind_r (i_archive C t old b) (\<lambda>(sz2, v, b).
           if sz1 \<noteq> int sz2 \<or> i_avail b \<noteq> 0 then Inl (Runtime_error ''Failed to load'') else Inr (sz1, v))))"

section \<open>Files are devices\<close>

interpretation bf_out: out_device bf_write
proof
  fix bs rs ch r rs' ch'
  show "bf_write bs rs ch = Some (r, rs', ch') \<Longrightarrow>
     \<exists>m\<le>length bs. ch' = ch @ take m bs \<and>
        (case r of Inl e \<Rightarrow> m = 0 \<and> (\<exists>k. e = System_error k) | Inr x \<Rightarrow> x = int m \<or> m = 0 \<and> x = - 1)"
    by (induction bs rs ch rule: bf_write.induct) (auto simp: Let_def min_def split: if_splits)
qed

interpretation bf_in: in_device bf_read "\<lambda>x. 0 \<le> x"
proof
  fix sz rs ch r rs' ch'
  assume "0 < sz" "bf_read sz rs ch = Some (r, rs', ch')"
  then show "case r of
      Inl e \<Rightarrow> ch' = ch \<and> (\<exists>k. e = System_error k)
    | Inr (x, bs) \<Rightarrow> ch = bs @ ch' \<and> length bs \<le> sz \<and> (x = int (length bs) \<and> 0 \<le> x \<or> x = - 1 \<and> bs = [])"
    by (induction sz rs ch rule: bf_read.induct) (auto simp: Let_def min_def split: if_splits)
qed

text \<open>What the kernel does with a regular file on a disk with space: every call transfers something,
  unless the file is at its end.\<close>

definition transfers :: "sysret list \<Rightarrow> bool" where
  "transfers rs \<longleftrightarrow> list_all (\<lambda>r. \<exists>n>0. r = Sys_ok n) rs"

lemma transfers_simps [simp]:
  "transfers []" "transfers (r # rs) \<longleftrightarrow> (\<exists>n>0. r = Sys_ok n) \<and> transfers rs"
  by (simp_all add: transfers_def)

lemma sync_out_transfers:
  "transfers rs \<Longrightarrow> sync_out bf_write b rs ch = o_sync b rs ch"
  "transfers rs \<Longrightarrow> o_sync b rs ch = Some (p, rs', ch') \<Longrightarrow> transfers rs'"
  by (cases rs; auto simp: o_sync_unfold Let_def split: if_splits)+

lemma flush_transfers: "transfers rs \<Longrightarrow> flush_out bf_write sz b rs ch = o_flush sz b rs ch"
proof (induction sz b rs ch rule: o_flush.induct)
  case (1 sz b rs ch)
  then show ?case
    by (subst o_flush.simps, subst flush_out.simps)
      (auto simp: sync_out_transfers split: option.splits sum.splits dest: sync_out_transfers(2))
qed

text \<open>One read: it takes something off the file if there is something left.\<close>

lemma sync_in_transfers:
  assumes "ibuf_ok b" "4 * i_avail b < malloc_limit" "i_device b" "0 < n"
  shows "\<exists>b' m. sync_in bf_read b (Sys_ok n # rs) ch = Some (b', Inr (int m), rs, drop m ch) \<and>
    m \<le> length ch \<and> (m = 0 \<longleftrightarrow> ch = [])"
proof -
  obtain c where c: "i_reserve b = Inr (c, length (mem c))" "ibuf_ok c" "i_egptr c < length (mem c)"
    using i_reserve_ok [OF assms(1,2)] by blast
  define m where "m = min n (min (length (mem c) - i_egptr c) (length ch))"
  have "blit (i_egptr c) (take m ch) (mem c) \<noteq> Inl e" for e
    using c(3) by (simp add: blit_ok m_def)
  then obtain k where k: "blit (i_egptr c) (take m ch) (mem c) = Inr k"
    by (cases "blit (i_egptr c) (take m ch) (mem c)") auto
  have "length (mem c) - (i_egptr c - i_eback c) = length (mem c) - i_egptr c"
    using ibuf_okD(2) [OF c(2)] by simp
  then have "\<exists>b'. sync_in bf_read b (Sys_ok n # rs) ch = Some (b', Inr (int m), rs, drop m ch)"
    using assms(3) c(1) k by (simp add: sync_in_def Let_def m_def)
  moreover have "m \<le> length ch" "m = 0 \<longleftrightarrow> ch = []"
    using assms(4) c(3) by (auto simp: m_def min_def)
  ultimately show ?thesis by blast
qed

lemma purge_reads_all:
  assumes "transfers rs" "length ch < length rs" "ibuf_ok b" "i_device b"
    "4 * (i_avail b + length ch) < malloc_limit"
  shows "\<exists>b' rs'. purge_in bf_read sz b rs ch = Some (b', Inr (sz + int (length ch)), rs', []) \<and>
    ibuf_ok b' \<and> i_content b' = i_content b @ ch"
  using assms
proof (induction rs arbitrary: sz b ch)
  case (Cons r rs)
  then obtain n where r: "r = Sys_ok n" "0 < n" by auto
  have small: "4 * i_avail b < malloc_limit" using Cons.prems(5) by simp
  obtain c m where s: "sync_in bf_read b (Sys_ok n # rs) ch = Some (c, Inr (int m), rs, drop m ch)"
      "m \<le> length ch" "m = 0 \<longleftrightarrow> ch = []"
    using sync_in_transfers [OF Cons.prems(3) small Cons.prems(4) r(2)] by blast
  note eff = bf_in.sync_in_effect [OF Cons.prems(3) small s(1)]
  have c: "ibuf_ok c" "i_device c" "i_content c @ drop m ch = i_content b @ ch" "i_avail c = i_avail b + m"
    using eff Cons.prems(4) by auto
  show ?case
  proof (cases "ch = []")
    case True
    then show ?thesis using s(1,3) c r(1) by (subst purge_in.simps) simp
  next
    case False
    then have m: "0 < m" using s(3) by simp
    have "length (drop m ch) < length rs" "4 * (i_avail c + length (drop m ch)) < malloc_limit"
      using Cons.prems(2,5) m s(2) c(4) by auto
    then obtain b' rs' where "purge_in bf_read (sz + int m) c rs (drop m ch) =
        Some (b', Inr (sz + int m + int (length (drop m ch))), rs', [])"
        "ibuf_ok b'" "i_content b' = i_content c @ drop m ch"
      using Cons.IH [of "drop m ch" c "sz + int m"] Cons.prems(1) c(1,2) by auto
    then show ?thesis using s(1,2) m c(3) r(1) by (subst purge_in.simps) (simp add: of_nat_diff)
  qed
qed simp

text \<open>Archiving keeps the device of a buffer.\<close>

definition keeps_device :: "(obuf \<Rightarrow> (nat \<times> obuf) result) \<Rightarrow> bool" where
  "keeps_device f \<longleftrightarrow> (\<forall>b n b'. f b = Inr (n, b') \<longrightarrow> o_device b' = o_device b)"

lemma o_reserve_device: "o_reserve n b = Inr b' \<Longrightarrow> o_device b' = o_device b"
  unfolding o_reserve_def Let_def bind_r_eq_Inr
  by (cases "o_epptr b < o_pptr b + n"; cases "o_avail b + n \<le> csize b"; clarsimp)

lemma keeps_write [simp]: "keeps_device (o_write bs)"
  unfolding keeps_device_def o_write_def by (clarsimp simp: o_reserve_device split del: if_split)

lemma keeps_plus: "keeps_device f \<Longrightarrow> keeps_device g \<Longrightarrow> keeps_device (\<lambda>b. plus_w (f b) g)"
  by (fastforce simp: keeps_device_def plus_w_def)

lemma keeps_bind: "(\<And>x. r = Inr x \<Longrightarrow> keeps_device (f x)) \<Longrightarrow> keeps_device (\<lambda>b. bind_r r (\<lambda>x. f x b))"
  by (fastforce simp: keeps_device_def)

lemma keeps_error [simp]: "keeps_device (\<lambda>b. Inl e)" "keeps_device (\<lambda>b. Inr (n, b))"
  by (simp_all add: keeps_device_def)

lemma keeps_num [simp]: "keeps_device (o_num w v)" "keeps_device (o_block w vs)" "keeps_device (o_size_tag n)"
  unfolding o_num_def [abs_def] o_block_def [abs_def] o_size_tag_def [abs_def]
  by (intro keeps_bind keeps_write)+

lemma keeps_items: "(\<And>x. x \<in> set xs \<Longrightarrow> keeps_device (f x)) \<Longrightarrow> keeps_device (o_items f xs)"
  by (induction xs) (auto simp: o_items.simps [abs_def] intro: keeps_plus)

lemma keeps_entry: "(\<And>k. keeps_device (fk k)) \<Longrightarrow> (\<And>v. keeps_device (fv v)) \<Longrightarrow> keeps_device (o_entry fk fv e)"
  by (cases e) (auto simp: o_entry_def [abs_def] intro: keeps_plus)

lemma keeps_alt: "(\<And>t v. t \<in> set ts \<Longrightarrow> keeps_device (o_archive t v)) \<Longrightarrow> keeps_device (o_alt ts i x)"
proof (induction ts arbitrary: i)
  case (Cons t ts)
  then show ?case by (cases i) (simp_all add: o_archive_fun)
qed (simp add: o_archive_fun)

lemma keeps_fields: "(\<And>t v. t \<in> set ts \<Longrightarrow> keeps_device (o_archive t v)) \<Longrightarrow> keeps_device (o_fields ts vs)"
proof (induction ts arbitrary: vs)
  case (Cons t ts)
  then show ?case by (cases vs) (auto simp: o_archive_fun intro: keeps_plus)
qed (simp add: o_archive_fun)

lemma archive_keeps_device: "keeps_device (o_archive t v)"
proof (induction t arbitrary: v rule: cty.induct [where ?P2.0 = "\<lambda>_. True"])
  case (T_vector t)
  then show ?case
    by (cases "is_arithmetic t") (auto simp: o_archive_fun intro!: keeps_plus keeps_items)
next
  case (T_array n t)
  then show ?case by (cases "is_arithmetic t") (auto simp: o_archive_fun intro!: keeps_items)
next
  case (T_variant ts)
  then show ?case by (cases v) (auto simp: o_archive_fun intro!: keeps_plus keeps_alt)
next
  case (T_unique_ptr t)
  then show ?case by (cases v) (auto simp: o_archive_fun intro!: keeps_plus)
next
  case T_error_code
  then show ?case by (cases v) (auto simp: o_archive_fun intro!: keeps_plus keeps_bind)
next
  case (T_optional t)
  then show ?case by (cases v) (auto simp: o_archive_fun intro!: keeps_plus)
next
  case (T_eigen w)
  then show ?case by (cases v) (auto simp: o_archive_fun intro!: keeps_plus)
qed (auto simp: o_archive_fun intro!: keeps_plus keeps_items keeps_entry keeps_fields)

section \<open>Saving and loading\<close>

text \<open>C18: an object that is saved and loaded again is the same, for any type of object, and the bytes
  counted on both sides agree, on a kernel that transfers something on every call: the output
  buffer is flushed completely into the file, the input buffer grows until it holds the whole file,
  and the archive consumes all of it.\<close>

theorem save_load_roundtrip:
  assumes wt: "wt C t v" and small: "4 * length (enc t v) < malloc_limit"
    and w: "transfers ws" "length (enc t v) \<le> length ws"
    and r: "transfers rs" "length (enc t v) < length rs"
  shows "\<exists>file. ml_save t v ws = Some (Inr (int (length file)), file) \<and>
    ml_load C t old rs file = Some (Inr (int (length file), v))"
proof -
  let ?n = "length (enc t v)"
  have "o_avail (mk_obuf True False) = 0" by (simp add: mk_obuf_def o_avail_def)
  then obtain ob where ob: "o_archive t v (mk_obuf True False) = Inr (?n, ob)" "obuf_ok ob" "o_content ob = enc t v"
    using writesD [OF writes_archive(1) [OF wt] mk_obuf_ok(1) [of True False]] small mk_obuf_ok(2) [of True False]
    by auto
  have dev: "o_device ob" using archive_keeps_device [of t v] ob(1) by (simp add: keeps_device_def mk_obuf_def)
  have av: "o_avail ob = ?n" using length_o_content [OF ob(2)] ob(3) by simp
  then obtain ob' ws' ch where fl: "o_flush 0 ob ws [] = Some (ob', Inr (0 + int ?n), ws', ch)" "o_avail ob' = 0"
    using o_flush_drains [OF ob(2) dev w(1) [unfolded transfers_def]] w(2) by metis
  have ob': "obuf_ok ob'" "ch @ o_content ob' = enc t v"
    using o_flush_effect [OF fl(1) ob(2)] ob(3) by auto
  have ch: "ch = enc t v" using ob' length_o_content [OF ob'(1)] fl(2) by simp
  have save: "ml_save t v ws = Some (Inr (int ?n), enc t v)"
    using ob(1) fl ch by (simp add: ml_save_def flush_transfers [OF w(1)])
  have i0: "i_avail (mk_ibuf True False) = 0" "i_device (mk_ibuf True False)" by (simp_all add: mk_ibuf_def i_avail_def)
  then obtain b rs' where b: "purge_in bf_read 0 (mk_ibuf True False) rs (enc t v) = Some (b, Inr (int ?n), rs', [])"
      "ibuf_ok b" "i_content b = enc t v @ []"
    using purge_reads_all [OF r mk_ibuf_ok(1) [of True False] i0(2), of 0] small mk_ibuf_ok(2) [of True False] by auto
  from readsD [OF reads_archive(1) [OF wt] b(2,3)] obtain b' where
    "i_archive C t old b = Inr (?n, v, b')" "ibuf_ok b'" "i_content b' = []" by blast
  then have "ml_load C t old rs (enc t v) = Some (Inr (int ?n, v))"
    using b(1) length_i_content [of b'] by (simp add: ml_load_def)
  with save show ?thesis by blast
qed

lemma save_load_roundtrip_witness:
  "\<exists>file. ml_save example_type example_value (replicate 44 (Sys_ok 4096)) = Some (Inr (int (length file)), file) \<and>
    ml_load example_cxx example_type (V_list []) (replicate 45 (Sys_ok 7)) file =
      Some (Inr (int (length file), example_value))"
  by (rule save_load_roundtrip [OF example_wt])
    (auto simp: example_length malloc_limit_def transfers_def list_all_iff)

end
