(* ===== verification/Epoll.thy ===== *)
theory Epoll
  imports Select
begin

text \<open>
  The other demultiplexer of the repository (class \<open>Epoll\<close>, epoll.hpp, epoll.cpp): a table of the
  events by descriptor, kept in step with the interest list of an epoll instance of the kernel.

  The kernel's interest list is a field of the state, which only the system call \<open>epoll_ctl\<close> reads
  and writes; the call is a parameter. Any call of it may fail; what its manual says about the calls that
  succeed is the predicate \<open>ctl_doc\<close>.
  \<open>epoll_wait\<close> and \<open>timerfd_settime\<close> are parameters too. As in \<open>Select\<close>, an access outside of the
  allocated memory is the exception \<open>Undefined\<close>.
\<close>

section \<open>The state\<close>

type_synonym emask = "32 word"

abbreviation EPOLLIN :: emask where "EPOLLIN \<equiv> 1"
abbreviation EPOLLOUT :: emask where "EPOLLOUT \<equiv> 4"
abbreviation EPOLLERR :: emask where "EPOLLERR \<equiv> 8"
abbreviation EPOLLHUP :: emask where "EPOLLHUP \<equiv> 16"

type_synonym interest = "int \<Rightarrow> emask option"

datatype ctl_op = CTL_ADD | CTL_MOD | CTL_DEL

text \<open>\<open>epoll_ctl\<close>: an \<open>errno\<close> or the new interest list.\<close>

type_synonym sys_ctl = "ctl_op \<Rightarrow> int \<Rightarrow> emask \<Rightarrow> interest \<Rightarrow> int + interest"

record epoll =
  ep_max_fd :: int
  ep_timerfd :: int
  ep_buf_sz :: nat
  ep_r :: "eptr option list"
  ep_w :: "eptr option list"
  ep_interest :: interest

definition ep_ctl :: "sys_ctl \<Rightarrow> ctl_op \<Rightarrow> int \<Rightarrow> emask \<Rightarrow> epoll \<Rightarrow> epoll result" where
  "ep_ctl ctl op fd m s = (case ctl op fd m (ep_interest s) of
       Inl errno \<Rightarrow> Inl (System_error errno)
     | Inr k \<Rightarrow> Inr (s\<lparr>ep_interest := k\<rparr>))"

section \<open>The operations\<close>

text \<open>\<open>_recap\<close>: the tables are cleared in their new part; the buffer of results has the same size.\<close>

definition ep_recap :: "int \<Rightarrow> epoll \<Rightarrow> epoll" where
  "ep_recap fd s =
    (let s1 = (if ep_max_fd s < fd then s\<lparr>ep_max_fd := fd\<rparr> else s);
         fd_num = nat (ep_max_fd s1 + 1) in
     if ep_buf_sz s1 < fd_num
     then let n = double_until (if ep_buf_sz s1 = 0 then 1 else ep_buf_sz s1) fd_num in
       s1\<lparr>ep_buf_sz := n, ep_r := grow (\<lambda>_. None) n (ep_r s1), ep_w := grow (\<lambda>_. None) n (ep_w s1)\<rparr>
     else s1)"

text \<open>The constructor, for the descriptors or errors that \<open>epoll_create1\<close> and \<open>timerfd_create\<close> return;
  a new instance has an empty interest list.\<close>

definition ep_create :: "sys_ctl \<Rightarrow> int + int \<Rightarrow> int + int \<Rightarrow> epoll result" where
  "ep_create ctl epfd timerfd =
     (case epfd of Inl errno \<Rightarrow> Inl (System_error errno) | Inr _ \<Rightarrow>
      case timerfd of Inl errno \<Rightarrow> Inl (System_error errno) | Inr t \<Rightarrow>
        ep_ctl ctl CTL_ADD t EPOLLIN
          (ep_recap t \<lparr>ep_max_fd = -1, ep_timerfd = t, ep_buf_sz = 0, ep_r = [], ep_w = [],
             ep_interest = (\<lambda>_. None)\<rparr>))"

definition ep_insert :: "sys_ctl \<Rightarrow> eptr \<Rightarrow> etype \<Rightarrow> int \<Rightarrow> epoll \<Rightarrow> epoll result" where
  "ep_insert ctl e ty fd s0 = (let s = ep_recap fd s0 in
     bind_r
       (case ty of
          READ \<Rightarrow> bind_r (put_slot (ep_r s) fd (Some e)) (\<lambda>v. Inr (EPOLLIN, s\<lparr>ep_r := v\<rparr>))
        | WRITE \<Rightarrow> bind_r (put_slot (ep_w s) fd (Some e)) (\<lambda>v. Inr (EPOLLOUT, s\<lparr>ep_w := v\<rparr>))
        | _ \<Rightarrow> Inl Assert_failed)
       (\<lambda>(m, s). bind_r (slot (ep_r s) fd) (\<lambda>r. bind_r (slot (ep_w s) fd) (\<lambda>w.
          if r \<noteq> None \<and> w \<noteq> None then ep_ctl ctl CTL_MOD fd (or EPOLLIN EPOLLOUT) s
          else ep_ctl ctl CTL_ADD fd m s))))"

definition ep_remove :: "sys_ctl \<Rightarrow> etype \<Rightarrow> int \<Rightarrow> epoll \<Rightarrow> epoll result" where
  "ep_remove ctl ty fd s =
     bind_r (slot (ep_r s) fd) (\<lambda>r. bind_r (slot (ep_w s) fd) (\<lambda>w.
       if r \<noteq> None \<and> w \<noteq> None then
         (case (case ty of
             READ \<Rightarrow> bind_r (put_slot (ep_r s) fd None) (\<lambda>v. ep_ctl ctl CTL_MOD fd EPOLLOUT (s\<lparr>ep_r := v\<rparr>))
           | WRITE \<Rightarrow> bind_r (put_slot (ep_w s) fd None) (\<lambda>v. ep_ctl ctl CTL_MOD fd EPOLLIN (s\<lparr>ep_w := v\<rparr>))
           | _ \<Rightarrow> Inl Assert_failed) of
            Inl (System_error _) \<Rightarrow> Inl Assert_failed
          | x \<Rightarrow> x)
       else
         bind_r (if r \<noteq> None \<or> w \<noteq> None then ep_ctl ctl CTL_DEL fd 0 s else Inr s) (\<lambda>s.
         bind_r (put_slot (ep_r s) fd None) (\<lambda>v.
         bind_r (put_slot (ep_w s) fd None) (\<lambda>v'. Inr (s\<lparr>ep_r := v, ep_w := v'\<rparr>))))))"

text \<open>\<open>_clear\<close> looks at the descriptors below \<open>_max_fd\<close>, ignores errors of the system call and leaves
  the tables alone. \<open>fd_of\<close> is the descriptor of an event.\<close>

fun ep_clear_loop :: "sys_ctl \<Rightarrow> (eptr \<Rightarrow> int) \<Rightarrow> nat \<Rightarrow> nat \<Rightarrow> epoll \<Rightarrow> epoll result" where
  "ep_clear_loop ctl fd_of 0 i s = Inr s"
| "ep_clear_loop ctl fd_of (Suc n) i s =
     bind_r (slot (ep_r s) (int i)) (\<lambda>r. bind_r (slot (ep_w s) (int i)) (\<lambda>w.
       ep_clear_loop ctl fd_of n (Suc i)
         (case (case r of Some e \<Rightarrow> Some e | None \<Rightarrow> w) of
            None \<Rightarrow> s
          | Some e \<Rightarrow> (case ctl CTL_DEL (fd_of e) 0 (ep_interest s) of
              Inl _ \<Rightarrow> s | Inr k \<Rightarrow> s\<lparr>ep_interest := k\<rparr>))))"

definition ep_clear :: "sys_ctl \<Rightarrow> (eptr \<Rightarrow> int) \<Rightarrow> epoll \<Rightarrow> epoll result" where
  "ep_clear ctl fd_of s =
     bind_r (ep_clear_loop ctl fd_of (nat (ep_max_fd s)) 0 s) (\<lambda>s. Inr (s\<lparr>ep_max_fd := ep_timerfd s\<rparr>))"

text \<open>\<open>_prepare_epoll\<close>: what it hands to \<open>timerfd_settime\<close>, the interval and the first expiration, if
  it calls it. The clamped timeout is a local variable that is not used again.\<close>

definition prepare_epoll :: "int \<times> int \<Rightarrow> ((int \<times> int) \<times> (int \<times> int)) option" where
  "prepare_epoll tv =
     (let timeout = fst tv * 1000 + snd tv sdiv 1000 in
      if timeout > 2100000 then None
      else if fst tv \<noteq> 0 \<or> snd tv \<noteq> 0 then Some ((fst tv, snd tv * 1000), (0, 0))
      else None)"

text \<open>One entry of the result of \<open>epoll_wait\<close>, and the loop over them; \<open>on\<close> is the callback of the
  reactor.\<close>

definition ep_call :: "(eptr \<Rightarrow> epoll \<times> 'x \<Rightarrow> (epoll \<times> 'x) result) \<Rightarrow> (epoll \<Rightarrow> eptr option list) \<Rightarrow>
    bool \<Rightarrow> int \<Rightarrow> epoll \<times> 'x \<Rightarrow> (epoll \<times> 'x) result" where
  "ep_call on evs tested fd sx = bind_r (slot (evs (fst sx)) fd) (\<lambda>e. case e of
       Some e \<Rightarrow> on e sx
     | None \<Rightarrow> if tested then Inr sx else Inl (Undefined ''null event''))"

definition ep_entry :: "(eptr \<Rightarrow> epoll \<times> 'x \<Rightarrow> (epoll \<times> 'x) result) \<Rightarrow> int \<times> emask \<Rightarrow> epoll \<times> 'x \<Rightarrow> (epoll \<times> 'x) result" where
  "ep_entry on fm sx = (case fm of (fd, m) \<Rightarrow>
     if fd = ep_timerfd (fst sx) then Inr sx
     else if and m (or EPOLLHUP EPOLLERR) \<noteq> 0
       then bind_r (ep_call on ep_r True fd sx) (ep_call on ep_w True fd)
     else if and m EPOLLIN \<noteq> 0 then ep_call on ep_r False fd sx
     else if and m EPOLLOUT \<noteq> 0 then ep_call on ep_w False fd sx
     else Inl Assert_failed)"

text \<open>\<open>_poll\<close> for a duration of \<open>ms\<close> whole milliseconds, which the call of \<open>epoll_wait\<close> converts to
  \<open>int\<close>; \<open>settime\<close> is \<open>None\<close> or the error of \<open>timerfd_settime\<close>.\<close>

type_synonym sys_wait = "int \<Rightarrow> int \<Rightarrow> interest \<Rightarrow> int + (int \<times> emask) list"

definition ep_poll :: "sys_wait \<Rightarrow> ((int \<times> int) \<times> (int \<times> int) \<Rightarrow> int option) \<Rightarrow> int \<times> int \<Rightarrow> int \<Rightarrow>
    (eptr \<Rightarrow> epoll \<times> 'x \<Rightarrow> (epoll \<times> 'x) result) \<Rightarrow> epoll \<times> 'x \<Rightarrow> (epoll \<times> 'x) result" where
  "ep_poll wait settime tv ms on sx =
     (case Option.bind (prepare_epoll tv) settime of
        Some errno \<Rightarrow> Inl (System_error errno)
      | None \<Rightarrow>
          (case wait (ep_max_fd (fst sx)) (sint (word_of_int ms :: 32 word)) (ep_interest (fst sx)) of
             Inl errno \<Rightarrow> Inl (System_error errno)
           | Inr fms \<Rightarrow> fold_r (ep_entry on) fms sx))"

section \<open>The system call\<close>

text \<open>What the manual of \<open>epoll_ctl\<close> says of a call that succeeds: \<open>ADD\<close> found the descriptor not in
  the list (else \<open>EEXIST\<close>), \<open>MOD\<close> and \<open>DEL\<close> found it there (else \<open>ENOENT\<close>), and the list has
  changed accordingly. Any call may fail instead, with these or other errors (\<open>EBADF\<close>, \<open>EPERM\<close>,
  \<open>ENOMEM\<close>, \<open>ENOSPC\<close>), and then the list stays as it is.\<close>

fun valid_call :: "ctl_op \<Rightarrow> int \<Rightarrow> interest \<Rightarrow> bool" where
  "valid_call CTL_ADD fd k = (k fd = None)"
| "valid_call _ fd k = (k fd \<noteq> None)"

fun ctl_effect :: "ctl_op \<Rightarrow> int \<Rightarrow> emask \<Rightarrow> interest \<Rightarrow> interest" where
  "ctl_effect CTL_DEL fd m k = k(fd := None)"
| "ctl_effect _ fd m k = k(fd \<mapsto> m)"

definition ctl_doc :: "sys_ctl \<Rightarrow> bool" where
  "ctl_doc ctl \<longleftrightarrow> (\<forall>c fd m k k'. ctl c fd m k = Inr k' \<longrightarrow> valid_call c fd k \<and> k' = ctl_effect c fd m k)"

text \<open>A kernel that refuses no valid call.\<close>

definition manual_ctl :: sys_ctl where
  "manual_ctl c fd m k = (if valid_call c fd k then Inr (ctl_effect c fd m k)
     else Inl (if c = CTL_ADD then 17 else 2))"

lemma manual_ctl_doc: "ctl_doc manual_ctl"
  by (simp add: ctl_doc_def manual_ctl_def)

lemma ctl_cases:
  assumes "ctl_doc ctl"
  obtains errno where "ctl c fd m k = Inl errno" | "ctl c fd m k = Inr (ctl_effect c fd m k)" "valid_call c fd k"
  using assms unfolding ctl_doc_def by (cases "ctl c fd m k") blast+

section \<open>The invariant\<close>

definition ep_reg :: "epoll \<Rightarrow> etype \<times> int \<Rightarrow> eptr option" where
  "ep_reg s k = (let n = nat (snd k) in
     if 0 \<le> snd k \<and> n < ep_buf_sz s then (case fst k of READ \<Rightarrow> ep_r s ! n | WRITE \<Rightarrow> ep_w s ! n | _ \<Rightarrow> None) else None)"

text \<open>The events that the kernel is asked for.\<close>

definition mask_of :: "eptr option \<Rightarrow> eptr option \<Rightarrow> emask option" where
  "mask_of r w = (case (r, w) of
       (None, None) \<Rightarrow> None
     | (Some _, None) \<Rightarrow> Some EPOLLIN
     | (None, Some _) \<Rightarrow> Some EPOLLOUT
     | (Some _, Some _) \<Rightarrow> Some (or EPOLLIN EPOLLOUT))"

definition ep_inv :: "int \<Rightarrow> epoll \<Rightarrow> bool" where
  "ep_inv t s \<longleftrightarrow> ep_timerfd s = t \<and> 0 \<le> t \<and> t \<le> ep_max_fd s \<and> ep_max_fd s < int (ep_buf_sz s) \<and>
     length (ep_r s) = ep_buf_sz s \<and> length (ep_w s) = ep_buf_sz s \<and>
     (\<forall>ty fd. ep_reg s (ty, fd) \<noteq> None \<longrightarrow> fd \<le> ep_max_fd s \<and> fd \<noteq> t) \<and>
     ep_interest s t = Some EPOLLIN \<and>
     (\<forall>fd. 0 \<le> fd \<longrightarrow> fd \<noteq> t \<longrightarrow> ep_interest s fd = mask_of (ep_reg s (READ, fd)) (ep_reg s (WRITE, fd)))"

lemma ep_invD:
  assumes "ep_inv t s"
  shows "ep_timerfd s = t" "0 \<le> t" "t \<le> ep_max_fd s" "ep_max_fd s < int (ep_buf_sz s)"
    "length (ep_r s) = ep_buf_sz s" "length (ep_w s) = ep_buf_sz s"
    "ep_reg s (ty, fd) \<noteq> None \<Longrightarrow> fd \<le> ep_max_fd s" "ep_reg s (ty, t) = None" "ep_interest s t = Some EPOLLIN"
    "0 \<le> fd \<Longrightarrow> fd \<noteq> t \<Longrightarrow> ep_interest s fd = mask_of (ep_reg s (READ, fd)) (ep_reg s (WRITE, fd))"
  using assms unfolding ep_inv_def by blast+

text \<open>\<open>_recap\<close> makes room and changes nothing else.\<close>

lemma ep_recap_grows:
  assumes "length (ep_r s) = ep_buf_sz s" "length (ep_w s) = ep_buf_sz s" "0 \<le> fd"
  defines "s' \<equiv> ep_recap fd s"
  shows "ep_max_fd s' = max (ep_max_fd s) fd" "ep_timerfd s' = ep_timerfd s" "ep_interest s' = ep_interest s"
    "ep_max_fd s' < int (ep_buf_sz s')"
    "length (ep_r s') = ep_buf_sz s'" "length (ep_w s') = ep_buf_sz s'" "ep_reg s' = ep_reg s"
proof -
  let ?m = "max (ep_max_fd s) fd"
  define n where "n = (if ep_buf_sz s < nat (?m + 1)
    then double_until (if ep_buf_sz s = 0 then 1 else ep_buf_sz s) (nat (?m + 1)) else ep_buf_sz s)"
  have n: "ep_buf_sz s \<le> n" "nat (?m + 1) \<le> n"
    using double_until_ge [of "if ep_buf_sz s = 0 then 1 else ep_buf_sz s" "nat (?m + 1)"]
    by (auto simp: n_def not_less split: if_splits)
  have s': "s' = s\<lparr>ep_max_fd := ?m, ep_buf_sz := n, ep_r := grow (\<lambda>_. None) n (ep_r s), ep_w := grow (\<lambda>_. None) n (ep_w s)\<rparr>"
    using assms(1,2)
    by (cases s) (auto simp: s'_def ep_recap_def n_def Let_def grow_def max_def)
  show "ep_max_fd s' = ?m" "ep_timerfd s' = ep_timerfd s" "ep_interest s' = ep_interest s"
    "ep_max_fd s' < int (ep_buf_sz s')" "length (ep_r s') = ep_buf_sz s'" "length (ep_w s') = ep_buf_sz s'"
    using n assms(1-3) by (auto simp: s')
  show "ep_reg s' = ep_reg s"
    using n(1) assms(1,2) by (auto simp: s' ep_reg_def fun_eq_iff Let_def nth_grow split: etype.split)
qed

lemma ep_recap_inv:
  assumes "ep_inv t s" "0 \<le> fd"
  shows "ep_inv t (ep_recap fd s)" "ep_reg (ep_recap fd s) = ep_reg s" "fd < int (ep_buf_sz (ep_recap fd s))"
    "fd \<le> ep_max_fd (ep_recap fd s)"
proof -
  note iD = ep_invD [OF assms(1)]
  note g = ep_recap_grows [OF iD(5,6) assms(2)]
  show "ep_inv t (ep_recap fd s)"
    using iD(1-4,8,9) iD(7,10) g unfolding ep_inv_def by (auto simp: max_def) (metis order_trans le_cases)+
  show "ep_reg (ep_recap fd s) = ep_reg s" "fd < int (ep_buf_sz (ep_recap fd s))" "fd \<le> ep_max_fd (ep_recap fd s)"
    using g by auto
qed

text \<open>The state after the entry of \<open>fd\<close> in the tables and in the interest list has changed.\<close>

lemma ep_inv_update:
  fixes r w :: "eptr option"
  assumes "ep_inv t s" "0 \<le> fd" "fd \<noteq> t" "fd \<le> ep_max_fd s"
  defines "s' \<equiv> s\<lparr>ep_r := (ep_r s)[nat fd := r], ep_w := (ep_w s)[nat fd := w],
    ep_interest := (ep_interest s)(fd := mask_of r w)\<rparr>"
  shows "ep_inv t s'" "ep_reg s' = (ep_reg s)((READ, fd) := r, (WRITE, fd) := w)"
proof -
  note iD = ep_invD [OF assms(1)]
  have n: "nat fd < ep_buf_sz s" using iD(4) assms(2,4) by linarith
  show reg: "ep_reg s' = (ep_reg s)((READ, fd) := r, (WRITE, fd) := w)"
    using n iD(5,6) assms(2)
    by (auto simp: s'_def ep_reg_def fun_eq_iff Let_def nth_list_update eq_nat_nat_iff split: etype.splits)
  show "ep_inv t s'"
    using iD(1-6,8,9) iD(7,10) assms(2-4) reg unfolding ep_inv_def
    by (auto simp: s'_def split: if_splits)
qed

lemma ep_slots:
  assumes "ep_inv t s" "0 \<le> fd" "fd \<le> ep_max_fd s"
  shows "slot (ep_r s) fd = Inr (ep_reg s (READ, fd))" "slot (ep_w s) fd = Inr (ep_reg s (WRITE, fd))"
    "put_slot (ep_r s) fd v = Inr ((ep_r s)[nat fd := v])" "put_slot (ep_w s) fd v = Inr ((ep_w s)[nat fd := v])"
    "(ep_r s)[nat fd := ep_reg s (READ, fd)] = ep_r s" "(ep_w s)[nat fd := ep_reg s (WRITE, fd)] = ep_w s"
    "nat fd < ep_buf_sz s" "fd < int (length (ep_r s))" "fd < int (length (ep_w s))"
  using ep_invD(4-6) [OF assms(1)] assms(2,3) by (auto simp: ep_reg_def slot_def put_slot_def Let_def)

lemma slot_update [simp]: "0 \<le> i \<Longrightarrow> i < int (length xs) \<Longrightarrow> slot (xs[nat i := v]) i = Inr v"
  by (simp add: slot_def)

lemma mask_of_simps [simp]:
  "mask_of (Some e) None = Some EPOLLIN" "mask_of None (Some e) = Some EPOLLOUT"
  "mask_of (Some e) (Some e') = Some (or EPOLLIN EPOLLOUT)" "mask_of None None = None"
  by (simp_all add: mask_of_def)

text \<open>An operation is one valid call of the kernel. If the kernel carries it out, so does the operation;
  else it ends with an exception.\<close>

definition done_by :: "sys_ctl \<Rightarrow> int \<Rightarrow> epoll \<Rightarrow> epoll result \<Rightarrow> (exn \<Rightarrow> ctl_op \<Rightarrow> int \<Rightarrow> bool) \<Rightarrow>
    (etype \<times> int \<Rightarrow> eptr option) \<Rightarrow> int \<Rightarrow> bool" where
  "done_by ctl t s r blame reg fd \<longleftrightarrow> (\<exists>c m. valid_call c fd (ep_interest s) \<and>
     (case ctl c fd m (ep_interest s) of
        Inl errno \<Rightarrow> (\<exists>x. r = Inl x \<and> blame x c errno)
      | Inr _ \<Rightarrow> (\<exists>s'. r = Inr s' \<and> ep_inv t s' \<and> ep_reg s' = reg)))"

definition insert_blame :: "exn \<Rightarrow> ctl_op \<Rightarrow> int \<Rightarrow> bool" where
  "insert_blame x c errno \<longleftrightarrow> x = System_error errno"

text \<open>When \<open>MOD\<close> fails, \<open>_remove\<close> runs into its \<open>assert(false)\<close>.\<close>

definition remove_blame :: "exn \<Rightarrow> ctl_op \<Rightarrow> int \<Rightarrow> bool" where
  "remove_blame x c errno \<longleftrightarrow> (if c = CTL_MOD then x = Assert_failed else x = System_error errno)"

lemma done_byI:
  assumes "ctl_doc ctl" "valid_call c fd (ep_interest s)"
    and "\<And>errno. ctl c fd m (ep_interest s) = Inl errno \<Longrightarrow> \<exists>x. r = Inl x \<and> blame x c errno"
    and "ctl c fd m (ep_interest s) = Inr (ctl_effect c fd m (ep_interest s)) \<Longrightarrow>
      \<exists>s'. r = Inr s' \<and> ep_inv t s' \<and> ep_reg s' = reg"
  shows "done_by ctl t s r blame reg fd"
proof (cases rule: ctl_cases [OF assms(1), of c fd m "ep_interest s"])
  case 1
  then show ?thesis using assms(2,3) by (auto simp: done_by_def intro!: exI [of _ c] exI [of _ m])
next
  case 2
  then show ?thesis using assms(2,4) by (auto simp: done_by_def intro!: exI [of _ c] exI [of _ m])
qed

lemma ep_insert_ok:
  assumes "ctl_doc ctl" "ep_inv t s" "ty = READ \<or> ty = WRITE" "0 \<le> fd" "fd \<noteq> t" "ep_reg s (ty, fd) = None"
  shows "done_by ctl t s (ep_insert ctl e ty fd s) insert_blame ((ep_reg s)((ty, fd) \<mapsto> e)) fd"
proof -
  define s1 where "s1 = ep_recap fd s"
  note g = ep_recap_inv [OF assms(2,4), folded s1_def]
  define r where "r = (if ty = READ then Some e else ep_reg s (READ, fd))"
  define w where "w = (if ty = WRITE then Some e else ep_reg s (WRITE, fd))"
  define c where "c = (if r \<noteq> None \<and> w \<noteq> None then CTL_MOD else CTL_ADD)"
  define m where "m = the (mask_of r w)"
  define s' where "s' = s1\<lparr>ep_r := (ep_r s1)[nat fd := r], ep_w := (ep_w s1)[nat fd := w],
    ep_interest := (ep_interest s1)(fd := mask_of r w)\<rparr>"
  note u = ep_inv_update [OF g(1) assms(4,5) g(4), of r w, folded s'_def]
  note sl = ep_slots [OF g(1) assms(4) g(4), unfolded g(2)]
  have i1: "ep_interest s1 = ep_interest s"
    using ep_recap_grows(3) [OF ep_invD(5,6) [OF assms(2)] assms(4)] by (simp add: s1_def)
  have int: "ep_interest s fd = mask_of (ep_reg s (READ, fd)) (ep_reg s (WRITE, fd))"
    using ep_invD(10) [OF assms(2,4,5)] .
  have reg: "ep_reg s' = (ep_reg s)((ty, fd) \<mapsto> e)"
    using assms(3) by (auto simp: u(2) g(2) r_def w_def)
  have "ep_insert ctl e ty fd s =
      ep_ctl ctl c fd m (s1\<lparr>ep_r := (ep_r s1)[nat fd := r], ep_w := (ep_w s1)[nat fd := w]\<rparr>)"
  proof (cases ty)
    case READ
    then show ?thesis
      using assms(4,6) sl
      by (cases "ep_reg s (WRITE, fd)") (auto simp: ep_insert_def s1_def [symmetric] r_def w_def c_def m_def)
  next
    case WRITE
    then show ?thesis
      using assms(4,6) sl
      by (cases "ep_reg s (READ, fd)") (auto simp: ep_insert_def s1_def [symmetric] r_def w_def c_def m_def)
  qed (use assms(3) in auto)
  then have run: "ep_insert ctl e ty fd s = (case ctl c fd m (ep_interest s) of Inl errno \<Rightarrow> Inl (System_error errno)
      | Inr k \<Rightarrow> Inr (s1\<lparr>ep_r := (ep_r s1)[nat fd := r], ep_w := (ep_w s1)[nat fd := w], ep_interest := k\<rparr>))"
    by (simp add: ep_ctl_def i1)
  have "mask_of r w = Some m" using assms(3) by (auto simp: r_def w_def m_def mask_of_def split: option.splits)
  then have eff: "ctl_effect c fd m (ep_interest s) = (ep_interest s1)(fd := mask_of r w)"
    by (simp add: c_def i1)
  show ?thesis
  proof (rule done_byI [OF assms(1), of c _ _ m])
    show "valid_call c fd (ep_interest s)"
      using assms(3,6) by (auto simp: c_def int r_def w_def mask_of_def split: option.splits)
    show "\<exists>x. ep_insert ctl e ty fd s = Inl x \<and> insert_blame x c errno" if "ctl c fd m (ep_interest s) = Inl errno" for errno
      using that by (simp add: run insert_blame_def)
    show "\<exists>s'. ep_insert ctl e ty fd s = Inr s' \<and> ep_inv t s' \<and> ep_reg s' = (ep_reg s)((ty, fd) \<mapsto> e)"
      if "ctl c fd m (ep_interest s) = Inr (ctl_effect c fd m (ep_interest s))"
      using that u(1) reg unfolding run eff by (auto simp: s'_def)
  qed
qed

lemma ep_remove_ok:
  assumes "ctl_doc ctl" "ep_inv t s" "ty = READ \<or> ty = WRITE" "0 \<le> fd" "fd \<noteq> t" "ep_reg s (ty, fd) = Some e"
  shows "done_by ctl t s (ep_remove ctl ty fd s) remove_blame ((ep_reg s)((ty, fd) := None)) fd"
proof -
  have fd: "fd \<le> ep_max_fd s" using ep_invD(7) [OF assms(2), of ty fd] assms(6) by simp
  define r where "r = (if ty = READ then None else ep_reg s (READ, fd))"
  define w where "w = (if ty = WRITE then None else ep_reg s (WRITE, fd))"
  define c where "c = (if r = None \<and> w = None then CTL_DEL else CTL_MOD)"
  define m where "m = (case mask_of r w of Some m \<Rightarrow> m | None \<Rightarrow> 0)"
  define s' where "s' = s\<lparr>ep_r := (ep_r s)[nat fd := r], ep_w := (ep_w s)[nat fd := w],
    ep_interest := (ep_interest s)(fd := mask_of r w)\<rparr>"
  note u = ep_inv_update [OF assms(2,4,5) fd, of r w, folded s'_def]
  note sl = ep_slots [OF assms(2,4) fd]
  have int: "ep_interest s fd = mask_of (ep_reg s (READ, fd)) (ep_reg s (WRITE, fd))"
    using ep_invD(10) [OF assms(2,4,5)] .
  have reg: "ep_reg s' = (ep_reg s)((ty, fd) := None)"
    using assms(3) by (auto simp: u(2) r_def w_def)
  have run: "ep_remove ctl ty fd s = (case ctl c fd m (ep_interest s) of
        Inl errno \<Rightarrow> Inl (if c = CTL_MOD then Assert_failed else System_error errno)
      | Inr k \<Rightarrow> Inr (s\<lparr>ep_r := (ep_r s)[nat fd := r], ep_w := (ep_w s)[nat fd := w], ep_interest := k\<rparr>))"
  proof (cases ty)
    case READ
    then show ?thesis
      using assms(4,6) sl
      by (cases "ep_reg s (WRITE, fd)") (auto simp: ep_remove_def r_def w_def c_def m_def ep_ctl_def split: sum.splits)
  next
    case WRITE
    then show ?thesis
      using assms(4,6) sl
      by (cases "ep_reg s (READ, fd)") (auto simp: ep_remove_def r_def w_def c_def m_def ep_ctl_def split: sum.splits)
  qed (use assms(3) in auto)
  have eff: "ctl_effect c fd m (ep_interest s) = (ep_interest s)(fd := mask_of r w)"
    using assms(3) by (auto simp: c_def m_def r_def w_def mask_of_def split: option.splits)
  show ?thesis
  proof (rule done_byI [OF assms(1), of c _ _ m])
    show "valid_call c fd (ep_interest s)"
      using assms(3,6) by (auto simp: c_def int mask_of_def split: option.splits)
    show "\<exists>x. ep_remove ctl ty fd s = Inl x \<and> remove_blame x c errno" if "ctl c fd m (ep_interest s) = Inl errno" for errno
      using that by (simp add: run remove_blame_def)
    show "\<exists>s'. ep_remove ctl ty fd s = Inr s' \<and> ep_inv t s' \<and> ep_reg s' = (ep_reg s)((ty, fd) := None)"
      if "ctl c fd m (ep_interest s) = Inr (ctl_effect c fd m (ep_interest s))"
      using that u(1) reg unfolding run eff by (auto simp: s'_def)
  qed
qed

text \<open>Over a kernel that refuses no valid call this is the contract of a demultiplexer.\<close>

lemma epoll_demux:
  assumes "ctl_doc ctl" "\<And>c fd m k. valid_call c fd k \<Longrightarrow> \<exists>k'. ctl c fd m k = Inr k'"
  shows "demux (\<lambda>fd. 0 \<le> fd \<and> fd \<noteq> t) (ep_inv t) ep_reg (ep_insert ctl) (ep_remove ctl)"
proof -
  have d: "\<exists>s'. r = Inr s' \<and> ep_inv t s' \<and> ep_reg s' = reg" if d: "done_by ctl t s r blame reg fd" for s r blame reg fd
  proof -
    obtain c m where cm: "valid_call c fd (ep_interest s)" "case ctl c fd m (ep_interest s) of
        Inl errno \<Rightarrow> (\<exists>x. r = Inl x \<and> blame x c errno)
      | Inr _ \<Rightarrow> (\<exists>s'. r = Inr s' \<and> ep_inv t s' \<and> ep_reg s' = reg)" using d unfolding done_by_def by blast
    obtain k' where "ctl c fd m (ep_interest s) = Inr k'" using assms(2) [OF cm(1)] by blast
    then show ?thesis using cm(2) by simp
  qed
  show ?thesis by unfold_locales (use d ep_insert_ok [OF assms(1)] ep_remove_ok [OF assms(1)] in blast)+
qed

text \<open>A new instance satisfies the invariant.\<close>

lemma ep_create_ok:
  assumes "ctl_doc ctl" "0 \<le> t" "ep_create ctl (Inr epfd) (Inr t) = Inr s"
  shows "ep_inv t s \<and> ep_reg s = (\<lambda>_. None)"
proof -
  define s0 where "s0 = \<lparr>ep_max_fd = -1, ep_timerfd = t, ep_buf_sz = 0, ep_r = [], ep_w = [], ep_interest = (\<lambda>_. None)\<rparr>"
  define s1 where "s1 = ep_recap t s0"
  have "ep_reg s0 = (\<lambda>_. None)" by (simp add: s0_def ep_reg_def fun_eq_iff)
  moreover have "length (ep_r s0) = ep_buf_sz s0" "length (ep_w s0) = ep_buf_sz s0" by (simp_all add: s0_def)
  ultimately have g: "ep_max_fd s1 = t" "ep_timerfd s1 = t" "ep_interest s1 = (\<lambda>_. None)"
    "ep_max_fd s1 < int (ep_buf_sz s1)" "length (ep_r s1) = ep_buf_sz s1" "length (ep_w s1) = ep_buf_sz s1"
    "ep_reg s1 = (\<lambda>_. None)"
    using ep_recap_grows [of s0 t] assms(2) by (simp_all add: s1_def) (simp_all add: s0_def)
  have "s = s1\<lparr>ep_interest := [t \<mapsto> EPOLLIN]\<rparr>"
    using assms(3) g(3) by (cases rule: ctl_cases [OF assms(1), of CTL_ADD t EPOLLIN "\<lambda>_. None"])
      (simp_all add: ep_create_def ep_ctl_def s1_def s0_def)
  moreover have "ep_reg (s1\<lparr>ep_interest := k\<rparr>) = ep_reg s1" for k by (simp add: ep_reg_def fun_eq_iff Let_def split: etype.split)
  ultimately show ?thesis using g assms(2) by (auto simp: ep_inv_def)
qed

section \<open>Sequences of operations\<close>

datatype ep_op = Ep_insert eptr etype int | Ep_remove etype int

fun ep_do :: "sys_ctl \<Rightarrow> ep_op \<Rightarrow> epoll \<Rightarrow> epoll result" where
  "ep_do ctl (Ep_insert e ty fd) s = ep_insert ctl e ty fd s"
| "ep_do ctl (Ep_remove ty fd) s = ep_remove ctl ty fd s"

text \<open>What they mean for a map from kinds and descriptors to events.\<close>

fun map_do :: "ep_op \<Rightarrow> (etype \<times> int \<Rightarrow> eptr option) \<Rightarrow> etype \<times> int \<Rightarrow> eptr option" where
  "map_do (Ep_insert e ty fd) M = M((ty, fd) \<mapsto> e)"
| "map_do (Ep_remove ty fd) M = M((ty, fd) := None)"

text \<open>Calls the reactor may make: for descriptors other than the timer, an event is registered for a
  kind and descriptor that is free, and removed when it is registered.\<close>

fun op_legal :: "int \<Rightarrow> (etype \<times> int \<Rightarrow> eptr option) \<Rightarrow> ep_op \<Rightarrow> bool" where
  "op_legal t M (Ep_insert e ty fd) = ((ty = READ \<or> ty = WRITE) \<and> 0 \<le> fd \<and> fd \<noteq> t \<and> M (ty, fd) = None)"
| "op_legal t M (Ep_remove ty fd) = ((ty = READ \<or> ty = WRITE) \<and> 0 \<le> fd \<and> fd \<noteq> t \<and> M (ty, fd) \<noteq> None)"

fun ops_legal :: "int \<Rightarrow> ep_op list \<Rightarrow> (etype \<times> int \<Rightarrow> eptr option) \<Rightarrow> bool" where
  "ops_legal t [] M = True"
| "ops_legal t (p # ps) M = (op_legal t M p \<and> ops_legal t ps (map_do p M))"

text \<open>An operation that the kernel refuses by failing a valid call.\<close>

definition refused :: "sys_ctl \<Rightarrow> ep_op \<Rightarrow> epoll \<Rightarrow> exn \<Rightarrow> bool" where
  "refused ctl p s x \<longleftrightarrow> (\<exists>c fd m errno. valid_call c fd (ep_interest s) \<and> ctl c fd m (ep_interest s) = Inl errno \<and>
     (case p of
        Ep_insert e ty fd' \<Rightarrow> fd' = fd \<and> x = System_error errno
      | Ep_remove ty fd' \<Rightarrow> fd' = fd \<and> x = (if c = CTL_MOD then Assert_failed else System_error errno)))"

lemma ep_do_ok:
  assumes "ctl_doc ctl" "ep_inv t s" "op_legal t (ep_reg s) p"
  shows "case ep_do ctl p s of
      Inl x \<Rightarrow> refused ctl p s x
    | Inr s' \<Rightarrow> ep_inv t s' \<and> ep_reg s' = map_do p (ep_reg s)"
proof (cases p)
  case (Ep_insert e ty fd)
  then have "done_by ctl t s (ep_insert ctl e ty fd s) insert_blame ((ep_reg s)((ty, fd) \<mapsto> e)) fd"
    using ep_insert_ok [OF assms(1,2)] assms(3) by simp
  then show ?thesis unfolding done_by_def by (fastforce simp: Ep_insert refused_def insert_blame_def split: sum.splits)
next
  case (Ep_remove ty fd)
  then have "done_by ctl t s (ep_remove ctl ty fd s) remove_blame ((ep_reg s)((ty, fd) := None)) fd"
    using ep_remove_ok [OF assms(1,2)] assms(3) by auto
  then show ?thesis unfolding done_by_def
    by (fastforce simp: Ep_remove refused_def remove_blame_def split: sum.splits if_splits)
qed

lemma ep_ops_ok:
  assumes "ctl_doc ctl" "ep_inv t s" "ops_legal t ps (ep_reg s)"
  shows "case fold_r (ep_do ctl) ps s of
      Inl x \<Rightarrow> (\<exists>pre p post s1. ps = pre @ p # post \<and> fold_r (ep_do ctl) pre s = Inr s1 \<and> refused ctl p s1 x)
    | Inr s' \<Rightarrow> ep_inv t s' \<and> ep_reg s' = fold map_do ps (ep_reg s)"
  using assms(2,3)
proof (induction ps arbitrary: s)
  case Nil
  then show ?case by simp
next
  case (Cons p ps)
  have p: "case ep_do ctl p s of Inl x \<Rightarrow> refused ctl p s x | Inr s' \<Rightarrow> ep_inv t s' \<and> ep_reg s' = map_do p (ep_reg s)"
    using ep_do_ok [OF assms(1) Cons.prems(1)] Cons.prems(2) by simp
  show ?case
  proof (cases "ep_do ctl p s")
    case (Inl x)
    then show ?thesis using p by (auto intro!: exI [of _ "[]"])
  next
    case (Inr s1)
    then have s1: "ep_inv t s1" "ep_reg s1 = map_do p (ep_reg s)" using p by simp_all
    then have ih: "case fold_r (ep_do ctl) ps s1 of
        Inl x \<Rightarrow> (\<exists>pre q post s2. ps = pre @ q # post \<and> fold_r (ep_do ctl) pre s1 = Inr s2 \<and> refused ctl q s2 x)
      | Inr s' \<Rightarrow> ep_inv t s' \<and> ep_reg s' = fold map_do ps (ep_reg s1)"
      using Cons.IH [of s1] Cons.prems(2) by simp
    show ?thesis
    proof (cases "fold_r (ep_do ctl) ps s1")
      case (Inl x)
      then obtain pre q post s2 where "ps = pre @ q # post" "fold_r (ep_do ctl) pre s1 = Inr s2" "refused ctl q s2 x"
        using ih by auto
      then show ?thesis using Inr Inl by (auto intro!: exI [of _ "p # pre"])
    next
      case r: (Inr s')
      then show ?thesis using ih Inr s1(2) by simp
    qed
  qed
qed

text \<open>C34: \<open>Epoll\<close> keeps the kernel's interest list in step with the events that are registered. The
  premises are that calls of \<open>epoll_ctl\<close> that succeed do what the manual says, while any call may fail
  (\<open>ctl_doc\<close>), and that events are registered for kinds and descriptors that are free, removed when they
  are registered, and not put on \<open>Epoll\<close>'s own timer (\<open>ops_legal\<close>). Then, after any sequence of
  insertions and removals on a new instance that runs through, the tables hold exactly the events
  registered, and the kernel watches each descriptor for exactly the kinds registered on it, a descriptor
  with both kinds for both. A sequence does not run through only because the kernel refuses a call
  that is valid (no \<open>EEXIST\<close> or \<open>ENOENT\<close>): its error is thrown, except when it refuses the \<open>MOD\<close>
  of a removal, which the code asserts never to happen. The tables are never accessed out of bounds.\<close>

theorem epoll_watches_registered:
  assumes "ctl_doc ctl" "0 \<le> t" "ep_create ctl (Inr epfd) (Inr t) = Inr s0" "ops_legal t ps Map.empty"
  shows "case fold_r (ep_do ctl) ps s0 of
      Inl x \<Rightarrow> (\<exists>pre p post s c fd m errno. ps = pre @ p # post \<and> fold_r (ep_do ctl) pre s0 = Inr s \<and>
        valid_call c fd (ep_interest s) \<and> ctl c fd m (ep_interest s) = Inl errno \<and>
        (x = System_error errno \<or> x = Assert_failed \<and> c = CTL_MOD \<and> (\<exists>ty. p = Ep_remove ty fd)))
    | Inr s \<Rightarrow> ep_reg s = fold map_do ps Map.empty \<and> ep_interest s t = Some EPOLLIN \<and>
        (\<forall>fd. 0 \<le> fd \<longrightarrow> fd \<noteq> t \<longrightarrow>
           ep_interest s fd = mask_of (fold map_do ps Map.empty (READ, fd)) (fold map_do ps Map.empty (WRITE, fd)))"
proof -
  have s0: "ep_inv t s0" "ep_reg s0 = Map.empty" using ep_create_ok [OF assms(1-3)] by auto
  note r = ep_ops_ok [OF assms(1) s0(1), of ps, unfolded s0(2), OF assms(4)]
  show ?thesis
  proof (cases "fold_r (ep_do ctl) ps s0")
    case (Inl x)
    then obtain pre p post s where p: "ps = pre @ p # post" "fold_r (ep_do ctl) pre s0 = Inr s" "refused ctl p s x"
      using r by auto
    obtain c fd m errno where "valid_call c fd (ep_interest s)" "ctl c fd m (ep_interest s) = Inl errno"
      "x = System_error errno \<or> x = Assert_failed \<and> c = CTL_MOD \<and> (\<exists>ty. p = Ep_remove ty fd)"
      using p(3) by (cases p) (auto simp: refused_def split: if_splits)
    with p(1,2) show ?thesis unfolding Inl sum.case by blast
  next
    case (Inr s)
    then have s: "ep_inv t s" "ep_reg s = fold map_do ps Map.empty" using r by simp_all
    show ?thesis using Inr s(2) ep_invD(9,10) [OF s(1)] by simp
  qed
qed

text \<open>A reader and a writer on one descriptor, of which the writer is removed again.\<close>

lemma epoll_watches_registered_witness:
  "\<exists>s0 s. ep_create manual_ctl (Inr 4) (Inr 3) = Inr s0 \<and>
     fold_r (ep_do manual_ctl) [Ep_insert 9 READ 5, Ep_insert 8 WRITE 5, Ep_remove WRITE 5] s0 = Inr s \<and>
     ep_reg s = fold map_do [Ep_insert 9 READ 5, Ep_insert 8 WRITE 5, Ep_remove WRITE 5] Map.empty \<and>
     ep_interest s 5 = Some EPOLLIN"
proof -
  let ?ps = "[Ep_insert 9 READ 5, Ep_insert 8 WRITE 5, Ep_remove WRITE 5]"
  have v: "(case manual_ctl c fd m k of Inl _ \<Rightarrow> False | Inr _ \<Rightarrow> True) = valid_call c fd k" for c fd m k
    by (simp add: manual_ctl_def)
  obtain s0 where s0: "ep_create manual_ctl (Inr 4) (Inr 3) = Inr s0"
    by (simp add: ep_create_def ep_ctl_def manual_ctl_def ep_recap_def Let_def)
  from epoll_watches_registered [OF manual_ctl_doc _ s0, of ?ps] have
    t: "case fold_r (ep_do manual_ctl) ?ps s0 of
      Inl x \<Rightarrow> (\<exists>pre p post s c fd m errno. ?ps = pre @ p # post \<and> fold_r (ep_do manual_ctl) pre s0 = Inr s \<and>
        valid_call c fd (ep_interest s) \<and> manual_ctl c fd m (ep_interest s) = Inl errno \<and>
        (x = System_error errno \<or> x = Assert_failed \<and> c = CTL_MOD \<and> (\<exists>ty. p = Ep_remove ty fd)))
    | Inr s \<Rightarrow> ep_reg s = fold map_do ?ps Map.empty \<and> ep_interest s 3 = Some EPOLLIN \<and>
        (\<forall>fd. 0 \<le> fd \<longrightarrow> fd \<noteq> 3 \<longrightarrow>
           ep_interest s fd = mask_of (fold map_do ?ps Map.empty (READ, fd)) (fold map_do ?ps Map.empty (WRITE, fd)))"
    by simp
  show ?thesis
  proof (cases "fold_r (ep_do manual_ctl) ?ps s0")
    case (Inl x)
    then show ?thesis using t v by (simp del: fold_r.simps) (metis sum.case(1))
  next
    case (Inr s)
    then have "ep_interest s 5 = mask_of (Some 9) None"
      using t by (simp del: fold_r.simps mask_of_simps)
    then show ?thesis using Inr t s0 by (intro exI [of _ s0] exI [of _ s]) (simp del: fold_r.simps)
  qed
qed

section \<open>Polling\<close>

text \<open>What the manual of \<open>epoll_wait\<close> promises: descriptors of the interest list, each at most once, with
  events that were asked for, an error or a hang-up, and no more than \<open>maxevents\<close> of them.\<close>

definition wait_doc :: "sys_wait \<Rightarrow> bool" where
  "wait_doc wait \<longleftrightarrow> (\<forall>n ms k fms. wait n ms k = Inr fms \<longrightarrow>
     int (length fms) \<le> n \<and> distinct (map fst fms) \<and>
     (\<forall>(fd, m) \<in> set fms. 0 \<le> fd \<and>
        (\<exists>q. k fd = Some q \<and> (and m EPOLLIN \<noteq> 0 \<longrightarrow> and q EPOLLIN \<noteq> 0) \<and> (and m EPOLLOUT \<noteq> 0 \<longrightarrow> and q EPOLLOUT \<noteq> 0)) \<and>
        (and m (or EPOLLHUP EPOLLERR) \<noteq> 0 \<or> and m EPOLLIN \<noteq> 0 \<or> and m EPOLLOUT \<noteq> 0)))"

text \<open>The events that one entry calls.\<close>

definition ep_ready :: "epoll \<Rightarrow> int \<times> emask \<Rightarrow> eptr list" where
  "ep_ready s fm = (case fm of (fd, m) \<Rightarrow>
     let of_kind = (\<lambda>ty. case ep_reg s (ty, fd) of Some e \<Rightarrow> [e] | None \<Rightarrow> []) in
     if fd = ep_timerfd s then []
     else if and m (or EPOLLHUP EPOLLERR) \<noteq> 0 then of_kind READ @ of_kind WRITE
     else if and m EPOLLIN \<noteq> 0 then of_kind READ
     else of_kind WRITE)"

text \<open>The callbacks the loop is proved for: called for the event registered under a key, they keep
  the invariant and the registrations under the other keys.\<close>

definition ep_handles :: "int \<Rightarrow> (eptr \<Rightarrow> epoll \<times> 'x \<Rightarrow> (epoll \<times> 'x) result) \<Rightarrow> (eptr \<Rightarrow> 'x \<Rightarrow> 'x) \<Rightarrow> bool" where
  "ep_handles t on f \<longleftrightarrow> (\<forall>e s x k. ep_inv t s \<longrightarrow> ep_reg s k = Some e \<longrightarrow>
     (\<exists>s'. on e (s, x) = Inr (s', f e x) \<and> ep_inv t s' \<and> ep_max_fd s \<le> ep_max_fd s' \<and>
        (\<forall>k'. k' \<noteq> k \<longrightarrow> ep_reg s' k' = ep_reg s k')))"

definition ep_apart :: "int \<Rightarrow> (etype \<times> int) set \<Rightarrow> epoll \<Rightarrow> epoll \<Rightarrow> bool" where
  "ep_apart t K s s' \<longleftrightarrow> ep_inv t s' \<and> ep_max_fd s \<le> ep_max_fd s' \<and> (\<forall>k. k \<notin> K \<longrightarrow> ep_reg s' k = ep_reg s k)"

lemma ep_apart_trans: "ep_apart t K s u \<Longrightarrow> ep_apart t L u v \<Longrightarrow> ep_apart t (K \<union> L) s v"
  by (auto simp: ep_apart_def)

lemma ep_call_ok:
  assumes "ep_handles t on f" "ep_inv t s" "0 \<le> fd" "fd \<le> ep_max_fd s"
    and "(evs, ty) = (ep_r, READ) \<or> (evs, ty) = (ep_w, WRITE)" "tested \<or> ep_reg s (ty, fd) \<noteq> None"
  shows "\<exists>s'. ep_call on evs tested fd (s, x) =
      Inr (s', fold f (case ep_reg s (ty, fd) of Some e \<Rightarrow> [e] | None \<Rightarrow> []) x) \<and> ep_apart t {(ty, fd)} s s'"
proof -
  have slot: "slot (evs s) fd = Inr (ep_reg s (ty, fd))" using ep_slots(1,2) [OF assms(2-4)] assms(5) by auto
  show ?thesis
  proof (cases "ep_reg s (ty, fd)")
    case None
    then show ?thesis using slot assms(2,6) by (auto simp: ep_call_def ep_apart_def)
  next
    case (Some e)
    then obtain s' where "on e (s, x) = Inr (s', f e x)" "ep_apart t {(ty, fd)} s s'"
      using assms(1,2) unfolding ep_handles_def ep_apart_def by blast
    then show ?thesis using slot Some by (auto simp: ep_call_def)
  qed
qed

text \<open>An entry that fits the registrations.\<close>

definition entry_fits :: "epoll \<Rightarrow> int \<times> emask \<Rightarrow> bool" where
  "entry_fits s fm \<longleftrightarrow> (case fm of (fd, m) \<Rightarrow> 0 \<le> fd \<and> fd \<le> ep_max_fd s \<and> (fd \<noteq> ep_timerfd s \<longrightarrow>
     (and m EPOLLIN \<noteq> 0 \<longrightarrow> ep_reg s (READ, fd) \<noteq> None) \<and> (and m EPOLLOUT \<noteq> 0 \<longrightarrow> ep_reg s (WRITE, fd) \<noteq> None) \<and>
     (and m (or EPOLLHUP EPOLLERR) \<noteq> 0 \<or> and m EPOLLIN \<noteq> 0 \<or> and m EPOLLOUT \<noteq> 0)))"

lemma entry_fitsI:
  assumes "ep_inv t s" "0 \<le> fd" "ep_interest s fd = Some q"
    "and m EPOLLIN \<noteq> 0 \<longrightarrow> and q EPOLLIN \<noteq> 0" "and m EPOLLOUT \<noteq> 0 \<longrightarrow> and q EPOLLOUT \<noteq> 0"
    "and m (or EPOLLHUP EPOLLERR) \<noteq> 0 \<or> and m EPOLLIN \<noteq> 0 \<or> and m EPOLLOUT \<noteq> 0"
  shows "entry_fits s (fd, m)"
proof (cases "fd = t")
  case True
  then show ?thesis using ep_invD(1,3) [OF assms(1)] assms(2) by (simp add: entry_fits_def)
next
  case False
  then have q: "mask_of (ep_reg s (READ, fd)) (ep_reg s (WRITE, fd)) = Some q"
    using ep_invD(10) [OF assms(1,2)] assms(3) by simp
  then have "ep_reg s (READ, fd) \<noteq> None \<or> ep_reg s (WRITE, fd) \<noteq> None"
    by (auto simp: mask_of_def split: option.splits)
  then have "fd \<le> ep_max_fd s" using ep_invD(7) [OF assms(1)] by blast
  moreover have "and q EPOLLIN \<noteq> 0 \<Longrightarrow> ep_reg s (READ, fd) \<noteq> None" "and q EPOLLOUT \<noteq> 0 \<Longrightarrow> ep_reg s (WRITE, fd) \<noteq> None"
    using q by (cases "ep_reg s (READ, fd)"; cases "ep_reg s (WRITE, fd)"; auto)+
  ultimately show ?thesis using assms(2,4-6) by (simp add: entry_fits_def)
qed

lemma ep_entry_ok:
  assumes "ep_handles t on f" "ep_inv t s" "entry_fits s (fd, m)"
  shows "\<exists>s'. ep_entry on (fd, m) (s, x) = Inr (s', fold f (ep_ready s (fd, m)) x) \<and>
    ep_apart t {(READ, fd), (WRITE, fd)} s s'"
proof -
  let ?of = "\<lambda>ty. case ep_reg s (ty, fd) of Some e \<Rightarrow> [e] | None \<Rightarrow> []"
  have fd: "0 \<le> fd" "fd \<le> ep_max_fd s" using assms(3) by (simp_all add: entry_fits_def)
  have t: "ep_timerfd s = t" by (rule ep_invD(1) [OF assms(2)])
  have apart: "ep_apart t {(READ, fd), (WRITE, fd)} s s'" if "ep_apart t {(ty, fd)} s s'" "ty = READ \<or> ty = WRITE" for ty s'
    using that by (auto simp: ep_apart_def)
  consider (timer) "fd = t" | (hup) "fd \<noteq> t" "and m (or EPOLLHUP EPOLLERR) \<noteq> 0"
    | (rd) "fd \<noteq> t" "and m (or EPOLLHUP EPOLLERR) = 0" "and m EPOLLIN \<noteq> 0" "ep_reg s (READ, fd) \<noteq> None"
    | (wr) "fd \<noteq> t" "and m (or EPOLLHUP EPOLLERR) = 0" "and m EPOLLIN = 0" "and m EPOLLOUT \<noteq> 0" "ep_reg s (WRITE, fd) \<noteq> None"
    using assms(3) t unfolding entry_fits_def by blast
  then show ?thesis
  proof cases
    case timer
    then show ?thesis using t assms(2) by (simp add: ep_entry_def ep_ready_def ep_apart_def)
  next
    case hup
    obtain s1 where s1: "ep_call on ep_r True fd (s, x) = Inr (s1, fold f (?of READ) x)" "ep_apart t {(READ, fd)} s s1"
      using ep_call_ok [OF assms(1,2) fd, of ep_r READ True x] by auto
    then have i1: "ep_inv t s1" "fd \<le> ep_max_fd s1" "ep_reg s1 (WRITE, fd) = ep_reg s (WRITE, fd)"
      using fd(2) by (auto simp: ep_apart_def)
    obtain s2 where "ep_call on ep_w True fd (s1, fold f (?of READ) x) = Inr (s2, fold f (?of WRITE) (fold f (?of READ) x))"
      "ep_apart t {(WRITE, fd)} s1 s2"
      using ep_call_ok [OF assms(1) i1(1) fd(1) i1(2), of ep_w WRITE True "fold f (?of READ) x"] i1(3) by auto
    then show ?thesis
      using hup t s1(1) ep_apart_trans [OF s1(2)] by (auto simp: ep_entry_def ep_ready_def insert_commute)
  next
    case rd
    then obtain s' where "ep_call on ep_r False fd (s, x) = Inr (s', fold f (?of READ) x)" "ep_apart t {(READ, fd)} s s'"
      using ep_call_ok [OF assms(1,2) fd, of ep_r READ False x] by auto
    then show ?thesis using rd t apart by (auto simp: ep_entry_def ep_ready_def)
  next
    case wr
    then obtain s' where "ep_call on ep_w False fd (s, x) = Inr (s', fold f (?of WRITE) x)" "ep_apart t {(WRITE, fd)} s s'"
      using ep_call_ok [OF assms(1,2) fd, of ep_w WRITE False x] by auto
    then show ?thesis using wr t apart by (auto simp: ep_entry_def ep_ready_def)
  qed
qed

lemma ep_loop_ok:
  assumes "ep_handles t on f"
  shows "ep_inv t s \<Longrightarrow> distinct (map fst fms) \<Longrightarrow> \<forall>fm \<in> set fms. entry_fits s fm \<Longrightarrow>
    \<exists>s'. fold_r (ep_entry on) fms (s, x) = Inr (s', fold f (concat (map (ep_ready s) fms)) x) \<and> ep_inv t s'"
proof (induction fms arbitrary: s x)
  case (Cons fm fms)
  obtain fd m where fm: "fm = (fd, m)" by (cases fm)
  obtain s1 where s1: "ep_entry on fm (s, x) = Inr (s1, fold f (ep_ready s fm) x)"
    "ep_apart t {(READ, fd), (WRITE, fd)} s s1"
    using ep_entry_ok [OF assms Cons.prems(1), of fd m x] Cons.prems(3) fm by auto
  have i1: "ep_inv t s1" "ep_max_fd s \<le> ep_max_fd s1" "ep_timerfd s1 = ep_timerfd s"
    using s1(2) ep_invD(1) Cons.prems(1) by (auto simp: ep_apart_def)
  have same: "ep_reg s1 (ty, fd') = ep_reg s (ty, fd')" if "(fd', m') \<in> set fms" for ty fd' m'
  proof -
    have "fd' \<noteq> fd" using that Cons.prems(2) fm by (force simp: image_iff)
    then show ?thesis using s1(2) by (auto simp: ep_apart_def)
  qed
  have "entry_fits s1 fm'" if "fm' \<in> set fms" for fm'
    using Cons.prems(3) that same i1(2,3) by (cases fm') (fastforce simp: entry_fits_def)
  then have fits: "\<forall>fm' \<in> set fms. entry_fits s1 fm'" by blast
  have ready: "map (ep_ready s1) fms = map (ep_ready s) fms"
    using same i1(3) by (auto simp: ep_ready_def split: prod.splits)
  obtain s2 where "fold_r (ep_entry on) fms (s1, fold f (ep_ready s fm) x) =
      Inr (s2, fold f (concat (map (ep_ready s) fms)) (fold f (ep_ready s fm) x))" "ep_inv t s2"
    using Cons.IH [OF i1(1) _ fits, of "fold f (ep_ready s fm) x", unfolded ready] Cons.prems(2) by auto
  then show ?case using s1(1) by simp
qed auto

text \<open>A round of \<open>Epoll\<close> never calls the reactor with a null event and never reads outside of its
  tables: whatever the kernel reports, within what the manual promises, the callback gets exactly
  the registered events of the ready descriptors, in the order of the report (both events of a
  descriptor with an error, else only the reader when both are ready).\<close>

theorem epoll_poll_calls_registered:
  assumes "ep_handles t on f" "ep_inv t s" "wait_doc wait" "\<And>v. settime v = None"
  shows "case wait (ep_max_fd s) (sint (word_of_int ms :: 32 word)) (ep_interest s) of
      Inl errno \<Rightarrow> ep_poll wait settime tv ms on (s, x) = Inl (System_error errno)
    | Inr fms \<Rightarrow> length fms < ep_buf_sz s \<and>
        (\<exists>s'. ep_poll wait settime tv ms on (s, x) = Inr (s', fold f (concat (map (ep_ready s) fms)) x) \<and> ep_inv t s')"
proof -
  have none: "Option.bind (prepare_epoll tv) settime = None" by (cases "prepare_epoll tv") (simp_all add: assms(4))
  show ?thesis
  proof (cases "wait (ep_max_fd s) (sint (word_of_int ms :: 32 word)) (ep_interest s)")
    case (Inl errno)
    then show ?thesis using none by (simp add: ep_poll_def)
  next
    case (Inr fms)
    have doc: "int (length fms) \<le> ep_max_fd s" "distinct (map fst fms)"
      using assms(3) Inr unfolding wait_doc_def by blast+
    have "entry_fits s fm" if "fm \<in> set fms" for fm
    proof -
      obtain fd m where fm: "fm = (fd, m)" by (cases fm)
      have "\<forall>(fd, m) \<in> set fms. 0 \<le> fd \<and>
          (\<exists>q. ep_interest s fd = Some q \<and> (and m EPOLLIN \<noteq> 0 \<longrightarrow> and q EPOLLIN \<noteq> 0) \<and> (and m EPOLLOUT \<noteq> 0 \<longrightarrow> and q EPOLLOUT \<noteq> 0)) \<and>
          (and m (or EPOLLHUP EPOLLERR) \<noteq> 0 \<or> and m EPOLLIN \<noteq> 0 \<or> and m EPOLLOUT \<noteq> 0)"
        using assms(3) Inr unfolding wait_doc_def by blast
      with that fm show ?thesis using entry_fitsI [OF assms(2), of fd _ m] by blast
    qed
    with ep_loop_ok [OF assms(1,2) doc(2), of x] obtain s' where
      "fold_r (ep_entry on) fms (s, x) = Inr (s', fold f (concat (map (ep_ready s) fms)) x)" "ep_inv t s'" by blast
    then show ?thesis using none Inr doc(1) ep_invD(4) [OF assms(2)] by (simp add: ep_poll_def)
  qed
qed

text \<open>A reader on descriptor 5 that has become ready.\<close>

definition demo_wait :: sys_wait where
  "demo_wait n ms k = (if n < 1 then Inl 22 else if k 5 = Some EPOLLIN then Inr [(5, EPOLLIN)] else Inr [])"

lemma epoll_poll_calls_registered_witness:
  "\<exists>s s'. bind_r (ep_create manual_ctl (Inr 4) (Inr 3)) (ep_insert manual_ctl 9 READ 5) = Inr s \<and>
     ep_poll demo_wait (\<lambda>_. None) (1, 0) 1000 (\<lambda>e (s, x). Inr (s, x @ [e])) (s, []) = Inr (s', [9])"
proof -
  obtain s0 where cr: "ep_create manual_ctl (Inr 4) (Inr 3) = Inr s0"
    by (simp add: ep_create_def ep_ctl_def manual_ctl_def ep_recap_def Let_def)
  have s0: "ep_create manual_ctl (Inr 4) (Inr 3) = Inr s0" "ep_inv 3 s0" "ep_reg s0 = (\<lambda>_. None)"
    using ep_create_ok [OF manual_ctl_doc _ cr] cr by simp_all
  have d: "demux (\<lambda>fd. 0 \<le> fd \<and> fd \<noteq> 3) (ep_inv 3) ep_reg (ep_insert manual_ctl) (ep_remove manual_ctl)"
    by (rule epoll_demux [OF manual_ctl_doc]) (simp add: manual_ctl_def)
  obtain s where s: "ep_insert manual_ctl 9 READ 5 s0 = Inr s" "ep_inv 3 s" "ep_reg s = [(READ, 5) \<mapsto> 9]"
    using demux.insert_ok [OF d s0(2), of READ 5 9] s0(3) by auto
  let ?on = "\<lambda>e (s :: epoll, x). Inr (s, x @ [e])"
  have on: "ep_handles 3 ?on (\<lambda>e x. x @ [e])" by (auto simp: ep_handles_def)
  have doc: "wait_doc demo_wait" by (auto simp: wait_doc_def demo_wait_def split: if_splits)
  have "5 \<le> ep_max_fd s" using ep_invD(7) [OF s(2), of READ 5] s(3) by simp
  moreover have "ep_interest s 5 = Some EPOLLIN" using ep_invD(10) [OF s(2), of 5] s(3) by simp
  ultimately have wait: "demo_wait (ep_max_fd s) ms (ep_interest s) = Inr [(5, EPOLLIN)]" for ms by (simp add: demo_wait_def)
  have "ep_timerfd s = 3" using ep_invD(1) [OF s(2)] .
  then have "ep_ready s (5, EPOLLIN) = [9]" using s(3) by (simp add: ep_ready_def)
  then obtain s' where "ep_poll demo_wait (\<lambda>_. None) (1, 0) 1000 ?on (s, []) = Inr (s', [9])"
    using epoll_poll_calls_registered [OF on s(2) doc, of "\<lambda>_. None" "(1, 0)" 1000 "[]"] by (auto simp: wait)
  then show ?thesis using s0(1) s(1) by auto
qed

section \<open>Where it differs from \<open>Select\<close>\<close>

text \<open>\<open>Epoll\<close> does not provide the stronger contract. Removing an event that is not registered removes
  the other event of the descriptor, which \<open>Select\<close> leaves alone.\<close>

lemma remove_drops_other:
  assumes "ep_inv t s" "0 \<le> fd" "ep_reg s (READ, fd) = Some e" "ep_reg s (WRITE, fd) = None"
    and "ep_remove ctl WRITE fd s = Inr s'"
  shows "ep_reg s' (READ, fd) = None"
proof -
  have fd: "fd \<le> ep_max_fd s" using ep_invD(7) [OF assms(1), of READ fd] assms(3) by simp
  note sl = ep_slots [OF assms(1,2) fd]
  show ?thesis
    using sl assms(2-5) by (auto simp: ep_remove_def ep_ctl_def ep_reg_def Let_def split: sum.splits)
qed

text \<open>Registering an event twice is an error of the system call.\<close>

lemma insert_twice_fails:
  assumes "ctl_doc ctl" "ep_inv t s" "0 \<le> fd" "fd \<noteq> t" "ep_reg s (READ, fd) = Some e" "ep_reg s (WRITE, fd) = None"
  shows "\<exists>errno. ep_insert ctl e' READ fd s = Inl (System_error errno)"
proof -
  note g = ep_recap_inv [OF assms(2,3)]
  note sl = ep_slots [OF g(1) assms(3) g(4), unfolded g(2)]
  have i: "ep_interest (ep_recap fd s) fd = Some EPOLLIN"
    using ep_invD(10) [OF g(1) assms(3,4)] g(2) assms(5,6) by simp
  show ?thesis
    by (cases rule: ctl_cases [OF assms(1), of CTL_ADD fd EPOLLIN "ep_interest (ep_recap fd s)"])
      (use sl assms(3,5,6) i in \<open>simp_all add: ep_insert_def Let_def ep_ctl_def\<close>)
qed

text \<open>\<open>_clear\<close> forgets the largest descriptor and leaves the tables as they are: after it an event of
  the other kind for one of the old descriptors cannot be registered.\<close>

lemma clear_leaves_tables:
  assumes "ep_clear ctl fd_of s = Inr s'"
  shows "ep_r s' = ep_r s" "ep_w s' = ep_w s"
proof -
  have "ep_r s' = ep_r s \<and> ep_w s' = ep_w s" if "ep_clear_loop ctl fd_of n i s = Inr s'" for n i s s'
    using that
  proof (induction n arbitrary: i s)
    case (Suc n)
    then obtain e where e: "ep_clear_loop ctl fd_of n (Suc i) (case e of None \<Rightarrow> s
        | Some e \<Rightarrow> (case ctl CTL_DEL (fd_of e) 0 (ep_interest s) of Inl _ \<Rightarrow> s | Inr k \<Rightarrow> s\<lparr>ep_interest := k\<rparr>)) = Inr s'"
      by auto
    show ?case using Suc.IH [OF e] by (simp split: option.splits sum.splits)
  qed simp
  then show "ep_r s' = ep_r s" "ep_w s' = ep_w s" using assms by (auto simp: ep_clear_def)
qed

text \<open>The timer is armed with an expiration of zero, which disarms it.\<close>

lemma timer_disarmed: "prepare_epoll tv = Some (interval, expiration) \<Longrightarrow> expiration = (0, 0)"
  by (auto simp: prepare_epoll_def Let_def split: if_splits)

end
