(* ===== verification/Fifo.thy ===== *)
theory Fifo
  imports Prelude
begin

text \<open>
  The bounded queue between one producer and one consumer (class \<open>ConcurrentFIFO\<close>,
  include/dtc/concurrent/fifo.hpp): a ring of \<open>C\<close> slots, of which one stays free, and two atomic
  indices, each written by one side only.

  The operations come twice: as the functions a single thread sees, and as the sequence of their
  accesses to the shared state, interleaved with those of the other side. Each load and store is one
  step. The stores of the indices have release and the loads of the other side's index acquire
  order, and the slots are never accessed by both sides at once (\<open>no_race\<close>), so that the interleavings
  are all the behaviours there are.
\<close>

section \<open>The queue of one thread\<close>

text \<open>A slot is \<open>None\<close> before its first assignment and after its value has been moved away.\<close>

record 'a cfifo =
  cf_tail :: u64
  cf_head :: u64
  cf_array :: "'a option list"

definition cf_init :: "u64 \<Rightarrow> 'a cfifo" where
  "cf_init C = \<lparr>cf_tail = 0, cf_head = 0, cf_array = replicate (unat C) None\<rparr>"

definition cf_forward :: "u64 \<Rightarrow> u64 \<Rightarrow> u64" where
  "cf_forward C idx = (idx + 1) mod C"

definition cf_empty :: "'a cfifo \<Rightarrow> bool" where
  "cf_empty f \<longleftrightarrow> cf_tail f = cf_head f"

definition cf_size :: "u64 \<Rightarrow> 'a cfifo \<Rightarrow> u64" where
  "cf_size C f = (cf_tail f - cf_head f + C) mod C"

definition cf_capacity :: "u64 \<Rightarrow> 'a cfifo \<Rightarrow> u64" where
  "cf_capacity C f = (cf_head f - cf_tail f + C - 1) mod C"

definition cf_push :: "u64 \<Rightarrow> 'a \<Rightarrow> 'a cfifo \<Rightarrow> bool \<times> 'a cfifo" where
  "cf_push C item f =
     (let cur = cf_tail f; next = cf_forward C cur in
      if next \<noteq> cf_head f
      then (True, f\<lparr>cf_array := (cf_array f)[unat cur := Some item], cf_tail := next\<rparr>)
      else (False, f))"

text \<open>\<open>pop\<close> leaves its argument alone when the queue is empty.\<close>

definition cf_pop :: "u64 \<Rightarrow> 'a option \<Rightarrow> 'a cfifo \<Rightarrow> bool \<times> 'a option \<times> 'a cfifo" where
  "cf_pop C item f =
     (let cur = cf_head f in
      if cur = cf_tail f then (False, item, f)
      else (True, cf_array f ! unat cur,
            f\<lparr>cf_array := (cf_array f)[unat cur := None], cf_head := cf_forward C cur\<rparr>))"

section \<open>Two threads\<close>

text \<open>Where the producer is: outside; behind the load of the tail; behind the test of the head;
  behind the assignment of the slot. And the consumer: outside; behind the load of the head; behind
  the test of the tail; behind the move out of the slot.\<close>

datatype 'a producer = P_out | P_loaded 'a u64 | P_free 'a u64 | P_filled 'a u64
datatype 'a consumer = C_out | C_loaded u64 | C_some u64 | C_taken u64 "'a option"

record 'a spsc =
  sp_fifo :: "'a cfifo"
  sp_prod :: "'a producer"
  sp_cons :: "'a consumer"

text \<open>What a step makes known: an operation has taken effect, with its result, or nothing.\<close>

datatype 'a fifo_label = Tau | Pushed 'a | Full | Popped "'a option" | Empty

inductive sp_step :: "u64 \<Rightarrow> 'a fifo_label \<Rightarrow> 'a spsc \<Rightarrow> 'a spsc \<Rightarrow> bool" for C where
  push_load: "sp_prod s = P_out \<Longrightarrow>
    sp_step C Tau s (s\<lparr>sp_prod := P_loaded x (cf_tail (sp_fifo s))\<rparr>)"
| push_free: "sp_prod s = P_loaded x cur \<Longrightarrow> cf_forward C cur \<noteq> cf_head (sp_fifo s) \<Longrightarrow>
    sp_step C Tau s (s\<lparr>sp_prod := P_free x cur\<rparr>)"
| push_full: "sp_prod s = P_loaded x cur \<Longrightarrow> cf_forward C cur = cf_head (sp_fifo s) \<Longrightarrow>
    sp_step C Full s (s\<lparr>sp_prod := P_out\<rparr>)"
| push_fill: "sp_prod s = P_free x cur \<Longrightarrow>
    sp_step C Tau s (s\<lparr>sp_fifo := (sp_fifo s)\<lparr>cf_array := (cf_array (sp_fifo s))[unat cur := Some x]\<rparr>,
      sp_prod := P_filled x cur\<rparr>)"
| push_store: "sp_prod s = P_filled x cur \<Longrightarrow>
    sp_step C (Pushed x) s (s\<lparr>sp_fifo := (sp_fifo s)\<lparr>cf_tail := cf_forward C cur\<rparr>, sp_prod := P_out\<rparr>)"
| pop_load: "sp_cons s = C_out \<Longrightarrow>
    sp_step C Tau s (s\<lparr>sp_cons := C_loaded (cf_head (sp_fifo s))\<rparr>)"
| pop_some: "sp_cons s = C_loaded cur \<Longrightarrow> cur \<noteq> cf_tail (sp_fifo s) \<Longrightarrow>
    sp_step C Tau s (s\<lparr>sp_cons := C_some cur\<rparr>)"
| pop_empty: "sp_cons s = C_loaded cur \<Longrightarrow> cur = cf_tail (sp_fifo s) \<Longrightarrow>
    sp_step C Empty s (s\<lparr>sp_cons := C_out\<rparr>)"
| pop_take: "sp_cons s = C_some cur \<Longrightarrow>
    sp_step C Tau s (s\<lparr>sp_fifo := (sp_fifo s)\<lparr>cf_array := (cf_array (sp_fifo s))[unat cur := None]\<rparr>,
      sp_cons := C_taken cur (cf_array (sp_fifo s) ! unat cur)\<rparr>)"
| pop_store: "sp_cons s = C_taken cur v \<Longrightarrow>
    sp_step C (Popped v) s (s\<lparr>sp_fifo := (sp_fifo s)\<lparr>cf_head := cf_forward C cur\<rparr>, sp_cons := C_out\<rparr>)"

definition sp_init :: "u64 \<Rightarrow> 'a spsc" where
  "sp_init C = \<lparr>sp_fifo = cf_init C, sp_prod = P_out, sp_cons = C_out\<rparr>"

inductive sp_reach :: "u64 \<Rightarrow> 'a spsc \<Rightarrow> bool" for C where
  start: "sp_reach C (sp_init C)"
| step: "sp_reach C s \<Longrightarrow> sp_step C l s s' \<Longrightarrow> sp_reach C s'"

section \<open>The ring\<close>

definition ring :: "nat \<Rightarrow> nat \<Rightarrow> nat \<Rightarrow> 'b list \<Rightarrow> 'b list" where
  "ring N h n a = map (\<lambda>i. a ! ((h + i) mod N)) [0..<n]"

definition ring_size :: "nat \<Rightarrow> nat \<Rightarrow> nat \<Rightarrow> nat" where
  "ring_size N h t = (t + N - h) mod N"

lemma length_ring [simp]: "length (ring N h n a) = n"
  by (simp add: ring_def)

lemma ring_0 [simp]: "ring N h 0 a = []"
  by (simp add: ring_def)

lemma ring_Suc: "ring N h (Suc n) a = ring N h n a @ [a ! ((h + n) mod N)]"
  by (simp add: ring_def)

lemma ring_Cons:
  assumes "h < N"
  shows "ring N h (Suc n) a = a ! h # ring N (Suc h mod N) n a"
proof -
  have "map (\<lambda>i. a ! ((h + i) mod N)) [Suc 0..<Suc n] = map (\<lambda>i. a ! ((h + Suc i) mod N)) [0..<n]"
    by (simp add: map_Suc_upt [symmetric] comp_def del: upt_Suc)
  moreover have "(h + Suc i) mod N = (Suc h mod N + i) mod N" for i
    by (simp add: mod_add_left_eq)
  ultimately show ?thesis
    using assms by (simp add: ring_def upt_conv_Cons del: upt_Suc)
qed

lemma ring_slots_distinct:
  assumes "i < n" "n < (N::nat)"
  shows "(h + i) mod N \<noteq> (h + n) mod N"
proof
  assume "(h + i) mod N = (h + n) mod N"
  then have "N dvd (h + n) - (h + i)" using assms by (metis mod_eq_dvd_iff_nat nat_add_left_cancel_le less_imp_le)
  then have "N dvd n - i" by simp
  with assms show False by (meson dvd_imp_le less_imp_diff_less not_less zero_less_diff)
qed

lemma ring_update_end:
  assumes "n < N"
  shows "ring N h n (a[(h + n) mod N := v]) = ring N h n a"
proof -
  have "(h + n) mod N \<noteq> (h + i) mod N" if "i < n" for i
    using ring_slots_distinct [OF that assms, of h] by simp
  then show ?thesis by (simp add: ring_def)
qed

lemma ring_update_start:
  assumes "h < N" "Suc n < N \<or> Suc n = N" "length a = N"
  shows "ring N h (Suc n) (a[h := v]) = v # ring N (Suc h mod N) n a"
proof -
  have "h \<noteq> Suc (h + i) mod N" if "i < n" for i
    using ring_slots_distinct [of 0 "Suc i" N h] that assms by auto
  moreover have "(Suc h mod N + i) mod N = Suc (h + i) mod N" for i
    by (simp add: mod_add_left_eq)
  ultimately have "ring N (Suc h mod N) n (a[h := v]) = ring N (Suc h mod N) n a"
    by (simp add: ring_def)
  then show ?thesis using assms by (simp add: ring_Cons)
qed

lemma ring_size_less: "0 < N \<Longrightarrow> ring_size N h t < N"
  by (simp add: ring_size_def)

lemma ring_size_0: "h < N \<Longrightarrow> t < N \<Longrightarrow> ring_size N h t = 0 \<longleftrightarrow> h = t"
  by (cases "h \<le> t") (auto simp: ring_size_def mod_if)

lemma ring_end: "h < N \<Longrightarrow> t < N \<Longrightarrow> (h + ring_size N h t) mod N = t"
  by (cases "h \<le> t") (auto simp: ring_size_def mod_if)

lemma ring_size_tail:
  assumes "h < N" "t < N" "Suc t mod N \<noteq> h"
  shows "ring_size N h (Suc t mod N) = Suc (ring_size N h t)"
  using assms by (cases "h \<le> t"; cases "Suc t = N") (auto simp: ring_size_def mod_if)

lemma ring_size_full:
  assumes "h < N" "t < N"
  shows "Suc t mod N = h \<longleftrightarrow> Suc (ring_size N h t) = N"
  using assms by (cases "h \<le> t"; cases "Suc t = N") (auto simp: ring_size_def mod_if)

lemma ring_size_head:
  assumes "h < N" "t < N" "h \<noteq> t"
  shows "Suc (ring_size N (Suc h mod N) t) = ring_size N h t"
  using assms by (cases "h \<le> t"; cases "Suc h = N") (auto simp: ring_size_def mod_if)

section \<open>The invariant\<close>

definition cf_items :: "u64 \<Rightarrow> 'a cfifo \<Rightarrow> 'a option list" where
  "cf_items C f = ring (unat C) (unat (cf_head f)) (ring_size (unat C) (unat (cf_head f)) (unat (cf_tail f))) (cf_array f)"

definition cf_ok :: "u64 \<Rightarrow> 'a cfifo \<Rightarrow> bool" where
  "cf_ok C f \<longleftrightarrow> cf_head f < C \<and> cf_tail f < C \<and> length (cf_array f) = unat C"

lemma unat_forward:
  assumes "i < C"
  shows "unat (cf_forward C i) = Suc (unat i) mod unat C"
proof -
  have "unat i < unat C" using assms by (simp add: word_less_nat_alt)
  moreover have "unat C < 2 ^ 64" using unsigned_less [of C] by simp
  ultimately have "Suc (unat i) < 2 ^ 64" by simp
  then have "unat (i + 1) = Suc (unat i)" by (simp add: unat_word_ariths)
  then show ?thesis by (simp add: cf_forward_def unat_mod)
qed

lemma forward_less: "i < C \<Longrightarrow> cf_forward C i < C"
  by (simp add: word_less_nat_alt unat_forward)

lemma cf_okD:
  assumes "cf_ok C f"
  shows "unat (cf_head f) < unat C" "unat (cf_tail f) < unat C" "length (cf_array f) = unat C"
  using assms by (simp_all add: cf_ok_def word_less_nat_alt)

lemma items_less: "cf_ok C f \<Longrightarrow> length (cf_items C f) < unat C"
  using cf_okD [of C f] by (auto simp: cf_items_def intro: ring_size_less)

lemma items_empty: "cf_ok C f \<Longrightarrow> cf_items C f = [] \<longleftrightarrow> cf_head f = cf_tail f"
  using cf_okD [of C f] ring_size_0 [of "unat (cf_head f)" "unat C" "unat (cf_tail f)"]
  by (simp add: cf_items_def word_unat_eq_iff [of "cf_head f"] flip: length_0_conv)

lemma items_full:
  assumes "cf_ok C f"
  shows "cf_forward C (cf_tail f) = cf_head f \<longleftrightarrow> Suc (length (cf_items C f)) = unat C"
proof -
  have "cf_tail f < C" using assms by (simp add: cf_ok_def)
  then have "cf_forward C (cf_tail f) = cf_head f \<longleftrightarrow> Suc (unat (cf_tail f)) mod unat C = unat (cf_head f)"
    by (simp add: word_unat_eq_iff [of _ "cf_head f"] unat_forward)
  then show ?thesis using ring_size_full [OF cf_okD(1,2) [OF assms]] by (simp add: cf_items_def)
qed

text \<open>The effect of the four stores on the items.\<close>

lemma items_fill:
  assumes "cf_ok C f"
  shows "cf_items C (f\<lparr>cf_array := (cf_array f)[unat (cf_tail f) := v]\<rparr>) = cf_items C f"
  using ring_update_end [OF items_less [OF assms], of "unat (cf_head f)" "cf_array f" v]
    ring_end [OF cf_okD(1,2) [OF assms]]
  by (simp add: cf_items_def)

lemma items_tail:
  assumes "cf_ok C f" "Suc (length (cf_items C f)) < unat C"
  shows "cf_items C (f\<lparr>cf_tail := cf_forward C (cf_tail f)\<rparr>) = cf_items C f @ [cf_array f ! unat (cf_tail f)]"
proof -
  have ne: "Suc (unat (cf_tail f)) mod unat C \<noteq> unat (cf_head f)"
    using ring_size_full [OF cf_okD(1,2) [OF assms(1)]] assms(2) by (auto simp: cf_items_def)
  have t: "unat (cf_forward C (cf_tail f)) = Suc (unat (cf_tail f)) mod unat C"
    using assms(1) by (simp add: cf_ok_def unat_forward)
  show ?thesis
    using ring_end [OF cf_okD(1,2) [OF assms(1)]]
    by (simp add: cf_items_def t ring_size_tail [OF cf_okD(1,2) [OF assms(1)] ne] ring_Suc)
qed

lemma items_take:
  assumes "cf_ok C f" "cf_items C f \<noteq> []"
  shows "cf_items C f = cf_array f ! unat (cf_head f) # tl (cf_items C f)"
    and "cf_items C (f\<lparr>cf_array := (cf_array f)[unat (cf_head f) := v]\<rparr>) = v # tl (cf_items C f)"
    and "cf_items C (f\<lparr>cf_head := cf_forward C (cf_head f)\<rparr>) = tl (cf_items C f)"
proof -
  let ?h = "unat (cf_head f)" and ?t = "unat (cf_tail f)" and ?N = "unat C"
  note ok = cf_okD [OF assms(1)]
  have "?h \<noteq> ?t" using assms by (simp add: items_empty word_unat_eq_iff [of "cf_head f"])
  then have n: "ring_size ?N ?h ?t = Suc (ring_size ?N (Suc ?h mod ?N) ?t)"
    using ring_size_head [OF ok(1,2)] by simp
  have less: "Suc (ring_size ?N (Suc ?h mod ?N) ?t) < ?N"
    using ring_size_less [of ?N ?h ?t] ok n by simp
  have h: "unat (cf_forward C (cf_head f)) = Suc ?h mod ?N"
    using assms(1) by (simp add: cf_ok_def unat_forward)
  show "cf_items C f = cf_array f ! ?h # tl (cf_items C f)"
    by (simp add: cf_items_def n ring_Cons [OF ok(1)])
  show "cf_items C (f\<lparr>cf_array := (cf_array f)[?h := v]\<rparr>) = v # tl (cf_items C f)"
    using ring_update_start [OF ok(1) disjI1 [OF less] ok(3)]
    by (simp add: cf_items_def n ring_Cons [OF ok(1)])
  show "cf_items C (f\<lparr>cf_head := cf_forward C (cf_head f)\<rparr>) = tl (cf_items C f)"
    by (simp add: cf_items_def h n ring_Cons [OF ok(1)])
qed

text \<open>The items in the queue: one that the consumer has moved out still counts until the new head
  is stored.\<close>

definition held :: "u64 \<Rightarrow> 'a cfifo \<Rightarrow> 'a consumer \<Rightarrow> 'a option list" where
  "held C f c = (case c of C_taken cur v \<Rightarrow> v # tl (cf_items C f) | _ \<Rightarrow> cf_items C f)"

abbreviation sp_items :: "u64 \<Rightarrow> 'a spsc \<Rightarrow> 'a option list" where
  "sp_items C s \<equiv> held C (sp_fifo s) (sp_cons s)"

definition prod_ok :: "u64 \<Rightarrow> 'a cfifo \<Rightarrow> 'a producer \<Rightarrow> bool" where
  "prod_ok C f p = (case p of
       P_out \<Rightarrow> True
     | P_loaded x cur \<Rightarrow> cur = cf_tail f
     | P_free x cur \<Rightarrow> cur = cf_tail f \<and> Suc (length (cf_items C f)) < unat C
     | P_filled x cur \<Rightarrow> cur = cf_tail f \<and> Suc (length (cf_items C f)) < unat C \<and>
         cf_array f ! unat cur = Some x)"

definition cons_ok :: "u64 \<Rightarrow> 'a cfifo \<Rightarrow> 'a consumer \<Rightarrow> bool" where
  "cons_ok C f c = (case c of
       C_out \<Rightarrow> True
     | C_loaded cur \<Rightarrow> cur = cf_head f
     | C_some cur \<Rightarrow> cur = cf_head f \<and> cf_items C f \<noteq> []
     | C_taken cur v \<Rightarrow> cur = cf_head f \<and> cf_items C f \<noteq> [])"

definition sp_inv :: "u64 \<Rightarrow> 'a spsc \<Rightarrow> bool" where
  "sp_inv C s \<longleftrightarrow> cf_ok C (sp_fifo s) \<and> prod_ok C (sp_fifo s) (sp_prod s) \<and>
     cons_ok C (sp_fifo s) (sp_cons s) \<and> None \<notin> set (sp_items C s)"

text \<open>The queue that is promised: at most \<open>n\<close> items, taken in the order they came in.\<close>

fun bounded_queue :: "nat \<Rightarrow> 'a fifo_label \<Rightarrow> 'a option list \<Rightarrow> 'a option list option" where
  "bounded_queue n Tau q = Some q"
| "bounded_queue n (Pushed x) q = (if length q < n then Some (q @ [Some x]) else None)"
| "bounded_queue n Full q = (if length q = n then Some q else None)"
| "bounded_queue n (Popped v) q = (if v \<noteq> None \<and> q \<noteq> [] \<and> hd q = v then Some (tl q) else None)"
| "bounded_queue n Empty q = (if q = [] then Some q else None)"

lemma cf_ok_updates [simp]:
  "cf_ok C (f\<lparr>cf_array := (cf_array f)[i := v]\<rparr>) = cf_ok C f"
  "cf_ok C f \<Longrightarrow> cf_ok C (f\<lparr>cf_tail := cf_forward C (cf_tail f)\<rparr>)"
  "cf_ok C f \<Longrightarrow> cf_ok C (f\<lparr>cf_head := cf_forward C (cf_head f)\<rparr>)"
  by (auto simp: cf_ok_def forward_less)

text \<open>Both sides point at the same slot only when the queue is empty.\<close>

lemma slots_differ: "cf_ok C f \<Longrightarrow> cf_items C f \<noteq> [] \<Longrightarrow> unat (cf_head f) \<noteq> unat (cf_tail f)"
  by (simp add: items_empty word_unat_eq_iff [of "cf_head f"])

lemma length_held: "cons_ok C f c \<Longrightarrow> length (held C f c) = length (cf_items C f)"
  by (auto simp: cons_ok_def held_def split: consumer.splits)

text \<open>The steps of one side keep what the other side relies on.\<close>

lemma fill_keeps:
  fixes v :: "'a option"
  assumes "cf_ok C f"
  defines "g \<equiv> f\<lparr>cf_array := (cf_array f)[unat (cf_tail f) := v]\<rparr>"
  shows "cons_ok C g c = cons_ok C f c" "held C g c = held C f c"
  using items_fill [OF assms(1), of v]
  by (auto simp: g_def cons_ok_def held_def split: consumer.splits)

lemma tail_keeps:
  assumes "cf_ok C f" "Suc (length (cf_items C f)) < unat C" "cons_ok C f c"
  defines "g \<equiv> f\<lparr>cf_tail := cf_forward C (cf_tail f)\<rparr>"
  shows "cons_ok C g c" "held C g c = held C f c @ [cf_array f ! unat (cf_tail f)]"
  using items_tail [OF assms(1,2)] assms(3)
  by (auto simp: g_def cons_ok_def held_def split: consumer.splits)

lemma take_keeps:
  assumes "cf_ok C f" "cf_items C f \<noteq> []" "prod_ok C f p"
  shows "prod_ok C (f\<lparr>cf_array := (cf_array f)[unat (cf_head f) := v]\<rparr>) p"
  using items_take [OF assms(1,2)] assms(2,3)
    slots_differ [OF assms(1,2)] by (auto simp: prod_ok_def split: producer.splits)

lemma head_keeps:
  assumes "cf_ok C f" "cf_items C f \<noteq> []" "prod_ok C f p"
  shows "prod_ok C (f\<lparr>cf_head := cf_forward C (cf_head f)\<rparr>) p"
  using items_take [OF assms(1,2)] assms(3) by (auto simp: prod_ok_def split: producer.splits)

lemma sp_step_ok:
  assumes "sp_step C l s s'" "sp_inv C s"
  shows "sp_inv C s' \<and> bounded_queue (unat C - 1) l (sp_items C s) = Some (sp_items C s')"
proof -
  let ?f = "sp_fifo s"
  have inv: "cf_ok C ?f" "prod_ok C ?f (sp_prod s)" "cons_ok C ?f (sp_cons s)" "None \<notin> set (sp_items C s)"
    using assms(2) by (simp_all add: sp_inv_def)
  note len = length_held [OF inv(3)] items_less [OF inv(1)]
  show ?thesis
    using assms(1)
  proof cases
    case (push_load x)
    then show ?thesis using inv by (simp add: sp_inv_def prod_ok_def)
  next
    case (push_free x cur)
    then show ?thesis using inv len items_full [OF inv(1)] by (auto simp: sp_inv_def prod_ok_def)
  next
    case (push_full x cur)
    then show ?thesis using inv len items_full [OF inv(1)] by (auto simp: sp_inv_def prod_ok_def)
  next
    case (push_fill x cur)
    then show ?thesis
      using inv len fill_keeps [OF inv(1), of "Some x" "sp_cons s"] items_fill [OF inv(1), of "Some x"]
        cf_okD [OF inv(1)]
      by (auto simp: sp_inv_def prod_ok_def)
  next
    case (push_store x cur)
    then have "prod_ok C ?f (P_filled x cur)" using inv(2) by simp
    then have p: "cur = cf_tail ?f" "Suc (length (cf_items C ?f)) < unat C" "cf_array ?f ! unat cur = Some x"
      unfolding prod_ok_def by auto
    then have "cf_array ?f ! unat (cf_tail ?f) = Some x" by simp
    note t = tail_keeps [OF inv(1) p(2) inv(3), unfolded this]
    show ?thesis
      using push_store(1,2) inv len p(1,2) t by (simp add: sp_inv_def prod_ok_def)
  next
    case pop_load
    then show ?thesis using inv by (simp add: sp_inv_def cons_ok_def held_def)
  next
    case (pop_some cur)
    then show ?thesis using inv items_empty [OF inv(1)] by (auto simp: sp_inv_def cons_ok_def held_def)
  next
    case (pop_empty cur)
    then show ?thesis using inv items_empty [OF inv(1)] by (auto simp: sp_inv_def cons_ok_def held_def)
  next
    case (pop_take cur)
    then have c: "cur = cf_head ?f" "cf_items C ?f \<noteq> []" using inv(3) by (simp_all add: cons_ok_def)
    have "held C (?f\<lparr>cf_array := (cf_array ?f)[unat cur := None]\<rparr>) (C_taken cur (cf_array ?f ! unat cur)) =
        cf_items C ?f"
      using items_take(1) [OF inv(1) c(2)] items_take(2) [OF inv(1) c(2), of None] c(1) by (simp add: held_def)
    moreover have "sp_items C s = cf_items C ?f" using pop_take by (simp add: held_def)
    ultimately show ?thesis
      using pop_take inv c take_keeps [OF inv(1) c(2) inv(2), of None] items_take(2) [OF inv(1) c(2), of None]
      by (simp add: sp_inv_def cons_ok_def)
  next
    case (pop_store cur v)
    then have c: "cur = cf_head ?f" "cf_items C ?f \<noteq> []" "sp_items C s = v # tl (cf_items C ?f)"
      using inv(3) by (simp_all add: cons_ok_def held_def)
    then show ?thesis
      using pop_store inv head_keeps [OF inv(1) c(2) inv(2)] items_take(3) [OF inv(1) c(2)]
      by (cases v) (auto simp: sp_inv_def cons_ok_def held_def)
  qed
qed

lemma sp_init_inv:
  assumes "0 < C"
  shows "sp_inv C (sp_init C :: 'a spsc)" "sp_items C (sp_init C :: 'a spsc) = []"
proof -
  have "0 < unat C" using assms by (simp add: word_less_nat_alt)
  then show "sp_items C (sp_init C :: 'a spsc) = []"
    by (simp add: sp_init_def cf_init_def held_def cf_items_def ring_size_def)
  moreover have "cf_ok C (cf_init C :: 'a cfifo)" using assms by (simp add: cf_init_def cf_ok_def)
  ultimately show "sp_inv C (sp_init C :: 'a spsc)"
    by (simp add: sp_inv_def sp_init_def prod_ok_def cons_ok_def)
qed

lemma sp_reach_inv: "sp_reach C s \<Longrightarrow> 0 < C \<Longrightarrow> sp_inv C s"
  by (induction rule: sp_reach.induct) (auto simp: sp_init_inv dest: sp_step_ok)

text \<open>C31: a \<open>ConcurrentFIFO\<close> with one producer and one consumer behaves as a queue of at most
  \<open>C - 1\<close> items in every interleaving: each operation takes effect at one of its steps, where it
  does what a sequential queue would do, with the same result; in particular \<open>push\<close> fails only at a
  moment the queue is full and \<open>pop\<close> only at one it is empty, and what is popped has been pushed, in
  the same order.\<close>

theorem fifo_refines_queue:
  assumes "1 < C" "sp_reach C s" "sp_step C l s s'"
  shows "bounded_queue (unat C - 1) l (sp_items C s) = Some (sp_items C s')"
proof -
  have "0 < C" using assms(1) by (metis gr_zeroI not_less_zero word_coorder.extremum_strict word_gt_0)
  then show ?thesis using sp_step_ok [OF assms(3) sp_reach_inv [OF assms(2)]] by simp
qed

text \<open>The producer never assigns to the slot that the consumer moves from.\<close>

lemma no_race:
  assumes "0 < C" "sp_reach C s" "sp_prod s = P_free x i" "sp_cons s = C_some j"
  shows "unat i \<noteq> unat j"
  using sp_reach_inv [OF assms(2,1)] assms(3,4) slots_differ [of C "sp_fifo s"]
  by (auto simp: sp_inv_def prod_ok_def cons_ok_def)

lemma fifo_refines_queue_witness:
  "\<exists>s s'. sp_reach 2 (s :: nat spsc) \<and> sp_step 2 (Pushed 7) s s' \<and>
     bounded_queue (unat (2 :: u64) - 1) (Pushed 7) (sp_items 2 s) = Some (sp_items 2 s')"
proof -
  define s :: "nat spsc" where
    "s = \<lparr>sp_fifo = \<lparr>cf_tail = 0, cf_head = 0, cf_array = [Some 7, None]\<rparr>, sp_prod = P_filled 7 0, sp_cons = C_out\<rparr>"
  have two: "replicate 2 x = [x, x]" for x :: "nat option" by (simp add: numeral_2_eq_2)
  have "sp_reach 2 s"
    using sp_reach.step [OF sp_reach.step [OF sp_reach.step [OF sp_reach.start
        sp_step.push_load [of _ _ "7 :: nat"]] sp_step.push_free [of _ 7 0]] sp_step.push_fill [of _ 7 0], of 2]
    by (simp add: s_def sp_init_def cf_init_def cf_forward_def two)
  moreover obtain s' where "sp_step 2 (Pushed 7) s s'"
    using sp_step.push_store [of s 7 0 2] by (auto simp: s_def)
  moreover have "1 < (2 :: u64)" by simp
  ultimately show ?thesis using fifo_refines_queue [of 2 s "Pushed 7" s'] by blast
qed

section \<open>The queue of one thread, again\<close>

text \<open>Run without the other side, the steps of an operation are the operation.\<close>

lemma cf_push_steps:
  assumes "sp_prod s = P_out" "cf_push C x (sp_fifo s) = (ok, f)"
  shows "\<exists>l. (sp_step C Tau OO (if ok then sp_step C Tau OO sp_step C Tau OO sp_step C l else sp_step C l))
    s (s\<lparr>sp_fifo := f\<rparr>) \<and> l = (if ok then Pushed x else Full)"
proof (cases ok)
  case True
  let ?t = "cf_tail (sp_fifo s)"
  define s1 where "s1 = s\<lparr>sp_prod := P_loaded x ?t\<rparr>"
  define s2 where "s2 = s\<lparr>sp_prod := P_free x ?t\<rparr>"
  define s3 where "s3 = s\<lparr>sp_fifo := (sp_fifo s)\<lparr>cf_array := (cf_array (sp_fifo s))[unat ?t := Some x]\<rparr>,
    sp_prod := P_filled x ?t\<rparr>"
  have f: "cf_forward C ?t \<noteq> cf_head (sp_fifo s)"
    "f = (sp_fifo s)\<lparr>cf_array := (cf_array (sp_fifo s))[unat ?t := Some x], cf_tail := cf_forward C ?t\<rparr>"
    using assms(2) True by (auto simp: cf_push_def Let_def split: if_splits)
  have "sp_step C Tau s s1" using sp_step.push_load [OF assms(1)] by (simp add: s1_def)
  moreover have "sp_step C Tau s1 s2" using sp_step.push_free [of s1 x ?t C] f(1) by (simp add: s1_def s2_def)
  moreover have "sp_step C Tau s2 s3" using sp_step.push_fill [of s2 x ?t C] by (simp add: s2_def s3_def)
  moreover have "sp_step C (Pushed x) s3 (s\<lparr>sp_fifo := f\<rparr>)"
    using sp_step.push_store [of s3 x ?t C] assms(1) f(2) by (cases s) (simp add: s3_def)
  ultimately show ?thesis using True by auto
next
  case False
  define s1 where "s1 = s\<lparr>sp_prod := P_loaded x (cf_tail (sp_fifo s))\<rparr>"
  have f: "cf_forward C (cf_tail (sp_fifo s)) = cf_head (sp_fifo s)" "f = sp_fifo s"
    using assms(2) False by (auto simp: cf_push_def Let_def split: if_splits)
  have "sp_step C Tau s s1" using sp_step.push_load [OF assms(1)] by (simp add: s1_def)
  moreover have "sp_step C Full s1 (s\<lparr>sp_fifo := f\<rparr>)"
    using sp_step.push_full [of s1 x _ C] assms(1) f by (cases s) (simp add: s1_def)
  ultimately show ?thesis using False by auto
qed

text \<open>The counters, for a capacity at most half the range of \<open>size_t\<close> (an object cannot be larger): the
  differences wrap around, the sums do not.\<close>

lemma unat_distance:
  fixes h t C :: u64
  assumes "h < C" "t < C" "C \<le> 2 ^ 63"
  shows "unat (t - h + C) = unat t + unat C - unat h"
proof -
  have less: "unat h < unat C" "unat t < unat C" "unat C \<le> 2 ^ 63"
    using assms by (simp_all add: word_less_nat_alt word_le_nat_alt)
  then have "unat (t + C) = unat t + unat C" by (simp add: unat_word_ariths)
  moreover from this have "h \<le> t + C" using less by (simp add: word_le_nat_alt)
  moreover have "t - h + C = t + C - h" by simp
  ultimately show ?thesis by (metis unat_sub)
qed

lemma cf_size_items:
  assumes "cf_ok C f" "C \<le> 2 ^ 63"
  shows "unat (cf_size C f) = length (cf_items C f)"
  using assms unat_distance [of "cf_head f" C "cf_tail f"]
  by (simp add: cf_size_def cf_items_def cf_ok_def unat_mod ring_size_def)

lemma cf_capacity_items:
  assumes "cf_ok C f" "C \<le> 2 ^ 63"
  shows "unat (cf_capacity C f) = unat C - 1 - length (cf_items C f)"
proof -
  let ?h = "unat (cf_head f)" and ?t = "unat (cf_tail f)"
  have less: "cf_head f < C" "cf_tail f < C" using assms(1) by (simp_all add: cf_ok_def)
  note ok = cf_okD [OF assms(1)]
  have d: "unat (cf_head f - cf_tail f + C) = ?h + unat C - ?t"
    using unat_distance [OF less(2,1) assms(2)] .
  then have "1 \<le> cf_head f - cf_tail f + C" using ok by (simp add: word_le_nat_alt)
  then have "unat (cf_capacity C f) = (?h + unat C - ?t - 1) mod unat C"
    by (simp add: cf_capacity_def unat_mod unat_sub d)
  also have "\<dots> = unat C - 1 - length (cf_items C f)"
    using ok by (cases "?h \<le> ?t") (auto simp: cf_items_def ring_size_def mod_if)
  finally show ?thesis .
qed

lemma cf_empty_items: "cf_ok C f \<Longrightarrow> cf_empty f \<longleftrightarrow> cf_items C f = []"
  by (auto simp: cf_empty_def items_empty)

end
