(* ===== verification/Threadpool.thy ===== *)
theory Threadpool
  imports Prelude "HOL-Library.Multiset"
begin

text \<open>
  The pool of worker threads that the reactor hands its handlers to (class \<open>Threadpool\<close>,
  include/dtc/concurrent/threadpool.hpp), as a step relation of the thread that owns the pool and of
  its workers over the queue, its mutex and its condition variable.

  What runs under the mutex is one step. A worker waits with a predicate: it tests the queue and
  blocks in one step, and tests it again whenever it is woken, be it by \<open>notify_one\<close> or spuriously.
  \<open>notify_one\<close> comes after the mutex has been released; the thread that owes it is recorded. The steps
  are those of tasks that return; a task that throws ends the program (\<open>std::terminate\<close>).
\<close>

section \<open>The pool\<close>

datatype signal = STANDARD | SHUTDOWN

text \<open>Where a worker is: not created; before it has registered itself; about to test the queue;
  blocked in \<open>wait\<close>; in a task (\<open>None\<close> for the empty task of a shutdown), which may owe a
  notification; behind the loop; returned.\<close>

datatype 'c pool_pc = Unborn | Entering | Looking | Blocked | Running "'c option" signal bool | Leaving | Ended

text \<open>Where the owner is: outside, in the loop of \<open>spawn\<close> with some threads to go, in the loop of
  \<open>shutdown\<close> behind some rounds, joining.\<close>

datatype owner_pc = Outside | Spawning nat | Signalling nat | Joining "nat list"

record 'c tpool =
  tp_queue :: "('c option \<times> signal) list"
  tp_threads :: "nat list"
  tp_ids :: "nat set"
  tp_pc :: "nat \<Rightarrow> 'c pool_pc"
  tp_owner :: owner_pc
  tp_owes :: bool
  tp_submitted :: "'c list"
  tp_executed :: "'c list"

text \<open>\<open>tp_submitted\<close> and \<open>tp_executed\<close> are the history: the tasks given to \<open>async\<close>, and those that
  have returned.\<close>

definition tp_init :: "'c tpool" where
  "tp_init = \<lparr>tp_queue = [], tp_threads = [], tp_ids = {}, tp_pc = (\<lambda>_. Unborn), tp_owner = Outside,
     tp_owes = False, tp_submitted = [], tp_executed = []\<rparr>"

definition is_worker :: "nat \<Rightarrow> 'c tpool \<Rightarrow> bool" where
  "is_worker t s \<longleftrightarrow> t \<in> tp_ids s"

definition num_tasks :: "'c tpool \<Rightarrow> nat" where
  "num_tasks s = length (tp_queue s)"

definition num_workers :: "'c tpool \<Rightarrow> nat" where
  "num_workers s = length (tp_threads s)"

text \<open>\<open>async\<close>: without threads the task runs at once, otherwise it is appended to the queue.\<close>

definition tp_async :: "'c option \<Rightarrow> signal \<Rightarrow> 'c tpool \<Rightarrow> 'c tpool" where
  "tp_async c sig s =
     (if tp_threads s = []
      then s\<lparr>tp_submitted := tp_submitted s @ (case c of Some x \<Rightarrow> [x] | None \<Rightarrow> []),
             tp_executed := tp_executed s @ (case c of Some x \<Rightarrow> [x] | None \<Rightarrow> [])\<rparr>
      else s\<lparr>tp_queue := tp_queue s @ [(c, sig)],
             tp_submitted := tp_submitted s @ (case c of Some x \<Rightarrow> [x] | None \<Rightarrow> [])\<rparr>)"

text \<open>The guards of \<open>spawn\<close> and \<open>shutdown\<close>, for the thread \<open>t\<close> that calls them.\<close>

definition tp_spawn :: "nat \<Rightarrow> nat \<Rightarrow> 'c tpool \<Rightarrow> 'c tpool result" where
  "tp_spawn t n s = (if is_worker t s then Inl (Runtime_error ''Worker cannot spawn threads'')
     else Inr (s\<lparr>tp_owner := Spawning n\<rparr>))"

definition tp_shutdown :: "nat \<Rightarrow> 'c tpool \<Rightarrow> 'c tpool result" where
  "tp_shutdown t s = (if is_worker t s then Inl (Runtime_error ''Worker cannot shut down thread pool'')
     else Inr (s\<lparr>tp_owner := Signalling 0\<rparr>))"

section \<open>Steps\<close>

definition set_pc :: "nat \<Rightarrow> 'c pool_pc \<Rightarrow> 'c tpool \<Rightarrow> 'c tpool" where
  "set_pc t p s = s\<lparr>tp_pc := (tp_pc s)(t := p)\<rparr>"

text \<open>\<open>notify_one\<close>: one of the blocked workers wakes, if there is one.\<close>

inductive notify_one :: "'c tpool \<Rightarrow> 'c tpool \<Rightarrow> bool" where
  woken: "tp_pc s t = Blocked \<Longrightarrow> notify_one s (set_pc t Looking s)"
| nobody: "(\<And>t. tp_pc s t \<noteq> Blocked) \<Longrightarrow> notify_one s s"

text \<open>The owner, a thread \<open>o\<close> that is not a worker.\<close>

inductive owner_step :: "nat \<Rightarrow> 'c tpool \<Rightarrow> 'c tpool \<Rightarrow> bool" for me where
  async: "tp_owner s = Outside \<Longrightarrow> \<not> tp_owes s \<Longrightarrow>
    owner_step me s ((tp_async (Some c) STANDARD s)\<lparr>tp_owes := tp_threads s \<noteq> []\<rparr>)"
| notify: "tp_owes s \<Longrightarrow> notify_one s s' \<Longrightarrow> owner_step me s (s'\<lparr>tp_owes := False\<rparr>)"
| spawn: "tp_owner s = Outside \<Longrightarrow> \<not> tp_owes s \<Longrightarrow> tp_spawn me n s = Inr s' \<Longrightarrow> owner_step me s s'"
| thread: "tp_owner s = Spawning (Suc n) \<Longrightarrow> t \<noteq> me \<Longrightarrow> tp_pc s t = Unborn \<Longrightarrow>
    owner_step me s (set_pc t Entering s\<lparr>tp_threads := tp_threads s @ [t], tp_owner := Spawning n\<rparr>)"
| spawned: "tp_owner s = Spawning 0 \<Longrightarrow> owner_step me s (s\<lparr>tp_owner := Outside\<rparr>)"
| shutdown: "tp_owner s = Outside \<Longrightarrow> \<not> tp_owes s \<Longrightarrow> tp_shutdown me s = Inr s' \<Longrightarrow> owner_step me s s'"
| token: "tp_owner s = Signalling i \<Longrightarrow> \<not> tp_owes s \<Longrightarrow> i < num_workers s \<Longrightarrow>
    owner_step me s ((tp_async None SHUTDOWN s)\<lparr>tp_owes := True, tp_owner := Signalling (Suc i)\<rparr>)"
| tokens: "tp_owner s = Signalling i \<Longrightarrow> \<not> tp_owes s \<Longrightarrow> \<not> i < num_workers s \<Longrightarrow>
    owner_step me s (s\<lparr>tp_owner := Joining (tp_threads s)\<rparr>)"
| join: "tp_owner s = Joining (t # ts) \<Longrightarrow> tp_pc s t = Ended \<Longrightarrow> owner_step me s (s\<lparr>tp_owner := Joining ts\<rparr>)"
| joined: "tp_owner s = Joining [] \<Longrightarrow> owner_step me s (s\<lparr>tp_threads := [], tp_owner := Outside\<rparr>)"

text \<open>A worker. The tasks it runs may call \<open>async\<close> themselves.\<close>

inductive worker_step :: "nat \<Rightarrow> 'c tpool \<Rightarrow> 'c tpool \<Rightarrow> bool" for t where
  enter: "tp_pc s t = Entering \<Longrightarrow> worker_step t s (set_pc t Looking s\<lparr>tp_ids := insert t (tp_ids s)\<rparr>)"
| block: "tp_pc s t = Looking \<Longrightarrow> tp_queue s = [] \<Longrightarrow> worker_step t s (set_pc t Blocked s)"
| take: "tp_pc s t = Looking \<Longrightarrow> tp_queue s = (c, sig) # q \<Longrightarrow>
    worker_step t s (set_pc t (Running c sig False) s\<lparr>tp_queue := q\<rparr>)"
| notify: "tp_pc s t = Running c sig True \<Longrightarrow> notify_one (set_pc t (Running c sig False) s) s' \<Longrightarrow>
    worker_step t s s'"
| finish: "tp_pc s t = Running c sig False \<Longrightarrow>
    worker_step t s (set_pc t (case sig of SHUTDOWN \<Rightarrow> Leaving | STANDARD \<Rightarrow> Looking) s
      \<lparr>tp_executed := tp_executed s @ (case c of Some x \<Rightarrow> [x] | None \<Rightarrow> [])\<rparr>)"
| leave: "tp_pc s t = Leaving \<Longrightarrow> worker_step t s (set_pc t Ended s\<lparr>tp_ids := tp_ids s - {t}\<rparr>)"

inductive nested_step :: "nat \<Rightarrow> 'c tpool \<Rightarrow> 'c tpool \<Rightarrow> bool" for t where
  submit: "tp_pc s t = Running (Some c) sig False \<Longrightarrow>
    nested_step t s (set_pc t (Running (Some c) sig True) (tp_async (Some d) STANDARD s))"
| spurious: "tp_pc s t = Blocked \<Longrightarrow> nested_step t s (set_pc t Looking s)"

definition tp_step :: "nat \<Rightarrow> 'c tpool \<Rightarrow> 'c tpool \<Rightarrow> bool" where
  "tp_step me s s' \<longleftrightarrow> owner_step me s s' \<or> (\<exists>t. worker_step t s s' \<or> nested_step t s s')"

inductive tp_reach :: "nat \<Rightarrow> 'c tpool \<Rightarrow> bool" for me where
  start: "tp_reach me tp_init"
| step: "tp_reach me s \<Longrightarrow> tp_step me s s' \<Longrightarrow> tp_reach me s'"

section \<open>Sums over the workers\<close>

definition wsum :: "('c pool_pc \<Rightarrow> 'n :: comm_monoid_add) \<Rightarrow> 'c tpool \<Rightarrow> 'n" where
  "wsum w s = (\<Sum>t\<leftarrow>tp_threads s. w (tp_pc s t))"

definition looking :: "'c pool_pc \<Rightarrow> nat" where
  "looking p = (case p of Looking \<Rightarrow> 1 | _ \<Rightarrow> 0)"

definition owing :: "'c pool_pc \<Rightarrow> nat" where
  "owing p = (case p of Running _ _ True \<Rightarrow> 1 | _ \<Rightarrow> 0)"

text \<open>The workers that have taken the task of a shutdown, and the task that a worker is in.\<close>

definition retired :: "'c pool_pc \<Rightarrow> nat" where
  "retired p = (case p of Running _ SHUTDOWN _ \<Rightarrow> 1 | Leaving \<Rightarrow> 1 | Ended \<Rightarrow> 1 | _ \<Rightarrow> 0)"

definition task_of :: "'c pool_pc \<Rightarrow> 'c multiset" where
  "task_of p = (case p of Running (Some c) _ _ \<Rightarrow> {#c#} | _ \<Rightarrow> {#})"

definition tokens :: "('c option \<times> signal) list \<Rightarrow> nat" where
  "tokens q = length (filter (\<lambda>x. snd x = SHUTDOWN) q)"

definition queued :: "('c option \<times> signal) list \<Rightarrow> 'c multiset" where
  "queued q = mset (concat (map (\<lambda>x. case fst x of Some c \<Rightarrow> [c] | None \<Rightarrow> []) q))"

lemmas weight_defs = looking_def owing_def retired_def task_of_def

lemma queued_simps [simp]:
  "tokens [] = 0" "queued [] = {#}" "tokens (q @ r) = tokens q + tokens r" "queued (q @ r) = queued q + queued r"
  "tokens ((c, sig) # q) = (case sig of SHUTDOWN \<Rightarrow> Suc (tokens q) | STANDARD \<Rightarrow> tokens q)"
  "queued ((c, sig) # q) = (case c of Some x \<Rightarrow> add_mset x (queued q) | None \<Rightarrow> queued q)"
  by (auto simp: tokens_def queued_def split: signal.splits option.splits)

lemma total_pcs:
  fixes w :: "'a \<Rightarrow> 'n :: comm_monoid_add"
  assumes "distinct ts" "t \<in> set ts"
  shows "(\<Sum>u\<leftarrow>ts. w ((f(t := p)) u)) + w (f t) = (\<Sum>u\<leftarrow>ts. w (f u)) + w p"
  using assms
proof (induction ts)
  case (Cons u ts)
  show ?case
  proof (cases "u = t")
    case True
    then have "(\<Sum>v\<leftarrow>ts. w ((f(t := p)) v)) = (\<Sum>v\<leftarrow>ts. w (f v))"
      using Cons.prems by (intro arg_cong [where f = sum_list] map_cong) auto
    then show ?thesis using True by (simp add: ac_simps)
  next
    case False
    then show ?thesis using Cons by (simp add: add.assoc)
  qed
qed simp

lemma set_pc_simps [simp]:
  "tp_queue (set_pc t p s) = tp_queue s" "tp_threads (set_pc t p s) = tp_threads s"
  "tp_ids (set_pc t p s) = tp_ids s" "tp_owner (set_pc t p s) = tp_owner s" "tp_owes (set_pc t p s) = tp_owes s"
  "tp_submitted (set_pc t p s) = tp_submitted s" "tp_executed (set_pc t p s) = tp_executed s"
  "tp_pc (set_pc t p s) = (tp_pc s)(t := p)"
  by (simp_all add: set_pc_def)

lemma wsum_set_pc:
  "distinct (tp_threads s) \<Longrightarrow> t \<in> set (tp_threads s) \<Longrightarrow>
    wsum w (set_pc t p s) + w (tp_pc s t) = wsum w s + w p"
  by (simp add: wsum_def total_pcs del: fun_upd_apply)

lemma wsum_updates [simp]:
  "wsum w (s\<lparr>tp_queue := q\<rparr>) = wsum w s" "wsum w (s\<lparr>tp_ids := ids\<rparr>) = wsum w s"
  "wsum w (s\<lparr>tp_owner := ow\<rparr>) = wsum w s" "wsum w (s\<lparr>tp_owes := b\<rparr>) = wsum w s"
  "wsum w (s\<lparr>tp_submitted := cs\<rparr>) = wsum w s" "wsum w (s\<lparr>tp_executed := cs\<rparr>) = wsum w s"
  "wsum w (s\<lparr>tp_threads := []\<rparr>) = 0"
  by (simp_all add: wsum_def)

section \<open>The invariant\<close>

text \<open>The threads and the identifiers that are registered.\<close>

definition registered :: "'c pool_pc \<Rightarrow> bool" where
  "registered p \<longleftrightarrow> p \<noteq> Unborn \<and> p \<noteq> Entering \<and> p \<noteq> Ended"

definition threads_inv :: "nat \<Rightarrow> 'c tpool \<Rightarrow> bool" where
  "threads_inv me s \<longleftrightarrow> distinct (tp_threads s) \<and> tp_pc s me = Unborn \<and>
     (\<forall>t \<in> set (tp_threads s). tp_pc s t \<noteq> Unborn) \<and>
     (\<forall>t. t \<notin> set (tp_threads s) \<longrightarrow> tp_pc s t = Unborn \<or> tp_pc s t = Ended) \<and>
     (\<forall>t. t \<in> tp_ids s \<longleftrightarrow> registered (tp_pc s t))"

text \<open>While a worker is blocked, every task in the queue has a worker that is going to look at it, or
  that a thread is about to wake.\<close>

definition wake_inv :: "'c tpool \<Rightarrow> bool" where
  "wake_inv s \<longleftrightarrow> ((\<exists>t. tp_pc s t = Blocked) \<longrightarrow>
     length (tp_queue s) \<le> wsum looking s + wsum owing s + of_bool (tp_owes s))"

text \<open>The shutdown: each worker takes one of its empty tasks.\<close>

fun sent :: "owner_pc \<Rightarrow> nat \<Rightarrow> nat" where
  "sent (Signalling i) n = i"
| "sent (Joining ts) n = n"
| "sent _ n = 0"

definition stop_inv :: "'c tpool \<Rightarrow> bool" where
  "stop_inv s \<longleftrightarrow> tokens (tp_queue s) + wsum retired s = sent (tp_owner s) (num_workers s) \<and>
     sent (tp_owner s) (num_workers s) \<le> num_workers s \<and>
     (\<forall>ts. tp_owner s = Joining ts \<longrightarrow> set ts \<subseteq> set (tp_threads s) \<and>
        (\<forall>t \<in> set (tp_threads s) - set ts. tp_pc s t = Ended))"

text \<open>Every task is executed once, being executed, or in the queue.\<close>

definition tasks_inv :: "'c tpool \<Rightarrow> bool" where
  "tasks_inv s \<longleftrightarrow> mset (tp_submitted s) = mset (tp_executed s) + wsum task_of s + queued (tp_queue s)"

definition tp_inv :: "nat \<Rightarrow> 'c tpool \<Rightarrow> bool" where
  "tp_inv me s \<longleftrightarrow> threads_inv me s \<and> wake_inv s \<and> stop_inv s \<and> tasks_inv s"

lemma live_worker:
  assumes "threads_inv me s" "tp_pc s t \<noteq> Unborn" "tp_pc s t \<noteq> Ended"
  shows "t \<in> set (tp_threads s)" "distinct (tp_threads s)"
  using assms by (auto simp: threads_inv_def)

text \<open>How a sum changes when one worker moves on.\<close>

lemma worker_moves:
  assumes "threads_inv me s" "tp_pc s t \<noteq> Unborn" "tp_pc s t \<noteq> Ended"
  shows "wsum w (set_pc t p s) + w (tp_pc s t) = wsum w s + w p"
  using wsum_set_pc [OF live_worker(2,1) [OF assms]] .

lemma tp_step_cases [consumes 1, case_names owner worker nested]:
  assumes "tp_step me s s'"
  obtains "owner_step me s s'" | t where "worker_step t s s'" | t where "nested_step t s s'"
  using assms by (auto simp: tp_step_def)

lemma threads_inv_move:
  assumes "threads_inv me s" "tp_pc s t \<noteq> Unborn" "tp_pc s t \<noteq> Ended" "p \<noteq> Unborn"
    and "\<And>u. u \<in> ids \<longleftrightarrow> (if u = t then registered p else u \<in> tp_ids s)"
  shows "threads_inv me (set_pc t p s\<lparr>tp_ids := ids\<rparr>)"
  unfolding threads_inv_def
proof (intro conjI)
  have t: "t \<in> set (tp_threads s)" using live_worker(1) [OF assms(1-3)] .
  show "\<forall>u. u \<notin> set (tp_threads (set_pc t p s\<lparr>tp_ids := ids\<rparr>)) \<longrightarrow>
      tp_pc (set_pc t p s\<lparr>tp_ids := ids\<rparr>) u = Unborn \<or> tp_pc (set_pc t p s\<lparr>tp_ids := ids\<rparr>) u = Ended"
    using assms(1) t by (auto simp: threads_inv_def)
qed (use assms in \<open>auto simp: threads_inv_def\<close>)

lemma threads_inv_set_pc:
  assumes "threads_inv me s" "tp_pc s t \<noteq> Unborn" "tp_pc s t \<noteq> Ended" "p \<noteq> Unborn"
    and "registered p = registered (tp_pc s t)"
  shows "threads_inv me (set_pc t p s)"
proof -
  have "u \<in> tp_ids s \<longleftrightarrow> (if u = t then registered p else u \<in> tp_ids s)" for u
    using assms(1,5) by (auto simp: threads_inv_def)
  from threads_inv_move [OF assms(1-4) this] show ?thesis by (simp add: set_pc_def)
qed

lemma notify_one_threads: "notify_one s s' \<Longrightarrow> threads_inv me s \<Longrightarrow> threads_inv me s'"
  by (cases rule: notify_one.cases) (auto simp: registered_def intro: threads_inv_set_pc)

lemma async_simps [simp]:
  "tp_threads (tp_async c sig s) = tp_threads s" "tp_pc (tp_async c sig s) = tp_pc s"
  "tp_ids (tp_async c sig s) = tp_ids s" "tp_owner (tp_async c sig s) = tp_owner s"
  "tp_owes (tp_async c sig s) = tp_owes s" "wsum w (tp_async c sig s) = wsum w s"
  by (simp_all add: tp_async_def wsum_def)

lemma threads_inv_updates [simp]:
  "threads_inv me (s\<lparr>tp_owes := b\<rparr>) = threads_inv me s"
  "threads_inv me (s\<lparr>tp_owner := ow\<rparr>) = threads_inv me s"
  "threads_inv me (s\<lparr>tp_queue := q\<rparr>) = threads_inv me s"
  "threads_inv me (s\<lparr>tp_executed := cs\<rparr>) = threads_inv me s"
  "threads_inv me (tp_async c sig s) = threads_inv me s"
  by (simp_all add: threads_inv_def)

lemma owner_threads:
  assumes "owner_step me s s'" "threads_inv me s" "stop_inv s"
  shows "threads_inv me s'"
  using assms
proof cases
  case (thread n t)
  then have "t \<notin> set (tp_threads s)" "t \<notin> tp_ids s"
    using assms(2) by (auto simp: threads_inv_def registered_def)
  then show ?thesis using assms(2) thread by (simp add: threads_inv_def registered_def)
next
  case joined
  then show ?thesis using assms(2,3) by (auto simp: threads_inv_def stop_inv_def)
qed (auto simp: tp_spawn_def tp_shutdown_def notify_one_threads split: if_splits)

lemma worker_threads:
  assumes "worker_step t s s'" "threads_inv me s"
  shows "threads_inv me s'"
  using assms
proof cases
  case enter
  have "threads_inv me (set_pc t Looking s\<lparr>tp_ids := insert t (tp_ids s)\<rparr>)"
    by (rule threads_inv_move [OF assms(2)]) (simp_all add: enter registered_def)
  then show ?thesis using enter by simp
next
  case (notify c sig)
  have "threads_inv me (set_pc t (Running c sig False) s)"
    by (rule threads_inv_set_pc [OF assms(2)]) (simp_all add: notify registered_def)
  then show ?thesis using notify(2) notify_one_threads by blast
next
  case leave
  have "threads_inv me (set_pc t Ended s\<lparr>tp_ids := tp_ids s - {t}\<rparr>)"
    by (rule threads_inv_move [OF assms(2)]) (simp_all add: leave registered_def)
  then show ?thesis using leave by simp
qed (use assms(2) in \<open>auto simp: registered_def intro!: threads_inv_set_pc split: signal.splits\<close>)

lemma nested_threads: "nested_step t s s' \<Longrightarrow> threads_inv me s \<Longrightarrow> threads_inv me s'"
  by (cases rule: nested_step.cases) (auto simp: registered_def intro!: threads_inv_set_pc)

text \<open>The sums of the parts of the invariant change with the step of one worker.\<close>

lemmas moves = worker_moves [where w = looking] worker_moves [where w = owing]
  worker_moves [where w = retired]

lemma notify_one_wake:
  assumes "notify_one s s'" "threads_inv me s"
    and "(\<exists>t. tp_pc s t = Blocked) \<Longrightarrow> length (tp_queue s) \<le> wsum looking s + wsum owing s + Suc n"
  shows "(\<exists>t. tp_pc s' t = Blocked) \<longrightarrow> length (tp_queue s') \<le> wsum looking s' + wsum owing s' + n"
  using assms(1)
proof cases
  case (woken t)
  have "wsum looking s' = Suc (wsum looking s)" "wsum owing s' = wsum owing s"
    using moves(1,2) [OF assms(2), of t Looking] woken by (auto simp: looking_def owing_def)
  then show ?thesis using assms(3) woken by auto
next
  case nobody
  then show ?thesis by auto
qed

lemma notify_one_frame:
  assumes "notify_one s s'"
  shows "tp_queue s' = tp_queue s" "tp_threads s' = tp_threads s" "tp_owner s' = tp_owner s"
    "tp_owes s' = tp_owes s" "tp_submitted s' = tp_submitted s" "tp_executed s' = tp_executed s"
    "tp_pc s t = Ended \<Longrightarrow> tp_pc s' t = Ended"
  using assms by (auto elim!: notify_one.cases)

lemma notify_one_same:
  assumes "notify_one s s'" "threads_inv me s"
  shows "wsum retired s' = wsum retired s" "wsum task_of s' = wsum task_of s"
  using assms(1)
proof (atomize (full), cases)
  case (woken t)
  then show "wsum retired s' = wsum retired s \<and> wsum task_of s' = wsum task_of s"
    using moves(3) [OF assms(2), of t Looking] worker_moves [where w = task_of, OF assms(2), of t Looking]
    by (auto simp: retired_def task_of_def)
qed simp

lemma owner_wake:
  assumes "owner_step me s s'" "threads_inv me s" "wake_inv s" "stop_inv s"
  shows "wake_inv s'"
  using assms(1)
proof cases
  case async
  then show ?thesis using assms(3) by (auto simp: wake_inv_def tp_async_def)
next
  case (notify s1)
  then show ?thesis
    using notify_one_wake [OF notify(3) assms(2), of 0] assms(3) by (simp add: wake_inv_def)
next
  case (thread n t)
  have "wsum w s' = wsum w s + w Entering" for w :: "'a pool_pc \<Rightarrow> nat"
  proof -
    have "t \<notin> set (tp_threads s)" using thread assms(2) by (auto simp: threads_inv_def)
    then have "(\<Sum>u\<leftarrow>tp_threads s. w (((tp_pc s)(t := Entering)) u)) = (\<Sum>u\<leftarrow>tp_threads s. w (tp_pc s u))"
      by (intro arg_cong [where f = sum_list] map_cong) auto
    then show ?thesis using thread by (simp add: wsum_def)
  qed
  then show ?thesis using assms(3) thread by (auto simp: wake_inv_def)
next
  case (token i)
  then show ?thesis using assms(3) by (auto simp: wake_inv_def tp_async_def num_workers_def)
next
  case joined
  then have "tp_pc s t \<noteq> Blocked" for t
    using assms(2,4) by (cases "t \<in> set (tp_threads s)") (auto simp: threads_inv_def stop_inv_def)
  then show ?thesis using joined by (simp add: wake_inv_def)
qed (use assms(3) in \<open>auto simp: wake_inv_def tp_spawn_def tp_shutdown_def split: if_splits\<close>)

lemma worker_wake:
  assumes "worker_step t s s'" "threads_inv me s" "wake_inv s"
  shows "wake_inv s'"
  using assms(1)
proof cases
  case enter
  then show ?thesis
    using assms(3) moves(1,2) [OF assms(2), of t Looking] by (auto simp: wake_inv_def looking_def owing_def)
next
  case block
  then show ?thesis by (simp add: wake_inv_def)
next
  case (take c sig q)
  have "Suc (wsum looking s') = wsum looking s" "wsum owing s' = wsum owing s"
    using take moves(1,2) [OF assms(2), of t "Running c sig False"] by (auto simp: looking_def owing_def)
  then show ?thesis using assms(3) take by (auto simp: wake_inv_def split: if_splits)
next
  case (notify c sig)
  let ?s = "set_pc t (Running c sig False) s"
  have th: "threads_inv me ?s"
    by (rule threads_inv_set_pc [OF assms(2)]) (simp_all add: notify registered_def)
  have "wsum looking ?s = wsum looking s" "Suc (wsum owing ?s) = wsum owing s"
    using notify moves(1,2) [OF assms(2), of t "Running c sig False"] by (auto simp: looking_def owing_def)
  moreover have "(\<exists>t. tp_pc ?s t = Blocked) \<Longrightarrow> (\<exists>t. tp_pc s t = Blocked)" by (auto split: if_splits)
  ultimately have pre: "length (tp_queue ?s) \<le> wsum looking ?s + wsum owing ?s + Suc (of_bool (tp_owes s))"
    if "\<exists>t. tp_pc ?s t = Blocked" using assms(3) that by (simp add: wake_inv_def)
  show ?thesis
    using notify_one_wake [OF notify(2) th pre] notify_one_frame(4) [OF notify(2)] by (simp add: wake_inv_def)
next
  case (finish c sig)
  have "wsum looking s \<le> wsum looking s'" "wsum owing s' = wsum owing s"
    using finish moves(1,2) [OF assms(2), of t "case sig of SHUTDOWN \<Rightarrow> Leaving | STANDARD \<Rightarrow> Looking"]
    by (auto simp: looking_def owing_def split: signal.splits)
  then show ?thesis using assms(3) finish by (auto simp: wake_inv_def split: if_splits signal.splits)
next
  case leave
  have "wsum looking s' = wsum looking s" "wsum owing s' = wsum owing s"
    using leave moves(1,2) [OF assms(2), of t Ended] by (auto simp: looking_def owing_def)
  then show ?thesis using assms(3) leave by (auto simp: wake_inv_def split: if_splits)
qed

lemma nested_wake:
  assumes "nested_step t s s'" "threads_inv me s" "wake_inv s"
  shows "wake_inv s'"
  using assms(1)
proof cases
  case (submit c sig d)
  let ?p = "Running (Some c) sig True"
  have "wsum looking (set_pc t ?p s) = wsum looking s" "wsum owing (set_pc t ?p s) = Suc (wsum owing s)"
    using submit moves(1,2) [OF assms(2), of t ?p] by (auto simp: looking_def owing_def)
  moreover have "wsum w s' = wsum w (set_pc t ?p s)" for w :: "'a pool_pc \<Rightarrow> nat"
    using submit by (simp add: wsum_def)
  ultimately show ?thesis using assms(3) submit by (auto simp: wake_inv_def tp_async_def split: if_splits)
next
  case spurious
  have "wsum looking s' = Suc (wsum looking s)" "wsum owing s' = wsum owing s"
    using spurious moves(1,2) [OF assms(2), of t Looking] by (auto simp: looking_def owing_def)
  then show ?thesis using assms(3) spurious by (auto simp: wake_inv_def)
qed

lemma not_owner: "threads_inv me s \<Longrightarrow> tp_pc s t \<noteq> Unborn \<Longrightarrow> t \<noteq> me"
  by (auto simp: threads_inv_def)

lemma new_thread_sum:
  assumes "threads_inv me s" "tp_pc s t = Unborn"
  shows "wsum w (set_pc t Entering s\<lparr>tp_threads := tp_threads s @ [t], tp_owner := ow\<rparr>) = wsum w s + w Entering"
proof -
  have "t \<notin> set (tp_threads s)" using assms by (auto simp: threads_inv_def)
  then have "(\<Sum>u\<leftarrow>tp_threads s. w (((tp_pc s)(t := Entering)) u)) = (\<Sum>u\<leftarrow>tp_threads s. w (tp_pc s u))"
    by (intro arg_cong [where f = sum_list] map_cong) auto
  then show ?thesis by (simp add: wsum_def)
qed

lemma owner_stop:
  assumes "owner_step me s s'" "threads_inv me s" "stop_inv s"
  shows "stop_inv s'"
  using assms(1)
proof cases
  case async
  then show ?thesis using assms(3) by (auto simp: stop_inv_def tp_async_def num_workers_def wsum_def)
next
  case (notify s1)
  then show ?thesis
    using assms(3) notify_one_frame [OF notify(3)] notify_one_same(1) [OF notify(3) assms(2)]
    by (simp add: stop_inv_def num_workers_def)
next
  case (thread n t)
  then show ?thesis
    using assms(3) new_thread_sum [OF assms(2) thread(4), of retired]
    by (simp add: stop_inv_def retired_def)
next
  case (token i)
  then have "tp_threads s \<noteq> []" by (auto simp: num_workers_def)
  then show ?thesis using assms(3) token by (simp add: stop_inv_def tp_async_def num_workers_def wsum_def)
next
  case (tokens i)
  then show ?thesis using assms(3) by (auto simp: stop_inv_def num_workers_def wsum_def)
next
  case (join t ts)
  then show ?thesis using assms(3) by (auto simp: stop_inv_def num_workers_def)
next
  case joined
  then have "map (\<lambda>t. retired (tp_pc s t)) (tp_threads s) = map (\<lambda>_. 1) (tp_threads s)"
    using assms(3) by (auto simp: stop_inv_def retired_def)
  then have "wsum retired s = num_workers s"
    by (simp only: wsum_def num_workers_def sum_list_triv) simp
  then have "tp_queue s = tp_queue s'" "Threadpool.tokens (tp_queue s) = 0"
    using assms(3) joined by (simp_all add: stop_inv_def)
  then show ?thesis using joined by (simp add: stop_inv_def)
qed (use assms(3) in \<open>auto simp: stop_inv_def tp_spawn_def tp_shutdown_def num_workers_def split: if_splits\<close>)

text \<open>A worker other than those that have been joined moves.\<close>

lemma stop_inv_move:
  assumes "threads_inv me s" "stop_inv s" "tp_pc s t \<noteq> Unborn" "tp_pc s t \<noteq> Ended"
    and "tokens q + retired p = tokens (tp_queue s) + retired (tp_pc s t)"
    and "r = set_pc t p s\<lparr>tp_queue := q\<rparr>"
  shows "stop_inv r"
proof -
  have "wsum retired (set_pc t p s) + retired (tp_pc s t) = wsum retired s + retired p"
    by (rule worker_moves [OF assms(1,3,4)])
  then have "tokens q + wsum retired (set_pc t p s) = sent (tp_owner s) (num_workers s)"
    using assms(2,5) by (simp add: stop_inv_def)
  then show ?thesis
    using assms(2,4,6) by (auto simp: stop_inv_def num_workers_def)
qed

lemma stop_inv_updates [simp]:
  "stop_inv (s\<lparr>tp_ids := ids\<rparr>) = stop_inv s" "stop_inv (s\<lparr>tp_executed := cs\<rparr>) = stop_inv s"
  "stop_inv (s\<lparr>tp_owes := b\<rparr>) = stop_inv s" "stop_inv (s\<lparr>tp_submitted := cs\<rparr>) = stop_inv s"
  by (simp_all add: stop_inv_def num_workers_def)

lemma stop_inv_set_pc:
  assumes "threads_inv me s" "stop_inv s" "tp_pc s t \<noteq> Unborn" "tp_pc s t \<noteq> Ended" "retired p = retired (tp_pc s t)"
  shows "stop_inv (set_pc t p s)"
  by (rule stop_inv_move [OF assms(1-4), of "tp_queue s" p]) (simp_all add: assms(5) set_pc_def)

lemma notify_one_stop:
  "notify_one s s' \<Longrightarrow> threads_inv me s \<Longrightarrow> stop_inv s \<Longrightarrow> stop_inv s'"
  by (cases rule: notify_one.cases) (auto simp: retired_def intro: stop_inv_set_pc)

lemma worker_stop:
  assumes "worker_step t s s'" "threads_inv me s" "stop_inv s"
  shows "stop_inv s'"
  using assms(1)
proof cases
  case (take c sig q)
  show ?thesis
    by (rule stop_inv_move [OF assms(2,3), of t q "Running c sig False"])
      (simp_all add: take retired_def split: signal.splits)
next
  case (notify c sig)
  have "threads_inv me (set_pc t (Running c sig False) s)"
    by (rule threads_inv_set_pc [OF assms(2)]) (simp_all add: notify registered_def)
  moreover have "stop_inv (set_pc t (Running c sig False) s)"
    by (rule stop_inv_set_pc [OF assms(2,3)]) (simp_all add: notify retired_def split: signal.splits)
  ultimately show ?thesis using notify_one_stop [OF notify(2)] by blast
qed (auto simp: retired_def split: signal.splits intro!: stop_inv_set_pc [OF assms(2,3)])

lemma nested_stop:
  assumes "nested_step t s s'" "threads_inv me s" "stop_inv s"
  shows "stop_inv s'"
  using assms(1)
proof cases
  case (submit c sig d)
  let ?p = "Running (Some c) sig True"
  have "tp_threads s \<noteq> []" using live_worker [OF assms(2), of t] submit by auto
  then have "s' = set_pc t ?p s\<lparr>tp_queue := tp_queue s @ [(Some d, STANDARD)], tp_submitted := tp_submitted s @ [d]\<rparr>"
    using submit by (simp add: tp_async_def set_pc_def)
  moreover have "stop_inv (set_pc t ?p s\<lparr>tp_queue := tp_queue s @ [(Some d, STANDARD)]\<rparr>)"
    by (rule stop_inv_move [OF assms(2,3), of t _ ?p]) (simp_all add: submit retired_def split: signal.splits)
  ultimately show ?thesis by simp
next
  case spurious
  show ?thesis unfolding spurious(1)
    by (rule stop_inv_set_pc [OF assms(2,3)]) (simp_all add: spurious retired_def)
qed

lemma all_ended:
  assumes "\<And>t. t \<in> set (tp_threads s) \<Longrightarrow> tp_pc s t = Ended" "w Ended = 0"
  shows "wsum w s = 0"
proof -
  have "map (\<lambda>t. w (tp_pc s t)) (tp_threads s) = map (\<lambda>_. 0) (tp_threads s)" using assms by simp
  then show ?thesis by (simp only: wsum_def sum_list_0)
qed

lemma owner_tasks:
  assumes "owner_step me s s'" "threads_inv me s" "tasks_inv s" "stop_inv s"
  shows "tasks_inv s'"
  using assms(1)
proof cases
  case (notify s1)
  then show ?thesis
    using assms(3) notify_one_frame [OF notify(3)] notify_one_same(2) [OF notify(3) assms(2)]
    by (simp add: tasks_inv_def)
next
  case (thread n t)
  then show ?thesis
    using assms(3) new_thread_sum [OF assms(2) thread(4), of task_of]
    by (simp add: tasks_inv_def task_of_def)
next
  case joined
  then have "wsum task_of s = {#}"
    using assms(4) by (intro all_ended) (auto simp: stop_inv_def task_of_def)
  then show ?thesis using assms(3) joined by (simp add: tasks_inv_def)
qed (use assms(3) in \<open>auto simp: tasks_inv_def tp_async_def tp_spawn_def tp_shutdown_def wsum_def split: if_splits\<close>)

lemma tasks_inv_move:
  assumes "threads_inv me s" "tp_pc s t \<noteq> Unborn" "tp_pc s t \<noteq> Ended" "task_of p = task_of (tp_pc s t)" "tasks_inv s"
  shows "tasks_inv (set_pc t p s)"
  using worker_moves [where w = task_of, OF assms(1-3), of p] assms(4,5) by (simp add: tasks_inv_def)

lemma notify_one_tasks:
  "notify_one s s' \<Longrightarrow> threads_inv me s \<Longrightarrow> tasks_inv s \<Longrightarrow> tasks_inv s'"
  using notify_one_frame(1,5,6) [of s s'] notify_one_same(2) [of s s' me] by (simp add: tasks_inv_def)

lemma worker_tasks:
  assumes "worker_step t s s'" "threads_inv me s" "tasks_inv s"
  shows "tasks_inv s'"
  using assms(1)
proof cases
  case enter
  have "tasks_inv (set_pc t Looking s)"
    by (rule tasks_inv_move [OF assms(2)]) (simp_all add: enter task_of_def assms(3))
  then show ?thesis using enter by (simp add: tasks_inv_def)
next
  case block
  then show ?thesis using tasks_inv_move [OF assms(2) _ _ _ assms(3), of t Blocked] by (simp add: task_of_def)
next
  case (take c sig q)
  then show ?thesis
    using assms(3) worker_moves [where w = task_of, OF assms(2), of t "Running c sig False"]
    by (simp add: tasks_inv_def task_of_def split: option.splits)
next
  case (notify c sig)
  have "threads_inv me (set_pc t (Running c sig False) s)"
    by (rule threads_inv_set_pc [OF assms(2)]) (simp_all add: notify registered_def)
  moreover have "tasks_inv (set_pc t (Running c sig False) s)"
    by (rule tasks_inv_move [OF assms(2) _ _ _ assms(3)]) (simp_all add: notify task_of_def)
  ultimately show ?thesis using notify_one_tasks [OF notify(2)] by blast
next
  case (finish c sig)
  let ?p = "case sig of SHUTDOWN \<Rightarrow> Leaving | STANDARD \<Rightarrow> Looking"
  have "wsum task_of (set_pc t ?p s) + task_of (Running c sig False) = wsum task_of s"
    using finish worker_moves [where w = task_of, OF assms(2), of t ?p]
    by (simp add: task_of_def split: signal.splits)
  then show ?thesis using assms(3) finish by (simp add: tasks_inv_def task_of_def split: option.splits)
next
  case leave
  have "tasks_inv (set_pc t Ended s)"
    by (rule tasks_inv_move [OF assms(2)]) (simp_all add: leave task_of_def assms(3))
  then show ?thesis using leave by (simp add: tasks_inv_def)
qed

lemma nested_tasks:
  assumes "nested_step t s s'" "threads_inv me s" "tasks_inv s"
  shows "tasks_inv s'"
  using assms(1)
proof cases
  case (submit c sig d)
  let ?p = "Running (Some c) sig True"
  have "tasks_inv (set_pc t ?p s)"
    by (rule tasks_inv_move [OF assms(2) _ _ _ assms(3)]) (simp_all add: submit task_of_def)
  moreover have "wsum w s' = wsum w (set_pc t ?p s)" for w :: "'a pool_pc \<Rightarrow> 'a multiset"
    using submit by (simp add: wsum_def)
  moreover have "tp_threads s \<noteq> []" using live_worker [OF assms(2), of t] submit by auto
  ultimately show ?thesis using submit by (simp add: tasks_inv_def tp_async_def)
next
  case spurious
  show ?thesis unfolding spurious(1)
    by (rule tasks_inv_move [OF assms(2) _ _ _ assms(3)]) (simp_all add: spurious task_of_def)
qed

lemma tp_step_inv: "tp_step me s s' \<Longrightarrow> tp_inv me s \<Longrightarrow> tp_inv me s'"
  by (cases rule: tp_step_cases)
    (auto simp: tp_inv_def intro: owner_threads worker_threads nested_threads owner_wake worker_wake
      nested_wake owner_stop worker_stop nested_stop owner_tasks worker_tasks nested_tasks)

lemma tp_reach_inv: "tp_reach me s \<Longrightarrow> tp_inv me s"
proof (induction rule: tp_reach.induct)
  case start
  show ?case
    by (simp add: tp_init_def tp_inv_def threads_inv_def wake_inv_def stop_inv_def tasks_inv_def wsum_def
        num_workers_def registered_def)
qed (rule tp_step_inv)

text \<open>C32: no task is lost and none runs twice: in every state of the pool the tasks that have been
  given to \<open>async\<close> are those that have returned, those that a worker is in, and those in the queue;
  and a task in the queue is never left to blocked workers, since as long as any worker is blocked
  there are as many wakened workers and pending notifications as tasks.\<close>

theorem pool_runs_tasks:
  assumes "tp_reach me s"
  shows "mset (tp_submitted s) = mset (tp_executed s) + wsum task_of s + queued (tp_queue s) \<and>
    ((\<exists>t. tp_pc s t = Blocked) \<longrightarrow> num_tasks s \<le> wsum looking s + wsum owing s + of_bool (tp_owes s))"
  using tp_reach_inv [OF assms] by (simp add: tp_inv_def tasks_inv_def wake_inv_def num_tasks_def)

text \<open>A pool of one worker, which is blocked when the first task comes.\<close>

definition demo_pool :: "nat tpool" where
  "demo_pool = \<lparr>tp_queue = [(Some 7, STANDARD)], tp_threads = [1], tp_ids = {1},
     tp_pc = (\<lambda>_. Unborn)(1 := Blocked), tp_owner = Outside, tp_owes = True, tp_submitted = [7],
     tp_executed = []\<rparr>"

lemma demo_pool_reach: "tp_reach 0 demo_pool"
proof -
  define s1 :: "nat tpool" where "s1 = tp_init\<lparr>tp_owner := Spawning 1\<rparr>"
  define s2 where "s2 = set_pc 1 Entering s1\<lparr>tp_threads := [1], tp_owner := Spawning 0\<rparr>"
  define s3 where "s3 = s2\<lparr>tp_owner := Outside\<rparr>"
  define s4 where "s4 = set_pc 1 Looking s3\<lparr>tp_ids := {1}\<rparr>"
  define s5 where "s5 = set_pc 1 Blocked s4"
  have "owner_step 0 tp_init s1"
    by (rule owner_step.spawn [where n = 1]) (simp_all add: tp_init_def tp_spawn_def is_worker_def s1_def)
  moreover have "owner_step 0 s1 s2"
    using owner_step.thread [of s1 0 1 0] by (simp add: s2_def s1_def tp_init_def)
  moreover have "owner_step 0 s2 s3"
    using owner_step.spawned [of s2 0] by (simp add: s3_def s2_def)
  moreover have "worker_step 1 s3 s4"
    using worker_step.enter [of s3 1] by (simp add: s4_def s3_def s2_def s1_def tp_init_def)
  moreover have "worker_step 1 s4 s5"
    using worker_step.block [of s4 1] by (simp add: s5_def s4_def s3_def s2_def s1_def tp_init_def)
  moreover have "owner_step 0 s5 demo_pool"
    using owner_step.async [of s5 0 7]
    by (simp add: demo_pool_def s5_def s4_def s3_def s2_def s1_def tp_init_def set_pc_def tp_async_def)
  ultimately show ?thesis
    by (meson tp_reach.start tp_reach.step tp_step_def)
qed

lemma pool_runs_tasks_witness:
  "(\<exists>t. tp_pc demo_pool t = Blocked) \<and> num_tasks demo_pool = 1 \<and>
     mset (tp_submitted demo_pool) = mset (tp_executed demo_pool) + wsum task_of demo_pool + queued (tp_queue demo_pool) \<and>
     num_tasks demo_pool \<le> wsum looking demo_pool + wsum owing demo_pool + of_bool (tp_owes demo_pool)"
proof -
  have "tp_pc demo_pool 1 = Blocked" "num_tasks demo_pool = 1" by (simp_all add: demo_pool_def num_tasks_def)
  then show ?thesis using pool_runs_tasks [OF demo_pool_reach] by blast
qed

section \<open>Shutting down\<close>

definition shutting :: "'c tpool \<Rightarrow> bool" where
  "shutting s \<longleftrightarrow> (\<exists>i. tp_owner s = Signalling i) \<or> (\<exists>ts. tp_owner s = Joining ts)"

text \<open>The steps that bring a shutdown forward. The pool has two others, the steps \<open>nested_step\<close>: a task
  that submits another one, and a blocked worker that wakes spuriously.\<close>

definition quiet_step :: "nat \<Rightarrow> 'c tpool \<Rightarrow> 'c tpool \<Rightarrow> bool" where
  "quiet_step me s s' \<longleftrightarrow> shutting s \<and> (owner_step me s s' \<or> (\<exists>t. worker_step t s s'))"

fun pc_weight :: "'c pool_pc \<Rightarrow> nat" where
  "pc_weight Entering = 3"
| "pc_weight Looking = 2"
| "pc_weight Blocked = 1"
| "pc_weight (Running c sig n) = (if n then 5 else 3)"
| "pc_weight Leaving = 1"
| "pc_weight _ = 0"

fun owner_weight :: "nat \<Rightarrow> owner_pc \<Rightarrow> nat" where
  "owner_weight n (Signalling i) = 5 * (n - i) + n + 2"
| "owner_weight n (Joining ts) = length ts + 1"
| "owner_weight n _ = 0"

definition tp_measure :: "'c tpool \<Rightarrow> nat" where
  "tp_measure s = owner_weight (num_workers s) (tp_owner s) + 2 * length (tp_queue s) + 2 * of_bool (tp_owes s) +
     wsum pc_weight s"

lemma notify_one_measure:
  assumes "notify_one s s'" "threads_inv me s"
  shows "wsum pc_weight s' \<le> Suc (wsum pc_weight s)"
  using assms(1)
proof cases
  case (woken t)
  then show ?thesis using worker_moves [where w = pc_weight, OF assms(2), of t Looking] by simp
qed simp

lemma owner_measure:
  assumes "owner_step me s s'" "threads_inv me s" "shutting s"
  shows "tp_measure s' < tp_measure s"
  using assms(1)
proof cases
  case (notify s1)
  then show ?thesis
    using notify_one_measure [OF notify(3) assms(2)] notify_one_frame [OF notify(3)]
    by (simp add: tp_measure_def num_workers_def)
next
  case (token i)
  then have "5 * (num_workers s - i) = 5 * (num_workers s - Suc i) + 5" "tp_threads s \<noteq> []"
    by (auto simp: num_workers_def)
  then show ?thesis using token by (simp add: tp_measure_def num_workers_def tp_async_def wsum_def)
next
  case joined
  then show ?thesis by (simp add: tp_measure_def)
qed (use assms(3) in \<open>auto simp: shutting_def tp_measure_def num_workers_def\<close>)

lemma worker_measure:
  assumes "worker_step t s s'" "threads_inv me s"
  shows "tp_measure s' < tp_measure s"
  using assms(1)
proof cases
  case (notify c sig)
  let ?s = "set_pc t (Running c sig False) s"
  have "wsum pc_weight ?s + 2 = wsum pc_weight s"
    using worker_moves [where w = pc_weight, OF assms(2), of t "Running c sig False"] notify by simp
  moreover have th: "threads_inv me ?s"
    by (rule threads_inv_set_pc [OF assms(2)]) (simp_all add: notify registered_def)
  ultimately show ?thesis
    using notify_one_measure [OF notify(2) th] notify_one_frame [OF notify(2)]
    by (simp add: tp_measure_def num_workers_def)
next
  case (finish c sig)
  then show ?thesis
    using worker_moves [where w = pc_weight, OF assms(2), of t "case sig of SHUTDOWN \<Rightarrow> Leaving | STANDARD \<Rightarrow> Looking"]
    by (simp add: tp_measure_def num_workers_def split: signal.splits)
next
  case enter
  then show ?thesis
    using worker_moves [where w = pc_weight, OF assms(2), of t Looking] by (simp add: tp_measure_def num_workers_def)
next
  case block
  then show ?thesis
    using worker_moves [where w = pc_weight, OF assms(2), of t Blocked] by (simp add: tp_measure_def num_workers_def)
next
  case (take c sig q)
  then show ?thesis
    using worker_moves [where w = pc_weight, OF assms(2), of t "Running c sig False"]
    by (simp add: tp_measure_def num_workers_def)
next
  case leave
  then show ?thesis
    using worker_moves [where w = pc_weight, OF assms(2), of t Ended] by (simp add: tp_measure_def num_workers_def)
qed

lemma sum_positive:
  fixes w :: "'c pool_pc \<Rightarrow> nat"
  assumes "0 < wsum w s"
  obtains t where "t \<in> set (tp_threads s)" "0 < w (tp_pc s t)"
  using assms that by (auto simp: wsum_def sum_list_eq_0_iff simp flip: neq0_conv)

lemma notify_one_ex: "\<exists>s'. notify_one s s'"
  by (metis notify_one.intros)

lemma worker_enabled:
  assumes "tp_pc s t \<notin> {Unborn, Ended}" "tp_pc s t = Blocked \<Longrightarrow> False"
  shows "\<exists>s'. worker_step t s s'"
proof (cases "tp_pc s t")
  case Looking
  then show ?thesis
  proof (cases "tp_queue s")
    case (Cons x q)
    then show ?thesis using worker_step.take [OF Looking] by (cases x) blast
  qed (use worker_step.block in blast)
next
  case (Running c sig n)
  then show ?thesis
  proof (cases n)
    case True
    obtain s' where "notify_one (set_pc t (Running c sig False) s) s'" using notify_one_ex by blast
    then show ?thesis using worker_step.notify [of s t c sig s'] Running True by auto
  next
    case False
    then show ?thesis using worker_step.finish [of s t c sig] Running by auto
  qed
next
  case Entering
  then show ?thesis using worker_step.enter [of s t] by auto
next
  case Leaving
  then show ?thesis using worker_step.leave [of s t] by auto
qed (use assms in auto)

lemma sum_below:
  assumes "\<And>u. u \<in> set us \<Longrightarrow> f u \<le> (1 :: nat)" "t \<in> set us" "f t = 0"
  shows "(\<Sum>u\<leftarrow>us. f u) < length us"
  using assms
proof (induction us)
  case (Cons u us)
  have "(\<Sum>u\<leftarrow>us. f u) \<le> (\<Sum>u\<leftarrow>us. 1)" using Cons.prems(1) by (intro sum_list_mono) auto
  then have "(\<Sum>u\<leftarrow>us. f u) \<le> length us" by (simp add: sum_list_triv)
  moreover have "(\<Sum>u\<leftarrow>us. f u) < length us" if "u \<noteq> t" using Cons that by auto
  ultimately show ?case using Cons.prems(1) [of u] Cons.prems(3) by (cases "u = t") auto
qed simp

text \<open>When the owner waits for a blocked worker, that worker has not yet taken an empty task, so that
  one is left, and somebody is awake, or about to be woken, to look at the queue.\<close>

lemma blocked_worker_progress:
  assumes "tp_inv me s" "tp_owner s = Joining ts" "tp_pc s t = Blocked" "\<not> tp_owes s"
  obtains u where "tp_pc s u \<notin> {Unborn, Ended, Blocked}"
proof -
  have inv: "threads_inv me s" "wake_inv s" "stop_inv s" using assms(1) by (simp_all add: tp_inv_def)
  have "t \<in> set (tp_threads s)" using live_worker(1) [OF inv(1)] assms(3) by auto
  moreover have "retired p \<le> 1" for p :: "'a pool_pc"
    by (auto simp: retired_def split: pool_pc.splits signal.splits)
  ultimately have "wsum retired s < num_workers s"
    using assms(3) by (auto simp: wsum_def num_workers_def retired_def intro!: sum_below)
  then have "0 < tokens (tp_queue s)" using inv(3) assms(2) by (simp add: stop_inv_def)
  then obtain x q where "tp_queue s = x # q" by (cases "tp_queue s") auto
  then have "0 < wsum looking s + wsum owing s" using inv(2) assms(3,4) by (fastforce simp: wake_inv_def)
  then consider "0 < wsum looking s" | "0 < wsum owing s" by linarith
  then show thesis
  proof cases
    case 1
    then obtain u where "0 < looking (tp_pc s u)" by (rule sum_positive)
    then show thesis using that [of u] by (auto simp: looking_def split: pool_pc.splits)
  next
    case 2
    then obtain u where "0 < owing (tp_pc s u)" by (rule sum_positive)
    then show thesis using that [of u] by (auto simp: owing_def split: pool_pc.splits)
  qed
qed

lemma shutdown_progress:
  assumes "tp_inv me s" "shutting s"
  shows "\<exists>s'. quiet_step me s s'"
proof -
  have worker: "\<exists>s'. quiet_step me s s'" if "tp_pc s t \<notin> {Unborn, Ended, Blocked}" for t
    using worker_enabled [of s t] that assms(2) by (auto simp: quiet_step_def)
  have owner: "\<exists>s'. quiet_step me s s'" if "owner_step me s s'" for s'
    using that assms(2) by (auto simp: quiet_step_def)
  consider (owes) "tp_owes s" | (signal) i where "tp_owner s = Signalling i" "\<not> tp_owes s"
    | (joined) "tp_owner s = Joining []" | (join) t ts where "tp_owner s = Joining (t # ts)" "\<not> tp_owes s"
    using assms(2) by (metis neq_Nil_conv shutting_def)
  then show ?thesis
  proof cases
    case owes
    obtain s' where "notify_one s s'" using notify_one_ex by blast
    then show ?thesis using owner owner_step.notify [OF owes] by blast
  next
    case (signal i)
    then show ?thesis using owner owner_step.token [of s i] owner_step.tokens [of s i] by blast
  next
    case joined
    then show ?thesis using owner owner_step.joined by blast
  next
    case (join t ts)
    then have "t \<in> set (tp_threads s)" using assms(1) by (auto simp: tp_inv_def stop_inv_def)
    then have "tp_pc s t \<noteq> Unborn" using assms(1) by (auto simp: tp_inv_def threads_inv_def)
    then consider "tp_pc s t = Ended" | "tp_pc s t = Blocked" | "tp_pc s t \<notin> {Unborn, Ended, Blocked}" by blast
    then show ?thesis
    proof cases
      case 1
      then show ?thesis using owner owner_step.join [OF join(1)] by blast
    next
      case 2
      from blocked_worker_progress [OF assms(1) join(1) this join(2)] show ?thesis using worker by blast
    next
      case 3
      then show ?thesis by (rule worker)
    qed
  qed
qed

lemma quiet_step_inv: "quiet_step me s s' \<Longrightarrow> tp_inv me s \<Longrightarrow> tp_inv me s'"
  using tp_step_inv by (auto simp: quiet_step_def tp_step_def)

lemma quiet_step_measure: "quiet_step me s s' \<Longrightarrow> tp_inv me s \<Longrightarrow> tp_measure s' < tp_measure s"
  using owner_measure worker_measure by (auto simp: quiet_step_def tp_inv_def)

lemma shutdown_run: "tp_inv me s \<Longrightarrow> \<exists>s'. (quiet_step me)\<^sup>*\<^sup>* s s' \<and> \<not> shutting s'"
proof (induction "tp_measure s" arbitrary: s rule: less_induct)
  case less
  show ?case
  proof (cases "shutting s")
    case True
    obtain s1 where s1: "quiet_step me s s1" using shutdown_progress [OF less.prems True] by blast
    then obtain s' where "(quiet_step me)\<^sup>*\<^sup>* s1 s'" "\<not> shutting s'"
      using less.hyps quiet_step_inv quiet_step_measure less.prems by blast
    then show ?thesis using s1 by (meson converse_rtranclp_into_rtranclp)
  qed blast
qed

text \<open>A run of a shutdown in which all steps of the pool take part: \<open>n\<close> that bring it forward, \<open>k\<close>
  spurious wake-ups and submissions by tasks.\<close>

inductive pool_run :: "nat \<Rightarrow> 'c tpool \<Rightarrow> nat \<Rightarrow> nat \<Rightarrow> 'c tpool \<Rightarrow> bool" for me where
  here: "pool_run me s 0 0 s"
| forward: "quiet_step me s s1 \<Longrightarrow> pool_run me s1 n k s' \<Longrightarrow> pool_run me s (Suc n) k s'"
| extra: "shutting s \<Longrightarrow> nested_step t s s1 \<Longrightarrow> pool_run me s1 n k s' \<Longrightarrow> pool_run me s n (Suc k) s'"

lemma nested_measure:
  assumes "nested_step t s s'" "threads_inv me s"
  shows "tp_measure s' \<le> tp_measure s + 4"
  using assms(1)
proof cases
  case (submit c sig d)
  let ?p = "Running (Some c) sig True"
  have "tp_threads s \<noteq> []" using live_worker [OF assms(2), of t] submit by auto
  then have "s' = set_pc t ?p s\<lparr>tp_queue := tp_queue s @ [(Some d, STANDARD)], tp_submitted := tp_submitted s @ [d]\<rparr>"
    using submit by (simp add: tp_async_def set_pc_def)
  then show ?thesis
    using worker_moves [where w = pc_weight, OF assms(2), of t ?p] submit
    by (simp add: tp_measure_def num_workers_def wsum_def)
next
  case spurious
  then show ?thesis
    using worker_moves [where w = pc_weight, OF assms(2), of t Looking] by (simp add: tp_measure_def num_workers_def)
qed

lemma pool_run_bound:
  "pool_run me s n k s' \<Longrightarrow> tp_inv me s \<Longrightarrow> n + tp_measure s' \<le> tp_measure s + 4 * k"
proof (induction rule: pool_run.induct)
  case (here s)
  then show ?case by simp
next
  case (forward s s1 n k s')
  then show ?case using quiet_step_inv quiet_step_measure by fastforce
next
  case (extra s t s1 n k s')
  then have "tp_step me s s1" by (auto simp: tp_step_def)
  then have "tp_inv me s1" using tp_step_inv extra.prems by blast
  moreover have "tp_measure s1 \<le> tp_measure s + 4" using nested_measure extra.hyps(2) extra.prems by (auto simp: tp_inv_def)
  ultimately show ?case using extra.IH by simp
qed

text \<open>C33: \<open>shutdown\<close> returns, provided every task returns (a task's execution is a step of the model). In
  every state until the owner has joined all threads, a step that brings it forward is possible. Of
  the steps the pool has, all but two kinds bring it forward; the two are spurious wake-ups and tasks
  that submit others, and a run with \<open>k\<close> of these, in whatever order the scheduler takes the steps,
  has at most \<open>tp_measure s + 4 * k\<close> steps that bring the shutdown forward. So it can only be kept from
  returning by infinitely many spurious wake-ups or submissions, and there is always a run without
  them in which it returns.\<close>

theorem shutdown_returns:
  assumes "tp_reach me s" "shutting s"
  shows "(\<exists>s'. quiet_step me s s') \<and>
    (\<forall>s'. tp_step me s s' \<longrightarrow> quiet_step me s s' \<or> (\<exists>t. nested_step t s s')) \<and>
    (\<forall>n k s'. pool_run me s n k s' \<longrightarrow> n \<le> tp_measure s + 4 * k) \<and>
    (\<exists>s'. (quiet_step me)\<^sup>*\<^sup>* s s' \<and> \<not> shutting s')"
proof -
  have inv: "tp_inv me s" using tp_reach_inv [OF assms(1)] .
  have "n \<le> tp_measure s + 4 * k" if "pool_run me s n k s'" for n k s'
    using pool_run_bound [OF that inv] by simp
  moreover have "quiet_step me s s' \<or> (\<exists>t. nested_step t s s')" if "tp_step me s s'" for s'
    using that assms(2) by (auto simp: tp_step_def quiet_step_def)
  ultimately show ?thesis using shutdown_progress [OF inv assms(2)] shutdown_run [OF inv] by blast
qed

text \<open>The owner calls \<open>shutdown\<close> after it has woken the worker.\<close>

definition demo_shutdown :: "nat tpool" where
  "demo_shutdown = (set_pc 1 Looking demo_pool)\<lparr>tp_owes := False, tp_owner := Signalling 0\<rparr>"

lemma demo_shutdown_reach: "tp_reach 0 demo_shutdown"
proof -
  define s where "s = (set_pc 1 Looking demo_pool)\<lparr>tp_owes := False\<rparr>"
  have "notify_one demo_pool (set_pc 1 Looking demo_pool)"
    by (rule notify_one.woken) (simp add: demo_pool_def)
  then have "owner_step 0 demo_pool s"
    using owner_step.notify [of demo_pool _ 0] by (simp add: s_def demo_pool_def)
  moreover have "owner_step 0 s demo_shutdown"
    by (rule owner_step.shutdown)
      (simp_all add: s_def demo_shutdown_def tp_shutdown_def is_worker_def demo_pool_def set_pc_def)
  ultimately show ?thesis using demo_pool_reach by (meson tp_reach.step tp_step_def)
qed

lemma shutdown_returns_witness:
  "\<exists>s'. (quiet_step 0)\<^sup>*\<^sup>* demo_shutdown s' \<and> \<not> shutting s'"
proof -
  have "shutting demo_shutdown" by (simp add: shutting_def demo_shutdown_def)
  then show ?thesis using shutdown_returns [OF demo_shutdown_reach] by blast
qed

section \<open>What a shutdown waits for\<close>

text \<open>In the shutdown that began in the state \<open>s0\<close>, the tasks that had been submitted before it are
  ahead of its empty tasks: while some are in the queue no worker has retired. Afterwards they have
  all been executed.\<close>

definition draining :: "'c tpool \<Rightarrow> 'c tpool \<Rightarrow> bool" where
  "draining s0 s \<longleftrightarrow> shutting s \<and> tp_threads s = tp_threads s0 \<and>
     (\<exists>k r. tp_queue s = drop k (tp_queue s0) @ r \<and> (drop k (tp_queue s0) \<noteq> [] \<longrightarrow> wsum retired s = 0) \<and>
        mset (tp_submitted s0) \<subseteq># mset (tp_executed s) + wsum task_of s + queued (drop k (tp_queue s0)))"

definition drained :: "'c tpool \<Rightarrow> 'c tpool \<Rightarrow> bool" where
  "drained s0 s \<longleftrightarrow> mset (tp_submitted s0) \<subseteq># mset (tp_executed s)"

lemma executed_grows: "tp_step me s s' \<Longrightarrow> mset (tp_executed s) \<subseteq># mset (tp_executed s')"
proof (cases rule: tp_step_cases, assumption)
  assume "owner_step me s s'"
  then show ?thesis
    by cases (auto simp: tp_async_def tp_spawn_def tp_shutdown_def notify_one_frame split: if_splits)
next
  fix t assume "worker_step t s s'"
  then show ?thesis by cases (auto dest: notify_one_frame(6))
next
  fix t assume "nested_step t s s'"
  then show ?thesis by cases (auto simp: tp_async_def)
qed

lemma drainingI:
  assumes "shutting s" "tp_threads s = tp_threads s0" "tp_queue s = drop k (tp_queue s0) @ r"
    "drop k (tp_queue s0) \<noteq> [] \<Longrightarrow> wsum retired s = 0"
    "mset (tp_submitted s0) \<subseteq># mset (tp_executed s) + wsum task_of s + queued (drop k (tp_queue s0))"
  shows "draining s0 s"
  using assms by (auto simp: draining_def)

lemma draining_begin:
  assumes "tp_inv me s" "tp_owner s = Signalling 0"
  shows "draining s s" "tokens (tp_queue s) = 0"
  using assms
  by (auto simp: tp_inv_def stop_inv_def tasks_inv_def shutting_def intro!: drainingI [of _ _ 0 "[]"])

lemma tokens_drop: "tokens q = 0 \<Longrightarrow> tokens (drop k q) = 0"
  by (auto simp: tokens_def filter_empty_conv dest: in_set_dropD)

text \<open>A worker that moves on takes an entry from the queue, or returns from a task, or changes nothing
  of what a shutdown waits for.\<close>

lemma draining_same:
  assumes "draining s0 s" "tp_owner s' = tp_owner s" "tp_threads s' = tp_threads s" "tp_queue s' = tp_queue s"
    "wsum retired s' = wsum retired s" "mset (tp_executed s') + wsum task_of s' = mset (tp_executed s) + wsum task_of s"
  shows "draining s0 s'"
  using assms by (simp add: draining_def shutting_def)

lemma draining_take:
  assumes "draining s0 s" "tokens (tp_queue s0) = 0" "tp_owner s' = tp_owner s" "tp_threads s' = tp_threads s"
    "tp_queue s = (c, sig) # tp_queue s'" "tp_executed s' = tp_executed s"
    "wsum retired s' = wsum retired s + of_bool (sig = SHUTDOWN)"
    "wsum task_of s' = wsum task_of s + task_of (Running c sig False)"
  shows "draining s0 s'"
proof -
  obtain k r where d: "shutting s" "tp_threads s = tp_threads s0" "tp_queue s = drop k (tp_queue s0) @ r"
    "drop k (tp_queue s0) \<noteq> [] \<Longrightarrow> wsum retired s = 0"
    "mset (tp_submitted s0) \<subseteq># mset (tp_executed s) + wsum task_of s + queued (drop k (tp_queue s0))"
    using assms(1) by (auto simp: draining_def)
  have sh: "shutting s'" "tp_threads s' = tp_threads s0" using assms(3,4) d(1,2) by (auto simp: shutting_def)
  show ?thesis
  proof (cases "drop k (tp_queue s0)")
    case Nil
    then have "mset (tp_submitted s0) \<subseteq># mset (tp_executed s) + wsum task_of s" using d(5) by simp
    then have "mset (tp_submitted s0) \<subseteq># mset (tp_executed s) + wsum task_of s + task_of (Running c sig False)"
      by (simp add: subset_mset.add_increasing2)
    then show ?thesis
      using Nil sh assms(6,8) by (intro drainingI [of s' s0 k "tp_queue s'"]) (simp_all add: add.assoc)
  next
    case (Cons x xs)
    then have x: "x = (c, sig)" "tp_queue s' = xs @ r" "xs = drop (Suc k) (tp_queue s0)"
      using d(3) assms(5) by (auto simp: drop_Suc drop_tl)
    have "sig = STANDARD" using tokens_drop [OF assms(2), of k] Cons x(1) by (cases sig) auto
    then show ?thesis
      using d sh assms(6,7,8) x Cons
      by (intro drainingI [of s' s0 "Suc k" r]) (auto simp: task_of_def split: option.splits)
  qed
qed

lemma draining_worker:
  assumes "threads_inv me s" "worker_step t s s'" "draining s0 s" "tokens (tp_queue s0) = 0"
  shows "draining s0 s'"
  using assms(2)
proof cases
  case enter
  then show ?thesis
    using worker_moves [where w = retired, OF assms(1), of t Looking]
      worker_moves [where w = task_of, OF assms(1), of t Looking]
    by (intro draining_same [OF assms(3)]) (auto simp: retired_def task_of_def)
next
  case block
  then show ?thesis
    using worker_moves [where w = retired, OF assms(1), of t Blocked]
      worker_moves [where w = task_of, OF assms(1), of t Blocked]
    by (intro draining_same [OF assms(3)]) (auto simp: retired_def task_of_def)
next
  case (take c sig q)
  then show ?thesis
    using worker_moves [where w = retired, OF assms(1), of t "Running c sig False"]
      worker_moves [where w = task_of, OF assms(1), of t "Running c sig False"]
    by (intro draining_take [OF assms(3,4), of _ c sig]) (auto simp: retired_def task_of_def split: signal.splits)
next
  case (notify c sig)
  let ?s = "set_pc t (Running c sig False) s"
  have "threads_inv me ?s"
    by (rule threads_inv_set_pc [OF assms(1)]) (simp_all add: notify registered_def)
  note same = notify_one_same [OF notify(2) this] notify_one_frame [OF notify(2)]
  have "wsum retired ?s = wsum retired s" "wsum task_of ?s = wsum task_of s"
    using notify worker_moves [where w = retired, OF assms(1), of t "Running c sig False"]
      worker_moves [where w = task_of, OF assms(1), of t "Running c sig False"]
    by (auto simp: retired_def task_of_def)
  then show ?thesis using same by (intro draining_same [OF assms(3)]) auto
next
  case (finish c sig)
  let ?p = "case sig of SHUTDOWN \<Rightarrow> Leaving | STANDARD \<Rightarrow> Looking"
  have "wsum retired s' = wsum retired s" "wsum task_of s' + task_of (Running c sig False) = wsum task_of s"
    using finish worker_moves [where w = retired, OF assms(1), of t ?p]
      worker_moves [where w = task_of, OF assms(1), of t ?p]
    by (auto simp: retired_def task_of_def split: signal.splits)
  moreover from this(2) have "mset (tp_executed s') + wsum task_of s' = mset (tp_executed s) + wsum task_of s"
    using finish by (auto simp: task_of_def split: option.splits)
  ultimately show ?thesis using finish by (intro draining_same [OF assms(3)]) auto
next
  case leave
  then show ?thesis
    using worker_moves [where w = retired, OF assms(1), of t Ended]
      worker_moves [where w = task_of, OF assms(1), of t Ended]
    by (intro draining_same [OF assms(3)]) (auto simp: retired_def task_of_def)
qed

text \<open>An entry that is appended to the queue comes behind those that the shutdown waits for.\<close>

lemma draining_append:
  assumes "draining s0 s" "shutting s'" "tp_threads s' = tp_threads s" "tp_queue s' = tp_queue s @ [e]"
    "wsum retired s' = wsum retired s" "wsum task_of s' = wsum task_of s" "tp_executed s' = tp_executed s"
  shows "draining s0 s'"
proof -
  obtain k r where "tp_threads s = tp_threads s0" "tp_queue s = drop k (tp_queue s0) @ r"
    "drop k (tp_queue s0) \<noteq> [] \<Longrightarrow> wsum retired s = 0"
    "mset (tp_submitted s0) \<subseteq># mset (tp_executed s) + wsum task_of s + queued (drop k (tp_queue s0))"
    using assms(1) by (auto simp: draining_def)
  then show ?thesis using assms by (intro drainingI [of s' s0 k "r @ [e]"]) auto
qed

lemma draining_nested:
  assumes "threads_inv me s" "nested_step t s s'" "draining s0 s"
  shows "draining s0 s'"
  using assms(2)
proof cases
  case (submit c sig d)
  let ?p = "Running (Some c) sig True"
  have "tp_threads s \<noteq> []" using live_worker [OF assms(1), of t] submit by auto
  moreover have "wsum retired s' = wsum retired (set_pc t ?p s)" "wsum task_of s' = wsum task_of (set_pc t ?p s)"
    using submit by (simp_all add: wsum_def)
  then have "wsum retired s' = wsum retired s" "wsum task_of s' = wsum task_of s"
    using submit worker_moves [where w = retired, OF assms(1), of t ?p]
      worker_moves [where w = task_of, OF assms(1), of t ?p]
    by (auto simp: retired_def task_of_def split: signal.splits)
  moreover have "shutting s'" using submit assms(3) by (simp add: shutting_def draining_def)
  ultimately show ?thesis
    using submit by (intro draining_append [OF assms(3), of s' "(Some d, STANDARD)"]) (simp_all add: tp_async_def)
next
  case spurious
  then show ?thesis
    using worker_moves [where w = retired, OF assms(1), of t Looking]
      worker_moves [where w = task_of, OF assms(1), of t Looking]
    by (intro draining_same [OF assms(3)]) (auto simp: retired_def task_of_def)
qed

lemma draining_owner:
  assumes "tp_inv me s" "owner_step me s s'" "draining s0 s" "tp_threads s0 \<noteq> []"
  shows "draining s0 s' \<or> drained s0 s'"
proof -
  have inv: "threads_inv me s" "stop_inv s" using assms(1) by (simp_all add: tp_inv_def)
  have sh: "shutting s" "tp_threads s \<noteq> []" using assms(3,4) by (auto simp: draining_def)
  show ?thesis
    using assms(2)
  proof cases
    case (notify s1)
    then show ?thesis
      using notify_one_same [OF notify(3) inv(1)] notify_one_frame [OF notify(3)]
      by (intro disjI1 draining_same [OF assms(3)]) auto
  next
    case (token i)
    then show ?thesis
      using sh by (intro disjI1 draining_append [OF assms(3), of _ "(None, SHUTDOWN)"])
        (auto simp: tp_async_def shutting_def wsum_def)
  next
    case (tokens i)
    then show ?thesis using assms(3) by (auto simp: draining_def shutting_def)
  next
    case (join t ts)
    then show ?thesis using assms(3) by (auto simp: draining_def shutting_def)
  next
    case joined
    then have ended: "tp_pc s t = Ended" if "t \<in> set (tp_threads s)" for t
      using inv(2) that by (auto simp: stop_inv_def)
    have "wsum task_of s = 0" by (rule all_ended [OF ended]) (simp_all add: task_of_def)
    moreover have "wsum retired s \<noteq> 0"
      using ended sh(2) by (auto simp: wsum_def retired_def sum_list_eq_0_iff)
    ultimately have "drained s0 s" using assms(3) by (auto simp: draining_def drained_def)
    then show ?thesis using joined by (simp add: drained_def)
  qed (use sh in \<open>auto simp: shutting_def\<close>)
qed

text \<open>When \<open>shutdown\<close> has joined the threads, every task that had been submitted before it was
  called has returned (provided the pool has threads), also those that no worker had begun.\<close>

theorem shutdown_drains:
  assumes "tp_reach me s0" "tp_owner s0 = Signalling 0" "tp_threads s0 \<noteq> []"
    and "(tp_step me)\<^sup>*\<^sup>* s0 s" "\<not> shutting s"
  shows "mset (tp_submitted s0) \<subseteq># mset (tp_executed s)"
proof -
  have inv0: "tp_inv me s0" by (rule tp_reach_inv [OF assms(1)])
  note tok = draining_begin(2) [OF inv0 assms(2)]
  have "tp_inv me s \<and> (draining s0 s \<or> drained s0 s)"
    using assms(4)
  proof induction
    case base
    show ?case using inv0 draining_begin(1) [OF inv0 assms(2)] by simp
  next
    case (step s s')
    then have inv: "tp_inv me s" "threads_inv me s" "tp_inv me s'"
      using tp_step_inv by (auto simp: tp_inv_def)
    show ?case
    proof (cases "drained s0 s")
      case True
      then have "drained s0 s'"
        using executed_grows [OF step(2)] by (auto simp: drained_def intro: subset_mset.order_trans)
      then show ?thesis using inv by simp
    next
      case False
      then have "draining s0 s" using step.IH by simp
      then have "draining s0 s' \<or> drained s0 s'"
        using step(2) draining_owner [OF inv(1) _ _ assms(3)] draining_worker [OF inv(2) _ _ tok]
          draining_nested [OF inv(2)] by (auto simp: tp_step_def)
      then show ?thesis using inv by simp
    qed
  qed
  then show ?thesis using assms(5) by (auto simp: draining_def drained_def)
qed

lemma shutdown_drains_witness:
  "\<exists>s. (tp_step 0)\<^sup>*\<^sup>* demo_shutdown s \<and> \<not> shutting s \<and> {#7#} \<subseteq># mset (tp_executed s)"
proof -
  obtain s where s: "(quiet_step 0)\<^sup>*\<^sup>* demo_shutdown s" "\<not> shutting s"
    using shutdown_run [OF tp_reach_inv [OF demo_shutdown_reach]] by blast
  have "quiet_step 0 x y \<Longrightarrow> tp_step 0 x y" for x y :: "nat tpool"
    by (auto simp: quiet_step_def tp_step_def)
  then have path: "(tp_step 0)\<^sup>*\<^sup>* demo_shutdown s" using s(1) by (metis rtranclp_mono predicate2I predicate2D)
  have "tp_owner demo_shutdown = Signalling 0" "tp_threads demo_shutdown \<noteq> []" "tp_submitted demo_shutdown = [7]"
    by (simp_all add: demo_shutdown_def demo_pool_def)
  then show ?thesis using shutdown_drains [OF demo_shutdown_reach _ _ path s(2)] path s(2) by auto
qed

text \<open>A task that calls \<open>spawn\<close> or \<open>shutdown\<close> of the pool it runs in gets an exception.\<close>

lemma is_worker_in_task:
  assumes "tp_reach me s" "tp_pc s t = Running c sig n"
  shows "tp_spawn t k s = Inl (Runtime_error ''Worker cannot spawn threads'')"
    and "tp_shutdown t s = Inl (Runtime_error ''Worker cannot shut down thread pool'')"
    and "\<not> is_worker me s"
  using tp_reach_inv [OF assms(1)] assms(2)
  by (auto simp: tp_inv_def threads_inv_def registered_def is_worker_def tp_spawn_def tp_shutdown_def)

end
