(* ===== verification/Pool.thy ===== *)
theory Pool
  imports Prelude
begin

text \<open>
  The memory pool for objects of one type (class \<open>SingularAllocator\<close>,
  include/dtc/utility/allocator.hpp and, under the same name and include guard, mempool.hpp): blocks
  of doubling size that are handed out entry by entry, and a stack of the entries that have been
  given back, which are handed out first.

  An address is the number of a block and an index into it. Whether \<open>malloc\<close> has memory for a block
  of that many entries is the argument \<open>mem\<close>; the code does not look at the result of \<open>malloc\<close> and
  \<open>realloc\<close>, so that a failure leads to an access through a null pointer.
\<close>

section \<open>The pool\<close>

type_synonym addr = "nat \<times> nat"

text \<open>The sizes of the blocks from the head of the list to its tail; the array of the entries given
  back, whose length is \<open>num_free_entries\<close>, with uninitialized elements behind the cursor.\<close>

record pool =
  pl_blocks :: "nat list"
  pl_free :: "addr option list"
  pl_free_cursor :: nat
  pl_block_cursor :: nat

definition pool_create :: "(nat \<Rightarrow> bool) \<Rightarrow> nat \<Rightarrow> pool result" where
  "pool_create mem cap =
     (if mem cap then Inr \<lparr>pl_blocks = [cap], pl_free = replicate cap None, pl_free_cursor = 0, pl_block_cursor = 0\<rparr>
      else Inl (Undefined ''null block''))"

definition allocate :: "(nat \<Rightarrow> bool) \<Rightarrow> pool \<Rightarrow> (addr \<times> pool) result" where
  "allocate mem p =
     (if pl_free_cursor p \<noteq> 0 then
        bind_r (slot (pl_free p) (int (pl_free_cursor p - 1))) (\<lambda>a. case a of
            Some a \<Rightarrow> Inr (a, p\<lparr>pl_free_cursor := pl_free_cursor p - 1\<rparr>)
          | None \<Rightarrow> Inl (Undefined ''uninitialized entry''))
      else
        bind_r (if pl_block_cursor p = last (pl_blocks p)
                then (let n = last (pl_blocks p) * 2 in
                  if mem n then Inr (p\<lparr>pl_blocks := pl_blocks p @ [n], pl_block_cursor := 0\<rparr>)
                  else Inl (Undefined ''null block''))
                else Inr p)
          (\<lambda>p. Inr ((length (pl_blocks p) - 1, pl_block_cursor p), p\<lparr>pl_block_cursor := pl_block_cursor p + 1\<rparr>)))"

text \<open>The array of entries given back is doubled when it is full.\<close>

definition deallocate :: "(nat \<Rightarrow> bool) \<Rightarrow> addr \<Rightarrow> pool \<Rightarrow> pool result" where
  "deallocate mem a p =
     bind_r (if pl_free_cursor p = length (pl_free p)
             then (if mem (length (pl_free p) * 2)
                   then Inr (p\<lparr>pl_free := pl_free p @ replicate (length (pl_free p)) None\<rparr>)
                   else Inl (Undefined ''null entries''))
             else Inr p)
       (\<lambda>p. bind_r (put_slot (pl_free p) (int (pl_free_cursor p)) (Some a))
          (\<lambda>fs. Inr (p\<lparr>pl_free := fs, pl_free_cursor := pl_free_cursor p + 1\<rparr>)))"

text \<open>The destructor walks along the blocks and frees each.\<close>

fun pool_destroy :: "nat list \<Rightarrow> nat \<Rightarrow> nat list" where
  "pool_destroy [] i = []"
| "pool_destroy (b # bs) i = i # pool_destroy bs (Suc i)"

section \<open>Clients\<close>

text \<open>A client gives back only what it holds. \<open>live\<close> are the entries it holds, \<open>peak\<close> the largest
  number of them so far.\<close>

record client =
  c_pool :: pool
  c_live :: "addr list"
  c_peak :: nat

inductive client_step :: "(nat \<Rightarrow> bool) \<Rightarrow> client \<Rightarrow> client \<Rightarrow> bool" for mem where
  get: "allocate mem (c_pool c) = Inr (a, p) \<Longrightarrow>
    client_step mem c \<lparr>c_pool = p, c_live = a # c_live c, c_peak = max (c_peak c) (Suc (length (c_live c)))\<rparr>"
| give: "a \<in> set (c_live c) \<Longrightarrow> deallocate mem a (c_pool c) = Inr p \<Longrightarrow>
    client_step mem c (c\<lparr>c_pool := p, c_live := remove1 a (c_live c)\<rparr>)"

inductive client_reach :: "(nat \<Rightarrow> bool) \<Rightarrow> nat \<Rightarrow> client \<Rightarrow> bool" for mem cap where
  start: "pool_create mem cap = Inr p \<Longrightarrow> client_reach mem cap \<lparr>c_pool = p, c_live = [], c_peak = 0\<rparr>"
| step: "client_reach mem cap c \<Longrightarrow> client_step mem c c' \<Longrightarrow> client_reach mem cap c'"

section \<open>The invariant\<close>

definition free_list :: "pool \<Rightarrow> addr option list" where
  "free_list p = take (pl_free_cursor p) (pl_free p)"

text \<open>The entries that have ever been handed out: all of the blocks but the last, and those of the last
  block below the cursor.\<close>

definition issued :: "pool \<Rightarrow> addr set" where
  "issued p = {(b, i). b < length (pl_blocks p) \<and>
     i < (if Suc b = length (pl_blocks p) then pl_block_cursor p else pl_blocks p ! b)}"

definition pool_inv :: "nat \<Rightarrow> pool \<Rightarrow> addr list \<Rightarrow> bool" where
  "pool_inv cap p live \<longleftrightarrow> 0 < cap \<and> pl_blocks p \<noteq> [] \<and>
     (\<forall>b < length (pl_blocks p). pl_blocks p ! b = cap * 2 ^ b) \<and>
     pl_block_cursor p \<le> last (pl_blocks p) \<and>
     pl_free_cursor p \<le> length (pl_free p) \<and> pl_free p \<noteq> [] \<and>
     distinct (map Some live @ free_list p) \<and> set (map Some live @ free_list p) = Some ` issued p"

lemma pool_invD:
  assumes "pool_inv cap p live"
  shows "0 < cap" "pl_blocks p \<noteq> []" "pl_block_cursor p \<le> last (pl_blocks p)"
    "pl_free_cursor p \<le> length (pl_free p)" "pl_free p \<noteq> []"
    "distinct (map Some live @ free_list p)" "set (map Some live @ free_list p) = Some ` issued p"
    "b < length (pl_blocks p) \<Longrightarrow> pl_blocks p ! b = cap * 2 ^ b"
  using assms by (auto simp: pool_inv_def)

lemma finite_issued: "finite (issued p)"
proof -
  have "issued p \<subseteq> (SIGMA b : {..<length (pl_blocks p)}.
      {..<(if Suc b = length (pl_blocks p) then pl_block_cursor p else pl_blocks p ! b)})"
    by (auto simp: issued_def)
  then show ?thesis by (rule finite_subset) auto
qed

text \<open>The number of entries handed out is that of the live ones and those given back.\<close>

lemma card_issued:
  assumes "pool_inv cap p live"
  shows "card (issued p) = length live + length (free_list p)"
proof -
  have "card (Some ` issued p) = length (map Some live @ free_list p)"
    using distinct_card [OF pool_invD(6) [OF assms]] pool_invD(7) [OF assms] by simp
  then show ?thesis by (simp add: card_image)
qed

lemma issued_free [simp]:
  "issued (p\<lparr>pl_free_cursor := n\<rparr>) = issued p" "issued (p\<lparr>pl_free := fs\<rparr>) = issued p"
  by (simp_all add: issued_def cong: if_cong)

lemma pool_create_inv:
  "pool_create mem cap = Inr p \<Longrightarrow> 0 < cap \<Longrightarrow> pool_inv cap p []"
  by (auto simp: pool_create_def pool_inv_def free_list_def issued_def split: if_splits)

text \<open>An entry that has been given back is handed out again.\<close>

lemma allocate_free:
  assumes "pool_inv cap p live" "pl_free_cursor p \<noteq> 0"
  shows "\<exists>a p'. allocate mem p = Inr (a, p') \<and> a \<notin> set live \<and> pool_inv cap p' (a # live) \<and> issued p' = issued p"
proof -
  define n where "n = pl_free_cursor p - 1"
  have n: "pl_free_cursor p = Suc n" "n < length (pl_free p)"
    using assms(2) pool_invD(4) [OF assms(1)] by (simp_all add: n_def)
  have split: "free_list p = take n (pl_free p) @ [pl_free p ! n]"
    using n by (simp add: free_list_def take_Suc_conv_app_nth)
  then have "pl_free p ! n \<in> Some ` issued p" using pool_invD(7) [OF assms(1)] by auto
  then obtain a where a: "pl_free p ! n = Some a" by blast
  let ?p = "p\<lparr>pl_free_cursor := n\<rparr>"
  have "free_list ?p = take n (pl_free p)" "issued ?p = issued p"
    by (simp_all add: free_list_def)
  then have "pool_inv cap ?p (a # live)" "a \<notin> set live"
    using pool_invD(6,7) [OF assms(1)] assms(1) n(2) split a by (auto simp: pool_inv_def)
  then show ?thesis using n a by (simp add: allocate_def)
qed

text \<open>Otherwise the next entry of the last block is handed out, or the first of a new block.\<close>

lemma issued_new_block:
  assumes "pl_blocks p \<noteq> []" "pl_block_cursor p = last (pl_blocks p)"
  shows "issued (p\<lparr>pl_blocks := pl_blocks p @ [n], pl_block_cursor := 0\<rparr>) = issued p"
proof -
  have "pl_blocks p ! b = pl_block_cursor p" if "Suc b = length (pl_blocks p)" for b
  proof -
    have "b = length (pl_blocks p) - 1" using that by simp
    then show ?thesis using assms by (simp add: last_conv_nth)
  qed
  then show ?thesis by (auto simp: issued_def nth_append less_Suc_eq split: if_splits)
qed

lemma issued_next:
  assumes "pl_blocks p \<noteq> []"
  shows "issued (p\<lparr>pl_block_cursor := Suc (pl_block_cursor p)\<rparr>) = insert (length (pl_blocks p) - 1, pl_block_cursor p) (issued p)"
    "(length (pl_blocks p) - 1, pl_block_cursor p) \<notin> issued p"
  using assms by (auto simp: issued_def less_Suc_eq split: if_splits)

lemma allocate_fresh:
  assumes "pool_inv cap p live" "pl_free_cursor p = 0" "\<And>n. mem n"
  shows "\<exists>a p'. allocate mem p = Inr (a, p') \<and> a \<notin> set live \<and> pool_inv cap p' (a # live) \<and>
    issued p' = insert a (issued p) \<and> a \<notin> issued p"
proof -
  note pD = pool_invD [OF assms(1)]
  define q where "q = (if pl_block_cursor p = last (pl_blocks p)
    then p\<lparr>pl_blocks := pl_blocks p @ [last (pl_blocks p) * 2], pl_block_cursor := 0\<rparr> else p)"
  have last: "last (pl_blocks p) = cap * 2 ^ (length (pl_blocks p) - 1)"
    using pD(2) pD(8) [of "length (pl_blocks p) - 1"] by (simp add: last_conv_nth)
  have q: "pl_blocks q \<noteq> []" "pl_block_cursor q < last (pl_blocks q)" "issued q = issued p"
    "pl_free q = pl_free p" "pl_free_cursor q = 0"
    using pD(1-3) assms(2) last issued_new_block [OF pD(2)] by (auto simp: q_def)
  have sizes: "pl_blocks q ! b = cap * 2 ^ b" if "b < length (pl_blocks q)" for b
    using that pD(2,8) last by (auto simp: q_def nth_append less_Suc_eq simp flip: power_Suc2 split: if_splits)
  let ?a = "(length (pl_blocks q) - 1, pl_block_cursor q)" and ?r = "q\<lparr>pl_block_cursor := Suc (pl_block_cursor q)\<rparr>"
  have "allocate mem p = Inr (?a, ?r)"
    using assms(2,3) by (simp add: allocate_def q_def Let_def)
  moreover have live: "set live = issued p"
    using pD(7) assms(2) by (auto simp: free_list_def)
  moreover have "issued ?r = insert ?a (issued p)" "?a \<notin> issued p"
    using issued_next [OF q(1)] q(3) by simp_all
  moreover have "pool_inv cap ?r (?a # live)"
    using q sizes pD(1,4,5,6) assms(2) live issued_next [OF q(1)]
    by (auto simp: pool_inv_def free_list_def)
  ultimately show ?thesis by blast
qed

lemma deallocate_ok:
  assumes "pool_inv cap p live" "a \<in> set live" "\<And>n. mem n"
  shows "\<exists>p'. deallocate mem a p = Inr p' \<and> pool_inv cap p' (remove1 a live) \<and> issued p' = issued p"
proof -
  note pD = pool_invD [OF assms(1)]
  let ?k = "pl_free_cursor p"
  define fs where "fs = (if ?k = length (pl_free p) then pl_free p @ replicate (length (pl_free p)) None else pl_free p)"
  let ?p = "p\<lparr>pl_free := fs[?k := Some a], pl_free_cursor := Suc ?k\<rparr>"
  have fs: "?k < length fs" "take ?k fs = free_list p"
    using pD(4,5) by (auto simp: fs_def free_list_def)
  then have list: "free_list ?p = free_list p @ [Some a]"
    by (simp add: free_list_def take_Suc_conv_app_nth)
  have "deallocate mem a p = Inr ?p"
    using assms(3) fs(1) by (cases p) (auto simp: deallocate_def fs_def)
  moreover have "issued ?p = issued p" by (simp add: issued_def cong: if_cong)
  moreover have "pool_inv cap ?p (remove1 a live)"
  proof -
    have d: "distinct live" "distinct (free_list p)" "Some ` set live \<inter> set (free_list p) = {}"
      using pD(6) by (auto simp: distinct_map)
    then have "Some a \<notin> set (free_list p)" using assms(2) by blast
    moreover have "set (remove1 a live) = set live - {a}" using d(1) by simp
    ultimately show ?thesis
      using pD(1-3,7) pool_invD(8) [OF assms(1)] assms(2) d fs(1) list \<open>issued ?p = issued p\<close>
      by (auto simp: pool_inv_def distinct_map)
  qed
  ultimately show ?thesis by blast
qed

section \<open>What clients can rely on\<close>

lemma client_reach_inv:
  assumes "client_reach mem cap c" "0 < cap" "\<And>n. mem n"
  shows "pool_inv cap (c_pool c) (c_live c) \<and> card (issued (c_pool c)) = c_peak c"
  using assms(1)
proof induction
  case (start p)
  then have "pool_inv cap p []" using pool_create_inv assms(2) by blast
  moreover have "issued p = {}" using start by (auto simp: pool_create_def issued_def split: if_splits)
  ultimately show ?case by simp
next
  case (step c c')
  then have inv: "pool_inv cap (c_pool c) (c_live c)" and card: "card (issued (c_pool c)) = c_peak c" by simp_all
  have count: "c_peak c = length (c_live c) + length (free_list (c_pool c))"
    using card_issued [OF inv] card by simp
  show ?case
    using step(2)
  proof cases
    case (get a p)
    show ?thesis
    proof (cases "pl_free_cursor (c_pool c) = 0")
      case True
      then have "free_list (c_pool c) = []" by (simp add: free_list_def)
      then show ?thesis
        using allocate_fresh [where mem = mem, OF inv True assms(3)] get count card finite_issued by auto
    next
      case False
      then have "free_list (c_pool c) \<noteq> []" using pool_invD(4,5) [OF inv] by (simp add: free_list_def)
      then have "Suc (length (c_live c)) \<le> c_peak c" using count by (cases "free_list (c_pool c)") simp_all
      then show ?thesis using allocate_free [where mem = mem, OF inv False] get card by auto
    qed
  next
    case (give a p)
    then show ?thesis using deallocate_ok [where mem = mem, OF inv give(2) assms(3)] card by auto
  qed
qed

text \<open>C35: while memory lasts, \<open>allocate\<close> always succeeds and never hands out an entry that is in use,
  whatever was allocated and given back before, in any order; and entries are recycled before new
  ones are taken, so that the number of entries ever taken from the blocks is the largest number
  that were in use at a time.\<close>

theorem pool_never_shares:
  assumes "0 < cap" "\<And>n. mem n" "client_reach mem cap c"
  shows "(\<exists>a p. allocate mem (c_pool c) = Inr (a, p) \<and> a \<notin> set (c_live c)) \<and> distinct (c_live c) \<and>
    set (c_live c) \<subseteq> issued (c_pool c) \<and> card (issued (c_pool c)) = c_peak c"
proof -
  have inv: "pool_inv cap (c_pool c) (c_live c)" and card: "card (issued (c_pool c)) = c_peak c"
    using client_reach_inv [OF assms(3,1,2)] by simp_all
  have "distinct (c_live c)" "set (c_live c) \<subseteq> issued (c_pool c)"
    using pool_invD(6,7) [OF inv] by (auto simp: distinct_map)
  moreover have "\<exists>a p. allocate mem (c_pool c) = Inr (a, p) \<and> a \<notin> set (c_live c)"
    using allocate_free [where mem = mem, OF inv] allocate_fresh [where mem = mem, OF inv _ assms(2)] by (cases "pl_free_cursor (c_pool c) = 0") blast+
  ultimately show ?thesis using card by simp
qed

lemma pool_never_shares_witness:
  "\<exists>c. client_reach (\<lambda>_. True) 8 c \<and> c_live c = [(0, 0)] \<and>
     (\<exists>a p. allocate (\<lambda>_. True) (c_pool c) = Inr (a, p) \<and> a \<noteq> (0, 0))"
proof -
  define p where "p = \<lparr>pl_blocks = [8], pl_free = replicate 8 None, pl_free_cursor = 0, pl_block_cursor = 0\<rparr>"
  have "client_reach (\<lambda>_. True) 8 \<lparr>c_pool = p, c_live = [], c_peak = 0\<rparr>"
    by (rule client_reach.start) (simp add: pool_create_def p_def)
  moreover have "allocate (\<lambda>_. True) p = Inr ((0, 0), p\<lparr>pl_block_cursor := 1\<rparr>)"
    by (simp add: allocate_def p_def)
  ultimately have r: "client_reach (\<lambda>_. True) 8 \<lparr>c_pool = p\<lparr>pl_block_cursor := 1\<rparr>, c_live = [(0, 0)], c_peak = 1\<rparr>"
    using client_reach.step client_step.get [of "\<lambda>_. True" "\<lparr>c_pool = p, c_live = [], c_peak = 0\<rparr>"] by fastforce
  from pool_never_shares [OF _ _ r] obtain a q where
    "allocate (\<lambda>_. True) (p\<lparr>pl_block_cursor := 1\<rparr>) = Inr (a, q)" "a \<noteq> (0, 0)" by auto
  then show ?thesis by (intro exI [of _ "\<lparr>c_pool = p\<lparr>pl_block_cursor := 1\<rparr>, c_live = [(0, 0)], c_peak = 1\<rparr>"]) (use r in simp)
qed

end
