(* ===== verification/Sockets.thy ===== *)
theory Sockets
  imports Device
begin

text \<open>
  Opening sockets (ipc/socket.cpp): a server that listens on the first address of a list it can bind,
  and a client that connects to the first address that accepts it, with \<open>select_on_write\<close> of
  event/select.cpp. The replies of the kernel for each address are a record; the descriptors that are
  open are a set. A descriptor from \<open>FD_SETSIZE\<close> on is written outside of the \<open>fd_set\<close>: the exception
  \<open>Undefined\<close>.
\<close>

section \<open>One address\<close>

datatype select_reply = Select_error int | Select_returns bool

text \<open>For each entry of the list of \<open>getaddrinfo\<close>: whether its family is one of the internet, the
  descriptor \<open>socket\<close> returns, whether \<open>bind\<close> and \<open>listen\<close> succeed, the replies of the calls of \<open>connect\<close> and
  \<open>select\<close> (whether the descriptor is writable), and the pending error \<open>getsockopt\<close> reports.\<close>

record address =
  ad_inet :: bool
  ad_socket :: "int option"
  ad_bind :: bool
  ad_listen :: bool
  ad_connect :: "sysret list"
  ad_select :: "select_reply list"
  ad_pending :: "int option"

abbreviation EINPROGRESS :: int where "EINPROGRESS \<equiv> 115"
abbreviation EALREADY :: int where "EALREADY \<equiv> 114"
abbreviation EINVAL :: int where "EINVAL \<equiv> 22"

definition FD_SETSIZE :: int where "FD_SETSIZE = 1024"

fun select_loop :: "select_reply list \<Rightarrow> bool option" where
  "select_loop [] = None"
| "select_loop (Select_error e # rs) = (if e = EINTR then select_loop rs else Some False)"
| "select_loop (Select_returns w # rs) = Some w"

text \<open>A descriptor that is too large for an \<open>fd_set\<close> is a write outside of it.\<close>

definition select_on_write :: "int \<Rightarrow> select_reply list \<Rightarrow> bool result option" where
  "select_on_write fd rs =
     (if fd < 0 then Some (Inr False)
      else if FD_SETSIZE \<le> fd then Some (Inl (Undefined ''FD_SET''))
      else map_option Inr (select_loop rs))"

text \<open>The calls of \<open>connect\<close>, with the tries that are left; the value is whether the code goes on to poll
  the socket.\<close>

fun connect_loop :: "nat \<Rightarrow> sysret list \<Rightarrow> bool option" where
  "connect_loop tries [] = None"
| "connect_loop tries (Sys_ok n # rs) = Some True"
| "connect_loop tries (Sys_err e # rs) =
     (if e = EINTR then connect_loop tries rs
      else if e = EAGAIN \<and> tries \<noteq> 0 then connect_loop (tries - 1) rs
      else Some (e = EINPROGRESS))"

text \<open>A round of the loops: the value of \<open>fd\<close> and the open descriptors. A failure on the way closes the
  descriptor and sets it to \<open>-1\<close>.\<close>

definition server_attempt :: "address \<Rightarrow> int set \<Rightarrow> (int \<times> int set) result option" where
  "server_attempt a fds = Some (Inr
     (if \<not> ad_inet a then (- 1, fds)
      else case ad_socket a of
        None \<Rightarrow> (- 1, fds)
      | Some fd \<Rightarrow>
          let fds = insert fd fds in
          if ad_bind a \<and> ad_listen a then (fd, fds) else (- 1, fds - {fd})))"

definition client_attempt :: "address \<Rightarrow> int set \<Rightarrow> (int \<times> int set) result option" where
  "client_attempt a fds =
     (if \<not> ad_inet a then Some (Inr (- 1, fds))
      else case ad_socket a of
        None \<Rightarrow> Some (Inr (- 1, fds))
      | Some fd \<Rightarrow>
          let fds = insert fd fds; try_next = Some (Inr (- 1, fds - {fd})) in
          (case connect_loop 3 (ad_connect a) of
             None \<Rightarrow> None
           | Some go_on \<Rightarrow>
               if \<not> go_on then try_next
               else (case select_on_write fd (ad_select a) of
                       None \<Rightarrow> None
                     | Some (Inl e) \<Rightarrow> Some (Inl e)
                     | Some (Inr w) \<Rightarrow>
                         if w \<and> ad_pending a = Some 0 then Some (Inr (fd, fds)) else try_next)))"

section \<open>The list of addresses\<close>

fun try_addresses ::
  "(address \<Rightarrow> int set \<Rightarrow> (int \<times> int set) result option) \<Rightarrow> address list \<Rightarrow> int set \<Rightarrow> (int \<times> int set) result option" where
  "try_addresses att [] fds = Some (Inr (- 1, fds))"
| "try_addresses att (a # as) fds = (case att a fds of
       None \<Rightarrow> None
     | Some (Inl e) \<Rightarrow> Some (Inl e)
     | Some (Inr (fd, fds)) \<Rightarrow> if fd \<noteq> - 1 then Some (Inr (fd, fds)) else try_addresses att as fds)"

text \<open>What both functions do with the loop: \<open>gai\<close> is the result of \<open>getaddrinfo\<close>. Where the behaviour
  is undefined, nothing is said about the descriptors: the set returned then is the one before.\<close>

definition open_socket ::
  "(address \<Rightarrow> int set \<Rightarrow> (int \<times> int set) result option) \<Rightarrow> address list option \<Rightarrow> int set \<Rightarrow>
     (int result \<times> int set) option" where
  "open_socket att gai fds = (case gai of
       None \<Rightarrow> Some (Inl (System_error EINVAL), fds)
     | Some as \<Rightarrow>
         (case try_addresses att as fds of
            None \<Rightarrow> None
          | Some (Inl e) \<Rightarrow> Some (Inl e, fds)
          | Some (Inr (fd, fds)) \<Rightarrow>
              Some (if fd = - 1 then Inl (System_error EINVAL) else Inr fd, fds)))"

definition make_socket_server :: "address list option \<Rightarrow> int set \<Rightarrow> (int result \<times> int set) option" where
  "make_socket_server = open_socket server_attempt"

definition make_socket_client :: "address list option \<Rightarrow> int set \<Rightarrow> (int result \<times> int set) option" where
  "make_socket_client = open_socket client_attempt"

section \<open>No descriptor is lost\<close>

text \<open>The descriptors the kernel hands out are not open yet.\<close>

definition fresh :: "int set \<Rightarrow> address \<Rightarrow> bool" where
  "fresh fds a \<longleftrightarrow> (\<forall>fd. ad_socket a = Some fd \<longrightarrow> 0 \<le> fd \<and> fd \<notin> fds)"

text \<open>What an attempt promises to the loop: on the addresses it \<open>breaks\<close> on its behaviour is undefined;
  else it succeeds exactly on the addresses that can be used, with their descriptor, and leaves no other
  one open.\<close>

locale attempts =
  fixes att :: "address \<Rightarrow> int set \<Rightarrow> (int \<times> int set) result option"
    and usable :: "address \<Rightarrow> bool" and breaks :: "address \<Rightarrow> bool"
  assumes attempt: "fresh fds a \<Longrightarrow> att a fds = Some r \<Longrightarrow>
      (if breaks a then \<exists>what. r = Inl (Undefined what)
       else case ad_socket a of
         Some fd \<Rightarrow> r = Inr (if usable a then (fd, insert fd fds) else (- 1, fds))
       | None \<Rightarrow> \<not> usable a \<and> r = Inr (- 1, fds))"
begin

abbreviation skipped :: "address list \<Rightarrow> bool" where
  "skipped as \<equiv> list_all (\<lambda>b. \<not> usable b \<and> \<not> breaks b) as"

lemma first_usable:
  "\<forall>a \<in> set as. fresh fds a \<Longrightarrow> try_addresses att as fds = Some r \<Longrightarrow>
     (\<exists>pre a post fd. as = pre @ a # post \<and> skipped pre \<and> usable a \<and> \<not> breaks a \<and> ad_socket a = Some fd \<and>
        r = Inr (fd, insert fd fds)) \<or>
     (\<exists>pre a post what. as = pre @ a # post \<and> skipped pre \<and> breaks a \<and> r = Inl (Undefined what)) \<or>
     skipped as \<and> r = Inr (- 1, fds)"
proof (induction as)
  case (Cons a as)
  obtain x where x: "att a fds = Some x" using Cons.prems(2) by (cases "att a fds") auto
  have fr: "fresh fds a" using Cons.prems(1) by simp
  note law = attempt [OF fr x]
  have first: "a # as = [] @ a # as \<and> skipped []" by simp
  consider (breaks) what where "breaks a" "x = Inl (Undefined what)"
    | (usable) fd where "\<not> breaks a" "usable a" "ad_socket a = Some fd" "x = Inr (fd, insert fd fds)"
    | (skip) "\<not> breaks a" "\<not> usable a" "x = Inr (- 1, fds)"
    using law by (auto split: if_splits option.splits)
  then show ?case
  proof cases
    case breaks
    then have "r = Inl (Undefined what)" using Cons.prems(2) x by simp
    then show ?thesis using breaks(1) first by blast
  next
    case usable
    then have "fd \<noteq> - 1" using fr by (auto simp: fresh_def)
    then have "r = Inr (fd, insert fd fds)" using Cons.prems(2) x usable(4) by simp
    then show ?thesis using usable(1-3) first by blast
  next
    case skip
    then have "try_addresses att as fds = Some r" using Cons.prems(2) x by simp
    then consider pre b post fd where "as = pre @ b # post" "skipped pre" "usable b" "\<not> breaks b"
        "ad_socket b = Some fd" "r = Inr (fd, insert fd fds)"
      | pre b post what where "as = pre @ b # post" "skipped pre" "breaks b" "r = Inl (Undefined what)"
      | "skipped as" "r = Inr (- 1, fds)"
      using Cons.IH Cons.prems(1) by auto
    then show ?thesis
    proof cases
      case 1
      then have "a # as = (a # pre) @ b # post \<and> skipped (a # pre)" using skip by simp
      with 1 show ?thesis by blast
    next
      case 2
      then have "a # as = (a # pre) @ b # post \<and> skipped (a # pre)" using skip by simp
      with 2 show ?thesis by blast
    qed (use skip in simp)
  qed
qed simp

lemma opens_first_usable:
  assumes "\<forall>a \<in> set as. fresh fds a" "open_socket att (Some as) fds = Some (r, fds')"
  shows "case r of
      Inr fd \<Rightarrow> fds' = insert fd fds \<and> fd \<notin> fds \<and>
        (\<exists>pre a post. as = pre @ a # post \<and> skipped pre \<and> usable a \<and> \<not> breaks a \<and> ad_socket a = Some fd)
    | Inl e \<Rightarrow> fds' = fds \<and> e = System_error EINVAL \<and> skipped as \<or>
        (\<exists>what. e = Undefined what) \<and> (\<exists>pre a post. as = pre @ a # post \<and> skipped pre \<and> breaks a)"
proof -
  obtain x where x: "try_addresses att as fds = Some x"
    using assms(2) by (cases "try_addresses att as fds") (auto simp: open_socket_def)
  consider pre a post fd where "as = pre @ a # post" "skipped pre" "usable a" "\<not> breaks a"
        "ad_socket a = Some fd" "x = Inr (fd, insert fd fds)"
      | pre a post what where "as = pre @ a # post" "skipped pre" "breaks a" "x = Inl (Undefined what)"
      | "skipped as" "x = Inr (- 1, fds)"
    using first_usable [OF assms(1) x] by blast
  then show ?thesis
  proof cases
    case 1
    then have "fd \<noteq> - 1" "fd \<notin> fds" using assms(1) by (auto simp: fresh_def)
    with x 1(6) assms(2) have "r = Inr fd" "fds' = insert fd fds" by (auto simp: open_socket_def)
    with 1(1-5) \<open>fd \<notin> fds\<close> show ?thesis by auto
  next
    case 2
    then have "r = Inl (Undefined what)" using x assms(2) by (simp add: open_socket_def)
    with 2(1-3) show ?thesis by auto
  qed (use x assms(2) in \<open>auto simp: open_socket_def\<close>)
qed

end

definition can_serve :: "address \<Rightarrow> bool" where
  "can_serve a \<longleftrightarrow> ad_inet a \<and> ad_socket a \<noteq> None \<and> ad_bind a \<and> ad_listen a"

definition can_connect :: "address \<Rightarrow> bool" where
  "can_connect a \<longleftrightarrow> ad_inet a \<and> ad_socket a \<noteq> None \<and> connect_loop 3 (ad_connect a) = Some True \<and>
     select_loop (ad_select a) = Some True \<and> ad_pending a = Some 0"

text \<open>An address whose descriptor does not fit into a set, and that \<open>connect\<close> does not refuse.\<close>

definition too_large :: "address \<Rightarrow> bool" where
  "too_large a \<longleftrightarrow> ad_inet a \<and> connect_loop 3 (ad_connect a) = Some True \<and>
     (\<exists>fd. ad_socket a = Some fd \<and> FD_SETSIZE \<le> fd)"

interpretation server: attempts server_attempt can_serve "\<lambda>_. False"
proof
  fix fds a r
  assume "fresh fds a" "server_attempt a fds = Some r"
  then show "if False then \<exists>what. r = Inl (Undefined what)
      else case ad_socket a of
         Some fd \<Rightarrow> r = Inr (if can_serve a then (fd, insert fd fds) else (- 1, fds))
       | None \<Rightarrow> \<not> can_serve a \<and> r = Inr (- 1, fds)"
    by (auto simp: server_attempt_def can_serve_def fresh_def Let_def split: option.splits if_splits)
qed

interpretation client: attempts client_attempt can_connect too_large
proof
  fix fds a r
  assume "fresh fds a" "client_attempt a fds = Some r"
  then show "if too_large a then \<exists>what. r = Inl (Undefined what)
      else case ad_socket a of
         Some fd \<Rightarrow> r = Inr (if can_connect a then (fd, insert fd fds) else (- 1, fds))
       | None \<Rightarrow> \<not> can_connect a \<and> r = Inr (- 1, fds)"
    by (auto simp: client_attempt_def can_connect_def too_large_def fresh_def Let_def select_on_write_def
        split: option.splits if_splits sum.splits)
qed

text \<open>C40: \<open>make_socket_client\<close> loses no descriptor. It goes through the addresses in order; the only
  premise is that the kernel hands out descriptors that are not open. When it returns a descriptor, this
  is a connected one, of the first address that can be connected to, and just this one is left open; when it throws,
  no address could be connected to and none is left open. An address counts if a descriptor can be had,
  connecting succeeds within its tries, the socket becomes writable in time and has no pending
  error. The remaining outcome is undefined behaviour: exactly when, before any such address, it comes to
  one whose descriptor is 1024 or larger and which \<open>connect\<close> does not refuse, since it then puts this
  descriptor into an \<open>fd_set\<close> (select.cpp:372).\<close>

theorem client_opens_first:
  assumes "\<forall>a \<in> set as. fresh fds a" "make_socket_client (Some as) fds = Some (r, fds')"
  shows "case r of
      Inr fd \<Rightarrow> fds' = insert fd fds \<and> fd \<notin> fds \<and>
        (\<exists>pre a post. as = pre @ a # post \<and> list_all (\<lambda>b. \<not> can_connect b \<and> \<not> too_large b) pre \<and>
           can_connect a \<and> \<not> too_large a \<and> ad_socket a = Some fd)
    | Inl e \<Rightarrow>
        fds' = fds \<and> e = System_error EINVAL \<and> list_all (\<lambda>b. \<not> can_connect b \<and> \<not> too_large b) as \<or>
        (\<exists>what. e = Undefined what) \<and>
          (\<exists>pre a post. as = pre @ a # post \<and> list_all (\<lambda>b. \<not> can_connect b \<and> \<not> too_large b) pre \<and> too_large a)"
  using client.opens_first_usable [OF assms(1)] assms(2) by (simp add: make_socket_client_def)

text \<open>The first address refuses, the second is in progress and becomes writable.\<close>

definition demo_address :: address where
  "demo_address = \<lparr>ad_inet = True, ad_socket = Some 7, ad_bind = True, ad_listen = True,
     ad_connect = [Sys_err EAGAIN, Sys_err EINPROGRESS], ad_select = [Select_error EINTR, Select_returns True],
     ad_pending = Some 0\<rparr>"

lemma client_opens_first_witness:
  "make_socket_client (Some [demo_address\<lparr>ad_socket := Some 6, ad_connect := [Sys_err 111]\<rparr>, demo_address]) {3} =
     Some (Inr 7, {3, 7}) \<and> can_connect demo_address"
proof -
  let ?as = "[demo_address\<lparr>ad_socket := Some 6, ad_connect := [Sys_err 111]\<rparr>, demo_address]"
  have fr: "\<forall>a \<in> set ?as. fresh {3} a" by (simp add: fresh_def demo_address_def)
  have c: "make_socket_client (Some ?as) {3} = Some (Inr 7, {3, 7})"
    by (auto simp: make_socket_client_def open_socket_def client_attempt_def demo_address_def select_on_write_def
        FD_SETSIZE_def Let_def)
  from client_opens_first [OF fr c] c show ?thesis by (auto simp: demo_address_def can_connect_def)
qed

text \<open>The same for the server.\<close>

theorem server_opens_first:
  assumes "\<forall>a \<in> set as. fresh fds a" "make_socket_server (Some as) fds = Some (r, fds')"
  shows "case r of
      Inr fd \<Rightarrow> fds' = insert fd fds \<and> fd \<notin> fds \<and>
        (\<exists>pre a post. as = pre @ a # post \<and> list_all (\<lambda>b. \<not> can_serve b) pre \<and> can_serve a \<and> ad_socket a = Some fd)
    | Inl e \<Rightarrow> fds' = fds \<and> e = System_error EINVAL \<and> list_all (\<lambda>b. \<not> can_serve b) as"
  using server.opens_first_usable [OF assms(1)] assms(2) by (cases r) (simp_all add: make_socket_server_def)

text \<open>\<open>connect\<close> is called at most four times while the kernel has no resources for it.\<close>

lemma connect_gives_up: "connect_loop tries (replicate (Suc tries) (Sys_err EAGAIN) @ rs) = Some False"
  by (induction tries) simp_all

text \<open>A connection that a signal has interrupted goes on in the background; the second call then reports
  \<open>EALREADY\<close>, and the code gives the address up.\<close>

lemma interrupted_connect_given_up: "connect_loop 3 [Sys_err EINTR, Sys_err EALREADY] = Some False"
  by simp

lemma large_descriptor_undefined: "select_on_write 1024 rs = Some (Inl (Undefined ''FD_SET''))"
  by (simp add: select_on_write_def FD_SETSIZE_def)

end
