(* ===== verification/Webui.thy ===== *)
theory Webui
  imports Strings Device
begin

text \<open>
  The web interface of the master (webui/webui.cpp and \<open>make_response\<close> of kernel/master.cpp): the
  callbacks that assemble requests from the pieces the HTTP parser finds, the choice of a response,
  and the bytes of a response.

  The parser itself (utility/http_parser.cpp) is vendored code: the callbacks it makes are a list, in
  the order its documentation gives. Its function that splits a URL, the file system, the clock and the report
  of the cluster are parameters.
\<close>

section \<open>Requests\<close>

datatype http_body_type = HTTP_UNDEFINED | HTTP_FILE | HTTP_QUERY

record http_request =
  hr_method :: nat
  hr_url :: string
  hr_body :: string
  hr_keep_alive :: bool
  hr_headers :: "(string \<times> string) list"

definition hr_clear :: "http_request \<Rightarrow> http_request" where
  "hr_clear r = r\<lparr>hr_url := '''', hr_headers := [], hr_body := '''', hr_keep_alive := True\<rparr>"

fun str_contains :: "string \<Rightarrow> string \<Rightarrow> bool" where
  "str_contains p [] = (p = [])"
| "str_contains p (c # cs) = (take (length p) (c # cs) = p \<or> str_contains p cs)"

text \<open>\<open>extract\<close> gives the query and the path of a URL.\<close>

definition hr_body_type :: "(string \<Rightarrow> string \<times> string) \<Rightarrow> http_request \<Rightarrow> http_body_type" where
  "hr_body_type extract r = (case extract (hr_url r) of (query, path) \<Rightarrow>
     if str_contains ''callback'' query then HTTP_QUERY
     else if path \<noteq> '''' then HTTP_FILE
     else HTTP_UNDEFINED)"

abbreviation crlf :: string where "crlf \<equiv> [CHR 0x0D, CHR 0x0A]"

definition http_version :: string where "http_version = ''HTTP/1.1''"

definition hr_to_string :: "(nat \<Rightarrow> string) \<Rightarrow> http_request \<Rightarrow> string" where
  "hr_to_string method_str r =
     method_str (hr_method r) @ '' '' @ hr_url r @ '' '' @ http_version @ crlf @
     concat (map (\<lambda>(k, v). k @ '': '' @ v @ crlf) (hr_headers r)) @ crlf @ hr_body r"

section \<open>The callbacks of the parser\<close>

datatype last_callback =
    CB_NONE | ON_MESSAGE_BEGIN | ON_URL | ON_HEADER_FIELD | ON_HEADER_VALUE | ON_HEADERS_COMPLETE
  | ON_BODY | ON_MESSAGE_COMPLETE

record request_parser =
  rp_last :: last_callback
  rp_requests :: "http_request list"
  rp_request :: http_request
  rp_buffer :: string

definition on_message_begin :: "request_parser \<Rightarrow> request_parser" where
  "on_message_begin p = p\<lparr>rp_request := hr_clear (rp_request p), rp_buffer := '''', rp_last := ON_MESSAGE_BEGIN\<rparr>"

definition on_url :: "string \<Rightarrow> request_parser \<Rightarrow> request_parser" where
  "on_url d p = p\<lparr>rp_request := (rp_request p)\<lparr>hr_url := hr_url (rp_request p) @ d\<rparr>, rp_last := ON_URL\<rparr>"

definition on_header_field :: "string \<Rightarrow> request_parser \<Rightarrow> request_parser" where
  "on_header_field d p =
     (let p = if rp_last p \<noteq> ON_HEADER_FIELD then p\<lparr>rp_buffer := ''''\<rparr> else p
      in p\<lparr>rp_buffer := rp_buffer p @ d, rp_last := ON_HEADER_FIELD\<rparr>)"

definition on_header_value :: "string \<Rightarrow> request_parser \<Rightarrow> request_parser result" where
  "on_header_value d p =
     (let hs = (if rp_last p = ON_HEADER_FIELD then um_try_emplace (rp_buffer p) '''' (hr_headers (rp_request p))
                else hr_headers (rp_request p))
      in bind_r (um_update_at (rp_buffer p) (\<lambda>v. v @ d) hs) (\<lambda>hs.
           Inr (p\<lparr>rp_request := (rp_request p)\<lparr>hr_headers := hs\<rparr>, rp_last := ON_HEADER_VALUE\<rparr>)))"

definition on_headers_complete :: "nat \<Rightarrow> bool \<Rightarrow> request_parser \<Rightarrow> request_parser" where
  "on_headers_complete meth keep p =
     p\<lparr>rp_buffer := '''', rp_request := (rp_request p)\<lparr>hr_method := meth, hr_keep_alive := keep\<rparr>,
       rp_last := ON_HEADERS_COMPLETE\<rparr>"

definition on_body :: "string \<Rightarrow> request_parser \<Rightarrow> request_parser" where
  "on_body d p = p\<lparr>rp_request := (rp_request p)\<lparr>hr_body := hr_body (rp_request p) @ d\<rparr>, rp_last := ON_BODY\<rparr>"

text \<open>The request is moved into the queue, which leaves an unspecified value behind.\<close>

definition on_message_complete :: "(http_request \<Rightarrow> http_request) \<Rightarrow> request_parser \<Rightarrow> request_parser" where
  "on_message_complete moved p =
     p\<lparr>rp_requests := rp_requests p @ [rp_request p], rp_request := moved (rp_request p), rp_last := ON_MESSAGE_COMPLETE\<rparr>"

text \<open>\<open>on\<close> hands the requests to its argument, in order, and takes them off the queue.\<close>

definition rp_on :: "(http_request \<Rightarrow> 's \<Rightarrow> 's) \<Rightarrow> request_parser \<times> 's \<Rightarrow> request_parser \<times> 's" where
  "rp_on c = (\<lambda>(p, s). (p\<lparr>rp_requests := []\<rparr>, fold c (rp_requests p) s))"

text \<open>\<open>operator()\<close> runs the parser, which calls back.\<close>

datatype callback =
    Cb_message_begin | Cb_url string | Cb_header_field string | Cb_header_value string
  | Cb_headers_complete nat bool | Cb_body string | Cb_message_complete

fun run_callback :: "(http_request \<Rightarrow> http_request) \<Rightarrow> callback \<Rightarrow> request_parser \<Rightarrow> request_parser result" where
  "run_callback mv Cb_message_begin p = Inr (on_message_begin p)"
| "run_callback mv (Cb_url d) p = Inr (on_url d p)"
| "run_callback mv (Cb_header_field d) p = Inr (on_header_field d p)"
| "run_callback mv (Cb_header_value d) p = on_header_value d p"
| "run_callback mv (Cb_headers_complete m k) p = Inr (on_headers_complete m k p)"
| "run_callback mv (Cb_body d) p = Inr (on_body d p)"
| "run_callback mv Cb_message_complete p = Inr (on_message_complete mv p)"

definition rp_parse :: "(http_request \<Rightarrow> http_request) \<Rightarrow> callback list \<Rightarrow> request_parser \<Rightarrow> request_parser result" where
  "rp_parse mv = fold_r (run_callback mv)"

section \<open>Messages in pieces\<close>

text \<open>A message as the parser finds it: every part comes in pieces, as the bytes happen to arrive; the
  name and the value of a header have a piece at least, which may be empty. Headers may also come
  behind the body, as the trailer of a chunked message.\<close>

record http_message =
  hm_url :: "string list"
  hm_headers :: "(string list \<times> string list) list"
  hm_method :: nat
  hm_keep_alive :: bool
  hm_body :: "string list"
  hm_trailer :: "(string list \<times> string list) list"

definition header_callbacks :: "string list \<times> string list \<Rightarrow> callback list" where
  "header_callbacks = (\<lambda>(ns, vs). map Cb_header_field ns @ map Cb_header_value vs)"

definition message_callbacks :: "http_message \<Rightarrow> callback list" where
  "message_callbacks m = [Cb_message_begin] @ map Cb_url (hm_url m) @ concat (map header_callbacks (hm_headers m)) @
     [Cb_headers_complete (hm_method m) (hm_keep_alive m)] @ map Cb_body (hm_body m) @
     concat (map header_callbacks (hm_trailer m)) @ [Cb_message_complete]"

definition in_pieces :: "http_message \<Rightarrow> bool" where
  "in_pieces m \<longleftrightarrow> list_all (\<lambda>(ns, vs). ns \<noteq> [] \<and> vs \<noteq> []) (hm_headers m @ hm_trailer m)"

text \<open>The value of a header: those of all headers of the name, one behind the other.\<close>

definition header_value :: "string \<Rightarrow> (string \<times> string) list \<Rightarrow> string option" where
  "header_value k hs =
     (if k \<in> fst ` set hs then Some (concat (map snd (filter (\<lambda>h. fst h = k) hs))) else None)"

definition header_pairs :: "http_message \<Rightarrow> (string \<times> string) list" where
  "header_pairs m = map (\<lambda>(ns, vs). (concat ns, concat vs)) (hm_headers m @ hm_trailer m)"

definition assembled :: "http_message \<Rightarrow> http_request \<Rightarrow> bool" where
  "assembled m r \<longleftrightarrow> hr_method r = hm_method m \<and> hr_url r = concat (hm_url m) \<and>
     hr_body r = concat (hm_body m) \<and> hr_keep_alive r = hm_keep_alive m \<and>
     (\<forall>k. um_find k (hr_headers r) = header_value k (header_pairs m))"

text \<open>A run of callbacks that changes the request in one way.\<close>

definition advances ::
  "callback list \<Rightarrow> (last_callback \<Rightarrow> bool) \<Rightarrow> (http_request \<Rightarrow> http_request \<Rightarrow> bool) \<Rightarrow> (last_callback \<Rightarrow> bool) \<Rightarrow> bool" where
  "advances cs P R Q \<longleftrightarrow> (\<forall>mv p. P (rp_last p) \<longrightarrow> (\<exists>p'. rp_parse mv cs p = Inr p' \<and>
     rp_requests p' = rp_requests p \<and> R (rp_request p) (rp_request p') \<and> Q (rp_last p')))"

lemma rp_parse_simps [simp]:
  "rp_parse mv [] p = Inr p"
  "rp_parse mv (c # cs) p = bind_r (run_callback mv c p) (rp_parse mv cs)"
  "rp_parse mv (cs @ ds) p = bind_r (rp_parse mv cs p) (rp_parse mv ds)"
  by (simp_all add: rp_parse_def fold_r_append)

lemma advances_append:
  assumes "advances cs P R Q" "advances ds Q S T" "\<And>r s t. R r s \<Longrightarrow> S s t \<Longrightarrow> U r t"
  shows "advances (cs @ ds) P U T"
  unfolding advances_def
proof (intro allI impI)
  fix mv and p :: request_parser
  assume "P (rp_last p)"
  then obtain q where q: "rp_parse mv cs p = Inr q" "rp_requests q = rp_requests p"
      "R (rp_request p) (rp_request q)" "Q (rp_last q)"
    using assms(1) by (auto simp: advances_def)
  then obtain t where "rp_parse mv ds q = Inr t" "rp_requests t = rp_requests q"
      "S (rp_request q) (rp_request t)" "T (rp_last t)"
    using assms(2) q(4) unfolding advances_def by blast
  with q assms(3) show "\<exists>p'. rp_parse mv (cs @ ds) p = Inr p' \<and> rp_requests p' = rp_requests p \<and>
      U (rp_request p) (rp_request p') \<and> T (rp_last p')"
    by auto
qed

abbreviation outside_field :: "last_callback \<Rightarrow> bool" where
  "outside_field c \<equiv> c \<noteq> ON_HEADER_FIELD"

lemma advances_url:
  "advances (map Cb_url ds) outside_field (\<lambda>r s. s = r\<lparr>hr_url := hr_url r @ concat ds\<rparr>) outside_field"
proof -
  have "outside_field (rp_last p) \<Longrightarrow> \<exists>p'. rp_parse mv (map Cb_url ds) p = Inr p' \<and> rp_requests p' = rp_requests p \<and>
      rp_request p' = (rp_request p)\<lparr>hr_url := hr_url (rp_request p) @ concat ds\<rparr> \<and> outside_field (rp_last p')" for mv p
  proof (induction ds arbitrary: p)
    case (Cons d ds)
    then show ?case using Cons.IH [of "on_url d p"] by (auto simp: on_url_def)
  qed simp
  then show ?thesis by (auto simp: advances_def)
qed

lemma advances_body:
  "advances (map Cb_body ds) outside_field (\<lambda>r s. s = r\<lparr>hr_body := hr_body r @ concat ds\<rparr>) outside_field"
proof -
  have "outside_field (rp_last p) \<Longrightarrow> \<exists>p'. rp_parse mv (map Cb_body ds) p = Inr p' \<and> rp_requests p' = rp_requests p \<and>
      rp_request p' = (rp_request p)\<lparr>hr_body := hr_body (rp_request p) @ concat ds\<rparr> \<and> outside_field (rp_last p')" for mv p
  proof (induction ds arbitrary: p)
    case (Cons d ds)
    then show ?case using Cons.IH [of "on_body d p"] by (auto simp: on_body_def)
  qed simp
  then show ?thesis by (auto simp: advances_def)
qed

text \<open>The name of a header: afterwards it is in the buffer.\<close>

lemma parse_fields:
  "ns \<noteq> [] \<Longrightarrow> rp_parse mv (map Cb_header_field ns) p =
     Inr (p\<lparr>rp_buffer := (if rp_last p = ON_HEADER_FIELD then rp_buffer p else '''') @ concat ns, rp_last := ON_HEADER_FIELD\<rparr>)"
proof (induction ns arbitrary: p)
  case (Cons n ns)
  then show ?case by (cases "ns = []") (auto simp: on_header_field_def Let_def)
qed simp

text \<open>The value: the first piece enters the header unless it is there, all are appended.\<close>

definition joined :: "string option \<Rightarrow> string option \<Rightarrow> string option" where
  "joined x y = (case y of None \<Rightarrow> x | Some v \<Rightarrow> Some ((case x of None \<Rightarrow> '''' | Some w \<Rightarrow> w) @ v))"

lemma joined_simps [simp]:
  "joined x None = x" "joined None y = y" "joined (Some w) (Some v) = Some (w @ v)"
  "joined (joined x y) z = joined x (joined y z)"
  by (auto simp: joined_def split: option.splits)

definition same_but_headers :: "http_request \<Rightarrow> http_request \<Rightarrow> bool" where
  "same_but_headers r s \<longleftrightarrow> hr_method s = hr_method r \<and> hr_url s = hr_url r \<and> hr_body s = hr_body r \<and>
     hr_keep_alive s = hr_keep_alive r"

definition add_header :: "string \<Rightarrow> string \<Rightarrow> http_request \<Rightarrow> http_request \<Rightarrow> bool" where
  "add_header n v r s \<longleftrightarrow> same_but_headers r s \<and>
     (\<forall>k. um_find k (hr_headers s) = joined (um_find k (hr_headers r)) (if k = n then Some v else None))"

lemma parse_values_rest:
  "rp_last p = ON_HEADER_VALUE \<Longrightarrow> rp_buffer p = n \<Longrightarrow> um_find n (hr_headers (rp_request p)) = Some w \<Longrightarrow>
   \<exists>p'. rp_parse mv (map Cb_header_value vs) p = Inr p' \<and> rp_requests p' = rp_requests p \<and>
     add_header n (concat vs) (rp_request p) (rp_request p') \<and> rp_last p' = ON_HEADER_VALUE"
proof (induction vs arbitrary: p w)
  case Nil
  then show ?case by (auto simp: add_header_def same_but_headers_def)
next
  case (Cons v vs)
  define q where "q = p\<lparr>rp_request := (rp_request p)\<lparr>hr_headers := um_assign n (w @ v) (hr_headers (rp_request p))\<rparr>\<rparr>"
  have v: "on_header_value v p = Inr q"
    using Cons.prems by (simp add: on_header_value_def um_update_at_eq q_def)
  obtain p' where "rp_parse mv (map Cb_header_value vs) q = Inr p'" "rp_requests p' = rp_requests q"
      "add_header n (concat vs) (rp_request q) (rp_request p')" "rp_last p' = ON_HEADER_VALUE"
    using Cons.IH [of q "w @ v"] Cons.prems by (auto simp: q_def dict_simps)
  then show ?case using v Cons.prems(3) by (auto simp: add_header_def same_but_headers_def q_def dict_simps)
qed

lemma advances_header:
  assumes "ns \<noteq> []" "vs \<noteq> []"
  shows "advances (header_callbacks (ns, vs)) outside_field (add_header (concat ns) (concat vs)) outside_field"
  unfolding advances_def
proof (intro allI impI)
  fix mv and p :: request_parser
  assume out: "outside_field (rp_last p)"
  obtain v us where vs: "vs = v # us" using assms(2) by (cases vs) auto
  let ?n = "concat ns" and ?hs = "hr_headers (rp_request p)"
  define w where "w = (case um_find ?n ?hs of None \<Rightarrow> '''' | Some w \<Rightarrow> w)"
  define f where "f = p\<lparr>rp_buffer := ?n, rp_last := ON_HEADER_FIELD\<rparr>"
  define q where "q = f\<lparr>rp_request := (rp_request p)\<lparr>hr_headers := um_assign ?n (w @ v) (um_try_emplace ?n '''' ?hs)\<rparr>,
    rp_last := ON_HEADER_VALUE\<rparr>"
  have f: "rp_parse mv (map Cb_header_field ns) p = Inr f"
    using parse_fields [OF assms(1)] out by (simp add: f_def)
  have q: "on_header_value v f = Inr q"
    by (simp add: on_header_value_def f_def q_def um_update_at_eq dict_simps w_def)
  obtain p' where "rp_parse mv (map Cb_header_value us) q = Inr p'" "rp_requests p' = rp_requests q"
      "add_header ?n (concat us) (rp_request q) (rp_request p')" "rp_last p' = ON_HEADER_VALUE"
    using parse_values_rest [of q ?n "w @ v"] by (auto simp: q_def f_def dict_simps)
  then show "\<exists>p'. rp_parse mv (header_callbacks (ns, vs)) p = Inr p' \<and> rp_requests p' = rp_requests p \<and>
      add_header (concat ns) (concat vs) (rp_request p) (rp_request p') \<and> outside_field (rp_last p')"
    using f q by (auto simp: header_callbacks_def vs add_header_def same_but_headers_def q_def f_def dict_simps w_def
        split: option.splits)
qed

text \<open>Several headers in a row.\<close>

lemma header_value_Nil [simp]: "header_value k [] = None"
  by (simp add: header_value_def)

lemma header_value_Cons:
  "header_value k ((n, v) # hs) = joined (if k = n then Some v else None) (header_value k hs)"
proof -
  have "concat (map snd (filter (\<lambda>h. fst h = k) hs)) = ''''" if "k \<notin> fst ` set hs"
    using that by (force simp: filter_empty_conv)
  then show ?thesis by (auto simp: header_value_def)
qed

lemma header_value_append: "header_value k (hs @ gs) = joined (header_value k hs) (header_value k gs)"
proof (induction hs)
  case (Cons h hs)
  then show ?case by (cases h) (simp add: header_value_Cons)
qed simp

definition add_headers :: "(string \<times> string) list \<Rightarrow> http_request \<Rightarrow> http_request \<Rightarrow> bool" where
  "add_headers hs r s \<longleftrightarrow> same_but_headers r s \<and>
     (\<forall>k. um_find k (hr_headers s) = joined (um_find k (hr_headers r)) (header_value k hs))"

lemma advances_headers:
  "list_all (\<lambda>(ns, vs). ns \<noteq> [] \<and> vs \<noteq> []) hs \<Longrightarrow>
     advances (concat (map header_callbacks hs)) outside_field
       (add_headers (map (\<lambda>(ns, vs). (concat ns, concat vs)) hs)) outside_field"
proof (induction hs)
  case Nil
  then show ?case by (auto simp: advances_def add_headers_def same_but_headers_def)
next
  case (Cons h hs)
  obtain ns vs where h: "h = (ns, vs)" "ns \<noteq> []" "vs \<noteq> []" using Cons.prems by (cases h) auto
  have tl: "advances (concat (map header_callbacks hs)) outside_field
       (add_headers (map (\<lambda>(ns, vs). (concat ns, concat vs)) hs)) outside_field"
    using Cons by simp
  show ?case
    unfolding h(1) list.map concat.simps
    by (rule advances_append [OF advances_header [OF h(2,3)] tl])
      (auto simp: add_header_def add_headers_def same_but_headers_def header_value_Cons)
qed

lemma advances_headers_complete:
  "advances [Cb_headers_complete m k] outside_field (\<lambda>r s. s = r\<lparr>hr_method := m, hr_keep_alive := k\<rparr>) outside_field"
  by (auto simp: advances_def on_headers_complete_def)

text \<open>The whole message between its first and its last callback.\<close>

lemma advances_message:
  assumes "in_pieces m"
  shows "advances (map Cb_url (hm_url m) @ concat (map header_callbacks (hm_headers m)) @
     [Cb_headers_complete (hm_method m) (hm_keep_alive m)] @ map Cb_body (hm_body m) @
     concat (map header_callbacks (hm_trailer m))) outside_field
     (\<lambda>r s. hr_url r = '''' \<and> hr_body r = '''' \<and> hr_headers r = [] \<longrightarrow> assembled m s) outside_field"
proof -
  let ?p = "map (\<lambda>(ns, vs). (concat ns :: string, concat vs :: string))"
  have hs: "list_all (\<lambda>(ns, vs). ns \<noteq> [] \<and> vs \<noteq> []) (hm_headers m)"
      "list_all (\<lambda>(ns, vs). ns \<noteq> [] \<and> vs \<noteq> []) (hm_trailer m)"
    using assms by (simp_all add: in_pieces_def)
  note tail = advances_append [OF advances_body [of "hm_body m"] advances_headers [OF hs(2)],
      where U = "\<lambda>r s. add_headers (?p (hm_trailer m)) (r\<lparr>hr_body := hr_body r @ concat (hm_body m)\<rparr>) s"]
  note rest = advances_append [OF advances_headers_complete [of "hm_method m" "hm_keep_alive m"] tail,
      where U = "\<lambda>r s. add_headers (?p (hm_trailer m))
        (r\<lparr>hr_method := hm_method m, hr_keep_alive := hm_keep_alive m, hr_body := hr_body r @ concat (hm_body m)\<rparr>) s"]
  note all = advances_append [OF advances_headers [OF hs(1)] rest,
      where U = "\<lambda>r s. hr_method s = hm_method m \<and> hr_url s = hr_url r \<and> hr_keep_alive s = hm_keep_alive m \<and>
        hr_body s = hr_body r @ concat (hm_body m) \<and>
        (hr_headers r = [] \<longrightarrow> (\<forall>k. um_find k (hr_headers s) = header_value k (header_pairs m)))"]
  show ?thesis
    by (rule advances_append [OF advances_url all])
      (auto simp: add_headers_def same_but_headers_def assembled_def header_pairs_def header_value_append)
qed

lemma parse_message:
  assumes "in_pieces m"
  shows "\<exists>p' r. rp_parse mv (message_callbacks m) p = Inr p' \<and> rp_requests p' = rp_requests p @ [r] \<and> assembled m r"
proof -
  define q where "q = on_message_begin p"
  have q: "outside_field (rp_last q)" "hr_url (rp_request q) = ''''" "hr_body (rp_request q) = ''''"
      "hr_headers (rp_request q) = []" "rp_requests q = rp_requests p"
    by (simp_all add: q_def on_message_begin_def hr_clear_def)
  obtain u where u: "rp_parse mv (map Cb_url (hm_url m) @ concat (map header_callbacks (hm_headers m)) @
       [Cb_headers_complete (hm_method m) (hm_keep_alive m)] @ map Cb_body (hm_body m) @
       concat (map header_callbacks (hm_trailer m))) q = Inr u"
      "rp_requests u = rp_requests p" "assembled m (rp_request u)"
    using advances_message [OF assms] q unfolding advances_def by fastforce
  then have "rp_parse mv (message_callbacks m) p = Inr (on_message_complete mv u)"
    by (simp add: message_callbacks_def q_def [symmetric] del: append_assoc) (auto simp: bind_r_eq_Inr)
  then show ?thesis using u(2,3) by (auto simp: on_message_complete_def)
qed

text \<open>C38: whatever pieces the bytes of a connection come in, and whatever an earlier message or its
  moved request has left in the parser, \<open>HttpRequestParser\<close> assembles exactly the messages, in order:
  the URL, the body, the method and the headers, those of a trailer too, where the values of headers of
  the same name are joined.\<close>

theorem requests_assembled:
  assumes "list_all in_pieces ms"
  shows "\<exists>p' rs. rp_parse mv (concat (map message_callbacks ms)) p = Inr p' \<and>
    rp_requests p' = rp_requests p @ rs \<and> list_all2 assembled ms rs"
  using assms
proof (induction ms arbitrary: p)
  case Nil
  then show ?case by auto
next
  case (Cons m ms)
  obtain q r where q: "rp_parse mv (message_callbacks m) p = Inr q" "rp_requests q = rp_requests p @ [r]" "assembled m r"
    using parse_message [of m mv p] Cons.prems by auto
  obtain p' rs where "rp_parse mv (concat (map message_callbacks ms)) q = Inr p'"
      "rp_requests p' = rp_requests q @ rs" "list_all2 assembled ms rs"
    using Cons.IH [of q] Cons.prems by auto
  with q show ?case by (intro exI [of _ p'] exI [of _ "r # rs"]) simp
qed

text \<open>A header whose name and value are cut, and one that comes twice.\<close>

definition demo_message :: http_message where
  "demo_message = \<lparr>hm_url = [''/clus'', ''ter''], hm_headers = [([''Ho'', ''st''], [''a'', ''b'']),
     ([''Accept''], [''x'']), ([''Accept''], [''y''])], hm_method = 1, hm_keep_alive = True, hm_body = [], hm_trailer = []\<rparr>"

definition demo_parser :: request_parser where
  "demo_parser = \<lparr>rp_last = CB_NONE, rp_requests = [], rp_request = \<lparr>hr_method = 0, hr_url = ''junk'', hr_body = '''',
     hr_keep_alive = True, hr_headers = []\<rparr>, rp_buffer = ''''\<rparr>"

lemma requests_assembled_witness:
  "\<exists>p' r. rp_parse id (message_callbacks demo_message) demo_parser = Inr p' \<and> rp_requests p' = [r] \<and>
    hr_url r = ''/cluster'' \<and> um_find ''Host'' (hr_headers r) = Some ''ab'' \<and>
    um_find ''Accept'' (hr_headers r) = Some ''xy''"
proof -
  have "list_all in_pieces [demo_message]" by (simp add: in_pieces_def demo_message_def)
  from requests_assembled [OF this, of id demo_parser] obtain p' r where
    "rp_parse id (message_callbacks demo_message) demo_parser = Inr p'" "rp_requests p' = [r]" "assembled demo_message r"
    by (auto simp: list_all2_Cons1 demo_parser_def)
  then show ?thesis
    by (auto simp: assembled_def demo_message_def header_pairs_def header_value_Cons)
qed

text \<open>Headers of the same name are joined without the comma that HTTP asks for.\<close>

lemma repeated_header_joined:
  "header_value n [(n, ''gzip''), (n, ''br'')] = Some ''gzipbr''"
  by (simp add: header_value_Cons)

section \<open>Responses\<close>

definition mime_types :: "(string \<times> string) list" where
  "mime_types = [('''', ''''), (''.woff2'', ''application/octet-stream''), (''.woff'', ''application/octet-stream''),
     (''.ttf'', ''application/octet-stream''), (''.svg'', ''image/svg+xml''), (''.eot'', ''application/octet-stream''),
     (''.txt'', ''text/plain''), (''.css'', ''text/css''), (''.c'', ''text/c''), (''.html'', ''text/html''),
     (''.htm'', ''text/html''), (''.ico'', ''image/x-icon''), (''.jpg'', ''image/jpeg''), (''.jpeg'', ''image/jpeg''),
     (''.json'', ''application/json''), (''.js'', ''application/javascript''), (''.png'', ''image/png''),
     (''.xml'', ''application/xml'')]"

definition http_status :: "(int \<times> string) list" where
  "http_status = [(100, ''CONTINUE''), (101, ''SWITCHING_PROTOCOLS''), (102, ''PROCESSING''), (200, ''OK''),
     (201, ''CREATED''), (202, ''ACCEPTED''), (203, ''NON_AUTHORITATIVE_INFORMATION''), (204, ''NO_CONTENT''),
     (205, ''RESET_CONTENT''), (300, ''MULTIPLE_CHOICES''), (301, ''MOVED_PERMANENTLY''), (302, ''FOUND''),
     (303, ''SEE_OTHER''), (304, ''NOT_MODIFIED''), (305, ''USE_PROXY''), (306, ''SWITCH_PROXY''),
     (307, ''TEMPORARY_REDIRECT''), (308, ''PERMANENT_REDIRECT''), (400, ''BAD_REQUEST''), (401, ''UNAUTHORIZED''),
     (402, ''PAYMENT_REQUIRED''), (403, ''FORBIDDEN''), (404, ''NOT_FOUND''), (405, ''METHOD_NOT_ALLOWED''),
     (406, ''NOT_ACCEPTABLE''), (407, ''PROXY_AUTHENTICATION_REQUIRED''), (415, ''Unsupported Media Type''),
     (408, ''REQUEST_TIMEOUT''), (500, ''INTERNAL_SERVER_ERROR''), (501, ''NOT_IMPLEMENTED''), (502, ''BAD_GATEWAY''),
     (503, ''SERVICE_UNAVAILABLE''), (504, ''GATEWAY_TIMEOUT''), (505, ''HTTP_VERSION_NOT_SUPPORTED'')]"

record http_response =
  hs_status :: int
  hs_body_type :: http_body_type
  hs_body :: string
  hs_content_type :: string
  hs_connection :: string

definition mk_response :: "int \<Rightarrow> http_body_type \<Rightarrow> string \<Rightarrow> string \<Rightarrow> bool \<Rightarrow> http_response result" where
  "mk_response status bt ext body alive = bind_r (um_at ext mime_types) (\<lambda>ct.
     Inr \<lparr>hs_status = status, hs_body_type = bt, hs_body = body, hs_content_type = ct,
       hs_connection = (if alive then ''keep-alive'' else ''close'')\<rparr>)"

text \<open>The text of the status line and the headers, without their end; \<open>date\<close> is the formatted time.\<close>

definition hs_head :: "string \<Rightarrow> http_response \<Rightarrow> string result" where
  "hs_head date r = bind_r (um_at (hs_status r) http_status) (\<lambda>reason.
     Inr (http_version @ '' '' @ int_str (hs_status r) @ '' '' @ reason @ crlf @ ''Date: '' @ date @ crlf @
       ''Content-Type: '' @ hs_content_type r @ crlf @ ''Connection: '' @ hs_connection r @ crlf @ ''Content-Length: ''))"

text \<open>\<open>file_size\<close> throws if there is no such file.\<close>

definition hs_to_string :: "string \<Rightarrow> (string \<Rightarrow> nat result) \<Rightarrow> http_response \<Rightarrow> string result" where
  "hs_to_string date file_size r = bind_r (hs_head date r) (\<lambda>head.
     case hs_body_type r of
       HTTP_FILE \<Rightarrow> bind_r (file_size (hs_body r)) (\<lambda>n. Inr (head @ nat_str n @ crlf @ crlf))
     | HTTP_QUERY \<Rightarrow> Inr (head @ nat_str (length (hs_body r)) @ crlf @ crlf @ hs_body r)
     | HTTP_UNDEFINED \<Rightarrow> Inr (head @ nat_str 0 @ crlf @ crlf))"

text \<open>The second \<open>write_all\<close> of os.cpp: \<open>sendfile\<close> from the file with the contents \<open>F\<close> until \<open>n\<close> bytes
  are through. Unlike the first one it throws when a signal interrupts the call, and it closes the
  source.\<close>

fun write_all_file :: "u8 list \<Rightarrow> nat \<Rightarrow> nat \<Rightarrow> sysret list \<Rightarrow> u8 list \<Rightarrow> nat io_result option" where
  "write_all_file F off 0 rs ch = Some (Inr off, rs, ch)"
| "write_all_file F off (Suc n) [] ch = None"
| "write_all_file F off (Suc n) (Sys_err e # rs) ch =
     (if e \<noteq> EAGAIN then Some (Inl (System_error e), rs, ch) else write_all_file F off (Suc n) rs ch)"
| "write_all_file F off (Suc n) (Sys_ok k # rs) ch =
     (let m = min k (min (Suc n) (length F - off))
      in write_all_file F (off + m) (Suc n - m) rs (ch @ take m (drop off F)))"

definition char_bytes :: "string \<Rightarrow> u8 list" where
  "char_bytes s = map (\<lambda>c. of_char c) s"

definition send_response ::
  "string \<Rightarrow> (string \<Rightarrow> nat result) \<Rightarrow> (string \<Rightarrow> u8 list) \<Rightarrow> http_response \<Rightarrow> sysret list \<Rightarrow> u8 list \<Rightarrow> nat io_result option" where
  "send_response date file_size contents r rs ch = (case hs_to_string date file_size r of
       Inl e \<Rightarrow> Some (Inl e, rs, ch)
     | Inr data \<Rightarrow>
         (case write_all (char_bytes data) 0 rs ch of
            None \<Rightarrow> None
          | Some (Inl e, io) \<Rightarrow> Some (Inl e, io)
          | Some (Inr n, rs, ch) \<Rightarrow>
              (if hs_body_type r = HTTP_FILE
               then (case file_size (hs_body r) of
                       Inl e \<Rightarrow> Some (Inl e, rs, ch)
                     | Inr fsz \<Rightarrow> write_all_file (contents (hs_body r)) 0 fsz rs ch)
               else Some (Inr n, rs, ch))))"

section \<open>The master's response\<close>

text \<open>Appending to a path as \<open>std::experimental::filesystem\<close> does it, and the extension of a path.\<close>

definition path_append :: "string \<Rightarrow> string \<Rightarrow> string" where
  "path_append p q =
     p @ (if p \<noteq> '''' \<and> last p \<noteq> CHR ''/'' \<and> q \<noteq> '''' \<and> hd q \<noteq> CHR ''/'' then ''/'' else '''') @ q"

definition path_extension :: "string \<Rightarrow> string" where
  "path_extension p =
     (let name = rev (takeWhile (\<lambda>c. c \<noteq> CHR ''/'') (rev p)); ext = rev (takeWhile (\<lambda>c. c \<noteq> CHR ''.'') (rev name))
      in if CHR ''.'' \<in> set name \<and> name \<noteq> ''.'' \<and> name \<noteq> ''..'' then CHR ''.'' # ext else '''')"

text \<open>The splitting of a URL, the regular expression for the report of the cluster, the report, and
  the directory of the web pages.\<close>

record web =
  w_extract :: "string \<Rightarrow> string \<times> string"
  w_cluster :: "string \<Rightarrow> bool"
  w_report :: string
  w_dir :: string
  w_regular :: "string \<Rightarrow> bool"

text \<open>\<open>query.substr(query.find("=") + 1)\<close>: without an equals sign the position is \<open>npos\<close>, and the sum 0.\<close>

definition after_equals :: "string \<Rightarrow> string" where
  "after_equals q = (if CHR ''='' \<in> set q then tl (dropWhile (\<lambda>c. c \<noteq> CHR ''='') q) else q)"

definition agent_to_json :: "web \<Rightarrow> string \<Rightarrow> string" where
  "agent_to_json W query = after_equals query @ ''('' @ w_report W @ '')''"

definition make_response :: "web \<Rightarrow> http_request \<Rightarrow> http_response result" where
  "make_response W r = (case w_extract W (hr_url r) of (query, path) \<Rightarrow>
     let not_found = mk_response 404 HTTP_UNDEFINED '''' '''' False in
     (case hr_body_type (w_extract W) r of
        HTTP_QUERY \<Rightarrow>
          if w_cluster W (hr_url r)
          then mk_response 200 HTTP_QUERY ''.json'' (agent_to_json W query) (hr_keep_alive r)
          else not_found
      | HTTP_FILE \<Rightarrow>
          let p = path_append (w_dir W) (if path = ''/'' then ''index.html'' else path) in
          if w_regular W p
          then mk_response 200 HTTP_FILE (path_extension p) p (hr_keep_alive r)
          else not_found
      | HTTP_UNDEFINED \<Rightarrow> not_found))"

section \<open>What goes over the connection\<close>

lemma write_all_complete:
  assumes "write_all B 0 rs ch = Some (Inr n, rs', ch')"
  shows "n = length B \<and> ch' = ch @ B"
  using dev_flush_prefix [of B 0 rs ch "Inr n" rs' ch'] assms by (auto simp: write_all_flush)

lemma write_all_file_prefix:
  "write_all_file F off n rs ch = Some (Inr m, rs', ch') \<Longrightarrow> off + n = length F \<Longrightarrow>
     m = length F \<and> ch' = ch @ drop off F"
proof (induction F off n rs ch rule: write_all_file.induct)
  case (4 F off n k rs ch)
  define i where "i = min k (min (Suc n) (length F - off))"
  have i: "i \<le> Suc n" by (simp add: i_def)
  have "write_all_file F (off + i) (Suc n - i) rs (ch @ take i (drop off F)) = Some (Inr m, rs', ch')"
    using "4.prems"(1) by (simp add: i_def Let_def)
  from "4.IH" [OF i_def this] "4.prems"(2) i
  have "m = length F" "ch' = (ch @ take i (drop off F)) @ drop (off + i) F" by auto
  then show ?case by (metis append.assoc append_take_drop_id drop_drop add.commute)
qed (auto split: if_splits)

text \<open>The bytes that follow the headers.\<close>

definition content :: "(string \<Rightarrow> u8 list) \<Rightarrow> http_response \<Rightarrow> u8 list" where
  "content contents r = (case hs_body_type r of
       HTTP_FILE \<Rightarrow> contents (hs_body r) | HTTP_QUERY \<Rightarrow> char_bytes (hs_body r) | HTTP_UNDEFINED \<Rightarrow> [])"

lemma char_bytes_simps [simp]:
  "char_bytes [] = []" "char_bytes (c # s) = of_char c # char_bytes s"
  "char_bytes (a @ b) = char_bytes a @ char_bytes b"
  by (simp_all add: char_bytes_def)

lemma length_char_bytes [simp]: "length (char_bytes s) = length s"
  by (simp add: char_bytes_def)

text \<open>C39: a response that \<open>send_response\<close> has sent, in whatever portions the kernel took it, is the
  status line and the headers, ending in a length and an empty line, and behind them exactly as many
  bytes as the length says: those of the file, if it is not changed meanwhile, the report, or none. The
  value that is returned is the number of bytes of the file alone if there is one.\<close>

theorem response_framed:
  assumes "send_response date file_size contents r rs ch = Some (Inr n, rs', ch')"
    and "\<And>p k. file_size p = Inr k \<Longrightarrow> k = length (contents p)"
  shows "\<exists>head. hs_head date r = Inr head \<and>
    ch' = ch @ char_bytes (head @ nat_str (length (content contents r)) @ crlf @ crlf) @ content contents r \<and>
    n = (if hs_body_type r = HTTP_FILE then length (content contents r) else length ch' - length ch)"
proof -
  obtain data where d: "hs_to_string date file_size r = Inr data"
    using assms(1) by (auto simp: send_response_def split: sum.splits)
  then obtain head where h: "hs_head date r = Inr head" by (auto simp: hs_to_string_def)
  obtain k rs1 where w: "write_all (char_bytes data) 0 rs ch = Some (Inr k, rs1, ch @ char_bytes data)" "k = length data"
    using assms(1) d write_all_complete
    by (fastforce simp: send_response_def split: option.splits sum.splits)
  show ?thesis
  proof (cases "hs_body_type r = HTTP_FILE")
    case True
    then obtain m where m: "file_size (hs_body r) = Inr m" "data = head @ nat_str m @ crlf @ crlf"
      using d h by (auto simp: hs_to_string_def)
    have "write_all_file (contents (hs_body r)) 0 m rs1 (ch @ char_bytes data) = Some (Inr n, rs', ch')"
      using assms(1) d w True m(1) by (simp add: send_response_def)
    from write_all_file_prefix [OF this] assms(2) [OF m(1)] show ?thesis
      using h True m(2) by (simp add: content_def)
  next
    case False
    then have "n = length ch' - length ch" "ch' = ch @ char_bytes data"
      using assms(1) d w by (auto simp: send_response_def)
    moreover have "char_bytes data =
        char_bytes (head @ nat_str (length (content contents r)) @ crlf @ crlf) @ content contents r"
      using d h False by (cases "hs_body_type r") (auto simp: hs_to_string_def content_def)
    ultimately show ?thesis using h False by (intro exI [of _ head]) simp
  qed
qed

definition demo_response :: http_response where
  "demo_response = \<lparr>hs_status = 200, hs_body_type = HTTP_FILE, hs_body = ''a.c'', hs_content_type = ''text/c'',
     hs_connection = ''close''\<rparr>"

lemma response_framed_witness:
  "\<exists>head ch'. send_response ''D'' (\<lambda>p. Inr 3) (\<lambda>p. [7, 8, 9]) demo_response
     [Sys_ok 50, Sys_ok 2, Sys_ok 500, Sys_ok 2, Sys_ok 2] [] = Some (Inr 3, [], head @ [7, 8, 9])"
proof -
  have "\<exists>ch'. send_response ''D'' (\<lambda>p. Inr 3) (\<lambda>p. [7, 8, 9]) demo_response
      [Sys_ok 50, Sys_ok 2, Sys_ok 500, Sys_ok 2, Sys_ok 2] [] = Some (Inr 3, [], ch')"
    by (rule exI, code_simp)
  then obtain ch' where s: "send_response ''D'' (\<lambda>p. Inr 3) (\<lambda>p. [7, 8, 9]) demo_response
      [Sys_ok 50, Sys_ok 2, Sys_ok 500, Sys_ok 2, Sys_ok 2] [] = Some (Inr 3, [], ch')" by blast
  have "content (\<lambda>p. [7, 8, 9]) demo_response = [7, 8, 9]" by (simp add: content_def demo_response_def)
  with response_framed [OF s] obtain head where "ch' = head @ [7, 8, 9]" by auto
  with s show ?thesis by blast
qed

text \<open>A file whose extension is not in the table is an exception that the handler of the connection does
  not catch (it expects \<open>std::system_error\<close>).\<close>

lemma unknown_extension_throws:
  assumes "w_extract W (hr_url r) = ('''', ''/logo.gif'')" "w_regular W (path_append (w_dir W) ''/logo.gif'')"
  shows "make_response W r = Inl Out_of_range"
proof -
  have "takeWhile (\<lambda>c. c \<noteq> CHR ''/'') (rev (path_append (w_dir W) ''/logo.gif'')) = rev ''logo.gif''"
    by (simp add: path_append_def)
  then have "path_extension (path_append (w_dir W) ''/logo.gif'') = ''.gif''"
    by (simp add: path_extension_def)
  with assms show ?thesis
    by (simp add: make_response_def hr_body_type_def mk_response_def um_at_def mime_types_def)
qed

text \<open>The path of a request is appended as it is: one that climbs out of the directory is served.\<close>

lemma serves_outside_directory:
  assumes "w_dir W = ''/web''" "w_extract W (hr_url r) = ('''', ''/../etc/shadow.txt'')"
    "w_regular W ''/web/../etc/shadow.txt''"
  shows "\<exists>p. make_response W r = Inr p \<and> hs_body_type p = HTTP_FILE \<and> hs_body p = ''/web/../etc/shadow.txt''"
  using assms
  by (simp add: make_response_def hr_body_type_def mk_response_def um_at_def mime_types_def path_append_def
      path_extension_def)

end
