(* ===== verification/Csv.thy ===== *)
theory Csv
  imports Prelude
begin

text \<open>
  Reading of CSV files (csv/csv.cpp, csv/csv.hpp and \<open>read_line\<close> of utility/ios.hpp): lines that end
  in a newline, a carriage return or both, the table of their cells, and the accessors of \<open>CsvFrame\<close>.

  A file is its text. A string that has been moved from has an unspecified value, the function \<open>mv\<close> of
  its old one; the code takes it to be empty.
\<close>

section \<open>Lines\<close>

abbreviation newline :: char where "newline \<equiv> CHR 0x0A"
abbreviation carriage_return :: char where "carriage_return \<equiv> CHR 0x0D"

text \<open>The line, the rest of the text, and whether the stream is still good.\<close>

fun read_line :: "string \<Rightarrow> string \<Rightarrow> string \<times> string \<times> bool" where
  "read_line line [] = (line, [], line \<noteq> [])"
| "read_line line (c # cs) =
     (if c = newline then (line, cs, True)
      else if c = carriage_return
      then (line, (case cs of [] \<Rightarrow> [] | d # ds \<Rightarrow> if d = newline then ds else cs), True)
      else read_line (line @ [c]) cs)"

lemma read_line_shorter: "read_line line s = (l, rest, True) \<Longrightarrow> line = [] \<Longrightarrow> length rest < length s"
proof -
  have "read_line line s = (l, rest, True) \<Longrightarrow> length rest \<le> length s \<and> (line = [] \<longrightarrow> length rest < length s)" for line
    by (induction line s rule: read_line.induct)
      (auto split: if_splits list.splits simp: less_Suc_eq_le intro: le_SucI)
  then show "read_line line s = (l, rest, True) \<Longrightarrow> line = [] \<Longrightarrow> length rest < length s" by blast
qed

section \<open>The table\<close>

text \<open>The cells of a line; \<open>token\<close> outlives the line.\<close>

fun csv_cells :: "(string \<Rightarrow> string) \<Rightarrow> string \<Rightarrow> string \<Rightarrow> string \<Rightarrow> string list \<times> string" where
  "csv_cells mv dels token [] = ([token], mv token)"
| "csv_cells mv dels token (c # cs) =
     (if c \<in> set dels
      then (case csv_cells mv dels (mv token) cs of (row, token') \<Rightarrow> (token # row, token'))
      else csv_cells mv dels (token @ [c]) cs)"

type_synonym csv_table = "string list list"

function read_rows ::
  "(string \<Rightarrow> string) \<Rightarrow> string \<Rightarrow> string \<Rightarrow> string \<Rightarrow> nat option \<Rightarrow> csv_table \<Rightarrow> csv_table result" where
  "read_rows mv dels s token cols table = (case read_line '''' s of (line, rest, ok) \<Rightarrow>
     if \<not> ok then Inr table
     else if line = '''' then read_rows mv dels rest token cols table
     else (case csv_cells mv dels token line of (row, token) \<Rightarrow>
       (case cols of
          None \<Rightarrow> read_rows mv dels rest token (Some (length row)) (table @ [row])
        | Some n \<Rightarrow>
            if n \<noteq> length row then Inl (Runtime_error ''Mismatched column size in line'')
            else read_rows mv dels rest token cols (table @ [row]))))"
  by pat_completeness auto
termination
  by (relation "measure (\<lambda>(mv, dels, s, token, cols, table). length s)") (auto dest: read_line_shorter [OF sym refl])

declare read_rows.simps [simp del]

text \<open>\<open>None\<close> is a file that cannot be opened.\<close>

definition read_csv :: "(string \<Rightarrow> string) \<Rightarrow> string option \<Rightarrow> string \<Rightarrow> csv_table result" where
  "read_csv mv file dels = (case file of
       None \<Rightarrow> Inl (Runtime_error ''Failed to open'')
     | Some s \<Rightarrow> read_rows mv dels s '''' None [])"

definition csv_size :: "csv_table \<Rightarrow> nat \<times> nat" where
  "csv_size t = (case t of [] \<Rightarrow> (0, 0) | r # _ \<Rightarrow> (length t, length r))"

definition csv_num_cols :: "csv_table \<Rightarrow> nat" where
  "csv_num_cols t = snd (csv_size t)"

definition csv_num_rows :: "csv_table \<Rightarrow> nat" where
  "csv_num_rows t = fst (csv_size t)"

definition csv_row :: "csv_table \<Rightarrow> nat \<Rightarrow> string list result" where
  "csv_row t r = (if csv_num_rows t \<le> r then Inr [] else slot t (int r))"

text \<open>\<open>operator()\<close> does not check its arguments.\<close>

definition csv_at :: "csv_table \<Rightarrow> nat \<Rightarrow> nat \<Rightarrow> string result" where
  "csv_at t r c = bind_r (slot t (int r)) (\<lambda>row. slot row (int c))"

definition csv_col :: "csv_table \<Rightarrow> nat \<Rightarrow> string list result" where
  "csv_col t c =
     (if csv_num_cols t \<le> c then Inr []
      else fold_r (\<lambda>i strs. bind_r (csv_at t i c) (\<lambda>x. Inr (strs @ [x]))) [0..<csv_num_rows t] [])"

section \<open>Tables are rectangular\<close>

definition rectangular :: "csv_table \<Rightarrow> bool" where
  "rectangular t \<longleftrightarrow> (\<forall>r \<in> set t. length r = csv_num_cols t \<and> r \<noteq> [])"

lemma csv_cells_nonempty: "fst (csv_cells mv dels token cs) \<noteq> []"
  by (induction mv dels token cs rule: csv_cells.induct) (auto split: prod.splits)

lemma csv_num_cols_simps [simp]: "csv_num_cols [] = 0" "csv_num_cols (r # t) = length r"
  "csv_num_rows t = length t"
  by (simp_all add: csv_num_cols_def csv_num_rows_def csv_size_def split: list.splits)

text \<open>One round of the loop.\<close>

lemma read_rows_end: "read_line '''' s = (line, rest, False) \<Longrightarrow> read_rows mv dels s token cols table = Inr table"
  by (simp add: read_rows.simps [of mv dels s])

lemma read_rows_empty:
  "read_line '''' s = ('''', rest, True) \<Longrightarrow>
     read_rows mv dels s token cols table = read_rows mv dels rest token cols table"
  by (simp add: read_rows.simps [of mv dels s])

lemma read_rows_row:
  "read_line '''' s = (line, rest, True) \<Longrightarrow> line \<noteq> '''' \<Longrightarrow> csv_cells mv dels token line = (row, token') \<Longrightarrow>
     read_rows mv dels s token cols table =
       (if cols = None \<or> cols = Some (length row)
        then read_rows mv dels rest token' (Some (length row)) (table @ [row])
        else Inl (Runtime_error ''Mismatched column size in line''))"
  by (auto simp: read_rows.simps [of mv dels s] split: option.splits)

lemma read_rows_rectangular:
  assumes "read_rows mv dels s token cols table = Inr t" "rectangular table"
    and "cols = (case table of [] \<Rightarrow> None | r # _ \<Rightarrow> Some (length r))"
  shows "rectangular t"
  using assms
proof (induction "length s" arbitrary: s token cols table rule: less_induct)
  case less
  obtain line rest ok where l: "read_line '''' s = (line, rest, ok)" by (cases "read_line '''' s") auto
  obtain row token' where row: "csv_cells mv dels token line = (row, token')"
    by (cases "csv_cells mv dels token line") auto
  have ne: "row \<noteq> []" using csv_cells_nonempty [of mv dels token line] row by simp
  consider "\<not> ok" | "ok" "line = ''''" | "ok" "line \<noteq> ''''" by blast
  then show ?case
  proof cases
    case 1
    then show ?thesis using less.prems l read_rows_end by auto
  next
    case 2
    then have len: "length rest < length s" and rec: "read_rows mv dels rest token cols table = Inr t"
      using less.prems(1) l read_line_shorter [OF _ refl] read_rows_empty by auto
    show ?thesis by (rule less.hyps [OF len rec less.prems(2,3)])
  next
    case 3
    then have cols: "cols = None \<or> cols = Some (length row)"
      and rec: "read_rows mv dels rest token' (Some (length row)) (table @ [row]) = Inr t"
      using less.prems(1) l read_rows_row [OF _ _ row] by (auto split: if_splits)
    have "rectangular (table @ [row])"
      using less.prems(2,3) cols ne by (cases table) (auto simp: rectangular_def)
    moreover have "Some (length row) = (case table @ [row] of [] \<Rightarrow> None | r # _ \<Rightarrow> Some (length r))"
      using less.prems(3) cols by (cases table) auto
    ultimately show ?thesis using less.hyps [OF _ rec] l 3 read_line_shorter [OF _ refl] by auto
  qed
qed

text \<open>A table that \<open>read_csv\<close> returns has rows of one width, with a cell at least, whatever the
  file holds and whatever a moved string is left with; so every row and column that a \<open>CsvFrame\<close>
  hands out is complete, no accessor reads outside of the table, and an index that is too large gives
  an empty row or column.\<close>

theorem csv_frame_rectangular:
  assumes "read_csv mv file dels = Inr t"
  shows "(\<forall>r < csv_num_rows t. \<forall>c < csv_num_cols t. csv_at t r c = Inr (t ! r ! c)) \<and>
    (\<forall>r. csv_row t r = Inr (if r < csv_num_rows t then t ! r else [])) \<and>
    (\<forall>c. csv_col t c = Inr (if c < csv_num_cols t then map (\<lambda>r. r ! c) t else []))"
proof -
  obtain s where "read_rows mv dels s '''' None [] = Inr t"
    using assms by (auto simp: read_csv_def split: option.splits)
  then have "rectangular t" by (rule read_rows_rectangular) (simp_all add: rectangular_def)
  then have len: "length (t ! r) = csv_num_cols t" if "r < length t" for r
    using that by (auto simp: rectangular_def)
  then have at: "csv_at t r c = Inr (t ! r ! c)" if "r < length t" "c < csv_num_cols t" for r c
    using that by (simp add: csv_at_def)
  have fold: "fold_r (\<lambda>i strs. bind_r (csv_at t i c) (\<lambda>x. Inr (strs @ [x]))) is acc = Inr (acc @ map (\<lambda>i. t ! i ! c) is)"
    if "c < csv_num_cols t" "\<forall>i \<in> set is. i < length t" for c "is" acc
    using that(2) by (induction "is" arbitrary: acc) (simp_all add: at [OF _ that(1)])
  have "map (\<lambda>i. t ! i ! c) [0..<length t] = map (\<lambda>r. r ! c) t" for c
    by (rule nth_equalityI) simp_all
  then have col: "csv_col t c = Inr (map (\<lambda>r. r ! c) t)" if "c < csv_num_cols t" for c
    using that fold [OF that, of "[0..<length t]" "[]"] by (simp add: csv_col_def)
  have row: "csv_row t r = Inr (if r < length t then t ! r else [])" for r
    by (simp add: csv_row_def)
  have "csv_col t c = Inr []" if "\<not> c < csv_num_cols t" for c
    using that by (simp add: csv_col_def)
  with at col row show ?thesis by simp
qed

text \<open>The second line has a cell too many for the first, the third is empty.\<close>

lemma csv_frame_rectangular_witness:
  "\<exists>t. read_csv (\<lambda>_. '''') (Some (''a,b'' @ [newline, newline] @ ''c,'' @ [carriage_return, newline])) '','' = Inr t \<and>
    csv_col t 1 = Inr [''b'', ''''] \<and> csv_at t 1 0 = Inr ''c'' \<and> csv_row t 2 = Inr []"
proof -
  have r: "read_csv (\<lambda>_. '''') (Some (''a,b'' @ [newline, newline] @ ''c,'' @ [carriage_return, newline])) '','' =
      Inr [[''a'', ''b''], [''c'', '''']]"
    by (simp add: read_csv_def read_rows.simps)
  from csv_frame_rectangular [OF r] r show ?thesis by simp
qed

section \<open>Reading what was written\<close>

fun csv_line :: "char \<Rightarrow> string list \<Rightarrow> string" where
  "csv_line d [] = ''''"
| "csv_line d [x] = x"
| "csv_line d (x # y # ys) = x @ d # csv_line d (y # ys)"

definition csv_text :: "char \<Rightarrow> (string list \<times> string) list \<Rightarrow> string" where
  "csv_text d rows = concat (map (\<lambda>(r, e). csv_line d r @ e) rows)"

definition line_ends :: "string list" where
  "line_ends = [[newline], [carriage_return], [carriage_return, newline]]"

abbreviation ends_line :: "char \<Rightarrow> bool" where
  "ends_line c \<equiv> c = newline \<or> c = carriage_return"

lemma read_line_text:
  "\<forall>c \<in> set cs. \<not> ends_line c \<Longrightarrow> e \<in> set line_ends \<Longrightarrow> rest = [] \<or> hd rest \<noteq> newline \<Longrightarrow>
     read_line line (cs @ e @ rest) = (line @ cs, rest, True)"
  by (induction cs arbitrary: line) (auto simp: line_ends_def split: list.splits)

lemma csv_cells_plain:
  "set x \<inter> set dels = {} \<Longrightarrow> csv_cells mv dels token x = ([token @ x], mv (token @ x))"
  by (induction x arbitrary: token) auto

lemma csv_cells_delimiter:
  "set x \<inter> set dels = {} \<Longrightarrow> d \<in> set dels \<Longrightarrow> csv_cells mv dels token (x @ d # y) =
     (let (row, token') = csv_cells mv dels (mv (token @ x)) y in ((token @ x) # row, token'))"
  by (induction x arbitrary: token) (auto split: prod.splits)

lemma csv_cells_line:
  "\<forall>x \<in> set row. set x \<inter> set dels = {} \<Longrightarrow> row \<noteq> [] \<Longrightarrow> d \<in> set dels \<Longrightarrow>
     csv_cells (\<lambda>_. '''') dels '''' (csv_line d row) = (row, '''')"
  by (induction d row rule: csv_line.induct) (auto simp: csv_cells_plain csv_cells_delimiter)

definition csv_printable :: "char \<Rightarrow> string \<Rightarrow> string list \<Rightarrow> bool" where
  "csv_printable d dels row \<longleftrightarrow> row \<noteq> [] \<and> row \<noteq> [''''] \<and>
     (\<forall>x \<in> set row. set x \<inter> set dels = {} \<and> (\<forall>c \<in> set x. \<not> ends_line c))"

lemma csv_line_chars: "set (csv_line d row) \<subseteq> insert d (\<Union>x \<in> set row. set x)"
  by (induction d row rule: csv_line.induct) auto

lemma csv_line_printable:
  assumes "csv_printable d dels row" "\<not> ends_line d"
  shows "csv_line d row \<noteq> '''' \<and> (\<forall>c \<in> set (csv_line d row). \<not> ends_line c)"
proof -
  have "csv_line d row \<noteq> ''''"
    using assms(1) by (cases "(d, row)" rule: csv_line.cases) (auto simp: csv_printable_def)
  then show ?thesis using csv_line_chars [of d row] assms by (fastforce simp: csv_printable_def)
qed

lemma hd_csv_text:
  assumes "\<forall>(r, e) \<in> set rows. csv_printable d dels r" "\<not> ends_line d"
  shows "csv_text d rows = '''' \<or> hd (csv_text d rows) \<noteq> newline"
proof (cases rows)
  case (Cons x xs)
  then obtain r e where x: "x = (r, e)" "csv_printable d dels r" using assms(1) by (cases x) auto
  from csv_line_printable [OF this(2) assms(2)] have "csv_line d r \<noteq> ''''" "hd (csv_line d r) \<noteq> newline"
    by (simp_all add: hd_in_set)
  then show ?thesis by (simp add: csv_text_def Cons x(1))
qed (simp add: csv_text_def)

lemma read_rows_text:
  assumes "\<forall>(r, e) \<in> set rows. csv_printable d dels r \<and> length r = n \<and> e \<in> set line_ends"
    and "d \<in> set dels" "\<not> ends_line d" "cols = None \<or> cols = Some n"
  shows "read_rows (\<lambda>_. '''') dels (csv_text d rows) '''' cols table = Inr (table @ map fst rows)"
  using assms(1,4)
proof (induction rows arbitrary: cols table)
  case Nil
  show ?case by (simp add: csv_text_def read_rows_end)
next
  case (Cons x rows)
  obtain r e where x: "x = (r, e)" by (cases x)
  then have r: "csv_printable d dels r" "length r = n" "e \<in> set line_ends" using Cons.prems(1) by auto
  have l: "read_line '''' (csv_text d (x # rows)) = (csv_line d r, csv_text d rows, True)"
    using read_line_text [of "csv_line d r" e "csv_text d rows" "''''"] csv_line_printable [OF r(1) assms(3)]
      hd_csv_text [of rows d dels] Cons.prems(1) assms(3) r(3)
    by (auto simp: csv_text_def x)
  have cells: "csv_cells (\<lambda>_. '''') dels '''' (csv_line d r) = (r, '''')"
    using r(1) assms(2) by (intro csv_cells_line) (auto simp: csv_printable_def)
  have "read_rows (\<lambda>_. '''') dels (csv_text d (x # rows)) '''' cols table =
      read_rows (\<lambda>_. '''') dels (csv_text d rows) '''' (Some n) (table @ [r])"
    using read_rows_row [OF l _ cells] csv_line_printable [OF r(1) assms(3)] Cons.prems(2) r(2) by auto
  then show ?case using Cons.IH [of "Some n" "table @ [r]"] Cons.prems(1) by (simp add: x)
qed

text \<open>A rectangular table of cells without delimiters and line ends is read as it was written, with any
  of the delimiters between the cells and any line end behind each row, provided that a string that has
  been moved from is empty.\<close>

theorem read_csv_text:
  assumes "\<forall>(r, e) \<in> set rows. csv_printable d dels r \<and> length r = n \<and> e \<in> set line_ends"
    and "d \<in> set dels" "\<not> ends_line d"
  shows "read_csv (\<lambda>_. '''') (Some (csv_text d rows)) dels = Inr (map fst rows)"
  using read_rows_text [OF assms, of None "[]"] by (simp add: read_csv_def)

text \<open>With another value left behind by the move, the second cell of a line is wrong.\<close>

lemma moved_token_matters: "read_csv (\<lambda>x. x) (Some ''a,b'') '','' = Inr [[''a'', ''ab'']]"
  by (simp add: read_csv_def read_rows.simps)

section \<open>Special numbers\<close>

datatype float_class = Positive_infinity | Negative_infinity | Quiet_nan | Zero_value

definition to_nan_or_inf :: "string \<Rightarrow> float_class" where
  "to_nan_or_inf token =
     (if length token = 3 \<or> length token = 4 then
        let neg = (hd token = CHR ''-''); pos = (hd token = CHR ''+'');
            off = (if (neg \<or> pos) \<and> length token = 4 then 1 else 0);
            str = take 3 (drop off token)
        in if str \<in> {''inf'', ''Inf'', ''INF''} then (if neg then Positive_infinity else Negative_infinity)
           else if str \<in> {''nan'', ''Nan'', ''NaN'', ''NAN''} then Quiet_nan
           else Zero_value
      else Zero_value)"

lemma infinities_swapped:
  "to_nan_or_inf ''-inf'' = Positive_infinity" "to_nan_or_inf ''+inf'' = Negative_infinity"
  "to_nan_or_inf ''inf'' = Negative_infinity"
  by (simp_all add: to_nan_or_inf_def)

end
