(* ===== verification/Uuid.thy ===== *)
theory Uuid
  imports Prelude "HOL-Library.List_Lexorder"
begin

text \<open>
  Universally unique identifiers (struct \<open>UUID\<close>, utility/uuid.hpp): 16 bytes, made of two random
  numbers with the bits of the version and the variant set, compared by \<open>memcmp\<close> and printed in the
  canonical format.
\<close>

unbundle bit_operations_syntax

datatype uuid = UUID (uuid_data: "u8 list")

definition uuid_size :: nat where "uuid_size = 16"

definition uuid_ok :: "uuid \<Rightarrow> bool" where
  "uuid_ok u \<longleftrightarrow> length (uuid_data u) = uuid_size"

text \<open>The loop of the constructor takes byte \<open>i mod 8\<close> of the first and then the second number.\<close>

definition uuid_byte :: "u64 \<Rightarrow> nat \<Rightarrow> u8" where
  "uuid_byte r i = ucast (drop_bit (i * 8) r AND 0xFF)"

definition uuid_create :: "u64 \<Rightarrow> u64 \<Rightarrow> uuid" where
  "uuid_create r1 r2 =
     (let d = map (uuid_byte r1) [0..<8] @ map (uuid_byte r2) [0..<8];
          d = d[8 := d ! 8 AND 0xBF]; d = d[8 := d ! 8 OR 0x80];
          d = d[6 := d ! 6 AND 0x4F]; d = d[6 := d ! 6 OR 0x40]
      in UUID d)"

definition is_nil :: "uuid \<Rightarrow> bool" where
  "is_nil u = list_all (\<lambda>b. b = 0) (uuid_data u)"

definition uuid_swap :: "uuid \<times> uuid \<Rightarrow> uuid \<times> uuid" where
  "uuid_swap = (\<lambda>(a, b). let tmp = a; a = b; b = tmp in (a, b))"

definition hash_value :: "uuid \<Rightarrow> u64" where
  "hash_value u = fold (\<lambda>b seed. seed XOR (ucast b + 0x9e3779b9 + push_bit 6 seed + drop_bit 2 seed)) (uuid_data u) 0"

section \<open>Comparison\<close>

text \<open>\<open>memcmp\<close> on arrays of the same length: the sign of the first difference.\<close>

fun memcmp :: "u8 list \<Rightarrow> u8 list \<Rightarrow> int" where
  "memcmp (a # as) (b # bs) = (if a = b then memcmp as bs else if a < b then - 1 else 1)"
| "memcmp as bs = 0"

definition uuid_eq :: "uuid \<Rightarrow> uuid \<Rightarrow> bool" where
  "uuid_eq a b \<longleftrightarrow> memcmp (uuid_data a) (uuid_data b) = 0"

definition uuid_lt :: "uuid \<Rightarrow> uuid \<Rightarrow> bool" where
  "uuid_lt a b \<longleftrightarrow> memcmp (uuid_data a) (uuid_data b) < 0"

definition uuid_ne :: "uuid \<Rightarrow> uuid \<Rightarrow> bool" where
  "uuid_ne a b \<longleftrightarrow> \<not> uuid_eq a b"

definition uuid_le :: "uuid \<Rightarrow> uuid \<Rightarrow> bool" where
  "uuid_le a b \<longleftrightarrow> \<not> uuid_lt b a"

definition uuid_ge :: "uuid \<Rightarrow> uuid \<Rightarrow> bool" where
  "uuid_ge a b \<longleftrightarrow> \<not> uuid_lt a b"

text \<open>\<open>operator >\<close> calls itself; \<open>None\<close> is that it does not return.\<close>

partial_function (option) uuid_gt :: "uuid \<Rightarrow> uuid \<Rightarrow> bool option" where
  "uuid_gt a b = uuid_gt a b"

lemma uuid_gt_diverges: "uuid_gt a b = None"
  using uuid_gt.raw_induct [where P = "\<lambda>_ _ _. False", of a b] by (cases "uuid_gt a b") blast+

text \<open>The order is the lexicographic one, so that identifiers are keys of ordered containers; the
  order of the library is the one of the code on arrays of the same length.\<close>

instantiation uuid :: linorder
begin

definition less_eq_uuid :: "uuid \<Rightarrow> uuid \<Rightarrow> bool" where
  "a \<le> b \<longleftrightarrow> uuid_data a \<le> uuid_data b"

definition less_uuid :: "uuid \<Rightarrow> uuid \<Rightarrow> bool" where
  "a < b \<longleftrightarrow> uuid_data a < uuid_data b"

instance
  by standard (auto simp: less_eq_uuid_def less_uuid_def uuid.expand)

end

lemma memcmp_lexord:
  "length as = length bs \<Longrightarrow> (memcmp as bs < 0 \<longleftrightarrow> as < bs) \<and> (memcmp as bs = 0 \<longleftrightarrow> as = bs)"
  by (induction as bs rule: memcmp.induct) auto

theorem uuid_order:
  assumes "uuid_ok a" "uuid_ok b"
  shows "uuid_lt a b \<longleftrightarrow> a < b" "uuid_le a b \<longleftrightarrow> a \<le> b" "uuid_ge a b \<longleftrightarrow> b \<le> a" "uuid_eq a b \<longleftrightarrow> a = b"
proof -
  show lt: "uuid_lt a b \<longleftrightarrow> a < b" and "uuid_eq a b \<longleftrightarrow> a = b"
    using memcmp_lexord [of "uuid_data a" "uuid_data b"] assms
    by (auto simp: uuid_lt_def uuid_eq_def less_uuid_def uuid_ok_def uuid.expand)
  have "uuid_lt b a \<longleftrightarrow> b < a"
    using memcmp_lexord [of "uuid_data b" "uuid_data a"] assms
    by (auto simp: uuid_lt_def less_uuid_def uuid_ok_def)
  with lt show "uuid_le a b \<longleftrightarrow> a \<le> b" "uuid_ge a b \<longleftrightarrow> b \<le> a"
    by (auto simp: uuid_le_def uuid_ge_def)
qed

section \<open>Text\<close>

definition hex_char :: "nat \<Rightarrow> char" where
  "hex_char i = (if i \<le> 9 then char_of (48 + i) else char_of (97 + (i - 10)))"

definition byte_hex :: "u8 \<Rightarrow> string" where
  "byte_hex b = [hex_char (unat (drop_bit 4 b AND 0x0F)), hex_char (unat (b AND 0x0F))]"

fun uuid_text_loop :: "nat \<Rightarrow> u8 list \<Rightarrow> string" where
  "uuid_text_loop i [] = ''''"
| "uuid_text_loop i (b # bs) =
     byte_hex b @ (if i = 3 \<or> i = 5 \<or> i = 7 \<or> i = 9 then ''-'' else '''') @ uuid_text_loop (i + 1) bs"

definition uuid_to_string :: "uuid \<Rightarrow> string" where
  "uuid_to_string u = uuid_text_loop 0 (uuid_data u)"

lemma of_hex_char: "i < 16 \<Longrightarrow> (of_char (hex_char i) :: nat) = (if i \<le> 9 then 48 + i else 87 + i)"
  by (auto simp: hex_char_def)

lemma hex_char_inj:
  assumes "i < 16" "j < 16" "hex_char i = hex_char j"
  shows "i = j"
proof -
  have "(if i \<le> 9 then 48 + i else 87 + i) = (if j \<le> 9 then 48 + j else 87 + j)"
    using of_hex_char [OF assms(1)] of_hex_char [OF assms(2)] assms(3) by metis
  then show ?thesis by (auto split: if_splits)
qed

lemma and_15: "n AND 15 = n mod (16 :: nat)"
  using take_bit_eq_mask [of 4 n] by (simp add: take_bit_eq_mod mask_eq_exp_minus_1)

lemma nibbles: "unat b div 16 < 16" "unat b mod 16 < 16" for b :: u8
proof -
  have "unat b < 16 * 16" using unsigned_less [of b] by simp
  then show "unat b div 16 < 16" by (simp add: less_mult_imp_div_less)
qed simp

lemma byte_hex_eq: "byte_hex b = [hex_char (unat b div 16), hex_char (unat b mod 16)]"
proof -
  have "unat (drop_bit 4 b AND 0x0F) = unat b div 16"
    using nibbles(1) [of b] by (simp add: unsigned_and_eq and_15 drop_bit_eq_div unat_div_distrib)
  moreover have "unat (b AND 0x0F) = unat b mod 16" by (simp add: unsigned_and_eq and_15)
  ultimately show ?thesis by (simp add: byte_hex_def)
qed

lemma byte_hex_inj: "byte_hex a = byte_hex b \<Longrightarrow> a = b"
proof -
  assume "byte_hex a = byte_hex b"
  then have "unat a div 16 = unat b div 16" "unat a mod 16 = unat b mod 16"
    using hex_char_inj [OF nibbles(1) nibbles(1)] hex_char_inj [OF nibbles(2) nibbles(2)]
    by (simp_all add: byte_hex_eq)
  then have "unat a = unat b" by (metis div_mult_mod_eq)
  then show "a = b" by (rule unsigned_word_eqI)
qed

lemma length_byte_hex [simp]: "length (byte_hex b) = 2"
  by (simp add: byte_hex_def)

lemma uuid_text_loop_inj: "length as = length bs \<Longrightarrow> uuid_text_loop i as = uuid_text_loop i bs \<Longrightarrow> as = bs"
proof (induction i as arbitrary: bs rule: uuid_text_loop.induct)
  case (2 i a as)
  then obtain b bs' where bs: "bs = b # bs'" by (cases bs) auto
  have "byte_hex a = byte_hex b \<and> uuid_text_loop (i + 1) as = uuid_text_loop (i + 1) bs'"
    using "2.prems"(2) by (auto simp: bs append_eq_append_conv split: if_splits)
  then show ?case using "2.IH" "2.prems"(1) byte_hex_inj by (auto simp: bs)
qed simp

text \<open>What the text of an identifier looks like: hexadecimal digits in groups of 8, 4, 4, 4 and 12.\<close>

definition is_hex :: "char \<Rightarrow> bool" where
  "is_hex c \<longleftrightarrow> c \<in> set ''0123456789abcdef''"

definition canonical :: "string \<Rightarrow> bool" where
  "canonical s \<longleftrightarrow> (\<exists>a b c d e. s = a @ ''-'' @ b @ ''-'' @ c @ ''-'' @ d @ ''-'' @ e \<and>
     map length [a, b, c, d, e] = [8, 4, 4, 4, 12] \<and> list_all is_hex (a @ b @ c @ d @ e))"

lemma is_hex_char: "i < 16 \<Longrightarrow> is_hex (hex_char i)"
proof -
  have "\<forall>i \<in> set [0..<16]. is_hex (hex_char i)" by code_simp
  then show "i < 16 \<Longrightarrow> is_hex (hex_char i)" by simp
qed

lemma byte_hex_is_hex: "c \<in> set (byte_hex b) \<Longrightarrow> is_hex c"
  using nibbles [of b] by (auto simp: byte_hex_eq is_hex_char)

text \<open>The bits of the version and the variant.\<close>

lemma version_nibble: "unat ((x AND 0x4F) OR 0x40 :: u8) div 16 = 4"
proof -
  have "\<forall>n \<in> set [0..<256]. unat ((word_of_nat n AND 0x4F) OR 0x40 :: u8) div 16 = 4" by code_simp
  moreover have "unat x \<in> set [0..<256]" "x = word_of_nat (unat x)" using unsigned_less [of x] by simp_all
  ultimately show ?thesis by metis
qed

lemma variant_nibble: "unat ((x AND 0xBF) OR 0x80 :: u8) div 16 \<in> {8, 9, 10, 11}"
proof -
  have "\<forall>n \<in> set [0..<256]. unat ((word_of_nat n AND 0xBF) OR 0x80 :: u8) div 16 \<in> {8, 9, 10, 11}" by code_simp
  moreover have "unat x \<in> set [0..<256]" "x = word_of_nat (unat x)" using unsigned_less [of x] by simp_all
  ultimately show ?thesis by metis
qed

lemma length_16: "length xs = 16 \<Longrightarrow> xs = map ((!) xs) [0, 1, 2, 3, 4, 5, 6, 7, 8, 9, 10, 11, 12, 13, 14, 15]"
proof -
  have "[0..<16] = [0, 1, 2, 3, 4, 5, 6, 7, 8, 9, 10, 11, 12, 13, 14, 15 :: nat]" by (simp add: upt_rec)
  then show "length xs = 16 \<Longrightarrow> xs = map ((!) xs) [0, 1, 2, 3, 4, 5, 6, 7, 8, 9, 10, 11, 12, 13, 14, 15]"
    using map_nth [of xs] by simp
qed

lemma uuid_text:
  assumes "length d = 16"
  shows "uuid_to_string (UUID d) = concat (map byte_hex (take 4 d)) @ ''-'' @ concat (map byte_hex (take 2 (drop 4 d))) @ ''-'' @
    concat (map byte_hex (take 2 (drop 6 d))) @ ''-'' @ concat (map byte_hex (take 2 (drop 8 d))) @ ''-'' @
    concat (map byte_hex (drop 10 d))"
  by (subst (1 2 3 4 5 6) length_16 [OF assms]) (simp add: uuid_to_string_def del: byte_hex_eq)

lemma length_hex [simp]: "length (concat (map byte_hex bs)) = 2 * length bs"
  by (induction bs) simp_all

lemma hex_is_hex: "list_all is_hex (concat (map byte_hex bs))"
  by (auto simp: list_all_iff byte_hex_is_hex)

lemma canonical_text:
  assumes "uuid_ok u"
  shows "canonical (uuid_to_string u)"
proof -
  obtain d where u: "u = UUID d" "length d = 16" using assms by (cases u) (auto simp: uuid_ok_def uuid_size_def)
  let ?h = "\<lambda>bs. concat (map byte_hex bs)"
  show ?thesis
    unfolding canonical_def u(1) uuid_text [OF u(2)]
    by (rule exI [of _ "?h (take 4 d)"], rule exI [of _ "?h (take 2 (drop 4 d))"],
        rule exI [of _ "?h (take 2 (drop 6 d))"], rule exI [of _ "?h (take 2 (drop 8 d))"],
        rule exI [of _ "?h (drop 10 d)"])
      (simp add: u(2) hex_is_hex)
qed

lemma hex_digits:
  "hex_char 4 = CHR ''4''" "hex_char 8 = CHR ''8''" "hex_char 9 = CHR ''9''" "hex_char 10 = CHR ''a''"
  "hex_char 11 = CHR ''b''"
  by code_simp+

lemma uuid_create_data:
  "\<exists>d x y. uuid_create r1 r2 = UUID d \<and> length d = 16 \<and> d ! 6 = (x AND 0x4F) OR 0x40 \<and> d ! 8 = (y AND 0xBF) OR 0x80"
  by (rule exI [of _ "uuid_data (uuid_create r1 r2)"], rule exI [of _ "uuid_byte r1 6"], rule exI [of _ "uuid_byte r2 0"])
    (simp add: uuid_create_def Let_def nth_append)

text \<open>A new identifier is one of version 4 of the standard variant, whatever the random numbers are:
  its text has the canonical form with the version and variant digits in their places.\<close>

theorem uuid_version_4:
  "uuid_ok (uuid_create r1 r2) \<and> canonical (uuid_to_string (uuid_create r1 r2)) \<and>
    uuid_to_string (uuid_create r1 r2) ! 14 = CHR ''4'' \<and>
    uuid_to_string (uuid_create r1 r2) ! 19 \<in> set ''89ab''"
proof -
  obtain d x y where d: "uuid_create r1 r2 = UUID d" "length d = 16" "d ! 6 = (x AND 0x4F) OR 0x40"
      "d ! 8 = (y AND 0xBF) OR 0x80"
    using uuid_create_data by blast
  have ok: "uuid_ok (UUID d)" by (simp add: uuid_ok_def uuid_size_def d(2))
  have g: "take 2 (drop 6 d) = [d ! 6, d ! 7]" "take 2 (drop 8 d) = [d ! 8, d ! 9]"
    using d(2) by (simp_all add: take_Suc_conv_app_nth numeral_2_eq_2)
  have t: "uuid_to_string (UUID d) ! 14 = hex_char (unat (d ! 6) div 16)"
    "uuid_to_string (UUID d) ! 19 = hex_char (unat (d ! 8) div 16)"
    unfolding uuid_text [OF d(2)] g by (simp_all add: nth_append d(2) byte_hex_eq)
  have "hex_char (unat (d ! 8) div 16) \<in> set ''89ab''"
    using variant_nibble [of y] hex_digits by (auto simp: d(4))
  moreover have "hex_char (unat (d ! 6) div 16) = CHR ''4''"
    unfolding d(3) version_nibble by (rule hex_digits)
  ultimately show ?thesis using ok canonical_text [OF ok] t by (simp add: d(1))
qed

text \<open>Two identifiers have the same text only if they are the same.\<close>

theorem uuid_text_injective:
  assumes "uuid_ok a" "uuid_ok b" "uuid_to_string a = uuid_to_string b"
  shows "a = b"
  using uuid_text_loop_inj [of "uuid_data a" "uuid_data b" 0] assms
  by (simp add: uuid_to_string_def uuid_ok_def uuid.expand)

end
