(* ===== verification/Channel.thy ===== *)
theory Channel
  imports Archive
begin

text \<open>
  Channels (kernel/manager.hpp and kernel/manager.cpp): the closures that \<open>insert_channel\<close> and
  \<open>insert_listener\<close> give to the reactor. The one of an input stream fills the buffer of the stream from the
  device and calls the handlers of the owner (of the master, an agent or an executor) with every message that
  is complete; the others write, accept connections and forward the output of remote programs.

  The theorem of this theory joins the device, the buffer, the packages and the archives: the handlers get
  the messages the peer has sent, in order, whatever the pieces they arrive in, and no complete message waits
  in the buffer.
\<close>

section \<open>What a reading consumes\<close>

text \<open>A reading moves the front of the buffer by the number it returns.\<close>

definition advances :: "nat \<Rightarrow> ibuf \<Rightarrow> ibuf \<Rightarrow> bool" where
  "advances n b b' \<longleftrightarrow> n \<le> i_avail b \<and> b' = b\<lparr>i_gptr := i_gptr b + n, i_fired := i_fired b'\<rparr>"

definition consumes :: "(ibuf \<Rightarrow> ('a, ibuf) reading) \<Rightarrow> bool" where
  "consumes f \<longleftrightarrow> (\<forall>b n x b'. f b = Inr (n, x, b') \<longrightarrow> advances n b b')"

lemma consumesD: "consumes f \<Longrightarrow> f b = Inr (n, x, b') \<Longrightarrow> advances n b b'"
  by (auto simp: consumes_def)

lemma advances_0 [simp]: "advances 0 b b"
  by (simp add: advances_def)

lemma advances_avail: "advances n b b' \<Longrightarrow> i_avail b' + n = i_avail b"
  by (auto simp: advances_def i_avail_def dest!: arg_cong [where f = "\<lambda>b. (i_egptr b, i_gptr b)" and x = b'])

lemma advances_trans:
  assumes "advances n a b" "advances m b c"
  shows "advances (n + m) a c"
proof -
  have b: "b = a\<lparr>i_gptr := i_gptr a + n, i_fired := i_fired b\<rparr>" and c: "c = b\<lparr>i_gptr := i_gptr b + m, i_fired := i_fired c\<rparr>"
    using assms by (simp_all add: advances_def)
  have "c = a\<lparr>i_gptr := i_gptr a + (n + m), i_fired := i_fired c\<rparr>"
    by (subst c, subst b, subst (2) b) (simp add: add.assoc)
  moreover have "m \<le> i_avail b" using assms(2) by (simp add: advances_def)
  ultimately show ?thesis
    using advances_avail [OF assms(1)] by (auto simp: advances_def)
qed

lemma consumes_nothing: "consumes (\<lambda>b. Inr (0, x, b))"
  by (simp add: consumes_def)

lemma consumes_error: "consumes (\<lambda>b. Inl e)"
  by (simp add: consumes_def)

lemma consumes_if: "(c \<Longrightarrow> consumes f) \<Longrightarrow> (\<not> c \<Longrightarrow> consumes g) \<Longrightarrow> consumes (\<lambda>b. if c then f b else g b)"
  by (cases c) simp_all

lemma consumes_bind: "(\<And>x. consumes (f x)) \<Longrightarrow> consumes (\<lambda>b. bind_r r (\<lambda>x. f x b))"
  by (fastforce simp: consumes_def)

lemma consumes_then: "consumes f \<Longrightarrow> (\<And>x. consumes (g x)) \<Longrightarrow> consumes (\<lambda>b. then_r (f b) g)"
  unfolding consumes_def then_r_def by (fastforce intro: advances_trans)

lemma consumes_map: "consumes f \<Longrightarrow> consumes (\<lambda>b. map_r g (f b))"
  by (fastforce simp: consumes_def map_r_def)

lemma i_read_advances:
  assumes "i_read cnt b = Inr (n, bs, b')"
  shows "advances (nat n) b b'"
  using assms by (auto simp: i_read_def Let_def advances_def min_def split: if_splits)

lemma consumes_num: "consumes (i_num w old)"
  by (auto simp: consumes_def i_num_def dest!: i_read_advances)

lemma consumes_block: "consumes (i_block w olds)"
  by (auto simp: consumes_def i_block_def dest!: i_read_advances)

lemmas consumes_intros = consumes_nothing consumes_error consumes_if consumes_bind consumes_then consumes_map
  consumes_num consumes_block

lemma consumes_size_tag: "consumes i_size_tag"
  unfolding i_size_tag_def [abs_def] by (intro consumes_intros)

lemma consumes_items: "(\<And>x. consumes (f x)) \<Longrightarrow> consumes (i_items f xs)"
  by (induction xs) (simp_all add: i_items.simps [abs_def] consumes_intros)

lemma consumes_entry: "(\<And>x. consumes (f x)) \<Longrightarrow> (\<And>x. consumes (g x)) \<Longrightarrow> consumes (i_entry f g e)"
  unfolding i_entry_def [abs_def] by (intro consumes_intros)

lemma consumes_emplace: "(\<And>x. consumes (f x)) \<Longrightarrow> consumes (i_emplace f ins mv n x es)"
  by (induction n arbitrary: x es) (simp_all add: i_emplace.simps [abs_def] consumes_intros)

lemma resize_to_0: "\<exists>n ys. resize_to C new n xs = Inr ys"
  by (rule exI [of _ 0]) (simp add: resize_to_def)

lemma archive_consumes:
  "consumes (i_archive C t old)" "consumes (i_alt C ts i x)" "consumes (i_fields C ts vs)"
proof (induction C t old "undefined :: ibuf" and C ts i x "undefined :: ibuf" and C ts vs "undefined :: ibuf"
    rule: i_archive_i_alt_i_fields.induct)
  case (3 C t old)
  have "consumes (i_archive C t x)" if "is_arithmetic t = None" for x
    using 3 that resize_to_0 [of C "default_val t" "elems old"] by blast
  then show ?case
    by (cases "is_arithmetic t")
      (auto simp: i_archive_fun intro!: consumes_intros consumes_size_tag consumes_items)
next
  case (4 C t old)
  have "consumes (i_archive C t x)" for x
    using 4 resize_to_0 [of C "default_val t" "elems old"] by blast
  then show ?case by (auto simp: i_archive_fun intro!: consumes_intros consumes_size_tag consumes_items)
next
  case (10 C n t old)
  then show ?case
    by (cases "is_arithmetic t") (auto simp: i_archive_fun intro!: consumes_intros consumes_items)
qed (auto simp: i_archive_fun intro!: consumes_intros consumes_size_tag consumes_items consumes_entry consumes_emplace
    split: option.splits)

lemma i_num_8_taken:
  assumes "8 \<le> i_avail b" "i_num 8 old b = Inr (n, v, b')"
  shows "n = 8"
  using assms by (auto simp: i_num_def i_read_def Let_def min_def split: if_splits)

lemma i_package_shortens:
  assumes "i_package C ts olds b = Inr (n, vs, b')" "n \<noteq> - 1"
  shows "i_avail b' < i_avail b"
proof -
  have ready: "i_ready b" using assms by (auto simp: i_package_def split: if_splits)
  then have av: "8 \<le> i_avail b" by (simp add: i_ready_def)
  obtain k ws where f: "i_fields C (T_num 8 # ts) (V_num (i_avail b) # olds) b = Inr (k, ws, b')"
    using assms ready by (auto simp: i_package_def i_archives_def)
  then obtain m v b1 j where "i_num 8 (V_num (i_avail b)) b = Inr (m, v, b1)" "k = m + j"
    by (auto simp: then_r_def i_archive_fun)
  then have "8 \<le> k" using i_num_8_taken [OF av] by fastforce
  with advances_avail [OF consumesD [OF archive_consumes(3) f]] show ?thesis by simp
qed

section \<open>Messages\<close>

text \<open>The handlers, one for some of the alternatives of the message type. A handler gets the message by
  reference and may leave something else in its place; \<open>'s\<close> is the state of the owner. The overload for
  all other alternatives is \<open>assert(false)\<close>.\<close>

type_synonym 's handler = "cval \<Rightarrow> 's \<Rightarrow> (cval \<times> 's) outcome"
type_synonym 's functors = "nat \<Rightarrow> 's handler option"

definition call_functor :: "'s functors \<Rightarrow> nat \<Rightarrow> 's handler" where
  "call_functor fs i x s = (case fs i of None \<Rightarrow> ((x, s), Some Assert_failed) | Some h \<Rightarrow> h x s)"

definition visit :: "'s functors \<Rightarrow> 's handler" where
  "visit fs pb s = (case pb of
       V_variant i x \<Rightarrow> (case call_functor fs i x s of ((x, s), e) \<Rightarrow> ((V_variant i x, s), e))
     | _ \<Rightarrow> ((pb, s), Some Bad_variant_access))"

text \<open>\<open>BrokenIO\<close> is the second alternative of a message; \<open>ios_in\<close> and \<open>ios_out\<close> are the numbers of the two
  modes.\<close>

abbreviation broken_index :: nat where "broken_index \<equiv> 1"
abbreviation ios_in :: nat where "ios_in \<equiv> 8"
abbreviation ios_out :: nat where "ios_out \<equiv> 16"

definition broken_io :: "nat \<Rightarrow> int \<Rightarrow> cval" where
  "broken_io mode e = V_list [V_num mode, V_errc Cat_generic (nat e)]"

text \<open>An input stream with the variable the closure of \<open>insert_channel\<close> keeps from event to event.\<close>

record 's channel =
  ch_in :: ibuf
  ch_pb :: cval
  ch_owner :: 's

definition mk_channel :: "cty \<Rightarrow> 's \<Rightarrow> 's channel" where
  "mk_channel t s = \<lparr>ch_in = mk_ibuf True False, ch_pb = default_val t, ch_owner = s\<rparr>"

text \<open>The loop over the complete messages. An exception leaves the closure; what it has done to the owner
  stays.\<close>

function read_messages :: "cxx \<Rightarrow> cty \<Rightarrow> 's functors \<Rightarrow> 's channel \<Rightarrow> (exn \<times> 's) + 's channel" where
  "read_messages C t fs c =
     (case i_package C [t] [ch_pb c] (ch_in c) of
        Inl e \<Rightarrow> Inl (e, ch_owner c)
      | Inr (n, vs, b) \<Rightarrow>
          if n = - 1 then Inr (c\<lparr>ch_in := b\<rparr>)
          else (case visit fs (hd vs) (ch_owner c) of
                  ((pb, s), Some e) \<Rightarrow> Inl (e, s)
                | ((pb, s), None) \<Rightarrow> read_messages C t fs (c\<lparr>ch_in := b, ch_pb := pb, ch_owner := s\<rparr>)))"
  by pat_completeness auto
termination
  by (relation "measure (\<lambda>(C, t, fs, c). i_avail (ch_in c))") (auto dest: i_package_shortens)

declare read_messages.simps [simp del]

text \<open>The closure of the input stream, when the descriptor is readable: an error of the device goes to its
  handler, otherwise \<open>k\<close> goes on. Handlers that take the stream itself get it, others its messages.\<close>

definition synchronized ::
  "'s functors \<Rightarrow> ('s channel \<Rightarrow> (exn \<times> 's) + 's channel) \<Rightarrow> 's channel \<Rightarrow> sysret list \<Rightarrow> u8 list \<Rightarrow>
     (((exn \<times> 's) + 's channel) \<times> io) option" where
  "synchronized fs k c rs ch =
     (case i_sync (ch_in c) rs ch of
        None \<Rightarrow> None
      | Some (b, Inr r, io) \<Rightarrow> Some (k (c\<lparr>ch_in := b\<rparr>), io)
      | Some (b, Inl e, io) \<Rightarrow> Some (
          (case e of
             System_error n \<Rightarrow>
               (case call_functor fs broken_index (broken_io ios_in n) (ch_owner c) of
                  ((x, s), None) \<Rightarrow> Inr (c\<lparr>ch_in := b, ch_pb := V_variant broken_index x, ch_owner := s\<rparr>)
                | ((x, s), Some e) \<Rightarrow> Inl (e, s))
           | _ \<Rightarrow> Inl (e, ch_owner c)), io))"

definition on_readable ::
  "cxx \<Rightarrow> cty \<Rightarrow> 's functors \<Rightarrow> 's channel \<Rightarrow> sysret list \<Rightarrow> u8 list \<Rightarrow> (((exn \<times> 's) + 's channel) \<times> io) option" where
  "on_readable C t fs = synchronized fs (read_messages C t fs)"

definition on_readable_stream ::
  "'s functors \<Rightarrow> (ibuf \<Rightarrow> 's \<Rightarrow> (ibuf \<times> 's) outcome) \<Rightarrow> 's channel \<Rightarrow> sysret list \<Rightarrow> u8 list \<Rightarrow>
     (((exn \<times> 's) + 's channel) \<times> io) option" where
  "on_readable_stream fs f = synchronized fs (\<lambda>c. case f (ch_in c) (ch_owner c) of
       ((b, s), None) \<Rightarrow> Inr (c\<lparr>ch_in := b, ch_owner := s\<rparr>)
     | ((b, s), Some e) \<Rightarrow> Inl (e, s))"

text \<open>The closure of the output stream, with the handler that takes the stream if there is one.\<close>

definition on_writable ::
  "'s functors \<Rightarrow> (obuf \<Rightarrow> 's \<Rightarrow> (obuf \<times> 's) outcome) option \<Rightarrow> obuf \<Rightarrow> 's \<Rightarrow> sysret list \<Rightarrow> u8 list \<Rightarrow>
     ((obuf \<times> 's) outcome \<times> io) option" where
  "on_writable fs g b s rs ch =
     (case o_sync b rs ch of
        None \<Rightarrow> None
      | Some (Inr (b, r), io) \<Rightarrow> Some ((case g of None \<Rightarrow> ((b, s), None) | Some f \<Rightarrow> f b s), io)
      | Some (Inl e, io) \<Rightarrow> Some (
          (case e of
             System_error n \<Rightarrow>
               (case call_functor fs broken_index (broken_io ios_out n) s of ((x, s), e) \<Rightarrow> ((b, s), e))
           | _ \<Rightarrow> ((b, s), Some e)), io))"

text \<open>A synchronization sends a prefix of what waits, and nothing else changes.\<close>

lemma on_writable_sends:
  assumes "obuf_ok b" "on_writable fs None b s rs ch = Some (((b', s'), e), rs', ch')"
  shows "ch' @ o_content b' = ch @ o_content b"
  using assms o_sync_effect [OF assms(1), of rs ch]
  by (auto simp: on_writable_def split: option.splits sum.splits exn.splits prod.splits)

section \<open>Delivery\<close>

text \<open>What the handlers are called with: messages, and errors of the device. A handler copes with a message
  if it does not throw in any state.\<close>

datatype call = Message cval | Broken int

definition perform :: "'s functors \<Rightarrow> call \<Rightarrow> 's \<Rightarrow> 's" where
  "perform fs c s = snd (fst (case c of
       Message m \<Rightarrow> visit fs m s
     | Broken e \<Rightarrow> call_functor fs broken_index (broken_io ios_in e) s))"

definition copes :: "'s functors \<Rightarrow> cval \<Rightarrow> bool" where
  "copes fs m \<longleftrightarrow> (\<forall>s. snd (visit fs m s) = None)"

definition messages :: "call list \<Rightarrow> cval list" where
  "messages calls = concat (map (\<lambda>c. case c of Message m \<Rightarrow> [m] | Broken e \<Rightarrow> []) calls)"

lemma messages_simps [simp]:
  "messages [] = []" "messages (Message m # cs) = m # messages cs" "messages (Broken e # cs) = messages cs"
  "messages (cs @ ds) = messages cs @ messages ds" "messages (map Message ms) = ms"
  by (induction ms) (simp_all add: messages_def)

definition message_bytes :: "cty \<Rightarrow> cval \<Rightarrow> u8 list" where
  "message_bytes t m = package_bytes [t] [m]"

definition sent :: "cty \<Rightarrow> cval list \<Rightarrow> u8 list" where
  "sent t ms = concat (map (message_bytes t) ms)"

lemma sent_simps [simp]: "sent t [] = []" "sent t (m # ms) = message_bytes t m @ sent t ms"
  by (simp_all add: sent_def)

lemma message_bytes_nonempty: "0 < length (message_bytes t m)"
  by (simp add: message_bytes_def)

lemma length_sent_drop: "length (sent t (drop k ms)) \<le> length (sent t ms)"
  by (induction ms arbitrary: k) (auto simp: drop_Cons trans_le_add2 split: nat.splits)

text \<open>The state of a channel after the first \<open>k\<close> messages: the buffer and the bytes on their way hold the
  others, and the buffer no whole one.\<close>

definition holds :: "cty \<Rightarrow> cval list \<Rightarrow> ibuf \<Rightarrow> u8 list \<Rightarrow> bool" where
  "holds t ms b ch \<longleftrightarrow> ibuf_ok b \<and> i_content b @ ch = sent t ms \<and>
     (case ms of [] \<Rightarrow> True | m # _ \<Rightarrow> i_avail b < length (message_bytes t m))"

lemma read_messages_delivers:
  "list_all (wt C t) ms \<Longrightarrow> list_all (copes fs) ms \<Longrightarrow> ibuf_ok (ch_in c) \<Longrightarrow> i_content (ch_in c) @ ch = sent t ms \<Longrightarrow>
     length (sent t ms) < 2 ^ 63 \<Longrightarrow>
   \<exists>k c'. read_messages C t fs c = Inr c' \<and> k \<le> length ms \<and> holds t (drop k ms) (ch_in c') ch \<and>
     ch_owner c' = fold (perform fs) (map Message (take k ms)) (ch_owner c)"
proof (induction ms arbitrary: c)
  case Nil
  then have "i_content (ch_in c) = []" by simp
  then have "i_avail (ch_in c) = 0" using length_i_content [OF Nil.prems(3)] by simp
  then have "i_package C [t] [ch_pb c] (ch_in c) = Inr (- 1, [ch_pb c], ch_in c)"
    by (simp add: i_package_def i_ready_def)
  then show ?case using Nil.prems(3,4) by (auto simp: read_messages.simps [of C t fs c] holds_def)
next
  case (Cons m ms)
  let ?b = "ch_in c"
  have small: "length (package_bytes [t] [m]) < 2 ^ 63"
    using Cons.prems(5) by (simp add: message_bytes_def)
  have wt: "wt_fields C [t] [m]" using Cons.prems(1) by simp
  have bytes: "i_content ?b @ ch = message_bytes t m @ sent t ms" using Cons.prems(4) by simp
  show ?case
  proof (cases "length (message_bytes t m) \<le> i_avail ?b")
    case False
    then have "length (i_content ?b) < length (message_bytes t m)"
      using length_i_content [OF Cons.prems(3)] by simp
    moreover from this have "take (length (i_content ?b)) (message_bytes t m) = i_content ?b"
      using arg_cong [OF bytes, of "take (length (i_content ?b))"] by simp
    ultimately obtain rest where rest: "message_bytes t m = i_content ?b @ rest" "rest \<noteq> []"
      by (intro that [of "drop (length (i_content ?b)) (message_bytes t m)"])
        (metis append_take_drop_id, simp)
    from i_package_waits [OF Cons.prems(3) rest(1) [unfolded message_bytes_def] rest(2) small]
    have "read_messages C t fs c = Inr (c\<lparr>ch_in := ?b\<rparr>)"
      by (simp add: read_messages.simps [of C t fs c])
    then have "read_messages C t fs c = Inr (c\<lparr>ch_in := ?b\<rparr>) \<and> 0 \<le> length (m # ms) \<and>
        holds t (drop 0 (m # ms)) (ch_in (c\<lparr>ch_in := ?b\<rparr>)) ch \<and>
        ch_owner (c\<lparr>ch_in := ?b\<rparr>) = fold (perform fs) (map Message (take 0 (m # ms))) (ch_owner c)"
      using False Cons.prems(3,4) by (simp add: holds_def)
    then show ?thesis by blast
  next
    case True
    define rest where "rest = drop (length (message_bytes t m)) (i_content ?b)"
    have rest: "i_content ?b = message_bytes t m @ rest" "rest @ ch = sent t ms"
    proof -
      have "take (length (message_bytes t m)) (i_content ?b) = message_bytes t m"
        using arg_cong [OF bytes, of "take (length (message_bytes t m))"] True length_i_content [OF Cons.prems(3)] by simp
      then show "i_content ?b = message_bytes t m @ rest"
        unfolding rest_def by (metis append_take_drop_id)
      with bytes show "rest @ ch = sent t ms" by simp
    qed
    obtain b' where b': "i_package C [t] [ch_pb c] ?b = Inr (int (length (message_bytes t m)), [m], b')"
        "ibuf_ok b'" "i_content b' = rest"
      using i_package_ok [OF wt Cons.prems(3) rest(1) [unfolded message_bytes_def] small] by (auto simp: message_bytes_def)
    obtain pb s where v: "visit fs m (ch_owner c) = ((pb, s), None)"
      using Cons.prems(2) by (cases "visit fs m (ch_owner c)") (auto simp: copes_def dest!: spec [of _ "ch_owner c"])
    let ?c = "c\<lparr>ch_in := b', ch_pb := pb, ch_owner := s\<rparr>"
    have step: "read_messages C t fs c = read_messages C t fs ?c"
      using b'(1) v message_bytes_nonempty [of t m] by (simp add: read_messages.simps [of C t fs c])
    have s: "s = perform fs (Message m) (ch_owner c)" using v by (simp add: perform_def)
    have "\<exists>k c'. read_messages C t fs ?c = Inr c' \<and> k \<le> length ms \<and> holds t (drop k ms) (ch_in c') ch \<and>
        ch_owner c' = fold (perform fs) (map Message (take k ms)) (ch_owner ?c)"
      using Cons.prems b'(2,3) rest(2) by (intro Cons.IH) simp_all
    then obtain k c' where k: "read_messages C t fs ?c = Inr c'" "k \<le> length ms" "holds t (drop k ms) (ch_in c') ch"
        "ch_owner c' = fold (perform fs) (map Message (take k ms)) s"
      by auto
    then have "read_messages C t fs c = Inr c' \<and> Suc k \<le> length (m # ms) \<and> holds t (drop (Suc k) (m # ms)) (ch_in c') ch \<and>
        ch_owner c' = fold (perform fs) (map Message (take (Suc k) (m # ms))) (ch_owner c)"
      using step s by simp
    then show ?thesis by blast
  qed
qed

text \<open>Events: the replies of the kernel to the calls of each.\<close>

fun channel_run ::
  "cxx \<Rightarrow> cty \<Rightarrow> 's functors \<Rightarrow> sysret list list \<Rightarrow> 's channel \<Rightarrow> u8 list \<Rightarrow>
     (((exn \<times> 's) + 's channel) \<times> u8 list) option" where
  "channel_run C t fs [] c ch = Some (Inr c, ch)"
| "channel_run C t fs (rs # rss) c ch =
     (case on_readable C t fs c rs ch of
        None \<Rightarrow> None
      | Some (Inl e, rs', ch') \<Rightarrow> Some (Inl e, ch')
      | Some (Inr c, rs', ch') \<Rightarrow> channel_run C t fs rss c ch')"

text \<open>A kernel does not interrupt a call forever.\<close>

definition answers :: "sysret list \<Rightarrow> bool" where
  "answers rs \<longleftrightarrow> list_ex (\<lambda>r. r \<noteq> Sys_err EINTR) rs"

lemma dev_read_answers: "answers rs \<Longrightarrow> dev_read sz rs ch \<noteq> None"
proof -
  have "answers rs \<Longrightarrow> dev_read_loop sz rs ch \<noteq> None"
    by (induction sz rs ch rule: dev_read_loop.induct) (auto simp: answers_def Let_def)
  then show "answers rs \<Longrightarrow> dev_read sz rs ch \<noteq> None" by (simp add: dev_read_def)
qed

lemma i_sync_answers:
  assumes "answers rs"
  shows "i_sync b rs ch \<noteq> None"
proof (cases "i_reserve b")
  case (Inr p)
  obtain c n where p: "p = (c, n)" by (cases p)
  obtain w rs' ch' where "dev_read (n - (i_egptr c - i_eback c)) rs ch = Some (w, rs', ch')"
    using dev_read_answers [OF assms] by (metis not_None_eq prod_cases3)
  with Inr p show ?thesis by (simp add: i_sync_unfold Let_def split: sum.splits prod.splits)
qed (simp add: i_sync_unfold)

lemma i_sync_error:
  assumes "i_sync b rs ch = Some (b', Inl (System_error n), rs', ch')"
  shows "ch' = ch"
proof -
  have "dev_read_loop sz rs ch = Some (Inl e, rs', ch') \<Longrightarrow> ch' = ch" for sz e
    by (induction sz rs ch rule: dev_read_loop.induct) (auto simp: Let_def split: if_splits)
  then show ?thesis
    using assms by (auto simp: i_sync_unfold dev_read_def blit_def Let_def split: option.splits sum.splits if_splits)
qed

definition copes_broken :: "'s functors \<Rightarrow> bool" where
  "copes_broken fs \<longleftrightarrow> (\<forall>e s. snd (call_functor fs broken_index (broken_io ios_in e) s) = None)"

lemma on_readable_delivers:
  assumes h: "holds t ms (ch_in c) ch" and ms: "list_all (wt C t) ms" "list_all (copes fs) ms" "copes_broken fs"
    and small: "4 * length (sent t ms) < malloc_limit" and a: "answers rs"
  shows "\<exists>k c' rs' ch' calls. on_readable C t fs c rs ch = Some (Inr c', rs', ch') \<and> k \<le> length ms \<and>
    holds t (drop k ms) (ch_in c') ch' \<and>
    ch_owner c' = fold (perform fs) calls (ch_owner c) \<and> messages calls = take k ms"
proof -
  obtain b r rs' ch' where s: "i_sync (ch_in c) rs ch = Some (b, r, rs', ch')"
    using i_sync_answers [OF a, of "ch_in c" ch] by auto
  have ok: "ibuf_ok (ch_in c)" and bytes: "i_content (ch_in c) @ ch = sent t ms" using h by (simp_all add: holds_def)
  have av: "i_avail (ch_in c) \<le> length (sent t ms)"
    using length_i_content [OF ok] bytes by (metis le_add1 length_append)
  with small have "4 * i_avail (ch_in c) < malloc_limit" by linarith
  note eff = dev_in.sync_in_effect [OF ok this s [unfolded i_sync_def]]
  show ?thesis
  proof (cases r)
    case (Inl e)
    then obtain n where e: "r = Inl (System_error n)" using eff by auto
    obtain x s' where f: "call_functor fs broken_index (broken_io ios_in n) (ch_owner c) = ((x, s'), None)"
      using ms(3) by (cases "call_functor fs broken_index (broken_io ios_in n) (ch_owner c)")
        (auto simp: copes_broken_def dest!: spec [of _ n] spec [of _ "ch_owner c"])
    let ?c = "c\<lparr>ch_in := b, ch_pb := V_variant broken_index x, ch_owner := s'\<rparr>"
    have "on_readable C t fs c rs ch = Some (Inr ?c, rs', ch')"
      using s e f by (simp add: on_readable_def synchronized_def)
    moreover have "holds t ms b ch'"
    proof -
      have "ch' = ch" using i_sync_error s e by blast
      then have "i_content b = i_content (ch_in c)" "ibuf_ok b" using eff by auto
      then show ?thesis
        using h length_i_content [of b] length_i_content [OF ok] \<open>ch' = ch\<close>
        by (cases ms) (simp_all add: holds_def)
    qed
    moreover have "s' = fold (perform fs) [Broken n] (ch_owner c)" using f by (simp add: perform_def)
    ultimately have "on_readable C t fs c rs ch = Some (Inr ?c, rs', ch') \<and> 0 \<le> length ms \<and>
        holds t (drop 0 ms) (ch_in ?c) ch' \<and>
        ch_owner ?c = fold (perform fs) [Broken n] (ch_owner c) \<and> messages [Broken n] = take 0 ms"
      by simp
    then show ?thesis by blast
  next
    case (Inr x)
    have "length (sent t ms) < 2 ^ 63" using small by (simp add: malloc_limit_def)
    moreover have "ibuf_ok b" "i_content b @ ch' = sent t ms" using eff bytes by auto
    ultimately obtain k c' where k: "read_messages C t fs (c\<lparr>ch_in := b\<rparr>) = Inr c'" "k \<le> length ms"
        "holds t (drop k ms) (ch_in c') ch'" "ch_owner c' = fold (perform fs) (map Message (take k ms)) (ch_owner c)"
      using read_messages_delivers [OF ms(1,2), of "c\<lparr>ch_in := b\<rparr>" ch'] by auto
    then have "on_readable C t fs c rs ch = Some (Inr c', rs', ch')"
      using s Inr by (simp add: on_readable_def synchronized_def)
    with k show ?thesis by (metis messages_simps(5))
  qed
qed

lemma channel_run_delivers:
  "holds t ms (ch_in c) ch \<Longrightarrow> list_all (wt C t) ms \<Longrightarrow> list_all (copes fs) ms \<Longrightarrow> copes_broken fs \<Longrightarrow>
     4 * length (sent t ms) < malloc_limit \<Longrightarrow> list_all answers rss \<Longrightarrow>
   \<exists>k c' ch' calls. channel_run C t fs rss c ch = Some (Inr c', ch') \<and> k \<le> length ms \<and>
     holds t (drop k ms) (ch_in c') ch' \<and>
     ch_owner c' = fold (perform fs) calls (ch_owner c) \<and> messages calls = take k ms"
proof (induction rss arbitrary: c ch ms)
  case Nil
  then show ?case by (intro exI [of _ 0] exI [of _ c] exI [of _ ch] exI [of _ "[]"]) simp
next
  case (Cons rs rss)
  obtain j c1 rs' ch1 calls where j: "on_readable C t fs c rs ch = Some (Inr c1, rs', ch1)" "j \<le> length ms"
      "holds t (drop j ms) (ch_in c1) ch1" "ch_owner c1 = fold (perform fs) calls (ch_owner c)"
      "messages calls = take j ms"
    using on_readable_delivers [OF Cons.prems(1-5)] Cons.prems(6) by (metis list.pred_inject(2))
  have "4 * length (sent t (drop j ms)) < malloc_limit"
    using length_sent_drop [of t j ms] Cons.prems(5) by linarith
  moreover have "list_all (wt C t) (drop j ms)" "list_all (copes fs) (drop j ms)"
    using Cons.prems(2,3) set_drop_subset [of j ms] by (auto simp: list_all_iff)
  ultimately obtain k c2 ch2 calls' where k: "channel_run C t fs rss c1 ch1 = Some (Inr c2, ch2)" "k \<le> length (drop j ms)"
      "holds t (drop k (drop j ms)) (ch_in c2) ch2" "ch_owner c2 = fold (perform fs) calls' (ch_owner c1)"
      "messages calls' = take k (drop j ms)"
    using Cons.IH [OF j(3) _ _ Cons.prems(4)] Cons.prems(6) by auto
  have "channel_run C t fs (rs # rss) c ch = Some (Inr c2, ch2) \<and> j + k \<le> length ms \<and>
      holds t (drop (j + k) ms) (ch_in c2) ch2 \<and>
      ch_owner c2 = fold (perform fs) (calls @ calls') (ch_owner c) \<and> messages (calls @ calls') = take (j + k) ms"
    using j k by (simp add: take_add add.commute)
  then show ?case by blast
qed

text \<open>The peer: every message is one package.\<close>

fun write_messages :: "nat \<Rightarrow> cty \<Rightarrow> cval list \<Rightarrow> obuf \<Rightarrow> obuf result" where
  "write_messages junk t [] b = Inr b"
| "write_messages junk t (m # ms) b =
     bind_r (o_package junk [t] [m] b) (\<lambda>(n, b). write_messages junk t ms b)"

lemma write_messages_sent:
  "list_all (wt C t) ms \<Longrightarrow> obuf_ok b \<Longrightarrow> 2 * (o_avail b + length (sent t ms)) < malloc_limit \<Longrightarrow>
   \<exists>b'. write_messages junk t ms b = Inr b' \<and> obuf_ok b' \<and> o_content b' = o_content b @ sent t ms"
proof (induction ms arbitrary: b)
  case (Cons m ms)
  have wt: "wt_fields C [t] [m]" using Cons.prems(1) by simp
  have "2 * (o_avail b + length (package_bytes [t] [m])) < malloc_limit"
    using Cons.prems(3) by (simp add: message_bytes_def)
  then obtain c where c: "o_package junk [t] [m] b = Inr (length (package_bytes [t] [m]), c)" "obuf_ok c"
      "o_content c = o_content b @ message_bytes t m"
    using o_package_ok [OF wt Cons.prems(2), of junk] by (auto simp: message_bytes_def)
  have "o_avail c = o_avail b + length (message_bytes t m)"
    using length_o_content [OF c(2)] length_o_content [OF Cons.prems(2)] c(3) by simp
  then have "2 * (o_avail c + length (sent t ms)) < malloc_limit" using Cons.prems(3) by simp
  then show ?case using Cons.IH [OF _ c(2)] Cons.prems(1) c(1,3) by auto
qed simp

lemma holds_all:
  assumes "holds t (drop k ms) b []" "k \<le> length ms"
  shows "k = length ms"
proof (cases "drop k ms")
  case (Cons m ms')
  then have "i_content b = message_bytes t m @ sent t ms'" "i_avail b < length (message_bytes t m)" "ibuf_ok b"
    using assms(1) by (simp_all add: holds_def)
  then show ?thesis using length_i_content [of b] by simp
qed (use assms(2) in simp)

text \<open>C14: Messages reach the handlers. Whatever the pieces the kernel hands the bytes over in, after any number of
  events the handlers of a channel have been called with the first messages the peer has written, in their
  order and each once, besides errors of the device; the other messages are in the buffer and on their way, the
  buffer holds no complete one, and once all bytes have been taken all messages have been handled.\<close>

theorem channel_delivers:
  assumes "list_all (wt C t) ms" "list_all (copes fs) ms" "copes_broken fs" "list_all answers rss"
    and "4 * length (sent t ms) < malloc_limit"
  shows "\<exists>ob k c ch calls. write_messages junk t ms (mk_obuf True True) = Inr ob \<and>
    channel_run C t fs rss (mk_channel t s) (o_content ob) = Some (Inr c, ch) \<and>
    ch_owner c = fold (perform fs) calls s \<and> messages calls = take k ms \<and>
    i_content (ch_in c) @ ch = sent t (drop k ms) \<and>
    (k < length ms \<longrightarrow> i_avail (ch_in c) < length (message_bytes t (ms ! k))) \<and>
    (ch = [] \<longrightarrow> messages calls = ms)"
proof -
  have "2 * (o_avail (mk_obuf True True) + length (sent t ms)) < malloc_limit"
    using assms(5) by (simp add: mk_obuf_def o_avail_def)
  then obtain ob where ob: "write_messages junk t ms (mk_obuf True True) = Inr ob" "o_content ob = sent t ms"
    using write_messages_sent [OF assms(1) mk_obuf_ok(1) [of True True], of junk] by (auto simp: mk_obuf_ok)
  have "holds t ms (ch_in (mk_channel t s)) (sent t ms)"
    using mk_ibuf_ok [of True False] message_bytes_nonempty
    by (auto simp: mk_channel_def holds_def i_avail_def mk_ibuf_def split: list.splits)
  from channel_run_delivers [OF this assms(1-3,5,4)] obtain k c ch calls where
    k: "channel_run C t fs rss (mk_channel t s) (sent t ms) = Some (Inr c, ch)" "k \<le> length ms"
      "holds t (drop k ms) (ch_in c) ch" "ch_owner c = fold (perform fs) calls s" "messages calls = take k ms"
    by (auto simp: mk_channel_def)
  have "i_avail (ch_in c) < length (message_bytes t (ms ! k))" if "k < length ms"
    using k(3) Cons_nth_drop_Suc [OF that, symmetric] by (simp add: holds_def)
  moreover have "messages calls = ms" if "ch = []"
    using holds_all k(2,3,5) that by fastforce
  moreover have "i_content (ch_in c) @ ch = sent t (drop k ms)" using k(3) by (simp add: holds_def)
  ultimately show ?thesis using ob k(1,4,5) by metis
qed

text \<open>Two alternatives, a log as the owner's state, handlers that move the message away; the bytes come in
  three pieces with an interruption and a would-block in between, and then the end of the file.\<close>

definition example_messages_type :: cty where
  "example_messages_type = T_variant [T_num 2, T_tuple [], T_string 1]"

definition example_messages :: "cval list" where
  "example_messages = [V_variant 2 (V_list [V_num 104, V_num 105]), V_variant 0 (V_num 258)]"

definition example_functors :: "cval list functors" where
  "example_functors i = Some (\<lambda>x s. ((V_indet, s @ [V_variant i x]), None))"

definition example_events :: "sysret list list" where
  "example_events = [[Sys_ok 20], [Sys_err EAGAIN], [Sys_err EINTR, Sys_ok 9], [Sys_ok 100], [Sys_ok 1]]"

theorem channel_delivers_witness:
  "\<exists>k c ch calls. channel_run example_cxx example_messages_type example_functors example_events
       (mk_channel example_messages_type []) (sent example_messages_type example_messages) = Some (Inr c, ch) \<and>
     ch_owner c = fold (perform example_functors) calls [] \<and> messages calls = take k example_messages \<and>
     (ch = [] \<longrightarrow> messages calls = example_messages)"
proof -
  have wt: "list_all (wt example_cxx example_messages_type) example_messages"
    by (simp add: example_messages_def example_messages_type_def example_cxx_def is_num_def size_ok_def numeral_2_eq_2)
  have cope: "list_all (copes example_functors) example_messages" "copes_broken example_functors"
    by (simp_all add: copes_def copes_broken_def visit_def call_functor_def example_functors_def example_messages_def)
  have ans: "list_all answers example_events"
    by (simp add: example_events_def answers_def)
  have len: "length (sent example_messages_type example_messages) = 44"
    by (simp add: example_messages_def example_messages_type_def message_bytes_def enc_num_def numeral_2_eq_2)
  have small: "4 * length (sent example_messages_type example_messages) < malloc_limit"
    unfolding len by (simp add: malloc_limit_def)
  have "2 * (o_avail (mk_obuf True True) + length (sent example_messages_type example_messages)) < malloc_limit"
    unfolding len by (simp add: o_avail_def mk_obuf_def malloc_limit_def)
  from write_messages_sent [OF wt mk_obuf_ok(1) this, of 0] mk_obuf_ok(2) [of True True]
  have "o_content ob = sent example_messages_type example_messages"
    if "write_messages 0 example_messages_type example_messages (mk_obuf True True) = Inr ob" for ob
    using that by auto
  with channel_delivers [OF wt cope ans small, of 0 "[]"] show ?thesis by metis
qed

text \<open>A tag that is no alternative leaves the variable of the loop as it was: the handler is called once more
  with what is left of the message before.\<close>

lemma unknown_alternative_repeats:
  assumes "ibuf_ok (ch_in c)" "i_content (ch_in c) = le_bytes 8 16 @ le_bytes 8 tag @ rest"
    and "length ts \<le> tag" "tag < 256 ^ 8" "visit fs (ch_pb c) (ch_owner c) = ((pb, s), None)"
  shows "\<exists>b. i_content b = rest \<and> read_messages C (T_variant ts) fs c =
    read_messages C (T_variant ts) fs (c\<lparr>ch_in := b, ch_pb := pb, ch_owner := s\<rparr>)"
proof -
  have tag: "reads (i_archive C (T_variant ts) (ch_pb c)) (ch_pb c) (enc_size tag @ [])"
    unfolding i_archive_fun using assms(3) by (intro reads_then [OF reads_size [OF assms(4)]]) (simp add: reads_nothing)
  have "reads (i_fields C [T_variant ts] [ch_pb c]) [ch_pb c] ((enc_size tag @ []) @ [])"
    unfolding i_fields.simps [abs_def] list.case
    by (rule reads_then [OF tag]) (simp add: reads_map [OF reads_nothing])
  then have "reads (i_fields C [T_variant ts] [ch_pb c]) [ch_pb c] (le_bytes 8 tag)"
    by simp
  from i_package_reads [OF this assms(1)] assms(2) obtain b where
    "i_package C [T_variant ts] [ch_pb c] (ch_in c) = Inr (16, [ch_pb c], b)" "i_content b = rest"
    by (auto simp del: le_bytes.simps)
  then show ?thesis using assms(5) by (auto simp: read_messages.simps [of C "T_variant ts" fs c])
qed

section \<open>Listeners\<close>

text \<open>The closure of \<open>insert_listener\<close>: the reply of \<open>accept4\<close> goes to the owner; system errors, also those of
  the owner, are logged.\<close>

definition on_connection :: "(nat \<Rightarrow> 's \<Rightarrow> 's outcome) \<Rightarrow> sysret \<Rightarrow> 's \<Rightarrow> 's outcome" where
  "on_connection f r s =
     (case (case r of Sys_err e \<Rightarrow> (s, Some (System_error e)) | Sys_ok fd \<Rightarrow> f fd s) of
        (s, Some (System_error e)) \<Rightarrow> (s, None)
      | res \<Rightarrow> res)"

lemma listener_survives:
  assumes "\<And>fd s e. snd (f fd s) = Some e \<Longrightarrow> \<exists>k. e = System_error k"
  shows "snd (on_connection f r s) = None"
  using assms [of _ s] by (auto simp: on_connection_def split: sysret.splits prod.splits option.splits exn.splits)
    (metis (no_types) exn.distinct snd_conv)+

text \<open>The closure of \<open>insert_stdout_listener\<close> and \<open>insert_stderr_listener\<close>: one \<open>read\<close> from the program and
  one \<open>write\<close> to the terminal; the value is whether the event stays.\<close>

definition BUFSIZ :: nat where "BUFSIZ = 8192"

definition forward :: "sysret \<Rightarrow> sysret \<Rightarrow> u8 list \<Rightarrow> u8 list \<Rightarrow> bool \<times> u8 list \<times> u8 list" where
  "forward r w ch out =
     (case r of
        Sys_err e \<Rightarrow> (False, ch, out)
      | Sys_ok n \<Rightarrow>
          let nr = min n (min BUFSIZ (length ch)); buffer = take nr ch; ch = drop nr ch in
          if nr = 0 then (False, ch, out)
          else (case w of
                  Sys_err e \<Rightarrow> (False, ch, out)
                | Sys_ok m \<Rightarrow> (min m nr = nr, ch, out @ take (min m nr) buffer)))"

fun forward_run :: "(sysret \<times> sysret) list \<Rightarrow> u8 list \<Rightarrow> u8 list \<Rightarrow> bool \<times> u8 list \<times> u8 list" where
  "forward_run [] ch out = (True, ch, out)"
| "forward_run ((r, w) # rws) ch out =
     (case forward r w ch out of (stays, ch, out) \<Rightarrow>
        if stays then forward_run rws ch out else (False, ch, out))"

lemma forward_once:
  assumes "forward r w ch out = (stays, ch', out')"
  shows "\<exists>lost. out' @ lost @ ch' = out @ ch \<and> (stays \<longrightarrow> lost = [])"
proof (cases r)
  case (Sys_ok n)
  define nr where "nr = min n (min BUFSIZ (length ch))"
  have "drop m (take nr ch) @ drop nr ch = drop m ch" if "m \<le> nr" for m
    using that by (metis append_take_drop_id drop_append length_take diff_is_0_eq drop_0 nr_def min.absorb2 min.cobounded2 min.coboundedI2)
  then have part: "take m ch @ drop m (take nr ch) @ drop nr ch = ch" if "m \<le> nr" for m
    using that by simp
  show ?thesis
  proof (cases w)
    case (Sys_err e)
    with assms Sys_ok part [of 0] show ?thesis
      by (intro exI [of _ "take nr ch"]) (auto simp: forward_def Let_def nr_def split: if_splits)
  next
    case (Sys_ok m)
    with assms \<open>r = Sys_ok n\<close> part [of "min m nr"] show ?thesis
      by (intro exI [of _ "drop (min m nr) (take nr ch)"])
        (auto simp: forward_def Let_def nr_def min.assoc min_def split: if_splits)
  qed
qed (use assms in \<open>simp add: forward_def\<close>)

lemma forward_prefix:
  "forward_run rws ch out = (stays, ch', out') \<Longrightarrow>
     \<exists>lost. out' @ lost @ ch' = out @ ch \<and> (stays \<longrightarrow> lost = [])"
proof (induction rws ch out rule: forward_run.induct)
  case (2 r w rws ch out)
  obtain b c d where f: "forward r w ch out = (b, c, d)" by (cases "forward r w ch out")
  have one: "\<exists>lost. d @ lost @ c = out @ ch \<and> (b \<longrightarrow> lost = [])"
    using forward_once [OF f] .
  show ?case
  proof (cases b)
    case True
    then have "forward_run rws c d = (stays, ch', out')" using "2.prems" f by simp
    with "2.IH" [OF f [symmetric] refl True] one True show ?thesis by auto
  next
    case False
    with "2.prems" f one show ?thesis by auto
  qed
qed simp

lemma interrupted_forward_removed:
  "forward_run [(Sys_err EINTR, Sys_ok 1), (Sys_ok 1, Sys_ok 1)] [1] [] = (False, [1], [])"
  by (simp add: forward_def)

end
