(* ===== verification/Spec2Isabelle.thy ===== *)
theory Spec2Isabelle
  imports ExecutorRun Master AgentRendezvous Wakeup OutStream ArchiveTypes BlockFile Epoll Fifo Threadpool Pool
    Sockets Webui Csv Uuid Channel
begin

text \<open>
  DtCraft is a runtime for distributed stream programming in C++17. A user program builds a stream
  graph (vertices, streams between them, containers that group vertices and request resources) and
  runs an executor. The program is started several times: once by the user, where the executor only
  submits the graph as a topology to the master, and once per container, on the machine of an agent,
  where the executor runs the vertices of the container. In local mode one process runs everything.

    \<^item> The user's executor turns the graph into a \<open>Topology\<close> and sends it to the master.
    \<^item> The master (master.cpp, scheduler.cpp) keeps a queue of graphs and the free resources of the
      agents, places every container of a graph on an agent, extracts the topology of each container
      and sends it to its agent; it collects the reports about the tasks into a \<open>Solution\<close>, which
      goes back to the user.
    \<^item> An agent (agent.cpp) creates a task for each topology. Streams between containers need a
      connection between the tasks; an agent collects the two ends (frontiers), which come in any
      order relative to the topology, in a hatchery, and starts the task in a control group and a
      container (lxc/) with the sockets in its environment once it has all of them.
    \<^item> The executor in the container (executor.cpp) rebuilds the graph from the program, takes the
      sockets from the environment (policy.cpp), and runs the callbacks of the streams and vertices
      on a reactor.
    \<^item> All processes run a reactor (event/): an event loop over a demultiplexer and a heap of timers,
      which hands events to worker threads and takes closures back through a queue.
    \<^item> A stream (ipc/, archive/) is a device, a buffer on either side, and an archiver that writes
      values into the buffer and packages that a reader takes only when they are complete.

  \<^bold>\<open>Theories\<close>, in the order of their imports. Names of functions of the code are kept, with the prefix
  of their class; source paths are relative to src/src and src/include/dtc.

    \<^item> \<open>Prelude\<close>: key types, words, the results of fallible code (\<open>result\<close>: the value or an
      \<open>exn\<close>: a thrown exception, a failed assertion or undefined behaviour), the outcomes of code
      that changes its state before it throws (\<open>outcome\<close>), hash maps as association lists
      (\<open>um_find\<close>, \<open>um_at\<close>, \<open>um_assign\<close>, \<open>um_try_emplace\<close>, \<open>um_erase\<close>) with the rules the components
      share. \<open>Strings\<close>: \<open>std::to_string\<close>, \<open>std::stoi\<close>, the regular-expression tokenizers.
    \<^item> \<open>Runtime\<close> (policy.cpp): the map of environment variables, its typed accessors, the texts of
      frontiers and of hosts and their parsers, the C arrays for exec.
    \<^item> \<open>Resource\<close> (protobuf/resource.cpp): amounts as 64-bit words with checked and unchecked
      arithmetic. \<open>Topology\<close> (protobuf/topology.cpp): the message and the extraction of a task.
      \<open>Table\<close> (utility/table.cpp) and \<open>TaskInfo\<close> (protobuf/taskinfo.cpp, solution.cpp): reports.
    \<^item> \<open>StreamGraph\<close> (kernel/graph.cpp, vertex.cpp, stream.cpp): a graph is built by calls that queue
      closures; \<open>graph_make\<close> runs them according to the topology it is given, \<open>topologize\<close> makes a
      topology of the graph.
    \<^item> \<open>Master\<close> (kernel/master.cpp, scheduler.cpp): the state of the master and one definition per
      handler, what it sends in a log; \<open>master_reach\<close> are the states that its handlers lead to while its
      peers keep to \<open>protocol\<close>.
    \<^item> \<open>Cgroup\<close> (lxc/cgroup.cpp) and \<open>Lxc\<close> (lxc/container.cpp): control groups over a parameter for
      the files, containers over the replies of the kernel.
    \<^item> \<open>Agent\<close> and \<open>AgentRendezvous\<close> (kernel/agent.cpp): the state, the handlers and the invariant;
      the properties of sequences of messages.
    \<^item> \<open>TimeoutHeap\<close> (event/event.cpp), \<open>Select\<close> (event/select.cpp), \<open>Reactor\<close> (event/reactor.cpp):
      the timers, the demultiplexer, the loop. \<open>Wakeup\<close>: the accesses of the threads to the queue,
      the flag and the notifier, interleaved.
    \<^item> \<open>Device\<close> (device.cpp), \<open>StreamBuf\<close> (ipc/streambuf.cpp), \<open>Archive\<close> (archive/binary.hpp),
      \<open>OutStream\<close> (ipc/ipc.cpp, kernel/manager.hpp): the layers of a stream.
    \<^item> \<open>Executor\<close> and \<open>ExecutorRun\<close> (kernel/executor.cpp): set-up and wiring of the graph, and the run
      as a step relation over the events of the reactor.
    \<^item> \<open>Epoll\<close> (event/epoll.cpp): the other demultiplexer, over the interest list of the kernel.
      \<open>Threadpool\<close> (concurrent/threadpool.hpp): the owner and the workers of a pool, interleaved.
      \<open>Fifo\<close> (concurrent/fifo.hpp): the bounded queue of one producer and one consumer, with the
      single accesses of the two sides interleaved. \<open>Pool\<close> (utility/allocator.hpp): the allocator of
      objects of one type.
    \<^item> \<open>Channel\<close> (kernel/manager.hpp and manager.cpp): the closures that join a stream to the handlers of its
      owner, for messages, errors, connections and the output of remote programs.
    \<^item> \<open>ArchiveTypes\<close>: what the input archiver of \<open>Archive\<close> makes of arbitrary bytes. \<open>BlockFile\<close>
      (ipc/block_file.cpp, \<open>save\<close> and \<open>load\<close> of ml/dnn.cpp): files as devices.
    \<^item> \<open>Sockets\<close> (ipc/socket.cpp): opening a server and a client. \<open>Webui\<close> (webui/webui.cpp, \<open>make_response\<close>
      of kernel/master.cpp): requests and responses of the web page. \<open>Csv\<close> (csv/csv.cpp) and \<open>Uuid\<close>
      (utility/uuid.hpp): tables in text files, identifiers.

  \<^bold>\<open>Interfaces.\<close> A contract between components is a locale, interpreted on the model of each provider.

    \<^item> \<open>demux\<close>, a demultiplexer, for the reactor: provided by \<open>Select\<close> and, over a kernel that refuses
      no valid call, by \<open>Epoll\<close>. The stronger \<open>total_demux\<close>, in which removing what is not registered
      changes nothing, is provided by \<open>Select\<close> only.
    \<^item> \<open>timer_queue\<close>, for the reactor: provided by \<open>TimeoutHeap\<close>.
    \<^item> \<open>out_device\<close> and \<open>in_device\<close>, the virtual functions of a device, for the synchronisation of the stream
      buffers: provided by \<open>Device\<close> (in \<open>StreamBuf\<close>) and by \<open>BlockFile\<close>.
    \<^item> \<open>attempts\<close>, an attempt on one address, for the search of an address that works: provided by the
      attempts of servers and of clients in \<open>Sockets\<close>.
    \<^item> \<open>dict\<close>, for every component that keeps a hash map: provided in \<open>Prelude\<close>.

  What is not in the repository is an argument: the replies of the kernel, the standard hash, the order
  in which an unordered map is traversed, the user's callbacks, the callbacks of the HTTP parser. Where
  a property needs the documented behaviour of such an argument it is a named premise (\<open>kernel_ok\<close>,
  \<open>select_doc\<close>, \<open>ctl_doc\<close> and \<open>clone_doc\<close> for the effects of calls that succeed, \<open>fair_os\<close>, \<open>wait_doc\<close>,
  \<open>cxx_doc\<close>, \<open>transfers\<close>, \<open>answers\<close>, \<open>fresh\<close>, \<open>in_pieces\<close>; \<open>spawn_succeeds\<close> and \<open>deploy_succeeds\<close> where a
  property is about a system that does not refuse; \<open>protocol\<close> for the peers of the master) and the
  witness of the property gives an instance.

  \<^bold>\<open>What the lemmas show.\<close>

    \<^item> Master: as long as its peers keep to the protocol, no resources are lost or invented, the queue is
      served in order without dropping a graph, a deployed graph has one task per container on agents that
      know of it, and a graph is reported exactly once; a placement gives each container in its turn
      to a smallest agent that fits.
    \<^item> Agent: tasks and frontiers stay consistent; a task starts with the right sockets whatever the
      order of its messages; a container that was started is waited for.
    \<^item> Graph, topology and executor: the program rebuilds the part of the graph that the topology of
      its container describes; every stream gets its events; an executor ends only by \<open>std::exit\<close> or the
      assertions about the end of a program, and can always wind down if no stream is critical, by a
      measure on its steps.
    \<^item> Reactor: the events, the heap and the demultiplexer agree in every reachable state, unless a
      periodic timer is thawed; the heap refines a set of timers; both demultiplexers watch exactly the
      events registered; no closure is left in the queue with the owner asleep.
    \<^item> Channels: the handlers of a channel get the messages of the peer, in order and once, and none waits
      in the buffer when it is complete; reading ends on any bytes.
    \<^item> Streams: bytes leave in the order they entered, through any sequence of growth, sync, flush,
      purge and drop; packages arrive whole; values survive encoding and decoding, also
      through a file; whatever the bytes, what is decoded belongs to its type; no data stay in a
      buffer with nobody to write them.
    \<^item> Concurrency: every task of a pool is executed once and a worker is awake while tasks wait, a
      shutdown returns unless spurious wake-ups or submissions go on for ever; the bounded queue behaves as a queue, without two sides in one slot; the
      allocator never hands out an entry twice.
    \<^item> Sockets and web page: a client connects to the first address that accepts it and closes what
      it opened before, up to descriptors that no \<open>fd_set\<close> can hold; requests are assembled whatever the pieces their parts come in; the bytes of
      a response are its head and its body, in full.
    \<^item> Texts: environment, frontiers, hosts, cpusets and reports are parsed back or printed without
      reading outside of their data; a table read from a file is rectangular; the text of an
      identifier determines it.

  \<^bold>\<open>Loops and bounds.\<close> Loops over containers, maps and lists are structural recursions. Loops on
  system calls (\<open>Device\<close>, \<open>Lxc\<close>, \<open>Cgroup\<close>) recur over the list of the replies the kernel gives; a
  list that is too short is the outcome that the call is still blocked, and the properties of
  termination state which replies end the loop. \<open>bubble_up\<close>, \<open>bubble_down\<close>, the doubling of a buffer
  and the loops of the reactor have termination proofs by measures (the index, the distance to the
  end of the array, the distance to the size needed, the number of events due). An allocation fails
  from \<open>PTRDIFF_MAX\<close> bytes on. Words have their widths wherever the code can wrap around; the keys of
  maps are integers, since the code only copies and compares them.

  \<^bold>\<open>Not modelled\<close>: pipes, pairs of sockets, shared memory and named pipes (ipc/), single system calls
  that keep no state but the descriptor, on which \<open>Device\<close> then reads and writes; the vendored HTTP
  parser, JSON library, test framework, concurrent queue and Eigen; the machine-learning code, floating-point
  arithmetic on Eigen's matrices, but for saving and loading; the header-only operators and feeders
  (cell/), whose behaviour is the callbacks of the user; logging, random numbers, the readings of /proc
  and the table of error texts. Data races inside one handler are modelled where the code shares state
  between threads (\<open>Wakeup\<close>, \<open>OutStream\<close>, \<open>Threadpool\<close>, \<open>Fifo\<close>); elsewhere the code asserts that the
  owner runs the function, and the model takes it as atomic.
\<close>

end
